(* ===== verification/Prelude.thy ===== *)
theory Prelude
  imports Main "HOL-Library.Monad_Syntax" "HOL-Library.Multiset" "HOL-Library.Word"
begin

text \<open>
  Shared vocabulary of the development: names for the machine types of the C++ sources, the
  convention for undefined behaviour, the collections of rewrite rules that the component
  theories fill, and the generic lemmas on lists and options they use.

  A C++ computation that may dereference a null or dangling pointer, read outside an array, or
  fail to return, is a function into \<open>option\<close>; \<open>None\<close> stands for all of these, and a theorem that
  the code is safe is a theorem that the result is \<open>Some\<close>. Exceptions that the code throws on
  purpose are values of \<open>cxx_exception\<close> in a sum type, kept apart from undefined behaviour.
\<close>

type_synonym addr = nat
type_synonym ptr = "addr option"
type_synonym u8 = "8 word"
type_synonym u16 = "16 word"
type_synonym u32 = "32 word"
type_synonym u64 = "64 word"

datatype cxx_exception =
    runtime_error string
  | out_of_range string
  | cache_error string
  | invalid_argument string
  | length_error string

named_theorems heap_simps \<open>rewrite rules for heap primitives\<close>
named_theorems chain_simps \<open>rewrite rules for linked chains of nodes\<close>
named_theorems hash_simps \<open>rewrite rules for hash contexts\<close>
named_theorems cfg_simps \<open>rewrite rules for control flow graphs\<close>

subsection \<open>Options\<close>

lemma bind_Some_iff [simp]:
  "Option.bind m f = Some y \<longleftrightarrow> (\<exists>x. m = Some x \<and> f x = Some y)"
  by (cases m) auto

lemma bind_None_iff:
  "Option.bind m f = None \<longleftrightarrow> m = None \<or> (\<exists>x. m = Some x \<and> f x = None)"
  by (cases m) auto

subsection \<open>Lists\<close>

definition first_ptr :: "addr list \<Rightarrow> ptr \<Rightarrow> ptr" where
  "first_ptr as q = (case as of [] \<Rightarrow> q | a # _ \<Rightarrow> Some a)"

definition last_ptr :: "ptr \<Rightarrow> addr list \<Rightarrow> ptr" where
  "last_ptr p as = (if as = [] then p else Some (last as))"

lemma first_ptr_simps [simp]:
  "first_ptr [] q = q"
  "first_ptr (a # as) q = Some a"
  by (simp_all add: first_ptr_def)

lemma last_ptr_simps [simp]:
  "last_ptr p [] = p"
  "last_ptr p (as @ [a]) = Some a"
  "last_ptr p (a # as) = last_ptr (Some a) as"
  by (simp_all add: last_ptr_def)

lemma first_ptr_append [simp]: "first_ptr (as @ bs) q = first_ptr as (first_ptr bs q)"
  by (cases as) simp_all

lemma last_ptr_append [simp]: "last_ptr p (as @ bs) = last_ptr (last_ptr p as) bs"
  by (induction as arbitrary: p) simp_all

lemma first_ptr_None [simp]: "first_ptr as None = None \<longleftrightarrow> as = []"
  by (cases as) simp_all

lemma last_ptr_None [simp]: "last_ptr None as = None \<longleftrightarrow> as = []"
  by (simp add: last_ptr_def)

lemma sorted_mset_unique:
  fixes xs :: "'a::linorder list"
  assumes "mset xs = mset ys" "sorted xs"
  shows "xs = sort ys"
  using assms by (metis properties_for_sort)

subsection \<open>Decimal notation\<close>

text \<open>\<open>std_to_string\<close> is \<open>std::to_string\<close> on integers.\<close>

definition digit :: "int \<Rightarrow> char" where
  "digit d = ''0123456789'' ! nat d"

function decimal :: "int \<Rightarrow> string" where
  "decimal n = (if n < 10 then [digit n] else decimal (n div 10) @ [digit (n mod 10)])"
  by pat_completeness auto
termination
  by (relation "measure nat") auto

declare decimal.simps [simp del]

definition std_to_string :: "int \<Rightarrow> string" where
  "std_to_string i = (if i < 0 then CHR ''-'' # decimal (- i) else decimal i)"

definition digit_value :: "char \<Rightarrow> int" where
  "digit_value c = int (of_char c) - 48"

definition read_decimal :: "string \<Rightarrow> int" where
  "read_decimal = foldl (\<lambda>a c. a * 10 + digit_value c) 0"

lemma digit_cases: "0 \<le> d \<Longrightarrow> d < 10 \<Longrightarrow> d \<in> {0, 1, 2, 3, 4, 5, 6, 7, 8, 9::int}"
  by simp arith

lemma digit_value_digit [simp]: "0 \<le> d \<Longrightarrow> d < 10 \<Longrightarrow> digit_value (digit d) = d"
  by (drule (1) digit_cases) (auto simp: digit_def digit_value_def)

lemma digit_in [simp]: "0 \<le> d \<Longrightarrow> d < 10 \<Longrightarrow> digit d \<in> set ''0123456789''"
  by (drule (1) digit_cases) (auto simp: digit_def)

lemma decimal_digits: "0 \<le> n \<Longrightarrow> set (decimal n) \<subseteq> set ''0123456789''"
proof (induction n rule: decimal.induct)
  case (1 n)
  then show ?case
    using digit_in [of n] digit_in [of "n mod 10"] by (subst decimal.simps) (auto simp del: digit_in)
qed

lemma read_decimal [simp]: "0 \<le> n \<Longrightarrow> read_decimal (decimal n) = n"
proof (induction n rule: decimal.induct)
  case (1 n)
  then show ?case
    by (subst decimal.simps) (auto simp: read_decimal_def)
qed

lemma decimal_nonempty [simp]: "decimal n \<noteq> []"
  by (subst decimal.simps) simp

definition read_integer :: "string \<Rightarrow> int" where
  "read_integer s = (case s of [] \<Rightarrow> 0 | c # cs \<Rightarrow> if c = CHR ''-'' then - read_decimal cs else read_decimal s)"

lemma read_integer_to_string [simp]: "read_integer (std_to_string i) = i"
proof (cases "i < 0")
  case False
  then obtain c cs where d: "decimal i = c # cs"
    by (cases "decimal i") auto
  moreover have "c \<noteq> CHR ''-''"
    using decimal_digits [of i] False d by auto
  ultimately show ?thesis
    using False read_decimal [of i] by (simp add: read_integer_def std_to_string_def)
qed (simp add: read_integer_def std_to_string_def)

lemma std_to_string_chars: "set (std_to_string i) \<subseteq> set ''-0123456789''"
  using decimal_digits [of i] decimal_digits [of "- i"] by (auto simp: std_to_string_def)

lemma std_to_string_nonempty [simp]: "std_to_string i \<noteq> []"
  by (simp add: std_to_string_def)

subsection \<open>Loops over a range\<close>

primrec for_range :: "('i \<Rightarrow> 's \<Rightarrow> 's option) \<Rightarrow> 'i list \<Rightarrow> 's \<Rightarrow> 's option" where
  "for_range body [] s = Some s"
| "for_range body (i # is) s = Option.bind (body i s) (for_range body is)"

lemma for_range_append: "for_range b (xs @ ys) s = Option.bind (for_range b xs s) (for_range b ys)"
  by (induction xs arbitrary: s) (auto split: Option.bind_splits)

text \<open>A loop with an invariant that every round establishes for the next index.\<close>

lemma for_range_upt:
  assumes "I a s" "a \<le> b" "\<And>i t. a \<le> i \<Longrightarrow> i < b \<Longrightarrow> I i t \<Longrightarrow> \<exists>u. body i t = Some u \<and> I (Suc i) u"
  shows "\<exists>t. for_range body [a..<b] s = Some t \<and> I b t"
  using assms(2,3)
proof (induction b rule: dec_induct)
  case base
  then show ?case using assms(1) by simp
next
  case (step b)
  then obtain t where "for_range body [a..<b] s = Some t" "I b t" by fastforce
  moreover from this obtain u where "body b t = Some u" "I (Suc b) u" using step by fastforce
  ultimately show ?case using step(1) by (simp add: for_range_append)
qed

lemma for_range_keeps:
  "for_range body js s = Some t \<Longrightarrow> I s \<Longrightarrow> (\<And>i s t. i \<in> set js \<Longrightarrow> body i s = Some t \<Longrightarrow> I s \<Longrightarrow> I t) \<Longrightarrow> I t"
proof (induction js arbitrary: s)
  case (Cons i js)
  then obtain u where "body i s = Some u" "for_range body js u = Some t" by auto
  then show ?case using Cons.IH[of u] Cons.prems(2,3) by (metis list.set_intros(1,2))
qed simp

lemma upt_split: "a \<le> b \<Longrightarrow> b < c \<Longrightarrow> [a..<c] = [a..<b] @ b # [Suc b..<c]"
  using upt_add_eq_append[of a b "c - b"] upt_conv_Cons[of b c] by simp

end
