(* ===== verification/Linked_List.thy ===== *)
theory Linked_List
  imports Prelude
begin

text \<open>
  The doubly linked list of \<open>2022-02-16-doubly-linked-list/list.cpp\<close>, at the level of its
  pointers. The heap maps addresses to nodes; \<open>create_node\<close> takes a fresh address,
  \<open>deallocate\<close> removes the cell, and every dereference of a null or freed pointer is \<open>None\<close>.
  Loops over pointers may run forever on a cyclic heap, so they are partial functions.
\<close>

section \<open>Heap, nodes and list objects\<close>

record 'a list_node =
  nval :: 'a
  prev :: ptr
  nxt :: ptr

record 'a heap =
  cells :: "addr \<Rightarrow> 'a list_node option"
  brk :: addr

record dlist =
  head_ptr :: ptr
  tail_ptr :: ptr
  list_length :: nat

type_synonym 'a lstate = "'a heap \<times> dlist"

definition empty_heap :: "'a heap" where
  "empty_heap = \<lparr>cells = (\<lambda>_. None), brk = 0\<rparr>"

definition list_ctor :: dlist where
  "list_ctor = \<lparr>head_ptr = None, tail_ptr = None, list_length = 0\<rparr>"

definition deref :: "'a heap \<Rightarrow> ptr \<Rightarrow> 'a list_node option" where
  "deref h p = (case p of None \<Rightarrow> None | Some a \<Rightarrow> cells h a)"

definition put_node :: "'a heap \<Rightarrow> ptr \<Rightarrow> 'a list_node \<Rightarrow> 'a heap" where
  "put_node h p n = (case p of None \<Rightarrow> h | Some a \<Rightarrow> h\<lparr>cells := (cells h)(a := Some n)\<rparr>)"

definition set_nval :: "'a heap \<Rightarrow> ptr \<Rightarrow> 'a \<Rightarrow> 'a heap option" where
  "set_nval h p v = do { n \<leftarrow> deref h p; Some (put_node h p (n\<lparr>nval := v\<rparr>)) }"

definition set_nxt :: "'a heap \<Rightarrow> ptr \<Rightarrow> ptr \<Rightarrow> 'a heap option" where
  "set_nxt h p q = do { n \<leftarrow> deref h p; Some (put_node h p (n\<lparr>nxt := q\<rparr>)) }"

definition set_prev :: "'a heap \<Rightarrow> ptr \<Rightarrow> ptr \<Rightarrow> 'a heap option" where
  "set_prev h p q = do { n \<leftarrow> deref h p; Some (put_node h p (n\<lparr>prev := q\<rparr>)) }"

definition create_node :: "'a \<Rightarrow> ptr \<Rightarrow> ptr \<Rightarrow> 'a heap \<Rightarrow> addr \<times> 'a heap" where
  "create_node v p q h =
     (brk h, h\<lparr>cells := (cells h)(brk h := Some \<lparr>nval = v, prev = p, nxt = q\<rparr>), brk := Suc (brk h)\<rparr>)"

definition deallocate :: "'a heap \<Rightarrow> ptr \<Rightarrow> 'a heap option" where
  "deallocate h p = (case p of None \<Rightarrow> None
     | Some a \<Rightarrow> (case cells h a of None \<Rightarrow> None | Some _ \<Rightarrow> Some (h\<lparr>cells := (cells h)(a := None)\<rparr>)))"

section \<open>Iterators\<close>

definition it_incr :: "'a heap \<Rightarrow> ptr \<Rightarrow> ptr option" where
  "it_incr h it = do { n \<leftarrow> deref h it; Some (nxt n) }"

definition it_decr :: "'a heap \<Rightarrow> ptr \<Rightarrow> ptr option" where
  "it_decr h it = do { n \<leftarrow> deref h it; Some (prev n) }"

definition it_post_incr :: "'a heap \<Rightarrow> ptr \<Rightarrow> (ptr \<times> ptr) option" where
  "it_post_incr h it = do { it' \<leftarrow> it_incr h it; Some (it, it') }"

definition it_post_decr :: "'a heap \<Rightarrow> ptr \<Rightarrow> (ptr \<times> ptr) option" where
  "it_post_decr h it = do { it' \<leftarrow> it_decr h it; Some (it, it') }"

fun it_plus :: "'a heap \<Rightarrow> ptr \<Rightarrow> nat \<Rightarrow> ptr option" where
  "it_plus h None offset = Some None"
| "it_plus h (Some a) 0 = Some (Some a)"
| "it_plus h (Some a) (Suc offset) = do { n \<leftarrow> deref h (Some a); it_plus h (nxt n) offset }"

fun it_minus :: "'a heap \<Rightarrow> ptr \<Rightarrow> nat \<Rightarrow> ptr option" where
  "it_minus h None offset = Some None"
| "it_minus h (Some a) 0 = Some (Some a)"
| "it_minus h (Some a) (Suc offset) = do { n \<leftarrow> deref h (Some a); it_minus h (prev n) offset }"

definition it_deref :: "'a heap \<Rightarrow> ptr \<Rightarrow> 'a option" where
  "it_deref h it = do { n \<leftarrow> deref h it; Some (nval n) }"

text \<open>Iterators into an array, such as those of \<open>std::initializer_list\<close>: an index.\<close>

definition arr_deref :: "'a list \<Rightarrow> 'a heap \<Rightarrow> nat \<Rightarrow> 'a option" where
  "arr_deref arr h i = (if i < length arr then Some (arr ! i) else None)"

definition arr_incr :: "'a list \<Rightarrow> 'a heap \<Rightarrow> nat \<Rightarrow> nat option" where
  "arr_incr arr h i = (if i < length arr then Some (Suc i) else None)"

section \<open>Operations of the list\<close>

definition list_size :: "dlist \<Rightarrow> nat" where
  "list_size l = list_length l"

definition list_empty :: "dlist \<Rightarrow> bool" where
  "list_empty l \<longleftrightarrow> list_length l = 0"

definition list_begin :: "dlist \<Rightarrow> ptr" where
  "list_begin l = head_ptr l"

definition list_end :: "'a heap \<Rightarrow> dlist \<Rightarrow> ptr option" where
  "list_end h l = (if tail_ptr l \<noteq> None then do { t \<leftarrow> deref h (tail_ptr l); Some (nxt t) } else Some (head_ptr l))"

definition list_front :: "'a lstate \<Rightarrow> 'a option" where
  "list_front s = (case s of (h, l) \<Rightarrow> it_deref h (list_begin l))"

text \<open>\<open>size() - 1U\<close> wraps around at \<open>size_t\<close> when the list is empty.\<close>

definition list_back :: "'a lstate \<Rightarrow> 'a option" where
  "list_back s = (case s of (h, l) \<Rightarrow>
     (let offset = (if list_size l = 0 then 2 ^ 64 - 1 else list_size l - 1)
      in do { it \<leftarrow> it_plus h (list_begin l) offset; it_deref h it }))"

definition push_back :: "'a \<Rightarrow> 'a lstate \<Rightarrow> 'a lstate option" where
  "push_back v s = (case s of (h, l) \<Rightarrow>
     if list_length l = 0 then
       (let (a, h1) = create_node v None None h
        in Some (h1, l\<lparr>head_ptr := Some a, tail_ptr := Some a, list_length := list_length l + 1\<rparr>))
     else
       (let (a, h1) = create_node v (tail_ptr l) None h
        in do { h2 \<leftarrow> set_nxt h1 (tail_ptr l) (Some a);
                t \<leftarrow> deref h2 (tail_ptr l);
                Some (h2, l\<lparr>tail_ptr := nxt t, list_length := list_length l + 1\<rparr>) }))"

definition push_front :: "'a \<Rightarrow> 'a lstate \<Rightarrow> 'a lstate option" where
  "push_front v s = (case s of (h, l) \<Rightarrow>
     if list_length l = 0 then
       (let (a, h1) = create_node v None None h
        in Some (h1, l\<lparr>tail_ptr := Some a, head_ptr := Some a, list_length := list_length l + 1\<rparr>))
     else
       (let (a, h1) = create_node v None (head_ptr l) h
        in do { h2 \<leftarrow> set_prev h1 (head_ptr l) (Some a);
                t \<leftarrow> deref h2 (head_ptr l);
                Some (h2, l\<lparr>head_ptr := prev t, list_length := list_length l + 1\<rparr>) }))"

definition pop_back :: "'a lstate \<Rightarrow> 'a lstate option" where
  "pop_back s = (case s of (h, l) \<Rightarrow>
     do { t \<leftarrow> deref h (tail_ptr l);
          let l1 = l\<lparr>tail_ptr := prev t\<rparr>;
          (h1, l2) \<leftarrow> (if list_length l = 1 then Some (h, l1\<lparr>head_ptr := None\<rparr>)
                      else do { h1 \<leftarrow> set_nxt h (tail_ptr l1) None; Some (h1, l1) });
          h2 \<leftarrow> deallocate h1 (tail_ptr l);
          Some (h2, l2\<lparr>list_length := list_length l - 1\<rparr>) })"

definition pop_front :: "'a lstate \<Rightarrow> 'a lstate option" where
  "pop_front s = (case s of (h, l) \<Rightarrow>
     do { t \<leftarrow> deref h (head_ptr l);
          let l1 = l\<lparr>head_ptr := nxt t\<rparr>;
          (h1, l2) \<leftarrow> (if list_length l = 1 then Some (h, l1\<lparr>tail_ptr := None\<rparr>)
                      else do { h1 \<leftarrow> set_prev h (head_ptr l1) None; Some (h1, l1) });
          h2 \<leftarrow> deallocate h1 (head_ptr l);
          Some (h2, l2\<lparr>list_length := list_length l - 1\<rparr>) })"

partial_function (option) clear :: "'a lstate \<Rightarrow> 'a lstate option" where
  "clear s = (if list_length (snd s) > 0 then do { s' \<leftarrow> pop_back s; clear s' } else Some s)"

definition erase :: "ptr \<Rightarrow> 'a lstate \<Rightarrow> 'a lstate option" where
  "erase position s = (case s of (h, l) \<Rightarrow>
     do { n \<leftarrow> deref h position;
          if prev n = None then pop_front s
          else if nxt n = None then pop_back s
          else do { h1 \<leftarrow> set_nxt h (prev n) (nxt n);
                    n1 \<leftarrow> deref h1 position;
                    h2 \<leftarrow> set_prev h1 (nxt n1) (prev n1);
                    h3 \<leftarrow> deallocate h2 position;
                    Some (h3, l\<lparr>list_length := list_length l - 1\<rparr>) } })"

definition list_insert :: "ptr \<Rightarrow> 'a \<Rightarrow> 'a lstate \<Rightarrow> 'a lstate option" where
  "list_insert position v s = (case s of (h, l) \<Rightarrow>
     do { e \<leftarrow> list_end h l;
          if position = e then push_back v s
          else if position = None then push_front v s
          else do { n \<leftarrow> deref h position;
                    let (a, h1) = create_node v position (nxt n) h;
                    (h2, l2) \<leftarrow> (if nxt n \<noteq> None
                                then do { h2 \<leftarrow> set_prev h1 (nxt n) (Some a); Some (h2, l) }
                                else Some (h1, l\<lparr>tail_ptr := Some a\<rparr>));
                    h3 \<leftarrow> set_nxt h2 position (Some a);
                    Some (h3, l2\<lparr>list_length := list_length l + 1\<rparr>) } })"

text \<open>
  \<open>assign\<close> is a template over its iterator type: dereference and increment are arguments.
  The three loops of its body are \<open>assign_overwrite\<close>, \<open>assign_append\<close> and \<open>assign_erase\<close>.
\<close>

partial_function (option) assign_overwrite ::
  "('a heap \<Rightarrow> 'it \<Rightarrow> 'a option) \<Rightarrow> ('a heap \<Rightarrow> 'it \<Rightarrow> 'it option) \<Rightarrow>
   'it \<Rightarrow> 'it \<Rightarrow> ptr \<Rightarrow> 'a heap \<Rightarrow> (ptr \<times> 'it \<times> 'a heap) option" where
  "assign_overwrite dr inc b e head_watcher h =
     (if head_watcher \<noteq> None \<and> b \<noteq> e then
        do { v \<leftarrow> dr h b;
             h1 \<leftarrow> set_nval h head_watcher v;
             n \<leftarrow> deref h1 head_watcher;
             b' \<leftarrow> inc h1 b;
             assign_overwrite dr inc b' e (nxt n) h1 }
      else Some (head_watcher, b, h))"

partial_function (option) assign_append ::
  "('a heap \<Rightarrow> 'it \<Rightarrow> 'a option) \<Rightarrow> ('a heap \<Rightarrow> 'it \<Rightarrow> 'it option) \<Rightarrow>
   'it \<Rightarrow> 'it \<Rightarrow> 'a lstate \<Rightarrow> 'a lstate option" where
  "assign_append dr inc b e s =
     do { v \<leftarrow> dr (fst s) b;
          s1 \<leftarrow> push_back v s;
          b' \<leftarrow> inc (fst s1) b;
          if b' \<noteq> e then assign_append dr inc b' e s1 else Some s1 }"

partial_function (option) assign_erase :: "ptr \<Rightarrow> 'a lstate \<Rightarrow> 'a lstate option" where
  "assign_erase head_watcher s =
     (if head_watcher \<noteq> None then
        do { n \<leftarrow> deref (fst s) head_watcher;
             s1 \<leftarrow> erase head_watcher s;
             assign_erase (nxt n) s1 }
      else Some s)"

definition assign ::
  "('a heap \<Rightarrow> 'it \<Rightarrow> 'a option) \<Rightarrow> ('a heap \<Rightarrow> 'it \<Rightarrow> 'it option) \<Rightarrow>
   'it \<Rightarrow> 'it \<Rightarrow> 'a lstate \<Rightarrow> 'a lstate option" where
  "assign dr inc b e s = (case s of (h, l) \<Rightarrow>
     if b = e then Some s
     else do { (head_watcher, b', h1) \<leftarrow> assign_overwrite dr inc b e (head_ptr l) h;
               if b' \<noteq> e then assign_append dr inc b' e (h1, l)
               else assign_erase head_watcher (h1, l) })"

partial_function (option) sort_runner :: "ptr \<Rightarrow> ptr \<Rightarrow> 'a::linorder heap \<Rightarrow> 'a heap option" where
  "sort_runner head_watcher runner h =
     (if runner \<noteq> None then
        do { m \<leftarrow> deref h head_watcher;
             n \<leftarrow> deref h runner;
             h1 \<leftarrow> (if nval m > nval n
                   then do { h' \<leftarrow> set_nval h head_watcher (nval n); set_nval h' runner (nval m) }
                   else Some h);
             n' \<leftarrow> deref h1 runner;
             sort_runner head_watcher (nxt n') h1 }
      else Some h)"

partial_function (option) sort_outer :: "ptr \<Rightarrow> 'a::linorder heap \<Rightarrow> 'a heap option" where
  "sort_outer head_watcher h =
     (if head_watcher \<noteq> None then
        do { m \<leftarrow> deref h head_watcher;
             h1 \<leftarrow> sort_runner head_watcher (nxt m) h;
             m1 \<leftarrow> deref h1 head_watcher;
             sort_outer (nxt m1) h1 }
      else Some h)"

definition list_sort :: "'a::linorder lstate \<Rightarrow> 'a lstate option" where
  "list_sort s = (case s of (h, l) \<Rightarrow>
     if list_empty l then Some s
     else do { h1 \<leftarrow> sort_outer (head_ptr l) h; Some (h1, l) })"

text \<open>\<open>compare\<close>: \<open>end()\<close> of this list is evaluated in every round of the loop.\<close>

partial_function (option) compare ::
  "('a heap \<Rightarrow> 'it \<Rightarrow> 'a option) \<Rightarrow> ('a heap \<Rightarrow> 'it \<Rightarrow> 'it option) \<Rightarrow>
   'a lstate \<Rightarrow> ptr \<Rightarrow> 'it \<Rightarrow> 'it \<Rightarrow> bool option" where
  "compare dr inc s it1 it2 e2 =
     do { e1 \<leftarrow> list_end (fst s) (snd s);
          if it1 \<noteq> e1 \<and> it2 \<noteq> e2 then
            do { v1 \<leftarrow> it_deref (fst s) it1;
                 v2 \<leftarrow> dr (fst s) it2;
                 if v1 = v2 then
                   do { it1' \<leftarrow> it_incr (fst s) it1;
                        it2' \<leftarrow> inc (fst s) it2;
                        compare dr inc s it1' it2' e2 }
                 else Some False }
          else Some (it1 = e1 \<and> it2 = e2) }"

definition list_eq :: "'a heap \<Rightarrow> dlist \<Rightarrow> dlist \<Rightarrow> bool option" where
  "list_eq h lhs rhs =
     do { e \<leftarrow> list_end h rhs;
          compare it_deref it_incr (h, lhs) (list_begin lhs) (list_begin rhs) e }"

definition list_neq :: "'a heap \<Rightarrow> dlist \<Rightarrow> dlist \<Rightarrow> bool option" where
  "list_neq h lhs rhs = do { b \<leftarrow> list_eq h lhs rhs; Some (\<not> b) }"

subsection \<open>Construction, copy and move\<close>

definition assign_init :: "'a list \<Rightarrow> 'a lstate \<Rightarrow> 'a lstate option" where
  "assign_init arr s = assign (arr_deref arr) (arr_incr arr) 0 (length arr) s"

definition list_ctor_init :: "'a list \<Rightarrow> 'a heap \<Rightarrow> 'a lstate option" where
  "list_ctor_init arr h = assign_init arr (h, list_ctor)"

definition list_ctor_copy :: "dlist \<Rightarrow> 'a heap \<Rightarrow> 'a lstate option" where
  "list_ctor_copy rhs h =
     do { e \<leftarrow> list_end h rhs; assign it_deref it_incr (list_begin rhs) e (h, list_ctor) }"

definition list_ctor_move :: "dlist \<Rightarrow> dlist \<times> dlist" where
  "list_ctor_move rhs =
     (\<lparr>head_ptr = head_ptr rhs, tail_ptr = tail_ptr rhs, list_length = list_length rhs\<rparr>,
      rhs\<lparr>head_ptr := None, tail_ptr := None, list_length := 0\<rparr>)"

text \<open>\<open>same\<close> is the outcome of \<open>this == std::addressof(rhs)\<close>.\<close>

definition copy_assign :: "bool \<Rightarrow> dlist \<Rightarrow> 'a lstate \<Rightarrow> 'a lstate option" where
  "copy_assign same rhs s =
     (if same then Some s
      else do { e \<leftarrow> list_end (fst s) rhs;
                assign it_deref it_incr (list_begin rhs) e s })"

definition move_assign :: "bool \<Rightarrow> dlist \<Rightarrow> 'a lstate \<Rightarrow> ('a lstate \<times> dlist) option" where
  "move_assign same rhs s =
     (if same then Some (s, rhs)
      else do { s1 \<leftarrow> clear s;
                Some ((fst s1, (snd s1)\<lparr>head_ptr := head_ptr rhs, tail_ptr := tail_ptr rhs, list_length := list_length rhs\<rparr>),
                      rhs\<lparr>head_ptr := None, tail_ptr := None, list_length := 0\<rparr>) })"

definition list_dtor :: "'a lstate \<Rightarrow> 'a lstate option" where
  "list_dtor s = clear s"

declare clear.simps [code] assign_overwrite.simps [code] assign_append.simps [code]
  assign_erase.simps [code] sort_runner.simps [code] sort_outer.simps [code] compare.simps [code]

end
