(* ===== verification/Linked_List_Correct.thy ===== *)
theory Linked_List_Correct
  imports Linked_List
begin

text \<open>
  Refinement of the pointer-level list of \<open>Linked_List\<close> to HOL lists. \<open>rep h l as xs\<close> says that
  the list object \<open>l\<close> owns in the heap \<open>h\<close> the doubly linked nodes \<open>as\<close>, holding the values \<open>xs\<close>.
  Every operation is shown to be free of undefined behaviour on represented lists, to implement
  the corresponding list function, and to leave every cell it does not own unchanged.
\<close>

section \<open>Chains of nodes\<close>

fun chain :: "'a heap \<Rightarrow> ptr \<Rightarrow> addr list \<Rightarrow> ptr \<Rightarrow> bool" where
  "chain h p [] q \<longleftrightarrow> True"
| "chain h p (a # as) q \<longleftrightarrow>
     (case cells h a of None \<Rightarrow> False
      | Some n \<Rightarrow> prev n = p \<and> nxt n = first_ptr as q \<and> chain h (Some a) as q)"

definition vals :: "'a heap \<Rightarrow> addr list \<Rightarrow> 'a list" where
  "vals h as = map (\<lambda>a. nval (the (cells h a))) as"

definition heap_ok :: "'a heap \<Rightarrow> bool" where
  "heap_ok h \<longleftrightarrow> (\<forall>a. brk h \<le> a \<longrightarrow> cells h a = None)"

definition rep :: "'a heap \<Rightarrow> dlist \<Rightarrow> addr list \<Rightarrow> 'a list \<Rightarrow> bool" where
  "rep h l as xs \<longleftrightarrow>
     heap_ok h \<and> distinct as \<and> chain h None as None \<and> vals h as = xs \<and>
     head_ptr l = first_ptr as None \<and> tail_ptr l = last_ptr None as \<and> list_length l = length as"

definition frame :: "addr set \<Rightarrow> 'a heap \<Rightarrow> 'a heap \<Rightarrow> bool" where
  "frame S h h' \<longleftrightarrow> brk h \<le> brk h' \<and> (\<forall>a. a \<notin> S \<longrightarrow> a < brk h \<longrightarrow> cells h' a = cells h a)"

definition represents :: "'a lstate \<Rightarrow> 'a list \<Rightarrow> bool" where
  "represents s xs \<longleftrightarrow> (\<exists>as. rep (fst s) (snd s) as xs)"

lemmas prim_defs = deref_def put_node_def set_nxt_def set_prev_def set_nval_def
  create_node_def deallocate_def

lemma chain_append [chain_simps]:
  "chain h p (as @ bs) q \<longleftrightarrow> chain h p as (first_ptr bs q) \<and> chain h (last_ptr p as) bs q"
  by (induction as arbitrary: p) (auto split: option.splits)

lemma chain_cong:
  assumes "\<And>a. a \<in> set as \<Longrightarrow> cells h' a = cells h a"
  shows "chain h' p as q = chain h p as q"
  using assms by (induction as arbitrary: p) (auto split: option.splits)

lemma chain_links_cong:
  assumes "\<And>a. a \<in> set as \<Longrightarrow>
    map_option (\<lambda>n. (prev n, nxt n)) (cells h' a) = map_option (\<lambda>n. (prev n, nxt n)) (cells h a)"
  shows "chain h' p as q = chain h p as q"
  using assms
proof (induction as arbitrary: p)
  case (Cons a as)
  then have "chain h' (Some a) as q = chain h (Some a) as q" by simp
  with Cons.prems [of a] show ?case by (auto split: option.splits)
qed simp

lemma chain_cellD: "chain h p as q \<Longrightarrow> a \<in> set as \<Longrightarrow> \<exists>n. cells h a = Some n"
  by (induction as arbitrary: p) (auto split: option.splits)

lemma chain_split_cell:
  "chain h p (as @ a # bs) q \<longleftrightarrow>
     chain h p as (Some a) \<and>
     (\<exists>n. cells h a = Some n \<and> prev n = last_ptr p as \<and> nxt n = first_ptr bs q) \<and>
     chain h (Some a) bs q"
  by (auto simp: chain_append split: option.splits)

lemma vals_simps [simp]:
  "vals h [] = []"
  "vals h (a # as) = nval (the (cells h a)) # vals h as"
  "vals h (as @ bs) = vals h as @ vals h bs"
  "length (vals h as) = length as"
  by (simp_all add: vals_def)

lemma vals_cong:
  assumes "\<And>a. a \<in> set as \<Longrightarrow> cells h' a = cells h a"
  shows "vals h' as = vals h as"
  using assms by (simp add: vals_def)

lemma frame_refl [simp, intro]: "frame S h h"
  by (simp add: frame_def)

lemma frame_trans: "frame S h h' \<Longrightarrow> frame T h' h'' \<Longrightarrow> T \<inter> {..<brk h} \<subseteq> S \<Longrightarrow> frame S h h''"
  by (fastforce simp: frame_def)

lemma frame_mono: "frame S h h' \<Longrightarrow> S \<subseteq> T \<Longrightarrow> frame T h h'"
  by (auto simp: frame_def)

lemma heap_okD: "heap_ok h \<Longrightarrow> cells h a = Some n \<Longrightarrow> a < brk h"
  by (fastforce simp: heap_ok_def not_less [symmetric])

lemma rep_lt_brk: "rep h l as xs \<Longrightarrow> a \<in> set as \<Longrightarrow> a < brk h"
  by (auto simp: rep_def dest: chain_cellD heap_okD)

lemma rep_fresh: "rep h l as xs \<Longrightarrow> brk h \<notin> set as"
  using rep_lt_brk by blast

lemma rep_length: "rep h l as xs \<Longrightarrow> length as = length xs \<and> list_length l = length xs"
  by (auto simp: rep_def)

lemma rep_frame:
  assumes "rep h l as xs" "frame S h h'" "heap_ok h'" "set as \<inter> S = {}"
  shows "rep h' l as xs"
proof -
  have "cells h' a = cells h a" if "a \<in> set as" for a
    using assms rep_lt_brk [OF assms(1) that] that by (auto simp: frame_def)
  with assms(1,3) show ?thesis
    using chain_cong [of as h' h None None] vals_cong [of as h' h] by (simp add: rep_def)
qed

section \<open>Adding and removing at the ends\<close>

lemma push_back_rep:
  assumes "rep h l as xs"
  shows "\<exists>h' l'. push_back v (h, l) = Some (h', l') \<and>
    rep h' l' (as @ [brk h]) (xs @ [v]) \<and> frame (set as) h h'"
proof (cases as rule: rev_cases)
  case Nil
  with assms show ?thesis
    by (auto simp: push_back_def rep_def prim_defs frame_def heap_ok_def)
next
  case (snoc bs a)
  note fresh = rep_fresh [OF assms]
  from assms snoc obtain n where n: "cells h a = Some n" "prev n = last_ptr None bs" "nxt n = None"
    and bs: "chain h None bs (Some a)" and a: "a \<notin> set bs"
    by (auto simp: rep_def chain_split_cell split: option.splits)
  define h' where "h' = h\<lparr>cells := (cells h)(brk h := Some \<lparr>nval = v, prev = Some a, nxt = None\<rparr>,
      a := Some (n\<lparr>nxt := Some (brk h)\<rparr>)), brk := Suc (brk h)\<rparr>"
  define l' where "l' = l\<lparr>tail_ptr := Some (brk h), list_length := list_length l + 1\<rparr>"
  have "push_back v (h, l) = Some (h', l')"
    using assms snoc n fresh by (simp add: push_back_def rep_def prim_defs h'_def l'_def)
  moreover have same: "cells h' c = cells h c" if "c \<in> set bs" for c
    using a fresh snoc that by (auto simp: h'_def)
  have "chain h' None bs (Some a)" "vals h' bs = vals h bs"
    using bs chain_cong [OF same] vals_cong [OF same] by simp_all
  then have "rep h' l' (as @ [brk h]) (xs @ [v])"
    using assms snoc n fresh by (auto simp: rep_def chain_split_cell h'_def l'_def heap_ok_def)
  moreover have "frame (set as) h h'"
    using snoc by (auto simp: frame_def h'_def)
  ultimately show ?thesis by blast
qed

lemma push_front_rep:
  assumes "rep h l as xs"
  shows "\<exists>h' l'. push_front v (h, l) = Some (h', l') \<and>
    rep h' l' (brk h # as) (v # xs) \<and> frame (set as) h h'"
proof (cases as)
  case Nil
  with assms show ?thesis
    by (auto simp: push_front_def rep_def prim_defs frame_def heap_ok_def)
next
  case (Cons a bs)
  note fresh = rep_fresh [OF assms]
  from assms Cons obtain n where n: "cells h a = Some n" "prev n = None" "nxt n = first_ptr bs None"
    and bs: "chain h (Some a) bs None" and a: "a \<notin> set bs"
    by (auto simp: rep_def split: option.splits)
  define h' where "h' = h\<lparr>cells := (cells h)(brk h := Some \<lparr>nval = v, prev = None, nxt = Some a\<rparr>,
      a := Some (n\<lparr>prev := Some (brk h)\<rparr>)), brk := Suc (brk h)\<rparr>"
  define l' where "l' = l\<lparr>head_ptr := Some (brk h), list_length := list_length l + 1\<rparr>"
  have "push_front v (h, l) = Some (h', l')"
    using assms Cons n fresh by (simp add: push_front_def rep_def prim_defs h'_def l'_def)
  moreover have same: "cells h' c = cells h c" if "c \<in> set bs" for c
    using a fresh Cons that by (auto simp: h'_def)
  have "chain h' (Some a) bs None" "vals h' bs = vals h bs"
    using bs chain_cong [OF same] vals_cong [OF same] by simp_all
  then have "rep h' l' (brk h # as) (v # xs)"
    using assms Cons n fresh by (auto simp: rep_def h'_def l'_def heap_ok_def last_ptr_def)
  moreover have "frame (set as) h h'"
    using Cons by (auto simp: frame_def h'_def)
  ultimately show ?thesis by blast
qed

lemma pop_back_rep:
  assumes "rep h l (as @ [a]) (xs @ [x])"
  shows "\<exists>h' l'. pop_back (h, l) = Some (h', l') \<and> rep h' l' as xs \<and> frame (set (as @ [a])) h h' \<and> cells h' a = None"
proof (cases as rule: rev_cases)
  case Nil
  with assms show ?thesis
    by (auto simp: pop_back_def rep_def prim_defs frame_def heap_ok_def split: option.splits)
next
  case (snoc bs b)
  with assms obtain m n where n: "cells h a = Some n" "prev n = Some b"
    and m: "cells h b = Some m" "prev m = last_ptr None bs" "nxt m = Some a"
    and bs: "chain h None bs (Some b)" and d: "a \<notin> set bs" "b \<notin> set bs" "a \<noteq> b"
    by (auto simp: rep_def chain_split_cell split: option.splits)
  define h' where "h' = h\<lparr>cells := (cells h)(b := Some (m\<lparr>nxt := None\<rparr>), a := None)\<rparr>"
  define l' where "l' = l\<lparr>tail_ptr := Some b, list_length := list_length l - 1\<rparr>"
  have "pop_back (h, l) = Some (h', l')"
    using assms snoc m n d by (simp add: pop_back_def rep_def prim_defs h'_def l'_def)
  moreover have same: "cells h' c = cells h c" if "c \<in> set bs" for c
    using d that by (auto simp: h'_def)
  have "chain h' None bs (Some b)" "vals h' bs = vals h bs"
    using bs chain_cong [OF same] vals_cong [OF same] by simp_all
  then have "rep h' l' as xs"
    using assms snoc m n d by (auto simp: rep_def chain_split_cell h'_def l'_def heap_ok_def)
  moreover have "frame (set (as @ [a])) h h'" "cells h' a = None"
    using snoc by (auto simp: frame_def h'_def)
  ultimately show ?thesis by blast
qed

lemma pop_front_rep:
  assumes "rep h l (a # as) (x # xs)"
  shows "\<exists>h' l'. pop_front (h, l) = Some (h', l') \<and> rep h' l' as xs \<and> frame (set (a # as)) h h' \<and> cells h' a = None"
proof (cases as)
  case Nil
  with assms show ?thesis
    by (auto simp: pop_front_def rep_def prim_defs frame_def heap_ok_def split: option.splits)
next
  case (Cons b bs)
  with assms obtain m n where n: "cells h a = Some n" "nxt n = Some b"
    and m: "cells h b = Some m" "prev m = Some a" "nxt m = first_ptr bs None"
    and bs: "chain h (Some b) bs None" and d: "a \<notin> set bs" "b \<notin> set bs" "a \<noteq> b"
    by (auto simp: rep_def split: option.splits)
  define h' where "h' = h\<lparr>cells := (cells h)(b := Some (m\<lparr>prev := None\<rparr>), a := None)\<rparr>"
  define l' where "l' = l\<lparr>head_ptr := Some b, list_length := list_length l - 1\<rparr>"
  have "pop_front (h, l) = Some (h', l')"
    using assms Cons m n d by (simp add: pop_front_def rep_def prim_defs h'_def l'_def)
  moreover have same: "cells h' c = cells h c" if "c \<in> set bs" for c
    using d that by (auto simp: h'_def)
  have "chain h' (Some b) bs None" "vals h' bs = vals h bs"
    using bs chain_cong [OF same] vals_cong [OF same] by simp_all
  then have "rep h' l' as xs"
    using assms Cons m n d by (auto simp: rep_def h'_def l'_def heap_ok_def last_ptr_def)
  moreover have "frame (set (a # as)) h h'" "cells h' a = None"
    using Cons by (auto simp: frame_def h'_def)
  ultimately show ?thesis by blast
qed

lemma clear_rep:
  assumes "rep h l as xs"
  shows "\<exists>h' l'. clear (h, l) = Some (h', l') \<and> rep h' l' [] [] \<and> frame (set as) h h' \<and>
    (\<forall>a \<in> set as. cells h' a = None)"
  using assms
proof (induction as arbitrary: h l xs rule: rev_induct)
  case Nil
  then have "clear (h, l) = Some (h, l)" by (subst clear.simps) (simp add: rep_def)
  with Nil show ?case using rep_length [of h l "[]" xs] by auto
next
  case (snoc a as)
  then obtain ys y where xs: "xs = ys @ [y]"
    by (metis rep_length length_append_singleton length_Suc_conv_rev)
  from pop_back_rep [OF snoc.prems [unfolded xs]] obtain h1 l1
    where 1: "pop_back (h, l) = Some (h1, l1)" "rep h1 l1 as ys"
      "frame (set (as @ [a])) h h1" "cells h1 a = None"
    by blast
  from snoc.IH [OF 1(2)] obtain h2 l2
    where 2: "clear (h1, l1) = Some (h2, l2)" "rep h2 l2 [] []" "frame (set as) h1 h2"
      "\<forall>b \<in> set as. cells h2 b = None"
    by blast
  have "clear (h, l) = Some (h2, l2)"
    using 1 2 snoc.prems by (subst clear.simps) (simp add: rep_def)
  moreover have "frame (set (as @ [a])) h h2"
    using 1(3) 2(3) by (rule frame_trans) auto
  moreover have "cells h2 a = None"
    using 1 2 snoc.prems rep_lt_brk [OF snoc.prems, of a] by (auto simp: frame_def rep_def)
  ultimately show ?case using 2 by auto
qed

section \<open>Erasing and inserting at a node\<close>

lemma list_end_rep: "rep h l as xs \<Longrightarrow> list_end h l = Some None"
  by (cases as rule: rev_cases)
    (auto simp: rep_def list_end_def deref_def chain_split_cell)

lemma rep_split:
  assumes "rep h l (as @ a # bs) (xs @ x # ys)" "length as = length xs"
  shows "vals h as = xs" "nval (the (cells h a)) = x" "vals h bs = ys"
  using assms by (auto simp: rep_def)

lemma erase_rep:
  assumes "rep h l (as @ a # bs) (xs @ x # ys)" and len: "length as = length xs"
  shows "\<exists>h' l'. erase (Some a) (h, l) = Some (h', l') \<and> rep h' l' (as @ bs) (xs @ ys) \<and>
    frame (set (as @ a # bs)) h h' \<and> cells h' a = None"
proof -
  from assms obtain n where n: "cells h a = Some n" "prev n = last_ptr None as"
    "nxt n = first_ptr bs None" by (auto simp: rep_def chain_split_cell)
  consider "as = []" | "bs = []" "as \<noteq> []"
    | as' b c bs' where "as = as' @ [b]" "bs = c # bs'"
    by (metis neq_Nil_conv rev_exhaust)
  then show ?thesis
  proof cases
    case 1
    with assms n show ?thesis using pop_front_rep [of h l a bs x ys]
      by (simp add: erase_def deref_def)
  next
    case 2
    moreover from this assms have "ys = []" using rep_length [OF assms(1)] by simp
    ultimately show ?thesis using assms n pop_back_rep [of h l as a xs x]
      by (auto simp: erase_def deref_def)
  next
    case 3
    from assms 3 obtain m k where m: "cells h b = Some m" "prev m = last_ptr None as'" "nxt m = Some a"
      and k: "cells h c = Some k" "prev k = Some a" "nxt k = first_ptr bs' None"
      and ch: "chain h None as' (Some b)" "chain h (Some c) bs' None"
      and d: "distinct (as' @ b # a # c # bs')"
      by (auto simp: rep_def chain_split_cell split: option.splits)
    define h' where "h' = h\<lparr>cells := (cells h)(b := Some (m\<lparr>nxt := Some c\<rparr>),
        c := Some (k\<lparr>prev := Some b\<rparr>), a := None)\<rparr>"
    define l' where "l' = l\<lparr>list_length := list_length l - 1\<rparr>"
    have "erase (Some a) (h, l) = Some (h', l')"
      using n m k d 3 by (auto simp: erase_def prim_defs h'_def l'_def)
    moreover have same: "cells h' z = cells h z" if "z \<in> set as' \<union> set bs'" for z
      using that d by (auto simp: h'_def)
    have "chain h' None as' (Some b)" "vals h' as' = vals h as'"
      "chain h' (Some c) bs' None" "vals h' bs' = vals h bs'"
      using ch chain_cong [of as' h' h, OF same] chain_cong [of bs' h' h, OF same]
        vals_cong [of as' h' h, OF same] vals_cong [of bs' h' h, OF same] by simp_all
    then have "rep h' l' (as @ bs) (xs @ ys)"
      using assms 3 n m k d rep_split [OF assms]
      by (auto simp: rep_def chain_split_cell h'_def l'_def heap_ok_def)
    moreover have "frame (set (as @ a # bs)) h h'" "cells h' a = None"
      using 3 by (auto simp: frame_def h'_def)
    ultimately show ?thesis by blast
  qed
qed

lemma assign_erase_rep:
  assumes "rep h l (as @ bs) (xs @ ys)" "length as = length xs"
  shows "\<exists>h' l'. assign_erase (first_ptr bs None) (h, l) = Some (h', l') \<and> rep h' l' as xs \<and>
    frame (set (as @ bs)) h h'"
  using assms
proof (induction bs arbitrary: h l ys)
  case Nil
  moreover from this have "ys = []" using rep_length by fastforce
  ultimately show ?case by (subst assign_erase.simps) auto
next
  case (Cons b bs)
  then obtain y ys' where ys: "ys = y # ys'"
    using rep_length [OF Cons.prems(1)] by (cases ys) auto
  with Cons.prems obtain n where n: "cells h b = Some n" "nxt n = first_ptr bs None"
    by (auto simp: rep_def chain_split_cell)
  obtain h1 l1 where 1: "erase (Some b) (h, l) = Some (h1, l1)" "rep h1 l1 (as @ bs) (xs @ ys')"
    "frame (set (as @ b # bs)) h h1"
    using erase_rep [OF Cons.prems(1) [unfolded ys] Cons.prems(2)] by blast
  obtain h2 l2 where 2: "assign_erase (first_ptr bs None) (h1, l1) = Some (h2, l2)"
    "rep h2 l2 as xs" "frame (set (as @ bs)) h1 h2"
    using Cons.IH [OF 1(2) Cons.prems(2)] by blast
  have "assign_erase (first_ptr (b # bs) None) (h, l) = Some (h2, l2)"
    using 1 2 n by (subst assign_erase.simps) (simp add: deref_def)
  moreover have "frame (set (as @ b # bs)) h h2" using 1(3) 2(3) by (rule frame_trans) auto
  ultimately show ?case using 2 by blast
qed

lemma list_insert_end_rep:
  assumes "rep h l as xs"
  shows "list_insert None v (h, l) = push_back v (h, l)"
  using list_end_rep [OF assms] by (simp add: list_insert_def)

lemma list_insert_rep:
  assumes "rep h l (as @ a # bs) (xs @ x # ys)" and len: "length as = length xs"
  shows "\<exists>h' l'. list_insert (Some a) v (h, l) = Some (h', l') \<and>
    rep h' l' (as @ a # brk h # bs) (xs @ x # v # ys) \<and> frame (set (as @ a # bs)) h h'"
proof -
  note fresh = rep_fresh [OF assms(1)]
  from assms obtain n where n: "cells h a = Some n" "prev n = last_ptr None as"
    "nxt n = first_ptr bs None" and ch: "chain h None as (Some a)" "chain h (Some a) bs None"
    and d: "distinct (as @ a # bs)" by (auto simp: rep_def chain_split_cell)
  show ?thesis
  proof (cases bs)
    case Nil
    define h' where "h' = h\<lparr>cells := (cells h)(brk h := Some \<lparr>nval = v, prev = Some a, nxt = None\<rparr>,
        a := Some (n\<lparr>nxt := Some (brk h)\<rparr>)), brk := Suc (brk h)\<rparr>"
    define l' where "l' = l\<lparr>tail_ptr := Some (brk h), list_length := list_length l + 1\<rparr>"
    have "list_insert (Some a) v (h, l) = Some (h', l')"
      using n Nil fresh list_end_rep [OF assms(1)]
      by (auto simp: list_insert_def prim_defs h'_def l'_def)
    moreover have same: "cells h' z = cells h z" if "z \<in> set as" for z
      using that d fresh by (auto simp: h'_def)
    have "chain h' None as (Some a)" "vals h' as = vals h as"
      using ch chain_cong [OF same] vals_cong [OF same] by simp_all
    then have "rep h' l' (as @ a # brk h # bs) (xs @ x # v # ys)"
      using assms Nil n d fresh rep_split [OF assms]
      by (auto simp: rep_def chain_split_cell h'_def l'_def heap_ok_def)
    moreover have "frame (set (as @ a # bs)) h h'" by (auto simp: frame_def h'_def)
    ultimately show ?thesis by blast
  next
    case (Cons c bs')
    with ch obtain k where k: "cells h c = Some k" "prev k = Some a" "nxt k = first_ptr bs' None"
      and ch': "chain h (Some c) bs' None" by (auto split: option.splits)
    define h' where "h' = h\<lparr>cells := (cells h)(brk h := Some \<lparr>nval = v, prev = Some a, nxt = Some c\<rparr>,
        c := Some (k\<lparr>prev := Some (brk h)\<rparr>), a := Some (n\<lparr>nxt := Some (brk h)\<rparr>)), brk := Suc (brk h)\<rparr>"
    define l' where "l' = l\<lparr>list_length := list_length l + 1\<rparr>"
    have "list_insert (Some a) v (h, l) = Some (h', l')"
      using n k d Cons fresh list_end_rep [OF assms(1)]
      by (auto simp: list_insert_def prim_defs h'_def l'_def)
    moreover have same: "cells h' z = cells h z" if "z \<in> set as \<union> set bs'" for z
      using that d Cons fresh by (auto simp: h'_def)
    have "chain h' None as (Some a)" "vals h' as = vals h as"
      "chain h' (Some c) bs' None" "vals h' bs' = vals h bs'"
      using ch ch' chain_cong [of as h' h, OF same] chain_cong [of bs' h' h, OF same]
        vals_cong [of as h' h, OF same] vals_cong [of bs' h' h, OF same] by simp_all
    then have "rep h' l' (as @ a # brk h # bs) (xs @ x # v # ys)"
      using assms Cons n k d fresh rep_split [OF assms]
      by (auto simp: rep_def chain_split_cell h'_def l'_def heap_ok_def)
    moreover have "frame (set (as @ a # bs)) h h'" using Cons by (auto simp: frame_def h'_def)
    ultimately show ?thesis by blast
  qed
qed

section \<open>Walking the list\<close>

lemma it_plus_chain:
  "chain h p as None \<Longrightarrow> it_plus h (first_ptr as None) i = Some (first_ptr (drop i as) None)"
proof (induction as arbitrary: p i)
  case (Cons a as)
  then show ?case by (cases i) (auto simp: deref_def split: option.splits)
qed simp

lemma it_minus_chain:
  "chain h None as q \<Longrightarrow>
   it_minus h (last_ptr None as) i = Some (last_ptr None (take (length as - i) as))"
proof (induction as arbitrary: q i rule: rev_induct)
  case (snoc a as)
  then show ?case by (cases i) (auto simp: deref_def chain_split_cell)
qed simp

lemma list_front_rep: "rep h l as xs \<Longrightarrow> list_front (h, l) = (case xs of [] \<Rightarrow> None | x # _ \<Rightarrow> Some x)"
  by (cases as) (auto simp: rep_def list_front_def list_begin_def it_deref_def deref_def
      split: option.splits)

lemma list_back_rep: "rep h l as xs \<Longrightarrow> list_back (h, l) = (if xs = [] then None else Some (last xs))"
proof (cases as rule: rev_cases)
  case Nil
  moreover assume "rep h l as xs"
  ultimately show ?thesis
    by (auto simp: rep_def list_back_def list_begin_def list_size_def it_deref_def deref_def)
next
  case (snoc bs b)
  assume r: "rep h l as xs"
  then have "it_plus h (list_begin l) (list_size l - 1) = Some (Some b)"
    using it_plus_chain [of h None as "length bs"] snoc
    by (simp add: rep_def list_begin_def list_size_def)
  moreover obtain n where "cells h b = Some n" using r snoc by (auto simp: rep_def chain_split_cell)
  ultimately show ?thesis using r snoc
    by (auto simp: rep_def list_back_def list_size_def it_deref_def deref_def)
qed

end
