(* ===== verification/Linked_List_Ranges.thy ===== *)
theory Linked_List_Ranges
  imports Linked_List_Correct
begin

text \<open>
  The operations of the list that are templates over an input iterator (\<open>assign\<close>, \<open>compare\<close>) and
  the special members built on them. What the code relies on from an iterator type is the locale
  \<open>input_iterator\<close>; it is interpreted for the iterators of the list itself and for the array
  iterators of \<open>std::initializer_list\<close>.
\<close>

section \<open>Value updates keep the links\<close>

definition same_links :: "'a heap \<Rightarrow> 'a heap \<Rightarrow> bool" where
  "same_links h h' \<longleftrightarrow> brk h' = brk h \<and>
     (\<forall>a. map_option (\<lambda>n. (prev n, nxt n)) (cells h' a) = map_option (\<lambda>n. (prev n, nxt n)) (cells h a))"

lemma same_links_refl [simp, intro]: "same_links h h"
  by (simp add: same_links_def)

lemma same_links_trans: "same_links h h' \<Longrightarrow> same_links h' h'' \<Longrightarrow> same_links h h''"
  by (simp add: same_links_def)

lemma same_links_chain: "same_links h h' \<Longrightarrow> chain h' p as q = chain h p as q"
  by (rule chain_links_cong) (simp add: same_links_def)

lemma same_links_heap_ok: "same_links h h' \<Longrightarrow> heap_ok h' = heap_ok h"
proof -
  assume l: "same_links h h'"
  have "cells h' a = None \<longleftrightarrow> cells h a = None" for a
    using l unfolding same_links_def by (cases "cells h' a"; cases "cells h a") (auto dest: spec [of _ a])
  with l show ?thesis by (simp add: heap_ok_def same_links_def)
qed

lemma rep_same_links:
  "rep h l as xs \<Longrightarrow> same_links h h' \<Longrightarrow> vals h' as = ys \<Longrightarrow> rep h' l as ys"
  by (simp add: rep_def same_links_chain same_links_heap_ok)

lemma set_nval_cell:
  assumes "cells h a = Some n"
  shows "\<exists>h'. set_nval h (Some a) v = Some h' \<and> cells h' = (cells h)(a := Some (n\<lparr>nval := v\<rparr>)) \<and>
    same_links h h' \<and> frame {a} h h'"
  using assms by (auto simp: prim_defs same_links_def frame_def)

section \<open>Input iterators\<close>

text \<open>
  \<open>yields h b e F vs\<close>: in the heap \<open>h\<close> the range from \<open>b\<close> to \<open>e\<close> delivers the values \<open>vs\<close>, reading
  only the cells in \<open>F\<close>.
\<close>

locale input_iterator =
  fixes dr :: "'a heap \<Rightarrow> 'it \<Rightarrow> 'a option"
    and inc :: "'a heap \<Rightarrow> 'it \<Rightarrow> 'it option"
    and yields :: "'a heap \<Rightarrow> 'it \<Rightarrow> 'it \<Rightarrow> addr set \<Rightarrow> 'a list \<Rightarrow> bool"
  assumes yields_Nil: "yields h b e F [] \<Longrightarrow> b = e"
    and yields_Cons: "yields h b e F (v # vs) \<Longrightarrow>
      b \<noteq> e \<and> dr h b = Some v \<and> (\<exists>b'. inc h b = Some b' \<and> yields h b' e F vs)"
    and yields_frame: "yields h b e F vs \<Longrightarrow> frame S h h' \<Longrightarrow> heap_ok h' \<Longrightarrow> S \<inter> F = {} \<Longrightarrow>
      yields h' b e F vs"
begin

lemma assign_overwrite_ok:
  assumes "chain h p as None" "distinct as" "heap_ok h" "yields h b e F vs" "set as \<inter> F = {}"
  shows "\<exists>b' h'. assign_overwrite dr inc b e (first_ptr as None) h =
      Some (first_ptr (drop (length vs) as) None, b', h') \<and>
    yields h' b' e F (drop (length as) vs) \<and> same_links h h' \<and> frame (set as) h h' \<and>
    vals h' as = take (length as) vs @ drop (length vs) (vals h as)"
  using assms
proof (induction vs arbitrary: h p as b)
  case Nil
  then show ?case using yields_Nil [of h b e F] by (subst assign_overwrite.simps) auto
next
  case (Cons v vs)
  show ?case
  proof (cases as)
    case Nil
    with Cons.prems show ?thesis by (subst assign_overwrite.simps) auto
  next
    case (Cons a bs)
    from yields_Cons [OF Cons.prems(4)] have b: "b \<noteq> e" "dr h b = Some v" by auto
    from Cons.prems Cons obtain n where n: "cells h a = Some n" "nxt n = first_ptr bs None"
      and bs: "chain h (Some a) bs None" by (auto split: option.splits)
    from set_nval_cell [OF n(1)] obtain h1 where h1: "set_nval h (Some a) v = Some h1"
      "cells h1 = (cells h)(a := Some (n\<lparr>nval := v\<rparr>))" "same_links h h1" "frame {a} h h1"
      by blast
    have ok1: "heap_ok h1" using h1 Cons.prems by (simp add: same_links_heap_ok)
    have "yields h1 b e F (v # vs)"
      using yields_frame [OF Cons.prems(4) h1(4) ok1] Cons Cons.prems(5) by auto
    then obtain b' where b': "inc h1 b = Some b'" "yields h1 b' e F vs"
      using yields_Cons by blast
    have ch1: "chain h1 (Some a) bs None" using bs h1 by (simp add: same_links_chain)
    obtain b2 h2 where 2: "assign_overwrite dr inc b' e (first_ptr bs None) h1 =
        Some (first_ptr (drop (length vs) bs) None, b2, h2)"
      "yields h2 b2 e F (drop (length bs) vs)" "same_links h1 h2" "frame (set bs) h1 h2"
      "vals h2 bs = take (length bs) vs @ drop (length vs) (vals h1 bs)"
      using Cons.IH [OF ch1 _ ok1 b'(2)] Cons.prems Cons by auto
    have "assign_overwrite dr inc b e (first_ptr as None) h =
        Some (first_ptr (drop (length (v # vs)) as) None, b2, h2)"
      using 2 b b' h1 n Cons by (subst assign_overwrite.simps) (simp add: deref_def)
    moreover have "frame (set as) h h2"
      using h1(4) 2(4) Cons by (auto simp: frame_def)
    moreover have "cells h2 a = cells h1 a"
      using 2(4) Cons.prems Cons h1 heap_okD [OF Cons.prems(3) n(1)]
      by (auto simp: frame_def same_links_def)
    moreover have "vals h1 bs = vals h bs"
      using Cons Cons.prems(2) by (intro vals_cong) (auto simp: h1)
    ultimately show ?thesis
      using 2 h1 Cons by (auto intro: same_links_trans)
  qed
qed

lemma assign_append_ok:
  assumes "rep h l as xs" "yields h b e F (v # vs)" "set as \<inter> F = {}" "F \<subseteq> {..<brk h}"
  shows "\<exists>h' l' as'. assign_append dr inc b e (h, l) = Some (h', l') \<and>
    rep h' l' (as @ as') (xs @ v # vs) \<and> frame (set as) h h' \<and> set as' \<inter> F = {}"
  using assms
proof (induction vs arbitrary: h l as xs b v)
  case Nil
  obtain h1 l1 where 1: "push_back v (h, l) = Some (h1, l1)"
    "rep h1 l1 (as @ [brk h]) (xs @ [v])" "frame (set as) h h1"
    using push_back_rep [OF Nil.prems(1)] by blast
  have "yields h1 b e F [v]"
    using yields_frame [OF Nil.prems(2) 1(3)] 1(2) Nil.prems(3) by (auto simp: rep_def)
  then obtain b' where "inc h1 b = Some b'" "b' = e" "dr h b = Some v"
    using yields_Cons yields_Nil Nil.prems(2) by blast
  with 1 have "assign_append dr inc b e (h, l) = Some (h1, l1)"
    by (subst assign_append.simps) simp
  with 1 Nil.prems(4) show ?case by (intro exI [of _ h1] exI [of _ l1] exI [of _ "[brk h]"]) auto
next
  case (Cons w vs)
  obtain h1 l1 where 1: "push_back v (h, l) = Some (h1, l1)"
    "rep h1 l1 (as @ [brk h]) (xs @ [v])" "frame (set as) h h1"
    using push_back_rep [OF Cons.prems(1)] by blast
  have "yields h1 b e F (v # w # vs)"
    using yields_frame [OF Cons.prems(2) 1(3)] 1(2) Cons.prems(3) by (auto simp: rep_def)
  then obtain b' where b': "inc h1 b = Some b'" "yields h1 b' e F (w # vs)" "dr h b = Some v"
    using yields_Cons Cons.prems(2) by blast
  have dis: "set (as @ [brk h]) \<inter> F = {}" "F \<subseteq> {..<brk h1}"
    using Cons.prems(3,4) 1(3) by (auto simp: frame_def)
  obtain h2 l2 as' where 2: "assign_append dr inc b' e (h1, l1) = Some (h2, l2)"
    "rep h2 l2 ((as @ [brk h]) @ as') ((xs @ [v]) @ w # vs)" "frame (set (as @ [brk h])) h1 h2"
    "set as' \<inter> F = {}"
    using Cons.IH [OF 1(2) b'(2) dis] by blast
  have "b' \<noteq> e" using yields_Cons [OF b'(2)] by simp
  then have "assign_append dr inc b e (h, l) = Some (h2, l2)"
    using 1 2 b' by (subst assign_append.simps) simp
  moreover have "frame (set as) h h2"
    using 1(3) 2(3) by (rule frame_trans) auto
  ultimately show ?case
    using 2 Cons.prems(4) by (intro exI [of _ h2] exI [of _ l2] exI [of _ "brk h # as'"]) auto
qed

lemma assign_ok:
  assumes "rep h l as xs" "yields h b e F vs" "set as \<inter> F = {}" "F \<subseteq> {..<brk h}"
  shows "\<exists>h' l' as'. assign dr inc b e (h, l) = Some (h', l') \<and>
    rep h' l' as' (if vs = [] then xs else vs) \<and> frame (set as) h h' \<and> set as' \<inter> F = {}"
proof (cases vs)
  case Nil
  then show ?thesis using assms(1,2,3) yields_Nil [of h b e F] by (auto simp: assign_def)
next
  case (Cons v ws)
  have b: "b \<noteq> e" using yields_Cons assms(2) Cons by blast
  have pre: "chain h None as None" "distinct as" "heap_ok h" "first_ptr as None = head_ptr l"
    using assms(1) by (simp_all add: rep_def)
  from assign_overwrite_ok [OF pre(1-3) assms(2,3)] pre(4) obtain b1 h1
    where 1: "assign_overwrite dr inc b e (head_ptr l) h =
        Some (first_ptr (drop (length vs) as) None, b1, h1)"
      "yields h1 b1 e F (drop (length as) vs)" "same_links h h1" "frame (set as) h h1"
      "vals h1 as = take (length as) vs @ drop (length vs) (vals h as)" by auto
  have r1: "rep h1 l as (take (length as) vs @ drop (length vs) xs)"
    using rep_same_links [OF assms(1) 1(3,5)] assms(1) by (simp add: rep_def)
  show ?thesis
  proof (cases "length vs \<le> length as")
    case True
    then have "b1 = e" using 1(2) yields_Nil by simp
    let ?as = "take (length vs) as" and ?bs = "drop (length vs) as"
    have "rep h1 l (?as @ ?bs) (vs @ drop (length vs) xs)" using r1 True by simp
    from assign_erase_rep [OF this] True obtain h2 l2 where
      2: "assign_erase (first_ptr ?bs None) (h1, l) = Some (h2, l2)" "rep h2 l2 ?as vs"
        "frame (set (?as @ ?bs)) h1 h2" by auto
    have "frame (set as) h h2" using 1(4) 2(3) by (rule frame_trans) (simp del: set_append)
    moreover have "set ?as \<inter> F = {}" using assms(3) by (auto dest: in_set_takeD)
    ultimately show ?thesis using 1 2 b \<open>b1 = e\<close> Cons by (auto simp: assign_def)
  next
    case False
    then obtain w ws' where w: "drop (length as) vs = w # ws'"
      by (cases "drop (length as) vs") auto
    have xs: "rep h1 l as (take (length as) vs)" using r1 False rep_length [OF assms(1)] by simp
    have F: "F \<subseteq> {..<brk h1}" using assms(4) 1(3) by (simp add: same_links_def)
    from assign_append_ok [OF xs 1(2) [unfolded w] assms(3) F] obtain h2 l2 as'
      where 2: "assign_append dr inc b1 e (h1, l) = Some (h2, l2)"
        "rep h2 l2 (as @ as') (take (length as) vs @ w # ws')" "frame (set as) h1 h2"
        "set as' \<inter> F = {}" by blast
    have "b1 \<noteq> e" using yields_Cons 1(2) w by auto
    moreover have "frame (set as) h h2" using 1(4) 2(3) by (rule frame_trans) auto
    moreover have "take (length as) vs @ w # ws' = vs" by (metis append_take_drop_id w)
    ultimately show ?thesis using 1 2 b Cons assms(3)
      by (intro exI [of _ h2] exI [of _ l2] exI [of _ "as @ as'"]) (auto simp: assign_def)
  qed
qed

lemma compare_ok:
  assumes "chain h p as None" "list_end h l = Some None" "yields h b e F ys"
  shows "compare dr inc (h, l) (first_ptr as None) b e = Some (vals h as = ys)"
  using assms
proof (induction ys arbitrary: p as b)
  case Nil
  then have "b = e" by (auto dest: yields_Nil)
  with Nil show ?case by (subst compare.simps) (auto simp: vals_def)
next
  case (Cons y ys)
  then obtain b' where b: "b \<noteq> e" "dr h b = Some y" "inc h b = Some b'" "yields h b' e F ys"
    using yields_Cons by blast
  show ?case
  proof (cases as)
    case Nil
    with b Cons.prems show ?thesis by (subst compare.simps) simp
  next
    case (Cons a bs)
    with Cons.prems obtain n where n: "cells h a = Some n" "nxt n = first_ptr bs None"
      "chain h (Some a) bs None" by (auto split: option.splits)
    with Cons.IH [OF n(3) Cons.prems(2) b(4)] show ?thesis
      using b Cons Cons.prems(2)
      by (subst compare.simps) (simp add: it_deref_def it_incr_def deref_def)
  qed
qed

end

section \<open>Interpretations\<close>

definition list_yields :: "'a heap \<Rightarrow> ptr \<Rightarrow> ptr \<Rightarrow> addr set \<Rightarrow> 'a list \<Rightarrow> bool" where
  "list_yields h b e F vs \<longleftrightarrow>
     (\<exists>as p. heap_ok h \<and> chain h p as None \<and> set as \<subseteq> F \<and> b = first_ptr as None \<and> e = None \<and>
       vals h as = vs)"

definition arr_yields :: "'a list \<Rightarrow> 'a heap \<Rightarrow> nat \<Rightarrow> nat \<Rightarrow> addr set \<Rightarrow> 'a list \<Rightarrow> bool" where
  "arr_yields arr h b e F vs \<longleftrightarrow> e = length arr \<and> b \<le> e \<and> vs = drop b arr"

lemma list_yields_Cons:
  assumes "list_yields h b e F (v # vs)"
  shows "b \<noteq> e \<and> it_deref h b = Some v \<and> (\<exists>b'. it_incr h b = Some b' \<and> list_yields h b' e F vs)"
proof -
  from assms obtain a as p where "heap_ok h" "chain h p (a # as) None" "set (a # as) \<subseteq> F"
    "b = Some a" "e = None" "vals h (a # as) = v # vs"
    unfolding list_yields_def by (metis first_ptr_simps(2) length_0_conv neq_Nil_conv vals_simps(4))
  then show ?thesis
    by (auto simp: list_yields_def it_deref_def it_incr_def deref_def split: option.splits)
qed

lemma list_yields_frame:
  assumes "list_yields h b e F vs" "frame S h h'" "heap_ok h'" "S \<inter> F = {}"
  shows "list_yields h' b e F vs"
proof -
  from assms(1) obtain as p where as: "heap_ok h" "chain h p as None" "set as \<subseteq> F"
    "b = first_ptr as None" "e = None" "vals h as = vs" by (auto simp: list_yields_def)
  have same: "cells h' a = cells h a" if "a \<in> set as" for a
  proof -
    from chain_cellD [OF as(2) \<open>a \<in> set as\<close>] obtain n where "cells h a = Some n" by blast
    then have "a < brk h" using as(1) by (rule heap_okD [rotated])
    with assms(2,4) as(3) that show ?thesis by (auto simp: frame_def)
  qed
  have "chain h' p as None" "vals h' as = vs"
    using as chain_cong [OF same] vals_cong [OF same] by simp_all
  with as assms(3) show ?thesis by (auto simp: list_yields_def)
qed

interpretation list_it: input_iterator it_deref it_incr list_yields
proof unfold_locales
  show "list_yields h b e F [] \<Longrightarrow> b = e" for h :: "'a heap" and b e F
    by (auto simp: list_yields_def vals_def)
qed (auto dest: list_yields_Cons intro: list_yields_frame)

interpretation arr_it: input_iterator "arr_deref arr" "arr_incr arr" "arr_yields arr" for arr
proof unfold_locales
  fix h :: "'a heap" and b e F v vs
  assume "arr_yields arr h b e F (v # vs)"
  then show "b \<noteq> e \<and> arr_deref arr h b = Some v \<and>
      (\<exists>b'. arr_incr arr h b = Some b' \<and> arr_yields arr h b' e F vs)"
    by (auto simp: arr_yields_def arr_deref_def arr_incr_def Cons_nth_drop_Suc [symmetric]
        dest: sym) (metis drop_eq_Nil list.distinct(1) list.sel drop_Suc nth_via_drop tl_drop not_le)+
qed (auto simp: arr_yields_def)

end
