(* ===== verification/Linked_List_Props.thy ===== *)
theory Linked_List_Props
  imports Linked_List_Ranges
begin

text \<open>
  The sorting routine of the list, its special members, the contract of a back-insertion
  container, and the properties of the component.
\<close>

section \<open>Sorting\<close>

fun exchange_pass :: "'a::linorder \<Rightarrow> 'a list \<Rightarrow> 'a \<times> 'a list" where
  "exchange_pass x [] = (x, [])"
| "exchange_pass x (y # ys) =
     (if x > y then (let (m, zs) = exchange_pass y ys in (m, x # zs))
      else (let (m, zs) = exchange_pass x ys in (m, y # zs)))"

lemma exchange_pass_mset: "exchange_pass x ys = (m, zs) \<Longrightarrow> add_mset m (mset zs) = add_mset x (mset ys)"
  by (induction x ys arbitrary: m zs rule: exchange_pass.induct)
    (auto split: if_splits prod.splits simp: add_mset_commute)

lemma exchange_pass_min: "exchange_pass x ys = (m, zs) \<Longrightarrow> m \<le> x \<and> (\<forall>z \<in> set zs. m \<le> z)"
  by (induction x ys arbitrary: m zs rule: exchange_pass.induct)
    (fastforce split: if_splits prod.splits)+

lemma sort_runner_ok:
  assumes "chain h p cs None" "distinct (a # cs)" "heap_ok h" "cells h a = Some m"
  shows "\<exists>h'. sort_runner (Some a) (first_ptr cs None) h = Some h' \<and> same_links h h' \<and>
    frame (set (a # cs)) h h' \<and>
    (nval (the (cells h' a)), vals h' cs) = exchange_pass (nval m) (vals h cs)"
  using assms
proof (induction cs arbitrary: p h m)
  case Nil
  then show ?case by (subst sort_runner.simps) auto
next
  case (Cons c cs)
  then obtain n where n: "cells h c = Some n" "nxt n = first_ptr cs None"
    and cs: "chain h (Some c) cs None" by (auto split: option.splits)
  have ac: "a \<noteq> c" "a \<notin> set cs" "c \<notin> set cs" "distinct cs" using Cons.prems(2) by auto
  define h1 where "h1 = (if nval m > nval n then h\<lparr>cells := (cells h)(a := Some (m\<lparr>nval := nval n\<rparr>),
      c := Some (n\<lparr>nval := nval m\<rparr>))\<rparr> else h)"
  define m1 where "m1 = (if nval m > nval n then m\<lparr>nval := nval n\<rparr> else m)"
  have same: "cells h1 z = cells h z" if "z \<in> set cs" for z
    using that ac by (auto simp: h1_def)
  have l1: "same_links h h1" "frame {a, c} h h1" "cells h1 a = Some m1"
    using Cons.prems(4) n ac by (auto simp: h1_def m1_def same_links_def frame_def)
  have ch1: "chain h1 (Some c) cs None" "vals h1 cs = vals h cs"
    using cs chain_cong [OF same] vals_cong [OF same] by simp_all
  have c1: "\<exists>n1. cells h1 c = Some n1 \<and> nxt n1 = nxt n \<and>
      nval n1 = (if nval m > nval n then nval m else nval n)"
    using n by (auto simp: h1_def)
  from Cons.IH [OF ch1(1) _ _ l1(3)] Cons.prems(3) l1(1) ac obtain h2
    where 2: "sort_runner (Some a) (first_ptr cs None) h1 = Some h2" "same_links h1 h2"
      "frame (set (a # cs)) h1 h2"
      "(nval (the (cells h2 a)), vals h2 cs) = exchange_pass (nval m1) (vals h1 cs)"
    by (auto simp: same_links_heap_ok)
  have "sort_runner (Some a) (first_ptr (c # cs) None) h = Some h2"
    using Cons.prems(4) n ac c1 2(1)
    by (subst sort_runner.simps) (auto simp: h1_def prim_defs)
  moreover have "cells h2 c = cells h1 c"
    using 2(3) ac heap_okD [OF Cons.prems(3) n(1)] l1(1) by (auto simp: frame_def same_links_def)
  moreover have "frame (set (a # c # cs)) h h2"
    using frame_mono [OF l1(2)] 2(3) by (rule frame_trans) auto
  ultimately show ?case
    using 2(2,4) l1(1) ch1(2) c1 n(1)
    by (intro exI [of _ h2]) (auto simp: m1_def intro: same_links_trans split: prod.splits)
qed

lemma sort_outer_ok:
  assumes "chain h p as None" "distinct as" "heap_ok h"
  shows "\<exists>h'. sort_outer (first_ptr as None) h = Some h' \<and> same_links h h' \<and> frame (set as) h h' \<and>
    sorted (vals h' as) \<and> mset (vals h' as) = mset (vals h as)"
  using assms
proof (induction as arbitrary: p h)
  case Nil
  then show ?case by (subst sort_outer.simps) auto
next
  case (Cons a as)
  then obtain m where m: "cells h a = Some m" "nxt m = first_ptr as None"
    and as: "chain h (Some a) as None" "a \<notin> set as" "distinct as" by (auto split: option.splits)
  obtain h1 where 1: "sort_runner (Some a) (first_ptr as None) h = Some h1" "same_links h h1"
    "frame (set (a # as)) h h1"
    "(nval (the (cells h1 a)), vals h1 as) = exchange_pass (nval m) (vals h as)"
    using sort_runner_ok [OF as(1) Cons.prems(2,3) m(1)] by blast
  from 1(2) m obtain m1 where m1: "cells h1 a = Some m1" "nxt m1 = first_ptr as None"
    unfolding same_links_def by (cases "cells h1 a") (auto dest: spec [of _ a])
  have ch1: "chain h1 (Some a) as None" "heap_ok h1"
    using as 1(2) Cons.prems by (simp_all add: same_links_chain same_links_heap_ok)
  obtain h2 where 2: "sort_outer (first_ptr as None) h1 = Some h2" "same_links h1 h2"
    "frame (set as) h1 h2" "sorted (vals h2 as)" "mset (vals h2 as) = mset (vals h1 as)"
    using Cons.IH [OF ch1(1) as(3) ch1(2)] by blast
  have "sort_outer (first_ptr (a # as) None) h = Some h2"
    using m m1 1(1) 2(1) by (subst sort_outer.simps) (simp add: deref_def)
  moreover have "frame (set (a # as)) h h2" using 1(3) 2(3) by (rule frame_trans) auto
  moreover have "cells h2 a = Some m1"
    using 2(3) as(2) m1(1) heap_okD [OF ch1(2) m1(1)] by (auto simp: frame_def)
  moreover have "\<forall>z \<in> set (vals h2 as). nval m1 \<le> z"
    using exchange_pass_min [OF 1(4) [symmetric]] m1(1) 2(5) by (metis mset_eq_setD option.sel)
  moreover have "add_mset (nval m1) (mset (vals h1 as)) = add_mset (nval m) (mset (vals h as))"
    using exchange_pass_mset [OF 1(4) [symmetric]] m1(1) by simp
  ultimately show ?case using 1(2) 2 m(1)
    by (intro exI [of _ h2]) (auto intro: same_links_trans)
qed

lemma list_sort_rep:
  assumes "rep h l as xs"
  shows "\<exists>h'. list_sort (h, l) = Some (h', l) \<and> rep h' l as (sort xs) \<and> same_links h h' \<and>
    frame (set as) h h'"
proof (cases "as = []")
  case True
  with assms show ?thesis by (auto simp: list_sort_def list_empty_def rep_def)
next
  case False
  have pre: "chain h None as None" "distinct as" "heap_ok h" "head_ptr l = first_ptr as None"
    "list_length l \<noteq> 0" "vals h as = xs"
    using assms False by (simp_all add: rep_def)
  from sort_outer_ok [OF pre(1-3)] obtain h1
    where 1: "sort_outer (first_ptr as None) h = Some h1" "same_links h h1" "frame (set as) h h1"
      "sorted (vals h1 as)" "mset (vals h1 as) = mset (vals h as)" by blast
  then have "vals h1 as = sort xs" using pre(6) by (simp add: sorted_mset_unique)
  with assms 1 pre show ?thesis
    by (auto simp: list_sort_def list_empty_def intro: rep_same_links)
qed

section \<open>Special members\<close>

lemma list_ctor_rep: "heap_ok h \<Longrightarrow> rep h list_ctor [] []"
  by (simp add: rep_def list_ctor_def)

lemma rep_list_yields: "rep h l as xs \<Longrightarrow> list_yields h (list_begin l) None (set as) xs"
  by (auto simp: rep_def list_yields_def list_begin_def)

lemma copy_assign_rep:
  assumes l: "rep h l as xs" and r: "rep h r bs ys" and d: "set as \<inter> set bs = {}"
  shows "\<exists>h' l' as'. copy_assign False r (h, l) = Some (h', l') \<and>
    rep h' l' as' (if ys = [] then xs else ys) \<and> rep h' r bs ys \<and> frame (set as) h h'"
proof -
  have brk: "set bs \<subseteq> {..<brk h}" using rep_lt_brk [OF r] by auto
  obtain h' l' as' where 1: "assign it_deref it_incr (list_begin r) None (h, l) = Some (h', l')"
    "rep h' l' as' (if ys = [] then xs else ys)" "frame (set as) h h'"
    using list_it.assign_ok [OF l rep_list_yields [OF r] d brk] by auto
  moreover from this have "rep h' r bs ys"
    using rep_frame [OF r 1(3)] d by (auto simp: rep_def)
  ultimately show ?thesis using list_end_rep [OF r] by (auto simp: copy_assign_def)
qed

lemma copy_ctor_rep:
  assumes r: "rep h r bs ys"
  shows "\<exists>h' l' as'. list_ctor_copy r h = Some (h', l') \<and> rep h' l' as' ys \<and> rep h' r bs ys"
proof -
  have "heap_ok h" using r by (simp add: rep_def)
  then have "rep h list_ctor [] []" by (rule list_ctor_rep)
  from copy_assign_rep [OF this r] show ?thesis
    by (cases ys) (auto simp: copy_assign_def list_ctor_copy_def)
qed

lemma assign_init_rep:
  assumes "rep h l as xs"
  shows "\<exists>h' l' as'. assign_init arr (h, l) = Some (h', l') \<and>
    rep h' l' as' (if arr = [] then xs else arr) \<and> frame (set as) h h'"
  using arr_it.assign_ok [OF assms, of arr 0 "length arr" "{}" arr]
  by (auto simp: assign_init_def arr_yields_def)

lemma list_eq_rep:
  assumes "rep h l as xs" "rep h r bs ys"
  shows "list_eq h l r = Some (xs = ys)"
  using list_it.compare_ok [OF _ list_end_rep [OF assms(1)] rep_list_yields [OF assms(2)], of None as]
    assms list_end_rep [OF assms(2)] by (auto simp: list_eq_def rep_def list_begin_def)

lemma move_assign_rep:
  assumes "rep h l as xs" "rep h r bs ys" "set as \<inter> set bs = {}"
  shows "\<exists>h' l' r'. move_assign False r (h, l) = Some ((h', l'), r') \<and>
    rep h' l' bs ys \<and> rep h' r' [] [] \<and> (\<forall>a \<in> set as. cells h' a = None)"
proof -
  from clear_rep [OF assms(1)] obtain h1 l1 where 1: "clear (h, l) = Some (h1, l1)"
    "rep h1 l1 [] []" "frame (set as) h h1" "\<forall>a \<in> set as. cells h1 a = None" by blast
  have "rep h1 r bs ys"
    using rep_frame [OF assms(2) 1(3)] 1(2) assms(3) by (auto simp: rep_def)
  with 1 show ?thesis by (auto simp: move_assign_def rep_def)
qed

section \<open>Contracts of sequence containers\<close>

text \<open>
  What a client that only appends relies on, and its extension to both ends. A client program is
  a list of operations; \<open>spec_op\<close> is its meaning on HOL lists, where removing from an empty
  sequence is undefined.
\<close>

fun push_all :: "('a \<Rightarrow> 's \<Rightarrow> 's option) \<Rightarrow> 'a list \<Rightarrow> 's \<Rightarrow> 's option" where
  "push_all push [] s = Some s"
| "push_all push (v # vs) s = do { s' \<leftarrow> push v s; push_all push vs s' }"

datatype 'a deque_op = PushBack 'a | PushFront 'a | PopBack | PopFront

fun spec_op :: "'a deque_op \<Rightarrow> 'a list \<Rightarrow> 'a list option" where
  "spec_op (PushBack v) xs = Some (xs @ [v])"
| "spec_op (PushFront v) xs = Some (v # xs)"
| "spec_op PopBack xs = (if xs = [] then None else Some (butlast xs))"
| "spec_op PopFront xs = (if xs = [] then None else Some (tl xs))"

fun run_ops :: "('a deque_op \<Rightarrow> 's \<Rightarrow> 's option) \<Rightarrow> 'a deque_op list \<Rightarrow> 's \<Rightarrow> 's option" where
  "run_ops step [] s = Some s"
| "run_ops step (c # cs) s = do { s' \<leftarrow> step c s; run_ops step cs s' }"

locale back_inserter =
  fixes repr :: "'s \<Rightarrow> 'a list \<Rightarrow> bool"
    and push :: "'a \<Rightarrow> 's \<Rightarrow> 's option"
  assumes push_repr: "repr s xs \<Longrightarrow> \<exists>s'. push v s = Some s' \<and> repr s' (xs @ [v])"
begin

lemma push_all_repr: "repr s xs \<Longrightarrow> \<exists>s'. push_all push vs s = Some s' \<and> repr s' (xs @ vs)"
proof (induction vs arbitrary: s xs)
  case (Cons v vs)
  from push_repr [OF Cons.prems] obtain s1 where "push v s = Some s1" "repr s1 (xs @ [v])" by blast
  with Cons.IH [of s1 "xs @ [v]"] show ?case by auto
qed auto

end

locale deque = back_inserter repr push for repr :: "'s \<Rightarrow> 'a list \<Rightarrow> bool" and push +
  fixes step :: "'a deque_op \<Rightarrow> 's \<Rightarrow> 's option"
  assumes step_push: "step (PushBack v) s = push v s"
    and step_repr: "repr s xs \<Longrightarrow> spec_op c xs = Some ys \<Longrightarrow> \<exists>s'. step c s = Some s' \<and> repr s' ys"
    and step_undefined: "repr s xs \<Longrightarrow> spec_op c xs = None \<Longrightarrow> step c s = None"
begin

lemma run_ops_simulates:
  "repr s xs \<Longrightarrow>
   (case run_ops spec_op cs xs of None \<Rightarrow> run_ops step cs s = None
    | Some ys \<Rightarrow> (\<exists>s'. run_ops step cs s = Some s' \<and> repr s' ys))"
proof (induction cs arbitrary: s xs)
  case (Cons c cs)
  show ?case
  proof (cases "spec_op c xs")
    case None
    with step_undefined [OF Cons.prems None] show ?thesis by simp
  next
    case (Some ys)
    from step_repr [OF Cons.prems Some] obtain s1 where "step c s = Some s1" "repr s1 ys" by blast
    with Cons.IH [of s1 ys] Some show ?thesis by (auto split: option.splits)
  qed
qed simp

end

fun list_step :: "'a deque_op \<Rightarrow> 'a lstate \<Rightarrow> 'a lstate option" where
  "list_step (PushBack v) s = push_back v s"
| "list_step (PushFront v) s = push_front v s"
| "list_step PopBack s = pop_back s"
| "list_step PopFront s = pop_front s"

lemma representsI: "rep h l as xs \<Longrightarrow> represents (h, l) xs"
  by (auto simp: represents_def)

lemma representsE: "represents s xs \<Longrightarrow> (\<And>h l as. s = (h, l) \<Longrightarrow> rep h l as xs \<Longrightarrow> P) \<Longrightarrow> P"
  by (cases s) (auto simp: represents_def)

lemma list_step_represents:
  assumes "represents s xs" "spec_op c xs = Some ys"
  shows "\<exists>s'. list_step c s = Some s' \<and> represents s' ys"
proof -
  from assms(1) obtain h l as where s: "s = (h, l)" and r: "rep h l as xs" by (rule representsE)
  show ?thesis
  proof (cases c)
    case (PushBack v)
    with assms(2) push_back_rep [OF r, of v] s show ?thesis by (fastforce intro: representsI)
  next
    case (PushFront v)
    with assms(2) push_front_rep [OF r, of v] s show ?thesis by (fastforce intro: representsI)
  next
    case PopBack
    with assms(2) have "xs \<noteq> []" "ys = butlast xs" by (auto split: if_splits)
    moreover from this obtain bs b where as: "as = bs @ [b]"
      using rep_length [OF r] by (cases as rule: rev_cases) auto
    ultimately have "rep h l (bs @ [b]) (ys @ [last xs])" using r by simp
    from pop_back_rep [OF this] s PopBack show ?thesis by (auto intro: representsI)
  next
    case PopFront
    with assms(2) have "xs \<noteq> []" "ys = tl xs" by (auto split: if_splits)
    moreover from this obtain b bs where as: "as = b # bs"
      using rep_length [OF r] by (cases as) auto
    ultimately have "rep h l (b # bs) (hd xs # ys)" using r by simp
    from pop_front_rep [OF this] s PopFront show ?thesis by (auto intro: representsI)
  qed
qed

lemma list_step_undefined:
  "represents s xs \<Longrightarrow> spec_op c xs = None \<Longrightarrow> list_step c s = None"
  by (cases c) (auto elim!: representsE split: if_splits
      simp: rep_def vals_def pop_back_def pop_front_def deref_def)

interpretation dll: deque represents push_back list_step
proof unfold_locales
  show "represents s xs \<Longrightarrow> \<exists>s'. push_back v s = Some s' \<and> represents s' (xs @ [v])"
    for s xs and v :: 'a using list_step_represents [of s xs "PushBack v"] by simp
qed (simp, fact list_step_represents, fact list_step_undefined)

section \<open>Properties\<close>

text \<open>
  C1: every client program of \<open>push_back\<close>, \<open>push_front\<close>, \<open>pop_back\<close> and \<open>pop_front\<close> run on a
  well-formed list computes what the program means on sequences, and it runs into undefined
  behaviour exactly when it removes from an empty list.
\<close>

theorem deque_program_refines:
  assumes "represents s xs"
  shows "case run_ops spec_op cs xs of None \<Rightarrow> run_ops list_step cs s = None
    | Some ys \<Rightarrow> (\<exists>s'. run_ops list_step cs s = Some s' \<and> represents s' ys)"
  using assms by (rule dll.run_ops_simulates)

lemma represents_ctor: "represents (empty_heap, list_ctor) []"
  by (rule representsI, rule list_ctor_rep) (simp add: heap_ok_def empty_heap_def)

lemma deque_program_refines_witness:
  "\<exists>s'. run_ops list_step [PushBack (1::int), PushFront 2, PushBack 3, PopFront] (empty_heap, list_ctor) =
     Some s' \<and> represents s' [1, 3]"
  using deque_program_refines [OF represents_ctor, of "[PushBack (1::int), PushFront 2, PushBack 3, PopFront]"]
  by simp

text \<open>A concrete heap with two lists, \<open>3 1 2\<close> and \<open>7 8\<close>, and an empty one.\<close>

definition ex_heap :: "int heap" where
  "ex_heap = \<lparr>cells = [0 \<mapsto> \<lparr>nval = 3, prev = None, nxt = Some 1\<rparr>,
      1 \<mapsto> \<lparr>nval = 1, prev = Some 0, nxt = Some 2\<rparr>,
      2 \<mapsto> \<lparr>nval = 2, prev = Some 1, nxt = None\<rparr>,
      3 \<mapsto> \<lparr>nval = 7, prev = None, nxt = Some 4\<rparr>,
      4 \<mapsto> \<lparr>nval = 8, prev = Some 3, nxt = None\<rparr>], brk = 5\<rparr>"

definition ex_list :: dlist where
  "ex_list = \<lparr>head_ptr = Some 0, tail_ptr = Some 2, list_length = 3\<rparr>"

definition ex_list2 :: dlist where
  "ex_list2 = \<lparr>head_ptr = Some 3, tail_ptr = Some 4, list_length = 2\<rparr>"

lemma ex_rep:
  "rep ex_heap ex_list [0, 1, 2] [3, 1, 2]"
  "rep ex_heap ex_list2 [3, 4] [7, 8]"
  "rep ex_heap list_ctor [] []"
  by (simp_all add: rep_def ex_heap_def ex_list_def ex_list2_def list_ctor_def heap_ok_def vals_def
      last_ptr_def)

lemma node_at:
  assumes "rep h l as xs" "i < length xs"
  shows "it_plus h (list_begin l) i = Some (Some (as ! i)) \<and>
    rep h l (take i as @ as ! i # drop (Suc i) as) (take i xs @ xs ! i # drop (Suc i) xs)"
proof -
  have "i < length as" using assms rep_length by fastforce
  then have "drop i as = as ! i # drop (Suc i) as" by (rule Cons_nth_drop_Suc [symmetric])
  with assms \<open>i < length as\<close> it_plus_chain [of h None as i] show ?thesis
    by (simp add: rep_def list_begin_def id_take_nth_drop [symmetric])
qed

text \<open>
  \<open>erase\<close> at the \<open>i\<close>-th position removes exactly that element, whether it is the first, the
  last or an inner node, frees its node and touches no memory outside the list.
\<close>

theorem erase_at_position:
  assumes "rep h l as xs" "i < length xs"
  shows "\<exists>it h' l' as'. it_plus h (list_begin l) i = Some it \<and> erase it (h, l) = Some (h', l') \<and>
    rep h' l' as' (take i xs @ drop (Suc i) xs) \<and> cells h' (as ! i) = None \<and> frame (set as) h h'"
proof -
  note n = node_at [OF assms]
  have len: "i < length as" using assms rep_length by fastforce
  then have "length (take i as) = length (take i xs)" using assms by simp
  from erase_rep [OF conjunct2 [OF n] this] n len show ?thesis
    by (simp add: id_take_nth_drop [symmetric]) blast
qed

lemma erase_at_position_witness:
  "\<exists>it h' l' as'. it_plus ex_heap (list_begin ex_list) 1 = Some it \<and>
    erase it (ex_heap, ex_list) = Some (h', l') \<and> rep h' l' as' [3, 2] \<and> cells h' 1 = None \<and>
    frame {0, 1, 2} ex_heap h'"
  using erase_at_position [OF ex_rep(1), of 1] by simp

text \<open>
  \<open>insert\<close> puts the new value directly after the node its iterator points to, and at the end
  of the list when given \<open>end()\<close>.
\<close>

theorem insert_at_position:
  assumes "rep h l as xs"
  shows "(i < length xs \<longrightarrow> (\<exists>it h' l' as'. it_plus h (list_begin l) i = Some it \<and>
      list_insert it v (h, l) = Some (h', l') \<and>
      rep h' l' as' (take (Suc i) xs @ v # drop (Suc i) xs) \<and> frame (set as) h h')) \<and>
    (\<exists>e h' l' as'. list_end h l = Some e \<and> list_insert e v (h, l) = Some (h', l') \<and>
      rep h' l' as' (xs @ [v]) \<and> frame (set as) h h')"
proof (intro conjI impI)
  assume i: "i < length xs"
  note n = node_at [OF assms i]
  have len: "i < length as" using assms i rep_length by fastforce
  then have "length (take i as) = length (take i xs)" using i by simp
  from list_insert_rep [OF conjunct2 [OF n] this, of v] n len i show "\<exists>it h' l' as'.
      it_plus h (list_begin l) i = Some it \<and> list_insert it v (h, l) = Some (h', l') \<and>
      rep h' l' as' (take (Suc i) xs @ v # drop (Suc i) xs) \<and> frame (set as) h h'"
    by (simp add: id_take_nth_drop [symmetric] take_Suc_conv_app_nth) blast
next
  show "\<exists>e h' l' as'. list_end h l = Some e \<and> list_insert e v (h, l) = Some (h', l') \<and>
      rep h' l' as' (xs @ [v]) \<and> frame (set as) h h'"
    using push_back_rep [OF assms] list_end_rep [OF assms] list_insert_end_rep [OF assms] by fastforce
qed

lemma insert_at_position_witness:
  "\<exists>it h' l' as'. it_plus ex_heap (list_begin ex_list) 0 = Some it \<and>
    list_insert it 4 (ex_heap, ex_list) = Some (h', l') \<and> rep h' l' as' [3, 4, 1, 2] \<and>
    frame {0, 1, 2} ex_heap h'"
  using insert_at_position [OF ex_rep(1), of 0 4] by simp

text \<open>
  the destructor, through \<open>clear\<close>, returns on every well-formed list, frees every node of the
  list and leaves all other memory unchanged.
\<close>

theorem dtor_frees_all_nodes:
  assumes "rep h l as xs"
  shows "\<exists>h' l'. list_dtor (h, l) = Some (h', l') \<and> rep h' l' [] [] \<and>
    (\<forall>a \<in> set as. cells h' a = None) \<and> frame (set as) h h'"
  using clear_rep [OF assms] by (auto simp: list_dtor_def)

lemma dtor_frees_all_nodes_witness:
  "\<exists>h' l'. list_dtor (ex_heap, ex_list) = Some (h', l') \<and> rep h' l' [] [] \<and>
    cells h' 0 = None \<and> cells h' 1 = None \<and> cells h' 2 = None"
  using dtor_frees_all_nodes [OF ex_rep(1)] by auto

text \<open>
  copy construction and copy assignment give the target its own nodes with the values of the
  source and keep the source, whenever the source is not empty; the target's old nodes need not
  have the same number.
\<close>

theorem copy_is_deep:
  assumes "rep h l as xs" "rep h r bs ys" "set as \<inter> set bs = {}" "ys \<noteq> []"
  shows "(\<exists>h' l' as'. copy_assign False r (h, l) = Some (h', l') \<and> rep h' l' as' ys \<and>
      rep h' r bs ys \<and> frame (set as) h h') \<and>
    (\<exists>h' l' as'. list_ctor_copy r h = Some (h', l') \<and> rep h' l' as' ys \<and> rep h' r bs ys)"
  using copy_assign_rep [OF assms(1-3)] assms(4) copy_ctor_rep [OF assms(2)] by auto

lemma copy_is_deep_witness:
  "\<exists>h' l' as'. copy_assign False ex_list2 (ex_heap, ex_list) = Some (h', l') \<and> rep h' l' as' [7, 8] \<and>
    rep h' ex_list2 [3, 4] [7, 8]"
  using copy_is_deep [OF ex_rep(1,2)] by auto

text \<open>
  assigning from an empty range does nothing: a non-empty list that is copy-assigned an empty
  list, or an empty initializer list, keeps its old contents.
\<close>

theorem assign_empty_keeps_contents:
  assumes "rep h l as xs" "rep h r [] []"
  shows "copy_assign False r (h, l) = Some (h, l) \<and> assign_init [] (h, l) = Some (h, l)"
  using assms list_end_rep [OF assms(2)]
  by (simp_all add: copy_assign_def assign_init_def assign_def rep_def list_begin_def)

lemma assign_empty_keeps_contents_witness:
  "copy_assign False list_ctor (ex_heap, ex_list) = Some (ex_heap, ex_list) \<and>
   rep ex_heap ex_list [0, 1, 2] [3, 1, 2]"
  using assign_empty_keeps_contents [OF ex_rep(1,3)] ex_rep(1) by simp

text \<open>
  C31: \<open>sort\<close> terminates on every well-formed list, orders the values and permutes nothing but
  values: the nodes stay where they are and no other memory changes.
\<close>

theorem sort_sorts:
  assumes "rep h l as xs"
  shows "\<exists>h'. list_sort (h, l) = Some (h', l) \<and> rep h' l as (sort xs) \<and> same_links h h' \<and>
    frame (set as) h h'"
  using assms by (rule list_sort_rep)

lemma sort_sorts_witness:
  "\<exists>h'. list_sort (ex_heap, ex_list) = Some (h', ex_list) \<and> rep h' ex_list [0, 1, 2] [1, 2, 3]"
  using sort_sorts [OF ex_rep(1)] by auto

text \<open>
  \<open>operator==\<close> returns on any two well-formed lists and decides whether they hold the same
  sequence of values; \<open>operator!=\<close> is its negation.
\<close>

theorem eq_decides_contents:
  assumes "rep h l as xs" "rep h r bs ys"
  shows "list_eq h l r = Some (xs = ys) \<and> list_neq h l r = Some (xs \<noteq> ys)"
  using list_eq_rep [OF assms] by (simp add: list_neq_def)

lemma eq_decides_contents_witness:
  "list_eq ex_heap ex_list ex_list2 = Some False \<and> list_eq ex_heap ex_list ex_list = Some True"
  using eq_decides_contents [OF ex_rep(1,2)] eq_decides_contents [OF ex_rep(1,1)] by simp

text \<open>
  Move assignment frees the nodes of the target, hands it the nodes of the source without
  copying, and leaves the source empty; move construction does the same for a new list.
\<close>

theorem move_transfers_nodes:
  assumes "rep h l as xs" "rep h r bs ys" "set as \<inter> set bs = {}"
  shows "(\<exists>h' l' r'. move_assign False r (h, l) = Some ((h', l'), r') \<and> rep h' l' bs ys \<and>
      rep h' r' [] [] \<and> (\<forall>a \<in> set as. cells h' a = None)) \<and>
    (\<exists>m r'. list_ctor_move r = (m, r') \<and> rep h m bs ys \<and> rep h r' [] [])"
  using move_assign_rep [OF assms] assms(2) by (auto simp: list_ctor_move_def rep_def)

lemma move_transfers_nodes_witness:
  "\<exists>h' l' r'. move_assign False ex_list2 (ex_heap, ex_list) = Some ((h', l'), r') \<and>
     rep h' l' [3, 4] [7, 8] \<and> rep h' r' [] [] \<and> cells h' 1 = None"
  using move_transfers_nodes [OF ex_rep(1,2)] by auto

text \<open>
  \<open>front()\<close> and \<open>back()\<close> return the first and the last element of a non-empty list and
  dereference the null iterator on an empty one.
\<close>

theorem front_back_ok:
  assumes "rep h l as xs"
  shows "list_front (h, l) = (if xs = [] then None else Some (hd xs)) \<and>
    list_back (h, l) = (if xs = [] then None else Some (last xs))"
  using list_front_rep [OF assms] list_back_rep [OF assms] by (auto split: list.splits)

lemma front_back_ok_witness: "list_front (ex_heap, ex_list) = Some 3 \<and> list_back (ex_heap, ex_list) = Some 2"
  using front_back_ok [OF ex_rep(1)] by simp

end
