(* ===== verification/Linked_List_Tests.thy ===== *)
theory Linked_List_Tests
  imports Linked_List_Props
begin

text \<open>
  The test functions of \<open>2022-02-16-doubly-linked-list/list.cpp\<close>, run on the model. A test is
  \<open>Some True\<close> when it runs without undefined behaviour and all its assertions hold. Each test
  builds its lists in one heap, as the program does.
\<close>

text \<open>The range-based for loop that copies a list into another container.\<close>

partial_function (option) range_for :: "'a heap \<Rightarrow> ptr \<Rightarrow> ptr \<Rightarrow> 'a list option" where
  "range_for h it e =
     (if it \<noteq> e then
        do { v \<leftarrow> it_deref h it; it' \<leftarrow> it_incr h it; vs \<leftarrow> range_for h it' e; Some (v # vs) }
      else Some [])"

declare range_for.simps [code]

definition list_range_test :: "bool option" where
  "list_range_test =
     do { let empty = list_ctor;
          e0 \<leftarrow> list_end (empty_heap :: int heap) empty;
          (h, my_list) \<leftarrow> list_ctor_init [1, 2, 3, 4, 5] (empty_heap :: int heap);
          e \<leftarrow> list_end h my_list;
          my_output \<leftarrow> range_for h (list_begin my_list) e;
          Some (list_begin empty = e0 \<and> my_output = [1, 2, 3, 4, 5]) }"

definition list_equality_test :: "bool option" where
  "list_equality_test =
     do { (h1, l1) \<leftarrow> list_ctor_init [1, 2] (empty_heap :: int heap);
          (h, l2) \<leftarrow> list_ctor_init [1, 2] h1;
          a \<leftarrow> list_eq h l1 l2;
          b \<leftarrow> list_neq h l1 l2;
          Some (a \<and> \<not> b) }"

text \<open>One block of \<open>list_assign_function_test\<close>: assign the list of \<open>ys\<close> to the list of \<open>xs\<close>, expect \<open>zs\<close>.\<close>

definition assign_block :: "int list \<Rightarrow> int list \<Rightarrow> int list \<Rightarrow> bool option" where
  "assign_block xs ys zs =
     do { (h1, l1) \<leftarrow> list_ctor_init xs empty_heap;
          (h2, l2) \<leftarrow> list_ctor_init ys h1;
          e \<leftarrow> list_end h2 l2;
          (h3, l) \<leftarrow> assign it_deref it_incr (list_begin l2) e (h2, l1);
          (h4, expected) \<leftarrow> list_ctor_init zs h3;
          b \<leftarrow> list_eq h4 l expected;
          Some (list_size l1 = length xs \<and> b) }"

definition list_assign_function_test :: "bool option" where
  "list_assign_function_test =
     do { b1 \<leftarrow> assign_block [] [] [];
          b2 \<leftarrow> assign_block [1] [2] [2];
          b3 \<leftarrow> assign_block [1, 2, 3] [4, 5, 6, 7, 8, 9] [4, 5, 6, 7, 8, 9];
          b4 \<leftarrow> assign_block [4, 5, 6, 7, 8, 9, 10, 11] [1, 2, 3] [1, 2, 3];
          Some (b1 \<and> b2 \<and> b3 \<and> b4) }"

definition list_move_assign_test :: "bool option" where
  "list_move_assign_test =
     do { (h1, l) \<leftarrow> list_ctor_init [1, 2, 3] (empty_heap :: int heap);
          (h2, to_assign) \<leftarrow> list_ctor_init [4, 5, 6, 7, 8, 9] h1;
          ((h3, to_assign'), l') \<leftarrow> move_assign False l (h2, to_assign);
          f \<leftarrow> list_front (h3, to_assign');
          b \<leftarrow> list_back (h3, to_assign');
          Some (list_size l' = 0 \<and> list_size to_assign' = 3 \<and> f = 1 \<and> b = 3) }"

definition insert_block :: "nat option \<Rightarrow> int list \<Rightarrow> bool option" where
  "insert_block offset assertion =
     do { (h1, l) \<leftarrow> list_ctor_init [1, 2, 3] empty_heap;
          (h2, expected) \<leftarrow> list_ctor_init assertion h1;
          it \<leftarrow> (case offset of None \<Rightarrow> list_end h2 l | Some i \<Rightarrow> it_plus h2 (list_begin l) i);
          (h3, l') \<leftarrow> list_insert it 4 (h2, l);
          list_eq h3 l' expected }"

definition list_insert_test :: "bool option" where
  "list_insert_test =
     do { b1 \<leftarrow> insert_block (Some 0) [1, 4, 2, 3];
          b2 \<leftarrow> insert_block (Some 1) [1, 2, 4, 3];
          b3 \<leftarrow> insert_block None [1, 2, 3, 4];
          Some (b1 \<and> b2 \<and> b3) }"

definition list_copy_assign_test :: "bool option" where
  "list_copy_assign_test =
     do { (h1, l) \<leftarrow> list_ctor_init [1, 2, 3] (empty_heap :: int heap);
          (h2, to_assign) \<leftarrow> list_ctor_init [4, 5, 6, 7, 8, 9] h1;
          (h3, to_assign') \<leftarrow> copy_assign False l (h2, to_assign);
          f \<leftarrow> list_front (h3, to_assign');
          b \<leftarrow> list_back (h3, to_assign');
          Some (list_size l = 3 \<and> list_size to_assign' = 3 \<and> f = 1 \<and> b = 3) }"

definition list_copy_ctor_test :: "bool option" where
  "list_copy_ctor_test =
     do { (h1, l) \<leftarrow> list_ctor_init [1, 2, 3] (empty_heap :: int heap);
          (h2, copied) \<leftarrow> list_ctor_copy l h1;
          f \<leftarrow> list_front (h2, l);
          b \<leftarrow> list_back (h2, l);
          f' \<leftarrow> list_front (h2, copied);
          b' \<leftarrow> list_back (h2, copied);
          Some (list_size l = 3 \<and> f = 1 \<and> b = 3 \<and> list_size copied = 3 \<and> f' = 1 \<and> b' = 3) }"

definition list_move_ctor_test :: "bool option" where
  "list_move_ctor_test =
     do { (h1, l) \<leftarrow> list_ctor_init [1, 2, 3] (empty_heap :: int heap);
          let (moved, l') = list_ctor_move l;
          f \<leftarrow> list_front (h1, moved);
          b \<leftarrow> list_back (h1, moved);
          Some (list_size l' = 0 \<and> list_size moved = 3 \<and> f = 1 \<and> b = 3) }"

definition ends :: "'a lstate \<Rightarrow> (nat \<times> 'a \<times> 'a) option" where
  "ends s = do { f \<leftarrow> list_front s; b \<leftarrow> list_back s; Some (list_size (snd s), f, b) }"

definition list_basic_insertion_test :: "bool option" where
  "list_basic_insertion_test =
     do { let s0 = (empty_heap :: int heap, list_ctor);
          s1 \<leftarrow> push_back 1 s0;
          e1 \<leftarrow> ends s1;
          s2 \<leftarrow> pop_back s1;
          s3 \<leftarrow> push_front 1 s2;
          e3 \<leftarrow> ends s3;
          s4 \<leftarrow> push_front 2 s3;
          e4 \<leftarrow> ends s4;
          s5 \<leftarrow> push_front 3 s4;
          e5 \<leftarrow> ends s5;
          Some (list_size (snd s0) = 0 \<and> e1 = (1, 1, 1) \<and> list_size (snd s2) = 0 \<and>
            e3 = (1, 1, 1) \<and> e4 = (2, 2, 1) \<and> snd e5 = (3, 1)) }"

definition list_compare_tests :: "bool option" where
  "list_compare_tests =
     do { (h1, l1) \<leftarrow> list_ctor_init [1, 2, 3] (empty_heap :: int heap);
          (h2, l2) \<leftarrow> list_ctor_init [1, 2, 3] h1;
          a \<leftarrow> list_eq h2 l1 l2;
          (h3, l2') \<leftarrow> pop_back (h2, l2);
          b \<leftarrow> list_neq h3 l1 l2';
          Some (a \<and> b) }"

definition list_sort_tests :: "bool option" where
  "list_sort_tests =
     do { _ \<leftarrow> list_sort (empty_heap :: int heap, list_ctor);
          (h1, l) \<leftarrow> list_ctor_init [3, 1, 2, 10] (empty_heap :: int heap);
          (h2, expected) \<leftarrow> list_ctor_init [1, 2, 3, 10] h1;
          (h3, l') \<leftarrow> list_sort (h2, l);
          list_eq h3 l' expected }"

definition list_erase_tests :: "bool option" where
  "list_erase_tests =
     do { (h1, l) \<leftarrow> list_ctor_init [3, 1, 2, 10] (empty_heap :: int heap);
          (h2, erased) \<leftarrow> list_ctor_init [2, 10] h1;
          (h3, l1) \<leftarrow> erase (list_begin l) (h2, l);
          (h4, l2) \<leftarrow> erase (list_begin l1) (h3, l1);
          b \<leftarrow> list_eq h4 l2 erased;
          Some (b \<and> list_size erased = 2) }"

definition list_main :: "bool option" where
  "list_main =
     do { t1 \<leftarrow> list_range_test;
          t2 \<leftarrow> list_assign_function_test;
          t3 \<leftarrow> list_insert_test;
          t4 \<leftarrow> list_copy_assign_test;
          t5 \<leftarrow> list_move_assign_test;
          t6 \<leftarrow> list_copy_ctor_test;
          t7 \<leftarrow> list_move_ctor_test;
          t8 \<leftarrow> list_equality_test;
          t9 \<leftarrow> list_basic_insertion_test;
          t10 \<leftarrow> list_compare_tests;
          t11 \<leftarrow> list_sort_tests;
          t12 \<leftarrow> list_erase_tests;
          Some (t1 \<and> t2 \<and> t3 \<and> t4 \<and> t5 \<and> t6 \<and> t7 \<and> t8 \<and> t9 \<and> t10 \<and> t11 \<and> t12) }"

lemma list_tests_pass1:
  "list_range_test = Some True" "list_equality_test = Some True"
  "list_assign_function_test = Some True" "list_move_assign_test = Some True"
  by code_simp+

lemma list_tests_pass2:
  "list_insert_test = Some True" "list_copy_assign_test = Some True"
  "list_copy_ctor_test = Some True" "list_move_ctor_test = Some True"
  by code_simp+

lemma list_tests_pass3:
  "list_basic_insertion_test = Some True" "list_compare_tests = Some True"
  "list_sort_tests = Some True" "list_erase_tests = Some True"
  by code_simp+

text \<open>
  The test program of the list runs to its end without undefined behaviour and every
  assertion of its twelve test functions holds.
\<close>

theorem list_test_program_passes: "list_main = Some True"
  by (simp add: list_main_def list_tests_pass1 list_tests_pass2 list_tests_pass3)

end
