(* ===== verification/Block_Stream.thy ===== *)
theory Block_Stream
  imports Prelude
begin

text \<open>
  What the hash functions of the repository share: bytes are fed one at a time into a buffer, and
  a full buffer is compressed into the chaining state. The locale \<open>block_stream\<close> states the
  contract of one feeding step; its lemmas relate a whole run to the list of blocks of the input.
  The hexadecimal digest and the byte orders are here too.
\<close>

unbundle bit_operations_syntax

section \<open>Blocks of a byte string\<close>

function chunks :: "nat \<Rightarrow> 'a list \<Rightarrow> 'a list list" where
  "chunks n xs = (if n = 0 \<or> length xs < n then [] else take n xs # chunks n (drop n xs))"
  by pat_completeness auto
termination
  by (relation "measure (\<lambda>(n, xs). length xs)") auto

declare chunks.simps [simp del]

definition leftover :: "nat \<Rightarrow> 'a list \<Rightarrow> 'a list" where
  "leftover n xs = drop (n * (length xs div n)) xs"

lemma chunks_short [simp]: "length xs < n \<Longrightarrow> chunks n xs = []"
  by (subst chunks.simps) simp

lemma leftover_short [simp]: "length xs < n \<Longrightarrow> leftover n xs = xs"
  by (simp add: leftover_def)

lemma chunks_block: "0 < n \<Longrightarrow> length ys = n \<Longrightarrow> chunks n (ys @ xs) = ys # chunks n xs"
  by (subst chunks.simps) simp

lemma leftover_block: "0 < n \<Longrightarrow> length ys = n \<Longrightarrow> leftover n (ys @ xs) = leftover n xs"
  by (simp add: leftover_def div_add_self1)

lemma length_leftover: "length (leftover n xs) = length xs mod n"
  by (simp add: leftover_def minus_mult_div_eq_mod)

lemma chunks_append: "chunks n (xs @ ys) = chunks n xs @ chunks n (leftover n xs @ ys)"
proof (induction n xs rule: chunks.induct)
  case (1 n xs)
  show ?case
  proof (cases "n = 0 \<or> length xs < n")
    case True
    then show ?thesis
      by (auto simp: leftover_def chunks.simps [of 0])
  next
    case False
    then obtain b zs where xs: "xs = b @ zs" "length b = n"
      by (metis append_take_drop_id length_take min.absorb2 not_less)
    with False 1 show ?thesis
      by (simp add: chunks_block leftover_block)
  qed
qed

lemma leftover_append: "0 < n \<Longrightarrow> leftover n (xs @ ys) = leftover n (leftover n xs @ ys)"
proof (induction n xs rule: chunks.induct)
  case (1 n xs)
  show ?case
  proof (cases "length xs < n")
    case False
    then obtain b zs where xs: "xs = b @ zs" "length b = n"
      by (metis append_take_drop_id length_take min.absorb2 not_less)
    with False 1 show ?thesis by (simp add: leftover_block)
  qed simp
qed

lemma chunks_exact: "0 < n \<Longrightarrow> length ys = n \<Longrightarrow> chunks n ys = [ys]"
  using chunks_block [of n ys "[]"] by simp

lemma length_chunks: "0 < n \<Longrightarrow> length (chunks n xs) = length xs div n"
proof (induction n xs rule: chunks.induct)
  case (1 n xs)
  then show ?case
    by (cases "length xs < n") (auto simp: chunks.simps [of n xs] div_if [of "length xs" n])
qed

section \<open>The contract of a feeding step\<close>

locale block_stream =
  fixes n :: nat
    and compress :: "'st \<Rightarrow> u8 list \<Rightarrow> 'st"
    and feed :: "'c \<Rightarrow> u8 \<Rightarrow> 'c"
    and st :: "'c \<Rightarrow> 'st"
    and buf :: "'c \<Rightarrow> u8 list"
    and ok :: "'c \<Rightarrow> bool"
  assumes n_pos: "0 < n"
    and buf_lt: "ok c \<Longrightarrow> length (buf c) < n"
    and feed_ok: "ok c \<Longrightarrow> ok (feed c b)"
    and feed_partial: "ok c \<Longrightarrow> Suc (length (buf c)) < n \<Longrightarrow>
      st (feed c b) = st c \<and> buf (feed c b) = buf c @ [b]"
    and feed_full: "ok c \<Longrightarrow> Suc (length (buf c)) = n \<Longrightarrow>
      st (feed c b) = compress (st c) (buf c @ [b]) \<and> buf (feed c b) = []"
begin

lemma feeds_ok: "ok c \<Longrightarrow> ok (foldl feed c bs)"
  by (induction bs arbitrary: c) (auto intro: feed_ok)

lemma feeds_run:
  "ok c \<Longrightarrow> st (foldl feed c bs) = foldl compress (st c) (chunks n (buf c @ bs)) \<and>
     buf (foldl feed c bs) = leftover n (buf c @ bs)"
proof (induction bs arbitrary: c)
  case Nil
  then show ?case using buf_lt [of c] by simp
next
  case (Cons b bs)
  note IH = Cons.IH [OF feed_ok [OF Cons.prems]]
  show ?case
  proof (cases "Suc (length (buf c)) < n")
    case True
    with IH feed_partial [OF Cons.prems] show ?thesis by simp
  next
    case False
    then have full: "Suc (length (buf c)) = n" using buf_lt [OF Cons.prems] by simp
    then have "chunks n ((buf c @ [b]) @ bs) = (buf c @ [b]) # chunks n bs"
      "leftover n ((buf c @ [b]) @ bs) = leftover n bs"
      using n_pos chunks_block [of n "buf c @ [b]" bs] leftover_block [of n "buf c @ [b]" bs]
      by simp_all
    with IH feed_full [OF Cons.prems full] show ?thesis by simp
  qed
qed

end

section \<open>Byte order and hexadecimal output\<close>

definition word_be32 :: "u8 list \<Rightarrow> u32" where
  "word_be32 bs = push_bit 24 (ucast (bs ! 0)) OR push_bit 16 (ucast (bs ! 1)) OR
     push_bit 8 (ucast (bs ! 2)) OR ucast (bs ! 3)"

definition word_le32 :: "u8 list \<Rightarrow> u32" where
  "word_le32 bs = ucast (bs ! 0) OR push_bit 8 (ucast (bs ! 1)) OR
     push_bit 16 (ucast (bs ! 2)) OR push_bit 24 (ucast (bs ! 3))"

definition word_be64 :: "u8 list \<Rightarrow> u64" where
  "word_be64 bs = push_bit 56 (ucast (bs ! 0)) OR push_bit 48 (ucast (bs ! 1)) OR
     push_bit 40 (ucast (bs ! 2)) OR push_bit 32 (ucast (bs ! 3)) OR
     push_bit 24 (ucast (bs ! 4)) OR push_bit 16 (ucast (bs ! 5)) OR
     push_bit 8 (ucast (bs ! 6)) OR ucast (bs ! 7)"

definition bytes_le :: "nat \<Rightarrow> 'w::len word \<Rightarrow> u8 list" where
  "bytes_le k w = map (\<lambda>i. ucast (drop_bit (8 * i) w)) [0..<k]"

definition bytes_be :: "nat \<Rightarrow> 'w::len word \<Rightarrow> u8 list" where
  "bytes_be k w = map (\<lambda>i. ucast (drop_bit (8 * (k - 1 - i)) w)) [0..<k]"

lemma length_bytes [simp]: "length (bytes_le k w) = k" "length (bytes_be k w) = k"
  by (simp_all add: bytes_le_def bytes_be_def)

definition alphabet :: string where
  "alphabet = ''0123456789abcdef''"

fun hex_string :: "u8 list \<Rightarrow> string" where
  "hex_string [] = []"
| "hex_string (c # cs) = alphabet ! unat (drop_bit 4 c) # alphabet ! unat (c AND 15) # hex_string cs"

lemma length_hex_string: "length (hex_string bs) = 2 * length bs"
  by (induction bs) simp_all

definition overwrite :: "'a list \<Rightarrow> nat \<Rightarrow> 'a list \<Rightarrow> 'a list" where
  "overwrite xs i ys = take i xs @ ys @ drop (i + length ys) xs"

lemma overwrite_tail: "i + length ys = length xs \<Longrightarrow> overwrite xs i ys = take i xs @ ys"
  by (simp add: overwrite_def)

lemma take_Suc_update: "i < length xs \<Longrightarrow> take (Suc i) (xs[i := b]) = take i xs @ [b]"
  by (simp add: take_Suc_conv_app_nth)

lemma bytes_le_split:
  fixes w :: u64
  shows "bytes_le 4 (ucast w :: u32) @ bytes_le 4 (ucast (drop_bit 32 w) :: u32) = bytes_le 8 w"
proof -
  have a: "ucast (drop_bit (8 * i) (ucast w :: u32)) = (ucast (drop_bit (8 * i) w) :: u8)"
    if "i < 4" for i
    using that by (intro bit_word_eqI) (auto simp: bit_simps)
  have b: "ucast (drop_bit (8 * i) (ucast (drop_bit 32 w) :: u32)) = (ucast (drop_bit (8 * (i + 4)) w) :: u8)"
    if "i < 4" for i
    using that by (intro bit_word_eqI) (auto simp: bit_simps algebra_simps)
  have "[0..<8] = [0..<4] @ map (\<lambda>i. i + 4) [0..<4]"
    by (simp add: upt_rec)
  then show ?thesis
    using a b by (simp add: bytes_le_def)
qed

section \<open>Padding\<close>

text \<open>
  The Merkle-Damgard padding of a message for a block size and the size of the length field: a one
  bit, the fewest zeros that leave room for the field in the last block, and the field.
\<close>

definition md_pad :: "nat \<Rightarrow> nat \<Rightarrow> u8 list \<Rightarrow> u8 list \<Rightarrow> u8 list" where
  "md_pad n f len_field m =
     m @ 0x80 # replicate ((2 * n - f - 1 - length m mod n) mod n) 0 @ len_field"

lemma pad_zeros:
  fixes n :: nat
  assumes "r < n" "f < n"
  shows "(2 * n - f - 1 - r) mod n = (if r < n - f then n - f - 1 - r else 2 * n - f - 1 - r)"
proof (cases "r < n - f")
  case True
  then have "2 * n - f - 1 - r = n + (n - f - 1 - r)" by simp
  moreover have "n - f - 1 - r < n" using assms by simp
  ultimately show ?thesis using True by (simp only: mod_add_self1 mod_less if_True)
qed (use assms in simp)

lemma md_pad_blocks:
  assumes "length len_field = f" "f < n"
  shows "n dvd length (md_pad n f len_field m)"
proof -
  define r where "r = length m mod n"
  have r: "r < n" using assms by (simp add: r_def)
  have "length (md_pad n f len_field m) = length m + 1 + (2 * n - f - 1 - r) mod n + f"
    using assms by (simp add: md_pad_def r_def)
  also have "\<dots> mod n = (r + 1 + (2 * n - f - 1 - r) + f) mod n"
  proof -
    have "(length m + (2 * n - f - 1 - r) mod n) mod n = (r + (2 * n - f - 1 - r)) mod n"
      by (simp add: r_def mod_simps)
    from mod_add_cong [OF this refl, of "1 + f"] show ?thesis by (simp add: ac_simps)
  qed
  also have "r + 1 + (2 * n - f - 1 - r) + f = 2 * n" using r assms(2) by simp
  finally show ?thesis by (simp add: dvd_eq_mod_eq_0)
qed

text \<open>
  The last blocks as the SHA routines build them in place: \<open>data\<close> is the buffer, whose first \<open>r\<close>
  bytes are the unprocessed rest of the message.
\<close>

definition last_block :: "nat \<Rightarrow> nat \<Rightarrow> u8 list \<Rightarrow> nat \<Rightarrow> u8 list \<Rightarrow> u8 list" where
  "last_block n f data r len_field =
     overwrite (overwrite (data[r := 0x80]) (r + 1) (replicate (n - f - (r + 1)) 0)) (n - f) len_field"

definition spill_block :: "nat \<Rightarrow> u8 list \<Rightarrow> nat \<Rightarrow> u8 list" where
  "spill_block n data r = overwrite (data[r := 0x80]) (r + 1) (replicate (n - (r + 1)) 0)"

lemma update_mark: "r < length data \<Longrightarrow> take (Suc r) (data[r := x]) = take r data @ [x]"
  by (rule take_Suc_update)

lemma last_block_eq:
  assumes "length data = n" "r < n - f" "length len_field = f" "f < n"
  shows "last_block n f data r len_field = take r data @ 0x80 # replicate (n - f - 1 - r) 0 @ len_field"
proof -
  obtain k where n: "n = f + r + 1 + k" using assms(2) by (metis less_diff_conv less_iff_Suc_add add.commute add.left_commute add_Suc_right Suc_eq_plus1)
  have "take (n - f) (overwrite (data[r := 0x80]) (r + 1) (replicate (n - f - (r + 1)) 0)) =
      take r data @ 0x80 # replicate (n - f - 1 - r) 0"
    using assms(1) n update_mark [of r data "0x80"] by (simp add: overwrite_def)
  moreover have "length (overwrite (data[r := 0x80]) (r + 1) (replicate (n - f - (r + 1)) 0)) = n"
    using assms(1) n by (simp add: overwrite_def)
  ultimately show ?thesis
    using assms by (simp add: last_block_def overwrite_tail)
qed

lemma spill_block_eq:
  assumes "length data = n" "r < n"
  shows "spill_block n data r = take r data @ 0x80 # replicate (n - 1 - r) 0"
  using assms update_mark [of r data "0x80"] by (simp add: spill_block_def overwrite_tail)

lemma md_pad_chunks:
  fixes n f :: nat
  assumes "length len_field = f" "f < n" "length data = n" "r = length m mod n"
    "take r data = leftover n m"
  shows "chunks n (md_pad n f len_field m) = chunks n m @
    (if r < n - f then [last_block n f data r len_field]
     else [spill_block n data r, replicate (n - f) 0 @ len_field])"
proof -
  have r: "r < n" using assms by simp
  define z where "z = (2 * n - f - 1 - r) mod n"
  have z: "z = (if r < n - f then n - f - 1 - r else 2 * n - f - 1 - r)"
    unfolding z_def using r assms(2) by (rule pad_zeros)
  have "md_pad n f len_field m = m @ (0x80 # replicate z 0 @ len_field)"
    by (simp add: md_pad_def z_def assms(4))
  then have c: "chunks n (md_pad n f len_field m) =
      chunks n m @ chunks n (take r data @ 0x80 # replicate z 0 @ len_field)"
    by (simp add: chunks_append [of n m] assms(5))
  show ?thesis
  proof (cases "r < n - f")
    case True
    then have "take r data @ 0x80 # replicate z 0 @ len_field = last_block n f data r len_field"
      using assms z by (simp add: last_block_eq)
    moreover have "length (take r data @ 0x80 # replicate z 0 @ len_field) = n"
      using True assms(1-4) z r by simp
    ultimately show ?thesis using True c r chunks_exact [of n] by simp
  next
    case False
    have "2 * n - f - 1 - r = (n - 1 - r) + (n - f)" using False r assms(2) by simp
    then have "take r data @ 0x80 # replicate z 0 @ len_field =
        (take r data @ 0x80 # replicate (n - 1 - r) 0) @ (replicate (n - f) 0 @ len_field)"
      using z False by (simp add: replicate_add)
    also have "chunks n \<dots> = [take r data @ 0x80 # replicate (n - 1 - r) 0, replicate (n - f) 0 @ len_field]"
      using assms(1-3) r by (subst chunks_block) (simp_all add: chunks_exact)
    finally show ?thesis using c False assms r by (simp add: spill_block_eq)
  qed
qed

end
