(* ===== verification/Md5.thy ===== *)
theory Md5
  imports Block_Stream
begin

text \<open>
  MD5 as in \<open>2021-09-18-MD5/md5.hpp\<close>. The context keeps the length, the four chaining words and
  the 64 byte block, which the initialisation leaves uninitialised; the cast of the block to
  32-bit words reads it in little-endian order, as the x86 assembly of \<open>rotate_left\<close> implies.
\<close>

unbundle bit_operations_syntax

record md5_ctx_t =
  md5_data_length :: u64
  md5_state :: "u32 list"
  md5_data :: "u8 list"

definition md5_rotate_left :: "u32 \<Rightarrow> nat \<Rightarrow> u32" where
  "md5_rotate_left v cnt = word_rotl cnt v"

definition md5_ch :: "u32 \<Rightarrow> u32 \<Rightarrow> u32 \<Rightarrow> u32" where
  "md5_ch x y z = (x AND y) XOR (NOT x AND z)"

definition md5_iv :: "u32 list" where
  "md5_iv = [0x67452301, 0xefcdab89, 0x98badcfe, 0x10325476]"

definition md5_init :: "md5_ctx_t \<Rightarrow> md5_ctx_t" where
  "md5_init ctx = ctx\<lparr>md5_data_length := 0, md5_state := md5_iv\<rparr>"

definition md5_shifts_table :: "nat list" where
  "md5_shifts_table = [
    7, 12, 17, 22, 7, 12, 17, 22, 7, 12, 17, 22, 7, 12, 17, 22,
    5,  9, 14, 20, 5,  9, 14, 20, 5,  9, 14, 20, 5,  9, 14, 20,
    4, 11, 16, 23, 4, 11, 16, 23, 4, 11, 16, 23, 4, 11, 16, 23,
    6, 10, 15, 21, 6, 10, 15, 21, 6, 10, 15, 21, 6, 10, 15, 21]"

definition md5_constants :: "u32 list" where
  "md5_constants = [
    0xd76aa478, 0xe8c7b756, 0x242070db, 0xc1bdceee, 0xf57c0faf, 0x4787c62a, 0xa8304613, 0xfd469501,
    0x698098d8, 0x8b44f7af, 0xffff5bb1, 0x895cd7be, 0x6b901122, 0xfd987193, 0xa679438e, 0x49b40821,
    0xf61e2562, 0xc040b340, 0x265e5a51, 0xe9b6c7aa, 0xd62f105d, 0x02441453, 0xd8a1e681, 0xe7d3fbc8,
    0x21e1cde6, 0xc33707d6, 0xf4d50d87, 0x455a14ed, 0xa9e3e905, 0xfcefa3f8, 0x676f02d9, 0x8d2a4c8a,
    0xfffa3942, 0x8771f681, 0x6d9d6122, 0xfde5380c, 0xa4beea44, 0x4bdecfa9, 0xf6bb4b60, 0xbebfbc70,
    0x289b7ec6, 0xeaa127fa, 0xd4ef3085, 0x04881d05, 0xd9d4d039, 0xe6db99e5, 0x1fa27cf8, 0xc4ac5665,
    0xf4292244, 0x432aff97, 0xab9423a7, 0xfc93a039, 0x655b59c3, 0x8f0ccc92, 0xffeff47d, 0x85845dd1,
    0x6fa87e4f, 0xfe2ce6e0, 0xa3014314, 0x4e0811a1, 0xf7537e82, 0xbd3af235, 0x2ad7d2bb, 0xeb86d391]"

definition md5_word :: "u8 list \<Rightarrow> nat \<Rightarrow> u32" where
  "md5_word buffer j = word_le32 (take 4 (drop (4 * j) buffer))"

definition md5_round :: "u8 list \<Rightarrow> u32 list \<Rightarrow> nat \<Rightarrow> u32 list" where
  "md5_round buffer vars i =
     (let (e, j) =
        (if i div 16 = 0 then (md5_ch (vars ! 1) (vars ! 2) (vars ! 3), i)
         else if i div 16 = 1 then
           ((vars ! 1 AND vars ! 3) OR (vars ! 2 AND NOT (vars ! 3)), (i * 5 + 1) mod 16)
         else if i div 16 = 2 then (vars ! 1 XOR vars ! 2 XOR vars ! 3, (i * 3 + 5) mod 16)
         else (vars ! 2 XOR (vars ! 1 OR NOT (vars ! 3)), (i * 7) mod 16))
      in [vars ! 3,
          vars ! 1 + md5_rotate_left (vars ! 0 + e + md5_constants ! i + md5_word buffer j)
            (md5_shifts_table ! i),
          vars ! 1,
          vars ! 2])"

definition md5_compress :: "u32 list \<Rightarrow> u8 list \<Rightarrow> u32 list" where
  "md5_compress state buffer =
     (let vars = foldl (md5_round buffer) state [0..<64] in map2 (+) state vars)"

definition md5_transform :: "md5_ctx_t \<Rightarrow> md5_ctx_t" where
  "md5_transform ctx = ctx\<lparr>md5_state := md5_compress (md5_state ctx) (md5_data ctx)\<rparr>"

text \<open>One round of the loop of \<open>md5_update\<close>, on the context and the local \<open>offset\<close>.\<close>

definition md5_feed :: "md5_ctx_t \<times> nat \<Rightarrow> u8 \<Rightarrow> md5_ctx_t \<times> nat" where
  "md5_feed s b = (case s of (ctx, offset) \<Rightarrow>
     (let ctx1 = ctx\<lparr>md5_data := (md5_data ctx)[offset := b]\<rparr>; offset1 = offset + 1
      in if offset1 mod 64 = 0 then (md5_transform ctx1, 0) else (ctx1, offset1)))"

text \<open>
  The loop counter is 32 bits wide and compared with a \<open>size_t\<close>: with \<open>2 ^ 32\<close> bytes or more the
  loop never ends.
\<close>

definition md5_update :: "md5_ctx_t \<Rightarrow> u8 list \<Rightarrow> md5_ctx_t option" where
  "md5_update ctx buffer =
     (let offset = unat (md5_data_length ctx mod 64);
          ctx1 = ctx\<lparr>md5_data_length := md5_data_length ctx + of_nat (length buffer)\<rparr>
      in if int (length buffer) < 2 ^ 32 then Some (fst (foldl md5_feed (ctx1, offset) buffer)) else None)"

definition md5_to_string :: "md5_ctx_t \<Rightarrow> string" where
  "md5_to_string ctx =
     (let bits = md5_data_length ctx * 8;
          d1 = overwrite (md5_data ctx) 56 (bytes_le 4 (ucast bits :: u32));
          d2 = overwrite d1 60 (bytes_le 4 (ucast (drop_bit 32 bits) :: u32));
          ctx1 = md5_transform (ctx\<lparr>md5_data := d2\<rparr>);
          digest = concat (map (bytes_le 4) (md5_state ctx1))
      in hex_string digest)"

definition md5_padding :: "u8 list" where
  "md5_padding = 0x80 # replicate 63 0"

definition md5_finalize :: "md5_ctx_t \<Rightarrow> string option" where
  "md5_finalize ctx =
     (let offset = unat (md5_data_length ctx mod 64);
          padding_length = (if offset < 56 then 56 - offset else (56 + 64) - offset)
      in do { ctx1 \<leftarrow> md5_update ctx (take padding_length md5_padding);
              Some (md5_to_string (ctx1\<lparr>md5_data_length := md5_data_length ctx1 - of_nat padding_length\<rparr>)) })"

text \<open>\<open>mem\<close> is the uninitialised stack memory in which \<open>md5_bytes\<close> puts its context.\<close>

definition md5_bytes :: "md5_ctx_t \<Rightarrow> u8 list \<Rightarrow> string option" where
  "md5_bytes mem buffer = do { ctx \<leftarrow> md5_update (md5_init mem) buffer; md5_finalize ctx }"

definition md5_string :: "md5_ctx_t \<Rightarrow> string \<Rightarrow> string option" where
  "md5_string mem buffer = md5_bytes mem (map (\<lambda>c. of_nat (of_char c)) buffer)"

text \<open>
  \<open>md5_file\<close> reads the file in pieces; \<open>None\<close> for the file is the failed \<open>fopen\<close>. The pieces are
  what the successive calls of \<open>fread\<close> deliver.
\<close>

fun md5_updates :: "md5_ctx_t \<Rightarrow> u8 list list \<Rightarrow> md5_ctx_t option" where
  "md5_updates ctx [] = Some ctx"
| "md5_updates ctx (p # ps) = do { ctx1 \<leftarrow> md5_update ctx p; md5_updates ctx1 ps }"

definition md5_file :: "md5_ctx_t \<Rightarrow> u8 list list option \<Rightarrow> string option" where
  "md5_file mem file =
     (case file of None \<Rightarrow> Some []
      | Some pieces \<Rightarrow> do { ctx \<leftarrow> md5_updates (md5_init mem) pieces; md5_finalize ctx })"

end
