(* ===== verification/Md5_Correct.thy ===== *)
theory Md5_Correct
  imports Md5
begin

text \<open>
  MD5 against its one-shot description: the digest is the chaining value of the padded message.
  \<open>md5_absorbed ctx m\<close> is the invariant of a context that has been fed the bytes \<open>m\<close>.
\<close>

definition md5_pad :: "u8 list \<Rightarrow> u8 list" where
  "md5_pad m = md_pad 64 8 (bytes_le 8 (of_nat (8 * length m) :: u64)) m"

definition md5_spec :: "u8 list \<Rightarrow> string" where
  "md5_spec m = hex_string (concat (map (bytes_le 4) (foldl md5_compress md5_iv (chunks 64 (md5_pad m)))))"

definition md5_absorbed :: "md5_ctx_t \<Rightarrow> u8 list \<Rightarrow> bool" where
  "md5_absorbed ctx m \<longleftrightarrow>
     length (md5_data ctx) = 64 \<and> md5_data_length ctx = of_nat (length m) \<and>
     md5_state ctx = foldl md5_compress md5_iv (chunks 64 m) \<and>
     take (length m mod 64) (md5_data ctx) = leftover 64 m"

section \<open>The feeding loop\<close>

definition md5_ok :: "md5_ctx_t \<times> nat \<Rightarrow> bool" where
  "md5_ok s \<longleftrightarrow> length (md5_data (fst s)) = 64 \<and> snd s < 64"

definition md5_buf :: "md5_ctx_t \<times> nat \<Rightarrow> u8 list" where
  "md5_buf s = take (snd s) (md5_data (fst s))"

lemma md5_feed_cases:
  assumes "md5_ok s"
  shows "Suc (snd s) < 64 \<Longrightarrow>
      md5_feed s b = ((fst s)\<lparr>md5_data := (md5_data (fst s))[snd s := b]\<rparr>, Suc (snd s))"
    and "Suc (snd s) = 64 \<Longrightarrow>
      md5_feed s b = (md5_transform ((fst s)\<lparr>md5_data := (md5_data (fst s))[snd s := b]\<rparr>), 0)"
  using assms by (auto simp: md5_ok_def md5_feed_def split: prod.splits)

interpretation md5: block_stream 64 md5_compress md5_feed "\<lambda>s. md5_state (fst s)" md5_buf md5_ok
proof unfold_locales
  fix c b assume ok: "md5_ok c"
  then have len: "length (md5_buf c) = snd c" by (simp add: md5_ok_def md5_buf_def)
  show "length (md5_buf c) < 64" using ok len by (simp add: md5_ok_def)
  have cases: "Suc (snd c) < 64 \<or> Suc (snd c) = 64" using ok by (auto simp: md5_ok_def)
  then show "md5_ok (md5_feed c b)"
    using ok md5_feed_cases [OF ok] by (auto simp: md5_ok_def md5_transform_def)
  show "Suc (length (md5_buf c)) < 64 \<Longrightarrow>
      md5_state (fst (md5_feed c b)) = md5_state (fst c) \<and> md5_buf (md5_feed c b) = md5_buf c @ [b]"
    using ok len md5_feed_cases(1) [OF ok] take_Suc_update [of "snd c" "md5_data (fst c)" b]
    by (simp add: md5_buf_def md5_ok_def)
  assume full: "Suc (length (md5_buf c)) = 64"
  then have s: "snd c = 63" using len by simp
  have "(md5_data (fst c))[63 := b] = take 63 (md5_data (fst c)) @ [b]"
    using ok take_Suc_update [of 63 "md5_data (fst c)" b] by (simp add: md5_ok_def)
  with s md5_feed_cases(2) [OF ok] show
    "md5_state (fst (md5_feed c b)) = md5_compress (md5_state (fst c)) (md5_buf c @ [b]) \<and>
     md5_buf (md5_feed c b) = []"
    by (simp add: md5_buf_def md5_transform_def)
qed simp

lemma md5_feed_length: "md5_data_length (fst (foldl md5_feed s bs)) = md5_data_length (fst s)"
  by (induction bs arbitrary: s) (auto simp: md5_feed_def md5_transform_def Let_def split: prod.splits)

lemma md5_offset: "unat ((of_nat k :: u64) mod 64) = k mod 64"
  by (simp add: unat_mod unat_of_nat mod_mod_cancel)

lemma md5_feed_offset: "md5_ok s \<Longrightarrow> snd (foldl md5_feed s bs) = (snd s + length bs) mod 64"
  using md5.feeds_run [of s bs] md5.feeds_ok [of s bs]
  by (auto simp: md5_buf_def md5_ok_def length_leftover dest: arg_cong [of _ _ length])

lemma md5_update_absorbed:
  assumes "md5_absorbed ctx m" "int (length b) < 2 ^ 32"
  shows "\<exists>ctx'. md5_update ctx b = Some ctx' \<and> md5_absorbed ctx' (m @ b)"
proof -
  define ctx1 where "ctx1 = ctx\<lparr>md5_data_length := md5_data_length ctx + of_nat (length b)\<rparr>"
  define s where "s = (ctx1, length m mod 64)"
  define s' where "s' = foldl md5_feed s b"
  have ok: "md5_ok s" and buf: "md5_buf s = leftover 64 m"
    and st: "md5_state (fst s) = foldl md5_compress md5_iv (chunks 64 m)"
    using assms(1) by (simp_all add: md5_absorbed_def md5_ok_def md5_buf_def s_def ctx1_def)
  have "md5_update ctx b = Some (fst s')"
    using assms by (simp add: md5_update_def md5_absorbed_def md5_offset s'_def s_def ctx1_def Let_def)
  moreover have "md5_absorbed (fst s') (m @ b)"
  proof -
    have "md5_state (fst s') = foldl md5_compress md5_iv (chunks 64 (m @ b))"
      "md5_buf s' = leftover 64 (m @ b)"
      using md5.feeds_run [OF ok, of b] st buf
      by (simp_all add: s'_def chunks_append [of 64 m b] leftover_append [of 64 m b])
    moreover have "snd s' = length (m @ b) mod 64"
      using md5_feed_offset [OF ok, of b] by (simp add: s'_def s_def mod_simps)
    moreover have "md5_data_length (fst s') = of_nat (length (m @ b))"
      using assms(1) by (simp add: s'_def md5_feed_length s_def ctx1_def md5_absorbed_def)
    moreover have "length (md5_data (fst s')) = 64"
      using md5.feeds_ok [OF ok, of b] by (simp add: s'_def md5_ok_def)
    ultimately show ?thesis by (simp add: md5_absorbed_def md5_buf_def)
  qed
  ultimately show ?thesis by blast
qed

section \<open>Finalisation\<close>

lemma md5_finalize_absorbed:
  assumes "md5_absorbed ctx m"
  shows "md5_finalize ctx = Some (md5_spec m)"
proof -
  define r where "r = length m mod 64"
  define pl where "pl = (if r < 56 then 56 - r else (56 + 64) - r)"
  have r: "r < 64" by (simp add: r_def)
  then have pl: "0 < pl" "pl \<le> 64" by (auto simp: pl_def)
  define pad where "pad = take pl md5_padding"
  have pad: "pad = 0x80 # replicate (pl - 1) 0" "length pad = pl"
    using pl by (auto simp: pad_def md5_padding_def take_Cons')
  obtain ctx1 where 1: "md5_update ctx pad = Some ctx1" "md5_absorbed ctx1 (m @ pad)"
    using md5_update_absorbed [OF assms, of pad] pl pad(2) by auto
  have rem: "length (m @ pad) mod 64 = 56"
  proof -
    have "length (m @ pad) mod 64 = (r + pl) mod 64" using pad(2) by (simp add: r_def mod_simps)
    also have "\<dots> = 56" using r by (auto simp: pl_def)
    finally show ?thesis .
  qed
  define ctx2 where "ctx2 = ctx1\<lparr>md5_data_length := md5_data_length ctx1 - of_nat pl\<rparr>"
  define bits where "bits = (of_nat (8 * length m) :: u64)"
  have len2: "md5_data_length ctx2 * 8 = bits"
    using 1(2) pad(2) by (simp add: ctx2_def md5_absorbed_def bits_def)
  have d: "length (md5_data ctx2) = 64" "take 56 (md5_data ctx2) = leftover 64 (m @ pad)"
    "md5_state ctx2 = foldl md5_compress md5_iv (chunks 64 (m @ pad))"
    using 1(2) rem by (simp_all add: ctx2_def md5_absorbed_def)
  define d2 where "d2 = overwrite (overwrite (md5_data ctx2) 56 (bytes_le 4 (ucast bits :: u32))) 60
      (bytes_le 4 (ucast (drop_bit 32 bits) :: u32))"
  have "length (leftover 64 (m @ pad)) = 56" using rem by (simp add: length_leftover)
  then have d2: "d2 = leftover 64 (m @ pad) @ bytes_le 8 bits"
    using d by (simp add: d2_def overwrite_def bytes_le_split [symmetric])
  have zeros: "pl - 1 = (2 * 64 - 8 - 1 - length m mod 64) mod 64"
    using r pad_zeros [of r 64 8] by (simp add: pl_def r_def [symmetric])
  have mp: "md5_pad m = (m @ pad) @ bytes_le 8 bits"
    unfolding md5_pad_def md_pad_def bits_def zeros [symmetric] by (simp add: pad(1))
  have "length d2 = 64" using d2 rem by (simp add: length_leftover)
  then have "chunks 64 (md5_pad m) = chunks 64 (m @ pad) @ [d2]"
    unfolding mp chunks_append [of 64 "m @ pad"] d2 [symmetric] by (simp add: chunks_exact)
  then have "md5_to_string ctx2 = md5_spec m"
    using d by (simp add: md5_to_string_def md5_spec_def len2 d2_def [symmetric] md5_transform_def Let_def)
  moreover have "unat (md5_data_length ctx mod 64) = r"
    using assms by (simp add: md5_absorbed_def md5_offset r_def)
  ultimately show ?thesis
    using 1(1) by (simp add: md5_finalize_def Let_def pl_def [symmetric] pad_def [symmetric] ctx2_def)
qed

lemma md5_init_absorbed: "length (md5_data mem) = 64 \<Longrightarrow> md5_absorbed (md5_init mem) []"
  by (simp add: md5_absorbed_def md5_init_def)

lemma md5_updates_absorbed:
  assumes "md5_absorbed ctx m" "\<forall>p \<in> set ps. int (length p) < 2 ^ 32"
  shows "\<exists>ctx'. md5_updates ctx ps = Some ctx' \<and> md5_absorbed ctx' (m @ concat ps)"
  using assms
proof (induction ps arbitrary: ctx m)
  case (Cons p ps)
  with md5_update_absorbed [of ctx m p] obtain ctx1 where
    "md5_update ctx p = Some ctx1" "md5_absorbed ctx1 (m @ p)" by auto
  with Cons.IH [of ctx1 "m @ p"] Cons.prems show ?case by auto
qed simp

section \<open>Properties\<close>

text \<open>
  For every message shorter than \<open>2 ^ 32\<close> bytes, \<open>md5_bytes\<close> returns the digest of the padded
  message, whatever the uninitialised memory held.
\<close>

theorem md5_bytes_correct:
  assumes "length (md5_data mem) = 64" "int (length m) < 2 ^ 32"
  shows "md5_bytes mem m = Some (md5_spec m)"
  using md5_update_absorbed [OF md5_init_absorbed [OF assms(1)] assms(2)] md5_finalize_absorbed
  by (auto simp: md5_bytes_def)

definition md5_mem :: md5_ctx_t where
  "md5_mem = \<lparr>md5_data_length = 77, md5_state = [1, 2, 3, 4], md5_data = replicate 64 170\<rparr>"

lemma md5_bytes_correct_witness: "md5_bytes md5_mem [97, 98, 99] = Some (md5_spec [97, 98, 99])"
  by (rule md5_bytes_correct) (simp_all add: md5_mem_def)

text \<open>
  Hashing a file piece by piece gives the digest of its whole contents, however the reads
  split it; a file that cannot be opened gives the empty string.
\<close>

theorem md5_file_correct:
  assumes "length (md5_data mem) = 64" "\<forall>p \<in> set pieces. length p \<le> 16384"
  shows "md5_file mem (Some pieces) = Some (md5_spec (concat pieces)) \<and> md5_file mem None = Some []"
proof -
  have "\<forall>p \<in> set pieces. int (length p) < 2 ^ 32" using assms(2) by auto
  from md5_updates_absorbed [OF md5_init_absorbed [OF assms(1)] this] md5_finalize_absorbed
  show ?thesis by (auto simp: md5_file_def)
qed

lemma md5_file_correct_witness:
  "md5_file md5_mem (Some [[1, 2], [], [3]]) = Some (md5_spec [1, 2, 3])"
  using md5_file_correct [of md5_mem "[[1, 2], [], [3]]"] by (simp add: md5_mem_def)

text \<open>The published MD5 test vector for the string \<open>abc\<close> comes out of the code.\<close>

theorem md5_abc: "md5_string md5_mem ''abc'' = Some ''900150983cd24fb0d6963f7d28e17f72''"
  by code_simp

end
