(* ===== verification/Sha2.thy ===== *)
theory Sha2
  imports Block_Stream
begin

text \<open>
  SHA-224, SHA-256, SHA-384 and SHA-512 as in \<open>2022-03-19-SHA2/sha224_256.hpp\<close> and
  \<open>2022-03-19-SHA2/sha384_512.hpp\<close>. The byte counters of the contexts stay below the block size, so
  they are natural numbers; the bit counter is a 64-bit word. The context memory is uninitialised
  before the \<open>init\<close> functions, which do not touch the block.
\<close>

unbundle bit_operations_syntax

section \<open>SHA-224 and SHA-256\<close>

datatype sha256_type = SHA224 | SHA256

record sha224_256_ctx_t =
  s256_data :: "u8 list"
  s256_data_length :: nat
  s256_bit_length :: u64
  s256_state :: "u32 list"
  s256_type :: sha256_type

definition sha256_iv :: "u32 list" where
  "sha256_iv = [0x6A09E667, 0xBB67AE85, 0x3C6EF372, 0xA54FF53A,
     0x510E527F, 0x9B05688C, 0x1F83D9AB, 0x5BE0CD19]"

definition sha224_iv :: "u32 list" where
  "sha224_iv = [0xC1059ED8, 0x367CD507, 0x3070DD17, 0xF70E5939,
     0xFFC00B31, 0x68581511, 0x64F98FA7, 0xBEFA4FA4]"

definition sha256_init :: "sha224_256_ctx_t \<Rightarrow> sha224_256_ctx_t" where
  "sha256_init ctx = ctx\<lparr>s256_type := SHA256, s256_data_length := 0, s256_bit_length := 0,
     s256_state := sha256_iv\<rparr>"

definition sha224_init :: "sha224_256_ctx_t \<Rightarrow> sha224_256_ctx_t" where
  "sha224_init ctx = ctx\<lparr>s256_type := SHA224, s256_data_length := 0, s256_bit_length := 0,
     s256_state := sha224_iv\<rparr>"

definition rotate_right_32_bit :: "u32 \<Rightarrow> nat \<Rightarrow> u32" where
  "rotate_right_32_bit v c = word_rotr c v"

definition shift_right_32_bit :: "u32 \<Rightarrow> nat \<Rightarrow> u32" where
  "shift_right_32_bit v c = drop_bit c v"

definition sha256_constants :: "u32 list" where
  "sha256_constants = [
    0x428A2F98, 0x71374491, 0xB5C0FBCF, 0xE9B5DBA5, 0x3956C25B, 0x59F111F1, 0x923F82A4, 0xAB1C5ED5,
    0xD807AA98, 0x12835B01, 0x243185BE, 0x550C7DC3, 0x72BE5D74, 0x80DEB1FE, 0x9BDC06A7, 0xC19BF174,
    0xE49B69C1, 0xEFBE4786, 0x0FC19DC6, 0x240CA1CC, 0x2DE92C6F, 0x4A7484AA, 0x5CB0A9DC, 0x76F988DA,
    0x983E5152, 0xA831C66D, 0xB00327C8, 0xBF597FC7, 0xC6E00BF3, 0xD5A79147, 0x06CA6351, 0x14292967,
    0x27B70A85, 0x2E1B2138, 0x4D2C6DFC, 0x53380D13, 0x650A7354, 0x766A0ABB, 0x81C2C92E, 0x92722C85,
    0xA2BFE8A1, 0xA81A664B, 0xC24B8B70, 0xC76C51A3, 0xD192E819, 0xD6990624, 0xF40E3585, 0x106AA070,
    0x19A4C116, 0x1E376C08, 0x2748774C, 0x34B0BCB5, 0x391C0CB3, 0x4ED8AA4A, 0x5B9CCA4F, 0x682E6FF3,
    0x748F82EE, 0x78A5636F, 0x84C87814, 0x8CC70208, 0x90BEFFFA, 0xA4506CEB, 0xBEF9A3F7, 0xC67178F2]"

definition sha256_expand :: "u32 list \<Rightarrow> nat \<Rightarrow> u32 list" where
  "sha256_expand padded_chunk i =
     (let x = padded_chunk ! (i - 15);
          sigma0 = rotate_right_32_bit x 7 XOR rotate_right_32_bit x 18 XOR shift_right_32_bit x 3;
          y = padded_chunk ! (i - 2);
          sigma1 = rotate_right_32_bit y 17 XOR rotate_right_32_bit y 19 XOR shift_right_32_bit y 10
      in padded_chunk @ [padded_chunk ! (i - 16) + sigma0 + padded_chunk ! (i - 7) + sigma1])"

definition sha256_round :: "u32 list \<Rightarrow> u32 list \<Rightarrow> nat \<Rightarrow> u32 list" where
  "sha256_round padded_chunk vars i =
     (let sum0 = vars ! 7 +
            (rotate_right_32_bit (vars ! 4) 6 XOR rotate_right_32_bit (vars ! 4) 11 XOR
             rotate_right_32_bit (vars ! 4) 25) +
            ((vars ! 4 AND vars ! 5) XOR (NOT (vars ! 4) AND vars ! 6)) +
            sha256_constants ! i + padded_chunk ! i;
          sum1 = (rotate_right_32_bit (vars ! 0) 2 XOR rotate_right_32_bit (vars ! 0) 13 XOR
             rotate_right_32_bit (vars ! 0) 22) +
            ((vars ! 0 AND vars ! 1) XOR (vars ! 0 AND vars ! 2) XOR (vars ! 1 AND vars ! 2))
      in [sum0 + sum1, vars ! 0, vars ! 1, vars ! 2, vars ! 3 + sum0, vars ! 4, vars ! 5, vars ! 6])"

definition sha256_compress :: "u32 list \<Rightarrow> u8 list \<Rightarrow> u32 list" where
  "sha256_compress state buffer =
     (let chunk0 = map (\<lambda>i. word_be32 (take 4 (drop (4 * i) buffer))) [0..<16];
          padded_chunk = foldl sha256_expand chunk0 [16..<64];
          vars = foldl (sha256_round padded_chunk) state [0..<64]
      in map2 (+) state vars)"

definition sha224_256_transform :: "sha224_256_ctx_t \<Rightarrow> sha224_256_ctx_t" where
  "sha224_256_transform ctx = ctx\<lparr>s256_state := sha256_compress (s256_state ctx) (s256_data ctx)\<rparr>"

definition sha224_256_feed :: "sha224_256_ctx_t \<Rightarrow> u8 \<Rightarrow> sha224_256_ctx_t" where
  "sha224_256_feed ctx b =
     (let ctx1 = ctx\<lparr>s256_data := (s256_data ctx)[s256_data_length ctx := b],
                     s256_data_length := s256_data_length ctx + 1\<rparr>
      in if s256_data_length ctx1 = 64 then
           (sha224_256_transform ctx1)\<lparr>s256_bit_length := s256_bit_length ctx1 + 512, s256_data_length := 0\<rparr>
         else ctx1)"

text \<open>As in MD5, the loop counter has 32 bits and the loop does not end for longer inputs.\<close>

definition sha224_256_update :: "sha224_256_ctx_t \<Rightarrow> u8 list \<Rightarrow> sha224_256_ctx_t option" where
  "sha224_256_update ctx buffer =
     (if int (length buffer) < 2 ^ 32 then Some (foldl sha224_256_feed ctx buffer) else None)"

definition sha224_256_to_string :: "sha224_256_ctx_t \<Rightarrow> string" where
  "sha224_256_to_string ctx =
     (let states_to_process = (if s256_type ctx = SHA256 then 8 else 7);
          hash = concat (map (bytes_be 4) (take states_to_process (s256_state ctx)));
          hash_bytes = (if s256_type ctx = SHA256 then 32 else 28)
      in hex_string (take hash_bytes hash))"

definition sha224_256_final :: "sha224_256_ctx_t \<Rightarrow> string" where
  "sha224_256_final ctx =
     (let i = s256_data_length ctx;
          ctx1 = ctx\<lparr>s256_data := (s256_data ctx)[i := 0x80]\<rparr>;
          j = i + 1;
          ctx2 = (if s256_data_length ctx < 56
                  then ctx1\<lparr>s256_data := overwrite (s256_data ctx1) j (replicate (56 - j) 0)\<rparr>
                  else (let t = sha224_256_transform
                              (ctx1\<lparr>s256_data := overwrite (s256_data ctx1) j (replicate (64 - j) 0)\<rparr>)
                        in t\<lparr>s256_data := overwrite (s256_data t) 0 (replicate 56 0)\<rparr>));
          bits = s256_bit_length ctx2 + of_nat (s256_data_length ctx2 * 8);
          ctx3 = ctx2\<lparr>s256_bit_length := bits, s256_data := overwrite (s256_data ctx2) 56 (bytes_be 8 bits)\<rparr>
      in sha224_256_to_string (sha224_256_transform ctx3))"

definition sha224_256_bytes :: "sha224_256_ctx_t \<Rightarrow> u8 list \<Rightarrow> string option" where
  "sha224_256_bytes ctx buffer = do { ctx1 \<leftarrow> sha224_256_update ctx buffer; Some (sha224_256_final ctx1) }"

definition sha256_bytes :: "sha224_256_ctx_t \<Rightarrow> u8 list \<Rightarrow> string option" where
  "sha256_bytes mem buffer = sha224_256_bytes (sha256_init mem) buffer"

definition sha224_bytes :: "sha224_256_ctx_t \<Rightarrow> u8 list \<Rightarrow> string option" where
  "sha224_bytes mem buffer = sha224_256_bytes (sha224_init mem) buffer"

definition string_bytes :: "string \<Rightarrow> u8 list" where
  "string_bytes s = map (\<lambda>c. of_nat (of_char c)) s"

definition sha256_string :: "sha224_256_ctx_t \<Rightarrow> string \<Rightarrow> string option" where
  "sha256_string mem buffer = sha256_bytes mem (string_bytes buffer)"

definition sha224_string :: "sha224_256_ctx_t \<Rightarrow> string \<Rightarrow> string option" where
  "sha224_string mem buffer = sha224_bytes mem (string_bytes buffer)"

text \<open>A file is \<open>None\<close> when \<open>fopen\<close> fails, otherwise the pieces that \<open>fread\<close> delivers.\<close>

fun sha224_256_updates :: "sha224_256_ctx_t \<Rightarrow> u8 list list \<Rightarrow> sha224_256_ctx_t option" where
  "sha224_256_updates ctx [] = Some ctx"
| "sha224_256_updates ctx (p # ps) = do { ctx1 \<leftarrow> sha224_256_update ctx p; sha224_256_updates ctx1 ps }"

definition sha224_256_file :: "sha224_256_ctx_t \<Rightarrow> u8 list list option \<Rightarrow> string option" where
  "sha224_256_file ctx file =
     (case file of None \<Rightarrow> Some []
      | Some pieces \<Rightarrow> do { ctx1 \<leftarrow> sha224_256_updates ctx pieces; Some (sha224_256_final ctx1) })"

definition sha256_file :: "sha224_256_ctx_t \<Rightarrow> u8 list list option \<Rightarrow> string option" where
  "sha256_file mem file = sha224_256_file (sha256_init mem) file"

definition sha224_file :: "sha224_256_ctx_t \<Rightarrow> u8 list list option \<Rightarrow> string option" where
  "sha224_file mem file = sha224_256_file (sha224_init mem) file"

section \<open>SHA-384 and SHA-512\<close>

datatype sha512_type = SHA384 | SHA512

record sha384_512_ctx_t =
  s512_data :: "u8 list"
  s512_state :: "u64 list"
  s512_data_length :: nat
  s512_bit_length :: u64
  s512_type :: sha512_type

definition sha384_iv :: "u64 list" where
  "sha384_iv = [0xCBBB9D5DC1059ED8, 0x629A292A367CD507, 0x9159015A3070DD17, 0x152FECD8F70E5939,
     0x67332667FFC00B31, 0x8EB44A8768581511, 0xDB0C2E0D64F98FA7, 0x47B5481DBEFA4FA4]"

definition sha512_iv :: "u64 list" where
  "sha512_iv = [0x6A09E667F3BCC908, 0xBB67AE8584CAA73B, 0x3C6EF372FE94F82B, 0xA54FF53A5F1D36F1,
     0x510E527FADE682D1, 0x9B05688C2B3E6C1F, 0x1F83D9ABFB41BD6B, 0x5BE0CD19137E2179]"

definition sha384_init :: "sha384_512_ctx_t \<Rightarrow> sha384_512_ctx_t" where
  "sha384_init ctx = ctx\<lparr>s512_type := SHA384, s512_data_length := 0, s512_bit_length := 0,
     s512_state := sha384_iv\<rparr>"

definition sha512_init :: "sha384_512_ctx_t \<Rightarrow> sha384_512_ctx_t" where
  "sha512_init ctx = ctx\<lparr>s512_type := SHA512, s512_data_length := 0, s512_bit_length := 0,
     s512_state := sha512_iv\<rparr>"

definition rotate_right_64_bit :: "u64 \<Rightarrow> nat \<Rightarrow> u64" where
  "rotate_right_64_bit v c = word_rotr c v"

definition shift_right_64_bit :: "u64 \<Rightarrow> nat \<Rightarrow> u64" where
  "shift_right_64_bit v c = drop_bit c v"

definition sha512_constants :: "u64 list" where
  "sha512_constants = [
    0x428A2F98D728AE22, 0x7137449123EF65CD, 0xB5C0FBCFEC4D3B2F, 0xE9B5DBA58189DBBC,
    0x3956C25BF348B538, 0x59F111F1B605D019, 0x923F82A4AF194F9B, 0xAB1C5ED5DA6D8118,
    0xD807AA98A3030242, 0x12835B0145706FBE, 0x243185BE4EE4B28C, 0x550C7DC3D5FFB4E2,
    0x72BE5D74F27B896F, 0x80DEB1FE3B1696B1, 0x9BDC06A725C71235, 0xC19BF174CF692694,
    0xE49B69C19EF14AD2, 0xEFBE4786384F25E3, 0x0FC19DC68B8CD5B5, 0x240CA1CC77AC9C65,
    0x2DE92C6F592B0275, 0x4A7484AA6EA6E483, 0x5CB0A9DCBD41FBD4, 0x76F988DA831153B5,
    0x983E5152EE66DFAB, 0xA831C66D2DB43210, 0xB00327C898FB213F, 0xBF597FC7BEEF0EE4,
    0xC6E00BF33DA88FC2, 0xD5A79147930AA725, 0x06CA6351E003826F, 0x142929670A0E6E70,
    0x27B70A8546D22FFC, 0x2E1B21385C26C926, 0x4D2C6DFC5AC42AED, 0x53380D139D95B3DF,
    0x650A73548BAF63DE, 0x766A0ABB3C77B2A8, 0x81C2C92E47EDAEE6, 0x92722C851482353B,
    0xA2BFE8A14CF10364, 0xA81A664BBC423001, 0xC24B8B70D0F89791, 0xC76C51A30654BE30,
    0xD192E819D6EF5218, 0xD69906245565A910, 0xF40E35855771202A, 0x106AA07032BBD1B8,
    0x19A4C116B8D2D0C8, 0x1E376C085141AB53, 0x2748774CDF8EEB99, 0x34B0BCB5E19B48A8,
    0x391C0CB3C5C95A63, 0x4ED8AA4AE3418ACB, 0x5B9CCA4F7763E373, 0x682E6FF3D6B2B8A3,
    0x748F82EE5DEFB2FC, 0x78A5636F43172F60, 0x84C87814A1F0AB72, 0x8CC702081A6439EC,
    0x90BEFFFA23631E28, 0xA4506CEBDE82BDE9, 0xBEF9A3F7B2C67915, 0xC67178F2E372532B,
    0xCA273ECEEA26619C, 0xD186B8C721C0C207, 0xEADA7DD6CDE0EB1E, 0xF57D4F7FEE6ED178,
    0x06F067AA72176FBA, 0x0A637DC5A2C898A6, 0x113F9804BEF90DAE, 0x1B710B35131C471B,
    0x28DB77F523047D84, 0x32CAAB7B40C72493, 0x3C9EBE0A15C9BEBC, 0x431D67C49C100D4C,
    0x4CC5D4BECB3E42B6, 0x597F299CFC657E2A, 0x5FCB6FAB3AD6FAEC, 0x6C44198C4A475817]"

definition sha512_expand :: "u64 list \<Rightarrow> nat \<Rightarrow> u64 list" where
  "sha512_expand padded_chunk i =
     (let x = padded_chunk ! (i - 15);
          sigma0 = rotate_right_64_bit x 1 XOR rotate_right_64_bit x 8 XOR shift_right_64_bit x 7;
          y = padded_chunk ! (i - 2);
          sigma1 = rotate_right_64_bit y 19 XOR rotate_right_64_bit y 61 XOR shift_right_64_bit y 6
      in padded_chunk @ [padded_chunk ! (i - 16) + sigma0 + padded_chunk ! (i - 7) + sigma1])"

definition sha512_round :: "u64 list \<Rightarrow> u64 list \<Rightarrow> nat \<Rightarrow> u64 list" where
  "sha512_round padded_chunk vars i =
     (let sum0 = vars ! 7 +
            (rotate_right_64_bit (vars ! 4) 14 XOR rotate_right_64_bit (vars ! 4) 18 XOR
             rotate_right_64_bit (vars ! 4) 41) +
            ((vars ! 4 AND vars ! 5) XOR (NOT (vars ! 4) AND vars ! 6)) +
            sha512_constants ! i + padded_chunk ! i;
          sum1 = (rotate_right_64_bit (vars ! 0) 28 XOR rotate_right_64_bit (vars ! 0) 34 XOR
             rotate_right_64_bit (vars ! 0) 39) +
            ((vars ! 0 AND vars ! 1) XOR (vars ! 0 AND vars ! 2) XOR (vars ! 1 AND vars ! 2))
      in [sum0 + sum1, vars ! 0, vars ! 1, vars ! 2, vars ! 3 + sum0, vars ! 4, vars ! 5, vars ! 6])"

definition sha512_compress :: "u64 list \<Rightarrow> u8 list \<Rightarrow> u64 list" where
  "sha512_compress state buffer =
     (let chunk0 = map (\<lambda>i. word_be64 (take 8 (drop (8 * i) buffer))) [0..<16];
          padded_chunk = foldl sha512_expand chunk0 [16..<80];
          vars = foldl (sha512_round padded_chunk) state [0..<80]
      in map2 (+) state vars)"

definition sha384_512_transform :: "sha384_512_ctx_t \<Rightarrow> sha384_512_ctx_t" where
  "sha384_512_transform ctx = ctx\<lparr>s512_state := sha512_compress (s512_state ctx) (s512_data ctx)\<rparr>"

definition sha384_512_feed :: "sha384_512_ctx_t \<Rightarrow> u8 \<Rightarrow> sha384_512_ctx_t" where
  "sha384_512_feed ctx b =
     (let ctx1 = ctx\<lparr>s512_data := (s512_data ctx)[s512_data_length ctx := b],
                     s512_data_length := s512_data_length ctx + 1\<rparr>
      in if s512_data_length ctx1 = 128 then
           (sha384_512_transform ctx1)\<lparr>s512_bit_length := s512_bit_length ctx1 + 1024, s512_data_length := 0\<rparr>
         else ctx1)"

definition sha384_512_update :: "sha384_512_ctx_t \<Rightarrow> u8 list \<Rightarrow> sha384_512_ctx_t option" where
  "sha384_512_update ctx buffer =
     (if int (length buffer) < 2 ^ 32 then Some (foldl sha384_512_feed ctx buffer) else None)"

definition sha384_512_to_string :: "sha384_512_ctx_t \<Rightarrow> string" where
  "sha384_512_to_string ctx =
     (let states_to_process = (if s512_type ctx = SHA512 then 8 else 6);
          hash = concat (map (bytes_be 8) (take states_to_process (s512_state ctx)));
          hash_bytes = (if s512_type ctx = SHA512 then 64 else 48)
      in hex_string (take hash_bytes hash))"

definition sha384_512_final :: "sha384_512_ctx_t \<Rightarrow> string" where
  "sha384_512_final ctx =
     (let i = s512_data_length ctx;
          ctx1 = ctx\<lparr>s512_data := (s512_data ctx)[i := 0x80]\<rparr>;
          j = i + 1;
          ctx2 = (if s512_data_length ctx < 120
                  then ctx1\<lparr>s512_data := overwrite (s512_data ctx1) j (replicate (120 - j) 0)\<rparr>
                  else (let t = sha384_512_transform
                              (ctx1\<lparr>s512_data := overwrite (s512_data ctx1) j (replicate (128 - j) 0)\<rparr>)
                        in t\<lparr>s512_data := overwrite (s512_data t) 0 (replicate 120 0)\<rparr>));
          bits = s512_bit_length ctx2 + of_nat (s512_data_length ctx2 * 8);
          ctx3 = ctx2\<lparr>s512_bit_length := bits, s512_data := overwrite (s512_data ctx2) 120 (bytes_be 8 bits)\<rparr>
      in sha384_512_to_string (sha384_512_transform ctx3))"

definition sha384_512_bytes :: "sha384_512_ctx_t \<Rightarrow> u8 list \<Rightarrow> string option" where
  "sha384_512_bytes ctx buffer = do { ctx1 \<leftarrow> sha384_512_update ctx buffer; Some (sha384_512_final ctx1) }"

definition sha384_bytes :: "sha384_512_ctx_t \<Rightarrow> u8 list \<Rightarrow> string option" where
  "sha384_bytes mem buffer = sha384_512_bytes (sha384_init mem) buffer"

definition sha512_bytes :: "sha384_512_ctx_t \<Rightarrow> u8 list \<Rightarrow> string option" where
  "sha512_bytes mem buffer = sha384_512_bytes (sha512_init mem) buffer"

definition sha384_string :: "sha384_512_ctx_t \<Rightarrow> string \<Rightarrow> string option" where
  "sha384_string mem buffer = sha384_bytes mem (string_bytes buffer)"

definition sha512_string :: "sha384_512_ctx_t \<Rightarrow> string \<Rightarrow> string option" where
  "sha512_string mem buffer = sha512_bytes mem (string_bytes buffer)"

fun sha384_512_updates :: "sha384_512_ctx_t \<Rightarrow> u8 list list \<Rightarrow> sha384_512_ctx_t option" where
  "sha384_512_updates ctx [] = Some ctx"
| "sha384_512_updates ctx (p # ps) = do { ctx1 \<leftarrow> sha384_512_update ctx p; sha384_512_updates ctx1 ps }"

definition sha384_512_file :: "sha384_512_ctx_t \<Rightarrow> u8 list list option \<Rightarrow> string option" where
  "sha384_512_file ctx file =
     (case file of None \<Rightarrow> Some []
      | Some pieces \<Rightarrow> do { ctx1 \<leftarrow> sha384_512_updates ctx pieces; Some (sha384_512_final ctx1) })"

definition sha384_file :: "sha384_512_ctx_t \<Rightarrow> u8 list list option \<Rightarrow> string option" where
  "sha384_file mem file = sha384_512_file (sha384_init mem) file"

definition sha512_file :: "sha384_512_ctx_t \<Rightarrow> u8 list list option \<Rightarrow> string option" where
  "sha512_file mem file = sha384_512_file (sha512_init mem) file"

end
