(* ===== verification/Sha2_Correct.thy ===== *)
theory Sha2_Correct
  imports Sha2
begin

text \<open>
  The SHA-2 routines against the padded message. For SHA-224 and SHA-256 the digest is the one of
  FIPS 180-4 for every input. The 64-byte-word routines pad as if the length field had eight bytes
  instead of sixteen: they agree with FIPS 180-4 unless the message length is 112 to 119 modulo 128.
\<close>

section \<open>SHA-224 and SHA-256\<close>

definition sha256_digest :: "sha256_type \<Rightarrow> u32 list \<Rightarrow> u8 list \<Rightarrow> string" where
  "sha256_digest ty iv padded =
     sha224_256_to_string \<lparr>s256_data = [], s256_data_length = 0, s256_bit_length = 0,
       s256_state = foldl sha256_compress iv (chunks 64 padded), s256_type = ty\<rparr>"

definition s256_absorbed :: "sha256_type \<Rightarrow> u32 list \<Rightarrow> sha224_256_ctx_t \<Rightarrow> u8 list \<Rightarrow> bool" where
  "s256_absorbed ty iv ctx m \<longleftrightarrow>
     length (s256_data ctx) = 64 \<and> s256_data_length ctx = length m mod 64 \<and>
     s256_bit_length ctx = of_nat (512 * (length m div 64)) \<and> s256_type ctx = ty \<and>
     s256_state ctx = foldl sha256_compress iv (chunks 64 m) \<and>
     take (length m mod 64) (s256_data ctx) = leftover 64 m"

definition s256_ok :: "sha224_256_ctx_t \<Rightarrow> bool" where
  "s256_ok c \<longleftrightarrow> length (s256_data c) = 64 \<and> s256_data_length c < 64"

definition s256_buf :: "sha224_256_ctx_t \<Rightarrow> u8 list" where
  "s256_buf c = take (s256_data_length c) (s256_data c)"

interpretation sha256: block_stream 64 sha256_compress sha224_256_feed s256_state s256_buf s256_ok
proof unfold_locales
  fix c b assume ok: "s256_ok c"
  then have len: "length (s256_buf c) = s256_data_length c" by (simp add: s256_ok_def s256_buf_def)
  show "length (s256_buf c) < 64" using ok len by (simp add: s256_ok_def)
  show "s256_ok (sha224_256_feed c b)"
    using ok by (auto simp: s256_ok_def sha224_256_feed_def sha224_256_transform_def Let_def)
  show "Suc (length (s256_buf c)) < 64 \<Longrightarrow>
      s256_state (sha224_256_feed c b) = s256_state c \<and> s256_buf (sha224_256_feed c b) = s256_buf c @ [b]"
    using ok len take_Suc_update [of "s256_data_length c" "s256_data c" b]
    by (simp add: sha224_256_feed_def s256_buf_def s256_ok_def Let_def)
  assume "Suc (length (s256_buf c)) = 64"
  then have "s256_data_length c = 63" using len by simp
  moreover from this have "(s256_data c)[63 := b] = take 63 (s256_data c) @ [b]"
    using ok take_Suc_update [of 63 "s256_data c" b] by (simp add: s256_ok_def)
  ultimately show "s256_state (sha224_256_feed c b) = sha256_compress (s256_state c) (s256_buf c @ [b]) \<and>
      s256_buf (sha224_256_feed c b) = []"
    by (simp add: sha224_256_feed_def sha224_256_transform_def s256_buf_def Let_def)
qed simp

lemma s256_feed_counters:
  assumes "s256_ok c" "s256_bit_length c = of_nat (512 * (k div 64))" "s256_data_length c = k mod 64"
  shows "s256_bit_length (foldl sha224_256_feed c bs) = of_nat (512 * ((k + length bs) div 64)) \<and>
    s256_data_length (foldl sha224_256_feed c bs) = (k + length bs) mod 64 \<and>
    s256_type (foldl sha224_256_feed c bs) = s256_type c"
  using assms
proof (induction bs arbitrary: c k)
  case (Cons b bs)
  let ?c = "sha224_256_feed c b"
  have "s256_ok ?c" using Cons.prems(1) by (rule sha256.feed_ok)
  moreover have "s256_bit_length ?c = of_nat (512 * (Suc k div 64))" "s256_data_length ?c = Suc k mod 64"
    "s256_type ?c = s256_type c"
    using Cons.prems(2,3)
    by (auto simp: sha224_256_feed_def sha224_256_transform_def Let_def mod_Suc div_Suc algebra_simps)
  ultimately show ?case using Cons.IH [of ?c "Suc k"] by simp
qed simp

lemma s256_update_absorbed:
  assumes "s256_absorbed ty iv ctx m" "int (length b) < 2 ^ 32"
  shows "\<exists>ctx'. sha224_256_update ctx b = Some ctx' \<and> s256_absorbed ty iv ctx' (m @ b)"
proof -
  let ?c = "foldl sha224_256_feed ctx b"
  have ok: "s256_ok ctx" and buf: "s256_buf ctx = leftover 64 m"
    using assms(1) by (simp_all add: s256_absorbed_def s256_ok_def s256_buf_def)
  have cnt: "s256_bit_length ?c = of_nat (512 * (length (m @ b) div 64))"
    "s256_data_length ?c = length (m @ b) mod 64" "s256_type ?c = ty"
    using s256_feed_counters [OF ok, of "length m" b] assms(1) by (simp_all add: s256_absorbed_def)
  have "s256_state ?c = foldl sha256_compress iv (chunks 64 (m @ b))" "s256_buf ?c = leftover 64 (m @ b)"
    using sha256.feeds_run [OF ok, of b] buf assms(1)
    by (simp_all add: s256_absorbed_def chunks_append [of 64 m b] leftover_append [of 64 m b])
  with cnt sha256.feeds_ok [OF ok, of b] have "s256_absorbed ty iv ?c (m @ b)"
    by (simp add: s256_absorbed_def s256_ok_def s256_buf_def)
  with assms(2) show ?thesis by (simp add: sha224_256_update_def)
qed

definition sha256_code_pad :: "u8 list \<Rightarrow> u8 list" where
  "sha256_code_pad m = md_pad 64 8 (bytes_be 8 (of_nat (8 * length m) :: u64)) m"

lemma s256_bits:
  "(of_nat (512 * (length m div 64)) + of_nat (length m mod 64 * 8) :: u64) = of_nat (8 * length m)"
proof -
  have "512 * (length m div 64) + length m mod 64 * 8 = 8 * length m"
    using div_mult_mod_eq [of "length m" 64] by linarith
  then show ?thesis by (metis of_nat_add)
qed

lemma s256_final_absorbed:
  assumes "s256_absorbed ty iv ctx m"
  shows "sha224_256_final ctx = sha256_digest ty iv (sha256_code_pad m)"
proof -
  define r where "r = length m mod 64"
  define lf where "lf = bytes_be 8 (of_nat (8 * length m) :: u64)"
  have a: "length (s256_data ctx) = 64" "s256_data_length ctx = r" "s256_type ctx = ty"
    "s256_bit_length ctx = of_nat (512 * (length m div 64))"
    "s256_state ctx = foldl sha256_compress iv (chunks 64 m)" "take r (s256_data ctx) = leftover 64 m"
    using assms by (simp_all add: s256_absorbed_def r_def)
  have bits: "s256_bit_length ctx + of_nat (r * 8) = of_nat (8 * length m)"
    using s256_bits [of m] by (simp add: a r_def)
  have c: "chunks 64 (sha256_code_pad m) = chunks 64 m @
    (if r < 56 then [last_block 64 8 (s256_data ctx) r lf]
     else [spill_block 64 (s256_data ctx) r, replicate 56 0 @ lf])"
    using md_pad_chunks [of lf 8 64 "s256_data ctx" r m] a by (simp add: sha256_code_pad_def lf_def r_def)
  show ?thesis
  proof (cases "r < 56")
    case True
    with c a bits show ?thesis
      by (simp add: sha224_256_final_def sha256_digest_def last_block_def lf_def sha224_256_transform_def
          sha224_256_to_string_def Let_def)
  next
    case False
    have "overwrite (overwrite (spill_block 64 (s256_data ctx) r) 0 (replicate 56 0)) 56 lf =
        replicate 56 0 @ lf"
      using a by (simp add: overwrite_def spill_block_eq r_def lf_def length_leftover)
    with c a bits False show ?thesis
      by (simp add: sha224_256_final_def sha256_digest_def spill_block_def lf_def sha224_256_transform_def
          sha224_256_to_string_def Let_def)
  qed
qed

lemma s256_updates_absorbed:
  assumes "s256_absorbed ty iv ctx m" "\<forall>p \<in> set ps. int (length p) < 2 ^ 32"
  shows "\<exists>ctx'. sha224_256_updates ctx ps = Some ctx' \<and> s256_absorbed ty iv ctx' (m @ concat ps)"
  using assms
proof (induction ps arbitrary: ctx m)
  case (Cons p ps)
  with s256_update_absorbed [of ty iv ctx m p] obtain ctx1 where
    "sha224_256_update ctx p = Some ctx1" "s256_absorbed ty iv ctx1 (m @ p)" by auto
  with Cons.IH [of ctx1 "m @ p"] Cons.prems show ?case by auto
qed simp

lemma s256_bytes_digest:
  assumes "s256_absorbed ty iv ctx []" "int (length m) < 2 ^ 32"
  shows "sha224_256_bytes ctx m = Some (sha256_digest ty iv (sha256_code_pad m))"
  using s256_update_absorbed [OF assms] s256_final_absorbed by (auto simp: sha224_256_bytes_def)

lemma s256_file_digest:
  assumes "s256_absorbed ty iv ctx []" "\<forall>p \<in> set ps. length p \<le> 16384"
  shows "sha224_256_file ctx (Some ps) = Some (sha256_digest ty iv (sha256_code_pad (concat ps)))"
proof -
  have "\<forall>p \<in> set ps. int (length p) < 2 ^ 32" using assms(2) by auto
  from s256_updates_absorbed [OF assms(1) this] s256_final_absorbed show ?thesis
    by (auto simp: sha224_256_file_def)
qed

section \<open>SHA-384 and SHA-512\<close>

definition sha512_digest :: "sha512_type \<Rightarrow> u64 list \<Rightarrow> u8 list \<Rightarrow> string" where
  "sha512_digest ty iv padded =
     sha384_512_to_string \<lparr>s512_data = [], s512_state = foldl sha512_compress iv (chunks 128 padded),
       s512_data_length = 0, s512_bit_length = 0, s512_type = ty\<rparr>"

definition s512_absorbed :: "sha512_type \<Rightarrow> u64 list \<Rightarrow> sha384_512_ctx_t \<Rightarrow> u8 list \<Rightarrow> bool" where
  "s512_absorbed ty iv ctx m \<longleftrightarrow>
     length (s512_data ctx) = 128 \<and> s512_data_length ctx = length m mod 128 \<and>
     s512_bit_length ctx = of_nat (1024 * (length m div 128)) \<and> s512_type ctx = ty \<and>
     s512_state ctx = foldl sha512_compress iv (chunks 128 m) \<and>
     take (length m mod 128) (s512_data ctx) = leftover 128 m"

definition s512_ok :: "sha384_512_ctx_t \<Rightarrow> bool" where
  "s512_ok c \<longleftrightarrow> length (s512_data c) = 128 \<and> s512_data_length c < 128"

definition s512_buf :: "sha384_512_ctx_t \<Rightarrow> u8 list" where
  "s512_buf c = take (s512_data_length c) (s512_data c)"

interpretation sha512: block_stream 128 sha512_compress sha384_512_feed s512_state s512_buf s512_ok
proof unfold_locales
  fix c b assume ok: "s512_ok c"
  then have len: "length (s512_buf c) = s512_data_length c" by (simp add: s512_ok_def s512_buf_def)
  show "length (s512_buf c) < 128" using ok len by (simp add: s512_ok_def)
  show "s512_ok (sha384_512_feed c b)"
    using ok by (auto simp: s512_ok_def sha384_512_feed_def sha384_512_transform_def Let_def)
  show "Suc (length (s512_buf c)) < 128 \<Longrightarrow>
      s512_state (sha384_512_feed c b) = s512_state c \<and> s512_buf (sha384_512_feed c b) = s512_buf c @ [b]"
    using ok len take_Suc_update [of "s512_data_length c" "s512_data c" b]
    by (simp add: sha384_512_feed_def s512_buf_def s512_ok_def Let_def)
  assume "Suc (length (s512_buf c)) = 128"
  then have "s512_data_length c = 127" using len by simp
  moreover from this have "(s512_data c)[127 := b] = take 127 (s512_data c) @ [b]"
    using ok take_Suc_update [of 127 "s512_data c" b] by (simp add: s512_ok_def)
  ultimately show "s512_state (sha384_512_feed c b) = sha512_compress (s512_state c) (s512_buf c @ [b]) \<and>
      s512_buf (sha384_512_feed c b) = []"
    by (simp add: sha384_512_feed_def sha384_512_transform_def s512_buf_def Let_def)
qed simp

lemma s512_feed_counters:
  assumes "s512_ok c" "s512_bit_length c = of_nat (1024 * (k div 128))" "s512_data_length c = k mod 128"
  shows "s512_bit_length (foldl sha384_512_feed c bs) = of_nat (1024 * ((k + length bs) div 128)) \<and>
    s512_data_length (foldl sha384_512_feed c bs) = (k + length bs) mod 128 \<and>
    s512_type (foldl sha384_512_feed c bs) = s512_type c"
  using assms
proof (induction bs arbitrary: c k)
  case (Cons b bs)
  let ?c = "sha384_512_feed c b"
  have "s512_ok ?c" using Cons.prems(1) by (rule sha512.feed_ok)
  moreover have "s512_bit_length ?c = of_nat (1024 * (Suc k div 128))" "s512_data_length ?c = Suc k mod 128"
    "s512_type ?c = s512_type c"
    using Cons.prems(2,3)
    by (auto simp: sha384_512_feed_def sha384_512_transform_def Let_def mod_Suc div_Suc algebra_simps)
  ultimately show ?case using Cons.IH [of ?c "Suc k"] by simp
qed simp

lemma s512_update_absorbed:
  assumes "s512_absorbed ty iv ctx m" "int (length b) < 2 ^ 32"
  shows "\<exists>ctx'. sha384_512_update ctx b = Some ctx' \<and> s512_absorbed ty iv ctx' (m @ b)"
proof -
  let ?c = "foldl sha384_512_feed ctx b"
  have ok: "s512_ok ctx" and buf: "s512_buf ctx = leftover 128 m"
    using assms(1) by (simp_all add: s512_absorbed_def s512_ok_def s512_buf_def)
  have cnt: "s512_bit_length ?c = of_nat (1024 * (length (m @ b) div 128))"
    "s512_data_length ?c = length (m @ b) mod 128" "s512_type ?c = ty"
    using s512_feed_counters [OF ok, of "length m" b] assms(1) by (simp_all add: s512_absorbed_def)
  have "s512_state ?c = foldl sha512_compress iv (chunks 128 (m @ b))" "s512_buf ?c = leftover 128 (m @ b)"
    using sha512.feeds_run [OF ok, of b] buf assms(1)
    by (simp_all add: s512_absorbed_def chunks_append [of 128 m b] leftover_append [of 128 m b])
  with cnt sha512.feeds_ok [OF ok, of b] have "s512_absorbed ty iv ?c (m @ b)"
    by (simp add: s512_absorbed_def s512_ok_def s512_buf_def)
  with assms(2) show ?thesis by (simp add: sha384_512_update_def)
qed

definition sha512_code_pad :: "u8 list \<Rightarrow> u8 list" where
  "sha512_code_pad m = md_pad 128 8 (bytes_be 8 (of_nat (8 * length m) :: u64)) m"

lemma s512_bits:
  "(of_nat (1024 * (length m div 128)) + of_nat (length m mod 128 * 8) :: u64) = of_nat (8 * length m)"
proof -
  have "1024 * (length m div 128) + length m mod 128 * 8 = 8 * length m"
    using div_mult_mod_eq [of "length m" 128] by linarith
  then show ?thesis by (metis of_nat_add)
qed

lemma s512_final_absorbed:
  assumes "s512_absorbed ty iv ctx m"
  shows "sha384_512_final ctx = sha512_digest ty iv (sha512_code_pad m)"
proof -
  define r where "r = length m mod 128"
  define lf where "lf = bytes_be 8 (of_nat (8 * length m) :: u64)"
  have a: "length (s512_data ctx) = 128" "s512_data_length ctx = r" "s512_type ctx = ty"
    "s512_bit_length ctx = of_nat (1024 * (length m div 128))"
    "s512_state ctx = foldl sha512_compress iv (chunks 128 m)" "take r (s512_data ctx) = leftover 128 m"
    using assms by (simp_all add: s512_absorbed_def r_def)
  have bits: "s512_bit_length ctx + of_nat (r * 8) = of_nat (8 * length m)"
    using s512_bits [of m] by (simp add: a r_def)
  have c: "chunks 128 (sha512_code_pad m) = chunks 128 m @
    (if r < 120 then [last_block 128 8 (s512_data ctx) r lf]
     else [spill_block 128 (s512_data ctx) r, replicate 120 0 @ lf])"
    using md_pad_chunks [of lf 8 128 "s512_data ctx" r m] a by (simp add: sha512_code_pad_def lf_def r_def)
  show ?thesis
  proof (cases "r < 120")
    case True
    with c a bits show ?thesis
      by (simp add: sha384_512_final_def sha512_digest_def last_block_def lf_def sha384_512_transform_def
          sha384_512_to_string_def Let_def)
  next
    case False
    have "overwrite (overwrite (spill_block 128 (s512_data ctx) r) 0 (replicate 120 0)) 120 lf =
        replicate 120 0 @ lf"
      using a by (simp add: overwrite_def spill_block_eq r_def lf_def length_leftover)
    with c a bits False show ?thesis
      by (simp add: sha384_512_final_def sha512_digest_def spill_block_def lf_def sha384_512_transform_def
          sha384_512_to_string_def Let_def)
  qed
qed

lemma s512_updates_absorbed:
  assumes "s512_absorbed ty iv ctx m" "\<forall>p \<in> set ps. int (length p) < 2 ^ 32"
  shows "\<exists>ctx'. sha384_512_updates ctx ps = Some ctx' \<and> s512_absorbed ty iv ctx' (m @ concat ps)"
  using assms
proof (induction ps arbitrary: ctx m)
  case (Cons p ps)
  with s512_update_absorbed [of ty iv ctx m p] obtain ctx1 where
    "sha384_512_update ctx p = Some ctx1" "s512_absorbed ty iv ctx1 (m @ p)" by auto
  with Cons.IH [of ctx1 "m @ p"] Cons.prems show ?case by auto
qed simp

lemma s512_bytes_digest:
  assumes "s512_absorbed ty iv ctx []" "int (length m) < 2 ^ 32"
  shows "sha384_512_bytes ctx m = Some (sha512_digest ty iv (sha512_code_pad m))"
  using s512_update_absorbed [OF assms] s512_final_absorbed by (auto simp: sha384_512_bytes_def)

lemma s512_file_digest:
  assumes "s512_absorbed ty iv ctx []" "\<forall>p \<in> set ps. length p \<le> 16384"
  shows "sha384_512_file ctx (Some ps) = Some (sha512_digest ty iv (sha512_code_pad (concat ps)))"
proof -
  have "\<forall>p \<in> set ps. int (length p) < 2 ^ 32" using assms(2) by auto
  from s512_updates_absorbed [OF assms(1) this] s512_final_absorbed show ?thesis
    by (auto simp: sha384_512_file_def)
qed

section \<open>Properties\<close>

lemma sha_init_absorbed:
  "length (s256_data mem) = 64 \<Longrightarrow> s256_absorbed SHA256 sha256_iv (sha256_init mem) []"
  "length (s256_data mem) = 64 \<Longrightarrow> s256_absorbed SHA224 sha224_iv (sha224_init mem) []"
  "length (s512_data mem') = 128 \<Longrightarrow> s512_absorbed SHA512 sha512_iv (sha512_init mem') []"
  "length (s512_data mem') = 128 \<Longrightarrow> s512_absorbed SHA384 sha384_iv (sha384_init mem') []"
  by (simp_all add: s256_absorbed_def s512_absorbed_def sha256_init_def sha224_init_def
      sha512_init_def sha384_init_def)

text \<open>The padding of FIPS 180-4 with a length field of eight and of sixteen bytes.\<close>

definition fips_pad64 :: "u8 list \<Rightarrow> u8 list" where
  "fips_pad64 m = md_pad 64 8 (bytes_be 8 (of_nat (8 * length m) :: u64)) m"

definition fips_pad128 :: "u8 list \<Rightarrow> u8 list" where
  "fips_pad128 m = md_pad 128 16 (replicate 8 0 @ bytes_be 8 (of_nat (8 * length m) :: u64)) m"

text \<open>
  C32: \<open>sha256_bytes\<close> and \<open>sha224_bytes\<close> return, for every message shorter than \<open>2 ^ 32\<close> bytes and
  whatever the uninitialised memory held, the digest of the message padded as FIPS 180-4 asks;
  the compression function of that digest is the one of the code.
\<close>

theorem sha256_bytes_correct:
  assumes "length (s256_data mem) = 64" "int (length m) < 2 ^ 32"
  shows "sha256_bytes mem m = Some (sha256_digest SHA256 sha256_iv (fips_pad64 m)) \<and>
    sha224_bytes mem m = Some (sha256_digest SHA224 sha224_iv (fips_pad64 m))"
  using s256_bytes_digest [OF sha_init_absorbed(1) [OF assms(1)] assms(2)]
    s256_bytes_digest [OF sha_init_absorbed(2) [OF assms(1)] assms(2)]
  by (simp add: sha256_bytes_def sha224_bytes_def fips_pad64_def sha256_code_pad_def)

definition sha256_mem :: sha224_256_ctx_t where
  "sha256_mem = \<lparr>s256_data = replicate 64 170, s256_data_length = 9, s256_bit_length = 3,
     s256_state = [], s256_type = SHA224\<rparr>"

lemma sha256_bytes_correct_witness:
  "sha256_bytes sha256_mem [97, 98, 99] = Some (sha256_digest SHA256 sha256_iv (fips_pad64 [97, 98, 99]))"
  using sha256_bytes_correct [of sha256_mem "[97, 98, 99]"] by (simp add: sha256_mem_def)

text \<open>
  hashing a file in pieces of at most 16384 bytes gives the digest of the whole contents, for
  SHA-224 and SHA-256; a file that cannot be opened gives the empty string.
\<close>

theorem sha256_file_correct:
  assumes "length (s256_data mem) = 64" "\<forall>p \<in> set ps. length p \<le> 16384"
  shows "sha256_file mem (Some ps) = Some (sha256_digest SHA256 sha256_iv (fips_pad64 (concat ps))) \<and>
    sha224_file mem (Some ps) = Some (sha256_digest SHA224 sha224_iv (fips_pad64 (concat ps))) \<and>
    sha256_file mem None = Some []"
  using s256_file_digest [OF sha_init_absorbed(1) [OF assms(1)] assms(2)]
    s256_file_digest [OF sha_init_absorbed(2) [OF assms(1)] assms(2)]
  by (simp add: sha256_file_def sha224_file_def sha224_256_file_def fips_pad64_def sha256_code_pad_def)

lemma sha256_file_correct_witness:
  "sha256_file sha256_mem (Some [[1], [2, 3]]) = Some (sha256_digest SHA256 sha256_iv (fips_pad64 [1, 2, 3]))"
  using sha256_file_correct [of sha256_mem "[[1], [2, 3]]"] by (simp add: sha256_mem_def)

lemma sha512_pads_agree:
  assumes "length m mod 128 < 112 \<or> 120 \<le> length m mod 128"
  shows "sha512_code_pad m = fips_pad128 m"
proof -
  define r where "r = length m mod 128"
  have "(2 * 128 - 8 - 1 - r) mod 128 = (2 * 128 - 16 - 1 - r) mod 128 + 8"
    using assms pad_zeros [of r 128 8] pad_zeros [of r 128 16] by (auto simp: r_def)
  then show ?thesis
    by (simp add: sha512_code_pad_def fips_pad128_def md_pad_def r_def [symmetric] replicate_add)
qed

text \<open>
  \<open>sha512_bytes\<close> and \<open>sha384_bytes\<close> return the digest of the message padded as FIPS 180-4 asks
  whenever the message length modulo 128 is not between 112 and 119.
\<close>

theorem sha512_bytes_correct:
  assumes "length (s512_data mem) = 128" "int (length m) < 2 ^ 32"
    "length m mod 128 < 112 \<or> 120 \<le> length m mod 128"
  shows "sha512_bytes mem m = Some (sha512_digest SHA512 sha512_iv (fips_pad128 m)) \<and>
    sha384_bytes mem m = Some (sha512_digest SHA384 sha384_iv (fips_pad128 m))"
  using s512_bytes_digest [OF sha_init_absorbed(3) [OF assms(1)] assms(2)]
    s512_bytes_digest [OF sha_init_absorbed(4) [OF assms(1)] assms(2)] sha512_pads_agree [OF assms(3)]
  by (simp add: sha512_bytes_def sha384_bytes_def)

definition sha512_mem :: sha384_512_ctx_t where
  "sha512_mem = \<lparr>s512_data = replicate 128 170, s512_state = [], s512_data_length = 9,
     s512_bit_length = 3, s512_type = SHA384\<rparr>"

lemma sha512_bytes_correct_witness:
  "sha512_bytes sha512_mem [97, 98, 99] = Some (sha512_digest SHA512 sha512_iv (fips_pad128 [97, 98, 99]))"
  using sha512_bytes_correct [of sha512_mem "[97, 98, 99]"] by (simp add: sha512_mem_def)

text \<open>
  C38: for messages below \<open>2\<^sup>3\<^sup>2\<close> bytes, when the length modulo 128 is between 112 and 119, \<open>sha512_bytes\<close> hashes a padded
  message that is exactly one block shorter than the one FIPS 180-4 prescribes.
\<close>

theorem sha512_misses_a_block:
  assumes "length (s512_data mem) = 128" "int (length m) < 2 ^ 32"
    "112 \<le> length m mod 128" "length m mod 128 < 120"
  shows "sha512_bytes mem m = Some (sha512_digest SHA512 sha512_iv (sha512_code_pad m)) \<and>
    128 dvd length (sha512_code_pad m) \<and> length (fips_pad128 m) = length (sha512_code_pad m) + 128"
proof (intro conjI)
  show "sha512_bytes mem m = Some (sha512_digest SHA512 sha512_iv (sha512_code_pad m))"
    using s512_bytes_digest [OF sha_init_absorbed(3) [OF assms(1)] assms(2)]
    by (simp add: sha512_bytes_def)
  show "128 dvd length (sha512_code_pad m)"
    unfolding sha512_code_pad_def by (rule md_pad_blocks) simp_all
  define r where "r = length m mod 128"
  have "(2 * 128 - 16 - 1 - r) mod 128 = (2 * 128 - 8 - 1 - r) mod 128 + 120"
    using assms pad_zeros [of r 128 8] pad_zeros [of r 128 16] by (auto simp: r_def)
  then show "length (fips_pad128 m) = length (sha512_code_pad m) + 128"
    by (simp add: sha512_code_pad_def fips_pad128_def md_pad_def r_def [symmetric])
qed

lemma sha512_misses_a_block_witness:
  "sha512_bytes sha512_mem (replicate 115 97) =
     Some (sha512_digest SHA512 sha512_iv (sha512_code_pad (replicate 115 97)))"
  using sha512_misses_a_block [of sha512_mem "replicate 115 97"] by (simp add: sha512_mem_def)

text \<open>The published SHA-256 test vector for the string \<open>abc\<close> comes out of the code.\<close>

theorem sha256_abc: "sha256_string sha256_mem ''abc'' =
    Some ''ba7816bf8f01cfea414140de5dae2223b00361a396177a9cb410ff61f20015ad''"
  by code_simp

end
