(* ===== verification/Crc32.thy ===== *)
theory Crc32
  imports Block_Stream
begin

text \<open>
  CRC-32 as in \<open>2022-03-19-CRC-32/crc32.hpp\<close>: the lookup table that the template
  \<open>crc32_lookup_generator\<close> and the macros \<open>A\<close> to \<open>I\<close> build at compile time, and the two routines that
  run over a byte buffer and over a zero terminated string. The lemmas relate the table to the
  bitwise shift register, show that the register is linear and invertible, and from this that the
  checksum detects every corruption inside a window of four bytes.
\<close>

unbundle bit_operations_syntax

section \<open>The program\<close>

fun crc32_lookup_generator :: "u32 \<Rightarrow> nat \<Rightarrow> u32" where
  "crc32_lookup_generator Element 0 = Element"
| "crc32_lookup_generator Element (Suc Repeat) =
     crc32_lookup_generator ((if Element AND 1 \<noteq> 0 then 0xedb88320 else 0) XOR drop_bit 1 Element) Repeat"

text \<open>The macro chain: every stage expands its argument and its argument plus a power of two.\<close>

fun crc32_expand :: "nat list \<Rightarrow> nat \<Rightarrow> nat list" where
  "crc32_expand [] x = [x]"
| "crc32_expand (k # ks) x = crc32_expand ks x @ crc32_expand ks (x + k)"

definition crc32_lookup_table :: "u32 list" where
  "crc32_lookup_table =
     map (\<lambda>x. crc32_lookup_generator (of_nat x) 8) (crc32_expand [128, 64, 32, 16, 8, 4, 2, 1] 0)"

definition crc32_bytes_step :: "u32 \<Rightarrow> u8 \<Rightarrow> u32" where
  "crc32_bytes_step crc b =
     drop_bit 8 crc XOR crc32_lookup_table ! unat ((crc XOR ucast b) AND 0xFF)"

definition crc32_bytes :: "u8 list \<Rightarrow> u32" where
  "crc32_bytes buffer = foldl crc32_bytes_step 0xFFFFFFFF buffer XOR 0xFFFFFFFF"

text \<open>
  In \<open>crc32_string\<close> the characters are signed, so they are sign extended before the exclusive or.
  The memory from the pointer to the end of its object is a list; a read beyond it is undefined.
\<close>

definition crc32_string_step :: "u32 \<Rightarrow> u8 \<Rightarrow> u32" where
  "crc32_string_step crc c =
     drop_bit 8 crc XOR crc32_lookup_table ! unat ((crc XOR scast c) AND 0xFF)"

fun crc32_string_loop :: "u32 \<Rightarrow> u8 list \<Rightarrow> u32 option" where
  "crc32_string_loop crc [] = None"
| "crc32_string_loop crc [c] = None"
| "crc32_string_loop crc (c # d # mem) =
     (let crc' = crc32_string_step crc c
      in if d \<noteq> 0 then crc32_string_loop crc' (d # mem) else Some crc')"

definition crc32_string :: "u8 list option \<Rightarrow> u32 option" where
  "crc32_string buffer =
     do { mem \<leftarrow> buffer; crc \<leftarrow> crc32_string_loop 0xFFFFFFFF mem; Some (crc XOR 0xFFFFFFFF) }"

section \<open>The shift register\<close>

text \<open>One step of the reflected shift register, and the bitwise checksum of a byte string.\<close>

definition lfsr :: "u32 \<Rightarrow> u32" where
  "lfsr x = (if odd x then 0xedb88320 else 0) XOR drop_bit 1 x"

definition lfsr8 :: "u32 \<Rightarrow> u32" where
  "lfsr8 x = (lfsr ^^ 8) x"

definition crc32_spec :: "u8 list \<Rightarrow> u32" where
  "crc32_spec m = NOT (foldl (\<lambda>r b. lfsr8 (r XOR ucast b)) (NOT 0) m)"

lemma xor_eq_0_iff: "x XOR y = 0 \<longleftrightarrow> x = (y :: u32)"
  by (auto simp: bit_eq_iff bit_xor_iff)

lemma xor_right_cancel: "x XOR z = y XOR z \<longleftrightarrow> x = (y :: u32)"
  by (auto simp: bit_eq_iff bit_xor_iff)

lemma low_byte_mask: "(0xFF :: u32) = mask 8"
  by (simp add: mask_eq_exp_minus_1)

lemma and_0xFF_less: "unat (x AND (0xFF :: u32)) < 256"
proof -
  have "x AND 0xFF \<le> 0xFF" by (rule word_and_le1)
  then show ?thesis by (simp add: word_le_nat_alt)
qed

lemma generator_lfsr: "crc32_lookup_generator x k = (lfsr ^^ k) x"
proof (induction k arbitrary: x)
  case (Suc k)
  have "x AND 1 \<noteq> 0 \<longleftrightarrow> odd x" by (simp add: and_one_eq odd_iff_mod_2_eq_one)
  then have "crc32_lookup_generator x (Suc k) = crc32_lookup_generator (lfsr x) k"
    by (simp add: lfsr_def)
  then show ?case by (simp add: Suc.IH funpow_swap1)
qed simp

lemma expand_upt: "crc32_expand [128, 64, 32, 16, 8, 4, 2, 1] 0 = [0..<256]"
  by (simp add: upt_rec)

lemma lookup_table: "i < 256 \<Longrightarrow> crc32_lookup_table ! i = lfsr8 (of_nat i)"
  unfolding crc32_lookup_table_def expand_upt generator_lfsr lfsr8_def
  using nth_map_upt [of i 256 0 "\<lambda>x. (lfsr ^^ 8) (of_nat x)"] by (simp del: upt_rec_numeral)

lemma lfsr_xor: "lfsr (x XOR y) = lfsr x XOR lfsr y"
  by (auto simp: lfsr_def even_xor_iff drop_bit_xor ac_simps)

lemma funpow_lfsr_xor: "(lfsr ^^ k) (x XOR y) = (lfsr ^^ k) x XOR (lfsr ^^ k) y"
  by (induction k) (simp_all add: lfsr_xor)

lemma lfsr8_xor: "lfsr8 (x XOR y) = lfsr8 x XOR lfsr8 y"
  by (simp add: lfsr8_def funpow_lfsr_xor)

lemma lfsr_even: "even x \<Longrightarrow> lfsr x = drop_bit 1 x"
  by (simp add: lfsr_def)

lemma lfsr_eq_0: "lfsr x = 0 \<longleftrightarrow> x = 0"
proof
  assume z: "lfsr x = 0"
  have "bit (lfsr x) 31 \<longleftrightarrow> odd x"
    by (simp add: lfsr_def bit_xor_iff bit_drop_bit_eq impossible_bit)
  with z have "even x" by simp
  with z have "drop_bit 1 x = 0" by (simp add: lfsr_even)
  then have "\<not> bit (drop_bit 1 x) n" for n by simp
  then have "\<not> bit x (Suc n)" for n by (simp add: bit_drop_bit_eq)
  with \<open>even x\<close> have "\<not> bit x n" for n by (cases n) (simp_all add: bit_0)
  then show "x = 0" by (intro bit_word_eqI) simp
qed (simp add: lfsr_def)

lemma funpow_lfsr_eq_0: "(lfsr ^^ k) x = 0 \<longleftrightarrow> x = 0"
  by (induction k) (simp_all add: lfsr_eq_0)

lemma lfsr8_inj: "lfsr8 x = lfsr8 y \<longleftrightarrow> x = y"
  using funpow_lfsr_eq_0 [of 8 "x XOR y"] unfolding lfsr8_def funpow_lfsr_xor xor_eq_0_iff .

lemma funpow_lfsr_shifted:
  "(\<And>i. i < k \<Longrightarrow> \<not> bit x i) \<Longrightarrow> (lfsr ^^ k) x = drop_bit k x"
proof (induction k arbitrary: x)
  case (Suc k)
  then have "\<not> bit x 0" by blast
  then have "even x" by (simp add: bit_0)
  then have "(lfsr ^^ Suc k) x = (lfsr ^^ k) (drop_bit 1 x)"
    by (simp add: lfsr_even funpow_swap1)
  also have "\<dots> = drop_bit k (drop_bit 1 x)"
    using Suc.prems by (intro Suc.IH) (simp add: bit_drop_bit_eq)
  finally show ?case by (simp add: drop_bit_drop_bit)
qed simp

lemma lfsr8_shifted: "lfsr8 (push_bit 8 x) = drop_bit 8 (push_bit 8 x)"
  unfolding lfsr8_def by (rule funpow_lfsr_shifted) (simp add: bit_push_bit_iff)

lemma lfsr8_split: "lfsr8 x = drop_bit 8 x XOR lfsr8 (x AND 0xFF)"
proof -
  have x: "x = push_bit 8 (drop_bit 8 x) XOR (x AND 0xFF)"
    unfolding low_byte_mask by (intro bit_word_eqI) (auto simp: bit_simps)
  have "lfsr8 x = lfsr8 (push_bit 8 (drop_bit 8 x)) XOR lfsr8 (x AND 0xFF)"
    by (subst x) (simp only: lfsr8_xor)
  also have "lfsr8 (push_bit 8 (drop_bit 8 x)) = drop_bit 8 x"
    by (subst lfsr8_shifted, intro bit_word_eqI) (auto simp: bit_simps dest: bit_imp_le_length)
  finally show ?thesis .
qed

lemma bytes_step_lfsr8: "crc32_bytes_step r b = lfsr8 (r XOR ucast b)"
proof -
  let ?x = "r XOR ucast b"
  have "crc32_bytes_step r b = drop_bit 8 r XOR lfsr8 (?x AND 0xFF)"
    by (simp add: crc32_bytes_step_def lookup_table [OF and_0xFF_less])
  moreover have "drop_bit 8 ?x = drop_bit 8 r"
    by (intro bit_word_eqI) (auto simp: bit_simps dest: bit_imp_le_length)
  ultimately show ?thesis using lfsr8_split [of ?x] by simp
qed

lemma less_8_cases: "7 \<le> n \<Longrightarrow> n < 8 \<Longrightarrow> n = (7 :: nat)"
  by simp

lemma string_step_eq: "crc32_string_step r c = crc32_bytes_step r c"
proof -
  have "(r XOR scast c) AND 0xFF = (r XOR ucast c) AND (0xFF :: u32)"
    unfolding low_byte_mask by (intro bit_word_eqI) (auto simp: bit_simps min_def dest: less_8_cases)
  then show ?thesis by (simp add: crc32_string_step_def crc32_bytes_step_def)
qed

section \<open>Error detection\<close>

lemma crc_run_inj: "foldl crc32_bytes_step r q = foldl crc32_bytes_step s q \<longleftrightarrow> r = s"
proof (induction q arbitrary: r s)
  case (Cons b q)
  then show ?case by (simp add: bytes_step_lfsr8 lfsr8_inj xor_right_cancel)
qed simp

text \<open>
  As long as at most four bytes are read, the register is the shift register run on the bytes placed
  side by side, so it determines them. The packed word of the bytes, least significant first:
\<close>

fun pack :: "u8 list \<Rightarrow> u32" where
  "pack [] = 0"
| "pack (b # bs) = ucast b XOR push_bit 8 (pack bs)"

lemma bit_pack: "n < 32 \<Longrightarrow> bit (pack bs) n \<longleftrightarrow> n div 8 < length bs \<and> bit (bs ! (n div 8)) (n mod 8)"
proof (induction bs arbitrary: n)
  case (Cons b bs)
  show ?case
  proof (cases "n < 8")
    case True
    then show ?thesis by (simp add: bit_simps)
  next
    case False
    then have "n div 8 = Suc ((n - 8) div 8)" "n mod 8 = (n - 8) mod 8"
      by (simp_all add: le_div_geq le_mod_geq)
    with False Cons.prems Cons.IH [of "n - 8"] show ?thesis
      by (auto simp: bit_simps dest: bit_imp_le_length)
  qed
qed simp

lemma pack_inj:
  assumes "length bs = length cs" "length bs \<le> 4" "pack bs = pack cs"
  shows "bs = cs"
proof (rule nth_equalityI)
  fix i assume i: "i < length bs"
  show "bs ! i = cs ! i"
  proof (rule bit_word_eqI)
    fix n assume "n < LENGTH(8)"
    then have "(8 * i + n) div 8 = i" "(8 * i + n) mod 8 = n" "8 * i + n < 32"
      using i assms(2) by simp_all
    with bit_pack [of "8 * i + n" bs] bit_pack [of "8 * i + n" cs] i assms(1,3)
    show "bit (bs ! i) n = bit (cs ! i) n" by simp
  qed
qed (rule assms(1))

lemma run_pack:
  "length bs \<le> 4 \<Longrightarrow> foldl crc32_bytes_step r bs = (lfsr8 ^^ length bs) (r XOR pack bs)"
proof (induction bs arbitrary: r)
  case (Cons b bs)
  have "lfsr8 (push_bit 8 (pack bs)) = pack bs"
  proof -
    have "drop_bit 8 (push_bit 8 (pack bs)) = pack bs"
      using Cons.prems by (intro bit_word_eqI) (auto simp: bit_simps bit_pack dest: bit_imp_le_length)
    then show ?thesis by (simp add: lfsr8_shifted)
  qed
  then have "lfsr8 (r XOR pack (b # bs)) = crc32_bytes_step r b XOR pack bs"
    by (simp add: bytes_step_lfsr8 lfsr8_xor xor.assoc)
  with Cons show ?case by (simp add: funpow_swap1)
qed simp

lemma funpow_lfsr8_inj: "(lfsr8 ^^ k) x = (lfsr8 ^^ k) y \<longleftrightarrow> x = y"
  by (induction k arbitrary: x y) (simp_all add: funpow_swap1 lfsr8_inj)

section \<open>Properties\<close>

text \<open>
  C33: the table driven \<open>crc32_bytes\<close> computes the checksum of the bitwise definition, the reflected
  shift register with polynomial \<open>0xedb88320\<close> run over every bit, with complemented start and end.
\<close>

theorem crc32_bytes_bitwise: "crc32_bytes m = crc32_spec m"
proof -
  have c: "(NOT 0 :: u32) = 0xFFFFFFFF" by simp
  have "x XOR 0xFFFFFFFF = NOT x" for x :: u32
    by (metis c bit.xor_compl_right xor.right_neutral)
  then show ?thesis
    by (simp only: c crc32_bytes_def crc32_spec_def bytes_step_lfsr8 [abs_def])
qed

text \<open>
  C34: two messages of one length that differ only inside a window of at most four consecutive bytes
  never have the same \<open>crc32_bytes\<close> checksum.
\<close>

theorem crc32_detects_burst:
  assumes "length x = length y" "length x \<le> 4" "crc32_bytes (p @ x @ q) = crc32_bytes (p @ y @ q)"
  shows "x = y"
proof -
  let ?r = "foldl crc32_bytes_step 0xFFFFFFFF p"
  have "foldl crc32_bytes_step ?r x = foldl crc32_bytes_step ?r y"
    using assms(3) by (simp add: crc32_bytes_def xor_right_cancel crc_run_inj)
  then have "?r XOR pack x = ?r XOR pack y"
    using assms(1,2) by (simp add: run_pack funpow_lfsr8_inj)
  then have "pack x = pack y" by (metis xor.commute xor_right_cancel)
  with assms(1,2) show ?thesis by (rule pack_inj)
qed

lemma crc32_detects_burst_witness:
  "crc32_bytes ([1, 2] @ [3, 4] @ [5]) \<noteq> crc32_bytes ([1, 2] @ [9, 4] @ [5])"
  using crc32_detects_burst [of "[3, 4]" "[9, 4]" "[1, 2]" "[5]"] by auto

lemma string_loop_run:
  assumes "0 \<notin> set (c # s)"
  shows "crc32_string_loop r (c # s @ 0 # rest) = Some (foldl crc32_bytes_step r (c # s))"
  using assms by (induction s arbitrary: r c) (auto simp: string_step_eq Let_def)

text \<open>
  On a non-empty zero terminated string \<open>crc32_string\<close> returns the checksum of its characters, and
  reads nothing behind the terminator.
\<close>

theorem crc32_string_correct:
  assumes "s \<noteq> []" "0 \<notin> set s"
  shows "crc32_string (Some (s @ 0 # rest)) = Some (crc32_bytes s)"
proof -
  from assms(1) obtain c t where "s = c # t" by (cases s) auto
  with string_loop_run [of c t] assms(2) show ?thesis
    by (simp add: crc32_string_def crc32_bytes_def)
qed

lemma crc32_string_correct_witness:
  "crc32_string (Some ([104, 233] @ 0 # [])) = Some (crc32_bytes [104, 233])"
  by (rule crc32_string_correct) simp_all

text \<open>
  On the empty string \<open>crc32_string\<close> does not return the checksum of no bytes: it reads behind the
  terminator, so with nothing there the behaviour is undefined, and otherwise it returns the
  checksum of the terminator and what follows up to the next zero.
\<close>

theorem crc32_string_empty_overruns:
  "crc32_string (Some [0]) = None \<and>
   (0 \<notin> set s \<longrightarrow> crc32_string (Some (0 # s @ 0 # rest)) = Some (crc32_bytes (0 # s)))"
proof (intro conjI impI)
  assume s: "0 \<notin> set s"
  show "crc32_string (Some (0 # s @ 0 # rest)) = Some (crc32_bytes (0 # s))"
  proof (cases s)
    case (Cons d t)
    with s string_loop_run [of d t] show ?thesis
      by (simp add: crc32_string_def crc32_bytes_def string_step_eq Let_def)
  qed (simp add: crc32_string_def crc32_bytes_def string_step_eq)
qed (simp add: crc32_string_def)

lemma crc32_string_empty_overruns_witness:
  "crc32_string (Some (0 # [7] @ 0 # [])) = Some (crc32_bytes (0 # [7]))"
  using crc32_string_empty_overruns [of "[7]" "[]"] by simp

end
