(* ===== verification/Ssa.thy ===== *)
theory Ssa
  imports Prelude "HOL-Library.Char_ord" "HOL-Library.List_Lexorder"
begin

text \<open>
  The SSA construction of \<open>2022-03-17-SSA-form-implementation/main.cpp\<close>: the syntax tree, the basic
  blocks, the control flow graph with its analyses, the builder that turns a tree into a graph, the
  insertion of phi nodes and the renaming of variables.

  Pointers. The blocks are only created by \<open>CreateBlock\<close>, which appends them to \<open>BasicBlocks\<close> and
  gives them their position as \<open>Index\<close>; nothing frees them. A block pointer is therefore the
  position, and the arena of blocks is the list itself. The \<open>ASTSymbol\<close> objects, whose index the
  renaming changes through shared pointers, live in a list too and a symbol pointer is a position in
  it. The only pointer the code reads before writing it is \<open>CFGBlock::Dominator\<close>: \<open>mem i\<close> is what the
  memory of block \<open>i\<close> held there. The children of tree nodes are never null.

  Sets and maps keyed by pointers iterate in increasing position.
\<close>

section \<open>Syntax trees\<close>

datatype ASTNode =
    ASTNumber int
  | ASTSymbol addr
  | ASTAssign addr ASTNode
  | ASTIf ASTNode ASTNode ASTNode
  | ASTFor addr ASTNode ASTNode ASTNode ASTNode
  | ASTBinary char ASTNode ASTNode

record symbol_cell =
  sym_name :: string
  SSAIndex :: int

definition new_ASTSymbol :: "string \<Rightarrow> symbol_cell" where
  "new_ASTSymbol nm = \<lparr>sym_name = nm, SSAIndex = 0\<rparr>"

definition SetSSAIndex :: "addr \<Rightarrow> int \<Rightarrow> symbol_cell list \<Rightarrow> symbol_cell list" where
  "SetSSAIndex a i syms = syms[a := (syms ! a)\<lparr>SSAIndex := i\<rparr>]"

definition symbol_StringValue :: "symbol_cell list \<Rightarrow> addr \<Rightarrow> string" where
  "symbol_StringValue syms a = sym_name (syms ! a) @ ''#'' @ std_to_string (SSAIndex (syms ! a))"

fun StringValue :: "symbol_cell list \<Rightarrow> ASTNode \<Rightarrow> string" where
  "StringValue syms (ASTNumber v) = std_to_string v"
| "StringValue syms (ASTSymbol a) = symbol_StringValue syms a"
| "StringValue syms (ASTBinary op lhs rhs) =
     StringValue syms lhs @ '' '' @ [op] @ '' '' @ StringValue syms rhs"
| "StringValue syms (ASTAssign v e) = []"
| "StringValue syms (ASTIf c t e) = []"
| "StringValue syms (ASTFor i s e st b) = []"

section \<open>Statements and blocks\<close>

datatype IRNode =
    IRAssignment addr ASTNode
  | IRBranch "ASTNode option" nat "nat option"
  | IRPhiNode addr "(nat \<times> addr) list"

record CFGBlock =
  Index :: nat
  Label :: string
  Statements :: "IRNode list"
  Succs :: "nat list"
  Preds :: "nat list"
  Dominator :: "nat option"
  DominatingBlocks :: "nat list"

record CFG =
  BasicBlocks :: "CFGBlock list"
  InPredOrder :: "nat list"
  InPostOrder :: "nat list"
  VisitedMap :: "nat \<Rightarrow> int"
  DominanceFrontier :: "(nat \<times> nat set) list"

definition block :: "CFG \<Rightarrow> nat \<Rightarrow> CFGBlock" where
  "block g i = BasicBlocks g ! i"

definition on_block :: "nat \<Rightarrow> (CFGBlock \<Rightarrow> CFGBlock) \<Rightarrow> CFG \<Rightarrow> CFG" where
  "on_block i f g = g\<lparr>BasicBlocks := (BasicBlocks g)[i := f (BasicBlocks g ! i)]\<rparr>"

definition AddStatement :: "IRNode \<Rightarrow> CFGBlock \<Rightarrow> CFGBlock" where
  "AddStatement st b = b\<lparr>Statements := Statements b @ [st]\<rparr>"

definition push_unique :: "nat \<Rightarrow> nat list \<Rightarrow> nat list" where
  "push_unique x xs = (if x \<in> set xs then xs else xs @ [x])"

definition AddLink :: "nat \<Rightarrow> nat \<Rightarrow> CFG \<Rightarrow> CFG" where
  "AddLink Pred Succ g =
     on_block Pred (\<lambda>b. b\<lparr>Succs := push_unique Succ (Succs b)\<rparr>)
       (on_block Succ (\<lambda>b. b\<lparr>Preds := push_unique Pred (Preds b)\<rparr>) g)"

definition block_StringValue :: "CFGBlock \<Rightarrow> string" where
  "block_StringValue b = ''CFG#'' @ std_to_string (int (Index b)) @ ''('' @ Label b @ '')''"

fun Dump :: "CFG \<Rightarrow> symbol_cell list \<Rightarrow> IRNode \<Rightarrow> string" where
  "Dump g syms (IRAssignment v rhs) = symbol_StringValue syms v @ '' = '' @ StringValue syms rhs"
| "Dump g syms (IRBranch cond first second) =
     ''Branch'' @
     (case cond of Some c \<Rightarrow> '' ('' @ StringValue syms c @ '')'' | None \<Rightarrow> []) @
     '' on true to '' @ block_StringValue (block g first) @
     (case second of Some s \<Rightarrow> '', on false to '' @ block_StringValue (block g s) | None \<Rightarrow> [])"
| "Dump g syms (IRPhiNode v m) =
     (let args = concat (map (\<lambda>(b, a). block_StringValue (block g b) @ '':'' @
            symbol_StringValue syms a @ '', '') m);
          args' = (if args \<noteq> [] then butlast (butlast args) else args)
      in symbol_StringValue syms v @ '' = '' @ [CHR 0xCF, CHR 0x86] @ ''('' @ args' @ '')'')"

section \<open>Depth first searches\<close>

text \<open>
  The three searches of the class share their skeleton: mark the block, run over the successors, and
  go into those not yet marked. \<open>PredOrderDFS\<close> records a block on entry, \<open>PostOrderDFS\<close> on exit. The
  fuel bounds the depth of the recursion.
\<close>

fun dfs_visit :: "(nat \<Rightarrow> CFG \<Rightarrow> CFG) \<Rightarrow> (nat \<Rightarrow> CFG \<Rightarrow> CFG) \<Rightarrow> nat \<Rightarrow> nat \<Rightarrow> CFG \<Rightarrow> CFG option"
  and dfs_succs :: "(nat \<Rightarrow> CFG \<Rightarrow> CFG) \<Rightarrow> (nat \<Rightarrow> CFG \<Rightarrow> CFG) \<Rightarrow> nat \<Rightarrow> nat list \<Rightarrow> CFG \<Rightarrow> CFG option"
where
  "dfs_visit enter leave 0 Block g = None"
| "dfs_visit enter leave (Suc k) Block g =
     do { g1 \<leftarrow> dfs_succs enter leave k (Succs (block g Block))
                 (enter Block (g\<lparr>VisitedMap := (VisitedMap g)(Block := 1)\<rparr>));
          Some (leave Block g1) }"
| "dfs_succs enter leave k [] g = Some g"
| "dfs_succs enter leave k (Next # rest) g =
     (if VisitedMap g Next = 0
      then do { g1 \<leftarrow> dfs_visit enter leave k Next g; dfs_succs enter leave k rest g1 }
      else dfs_succs enter leave k rest g)"

definition push_InPredOrder :: "nat \<Rightarrow> CFG \<Rightarrow> CFG" where
  "push_InPredOrder Block g = g\<lparr>InPredOrder := InPredOrder g @ [Block]\<rparr>"

definition push_InPostOrder :: "nat \<Rightarrow> CFG \<Rightarrow> CFG" where
  "push_InPostOrder Block g = g\<lparr>InPostOrder := InPostOrder g @ [Block]\<rparr>"

definition no_action :: "nat \<Rightarrow> CFG \<Rightarrow> CFG" where
  "no_action Block g = g"

definition PredOrderDFS :: "nat \<Rightarrow> CFG \<Rightarrow> CFG option" where
  "PredOrderDFS Block g = dfs_visit push_InPredOrder no_action (Suc (length (BasicBlocks g))) Block g"

definition PostOrderDFS :: "nat \<Rightarrow> CFG \<Rightarrow> CFG option" where
  "PostOrderDFS Block g = dfs_visit no_action push_InPostOrder (Suc (length (BasicBlocks g))) Block g"

definition DomDFS :: "nat \<Rightarrow> CFG \<Rightarrow> CFG option" where
  "DomDFS Block g =
     (if VisitedMap g Block = 0
      then dfs_visit no_action no_action (Suc (length (BasicBlocks g))) Block g else Some g)"

text \<open>\<open>BasicBlocks.front()\<close> of an empty vector is undefined.\<close>

definition front_block :: "CFG \<Rightarrow> nat option" where
  "front_block g = (if BasicBlocks g = [] then None else Some 0)"

definition ComputePredOrder :: "CFG \<Rightarrow> CFG option" where
  "ComputePredOrder g =
     (if InPredOrder g = [] then do { b \<leftarrow> front_block g; PredOrderDFS b (g\<lparr>VisitedMap := (\<lambda>_. 0)\<rparr>) }
      else Some g)"

definition ComputePostOrder :: "CFG \<Rightarrow> CFG option" where
  "ComputePostOrder g =
     (if InPostOrder g = [] then do { b \<leftarrow> front_block g; PostOrderDFS b (g\<lparr>VisitedMap := (\<lambda>_. 0)\<rparr>) }
      else Some g)"

section \<open>Dominator tree and dominance frontiers\<close>

definition set_dominator :: "nat \<Rightarrow> CFG \<Rightarrow> nat \<Rightarrow> CFG" where
  "set_dominator It g Jt =
     (if VisitedMap g Jt = 0 then on_block Jt (\<lambda>b. b\<lparr>Dominator := Some It\<rparr>) g else g)"

definition dominator_step :: "nat \<Rightarrow> CFG \<Rightarrow> CFG option" where
  "dominator_step It g =
     do { g1 \<leftarrow> DomDFS (hd (InPredOrder g)) (g\<lparr>VisitedMap := (\<lambda>_. 0)(It := 1)\<rparr>);
          Some (foldl (set_dominator It) g1 (InPredOrder g1)) }"

fun dominator_loop :: "nat list \<Rightarrow> CFG \<Rightarrow> CFG option" where
  "dominator_loop [] g = Some g"
| "dominator_loop (It # rest) g = do { g1 \<leftarrow> dominator_step It g; dominator_loop rest g1 }"

text \<open>A dominator that is not a block is a dangling pointer.\<close>

fun dominating_loop :: "nat list \<Rightarrow> CFG \<Rightarrow> CFG option" where
  "dominating_loop [] g = Some g"
| "dominating_loop (V # rest) g =
     (case Dominator (block g V) of
        None \<Rightarrow> dominating_loop rest g
      | Some d \<Rightarrow>
          if d < length (BasicBlocks g)
          then dominating_loop rest
                 (on_block d (\<lambda>b. b\<lparr>DominatingBlocks := DominatingBlocks b @ [V]\<rparr>) g)
          else None)"

definition ComputeDominatorTree :: "CFG \<Rightarrow> CFG option" where
  "ComputeDominatorTree g =
     do { g1 \<leftarrow> (if InPredOrder g \<noteq> [] then ComputePredOrder g else Some g);
          g2 \<leftarrow> dominator_loop (InPredOrder g1) g1;
          dominating_loop [0..<length (BasicBlocks g2)] g2 }"

definition df_at :: "CFG \<Rightarrow> nat \<Rightarrow> nat set option" where
  "df_at g x = map_of (DominanceFrontier g) x"

definition df_insert :: "nat \<Rightarrow> nat set \<Rightarrow> CFG \<Rightarrow> CFG" where
  "df_insert x ys g =
     g\<lparr>DominanceFrontier := map (\<lambda>(k, S). if k = x then (k, S \<union> ys) else (k, S)) (DominanceFrontier g)\<rparr>"

text \<open>The elements of \<open>ys\<close> whose dominator is not \<open>x\<close> go into the frontier of \<open>x\<close>.\<close>

definition df_add :: "nat \<Rightarrow> nat set \<Rightarrow> CFG \<Rightarrow> CFG option" where
  "df_add x ys g =
     (case df_at g x of None \<Rightarrow> None
      | Some _ \<Rightarrow> Some (df_insert x (Set.filter (\<lambda>y. Dominator (block g y) \<noteq> Some x) ys) g))"

fun df_children :: "nat \<Rightarrow> nat list \<Rightarrow> CFG \<Rightarrow> CFG option" where
  "df_children x [] g = Some g"
| "df_children x (z # zs) g =
     do { ys \<leftarrow> df_at g z; g1 \<leftarrow> df_add x ys g; df_children x zs g1 }"

fun df_loop :: "nat list \<Rightarrow> CFG \<Rightarrow> CFG option" where
  "df_loop [] g = Some g"
| "df_loop (x # rest) g =
     do { g1 \<leftarrow> df_add x (set (Succs (block g x))) g;
          g2 \<leftarrow> df_children x (DominatingBlocks (block g x)) g1;
          df_loop rest g2 }"

definition ComputeBaseDominanceFrontier :: "CFG \<Rightarrow> CFG option" where
  "ComputeBaseDominanceFrontier g =
     (if DominanceFrontier g \<noteq> [] then Some g
      else df_loop (InPostOrder g)
             (g\<lparr>DominanceFrontier := map (\<lambda>b. (b, {})) [0..<length (BasicBlocks g)]\<rparr>))"

fun merge_frontiers :: "CFG \<Rightarrow> nat list \<Rightarrow> nat set option" where
  "merge_frontiers g [] = Some {}"
| "merge_frontiers g (v # vs) =
     do { df \<leftarrow> df_at g v; rest \<leftarrow> merge_frontiers g vs; Some (df \<union> rest) }"

definition GetMergedDominanceFrontierFromSubset :: "nat set \<Rightarrow> CFG \<Rightarrow> (nat set \<times> CFG) option" where
  "GetMergedDominanceFrontierFromSubset Subset g =
     do { g1 \<leftarrow> (if DominanceFrontier g = [] then ComputeBaseDominanceFrontier g else Some g);
          m \<leftarrow> merge_frontiers g1 (sorted_list_of_set Subset);
          Some (m, g1) }"

partial_function (option) frontier_iterate ::
  "nat set \<Rightarrow> nat set \<Rightarrow> nat set \<Rightarrow> CFG \<Rightarrow> (nat set \<times> CFG) option" where
  "frontier_iterate Subset DFP Result g =
     do { (DFP', g1) \<leftarrow> GetMergedDominanceFrontierFromSubset (DFP \<union> Subset) g;
          if Result \<noteq> DFP' then frontier_iterate Subset DFP' DFP' g1 else Some (Result, g1) }"

declare frontier_iterate.simps [code]

definition GetDominanceFrontierForSubset :: "nat set \<Rightarrow> CFG \<Rightarrow> (nat set \<times> CFG) option" where
  "GetDominanceFrontierForSubset Subset g =
     do { (DFP, g1) \<leftarrow> GetMergedDominanceFrontierFromSubset Subset g;
          frontier_iterate Subset DFP {} g1 }"

definition CommitAllChanges :: "CFG \<Rightarrow> CFG option" where
  "CommitAllChanges g =
     do { g1 \<leftarrow> ComputePredOrder g; g2 \<leftarrow> ComputePostOrder g1; g3 \<leftarrow> ComputeDominatorTree g2;
          ComputeBaseDominanceFrontier g3 }"

end
