(* ===== verification/Ssa_Builder.thy ===== *)
theory Ssa_Builder
  imports Ssa
begin

text \<open>
  The second half of \<open>2022-03-17-SSA-form-implementation/main.cpp\<close>: the collection of the variables
  of a statement, the builder of the control flow graph, phi insertion, renaming, the printer and
  the program's \<open>main\<close>.
\<close>

section \<open>Variables of a statement\<close>

fun ast_variables :: "ASTNode \<Rightarrow> addr set" where
  "ast_variables (ASTNumber v) = {}"
| "ast_variables (ASTSymbol a) = {a}"
| "ast_variables (ASTAssign v e) = insert v (ast_variables e)"
| "ast_variables (ASTIf c t e) = {}"
| "ast_variables (ASTFor i s e st b) = {}"
| "ast_variables (ASTBinary op l r) = ast_variables l \<union> ast_variables r"

fun AllVarsUsedInStatement :: "IRNode \<Rightarrow> addr set" where
  "AllVarsUsedInStatement (IRAssignment v rhs) = ast_variables rhs"
| "AllVarsUsedInStatement (IRBranch cond first second) =
     (case cond of Some c \<Rightarrow> ast_variables c | None \<Rightarrow> {})"
| "AllVarsUsedInStatement (IRPhiNode v m) = {}"

section \<open>Renaming\<close>

text \<open>The stack is kept with its back first. \<open>Stack.back()\<close> and \<open>pop_back()\<close> need an element.\<close>

record SSABuilder =
  Counter :: int
  Stack :: "int list"
  Symbols :: "symbol_cell list"

definition define_symbol :: "addr \<Rightarrow> SSABuilder \<Rightarrow> SSABuilder" where
  "define_symbol a st =
     st\<lparr>Symbols := SetSSAIndex a (Counter st) (Symbols st),
        Stack := Counter st # Stack st, Counter := Counter st + 1\<rparr>"

fun rename_uses :: "string \<Rightarrow> addr list \<Rightarrow> SSABuilder \<Rightarrow> SSABuilder option" where
  "rename_uses VarName [] st = Some st"
| "rename_uses VarName (a # as) st =
     (if sym_name (Symbols st ! a) = VarName then
        (case Stack st of [] \<Rightarrow> None
         | i # _ \<Rightarrow> rename_uses VarName as (st\<lparr>Symbols := SetSSAIndex a i (Symbols st)\<rparr>))
      else rename_uses VarName as st)"

fun rename_statement :: "string \<Rightarrow> IRNode \<Rightarrow> SSABuilder \<Rightarrow> SSABuilder option" where
  "rename_statement VarName (IRPhiNode v m) st =
     Some (if sym_name (Symbols st ! v) = VarName then define_symbol v st else st)"
| "rename_statement VarName (IRBranch cond first second) st =
     rename_uses VarName (sorted_list_of_set (AllVarsUsedInStatement (IRBranch cond first second))) st"
| "rename_statement VarName (IRAssignment v rhs) st =
     do { st1 \<leftarrow> rename_uses VarName (sorted_list_of_set (AllVarsUsedInStatement (IRAssignment v rhs))) st;
          Some (if sym_name (Symbols st1 ! v) = VarName then define_symbol v st1 else st1) }"

fun rename_statements :: "string \<Rightarrow> IRNode list \<Rightarrow> SSABuilder \<Rightarrow> SSABuilder option" where
  "rename_statements VarName [] st = Some st"
| "rename_statements VarName (s # ss) st =
     do { st1 \<leftarrow> rename_statement VarName s st; rename_statements VarName ss st1 }"

fun phi_argument :: "nat \<Rightarrow> IRNode \<Rightarrow> addr list" where
  "phi_argument Block (IRPhiNode v m) = (case map_of m Block of Some a \<Rightarrow> [a] | None \<Rightarrow> [])"
| "phi_argument Block (IRAssignment v rhs) = []"
| "phi_argument Block (IRBranch cond first second) = []"

definition phi_arguments :: "CFG \<Rightarrow> nat \<Rightarrow> addr list" where
  "phi_arguments g Block =
     concat (map (\<lambda>Succ. concat (map (phi_argument Block) (Statements (block g Succ)))) (Succs (block g Block)))"

fun pop_definitions :: "string \<Rightarrow> IRNode list \<Rightarrow> SSABuilder \<Rightarrow> SSABuilder option" where
  "pop_definitions VarName [] st = Some st"
| "pop_definitions VarName (IRAssignment v rhs # ss) st =
     (if sym_name (Symbols st ! v) = VarName then
        (case Stack st of [] \<Rightarrow> None | _ # rest \<Rightarrow> pop_definitions VarName ss (st\<lparr>Stack := rest\<rparr>))
      else pop_definitions VarName ss st)"
| "pop_definitions VarName (IRBranch cond first second # ss) st = pop_definitions VarName ss st"
| "pop_definitions VarName (IRPhiNode v m # ss) st = pop_definitions VarName ss st"

fun TraverseBlockWithVar :: "CFG \<Rightarrow> string \<Rightarrow> nat \<Rightarrow> nat \<Rightarrow> SSABuilder \<Rightarrow> SSABuilder option"
  and traverse_children :: "CFG \<Rightarrow> string \<Rightarrow> nat \<Rightarrow> nat list \<Rightarrow> SSABuilder \<Rightarrow> SSABuilder option"
where
  "TraverseBlockWithVar g VarName 0 Block st = None"
| "TraverseBlockWithVar g VarName (Suc k) Block st =
     do { st1 \<leftarrow> rename_statements VarName (Statements (block g Block)) st;
          st2 \<leftarrow> rename_uses VarName (phi_arguments g Block) st1;
          st3 \<leftarrow> traverse_children g VarName k (DominatingBlocks (block g Block)) st2;
          pop_definitions VarName (Statements (block g Block)) st3 }"
| "traverse_children g VarName k [] st = Some st"
| "traverse_children g VarName k (Child # rest) st =
     do { st1 \<leftarrow> TraverseBlockWithVar g VarName k Child st; traverse_children g VarName k rest st1 }"

definition RenameVarToSSAForm :: "CFG \<Rightarrow> string \<Rightarrow> symbol_cell list \<Rightarrow> symbol_cell list option" where
  "RenameVarToSSAForm g VarName syms =
     do { b \<leftarrow> front_block g;
          st \<leftarrow> TraverseBlockWithVar g VarName (Suc (length (BasicBlocks g))) b
                 \<lparr>Counter = 0, Stack = [], Symbols = syms\<rparr>;
          Some (Symbols st) }"

section \<open>The graph builder\<close>

record CFGBuilder =
  CFGraph :: CFG
  CurrentBlock :: nat
  BlocksForVariable :: "(string \<times> nat set) list"
  AllSymbols :: "symbol_cell list"

text \<open>\<open>std::map::operator[]\<close> followed by an insertion, the keys in increasing order.\<close>

fun map_insert_at :: "string \<Rightarrow> nat \<Rightarrow> (string \<times> nat set) list \<Rightarrow> (string \<times> nat set) list" where
  "map_insert_at k x [] = [(k, {x})]"
| "map_insert_at k x ((l, S) # m) =
     (if k < l then (k, {x}) # (l, S) # m
      else if k = l then (l, insert x S) # m
      else (l, S) # map_insert_at k x m)"

definition on_graph :: "(CFG \<Rightarrow> CFG) \<Rightarrow> CFGBuilder \<Rightarrow> CFGBuilder" where
  "on_graph f b = b\<lparr>CFGraph := f (CFGraph b)\<rparr>"

definition AddBlock :: "CFGBlock \<Rightarrow> CFG \<Rightarrow> CFG" where
  "AddBlock bl g = g\<lparr>BasicBlocks := BasicBlocks g @ [bl]\<rparr>"

definition CreateBlock :: "(nat \<Rightarrow> ptr) \<Rightarrow> string \<Rightarrow> CFGBuilder \<Rightarrow> nat \<times> CFGBuilder" where
  "CreateBlock mem label b =
     (let NextIndex = length (BasicBlocks (CFGraph b));
          Block = \<lparr>Index = NextIndex, Label = label, Statements = [], Succs = [], Preds = [],
              Dominator = mem NextIndex, DominatingBlocks = []\<rparr>
      in (NextIndex, on_graph (AddBlock Block) b))"

definition empty_CFG :: CFG where
  "empty_CFG = \<lparr>BasicBlocks = [], InPredOrder = [], InPostOrder = [], VisitedMap = (\<lambda>_. 0),
     DominanceFrontier = []\<rparr>"

definition new_CFGBuilder :: "(nat \<Rightarrow> ptr) \<Rightarrow> symbol_cell list \<Rightarrow> CFGBuilder" where
  "new_CFGBuilder mem syms =
     (let (entry, b) = CreateBlock mem ''Entry'' \<lparr>CFGraph = empty_CFG, CurrentBlock = 0,
            BlocksForVariable = [], AllSymbols = syms\<rparr>
      in b\<lparr>CurrentBlock := entry\<rparr>)"

definition CreateBranch :: "nat \<Rightarrow> CFGBuilder \<Rightarrow> CFGBuilder" where
  "CreateBranch Target b =
     on_graph (on_block (CurrentBlock b) (AddStatement (IRBranch None Target None)))
       (on_graph (AddLink (CurrentBlock b) Target) b)"

definition CreateConditionalBranch :: "ASTNode \<Rightarrow> nat \<Rightarrow> nat \<Rightarrow> CFGBuilder \<Rightarrow> CFGBuilder" where
  "CreateConditionalBranch Condition ThenBlock ElseBlock b =
     on_graph (on_block (CurrentBlock b) (AddStatement (IRBranch (Some Condition) ThenBlock (Some ElseBlock))))
       (on_graph (AddLink (CurrentBlock b) ElseBlock) (on_graph (AddLink (CurrentBlock b) ThenBlock) b))"

fun Traverse :: "(nat \<Rightarrow> ptr) \<Rightarrow> ASTNode \<Rightarrow> CFGBuilder \<Rightarrow> CFGBuilder" where
  "Traverse mem (ASTNumber v) b = b"
| "Traverse mem (ASTSymbol a) b = b"
| "Traverse mem (ASTFor i s e st body) b = b"
| "Traverse mem (ASTAssign v e) b =
     on_graph (on_block (CurrentBlock b) (AddStatement (IRAssignment v e)))
       (b\<lparr>BlocksForVariable :=
            map_insert_at (sym_name (AllSymbols b ! v)) (CurrentBlock b) (BlocksForVariable b)\<rparr>)"
| "Traverse mem (ASTIf cond thenExp elseExp) b =
     (case CreateBlock mem ''Then'' b of (ThenBlock, b1) \<Rightarrow>
      case CreateBlock mem ''Else'' b1 of (ElseBlock, b2) \<Rightarrow>
      case CreateBlock mem ''IfContinue'' b2 of (MergeBlock, b3) \<Rightarrow>
        (CreateBranch MergeBlock (Traverse mem elseExp
          ((CreateBranch MergeBlock (Traverse mem thenExp
            ((CreateConditionalBranch cond ThenBlock ElseBlock b3)\<lparr>CurrentBlock := ThenBlock\<rparr>)))
           \<lparr>CurrentBlock := ElseBlock\<rparr>)))\<lparr>CurrentBlock := MergeBlock\<rparr>)"
| "Traverse mem (ASTBinary op lhs rhs) b = Traverse mem rhs (Traverse mem lhs b)"

section \<open>Phi nodes\<close>

definition insert_phi :: "string \<Rightarrow> CFGBuilder \<Rightarrow> nat \<Rightarrow> CFGBuilder" where
  "insert_phi VariableName b Block =
     (let preds = Preds (block (CFGraph b) Block);
          base = length (AllSymbols b);
          ToVarMap = sort_key fst (zip preds [base..<base + length preds]);
          var = base + length preds
      in on_graph (on_block Block (\<lambda>bl. bl\<lparr>Statements := IRPhiNode var ToVarMap # Statements bl\<rparr>))
           (b\<lparr>AllSymbols := AllSymbols b @ replicate (length preds + 1) (new_ASTSymbol VariableName)\<rparr>))"

definition insert_phis_for :: "string \<Rightarrow> nat set \<Rightarrow> CFGBuilder \<Rightarrow> CFGBuilder option" where
  "insert_phis_for VariableName AssignedBlocks b =
     do { (df, g) \<leftarrow> GetDominanceFrontierForSubset AssignedBlocks (CFGraph b);
          Some (foldl (insert_phi VariableName) (b\<lparr>CFGraph := g\<rparr>) (sorted_list_of_set df)) }"

fun insert_phis :: "(string \<times> nat set) list \<Rightarrow> CFGBuilder \<Rightarrow> CFGBuilder option" where
  "insert_phis [] b = Some b"
| "insert_phis ((VariableName, AssignedBlocks) # rest) b =
     do { b1 \<leftarrow> insert_phis_for VariableName AssignedBlocks b; insert_phis rest b1 }"

definition InsertPhiNodes :: "CFGBuilder \<Rightarrow> CFGBuilder option" where
  "InsertPhiNodes b = insert_phis (BlocksForVariable b) b"

fun rename_all :: "CFG \<Rightarrow> string list \<Rightarrow> symbol_cell list \<Rightarrow> symbol_cell list option" where
  "rename_all g [] syms = Some syms"
| "rename_all g (v # vs) syms = do { syms1 \<leftarrow> RenameVarToSSAForm g v syms; rename_all g vs syms1 }"

definition BuildSSAForm :: "CFGBuilder \<Rightarrow> CFGBuilder option" where
  "BuildSSAForm b =
     do { syms \<leftarrow> rename_all (CFGraph b) (map fst (BlocksForVariable b)) (AllSymbols b);
          Some (b\<lparr>AllSymbols := syms\<rparr>) }"

definition CommitSSAFormBuilding :: "CFGBuilder \<Rightarrow> CFGBuilder option" where
  "CommitSSAFormBuilding b =
     do { g \<leftarrow> CommitAllChanges (CFGraph b);
          b1 \<leftarrow> InsertPhiNodes (b\<lparr>CFGraph := g\<rparr>);
          BuildSSAForm b1 }"

section \<open>Printer and main\<close>

definition dump_block :: "CFG \<Rightarrow> symbol_cell list \<Rightarrow> nat \<Rightarrow> string" where
  "dump_block g syms b = block_StringValue (block g b) @ ''\<newline>'' @
     concat (map (\<lambda>s. Dump g syms s @ ''\<newline>'') (Statements (block g b)))"

definition CFGToDot :: "CFG \<Rightarrow> symbol_cell list \<Rightarrow> string" where
  "CFGToDot g syms =
     ''digraph G {\<newline>'' @ ''  node[shape=box];\<newline>'' @
     concat (map (\<lambda>b. concat (map (\<lambda>s. [CHR 0x09, CHR 0x22] @ dump_block g syms b @
        [CHR 0x22] @ '' -> '' @ [CHR 0x22] @ dump_block g syms s @ [CHR 0x22] @ ''\<newline>'') (Succs (block g b))))
        [0..<length (BasicBlocks g)]) @ ''}\<newline>''"

definition main_symbols :: "symbol_cell list" where
  "main_symbols = map new_ASTSymbol
     [''first'', ''second'', ''third'', ''first'', ''second'', ''first'', ''second'', ''second'', ''third'',
      ''first'', ''third'', ''second'', ''second'', ''third'', ''first'']"

definition main_expressions :: "ASTNode list" where
  "main_expressions =
     [ASTAssign 0 (ASTNumber 1), ASTAssign 1 (ASTNumber 2), ASTAssign 2 (ASTNumber 3),
      ASTIf (ASTBinary CHR ''+'' (ASTBinary CHR ''+'' (ASTNumber 2002) (ASTNumber 3003)) (ASTNumber 4004))
        (ASTAssign 3 (ASTSymbol 4))
        (ASTIf (ASTBinary CHR ''/'' (ASTBinary CHR ''*'' (ASTNumber 5005) (ASTNumber 6006)) (ASTNumber 7007))
          (ASTAssign 5 (ASTSymbol 6))
          (ASTAssign 7 (ASTSymbol 8))),
      ASTAssign 9 (ASTSymbol 10), ASTAssign 11 (ASTSymbol 12), ASTAssign 13 (ASTSymbol 14)]"

definition build_program :: "(nat \<Rightarrow> ptr) \<Rightarrow> symbol_cell list \<Rightarrow> ASTNode list \<Rightarrow> CFGBuilder" where
  "build_program mem syms exprs = foldl (\<lambda>b e. Traverse mem e b) (new_CFGBuilder mem syms) exprs"

text \<open>What \<open>main\<close> writes to the file.\<close>

definition ssa_main :: "(nat \<Rightarrow> ptr) \<Rightarrow> string option" where
  "ssa_main mem =
     do { b \<leftarrow> CommitSSAFormBuilding (build_program mem main_symbols main_expressions);
          Some (CFGToDot (CFGraph b) (AllSymbols b)) }"

end
