(* ===== verification/Dominance.thy ===== *)
theory Dominance
  imports Prelude
begin

text \<open>
  Dominance in a flow graph, the specification of the analyses of
  \<open>2022-03-17-SSA-form-implementation/main.cpp\<close>. A graph is a successor function and an entry node.
  The theory defines walks, dominators, immediate dominators and dominance frontiers from walks
  alone, and proves the facts the algorithms rest on: the dominators of a node form a chain, and a
  frontier is the local part plus what the immediately dominated nodes pass up.
\<close>

section \<open>Walks\<close>

fun walk :: "(nat \<Rightarrow> nat list) \<Rightarrow> nat \<Rightarrow> nat list \<Rightarrow> nat \<Rightarrow> bool" where
  "walk s u [] v \<longleftrightarrow> u = v"
| "walk s u (w # ws) v \<longleftrightarrow> w \<in> set (s u) \<and> walk s w ws v"

lemma walk_append: "walk s u (xs @ ys) v \<longleftrightarrow> (\<exists>w. walk s u xs w \<and> walk s w ys v)"
  by (induction xs arbitrary: u) auto

lemma walk_snoc: "walk s u (xs @ [y]) v \<longleftrightarrow> y = v \<and> (\<exists>w. walk s u xs w \<and> y \<in> set (s w))"
  by (auto simp: walk_append)

lemma walk_last: "walk s u ws v \<Longrightarrow> v \<in> set (u # ws)"
  by (induction ws arbitrary: u) auto

lemma walk_take:
  assumes "walk s u ws v" "x \<in> set (u # ws)"
  shows "\<exists>xs ys. ws = xs @ ys \<and> walk s u xs x \<and> walk s x ys v"
proof (cases "x = u")
  case True
  then show ?thesis using assms by (intro exI [of _ "[]"] exI [of _ ws]) simp
next
  case False
  then obtain xs ys where ws: "ws = (xs @ [x]) @ ys" using assms(2) by (auto dest!: split_list)
  with assms(1) have "walk s u (xs @ [x]) x" "walk s x ys v" by (auto simp: walk_append)
  with ws show ?thesis by blast
qed

text \<open>The part of a walk after the last node with a property.\<close>

lemma walk_last_prop:
  assumes "walk s u ws v" "x \<in> set (u # ws)" "P x"
  shows "\<exists>y ys. P y \<and> walk s y ys v \<and> (\<forall>z \<in> set ys. \<not> P z)"
proof -
  from assms(2,3) obtain xs y ys where ws: "u # ws = xs @ y # ys" "P y" "\<forall>z \<in> set ys. \<not> P z"
    using split_list_last_prop [of "u # ws" P] by blast
  have "walk s y ys v"
  proof (cases xs)
    case Nil
    then show ?thesis using ws(1) assms(1) by simp
  next
    case (Cons a xs')
    then have "ws = (xs' @ [y]) @ ys" using ws(1) by simp
    then show ?thesis using assms(1) by (auto simp: walk_append)
  qed
  with ws(2,3) show ?thesis by blast
qed

section \<open>Dominators\<close>

definition reachable_from :: "(nat \<Rightarrow> nat list) \<Rightarrow> nat \<Rightarrow> nat \<Rightarrow> bool" where
  "reachable_from s r v \<longleftrightarrow> (\<exists>ws. walk s r ws v)"

definition dominates :: "(nat \<Rightarrow> nat list) \<Rightarrow> nat \<Rightarrow> nat \<Rightarrow> nat \<Rightarrow> bool" where
  "dominates s r d v \<longleftrightarrow> (\<forall>ws. walk s r ws v \<longrightarrow> d \<in> set (r # ws))"

definition sdom :: "(nat \<Rightarrow> nat list) \<Rightarrow> nat \<Rightarrow> nat \<Rightarrow> nat \<Rightarrow> bool" where
  "sdom s r d v \<longleftrightarrow> dominates s r d v \<and> d \<noteq> v"

definition idom :: "(nat \<Rightarrow> nat list) \<Rightarrow> nat \<Rightarrow> nat \<Rightarrow> nat \<Rightarrow> bool" where
  "idom s r d v \<longleftrightarrow> sdom s r d v \<and> (\<forall>e. sdom s r e v \<longrightarrow> dominates s r e d)"

definition frontier :: "(nat \<Rightarrow> nat list) \<Rightarrow> nat \<Rightarrow> nat \<Rightarrow> nat set" where
  "frontier s r x =
     {y. \<exists>p. reachable_from s r p \<and> y \<in> set (s p) \<and> dominates s r x p \<and> \<not> sdom s r x y}"

lemma reachable_entry [simp]: "reachable_from s r r"
  unfolding reachable_from_def by (rule exI [of _ "[]"]) simp

lemma reachable_step: "reachable_from s r p \<Longrightarrow> y \<in> set (s p) \<Longrightarrow> reachable_from s r y"
  unfolding reachable_from_def by (metis walk_snoc)

lemma dominates_refl [simp]: "dominates s r v v"
  by (auto simp: dominates_def dest: walk_last)

lemma dominates_entry [simp]: "dominates s r r v"
  by (simp add: dominates_def)

lemma dominator_reachable:
  assumes "dominates s r d v" "reachable_from s r v"
  shows "reachable_from s r d"
proof -
  from assms(2) obtain ws where "walk s r ws v" by (auto simp: reachable_from_def)
  with assms(1) walk_take [of s r ws v d] show ?thesis
    by (auto simp: dominates_def reachable_from_def)
qed

lemma dominates_trans:
  assumes "dominates s r a b" "dominates s r b c"
  shows "dominates s r a c"
  unfolding dominates_def
proof (intro allI impI)
  fix ws assume w: "walk s r ws c"
  with assms(2) have "b \<in> set (r # ws)" by (simp add: dominates_def)
  from walk_take [OF w this] obtain xs ys where "ws = xs @ ys" "walk s r xs b" by auto
  with assms(1) show "a \<in> set (r # ws)" by (auto simp: dominates_def)
qed

lemma dominates_pred:
  assumes "dominates s r d v" "d \<noteq> v" "v \<in> set (s p)"
  shows "dominates s r d p"
  unfolding dominates_def
proof (intro allI impI)
  fix ws assume "walk s r ws p"
  then have "walk s r (ws @ [v]) v" using assms(3) by (auto simp: walk_snoc)
  with assms(1,2) show "d \<in> set (r # ws)" by (auto simp: dominates_def)
qed

lemma dominates_antisym:
  assumes "dominates s r a b" "dominates s r b a" "reachable_from s r a"
  shows "a = b"
proof (rule ccontr)
  assume "a \<noteq> b"
  from assms(3) obtain ws where "walk s r ws a" by (auto simp: reachable_from_def)
  then obtain n where "\<exists>ws. walk s r ws a \<and> length ws = n" by blast
  then obtain m where m: "\<exists>ws. walk s r ws a \<and> length ws = m"
    and least: "\<And>k. k < m \<Longrightarrow> \<not> (\<exists>ws. walk s r ws a \<and> length ws = k)"
    using exists_least_iff [of "\<lambda>n. \<exists>ws. walk s r ws a \<and> length ws = n"] by metis
  then obtain us where us: "walk s r us a" "length us = m" by blast
  with assms(2) have "b \<in> set (r # us)" by (simp add: dominates_def)
  from walk_take [OF us(1) this] obtain xs ys where x: "us = xs @ ys" "walk s r xs b" "walk s b ys a"
    by auto
  from \<open>a \<noteq> b\<close> x(3) have "0 < length ys" by (cases ys) auto
  from assms(1) x(2) have "a \<in> set (r # xs)" by (simp add: dominates_def)
  from walk_take [OF x(2) this] obtain zs ts where "xs = zs @ ts" "walk s r zs a" by auto
  moreover from this x(1) us(2) \<open>0 < length ys\<close> have "length zs < m" by (simp del: length_greater_0_conv)
  ultimately show False using least by blast
qed

lemma sdom_trans1: "dominates s r a b \<Longrightarrow> sdom s r b c \<Longrightarrow> reachable_from s r c \<Longrightarrow> sdom s r a c"
  unfolding sdom_def using dominates_trans dominates_antisym by metis

lemma sdom_trans2:
  assumes "sdom s r a b" "dominates s r b c" "reachable_from s r c"
  shows "sdom s r a c"
  using assms dominates_trans dominates_antisym dominator_reachable unfolding sdom_def by metis

lemma sdom_asym: "sdom s r a b \<Longrightarrow> dominates s r b a \<Longrightarrow> reachable_from s r b \<Longrightarrow> False"
  unfolding sdom_def using dominates_antisym by metis

text \<open>The dominators of a reachable node form a chain.\<close>

lemma dominates_chain:
  assumes "dominates s r a v" "dominates s r b v" "reachable_from s r v"
  shows "dominates s r a b \<or> dominates s r b a"
proof (rule ccontr)
  assume "\<not> ?thesis"
  then obtain p q where p: "walk s r p b" "a \<notin> set (r # p)" and q: "walk s r q a" "b \<notin> set (r # q)"
    by (auto simp: dominates_def)
  from assms(3) obtain ws where ws: "walk s r ws v" by (auto simp: reachable_from_def)
  with assms(1) have "a \<in> set (r # ws)" by (simp add: dominates_def)
  from walk_last_prop [OF ws this, of "\<lambda>z. z = a \<or> z = b"] obtain y ys where
    y: "y = a \<or> y = b" "walk s y ys v" "a \<notin> set ys" "b \<notin> set ys" by auto
  from y(1) show False
  proof
    assume "y = a"
    then have "walk s r (q @ ys) v" using q y by (auto simp: walk_append)
    with assms(2) q y show False by (auto simp: dominates_def)
  next
    assume "y = b"
    then have "walk s r (p @ ys) v" using p y by (auto simp: walk_append)
    with assms(1) p y show False by (auto simp: dominates_def)
  qed
qed

lemma idom_unique:
  assumes "idom s r d v" "idom s r e v" "reachable_from s r v"
  shows "d = e"
proof -
  have "dominates s r d e" "dominates s r e d" using assms(1,2) by (auto simp: idom_def)
  moreover have "reachable_from s r d"
    using assms(1,3) dominator_reachable by (auto simp: idom_def sdom_def)
  ultimately show ?thesis by (rule dominates_antisym)
qed

lemma sdom_idom: "idom s r d v \<Longrightarrow> sdom s r x v \<Longrightarrow> x = d \<or> sdom s r x d"
  by (auto simp: idom_def sdom_def)

lemma entry_no_sdom: "\<not> sdom s r x r"
  unfolding sdom_def dominates_def by (metis list.set_intros(1) set_ConsD empty_iff list.set(1) walk.simps(1))

lemma succ_idom:
  assumes "y \<in> set (s x)" "sdom s r x y"
  shows "idom s r x y"
  using assms dominates_pred unfolding idom_def sdom_def by metis

section \<open>Frontiers\<close>

text \<open>
  The equation of Cytron et al., for a predicate \<open>I d v\<close> that is the immediate dominator relation on
  reachable nodes: the frontier of \<open>x\<close> is made of its successors and of the frontiers of the nodes
  it immediately dominates, without the nodes that \<open>x\<close> immediately dominates.
\<close>

lemma frontier_local: "reachable_from s r x \<Longrightarrow> y \<in> set (s x) \<Longrightarrow> \<not> idom s r x y \<Longrightarrow> y \<in> frontier s r x"
  using succ_idom by (auto simp: frontier_def)

lemma frontier_up:
  assumes z: "idom s r x z" "reachable_from s r z" and y: "y \<in> frontier s r z" "\<not> idom s r x y"
    and tree: "\<And>v. reachable_from s r v \<Longrightarrow> v \<noteq> r \<Longrightarrow> \<exists>d. idom s r d v"
  shows "y \<in> frontier s r x"
proof -
  from y(1) obtain p where p: "reachable_from s r p" "y \<in> set (s p)" "dominates s r z p" "\<not> sdom s r z y"
    by (auto simp: frontier_def)
  have ry: "reachable_from s r y" using p reachable_step by blast
  have xz: "sdom s r x z" using z(1) by (simp add: idom_def)
  then have xp: "dominates s r x p" using p(3) dominates_trans by (auto simp: sdom_def)
  have "\<not> sdom s r x y"
  proof
    assume xy: "sdom s r x y"
    then have "y \<noteq> r" using entry_no_sdom by metis
    with tree ry obtain w where w: "idom s r w y" by blast
    with y(2) sdom_idom [OF w xy] have xw: "sdom s r x w" by auto
    have wy: "sdom s r w y" using w by (simp add: idom_def)
    then have wp: "dominates s r w p" using p(2) dominates_pred by (auto simp: sdom_def)
    from dominates_chain [OF wp p(3,1)] show False
    proof
      assume "dominates s r z w"
      from sdom_trans1 [OF this wy ry] p(4) show False by simp
    next
      assume wz: "dominates s r w z"
      show False
      proof (cases "w = z")
        case True
        then show False using wy p(4) by simp
      next
        case False
        with wz have "dominates s r w x" using z(1) by (simp add: idom_def sdom_def)
        moreover have "reachable_from s r w" using wp p(1) by (rule dominator_reachable)
        ultimately show False using xw sdom_asym by blast
      qed
    qed
  qed
  with xp p(1,2) show ?thesis by (auto simp: frontier_def)
qed

text \<open>Below a strict dominator there is an immediately dominated node on the way to the node.\<close>

lemma child_on_chain:
  fixes rank :: "nat \<Rightarrow> nat"
  assumes tree: "\<And>v. reachable_from s r v \<Longrightarrow> v \<noteq> r \<Longrightarrow> \<exists>d. idom s r d v"
    and rank: "\<And>d v. reachable_from s r v \<Longrightarrow> sdom s r d v \<Longrightarrow> rank d < rank v"
  shows "sdom s r x p \<Longrightarrow> reachable_from s r p \<Longrightarrow> \<exists>z. idom s r x z \<and> dominates s r z p"
proof (induction p rule: measure_induct_rule [of rank])
  case (less p)
  then have "p \<noteq> r" using entry_no_sdom by metis
  with tree less.prems obtain d where d: "idom s r d p" by blast
  show ?case
  proof (cases "x = d")
    case True
    with d show ?thesis using dominates_refl by blast
  next
    case False
    with sdom_idom [OF d] less.prems have "sdom s r x d" by blast
    moreover have "sdom s r d p" using d by (simp add: idom_def)
    ultimately obtain z where "idom s r x z" "dominates s r z d"
      using less.IH [of d] less.prems rank dominator_reachable unfolding sdom_def by blast
    with \<open>sdom s r d p\<close> show ?thesis using dominates_trans unfolding sdom_def by blast
  qed
qed

lemma frontier_split:
  fixes rank :: "nat \<Rightarrow> nat"
  assumes tree: "\<And>v. reachable_from s r v \<Longrightarrow> v \<noteq> r \<Longrightarrow> \<exists>d. idom s r d v"
    and rank: "\<And>d v. reachable_from s r v \<Longrightarrow> sdom s r d v \<Longrightarrow> rank d < rank v"
    and y: "y \<in> frontier s r x"
  shows "\<not> idom s r x y \<and>
    (y \<in> set (s x) \<or> (\<exists>z. reachable_from s r z \<and> idom s r x z \<and> y \<in> frontier s r z))"
proof -
  from y obtain p where p: "reachable_from s r p" "y \<in> set (s p)" "dominates s r x p" "\<not> sdom s r x y"
    by (auto simp: frontier_def)
  have ry: "reachable_from s r y" using p reachable_step by blast
  have n: "\<not> idom s r x y" using p(4) by (simp add: idom_def)
  show ?thesis
  proof (cases "x = p")
    case False
    with p(3) have "sdom s r x p" by (simp add: sdom_def)
    from child_on_chain [of s r rank, OF tree rank this p(1)] obtain z where z: "idom s r x z" "dominates s r z p" by auto
    have rz: "reachable_from s r z" using z(2) p(1) by (rule dominator_reachable)
    have "\<not> sdom s r z y"
      using z(1) p(4) sdom_trans1 [of s r x z y] ry unfolding idom_def sdom_def by blast
    with z p rz have "y \<in> frontier s r z" by (auto simp: frontier_def)
    with n z rz show ?thesis by blast
  qed (use n p in simp)
qed

lemmas frontier_equation = frontier_local frontier_up frontier_split

end
