(* ===== verification/Ssa_Dfs.thy ===== *)
theory Ssa_Dfs
  imports Ssa Dominance
begin

text \<open>
  The depth first searches of the SSA builder. \<open>dfs_block\<close> and \<open>dfs_list\<close> are the search as a
  function that returns the new blocks in the order they are entered and left; its facts (it
  returns, visits exactly the blocks that walks around the marked ones reach, enters dominators
  first and leaves them last) are proved once. The locale \<open>dfs_record\<close> is the contract of the actions
  on entry and exit; its three instances are the searches of the source.
\<close>

section \<open>The search as a function\<close>

fun dfs_block :: "(nat \<Rightarrow> nat list) \<Rightarrow> nat \<Rightarrow> nat \<Rightarrow> nat set \<Rightarrow> (nat list \<times> nat list) option"
  and dfs_list :: "(nat \<Rightarrow> nat list) \<Rightarrow> nat \<Rightarrow> nat list \<Rightarrow> nat set \<Rightarrow> (nat list \<times> nat list) option"
where
  "dfs_block s 0 b V = None"
| "dfs_block s (Suc k) b V =
     do { (p, q) \<leftarrow> dfs_list s k (s b) (insert b V); Some (b # p, q @ [b]) }"
| "dfs_list s k [] V = Some ([], [])"
| "dfs_list s k (n # ns) V =
     (if n \<in> V then dfs_list s k ns V
      else do { (p, q) \<leftarrow> dfs_block s k n V; (p', q') \<leftarrow> dfs_list s k ns (V \<union> set p);
                Some (p @ p', q @ q') })"

lemma dfs_total:
  shows "\<forall>x < N. set (s x) \<subseteq> {..<N} \<Longrightarrow> b < N \<Longrightarrow> b \<notin> V \<Longrightarrow> card ({..<N} - V) \<le> k \<Longrightarrow> dfs_block s k b V \<noteq> None"
    and "\<forall>x < N. set (s x) \<subseteq> {..<N} \<Longrightarrow> set ns \<subseteq> {..<N} \<Longrightarrow> card ({..<N} - V) \<le> k \<Longrightarrow> dfs_list s k ns V \<noteq> None"
proof (induction s k b V and s k ns V rule: dfs_block_dfs_list.induct)
  case (1 s b V)
  then have "{..<N} - V = {}" by simp
  with 1 show ?case by blast
next
  case (2 s k b V)
  have "{..<N} - insert b V = ({..<N} - V) - {b}" by blast
  with 2 have "card ({..<N} - insert b V) \<le> k" by simp
  with 2 show ?case by (auto split: prod.splits)
next
  case (4 s k n ns V)
  show ?case
  proof (cases "n \<in> V")
    case False
    with 4 obtain p q where b: "dfs_block s k n V = Some (p, q)" by auto
    have "card ({..<N} - (V \<union> set p)) \<le> card ({..<N} - V)" by (intro card_mono) auto
    with 4 False b have "dfs_list s k ns (V \<union> set p) \<noteq> None" by auto
    with b False show ?thesis by auto
  qed (use 4 in simp)
qed simp

lemma dfs_sets:
  shows "dfs_block s k b V = Some (p, q) \<Longrightarrow> b \<notin> V \<Longrightarrow>
      set p = set q \<and> distinct p \<and> distinct q \<and> set p \<inter> V = {} \<and> b \<in> set p \<and>
      (\<forall>x \<in> set p. set (s x) \<subseteq> V \<union> set p)"
    and "dfs_list s k ns V = Some (p, q) \<Longrightarrow>
      set p = set q \<and> distinct p \<and> distinct q \<and> set p \<inter> V = {} \<and> set ns \<subseteq> V \<union> set p \<and>
      (\<forall>x \<in> set p. set (s x) \<subseteq> V \<union> set p)"
proof (induction s k b V and s k ns V arbitrary: p q and p q rule: dfs_block_dfs_list.induct)
  case (2 s k b V)
  from "2.prems" obtain p' q' where r: "dfs_list s k (s b) (insert b V) = Some (p', q')"
    and pq: "p = b # p'" "q = q' @ [b]" by auto
  from "2.IH" [OF r] "2.prems"(2) show ?case unfolding pq by (auto 4 3)
next
  case (4 s k n ns V)
  show ?case
  proof (cases "n \<in> V")
    case False
    with "4.prems" obtain p1 q1 p2 q2 where r: "dfs_block s k n V = Some (p1, q1)"
      "dfs_list s k ns (V \<union> set p1) = Some (p2, q2)" and pq: "p = p1 @ p2" "q = q1 @ q2" by auto
    from "4.IH"(2) [OF False r(1) False] "4.IH"(3) [OF False r(1) refl r(2)] show ?thesis
      unfolding pq by (auto 4 3 simp: Int_Un_distrib)
  next
    case True
    with "4.prems" have "dfs_list s k ns V = Some (p, q)" by simp
    from "4.IH"(1) [OF True this] True show ?thesis by (auto 4 3)
  qed
qed simp_all

lemma dfs_walks:
  shows "dfs_block s k b V = Some (p, q) \<Longrightarrow> x \<in> set p \<Longrightarrow> \<exists>ws. walk s b ws x \<and> set ws \<subseteq> set p"
    and "dfs_list s k ns V = Some (p, q) \<Longrightarrow> x \<in> set p \<Longrightarrow>
      \<exists>n ws. n \<in> set ns \<and> walk s n ws x \<and> set (n # ws) \<subseteq> set p"
proof (induction s k b V and s k ns V arbitrary: p q and p q rule: dfs_block_dfs_list.induct)
  case (2 s k b V)
  from "2.prems" obtain p' q' where r: "dfs_list s k (s b) (insert b V) = Some (p', q')"
    and p: "p = b # p'" by auto
  show ?case
  proof (cases "x = b")
    case True
    then show ?thesis by (intro exI [of _ "[]"]) simp
  next
    case False
    with "2.prems" p have "x \<in> set p'" by simp
    from "2.IH" [OF r this] obtain n ws where "n \<in> set (s b)" "walk s n ws x" "set (n # ws) \<subseteq> set p'" by blast
    then show ?thesis unfolding p by (intro exI [of _ "n # ws"]) auto
  qed
next
  case (4 s k n ns V)
  show ?case
  proof (cases "n \<in> V")
    case True
    with 4 show ?thesis by fastforce
  next
    case False
    with "4.prems" obtain p1 q1 p2 q2 where r: "dfs_block s k n V = Some (p1, q1)"
      "dfs_list s k ns (V \<union> set p1) = Some (p2, q2)" and p: "p = p1 @ p2" by auto
    have "n \<in> set p1" using dfs_sets(1) [OF r(1) False] by blast
    from "4.prems"(2) consider "x \<in> set p1" | "x \<in> set p2" unfolding p by auto
    then show ?thesis
    proof cases
      case 1
      from "4.IH"(2) [OF False r(1) 1] obtain ws where "walk s n ws x" "set ws \<subseteq> set p1" by blast
      with \<open>n \<in> set p1\<close> show ?thesis unfolding p by (intro exI [of _ n] exI [of _ ws]) auto
    next
      case 2
      from "4.IH"(3) [OF False r(1) refl r(2) 2] show ?thesis unfolding p by fastforce
    qed
  qed
qed auto

text \<open>The blocks of a search are those that walks around the marked blocks reach.\<close>

lemma dfs_block_reach:
  assumes "dfs_block s k b V = Some (p, q)" "b \<notin> V"
  shows "x \<in> set p \<longleftrightarrow> (\<exists>ws. walk s b ws x \<and> set (b # ws) \<inter> V = {})"
proof
  assume "x \<in> set p"
  with dfs_walks(1) [OF assms(1)] obtain ws where "walk s b ws x" "set ws \<subseteq> set p" by blast
  with dfs_sets(1) [OF assms] show "\<exists>ws. walk s b ws x \<and> set (b # ws) \<inter> V = {}" by auto
next
  assume "\<exists>ws. walk s b ws x \<and> set (b # ws) \<inter> V = {}"
  then obtain ws where ws: "walk s b ws x" "set ws \<inter> V = {}" by auto
  have b: "b \<in> set p" "\<forall>y \<in> set p. set (s y) \<subseteq> V \<union> set p" using dfs_sets(1) [OF assms] by auto
  show "x \<in> set p"
    using ws b(1)
  proof (induction ws arbitrary: b)
    case (Cons w ws)
    then have "w \<in> set p" using b(2) by auto
    with Cons.IH [of w] Cons.prems show ?case by simp
  qed simp
qed

section \<open>Order of dominators\<close>

definition before :: "'a list \<Rightarrow> 'a \<Rightarrow> 'a \<Rightarrow> bool" where
  "before xs a b \<longleftrightarrow> (\<exists>us vs ws. xs = us @ a # vs @ b # ws)"

lemma before_Cons: "b \<in> set xs \<Longrightarrow> before (a # xs) a b"
  unfolding before_def by (metis append_Nil split_list)

lemma before_snoc: "a \<in> set xs \<Longrightarrow> before (xs @ [b]) a b"
  unfolding before_def by (metis append_Cons append_assoc split_list)

lemma before_append1: "before xs a b \<Longrightarrow> before (xs @ ys) a b"
  unfolding before_def by (metis append_Cons append_assoc)

lemma before_append2: "before ys a b \<Longrightarrow> before (xs @ ys) a b"
  unfolding before_def by (metis append_assoc)

lemma before_mid: "a \<in> set xs \<Longrightarrow> before (xs @ b # ys) a b"
  unfolding before_def by (metis append_Cons append_assoc split_list)

lemmas before_intros = before_Cons before_snoc before_append1 before_append2
  before_append2 [of _ _ _ "[x]" for x, simplified]

definition rank :: "'a list \<Rightarrow> 'a \<Rightarrow> nat" where
  "rank xs a = length (takeWhile (\<lambda>x. x \<noteq> a) xs)"

lemma rank_less: "a \<in> set xs \<Longrightarrow> rank xs a < length xs"
  unfolding rank_def by (induction xs) auto

lemma before_rank: "distinct xs \<Longrightarrow> before xs a b \<Longrightarrow> rank xs a < rank xs b"
  by (auto simp: before_def rank_def takeWhile_append)

lemma dfs_dominators:
  shows "dfs_block s k b V = Some (p, q) \<Longrightarrow> b \<notin> V \<Longrightarrow> walk s r ws b \<Longrightarrow> set (r # ws) \<subseteq> insert b G \<Longrightarrow>
      x \<in> set p \<Longrightarrow> sdom s r d x \<Longrightarrow> d \<in> G \<or> (before p d x \<and> before q x d)"
    and "dfs_list s k ns V = Some (p, q) \<Longrightarrow> walk s r ws b \<Longrightarrow> set (r # ws) \<subseteq> G \<Longrightarrow> set ns \<subseteq> set (s b) \<Longrightarrow>
      x \<in> set p \<Longrightarrow> sdom s r d x \<Longrightarrow> d \<in> G \<or> (before p d x \<and> before q x d)"
proof (induction s k b V and s k ns V arbitrary: p q ws G and p q ws b G rule: dfs_block_dfs_list.induct)
  case (2 s k b V)
  from "2.prems"(1) obtain p' q' where r: "dfs_list s k (s b) (insert b V) = Some (p', q')"
    and pq: "p = b # p'" "q = q' @ [b]" by auto
  show ?case
  proof (cases "x = b")
    case True
    with "2.prems" show ?thesis by (auto simp: sdom_def dominates_def)
  next
    case False
    with "2.prems"(5) pq have x: "x \<in> set p'" by simp
    from "2.IH" [OF r "2.prems"(3,4) subset_refl x "2.prems"(6)]
    have "d = b \<or> d \<in> G \<or> (before p' d x \<and> before q' x d)" by blast
    moreover have "x \<in> set q'" using x dfs_sets(2) [OF r] by simp
    ultimately show ?thesis using x unfolding pq by (auto intro: before_intros)
  qed
next
  case (4 s k n ns V)
  show ?case
  proof (cases "n \<in> V")
    case True
    with 4 show ?thesis by simp
  next
    case False
    with "4.prems"(1) obtain p1 q1 p2 q2 where r: "dfs_block s k n V = Some (p1, q1)"
      "dfs_list s k ns (V \<union> set p1) = Some (p2, q2)" and pq: "p = p1 @ p2" "q = q1 @ q2" by auto
    have w: "walk s r (ws @ [n]) n" "set (r # ws @ [n]) \<subseteq> insert n G"
      using "4.prems"(2-4) by (auto simp: walk_snoc)
    from "4.prems"(5) consider "x \<in> set p1" | "x \<in> set p2" unfolding pq by auto
    then show ?thesis
    proof cases
      case 1
      from "4.IH"(2) [OF False r(1) False w 1 "4.prems"(6)] show ?thesis
        unfolding pq by (auto intro: before_intros)
    next
      case 2
      from "4.IH"(3) [OF False r(1) refl r(2) "4.prems"(2,3) _ 2 "4.prems"(6)] "4.prems"(4) show ?thesis
        unfolding pq by (auto intro: before_intros)
    qed
  qed
qed auto

section \<open>The searches of the source\<close>

definition succs_of :: "CFG \<Rightarrow> nat \<Rightarrow> nat list" where
  "succs_of g i = Succs (block g i)"

definition marked :: "CFG \<Rightarrow> nat set" where
  "marked g = {i. VisitedMap g i \<noteq> 0}"

definition mark_all :: "nat list \<Rightarrow> CFG \<Rightarrow> CFG" where
  "mark_all bs g = g\<lparr>VisitedMap := (\<lambda>i. if i \<in> set bs then 1 else VisitedMap g i)\<rparr>"

lemma mark_all_simps [simp]:
  "BasicBlocks (mark_all bs g) = BasicBlocks g" "succs_of (mark_all bs g) = succs_of g"
  "marked (mark_all bs g) = marked g \<union> set bs" "InPredOrder (mark_all bs g) = InPredOrder g"
  "InPostOrder (mark_all bs g) = InPostOrder g" "DominanceFrontier (mark_all bs g) = DominanceFrontier g"
  "mark_all [] g = g"
  by (auto simp: mark_all_def marked_def succs_of_def block_def fun_eq_iff)

lemma mark_all_append: "mark_all (as @ bs) g = mark_all bs (mark_all as g)"
  by (auto simp: mark_all_def fun_eq_iff)

lemma mark_one: "g\<lparr>VisitedMap := (VisitedMap g)(b := 1)\<rparr> = mark_all [b] g"
  by (auto simp: mark_all_def fun_eq_iff fun_upd_def)

text \<open>
  The contract of the actions on entry and exit: \<open>rec ps qs\<close> is the effect of entering the blocks \<open>ps\<close>
  and leaving the blocks \<open>qs\<close>; it does not touch the graph nor the marks, and the order of entries
  among exits does not matter.
\<close>

locale dfs_record =
  fixes enter leave :: "nat \<Rightarrow> CFG \<Rightarrow> CFG" and rec :: "nat list \<Rightarrow> nat list \<Rightarrow> CFG \<Rightarrow> CFG"
  assumes rec_Nil: "rec [] [] g = g"
    and rec_append: "rec (ps @ ps') (qs @ qs') g = rec ps' qs' (rec ps qs g)"
    and enter_rec: "enter b g = rec [b] [] g"
    and leave_rec: "leave b g = rec [] [b] g"
    and rec_blocks: "BasicBlocks (rec ps qs g) = BasicBlocks g"
    and rec_visited: "VisitedMap (rec ps qs g) = VisitedMap g"
    and rec_mark: "mark_all bs (rec ps qs g) = rec ps qs (mark_all bs g)"
begin

lemma rec_succs: "succs_of (rec ps qs g) = succs_of g" "marked (rec ps qs g) = marked g"
  by (simp_all add: succs_of_def block_def fun_eq_iff rec_blocks marked_def rec_visited)

lemma dfs_succs_result:
  assumes "\<And>b g. dfs_visit enter leave k b g =
    map_option (\<lambda>(p, q). rec p q (mark_all p g)) (dfs_block (succs_of g) k b (marked g))"
  shows "dfs_succs enter leave k ns g =
    map_option (\<lambda>(p, q). rec p q (mark_all p g)) (dfs_list (succs_of g) k ns (marked g))"
proof (induction ns arbitrary: g)
  case (Cons n ns)
  show ?case
  proof (cases "n \<in> marked g")
    case False
    then have v: "VisitedMap g n = 0" by (simp add: marked_def)
    show ?thesis
    proof (cases "dfs_block (succs_of g) k n (marked g)")
      case (Some r)
      obtain p q where r: "r = (p, q)" by (cases r)
      with Some False v show ?thesis
        by (cases "dfs_list (succs_of g) k ns (marked g \<union> set p)")
          (auto simp: assms Cons.IH rec_append mark_all_append rec_mark rec_succs)
    qed (use False v in \<open>simp add: assms\<close>)
  qed (simp add: marked_def Cons.IH)
qed (simp add: rec_Nil)

lemma dfs_visit_result:
  "dfs_visit enter leave k b g =
     map_option (\<lambda>(p, q). rec p q (mark_all p g)) (dfs_block (succs_of g) k b (marked g))"
proof (induction k arbitrary: b g)
  case (Suc k)
  have r1: "rec (b # p) (q @ [b]) g = rec [] [b] (rec p q (rec [b] [] g))" for p q g
    using rec_append [of "[b] @ p" "[]" q "[b]" g] rec_append [of "[b]" p "[]" q g] by simp
  have m: "mark_all (b # p) g = mark_all p (mark_all [b] g)" for p
    using mark_all_append [of "[b]" p g] by simp
  let ?l = "dfs_list (succs_of g) k (succs_of g b) (insert b (marked g))"
  have "dfs_succs enter leave k (Succs (block g b)) (enter b (g\<lparr>VisitedMap := (VisitedMap g)(b := 1)\<rparr>)) =
      map_option (\<lambda>(p, q). rec p q (mark_all p (rec [b] [] (mark_all [b] g)))) ?l"
    by (simp add: mark_one enter_rec dfs_succs_result [OF Suc.IH] rec_succs succs_of_def [of g b])
  moreover have "leave b (rec p q (mark_all p (rec [b] [] (mark_all [b] g)))) =
      rec (b # p) (q @ [b]) (mark_all (b # p) g)" for p q
    by (simp only: r1 [of p q] m [of p] rec_mark leave_rec)
  ultimately show ?case by (cases ?l) auto
qed simp

text \<open>With enough fuel the search returns the state after entering and leaving the new blocks.\<close>

lemma dfs_visit_total:
  assumes "\<forall>x < length (BasicBlocks g). set (succs_of g x) \<subseteq> {..<length (BasicBlocks g)}"
    "b < length (BasicBlocks g)" "b \<notin> marked g"
  shows "\<exists>p q. dfs_block (succs_of g) (Suc (length (BasicBlocks g))) b (marked g) = Some (p, q) \<and>
    dfs_visit enter leave (Suc (length (BasicBlocks g))) b g = Some (rec p q (mark_all p g))"
proof -
  let ?N = "length (BasicBlocks g)"
  have "card ({..<?N} - marked g) \<le> card {..<?N}" by (intro card_mono) auto
  then have "card ({..<?N} - marked g) \<le> Suc ?N" by simp
  from dfs_total(1) [OF assms this] obtain p q where
    "dfs_block (succs_of g) (Suc ?N) b (marked g) = Some (p, q)" by auto
  then show ?thesis using dfs_visit_result [of "Suc ?N" b g] by auto
qed

end

interpretation pre_order: dfs_record push_InPredOrder no_action
  "\<lambda>ps qs g. g\<lparr>InPredOrder := InPredOrder g @ ps\<rparr>"
  by unfold_locales (auto simp: push_InPredOrder_def no_action_def mark_all_def intro!: CFG.equality)

interpretation post_order: dfs_record no_action push_InPostOrder
  "\<lambda>ps qs g. g\<lparr>InPostOrder := InPostOrder g @ qs\<rparr>"
  by unfold_locales (auto simp: push_InPostOrder_def no_action_def mark_all_def intro!: CFG.equality)

interpretation dom_search: dfs_record no_action no_action "\<lambda>ps qs g. g"
  by unfold_locales (simp_all add: no_action_def)

end
