(* ===== verification/Ssa_Dominators.thy ===== *)
theory Ssa_Dominators
  imports Ssa_Dfs
begin

text \<open>
  The analyses of \<open>CFG::CommitAllChanges\<close>: the two orders, the dominator tree and the dominance
  frontiers that the code computes are those of the specification in \<open>Dominance\<close>, for every graph
  whose blocks are all reachable from the entry.
\<close>

section \<open>The orders\<close>

definition graph_ok :: "CFG \<Rightarrow> bool" where
  "graph_ok g \<longleftrightarrow> BasicBlocks g \<noteq> [] \<and>
     (\<forall>x < length (BasicBlocks g). set (succs_of g x) \<subseteq> {..<length (BasicBlocks g)})"

definition dfs_orders :: "CFG \<Rightarrow> nat list \<Rightarrow> nat list \<Rightarrow> bool" where
  "dfs_orders g p q \<longleftrightarrow> dfs_block (succs_of g) (Suc (length (BasicBlocks g))) 0 {} = Some (p, q)"

lemma marked_clear [simp]: "marked (g\<lparr>VisitedMap := (\<lambda>_. 0)\<rparr>) = {}"
  by (simp add: marked_def)

lemma succs_visited [simp]: "succs_of (g\<lparr>VisitedMap := m\<rparr>) = succs_of g"
  by (simp add: succs_of_def block_def fun_eq_iff)

lemma dfs_orders_exist:
  assumes "graph_ok g"
  shows "\<exists>p q. dfs_orders g p q"
proof -
  have "card ({..<length (BasicBlocks g)} - {}) \<le> Suc (length (BasicBlocks g))" by simp
  with assms dfs_total(1) [of "length (BasicBlocks g)" "succs_of g" 0 "{}"]
  show ?thesis by (auto simp: graph_ok_def dfs_orders_def simp del: dfs_block.simps)
qed

lemma compute_orders:
  assumes "graph_ok g" "dfs_orders g p q"
  shows "InPredOrder g = [] \<Longrightarrow>
      \<exists>m. ComputePredOrder g = Some (g\<lparr>VisitedMap := m, InPredOrder := p\<rparr>)"
    and "InPostOrder g = [] \<Longrightarrow>
      \<exists>m. ComputePostOrder g = Some (g\<lparr>VisitedMap := m, InPostOrder := q\<rparr>)"
proof -
  let ?g = "g\<lparr>VisitedMap := (\<lambda>_. 0)\<rparr>"
  have ok: "\<forall>x < length (BasicBlocks ?g). set (succs_of ?g x) \<subseteq> {..<length (BasicBlocks ?g)}"
    "0 < length (BasicBlocks ?g)" "0 \<notin> marked ?g"
    using assms(1) by (auto simp: graph_ok_def)
  show "\<exists>m. ComputePredOrder g = Some (g\<lparr>VisitedMap := m, InPredOrder := p\<rparr>)" if "InPredOrder g = []"
    using pre_order.dfs_visit_total [OF ok] assms that
    by (auto simp: ComputePredOrder_def front_block_def graph_ok_def PredOrderDFS_def dfs_orders_def mark_all_def)
  show "\<exists>m. ComputePostOrder g = Some (g\<lparr>VisitedMap := m, InPostOrder := q\<rparr>)" if "InPostOrder g = []"
    using post_order.dfs_visit_total [OF ok] assms that
    by (auto simp: ComputePostOrder_def front_block_def graph_ok_def PostOrderDFS_def dfs_orders_def mark_all_def)
qed

lemma order_facts:
  assumes "dfs_orders g p q"
  shows "x \<in> set p \<longleftrightarrow> reachable_from (succs_of g) 0 x" "set q = set p" "distinct p" "distinct q"
    "hd p = 0" "p \<noteq> []"
    "reachable_from (succs_of g) 0 x \<Longrightarrow> sdom (succs_of g) 0 d x \<Longrightarrow> before p d x \<and> before q x d"
proof -
  note d = assms [unfolded dfs_orders_def]
  show m: "x \<in> set p \<longleftrightarrow> reachable_from (succs_of g) 0 x"
    using dfs_block_reach [OF d] by (simp add: reachable_from_def)
  show "set q = set p" "distinct p" "distinct q" using dfs_sets(1) [OF d] by auto
  show "hd p = 0" "p \<noteq> []" using d by auto
  show "before p d x \<and> before q x d" if "reachable_from (succs_of g) 0 x" "sdom (succs_of g) 0 d x"
    using dfs_dominators(1) [OF d, of 0 "[]" "{}" x d] that m by auto
qed

text \<open>Every reachable block but the entry has an immediate dominator.\<close>

lemma idom_exists:
  assumes "dfs_orders g p q" "reachable_from (succs_of g) 0 v" "v \<noteq> 0"
  shows "\<exists>d. idom (succs_of g) 0 d v"
proof -
  let ?s = "succs_of g"
  let ?D = "{d. sdom ?s 0 d v}"
  have "?D \<subseteq> set p"
    using assms order_facts(1) [OF assms(1)] dominator_reachable by (auto simp: sdom_def)
  then have fin: "finite ?D" by (rule finite_subset) simp
  have "0 \<in> ?D" using assms(3) by (simp add: sdom_def)
  then have "Max (rank p ` ?D) \<in> rank p ` ?D" using fin by (intro Max_in) auto
  then obtain d where d: "d \<in> ?D" "rank p d = Max (rank p ` ?D)" by (elim imageE) simp
  have max: "rank p e \<le> rank p d" if "e \<in> ?D" for e unfolding d(2) using fin that by simp
  have "dominates ?s 0 e d" if e: "sdom ?s 0 e v" for e
  proof (rule ccontr)
    assume n: "\<not> dominates ?s 0 e d"
    then have "dominates ?s 0 d e" using dominates_chain [of ?s 0 e v d] e d(1) assms(2) by (auto simp: sdom_def)
    moreover have "d \<noteq> e" using n by auto
    moreover have "reachable_from ?s 0 e" using e assms(2) dominator_reachable by (auto simp: sdom_def)
    ultimately have "before p d e" using order_facts(7) [OF assms(1)] by (simp add: sdom_def)
    then have "rank p d < rank p e" by (rule before_rank [OF order_facts(3) [OF assms(1)]])
    with max [of e] e show False by simp
  qed
  with d(1) show ?thesis by (auto simp: idom_def)
qed

section \<open>The dominator tree\<close>

text \<open>Two states of the analysis that differ in the dominators and the marks only.\<close>

definition dom_frame :: "CFG \<Rightarrow> CFG \<Rightarrow> bool" where
  "dom_frame g g' \<longleftrightarrow> length (BasicBlocks g') = length (BasicBlocks g) \<and>
     InPredOrder g' = InPredOrder g \<and> InPostOrder g' = InPostOrder g \<and>
     DominanceFrontier g' = DominanceFrontier g \<and>
     (\<forall>i < length (BasicBlocks g).
        (block g' i)\<lparr>Dominator := None\<rparr> = (block g i)\<lparr>Dominator := None\<rparr>)"

lemma dom_frame_refl [simp]: "dom_frame g g" "dom_frame g (g\<lparr>VisitedMap := m\<rparr>)" "dom_frame g (mark_all bs g)"
  by (simp_all add: dom_frame_def block_def)

lemma dom_frame_trans: "dom_frame g h \<Longrightarrow> dom_frame h k \<Longrightarrow> dom_frame g k"
  by (simp add: dom_frame_def)

lemma dom_frame_succs: "dom_frame g g' \<Longrightarrow> i < length (BasicBlocks g) \<Longrightarrow> succs_of g' i = succs_of g i"
  unfolding dom_frame_def succs_of_def by (metis CFGBlock.select_convs(4) CFGBlock.surjective CFGBlock.update_convs(6))

lemma dom_frame_set:
  "i < length (BasicBlocks g) \<Longrightarrow> dom_frame g (on_block i (\<lambda>b. b\<lparr>Dominator := d\<rparr>) g)"
  by (auto simp: dom_frame_def on_block_def block_def nth_list_update)

lemma block_on_block: "i < length (BasicBlocks g) \<Longrightarrow>
    block (on_block i f g) j = (if j = i then f (block g i) else block g j)"
  by (simp add: block_def on_block_def nth_list_update)

lemma on_block_simps [simp]:
  "length (BasicBlocks (on_block i f g)) = length (BasicBlocks g)"
  "VisitedMap (on_block i f g) = VisitedMap g" "InPredOrder (on_block i f g) = InPredOrder g"
  "InPostOrder (on_block i f g) = InPostOrder g" "DominanceFrontier (on_block i f g) = DominanceFrontier g"
  by (simp_all add: on_block_def)

lemma set_dominators:
  assumes "set js \<subseteq> {..<length (BasicBlocks g)}"
  shows "dom_frame g (foldl (set_dominator It) g js) \<and>
    VisitedMap (foldl (set_dominator It) g js) = VisitedMap g \<and>
    (\<forall>i. Dominator (block (foldl (set_dominator It) g js) i) =
       (if i \<in> set js \<and> VisitedMap g i = 0 then Some It else Dominator (block g i)))"
  using assms
proof (induction js arbitrary: g)
  case (Cons j js)
  let ?g = "set_dominator It g j"
  have j: "j < length (BasicBlocks g)" using Cons.prems by simp
  then have f: "dom_frame g ?g" "VisitedMap ?g = VisitedMap g" "length (BasicBlocks ?g) = length (BasicBlocks g)"
    by (auto simp: set_dominator_def dom_frame_set)
  have "Dominator (block ?g i) = (if i = j \<and> VisitedMap g j = 0 then Some It else Dominator (block g i))" for i
    using j by (simp add: set_dominator_def block_on_block)
  with Cons.IH [of ?g] Cons.prems f show ?case by (auto intro: dom_frame_trans)
qed simp

text \<open>After the search that starts with \<open>It\<close> marked, the unmarked blocks are those \<open>It\<close> strictly dominates.\<close>

lemma dom_search_marks:
  assumes "graph_ok g" "It < length (BasicBlocks g)"
  shows "\<exists>h. DomDFS 0 (g\<lparr>VisitedMap := (\<lambda>_. 0)(It := 1)\<rparr>) = Some h \<and> dom_frame g h \<and>
    (\<forall>i. Dominator (block h i) = Dominator (block g i)) \<and>
    (\<forall>j. reachable_from (succs_of g) 0 j \<longrightarrow> (VisitedMap h j = 0 \<longleftrightarrow> sdom (succs_of g) 0 It j))"
proof (cases "It = 0")
  case True
  then show ?thesis by (auto simp: DomDFS_def sdom_def block_def)
next
  case False
  let ?g = "g\<lparr>VisitedMap := (\<lambda>_. 0)(It := 1)\<rparr>"
  have mk: "marked ?g = {It}" by (auto simp: marked_def)
  have ok: "\<forall>x < length (BasicBlocks ?g). set (succs_of ?g x) \<subseteq> {..<length (BasicBlocks ?g)}"
    "0 < length (BasicBlocks ?g)" "0 \<notin> marked ?g"
    using assms(1) False by (auto simp: graph_ok_def mk)
  from dom_search.dfs_visit_total [OF ok] obtain p q where
    r: "dfs_block (succs_of g) (Suc (length (BasicBlocks g))) 0 {It} = Some (p, q)"
      "DomDFS 0 ?g = Some (mark_all p ?g)"
    using False by (auto simp: mk DomDFS_def)
  have "VisitedMap (mark_all p ?g) j = 0 \<longleftrightarrow> sdom (succs_of g) 0 It j" for j
    using dfs_block_reach [OF r(1), of j] False
    by (auto simp: mark_all_def sdom_def dominates_def)
  then show ?thesis using r(2) by (auto simp: dom_frame_def block_def mark_all_def)
qed

definition last_sdom :: "CFG \<Rightarrow> nat \<Rightarrow> nat option \<Rightarrow> nat list \<Rightarrow> nat option" where
  "last_sdom g j d its = foldl (\<lambda>d It. if sdom (succs_of g) 0 It j then Some It else d) d its"

lemma walk_in_graph:
  assumes "graph_ok g" "walk (succs_of g) u ws v" "u < length (BasicBlocks g)"
  shows "set (u # ws) \<subseteq> {..<length (BasicBlocks g)}"
  using assms(2,3)
proof (induction ws arbitrary: u)
  case (Cons w ws)
  then have "w < length (BasicBlocks g)" using assms(1) by (auto simp: graph_ok_def)
  with Cons show ?case by auto
qed simp

lemma walk_frame:
  assumes "graph_ok g" "dom_frame g h" "u < length (BasicBlocks g)"
  shows "walk (succs_of h) u ws v \<longleftrightarrow> walk (succs_of g) u ws v"
  using assms(3)
proof (induction ws arbitrary: u)
  case (Cons w ws)
  have "w < length (BasicBlocks g)" if "w \<in> set (succs_of g u)"
    using that Cons.prems assms(1) by (auto simp: graph_ok_def)
  with Cons show ?case by (auto simp: dom_frame_succs [OF assms(2)])
qed simp

lemma dom_frame_spec:
  assumes "graph_ok g" "dom_frame g h"
  shows "graph_ok h" "reachable_from (succs_of h) 0 = reachable_from (succs_of g) 0"
    "sdom (succs_of h) 0 = sdom (succs_of g) 0" "last_sdom h = last_sdom g"
proof -
  have n: "0 < length (BasicBlocks g)" using assms(1) by (simp add: graph_ok_def)
  show "graph_ok h" using assms by (auto simp: graph_ok_def dom_frame_succs [OF assms(2)] dom_frame_def)
  show "reachable_from (succs_of h) 0 = reachable_from (succs_of g) 0"
    by (simp add: fun_eq_iff reachable_from_def walk_frame [OF assms n])
  show "sdom (succs_of h) 0 = sdom (succs_of g) 0"
    by (simp add: fun_eq_iff sdom_def dominates_def walk_frame [OF assms n])
  then show "last_sdom h = last_sdom g" by (simp add: fun_eq_iff last_sdom_def)
qed

lemma dominator_loop_result:
  assumes "graph_ok g" "set its \<subseteq> {..<length (BasicBlocks g)}" "InPredOrder g = p" "p \<noteq> []" "hd p = 0"
    "set p = Collect (reachable_from (succs_of g) 0)" "set p \<subseteq> {..<length (BasicBlocks g)}"
  shows "\<exists>h. dominator_loop its g = Some h \<and> dom_frame g h \<and>
    (\<forall>j \<in> set p. Dominator (block h j) = last_sdom g j (Dominator (block g j)) its)"
  using assms
proof (induction its arbitrary: g)
  case (Cons It its)
  from dom_search_marks [of g It] Cons.prems obtain g1 where
    g1: "DomDFS 0 (g\<lparr>VisitedMap := (\<lambda>_. 0)(It := 1)\<rparr>) = Some g1" "dom_frame g g1"
      "\<And>i. Dominator (block g1 i) = Dominator (block g i)"
      "\<And>j. j \<in> set p \<Longrightarrow> VisitedMap g1 j = 0 \<longleftrightarrow> sdom (succs_of g) 0 It j" by auto
  have p1: "InPredOrder g1 = p" "length (BasicBlocks g1) = length (BasicBlocks g)"
    using g1(2) Cons.prems(3) by (auto simp: dom_frame_def)
  let ?g2 = "foldl (set_dominator It) g1 (InPredOrder g1)"
  have g2: "dom_frame g1 ?g2" "\<And>i. Dominator (block ?g2 i) =
      (if i \<in> set p \<and> VisitedMap g1 i = 0 then Some It else Dominator (block g1 i))"
    using set_dominators [of p g1 It] Cons.prems(7) p1 by auto
  have f: "dom_frame g ?g2" using g1(2) g2(1) by (rule dom_frame_trans)
  note spec = dom_frame_spec [OF Cons.prems(1) f]
  have "length (BasicBlocks ?g2) = length (BasicBlocks g)" "InPredOrder ?g2 = p"
    using f Cons.prems(3) by (auto simp: dom_frame_def)
  with Cons.IH [of ?g2] Cons.prems spec obtain h where
    h: "dominator_loop its ?g2 = Some h" "dom_frame ?g2 h"
      "\<forall>j \<in> set p. Dominator (block h j) = last_sdom g j (Dominator (block ?g2 j)) its" by auto
  have "dominator_loop (It # its) g = Some h" using g1(1) h(1) Cons.prems(3,5) by (simp add: dominator_step_def)
  moreover have "dom_frame g h" using f h(2) by (rule dom_frame_trans)
  moreover have "\<forall>j \<in> set p. Dominator (block h j) = last_sdom g j (Dominator (block g j)) (It # its)"
    using h(3) g2(2) g1(3,4) by (simp add: last_sdom_def)
  ultimately show ?case by blast
qed (simp add: last_sdom_def)

text \<open>The last strict dominator in the order of the search is the immediate one.\<close>

lemma last_sdom_cases:
  "(\<exists>us d vs. its = us @ d # vs \<and> sdom (succs_of g) 0 d j \<and> (\<forall>e \<in> set vs. \<not> sdom (succs_of g) 0 e j) \<and>
      last_sdom g j old its = Some d) \<or>
   ((\<forall>e \<in> set its. \<not> sdom (succs_of g) 0 e j) \<and> last_sdom g j old its = old)"
proof (induction its rule: rev_induct)
  case (snoc It its)
  show ?case
  proof (cases "sdom (succs_of g) 0 It j")
    case True
    then show ?thesis by (intro disjI1 exI [of _ its] exI [of _ It] exI [of _ "[]"]) (simp add: last_sdom_def)
  next
    case False
    then have "last_sdom g j old (its @ [It]) = last_sdom g j old its" by (simp add: last_sdom_def)
    with snoc False show ?thesis by (elim disjE exE conjE) (auto intro!: exI)
  qed
qed (simp add: last_sdom_def)

lemma last_sdom_idom:
  assumes "dfs_orders g p q" "reachable_from (succs_of g) 0 j" "j \<noteq> 0"
  shows "\<exists>d. last_sdom g j old p = Some d \<and> idom (succs_of g) 0 d j"
proof -
  let ?s = "succs_of g"
  obtain d where d: "idom ?s 0 d j" using idom_exists [OF assms] by blast
  then have dj: "sdom ?s 0 d j" by (simp add: idom_def)
  then have "reachable_from ?s 0 d" using assms(2) dominator_reachable by (auto simp: sdom_def)
  then have dp: "d \<in> set p" using order_facts(1) [OF assms(1)] by simp
  with last_sdom_cases [of p g j old] dj obtain us e vs where
    e: "p = us @ e # vs" "sdom ?s 0 e j" "\<forall>x \<in> set vs. \<not> sdom ?s 0 x j" "last_sdom g j old p = Some e"
    by blast
  have "e = d"
  proof (rule ccontr)
    assume "e \<noteq> d"
    with dp dj e have "d \<in> set us" by auto
    then have "before p d e" unfolding e(1) by (rule before_mid)
    moreover have "before p e d"
      using sdom_idom [OF d e(2)] \<open>e \<noteq> d\<close> order_facts(7) [OF assms(1) \<open>reachable_from ?s 0 d\<close>] by auto
    ultimately show False using before_rank [OF order_facts(3) [OF assms(1)]] less_asym by blast
  qed
  with d e(4) show ?thesis by blast
qed

text \<open>The lists of dominated blocks.\<close>

definition tree_frame :: "CFG \<Rightarrow> CFG \<Rightarrow> bool" where
  "tree_frame g g' \<longleftrightarrow> length (BasicBlocks g') = length (BasicBlocks g) \<and>
     InPredOrder g' = InPredOrder g \<and> InPostOrder g' = InPostOrder g \<and>
     DominanceFrontier g' = DominanceFrontier g \<and>
     (\<forall>i < length (BasicBlocks g).
        (block g' i)\<lparr>DominatingBlocks := []\<rparr> = (block g i)\<lparr>DominatingBlocks := []\<rparr>)"

lemma tree_frame_fields:
  assumes "tree_frame g g'" "i < length (BasicBlocks g)"
  shows "Succs (block g' i) = Succs (block g i)" "Preds (block g' i) = Preds (block g i)"
    "Statements (block g' i) = Statements (block g i)" "Dominator (block g' i) = Dominator (block g i)"
proof -
  have "(block g' i)\<lparr>DominatingBlocks := []\<rparr> = (block g i)\<lparr>DominatingBlocks := []\<rparr>"
    using assms by (simp add: tree_frame_def)
  then show "Succs (block g' i) = Succs (block g i)" "Preds (block g' i) = Preds (block g i)"
    "Statements (block g' i) = Statements (block g i)" "Dominator (block g' i) = Dominator (block g i)"
    by (cases "block g' i", cases "block g i", simp)+
qed

lemma dominating_loop_result:
  assumes "set vs \<subseteq> {..<length (BasicBlocks g)}"
    "\<forall>v \<in> set vs. \<forall>d. Dominator (block g v) = Some d \<longrightarrow> d < length (BasicBlocks g)"
  shows "\<exists>h. dominating_loop vs g = Some h \<and> tree_frame g h \<and>
    (\<forall>d < length (BasicBlocks g). DominatingBlocks (block h d) =
       DominatingBlocks (block g d) @ filter (\<lambda>v. Dominator (block g v) = Some d) vs)"
  using assms
proof (induction vs arbitrary: g)
  case (Cons v vs)
  show ?case
  proof (cases "Dominator (block g v)")
    case None
    with Cons.IH [of g] Cons.prems show ?thesis by auto
  next
    case (Some d)
    with Cons.prems have d: "d < length (BasicBlocks g)" by auto
    let ?g = "on_block d (\<lambda>b. b\<lparr>DominatingBlocks := DominatingBlocks b @ [v]\<rparr>) g"
    have f: "tree_frame g ?g" using d by (auto simp: tree_frame_def block_on_block)
    have dm: "Dominator (block ?g i) = Dominator (block g i)" for i using d by (simp add: block_on_block)
    from Cons.IH [of ?g] Cons.prems dm obtain h where h: "dominating_loop vs ?g = Some h" "tree_frame ?g h"
      "\<forall>e < length (BasicBlocks g). DominatingBlocks (block h e) =
         DominatingBlocks (block ?g e) @ filter (\<lambda>v. Dominator (block g v) = Some e) vs" by auto
    have "tree_frame g h" using f h(2) by (auto simp: tree_frame_def)
    moreover have "dominating_loop (v # vs) g = Some h" using Some d h(1) by simp
    ultimately show ?thesis using h(3) d Some by (auto simp: block_on_block)
  qed
qed (simp add: tree_frame_def)

text \<open>A graph as the builder leaves it: nothing computed yet, every block reachable, the entry's pointer null.\<close>

definition fresh_graph :: "CFG \<Rightarrow> bool" where
  "fresh_graph g \<longleftrightarrow> graph_ok g \<and> InPredOrder g = [] \<and> InPostOrder g = [] \<and> DominanceFrontier g = [] \<and>
     (\<forall>i < length (BasicBlocks g). DominatingBlocks (block g i) = [] \<and> reachable_from (succs_of g) 0 i)"

text \<open>What the analyses leave untouched.\<close>

definition same_code :: "CFG \<Rightarrow> CFG \<Rightarrow> bool" where
  "same_code g h \<longleftrightarrow> length (BasicBlocks h) = length (BasicBlocks g) \<and>
     (\<forall>i < length (BasicBlocks g). Succs (block h i) = Succs (block g i) \<and>
        Preds (block h i) = Preds (block g i) \<and> Statements (block h i) = Statements (block g i))"

definition tree_ok :: "CFG \<Rightarrow> CFG \<Rightarrow> bool" where
  "tree_ok g h \<longleftrightarrow> Dominator (block h 0) = None \<and>
     (\<forall>i < length (BasicBlocks g). \<forall>d. Dominator (block h i) = Some d \<longleftrightarrow> idom (succs_of g) 0 d i) \<and>
     (\<forall>d < length (BasicBlocks g). DominatingBlocks (block h d) =
        filter (\<lambda>v. idom (succs_of g) 0 d v) [0..<length (BasicBlocks g)])"

lemma reachable_blocks:
  assumes "fresh_graph g"
  shows "reachable_from (succs_of g) 0 i \<longleftrightarrow> i < length (BasicBlocks g)"
proof
  assume "reachable_from (succs_of g) 0 i"
  then obtain ws where ws: "walk (succs_of g) 0 ws i" by (auto simp: reachable_from_def)
  with assms walk_in_graph [of g 0 ws i] walk_last [OF ws] show "i < length (BasicBlocks g)"
    by (auto simp: fresh_graph_def graph_ok_def)
qed (use assms in \<open>simp add: fresh_graph_def\<close>)

lemma idom_below:
  assumes "fresh_graph g" "idom (succs_of g) 0 d v" "v < length (BasicBlocks g)"
  shows "d < length (BasicBlocks g)"
  using assms dominator_reachable [of "succs_of g" 0 d v] reachable_blocks [OF assms(1)]
  by (auto simp: idom_def sdom_def)

lemma entry_no_idom: "\<not> idom s r d r"
  using entry_no_sdom by (simp add: idom_def)

lemma dominator_loop_tree:
  assumes "fresh_graph g" "dfs_orders g p q" "Dominator (block g 0) = None"
    and k: "BasicBlocks k = BasicBlocks g" "InPredOrder k = p"
  shows "\<exists>h. dominator_loop p k = Some h \<and> dom_frame k h \<and> Dominator (block h 0) = None \<and>
    (\<forall>i < length (BasicBlocks g). \<forall>d. Dominator (block h i) = Some d \<longleftrightarrow> idom (succs_of g) 0 d i)"
proof -
  have s1: "succs_of k = succs_of g" "\<And>i. block k i = block g i"
    by (simp_all add: succs_of_def block_def k fun_eq_iff)
  from s1(1) have "last_sdom k = last_sdom g" by (intro ext) (simp add: last_sdom_def)
  note s = s1 this
  have ok: "graph_ok k" using assms(1) by (simp add: fresh_graph_def graph_ok_def k s)
  have p: "set p = {..<length (BasicBlocks g)}"
    using order_facts(1) [OF assms(2)] reachable_blocks [OF assms(1)] by auto
  have r: "set p = Collect (reachable_from (succs_of k) 0)"
    using order_facts(1) [OF assms(2)] by (auto simp: s)
  have sub: "set p \<subseteq> {..<length (BasicBlocks k)}" using p k(1) by simp
  from dominator_loop_result [OF ok sub k(2) order_facts(6,5) [OF assms(2)] r sub] obtain h where
    h: "dominator_loop p k = Some h" "dom_frame k h"
      "\<forall>j \<in> set p. Dominator (block h j) = last_sdom g j (Dominator (block g j)) p"
    by (auto simp: s)
  have "last_sdom g 0 None p = None"
    using last_sdom_cases [of p g 0 None] entry_no_sdom by blast
  moreover have "0 \<in> set p" using p assms(1) by (simp add: fresh_graph_def graph_ok_def)
  ultimately have zero: "Dominator (block h 0) = None" using h(3) assms(3) by simp
  moreover have "Dominator (block h i) = Some d \<longleftrightarrow> idom (succs_of g) 0 d i"
    if i: "i < length (BasicBlocks g)" for i d
  proof (cases "i = 0")
    case False
    have ri: "reachable_from (succs_of g) 0 i" using reachable_blocks [OF assms(1)] i by simp
    from last_sdom_idom [OF assms(2) ri False] h(3) i p obtain e where
      "Dominator (block h i) = Some e" "idom (succs_of g) 0 e i" by fastforce
    then show ?thesis using idom_unique [OF _ _ ri] by auto
  qed (use zero entry_no_idom in auto)
  ultimately show ?thesis using h(1,2) by blast
qed

lemma compute_tree:
  assumes "fresh_graph g" "dfs_orders g p q" "Dominator (block g 0) = None"
    and k: "BasicBlocks k = BasicBlocks g" "InPredOrder k = p" "DominanceFrontier k = []"
  shows "\<exists>h. ComputeDominatorTree k = Some h \<and> same_code g h \<and> tree_ok g h \<and>
    InPredOrder h = p \<and> InPostOrder h = InPostOrder k \<and> DominanceFrontier h = []"
proof -
  let ?N = "length (BasicBlocks g)"
  have bk: "block k = block g" by (simp add: block_def k fun_eq_iff)
  from dominator_loop_tree [OF assms(1-3) k(1,2)] obtain h where
    h: "dominator_loop p k = Some h" "dom_frame k h" "Dominator (block h 0) = None"
      "\<forall>i < ?N. \<forall>d. Dominator (block h i) = Some d \<longleftrightarrow> idom (succs_of g) 0 d i" by blast
  have hl: "length (BasicBlocks h) = ?N" "InPredOrder h = p" "InPostOrder h = InPostOrder k"
    "DominanceFrontier h = []" using h(2) k by (auto simp: dom_frame_def)
  have hb: "Succs (block h i) = Succs (block g i)" "Preds (block h i) = Preds (block g i)"
    "Statements (block h i) = Statements (block g i)" "DominatingBlocks (block h i) = []" if "i < ?N" for i
  proof -
    have "(block h i)\<lparr>Dominator := None\<rparr> = (block g i)\<lparr>Dominator := None\<rparr>"
      using h(2) that k(1) bk by (simp add: dom_frame_def)
    moreover have "DominatingBlocks (block g i) = []" using assms(1) that by (simp add: fresh_graph_def)
    ultimately show "Succs (block h i) = Succs (block g i)" "Preds (block h i) = Preds (block g i)"
      "Statements (block h i) = Statements (block g i)" "DominatingBlocks (block h i) = []"
      by (cases "block h i", cases "block g i", simp)+
  qed
  have below: "\<forall>v \<in> set [0..<?N]. \<forall>d. Dominator (block h v) = Some d \<longrightarrow> d < length (BasicBlocks h)"
    using h(4) hl(1) idom_below [OF assms(1)] by auto
  have vs: "set [0..<?N] \<subseteq> {..<length (BasicBlocks h)}" using hl(1) by auto
  from dominating_loop_result [OF vs below] hl(1) obtain t where
    t: "dominating_loop [0..<?N] h = Some t" "tree_frame h t"
      "\<forall>d < ?N. DominatingBlocks (block t d) =
         DominatingBlocks (block h d) @ filter (\<lambda>v. Dominator (block h v) = Some d) [0..<?N]"
    by auto
  have tl: "length (BasicBlocks t) = ?N" "InPredOrder t = p" "InPostOrder t = InPostOrder k"
    "DominanceFrontier t = []" using t(2) hl by (auto simp: tree_frame_def)
  have tb: "Succs (block t i) = Succs (block g i)" "Preds (block t i) = Preds (block g i)"
    "Statements (block t i) = Statements (block g i)" "Dominator (block t i) = Dominator (block h i)" if "i < ?N" for i
    using tree_frame_fields [OF t(2)] hl(1) hb that by auto
  have n: "0 < ?N" using assms(1) by (simp add: fresh_graph_def graph_ok_def)
  have "ComputePredOrder k = Some k" using order_facts(6) [OF assms(2)] k(2) by (simp add: ComputePredOrder_def)
  then have "ComputeDominatorTree k = Some t"
    using h(1) t(1) hl(1) k(2) order_facts(6) [OF assms(2)] by (simp add: ComputeDominatorTree_def)
  moreover have "same_code g t" using tl(1) tb by (simp add: same_code_def)
  moreover have "tree_ok g t"
  proof -
    have "filter (\<lambda>v. Dominator (block h v) = Some d) [0..<?N] =
        filter (\<lambda>v. idom (succs_of g) 0 d v) [0..<?N]" for d
      using h(4) by (intro filter_cong) auto
    then show ?thesis using tb h(3,4) t(3) hb n by (simp add: tree_ok_def)
  qed
  ultimately show ?thesis using tl by blast
qed

end
