(* ===== verification/Ssa_Frontier.thy ===== *)
theory Ssa_Frontier
  imports Ssa_Dominators
begin

text \<open>
  \<open>ComputeBaseDominanceFrontier\<close> computes the dominance frontiers of the specification, and
  \<open>GetDominanceFrontierForSubset\<close> returns the least set that contains the frontiers of the given
  blocks and of its own elements.
\<close>

section \<open>Frontiers\<close>

definition df_map :: "CFG \<Rightarrow> nat \<Rightarrow> nat set option" where
  "df_map g = map_of (DominanceFrontier g)"

lemma df_insert_map:
  "df_map (df_insert x ys g) = (\<lambda>k. if k = x then map_option (\<lambda>S. S \<union> ys) (df_map g k) else df_map g k)"
proof -
  have "map_of (map (\<lambda>(k, S). if k = x then (k, S \<union> ys) else (k, S)) m) =
      (\<lambda>k. if k = x then map_option (\<lambda>S. S \<union> ys) (map_of m k) else map_of m k)" for m :: "(nat \<times> nat set) list"
    by (induction m) (auto simp: fun_eq_iff)
  then show ?thesis by (simp add: df_map_def df_insert_def fun_eq_iff)
qed

lemma df_insert_simps [simp]:
  "BasicBlocks (df_insert x ys g) = BasicBlocks g" "block (df_insert x ys g) = block g"
  "InPredOrder (df_insert x ys g) = InPredOrder g" "InPostOrder (df_insert x ys g) = InPostOrder g"
  "DominanceFrontier (df_insert x ys g) = [] \<longleftrightarrow> DominanceFrontier g = []"
  by (simp_all add: df_insert_def block_def fun_eq_iff)

text \<open>Two states that differ in the frontiers only.\<close>

definition df_frame :: "CFG \<Rightarrow> CFG \<Rightarrow> bool" where
  "df_frame g h \<longleftrightarrow> BasicBlocks h = BasicBlocks g \<and> InPredOrder h = InPredOrder g \<and>
     InPostOrder h = InPostOrder g \<and> (DominanceFrontier h = [] \<longleftrightarrow> DominanceFrontier g = [])"

lemma df_frame_block: "df_frame g h \<Longrightarrow> block h = block g"
  by (simp add: df_frame_def block_def fun_eq_iff)

lemma df_add_result:
  assumes "df_map g x = Some S"
  shows "\<exists>h. df_add x ys g = Some h \<and> df_frame g h \<and>
    df_map h = (df_map g)(x \<mapsto> S \<union> {y \<in> ys. Dominator (block g y) \<noteq> Some x})"
  using assms
  by (auto simp: df_add_def df_at_def df_map_def [symmetric] df_frame_def df_insert_map fun_eq_iff)

lemma df_children_result:
  assumes "df_map g x = Some S" "\<forall>z \<in> set zs. z \<noteq> x \<and> df_map g z = Some (F z)"
  shows "\<exists>h. df_children x zs g = Some h \<and> df_frame g h \<and>
    df_map h = (df_map g)(x \<mapsto> S \<union> {y \<in> \<Union> (F ` set zs). Dominator (block g y) \<noteq> Some x})"
  using assms
proof (induction zs arbitrary: g S)
  case (Cons z zs)
  from df_add_result [OF Cons.prems(1), of "F z"] obtain g1 where
    g1: "df_add x (F z) g = Some g1" "df_frame g g1"
      "df_map g1 = (df_map g)(x \<mapsto> S \<union> {y \<in> F z. Dominator (block g y) \<noteq> Some x})" by blast
  let ?S = "S \<union> {y \<in> F z. Dominator (block g y) \<noteq> Some x}"
  have "df_map g1 x = Some ?S" "\<forall>z \<in> set zs. z \<noteq> x \<and> df_map g1 z = Some (F z)"
    using g1(3) Cons.prems by auto
  from Cons.IH [OF this, unfolded df_frame_block [OF g1(2)]] obtain h where
    h: "df_children x zs g1 = Some h" "df_frame g1 h"
      "df_map h = (df_map g1)(x \<mapsto> (S \<union> {y \<in> F z. Dominator (block g y) \<noteq> Some x}) \<union>
         {y \<in> \<Union> (F ` set zs). Dominator (block g y) \<noteq> Some x})" by blast
  have "df_children x (z # zs) g = Some h"
    using g1(1) h(1) Cons.prems(2) by (simp add: df_at_def df_map_def)
  moreover have "df_frame g h" using g1(2) h(2) by (auto simp: df_frame_def)
  moreover have "df_map h = (df_map g)(x \<mapsto> S \<union> {y \<in> \<Union> (F ` set (z # zs)). Dominator (block g y) \<noteq> Some x})"
    unfolding h(3) g1(3) by (auto simp: fun_eq_iff)
  ultimately show ?case by blast
qed (auto simp: df_frame_def fun_eq_iff)

text \<open>The recursion equation of the frontiers, in terms of the computed tree.\<close>

lemma frontier_tree:
  assumes "fresh_graph g" "dfs_orders g p q" "tree_ok g h" "x < length (BasicBlocks g)"
  defines "s \<equiv> succs_of g"
  shows "{y \<in> set (s x). Dominator (block h y) \<noteq> Some x} \<union>
    {y \<in> \<Union> (frontier s 0 ` {z. z < length (BasicBlocks g) \<and> idom s 0 x z}). Dominator (block h y) \<noteq> Some x} =
    frontier s 0 x" (is "?L \<union> ?U = _")
proof -
  let ?N = "length (BasicBlocks g)"
  note tree = idom_exists [OF assms(2), folded s_def]
  have rank: "rank p d < rank p v" if "reachable_from s 0 v" "sdom s 0 d v" for d v
    using order_facts(3,7) [OF assms(2)] that before_rank unfolding s_def by metis
  have reach: "reachable_from s 0 v \<longleftrightarrow> v < ?N" for v
    using reachable_blocks [OF assms(1)] by (simp add: s_def)
  have dom: "Dominator (block h y) \<noteq> Some x \<longleftrightarrow> \<not> idom s 0 x y" if "y < ?N" for y
    using assms(3) that by (auto simp: tree_ok_def s_def)
  have below: "y < ?N" if "y \<in> frontier s 0 v" for v y
    using that reach reachable_step [of s 0] by (auto simp: frontier_def)
  have succ: "y < ?N" if "y \<in> set (s x)" for y
    using that assms(4) reach reachable_step [of s 0 x y] by auto
  show ?thesis
  proof (intro equalityI subsetI)
    fix y assume "y \<in> ?L \<union> ?U"
    then show "y \<in> frontier s 0 x"
    proof
      assume "y \<in> ?L"
      then show ?thesis using frontier_local [of s 0 x y] assms(4) reach dom succ by auto
    next
      assume "y \<in> ?U"
      then obtain z where "z < ?N" "idom s 0 x z" "y \<in> frontier s 0 z" "\<not> idom s 0 x y"
        using dom below by auto
      then show ?thesis using frontier_up [of s 0 x z y] tree reach by blast
    qed
  next
    fix y assume y: "y \<in> frontier s 0 x"
    from frontier_split [of s 0 "rank p" y x, OF tree rank y] have
      "\<not> idom s 0 x y" "y \<in> set (s x) \<or> (\<exists>z. z < ?N \<and> idom s 0 x z \<and> y \<in> frontier s 0 z)"
      using reach by auto
    then show "y \<in> ?L \<union> ?U" using dom [of y] below [OF y] by auto
  qed
qed

lemma df_loop_result:
  assumes "fresh_graph g" "dfs_orders g p q" "tree_ok g h" "same_code g h"
    and F: "F = frontier (succs_of g) 0"
  shows "q = done @ todo \<Longrightarrow> df_frame h k \<Longrightarrow>
    df_map k = (\<lambda>x. if x \<in> set done then Some (F x) else if x < length (BasicBlocks g) then Some {} else None) \<Longrightarrow>
    \<exists>m. df_loop todo k = Some m \<and> df_frame h m \<and>
      df_map m = (\<lambda>x. if x < length (BasicBlocks g) then Some (F x) else None)"
proof (induction todo arbitrary: "done" k)
  case Nil
  have "set q = {..<length (BasicBlocks g)}"
    using order_facts(1,2) [OF assms(2)] reachable_blocks [OF assms(1)] by auto
  with Nil show ?case by (auto simp: fun_eq_iff)
next
  case (Cons x todo)
  let ?N = "length (BasicBlocks g)"
  have setq: "set q = {..<?N}"
    using order_facts(1,2) [OF assms(2)] reachable_blocks [OF assms(1)] by auto
  then have x: "x < ?N" "x \<notin> set done" using Cons.prems(1) order_facts(4) [OF assms(2)] by auto
  have b: "block k = block h" using Cons.prems(2) by (rule df_frame_block)
  have sx: "Succs (block k x) = succs_of g x" using assms(4) x b by (simp add: same_code_def succs_of_def)
  have ch: "set (DominatingBlocks (block k x)) = {z. z < ?N \<and> idom (succs_of g) 0 x z}"
    using assms(3) x b by (auto simp: tree_ok_def)
  have kids: "z \<noteq> x \<and> z \<in> set done" if z: "z < ?N" "idom (succs_of g) 0 x z" for z
  proof -
    have "reachable_from (succs_of g) 0 z" "sdom (succs_of g) 0 x z"
      using z reachable_blocks [OF assms(1)] by (auto simp: idom_def)
    then have bz: "before q z x" using order_facts(7) [OF assms(2)] by blast
    then have "rank q z < rank q x" by (rule before_rank [OF order_facts(4) [OF assms(2)]])
    moreover have "rank q x = length done" using Cons.prems(1) x(2) by (simp add: rank_def takeWhile_append)
    moreover have "rank q z \<ge> length done" if "z \<notin> set done"
      using Cons.prems(1) that by (simp add: rank_def takeWhile_append)
    ultimately show ?thesis by fastforce
  qed
  have kx: "df_map k x = Some {}" using Cons.prems(3) x by simp
  from df_add_result [OF kx, of "set (succs_of g x)"] b obtain k1 where
    k1: "df_add x (set (succs_of g x)) k = Some k1" "df_frame k k1"
      "df_map k1 = (df_map k)(x \<mapsto> {y \<in> set (succs_of g x). Dominator (block h y) \<noteq> Some x})" by auto
  have b1: "block k1 = block h" using df_frame_block [OF k1(2)] b by simp
  have "\<forall>z \<in> set (DominatingBlocks (block k x)). z \<noteq> x \<and> df_map k1 z = Some (F z)"
    using ch kids k1(3) Cons.prems(3) by auto
  with df_children_result [of k1 x _ "DominatingBlocks (block k x)" F] k1(3) b1 obtain k2 where
    k2: "df_children x (DominatingBlocks (block k x)) k1 = Some k2" "df_frame k1 k2"
      "df_map k2 = (df_map k1)(x \<mapsto> {y \<in> set (succs_of g x). Dominator (block h y) \<noteq> Some x} \<union>
        {y \<in> \<Union> (F ` {z. z < ?N \<and> idom (succs_of g) 0 x z}). Dominator (block h y) \<noteq> Some x})"
    unfolding ch by fastforce
  have "df_map k2 = (\<lambda>y. if y \<in> set (done @ [x]) then Some (F y) else if y < ?N then Some {} else None)"
    unfolding k2(3) F frontier_tree [OF assms(1-3) x(1)] k1(3) Cons.prems(3) by (auto simp: fun_eq_iff F)
  moreover have "df_frame h k2" using Cons.prems(2) k1(2) k2(2) by (auto simp: df_frame_def)
  ultimately obtain m where "df_loop todo k2 = Some m" "df_frame h m"
    "df_map m = (\<lambda>x. if x < ?N then Some (F x) else None)"
    using Cons.IH [of "done @ [x]" k2] Cons.prems(1) by auto
  then show ?case using k1(1) k2(1) sx by auto
qed

section \<open>The whole analysis\<close>

definition frontiers_of :: "CFG \<Rightarrow> CFG \<Rightarrow> bool" where
  "frontiers_of g h \<longleftrightarrow> DominanceFrontier h \<noteq> [] \<and>
     df_map h = (\<lambda>x. if x < length (BasicBlocks g) then Some (frontier (succs_of g) 0 x) else None)"

definition analysed :: "CFG \<Rightarrow> CFG \<Rightarrow> bool" where
  "analysed g h \<longleftrightarrow> same_code g h \<and> tree_ok g h \<and> frontiers_of g h"

lemma base_frontier:
  assumes "fresh_graph g" "dfs_orders g p q" "tree_ok g h" "same_code g h"
    "InPostOrder h = q" "DominanceFrontier h = []"
  shows "\<exists>m. ComputeBaseDominanceFrontier h = Some m \<and> analysed g m"
proof -
  let ?N = "length (BasicBlocks g)"
  let ?k = "h\<lparr>DominanceFrontier := map (\<lambda>b. (b, {})) [0..<length (BasicBlocks h)]\<rparr>"
  have n: "length (BasicBlocks h) = ?N" "0 < ?N"
    using assms(1,4) by (auto simp: same_code_def fresh_graph_def graph_ok_def)
  have blk: "block ?k = block h" by (simp add: block_def fun_eq_iff)
  have "tree_ok g ?k" "same_code g ?k" using assms(3,4) blk by (simp_all add: tree_ok_def same_code_def)
  moreover have "df_map ?k = (\<lambda>x. if x \<in> set [] then Some (frontier (succs_of g) 0 x)
      else if x < ?N then Some {} else None)"
    by (auto simp: df_map_def n(1) map_of_map_keys fun_eq_iff map_of_eq_None_iff image_iff
        intro!: map_of_is_SomeI simp: distinct_map inj_on_def comp_def)
  ultimately obtain m where m: "df_loop q ?k = Some m" "df_frame ?k m"
    "df_map m = (\<lambda>x. if x < ?N then Some (frontier (succs_of g) 0 x) else None)"
    using df_loop_result [OF assms(1,2), of ?k "frontier (succs_of g) 0" "[]" q ?k]
    by (auto simp: df_frame_def)
  have "same_code g m" "tree_ok g m"
    using \<open>same_code g ?k\<close> \<open>tree_ok g ?k\<close> df_frame_block [OF m(2)] m(2)
    by (auto simp: same_code_def tree_ok_def df_frame_def)
  moreover have "DominanceFrontier m \<noteq> []" using m(2) n by (simp add: df_frame_def)
  ultimately show ?thesis using m(1,3) assms(5,6) by (auto simp: ComputeBaseDominanceFrontier_def analysed_def frontiers_of_def)
qed

lemma commit_analysed:
  assumes "fresh_graph g" "Dominator (block g 0) = None"
  shows "\<exists>h. CommitAllChanges g = Some h \<and> analysed g h"
proof -
  have ok: "graph_ok g" using assms(1) by (simp add: fresh_graph_def)
  from dfs_orders_exist [OF ok] obtain p q where pq: "dfs_orders g p q" by blast
  from compute_orders(1) [OF ok pq] assms(1) obtain m1 where
    c1: "ComputePredOrder g = Some (g\<lparr>VisitedMap := m1, InPredOrder := p\<rparr>)" (is "_ = Some ?g1")
    by (auto simp: fresh_graph_def)
  have s1: "succs_of ?g1 = succs_of g" by (simp add: succs_of_def block_def fun_eq_iff)
  have g1: "graph_ok ?g1" "dfs_orders ?g1 p q"
    using ok pq by (simp_all add: graph_ok_def dfs_orders_def s1 del: dfs_block.simps)
  from compute_orders(2) [OF g1] assms(1) obtain m2 where
    c2: "ComputePostOrder ?g1 = Some (?g1\<lparr>VisitedMap := m2, InPostOrder := q\<rparr>)" (is "_ = Some ?g2")
    by (auto simp: fresh_graph_def)
  from compute_tree [OF assms(1) pq assms(2), of ?g2] assms(1) obtain h where
    h: "ComputeDominatorTree ?g2 = Some h" "same_code g h" "tree_ok g h" "InPostOrder h = q"
      "DominanceFrontier h = []" by (auto simp: fresh_graph_def)
  from base_frontier [OF assms(1) pq h(3,2,4,5)] obtain m where
    "ComputeBaseDominanceFrontier h = Some m" "analysed g m" by blast
  with c1 c2 h(1) show ?thesis by (auto simp: CommitAllChanges_def)
qed

section \<open>Iterated frontiers\<close>

definition frontier_step :: "(nat \<Rightarrow> nat list) \<Rightarrow> nat \<Rightarrow> nat set \<Rightarrow> nat set \<Rightarrow> nat set" where
  "frontier_step s r S X = \<Union> (frontier s r ` (X \<union> S))"

definition iterated_frontier :: "(nat \<Rightarrow> nat list) \<Rightarrow> nat \<Rightarrow> nat set \<Rightarrow> nat set" where
  "iterated_frontier s r S = lfp (frontier_step s r S)"

lemma frontier_step_mono: "mono (frontier_step s r S)"
  by (rule monoI) (auto simp: frontier_step_def)

lemma merged_frontier:
  assumes "frontiers_of g h" "S \<subseteq> {..<length (BasicBlocks g)}"
  shows "GetMergedDominanceFrontierFromSubset S h = Some (\<Union> (frontier (succs_of g) 0 ` S), h)"
proof -
  have "merge_frontiers h vs = Some (\<Union> (frontier (succs_of g) 0 ` set vs))"
    if "set vs \<subseteq> {..<length (BasicBlocks g)}" for vs
    using that assms(1) by (induction vs) (auto simp: df_at_def frontiers_of_def df_map_def fun_eq_iff)
  from this [of "sorted_list_of_set S"] finite_subset [OF assms(2)] assms
  show ?thesis by (simp add: GetMergedDominanceFrontierFromSubset_def frontiers_of_def)
qed

lemma frontier_step_below:
  assumes "fresh_graph g"
  shows "frontier_step (succs_of g) 0 S X \<subseteq> {..<length (BasicBlocks g)}"
proof -
  have "y < length (BasicBlocks g)" if "y \<in> frontier (succs_of g) 0 x" for x y
    using that reachable_blocks [OF assms] reachable_step [of "succs_of g" 0] by (auto simp: frontier_def)
  then show ?thesis by (auto simp: frontier_step_def)
qed

lemma frontier_iterate_result:
  assumes "fresh_graph g" "frontiers_of g h" "S \<subseteq> {..<length (BasicBlocks g)}"
  shows "D \<subseteq> frontier_step (succs_of g) 0 S D \<Longrightarrow> R \<subseteq> D \<Longrightarrow> D \<subseteq> {..<length (BasicBlocks g)} \<Longrightarrow>
    D \<subseteq> iterated_frontier (succs_of g) 0 S \<Longrightarrow>
    frontier_iterate S D R h = Some (iterated_frontier (succs_of g) 0 S, h)"
proof (induction "2 * (length (BasicBlocks g) - card D) + (if R = D then 0 else 1)"
    arbitrary: D R rule: less_induct)
  case less
  let ?N = "length (BasicBlocks g)" and ?P = "frontier_step (succs_of g) 0 S"
  let ?I = "iterated_frontier (succs_of g) 0 S"
  have m: "GetMergedDominanceFrontierFromSubset (D \<union> S) h = Some (?P D, h)"
    using merged_frontier [OF assms(2), of "D \<union> S"] less.prems(3) assms(3) by (simp add: frontier_step_def)
  have fix_I: "?P ?I = ?I" unfolding iterated_frontier_def by (rule lfp_fixpoint [OF frontier_step_mono])
  have DI: "?P D \<subseteq> ?I" using monoD [OF frontier_step_mono less.prems(4)] fix_I by blast
  have below: "?P D \<subseteq> {..<?N}" by (rule frontier_step_below [OF assms(1)])
  show ?case
  proof (cases "R = ?P D")
    case True
    with less.prems have "?P D = D" by blast
    then have "?I \<subseteq> D" unfolding iterated_frontier_def by (intro lfp_lowerbound) simp
    with less.prems \<open>?P D = D\<close> True have "R = ?I" by blast
    with m True show ?thesis by (subst frontier_iterate.simps) simp
  next
    case False
    have "card D \<le> card (?P D)" "card (?P D) \<le> ?N"
      using card_mono [OF finite_subset [OF below finite_lessThan] less.prems(1)]
        card_mono [OF finite_lessThan below] by simp_all
    moreover have "card D < card (?P D)" if "D \<noteq> ?P D"
      using that less.prems(1) finite_subset [OF below finite_lessThan] by (intro psubset_card_mono) auto
    ultimately have "2 * (?N - card (?P D)) + 0 < 2 * (?N - card D) + (if R = D then 0 else 1)"
      using False by (cases "D = ?P D") auto
    moreover have "?P D \<subseteq> ?P (?P D)" using less.prems(1) by (rule monoD [OF frontier_step_mono])
    ultimately have "frontier_iterate S (?P D) (?P D) h = Some (?I, h)"
      using less.hyps [of "?P D" "?P D"] DI below by simp
    with m False show ?thesis by (subst frontier_iterate.simps) simp
  qed
qed

lemma iterated_result:
  assumes "fresh_graph g" "frontiers_of g h" "S \<subseteq> {..<length (BasicBlocks g)}"
  shows "GetDominanceFrontierForSubset S h = Some (iterated_frontier (succs_of g) 0 S, h)"
proof -
  let ?P = "frontier_step (succs_of g) 0 S"
  have D: "\<Union> (frontier (succs_of g) 0 ` S) = ?P {}" by (simp add: frontier_step_def)
  have "?P {} \<subseteq> ?P (?P {})" by (intro monoD [OF frontier_step_mono]) simp
  moreover have "?P {} \<subseteq> iterated_frontier (succs_of g) 0 S"
    unfolding iterated_frontier_def
    using lfp_fixpoint [OF frontier_step_mono] monoD [OF frontier_step_mono, of "{}"] by (metis empty_subsetI)
  ultimately have "frontier_iterate S (?P {}) {} h = Some (iterated_frontier (succs_of g) 0 S, h)"
    using frontier_iterate_result [OF assms] frontier_step_below [OF assms(1)] by blast
  with merged_frontier [OF assms(2,3)] show ?thesis
    by (simp add: GetDominanceFrontierForSubset_def D)
qed

end
