(* ===== verification/Ssa_Graph.thy ===== *)
theory Ssa_Graph
  imports Ssa_Builder Ssa_Frontier
begin

text \<open>
  The graphs that \<open>CFGBuilder\<close> builds. The invariant \<open>cfg_ok\<close> says that the links are symmetric and
  stay inside the graph, that no analysis has run yet, and that \<open>BlocksForVariable\<close> lists exactly the
  blocks that assign a variable; \<open>covers\<close> says that new blocks hang below the block where building
  started. Together they make the finished graph one the analyses are correct for.
\<close>

section \<open>The invariant\<close>

definition assigned :: "symbol_cell list \<Rightarrow> CFG \<Rightarrow> string \<Rightarrow> nat set" where
  "assigned syms g v = {i. i < length (BasicBlocks g) \<and>
     (\<exists>a e. IRAssignment a e \<in> set (Statements (block g i)) \<and> sym_name (syms ! a) = v)}"

definition variables_ok :: "symbol_cell list \<Rightarrow> CFG \<Rightarrow> (string \<times> nat set) list \<Rightarrow> bool" where
  "variables_ok syms g m \<longleftrightarrow> sorted_wrt (<) (map fst m) \<and>
     (\<forall>v. map_of m v = (if assigned syms g v = {} then None else Some (assigned syms g v)))"

definition links_ok :: "CFG \<Rightarrow> bool" where
  "links_ok g \<longleftrightarrow> (\<forall>i < length (BasicBlocks g).
     set (Succs (block g i)) \<subseteq> {..<length (BasicBlocks g)} \<and>
     set (Preds (block g i)) \<subseteq> {..<length (BasicBlocks g)} \<and> distinct (Preds (block g i)) \<and>
     (\<forall>j < length (BasicBlocks g). j \<in> set (Succs (block g i)) \<longleftrightarrow> i \<in> set (Preds (block g j))))"

definition unanalysed :: "(nat \<Rightarrow> ptr) \<Rightarrow> CFG \<Rightarrow> bool" where
  "unanalysed mem g \<longleftrightarrow> InPredOrder g = [] \<and> InPostOrder g = [] \<and> DominanceFrontier g = [] \<and>
     (\<forall>i < length (BasicBlocks g). DominatingBlocks (block g i) = [] \<and> Dominator (block g i) = mem i)"

definition no_phi :: "CFG \<Rightarrow> bool" where
  "no_phi g \<longleftrightarrow> (\<forall>i < length (BasicBlocks g). \<forall>v m. IRPhiNode v m \<notin> set (Statements (block g i)))"

definition cfg_ok :: "(nat \<Rightarrow> ptr) \<Rightarrow> CFG \<Rightarrow> bool" where
  "cfg_ok mem g \<longleftrightarrow> BasicBlocks g \<noteq> [] \<and> links_ok g \<and> unanalysed mem g \<and> no_phi g"

lemma block_append:
  "block (g\<lparr>BasicBlocks := BasicBlocks g @ [b]\<rparr>) i =
     (if i < length (BasicBlocks g) then block g i else if i = length (BasicBlocks g) then b else block (g\<lparr>BasicBlocks := BasicBlocks g @ [b]\<rparr>) i)"
  by (simp add: block_def nth_append)

definition new_block :: "(nat \<Rightarrow> ptr) \<Rightarrow> string \<Rightarrow> CFG \<Rightarrow> CFGBlock" where
  "new_block mem label g = \<lparr>Index = length (BasicBlocks g), Label = label, Statements = [], Succs = [],
     Preds = [], Dominator = mem (length (BasicBlocks g)), DominatingBlocks = []\<rparr>"

definition add_block :: "(nat \<Rightarrow> ptr) \<Rightarrow> string \<Rightarrow> CFG \<Rightarrow> CFG" where
  "add_block mem label g = g\<lparr>BasicBlocks := BasicBlocks g @ [new_block mem label g]\<rparr>"

lemma CreateBlock_eq:
  "CreateBlock mem label b = (length (BasicBlocks (CFGraph b)), on_graph (add_block mem label) b)"
  by (simp add: CreateBlock_def on_graph_def add_block_def new_block_def AddBlock_def Let_def)

lemma add_block_simps [simp]:
  "length (BasicBlocks (add_block mem label g)) = Suc (length (BasicBlocks g))"
  "InPredOrder (add_block mem label g) = InPredOrder g" "InPostOrder (add_block mem label g) = InPostOrder g"
  "DominanceFrontier (add_block mem label g) = DominanceFrontier g"
  "i < length (BasicBlocks g) \<Longrightarrow> block (add_block mem label g) i = block g i"
  "block (add_block mem label g) (length (BasicBlocks g)) = new_block mem label g"
  by (simp_all add: add_block_def block_def nth_append)

lemma cfg_ok_add_block:
  assumes "cfg_ok mem g"
  shows "cfg_ok mem (add_block mem label g)"
proof -
  have "BasicBlocks (add_block mem label g) \<noteq> []" by (simp add: add_block_def)
  with assms show ?thesis
    by (fastforce simp: cfg_ok_def links_ok_def unanalysed_def no_phi_def less_Suc_eq new_block_def)
qed

lemma set_push_unique [simp]: "set (push_unique x xs) = insert x (set xs)"
  by (auto simp: push_unique_def)

lemma distinct_push_unique [simp]: "distinct (push_unique x xs) \<longleftrightarrow> distinct xs"
  by (auto simp: push_unique_def)

lemma AddLink_block:
  assumes "i < length (BasicBlocks g)" "j < length (BasicBlocks g)"
  shows "Succs (block (AddLink i j g) k) = (if k = i then push_unique j (Succs (block g k)) else Succs (block g k))"
    "Preds (block (AddLink i j g) k) = (if k = j then push_unique i (Preds (block g k)) else Preds (block g k))"
    "Statements (block (AddLink i j g) k) = Statements (block g k)"
    "Dominator (block (AddLink i j g) k) = Dominator (block g k)"
    "DominatingBlocks (block (AddLink i j g) k) = DominatingBlocks (block g k)"
  using assms by (simp_all add: AddLink_def block_on_block)

lemma AddLink_simps [simp]:
  "length (BasicBlocks (AddLink i j g)) = length (BasicBlocks g)"
  "InPredOrder (AddLink i j g) = InPredOrder g" "InPostOrder (AddLink i j g) = InPostOrder g"
  "DominanceFrontier (AddLink i j g) = DominanceFrontier g"
  by (simp_all add: AddLink_def)

lemma cfg_ok_AddLink:
  assumes "cfg_ok mem g" "i < length (BasicBlocks g)" "j < length (BasicBlocks g)"
  shows "cfg_ok mem (AddLink i j g)"
proof -
  have "BasicBlocks (AddLink i j g) \<noteq> []" using assms(2) AddLink_simps(1) [of i j g] by (metis length_0_conv not_less_zero)
  with assms show ?thesis
    by (auto simp: cfg_ok_def links_ok_def unanalysed_def no_phi_def AddLink_block [OF assms(2,3)])
qed

lemma add_statement_block:
  assumes "i < length (BasicBlocks g)"
  shows "Succs (block (on_block i (AddStatement st) g) k) = Succs (block g k)"
    "Preds (block (on_block i (AddStatement st) g) k) = Preds (block g k)"
    "Statements (block (on_block i (AddStatement st) g) k) =
       (if k = i then Statements (block g k) @ [st] else Statements (block g k))"
    "Dominator (block (on_block i (AddStatement st) g) k) = Dominator (block g k)"
    "DominatingBlocks (block (on_block i (AddStatement st) g) k) = DominatingBlocks (block g k)"
  using assms by (simp_all add: block_on_block AddStatement_def)

lemma cfg_ok_statement:
  assumes "cfg_ok mem g" "i < length (BasicBlocks g)" "\<And>v m. st \<noteq> IRPhiNode v m"
  shows "cfg_ok mem (on_block i (AddStatement st) g)"
proof -
  have "BasicBlocks (on_block i (AddStatement st) g) \<noteq> []" using assms(2) by (auto simp: on_block_def)
  moreover have "IRPhiNode v m \<noteq> st" for v m using assms(3) by metis
  ultimately show ?thesis using assms
    by (auto simp: cfg_ok_def links_ok_def unanalysed_def no_phi_def add_statement_block [OF assms(2)])
qed

section \<open>Variables\<close>

lemma assigned_cong:
  assumes "length (BasicBlocks h) = length (BasicBlocks g)"
    "\<And>i. i < length (BasicBlocks g) \<Longrightarrow> \<forall>a e. IRAssignment a e \<in> set (Statements (block h i)) \<longleftrightarrow>
       IRAssignment a e \<in> set (Statements (block g i))"
  shows "assigned syms h = assigned syms g"
  unfolding assigned_def using assms by (intro ext Collect_cong conj_cong) simp_all

lemma assigned_add_block [simp]: "assigned syms (add_block mem label g) = assigned syms g"
  unfolding assigned_def
proof (intro ext Collect_cong)
  fix v i
  let ?A = "\<lambda>h. \<exists>a e. IRAssignment a e \<in> set (Statements (block h i)) \<and> sym_name (syms ! a) = v"
  show "(i < length (BasicBlocks (add_block mem label g)) \<and> ?A (add_block mem label g)) =
      (i < length (BasicBlocks g) \<and> ?A g)"
    by (cases "i < length (BasicBlocks g)"; cases "i = length (BasicBlocks g)") (simp_all add: new_block_def)
qed

lemma assigned_AddLink:
  "i < length (BasicBlocks g) \<Longrightarrow> j < length (BasicBlocks g) \<Longrightarrow> assigned syms (AddLink i j g) = assigned syms g"
  by (rule assigned_cong) (simp_all add: AddLink_block)

lemma assigned_branch:
  "i < length (BasicBlocks g) \<Longrightarrow> assigned syms (on_block i (AddStatement (IRBranch c t f)) g) = assigned syms g"
  by (rule assigned_cong) (simp_all add: add_statement_block)

lemma assigned_assign:
  "i < length (BasicBlocks g) \<Longrightarrow>
   assigned syms (on_block i (AddStatement (IRAssignment a e)) g) v =
     (if sym_name (syms ! a) = v then insert i (assigned syms g v) else assigned syms g v)"
  by (auto simp: assigned_def add_statement_block split: if_splits)

lemma map_insert_keys: "set (map fst (map_insert_at k x m)) = insert k (set (map fst m))"
  by (induction k x m rule: map_insert_at.induct) auto

lemma map_insert_sorted: "sorted_wrt (<) (map fst m) \<Longrightarrow> sorted_wrt (<) (map fst (map_insert_at k x m))"
proof (induction k x m rule: map_insert_at.induct)
  case (2 k x l S m)
  show ?case
  proof (cases "l < k")
    case True
    with 2 show ?thesis using map_insert_keys [of k x m] by auto
  next
    case False
    with 2 show ?thesis by (auto dest: order_less_trans)
  qed
qed simp

lemma map_insert_lookup:
  "sorted_wrt (<) (map fst m) \<Longrightarrow> map_of (map_insert_at k x m) l =
     (if l = k then Some (insert x (case map_of m k of None \<Rightarrow> {} | Some S \<Rightarrow> S)) else map_of m l)"
proof (induction k x m rule: map_insert_at.induct)
  case (2 k x l' S m)
  have "map_of m k = None" if "k < l'"
    using that "2.prems" by (auto simp: map_of_eq_None_iff dest: order_less_trans)
  with 2 show ?case by auto
qed simp

lemma variables_ok_assign:
  assumes "variables_ok syms g m" "i < length (BasicBlocks g)"
  shows "variables_ok syms (on_block i (AddStatement (IRAssignment a e)) g)
    (map_insert_at (sym_name (syms ! a)) i m)"
  using assms
  by (auto simp: variables_ok_def map_insert_sorted map_insert_lookup assigned_assign)

section \<open>Reachability while building\<close>

text \<open>\<open>covers g u h v\<close>: \<open>h\<close> extends \<open>g\<close>, and its new blocks and \<open>v\<close> are reached from \<open>u\<close>.\<close>

definition extends_graph :: "CFG \<Rightarrow> CFG \<Rightarrow> bool" where
  "extends_graph g h \<longleftrightarrow> length (BasicBlocks g) \<le> length (BasicBlocks h) \<and>
     (\<forall>i < length (BasicBlocks g). set (succs_of g i) \<subseteq> set (succs_of h i))"

definition covers :: "CFG \<Rightarrow> nat \<Rightarrow> CFG \<Rightarrow> nat \<Rightarrow> bool" where
  "covers g u h v \<longleftrightarrow> extends_graph g h \<and> reachable_from (succs_of h) u v \<and>
     (\<forall>i. length (BasicBlocks g) \<le> i \<and> i < length (BasicBlocks h) \<longrightarrow> reachable_from (succs_of h) u i)"

lemma extends_refl [simp]: "extends_graph g g"
  by (simp add: extends_graph_def)

lemma extends_trans: "extends_graph g h \<Longrightarrow> extends_graph h k \<Longrightarrow> extends_graph g k"
  unfolding extends_graph_def by (meson le_trans less_le_trans subset_trans)

lemma covers_same:
  "extends_graph g h \<Longrightarrow> length (BasicBlocks h) = length (BasicBlocks g) \<Longrightarrow> covers g u h u"
  by (auto simp: covers_def)

lemma reachable_trans:
  "reachable_from s u v \<Longrightarrow> reachable_from s v w \<Longrightarrow> reachable_from s u w"
  unfolding reachable_from_def by (metis walk_append)

lemma reachable_extends:
  assumes "links_ok g" "extends_graph g h" "u < length (BasicBlocks g)" "reachable_from (succs_of g) u v"
  shows "reachable_from (succs_of h) u v"
proof -
  from assms(4) obtain ws where "walk (succs_of g) u ws v" by (auto simp: reachable_from_def)
  with assms(3) have "walk (succs_of h) u ws v"
  proof (induction ws arbitrary: u)
    case (Cons w ws)
    then have "w < length (BasicBlocks g)" using assms(1) by (auto simp: links_ok_def succs_of_def)
    moreover have "w \<in> set (succs_of h u)" using Cons.prems assms(2) by (auto simp: extends_graph_def)
    ultimately show ?case using Cons by simp
  qed simp
  then show ?thesis by (auto simp: reachable_from_def)
qed

lemma covers_trans:
  assumes "covers g u h v" "covers h v k w" "links_ok h" "u < length (BasicBlocks h)"
  shows "covers g u k w"
proof -
  have e: "extends_graph h k" "extends_graph g k"
    using assms(1,2) extends_trans by (auto simp: covers_def)
  have up: "reachable_from (succs_of k) u x" if "reachable_from (succs_of h) u x" for x
    using reachable_extends [OF assms(3) e(1) assms(4) that] .
  have uv: "reachable_from (succs_of k) u v" using assms(1) up by (simp add: covers_def)
  moreover have "reachable_from (succs_of k) u i"
    if i: "length (BasicBlocks g) \<le> i" "i < length (BasicBlocks k)" for i
  proof (cases "i < length (BasicBlocks h)")
    case True
    with i assms(1) show ?thesis by (intro up) (simp add: covers_def)
  next
    case False
    with i assms(2) have "reachable_from (succs_of k) v i" by (simp add: covers_def)
    with uv show ?thesis by (rule reachable_trans)
  qed
  moreover have "reachable_from (succs_of k) u w"
    using uv assms(2) reachable_trans by (auto simp: covers_def)
  ultimately show ?thesis using e(2) by (simp add: covers_def)
qed

lemma succs_AddLink:
  "i < length (BasicBlocks g) \<Longrightarrow> j < length (BasicBlocks g) \<Longrightarrow>
   set (succs_of (AddLink i j g) k) = (if k = i then insert j (set (succs_of g k)) else set (succs_of g k))"
  by (simp add: succs_of_def AddLink_block)

lemma succs_statement:
  "i < length (BasicBlocks g) \<Longrightarrow> succs_of (on_block i (AddStatement st) g) = succs_of g"
  by (simp add: succs_of_def add_statement_block fun_eq_iff)

lemma extends_steps:
  "extends_graph g (add_block mem label g)"
  "i < length (BasicBlocks g) \<Longrightarrow> j < length (BasicBlocks g) \<Longrightarrow> extends_graph g (AddLink i j g)"
  "i < length (BasicBlocks g) \<Longrightarrow> extends_graph g (on_block i (AddStatement st) g)"
  by (auto simp: extends_graph_def succs_AddLink succs_statement) (simp add: succs_of_def)

text \<open>What one call of \<open>Traverse\<close> keeps.\<close>

definition builder_ok :: "(nat \<Rightarrow> ptr) \<Rightarrow> CFGBuilder \<Rightarrow> bool" where
  "builder_ok mem b \<longleftrightarrow> cfg_ok mem (CFGraph b) \<and> CurrentBlock b < length (BasicBlocks (CFGraph b)) \<and>
     variables_ok (AllSymbols b) (CFGraph b) (BlocksForVariable b)"

lemma on_graph_simps [simp]:
  "CFGraph (on_graph f b) = f (CFGraph b)" "CurrentBlock (on_graph f b) = CurrentBlock b"
  "BlocksForVariable (on_graph f b) = BlocksForVariable b" "AllSymbols (on_graph f b) = AllSymbols b"
  by (simp_all add: on_graph_def)

lemma variables_ok_cong: "assigned syms h = assigned syms g \<Longrightarrow> variables_ok syms h m = variables_ok syms g m"
  by (simp add: variables_ok_def)

lemma builder_ok_create: "builder_ok mem b \<Longrightarrow> builder_ok mem (on_graph (add_block mem label) b)"
  using variables_ok_cong [OF assigned_add_block]
  by (auto simp: builder_ok_def cfg_ok_add_block)

lemma builder_ok_current:
  "builder_ok mem b \<Longrightarrow> i < length (BasicBlocks (CFGraph b)) \<Longrightarrow> builder_ok mem (b\<lparr>CurrentBlock := i\<rparr>)"
  by (simp add: builder_ok_def)

lemma builder_ok_branch:
  assumes "builder_ok mem b" "t < length (BasicBlocks (CFGraph b))"
  shows "builder_ok mem (CreateBranch t b)"
proof -
  let ?c = "CurrentBlock b" and ?g = "CFGraph b"
  have c: "?c < length (BasicBlocks ?g)" "cfg_ok mem ?g" using assms(1) by (simp_all add: builder_ok_def)
  have "cfg_ok mem (on_block ?c (AddStatement (IRBranch None t None)) (AddLink ?c t ?g))"
    using c assms(2) by (intro cfg_ok_statement cfg_ok_AddLink) simp_all
  moreover have "assigned s (on_block ?c (AddStatement (IRBranch None t None)) (AddLink ?c t ?g)) = assigned s ?g" for s
    using c assms(2) by (simp add: assigned_branch assigned_AddLink)
  note variables_ok_cong [OF this]
  ultimately show ?thesis using assms(1) by (simp add: builder_ok_def CreateBranch_def)
qed

lemma builder_ok_cond:
  assumes "builder_ok mem b" "t < length (BasicBlocks (CFGraph b))" "f < length (BasicBlocks (CFGraph b))"
  shows "builder_ok mem (CreateConditionalBranch cond t f b)"
proof -
  let ?c = "CurrentBlock b" and ?g = "CFGraph b"
  let ?h = "on_block ?c (AddStatement (IRBranch (Some cond) t (Some f))) (AddLink ?c f (AddLink ?c t ?g))"
  have c: "?c < length (BasicBlocks ?g)" "cfg_ok mem ?g" using assms(1) by (simp_all add: builder_ok_def)
  have "cfg_ok mem ?h" using c assms(2,3) by (intro cfg_ok_statement cfg_ok_AddLink) simp_all
  moreover have "assigned s ?h = assigned s ?g" for s
    using c assms(2,3) by (simp add: assigned_branch assigned_AddLink)
  note variables_ok_cong [OF this]
  ultimately show ?thesis using assms(1) by (simp add: builder_ok_def CreateConditionalBranch_def)
qed

lemma branch_graph:
  assumes "CurrentBlock b < length (BasicBlocks (CFGraph b))" "t < length (BasicBlocks (CFGraph b))"
  shows "length (BasicBlocks (CFGraph (CreateBranch t b))) = length (BasicBlocks (CFGraph b))"
    "extends_graph (CFGraph b) (CFGraph (CreateBranch t b))"
    "reachable_from (succs_of (CFGraph (CreateBranch t b))) (CurrentBlock b) t"
    "AllSymbols (CreateBranch t b) = AllSymbols b" "CurrentBlock (CreateBranch t b) = CurrentBlock b"
proof -
  show "extends_graph (CFGraph b) (CFGraph (CreateBranch t b))"
    using assms extends_trans [OF extends_steps(2) extends_steps(3)] by (simp add: CreateBranch_def)
  have "t \<in> set (succs_of (CFGraph (CreateBranch t b)) (CurrentBlock b))"
    using assms by (simp add: CreateBranch_def succs_statement succs_AddLink)
  then show "reachable_from (succs_of (CFGraph (CreateBranch t b))) (CurrentBlock b) t"
    using reachable_step [OF reachable_entry] by blast
qed (simp_all add: CreateBranch_def)

lemma cond_graph:
  fixes cond :: ASTNode
  assumes "CurrentBlock b < length (BasicBlocks (CFGraph b))" "t < length (BasicBlocks (CFGraph b))"
    "f < length (BasicBlocks (CFGraph b))"
  defines "h \<equiv> CreateConditionalBranch cond t f b"
  shows "length (BasicBlocks (CFGraph h)) = length (BasicBlocks (CFGraph b))"
    "extends_graph (CFGraph b) (CFGraph h)"
    "reachable_from (succs_of (CFGraph h)) (CurrentBlock b) t"
    "reachable_from (succs_of (CFGraph h)) (CurrentBlock b) f"
    "AllSymbols h = AllSymbols b"
proof -
  show "extends_graph (CFGraph b) (CFGraph h)"
    using assms(1-3) extends_trans [OF extends_trans [OF extends_steps(2) extends_steps(2)] extends_steps(3)]
    by (simp add: h_def CreateConditionalBranch_def)
  have "t \<in> set (succs_of (CFGraph h) (CurrentBlock b))" "f \<in> set (succs_of (CFGraph h) (CurrentBlock b))"
    using assms(1-3) by (simp_all add: h_def CreateConditionalBranch_def succs_statement succs_AddLink)
  then show "reachable_from (succs_of (CFGraph h)) (CurrentBlock b) t"
    "reachable_from (succs_of (CFGraph h)) (CurrentBlock b) f"
    using reachable_step [OF reachable_entry] by blast+
qed (simp_all add: h_def CreateConditionalBranch_def)

text \<open>The reachability part of an if statement, over the graphs it passes through.\<close>

lemma covers_if:
  assumes "extends_graph g g4" "length (BasicBlocks g4) = n + 3" "n = length (BasicBlocks g)" "c < n"
    and "reachable_from (succs_of g4) c n" "reachable_from (succs_of g4) c (n + 1)" "links_ok g4"
    and t: "covers g4 n gt ct" "links_ok gt"
    and m: "extends_graph gt g5" "length (BasicBlocks g5) = length (BasicBlocks gt)"
      "reachable_from (succs_of g5) ct (n + 2)" "links_ok g5" "ct < length (BasicBlocks gt)"
    and e: "covers g5 (n + 1) ge ce" "links_ok ge"
    and f: "extends_graph ge g6" "length (BasicBlocks g6) = length (BasicBlocks ge)"
  shows "covers g c g6 (n + 2)"
proof -
  let ?R = "reachable_from (succs_of g6)"
  have len: "n + 3 \<le> length (BasicBlocks gt)" "length (BasicBlocks g5) \<le> length (BasicBlocks ge)"
    using t(1) e(1) assms(2) by (auto simp: covers_def extends_graph_def)
  have x5: "extends_graph g5 g6" using e(1) f(1) extends_trans by (auto simp: covers_def)
  have xt: "extends_graph gt g6" using m(1) x5 by (rule extends_trans)
  have x4: "extends_graph g4 g6" using t(1) xt extends_trans by (auto simp: covers_def)
  have r4: "?R c x" if "reachable_from (succs_of g4) c x" for x
    using reachable_extends [OF assms(7) x4 _ that] assms(2,4) by simp
  have rt: "?R n x" if "reachable_from (succs_of gt) n x" for x
    using reachable_extends [OF t(2) xt _ that] len by simp
  have re: "?R (n + 1) x" if "reachable_from (succs_of ge) (n + 1) x" for x
    using reachable_extends [OF e(2) f(1) _ that] len m(2) by simp
  have n: "?R c n" "?R c (n + 1)" using r4 assms(5,6) by auto
  have "?R n ct" using t(1) rt by (simp add: covers_def)
  moreover have "?R ct (n + 2)" using reachable_extends [OF m(4) x5 _ m(3)] m(2,5) by simp
  ultimately have n2: "?R c (n + 2)" using n(1) reachable_trans by blast
  have "?R c i" if i: "n \<le> i" "i < length (BasicBlocks g6)" for i
  proof -
    consider "i = n" | "i = n + 1" | "i = n + 2" | "n + 3 \<le> i" "i < length (BasicBlocks gt)"
      | "length (BasicBlocks g5) \<le> i" using i m(2) by linarith
    then show ?thesis
    proof cases
      case 4
      then have "?R n i" using t(1) assms(2) rt by (simp add: covers_def)
      with n(1) show ?thesis by (rule reachable_trans)
    next
      case 5
      then have "?R (n + 1) i" using e(1) re i f(2) by (simp add: covers_def)
      with n(2) show ?thesis by (rule reachable_trans)
    qed (use n n2 in auto)
  qed
  moreover have "extends_graph g g6" using assms(1) x4 by (rule extends_trans)
  ultimately show ?thesis using n2 assms(3) by (simp add: covers_def)
qed

lemma builder_okD:
  assumes "builder_ok mem b"
  shows "links_ok (CFGraph b)" "CurrentBlock b < length (BasicBlocks (CFGraph b))"
  using assms by (simp_all add: builder_ok_def cfg_ok_def)

text \<open>An if statement up to the conditional branch, and the rest of it.\<close>

definition open_if :: "(nat \<Rightarrow> ptr) \<Rightarrow> ASTNode \<Rightarrow> CFGBuilder \<Rightarrow> CFGBuilder" where
  "open_if mem cond b = CreateConditionalBranch cond (length (BasicBlocks (CFGraph b)))
     (length (BasicBlocks (CFGraph b)) + 1)
     (on_graph (add_block mem ''IfContinue'')
       (on_graph (add_block mem ''Else'') (on_graph (add_block mem ''Then'') b)))"

lemma Traverse_if:
  "Traverse mem (ASTIf cond thenExp elseExp) b =
     (let n = length (BasicBlocks (CFGraph b));
          bt = Traverse mem thenExp ((open_if mem cond b)\<lparr>CurrentBlock := n\<rparr>);
          b5 = CreateBranch (n + 2) bt;
          be = Traverse mem elseExp (b5\<lparr>CurrentBlock := n + 1\<rparr>)
      in (CreateBranch (n + 2) be)\<lparr>CurrentBlock := n + 2\<rparr>)"
  by (simp add: CreateBlock_eq open_if_def Let_def eval_nat_numeral)

lemma Traverse_if_code:
  "Traverse mem (ASTIf cond thenExp elseExp) b =
     (CreateBranch (length (BasicBlocks (CFGraph b)) + 2) (Traverse mem elseExp
       ((CreateBranch (length (BasicBlocks (CFGraph b)) + 2) (Traverse mem thenExp
         ((open_if mem cond b)\<lparr>CurrentBlock := length (BasicBlocks (CFGraph b))\<rparr>)))
        \<lparr>CurrentBlock := length (BasicBlocks (CFGraph b)) + 1\<rparr>)))
     \<lparr>CurrentBlock := length (BasicBlocks (CFGraph b)) + 2\<rparr>"
  unfolding Traverse_if Let_def ..

lemmas Traverse_code [code] = Traverse.simps(1-4) Traverse_if_code Traverse.simps(6)

lemma open_if_ok:
  assumes "builder_ok mem b" "n = length (BasicBlocks (CFGraph b))"
  shows "builder_ok mem (open_if mem cond b)" "length (BasicBlocks (CFGraph (open_if mem cond b))) = n + 3"
    "extends_graph (CFGraph b) (CFGraph (open_if mem cond b))"
    "reachable_from (succs_of (CFGraph (open_if mem cond b))) (CurrentBlock b) n"
    "reachable_from (succs_of (CFGraph (open_if mem cond b))) (CurrentBlock b) (n + 1)"
    "AllSymbols (open_if mem cond b) = AllSymbols b"
    "builder_ok mem ((open_if mem cond b)\<lparr>CurrentBlock := n\<rparr>)"
proof -
  define b3 where "b3 = on_graph (add_block mem ''IfContinue'')
    (on_graph (add_block mem ''Else'') (on_graph (add_block mem ''Then'') b))"
  have e: "open_if mem cond b = CreateConditionalBranch cond n (n + 1) b3"
    by (simp add: open_if_def b3_def assms(2))
  have c: "CurrentBlock b < n" using assms builder_okD(2) by simp
  have b3: "builder_ok mem b3" "length (BasicBlocks (CFGraph b3)) = n + 3" "CurrentBlock b3 = CurrentBlock b"
    "AllSymbols b3 = AllSymbols b" "extends_graph (CFGraph b) (CFGraph b3)"
    using assms extends_trans [OF extends_trans [OF extends_steps(1) extends_steps(1)] extends_steps(1)]
    by (simp_all add: b3_def builder_ok_create)
  show 1: "builder_ok mem (open_if mem cond b)" unfolding e using b3 by (intro builder_ok_cond) simp_all
  show 2: "length (BasicBlocks (CFGraph (open_if mem cond b))) = n + 3"
    "extends_graph (CFGraph b) (CFGraph (open_if mem cond b))"
    "reachable_from (succs_of (CFGraph (open_if mem cond b))) (CurrentBlock b) n"
    "reachable_from (succs_of (CFGraph (open_if mem cond b))) (CurrentBlock b) (n + 1)"
    "AllSymbols (open_if mem cond b) = AllSymbols b"
    using cond_graph [of b3 n "n + 1" cond] c b3 extends_trans [OF b3(5)] unfolding e by auto
  show "builder_ok mem ((open_if mem cond b)\<lparr>CurrentBlock := n\<rparr>)"
    using 1 2(1) by (intro builder_ok_current) simp_all
qed

lemma Traverse_ok:
  "builder_ok mem b \<Longrightarrow>
   builder_ok mem (Traverse mem e b) \<and> AllSymbols (Traverse mem e b) = AllSymbols b \<and>
   covers (CFGraph b) (CurrentBlock b) (CFGraph (Traverse mem e b)) (CurrentBlock (Traverse mem e b))"
proof (induction e arbitrary: b)
  case (ASTAssign v e)
  then have c: "CurrentBlock b < length (BasicBlocks (CFGraph b))" "cfg_ok mem (CFGraph b)"
    by (simp_all add: builder_ok_def)
  have "builder_ok mem (Traverse mem (ASTAssign v e) b)"
    using ASTAssign.prems c variables_ok_assign by (auto simp: builder_ok_def cfg_ok_statement)
  then show ?case using extends_steps(3) [OF c(1)] by (simp add: covers_same)
next
  case (ASTIf cond thenExp elseExp)
  let ?g = "CFGraph b" and ?n = "length (BasicBlocks (CFGraph b))"
  define b4 where "b4 = open_if mem cond b"
  define bt where "bt = Traverse mem thenExp (b4\<lparr>CurrentBlock := ?n\<rparr>)"
  define b5 where "b5 = CreateBranch (?n + 2) bt"
  define be where "be = Traverse mem elseExp (b5\<lparr>CurrentBlock := ?n + 1\<rparr>)"
  define b6 where "b6 = CreateBranch (?n + 2) be"
  have T: "Traverse mem (ASTIf cond thenExp elseExp) b = b6\<lparr>CurrentBlock := ?n + 2\<rparr>"
    by (simp add: Traverse_if b4_def bt_def b5_def be_def b6_def Let_def del: Traverse.simps)
  have c: "CurrentBlock b < ?n" using ASTIf.prems by (rule builder_okD)
  have b4: "builder_ok mem b4" and c4: "length (BasicBlocks (CFGraph b4)) = ?n + 3" "extends_graph ?g (CFGraph b4)"
    "reachable_from (succs_of (CFGraph b4)) (CurrentBlock b) ?n"
    "reachable_from (succs_of (CFGraph b4)) (CurrentBlock b) (?n + 1)" "AllSymbols b4 = AllSymbols b"
    and t0: "builder_ok mem (b4\<lparr>CurrentBlock := ?n\<rparr>)"
    unfolding b4_def using open_if_ok [OF ASTIf.prems refl] by blast+
  have t: "builder_ok mem bt" "AllSymbols bt = AllSymbols b" "covers (CFGraph b4) ?n (CFGraph bt) (CurrentBlock bt)"
    using ASTIf.IH(2) [OF t0] c4(5) by (simp_all add: bt_def)
  have lt: "?n + 3 \<le> length (BasicBlocks (CFGraph bt))"
    using t(3) c4(1) by (simp add: covers_def extends_graph_def)
  have b5: "builder_ok mem b5" unfolding b5_def using t(1) lt by (intro builder_ok_branch) simp_all
  have c5: "length (BasicBlocks (CFGraph b5)) = length (BasicBlocks (CFGraph bt))"
    "extends_graph (CFGraph bt) (CFGraph b5)"
    "reachable_from (succs_of (CFGraph b5)) (CurrentBlock bt) (?n + 2)" "AllSymbols b5 = AllSymbols b"
    unfolding b5_def using branch_graph [of bt "?n + 2"] builder_okD(2) [OF t(1)] lt t(2) by simp_all
  have e0: "builder_ok mem (b5\<lparr>CurrentBlock := ?n + 1\<rparr>)"
    using b5 c5(1) lt by (intro builder_ok_current) simp_all
  have e: "builder_ok mem be" "AllSymbols be = AllSymbols b"
    "covers (CFGraph b5) (?n + 1) (CFGraph be) (CurrentBlock be)"
    using ASTIf.IH(3) [OF e0] c5(4) by (simp_all add: be_def)
  have le: "?n + 3 \<le> length (BasicBlocks (CFGraph be))"
    using e(3) c5(1) lt by (simp add: covers_def extends_graph_def)
  have b6: "builder_ok mem b6" unfolding b6_def using e(1) le by (intro builder_ok_branch) simp_all
  have c6: "length (BasicBlocks (CFGraph b6)) = length (BasicBlocks (CFGraph be))"
    "extends_graph (CFGraph be) (CFGraph b6)" "AllSymbols b6 = AllSymbols b"
    unfolding b6_def using branch_graph [of be "?n + 2"] builder_okD(2) [OF e(1)] le e(2) by simp_all
  have "covers ?g (CurrentBlock b) (CFGraph b6) (?n + 2)"
    by (rule covers_if [OF c4(2,1) refl c c4(3,4) builder_okD(1) [OF b4] t(3) builder_okD(1) [OF t(1)]
          c5(2,1,3) builder_okD(1) [OF b5] builder_okD(2) [OF t(1)] e(3) builder_okD(1) [OF e(1)] c6(2,1)])
  moreover have "builder_ok mem (b6\<lparr>CurrentBlock := ?n + 2\<rparr>)"
    using b6 c6(1) le by (intro builder_ok_current) simp_all
  ultimately show ?case unfolding T using c6(3) by simp
next
  case (ASTBinary op lhs rhs)
  let ?b1 = "Traverse mem lhs b" and ?b2 = "Traverse mem rhs (Traverse mem lhs b)"
  have 1: "builder_ok mem ?b1" "AllSymbols ?b1 = AllSymbols b"
    "covers (CFGraph b) (CurrentBlock b) (CFGraph ?b1) (CurrentBlock ?b1)"
    using ASTBinary.IH(1) [OF ASTBinary.prems] by auto
  have 2: "builder_ok mem ?b2" "AllSymbols ?b2 = AllSymbols ?b1"
    "covers (CFGraph ?b1) (CurrentBlock ?b1) (CFGraph ?b2) (CurrentBlock ?b2)"
    using ASTBinary.IH(2) [OF 1(1)] by auto
  have "CurrentBlock b < length (BasicBlocks (CFGraph ?b1))"
    using builder_okD(2) [OF ASTBinary.prems] 1(3) by (simp add: covers_def extends_graph_def)
  from covers_trans [OF 1(3) 2(3) builder_okD(1) [OF 1(1)] this] 1(2) 2(1,2) show ?case by simp
qed (simp_all add: covers_same)

lemma new_builder_ok:
  "builder_ok mem (new_CFGBuilder mem syms) \<and> AllSymbols (new_CFGBuilder mem syms) = syms \<and>
   CurrentBlock (new_CFGBuilder mem syms) = 0 \<and> length (BasicBlocks (CFGraph (new_CFGBuilder mem syms))) = 1"
  by (auto simp: new_CFGBuilder_def CreateBlock_eq builder_ok_def cfg_ok_def links_ok_def unanalysed_def no_phi_def
      variables_ok_def assigned_def add_block_def new_block_def empty_CFG_def block_def on_graph_def)

lemma foldl_Traverse_ok:
  assumes "builder_ok mem b"
  shows "builder_ok mem (foldl (\<lambda>b e. Traverse mem e b) b es) \<and>
    AllSymbols (foldl (\<lambda>b e. Traverse mem e b) b es) = AllSymbols b \<and>
    covers (CFGraph b) (CurrentBlock b) (CFGraph (foldl (\<lambda>b e. Traverse mem e b) b es))
      (CurrentBlock (foldl (\<lambda>b e. Traverse mem e b) b es))"
  using assms
proof (induction es arbitrary: b)
  case (Cons e es)
  let ?b1 = "Traverse mem e b"
  have 1: "builder_ok mem ?b1" "AllSymbols ?b1 = AllSymbols b"
    "covers (CFGraph b) (CurrentBlock b) (CFGraph ?b1) (CurrentBlock ?b1)"
    using Traverse_ok [OF Cons.prems] by auto
  have "CurrentBlock b < length (BasicBlocks (CFGraph ?b1))"
    using builder_okD(2) [OF Cons.prems] 1(3) by (simp add: covers_def extends_graph_def)
  with covers_trans [OF 1(3) _ builder_okD(1) [OF 1(1)]] Cons.IH [OF 1(1)] 1(2) show ?case by simp
qed (simp add: covers_same)

text \<open>The finished graph: the analyses may run on it.\<close>

lemma build_program_ok:
  fixes mem :: "nat \<Rightarrow> ptr" and syms :: "symbol_cell list" and es :: "ASTNode list"
  defines "b \<equiv> build_program mem syms es"
  shows "builder_ok mem b" "AllSymbols b = syms" "fresh_graph (CFGraph b)"
    "Dominator (block (CFGraph b) 0) = mem 0"
proof -
  let ?n = "new_CFGBuilder mem syms"
  have n: "builder_ok mem ?n" "AllSymbols ?n = syms" "CurrentBlock ?n = 0" "length (BasicBlocks (CFGraph ?n)) = 1"
    using new_builder_ok [of mem syms] by auto
  from foldl_Traverse_ok [OF n(1), of es] n(2,3) show ok: "builder_ok mem b" and "AllSymbols b = syms"
    by (auto simp: b_def build_program_def)
  have "covers (CFGraph ?n) 0 (CFGraph b) (CurrentBlock b)"
    using foldl_Traverse_ok [OF n(1), of es] n(3) by (simp add: b_def build_program_def)
  then have "reachable_from (succs_of (CFGraph b)) 0 i" if "i < length (BasicBlocks (CFGraph b))" for i
    using that n(4) by (cases "i = 0") (auto simp: covers_def)
  with ok show "fresh_graph (CFGraph b)"
    by (auto simp: fresh_graph_def builder_ok_def cfg_ok_def graph_ok_def links_ok_def unanalysed_def succs_of_def)
  show "Dominator (block (CFGraph b) 0) = mem 0"
    using ok by (auto simp: builder_ok_def cfg_ok_def unanalysed_def)
qed

end
