(* ===== verification/Ssa_Phi.thy ===== *)
theory Ssa_Phi
  imports Ssa_Graph
begin

text \<open>
  Phi insertion. A block gets exactly one phi node for every variable in whose iterated dominance
  frontier it lies, with one argument per predecessor; and that frontier contains every block where
  walks from two assignments meet.
\<close>

section \<open>Meeting points\<close>

lemma iterated_fix: "iterated_frontier s r S = \<Union> (frontier s r ` (iterated_frontier s r S \<union> S))"
  using lfp_fixpoint [OF frontier_step_mono, of s r S]
  by (simp add: iterated_frontier_def frontier_step_def)

lemma iterated_member:
  assumes "d \<in> S \<or> d \<in> iterated_frontier s r S" "y \<in> frontier s r d"
  shows "y \<in> iterated_frontier s r S"
  using assms iterated_fix [of s r S] by blast

lemma walk_frontier:
  assumes "x \<in> S" "reachable_from s r x"
  shows "walk s x ws z \<Longrightarrow> \<exists>d \<in> set (x # ws). dominates s r d z \<and> (d \<in> S \<or> d \<in> iterated_frontier s r S) \<and>
    (ws \<noteq> [] \<longrightarrow> z \<in> iterated_frontier s r S \<or> sdom s r d z)"
proof (induction ws arbitrary: z rule: rev_induct)
  case (snoc z' ws)
  then obtain w where w: "walk s x ws w" "z \<in> set (s w)" "z' = z" by (auto simp: walk_snoc)
  from snoc.IH [OF w(1)] obtain d where
    d: "d \<in> set (x # ws)" "dominates s r d w" "d \<in> S \<or> d \<in> iterated_frontier s r S" by blast
  have rw: "reachable_from s r w"
    using assms(2) w(1) unfolding reachable_from_def by (metis walk_append)
  show ?case
  proof (cases "sdom s r d z")
    case True
    with d show ?thesis by (intro bexI [of _ d]) (auto simp: sdom_def)
  next
    case False
    then have "z \<in> frontier s r d" using rw w(2) d(2) by (auto simp: frontier_def)
    then have "z \<in> iterated_frontier s r S" using d(3) by (intro iterated_member)
    then show ?thesis using w(3) by (intro bexI [of _ z]) auto
  qed
qed (use assms in auto)

text \<open>A node where two walks from elements of \<open>S\<close> meet, disjoint before it, is in the iterated frontier.\<close>

lemma dominates_avoiding:
  assumes "sdom s r d z" "walk s y us z" "d \<notin> set (y # butlast us)" "e \<in> set (y # us)" "e \<noteq> z"
  shows "dominates s r d e"
  unfolding dominates_def
proof (intro allI impI)
  fix vs assume "walk s r vs e"
  from walk_take [OF assms(2,4)] obtain us1 us2 where u: "us = us1 @ us2" "walk s e us2 z" by blast
  with \<open>walk s r vs e\<close> have "walk s r (vs @ us2) z" by (auto simp: walk_append)
  with assms(1) have "d \<in> set (r # vs @ us2)" "d \<noteq> z" by (auto simp: sdom_def dominates_def)
  moreover have "d \<notin> set us2"
  proof
    assume "d \<in> set us2"
    then have "us2 \<noteq> []" by auto
    then have "last us2 = z" using u(2) by (metis append_butlast_last_id walk_snoc)
    with \<open>d \<in> set us2\<close> \<open>d \<noteq> z\<close> \<open>us2 \<noteq> []\<close> have "d \<in> set (butlast us2)"
      by (metis append_butlast_last_id rotate1.simps(2) set_ConsD set_rotate1)
    with assms(3) u(1) \<open>us2 \<noteq> []\<close> show False by (simp add: butlast_append)
  qed
  ultimately show "d \<in> set (r # vs)" by auto
qed

lemma set_walk_butlast: "walk s x ws z \<Longrightarrow> set (x # ws) \<subseteq> insert z (set (x # butlast ws))"
  by (cases ws rule: rev_cases) (auto simp: walk_snoc)

lemma join_in_frontier:
  assumes "x \<in> S" "y \<in> S" "reachable_from s r x" "reachable_from s r y"
    and "walk s x ws z" "ws \<noteq> []" "walk s y us z" "us \<noteq> []"
    and "set (x # butlast ws) \<inter> set (y # butlast us) = {}"
  shows "z \<in> iterated_frontier s r S"
proof (rule ccontr)
  assume n: "z \<notin> iterated_frontier s r S"
  from walk_frontier [OF assms(1,3,5)] n assms(6) obtain d where d: "d \<in> set (x # ws)" "sdom s r d z" by blast
  from walk_frontier [OF assms(2,4,7)] n assms(8) obtain e where e: "e \<in> set (y # us)" "sdom s r e z" by blast
  have neq: "d \<noteq> z" "e \<noteq> z" using d e by (auto simp: sdom_def)
  then have "d \<in> set (x # butlast ws)" "e \<in> set (y # butlast us)"
    using set_walk_butlast [OF assms(5)] set_walk_butlast [OF assms(7)] d e by auto
  then have av: "d \<notin> set (y # butlast us)" "e \<notin> set (x # butlast ws)" "d \<noteq> e" using assms(9) by auto
  have "dominates s r d e" using dominates_avoiding [OF d(2) assms(7) av(1) e(1) neq(2)] .
  moreover have "dominates s r e d" using dominates_avoiding [OF e(2) assms(5) av(2) d(1) neq(1)] .
  moreover have "reachable_from s r d"
  proof -
    have "reachable_from s r z" using assms(3,5) unfolding reachable_from_def by (metis walk_append)
    then show ?thesis using d(2) dominator_reachable by (auto simp: sdom_def)
  qed
  ultimately show False using dominates_antisym av(3) by blast
qed

section \<open>Phi nodes\<close>

definition phi_for :: "symbol_cell list \<Rightarrow> nat list \<Rightarrow> string \<Rightarrow> IRNode \<Rightarrow> bool" where
  "phi_for syms preds v st \<longleftrightarrow> (case st of IRPhiNode a m \<Rightarrow>
       a < length syms \<and> sym_name (syms ! a) = v \<and> map fst m = sort preds \<and>
       (\<forall>c \<in> snd ` set m. c < length syms \<and> sym_name (syms ! c) = v)
     | _ \<Rightarrow> False)"

lemma phi_for_append: "phi_for syms preds v st \<Longrightarrow> phi_for (syms @ zs) preds v st"
  by (auto simp: phi_for_def nth_append split: IRNode.splits)

text \<open>\<open>code_frame h0 h\<close>: the blocks of \<open>h\<close> are those of \<open>h0\<close> up to their statements.\<close>

definition code_frame :: "CFG \<Rightarrow> CFG \<Rightarrow> bool" where
  "code_frame h0 h \<longleftrightarrow> length (BasicBlocks h) = length (BasicBlocks h0) \<and>
     DominanceFrontier h = DominanceFrontier h0 \<and>
     (\<forall>i < length (BasicBlocks h0). (block h i)\<lparr>Statements := []\<rparr> = (block h0 i)\<lparr>Statements := []\<rparr>)"

lemma code_frame_fields:
  assumes "code_frame h0 h" "i < length (BasicBlocks h0)"
  shows "Succs (block h i) = Succs (block h0 i)" "Preds (block h i) = Preds (block h0 i)"
    "Dominator (block h i) = Dominator (block h0 i)" "DominatingBlocks (block h i) = DominatingBlocks (block h0 i)"
proof -
  have "(block h i)\<lparr>Statements := []\<rparr> = (block h0 i)\<lparr>Statements := []\<rparr>"
    using assms by (simp add: code_frame_def)
  then show "Succs (block h i) = Succs (block h0 i)" "Preds (block h i) = Preds (block h0 i)"
    "Dominator (block h i) = Dominator (block h0 i)" "DominatingBlocks (block h i) = DominatingBlocks (block h0 i)"
    by (cases "block h i", cases "block h0 i", simp)+
qed

text \<open>The statements of every block are phi nodes for the variables \<open>ks i\<close> followed by those of \<open>h0\<close>.\<close>

definition phi_inv :: "CFG \<Rightarrow> (nat \<Rightarrow> string list) \<Rightarrow> CFGBuilder \<Rightarrow> bool" where
  "phi_inv h0 ks b \<longleftrightarrow> code_frame h0 (CFGraph b) \<and>
     (\<forall>i < length (BasicBlocks h0). \<exists>P. Statements (block (CFGraph b) i) = P @ Statements (block h0 i) \<and>
        list_all2 (phi_for (AllSymbols b) (Preds (block h0 i))) (ks i) P)"

lemma sort_key_zip:
  assumes "distinct xs" "length ys = length xs"
  shows "map fst (sort_key fst (zip xs ys)) = sort xs"
proof (rule sorted_mset_unique)
  show "mset (map fst (sort_key fst (zip xs ys))) = mset xs"
    using assms(2) by (metis mset_map mset_sort map_fst_zip)
  show "sorted (map fst (sort_key fst (zip xs ys)))" by simp
qed

lemma insert_phi_inv:
  assumes "phi_inv h0 ks b" "i < length (BasicBlocks h0)" "links_ok h0"
  shows "phi_inv h0 (ks(i := v # ks i)) (insert_phi v b i)"
proof -
  let ?b = "insert_phi v b i" and ?g = "CFGraph b" and ?s = "AllSymbols b"
  let ?p = "Preds (block ?g i)"
  let ?m = "sort_key fst (zip ?p [length ?s..<length ?s + length ?p])"
  let ?fresh = "replicate (length ?p + 1) (new_ASTSymbol v)"
  let ?phi = "IRPhiNode (length ?s + length ?p) ?m"
  have len: "length (BasicBlocks ?g) = length (BasicBlocks h0)" using assms(1) by (simp add: phi_inv_def code_frame_def)
  have g: "CFGraph ?b = on_block i (\<lambda>bl. bl\<lparr>Statements := ?phi # Statements bl\<rparr>) ?g" and s: "AllSymbols ?b = ?s @ ?fresh"
    by (simp_all add: insert_phi_def Let_def on_graph_def)
  have p: "?p = Preds (block h0 i)" using assms(1,2) code_frame_fields by (simp add: phi_inv_def)
  have "phi_for (AllSymbols ?b) ?p v ?phi"
  proof -
    have "map fst ?m = sort ?p" using assms(2,3) p by (intro sort_key_zip) (simp_all add: links_ok_def)
    moreover have "c < length (?s @ ?fresh) \<and> sym_name ((?s @ ?fresh) ! c) = v" if "c \<in> snd ` set ?m" for c
    proof -
      have "c \<in> {length ?s..<length ?s + length ?p}" using that by (auto dest: set_zip_rightD)
      then show ?thesis by (auto simp: nth_append new_ASTSymbol_def simp del: replicate_Suc)
    qed
    ultimately show ?thesis unfolding phi_for_def s
      by (auto simp: nth_append new_ASTSymbol_def simp del: replicate_Suc)
  qed
  moreover have "code_frame h0 (CFGraph ?b)"
    using assms(1,2) len unfolding g by (auto simp: phi_inv_def code_frame_def block_on_block)
  moreover have "\<exists>P. Statements (block (CFGraph ?b) j) = P @ Statements (block h0 j) \<and>
      list_all2 (phi_for (AllSymbols ?b) (Preds (block h0 j))) ((ks(i := v # ks i)) j) P"
    if j: "j < length (BasicBlocks h0)" for j
  proof -
    from assms(1) j obtain P where P: "Statements (block ?g j) = P @ Statements (block h0 j)"
      "list_all2 (phi_for ?s (Preds (block h0 j))) (ks j) P" by (auto simp: phi_inv_def)
    have P2: "list_all2 (phi_for (AllSymbols ?b) (Preds (block h0 j))) (ks j) P"
      unfolding s by (rule list_all2_mono [OF P(2)]) (rule phi_for_append)
    show ?thesis
    proof (cases "j = i")
      case True
      with P P2 len assms(2) p calculation(1) show ?thesis unfolding g
        by (intro exI [of _ "?phi # P"]) (simp add: block_on_block)
    next
      case False
      with P P2 len assms(2) show ?thesis unfolding g by (intro exI [of _ P]) (simp add: block_on_block)
    qed
  qed
  ultimately show ?thesis by (simp add: phi_inv_def)
qed

lemma insert_phi_list_inv:
  assumes "phi_inv h0 ks b" "set bs \<subseteq> {..<length (BasicBlocks h0)}" "distinct bs" "links_ok h0"
  shows "phi_inv h0 (\<lambda>i. if i \<in> set bs then v # ks i else ks i) (foldl (insert_phi v) b bs)"
  using assms
proof (induction bs arbitrary: b ks)
  case (Cons x bs)
  from Cons.prems have "phi_inv h0 (ks(x := v # ks x)) (insert_phi v b x)" by (intro insert_phi_inv) auto
  from Cons.IH [OF this] Cons.prems have "phi_inv h0 (\<lambda>i. if i \<in> set bs then v # (ks(x := v # ks x)) i
      else (ks(x := v # ks x)) i) (foldl (insert_phi v) (insert_phi v b x) bs)" by auto
  moreover have "(\<lambda>i. if i \<in> set bs then v # (ks(x := v # ks x)) i else (ks(x := v # ks x)) i) =
      (\<lambda>i. if i \<in> set (x # bs) then v # ks i else ks i)" using Cons.prems(3) by (auto simp: fun_eq_iff)
  ultimately show ?case by simp
qed simp

lemma phi_inv_frontier:
  assumes "fresh_graph g" "frontiers_of g h0" "phi_inv h0 ks b" "S \<subseteq> {..<length (BasicBlocks g)}"
  shows "GetDominanceFrontierForSubset S (CFGraph b) = Some (iterated_frontier (succs_of g) 0 S, CFGraph b)"
    "iterated_frontier (succs_of g) 0 S \<subseteq> {..<length (BasicBlocks g)}"
    "finite (iterated_frontier (succs_of g) 0 S)"
proof -
  let ?D = "iterated_frontier (succs_of g) 0 S"
  have "frontiers_of g (CFGraph b)"
    using assms(2,3) by (simp add: phi_inv_def code_frame_def frontiers_of_def df_map_def)
  then show "GetDominanceFrontierForSubset S (CFGraph b) = Some (?D, CFGraph b)"
    using iterated_result [OF assms(1)] assms(4) by auto
  have "frontier_step (succs_of g) 0 S ?D = ?D"
    unfolding frontier_step_def by (rule iterated_fix [symmetric])
  then show D: "?D \<subseteq> {..<length (BasicBlocks g)}" using frontier_step_below [OF assms(1), of S ?D] by simp
  then show "finite ?D" by (rule finite_subset) simp
qed

lemma insert_phis_inv:
  assumes "fresh_graph g" "frontiers_of g h0" "links_ok h0" "length (BasicBlocks h0) = length (BasicBlocks g)"
  shows "phi_inv h0 ks b \<Longrightarrow> \<forall>(v, S) \<in> set m. S \<subseteq> {..<length (BasicBlocks g)} \<Longrightarrow>
    \<exists>b'. insert_phis m b = Some b' \<and> BlocksForVariable b' = BlocksForVariable b \<and>
      phi_inv h0 (\<lambda>i. rev (map fst (filter (\<lambda>(v, S). i \<in> iterated_frontier (succs_of g) 0 S) m)) @ ks i) b'"
proof (induction m arbitrary: b ks)
  case (Cons vS m)
  obtain v S where vS: "vS = (v, S)" by (cases vS)
  let ?D = "iterated_frontier (succs_of g) 0 S"
  have "S \<subseteq> {..<length (BasicBlocks g)}" using Cons.prems(2) vS by simp
  note r = phi_inv_frontier(1) [OF assms(1,2) Cons.prems(1) this]
    and D = phi_inv_frontier(2) [OF assms(1,2) Cons.prems(1) this]
    and fin = phi_inv_frontier(3) [OF assms(1,2) Cons.prems(1) this]
  let ?b = "foldl (insert_phi v) b (sorted_list_of_set ?D)"
  have "phi_inv h0 (\<lambda>i. if i \<in> ?D then v # ks i else ks i) ?b"
    using insert_phi_list_inv [OF Cons.prems(1), of "sorted_list_of_set ?D" v] D fin assms(3,4) by simp
  from Cons.IH [OF this] Cons.prems(2) obtain b' where
    b': "insert_phis m ?b = Some b'" "BlocksForVariable b' = BlocksForVariable ?b"
      "phi_inv h0 (\<lambda>i. rev (map fst (filter (\<lambda>(v, S). i \<in> iterated_frontier (succs_of g) 0 S) m)) @
         (if i \<in> ?D then v # ks i else ks i)) b'" by auto
  have "BlocksForVariable (foldl (insert_phi v) b bs) = BlocksForVariable b" for bs
    by (induction bs arbitrary: b) (simp_all add: insert_phi_def Let_def)
  moreover have "(\<lambda>i. rev (map fst (filter (\<lambda>(v, S). i \<in> iterated_frontier (succs_of g) 0 S) m)) @
         (if i \<in> ?D then v # ks i else ks i)) =
      (\<lambda>i. rev (map fst (filter (\<lambda>(v, S). i \<in> iterated_frontier (succs_of g) 0 S) (vS # m))) @ ks i)"
    by (auto simp: vS fun_eq_iff)
  moreover have "insert_phis (vS # m) b = Some b'" using r b'(1) by (simp add: vS insert_phis_for_def)
  ultimately show ?case using b'(2,3) by auto
qed simp

end
