(* ===== verification/Ssa_Symbols.thy ===== *)
theory Ssa_Symbols
  imports Ssa_Phi
begin

text \<open>
  The symbol objects a graph refers to. A tree in which every \<open>ASTSymbol\<close> object occurs once gives a
  graph in which it occurs at most once, and phi insertion adds only fresh objects; so the objects
  that are defined and those that are used are all different.
\<close>

fun def_of :: "IRNode \<Rightarrow> addr list" where
  "def_of (IRAssignment v e) = [v]"
| "def_of (IRBranch c t f) = []"
| "def_of (IRPhiNode v m) = [v]"

fun ast_uses :: "ASTNode \<Rightarrow> addr list" where
  "ast_uses (ASTNumber v) = []"
| "ast_uses (ASTSymbol a) = [a]"
| "ast_uses (ASTAssign v e) = v # ast_uses e"
| "ast_uses (ASTIf c t e) = []"
| "ast_uses (ASTFor i s e st b) = []"
| "ast_uses (ASTBinary op l r) = ast_uses l @ ast_uses r"

fun uses_of :: "IRNode \<Rightarrow> addr list" where
  "uses_of (IRAssignment v e) = ast_uses e"
| "uses_of (IRBranch c t f) = (case c of Some e \<Rightarrow> ast_uses e | None \<Rightarrow> [])"
| "uses_of (IRPhiNode v m) = map snd m"

text \<open>All symbol objects of a tree.\<close>

fun ast_symbols :: "ASTNode \<Rightarrow> addr list" where
  "ast_symbols (ASTNumber v) = []"
| "ast_symbols (ASTSymbol a) = [a]"
| "ast_symbols (ASTAssign v e) = v # ast_symbols e"
| "ast_symbols (ASTIf c t e) = ast_symbols c @ ast_symbols t @ ast_symbols e"
| "ast_symbols (ASTFor i s e st b) = i # ast_symbols s @ ast_symbols e @ ast_symbols st @ ast_symbols b"
| "ast_symbols (ASTBinary op l r) = ast_symbols l @ ast_symbols r"

lemma set_ast_uses: "set (ast_uses e) = ast_variables e"
  by (induction e) auto

lemma set_uses_of: "AllVarsUsedInStatement st \<subseteq> set (uses_of st)"
  by (cases st) (auto simp: set_ast_uses split: option.splits)

lemma ast_uses_symbols: "mset (ast_uses e) \<subseteq># mset (ast_symbols e)"
  by (induction e) (auto intro: subset_mset.add_mono)

definition block_defs :: "CFGBlock \<Rightarrow> addr list" where
  "block_defs b = concat (map def_of (Statements b))"

definition block_uses :: "CFGBlock \<Rightarrow> addr list" where
  "block_uses b = concat (map uses_of (Statements b))"

definition graph_defs :: "CFG \<Rightarrow> addr list" where
  "graph_defs g = concat (map block_defs (BasicBlocks g))"

definition graph_uses :: "CFG \<Rightarrow> addr list" where
  "graph_uses g = concat (map block_uses (BasicBlocks g))"

definition graph_symbols :: "CFG \<Rightarrow> addr multiset" where
  "graph_symbols g = mset (graph_defs g) + mset (graph_uses g)"

definition stmt_symbols :: "IRNode \<Rightarrow> addr multiset" where
  "stmt_symbols st = mset (def_of st) + mset (uses_of st)"

definition symbols_ok :: "symbol_cell list \<Rightarrow> CFG \<Rightarrow> bool" where
  "symbols_ok syms g \<longleftrightarrow> distinct (graph_defs g @ graph_uses g) \<and>
     set (graph_defs g @ graph_uses g) \<subseteq> {..<length syms}"

lemma distinct_submset: "mset xs \<subseteq># mset ys \<Longrightarrow> distinct ys \<Longrightarrow> distinct xs"
  unfolding mset_subset_eq_exists_conv
  by (metis distinct_append mset_append mset_eq_imp_distinct_iff ex_mset)

lemma concat_update:
  assumes "i < length xs" "mset (f y) = mset (f (xs ! i)) + M"
  shows "mset (concat (map f (xs[i := y]))) = mset (concat (map f xs)) + M"
  using assms
proof (induction xs arbitrary: i)
  case (Cons x xs)
  then show ?case by (cases i) auto
qed simp

lemma graph_symbols_update:
  assumes "i < length (BasicBlocks g)"
    "mset (block_defs (f (block g i))) + mset (block_uses (f (block g i))) =
     mset (block_defs (block g i)) + mset (block_uses (block g i)) + M"
  shows "graph_symbols (on_block i f g) = graph_symbols g + M"
proof -
  let ?F = "\<lambda>b. block_defs b @ block_uses b"
  have split: "mset (concat (map ?F bs)) = mset (concat (map block_defs bs)) + mset (concat (map block_uses bs))" for bs
    by (induction bs) auto
  have "mset (concat (map ?F ((BasicBlocks g)[i := f (block g i)]))) = mset (concat (map ?F (BasicBlocks g))) + M"
    using assms by (intro concat_update) (simp_all add: block_def)
  then show ?thesis unfolding split
    by (simp add: graph_symbols_def graph_defs_def graph_uses_def on_block_def block_def)
qed

lemma graph_symbols_same:
  assumes "length (BasicBlocks h) = length (BasicBlocks g)"
    "\<And>i. i < length (BasicBlocks g) \<Longrightarrow> Statements (block h i) = Statements (block g i)"
  shows "graph_defs h = graph_defs g" "graph_uses h = graph_uses g"
proof -
  have "map Statements (BasicBlocks h) = map Statements (BasicBlocks g)"
    using assms by (intro nth_equalityI) (auto simp: block_def)
  then have "map (F \<circ> Statements) (BasicBlocks h) = map (F \<circ> Statements) (BasicBlocks g)" for F :: "IRNode list \<Rightarrow> addr list"
    by (metis map_map)
  from this [of "\<lambda>ss. concat (map def_of ss)"] this [of "\<lambda>ss. concat (map uses_of ss)"]
  show "graph_defs h = graph_defs g" "graph_uses h = graph_uses g"
    by (simp_all add: graph_defs_def graph_uses_def block_defs_def [abs_def] block_uses_def [abs_def] comp_def)
qed

lemma graph_symbols_statement:
  "i < length (BasicBlocks g) \<Longrightarrow> graph_symbols (on_block i (AddStatement st) g) = graph_symbols g + stmt_symbols st"
  by (rule graph_symbols_update)
    (simp_all add: AddStatement_def block_defs_def block_uses_def stmt_symbols_def)

lemma graph_symbols_AddLink:
  "i < length (BasicBlocks g) \<Longrightarrow> j < length (BasicBlocks g) \<Longrightarrow> graph_symbols (AddLink i j g) = graph_symbols g"
  using graph_symbols_same [of "AddLink i j g" g] by (simp add: AddLink_block graph_symbols_def)

lemma graph_symbols_add_block [simp]: "graph_symbols (add_block mem label g) = graph_symbols g"
  by (simp add: graph_symbols_def graph_defs_def graph_uses_def add_block_def new_block_def
      block_defs_def block_uses_def)

lemma branch_symbols:
  assumes "builder_ok mem b" "t < length (BasicBlocks (CFGraph b))"
  shows "graph_symbols (CFGraph (CreateBranch t b)) = graph_symbols (CFGraph b)"
  using assms builder_okD(2) [OF assms(1)]
  by (simp add: CreateBranch_def graph_symbols_statement graph_symbols_AddLink stmt_symbols_def)

lemma cond_symbols:
  assumes "builder_ok mem b" "t < length (BasicBlocks (CFGraph b))" "f < length (BasicBlocks (CFGraph b))"
  shows "graph_symbols (CFGraph (CreateConditionalBranch c t f b)) = graph_symbols (CFGraph b) + mset (ast_uses c)"
  using assms builder_okD(2) [OF assms(1)]
  by (simp add: CreateConditionalBranch_def graph_symbols_statement graph_symbols_AddLink stmt_symbols_def)

lemma open_if_symbols:
  assumes "builder_ok mem b"
  shows "graph_symbols (CFGraph (open_if mem c b)) = graph_symbols (CFGraph b) + mset (ast_uses c)"
  using assms cond_symbols [of mem "on_graph (add_block mem ''IfContinue'')
    (on_graph (add_block mem ''Else'') (on_graph (add_block mem ''Then'') b))"]
  by (simp add: open_if_def builder_ok_create)

lemma Traverse_symbols:
  "builder_ok mem b \<Longrightarrow> graph_symbols (CFGraph (Traverse mem e b)) \<subseteq># graph_symbols (CFGraph b) + mset (ast_symbols e)"
proof (induction e arbitrary: b)
  case (ASTAssign v e)
  then show ?case using builder_okD(2) [OF ASTAssign.prems] ast_uses_symbols [of e]
    by (simp add: graph_symbols_statement stmt_symbols_def)
next
  case (ASTBinary op l r)
  from ASTBinary.IH(1) [OF ASTBinary.prems] ASTBinary.IH(2) Traverse_ok [OF ASTBinary.prems, of l]
  have "graph_symbols (CFGraph (Traverse mem l b)) \<subseteq># graph_symbols (CFGraph b) + mset (ast_symbols l)"
    "graph_symbols (CFGraph (Traverse mem r (Traverse mem l b))) \<subseteq>#
       graph_symbols (CFGraph (Traverse mem l b)) + mset (ast_symbols r)" by auto
  then show ?case by (simp add: add.assoc [symmetric]) (metis subset_mset.add_right_mono subset_mset.order_trans)
next
  case (ASTIf cond thenExp elseExp)
  let ?n = "length (BasicBlocks (CFGraph b))" and ?S = "\<lambda>b. graph_symbols (CFGraph b)"
  define b4 where "b4 = open_if mem cond b"
  define bt where "bt = Traverse mem thenExp (b4\<lparr>CurrentBlock := ?n\<rparr>)"
  define b5 where "b5 = CreateBranch (?n + 2) bt"
  define be where "be = Traverse mem elseExp (b5\<lparr>CurrentBlock := ?n + 1\<rparr>)"
  have T: "Traverse mem (ASTIf cond thenExp elseExp) b = (CreateBranch (?n + 2) be)\<lparr>CurrentBlock := ?n + 2\<rparr>"
    by (simp add: Traverse_if b4_def bt_def b5_def be_def Let_def del: Traverse.simps)
  note o = open_if_ok [OF ASTIf.prems refl, of cond, folded b4_def]
  have t: "builder_ok mem bt" "?n + 3 \<le> length (BasicBlocks (CFGraph bt))"
    using Traverse_ok [OF o(7), of thenExp] o(2) by (auto simp: bt_def covers_def extends_graph_def)
  have l5: "length (BasicBlocks (CFGraph b5)) = length (BasicBlocks (CFGraph bt))"
    unfolding b5_def using branch_graph(1) [OF builder_okD(2) [OF t(1)]] t(2) by simp
  have ok5: "builder_ok mem (b5\<lparr>CurrentBlock := ?n + 1\<rparr>)"
    using builder_ok_branch [OF t(1), of "?n + 2"] t(2) l5 unfolding b5_def by (intro builder_ok_current) simp_all
  have e: "builder_ok mem be" "?n + 3 \<le> length (BasicBlocks (CFGraph be))"
    using Traverse_ok [OF ok5, of elseExp] t(2) l5 by (auto simp: be_def covers_def extends_graph_def)
  have "?S (Traverse mem (ASTIf cond thenExp elseExp) b) = ?S be"
    unfolding T using branch_symbols [OF e(1), of "?n + 2"] e(2) by simp
  moreover have "?S be \<subseteq># ?S b5 + mset (ast_symbols elseExp)" using ASTIf.IH(3) [OF ok5] by (simp add: be_def)
  moreover have "?S b5 = ?S bt" unfolding b5_def using branch_symbols [OF t(1), of "?n + 2"] t(2) by simp
  moreover have "?S bt \<subseteq># ?S b4 + mset (ast_symbols thenExp)" using ASTIf.IH(2) [OF o(7)] by (simp add: bt_def)
  moreover have "?S b4 \<subseteq># ?S b + mset (ast_symbols cond)"
    unfolding b4_def using open_if_symbols [OF ASTIf.prems] ast_uses_symbols [of cond] by simp
  ultimately show ?case
    by (simp add: add.assoc [symmetric]) (meson subset_mset.add_right_mono subset_mset.order_trans)
qed (simp_all)

lemma build_program_symbols:
  assumes "distinct (concat (map ast_symbols es))" "set (concat (map ast_symbols es)) \<subseteq> {..<length syms}"
  shows "symbols_ok syms (CFGraph (build_program mem syms es))"
proof -
  let ?n = "new_CFGBuilder mem syms"
  have "graph_symbols (CFGraph (foldl (\<lambda>b e. Traverse mem e b) b es)) \<subseteq>#
      graph_symbols (CFGraph b) + mset (concat (map ast_symbols es))" if "builder_ok mem b" for b
    using that
  proof (induction es arbitrary: b)
    case (Cons e es)
    from Cons.IH [of "Traverse mem e b"] Traverse_ok [OF Cons.prems, of e] Traverse_symbols [OF Cons.prems, of e]
    show ?case by (simp add: add.assoc [symmetric]) (meson subset_mset.add_right_mono subset_mset.order_trans)
  qed simp
  from this [of ?n] new_builder_ok [of mem syms] have
    "graph_symbols (CFGraph (build_program mem syms es)) \<subseteq># graph_symbols (CFGraph ?n) + mset (concat (map ast_symbols es))"
    by (simp add: build_program_def)
  moreover have "graph_symbols (CFGraph ?n) = {#}"
    by (simp add: new_CFGBuilder_def CreateBlock_eq empty_CFG_def graph_symbols_def graph_defs_def graph_uses_def
        add_block_def new_block_def block_defs_def block_uses_def)
  ultimately have m: "mset (graph_defs (CFGraph (build_program mem syms es)) @ graph_uses (CFGraph (build_program mem syms es)))
      \<subseteq># mset (concat (map ast_symbols es))" by (simp add: graph_symbols_def)
  from distinct_submset [OF m assms(1)] subset_trans [OF set_mset_mono [OF m], unfolded set_mset_mset, OF assms(2)]
  show ?thesis unfolding symbols_ok_def by (rule conjI)
qed

section \<open>Symbols of phi nodes\<close>

lemma insert_phi_symbols:
  assumes "symbols_ok (AllSymbols b) (CFGraph b)" "i < length (BasicBlocks (CFGraph b))"
  shows "symbols_ok (AllSymbols (insert_phi v b i)) (CFGraph (insert_phi v b i))"
proof -
  let ?b = "insert_phi v b i" and ?g = "CFGraph b" and ?s = "length (AllSymbols b)"
  let ?p = "Preds (block ?g i)"
  let ?m = "sort_key fst (zip ?p [?s..<?s + length ?p])"
  have "graph_symbols (CFGraph ?b) = graph_symbols ?g + mset ([?s..<?s + length ?p] @ [?s + length ?p])"
  proof -
    have "mset (map snd ?m) = mset [?s..<?s + length ?p]"
      by (metis mset_map mset_sort map_snd_zip length_upt add_diff_cancel_left')
    then have "graph_symbols (on_block i (\<lambda>bl. bl\<lparr>Statements := IRPhiNode (?s + length ?p) ?m # Statements bl\<rparr>) ?g) =
        graph_symbols ?g + mset ([?s..<?s + length ?p] @ [?s + length ?p])"
      using assms(2) by (intro graph_symbols_update) (simp_all add: block_defs_def block_uses_def)
    then show ?thesis by (simp add: insert_phi_def Let_def on_graph_def)
  qed
  then have m: "mset (graph_defs (CFGraph ?b) @ graph_uses (CFGraph ?b)) =
      mset ((graph_defs ?g @ graph_uses ?g) @ [?s..<?s + length ?p] @ [?s + length ?p])"
    by (simp add: graph_symbols_def)
  have "distinct ((graph_defs ?g @ graph_uses ?g) @ [?s..<?s + length ?p] @ [?s + length ?p])"
    using assms(1) by (auto simp: symbols_ok_def)
  then have "distinct (graph_defs (CFGraph ?b) @ graph_uses (CFGraph ?b))"
    using mset_eq_imp_distinct_iff [OF m] by blast
  moreover have "length (AllSymbols ?b) = ?s + length ?p + 1" by (simp add: insert_phi_def Let_def)
  ultimately show ?thesis using mset_eq_setD [OF m] assms(1) by (auto simp: symbols_ok_def)
qed

lemma insert_phi_length: "length (BasicBlocks (CFGraph (insert_phi v b i))) = length (BasicBlocks (CFGraph b))"
  by (simp add: insert_phi_def Let_def)

lemma insert_phi_prefix: "\<exists>zs. AllSymbols (insert_phi v b i) = AllSymbols b @ zs"
  by (simp add: insert_phi_def Let_def)

lemma insert_phi_list_symbols:
  assumes "symbols_ok (AllSymbols b) (CFGraph b)" "set bs \<subseteq> {..<length (BasicBlocks (CFGraph b))}"
  shows "symbols_ok (AllSymbols (foldl (insert_phi v) b bs)) (CFGraph (foldl (insert_phi v) b bs)) \<and>
    (\<exists>zs. AllSymbols (foldl (insert_phi v) b bs) = AllSymbols b @ zs)"
  using assms
proof (induction bs arbitrary: b)
  case (Cons x bs)
  have "symbols_ok (AllSymbols (insert_phi v b x)) (CFGraph (insert_phi v b x))"
    using Cons.prems by (intro insert_phi_symbols) auto
  from Cons.IH [OF this] Cons.prems insert_phi_prefix [of v b x]
  show ?case by (auto simp: insert_phi_length)
qed simp

lemma insert_phis_symbols:
  assumes "fresh_graph g" "frontiers_of g h0" "links_ok h0" "length (BasicBlocks h0) = length (BasicBlocks g)"
  shows "phi_inv h0 ks b \<Longrightarrow> \<forall>(v, S) \<in> set m. S \<subseteq> {..<length (BasicBlocks g)} \<Longrightarrow>
    symbols_ok (AllSymbols b) (CFGraph b) \<Longrightarrow> insert_phis m b = Some b' \<Longrightarrow>
    symbols_ok (AllSymbols b') (CFGraph b') \<and> (\<exists>zs. AllSymbols b' = AllSymbols b @ zs)"
proof (induction m arbitrary: b ks)
  case (Cons vS m)
  obtain v S where vS: "vS = (v, S)" by (cases vS)
  let ?D = "iterated_frontier (succs_of g) 0 S"
  have "S \<subseteq> {..<length (BasicBlocks g)}" using Cons.prems(2) vS by simp
  note r = phi_inv_frontier [OF assms(1,2) Cons.prems(1) this]
  let ?b = "foldl (insert_phi v) b (sorted_list_of_set ?D)"
  have len: "length (BasicBlocks (CFGraph b)) = length (BasicBlocks g)"
    using Cons.prems(1) assms(4) by (simp add: phi_inv_def code_frame_def)
  have "phi_inv h0 (\<lambda>i. if i \<in> set (sorted_list_of_set ?D) then v # ks i else ks i) ?b"
    using insert_phi_list_inv [OF Cons.prems(1), of "sorted_list_of_set ?D" v] r(2,3) assms(3,4) by simp
  moreover have s: "symbols_ok (AllSymbols ?b) (CFGraph ?b)" "\<exists>zs. AllSymbols ?b = AllSymbols b @ zs"
    using insert_phi_list_symbols [OF Cons.prems(3)] r(2,3) len by simp_all
  moreover have "insert_phis m ?b = Some b'" using Cons.prems(4) r(1) by (simp add: vS insert_phis_for_def)
  moreover have "\<forall>(v, S) \<in> set m. S \<subseteq> {..<length (BasicBlocks g)}" using Cons.prems(2) by simp
  ultimately have "symbols_ok (AllSymbols b') (CFGraph b') \<and> (\<exists>zs. AllSymbols b' = AllSymbols ?b @ zs)"
    using Cons.IH by blast
  with s(2) show ?case by auto
qed simp

end
