(* ===== verification/Ssa_Rename.thy ===== *)
theory Ssa_Rename
  imports Ssa_Symbols
begin

text \<open>
  Renaming of one variable. The traversal of the dominator tree gives the definitions of the
  variable the numbers from zero in the order it meets them, changes no symbol of another name, and
  never looks at the top of an empty stack when the entry block defines the variable first.
\<close>

section \<open>One block\<close>

definition names :: "SSABuilder \<Rightarrow> addr \<Rightarrow> string" where
  "names st a = sym_name (Symbols st ! a)"

text \<open>
  \<open>renamed nm v U D st st'\<close>: the definitions \<open>D\<close> got the next numbers, and otherwise only uses in \<open>U\<close>
  named \<open>v\<close> may have changed.
\<close>

definition renamed :: "(addr \<Rightarrow> string) \<Rightarrow> string \<Rightarrow> addr set \<Rightarrow> addr list \<Rightarrow> SSABuilder \<Rightarrow> SSABuilder \<Rightarrow> bool" where
  "renamed nm v U D st st' \<longleftrightarrow> names st' = nm \<and> length (Symbols st') = length (Symbols st) \<and>
     Counter st' = Counter st + int (length D) \<and>
     (\<forall>a. (a \<notin> set D \<and> a \<notin> U) \<or> nm a \<noteq> v \<longrightarrow> Symbols st' ! a = Symbols st ! a) \<and>
     (\<forall>j < length D. SSAIndex (Symbols st' ! (D ! j)) = Counter st + int j)"

lemma renamed_refl: "names st = nm \<Longrightarrow> renamed nm v U [] st st"
  by (simp add: renamed_def)

lemma renamed_trans:
  assumes "renamed nm v U D st st1" "renamed nm v U E st1 st2" "distinct (D @ E)" "set D \<inter> U = {}"
  shows "renamed nm v U (D @ E) st st2"
proof -
  have "SSAIndex (Symbols st2 ! (D ! j)) = Counter st + int j" if "j < length D" for j
  proof -
    have "D ! j \<in> set D" using that by simp
    then have "D ! j \<notin> set E" "D ! j \<notin> U" using assms(3,4) by auto
    then have "Symbols st2 ! (D ! j) = Symbols st1 ! (D ! j)" using assms(2) by (simp add: renamed_def)
    then show ?thesis using assms(1) that by (simp add: renamed_def)
  qed
  moreover have "SSAIndex (Symbols st2 ! (E ! j)) = Counter st + int (length D + j)" if "j < length E" for j
    using assms(1,2) that by (simp add: renamed_def)
  ultimately have "SSAIndex (Symbols st2 ! ((D @ E) ! j)) = Counter st + int j" if "j < length (D @ E)" for j
    using that by (cases "j < length D") (auto simp: nth_append dest: le_Suc_ex)
  then show ?thesis using assms(1,2) by (simp add: renamed_def)
qed

lemma names_SetSSAIndex: "sym_name (SetSSAIndex a i syms ! b) = sym_name (syms ! b)"
  by (cases "a = b"; cases "a < length syms") (simp_all add: SetSSAIndex_def list_update_beyond)

lemma nth_SetSSAIndex: "a \<noteq> b \<Longrightarrow> SetSSAIndex a i syms ! b = syms ! b"
  by (simp add: SetSSAIndex_def)

lemma index_SetSSAIndex: "a < length syms \<Longrightarrow> SSAIndex (SetSSAIndex a i syms ! a) = i"
  by (simp add: SetSSAIndex_def)

lemma length_SetSSAIndex [simp]: "length (SetSSAIndex a i syms) = length syms"
  by (simp add: SetSSAIndex_def)

lemma define_symbol_renamed:
  assumes "names st = nm" "nm a = v" "a < length (Symbols st)"
  shows "renamed nm v U [a] st (define_symbol a st)" "length (Stack (define_symbol a st)) = Suc (length (Stack st))"
    "Stack (define_symbol a st) \<noteq> []"
proof -
  have "Symbols (define_symbol a st) ! x = Symbols st ! x" if "(x \<notin> set [a] \<and> x \<notin> U) \<or> nm x \<noteq> v" for x
  proof -
    have "a \<noteq> x" using that assms(2) by auto
    then show ?thesis by (simp add: define_symbol_def nth_SetSSAIndex)
  qed
  moreover have "names (define_symbol a st) = nm"
    using assms(1) by (simp add: names_def [abs_def] define_symbol_def names_SetSSAIndex)
  ultimately show "renamed nm v U [a] st (define_symbol a st)"
    using assms(3) unfolding renamed_def by (simp add: define_symbol_def index_SetSSAIndex)
qed (simp_all add: define_symbol_def)

lemma rename_uses_renamed:
  assumes "names st = nm" "set as \<subseteq> U" "Stack st \<noteq> [] \<or> (\<forall>a \<in> set as. nm a \<noteq> v)"
  shows "\<exists>st'. rename_uses v as st = Some st' \<and> renamed nm v U [] st st' \<and> Stack st' = Stack st"
  using assms
proof (induction as arbitrary: st)
  case (Cons a as)
  show ?case
  proof (cases "nm a = v")
    case True
    with Cons.prems obtain i s where s: "Stack st = i # s" by (cases "Stack st") auto
    let ?st = "st\<lparr>Symbols := SetSSAIndex a i (Symbols st)\<rparr>"
    have "names ?st = nm" using Cons.prems(1) by (auto simp: names_def [abs_def] names_SetSSAIndex fun_eq_iff)
    with Cons.IH [of ?st] Cons.prems s obtain st' where
      st': "rename_uses v as ?st = Some st'" "renamed nm v U [] ?st st'" "Stack st' = Stack st" by auto
    have "Symbols ?st ! x = Symbols st ! x" if "x \<notin> U \<or> nm x \<noteq> v" for x
    proof -
      have "a \<noteq> x" using that True Cons.prems(2) by auto
      then show ?thesis by (simp add: nth_SetSSAIndex)
    qed
    then have "renamed nm v U [] st st'" using st'(2) by (simp add: renamed_def)
    with st' s True Cons.prems(1) show ?thesis by (auto simp: names_def)
  next
    case False
    with Cons.IH [of st] Cons.prems show ?thesis by (auto simp: names_def)
  qed
qed (simp add: renamed_refl)

text \<open>The first mention of the variable in the statements is a definition.\<close>

fun starts_defined :: "(addr \<Rightarrow> string) \<Rightarrow> string \<Rightarrow> IRNode list \<Rightarrow> bool" where
  "starts_defined nm v [] = False"
| "starts_defined nm v (s # ss) =
     ((\<forall>a \<in> AllVarsUsedInStatement s. nm a \<noteq> v) \<and> (v \<in> nm ` set (def_of s) \<or> starts_defined nm v ss))"

definition defs_named :: "(addr \<Rightarrow> string) \<Rightarrow> string \<Rightarrow> IRNode list \<Rightarrow> addr list" where
  "defs_named nm v ss = filter (\<lambda>a. nm a = v) (concat (map def_of ss))"

lemma defs_named_simps [simp]:
  "defs_named nm v [] = []"
  "defs_named nm v (s # ss) = filter (\<lambda>a. nm a = v) (def_of s) @ defs_named nm v ss"
  by (simp_all add: defs_named_def)

lemma finite_used: "finite (AllVarsUsedInStatement s)"
  using set_uses_of [of s] by (rule finite_subset) simp

lemma rename_statement_renamed:
  assumes "names st = nm" "set (uses_of s) \<subseteq> U" "set (def_of s) \<subseteq> {..<length (Symbols st)}"
    "Stack st \<noteq> [] \<or> (\<forall>a \<in> AllVarsUsedInStatement s. nm a \<noteq> v)"
  shows "\<exists>st'. rename_statement v s st = Some st' \<and> renamed nm v U (filter (\<lambda>a. nm a = v) (def_of s)) st st' \<and>
    length (Stack st') = length (Stack st) + length (filter (\<lambda>a. nm a = v) (def_of s))"
proof -
  from rename_uses_renamed [OF assms(1), of "sorted_list_of_set (AllVarsUsedInStatement s)" U v]
    assms(2,4) set_uses_of [of s] finite_used [of s] obtain st1 where
    st1: "rename_uses v (sorted_list_of_set (AllVarsUsedInStatement s)) st = Some st1"
      "renamed nm v U [] st st1" "Stack st1 = Stack st" by auto
  show ?thesis
  proof (cases s)
    case (IRPhiNode a m)
    with assms define_symbol_renamed(1) [OF assms(1), where a = a and v = v and U = U] define_symbol_renamed(2) [OF assms(1), where a = a and v = v] show ?thesis
      by (auto simp: names_def [symmetric] renamed_refl)
  next
    case (IRBranch c t f)
    with st1 show ?thesis by auto
  next
    case (IRAssignment a e)
    have n1: "names st1 = nm" "length (Symbols st1) = length (Symbols st)" using st1(2) by (simp_all add: renamed_def)
    show ?thesis
    proof (cases "nm a = v")
      case True
      with define_symbol_renamed(1) [OF n1(1) True, where U = U] define_symbol_renamed(2) [OF n1(1) True] n1(2) assms(3) IRAssignment
      have d: "renamed nm v U [a] st1 (define_symbol a st1)" "length (Stack (define_symbol a st1)) = Suc (length (Stack st1))"
        by auto
      from renamed_trans [OF st1(2) d(1)] have "renamed nm v U [a] st (define_symbol a st1)" by simp
      with st1 d(2) IRAssignment True n1(1) show ?thesis by (auto simp: names_def [abs_def])
    next
      case False
      with st1 IRAssignment n1(1) show ?thesis by (auto simp: names_def [abs_def])
    qed
  qed
qed

lemma rename_statements_renamed:
  assumes "names st = nm" "set (concat (map uses_of ss)) \<subseteq> U" "set (concat (map def_of ss)) \<subseteq> {..<length (Symbols st)}"
    "Stack st \<noteq> [] \<or> starts_defined nm v ss" "distinct (defs_named nm v ss)" "set (defs_named nm v ss) \<inter> U = {}"
  shows "\<exists>st'. rename_statements v ss st = Some st' \<and> renamed nm v U (defs_named nm v ss) st st' \<and>
    length (Stack st') = length (Stack st) + length (defs_named nm v ss) \<and> Stack st' \<noteq> []"
  using assms
proof (induction ss arbitrary: st)
  case (Cons s ss)
  let ?D = "filter (\<lambda>a. nm a = v) (def_of s)"
  from rename_statement_renamed [OF Cons.prems(1), of s U v] Cons.prems obtain st1 where
    st1: "rename_statement v s st = Some st1" "renamed nm v U ?D st st1"
      "length (Stack st1) = length (Stack st) + length ?D" by auto
  have n1: "names st1 = nm" "length (Symbols st1) = length (Symbols st)" using st1(2) by (simp_all add: renamed_def)
  have "Stack st1 \<noteq> [] \<or> starts_defined nm v ss"
  proof (cases "?D = []")
    case True
    then have "v \<notin> nm ` set (def_of s)" by (auto simp: filter_empty_conv)
    with Cons.prems(4) st1(3) True show ?thesis by auto
  next
    case False
    then have "0 < length ?D" by simp
    with st1(3) have "0 < length (Stack st1)" by linarith
    then show ?thesis by simp
  qed
  with Cons.IH [OF n1(1)] Cons.prems n1(2) obtain st2 where
    st2: "rename_statements v ss st1 = Some st2" "renamed nm v U (defs_named nm v ss) st1 st2"
      "length (Stack st2) = length (Stack st1) + length (defs_named nm v ss)" "Stack st2 \<noteq> []" by auto
  have "renamed nm v U (?D @ defs_named nm v ss) st st2"
    using renamed_trans [OF st1(2) st2(2)] Cons.prems(5,6) by auto
  with st1 st2 show ?case by auto
qed (use renamed_refl in auto)

text \<open>Popping: only assignments are popped, so the phi numbers stay on the stack.\<close>

lemma pop_definitions_ok:
  assumes "names st = nm" "length (filter (\<lambda>a. nm a = v) (concat (map def_of ss))) \<le> length (Stack st)"
  shows "\<exists>st'. pop_definitions v ss st = Some st' \<and> renamed nm v U [] st st' \<and>
    length (Stack st) \<le> length (Stack st') + length (defs_named nm v ss)"
  using assms
proof (induction ss arbitrary: st)
  case (Cons s ss)
  show ?case
  proof (cases s)
    case (IRAssignment a e)
    show ?thesis
    proof (cases "nm a = v")
      case True
      with Cons.prems IRAssignment obtain i r where r: "Stack st = i # r" by (cases "Stack st") auto
      let ?st = "st\<lparr>Stack := r\<rparr>"
      have "names ?st = nm" using Cons.prems(1) by (simp add: names_def [abs_def])
      with Cons.IH [of ?st] Cons.prems IRAssignment True r obtain st' where
        "pop_definitions v ss ?st = Some st'" "renamed nm v U [] ?st st'"
        "length r \<le> length (Stack st') + length (defs_named nm v ss)" by auto
      then show ?thesis using IRAssignment True r Cons.prems(1) by (auto simp: names_def [abs_def] renamed_def)
    next
      case False
      with Cons.IH [OF Cons.prems(1)] Cons.prems IRAssignment show ?thesis by (auto simp: names_def [abs_def])
    qed
  next
    case (IRBranch c t f)
    with Cons.IH [OF Cons.prems(1)] Cons.prems show ?thesis by auto
  next
    case (IRPhiNode a m)
    with Cons.IH [OF Cons.prems(1)] Cons.prems show ?thesis by fastforce
  qed
qed (simp add: renamed_refl)

section \<open>The dominator tree\<close>

text \<open>The blocks in the order the traversal enters them.\<close>

fun dom_pre :: "CFG \<Rightarrow> nat \<Rightarrow> nat \<Rightarrow> nat list"
  and dom_pres :: "CFG \<Rightarrow> nat \<Rightarrow> nat list \<Rightarrow> nat list"
where
  "dom_pre h 0 b = []"
| "dom_pre h (Suc k) b = b # dom_pres h k (DominatingBlocks (block h b))"
| "dom_pres h k [] = []"
| "dom_pres h k (c # cs) = dom_pre h k c @ dom_pres h k cs"

definition order_defs :: "CFG \<Rightarrow> (addr \<Rightarrow> string) \<Rightarrow> string \<Rightarrow> nat list \<Rightarrow> addr list" where
  "order_defs h nm v bs = concat (map (\<lambda>i. defs_named nm v (Statements (block h i))) bs)"

lemma order_defs_simps [simp]:
  "order_defs h nm v [] = []"
  "order_defs h nm v (b # bs) = defs_named nm v (Statements (block h b)) @ order_defs h nm v bs"
  "order_defs h nm v (bs @ cs) = order_defs h nm v bs @ order_defs h nm v cs"
  by (simp_all add: order_defs_def)

text \<open>What the traversal needs of the graph: a ranked tree of blocks, links inside the graph, and symbols apart.\<close>

definition tree_scope :: "CFG \<Rightarrow> (nat \<Rightarrow> nat) \<Rightarrow> addr set \<Rightarrow> nat \<Rightarrow> bool" where
  "tree_scope h r U n \<longleftrightarrow> (\<forall>i < length (BasicBlocks h).
     r i < length (BasicBlocks h) \<and> set (Succs (block h i)) \<subseteq> {..<length (BasicBlocks h)} \<and>
     (\<forall>z \<in> set (DominatingBlocks (block h i)). z < length (BasicBlocks h) \<and> r i < r z) \<and>
     set (block_uses (block h i)) \<subseteq> U \<and> set (block_defs (block h i)) \<subseteq> {..<n} - U)"

lemma set_defs_named: "set (defs_named nm v ss) \<subseteq> set (concat (map def_of ss))"
  by (auto simp: defs_named_def)

lemma phi_arguments_used:
  assumes "tree_scope h r U n" "b < length (BasicBlocks h)"
  shows "set (phi_arguments h b) \<subseteq> U"
proof
  fix a assume "a \<in> set (phi_arguments h b)"
  then obtain i st where i: "i \<in> set (Succs (block h b))" "st \<in> set (Statements (block h i))" "a \<in> set (phi_argument b st)"
    by (auto simp: phi_arguments_def)
  have "a \<in> set (uses_of st)"
  proof (cases st)
    case (IRPhiNode v m)
    with i(3) have "map_of m b = Some a" by (auto split: option.splits)
    from map_of_SomeD [OF this] IRPhiNode show ?thesis by force
  qed (use i(3) in auto)
  then have "a \<in> set (block_uses (block h i))" using i(2) by (auto simp: block_uses_def)
  moreover have "i < length (BasicBlocks h)" using assms i(1) by (auto simp: tree_scope_def)
  ultimately show "a \<in> U" using assms(1) unfolding tree_scope_def by blast
qed

definition trav_ok :: "CFG \<Rightarrow> string \<Rightarrow> (addr \<Rightarrow> string) \<Rightarrow> addr set \<Rightarrow> addr list \<Rightarrow> SSABuilder \<Rightarrow> SSABuilder option \<Rightarrow> bool" where
  "trav_ok h v nm U D st res \<longleftrightarrow>
     (\<exists>st'. res = Some st' \<and> renamed nm v U D st st' \<and> length (Stack st) \<le> length (Stack st'))"

lemma traverse_children_ok:
  assumes scope: "tree_scope h r U n"
    and H: "\<And>b st. b < length (BasicBlocks h) \<Longrightarrow> length (BasicBlocks h) - r b \<le> k \<Longrightarrow> names st = nm \<Longrightarrow>
      length (Symbols st) = n \<Longrightarrow> Stack st \<noteq> [] \<Longrightarrow> distinct (order_defs h nm v (dom_pre h k b)) \<Longrightarrow>
      set (order_defs h nm v (dom_pre h k b)) \<inter> U = {} \<Longrightarrow>
      trav_ok h v nm U (order_defs h nm v (dom_pre h k b)) st (TraverseBlockWithVar h v k b st)"
  shows "\<forall>c \<in> set cs. c < length (BasicBlocks h) \<and> length (BasicBlocks h) - r c \<le> k \<Longrightarrow> names st = nm \<Longrightarrow>
    length (Symbols st) = n \<Longrightarrow> Stack st \<noteq> [] \<Longrightarrow> distinct (order_defs h nm v (dom_pres h k cs)) \<Longrightarrow>
    set (order_defs h nm v (dom_pres h k cs)) \<inter> U = {} \<Longrightarrow>
    trav_ok h v nm U (order_defs h nm v (dom_pres h k cs)) st (traverse_children h v k cs st)"
proof (induction cs arbitrary: st)
  case (Cons c cs)
  let ?D = "order_defs h nm v (dom_pre h k c)" and ?E = "order_defs h nm v (dom_pres h k cs)"
  from H [of c st] Cons.prems obtain st1 where
    st1: "TraverseBlockWithVar h v k c st = Some st1" "renamed nm v U ?D st st1" "length (Stack st) \<le> length (Stack st1)"
    by (auto simp: trav_ok_def)
  have "names st1 = nm" "length (Symbols st1) = n" "Stack st1 \<noteq> []"
    using st1(2,3) Cons.prems(3,4) by (auto simp: renamed_def)
  with Cons.IH [of st1] Cons.prems obtain st2 where
    st2: "traverse_children h v k cs st1 = Some st2" "renamed nm v U ?E st1 st2" "length (Stack st1) \<le> length (Stack st2)"
    by (auto simp: trav_ok_def)
  have "renamed nm v U (?D @ ?E) st st2" using renamed_trans [OF st1(2) st2(2)] Cons.prems(5,6) by auto
  with st1 st2 show ?case by (auto simp: trav_ok_def)
qed (simp add: trav_ok_def renamed_refl)

lemma traverse_block_ok:
  assumes scope: "tree_scope h r U n"
  shows "b < length (BasicBlocks h) \<Longrightarrow> length (BasicBlocks h) - r b \<le> k \<Longrightarrow> names st = nm \<Longrightarrow>
    length (Symbols st) = n \<Longrightarrow> Stack st \<noteq> [] \<or> starts_defined nm v (Statements (block h b)) \<Longrightarrow>
    distinct (order_defs h nm v (dom_pre h k b)) \<Longrightarrow> set (order_defs h nm v (dom_pre h k b)) \<inter> U = {} \<Longrightarrow>
    trav_ok h v nm U (order_defs h nm v (dom_pre h k b)) st (TraverseBlockWithVar h v k b st)"
proof (induction k arbitrary: b st)
  case 0
  then show ?case using scope by (auto simp: tree_scope_def)
next
  case (Suc k)
  let ?ss = "Statements (block h b)" and ?cs = "DominatingBlocks (block h b)"
  let ?D = "defs_named nm v ?ss" and ?E = "order_defs h nm v (dom_pres h k ?cs)"
  have dd: "distinct (?D @ ?E)" "set ?D \<inter> U = {}" "set ?E \<inter> U = {}" using Suc.prems(6,7) by auto
  have us: "set (concat (map uses_of ?ss)) \<subseteq> U" "set (concat (map def_of ?ss)) \<subseteq> {..<length (Symbols st)}"
  proof -
    have "set (block_uses (block h b)) \<subseteq> U" "set (block_defs (block h b)) \<subseteq> {..<n} - U"
      using scope Suc.prems(1) by (simp_all add: tree_scope_def)
    then show "set (concat (map uses_of ?ss)) \<subseteq> U" "set (concat (map def_of ?ss)) \<subseteq> {..<length (Symbols st)}"
      using Suc.prems(4) unfolding block_uses_def block_defs_def by auto
  qed
  from rename_statements_renamed [OF Suc.prems(3) us Suc.prems(5) _ dd(2)] dd(1) obtain st1 where
    st1: "rename_statements v ?ss st = Some st1" "renamed nm v U ?D st st1"
      "length (Stack st1) = length (Stack st) + length ?D" "Stack st1 \<noteq> []" by auto
  have n1: "names st1 = nm" "length (Symbols st1) = n" using st1(2) Suc.prems(4) by (simp_all add: renamed_def)
  from rename_uses_renamed [OF n1(1) phi_arguments_used [OF scope Suc.prems(1)], of v] st1(4) obtain st2 where
    st2: "rename_uses v (phi_arguments h b) st1 = Some st2" "renamed nm v U [] st1 st2" "Stack st2 = Stack st1" by auto
  have n2: "names st2 = nm" "length (Symbols st2) = n" "Stack st2 \<noteq> []"
    using st2(2,3) st1(4) n1 by (simp_all add: renamed_def)
  have cs: "\<forall>c \<in> set ?cs. c < length (BasicBlocks h) \<and> length (BasicBlocks h) - r c \<le> k"
  proof
    fix c assume "c \<in> set ?cs"
    with scope Suc.prems(1) have "c < length (BasicBlocks h)" "r b < r c" by (auto simp: tree_scope_def)
    with Suc.prems(2) show "c < length (BasicBlocks h) \<and> length (BasicBlocks h) - r c \<le> k" by simp
  qed
  have "trav_ok h v nm U ?E st2 (traverse_children h v k ?cs st2)"
    by (rule traverse_children_ok [OF scope Suc.IH cs n2]) (use dd in auto)
  then obtain st3 where
    st3: "traverse_children h v k ?cs st2 = Some st3" "renamed nm v U ?E st2 st3" "length (Stack st2) \<le> length (Stack st3)"
    by (auto simp: trav_ok_def)
  have n3: "names st3 = nm" using st3(2) by (simp add: renamed_def)
  have "length ?D \<le> length (Stack st3)" using st1(3) st2(3) st3(3) by simp
  with pop_definitions_ok [OF n3, of v ?ss U] obtain st4 where
    st4: "pop_definitions v ?ss st3 = Some st4" "renamed nm v U [] st3 st4"
      "length (Stack st3) \<le> length (Stack st4) + length ?D" by (auto simp: defs_named_def)
  have "renamed nm v U (?D @ []) st st2" using renamed_trans [OF st1(2) st2(2)] dd by auto
  then have "renamed nm v U (?D @ ?E) st st3" using renamed_trans [OF _ st3(2), of ?D st] dd by auto
  then have "renamed nm v U ((?D @ ?E) @ []) st st4" using renamed_trans [OF _ st4(2), of "?D @ ?E" st] dd by auto
  moreover have "length (Stack st) \<le> length (Stack st4)" using st1(3) st2(3) st3(3) st4(3) by simp
  ultimately show ?case using st1(1) st2(1) st3(1) st4(1) by (auto simp: trav_ok_def)
qed

text \<open>The traversal enters exactly the blocks below its root, each once.\<close>

lemma dom_pre_blocks:
  assumes g: "fresh_graph g" "dfs_orders g p q" and h: "length (BasicBlocks h) = length (BasicBlocks g)"
    "\<And>d. d < length (BasicBlocks g) \<Longrightarrow> DominatingBlocks (block h d) =
       filter (\<lambda>v. idom (succs_of g) 0 d v) [0..<length (BasicBlocks g)]"
  shows "b < length (BasicBlocks g) \<Longrightarrow> length (BasicBlocks g) - rank p b \<le> k \<Longrightarrow>
    distinct (dom_pre h k b) \<and>
    set (dom_pre h k b) = {x. x < length (BasicBlocks g) \<and> dominates (succs_of g) 0 b x}"
proof (induction k arbitrary: b)
  case 0
  have "b \<in> set p" using 0(1) order_facts(1) [OF g(2)] reachable_blocks [OF g(1)] by simp
  then have "rank p b < length p" by (rule rank_less)
  moreover have "length p = length (BasicBlocks g)"
  proof -
    have "set p = {..<length (BasicBlocks g)}" using order_facts(1) [OF g(2)] reachable_blocks [OF g(1)] by auto
    then show ?thesis using distinct_card [OF order_facts(3) [OF g(2)]] by simp
  qed
  ultimately show ?case using 0 by simp
next
  case (Suc k)
  let ?N = "length (BasicBlocks g)" and ?s = "succs_of g"
  let ?C = "filter (\<lambda>v. idom ?s 0 b v) [0..<?N]" and ?T = "\<lambda>c. {x. x < ?N \<and> dominates ?s 0 c x}"
  have reach: "reachable_from ?s 0 x \<longleftrightarrow> x < ?N" for x using reachable_blocks [OF g(1)] .
  have rk: "rank p d < rank p x" if "reachable_from ?s 0 x" "sdom ?s 0 d x" for d x
    using order_facts(7) [OF g(2) that] by (auto intro: before_rank [OF order_facts(3) [OF g(2)]])
  have IH: "distinct (dom_pre h k c) \<and> set (dom_pre h k c) = ?T c" if "c \<in> set ?C" for c
    using that Suc.IH [of c] Suc.prems(2) rk [of c b] reach by (auto simp: idom_def)
  have kids: "distinct (dom_pres h k cs) \<and> set (dom_pres h k cs) = \<Union> (?T ` set cs)"
    if "distinct cs" "set cs \<subseteq> set ?C" for cs
    using that
  proof (induction cs)
    case (Cons c cs)
    have "?T c \<inter> \<Union> (?T ` set cs) = {}"
    proof (rule ccontr)
      assume "?T c \<inter> \<Union> (?T ` set cs) \<noteq> {}"
      then obtain x d where x: "x < ?N" "dominates ?s 0 c x" "d \<in> set cs" "dominates ?s 0 d x" by auto
      have i: "idom ?s 0 b c" "idom ?s 0 b d" "c \<noteq> d" "c < ?N" "d < ?N" using Cons.prems x(3) by auto
      have "False" if "dominates ?s 0 c' d'" "idom ?s 0 b c'" "idom ?s 0 b d'" "c' \<noteq> d'" "c' < ?N" for c' d'
      proof -
        have "dominates ?s 0 c' b" using that(1,3,4) by (simp add: idom_def sdom_def)
        moreover have "sdom ?s 0 b c'" using that(2) by (simp add: idom_def)
        ultimately show False using sdom_asym reach that(5) by metis
      qed
      with dominates_chain [OF x(2,4)] x(1) reach i show False by metis
    qed
    with Cons IH [of c] show ?case by auto
  qed simp
  have "b \<notin> \<Union> (?T ` set ?C)"
    using sdom_asym [of ?s 0 b] reach by (auto simp: idom_def)
  moreover have "insert b (\<Union> (?T ` set ?C)) = ?T b"
  proof (intro equalityI subsetI)
    fix x assume "x \<in> insert b (\<Union> (?T ` set ?C))"
    then show "x \<in> ?T b" using Suc.prems(1) dominates_trans by (fastforce simp: idom_def sdom_def)
  next
    fix x assume x: "x \<in> ?T b"
    show "x \<in> insert b (\<Union> (?T ` set ?C))"
    proof (cases "x = b")
      case False
      with x have "sdom ?s 0 b x" "reachable_from ?s 0 x" using reach by (auto simp: sdom_def)
      from child_on_chain [of ?s 0 "rank p" b x, OF idom_exists [OF g(2)] rk this]
      obtain z where z: "idom ?s 0 b z" "dominates ?s 0 z x" by blast
      have "z < ?N" using dominator_reachable [OF z(2)] x reach by simp
      with z x show ?thesis by auto
    qed simp
  qed
  ultimately show ?case using kids [of ?C] h(2) [OF Suc.prems(1)] by simp
qed

section \<open>All variables\<close>

definition symbol_names :: "symbol_cell list \<Rightarrow> addr \<Rightarrow> string" where
  "symbol_names syms a = sym_name (syms ! a)"

text \<open>A graph after phi insertion, with the tree and the symbols in order.\<close>

definition ready :: "CFG \<Rightarrow> CFG \<Rightarrow> (addr \<Rightarrow> string) \<Rightarrow> nat \<Rightarrow> bool" where
  "ready g h nm n \<longleftrightarrow> fresh_graph g \<and> length (BasicBlocks h) = length (BasicBlocks g) \<and>
     (\<forall>i < length (BasicBlocks g). Succs (block h i) = Succs (block g i) \<and>
        DominatingBlocks (block h i) = filter (\<lambda>v. idom (succs_of g) 0 i v) [0..<length (BasicBlocks g)]) \<and>
     distinct (graph_defs h @ graph_uses h) \<and> set (graph_defs h @ graph_uses h) \<subseteq> {..<n}"

lemma ready_scope:
  assumes "ready g h nm n" "dfs_orders g p q"
  shows "tree_scope h (rank p) (set (graph_uses h)) n"
proof -
  let ?N = "length (BasicBlocks g)"
  have f: "fresh_graph g" "length (BasicBlocks h) = ?N" using assms(1) by (simp_all add: ready_def)
  have p: "set p = {..<?N}" "length p = ?N"
  proof -
    show "set p = {..<?N}" using order_facts(1) [OF assms(2)] reachable_blocks [OF f(1)] by auto
    then show "length p = ?N" using distinct_card [OF order_facts(3) [OF assms(2)]] by simp
  qed
  show ?thesis unfolding tree_scope_def
  proof (intro allI impI conjI)
    fix i assume "i < length (BasicBlocks h)"
    then have i: "i < ?N" "block h i \<in> set (BasicBlocks h)" using f(2) by (auto simp: block_def)
    show "rank p i < length (BasicBlocks h)" using rank_less [of i p] p i(1) f(2) by simp
    show "set (Succs (block h i)) \<subseteq> {..<length (BasicBlocks h)}"
      using assms(1) i(1) f by (auto simp: ready_def fresh_graph_def graph_ok_def succs_of_def)
    show "\<forall>z \<in> set (DominatingBlocks (block h i)). z < length (BasicBlocks h) \<and> rank p i < rank p z"
    proof
      fix z assume "z \<in> set (DominatingBlocks (block h i))"
      then have z: "z < ?N" "idom (succs_of g) 0 i z" using assms(1) i(1) by (auto simp: ready_def)
      then have "before p i z" using order_facts(7) [OF assms(2)] reachable_blocks [OF f(1)] by (auto simp: idom_def)
      then have "rank p i < rank p z" by (rule before_rank [OF order_facts(3) [OF assms(2)]])
      with z(1) f(2) show "z < length (BasicBlocks h) \<and> rank p i < rank p z" by simp
    qed
    show "set (block_uses (block h i)) \<subseteq> set (graph_uses h)" using i(2) by (auto simp: graph_uses_def)
    have "set (block_defs (block h i)) \<subseteq> set (graph_defs h)" using i(2) by (auto simp: graph_defs_def)
    then show "set (block_defs (block h i)) \<subseteq> {..<n} - set (graph_uses h)"
      using assms(1) by (auto simp: ready_def)
  qed
qed

lemma order_defs_graph:
  assumes "distinct bs" "set bs = {..<length (BasicBlocks h)}" "distinct (graph_defs h)"
  shows "distinct (order_defs h nm v bs)" "set (order_defs h nm v bs) = {a \<in> set (graph_defs h). nm a = v}"
proof -
  let ?f = "\<lambda>i. filter (\<lambda>a. nm a = v) (block_defs (block h i))"
  have o: "order_defs h nm v bs = concat (map ?f bs)" for bs
    by (simp add: order_defs_def defs_named_def block_defs_def)
  have b: "BasicBlocks h = map (block h) [0..<length (BasicBlocks h)]"
    by (rule nth_equalityI) (simp_all add: block_def)
  have gd: "filter (\<lambda>a. nm a = v) (graph_defs h) = concat (map ?f [0..<length (BasicBlocks h)])"
    unfolding graph_defs_def by (subst b) (simp add: filter_concat comp_def)
  have "mset bs = mset [0..<length (BasicBlocks h)]"
    using assms(1,2) by (metis atLeast0LessThan atLeastLessThan_upt distinct_upt set_eq_iff_mset_eq_distinct)
  moreover have "mset (concat (map ?f cs)) = (\<Sum>x \<in># mset cs. mset (?f x))" for cs
    by (induction cs) simp_all
  ultimately have m: "mset (concat (map ?f bs)) = mset (concat (map ?f [0..<length (BasicBlocks h)]))"
    by (simp only:)
  have "distinct (filter (\<lambda>a. nm a = v) (graph_defs h))" using assms(3) by simp
  then show "distinct (order_defs h nm v bs)" unfolding o gd using mset_eq_imp_distinct_iff [OF m] by blast
  have "set (order_defs h nm v bs) = set (filter (\<lambda>a. nm a = v) (graph_defs h))"
    unfolding o gd using mset_eq_setD [OF m] .
  then show "set (order_defs h nm v bs) = {a \<in> set (graph_defs h). nm a = v}" by simp
qed

definition numbered :: "(addr \<Rightarrow> string) \<Rightarrow> CFG \<Rightarrow> symbol_cell list \<Rightarrow> string \<Rightarrow> bool" where
  "numbered nm h sy v \<longleftrightarrow> bij_betw (\<lambda>a. SSAIndex (sy ! a)) {a \<in> set (graph_defs h). nm a = v}
     {0..<int (card {a \<in> set (graph_defs h). nm a = v})}"

lemma bij_index:
  assumes "distinct D" "\<And>j. j < length D \<Longrightarrow> f (D ! j) = int j"
  shows "bij_betw f (set D) {0..<int (card (set D))}"
proof -
  have "inj_on f (set D)"
    using assms by (auto simp: inj_on_def in_set_conv_nth)
  moreover have "f ` set D = {0..<int (length D)}"
  proof (intro equalityI subsetI)
    fix x assume "x \<in> {0..<int (length D)}"
    then have "x = f (D ! nat x)" "nat x < length D" using assms(2) [of "nat x"] by auto
    then show "x \<in> f ` set D" by (metis image_eqI nth_mem)
  qed (use assms(2) in \<open>auto simp: in_set_conv_nth\<close>)
  ultimately show ?thesis using distinct_card [OF assms(1)] by (simp add: bij_betw_def)
qed

lemma rename_var_ok:
  assumes "ready g h nm n" "symbol_names sy = nm" "length sy = n" "starts_defined nm v (Statements (block h 0))"
  shows "\<exists>sy'. RenameVarToSSAForm h v sy = Some sy' \<and> symbol_names sy' = nm \<and> length sy' = n \<and>
    (\<forall>a. nm a \<noteq> v \<longrightarrow> sy' ! a = sy ! a) \<and> numbered nm h sy' v"
proof -
  let ?N = "length (BasicBlocks h)" and ?U = "set (graph_uses h)"
  have f: "fresh_graph g" "length (BasicBlocks g) = ?N" using assms(1) by (simp_all add: ready_def)
  obtain p q where pq: "dfs_orders g p q" using dfs_orders_exist [of g] f(1) unfolding fresh_graph_def by blast
  have n0: "0 < ?N" using f by (auto simp: fresh_graph_def graph_ok_def)
  let ?st = "\<lparr>Counter = 0, Stack = [], Symbols = sy\<rparr>"
  let ?bs = "dom_pre h (Suc ?N) 0"
  have "distinct ?bs \<and> set ?bs = {x. x < length (BasicBlocks g) \<and> dominates (succs_of g) 0 0 x}"
    using assms(1) n0 f(2) by (intro dom_pre_blocks [OF f(1) pq]) (auto simp: ready_def)
  then have bs: "distinct ?bs" "set ?bs = {..<?N}" using f(2) by auto
  have gd: "distinct (graph_defs h)" "set (graph_defs h) \<inter> ?U = {}" using assms(1) by (simp_all add: ready_def)
  note D = order_defs_graph [OF bs gd(1), of nm v]
  have "trav_ok h v nm ?U (order_defs h nm v ?bs) ?st (TraverseBlockWithVar h v (Suc ?N) 0 ?st)"
    using assms n0 D gd(2)
    by (intro traverse_block_ok [OF ready_scope [OF assms(1) pq]])
      (auto simp: names_def [abs_def] symbol_names_def [abs_def])
  then obtain st' where st': "TraverseBlockWithVar h v (Suc ?N) 0 ?st = Some st'"
    "renamed nm v ?U (order_defs h nm v ?bs) ?st st'" by (auto simp: trav_ok_def)
  have "numbered nm h (Symbols st') v"
    unfolding numbered_def D(2) [symmetric]
    using st'(2) by (intro bij_index [OF D(1)]) (simp add: renamed_def)
  moreover have "RenameVarToSSAForm h v sy = Some (Symbols st')"
    using st'(1) n0 by (auto simp: RenameVarToSSAForm_def front_block_def)
  ultimately show ?thesis using st'(2) assms(3)
    by (auto simp: renamed_def names_def [abs_def] symbol_names_def [abs_def])
qed

lemma rename_all_ok:
  assumes "ready g h nm n"
  shows "symbol_names sy = nm \<Longrightarrow> length sy = n \<Longrightarrow> distinct vs \<Longrightarrow>
    \<forall>v \<in> set vs. starts_defined nm v (Statements (block h 0)) \<Longrightarrow>
    \<exists>sy'. rename_all h vs sy = Some sy' \<and> symbol_names sy' = nm \<and> length sy' = n \<and>
      (\<forall>a. nm a \<notin> set vs \<longrightarrow> sy' ! a = sy ! a) \<and> (\<forall>v \<in> set vs. numbered nm h sy' v)"
proof (induction vs arbitrary: sy)
  case (Cons v vs)
  from rename_var_ok [OF assms Cons.prems(1,2)] Cons.prems(4) obtain s1 where
    s1: "RenameVarToSSAForm h v sy = Some s1" "symbol_names s1 = nm" "length s1 = n"
      "\<forall>a. nm a \<noteq> v \<longrightarrow> s1 ! a = sy ! a" "numbered nm h s1 v" by auto
  with Cons.IH [OF s1(2,3)] Cons.prems(3,4) obtain s2 where
    s2: "rename_all h vs s1 = Some s2" "symbol_names s2 = nm" "length s2 = n"
      "\<forall>a. nm a \<notin> set vs \<longrightarrow> s2 ! a = s1 ! a" "\<forall>v \<in> set vs. numbered nm h s2 v" by auto
  have "\<forall>a \<in> {a \<in> set (graph_defs h). nm a = v}. SSAIndex (s2 ! a) = SSAIndex (s1 ! a)"
    using s2(4) Cons.prems(3) by auto
  with s1(5) have "numbered nm h s2 v" unfolding numbered_def by (metis (no_types, lifting) bij_betw_cong)
  with s1 s2 show ?case by auto
qed simp

end
