(* ===== verification/Ssa_Props.thy ===== *)
theory Ssa_Props
  imports Ssa_Rename
begin

text \<open>
  The properties of the SSA construction, from a syntax tree to the renamed graph.
\<close>

section \<open>Putting the phases together\<close>

lemma keys_assigned:
  assumes "variables_ok syms g m" "(v, S) \<in> set m"
  shows "S = assigned syms g v" "S \<noteq> {}"
proof -
  have "distinct (map fst m)"
    using assms(1) by (simp add: variables_ok_def strict_sorted_iff)
  with assms(2) have "map_of m v = Some S" by simp
  with assms(1) show "S = assigned syms g v" "S \<noteq> {}" by (auto simp: variables_ok_def split: if_splits)
qed

lemma assigned_below: "assigned syms g v \<subseteq> {..<length (BasicBlocks g)}"
  by (auto simp: assigned_def)

lemma links_same_code: "links_ok g \<Longrightarrow> same_code g h \<Longrightarrow> links_ok h"
  by (auto simp: links_ok_def same_code_def)

lemma phi_phase:
  assumes b: "b = build_program mem syms es" and mem: "mem 0 = None"
  shows "\<exists>h b'. CommitAllChanges (CFGraph b) = Some h \<and> analysed (CFGraph b) h \<and>
    InsertPhiNodes (b\<lparr>CFGraph := h\<rparr>) = Some b' \<and> BlocksForVariable b' = BlocksForVariable b \<and>
    phi_inv h (\<lambda>i. rev (map fst (filter (\<lambda>(v, S). i \<in> iterated_frontier (succs_of (CFGraph b)) 0 S)
      (BlocksForVariable b)))) b' \<and>
    (symbols_ok syms (CFGraph b) \<longrightarrow> symbols_ok (AllSymbols b') (CFGraph b') \<and> (\<exists>zs. AllSymbols b' = syms @ zs))"
proof -
  let ?g = "CFGraph b"
  note ok = build_program_ok [where mem = mem and syms = syms and es = es, folded b]
  have links: "links_ok ?g" using ok(1) by (rule builder_okD)
  from commit_analysed [OF ok(3)] ok(4) mem obtain h where h: "CommitAllChanges ?g = Some h" "analysed ?g h" by auto
  have sc: "same_code ?g h" "frontiers_of ?g h" using h(2) by (simp_all add: analysed_def)
  have lh: "links_ok h" "length (BasicBlocks h) = length (BasicBlocks ?g)"
    using links_same_code [OF links sc(1)] sc(1) by (simp_all add: same_code_def)
  have inv: "phi_inv h (\<lambda>_. []) (b\<lparr>CFGraph := h\<rparr>)" by (simp add: phi_inv_def code_frame_def)
  have m: "\<forall>(v, S) \<in> set (BlocksForVariable b). S \<subseteq> {..<length (BasicBlocks ?g)}"
    using keys_assigned(1) assigned_below ok(1) by (fastforce simp: builder_ok_def)
  from insert_phis_inv [OF ok(3) sc(2) lh inv m] obtain b' where
    b': "insert_phis (BlocksForVariable b) (b\<lparr>CFGraph := h\<rparr>) = Some b'" "BlocksForVariable b' = BlocksForVariable b"
      "phi_inv h (\<lambda>i. rev (map fst (filter (\<lambda>(v, S). i \<in> iterated_frontier (succs_of ?g) 0 S) (BlocksForVariable b)))) b'"
    by auto
  have "symbols_ok (AllSymbols b') (CFGraph b') \<and> (\<exists>zs. AllSymbols b' = syms @ zs)" if "symbols_ok syms ?g"
  proof -
    have "symbols_ok (AllSymbols (b\<lparr>CFGraph := h\<rparr>)) (CFGraph (b\<lparr>CFGraph := h\<rparr>))"
      using that ok(2) graph_symbols_same [of h ?g] sc(1) by (simp add: symbols_ok_def same_code_def)
    from insert_phis_symbols [OF ok(3) sc(2) lh inv m this b'(1)] ok(2) show ?thesis by simp
  qed
  with h b' show ?thesis by (auto simp: InsertPhiNodes_def)
qed

lemma list_all2_member: "list_all2 R xs ys \<Longrightarrow> x \<in> set xs \<Longrightarrow> \<exists>y \<in> set ys. R x y"
  by (induction xs ys rule: list_all2_induct) auto

lemma starts_defined_phis:
  "list_all2 (phi_for s pr) ks P \<Longrightarrow> starts_defined nm v ss \<Longrightarrow> starts_defined nm v (P @ ss)"
proof (induction ks P rule: list_all2_induct)
  case (Cons k ks x P)
  then show ?case by (cases x) (auto simp: phi_for_def)
qed simp

lemma starts_defined_cong:
  "\<forall>a \<in> set (concat (map def_of ss) @ concat (map uses_of ss)). nm a = nm' a \<Longrightarrow>
   starts_defined nm v ss = starts_defined nm' v ss"
proof (induction ss)
  case (Cons s ss)
  have "\<forall>a \<in> AllVarsUsedInStatement s. nm a = nm' a" using Cons.prems set_uses_of [of s] by auto
  moreover have "nm ` set (def_of s) = nm' ` set (def_of s)" using Cons.prems by (intro image_cong) auto
  moreover have "starts_defined nm v ss = starts_defined nm' v ss" using Cons.prems by (intro Cons.IH) auto
  ultimately show ?case by simp
qed simp

lemma graph_ready:
  assumes "fresh_graph g" "analysed g h" "phi_inv h ks b'" "symbols_ok (AllSymbols b') (CFGraph b')"
  shows "ready g (CFGraph b') (symbol_names (AllSymbols b')) (length (AllSymbols b'))"
proof -
  have l: "length (BasicBlocks h) = length (BasicBlocks g)" "code_frame h (CFGraph b')"
    using assms(2,3) by (simp_all add: analysed_def same_code_def phi_inv_def)
  have "Succs (block (CFGraph b') i) = Succs (block g i) \<and> DominatingBlocks (block (CFGraph b') i) =
      filter (\<lambda>v. idom (succs_of g) 0 i v) [0..<length (BasicBlocks g)]" if "i < length (BasicBlocks g)" for i
    using code_frame_fields [OF l(2)] that l(1) assms(2) by (simp add: analysed_def same_code_def tree_ok_def)
  then show ?thesis using assms(1,4) l by (simp add: ready_def symbols_ok_def code_frame_def)
qed

section \<open>Properties\<close>

text \<open>
  C37: for every tree, the graph the builder produces has symmetric links that stay inside the graph,
  every block is reachable from the entry, and \<open>BlocksForVariable\<close> maps exactly the assigned
  variables to exactly the blocks that assign them.
\<close>

theorem built_graph_well_formed:
  "fresh_graph (CFGraph (build_program mem syms es)) \<and> links_ok (CFGraph (build_program mem syms es)) \<and>
   variables_ok syms (CFGraph (build_program mem syms es)) (BlocksForVariable (build_program mem syms es))"
  using build_program_ok [of mem syms es] builder_okD(1) by (auto simp: builder_ok_def)

text \<open>
  C10: for every well-formed graph (loops included) that was not analysed yet, whose blocks are all reachable
  from the entry (\<open>fresh_graph\<close>) and whose entry's never-initialised \<open>Dominator\<close> field happens to be null, \<open>CommitAllChanges\<close> returns, and the dominator it stores in a
  block is the immediate dominator by the definition over all walks; \<open>DominatingBlocks\<close> are the
  children in that tree.
\<close>

theorem dominator_tree_correct:
  assumes "fresh_graph g" "Dominator (block g 0) = None"
  shows "\<exists>h. CommitAllChanges g = Some h \<and>
    (\<forall>i < length (BasicBlocks g). \<forall>d. Dominator (block h i) = Some d \<longleftrightarrow> idom (succs_of g) 0 d i) \<and>
    (\<forall>d < length (BasicBlocks g). DominatingBlocks (block h d) =
       filter (\<lambda>v. idom (succs_of g) 0 d v) [0..<length (BasicBlocks g)])"
  using commit_analysed [OF assms] by (auto simp: analysed_def tree_ok_def)

definition main_graph :: CFG where
  "main_graph = CFGraph (build_program (\<lambda>_. None) main_symbols main_expressions)"

lemma main_graph_ok: "fresh_graph main_graph" "Dominator (block main_graph 0) = None"
  using build_program_ok [of "\<lambda>_. None" main_symbols main_expressions] by (simp_all add: main_graph_def)

lemma dominator_tree_correct_witness:
  "\<exists>h. CommitAllChanges main_graph = Some h \<and>
    (\<forall>i < length (BasicBlocks main_graph). \<forall>d. Dominator (block h i) = Some d \<longleftrightarrow> idom (succs_of main_graph) 0 d i)"
  using dominator_tree_correct [OF main_graph_ok] by blast

text \<open>
  C11: for every well-formed graph that was not analysed yet, whose blocks are all reachable (\<open>fresh_graph\<close>) and
  whose entry's never-initialised \<open>Dominator\<close> field happens to be null, \<open>CommitAllChanges\<close> returns, and the dominance frontier that \<open>ComputeBaseDominanceFrontier\<close> stores for a block is the set of
  blocks with a predecessor it dominates that it does not strictly dominate itself.
\<close>

theorem dominance_frontier_correct:
  assumes "fresh_graph g" "Dominator (block g 0) = None"
  shows "\<exists>h. CommitAllChanges g = Some h \<and>
    (\<forall>x < length (BasicBlocks g). df_at h x = Some (frontier (succs_of g) 0 x))"
  using commit_analysed [OF assms] by (auto simp: analysed_def frontiers_of_def df_at_def df_map_def fun_eq_iff)

lemma dominance_frontier_correct_witness:
  "\<exists>h. CommitAllChanges main_graph = Some h \<and>
    (\<forall>x < length (BasicBlocks main_graph). df_at h x = Some (frontier (succs_of main_graph) 0 x))"
  by (rule dominance_frontier_correct [OF main_graph_ok])

text \<open>
  C35: for every well-formed graph that was not analysed yet, whose blocks are all reachable (\<open>fresh_graph\<close>) and
  whose entry's never-initialised \<open>Dominator\<close> field happens to be null, and every set of its blocks, the loop of
  \<open>GetDominanceFrontierForSubset\<close> terminates, and returns the least set that contains
  the frontiers of the given blocks and of its own elements.
\<close>

theorem iterated_frontier_correct:
  assumes "fresh_graph g" "Dominator (block g 0) = None" "S \<subseteq> {..<length (BasicBlocks g)}"
  shows "\<exists>h D. CommitAllChanges g = Some h \<and> GetDominanceFrontierForSubset S h = Some (D, h) \<and>
    D = \<Union> (frontier (succs_of g) 0 ` (D \<union> S)) \<and>
    (\<forall>T. \<Union> (frontier (succs_of g) 0 ` (T \<union> S)) \<subseteq> T \<longrightarrow> D \<subseteq> T)"
proof -
  from commit_analysed [OF assms(1,2)] obtain h where h: "CommitAllChanges g = Some h" "frontiers_of g h"
    by (auto simp: analysed_def)
  have "iterated_frontier (succs_of g) 0 S \<subseteq> T" if "\<Union> (frontier (succs_of g) 0 ` (T \<union> S)) \<subseteq> T" for T
    using that unfolding iterated_frontier_def by (intro lfp_lowerbound) (simp add: frontier_step_def)
  then have least: "\<forall>T. \<Union> (frontier (succs_of g) 0 ` (T \<union> S)) \<subseteq> T \<longrightarrow> iterated_frontier (succs_of g) 0 S \<subseteq> T"
    by blast
  show ?thesis
    by (intro exI conjI) (rule h(1) iterated_result [OF assms(1) h(2) assms(3)] iterated_fix least)+
qed

lemma iterated_frontier_correct_witness:
  "\<exists>h D. CommitAllChanges main_graph = Some h \<and> GetDominanceFrontierForSubset {0} h = Some (D, h) \<and>
    D = \<Union> (frontier (succs_of main_graph) 0 ` (D \<union> {0}))"
proof -
  have "{0} \<subseteq> {..<length (BasicBlocks main_graph)}"
    using main_graph_ok(1) by (simp add: fresh_graph_def graph_ok_def)
  from iterated_frontier_correct [OF main_graph_ok this] show ?thesis
    by (elim exE conjE) (intro exI conjI, assumption+)
qed

text \<open>
  After phi insertion the statements of a block are one phi node for each assigned variable in
  whose iterated dominance frontier the block lies, with one argument per predecessor, followed by
  the statements the block had.
\<close>

theorem phi_nodes_placed:
  assumes "b = build_program mem syms es" "mem 0 = None"
  shows "\<exists>h b'. CommitAllChanges (CFGraph b) = Some h \<and> InsertPhiNodes (b\<lparr>CFGraph := h\<rparr>) = Some b' \<and>
    (\<forall>i < length (BasicBlocks (CFGraph b)). \<exists>P.
       Statements (block (CFGraph b') i) = P @ Statements (block (CFGraph b) i) \<and>
       list_all2 (phi_for (AllSymbols b') (Preds (block (CFGraph b) i)))
         (rev (filter (\<lambda>v. i \<in> iterated_frontier (succs_of (CFGraph b)) 0 (assigned syms (CFGraph b) v))
           (map fst (BlocksForVariable b)))) P)"
proof -
  let ?g = "CFGraph b" and ?m = "BlocksForVariable b"
  from phi_phase [OF assms] obtain h b' where r: "CommitAllChanges ?g = Some h" "analysed ?g h"
    "InsertPhiNodes (b\<lparr>CFGraph := h\<rparr>) = Some b'"
    "phi_inv h (\<lambda>i. rev (map fst (filter (\<lambda>(v, S). i \<in> iterated_frontier (succs_of ?g) 0 S) ?m))) b'" by blast
  have v: "variables_ok syms ?g ?m" using build_program_ok(1,2) [of mem syms es] assms(1) by (simp add: builder_ok_def)
  have "map fst (filter (\<lambda>(v, S). i \<in> iterated_frontier (succs_of ?g) 0 S) ?m) =
      filter (\<lambda>v. i \<in> iterated_frontier (succs_of ?g) 0 (assigned syms ?g v)) (map fst ?m)" for i
    unfolding filter_map comp_def
    by (intro arg_cong [where f = "map fst"] filter_cong refl) (use keys_assigned(1) [OF v] in force)
  with r show ?thesis by (auto simp: phi_inv_def analysed_def same_code_def)
qed

lemma phi_nodes_placed_witness:
  "\<exists>h b'. CommitAllChanges main_graph = Some h \<and>
    InsertPhiNodes ((build_program (\<lambda>_. None) main_symbols main_expressions)\<lparr>CFGraph := h\<rparr>) = Some b'"
  using phi_nodes_placed [OF refl, of "\<lambda>_. None" main_symbols main_expressions] by (auto simp: main_graph_def)

text \<open>
  C12: in a graph the builder made while the memory of the entry's never-initialised \<open>Dominator\<close> pointer
  happened to hold null (\<open>mem 0 = None\<close>), \<open>CommitAllChanges\<close> and \<open>InsertPhiNodes\<close> return, and where two
  non-empty walks from assigning blocks of a variable meet, having been disjoint before, the block gets a phi node for the variable.
\<close>

theorem meeting_point_has_phi:
  assumes "b = build_program mem syms es" "mem 0 = None"
    "x \<in> assigned syms (CFGraph b) v" "y \<in> assigned syms (CFGraph b) v"
    "walk (succs_of (CFGraph b)) x ws z" "ws \<noteq> []" "walk (succs_of (CFGraph b)) y us z" "us \<noteq> []"
    "set (x # butlast ws) \<inter> set (y # butlast us) = {}"
  shows "\<exists>h b' st. CommitAllChanges (CFGraph b) = Some h \<and> InsertPhiNodes (b\<lparr>CFGraph := h\<rparr>) = Some b' \<and>
    st \<in> set (Statements (block (CFGraph b') z)) \<and> phi_for (AllSymbols b') (Preds (block (CFGraph b) z)) v st"
proof -
  let ?g = "CFGraph b" and ?m = "BlocksForVariable b"
  note ok = build_program_ok [where mem = mem and syms = syms and es = es, folded assms(1)]
  from phi_phase [OF assms(1,2)] obtain h b' where r: "CommitAllChanges ?g = Some h" "analysed ?g h"
    "InsertPhiNodes (b\<lparr>CFGraph := h\<rparr>) = Some b'"
    "phi_inv h (\<lambda>i. rev (map fst (filter (\<lambda>(v, S). i \<in> iterated_frontier (succs_of ?g) 0 S) ?m))) b'" by blast
  have n: "x < length (BasicBlocks ?g)" "y < length (BasicBlocks ?g)" using assms(3,4) assigned_below by auto
  then have rx: "reachable_from (succs_of ?g) 0 x" "reachable_from (succs_of ?g) 0 y"
    using reachable_blocks [OF ok(3)] by auto
  have z: "z < length (BasicBlocks ?g)"
    using rx(1) assms(5) reachable_blocks [OF ok(3), of z] unfolding reachable_from_def by (metis walk_append)
  have "z \<in> iterated_frontier (succs_of ?g) 0 (assigned syms ?g v)"
    by (rule join_in_frontier [OF assms(3,4) rx assms(5-9)])
  moreover have "(v, assigned syms ?g v) \<in> set ?m"
    using ok(1,2) assms(3) by (intro map_of_SomeD) (auto simp: builder_ok_def variables_ok_def)
  ultimately have "v \<in> set (rev (map fst (filter (\<lambda>(v, S). z \<in> iterated_frontier (succs_of ?g) 0 S) ?m)))"
    by force
  moreover obtain P where "Statements (block (CFGraph b') z) = P @ Statements (block h z)"
    "list_all2 (phi_for (AllSymbols b') (Preds (block h z)))
       (rev (map fst (filter (\<lambda>(v, S). z \<in> iterated_frontier (succs_of ?g) 0 S) ?m))) P"
    using r(2,4) z by (auto simp: phi_inv_def analysed_def same_code_def)
  ultimately have "\<exists>st \<in> set (Statements (block (CFGraph b') z)). phi_for (AllSymbols b') (Preds (block h z)) v st"
    using list_all2_member by fastforce
  with r z show ?thesis by (auto simp: analysed_def same_code_def)
qed

text \<open>A program with an assignment in both branches: \<open>if (1) x = 1; else x = 2;\<close>\<close>

definition branch_program :: CFGBuilder where
  "branch_program = build_program (\<lambda>_. None) (map new_ASTSymbol [''x'', ''x''])
     [ASTIf (ASTNumber 1) (ASTAssign 0 (ASTNumber 1)) (ASTAssign 1 (ASTNumber 2))]"

lemma meeting_point_has_phi_witness:
  "\<exists>h b' st. CommitAllChanges (CFGraph branch_program) = Some h \<and>
    InsertPhiNodes (branch_program\<lparr>CFGraph := h\<rparr>) = Some b' \<and>
    st \<in> set (Statements (block (CFGraph b') 3)) \<and>
    phi_for (AllSymbols b') (Preds (block (CFGraph branch_program) 3)) ''x'' st"
proof (rule meeting_point_has_phi [OF branch_program_def, of 1 "''x''" 2 "[3]" 3 "[3]"])
  have s: "length (BasicBlocks (CFGraph branch_program)) = 4"
    "IRAssignment 0 (ASTNumber 1) \<in> set (Statements (block (CFGraph branch_program) 1))"
    "IRAssignment 1 (ASTNumber 2) \<in> set (Statements (block (CFGraph branch_program) 2))"
    "3 \<in> set (succs_of (CFGraph branch_program) 1)" "3 \<in> set (succs_of (CFGraph branch_program) 2)"
    by code_simp+
  show "1 \<in> assigned (map new_ASTSymbol [''x'', ''x'']) (CFGraph branch_program) ''x''"
    using s(1,2) by (auto simp: assigned_def new_ASTSymbol_def intro!: exI [of _ 0])
  show "2 \<in> assigned (map new_ASTSymbol [''x'', ''x'']) (CFGraph branch_program) ''x''"
    using s(1,3) by (auto simp: assigned_def new_ASTSymbol_def intro!: exI [of _ 1])
  show "walk (succs_of (CFGraph branch_program)) 1 [3] 3" "walk (succs_of (CFGraph branch_program)) 2 [3] 3"
    using s(4,5) by simp_all
qed simp_all

text \<open>
  C4: when the memory of the entry's \<open>Dominator\<close> pointer, which nothing initialises, happens to hold null
  (\<open>mem 0 = None\<close>; otherwise the program is undefined, see \<open>entry_dominator_uninitialised\<close>), every symbol object
  occurs once in the trees and lies inside the symbol table, and every assigned variable is assigned in the
  entry block before any use there (\<open>starts_defined\<close>), the whole construction returns (no access to an empty
  stack), all definitions are different symbol objects, and the definitions of a variable are
  numbered without gap or repetition: the result is in static single assignment form.
\<close>

theorem single_assignment:
  assumes "b = build_program mem syms es" "mem 0 = None"
    "distinct (concat (map ast_symbols es))" "set (concat (map ast_symbols es)) \<subseteq> {..<length syms}"
    "\<forall>v \<in> set (map fst (BlocksForVariable b)). starts_defined (symbol_names syms) v (Statements (block (CFGraph b) 0))"
  shows "\<exists>b'. CommitSSAFormBuilding b = Some b' \<and> distinct (graph_defs (CFGraph b')) \<and>
    (\<forall>v \<in> set (map fst (BlocksForVariable b)).
       bij_betw (\<lambda>a. SSAIndex (AllSymbols b' ! a))
         {a \<in> set (graph_defs (CFGraph b')). sym_name (AllSymbols b' ! a) = v}
         {0..<int (card {a \<in> set (graph_defs (CFGraph b')). sym_name (AllSymbols b' ! a) = v})})"
proof -
  let ?g = "CFGraph b" and ?ks = "map fst (BlocksForVariable b)"
  note ok = build_program_ok [where mem = mem and syms = syms and es = es, folded assms(1)]
  have so: "symbols_ok syms ?g" using build_program_symbols [OF assms(3,4)] assms(1) by simp
  from phi_phase [OF assms(1,2)] so obtain h b1 ks zs where r: "CommitAllChanges ?g = Some h" "analysed ?g h"
    "InsertPhiNodes (b\<lparr>CFGraph := h\<rparr>) = Some b1" "BlocksForVariable b1 = BlocksForVariable b" "phi_inv h ks b1"
    "symbols_ok (AllSymbols b1) (CFGraph b1)" "AllSymbols b1 = syms @ zs" by blast
  let ?h = "CFGraph b1" and ?nm = "symbol_names (AllSymbols b1)"
  note rdy = graph_ready [OF ok(3) r(2,5,6)]
  have n0: "0 < length (BasicBlocks ?g)" using ok(3) by (simp add: fresh_graph_def graph_ok_def)
  obtain P where P: "Statements (block ?h 0) = P @ Statements (block ?g 0)"
    "list_all2 (phi_for (AllSymbols b1) (Preds (block h 0))) (ks 0) P"
    using r(2,5) n0 by (auto simp: phi_inv_def analysed_def same_code_def)
  have "\<forall>a \<in> set (concat (map def_of (Statements (block ?g 0))) @ concat (map uses_of (Statements (block ?g 0)))).
      symbol_names syms a = ?nm a"
  proof
    fix a assume "a \<in> set (concat (map def_of (Statements (block ?g 0))) @ concat (map uses_of (Statements (block ?g 0))))"
    then have "a \<in> set (block_defs (block ?g 0) @ block_uses (block ?g 0))"
      by (simp add: block_defs_def block_uses_def)
    moreover have "block ?g 0 \<in> set (BasicBlocks ?g)" using n0 by (simp add: block_def)
    ultimately have "a \<in> set (graph_defs ?g @ graph_uses ?g)" by (auto simp: graph_defs_def graph_uses_def)
    then have "a < length syms" using so by (auto simp: symbols_ok_def)
    then show "symbol_names syms a = ?nm a" by (simp add: symbol_names_def r(7) nth_append)
  qed
  from starts_defined_cong [OF this] starts_defined_phis [OF P(2)] assms(5) P(1)
  have st: "\<forall>v \<in> set ?ks. starts_defined ?nm v (Statements (block ?h 0))" by simp
  have "distinct ?ks" using ok(1) by (simp add: builder_ok_def variables_ok_def strict_sorted_iff)
  from rename_all_ok [OF rdy refl refl this st] obtain sy where
    sy: "rename_all ?h ?ks (AllSymbols b1) = Some sy" "symbol_names sy = ?nm" "\<forall>v \<in> set ?ks. numbered ?nm ?h sy v" by auto
  have "CommitSSAFormBuilding b = Some (b1\<lparr>AllSymbols := sy\<rparr>)"
    using r(1,3,4) sy(1) by (simp add: CommitSSAFormBuilding_def BuildSSAForm_def)
  moreover have "(\<lambda>a. sym_name (sy ! a)) = ?nm" using sy(2) by (simp add: symbol_names_def [abs_def])
  moreover have "distinct (graph_defs ?h)" using r(6) by (simp add: symbols_ok_def)
  ultimately show ?thesis using sy(3) by (auto simp: numbered_def fun_eq_iff)
qed

lemma main_program_hypotheses:
  "distinct (concat (map ast_symbols main_expressions))"
  "set (concat (map ast_symbols main_expressions)) \<subseteq> {..<length main_symbols}"
  "\<forall>v \<in> set (map fst (BlocksForVariable (build_program (\<lambda>_. None) main_symbols main_expressions))).
     starts_defined (symbol_names main_symbols) v
       (Statements (block (CFGraph (build_program (\<lambda>_. None) main_symbols main_expressions)) 0))"
  by code_simp+

lemma single_assignment_witness:
  "\<exists>b'. CommitSSAFormBuilding (build_program (\<lambda>_. None) main_symbols main_expressions) = Some b' \<and>
     distinct (graph_defs (CFGraph b'))"
  using single_assignment [OF refl refl main_program_hypotheses] by blast

text \<open>
  On the program of \<open>main\<close>, with null in the uninitialised pointer of the entry, the blocks hold
  the expected statements, phi arguments and numbers.
\<close>

theorem main_program_ssa:
  "map_option (\<lambda>b. map (\<lambda>bl. map (Dump (CFGraph b) (AllSymbols b)) (Statements bl)) (BasicBlocks (CFGraph b)))
     (CommitSSAFormBuilding (build_program (\<lambda>_. None) main_symbols main_expressions)) =
   Some
    [[''first#0 = 1'', ''second#0 = 2'', ''third#0 = 3'',
      ''Branch (2002 + 3003 + 4004) on true to CFG#1(Then), on false to CFG#2(Else)''],
     [''first#1 = second#0'', ''Branch on true to CFG#3(IfContinue)''],
     [''Branch (5005 * 6006 / 7007) on true to CFG#4(Then), on false to CFG#5(Else)''],
     [''second#3 = '' @ [CHR 0xCF, CHR 0x86] @ ''(CFG#1(Then):second#0, CFG#6(IfContinue):second#2)'',
      ''first#4 = '' @ [CHR 0xCF, CHR 0x86] @ ''(CFG#1(Then):first#1, CFG#6(IfContinue):first#3)'',
      ''first#5 = third#0'', ''second#4 = second#3'', ''third#1 = first#5''],
     [''first#2 = second#0'', ''Branch on true to CFG#6(IfContinue)''],
     [''second#1 = third#0'', ''Branch on true to CFG#6(IfContinue)''],
     [''second#2 = '' @ [CHR 0xCF, CHR 0x86] @ ''(CFG#4(Then):second#0, CFG#5(Else):second#1)'',
      ''first#3 = '' @ [CHR 0xCF, CHR 0x86] @ ''(CFG#4(Then):first#2, CFG#5(Else):first#0)'',
      ''Branch on true to CFG#3(IfContinue)'']]"
  by code_simp

text \<open>
  \<open>ComputeDominatorTree\<close> reads the \<open>Dominator\<close> field of the entry block, which nothing has
  written: with null there the program of \<open>main\<close> produces its output, with a stale pointer the
  behaviour is undefined.
\<close>

theorem entry_dominator_uninitialised:
  "ssa_main (\<lambda>_. None) \<noteq> None \<and> ssa_main (\<lambda>i. if i = 0 then Some 99 else None) = None"
  by code_simp

text \<open>
  The program \<open>x = 1; y = 0; if (1) { if (2) x = 2; else x = 3; } else y = x;\<close> with the symbol
  objects numbered in this order, \<open>x\<close> of the last assignment being object 5.
\<close>

definition leak_program :: CFGBuilder where
  "leak_program = build_program (\<lambda>_. None) (map new_ASTSymbol [''x'', ''y'', ''x'', ''x'', ''y'', ''x''])
     [ASTAssign 0 (ASTNumber 1), ASTAssign 1 (ASTNumber 0),
      ASTIf (ASTNumber 1) (ASTIf (ASTNumber 2) (ASTAssign 2 (ASTNumber 2)) (ASTAssign 3 (ASTNumber 3)))
        (ASTAssign 4 (ASTSymbol 5))]"

text \<open>
  The numbers of phi nodes are never popped from the stack, so a use in a later branch can be
  given the number of a phi node that does not dominate it. In \<open>leak_program\<close> the use of \<open>x\<close> in the
  else branch (block 2) gets number 3, the number of the phi node of block 6, although the walk from
  the entry straight to block 2 only meets the definition with number 0.
\<close>

theorem renaming_leaks_phi_numbers:
  "map_option (\<lambda>b. (SSAIndex (AllSymbols b ! 5),
       map (Dump (CFGraph b) (AllSymbols b)) (Statements (block (CFGraph b) 2)),
       map (Dump (CFGraph b) (AllSymbols b)) (Statements (block (CFGraph b) 6)),
       SSAIndex (AllSymbols b ! 0), Succs (block (CFGraph b) 0)))
     (CommitSSAFormBuilding leak_program) =
   Some (3, [''y#1 = x#3'', ''Branch on true to CFG#3(IfContinue)''],
     [''x#3 = '' @ [CHR 0xCF, CHR 0x86] @ ''(CFG#4(Then):x#1, CFG#5(Else):x#2)'',
      ''Branch on true to CFG#3(IfContinue)''], 0, [1, 2])"
  by code_simp

end
