(* ===== verification/Query.thy ===== *)
theory Query
  imports Prelude "HOL-Library.Product_Lexorder"
begin

text \<open>
  The query library of \<open>Sandbox/query.hpp\<close>: the container traits, \<open>cast\<close>, \<open>merge\<close>, \<open>gate\<close>, \<open>where\<close>,
  \<open>set_operation\<close>, \<open>numeric\<close>, \<open>order\<close> and the fluent \<open>from\<close>, in the order of the file.

  A container is a record of its template (\<open>kind\<close>) and its elements in iteration order. The ordered
  containers sort by a part of the element, the argument \<open>key\<close> of the operations: the element itself
  for sequences and sets, the first component for maps. The unordered containers, whose iteration
  order the standard leaves open, occur in the traits only. \<open>None\<close> is the value of a call that
  no overload accepts, so that the program does not compile, and of undefined behaviour. A loop whose
  body does not compile gives \<open>None\<close> from the first element on.
\<close>

datatype kind =
    std_vector
  | std_deque
  | std_list
  | std_forward_list
  | std_set
  | std_multiset
  | std_basic_string
  | std_initializer_list
  | std_map
  | std_multimap
  | std_stack
  | std_queue

record 'e container =
  kind_of :: kind
  items :: "'e list"

definition default_ctor :: "kind \<Rightarrow> 'e container" where
  "default_ctor k = \<lparr>kind_of = k, items = []\<rparr>"

subsection \<open>Container traits\<close>

datatype cxx_type =
    Container kind
  | std_unordered_map
  | std_unordered_multimap
  | not_a_container

fun has_iterator :: "cxx_type \<Rightarrow> bool" where
  "has_iterator (Container std_stack) = False"
| "has_iterator (Container std_queue) = False"
| "has_iterator not_a_container = False"
| "has_iterator _ = True"

fun has_mapped_type :: "cxx_type \<Rightarrow> bool" where
  "has_mapped_type (Container std_map) = True"
| "has_mapped_type (Container std_multimap) = True"
| "has_mapped_type std_unordered_map = True"
| "has_mapped_type std_unordered_multimap = True"
| "has_mapped_type _ = False"

fun has_traits_type :: "cxx_type \<Rightarrow> bool" where
  "has_traits_type (Container std_basic_string) = True"
| "has_traits_type _ = False"

definition is_sequence_container :: "cxx_type \<Rightarrow> bool" where
  "is_sequence_container t \<longleftrightarrow> has_iterator t \<and> \<not> has_mapped_type t"

definition is_associative_container :: "cxx_type \<Rightarrow> bool" where
  "is_associative_container t \<longleftrightarrow> has_iterator t \<and> has_mapped_type t"

definition is_basic_string :: "cxx_type \<Rightarrow> bool" where
  "is_basic_string t \<longleftrightarrow> has_iterator t \<and> has_traits_type t"

fun need_emplace_param :: "kind \<Rightarrow> bool" where
  "need_emplace_param std_vector = True"
| "need_emplace_param std_list = True"
| "need_emplace_param std_deque = True"
| "need_emplace_param _ = False"

fun has_not_clear_method :: "kind \<Rightarrow> bool" where
  "has_not_clear_method std_stack = True"
| "has_not_clear_method std_queue = True"
| "has_not_clear_method _ = False"

fun need_push_back :: "kind \<Rightarrow> bool" where
  "need_push_back std_basic_string = True"
| "need_push_back _ = False"

subsection \<open>The insertion operations of the standard containers\<close>

text \<open>
  \<open>emplace_unique\<close> is \<open>emplace\<close> of \<open>std::set\<close> and \<open>std::map\<close>: nothing happens when an equivalent element
  is there. \<open>emplace_equal\<close> is that of the multi containers: the element goes behind its equivalents.
\<close>

fun emplace_equal :: "('e \<Rightarrow> 'k::linorder) \<Rightarrow> 'e \<Rightarrow> 'e list \<Rightarrow> 'e list" where
  "emplace_equal key x [] = [x]"
| "emplace_equal key x (y # ys) =
     (if key x < key y then x # y # ys else y # emplace_equal key x ys)"

definition emplace_unique :: "('e \<Rightarrow> 'k::linorder) \<Rightarrow> 'e \<Rightarrow> 'e list \<Rightarrow> 'e list" where
  "emplace_unique key x xs = (if list_ex (\<lambda>y. key y = key x) xs then xs else emplace_equal key x xs)"

definition emplace :: "('e \<Rightarrow> 'k::linorder) \<Rightarrow> 'e \<Rightarrow> 'e container \<Rightarrow> 'e container option" where
  "emplace key x c = (case kind_of c of
       std_set \<Rightarrow> Some (c\<lparr>items := emplace_unique key x (items c)\<rparr>)
     | std_map \<Rightarrow> Some (c\<lparr>items := emplace_unique key x (items c)\<rparr>)
     | std_multiset \<Rightarrow> Some (c\<lparr>items := emplace_equal key x (items c)\<rparr>)
     | std_multimap \<Rightarrow> Some (c\<lparr>items := emplace_equal key x (items c)\<rparr>)
     | std_stack \<Rightarrow> Some (c\<lparr>items := items c @ [x]\<rparr>)
     | std_queue \<Rightarrow> Some (c\<lparr>items := items c @ [x]\<rparr>)
     | _ \<Rightarrow> None)"

definition append_item :: "'e \<Rightarrow> 'e container \<Rightarrow> 'e container" where
  "append_item x c = c\<lparr>items := items c @ [x]\<rparr>"

definition any_push :: "('e \<Rightarrow> 'k::linorder) \<Rightarrow> 'e \<Rightarrow> 'e container \<Rightarrow> 'e container option" where
  "any_push key x c =
     (if need_emplace_param (kind_of c) then Some (append_item x c)
      else if need_push_back (kind_of c) then Some (append_item x c)
      else emplace key x c)"

definition any_clear :: "'e container \<Rightarrow> 'e container option" where
  "any_clear c =
     (if has_not_clear_method (kind_of c) then Some c
      else if kind_of c = std_initializer_list then None
      else Some (c\<lparr>items := []\<rparr>))"

fun push_all :: "('e \<Rightarrow> 'k::linorder) \<Rightarrow> 'e list \<Rightarrow> 'e container \<Rightarrow> 'e container option" where
  "push_all key [] c = Some c"
| "push_all key (x # xs) c = Option.bind (any_push key x c) (push_all key xs)"

subsection \<open>Container cast\<close>

text \<open>
  \<open>range_ctor\<close> is the constructor from an iterator pair that \<open>same_to_same\<close> returns. The element types
  that \<open>to_string\<close> tells apart at compile time are the constructors of \<open>scalar\<close>; the caller passes the
  one that fits its elements.
\<close>

datatype scalar = integral int | textual string

fun to_string :: "scalar \<Rightarrow> string" where
  "to_string (integral i) = std_to_string i"
| "to_string (textual s) = s"

definition range_ctor :: "('e \<Rightarrow> 'k::linorder) \<Rightarrow> kind \<Rightarrow> 'e list \<Rightarrow> 'e container option" where
  "range_ctor key k xs =
     (if k = std_forward_list then Some \<lparr>kind_of = k, items = xs\<rparr>
      else if k \<in> {std_initializer_list, std_stack, std_queue} then None
      else push_all key xs (default_ctor k))"

definition same_to_same :: "('e \<Rightarrow> 'k::linorder) \<Rightarrow> kind \<Rightarrow> 'e container \<Rightarrow> 'e container option" where
  "same_to_same key to_type sequence = range_ctor key to_type (items sequence)"

fun seq_to_string_loop :: "('e \<Rightarrow> scalar) \<Rightarrow> 'e list \<Rightarrow> string \<Rightarrow> string" where
  "seq_to_string_loop sc [] result = result"
| "seq_to_string_loop sc (x # xs) result =
     seq_to_string_loop sc xs (result @ to_string (sc x) @ '' '')"

definition seq_to_string :: "('e \<Rightarrow> scalar) \<Rightarrow> 'e container \<Rightarrow> string" where
  "seq_to_string sc sequence =
     (let result = seq_to_string_loop sc (items sequence) []
      in if result \<noteq> [] then butlast result else result)"

fun ass_to_seq_loop :: "('e \<Rightarrow> 'k::linorder) \<Rightarrow> ('e \<times> 'e) list \<Rightarrow> 'e container \<Rightarrow> 'e container option" where
  "ass_to_seq_loop key [] result = Some result"
| "ass_to_seq_loop key ((k, v) # xs) result =
     do { result \<leftarrow> any_push key k result;
          result \<leftarrow> any_push key v result;
          ass_to_seq_loop key xs result }"

definition ass_to_seq :: "('e \<Rightarrow> 'k::linorder) \<Rightarrow> kind \<Rightarrow> ('e \<times> 'e) container \<Rightarrow> 'e container option" where
  "ass_to_seq key to_type associative =
     ass_to_seq_loop key (items associative) (default_ctor to_type)"

fun ass_to_string_loop :: "('a \<Rightarrow> scalar) \<Rightarrow> ('b \<Rightarrow> scalar) \<Rightarrow> ('a \<times> 'b) list \<Rightarrow> string \<Rightarrow> string" where
  "ass_to_string_loop sk sv [] result = result"
| "ass_to_string_loop sk sv ((k, v) # xs) result =
     ass_to_string_loop sk sv xs
       (result @ ''('' @ to_string (sk k) @ '', '' @ to_string (sv v) @ '')'')"

definition ass_to_string :: "('a \<Rightarrow> scalar) \<Rightarrow> ('b \<Rightarrow> scalar) \<Rightarrow> ('a \<times> 'b) container \<Rightarrow> string" where
  "ass_to_string sk sv associative = ass_to_string_loop sk sv (items associative) []"

text \<open>The four call operators of \<open>cast\<close>, each under its requirement on the two types.\<close>

definition cast_same :: "('e \<Rightarrow> 'k::linorder) \<Rightarrow> kind \<Rightarrow> 'e container \<Rightarrow> 'e container option" where
  "cast_same key to_type c =
     (let f = Container (kind_of c); t = Container to_type
      in if (is_sequence_container f \<and> is_sequence_container t \<and> \<not> is_basic_string t) \<or>
            (is_associative_container f \<and> is_associative_container t \<and> \<not> is_basic_string t)
         then same_to_same key to_type c else None)"

definition cast_seq_string :: "('e \<Rightarrow> scalar) \<Rightarrow> 'e container \<Rightarrow> string option" where
  "cast_seq_string sc c =
     (if is_sequence_container (Container (kind_of c)) then Some (seq_to_string sc c) else None)"

definition cast_ass_seq :: "('e \<Rightarrow> 'k::linorder) \<Rightarrow> kind \<Rightarrow> ('e \<times> 'e) container \<Rightarrow> 'e container option" where
  "cast_ass_seq key to_type c =
     (let f = Container (kind_of c); t = Container to_type
      in if is_associative_container f \<and> is_sequence_container t \<and> \<not> is_basic_string t
         then ass_to_seq key to_type c else None)"

definition cast_ass_string :: "('a \<Rightarrow> scalar) \<Rightarrow> ('b \<Rightarrow> scalar) \<Rightarrow> ('a \<times> 'b) container \<Rightarrow> string option" where
  "cast_ass_string sk sv c =
     (if is_associative_container (Container (kind_of c)) then Some (ass_to_string sk sv c) else None)"

subsection \<open>Container merge\<close>

definition merge_sequence :: "('e \<Rightarrow> 'k::linorder) \<Rightarrow> 'e container \<Rightarrow> 'e container \<Rightarrow> 'e container option" where
  "merge_sequence key target to_merge = push_all key (items to_merge) target"

definition merge_associative :: "('e \<Rightarrow> 'k::linorder) \<Rightarrow> 'e container \<Rightarrow> 'e container \<Rightarrow> 'e container option" where
  "merge_associative key target to_merge = push_all key (items to_merge) target"

definition merge :: "('e \<Rightarrow> 'k::linorder) \<Rightarrow> 'e container \<Rightarrow> 'e container \<Rightarrow> 'e container option" where
  "merge key target to_merge =
     (let t = Container (kind_of target); m = Container (kind_of to_merge)
      in if is_sequence_container t \<and> is_sequence_container m then merge_sequence key target to_merge
         else if is_associative_container t \<and> is_associative_container m
         then merge_associative key target to_merge
         else None)"

subsection \<open>Gates\<close>

record 'a gate =
  comparator :: "'a \<Rightarrow> 'a \<Rightarrow> bool"
  left :: 'a
  right :: 'a
  logical_value :: bool

definition gate_ctor :: "('a \<Rightarrow> 'a \<Rightarrow> bool) \<Rightarrow> 'a \<Rightarrow> 'a \<Rightarrow> 'a gate" where
  "gate_ctor cmp l r = \<lparr>comparator = cmp, left = l, right = r, logical_value = cmp l r\<rparr>"

text \<open>The second constructor value-initialises the right operand; \<open>dflt\<close> is \<open>T()\<close>.\<close>

definition gate_ctor_value :: "'a \<Rightarrow> ('a \<Rightarrow> 'a \<Rightarrow> bool) \<Rightarrow> 'a \<Rightarrow> 'a gate" where
  "gate_ctor_value dflt cmp v = \<lparr>comparator = cmp, left = v, right = dflt, logical_value = False\<rparr>"

definition gate_bool :: "'a gate \<Rightarrow> bool" where
  "gate_bool g = logical_value g"

definition gate_and :: "'a gate \<Rightarrow> 'a gate \<Rightarrow> bool" where
  "gate_and g other = (logical_value g \<and> logical_value other)"

definition gate_or :: "'a gate \<Rightarrow> 'a gate \<Rightarrow> bool" where
  "gate_or g other = (logical_value g \<or> logical_value other)"

definition compare_with :: "'a gate \<Rightarrow> 'a \<Rightarrow> bool" where
  "compare_with g v = comparator g v (left g)"

subsection \<open>Selection\<close>

datatype select_policy = by_key | by_value | no_policy

fun where_loop :: "('e \<Rightarrow> 'k::linorder) \<Rightarrow> ('e \<Rightarrow> bool) \<Rightarrow> int \<Rightarrow> int \<Rightarrow> 'e list \<Rightarrow> 'e container \<Rightarrow> 'e container option" where
  "where_loop key cmp to_take total_found [] new_buffer = Some new_buffer"
| "where_loop key cmp to_take total_found (x # xs) new_buffer =
     (if total_found = to_take then Some new_buffer
      else if cmp x
      then Option.bind (any_push key x new_buffer) (where_loop key cmp to_take (total_found + 1) xs)
      else where_loop key cmp to_take total_found xs new_buffer)"

definition where_sequence :: "('e \<Rightarrow> 'k::linorder) \<Rightarrow> ('e \<Rightarrow> bool) \<Rightarrow> int \<Rightarrow> 'e container \<Rightarrow> 'e container option" where
  "where_sequence key cmp to_take buffer =
     where_loop key cmp to_take 0 (items buffer) (default_ctor (kind_of buffer))"

definition where_associative :: "('a \<Rightarrow> 'b \<Rightarrow> bool) \<Rightarrow> int \<Rightarrow> ('a::linorder \<times> 'b) container \<Rightarrow> ('a \<times> 'b) container option" where
  "where_associative cmp to_take buffer =
     where_loop fst (\<lambda>(k, v). cmp k v) to_take 0 (items buffer) (default_ctor (kind_of buffer))"

definition by_gate :: "('e \<Rightarrow> 'k::linorder) \<Rightarrow> 'e gate \<Rightarrow> int \<Rightarrow> 'e container \<Rightarrow> 'e container option" where
  "by_gate key g = where_sequence key (\<lambda>x. compare_with g x)"

definition by_gate_field :: "('e \<Rightarrow> 'k::linorder) \<Rightarrow> ('e \<Rightarrow> 'f) \<Rightarrow> 'f gate \<Rightarrow> int \<Rightarrow> 'e container \<Rightarrow> 'e container option" where
  "by_gate_field key field g = where_sequence key (\<lambda>x. compare_with g (field x))"

definition by_lambda :: "('e \<Rightarrow> 'k::linorder) \<Rightarrow> ('e \<Rightarrow> bool) \<Rightarrow> int \<Rightarrow> 'e container \<Rightarrow> 'e container option" where
  "by_lambda key lambda = where_sequence key (\<lambda>x. lambda x)"

definition by_lambda_field :: "('e \<Rightarrow> 'k::linorder) \<Rightarrow> ('e \<Rightarrow> 'f) \<Rightarrow> ('f \<Rightarrow> bool) \<Rightarrow> int \<Rightarrow> 'e container \<Rightarrow> 'e container option" where
  "by_lambda_field key field lambda = where_sequence key (\<lambda>x. lambda (field x))"

definition by_gate_policy :: "select_policy \<Rightarrow> 'a::linorder gate \<Rightarrow> int \<Rightarrow> ('a \<times> 'a) container \<Rightarrow> ('a \<times> 'a) container option" where
  "by_gate_policy policy g =
     where_associative (\<lambda>k v. compare_with g (if policy = by_key then k else v))"

definition by_gate_policy_field :: "select_policy \<Rightarrow> ('a::linorder \<Rightarrow> 'f) \<Rightarrow> 'f gate \<Rightarrow> int \<Rightarrow> ('a \<times> 'a) container \<Rightarrow> ('a \<times> 'a) container option" where
  "by_gate_policy_field policy field g =
     where_associative (\<lambda>k v. compare_with g (if policy = by_key then field k else field v))"

definition by_lambda_policy :: "select_policy \<Rightarrow> ('a::linorder \<Rightarrow> bool) \<Rightarrow> int \<Rightarrow> ('a \<times> 'a) container \<Rightarrow> ('a \<times> 'a) container option" where
  "by_lambda_policy policy lambda =
     where_associative (\<lambda>k v. if policy = by_key then lambda k else lambda v)"

definition by_lambda_policy_field :: "select_policy \<Rightarrow> ('a::linorder \<Rightarrow> 'f) \<Rightarrow> ('f \<Rightarrow> bool) \<Rightarrow> int \<Rightarrow> ('a \<times> 'a) container \<Rightarrow> ('a \<times> 'a) container option" where
  "by_lambda_policy_field policy field lambda =
     where_associative (\<lambda>k v. if policy = by_key then lambda (field k) else lambda (field v))"

subsection \<open>Set operations\<close>

text \<open>
  The algorithms of the standard library that \<open>set_operation\<close> calls, on the element order
  \<open>operator<\<close> (for maps the order of pairs); unsorted input breaks their precondition. The results go
  through a \<open>std::inserter\<close>, that is through \<open>insert\<close> with a position behind the last insertion.
\<close>

fun std_set_union :: "'e::linorder list \<Rightarrow> 'e list \<Rightarrow> 'e list" where
  "std_set_union [] ys = ys"
| "std_set_union xs [] = xs"
| "std_set_union (x # xs) (y # ys) =
     (if x < y then x # std_set_union xs (y # ys)
      else if y < x then y # std_set_union (x # xs) ys
      else x # std_set_union xs ys)"

fun std_set_intersection :: "'e::linorder list \<Rightarrow> 'e list \<Rightarrow> 'e list" where
  "std_set_intersection [] ys = []"
| "std_set_intersection xs [] = []"
| "std_set_intersection (x # xs) (y # ys) =
     (if x < y then std_set_intersection xs (y # ys)
      else if y < x then std_set_intersection (x # xs) ys
      else x # std_set_intersection xs ys)"

fun std_set_difference :: "'e::linorder list \<Rightarrow> 'e list \<Rightarrow> 'e list" where
  "std_set_difference [] ys = []"
| "std_set_difference xs [] = xs"
| "std_set_difference (x # xs) (y # ys) =
     (if x < y then x # std_set_difference xs (y # ys)
      else if y < x then std_set_difference (x # xs) ys
      else std_set_difference xs ys)"

definition insert_results :: "('e \<Rightarrow> 'k::linorder) \<Rightarrow> kind \<Rightarrow> 'e list \<Rightarrow> 'e container option" where
  "insert_results key k xs = push_all key xs (default_ctor k)"

definition set_union_with :: "('e::linorder \<Rightarrow> 'k::linorder) \<Rightarrow> 'e container \<Rightarrow> 'e container \<Rightarrow> 'e container option" where
  "set_union_with key w buffer =
     (if sorted (items buffer) \<and> sorted (items w)
      then insert_results key (kind_of buffer) (std_set_union (items buffer) (items w)) else None)"

definition set_intersect_with :: "('e::linorder \<Rightarrow> 'k::linorder) \<Rightarrow> 'e container \<Rightarrow> 'e container \<Rightarrow> 'e container option" where
  "set_intersect_with key w buffer =
     (if sorted (items buffer) \<and> sorted (items w)
      then insert_results key (kind_of buffer) (std_set_intersection (items buffer) (items w)) else None)"

definition set_difference_with :: "('e::linorder \<Rightarrow> 'k::linorder) \<Rightarrow> 'e container \<Rightarrow> 'e container \<Rightarrow> 'e container option" where
  "set_difference_with key w buffer =
     (if sorted (items buffer) \<and> sorted (items w)
      then insert_results key (kind_of buffer) (std_set_difference (items buffer) (items w)) else None)"

subsection \<open>Numeric operations\<close>

fun min_loop :: "'e::linorder list \<Rightarrow> 'e \<Rightarrow> 'e" where
  "min_loop [] m = m"
| "min_loop (x # xs) m = min_loop xs (if x < m then x else m)"

fun max_loop :: "'e::linorder list \<Rightarrow> 'e \<Rightarrow> 'e" where
  "max_loop [] m = m"
| "max_loop (x # xs) m = max_loop xs (if x > m then x else m)"

fun sum_loop :: "string list \<Rightarrow> string \<Rightarrow> string" where
  "sum_loop [] s = s"
| "sum_loop (x # xs) s = sum_loop xs (s @ x)"

definition numeric_ok :: "'e container \<Rightarrow> bool" where
  "numeric_ok c \<longleftrightarrow>
     is_sequence_container (Container (kind_of c)) \<or> is_basic_string (Container (kind_of c))"

text \<open>\<open>*begin()\<close> of an empty container is undefined.\<close>

definition numeric_min :: "'e::linorder container \<Rightarrow> 'e option" where
  "numeric_min c = (if numeric_ok c
     then case items c of [] \<Rightarrow> None | x # xs \<Rightarrow> Some (min_loop (items c) x) else None)"

definition numeric_max :: "'e::linorder container \<Rightarrow> 'e option" where
  "numeric_max c = (if numeric_ok c
     then case items c of [] \<Rightarrow> None | x # xs \<Rightarrow> Some (max_loop (items c) x) else None)"

definition numeric_sum :: "string container \<Rightarrow> string option" where
  "numeric_sum c = (if numeric_ok c then Some (sum_loop (items c) []) else None)"

subsection \<open>Ordering\<close>

text \<open>
  \<open>std::sort\<close> and \<open>list::sort\<close> are the library function \<open>sort\<close>: on the elements of a linear order
  the sorted arrangement is unique. The sets satisfy the requirement of the class template and have
  no overload of the three members.
\<close>

definition vector_deque_sort :: "'e::linorder list \<Rightarrow> 'e list" where
  "vector_deque_sort xs = sort xs"

definition vector_deque_reverse_sort :: "'e::linorder list \<Rightarrow> 'e list" where
  "vector_deque_reverse_sort xs = rev (sort xs)"

definition vector_deque_reverse :: "'e list \<Rightarrow> 'e list" where
  "vector_deque_reverse xs = rev xs"

definition list_order_sort :: "'e::linorder list \<Rightarrow> 'e list" where
  "list_order_sort xs = sort xs"

definition list_order_reverse_sort :: "'e::linorder list \<Rightarrow> 'e list" where
  "list_order_reverse_sort xs = (let sorted_list = sort xs in rev sorted_list)"

definition list_order_reverse :: "'e list \<Rightarrow> 'e list" where
  "list_order_reverse xs = rev xs"

definition order_apply :: "('e list \<Rightarrow> 'e list) \<Rightarrow> ('e list \<Rightarrow> 'e list) \<Rightarrow> 'e container \<Rightarrow> 'e container option" where
  "order_apply vd l buffer =
     (if kind_of buffer \<in> {std_vector, std_deque} then Some (buffer\<lparr>items := vd (items buffer)\<rparr>)
      else if kind_of buffer \<in> {std_list, std_forward_list} then Some (buffer\<lparr>items := l (items buffer)\<rparr>)
      else None)"

definition order_sort :: "'e::linorder container \<Rightarrow> 'e container option" where
  "order_sort = order_apply vector_deque_sort list_order_sort"

definition order_reverse_sort :: "'e::linorder container \<Rightarrow> 'e container option" where
  "order_reverse_sort = order_apply vector_deque_reverse_sort list_order_reverse_sort"

definition order_reverse :: "'e container \<Rightarrow> 'e container option" where
  "order_reverse = order_apply vector_deque_reverse list_order_reverse"

subsection \<open>The fluent interface\<close>

record 'e query_from =
  source_container :: "'e container"
  buffer :: "'e container"
  elements_to_take :: int

definition from_ctor :: "'e container \<Rightarrow> 'e query_from" where
  "from_ctor c = \<lparr>source_container = c, buffer = default_ctor (kind_of c), elements_to_take = -1\<rparr>"

definition populate_buffer_if_empty :: "('e \<Rightarrow> 'k::linorder) \<Rightarrow> 'e query_from \<Rightarrow> 'e query_from option" where
  "populate_buffer_if_empty key q =
     (if items (buffer q) = []
      then do { b \<leftarrow> merge key (buffer q) (source_container q); Some (q\<lparr>buffer := b\<rparr>) }
      else Some q)"

text \<open>Populate the buffer, then hand it to a policy: the common part of the members below.\<close>

definition on_buffer :: "('e \<Rightarrow> 'k::linorder) \<Rightarrow> ('e query_from \<Rightarrow> 'e container option) \<Rightarrow> 'e query_from \<Rightarrow> 'e query_from option" where
  "on_buffer key policy q =
     do { q \<leftarrow> populate_buffer_if_empty key q;
          b \<leftarrow> policy q;
          Some (q\<lparr>buffer := b\<rparr>) }"

definition from_where_gate :: "('e \<Rightarrow> 'k::linorder) \<Rightarrow> 'e gate \<Rightarrow> 'e query_from \<Rightarrow> 'e query_from option" where
  "from_where_gate key g = on_buffer key (\<lambda>q. by_gate key g (elements_to_take q) (buffer q))"

definition from_where_field_gate :: "('e \<Rightarrow> 'k::linorder) \<Rightarrow> ('e \<Rightarrow> 'f) \<Rightarrow> 'f gate \<Rightarrow> 'e query_from \<Rightarrow> 'e query_from option" where
  "from_where_field_gate key field g =
     on_buffer key (\<lambda>q. by_gate_field key field g (elements_to_take q) (buffer q))"

definition from_where_key :: "'a::linorder gate \<Rightarrow> ('a \<times> 'a) query_from \<Rightarrow> ('a \<times> 'a) query_from option" where
  "from_where_key g = on_buffer fst (\<lambda>q. by_gate_policy by_key g (elements_to_take q) (buffer q))"

definition from_where_key_field :: "('a::linorder \<Rightarrow> 'f) \<Rightarrow> 'f gate \<Rightarrow> ('a \<times> 'a) query_from \<Rightarrow> ('a \<times> 'a) query_from option" where
  "from_where_key_field field g =
     on_buffer fst (\<lambda>q. by_gate_policy_field by_key field g (elements_to_take q) (buffer q))"

definition from_where_value :: "'a::linorder gate \<Rightarrow> ('a \<times> 'a) query_from \<Rightarrow> ('a \<times> 'a) query_from option" where
  "from_where_value g = on_buffer fst (\<lambda>q. by_gate_policy by_value g (elements_to_take q) (buffer q))"

definition from_where_lambda :: "('e \<Rightarrow> 'k::linorder) \<Rightarrow> ('e \<Rightarrow> bool) \<Rightarrow> 'e query_from \<Rightarrow> 'e query_from option" where
  "from_where_lambda key lambda = on_buffer key (\<lambda>q. by_lambda key lambda (elements_to_take q) (buffer q))"

definition from_where_field_lambda :: "('e \<Rightarrow> 'k::linorder) \<Rightarrow> ('e \<Rightarrow> 'f) \<Rightarrow> ('f \<Rightarrow> bool) \<Rightarrow> 'e query_from \<Rightarrow> 'e query_from option" where
  "from_where_field_lambda key field lambda =
     on_buffer key (\<lambda>q. by_lambda_field key field lambda (elements_to_take q) (buffer q))"

definition from_take :: "int \<Rightarrow> 'e query_from \<Rightarrow> 'e query_from" where
  "from_take to_take q = q\<lparr>elements_to_take := to_take\<rparr>"

definition merge_impl :: "('e \<Rightarrow> 'k::linorder) \<Rightarrow> 'e container \<Rightarrow> 'e query_from \<Rightarrow> 'e query_from option" where
  "merge_impl key w = on_buffer key (\<lambda>q. merge key (buffer q) w)"

definition from_merge :: "('e \<Rightarrow> 'k::linorder) \<Rightarrow> 'e container \<Rightarrow> 'e query_from \<Rightarrow> 'e query_from option" where
  "from_merge key w q = merge_impl key w q"

definition from_merge_list :: "('e \<Rightarrow> 'k::linorder) \<Rightarrow> 'e list \<Rightarrow> 'e query_from \<Rightarrow> 'e query_from option" where
  "from_merge_list key ws q = merge_impl key \<lparr>kind_of = std_initializer_list, items = ws\<rparr> q"

definition from_sort :: "('e::linorder \<Rightarrow> 'k::linorder) \<Rightarrow> 'e query_from \<Rightarrow> 'e query_from option" where
  "from_sort key = on_buffer key (\<lambda>q. order_sort (buffer q))"

definition from_reverse_sort :: "('e::linorder \<Rightarrow> 'k::linorder) \<Rightarrow> 'e query_from \<Rightarrow> 'e query_from option" where
  "from_reverse_sort key = on_buffer key (\<lambda>q. order_reverse_sort (buffer q))"

definition from_reverse :: "('e::linorder \<Rightarrow> 'k::linorder) \<Rightarrow> 'e query_from \<Rightarrow> 'e query_from option" where
  "from_reverse key = on_buffer key (\<lambda>q. order_reverse (buffer q))"

definition from_union_with :: "('e::linorder \<Rightarrow> 'k::linorder) \<Rightarrow> 'e container \<Rightarrow> 'e query_from \<Rightarrow> 'e query_from option" where
  "from_union_with key w = on_buffer key (\<lambda>q. set_union_with key w (buffer q))"

definition from_intersect_with :: "('e::linorder \<Rightarrow> 'k::linorder) \<Rightarrow> 'e container \<Rightarrow> 'e query_from \<Rightarrow> 'e query_from option" where
  "from_intersect_with key w = on_buffer key (\<lambda>q. set_intersect_with key w (buffer q))"

definition from_difference_with :: "('e::linorder \<Rightarrow> 'k::linorder) \<Rightarrow> 'e container \<Rightarrow> 'e query_from \<Rightarrow> 'e query_from option" where
  "from_difference_with key w = on_buffer key (\<lambda>q. set_difference_with key w (buffer q))"

text \<open>
  \<open>to\<close> casts the container when the buffer is empty and the buffer otherwise; it is one template in the
  code and takes the cast of the target type here. The same choice is made by the numeric members.
\<close>

definition from_to :: "('e container \<Rightarrow> 'r option) \<Rightarrow> 'e query_from \<Rightarrow> 'r option" where
  "from_to cast_policy q =
     (if items (buffer q) = [] then cast_policy (source_container q) else cast_policy (buffer q))"

definition from_min :: "'e::linorder query_from \<Rightarrow> 'e option" where
  "from_min q =
     (if items (buffer q) = [] then numeric_min (source_container q)
      else do { q \<leftarrow> populate_buffer_if_empty (\<lambda>x. x) q; numeric_min (buffer q) })"

definition from_max :: "'e::linorder query_from \<Rightarrow> 'e option" where
  "from_max q =
     (if items (buffer q) = [] then numeric_max (source_container q)
      else do { q \<leftarrow> populate_buffer_if_empty (\<lambda>x. x) q; numeric_max (buffer q) })"

definition from_sum :: "(string \<Rightarrow> 'k::linorder) \<Rightarrow> string query_from \<Rightarrow> string option" where
  "from_sum key q =
     (if items (buffer q) = [] then numeric_sum (source_container q)
      else do { q \<leftarrow> populate_buffer_if_empty key q; numeric_sum (buffer q) })"

end
