(* ===== verification/Query_Correct.thy ===== *)
theory Query_Correct
  imports Query "HOL-Library.Sublist"
begin

text \<open>
  What the containers of the query library hold. \<open>gather\<close> is the reference definition of the
  contents of a container into which a list of elements was pushed: the list itself for the
  sequences, the stably sorted list for the multi containers, and the sorted list of the first
  element of every class of equivalent elements for sets and maps. The interface of a push operation
  is the locale \<open>collector\<close>, interpreted on \<open>any_push\<close>; selection, merging, casting and the set
  operations are reduced to it.
\<close>

subsection \<open>The interface of an insertion operation\<close>

locale collector =
  fixes push :: "'e \<Rightarrow> 'c \<Rightarrow> 'c option"
    and contents :: "'c \<Rightarrow> 'e list"
    and good :: "'c \<Rightarrow> bool"
    and canon :: "'e list \<Rightarrow> 'e list"
  assumes push_good: "good c \<Longrightarrow> \<exists>c'. push x c = Some c' \<and> good c' \<and> contents c' = canon (contents c @ [x])"
    and good_canon: "good c \<Longrightarrow> canon (contents c) = contents c"
    and canon_canon: "canon (canon xs) = canon xs"
    and canon_snoc: "canon (canon xs @ [x]) = canon (xs @ [x])"
    and canon_subseq: "canon xs = xs \<Longrightarrow> subseq ys xs \<Longrightarrow> canon ys = ys"
begin

lemma canon_append: "canon (canon xs @ ys) = canon (xs @ ys)"
proof (induction ys rule: rev_induct)
  case (snoc y ys)
  then show ?case
    by (metis append_assoc canon_snoc)
qed (simp add: canon_canon)

lemma collect:
  assumes "good c"
  shows "\<exists>c'. foldl (\<lambda>acc x. Option.bind acc (push x)) (Some c) xs = Some c' \<and> good c' \<and>
      contents c' = canon (contents c @ xs)"
  using assms
proof (induction xs arbitrary: c)
  case Nil
  then show ?case by (simp add: good_canon)
next
  case (Cons x xs)
  obtain c1 where c1: "push x c = Some c1" "good c1" "contents c1 = canon (contents c @ [x])"
    using push_good [OF Cons.prems, of x] by blast
  moreover have "canon (canon (contents c @ [x]) @ xs) = canon (contents c @ x # xs)"
    by (simp add: canon_append)
  ultimately show ?case
    using Cons.IH [OF c1(2)] by simp
qed

lemma collect_part:
  assumes "good c" "contents c = []" "canon xs = xs" "subseq ys xs"
  shows "\<exists>c'. foldl (\<lambda>acc x. Option.bind acc (push x)) (Some c) ys = Some c' \<and> good c' \<and> contents c' = ys"
  using collect [OF assms(1), of ys] canon_subseq [OF assms(3, 4)] assms(2) by simp

end

subsection \<open>Reference contents\<close>

fun firsts :: "('e \<Rightarrow> 'k) \<Rightarrow> 'e list \<Rightarrow> 'e list" where
  "firsts key [] = []"
| "firsts key (x # xs) = x # filter (\<lambda>y. key y \<noteq> key x) (firsts key xs)"

definition unique_kind :: "kind \<Rightarrow> bool" where
  "unique_kind k \<longleftrightarrow> k = std_set \<or> k = std_map"

definition multi_kind :: "kind \<Rightarrow> bool" where
  "multi_kind k \<longleftrightarrow> k = std_multiset \<or> k = std_multimap"

definition pushable :: "kind \<Rightarrow> bool" where
  "pushable k \<longleftrightarrow> k \<noteq> std_forward_list \<and> k \<noteq> std_initializer_list"

definition gather :: "('e \<Rightarrow> 'k::linorder) \<Rightarrow> kind \<Rightarrow> 'e list \<Rightarrow> 'e list" where
  "gather key k xs =
     (if unique_kind k then sort_key key (firsts key xs)
      else if multi_kind k then sort_key key xs else xs)"

definition well_formed :: "('e \<Rightarrow> 'k::linorder) \<Rightarrow> kind \<Rightarrow> 'e container \<Rightarrow> bool" where
  "well_formed key k c \<longleftrightarrow> kind_of c = k \<and> pushable k \<and> gather key k (items c) = items c"

lemma filter_key_firsts: "filter (\<lambda>y. key y = a) (firsts key xs) = take 1 (filter (\<lambda>y. key y = a) xs)"
proof (induction xs)
  case (Cons x xs)
  have "filter (\<lambda>y. key y \<noteq> key x \<and> key y = a) zs = (if key x = a then [] else filter (\<lambda>y. key y = a) zs)" for zs
    by (induction zs) auto
  then show ?case
    using Cons by (auto simp: conj_commute)
qed simp

lemma set_keys_firsts [simp]: "key ` set (firsts key xs) = key ` set xs"
proof (induction xs)
  case (Cons x xs)
  have "key ` {y \<in> A. key y \<noteq> key x} = key ` A - {key x}" for A
    by auto
  then show ?case
    using Cons by auto
qed simp

lemma set_firsts: "set (firsts key xs) \<subseteq> set xs"
  by (induction xs) auto

lemma distinct_firsts: "distinct (map key (firsts key xs))"
  by (induction xs) (auto simp: distinct_map inj_on_def)

lemma firsts_distinct: "distinct (map key xs) \<Longrightarrow> firsts key xs = xs"
  by (induction xs) (auto simp: filter_id_conv image_iff)

lemma firsts_append:
  "firsts key (xs @ ys) = firsts key xs @ filter (\<lambda>y. key y \<notin> key ` set xs) (firsts key ys)"
  by (induction xs) (auto intro: filter_cong)

lemma sort_key_eqI:
  assumes "mset xs = mset ys" "\<And>a. filter (\<lambda>y. key y = a) xs = filter (\<lambda>y. key y = a) ys"
  shows "sort_key key xs = sort_key key ys"
proof (rule properties_for_sort_key)
  show "mset (sort_key key ys) = mset xs"
    using assms(1) by simp
  show "filter (\<lambda>x. key k = key x) (sort_key key ys) = filter (\<lambda>x. key k = key x) xs" for k
    using assms(2) [of "key k"] sort_key_stable [of key "key k" ys]
    by (simp add: eq_commute [of "key k"])
qed simp

lemma gather_fixed:
  "gather key k xs = xs \<longleftrightarrow>
     (unique_kind k \<or> multi_kind k \<longrightarrow> sorted (map key xs)) \<and> (unique_kind k \<longrightarrow> distinct (map key xs))"
proof -
  have "distinct (map key (sort_key key (firsts key xs)))"
    using distinct_firsts [of key xs] by (simp add: distinct_map)
  then show ?thesis
    unfolding gather_def
    by (metis firsts_distinct sort_key_id_if_sorted sorted_sort_key)
qed

lemma sorted_map_subseq: "subseq ys xs \<Longrightarrow> sorted (map key xs) \<Longrightarrow> sorted (map key ys)"
  by (induction rule: list_emb.induct) (auto dest: list_emb_set)

lemma distinct_map_subseq: "subseq ys xs \<Longrightarrow> distinct (map key xs) \<Longrightarrow> distinct (map key ys)"
  by (induction rule: list_emb.induct) (auto dest: list_emb_set)

lemma gather_subseq: "gather key k xs = xs \<Longrightarrow> subseq ys xs \<Longrightarrow> gather key k ys = ys"
  unfolding gather_fixed using sorted_map_subseq distinct_map_subseq by blast

lemma gather_gather [simp]: "gather key k (gather key k xs) = gather key k xs"
proof -
  have "distinct (map key (sort_key key (firsts key xs)))"
    using distinct_firsts [of key xs] by (simp add: distinct_map)
  then show ?thesis
    unfolding gather_fixed by (auto simp: gather_def)
qed

lemma firsts_snoc: "firsts key (xs @ [x]) = firsts key xs @ (if key x \<in> key ` set xs then [] else [x])"
  by (simp add: firsts_append)

lemma gather_snoc: "gather key k (gather key k xs @ [x]) = gather key k (xs @ [x])"
proof (cases "unique_kind k")
  case True
  let ?F = "firsts key xs"
  let ?t = "if key x \<in> key ` set xs then [] else [x]"
  have "firsts key (sort_key key ?F @ [x]) = sort_key key ?F @ ?t"
    using distinct_firsts [of key xs] by (simp add: firsts_snoc firsts_distinct distinct_map)
  moreover have "sort_key key (sort_key key ?F @ ?t) = sort_key key (?F @ ?t)"
    by (rule sort_key_eqI) (simp_all add: sort_key_stable)
  ultimately show ?thesis
    using True by (simp add: gather_def firsts_snoc)
next
  case False
  have "sort_key key (sort_key key xs @ [x]) = sort_key key (xs @ [x])"
    by (rule sort_key_eqI) (simp_all add: sort_key_stable)
  then show ?thesis
    using False by (simp add: gather_def)
qed

subsection \<open>The insertion operations\<close>

lemma mset_emplace_equal [simp]: "mset (emplace_equal key x xs) = add_mset x (mset xs)"
  by (induction xs) auto

lemma set_emplace_equal [simp]: "set (emplace_equal key x xs) = insert x (set xs)"
  by (metis mset_emplace_equal set_mset_add_mset_insert set_mset_mset)

lemma sorted_emplace_equal: "sorted (map key xs) \<Longrightarrow> sorted (map key (emplace_equal key x xs))"
  by (induction xs) auto

lemma filter_emplace_equal:
  "sorted (map key xs) \<Longrightarrow>
     filter (\<lambda>y. key y = a) (emplace_equal key x xs) = filter (\<lambda>y. key y = a) (xs @ [x])"
proof (induction xs)
  case (Cons y ys)
  have "filter (\<lambda>z. key z = key x) ys = []" if "key x < key y"
    using Cons.prems that by (auto simp: filter_empty_conv)
  then show ?case
    using Cons by auto
qed simp

lemma emplace_equal_sort:
  assumes "sorted (map key xs)"
  shows "emplace_equal key x xs = sort_key key (xs @ [x])"
proof (rule sym, rule properties_for_sort_key)
  show "filter (\<lambda>y. key k = key y) (emplace_equal key x xs) = filter (\<lambda>y. key k = key y) (xs @ [x])" for k
    using filter_emplace_equal [OF assms, of "key k" x] by (simp add: eq_commute [of "key k"])
qed (simp_all add: assms sorted_emplace_equal)

lemma emplace_unique_sort:
  assumes "sorted (map key xs)" "distinct (map key xs)"
  shows "emplace_unique key x xs = sort_key key (firsts key (xs @ [x]))"
  using assms
  by (auto simp: emplace_unique_def list_ex_iff emplace_equal_sort firsts_snoc firsts_distinct
      sort_key_id_if_sorted image_iff)

lemma emplace_gather:
  assumes "gather key k xs = xs"
  shows "unique_kind k \<Longrightarrow> emplace_unique key x xs = gather key k (xs @ [x])"
    and "multi_kind k \<Longrightarrow> emplace_equal key x xs = gather key k (xs @ [x])"
  using assms emplace_unique_sort [of key xs x] emplace_equal_sort [of key xs x]
  unfolding gather_fixed by (auto simp: gather_def unique_kind_def multi_kind_def)

lemma any_push_gather:
  assumes "well_formed key k c"
  shows "\<exists>c'. any_push key x c = Some c' \<and> well_formed key k c' \<and> items c' = gather key k (items c @ [x])"
proof -
  have k: "kind_of c = k" "pushable k" and g: "gather key k (items c) = items c"
    using assms by (auto simp: well_formed_def)
  have "any_push key x c = Some (c\<lparr>items := gather key k (items c @ [x])\<rparr>)"
    using k emplace_gather [OF g, of x]
    by (cases k) (simp_all add: any_push_def emplace_def append_item_def pushable_def
        unique_kind_def multi_kind_def gather_def)
  then show ?thesis
    using k by (simp add: well_formed_def)
qed

interpretation pushes: collector "any_push key" items "well_formed key k" "gather key k" for key k
proof
  show "well_formed key k c \<Longrightarrow>
      \<exists>c'. any_push key x c = Some c' \<and> well_formed key k c' \<and> items c' = gather key k (items c @ [x])" for c x
    by (rule any_push_gather)
qed (auto simp: well_formed_def gather_snoc intro: gather_subseq)

lemma push_all_foldl: "push_all key xs c = foldl (\<lambda>acc x. Option.bind acc (any_push key x)) (Some c) xs"
proof -
  have "foldl (\<lambda>acc x. Option.bind acc (any_push key x)) None xs = None" for xs :: "'a list"
    by (induction xs) simp_all
  then show ?thesis
    by (induction xs arbitrary: c) (simp_all split: bind_split)
qed

lemma well_formed_default [simp]: "well_formed key k (default_ctor k) \<longleftrightarrow> pushable k"
  by (simp add: well_formed_def default_ctor_def gather_def)

lemma items_default [simp]: "items (default_ctor k) = []" and kind_default [simp]: "kind_of (default_ctor k) = k"
  by (simp_all add: default_ctor_def)

lemma push_all_gather:
  "well_formed key k c \<Longrightarrow>
     \<exists>c'. push_all key xs c = Some c' \<and> well_formed key k c' \<and> items c' = gather key k (items c @ xs)"
  unfolding push_all_foldl by (rule pushes.collect)

lemma gather_Nil [simp]: "gather key k [] = []"
  by (simp add: gather_def)

lemma push_all_default:
  assumes "pushable k"
  shows "push_all key xs (default_ctor k) = Some \<lparr>kind_of = k, items = gather key k xs\<rparr>"
proof -
  have "well_formed key k (default_ctor k)"
    using assms by simp
  then obtain c where "push_all key xs (default_ctor k) = Some c" "well_formed key k c" "items c = gather key k xs"
    using push_all_gather [of key k "default_ctor k" xs] by auto
  then show ?thesis
    by (cases c) (simp add: well_formed_def)
qed

lemma push_all_part:
  "pushable k \<Longrightarrow> gather key k xs = xs \<Longrightarrow> subseq ys xs \<Longrightarrow>
     \<exists>c'. push_all key ys (default_ctor k) = Some c' \<and> well_formed key k c' \<and> items c' = ys"
  unfolding push_all_foldl by (rule pushes.collect_part) simp_all

subsection \<open>Selection\<close>

definition limited :: "int \<Rightarrow> 'e list \<Rightarrow> 'e list" where
  "limited n xs = (if n < 0 then xs else take (nat n) xs)"

lemma subseq_limited [simp]: "subseq (limited n xs) xs"
  by (simp add: limited_def take_is_prefix prefix_imp_subseq)

lemma where_loop_push_all:
  assumes "0 \<le> found" "to_take < 0 \<or> found \<le> to_take"
  shows "where_loop key cmp to_take found xs c =
     push_all key (if to_take < 0 then filter cmp xs else take (nat (to_take - found)) (filter cmp xs)) c"
  using assms
proof (induction xs arbitrary: found c)
  case (Cons x xs)
  show ?case
  proof (cases "found = to_take \<or> \<not> cmp x")
    case True
    then show ?thesis
      using Cons by auto
  next
    case False
    then have "to_take < 0 \<or> found + 1 \<le> to_take" "0 \<le> found + 1"
      using Cons.prems by auto
    moreover have "nat (to_take - found) = Suc (nat (to_take - (found + 1)))" if "\<not> to_take < 0"
      using that False Cons.prems by linarith
    ultimately show ?thesis
      using False Cons.IH by (auto intro!: Option.bind_cong)
  qed
qed simp

lemma where_sequence_push_all:
  "where_sequence key cmp to_take b = push_all key (limited to_take (filter cmp (items b))) (default_ctor (kind_of b))"
  unfolding where_sequence_def limited_def by (subst where_loop_push_all) auto

lemma where_sequence_filter:
  assumes "well_formed key k b"
  shows "\<exists>b'. where_sequence key cmp to_take b = Some b' \<and> well_formed key k b' \<and>
      items b' = limited to_take (filter cmp (items b))"
proof -
  have "subseq (limited to_take (filter cmp (items b))) (items b)"
    using subseq_limited subseq_filter_left by (rule subseq_order.trans)
  then show ?thesis
    using assms push_all_part [of k key "items b"]
    by (simp add: well_formed_def where_sequence_push_all)
qed

subsection \<open>Merging and casting\<close>

lemma merge_gather:
  assumes "well_formed key k target"
    and "is_sequence_container (Container k) \<and> is_sequence_container (Container (kind_of m)) \<or>
         is_associative_container (Container k) \<and> is_associative_container (Container (kind_of m))"
  shows "\<exists>c'. merge key target m = Some c' \<and> well_formed key k c' \<and>
      items c' = gather key k (items target @ items m)"
proof -
  have "merge key target m = push_all key (items m) target"
    using assms by (auto simp: merge_def merge_sequence_def merge_associative_def well_formed_def Let_def)
  then show ?thesis
    using push_all_gather [OF assms(1), of "items m"] by simp
qed

lemma range_ctor_gather:
  assumes "pushable k \<or> k = std_forward_list" "k \<noteq> std_stack" "k \<noteq> std_queue"
  shows "range_ctor key k xs = Some \<lparr>kind_of = k, items = gather key k xs\<rparr>"
  using assms
  by (auto simp: range_ctor_def push_all_default) (simp_all add: gather_def unique_kind_def multi_kind_def pushable_def)

fun flatten :: "('e \<times> 'e) list \<Rightarrow> 'e list" where
  "flatten [] = []"
| "flatten ((k, v) # xs) = k # v # flatten xs"

lemma ass_to_seq_loop_push_all: "ass_to_seq_loop key xs c = push_all key (flatten xs) c"
  by (induction key xs c rule: ass_to_seq_loop.induct) (auto intro!: Option.bind_cong)

lemma ass_to_seq_gather:
  assumes "pushable k"
  shows "ass_to_seq key k c = Some \<lparr>kind_of = k, items = gather key k (flatten (items c))\<rparr>"
  using assms by (simp add: ass_to_seq_def ass_to_seq_loop_push_all push_all_default)

subsection \<open>Set operations\<close>

lemma mset_std_set_union:
  "sorted xs \<Longrightarrow> sorted ys \<Longrightarrow> mset (std_set_union xs ys) = mset xs \<union># mset ys"
proof (induction xs ys rule: std_set_union.induct)
  case (3 x xs y ys)
  have "y \<notin># mset (x # xs)" if "y < x"
    using 3(4) that by auto
  moreover have "x \<notin># mset (y # ys)" if "x < y"
    using 3(5) that by auto
  ultimately show ?case
    using 3 by (cases "x < y"; cases "y < x") (auto simp: sup_union_left2)
qed simp_all

lemma mset_std_set_intersection:
  "sorted xs \<Longrightarrow> sorted ys \<Longrightarrow> mset (std_set_intersection xs ys) = mset xs \<inter># mset ys"
proof (induction xs ys rule: std_set_intersection.induct)
  case (3 x xs y ys)
  have "y \<notin># mset (x # xs)" if "y < x"
    using 3(4) that by auto
  moreover have "x \<notin># mset (y # ys)" if "x < y"
    using 3(5) that by auto
  ultimately show ?case
    using 3 by (cases "x < y"; cases "y < x") (auto simp: inter_add_left1 inter_add_right1)
qed simp_all

lemma mset_std_set_difference:
  "sorted xs \<Longrightarrow> sorted ys \<Longrightarrow> mset (std_set_difference xs ys) = mset xs - mset ys"
proof (induction xs ys rule: std_set_difference.induct)
  case (3 x xs y ys)
  have "y \<notin># mset (x # xs)" if "y < x"
    using 3(4) that by auto
  moreover have "x \<notin># mset (y # ys)" if "x < y"
    using 3(5) that by auto
  ultimately show ?case
    using 3 by (cases "x < y"; cases "y < x") auto
qed simp_all

lemma set_std_set_union: "set (std_set_union xs ys) \<subseteq> set xs \<union> set ys"
  by (induction xs ys rule: std_set_union.induct) auto

lemma sorted_Cons_union:
  assumes "sorted (std_set_union as bs)" "\<forall>z \<in> set as. m \<le> z" "\<forall>z \<in> set bs. m \<le> z"
  shows "sorted (m # std_set_union as bs)"
  using assms set_std_set_union [of as bs] by auto

lemma sorted_std_set_union: "sorted xs \<Longrightarrow> sorted ys \<Longrightarrow> sorted (std_set_union xs ys)"
proof (induction xs ys rule: std_set_union.induct)
  case (3 x xs y ys)
  have s: "sorted xs" "sorted ys" "\<forall>z \<in> set xs. x \<le> z" "\<forall>z \<in> set ys. y \<le> z"
    using "3.prems" by simp_all
  consider (lt) "x < y" | (gt) "y < x" | (eq) "x = y"
    by (rule linorder_cases)
  then show ?case
  proof cases
    case lt
    have "sorted (std_set_union xs (y # ys))"
      using "3.IH"(1) [OF lt s(1) "3.prems"(2)] .
    moreover have "\<forall>z \<in> set (y # ys). x \<le> z"
      using lt s(4) by (auto intro: order.trans less_imp_le)
    ultimately have "sorted (x # std_set_union xs (y # ys))"
      using s(3) by (intro sorted_Cons_union)
    then show ?thesis
      using lt by simp
  next
    case gt
    have "sorted (std_set_union (x # xs) ys)"
      using "3.IH"(2) [OF _ gt "3.prems"(1) s(2)] gt by simp
    moreover have "\<forall>z \<in> set (x # xs). y \<le> z"
      using gt s(3) by (auto intro: order.trans less_imp_le)
    ultimately have "sorted (y # std_set_union (x # xs) ys)"
      using s(4) by (intro sorted_Cons_union)
    then show ?thesis
      using gt by auto
  next
    case eq
    then have "sorted (std_set_union xs ys)"
      using "3.IH"(3) s by simp
    then have "sorted (x # std_set_union xs ys)"
      using s(3, 4) eq by (intro sorted_Cons_union) simp_all
    then show ?thesis
      using eq by simp
  qed
qed simp_all

lemma subseq_std_set_intersection: "subseq (std_set_intersection xs ys) xs"
  by (induction xs ys rule: std_set_intersection.induct) auto

lemma subseq_std_set_difference: "subseq (std_set_difference xs ys) xs"
  by (induction xs ys rule: std_set_difference.induct) auto

lemma sorted_list_of_mset: "sorted xs \<Longrightarrow> mset xs = M \<Longrightarrow> xs = sorted_list_of_multiset M"
  by (metis sorted_list_of_multiset_mset sorted_sort_id)

lemma std_set_operations:
  assumes "sorted xs" "sorted ys"
  shows "std_set_union xs ys = sorted_list_of_multiset (mset xs \<union># mset ys)"
    and "std_set_intersection xs ys = sorted_list_of_multiset (mset xs \<inter># mset ys)"
    and "std_set_difference xs ys = sorted_list_of_multiset (mset xs - mset ys)"
proof -
  have sub: "sorted zs" if "subseq zs xs" for zs
    using sorted_map_subseq [OF that, of "\<lambda>x. x"] assms(1) by simp
  show "std_set_union xs ys = sorted_list_of_multiset (mset xs \<union># mset ys)"
    using assms by (intro sorted_list_of_mset [OF sorted_std_set_union] mset_std_set_union)
  show "std_set_intersection xs ys = sorted_list_of_multiset (mset xs \<inter># mset ys)"
    by (rule sorted_list_of_mset [OF sub [OF subseq_std_set_intersection] mset_std_set_intersection [OF assms]])
  show "std_set_difference xs ys = sorted_list_of_multiset (mset xs - mset ys)"
    by (rule sorted_list_of_mset [OF sub [OF subseq_std_set_difference] mset_std_set_difference [OF assms]])
qed

subsection \<open>Numeric operations\<close>

lemma min_loop_Min: "min_loop xs m = Min (insert m (set xs))"
proof (induction xs arbitrary: m)
  case (Cons x xs)
  have "min_loop (x # xs) m = min_loop xs (min x m)"
    by (auto simp: min_def)
  also have "\<dots> = Min (insert m (set (x # xs)))"
    unfolding Cons by (cases "xs = []") (simp_all add: insert_commute [of m x] min.assoc)
  finally show ?case .
qed simp

lemma max_loop_Max: "max_loop xs m = Max (insert m (set xs))"
proof (induction xs arbitrary: m)
  case (Cons x xs)
  have "max_loop (x # xs) m = max_loop xs (max x m)"
    by (auto simp: max_def not_less intro: arg_cong [of _ _ "max_loop xs"])
  also have "\<dots> = Max (insert m (set (x # xs)))"
    unfolding Cons by (cases "xs = []") (simp_all add: insert_commute [of m x] max.assoc)
  finally show ?case .
qed simp

lemma sum_loop_concat: "sum_loop xs s = s @ concat xs"
  by (induction xs arbitrary: s) simp_all

subsection \<open>Text\<close>

lemma seq_to_string_loop_concat:
  "seq_to_string_loop sc xs r = r @ concat (map (\<lambda>x. to_string (sc x) @ '' '') xs)"
  by (induction xs arbitrary: r) simp_all

lemma ass_to_string_loop_concat:
  "ass_to_string_loop sk sv xs r =
     r @ concat (map (\<lambda>(k, v). ''('' @ to_string (sk k) @ '', '' @ to_string (sv v) @ '')'') xs)"
  by (induction xs arbitrary: r) auto

text \<open>A reader for the text that \<open>seq_to_string\<close> writes: the words between the spaces.\<close>

fun split_words :: "string \<Rightarrow> string \<Rightarrow> string list" where
  "split_words [] w = [w]"
| "split_words (c # cs) w = (if c = CHR '' '' then w # split_words cs [] else split_words cs (w @ [c]))"

lemma split_words_append: "CHR '' '' \<notin> set u \<Longrightarrow> split_words (u @ s) w = split_words s (w @ u)"
  by (induction u arbitrary: w) auto

lemma split_words_join:
  assumes "us \<noteq> []" "\<forall>u \<in> set us. CHR '' '' \<notin> set u"
  shows "split_words (butlast (concat (map (\<lambda>u. u @ '' '') us))) [] = us"
  using assms
proof (induction us rule: list_nonempty_induct)
  case (single u)
  then show ?case
    using split_words_append [of u "[]" "[]"] by (simp add: butlast_append)
next
  case (cons u us)
  let ?r = "concat (map (\<lambda>u. u @ '' '') us)"
  have "butlast (u @ '' '' @ ?r) = u @ '' '' @ butlast ?r"
    using cons.hyps by (cases us) (simp_all add: butlast_append)
  then show ?case
    using cons split_words_append [of u "'' '' @ butlast ?r" "[]"] by simp
qed

end
