(* ===== verification/Query_Props.thy ===== *)
theory Query_Props
  imports Query_Correct
begin

text \<open>
  The properties of the query library. A query is a list of operations; its intended meaning,
  \<open>spec_run\<close>, works on the plain list of selected elements. The fluent object computes that meaning as
  long as no step leaves nothing, and falls back on the whole source container when one does.
\<close>

subsection \<open>Queries and their meaning\<close>

datatype 'e query_op =
    Where "'e \<Rightarrow> bool"
  | Take int
  | Merge "'e container"
  | Merge_list "'e list"
  | Sort
  | Reverse_sort
  | Reverse
  | Union "'e container"
  | Intersect "'e container"
  | Difference "'e container"

fun apply_op :: "('e::linorder \<Rightarrow> 'k::linorder) \<Rightarrow> 'e query_op \<Rightarrow> 'e query_from \<Rightarrow> 'e query_from option" where
  "apply_op key (Where p) q = from_where_lambda key p q"
| "apply_op key (Take n) q = Some (from_take n q)"
| "apply_op key (Merge c) q = from_merge key c q"
| "apply_op key (Merge_list xs) q = from_merge_list key xs q"
| "apply_op key Sort q = from_sort key q"
| "apply_op key Reverse_sort q = from_reverse_sort key q"
| "apply_op key Reverse q = from_reverse key q"
| "apply_op key (Union c) q = from_union_with key c q"
| "apply_op key (Intersect c) q = from_intersect_with key c q"
| "apply_op key (Difference c) q = from_difference_with key c q"

fun run_query :: "('e::linorder \<Rightarrow> 'k::linorder) \<Rightarrow> 'e query_op list \<Rightarrow> 'e query_from \<Rightarrow> 'e query_from option" where
  "run_query key [] q = Some q"
| "run_query key (op # ops) q = Option.bind (apply_op key op q) (run_query key ops)"

definition same_category :: "kind \<Rightarrow> kind \<Rightarrow> bool" where
  "same_category k m \<longleftrightarrow>
     is_sequence_container (Container k) \<and> is_sequence_container (Container m) \<or>
     is_associative_container (Container k) \<and> is_associative_container (Container m)"

definition orderable :: "kind \<Rightarrow> bool" where
  "orderable k \<longleftrightarrow> k = std_vector \<or> k = std_deque \<or> k = std_list"

text \<open>
  \<open>spec_op\<close> gives the meaning of an operation that the types of the containers admit and whose
  preconditions hold, on the selected elements and the limit of \<open>take\<close>.
\<close>

fun spec_op :: "('e::linorder \<Rightarrow> 'k::linorder) \<Rightarrow> kind \<Rightarrow> 'e query_op \<Rightarrow> int \<Rightarrow> 'e list \<Rightarrow> 'e list option" where
  "spec_op key k (Where p) n xs = Some (limited n (filter p xs))"
| "spec_op key k (Take m) n xs = Some xs"
| "spec_op key k (Merge c) n xs =
     (if same_category k (kind_of c) then Some (gather key k (xs @ items c)) else None)"
| "spec_op key k (Merge_list ys) n xs =
     (if same_category k std_initializer_list then Some (gather key k (xs @ ys)) else None)"
| "spec_op key k Sort n xs = (if orderable k then Some (sort xs) else None)"
| "spec_op key k Reverse_sort n xs = (if orderable k then Some (rev (sort xs)) else None)"
| "spec_op key k Reverse n xs = (if orderable k then Some (rev xs) else None)"
| "spec_op key k (Union c) n xs = (if sorted xs \<and> sorted (items c)
     then Some (gather key k (sorted_list_of_multiset (mset xs \<union># mset (items c)))) else None)"
| "spec_op key k (Intersect c) n xs = (if sorted xs \<and> sorted (items c)
     then Some (gather key k (sorted_list_of_multiset (mset xs \<inter># mset (items c)))) else None)"
| "spec_op key k (Difference c) n xs = (if sorted xs \<and> sorted (items c)
     then Some (gather key k (sorted_list_of_multiset (mset xs - mset (items c)))) else None)"

fun next_limit :: "'e query_op \<Rightarrow> int \<Rightarrow> int" where
  "next_limit (Take m) n = m"
| "next_limit op n = n"

fun spec_run :: "('e::linorder \<Rightarrow> 'k::linorder) \<Rightarrow> kind \<Rightarrow> 'e query_op list \<Rightarrow> int \<Rightarrow> 'e list \<Rightarrow> 'e list option" where
  "spec_run key k [] n xs = Some xs"
| "spec_run key k (op # ops) n xs =
     Option.bind (spec_op key k op n xs)
       (\<lambda>ys. if ys = [] then None else spec_run key k ops (next_limit op n) ys)"

subsection \<open>The state of a query\<close>

definition selected :: "'e query_from \<Rightarrow> 'e container" where
  "selected q = (if items (buffer q) = [] then source_container q else buffer q)"

definition query_ok :: "('e \<Rightarrow> 'k::linorder) \<Rightarrow> kind \<Rightarrow> 'e query_from \<Rightarrow> bool" where
  "query_ok key k q \<longleftrightarrow>
     well_formed key k (source_container q) \<and> well_formed key k (buffer q) \<and>
     (is_sequence_container (Container k) \<or> is_associative_container (Container k))"

lemma from_to_selected: "from_to cst q = cst (selected q)"
  by (simp add: from_to_def selected_def)

lemma populate_ok:
  assumes "query_ok key k q"
  shows "populate_buffer_if_empty key q = Some (q\<lparr>buffer := selected q\<rparr>)"
proof (cases "items (buffer q) = []")
  case True
  have wf: "well_formed key k (buffer q)" "well_formed key k (source_container q)"
    using assms by (auto simp: query_ok_def)
  have cat: "is_sequence_container (Container k) \<and> is_sequence_container (Container (kind_of (source_container q))) \<or>
      is_associative_container (Container k) \<and> is_associative_container (Container (kind_of (source_container q)))"
    using assms by (auto simp: query_ok_def well_formed_def)
  obtain b where b: "merge key (buffer q) (source_container q) = Some b" "well_formed key k b"
      "items b = gather key k (items (source_container q))"
    using merge_gather [OF wf(1) cat] True by auto
  have "b = source_container q"
    using b wf by (cases b; cases "source_container q") (simp add: well_formed_def)
  then show ?thesis
    using b(1) True by (simp add: populate_buffer_if_empty_def selected_def)
qed (simp add: populate_buffer_if_empty_def selected_def)

lemma on_buffer_ok:
  assumes "query_ok key k q" "policy (q\<lparr>buffer := selected q\<rparr>) = Some b" "well_formed key k b"
  shows "on_buffer key policy q = Some (q\<lparr>buffer := b\<rparr>)" "query_ok key k (q\<lparr>buffer := b\<rparr>)"
  using assms populate_ok [OF assms(1)] by (simp_all add: on_buffer_def query_ok_def)

lemma selected_wf: "query_ok key k q \<Longrightarrow> well_formed key k (selected q)"
  by (simp add: query_ok_def selected_def)

lemma orderable_wf: "orderable k \<Longrightarrow> well_formed key k c \<longleftrightarrow> kind_of c = k"
  by (auto simp: orderable_def well_formed_def gather_def unique_kind_def multi_kind_def pushable_def)

lemma order_policies:
  assumes "orderable (kind_of b)"
  shows "order_sort b = Some (b\<lparr>items := sort (items b)\<rparr>)"
    and "order_reverse_sort b = Some (b\<lparr>items := rev (sort (items b))\<rparr>)"
    and "order_reverse b = Some (b\<lparr>items := rev (items b)\<rparr>)"
  using assms
  by (auto simp: orderable_def order_sort_def order_reverse_sort_def order_reverse_def order_apply_def
      vector_deque_sort_def vector_deque_reverse_sort_def vector_deque_reverse_def
      list_order_sort_def list_order_reverse_sort_def list_order_reverse_def)

lemma set_policies:
  assumes "pushable (kind_of b)" "sorted (items b)" "sorted (items c)"
  shows "set_union_with key c b = Some \<lparr>kind_of = kind_of b,
      items = gather key (kind_of b) (sorted_list_of_multiset (mset (items b) \<union># mset (items c)))\<rparr>"
    and "set_intersect_with key c b = Some \<lparr>kind_of = kind_of b,
      items = gather key (kind_of b) (sorted_list_of_multiset (mset (items b) \<inter># mset (items c)))\<rparr>"
    and "set_difference_with key c b = Some \<lparr>kind_of = kind_of b,
      items = gather key (kind_of b) (sorted_list_of_multiset (mset (items b) - mset (items c)))\<rparr>"
  using assms
  by (simp_all add: set_union_with_def set_intersect_with_def set_difference_with_def
      insert_results_def push_all_default std_set_operations)

definition moves_to :: "('e \<Rightarrow> 'k::linorder) \<Rightarrow> kind \<Rightarrow> 'e query_from \<Rightarrow> 'e list \<Rightarrow> int \<Rightarrow> 'e query_from option \<Rightarrow> bool" where
  "moves_to key k q ys n r \<longleftrightarrow>
     (\<exists>q'. r = Some q' \<and> query_ok key k q' \<and> source_container q' = source_container q \<and>
        elements_to_take q' = n \<and> items (buffer q') = ys)"

lemma on_buffer_moves:
  assumes "query_ok key k q"
    and "\<exists>b. policy (q\<lparr>buffer := selected q\<rparr>) = Some b \<and> well_formed key k b \<and> items b = ys"
  shows "moves_to key k q ys (elements_to_take q) (on_buffer key policy q)"
  using assms on_buffer_ok [OF assms(1)] unfolding moves_to_def by fastforce

lemma from_where_moves:
  "query_ok key k q \<Longrightarrow>
     moves_to key k q (limited (elements_to_take q) (filter p (items (selected q)))) (elements_to_take q)
       (from_where_lambda key p q)"
  unfolding from_where_lambda_def
  by (rule on_buffer_moves) (simp_all add: by_lambda_def where_sequence_filter selected_wf)

text \<open>The other members that select are \<open>where\<close> with the condition they build.\<close>

lemma where_members:
  "from_where_gate key g = from_where_lambda key (\<lambda>x. compare_with g x)"
  "from_where_field_gate key field h = from_where_lambda key (\<lambda>x. compare_with h (field x))"
  "from_where_field_lambda key field lambda = from_where_lambda key (\<lambda>x. lambda (field x))"
  "from_where_key gk = from_where_lambda fst (\<lambda>(k, v). compare_with gk k)"
  "from_where_value gk = from_where_lambda fst (\<lambda>(k, v). compare_with gk v)"
  "from_where_key_field fieldk gf = from_where_lambda fst (\<lambda>(k, v). compare_with gf (fieldk k))"
  by (simp_all add: from_where_gate_def from_where_field_gate_def from_where_field_lambda_def
      from_where_key_def from_where_value_def from_where_key_field_def from_where_lambda_def
      by_gate_def by_gate_field_def by_lambda_def by_lambda_field_def by_gate_policy_def
      by_gate_policy_field_def where_associative_def where_sequence_def)

lemma merge_impl_moves:
  assumes "query_ok key k q" "same_category k (kind_of c)"
  shows "moves_to key k q (gather key k (items (selected q) @ items c)) (elements_to_take q) (merge_impl key c q)"
  unfolding merge_impl_def
  using assms merge_gather [OF selected_wf [OF assms(1)], of c]
  by (intro on_buffer_moves) (simp_all add: same_category_def)

lemma wf_gather:
  assumes "query_ok key k q"
  shows "well_formed key k \<lparr>kind_of = k, items = gather key k xs\<rparr>" "kind_of (selected q) = k" "pushable k"
  using assms selected_wf [OF assms] by (auto simp: well_formed_def)

lemma spec_op_moves:
  assumes ok: "query_ok key k q"
    and spec: "spec_op key k op (elements_to_take q) (items (selected q)) = Some ys"
    and op: "\<forall>n. op \<noteq> Take n"
  shows "moves_to key k q ys (elements_to_take q) (apply_op key op q)"
proof -
  note s = wf_gather [OF ok]
  have ord: "\<exists>b'. Some ((selected q)\<lparr>items := zs\<rparr>) = Some b' \<and> well_formed key k b' \<and> items b' = zs"
    if "orderable k" for zs
    using orderable_wf [OF that, of key] s(2) by simp
  show ?thesis
    using spec op
  proof (cases op)
    case (Where p)
    then show ?thesis
      using spec from_where_moves [OF ok] by auto
  next
    case (Merge c)
    then show ?thesis
      using spec merge_impl_moves [OF ok, of c] by (simp add: from_merge_def split: if_splits)
  next
    case (Merge_list zs)
    then show ?thesis
      using spec merge_impl_moves [OF ok, of "\<lparr>kind_of = std_initializer_list, items = zs\<rparr>"]
      by (simp add: from_merge_list_def split: if_splits)
  next
    case Sort
    then show ?thesis
      using spec s ord on_buffer_moves [OF ok, of "\<lambda>q. order_sort (buffer q)" ys]
      by (simp add: from_sort_def order_policies split: if_splits)
  next
    case Reverse_sort
    then show ?thesis
      using spec s ord on_buffer_moves [OF ok, of "\<lambda>q. order_reverse_sort (buffer q)" ys]
      by (simp add: from_reverse_sort_def order_policies split: if_splits)
  next
    case Reverse
    then show ?thesis
      using spec s ord on_buffer_moves [OF ok, of "\<lambda>q. order_reverse (buffer q)" ys]
      by (simp add: from_reverse_def order_policies split: if_splits)
  next
    case (Union c)
    then show ?thesis
      using spec s on_buffer_moves [OF ok, of "\<lambda>q. set_union_with key c (buffer q)" ys]
      by (simp add: from_union_with_def set_policies split: if_splits)
  next
    case (Intersect c)
    then show ?thesis
      using spec s on_buffer_moves [OF ok, of "\<lambda>q. set_intersect_with key c (buffer q)" ys]
      by (simp add: from_intersect_with_def set_policies split: if_splits)
  next
    case (Difference c)
    then show ?thesis
      using spec s on_buffer_moves [OF ok, of "\<lambda>q. set_difference_with key c (buffer q)" ys]
      by (simp add: from_difference_with_def set_policies split: if_splits)
  qed simp
qed

text \<open>One step of a query: the selection afterwards is what the step means, or, when that is empty, the source.\<close>

lemma apply_op_selected:
  assumes ok: "query_ok key k q"
    and spec: "spec_op key k op (elements_to_take q) (items (selected q)) = Some ys" "ys \<noteq> []"
  shows "\<exists>q'. apply_op key op q = Some q' \<and> query_ok key k q' \<and> items (selected q') = ys \<and>
      elements_to_take q' = next_limit op (elements_to_take q)"
proof (cases "\<exists>n. op = Take n")
  case True
  then show ?thesis
    using assms by (auto simp: from_take_def query_ok_def selected_def)
next
  case False
  then have "next_limit op n = n" for n
    by (cases op) auto
  then show ?thesis
    using False spec_op_moves [OF ok spec(1)] spec(2) by (auto simp: moves_to_def selected_def)
qed

lemma run_query_spec:
  assumes "query_ok key k q" "spec_run key k ops (elements_to_take q) (items (selected q)) = Some ys"
  shows "\<exists>q'. run_query key ops q = Some q' \<and> query_ok key k q' \<and> items (selected q') = ys"
  using assms
proof (induction ops arbitrary: q)
  case (Cons op ops)
  then obtain zs where zs: "spec_op key k op (elements_to_take q) (items (selected q)) = Some zs" "zs \<noteq> []"
      "spec_run key k ops (next_limit op (elements_to_take q)) zs = Some ys"
    by (auto split: if_splits)
  then show ?case
    using apply_op_selected [OF Cons.prems(1) zs(1, 2)] Cons.IH by fastforce
qed simp

lemma query_ok_from:
  "well_formed key k c \<Longrightarrow> is_sequence_container (Container k) \<or> is_associative_container (Container k) \<Longrightarrow>
     query_ok key k (from_ctor c) \<and> selected (from_ctor c) = c \<and> elements_to_take (from_ctor c) = -1"
  by (auto simp: query_ok_def from_ctor_def selected_def well_formed_def default_ctor_def)

subsection \<open>Properties\<close>

text \<open>
  C16: a query computes what it says. For every well-formed source and every sequence of
  operations whose meaning is defined and never leaves an empty selection, the chain of calls on
  \<open>from\<close> runs, and \<open>to\<close> hands the cast a container of the source's template that holds exactly the
  elements of the meaning: filtered in order and cut at the limit of \<open>take\<close>, merged as the template
  merges, sorted, reversed, or combined as multisets.
\<close>
theorem query_refines_meaning:
  fixes key :: "'e::linorder \<Rightarrow> 'k::linorder" and cst :: "'e container \<Rightarrow> 'r option"
  assumes "well_formed key k c"
    and "is_sequence_container (Container k) \<or> is_associative_container (Container k)"
    and "spec_run key k ops (-1) (items c) = Some ys"
  shows "\<exists>q. run_query key ops (from_ctor c) = Some q \<and>
     from_to cst q = cst \<lparr>kind_of = k, items = ys\<rparr>"
proof -
  have "query_ok key k (from_ctor c)" "selected (from_ctor c) = c" "elements_to_take (from_ctor c) = -1"
    using query_ok_from [OF assms(1, 2)] by auto
  then obtain q where q: "run_query key ops (from_ctor c) = Some q" "query_ok key k q" "items (selected q) = ys"
    using run_query_spec [of key k "from_ctor c" ops ys] assms(3) by auto
  have "selected q = \<lparr>kind_of = k, items = ys\<rparr>"
    using selected_wf [OF q(2)] q(3) by (cases "selected q") (simp add: well_formed_def)
  then show ?thesis
    using q(1) by (simp add: from_to_selected)
qed

theorem query_refines_meaning_witness:
  "\<exists>q. run_query (\<lambda>x::int. x)
      [Merge \<lparr>kind_of = std_list, items = [2, 4, 6, 8, 10]\<rparr>, Where (\<lambda>x. 5 \<le> x), Merge_list [11, 12], Reverse_sort]
      (from_ctor \<lparr>kind_of = std_vector, items = [9, 7, 5, 3, 1]\<rparr>) = Some q \<and>
    from_to (cast_same (\<lambda>x. x) std_set) q = cast_same (\<lambda>x. x) std_set
      \<lparr>kind_of = std_vector, items = [12, 11, 10, 9, 8, 7, 6, 5]\<rparr>"
  by (rule query_refines_meaning)
    (simp_all add: well_formed_def pushable_def gather_def unique_kind_def multi_kind_def
      is_sequence_container_def same_category_def orderable_def limited_def)

text \<open>
  an empty selection is forgotten. When no element of the source satisfies the condition, the
  buffer of \<open>where\<close> is empty, \<open>to\<close> casts the whole source container, and so do the following operations
  start from the whole source again.
\<close>
theorem empty_selection_restarts:
  fixes key :: "'e::linorder \<Rightarrow> 'k::linorder" and cst :: "'e container \<Rightarrow> 'r option"
  assumes "well_formed key k c"
    and "is_sequence_container (Container k) \<or> is_associative_container (Container k)"
    and "\<forall>x \<in> set (items c). \<not> p x"
  shows "\<exists>q. from_where_lambda key p (from_ctor c) = Some q \<and> from_to cst q = cst c \<and>
     apply_op key op q = apply_op key op (from_ctor c)"
proof -
  let ?q = "from_ctor c"
  have ok: "query_ok key k ?q" "selected ?q = c" "elements_to_take ?q = -1"
    using query_ok_from [OF assms(1, 2)] by auto
  have "filter p (items c) = []"
    using assms(3) by (simp add: filter_empty_conv)
  then obtain q where q: "from_where_lambda key p ?q = Some q" "query_ok key k q"
      "source_container q = source_container ?q" "elements_to_take q = -1" "items (buffer q) = []"
    using from_where_moves [OF ok(1), of p] ok by (auto simp: moves_to_def limited_def)
  have k: "kind_of (buffer q) = k" "kind_of c = k"
    using q(2) assms(1) by (auto simp: query_ok_def well_formed_def)
  have "q = ?q"
    using q k by (cases q; cases "buffer q") (auto simp: from_ctor_def default_ctor_def)
  then show ?thesis
    using q(1) ok(2) by (simp add: from_to_selected)
qed

theorem empty_selection_restarts_witness:
  "\<exists>q. from_where_lambda (\<lambda>x::int. x) (\<lambda>x. 7 < x)
      (from_ctor \<lparr>kind_of = std_vector, items = [1, 2, 3]\<rparr>) = Some q \<and>
    from_to (cast_same (\<lambda>x. x) std_list) q =
      cast_same (\<lambda>x. x) std_list \<lparr>kind_of = std_vector, items = [1, 2, 3]\<rparr> \<and>
    apply_op (\<lambda>x. x) Sort q = apply_op (\<lambda>x. x) Sort (from_ctor \<lparr>kind_of = std_vector, items = [1, 2, 3]\<rparr>)"
  by (rule empty_selection_restarts [where k = std_vector])
    (simp_all add: well_formed_def pushable_def gather_def unique_kind_def multi_kind_def
      is_sequence_container_def)

lemma map_key_sets:
  assumes "well_formed fst k c" "k = std_map"
  shows "sorted (map fst (items c)) \<and> distinct (map fst (items c))"
  using assms gather_fixed [of fst k "items c"] by (simp add: well_formed_def unique_kind_def)

lemma map_of_filter_values:
  "distinct (map fst xs) \<Longrightarrow> map_of (filter (\<lambda>(k, v). p v) xs) x =
     (case map_of xs x of Some v \<Rightarrow> if p v then Some v else None | None \<Rightarrow> None)"
  by (induction xs) (auto split: option.splits dest: map_of_SomeD simp: image_iff)

text \<open>
  on maps, \<open>where_key\<close> and \<open>where_value\<close> keep exactly the entries whose key, or mapped value,
  passes the gate, in key order and at most as many as \<open>take\<close> allows; the lookup of a key in an
  unlimited result is the lookup in the source restricted to the accepted entries.
\<close>
theorem where_key_value_select:
  fixes c :: "('a::linorder \<times> 'a) container"
  assumes "well_formed fst std_map c"
  shows "(\<exists>q. from_where_key g (from_take n (from_ctor c)) = Some q \<and>
      items (buffer q) = limited n (filter (\<lambda>(k, v). compare_with g k) (items c))) \<and>
    (\<exists>q. from_where_value g (from_ctor c) = Some q \<and>
      map_of (items (buffer q)) x =
        (case map_of (items c) x of Some v \<Rightarrow> if compare_with g v then Some v else None | None \<Rightarrow> None))"
proof
  have ok: "query_ok fst std_map (from_ctor c)" "selected (from_ctor c) = c" "elements_to_take (from_ctor c) = -1"
    using query_ok_from [OF assms] by (auto simp: is_associative_container_def)
  have "query_ok fst std_map (from_take n (from_ctor c))" "selected (from_take n (from_ctor c)) = c"
      "elements_to_take (from_take n (from_ctor c)) = n"
    using ok by (auto simp: from_take_def query_ok_def selected_def)
  then show "\<exists>q. from_where_key g (from_take n (from_ctor c)) = Some q \<and>
      items (buffer q) = limited n (filter (\<lambda>(k, v). compare_with g k) (items c))"
    using from_where_moves [of fst std_map "from_take n (from_ctor c)" "\<lambda>(k, v). compare_with g k"]
    by (auto simp: where_members moves_to_def)
  have "distinct (map fst (items c))"
    using map_key_sets [OF assms] by simp
  then have "map_of (filter (\<lambda>(k, v). compare_with g v) (items c)) x =
      (case map_of (items c) x of Some v \<Rightarrow> if compare_with g v then Some v else None | None \<Rightarrow> None)"
    by (rule map_of_filter_values)
  then show "\<exists>q. from_where_value g (from_ctor c) = Some q \<and>
      map_of (items (buffer q)) x =
        (case map_of (items c) x of Some v \<Rightarrow> if compare_with g v then Some v else None | None \<Rightarrow> None)"
    using from_where_moves [OF ok(1), of "\<lambda>(k, v). compare_with g v"] ok
    by (auto simp: where_members moves_to_def limited_def)
qed

theorem where_key_value_select_witness:
  "(\<exists>q. from_where_key (gate_ctor_value 0 (\<ge>) (3::int))
      (from_take 1 (from_ctor \<lparr>kind_of = std_map, items = [(1, 2), (3, 4), (5, 6)]\<rparr>)) = Some q \<and>
      items (buffer q) = [(3, 4)]) \<and>
   (\<exists>q. from_where_value (gate_ctor_value 0 (\<ge>) (4::int))
      (from_ctor \<lparr>kind_of = std_map, items = [(1, 2), (3, 4), (5, 6)]\<rparr>) = Some q \<and>
      map_of (items (buffer q)) 1 = None)"
proof -
  have wf: "well_formed fst std_map \<lparr>kind_of = std_map, items = [(1::int, 2::int), (3, 4), (5, 6)]\<rparr>"
    by (simp add: well_formed_def pushable_def gather_def unique_kind_def)
  show ?thesis
    using where_key_value_select [OF wf, where g = "gate_ctor_value 0 (\<ge>) 3" and n = 1]
      where_key_value_select [OF wf, where g = "gate_ctor_value 0 (\<ge>) 4" and x = 1]
    by (simp add: compare_with_def gate_ctor_value_def limited_def)
qed

text \<open>
  the text of a sequence of integers determines the sequence: the words between the spaces are the
  decimal numerals of the elements in order, and reading them gives the elements back.
\<close>
theorem seq_to_string_roundtrip:
  fixes c :: "int container"
  assumes "is_sequence_container (Container (kind_of c))" "items c \<noteq> []"
  shows "\<exists>s. cast_seq_string integral c = Some s \<and> map read_integer (split_words s []) = items c"
proof -
  let ?us = "map std_to_string (items c)"
  have "\<forall>u \<in> set ?us. CHR '' '' \<notin> set u"
    using std_to_string_chars by fastforce
  then have "split_words (butlast (concat (map (\<lambda>u. u @ '' '') ?us))) [] = ?us"
    using assms(2) by (intro split_words_join) simp_all
  moreover have "seq_to_string integral c = butlast (concat (map (\<lambda>u. u @ '' '') ?us))"
    using assms(2)
    by (cases "items c") (simp_all add: seq_to_string_def seq_to_string_loop_concat comp_def Let_def)
  ultimately show ?thesis
    using assms(1) by (simp add: cast_seq_string_def comp_def)
qed

theorem seq_to_string_roundtrip_witness:
  "\<exists>s. cast_seq_string integral \<lparr>kind_of = std_deque, items = [1, -20, 3]\<rparr> = Some s \<and>
     map read_integer (split_words s []) = [1, -20, 3]"
  using seq_to_string_roundtrip [of "\<lparr>kind_of = std_deque, items = [1, -20, 3]\<rparr>"]
  by (simp add: is_sequence_container_def)

text \<open>
  a cast between two sequences or two maps that does not lose elements can be undone: casting
  from a set or map to any template, from a multi container to a template that keeps duplicates, or
  between plain sequences gives the same elements in the same order, and casting back gives the
  container one started from.
\<close>
theorem cast_roundtrip:
  assumes "well_formed key k c" "same_category k t"
    and "pushable t \<or> t = std_forward_list" "k \<noteq> std_basic_string" "t \<noteq> std_basic_string"
    and "unique_kind k \<or> multi_kind k \<and> \<not> unique_kind t \<or>
         \<not> unique_kind k \<and> \<not> multi_kind k \<and> \<not> unique_kind t \<and> \<not> multi_kind t"
  shows "cast_same key t c = Some \<lparr>kind_of = t, items = items c\<rparr> \<and>
     Option.bind (cast_same key t c) (cast_same key k) = Some c"
proof -
  have c: "kind_of c = k" "pushable k" "gather key k (items c) = items c"
    using assms(1) by (auto simp: well_formed_def)
  have t: "gather key t (items c) = items c"
    using assms(6) c(3) unfolding gather_fixed by auto
  have cast: "cast_same key t' d = Some \<lparr>kind_of = t', items = gather key t' (items d)\<rparr>"
    if "same_category (kind_of d) t'" "pushable t' \<or> t' = std_forward_list" "t' \<noteq> std_basic_string" for t' d
    using that by (cases t')
      (auto simp: cast_same_def same_category_def is_basic_string_def is_sequence_container_def
        is_associative_container_def same_to_same_def range_ctor_gather pushable_def)
  have "cast_same key t c = Some \<lparr>kind_of = t, items = items c\<rparr>"
    using cast [of c t] assms c t by simp
  moreover have "cast_same key k \<lparr>kind_of = t, items = items c\<rparr> = Some c"
    using cast [of "\<lparr>kind_of = t, items = items c\<rparr>" k] assms c by (cases c) (auto simp: same_category_def)
  ultimately show ?thesis
    by simp
qed

theorem cast_roundtrip_witness:
  "cast_same fst std_multimap \<lparr>kind_of = std_map, items = [(1::int, 7::int), (2, 5)]\<rparr> =
     Some \<lparr>kind_of = std_multimap, items = [(1, 7), (2, 5)]\<rparr> \<and>
   Option.bind (cast_same fst std_multimap \<lparr>kind_of = std_map, items = [(1::int, 7::int), (2, 5)]\<rparr>)
     (cast_same fst std_map) = Some \<lparr>kind_of = std_map, items = [(1, 7), (2, 5)]\<rparr>"
  using cast_roundtrip [of fst std_map "\<lparr>kind_of = std_map, items = [(1::int, 7::int), (2, 5)]\<rparr>" std_multimap]
  by (auto simp: well_formed_def pushable_def gather_def unique_kind_def multi_kind_def
      same_category_def is_associative_container_def)

text \<open>
  At any point of a query the numeric members return the least and the greatest of the selected
  elements, and the concatenation of selected strings; with nothing selected \<open>min\<close> and \<open>max\<close> read the first
  element of an empty container.
\<close>
theorem numeric_members_correct:
  fixes q :: "'e::linorder query_from" and r :: "string query_from"
  assumes "numeric_ok (selected q)" "numeric_ok (selected r)"
  shows "from_min q = (if items (selected q) = [] then None else Some (Min (set (items (selected q))))) \<and>
     from_max q = (if items (selected q) = [] then None else Some (Max (set (items (selected q))))) \<and>
     from_sum key r = Some (concat (items (selected r)))"
proof -
  have m: "numeric_min c = (if items c = [] then None else Some (Min (set (items c))))"
      "numeric_max c = (if items c = [] then None else Some (Max (set (items c))))"
    if "numeric_ok c" for c :: "'e container"
    using that by (auto simp: numeric_min_def numeric_max_def min_loop_Min max_loop_Max split: list.splits)
  show ?thesis
    using assms
    by (auto simp: from_min_def from_max_def from_sum_def selected_def populate_buffer_if_empty_def m
        numeric_sum_def sum_loop_concat split: if_splits)
qed

theorem numeric_members_correct_witness:
  "from_min (from_ctor \<lparr>kind_of = std_vector, items = [3::int, 1, 2]\<rparr>) = Some 1 \<and>
   from_sum length (from_ctor \<lparr>kind_of = std_list, items = [''ab'', ''c'']\<rparr>) = Some ''abc''"
  using numeric_members_correct [of "from_ctor \<lparr>kind_of = std_vector, items = [3::int, 1, 2]\<rparr>"
      "from_ctor \<lparr>kind_of = std_list, items = [''ab'', ''c'']\<rparr>" length]
  by (simp add: selected_def from_ctor_def numeric_ok_def is_sequence_container_def default_ctor_def)

end
