(* ===== verification/Lru_Cache.thy ===== *)
theory Lru_Cache
  imports Prelude
begin

text \<open>
  The page cache of \<open>2021-11-29-LRU-cache/lru_cache.cpp\<close>. The \<open>std::list\<close> of pages is a list of nodes, each
  with the address its iterators carry; the hash map sends a page to an address. Erasing or moving
  through an iterator whose node is not in the list is undefined, as is \<open>back()\<close> of an empty list.

  The properties show that the two structures agree at all times, that no call is undefined when
  the cache has room for a page, and that the cache holds exactly the most recently used pages.
\<close>

record 'v lru_cache =
  cache_size :: u64
  page_map :: "'v \<rightharpoonup> addr"
  cache :: "(addr \<times> 'v) list"
  hits :: u64
  page_faults :: u64
  next_node :: addr

definition lru_ctor :: "u64 \<Rightarrow> 'v lru_cache" where
  "lru_ctor n = \<lparr>cache_size = n, page_map = Map.empty, cache = [], hits = 0, page_faults = 0, next_node = 0\<rparr>"

definition list_erase :: "addr \<Rightarrow> (addr \<times> 'v) list \<Rightarrow> (addr \<times> 'v) list option" where
  "list_erase a xs = (if a \<in> fst ` set xs then Some (filter (\<lambda>(b, v). b \<noteq> a) xs) else None)"

definition evict :: "'v lru_cache \<Rightarrow> 'v lru_cache option" where
  "evict c =
     (if of_nat (length (cache c)) = cache_size c
      then if cache c = [] then None
           else Some (c\<lparr>cache := butlast (cache c), page_map := (page_map c)(snd (last (cache c)) := None)\<rparr>)
      else Some c)"

definition push_page :: "'v \<Rightarrow> 'v lru_cache \<Rightarrow> 'v lru_cache" where
  "push_page page c =
     c\<lparr>cache := (next_node c, page) # cache c, page_map := (page_map c)(page \<mapsto> next_node c),
       next_node := next_node c + 1\<rparr>"

definition refer :: "'v \<Rightarrow> 'v lru_cache \<Rightarrow> 'v lru_cache option" where
  "refer page c =
     (case page_map c page of
        None \<Rightarrow> do { c \<leftarrow> evict (c\<lparr>page_faults := page_faults c + 1\<rparr>); Some (push_page page c) }
      | Some a \<Rightarrow> do { rest \<leftarrow> list_erase a (cache c);
                       Some (push_page page (c\<lparr>hits := hits c + 1, cache := rest\<rparr>)) })"

definition cache_exists :: "'v \<Rightarrow> 'v lru_cache \<Rightarrow> bool" where
  "cache_exists v c = (page_map c v \<noteq> None)"

definition list_splice_front :: "addr \<Rightarrow> (addr \<times> 'v) list \<Rightarrow> (addr \<times> 'v) list option" where
  "list_splice_front a xs =
     (case map_of xs a of None \<Rightarrow> None | Some v \<Rightarrow> Some ((a, v) # filter (\<lambda>(b, w). b \<noteq> a) xs))"

definition cache_get :: "'v \<Rightarrow> 'v lru_cache \<Rightarrow> ((cxx_exception + 'v) \<times> 'v lru_cache) option" where
  "cache_get v c =
     (case page_map c v of
        None \<Rightarrow> Some (Inl (cache_error ''value isn't exists in cache''), c)
      | Some a \<Rightarrow> do { xs \<leftarrow> list_splice_front a (cache c); Some (Inr v, c\<lparr>cache := xs\<rparr>) })"

text \<open>The program of \<open>main\<close>: the values its assertions compare.\<close>

fun refer_all :: "'v list \<Rightarrow> 'v lru_cache \<Rightarrow> 'v lru_cache option" where
  "refer_all [] c = Some c"
| "refer_all (p # ps) c = Option.bind (refer p c) (refer_all ps)"

fun get_all :: "'v list \<Rightarrow> 'v lru_cache \<Rightarrow> ((cxx_exception + 'v) list \<times> 'v lru_cache) option" where
  "get_all [] c = Some ([], c)"
| "get_all (v # vs) c =
     do { (r, c) \<leftarrow> cache_get v c; (rs, c) \<leftarrow> get_all vs c; Some (r # rs, c) }"

definition lru_main :: "bool option" where
  "lru_main =
     do { c \<leftarrow> refer_all [1, 2, 5, 1, 4, 5] (lru_ctor 4 :: u64 lru_cache);
          (rs, c) \<leftarrow> get_all [5, 4, 1] c;
          (missing, c) \<leftarrow> cache_get 123 c;
          Some (list_all (\<lambda>r. \<not> isl r) rs \<and> isl missing \<and>
            hits c = 2 \<and> page_faults c = 4 \<and> cache_exists 5 c \<and> \<not> cache_exists 6 c) }"

subsection \<open>Abstract cache\<close>

definition pages :: "'v lru_cache \<Rightarrow> 'v list" where
  "pages c = map snd (cache c)"

definition touch :: "nat \<Rightarrow> 'v \<Rightarrow> 'v list \<Rightarrow> 'v list" where
  "touch n p xs = p # (if p \<in> set xs then filter (\<lambda>q. q \<noteq> p) xs else take (n - 1) xs)"

definition lru_ok :: "'v lru_cache \<Rightarrow> bool" where
  "lru_ok c \<longleftrightarrow>
     distinct (map fst (cache c)) \<and> distinct (pages c) \<and>
     (\<forall>v a. page_map c v = Some a \<longleftrightarrow> (a, v) \<in> set (cache c)) \<and>
     (\<forall>a \<in> fst ` set (cache c). a < next_node c) \<and>
     length (cache c) \<le> unat (cache_size c)"

lemma lru_ok_ctor: "lru_ok (lru_ctor n)" "pages (lru_ctor n) = []" "cache_size (lru_ctor n) = n"
  by (simp_all add: lru_ok_def lru_ctor_def pages_def)

lemma of_nat_length_size:
  assumes "length xs \<le> unat (n :: u64)"
  shows "of_nat (length xs) = n \<longleftrightarrow> length xs = unat n"
proof
  assume "of_nat (length xs) = n"
  then have "unat n = length xs mod 2 ^ 64"
    by (auto simp: unat_of_nat)
  moreover have "unat n < 2 ^ LENGTH(64)"
    by (rule unsigned_less)
  then have "length xs < 2 ^ 64"
    using assms by simp
  ultimately show "length xs = unat n" by simp
qed (use assms in simp)

lemma page_map_pages: "lru_ok c \<Longrightarrow> page_map c p \<noteq> None \<longleftrightarrow> p \<in> set (pages c)"
  unfolding lru_ok_def pages_def by (cases "page_map c p") (force simp: image_iff)+

lemma pages_filter:
  assumes "distinct (map fst xs)" "distinct (map snd xs)" "(a, p) \<in> set xs"
  shows "map snd (filter (\<lambda>(b, v). b \<noteq> a) xs) = filter (\<lambda>q. q \<noteq> p) (map snd xs)"
proof -
  have "fst y \<noteq> a \<longleftrightarrow> snd y \<noteq> p" if "y \<in> set xs" for y
    using assms that by (metis distinct_map fst_conv inj_onD snd_conv)
  then show ?thesis
    by (auto simp: filter_map comp_def split_beta intro!: arg_cong [of _ _ "map snd"] cong: filter_cong)
qed

lemma push_page_ok:
  assumes "distinct (map fst (cache c))" "distinct (pages c)" "p \<notin> set (pages c)"
    and "\<forall>v a. v \<noteq> p \<longrightarrow> (page_map c v = Some a \<longleftrightarrow> (a, v) \<in> set (cache c))"
    and "\<forall>a \<in> fst ` set (cache c). a < next_node c" "length (cache c) < unat (cache_size c)"
  shows "lru_ok (push_page p c)" "pages (push_page p c) = p # pages c"
proof -
  have "(a, p) \<notin> set (cache c)" for a
    using assms(3) by (force simp: pages_def)
  then show "lru_ok (push_page p c)"
    using assms by (auto simp: lru_ok_def push_page_def pages_def)
  show "pages (push_page p c) = p # pages c"
    by (simp add: push_page_def pages_def)
qed

lemma refer_ok:
  assumes ok: "lru_ok c" and size: "cache_size c \<noteq> 0"
  shows "\<exists>c'. refer p c = Some c' \<and> lru_ok c' \<and> cache_size c' = cache_size c \<and>
      pages c' = touch (unat (cache_size c)) p (pages c) \<and>
      hits c' = hits c + (if p \<in> set (pages c) then 1 else 0) \<and>
      page_faults c' = page_faults c + (if p \<in> set (pages c) then 0 else 1)"
proof (cases "page_map c p")
  case None
  then have p: "p \<notin> set (pages c)"
    using page_map_pages [OF ok, of p] by simp
  have inv: "distinct (map fst (cache c))" "distinct (pages c)"
      "\<forall>v a. page_map c v = Some a \<longleftrightarrow> (a, v) \<in> set (cache c)"
      "\<forall>a \<in> fst ` set (cache c). a < next_node c" "length (cache c) \<le> unat (cache_size c)"
    using ok by (simp_all add: lru_ok_def)
  have n0: "0 < unat (cache_size c)"
    using size by (simp add: unat_gt_0)
  show ?thesis
  proof (cases "length (cache c) = unat (cache_size c)")
    case False
    let ?d = "c\<lparr>page_faults := page_faults c + 1\<rparr>"
    have "refer p c = Some (push_page p ?d)"
      using None False of_nat_length_size [OF inv(5)] by (simp add: refer_def evict_def)
    moreover have "lru_ok (push_page p ?d)" "pages (push_page p ?d) = p # pages c"
      using push_page_ok [of ?d p] inv p False by (auto simp: pages_def)
    ultimately show ?thesis
      using p False inv(5) by (simp add: touch_def push_page_def pages_def)
  next
    case True
    then obtain xs a w where xs: "cache c = xs @ [(a, w)]"
      using n0 by (cases "cache c" rule: rev_cases) auto
    let ?d = "c\<lparr>page_faults := page_faults c + 1, cache := xs, page_map := (page_map c)(w := None)\<rparr>"
    have "refer p c = Some (push_page p ?d)"
      using None True of_nat_length_size [OF inv(5)] xs by (simp add: refer_def evict_def)
    moreover have "\<forall>v b. v \<noteq> p \<longrightarrow> (page_map ?d v = Some b \<longleftrightarrow> (b, v) \<in> set (cache ?d))"
      using inv(2, 3) xs by (force simp: pages_def)
    then have "lru_ok (push_page p ?d)" "pages (push_page p ?d) = p # map snd xs"
      using push_page_ok [of ?d p] inv p True xs by (simp_all add: pages_def)
    ultimately show ?thesis
      using p True xs by (simp add: touch_def push_page_def pages_def)
  qed
next
  case (Some a)
  have inv: "distinct (map fst (cache c))" "distinct (pages c)"
      "\<forall>v a. page_map c v = Some a \<longleftrightarrow> (a, v) \<in> set (cache c)"
      "\<forall>a \<in> fst ` set (cache c). a < next_node c" "length (cache c) \<le> unat (cache_size c)"
    using ok by (simp_all add: lru_ok_def)
  have a: "(a, p) \<in> set (cache c)" and p: "p \<in> set (pages c)"
    using Some inv(3) page_map_pages [OF ok, of p] by auto
  let ?xs = "filter (\<lambda>(b, v). b \<noteq> a) (cache c)"
  let ?d = "c\<lparr>hits := hits c + 1, cache := ?xs\<rparr>"
  have ps: "map snd ?xs = filter (\<lambda>q. q \<noteq> p) (pages c)"
    using pages_filter [OF inv(1) _ a] inv(2) by (simp add: pages_def)
  have "a \<in> fst ` set (cache c)"
    using a by force
  then have "refer p c = Some (push_page p ?d)"
    using Some by (simp add: refer_def list_erase_def)
  moreover have "(b, v) \<in> set ?xs \<longleftrightarrow> (b, v) \<in> set (cache c)" if "v \<noteq> p" for b v
    using that a inv(1) by (auto dest: eq_key_imp_eq_value)
  moreover have "length ?xs < length (cache c)"
    using a by (intro length_filter_less) auto
  ultimately show ?thesis
    using push_page_ok [of ?d p] inv p ps
    by (auto simp: touch_def push_page_def pages_def distinct_map_filter)
qed

subsection \<open>Recency\<close>

lemma remdups_snoc: "remdups (xs @ [p]) = filter (\<lambda>q. q \<noteq> p) (remdups xs) @ [p]"
  by (induction xs) auto

lemma filter_take_present:
  "distinct R \<Longrightarrow> p \<in> set (take n R) \<Longrightarrow>
     filter (\<lambda>q. q \<noteq> p) (take n R) = take (n - 1) (filter (\<lambda>q. q \<noteq> p) R)"
proof (induction R arbitrary: n)
  case (Cons r R)
  show ?case
  proof (cases n)
    case (Suc m)
    show ?thesis
    proof (cases "r = p")
      case True
      have "filter (\<lambda>q. q \<noteq> p) ys = ys" if "set ys \<subseteq> set R" for ys
        using that True Cons.prems(1) by (auto simp: filter_id_conv)
      then show ?thesis
        using Suc True by (simp add: set_take_subset)
    next
      case False
      then have "m \<noteq> 0" "p \<in> set (take m R)"
        using Cons.prems Suc by (auto intro: gr0I)
      then show ?thesis
        using Cons.IH [of m] Cons.prems Suc False by (cases m) simp_all
    qed
  qed (use Cons.prems in simp)
qed simp

lemma take_filter_absent:
  "p \<notin> set (take n R) \<Longrightarrow> take (n - 1) (filter (\<lambda>q. q \<noteq> p) R) = take (n - 1) R"
proof (induction R arbitrary: n)
  case (Cons r R)
  show ?case
  proof (cases n)
    case (Suc m)
    then show ?thesis
      using Cons.IH [of m] Cons.prems by (cases m) auto
  qed simp
qed simp

lemma touch_recent:
  assumes "0 < n"
  shows "touch n p (take n (rev (remdups ps))) = take n (rev (remdups (ps @ [p])))"
proof -
  let ?R = "rev (remdups ps)"
  have r: "take n (rev (remdups (ps @ [p]))) = p # take (n - 1) (filter (\<lambda>q. q \<noteq> p) ?R)"
    using assms by (cases n) (simp_all add: remdups_snoc rev_filter)
  show ?thesis
  proof (cases "p \<in> set (take n ?R)")
    case True
    then show ?thesis
      using filter_take_present [of ?R p n] r by (simp add: touch_def)
  next
    case False
    then show ?thesis
      using take_filter_absent [of p n ?R] r by (simp add: touch_def min_def)
  qed
qed

text \<open>The pages the cache answers for when the pages of \<open>ps\<close> were referred to in turn.\<close>

fun faults :: "nat \<Rightarrow> 'v list \<Rightarrow> 'v list \<Rightarrow> nat" where
  "faults n [] seen = 0"
| "faults n (p # ps) seen =
     (if p \<in> set (take n (rev (remdups seen))) then 0 else 1) + faults n ps (seen @ [p])"

lemma refer_all_ok:
  assumes "lru_ok c" "cache_size c = n" "n \<noteq> 0" "pages c = take (unat n) (rev (remdups seen))"
  shows "\<exists>c'. refer_all ps c = Some c' \<and> lru_ok c' \<and> cache_size c' = n \<and>
      pages c' = take (unat n) (rev (remdups (seen @ ps))) \<and>
      page_faults c' = page_faults c + of_nat (faults (unat n) ps seen) \<and>
      hits c' + page_faults c' = hits c + page_faults c + of_nat (length ps)"
  using assms
proof (induction ps arbitrary: c seen)
  case (Cons p ps)
  obtain c1 where c1: "refer p c = Some c1" "lru_ok c1" "cache_size c1 = n"
      "pages c1 = touch (unat n) p (pages c)"
      "hits c1 = hits c + (if p \<in> set (pages c) then 1 else 0)"
      "page_faults c1 = page_faults c + (if p \<in> set (pages c) then 0 else 1)"
    using refer_ok [of c p] Cons.prems by auto
  have "pages c1 = take (unat n) (rev (remdups (seen @ [p])))"
    using c1(4) Cons.prems touch_recent [of "unat n" p seen] by (simp add: unat_gt_0)
  then show ?case
    using Cons.IH [OF c1(2, 3) Cons.prems(3), of "seen @ [p]"] c1 Cons.prems(4) by (auto simp: algebra_simps)
qed simp

lemma get_ok:
  assumes ok: "lru_ok c" and p: "p \<in> set (pages c)"
  shows "\<exists>c'. cache_get p c = Some (Inr p, c') \<and> lru_ok c' \<and> cache_size c' = cache_size c \<and>
      pages c' = p # filter (\<lambda>q. q \<noteq> p) (pages c) \<and> hits c' = hits c \<and> page_faults c' = page_faults c"
proof -
  obtain a where a: "page_map c p = Some a"
    using page_map_pages [OF ok, of p] p by auto
  have inv: "distinct (map fst (cache c))" "distinct (pages c)"
      "\<forall>v a. page_map c v = Some a \<longleftrightarrow> (a, v) \<in> set (cache c)"
      "\<forall>a \<in> fst ` set (cache c). a < next_node c" "length (cache c) \<le> unat (cache_size c)"
    using ok by (simp_all add: lru_ok_def)
  have ap: "(a, p) \<in> set (cache c)"
    using a inv(3) by simp
  let ?xs = "filter (\<lambda>(b, v). b \<noteq> a) (cache c)"
  let ?d = "c\<lparr>cache := (a, p) # ?xs\<rparr>"
  have ps: "map snd ?xs = filter (\<lambda>q. q \<noteq> p) (pages c)"
    using pages_filter [OF inv(1) _ ap] inv(2) by (simp add: pages_def)
  have "cache_get p c = Some (Inr p, ?d)"
    using a ap inv(1) by (simp add: cache_get_def list_splice_front_def)
  moreover have "length ?xs < length (cache c)"
    using ap by (intro length_filter_less) auto
  moreover have "set ((a, p) # ?xs) = set (cache c)"
    using ap inv(1) by (auto dest: eq_key_imp_eq_value)
  ultimately show ?thesis
    using inv ps ap by (auto simp: lru_ok_def pages_def distinct_map_filter)
qed

lemma faults_antimono:
  assumes "n \<le> m"
  shows "faults m ps seen \<le> faults n ps seen"
proof (induction ps arbitrary: seen)
  case (Cons p ps)
  have "set (take n xs) \<subseteq> set (take m xs)" for xs :: "'a list"
    using assms by (rule set_take_subset_set_take)
  then show ?case
    using Cons [of "seen @ [p]"] by (auto simp: le_SucI)
qed simp

lemma faults_le_length: "faults n ps seen \<le> length ps"
  by (induction ps arbitrary: seen) (auto simp: le_SucI)

lemma refer_zero_capacity: "refer p (lru_ctor 0) = None"
  by (simp add: refer_def evict_def lru_ctor_def)

lemma lru_main_passes: "lru_main = Some True"
  by code_simp

subsection \<open>Client programs\<close>

datatype 'v cache_op = Refer 'v | Get 'v

fun run_cache :: "'v cache_op list \<Rightarrow> 'v lru_cache \<Rightarrow> ((cxx_exception + 'v) list \<times> 'v lru_cache) option" where
  "run_cache [] c = Some ([], c)"
| "run_cache (Refer p # ops) c = do { c \<leftarrow> refer p c; run_cache ops c }"
| "run_cache (Get p # ops) c =
     do { (r, c) \<leftarrow> cache_get p c; (rs, c) \<leftarrow> run_cache ops c; Some (r # rs, c) }"

text \<open>The abstract cache is the list of its pages, the most recently used first.\<close>

fun spec_cache :: "nat \<Rightarrow> 'v cache_op list \<Rightarrow> 'v list \<Rightarrow> (cxx_exception + 'v) list \<times> 'v list" where
  "spec_cache n [] xs = ([], xs)"
| "spec_cache n (Refer p # ops) xs = spec_cache n ops (touch n p xs)"
| "spec_cache n (Get p # ops) xs =
     (if p \<in> set xs
      then case spec_cache n ops (p # filter (\<lambda>q. q \<noteq> p) xs) of (rs, ys) \<Rightarrow> (Inr p # rs, ys)
      else case spec_cache n ops xs of (rs, ys) \<Rightarrow> (Inl (cache_error ''value isn't exists in cache'') # rs, ys))"

lemma run_cache_ok:
  assumes "lru_ok c" "cache_size c \<noteq> 0"
  shows "\<exists>rs c'. run_cache ops c = Some (rs, c') \<and> lru_ok c' \<and>
      spec_cache (unat (cache_size c)) ops (pages c) = (rs, pages c')"
  using assms
proof (induction ops c rule: run_cache.induct)
  case (2 p ops c)
  then show ?case
    using refer_ok [OF "2.prems", of p] by fastforce
next
  case (3 p ops c)
  show ?case
  proof (cases "p \<in> set (pages c)")
    case True
    obtain c1 where c1: "cache_get p c = Some (Inr p, c1)" "lru_ok c1" "cache_size c1 = cache_size c"
        "pages c1 = p # filter (\<lambda>q. q \<noteq> p) (pages c)"
      using get_ok [OF "3.prems"(1) True] by blast
    then show ?thesis
      using "3.IH" [OF c1(1) refl c1(2)] "3.prems" True by fastforce
  next
    case False
    then have get: "cache_get p c = Some (Inl (cache_error ''value isn't exists in cache''), c)"
      using page_map_pages [OF "3.prems"(1), of p] by (auto simp: cache_get_def)
    then show ?thesis
      using "3.IH" [OF get refl "3.prems"] False by fastforce
  qed
qed simp

subsection \<open>Properties\<close>

text \<open>
  After any sequence of \<open>refer\<close> calls on a cache with room for \<open>n > 0\<close> pages, none of which is
  undefined, the cache holds exactly the \<open>n\<close> most recently referred different pages, most recent
  first, \<open>exists\<close> answers for exactly those, and every call was counted once, as a hit when its page
  was among the \<open>n\<close> most recent at that moment and as a page fault otherwise.
\<close>
theorem lru_keeps_recent:
  assumes "n \<noteq> 0"
  shows "\<exists>c. refer_all ps (lru_ctor n) = Some c \<and>
     pages c = take (unat n) (rev (remdups ps)) \<and>
     (\<forall>v. cache_exists v c \<longleftrightarrow> v \<in> set (take (unat n) (rev (remdups ps)))) \<and>
     page_faults c = of_nat (faults (unat n) ps []) \<and>
     hits c + page_faults c = of_nat (length ps)"
proof -
  obtain c where c: "refer_all ps (lru_ctor n) = Some c" "lru_ok c" "pages c = take (unat n) (rev (remdups ps))"
      "page_faults c = page_faults (lru_ctor n :: 'a lru_cache) + of_nat (faults (unat n) ps [])"
      "hits c + page_faults c =
        hits (lru_ctor n :: 'a lru_cache) + page_faults (lru_ctor n :: 'a lru_cache) + of_nat (length ps)"
    using refer_all_ok [of "lru_ctor n" n "[]" ps] assms by (auto simp: lru_ok_ctor)
  moreover have "cache_exists v c \<longleftrightarrow> v \<in> set (pages c)" for v
    using page_map_pages [OF c(2)] by (simp add: cache_exists_def)
  ultimately show ?thesis
    by (simp add: lru_ctor_def)
qed

theorem lru_keeps_recent_witness:
  "\<exists>c. refer_all [1, 2, 5, 1, 4, 5] (lru_ctor 3 :: int lru_cache) = Some c \<and> pages c = [5, 4, 1] \<and> page_faults c = 4"
  using lru_keeps_recent [of 3 "[1, 2, 5, 1, 4, 5 :: int]"] by auto

text \<open>
  C36: a larger cache never has more page faults: for the same sequence of pages, shorter than the range of the
  counter, the count of a cache of \<open>m\<close> pages is at most that of a cache of \<open>n \<le> m\<close> pages, with \<open>n\<close> at least 1.
\<close>
theorem lru_no_anomaly:
  assumes "n \<noteq> 0" "n \<le> m" "length ps < 2 ^ 64"
  shows "\<exists>c d. refer_all ps (lru_ctor n) = Some c \<and> refer_all ps (lru_ctor m) = Some d \<and>
     page_faults d \<le> page_faults c"
proof -
  have m: "m \<noteq> 0" "unat n \<le> unat m"
    using assms(1, 2) by (auto simp: word_le_nat_alt unat_eq_0)
  obtain c where c: "refer_all ps (lru_ctor n) = Some c"
      "page_faults c = page_faults (lru_ctor n :: 'a lru_cache) + of_nat (faults (unat n) ps [])"
    using refer_all_ok [of "lru_ctor n" n "[]" ps] assms(1) by (auto simp: lru_ok_ctor)
  obtain d where d: "refer_all ps (lru_ctor m) = Some d"
      "page_faults d = page_faults (lru_ctor m :: 'a lru_cache) + of_nat (faults (unat m) ps [])"
    using refer_all_ok [of "lru_ctor m" m "[]" ps] m(1) by (auto simp: lru_ok_ctor)
  have "unat (of_nat (faults k ps []) :: u64) = faults k ps []" for k
    using faults_le_length [of k ps "[]"] assms(3) by (simp add: unat_of_nat)
  then show ?thesis
    using c d faults_antimono [OF m(2), of ps "[]"] by (simp add: lru_ctor_def word_le_nat_alt)
qed

theorem lru_no_anomaly_witness:
  "\<exists>c d. refer_all [1, 2, 3, 1, 2, 4] (lru_ctor 2 :: int lru_cache) = Some c \<and>
     refer_all [1, 2, 3, 1, 2, 4] (lru_ctor 3 :: int lru_cache) = Some d \<and> page_faults d \<le> page_faults c"
  using lru_no_anomaly [of 2 3 "[1, 2, 3, 1, 2, 4 :: int]"] by simp

text \<open>
  C19: every client program of \<open>refer\<close> and \<open>get\<close> calls on a cache with room for at least one page (with capacity 0 the
  first \<open>refer\<close> is undefined, see \<open>refer_zero_capacity\<close>) runs without
  undefined behaviour and behaves as the abstract cache, a list of pages in the order of their last
  use: \<open>get\<close> returns the page and makes it the most recent, or throws and changes nothing.
\<close>
theorem lru_program_refines:
  assumes "n \<noteq> 0"
  shows "\<exists>rs c. run_cache ops (lru_ctor n) = Some (rs, c) \<and> lru_ok c \<and>
     spec_cache (unat n) ops [] = (rs, pages c)"
  using run_cache_ok [of "lru_ctor n" ops] assms by (simp add: lru_ok_ctor)

theorem lru_program_refines_witness:
  "\<exists>rs c. run_cache [Refer 1, Refer 2, Get 1, Refer 3, Get 2] (lru_ctor 2 :: int lru_cache) = Some (rs, c) \<and>
     lru_ok c \<and> pages c = [3, 1]"
  using lru_program_refines [of 2 "[Refer 1, Refer 2, Get 1, Refer 3, Get (2 :: int)]"]
  by (auto simp: touch_def)

end
