(* ===== verification/Bucket_Hashmap.thy ===== *)
theory Bucket_Hashmap
  imports Prelude
begin

text \<open>
  The hash map with buckets of \<open>2022-04-04-bucket-hashmap/\<close>. The argument \<open>hash\<close> is \<open>std::hash\<close> of the
  key type, about which nothing is assumed. \<open>Data.at\<close> out of range throws and a remainder by zero is
  undefined: both are \<open>None\<close> here and shown not to happen.

  As long as no \<open>Rehash\<close> is due the map is correct: the interface \<open>map_store\<close> states what a client of
  \<open>Insert\<close> and \<open>Find\<close> relies on, and the model interprets it. \<open>Rehash\<close> resizes the table without
  moving the entries, and the last property shows what that does to a client.
\<close>

record ('k, 'v) BucketHashmap =
  BucketsCount :: nat
  ElementsCount :: nat
  Data :: "('k \<times> 'v) list list"

definition DictCoefficient :: nat where
  "DictCoefficient = 4"

definition GrowCoefficient :: nat where
  "GrowCoefficient = 2"

definition BucketHashmap_ctor :: "('k, 'v) BucketHashmap" where
  "BucketHashmap_ctor = \<lparr>BucketsCount = 128, ElementsCount = 0, Data = replicate 128 []\<rparr>"

definition MakeHash :: "('k \<Rightarrow> u64) \<Rightarrow> 'k \<Rightarrow> ('k, 'v) BucketHashmap \<Rightarrow> nat option" where
  "MakeHash hash k m = (if BucketsCount m = 0 then None else Some (unat (hash k) mod BucketsCount m))"

definition GetKey :: "'k \<times> 'v \<Rightarrow> 'k" where
  "GetKey e = fst e"

definition GetValue :: "'k \<times> 'v \<Rightarrow> 'v" where
  "GetValue e = snd e"

fun find_in_bucket :: "'k \<Rightarrow> int \<Rightarrow> ('k \<times> 'v) list \<Rightarrow> int" where
  "find_in_bucket k i [] = -1"
| "find_in_bucket k i (e # es) = (if GetKey e = k then i else find_in_bucket k (i + 1) es)"

definition FindIndex :: "('k \<Rightarrow> u64) \<Rightarrow> 'k \<Rightarrow> ('k, 'v) BucketHashmap \<Rightarrow> (nat \<times> int) option" where
  "FindIndex hash k m =
     do { h \<leftarrow> MakeHash hash k m;
          if h < length (Data m) then Some (h, find_in_bucket k 0 (Data m ! h)) else None }"

definition Find :: "('k \<Rightarrow> u64) \<Rightarrow> 'k \<Rightarrow> ('k, 'v) BucketHashmap \<Rightarrow> (cxx_exception + 'v) option" where
  "Find hash k m =
     do { (h, i) \<leftarrow> FindIndex hash k m;
          if i = -1 then Some (Inl (runtime_error ''Element not found in map.''))
          else Some (Inr (GetValue (Data m ! h ! nat i))) }"

definition Rehash :: "nat \<Rightarrow> ('k, 'v) BucketHashmap \<Rightarrow> ('k, 'v) BucketHashmap" where
  "Rehash NewSize m =
     m\<lparr>Data := take NewSize (Data m) @ replicate (NewSize - length (Data m)) [], BucketsCount := NewSize\<rparr>"

definition Insert :: "('k \<Rightarrow> u64) \<Rightarrow> 'k \<Rightarrow> 'v \<Rightarrow> ('k, 'v) BucketHashmap \<Rightarrow> ('k, 'v) BucketHashmap option" where
  "Insert hash k v m =
     do { (h, i) \<leftarrow> FindIndex hash k m;
          if i \<noteq> -1
          then Some (m\<lparr>Data := (Data m)[h := (Data m ! h)[nat i := (fst (Data m ! h ! nat i), v)]]\<rparr>)
          else let m = m\<lparr>Data := (Data m)[h := Data m ! h @ [(k, v)]], ElementsCount := ElementsCount m + 1\<rparr>
               in Some (if ElementsCount m > BucketsCount m * DictCoefficient
                        then Rehash (GrowCoefficient * BucketsCount m) m else m) }"

definition erase_at :: "nat \<Rightarrow> 'a list \<Rightarrow> 'a list" where
  "erase_at i xs = take i xs @ drop (i + 1) xs"

definition Delete :: "('k \<Rightarrow> u64) \<Rightarrow> 'k \<Rightarrow> ('k, 'v) BucketHashmap \<Rightarrow> ('k, 'v) BucketHashmap option" where
  "Delete hash k m =
     do { (h, i) \<leftarrow> FindIndex hash k m;
          if i = -1 then Some m
          else let m = m\<lparr>Data := (Data m)[h := erase_at (nat i) (Data m ! h)], ElementsCount := ElementsCount m - 1\<rparr>
               in Some (if BucketsCount m > 1 \<and>
                           GrowCoefficient ^ 2 * ElementsCount m < BucketsCount m * DictCoefficient
                        then Rehash (BucketsCount m div GrowCoefficient) m else m) }"

definition Size :: "('k, 'v) BucketHashmap \<Rightarrow> nat" where
  "Size m = ElementsCount m"

subsection \<open>The interface of a map with limited room\<close>

locale map_store =
  fixes lookup :: "'m \<Rightarrow> 'k \<rightharpoonup> 'v"
    and update :: "'k \<Rightarrow> 'v \<Rightarrow> 'm \<Rightarrow> 'm option"
    and good :: "'m \<Rightarrow> bool"
    and room :: "'m \<Rightarrow> nat"
  assumes finite_dom: "good m \<Longrightarrow> finite (dom (lookup m))"
    and update_good: "good m \<Longrightarrow> card (insert k (dom (lookup m))) \<le> room m \<Longrightarrow>
      \<exists>m'. update k v m = Some m' \<and> good m' \<and> lookup m' = (lookup m)(k \<mapsto> v) \<and> room m' = room m"
begin

lemma update_all:
  assumes "good m" "card (dom (lookup m) \<union> fst ` set kvs) \<le> room m"
  shows "\<exists>m'. foldl (\<lambda>acc (k, v). Option.bind acc (update k v)) (Some m) kvs = Some m' \<and> good m' \<and>
      lookup m' = lookup m ++ map_of (rev kvs)"
  using assms
proof (induction kvs arbitrary: m)
  case (Cons e kvs)
  obtain k v where e: "e = (k, v)" by force
  have fin: "finite (dom (lookup m) \<union> fst ` set (e # kvs))"
    using finite_dom [OF Cons.prems(1)] by simp
  have "insert k (dom (lookup m)) \<subseteq> dom (lookup m) \<union> fst ` set (e # kvs)"
    using e by auto
  from card_mono [OF fin this] have "card (insert k (dom (lookup m))) \<le> room m"
    using Cons.prems(2) by linarith
  then obtain m1 where m1: "update k v m = Some m1" "good m1" "lookup m1 = (lookup m)(k \<mapsto> v)" "room m1 = room m"
    using update_good [OF Cons.prems(1)] by blast
  have "dom (lookup m1) \<union> fst ` set kvs = dom (lookup m) \<union> fst ` set (e # kvs)"
    using m1(3) e by auto
  then have "card (dom (lookup m1) \<union> fst ` set kvs) \<le> room m1"
    using Cons.prems(2) m1(4) by simp
  then obtain m2 where m2: "foldl (\<lambda>acc (k, v). Option.bind acc (update k v)) (Some m1) kvs = Some m2" "good m2"
      "lookup m2 = lookup m1 ++ map_of (rev kvs)"
    using Cons.IH [OF m1(2)] by blast
  have "lookup m1 ++ map_of (rev kvs) = lookup m ++ map_of (rev (e # kvs))"
    using m1(3) e by (auto simp: map_add_def fun_eq_iff split: option.splits)
  then show ?case
    using m1(1) m2 e by simp
qed simp

end

subsection \<open>The table as a map\<close>

definition bucket :: "('k \<Rightarrow> u64) \<Rightarrow> ('k, 'v) BucketHashmap \<Rightarrow> 'k \<Rightarrow> nat" where
  "bucket hash m k = unat (hash k) mod BucketsCount m"

definition contents :: "('k \<Rightarrow> u64) \<Rightarrow> ('k, 'v) BucketHashmap \<Rightarrow> 'k \<rightharpoonup> 'v" where
  "contents hash m k = map_of (Data m ! bucket hash m k) k"

definition table_ok :: "('k \<Rightarrow> u64) \<Rightarrow> ('k, 'v) BucketHashmap \<Rightarrow> bool" where
  "table_ok hash m \<longleftrightarrow>
     0 < BucketsCount m \<and> length (Data m) = BucketsCount m \<and>
     (\<forall>b < BucketsCount m. distinct (map fst (Data m ! b)) \<and> (\<forall>(k, v) \<in> set (Data m ! b). bucket hash m k = b)) \<and>
     ElementsCount m = (\<Sum>es\<leftarrow>Data m. length es)"

lemma table_ok_ctor: "table_ok hash BucketHashmap_ctor" "contents hash BucketHashmap_ctor = Map.empty"
  by (auto simp: table_ok_def BucketHashmap_ctor_def contents_def bucket_def sum_list_replicate fun_eq_iff)

lemma find_in_bucket_cases:
  "(find_in_bucket k i es = -1 \<and> k \<notin> fst ` set es \<and> map_of es k = None) \<or>
   (\<exists>j < length es. find_in_bucket k i es = i + int j \<and> fst (es ! j) = k \<and> map_of es k = Some (snd (es ! j)) \<and>
      k \<notin> fst ` set (take j es))" if "0 \<le> i"
  using that
proof (induction k i es rule: find_in_bucket.induct)
  case (2 k i e es)
  show ?case
  proof (cases "fst e = k")
    case True
    then show ?thesis
      by (cases e) (auto simp: GetKey_def intro: exI [of _ 0])
  next
    case False
    then show ?thesis
      using 2 by (cases e) (fastforce simp: GetKey_def intro: exI [of _ "Suc j" for j])
  qed
qed simp

lemma FindIndex_ok:
  "table_ok hash m \<Longrightarrow>
     FindIndex hash k m = Some (bucket hash m k, find_in_bucket k 0 (Data m ! bucket hash m k))"
  by (simp add: table_ok_def FindIndex_def MakeHash_def bucket_def)

lemma bucket_bound: "table_ok hash m \<Longrightarrow> bucket hash m k < length (Data m)"
  by (simp add: table_ok_def bucket_def)

lemma Find_contents:
  assumes "table_ok hash m"
  shows "Find hash k m = Some (case contents hash m k of
      None \<Rightarrow> Inl (runtime_error ''Element not found in map.'') | Some v \<Rightarrow> Inr v)"
  using find_in_bucket_cases [of 0 k "Data m ! bucket hash m k"]
  by (auto simp: Find_def FindIndex_ok [OF assms] contents_def GetValue_def)

lemma bucket_unique:
  "table_ok hash m \<Longrightarrow> k \<in> fst ` set (Data m ! b) \<Longrightarrow> b < BucketsCount m \<Longrightarrow> b = bucket hash m k"
  by (fastforce simp: table_ok_def)

lemma dom_contents:
  assumes "table_ok hash m"
  shows "dom (contents hash m) = (\<Union>b < BucketsCount m. fst ` set (Data m ! b))"
proof -
  have "k \<in> dom (contents hash m) \<longleftrightarrow> k \<in> fst ` set (Data m ! bucket hash m k)" for k
    by (metis contents_def domIff map_of_eq_None_iff)
  moreover have "bucket hash m k < BucketsCount m" for k
    using bucket_bound [OF assms, of k] assms by (simp add: table_ok_def)
  moreover have "k \<in> fst ` set (Data m ! bucket hash m k)"
    if "k \<in> fst ` set (Data m ! b)" "b < BucketsCount m" for k b
    using bucket_unique [OF assms that] that(1) by simp
  ultimately show ?thesis
    by (intro set_eqI) (simp only: UN_iff lessThan_iff, blast)
qed

lemma card_contents:
  assumes "table_ok hash m"
  shows "finite (dom (contents hash m))" "card (dom (contents hash m)) = ElementsCount m"
proof -
  show "finite (dom (contents hash m))"
    by (simp add: dom_contents [OF assms])
  have "card (dom (contents hash m)) = (\<Sum>b < BucketsCount m. card (fst ` set (Data m ! b)))"
    unfolding dom_contents [OF assms]
  proof (intro card_UN_disjoint ballI impI)
    fix b c
    assume "b \<in> {..<BucketsCount m}" "c \<in> {..<BucketsCount m}" "b \<noteq> c"
    then show "fst ` set (Data m ! b) \<inter> fst ` set (Data m ! c) = {}"
      using bucket_unique [OF assms, of _ b] bucket_unique [OF assms, of _ c] by (metis disjoint_iff lessThan_iff)
  qed simp_all
  also have "\<dots> = (\<Sum>b < BucketsCount m. length (Data m ! b))"
    using assms by (intro sum.cong) (auto simp: table_ok_def distinct_card simp flip: set_map)
  also have "\<dots> = ElementsCount m"
    using assms by (simp add: table_ok_def sum_list_sum_nth atLeast0LessThan)
  finally show "card (dom (contents hash m)) = ElementsCount m" .
qed

lemma sum_list_length_update:
  "h < length xs \<Longrightarrow> (\<Sum>es\<leftarrow>xs[h := e]. length es) + length (xs ! h) = (\<Sum>es\<leftarrow>xs. length es) + length e"
  by (induction xs arbitrary: h) (auto split: nat.splits)

lemma contents_update:
  assumes "table_ok hash m" "map_of e = (map_of (Data m ! bucket hash m k))(k := w)"
    and "Data m' = (Data m)[bucket hash m k := e]" "BucketsCount m' = BucketsCount m"
  shows "contents hash m' = (contents hash m)(k := w)"
  using assms bucket_bound [OF assms(1)]
  by (auto simp: contents_def bucket_def fun_eq_iff nth_list_update)

lemma table_ok_update:
  assumes "table_ok hash m" "distinct (map fst e)" "\<forall>(k', v) \<in> set e. bucket hash m k' = b"
    and "b < length (Data m)" "Data m' = (Data m)[b := e]" "BucketsCount m' = BucketsCount m"
    and "ElementsCount m' + length (Data m ! b) = ElementsCount m + length e"
  shows "table_ok hash m'"
proof -
  have "bucket hash m' = bucket hash m"
    using assms(6) by (simp add: bucket_def fun_eq_iff)
  then show ?thesis
    using assms sum_list_length_update [OF assms(4), of e] by (auto simp: table_ok_def nth_list_update)
qed

lemma map_of_update_at:
  assumes "distinct (map fst es)" "j < length es" "fst (es ! j) = k"
  shows "map_of (es[j := (k, v)]) = (map_of es)(k \<mapsto> v)"
  using assms
proof (induction es arbitrary: j)
  case (Cons e es)
  then show ?case
    by (cases j; cases e) (auto simp: fun_eq_iff dest: nth_mem)
qed simp

lemma Insert_ok:
  assumes ok: "table_ok hash m" and room: "card (insert k (dom (contents hash m))) \<le> BucketsCount m * DictCoefficient"
  shows "\<exists>m'. Insert hash k v m = Some m' \<and> table_ok hash m' \<and> contents hash m' = (contents hash m)(k \<mapsto> v) \<and>
      BucketsCount m' = BucketsCount m"
proof -
  let ?b = "bucket hash m k"
  let ?es = "Data m ! ?b"
  have es: "distinct (map fst ?es)" "\<forall>(k', v) \<in> set ?es. bucket hash m k' = ?b" and b: "?b < length (Data m)"
    using ok bucket_bound [OF ok, of k] by (auto simp: table_ok_def)
  consider (new) "find_in_bucket k 0 ?es = -1" "k \<notin> fst ` set ?es" "map_of ?es k = None"
    | (old) j where "j < length ?es" "find_in_bucket k 0 ?es = int j" "fst (?es ! j) = k"
    using find_in_bucket_cases [of 0 k ?es] by auto
  then show ?thesis
  proof cases
    case new
    let ?m' = "m\<lparr>Data := (Data m)[?b := ?es @ [(k, v)]], ElementsCount := ElementsCount m + 1\<rparr>"
    have "k \<notin> dom (contents hash m)"
      using new(3) by (auto simp: contents_def)
    then have "ElementsCount m + 1 \<le> BucketsCount m * DictCoefficient"
      using room card_contents [OF ok] by simp
    then have "Insert hash k v m = Some ?m'"
      using new by (simp add: Insert_def FindIndex_ok [OF ok] Let_def)
    moreover have "table_ok hash ?m'"
      using table_ok_update [OF ok, of "?es @ [(k, v)]" ?b ?m'] es b new(2) by auto
    moreover have "map_of (?es @ [(k, v)]) = (map_of ?es)(k \<mapsto> v)"
      using new(3) by (auto simp: map_add_def fun_eq_iff split: option.splits)
    ultimately show ?thesis
      using contents_update [OF ok, of "?es @ [(k, v)]" k "Some v" ?m'] by simp
  next
    case (old j)
    let ?e = "?es[j := (k, v)]"
    let ?m' = "m\<lparr>Data := (Data m)[?b := ?e]\<rparr>"
    have "Insert hash k v m = Some ?m'"
      using old by (simp add: Insert_def FindIndex_ok [OF ok])
    moreover have "map fst ?e = map fst ?es"
      using old by (metis fst_conv list_update_id map_update)
    moreover have "\<forall>(k', v') \<in> set ?e. bucket hash m k' = ?b"
      using es(2) set_update_subset_insert [of ?es j "(k, v)"] by auto
    ultimately show ?thesis
      using table_ok_update [OF ok, of ?e ?b ?m'] es b old
        contents_update [OF ok, of ?e k "Some v" ?m'] map_of_update_at [OF es(1) old(1, 3)] by auto
  qed
qed

interpretation buckets: map_store "contents hash" "Insert hash" "table_ok hash" "\<lambda>m. BucketsCount m * DictCoefficient"
  for hash
proof
  show "table_ok hash m \<Longrightarrow> finite (dom (contents hash m))" for m
    by (rule card_contents(1))
next
  show "table_ok hash m \<Longrightarrow> card (insert k (dom (contents hash m))) \<le> BucketsCount m * DictCoefficient \<Longrightarrow>
      \<exists>m'. Insert hash k v m = Some m' \<and> table_ok hash m' \<and> contents hash m' = (contents hash m)(k \<mapsto> v) \<and>
        BucketsCount m' * DictCoefficient = BucketsCount m * DictCoefficient" for m k v
    using Insert_ok [of hash m k v] by auto
qed

lemma set_erase_at: "set (erase_at i xs) \<subseteq> set xs"
  by (auto simp: erase_at_def dest: in_set_takeD in_set_dropD)

lemma erase_at_split: "j < length xs \<Longrightarrow> xs = take j xs @ xs ! j # drop (Suc j) xs"
  by (rule id_take_nth_drop)

lemma map_of_erase_at:
  assumes "distinct (map fst es)" "j < length es" "fst (es ! j) = k"
  shows "map_of (erase_at j es) = (map_of es)(k := None)" "distinct (map fst (erase_at j es))"
proof -
  obtain v where v: "es ! j = (k, v)"
    using assms(3) by (cases "es ! j") simp
  define xs ys where "xs = take j es" and "ys = drop (Suc j) es"
  have es: "es = xs @ (k, v) # ys"
    using erase_at_split [OF assms(2)] v by (simp add: xs_def ys_def)
  have d: "distinct (map fst (xs @ (k, v) # ys))"
    using assms(1) unfolding es .
  have e: "erase_at j es = xs @ ys"
    by (simp add: erase_at_def xs_def ys_def)
  have "map_of xs k = None" "map_of ys k = None"
    using d by (auto simp: map_of_eq_None_iff)
  then show "map_of (erase_at j es) = (map_of es)(k := None)"
    unfolding e by (subst es) (auto simp: map_add_def fun_eq_iff split: option.splits)
  show "distinct (map fst (erase_at j es))"
    unfolding e using d by auto
qed

text \<open>What \<open>Delete\<close> does before it considers a rehash.\<close>

lemma Delete_step:
  assumes ok: "table_ok hash m" and k: "contents hash m k \<noteq> None"
  shows "\<exists>m'. table_ok hash m' \<and> contents hash m' = (contents hash m)(k := None) \<and>
      BucketsCount m' = BucketsCount m \<and> ElementsCount m' = ElementsCount m - 1 \<and>
      (\<forall>b < BucketsCount m. set (Data m' ! b) \<subseteq> set (Data m ! b)) \<and>
      Delete hash k m =
        Some (if 1 < BucketsCount m \<and> GrowCoefficient ^ 2 * ElementsCount m' < BucketsCount m * DictCoefficient
              then Rehash (BucketsCount m div GrowCoefficient) m' else m')"
proof -
  let ?b = "bucket hash m k"
  let ?es = "Data m ! ?b"
  have es: "distinct (map fst ?es)" "\<forall>(k', v) \<in> set ?es. bucket hash m k' = ?b" and b: "?b < length (Data m)"
    using ok bucket_bound [OF ok, of k] by (auto simp: table_ok_def)
  obtain j where j: "j < length ?es" "find_in_bucket k 0 ?es = int j" "fst (?es ! j) = k"
    using find_in_bucket_cases [of 0 k ?es] k by (auto simp: contents_def)
  let ?e = "erase_at j ?es"
  let ?m' = "m\<lparr>Data := (Data m)[?b := ?e], ElementsCount := ElementsCount m - 1\<rparr>"
  have pos: "0 < ElementsCount m"
    using card_contents [OF ok] k by (metis card_gt_0_iff domIff empty_iff)
  have "table_ok hash ?m'"
  proof (rule table_ok_update [OF ok map_of_erase_at(2) [OF es(1) j(1, 3)] _ b])
    show "\<forall>(k', v) \<in> set ?e. bucket hash m k' = ?b"
      using es(2) set_erase_at [of j ?es] by blast
    show "ElementsCount ?m' + length ?es = ElementsCount m + length ?e"
      using j(1) pos by (simp add: erase_at_def)
  qed simp_all
  moreover have "contents hash ?m' = (contents hash m)(k := None)"
    using contents_update [OF ok, of ?e k None ?m'] map_of_erase_at(1) [OF es(1) j(1, 3)] by simp
  moreover have "\<forall>c < BucketsCount m. set (Data ?m' ! c) \<subseteq> set (Data m ! c)"
    using set_erase_at [of j ?es] b by (auto simp: nth_list_update)
  ultimately show ?thesis
    using j(2) by (intro exI [of _ ?m']) (simp add: Delete_def FindIndex_ok [OF ok] Let_def)
qed

subsection \<open>Properties\<close>

fun insert_all :: "('k \<Rightarrow> u64) \<Rightarrow> ('k \<times> 'v) list \<Rightarrow> ('k, 'v) BucketHashmap \<Rightarrow> ('k, 'v) BucketHashmap option" where
  "insert_all hash [] m = Some m"
| "insert_all hash ((k, v) # kvs) m = Option.bind (Insert hash k v m) (insert_all hash kvs)"

lemma insert_all_foldl:
  "insert_all hash kvs m = foldl (\<lambda>acc (k, v). Option.bind acc (Insert hash k v)) (Some m) kvs"
proof -
  have "foldl (\<lambda>acc (k, v). Option.bind acc (Insert hash k v)) None kvs = None" for kvs :: "('a \<times> 'b) list"
    by (induction kvs) auto
  then show ?thesis
    by (induction hash kvs m rule: insert_all.induct) (simp_all split: bind_split)
qed

text \<open>
  Whatever the hash function, after inserting any sequence of entries with at most 512 different keys
  into a new map, \<open>Find\<close> returns the value inserted last for a key, throws for a key that was never
  inserted, and \<open>Size\<close> is the number of different keys.
\<close>
theorem hashmap_insert_find:
  assumes "card (fst ` set kvs) \<le> 512"
  shows "\<exists>m. insert_all hash kvs BucketHashmap_ctor = Some m \<and> Size m = card (fst ` set kvs) \<and>
     (\<forall>k. Find hash k m = Some (case map_of (rev kvs) k of
        None \<Rightarrow> Inl (runtime_error ''Element not found in map.'') | Some v \<Rightarrow> Inr v))"
proof -
  let ?c = "BucketHashmap_ctor :: ('a, 'b) BucketHashmap"
  have "card (dom (contents hash ?c) \<union> fst ` set kvs) \<le> BucketsCount ?c * DictCoefficient"
    using assms by (simp add: table_ok_ctor(2)) (simp add: BucketHashmap_ctor_def DictCoefficient_def)
  then obtain m where m: "insert_all hash kvs ?c = Some m" "table_ok hash m"
      "contents hash m = contents hash ?c ++ map_of (rev kvs)"
    using buckets.update_all [OF table_ok_ctor(1), of hash kvs] unfolding insert_all_foldl by blast
  have c: "contents hash m = map_of (rev kvs)"
    using m(3) by (simp add: table_ok_ctor(2))
  have "Size m = card (dom (contents hash m))"
    using card_contents(2) [OF m(2)] by (simp add: Size_def)
  also have "dom (contents hash m) = fst ` set kvs"
    by (simp add: c dom_map_of_conv_image_fst)
  finally show ?thesis
    using m(1) Find_contents [OF m(2)] c by simp
qed

theorem hashmap_insert_find_witness:
  "\<exists>m. insert_all (\<lambda>k. of_int k) [(1, ''a''), (129, ''b''), (1 :: int, ''c'')] BucketHashmap_ctor = Some m \<and>
     Size m = 2 \<and> Find (\<lambda>k. of_int k) 1 m = Some (Inr ''c'')"
proof -
  have "card (fst ` set [(1, ''a''), (129, ''b''), (1 :: int, ''c'')]) \<le> 512"
    by (simp add: card_insert_if)
  from hashmap_insert_find [OF this, where hash = "\<lambda>k. of_int k"] show ?thesis
    by (auto simp: card_insert_if)
qed

text \<open>
  while the map holds more entries than it has buckets, so that no shrinking is due, \<open>Delete\<close>
  removes exactly the given key: later \<open>Find\<close> calls for it throw, those for other keys are unaffected.
\<close>
theorem hashmap_delete_find:
  assumes "table_ok hash m" "BucketsCount m < ElementsCount m"
  shows "\<exists>m'. Delete hash k m = Some m' \<and> table_ok hash m' \<and>
     Find hash k m' = Some (Inl (runtime_error ''Element not found in map.'')) \<and>
     (\<forall>k'. k' \<noteq> k \<longrightarrow> Find hash k' m' = Find hash k' m)"
proof (cases "contents hash m k")
  case None
  then have "Delete hash k m = Some m"
    using find_in_bucket_cases [of 0 k "Data m ! bucket hash m k"]
    by (auto simp: Delete_def FindIndex_ok [OF assms(1)] contents_def)
  then show ?thesis
    using None Find_contents [OF assms(1)] assms(1) by simp
next
  case (Some v)
  then obtain m' where m': "table_ok hash m'" "contents hash m' = (contents hash m)(k := None)"
      "ElementsCount m' = ElementsCount m - 1"
      "Delete hash k m =
        Some (if 1 < BucketsCount m \<and> GrowCoefficient ^ 2 * ElementsCount m' < BucketsCount m * DictCoefficient
              then Rehash (BucketsCount m div GrowCoefficient) m' else m')"
    using Delete_step [OF assms(1), of k] by auto
  have "\<not> GrowCoefficient ^ 2 * ElementsCount m' < BucketsCount m * DictCoefficient"
    using m'(3) assms(2) by (simp add: GrowCoefficient_def DictCoefficient_def)
  then have "Delete hash k m = Some m'"
    using m'(4) by simp
  then show ?thesis
    using m' Find_contents [OF m'(1)] Find_contents [OF assms(1)] by simp
qed

theorem hashmap_delete_find_witness:
  "\<exists>m'. Delete (\<lambda>k. of_int k) 1 \<lparr>BucketsCount = 1, ElementsCount = 2, Data = [[(1 :: int, ''a''), (2, ''b'')]]\<rparr> = Some m' \<and>
     Find (\<lambda>k. of_int k) 2 m' = Some (Inr ''b'')"
proof -
  let ?m = "\<lparr>BucketsCount = 1, ElementsCount = 2, Data = [[(1 :: int, ''a''), (2, ''b'')]]\<rparr>"
  have "table_ok (\<lambda>k. of_int k) ?m"
    by (simp add: table_ok_def bucket_def)
  from hashmap_delete_find [OF this, of 1]
  obtain m' where "Delete (\<lambda>k. of_int k) 1 ?m = Some m'"
      "\<forall>k'. k' \<noteq> 1 \<longrightarrow> Find (\<lambda>k. of_int k) k' m' = Find (\<lambda>k. of_int k) k' ?m"
    by auto
  moreover have "Find (\<lambda>k. of_int k) 2 ?m = Some (Inr ''b'')"
    by (simp add: Find_def FindIndex_def MakeHash_def GetKey_def GetValue_def)
  ultimately show ?thesis
    by (metis one_eq_numeral_iff semiring_norm(85))
qed

text \<open>
  deleting one of two entries of a new map loses the other when its hash is at least 64 modulo 128:
  the map shrinks to 64 buckets and its bucket is cut off, so that \<open>Find\<close> throws for a key that was
  inserted and never deleted.
\<close>
theorem hashmap_delete_loses_entry:
  assumes "k \<noteq> k'" "64 \<le> unat (hash k') mod 128"
  shows "\<exists>m m'. insert_all hash [(k, v), (k', v')] BucketHashmap_ctor = Some m \<and>
     Find hash k' m = Some (Inr v') \<and> Delete hash k m = Some m' \<and>
     Find hash k' m' = Some (Inl (runtime_error ''Element not found in map.''))"
proof -
  let ?c = "BucketHashmap_ctor :: ('a, 'b) BucketHashmap"
  obtain m1 where m1: "Insert hash k v ?c = Some m1" "table_ok hash m1" "contents hash m1 = [k \<mapsto> v]"
      "BucketsCount m1 = 128"
    using Insert_ok [OF table_ok_ctor(1), where hash = hash and k = k and v = v]
    by (auto simp: table_ok_ctor(2)) (auto simp: BucketHashmap_ctor_def DictCoefficient_def)
  obtain m where m: "Insert hash k' v' m1 = Some m" "table_ok hash m" "contents hash m = [k \<mapsto> v, k' \<mapsto> v']"
      "BucketsCount m = 128"
    using Insert_ok [OF m1(2), of k' v'] m1(3, 4) assms(1) by (auto simp: DictCoefficient_def)
  have two: "ElementsCount m = 2"
    using card_contents(2) [OF m(2)] assms(1) by (simp add: m(3))
  obtain d where d: "table_ok hash d" "BucketsCount d = 128" "ElementsCount d = 1"
      "\<forall>b < 128. set (Data d ! b) \<subseteq> set (Data m ! b)" "Delete hash k m = Some (Rehash 64 d)"
    using Delete_step [OF m(2), of k] m(3, 4) assms(1) two by (auto simp: GrowCoefficient_def DictCoefficient_def)
  let ?b = "unat (hash k') mod 64"
  have b: "?b < 64" by simp
  have "k' \<notin> fst ` set (Data m ! ?b)"
  proof
    assume "k' \<in> fst ` set (Data m ! ?b)"
    then have "?b = unat (hash k') mod 128"
      using bucket_unique [OF m(2), of k' ?b] b m(4) by (simp add: bucket_def)
    then show False
      using b assms(2) by linarith
  qed
  moreover have "set (Data d ! ?b) \<subseteq> set (Data m ! ?b)"
    using d(4) b by simp
  ultimately have "k' \<notin> fst ` set (Data d ! ?b)"
    by blast
  moreover have "Data (Rehash 64 d) ! ?b = Data d ! ?b" "BucketsCount (Rehash 64 d) = 64" "length (Data (Rehash 64 d)) = 64"
    using d(1, 2) by (simp_all add: Rehash_def table_ok_def nth_append)
  ultimately have "Find hash k' (Rehash 64 d) = Some (Inl (runtime_error ''Element not found in map.''))"
    using find_in_bucket_cases [of 0 k' "Data d ! ?b"] map_of_eq_None_iff [of "Data d ! ?b" k']
    by (auto simp: Find_def FindIndex_def MakeHash_def)
  then show ?thesis
    using m1(1) m(1) d(5) Find_contents [OF m(2), of k'] m(3) by simp
qed

theorem hashmap_delete_loses_entry_witness:
  "\<exists>m m'. insert_all (\<lambda>k. of_int k) [(1, ''a''), (100 :: int, ''b'')] BucketHashmap_ctor = Some m \<and>
     Find (\<lambda>k. of_int k) 100 m = Some (Inr ''b'') \<and> Delete (\<lambda>k. of_int k) 1 m = Some m' \<and>
     Find (\<lambda>k. of_int k) 100 m' = Some (Inl (runtime_error ''Element not found in map.''))"
  by (rule hashmap_delete_loses_entry) simp_all

end
