(* ===== verification/Json_Parser.thy ===== *)
theory Json_Parser
  imports Prelude
begin

text \<open>
  The JSON reader of \<open>Sandbox/parser.hpp\<close>: the escapes, the value class, the tokenizer and the recursive
  descent over the tokens. \<open>None\<close> stands for an index outside a string or vector and for a loop that
  does not end. Number conversion to floating point and the reading of files are left out.
\<close>

subsection \<open>Characters and strings\<close>

definition c_str :: "string \<Rightarrow> string" where
  "c_str s = takeWhile (\<lambda>c. c \<noteq> CHR 0x00) s"

definition substr :: "string \<Rightarrow> nat \<Rightarrow> nat \<Rightarrow> string" where
  "substr s i n = take n (drop i s)"

definition is_digit :: "char \<Rightarrow> bool" where
  "is_digit c \<longleftrightarrow> List.member ''0123456789'' c"

definition is_whitespace :: "char \<Rightarrow> bool" where
  "is_whitespace c \<longleftrightarrow> List.member [CHR '' '', CHR 0x09, CHR 0x0A, CHR 0x0B, CHR 0x0C, CHR 0x0D] c"

abbreviation quote :: char where "quote \<equiv> CHR 0x22"
abbreviation apostrophe :: char where "apostrophe \<equiv> CHR 0x27"
abbreviation backslash :: char where "backslash \<equiv> CHR 0x5C"

subsection \<open>Escapes\<close>

definition hex_value :: "char \<Rightarrow> nat" where
  "hex_value c = (if is_digit c then of_char c - 48
     else if List.member ''abcdef'' c then of_char c - 97 + 10 else 0)"

definition hex4 :: "char \<Rightarrow> char \<Rightarrow> char \<Rightarrow> char \<Rightarrow> nat" where
  "hex4 a b c d = ((hex_value a * 16 + hex_value b) * 16 + hex_value c) * 16 + hex_value d"

text \<open>
  \<open>deserialize\<close> recurses over the rest of the text. An unknown escape is dropped; a \<open>u\<close> escape
  needs four more characters and contributes the low byte of the number.
\<close>

fun deserialize :: "string \<Rightarrow> string" where
  "deserialize [] = []"
| "deserialize [c] = [c]"
| "deserialize (c # e # cs) =
     (if c = backslash
      then if e = quote then quote # deserialize cs
           else if e = backslash then backslash # deserialize cs
           else if e = CHR ''/'' then CHR ''/'' # deserialize cs
           else if e = CHR ''b'' then CHR 0x08 # deserialize cs
           else if e = CHR ''f'' then CHR 0x0C # deserialize cs
           else if e = CHR ''n'' then CHR 0x0A # deserialize cs
           else if e = CHR ''r'' then CHR 0x0D # deserialize cs
           else if e = CHR ''t'' then CHR 0x09 # deserialize cs
           else if e = CHR ''u''
           then case cs of
                  h1 # h2 # h3 # h4 # ds \<Rightarrow> char_of (hex4 h1 h2 h3 h4 mod 256) # deserialize ds
                | _ \<Rightarrow> deserialize cs
           else deserialize cs
      else c # deserialize (e # cs))"

subsection \<open>Values\<close>

datatype object_t = STRING | OBJECT | ARRAY | BOOLEAN | NUMBER | NULLOBJECT | UNKNOWN

datatype json_value = Value
  (t_value: string) (t_type: object_t) (t_properties: "(string \<times> json_value) list")
  (t_mapindex: "(string \<times> nat) list") (array: "json_value list")

definition value_ctor :: json_value where
  "value_ctor = Value [] UNKNOWN [] [] []"

definition value_ctor_type :: "object_t \<Rightarrow> json_value" where
  "value_ctor_type t = Value [] t [] [] []"

definition set_type :: "object_t \<Rightarrow> json_value \<Rightarrow> json_value" where
  "set_type t v = Value (t_value v) t (t_properties v) (t_mapindex v) (array v)"

definition add_property :: "string \<Rightarrow> json_value \<Rightarrow> json_value \<Rightarrow> json_value" where
  "add_property key t v =
     Value (t_value v) (t_type v) (t_properties v @ [(key, t)])
       ((c_str key, length (t_properties v)) # filter (\<lambda>(k, i). k \<noteq> c_str key) (t_mapindex v)) (array v)"

definition add_element :: "json_value \<Rightarrow> json_value \<Rightarrow> json_value" where
  "add_element t v = Value (t_value v) (t_type v) (t_properties v) (t_mapindex v) (array v @ [t])"

definition set_string :: "string \<Rightarrow> json_value \<Rightarrow> json_value" where
  "set_string s v = Value s (t_type v) (t_properties v) (t_mapindex v) (array v)"

definition as_string :: "json_value \<Rightarrow> string" where
  "as_string v = deserialize (t_value v)"

text \<open>\<open>std::stoi\<close>: white space, an optional sign, then at least one digit.\<close>

definition stoi_digits :: "int \<Rightarrow> string \<Rightarrow> cxx_exception + int" where
  "stoi_digits sign cs =
     (let ds = takeWhile is_digit cs; n = sign * read_decimal ds
      in if ds = [] then Inl (invalid_argument ''stoi'')
         else if - 2147483648 \<le> n \<and> n \<le> 2147483647 then Inr n else Inl (out_of_range ''stoi''))"

definition stoi :: "string \<Rightarrow> cxx_exception + int" where
  "stoi s = (case dropWhile is_whitespace s of
       [] \<Rightarrow> Inl (invalid_argument ''stoi'')
     | c # cs \<Rightarrow> if c = CHR ''-'' then stoi_digits (-1) cs
                else if c = CHR ''+'' then stoi_digits 1 cs else stoi_digits 1 (c # cs))"

definition as_int :: "json_value \<Rightarrow> cxx_exception + int" where
  "as_int v = stoi (t_value v)"

definition as_bool :: "json_value \<Rightarrow> cxx_exception + bool" where
  "as_bool v = map_sum id (\<lambda>n. n \<noteq> 0) (stoi (t_value v))"

definition value_size :: "json_value \<Rightarrow> nat" where
  "value_size v =
     (if t_type v = ARRAY then length (array v)
      else if t_type v = OBJECT then length (t_properties v) else 0)"

definition value_at :: "json_value \<Rightarrow> nat \<Rightarrow> json_value option" where
  "value_at v key =
     (if t_type v = ARRAY then if key < length (array v) then Some (array v ! key) else None
      else if t_type v = OBJECT
      then if key < length (t_properties v) then Some (snd (t_properties v ! key)) else None
      else Some value_ctor)"

definition value_at_key :: "json_value \<Rightarrow> string \<Rightarrow> json_value option" where
  "value_at_key v key =
     (case map_of (t_mapindex v) (c_str key) of
        None \<Rightarrow> Some value_ctor
      | Some i \<Rightarrow> if i < length (t_properties v) then Some (snd (t_properties v ! i)) else None)"

text \<open>
  \<open>makesp\<close> counts its argument down to zero before it appends, so it returns for positive arguments only:
  from zero the counter runs through the negative numbers until it overflows.
\<close>

fun makesp_loop :: "nat \<Rightarrow> string" where
  "makesp_loop 0 = []"
| "makesp_loop (Suc n) = ''  '' @ makesp_loop n"

definition makesp :: "int \<Rightarrow> string option" where
  "makesp num = (if num \<le> 0 then None else Some (makesp_loop (nat (num - 1))))"

fun to_string_d :: "int \<Rightarrow> json_value \<Rightarrow> string option"
  and properties_string :: "int \<Rightarrow> (string \<times> json_value) list \<Rightarrow> string option" where
  "to_string_d d (Value tv tt props mi ar) =
     (if tt = STRING then Some ([quote] @ tv @ [quote])
      else if tt = NUMBER then Some tv
      else if tt = BOOLEAN then Some tv
      else if tt = NULLOBJECT then Some ''null''
      else if tt = OBJECT
      then do { body \<leftarrow> properties_string d props;
                sp \<leftarrow> makesp (d - 1);
                Some (''{'' @ [CHR 0x0A] @ body @ sp @ ''}'') }
      else Some ''##'')"
| "properties_string d [] = Some []"
| "properties_string d ((key, v) # ps) =
     do { sp \<leftarrow> makesp d;
          s \<leftarrow> to_string_d (d + 1) v;
          rest \<leftarrow> properties_string d ps;
          Some (sp @ [quote] @ key @ '': '' @ s @ (if ps = [] then [] else '','') @ [CHR 0x0A] @ rest) }"

definition json_to_string :: "json_value \<Rightarrow> string option" where
  "json_to_string v = to_string_d 1 v"

subsection \<open>Tokenizer\<close>

datatype token_t =
    T_UNKNOWN | T_STRING | T_NUMBER | CROUSH_OPEN | CROUSH_CLOSE | BRACKET_OPEN | BRACKET_CLOSE
  | COMMA | COLON | T_BOOLEAN | T_NULLOBJECT

datatype token = Token (token_value: string) (token_type: token_t)

function skip_quoted :: "string \<Rightarrow> nat \<Rightarrow> nat" where
  "skip_quoted source i =
     (if i < length source \<and> (source ! i \<noteq> quote \<or> source ! (i - 1) = backslash)
      then skip_quoted source (i + 1) else i)"
  by pat_completeness auto
termination
  by (relation "measure (\<lambda>(source, i). length source - i)") auto

partial_function (option) next_whitespace :: "string \<Rightarrow> nat \<Rightarrow> nat option" where
  "next_whitespace source i =
     (if i < length source
      then let i = (if source ! i = quote then skip_quoted source (i + 1) else i)
           in if length source \<le> i then None
              else let i = (if source ! i = apostrophe then skip_quoted source (i + 1) else i)
                   in if length source \<le> i then None
                      else if is_whitespace (source ! i) then Some i
                      else next_whitespace source (i + 1)
      else Some (length source))"

function skip_whitespaces :: "string \<Rightarrow> nat \<Rightarrow> int" where
  "skip_whitespaces source i =
     (if i < length source
      then if \<not> is_whitespace (source ! i) then int i else skip_whitespaces source (i + 1)
      else -1)"
  by pat_completeness auto
termination
  by (relation "measure (\<lambda>(source, i). length source - i)") auto

text \<open>The scanning loops of \<open>tokenize\<close>, with the conditions as they are written.\<close>

function scan_string :: "char \<Rightarrow> string \<Rightarrow> nat \<Rightarrow> nat" where
  "scan_string q str tmp_k =
     (if tmp_k < length str \<and> (str ! tmp_k \<noteq> q \<or> str ! tmp_k \<noteq> backslash)
      then scan_string q str (tmp_k + 1) else tmp_k)"
  by pat_completeness auto
termination
  by (relation "measure (\<lambda>(q, str, i). length str - i)") auto

function scan_number :: "string \<Rightarrow> nat \<Rightarrow> nat" where
  "scan_number str tmp_k =
     (if tmp_k < length str \<and> (is_digit (str ! tmp_k) \<or> str ! tmp_k = CHR ''.'')
      then scan_number str (tmp_k + 1) else tmp_k)"
  by pat_completeness auto
termination
  by (relation "measure (\<lambda>(str, i). length str - i)") auto

declare skip_quoted.simps [simp del] skip_whitespaces.simps [simp del]
  scan_string.simps [simp del] scan_number.simps [simp del]

text \<open>One round of the loop over a word: the token at \<open>k\<close> and the index behind it.\<close>

definition token_at :: "string \<Rightarrow> nat \<Rightarrow> token \<times> nat" where
  "token_at str k =
     (let c = str ! k
      in if c = quote
         then let tmp_k = scan_string quote str (k + 1)
              in (Token (substr str (k + 1) (tmp_k - k + 1)) T_STRING, tmp_k + 1)
         else if c = apostrophe
         then let tmp_k = scan_string apostrophe str (k + 1)
              in (Token (substr str (k + 1) (tmp_k - k + 1)) T_STRING, tmp_k + 1)
         else if c = CHR '','' then (Token '','' COMMA, k + 1)
         else if c = CHR ''t'' \<and> k + 3 < length str \<and> substr str k 4 = ''true''
         then (Token ''true'' T_BOOLEAN, k + 4)
         else if c = CHR ''f'' \<and> k + 4 < length str \<and> substr str k 5 = ''false''
         then (Token ''true'' T_BOOLEAN, k + 4)
         else if c = CHR ''n'' \<and> k + 3 < length str \<and> substr str k 4 = ''null''
         then (Token ''true'' T_BOOLEAN, k + 4)
         else if c = CHR ''{'' then (Token ''{'' CROUSH_OPEN, k + 1)
         else if c = CHR ''}'' then (Token ''}'' CROUSH_CLOSE, k + 1)
         else if c = CHR '']'' then (Token '']'' BRACKET_CLOSE, k + 1)
         else if c = CHR ''['' then (Token ''['' BRACKET_OPEN, k + 1)
         else if c = CHR '':'' then (Token '':'' COLON, k + 1)
         else if c = CHR ''-'' \<or> is_digit c
         then let tmp_k = scan_number str (if c = CHR ''-'' then k + 1 else k)
              in (Token (substr str k (tmp_k - k)) T_NUMBER, tmp_k)
         else (Token (drop k str) T_UNKNOWN, length str))"

partial_function (option) tokenize_word :: "string \<Rightarrow> nat \<Rightarrow> token list \<Rightarrow> token list option" where
  "tokenize_word str k tokens =
     (if k < length str
      then tokenize_word str (snd (token_at str k)) (tokens @ [fst (token_at str k)])
      else Some tokens)"

partial_function (option) tokenize_loop :: "string \<Rightarrow> int \<Rightarrow> token list \<Rightarrow> token list option" where
  "tokenize_loop source index tokens =
     (if 0 \<le> index
      then do { n \<leftarrow> next_whitespace source (nat index);
                tokens \<leftarrow> tokenize_word (substr source (nat index) (n - nat index)) 0 tokens;
                tokenize_loop source (skip_whitespaces source n) tokens }
      else Some tokens)"

declare next_whitespace.simps [code] tokenize_word.simps [code] tokenize_loop.simps [code]

definition tokenize :: "string \<Rightarrow> token list option" where
  "tokenize source =
     (let source = source @ ''  '' in tokenize_loop source (skip_whitespaces source 0) [])"

subsection \<open>Parser\<close>

text \<open>
  \<open>json_parse\<close> and its two loops call each other; \<open>json_run\<close> is the three of them, told apart by
  \<open>parse_mode\<close>. A call gives the value and the new \<open>r\<close>; \<open>r\<close> keeps its old value when no token matches.
\<close>

datatype parse_mode =
    Parse nat nat
  | Members json_value nat
  | Elements json_value nat

definition type_at :: "token list \<Rightarrow> nat \<Rightarrow> token_t option" where
  "type_at v i = (if i < length v then Some (token_type (v ! i)) else None)"

definition skip_comma :: "token list \<Rightarrow> nat \<Rightarrow> nat option" where
  "skip_comma v k = do { t \<leftarrow> type_at v k; Some (if t = COMMA then k + 1 else k) }"

partial_function (option) json_run :: "token list \<Rightarrow> parse_mode \<Rightarrow> (json_value \<times> nat) option" where
  "json_run v m = (case m of
     Parse i r \<Rightarrow>
       do { t \<leftarrow> type_at v i;
            if t = CROUSH_OPEN then json_run v (Members (set_type OBJECT value_ctor) (i + 1))
            else if t = BRACKET_OPEN then json_run v (Elements (set_type ARRAY value_ctor) (i + 1))
            else if t = T_NUMBER
            then Some (set_string (token_value (v ! i)) (set_type NUMBER value_ctor), i + 1)
            else if t = T_STRING
            then Some (set_string (token_value (v ! i)) (set_type STRING value_ctor), i + 1)
            else if t = T_BOOLEAN
            then Some (set_string (token_value (v ! i)) (set_type BOOLEAN value_ctor), i + 1)
            else if t = T_NULLOBJECT
            then Some (set_string ''null'' (set_type NULLOBJECT value_ctor), i + 1)
            else Some (value_ctor, r) }
   | Members current k \<Rightarrow>
       do { t \<leftarrow> type_at v k;
            if t = CROUSH_CLOSE then Some (current, k + 1)
            else do { vv \<leftarrow> json_run v (Parse (k + 2) (k + 2));
                      k' \<leftarrow> skip_comma v (snd vv);
                      json_run v (Members (add_property (token_value (v ! k)) (fst vv) current) k') } }
   | Elements current k \<Rightarrow>
       do { t \<leftarrow> type_at v k;
            if t = BRACKET_CLOSE then Some (current, k + 1)
            else do { vv \<leftarrow> json_run v (Parse k k);
                      k' \<leftarrow> skip_comma v (snd vv);
                      json_run v (Elements (add_element (fst vv) current) k') } })"

declare json_run.simps [code]

definition json_parse :: "token list \<Rightarrow> nat \<Rightarrow> nat \<Rightarrow> (json_value \<times> nat) option" where
  "json_parse v i r = json_run v (Parse i r)"

definition parse :: "string \<Rightarrow> json_value option" where
  "parse data =
     do { tokens \<leftarrow> tokenize (c_str data);
          r \<leftarrow> json_parse tokens 0 0;
          Some (fst r) }"

end
