(* ===== verification/Json_Correct.thy ===== *)
theory Json_Correct
  imports Json_Parser
begin

text \<open>
  Correctness of the JSON reader. \<open>json\<close> is the abstract syntax, \<open>tokens_of\<close> its token sequence and
  \<open>value_of\<close> the value object the reader should build. The parser inverts \<open>tokens_of\<close>; the tokenizer
  inverts the text in which the tokens are separated by spaces, up to the closing quotation mark,
  which it leaves in the string.
\<close>

subsection \<open>Abstract syntax\<close>

datatype json =
    JNumber string
  | JString string
  | JBoolean string
  | JArray "json list"
  | JObject "(string \<times> json) list"

fun tokens_of :: "json \<Rightarrow> token list"
  and elements_tokens :: "json list \<Rightarrow> token list"
  and members_tokens :: "(string \<times> json) list \<Rightarrow> token list" where
  "tokens_of (JNumber s) = [Token s T_NUMBER]"
| "tokens_of (JString s) = [Token s T_STRING]"
| "tokens_of (JBoolean s) = [Token s T_BOOLEAN]"
| "tokens_of (JArray js) = Token ''['' BRACKET_OPEN # elements_tokens js @ [Token '']'' BRACKET_CLOSE]"
| "tokens_of (JObject kvs) = Token ''{'' CROUSH_OPEN # members_tokens kvs @ [Token ''}'' CROUSH_CLOSE]"
| "elements_tokens [] = []"
| "elements_tokens (j # js) = tokens_of j @ (if js = [] then [] else [Token '','' COMMA]) @ elements_tokens js"
| "members_tokens [] = []"
| "members_tokens ((k, j) # kvs) =
     Token k T_STRING # Token '':'' COLON # tokens_of j @ (if kvs = [] then [] else [Token '','' COMMA]) @ members_tokens kvs"

fun value_of :: "json \<Rightarrow> json_value"
  and add_elements :: "json list \<Rightarrow> json_value \<Rightarrow> json_value"
  and add_members :: "(string \<times> json) list \<Rightarrow> json_value \<Rightarrow> json_value" where
  "value_of (JNumber s) = set_string s (set_type NUMBER value_ctor)"
| "value_of (JString s) = set_string s (set_type STRING value_ctor)"
| "value_of (JBoolean s) = set_string s (set_type BOOLEAN value_ctor)"
| "value_of (JArray js) = add_elements js (set_type ARRAY value_ctor)"
| "value_of (JObject kvs) = add_members kvs (set_type OBJECT value_ctor)"
| "add_elements [] acc = acc"
| "add_elements (j # js) acc = add_elements js (add_element (value_of j) acc)"
| "add_members [] acc = acc"
| "add_members ((k, j) # kvs) acc = add_members kvs (add_property k (value_of j) acc)"

subsection \<open>The parser\<close>

lemma type_at_append [simp]:
  "type_at (pre @ t # post) (length pre) = Some (token_type t)"
  "i < length pre \<Longrightarrow> type_at (pre @ ts) i = type_at pre i"
  by (simp_all add: type_at_def nth_append)

lemma tokens_of_nonempty: "\<exists>t ts. tokens_of j = t # ts \<and> token_type t \<noteq> BRACKET_CLOSE \<and> token_type t \<noteq> COMMA"
  by (cases j) auto

lemma skip_comma_simps:
  "skip_comma (pre @ Token s COMMA # post) (length pre) = Some (length pre + 1)"
  "token_type t \<noteq> COMMA \<Longrightarrow> skip_comma (pre @ t # post) (length pre) = Some (length pre)"
  by (simp_all add: skip_comma_def)

definition parses :: "json \<Rightarrow> bool" where
  "parses j \<longleftrightarrow> (\<forall>pre post r. json_run (pre @ tokens_of j @ post) (Parse (length pre) r) =
     Some (value_of j, length pre + length (tokens_of j)))"

lemma parsesD:
  "parses j \<Longrightarrow> json_run (pre @ tokens_of j @ post) (Parse (length pre) r) =
     Some (value_of j, length pre + length (tokens_of j))"
  by (simp add: parses_def)

lemma parse_elements:
  assumes "\<forall>j \<in> set js. parses j" "token_type c = BRACKET_CLOSE"
  shows "json_run (pre @ elements_tokens js @ c # post) (Elements acc (length pre)) =
     Some (add_elements js acc, length pre + length (elements_tokens js) + 1)"
  using assms(1)
proof (induction js arbitrary: pre acc)
  case Nil
  then show ?case
    using assms(2) by (subst json_run.simps) simp
next
  case (Cons j js)
  let ?sep = "if js = [] then [] else [Token '','' COMMA]"
  let ?rest = "?sep @ elements_tokens js @ c # post"
  let ?v = "pre @ tokens_of j @ ?rest"
  let ?pre = "pre @ tokens_of j @ ?sep"
  obtain t ts where t: "tokens_of j = t # ts" "token_type t \<noteq> BRACKET_CLOSE"
    using tokens_of_nonempty by blast
  have head: "type_at ?v (length pre) = Some (token_type t)"
    using t(1) by simp
  have elem: "json_run ?v (Parse (length pre) (length pre)) = Some (value_of j, length pre + length (tokens_of j))"
    using Cons.prems by (simp add: parses_def)
  have "skip_comma ((pre @ tokens_of j) @ ?rest) (length (pre @ tokens_of j)) = Some (length ?pre)"
    using assms(2) skip_comma_simps(2) [of c "pre @ tokens_of j" post]
      skip_comma_simps(1) [of "pre @ tokens_of j" "'',''" "elements_tokens js @ c # post"] by simp
  then have sep: "skip_comma ?v (length pre + length (tokens_of j)) = Some (length ?pre)"
    by simp
  have "json_run ?v (Elements acc (length pre)) = json_run ?v (Elements (add_element (value_of j) acc) (length ?pre))"
    using head t(2) elem sep by (subst json_run.simps) simp
  also have "\<dots> = Some (add_elements js (add_element (value_of j) acc), length ?pre + length (elements_tokens js) + 1)"
    using Cons.IH [of ?pre] Cons.prems by simp
  finally show ?case
    by simp
qed

lemma parse_members:
  assumes "\<forall>(k, j) \<in> set kvs. parses j" "token_type c = CROUSH_CLOSE"
  shows "json_run (pre @ members_tokens kvs @ c # post) (Members acc (length pre)) =
     Some (add_members kvs acc, length pre + length (members_tokens kvs) + 1)"
  using assms(1)
proof (induction kvs arbitrary: pre acc)
  case Nil
  then show ?case
    using assms(2) by (subst json_run.simps) simp
next
  case (Cons kj kvs)
  obtain k j where kj: "kj = (k, j)" by force
  let ?sep = "if kvs = [] then [] else [Token '','' COMMA]"
  let ?rest = "?sep @ members_tokens kvs @ c # post"
  let ?pre2 = "pre @ [Token k T_STRING, Token '':'' COLON]"
  let ?v = "?pre2 @ tokens_of j @ ?rest"
  let ?pre = "?pre2 @ tokens_of j @ ?sep"
  have head: "type_at ?v (length pre) = Some T_STRING" "token_value (?v ! length pre) = k"
    by (simp_all add: type_at_def nth_append)
  have elem: "json_run ?v (Parse (length pre + 2) (length pre + 2)) =
      Some (value_of j, length pre + 2 + length (tokens_of j))"
    using parsesD [of j ?pre2 ?rest "length pre + 2"] Cons.prems kj by simp
  have "skip_comma ((?pre2 @ tokens_of j) @ ?rest) (length (?pre2 @ tokens_of j)) = Some (length ?pre)"
    using assms(2) skip_comma_simps(2) [of c "?pre2 @ tokens_of j" post]
      skip_comma_simps(1) [of "?pre2 @ tokens_of j" "'',''" "members_tokens kvs @ c # post"] by simp
  then have sep: "skip_comma ?v (length pre + 2 + length (tokens_of j)) = Some (length ?pre)"
    by simp
  have "json_run ?v (Members acc (length pre)) = json_run ?v (Members (add_property k (value_of j) acc) (length ?pre))"
    using head elem sep by (subst json_run.simps) (simp del: append_assoc)
  also have "\<dots> = Some (add_members kvs (add_property k (value_of j) acc), length ?pre + length (members_tokens kvs) + 1)"
    using Cons.IH [of ?pre] Cons.prems by simp
  finally show ?case
    using kj by simp
qed

lemma parses_all: "parses j"
proof (induction j rule: json.induct)
  case (JArray js)
  then have "\<forall>j \<in> set js. parses j" by simp
  then show ?case
    using parse_elements [of js "Token '']'' BRACKET_CLOSE" "pre @ [Token ''['' BRACKET_OPEN]" for pre]
    unfolding parses_def [of "JArray js"] by (subst json_run.simps) simp
next
  case (JObject kvs)
  then have "\<forall>(k, j) \<in> set kvs. parses j"
    by (auto simp: snds.simps)
  then show ?case
    using parse_members [of kvs "Token ''}'' CROUSH_CLOSE" "pre @ [Token ''{'' CROUSH_OPEN]" for pre]
    unfolding parses_def [of "JObject kvs"] by (subst json_run.simps) simp
qed (simp_all add: parses_def json_run.simps)

subsection \<open>Reading the values\<close>

lemma value_ctor_fields [simp]:
  "t_value value_ctor = []" "t_type value_ctor = UNKNOWN" "t_properties value_ctor = []"
  "t_mapindex value_ctor = []" "array value_ctor = []"
  by (simp_all add: value_ctor_def)

lemma set_type_fields [simp]:
  "t_value (set_type t v) = t_value v" "t_type (set_type t v) = t" "t_properties (set_type t v) = t_properties v"
  "t_mapindex (set_type t v) = t_mapindex v" "array (set_type t v) = array v"
  by (simp_all add: set_type_def)

lemma add_elements_fields:
  "t_type (add_elements js acc) = t_type acc" "array (add_elements js acc) = array acc @ map value_of js"
  by (induction js arbitrary: acc) (simp_all add: add_element_def)

lemma add_members_fields:
  "t_type (add_members kvs acc) = t_type acc"
  "t_properties (add_members kvs acc) = t_properties acc @ map (\<lambda>(k, j). (k, value_of j)) kvs"
  by (induction kvs arbitrary: acc) (auto simp: add_property_def)

definition last_index :: "string \<Rightarrow> string list \<Rightarrow> nat option" where
  "last_index k ks = map_of (rev (zip ks [0..<length ks])) k"

lemma last_index_snoc: "last_index k (ks @ [a]) = (if k = a then Some (length ks) else last_index k ks)"
  by (simp add: last_index_def)

lemma last_index_bound: "last_index k ks = Some i \<Longrightarrow> i < length ks"
  by (auto simp: last_index_def dest!: map_of_SomeD in_set_zipE)

lemma last_index_nth:
  "case last_index k (map fst kvs) of
     None \<Rightarrow> map_of (rev kvs) k = None | Some i \<Rightarrow> map_of (rev kvs) k = Some (snd (kvs ! i))"
proof (induction kvs rule: rev_induct)
  case (snoc kv kvs)
  then show ?case
    using last_index_bound [of k "map fst kvs"]
    by (cases kv) (auto simp: last_index_snoc nth_append split: option.splits)
qed (simp add: last_index_def)

definition mapindex_ok :: "json_value \<Rightarrow> bool" where
  "mapindex_ok v \<longleftrightarrow> map_of (t_mapindex v) = (\<lambda>k. last_index k (map (c_str \<circ> fst) (t_properties v)))"

lemma map_of_filter_key: "map_of (filter (\<lambda>(k, i). k \<noteq> a) xs) = (map_of xs)(a := None)"
  by (induction xs) (auto simp: fun_eq_iff)

lemma mapindex_ok_add: "mapindex_ok v \<Longrightarrow> mapindex_ok (add_property k t v)"
  by (auto simp: mapindex_ok_def add_property_def last_index_snoc map_of_filter_key fun_eq_iff)

lemma mapindex_ok_members: "mapindex_ok acc \<Longrightarrow> mapindex_ok (add_members kvs acc)"
  by (induction kvs arbitrary: acc) (auto simp: mapindex_ok_add)

subsection \<open>Words\<close>

definition plain_word :: "string \<Rightarrow> bool" where
  "plain_word w \<longleftrightarrow> w \<noteq> [] \<and> (\<forall>c \<in> set w. \<not> is_whitespace c \<and> c \<noteq> quote \<and> c \<noteq> apostrophe)"

definition quoted_word :: "string \<Rightarrow> bool" where
  "quoted_word w \<longleftrightarrow> (\<exists>u. w = quote # u @ [quote] \<and> quote \<notin> set u \<and> backslash \<notin> set u)"

lemma whitespace_simps [simp]:
  "is_whitespace CHR '' ''" "\<not> is_whitespace quote" "\<not> is_whitespace apostrophe"
  by (simp_all add: is_whitespace_def)

lemma next_whitespace_plain:
  assumes "\<forall>c \<in> set w. \<not> is_whitespace c \<and> c \<noteq> quote \<and> c \<noteq> apostrophe"
  shows "next_whitespace (pre @ w @ CHR '' '' # rest) (length pre) = Some (length pre + length w)"
  using assms
proof (induction w arbitrary: pre)
  case Nil
  then show ?case
    by (subst next_whitespace.simps) (simp add: nth_append)
next
  case (Cons c w)
  have "next_whitespace ((pre @ [c]) @ w @ CHR '' '' # rest) (length (pre @ [c])) = Some (length (pre @ [c]) + length w)"
    using Cons by (intro Cons.IH) simp
  then show ?case
    using Cons.prems by (subst next_whitespace.simps) (simp add: nth_append)
qed

lemma skip_quoted_to:
  assumes "quote \<notin> set u" "backslash \<notin> set u" "p \<noteq> backslash"
  shows "skip_quoted (pre @ p # u @ quote # rest) (length pre + 1) = length pre + 1 + length u"
  using assms
proof (induction u arbitrary: pre p)
  case Nil
  then show ?case
    by (subst skip_quoted.simps) (simp add: nth_append)
next
  case (Cons c u)
  have "skip_quoted ((pre @ [p]) @ c # u @ quote # rest) (length (pre @ [p]) + 1) = length (pre @ [p]) + 1 + length u"
    using Cons by (intro Cons.IH) auto
  then show ?case
    using Cons.prems by (subst skip_quoted.simps) (auto simp: nth_append)
qed

lemma next_whitespace_word:
  assumes "plain_word w \<or> quoted_word w"
  shows "next_whitespace (pre @ w @ CHR '' '' # rest) (length pre) = Some (length pre + length w)"
proof (cases "plain_word w")
  case True
  then show ?thesis
    by (intro next_whitespace_plain) (simp add: plain_word_def)
next
  case False
  then obtain u where u: "w = quote # u @ [quote]" "quote \<notin> set u" "backslash \<notin> set u"
    using assms by (auto simp: quoted_word_def)
  let ?s = "pre @ quote # u @ quote # CHR '' '' # rest"
  have skip: "skip_quoted ?s (length pre + 1) = length pre + 1 + length u"
    using u by (intro skip_quoted_to) simp_all
  have close: "?s ! (length pre + 1 + length u) = quote"
    by (simp add: nth_append)
  have "next_whitespace ((pre @ quote # u @ [quote]) @ [] @ CHR '' '' # rest) (length (pre @ quote # u @ [quote])) =
      Some (length (pre @ quote # u @ [quote]) + 0)"
    using next_whitespace_plain [of "[]" "pre @ quote # u @ [quote]" rest] by simp
  then have "next_whitespace ?s (length pre + 1 + length u + 1) = Some (length pre + length w)"
    using u(1) by simp
  moreover have "?s ! length pre = quote" "length pre < length ?s" "\<not> length ?s \<le> length pre + 1 + length u"
    by simp_all
  ultimately have "next_whitespace ?s (length pre) = Some (length pre + length w)"
    using skip close by (subst next_whitespace.simps) (simp add: Let_def del: append_assoc)
  then show ?thesis
    using u(1) by simp
qed

lemma skip_whitespaces_word:
  "\<not> is_whitespace c \<Longrightarrow> skip_whitespaces (pre @ c # rest) (length pre) = int (length pre)"
  "skip_whitespaces (pre @ CHR '' '' # rest) (length pre) = skip_whitespaces (pre @ CHR '' '' # rest) (length pre + 1)"
  "skip_whitespaces pre (length pre) = -1"
  by (subst skip_whitespaces.simps, simp add: nth_append)+

subsection \<open>The tokenizer\<close>

definition number_word :: "string \<Rightarrow> bool" where
  "number_word w \<longleftrightarrow> w \<noteq> [] \<and> (hd w = CHR ''-'' \<or> is_digit (hd w)) \<and>
     (\<forall>c \<in> set (tl w). is_digit c \<or> c = CHR ''.'')"

definition token_text :: "token \<Rightarrow> string" where
  "token_text t = (if token_type t = T_STRING then quote # token_value t else token_value t)"

fun simple_token :: "token \<Rightarrow> bool" where
  "simple_token (Token s T_NUMBER) = number_word s"
| "simple_token (Token s T_STRING) = (\<exists>u. s = u @ [quote] \<and> quote \<notin> set u \<and> backslash \<notin> set u)"
| "simple_token (Token s T_BOOLEAN) = (s = ''true'')"
| "simple_token (Token s COMMA) = (s = '','')"
| "simple_token (Token s COLON) = (s = '':'')"
| "simple_token (Token s BRACKET_OPEN) = (s = ''['')"
| "simple_token (Token s BRACKET_CLOSE) = (s = '']'')"
| "simple_token (Token s CROUSH_OPEN) = (s = ''{'')"
| "simple_token (Token s CROUSH_CLOSE) = (s = ''}'')"
| "simple_token t = False"

lemma scan_string_end: "tmp_k \<le> length str \<Longrightarrow> q \<noteq> backslash \<Longrightarrow> scan_string q str tmp_k = length str"
proof (induction q str tmp_k rule: scan_string.induct)
  case (1 q str tmp_k)
  then show ?case
    by (subst scan_string.simps) auto
qed

lemma scan_number_end:
  "k \<le> length str \<Longrightarrow> \<forall>c \<in> set (drop k str). is_digit c \<or> c = CHR ''.'' \<Longrightarrow> scan_number str k = length str"
proof (induction str k rule: scan_number.induct)
  case (1 str k)
  show ?case
  proof (cases "k < length str")
    case True
    then have "drop k str = str ! k # drop (k + 1) str"
      by (simp add: Cons_nth_drop_Suc)
    then have "is_digit (str ! k) \<or> str ! k = CHR ''.''" "\<forall>c \<in> set (drop (k + 1) str). is_digit c \<or> c = CHR ''.''"
      using "1.prems"(2) by auto
    then show ?thesis
      using "1.IH" True by (subst scan_number.simps) auto
  next
    case False
    then show ?thesis
      using "1.prems"(1) by (subst scan_number.simps) simp
  qed
qed

lemma digit_not_special:
  assumes "is_digit c \<or> c = CHR ''-'' \<or> c = CHR ''.''"
  shows "\<not> is_whitespace c" "c \<notin> {quote, apostrophe, CHR '','', CHR ''t'', CHR ''f'', CHR ''n'', CHR ''{'', CHR ''}'',
     CHR ''['', CHR '']'', CHR '':'', CHR 0x00}"
  using assms by (auto simp: is_digit_def is_whitespace_def)

lemma token_at_number:
  assumes "number_word w"
  shows "token_at w 0 = (Token w T_NUMBER, length w)"
proof -
  obtain c cs where w: "w = c # cs" and c: "c = CHR ''-'' \<or> is_digit c"
      and cs: "\<forall>d \<in> set cs. is_digit d \<or> d = CHR ''.''"
    using assms by (cases w) (auto simp: number_word_def)
  have "c \<notin> {quote, apostrophe, CHR '','', CHR ''t'', CHR ''f'', CHR ''n'', CHR ''{'', CHR ''}'',
     CHR ''['', CHR '']'', CHR '':'', CHR 0x00}"
    using c by (intro digit_not_special(2)) auto
  moreover have "scan_number w (if c = CHR ''-'' then 0 + 1 else 0) = length w"
    using c cs w by (intro scan_number_end) auto
  ultimately show ?thesis
    using c w by (simp add: token_at_def substr_def)
qed

lemma tokenize_word_single:
  assumes "token_at w 0 = (t, n)" "length w \<le> n" "w \<noteq> []"
  shows "tokenize_word w 0 ts = Some (ts @ [t])"
  using assms by (subst tokenize_word.simps) (simp add: tokenize_word.simps [of w n])

lemma token_at_simple:
  assumes "simple_token t"
  shows "\<exists>n \<ge> length (token_text t). token_at (token_text t) 0 = (t, n)"
    and "plain_word (token_text t) \<or> quoted_word (token_text t)"
proof -
  have "(\<exists>n \<ge> length (token_text t). token_at (token_text t) 0 = (t, n)) \<and>
      (plain_word (token_text t) \<or> quoted_word (token_text t))"
    using assms
  proof (cases t rule: simple_token.cases)
    case (1 s)
    then have "number_word s" using assms by simp
    moreover from this have "\<forall>c \<in> set s. is_digit c \<or> c = CHR ''-'' \<or> c = CHR ''.''" "s \<noteq> []"
      by (cases s; auto simp: number_word_def)+
    then have "plain_word s"
      using digit_not_special by (fastforce simp: plain_word_def)
    ultimately show ?thesis
      using 1 by (simp add: token_text_def token_at_number)
  next
    case (2 s)
    then have "quoted_word (token_text t)"
      using assms by (auto simp: token_text_def quoted_word_def)
    moreover have "token_at (token_text t) 0 = (t, length (token_text t) + 1)"
      using 2 scan_string_end [of 1 "quote # s" quote] by (simp add: token_text_def token_at_def substr_def Let_def)
    ultimately show ?thesis
      by auto
  qed (auto simp: token_text_def token_at_def plain_word_def is_whitespace_def substr_def)
  then show "\<exists>n \<ge> length (token_text t). token_at (token_text t) 0 = (t, n)"
    and "plain_word (token_text t) \<or> quoted_word (token_text t)" by auto
qed

definition spaced :: "token list \<Rightarrow> string" where
  "spaced ts = concat (map (\<lambda>t. token_text t @ '' '') ts)"

lemma tokenize_loop_spaced:
  assumes "\<forall>t \<in> set ts. simple_token t"
  shows "tokenize_loop (pre @ spaced ts @ ''  '') (skip_whitespaces (pre @ spaced ts @ ''  '') (length pre)) acc =
     Some (acc @ ts)"
  using assms
proof (induction ts arbitrary: pre acc)
  case Nil
  have "skip_whitespaces (pre @ ''  '') (length pre) = -1"
    using skip_whitespaces_word(2) [of pre "'' ''"] skip_whitespaces_word(2) [of "pre @ '' ''" "[]"]
      skip_whitespaces_word(3) [of "pre @ ''  ''"] by simp
  then show ?case
    by (subst tokenize_loop.simps) (simp add: spaced_def)
next
  case (Cons t ts)
  let ?w = "token_text t"
  let ?tail = "spaced ts @ ''  ''"
  let ?s = "pre @ ?w @ CHR '' '' # ?tail"
  have t: "simple_token t" using Cons.prems by simp
  note word = token_at_simple [OF t]
  obtain c cs where c: "?w = c # cs" "\<not> is_whitespace c"
    using word(2) by (cases ?w) (auto simp: plain_word_def quoted_word_def)
  have start: "skip_whitespaces ?s (length pre) = int (length pre)"
    using skip_whitespaces_word(1) [OF c(2), of pre] c(1) by simp
  have next_ws: "next_whitespace ?s (length pre) = Some (length pre + length ?w)"
    by (rule next_whitespace_word [OF word(2)])
  have cut: "substr ?s (length pre) (length pre + length ?w - length pre) = ?w"
    by (simp add: substr_def)
  have tok: "tokenize_word ?w 0 acc = Some (acc @ [t])"
    using word(1) tokenize_word_single [of ?w t] c(1) by auto
  have "skip_whitespaces ?s (length pre + length ?w) = skip_whitespaces ?s (length (pre @ ?w @ '' ''))"
    using skip_whitespaces_word(2) [of "pre @ ?w" ?tail] by simp
  then have "tokenize_loop ?s (int (length pre)) acc =
      tokenize_loop ?s (skip_whitespaces ?s (length (pre @ ?w @ '' ''))) (acc @ [t])"
    using next_ws cut tok by (subst tokenize_loop.simps) simp
  also have "\<dots> = Some ((acc @ [t]) @ ts)"
    using Cons.IH [of "pre @ ?w @ '' ''" "acc @ [t]"] Cons.prems by simp
  finally show ?case
    using start by (simp add: spaced_def)
qed

lemma tokenize_spaced: "\<forall>t \<in> set ts. simple_token t \<Longrightarrow> tokenize (spaced ts) = Some ts"
  using tokenize_loop_spaced [of ts "[]" "[]"] by (simp add: tokenize_def Let_def)

end
