(* ===== verification/Json_Props.thy ===== *)
theory Json_Props
  imports Json_Correct
begin

text \<open>
  The properties of the JSON reader: the parser on token sequences, the lookup in objects, the whole way
  from text to value for texts with spaced tokens, the escapes, and the inputs that are read wrongly
  or never answered.
\<close>

fun json_text :: "json \<Rightarrow> string"
  and elements_text :: "json list \<Rightarrow> string"
  and members_text :: "(string \<times> json) list \<Rightarrow> string" where
  "json_text (JNumber s) = s @ '' ''"
| "json_text (JString s) = [quote] @ s @ [quote] @ '' ''"
| "json_text (JBoolean s) = s @ '' ''"
| "json_text (JArray js) = ''[ '' @ elements_text js @ ''] ''"
| "json_text (JObject kvs) = ''{ '' @ members_text kvs @ ''} ''"
| "elements_text [] = []"
| "elements_text (j # js) = json_text j @ (if js = [] then [] else '', '') @ elements_text js"
| "members_text [] = []"
| "members_text ((k, j) # kvs) =
     [quote] @ k @ [quote] @ '' '' @ '': '' @ json_text j @ (if kvs = [] then [] else '', '') @ members_text kvs"

fun keep_quote :: "json \<Rightarrow> json"
  and keep_quotes :: "json list \<Rightarrow> json list"
  and keep_quote_members :: "(string \<times> json) list \<Rightarrow> (string \<times> json) list" where
  "keep_quote (JNumber s) = JNumber s"
| "keep_quote (JString s) = JString (s @ [quote])"
| "keep_quote (JBoolean s) = JBoolean s"
| "keep_quote (JArray js) = JArray (keep_quotes js)"
| "keep_quote (JObject kvs) = JObject (keep_quote_members kvs)"
| "keep_quotes [] = []"
| "keep_quotes (j # js) = keep_quote j # keep_quotes js"
| "keep_quote_members [] = []"
| "keep_quote_members ((k, j) # kvs) = (k @ [quote], keep_quote j) # keep_quote_members kvs"

definition plain_string :: "string \<Rightarrow> bool" where
  "plain_string s \<longleftrightarrow> quote \<notin> set s \<and> backslash \<notin> set s \<and> CHR 0x00 \<notin> set s"

fun printable :: "json \<Rightarrow> bool"
  and printable_elements :: "json list \<Rightarrow> bool"
  and printable_members :: "(string \<times> json) list \<Rightarrow> bool" where
  "printable (JNumber s) = number_word s"
| "printable (JString s) = plain_string s"
| "printable (JBoolean s) = (s = ''true'')"
| "printable (JArray js) = printable_elements js"
| "printable (JObject kvs) = printable_members kvs"
| "printable_elements [] = True"
| "printable_elements (j # js) = (printable j \<and> printable_elements js)"
| "printable_members [] = True"
| "printable_members ((k, j) # kvs) = (plain_string k \<and> printable j \<and> printable_members kvs)"

lemma spaced_simps [simp]:
  "spaced [] = []" "spaced (t # ts) = token_text t @ '' '' @ spaced ts" "spaced (ts @ us) = spaced ts @ spaced us"
  by (simp_all add: spaced_def)

lemma keep_empty [simp]: "keep_quotes js = [] \<longleftrightarrow> js = []" "keep_quote_members kvs = [] \<longleftrightarrow> kvs = []"
  by (cases js; simp) (cases kvs; auto)

lemma json_text_spaced:
  "json_text j = spaced (tokens_of (keep_quote j))"
  "elements_text js = spaced (elements_tokens (keep_quotes js))"
  "members_text kvs = spaced (members_tokens (keep_quote_members kvs))"
  by (induction j and js and kvs rule: json_text_elements_text_members_text.induct)
    (simp_all add: token_text_def)

lemma printable_simple:
  "printable j \<Longrightarrow> \<forall>t \<in> set (tokens_of (keep_quote j)). simple_token t"
  "printable_elements js \<Longrightarrow> \<forall>t \<in> set (elements_tokens (keep_quotes js)). simple_token t"
  "printable_members kvs \<Longrightarrow> \<forall>t \<in> set (members_tokens (keep_quote_members kvs)). simple_token t"
  by (induction j and js and kvs rule: json_text_elements_text_members_text.induct)
    (auto simp: plain_string_def)

lemma number_word_no_nul: "number_word s \<Longrightarrow> CHR 0x00 \<notin> set s"
  using digit_not_special(2) [of "CHR 0x00"] by (cases s) (auto simp: number_word_def)

lemma printable_no_nul:
  "printable j \<Longrightarrow> CHR 0x00 \<notin> set (json_text j)"
  "printable_elements js \<Longrightarrow> CHR 0x00 \<notin> set (elements_text js)"
  "printable_members kvs \<Longrightarrow> CHR 0x00 \<notin> set (members_text kvs)"
  by (induction j and js and kvs rule: json_text_elements_text_members_text.induct)
    (auto simp: plain_string_def number_word_no_nul)

lemma c_str_no_nul: "CHR 0x00 \<notin> set s \<Longrightarrow> c_str s = s"
  unfolding c_str_def by (rule takeWhile_eq_all_conv [THEN iffD2]) auto

subsection \<open>Properties\<close>

text \<open>
  the parser inverts the token sequence of every document, however deep, wherever it stands in the token
  vector: \<open>json_parse\<close> returns the value object of the document and the index behind its last token.
\<close>
theorem json_parse_inverts_tokens:
  "json_parse (pre @ tokens_of j @ post) (length pre) r = Some (value_of j, length pre + length (tokens_of j))"
  unfolding json_parse_def by (rule parsesD [OF parses_all])

text \<open>
  C24: from text to value. For every document whose strings and keys contain no quotation marks,
  backslashes and NUL characters, whose numbers are an optional sign or digit followed by digits and points, and whose
  only literal is \<open>true\<close> (the tokenizer turns \<open>false\<close> into \<open>true\<close> and an unknown token, and \<open>null\<close> into \<open>true\<close>, see
  \<open>json_array_diverges\<close>), \<open>parse\<close> of its text with a space
  behind every token returns the value of the document, except that every string and key
  ends with the closing quotation mark of the text.
\<close>
theorem json_parse_text:
  assumes "printable j"
  shows "parse (json_text j) = Some (value_of (keep_quote j))"
proof -
  have "tokenize (c_str (json_text j)) = Some (tokens_of (keep_quote j))"
    using tokenize_spaced [OF printable_simple(1) [OF assms]] json_text_spaced(1)
      c_str_no_nul [OF printable_no_nul(1) [OF assms]] by simp
  moreover have "json_parse (tokens_of (keep_quote j)) 0 0 =
      Some (value_of (keep_quote j), length (tokens_of (keep_quote j)))"
    using parsesD [OF parses_all, of "[]" "keep_quote j" "[]" 0] by (simp add: json_parse_def)
  ultimately show ?thesis
    by (simp add: parse_def)
qed

theorem json_parse_text_witness:
  "parse ([quote] @ ''ab c'' @ [quote] @ '' '') = Some (value_of (JString (''ab c'' @ [quote]))) \<and>
   parse ''[ 1 , -2.5 ] '' = Some (value_of (JArray [JNumber ''1'', JNumber ''-2.5'']))"
  using json_parse_text [of "JString ''ab c''"] json_parse_text [of "JArray [JNumber ''1'', JNumber ''-2.5'']"]
  by (simp add: plain_string_def number_word_def is_digit_def)

text \<open>
  in the value of an object whose keys contain no null character, looking up a key gives the value of the last
  member with that key and an empty value for a key that does not occur; the elements of an array are
  found by their index, and an index outside the array is undefined.
\<close>
theorem json_lookup_correct:
  assumes "\<forall>k \<in> fst ` set kvs. CHR 0x00 \<notin> set k" "CHR 0x00 \<notin> set key"
  shows "value_at_key (value_of (JObject kvs)) key =
       Some (case map_of (rev kvs) key of None \<Rightarrow> value_ctor | Some j \<Rightarrow> value_of j) \<and>
     value_at (value_of (JArray js)) i = (if i < length js then Some (value_of (js ! i)) else None) \<and>
     value_size (value_of (JObject kvs)) = length kvs \<and> value_size (value_of (JArray js)) = length js"
proof -
  let ?o = "value_of (JObject kvs)"
  have props: "t_properties ?o = map (\<lambda>(k, j). (k, value_of j)) kvs"
    by (simp add: add_members_fields)
  have "map (c_str \<circ> fst) (t_properties ?o) = map fst kvs"
    using assms(1) unfolding props by (auto simp: c_str_no_nul)
  moreover have "mapindex_ok ?o"
    unfolding value_of.simps
    by (rule mapindex_ok_members) (simp add: mapindex_ok_def last_index_def fun_eq_iff)
  ultimately have idx: "map_of (t_mapindex ?o) (c_str key) = last_index key (map fst kvs)"
    using c_str_no_nul [OF assms(2)] by (simp add: mapindex_ok_def)
  have "value_at_key ?o key = Some (case map_of (rev kvs) key of None \<Rightarrow> value_ctor | Some j \<Rightarrow> value_of j)"
  proof (cases "last_index key (map fst kvs)")
    case None
    then show ?thesis
      using last_index_nth [where k = key and kvs = kvs] idx by (simp add: value_at_key_def)
  next
    case (Some i)
    then have "i < length kvs"
      using last_index_bound by fastforce
    then show ?thesis
      using Some last_index_nth [where k = key and kvs = kvs] idx
      by (cases "kvs ! i") (simp add: value_at_key_def props del: value_of.simps)
  qed
  then show ?thesis
    by (auto simp: value_at_def value_size_def add_elements_fields add_members_fields)
qed

theorem json_lookup_correct_witness:
  "value_at_key (value_of (JObject [(''a'', JNumber ''1''), (''a'', JNumber ''2'')])) ''a'' =
     Some (value_of (JNumber ''2'')) \<and> value_at (value_of (JArray [])) 0 = None"
  using json_lookup_correct [of "[(''a'', JNumber ''1''), (''a'', JNumber ''2'')]" "''a''" "[]" 0]
  by (simp del: value_of.simps)

definition no_value :: "token list \<Rightarrow> nat \<Rightarrow> bool" where
  "no_value v k \<longleftrightarrow> type_at v k \<in> {Some T_UNKNOWN, Some COLON, Some CROUSH_CLOSE}"

lemma json_run_no_value:
  assumes "json_run v m = Some y"
  shows "case m of Parse i r \<Rightarrow> no_value v i \<longrightarrow> snd y = r | Members acc k \<Rightarrow> True | Elements acc k \<Rightarrow> \<not> no_value v k"
proof (rule json_run.raw_induct [OF _ assms], goal_cases)
  case (1 f v m y)
  show ?case
  proof (cases m)
    case (Parse i r)
    then show ?thesis
      using 1(2) by (auto simp: no_value_def split: if_splits)
  next
    case (Elements acc k)
    have "\<not> no_value v k"
    proof
      assume bad: "no_value v k"
      then obtain vv k' where vv: "f v (Parse k k) = Some vv" "skip_comma v (snd vv) = Some k'"
          "f v (Elements (add_element (fst vv) acc) k') = Some y"
        using 1(2) Elements by (auto simp: no_value_def split: if_splits)
      have "snd vv = k"
        using 1(1) [OF vv(1)] bad by simp
      then have "k' = k"
        using vv(2) bad by (auto simp: skip_comma_def no_value_def)
      then show False
        using 1(1) [OF vv(3)] bad by simp
    qed
    then show ?thesis
      using Elements by simp
  qed simp
qed

lemma tokenize_false_array:
  "tokenize ''[false]'' = Some [Token ''['' BRACKET_OPEN, Token ''true'' T_BOOLEAN, Token ''e]'' T_UNKNOWN]"
  by code_simp

text \<open>
  An array never ends at a token that begins no value: from such a token on the loop over the elements appends
  empty values for ever. In particular the text \<open>[false]\<close> is never answered, since the word
  \<open>false\<close> becomes the literal \<open>true\<close> and an unknown token.
\<close>
theorem json_array_diverges:
  assumes "type_at v k \<in> {Some T_UNKNOWN, Some COLON, Some CROUSH_CLOSE}"
  shows "json_run v (Elements acc k) = None \<and> parse ''[false]'' = None"
proof -
  have diverge: "json_run w (Elements a i) = None" if "no_value w i" for w a i
    using json_run_no_value [of w "Elements a i"] that by (cases "json_run w (Elements a i)") auto
  let ?w = "[Token ''['' BRACKET_OPEN, Token ''true'' T_BOOLEAN, Token ''e]'' T_UNKNOWN]"
  have last: "json_run ?w (Elements a 2) = None" for a
    by (rule diverge) (simp add: no_value_def type_at_def)
  have elem: "json_run ?w (Parse 1 1) = Some (set_string ''true'' (set_type BOOLEAN value_ctor), 2)"
    by (subst json_run.simps) (simp add: type_at_def)
  have "json_run ?w (Elements a 1) = None" for a
    using elem last by (subst json_run.simps) (simp add: type_at_def skip_comma_def)
  then have "json_run ?w (Parse 0 0) = None"
    by (subst json_run.simps) (simp add: type_at_def)
  moreover have "c_str ''[false]'' = ''[false]''"
    by (rule c_str_no_nul) simp
  ultimately have "parse ''[false]'' = None"
    by (simp add: parse_def json_parse_def tokenize_false_array)
  then show ?thesis
    using diverge [of v k acc] assms by (simp add: no_value_def)
qed

theorem json_array_diverges_witness:
  "json_run [Token ''['' BRACKET_OPEN, Token ''x'' T_UNKNOWN] (Elements value_ctor 1) = None \<and> parse ''[false]'' = None"
  by (rule json_array_diverges) (simp add: type_at_def)

definition escape :: "char \<Rightarrow> string" where
  "escape c =
     (if c = quote then [backslash, quote]
      else if c = backslash then [backslash, backslash]
      else if c = CHR 0x08 then [backslash, CHR ''b'']
      else if c = CHR 0x0C then [backslash, CHR ''f'']
      else if c = CHR 0x0A then [backslash, CHR ''n'']
      else if c = CHR 0x0D then [backslash, CHR ''r'']
      else if c = CHR 0x09 then [backslash, CHR ''t'']
      else [c])"

lemma deserialize_plain: "c \<noteq> backslash \<Longrightarrow> deserialize (c # cs) = c # deserialize cs"
  by (cases cs) simp_all

lemma deserialize_escape: "deserialize (escape c @ cs) = c # deserialize cs"
  by (auto simp: escape_def deserialize_plain)

text \<open>
  \<open>deserialize\<close> inverts the standard escapes: for every text, escaping quotation marks, backslashes
  and the five named control characters and reading the result with \<open>as_string\<close> gives the text back.
\<close>
theorem deserialize_inverts_escape:
  "as_string (set_string (concat (map escape s)) v) = s"
proof -
  have "deserialize (concat (map escape s)) = s"
    by (induction s) (simp_all add: deserialize_escape)
  then show ?thesis
    by (simp add: as_string_def set_string_def)
qed

text \<open>
  Printing an object does not return. \<open>to_string\<close> asks for the indentation of level zero behind the last
  member, and \<open>makesp\<close> counts from there through the negative numbers.
\<close>
theorem json_print_object_diverges:
  assumes "t_type v = OBJECT"
  shows "json_to_string v = None"
  using assms by (cases v) (simp add: json_to_string_def makesp_def bind_None_iff)

theorem json_print_object_diverges_witness:
  "json_to_string (value_of (JObject [(''a'', JNumber ''1'')])) = None"
  by (rule json_print_object_diverges) (simp add: add_property_def)

end
