(* ===== verification/Binary_Tree.thy ===== *)
theory Binary_Tree
  imports Prelude
begin

text \<open>
  The search tree of \<open>yandex_tasks/trees/avl.cpp\<close>, which decides whether the tree built from the input is
  balanced in the sense of Adelson-Velsky and Landis. The nodes form a tree that nothing else points
  into, so a pointer to a node is the tree below it; \<open>None\<close> is the use of a null pointer and, in
  \<open>main\<close>, of the uninitialised variable that a failed read leaves.
\<close>

datatype tree_node = nullptr | TreeNode (tn_left: tree_node) (tn_value: int) (tn_right: tree_node)

record BinaryTree =
  m_root :: tree_node

definition BinaryTree_ctor :: BinaryTree where
  "BinaryTree_ctor = \<lparr>m_root = nullptr\<rparr>"

fun insert_leaf :: "int \<Rightarrow> tree_node \<Rightarrow> tree_node option" where
  "insert_leaf key nullptr = None"
| "insert_leaf key (TreeNode l v r) =
     (if key = v then Some (TreeNode l v r)
      else if key < v
      then if l \<noteq> nullptr then do { l \<leftarrow> insert_leaf key l; Some (TreeNode l v r) }
           else Some (TreeNode (TreeNode nullptr key nullptr) v r)
      else if key \<ge> v
      then if r \<noteq> nullptr then do { r \<leftarrow> insert_leaf key r; Some (TreeNode l v r) }
           else Some (TreeNode l v (TreeNode nullptr key nullptr))
      else Some (TreeNode l v r))"

definition tree_insert :: "int \<Rightarrow> BinaryTree \<Rightarrow> BinaryTree option" where
  "tree_insert key t =
     (if m_root t \<noteq> nullptr then do { r \<leftarrow> insert_leaf key (m_root t); Some (t\<lparr>m_root := r\<rparr>) }
      else Some (t\<lparr>m_root := TreeNode nullptr key nullptr\<rparr>))"

fun max_depth :: "tree_node \<Rightarrow> int" where
  "max_depth nullptr = 0"
| "max_depth (TreeNode l v r) =
     (let l_depth = max_depth l; r_depth = max_depth r
      in if l_depth > r_depth then l_depth + 1 else r_depth + 1)"

fun check_if_avl_leaf :: "tree_node \<Rightarrow> bool" where
  "check_if_avl_leaf nullptr = True"
| "check_if_avl_leaf (TreeNode l v r) =
     (let left = max_depth l; right = max_depth r
      in if \<bar>left - right\<bar> \<le> 1 \<and> check_if_avl_leaf l \<and> check_if_avl_leaf r then True else False)"

definition check_if_avl :: "BinaryTree \<Rightarrow> bool" where
  "check_if_avl t = check_if_avl_leaf (m_root t)"

text \<open>The lines \<open>print_in_order\<close> writes: the nodes with exactly one child.\<close>

fun print_in_order :: "tree_node \<Rightarrow> int list" where
  "print_in_order nullptr = []"
| "print_in_order (TreeNode l v r) =
     print_in_order l @
     (if (l = nullptr \<and> r \<noteq> nullptr) \<or> (l \<noteq> nullptr \<and> r = nullptr) then [v] else []) @
     print_in_order r"

definition print_in_ascending_order :: "BinaryTree \<Rightarrow> int list" where
  "print_in_ascending_order t = print_in_order (m_root t)"

fun read_loop :: "int list \<Rightarrow> BinaryTree \<Rightarrow> BinaryTree option" where
  "read_loop [] t = None"
| "read_loop (entered # input) t =
     (if entered = 0 then Some t else Option.bind (tree_insert entered t) (read_loop input))"

definition avl_main :: "int list \<Rightarrow> string option" where
  "avl_main input =
     do { t \<leftarrow> read_loop input BinaryTree_ctor;
          Some (if check_if_avl t then ''YES'' else ''NO'') }"

subsection \<open>Search trees\<close>

fun keys :: "tree_node \<Rightarrow> int set" where
  "keys nullptr = {}"
| "keys (TreeNode l v r) = insert v (keys l \<union> keys r)"

fun search_tree :: "tree_node \<Rightarrow> bool" where
  "search_tree nullptr = True"
| "search_tree (TreeNode l v r) \<longleftrightarrow>
     search_tree l \<and> search_tree r \<and> (\<forall>x \<in> keys l. x < v) \<and> (\<forall>x \<in> keys r. v < x)"

fun in_order :: "tree_node \<Rightarrow> int list" where
  "in_order nullptr = []"
| "in_order (TreeNode l v r) = in_order l @ v # in_order r"

fun height :: "tree_node \<Rightarrow> nat" where
  "height nullptr = 0"
| "height (TreeNode l v r) = Suc (max (height l) (height r))"

text \<open>Balance, stated of every node of the tree.\<close>

fun subtrees :: "tree_node \<Rightarrow> tree_node set" where
  "subtrees nullptr = {nullptr}"
| "subtrees (TreeNode l v r) = insert (TreeNode l v r) (subtrees l \<union> subtrees r)"

definition balanced_node :: "tree_node \<Rightarrow> bool" where
  "balanced_node t \<longleftrightarrow> t = nullptr \<or>
     height (tn_left t) \<le> height (tn_right t) + 1 \<and> height (tn_right t) \<le> height (tn_left t) + 1"

lemma insert_leaf_ok:
  assumes "t \<noteq> nullptr" "search_tree t"
  shows "\<exists>t'. insert_leaf key t = Some t' \<and> t' \<noteq> nullptr \<and> search_tree t' \<and> keys t' = insert key (keys t)"
  using assms
proof (induction key t rule: insert_leaf.induct)
  case (2 key l v r)
  consider "key = v" | "key < v" "l = nullptr" | "key < v" "l \<noteq> nullptr"
    | "v < key" "r = nullptr" | "v < key" "r \<noteq> nullptr"
    by linarith
  then show ?case
    using 2 by cases (fastforce simp: insert_absorb insert_commute)+
qed simp

lemma max_depth_height: "max_depth t = int (height t)"
  by (induction t) (auto simp: Let_def)

lemma self_subtree: "t \<in> subtrees t"
  by (cases t) simp_all

lemma check_if_avl_balanced: "check_if_avl_leaf t \<longleftrightarrow> (\<forall>s \<in> subtrees t. balanced_node s)"
proof (induction t)
  case (TreeNode l v r)
  have "\<bar>max_depth l - max_depth r\<bar> \<le> 1 \<longleftrightarrow> balanced_node (TreeNode l v r)"
    by (auto simp: balanced_node_def max_depth_height)
  then show ?case
    using TreeNode by (auto simp: Let_def)
qed (simp add: balanced_node_def)

lemma finite_keys: "finite (keys t)"
  by (induction t) simp_all

lemma card_keys:
  assumes "search_tree (TreeNode l v r)"
  shows "card (keys (TreeNode l v r)) = card (keys l) + card (keys r) + 1"
proof -
  have "v \<notin> keys l \<union> keys r" "keys l \<inter> keys r = {}"
    using assms by force+
  then show ?thesis
    by (simp add: finite_keys card_Un_disjoint)
qed

lemma avl_large:
  assumes "search_tree t" "check_if_avl_leaf t"
  shows "2 ^ (height t div 2) \<le> card (keys t) + 1"
  using assms
proof (induction t)
  case (TreeNode l v r)
  have IH: "2 ^ (height l div 2) \<le> card (keys l) + 1" "2 ^ (height r div 2) \<le> card (keys r) + 1"
    using TreeNode by (simp_all add: Let_def split: if_splits)
  have h: "height (TreeNode l v r) \<le> height l + 2" "height (TreeNode l v r) \<le> height r + 2"
    using TreeNode.prems(2) by (auto simp: Let_def max_depth_height split: if_splits)
  define n where "n = height (TreeNode l v r) div 2"
  show ?case
  proof (cases n)
    case (Suc k)
    have "k \<le> height l div 2" "k \<le> height r div 2"
      using h Suc unfolding n_def by linarith+
    then have "2 ^ k \<le> (2 ^ (height l div 2) :: nat)" "2 ^ k \<le> (2 ^ (height r div 2) :: nat)"
      by (simp_all add: power_increasing)
    then have "2 ^ k \<le> card (keys l) + 1" "2 ^ k \<le> card (keys r) + 1"
      using IH by linarith+
    then have "2 ^ n \<le> card (keys l) + 1 + (card (keys r) + 1)"
      using Suc by simp
    then show ?thesis
      using card_keys [OF TreeNode.prems(1)] n_def by simp
  next
    case 0
    then show ?thesis
      using n_def by simp
  qed
qed simp

lemma set_in_order: "set (in_order t) = keys t"
  by (induction t) auto

lemma sorted_in_order: "search_tree t \<Longrightarrow> sorted (in_order t) \<and> distinct (in_order t)"
proof (induction t)
  case (TreeNode l v r)
  have "x < y" if "x \<in> keys l" "y \<in> keys r" for x y
    using TreeNode.prems that by (force intro: less_trans)
  then show ?case
    using TreeNode by (fastforce simp: sorted_append set_in_order intro: less_imp_le)
qed simp

lemma in_order_unique: "search_tree t \<Longrightarrow> in_order t = sorted_list_of_set (keys t)"
  using sorted_in_order [of t] set_in_order [of t]
  by (metis sorted_list_of_set.idem_if_sorted_distinct)

lemma tree_insert_ok:
  assumes "search_tree (m_root t)"
  shows "\<exists>t'. tree_insert key t = Some t' \<and> search_tree (m_root t') \<and> keys (m_root t') = insert key (keys (m_root t))"
  using insert_leaf_ok [of "m_root t" key] assms by (auto simp: tree_insert_def)

lemma read_loop_ok:
  assumes "search_tree (m_root t)" "0 \<notin> set xs"
  shows "\<exists>t'. read_loop (xs @ 0 # ys) t = Some t' \<and> search_tree (m_root t') \<and> keys (m_root t') = keys (m_root t) \<union> set xs"
  using assms
proof (induction xs arbitrary: t)
  case (Cons x xs)
  obtain t1 where "tree_insert x t = Some t1" "search_tree (m_root t1)" "keys (m_root t1) = insert x (keys (m_root t))"
    using tree_insert_ok [OF Cons.prems(1)] by blast
  then show ?case
    using Cons.IH [of t1] Cons.prems by auto
qed simp

subsection \<open>Properties\<close>

text \<open>
  reading any numbers up to the terminating zero builds a search tree whose nodes, from left to
  right, are the different numbers of the input in increasing order.
\<close>
theorem tree_sorts_input:
  assumes "0 \<notin> set xs"
  shows "\<exists>t. read_loop (xs @ 0 # ys) BinaryTree_ctor = Some t \<and> search_tree (m_root t) \<and>
     in_order (m_root t) = sorted_list_of_set (set xs)"
  using read_loop_ok [of BinaryTree_ctor xs ys] assms in_order_unique by (auto simp: BinaryTree_ctor_def)

theorem tree_sorts_input_witness:
  "\<exists>t. read_loop [7, 3, 2, 3, 9, 0] BinaryTree_ctor = Some t \<and> search_tree (m_root t) \<and>
     in_order (m_root t) = sorted_list_of_set {2, 3, 7, 9}"
  using tree_sorts_input [of "[7, 3, 2, 3, 9]" "[]"] by (simp add: insert_commute)

text \<open>
  The program answers YES exactly when the heights of the two subtrees of every node differ by at most
  one, and in that case the height of a tree with \<open>n\<close> different numbers is logarithmic:
  \<open>2 ^ (height div 2) \<le> n + 1\<close>.
\<close>
theorem avl_main_decides_balance:
  assumes "0 \<notin> set xs"
  shows "\<exists>t. read_loop (xs @ 0 # ys) BinaryTree_ctor = Some t \<and>
     (avl_main (xs @ 0 # ys) = Some ''YES'' \<longleftrightarrow> (\<forall>s \<in> subtrees (m_root t). balanced_node s)) \<and>
     (avl_main (xs @ 0 # ys) = Some ''NO'' \<longleftrightarrow> (\<exists>s \<in> subtrees (m_root t). \<not> balanced_node s)) \<and>
     (avl_main (xs @ 0 # ys) = Some ''YES'' \<longrightarrow> 2 ^ (height (m_root t) div 2) \<le> card (set xs) + 1)"
proof -
  obtain t where t: "read_loop (xs @ 0 # ys) BinaryTree_ctor = Some t" "search_tree (m_root t)" "keys (m_root t) = set xs"
    using read_loop_ok [of BinaryTree_ctor xs ys] assms by (auto simp: BinaryTree_ctor_def)
  then have "avl_main (xs @ 0 # ys) = Some (if check_if_avl_leaf (m_root t) then ''YES'' else ''NO'')"
    by (simp add: avl_main_def check_if_avl_def)
  then show ?thesis
    using t check_if_avl_balanced [of "m_root t"] avl_large [of "m_root t"] by auto
qed

theorem avl_main_decides_balance_witness:
  "\<exists>t. read_loop [1, 2, 3, 0] BinaryTree_ctor = Some t \<and>
     (avl_main [1, 2, 3, 0] = Some ''NO'' \<longleftrightarrow> (\<exists>s \<in> subtrees (m_root t). \<not> balanced_node s)) \<and>
     avl_main [1, 2, 3, 0] = Some ''NO'' \<and> avl_main [2, 1, 3, 0] = Some ''YES''"
proof -
  have "avl_main [1, 2, 3, 0] = Some ''NO''" "avl_main [2, 1, 3, 0] = Some ''YES''"
    by code_simp+
  then show ?thesis
    using avl_main_decides_balance [of "[1, 2, 3]" "[]"] by auto
qed

end
