(* ===== verification/Max_Subarray.thy ===== *)
theory Max_Subarray
  imports Prelude
begin

text \<open>
  The divide and conquer search for the subarray with the greatest sum, of
  \<open>2022-02-22-maximum-subarray/main.cpp\<close>. A sum outside the range of \<open>int\<close> is undefined (\<open>None\<close>), as are an index outside
  the array and the recursion without end on an empty range. The property shows that none of
  this happens on a non-empty array whose segment sums fit, and that the answer is best.
\<close>

record array_info =
  begin_index :: nat
  end_index :: nat
  sum_value :: int

definition array_info_less :: "array_info \<Rightarrow> array_info \<Rightarrow> bool" where
  "array_info_less lhs rhs \<longleftrightarrow> sum_value lhs < sum_value rhs"

definition std_max :: "array_info \<Rightarrow> array_info \<Rightarrow> array_info" where
  "std_max a b = (if array_info_less a b then b else a)"

definition fits :: "int \<Rightarrow> bool" where
  "fits n \<longleftrightarrow> - 2147483648 \<le> n \<and> n \<le> 2147483647"

definition int_add :: "int \<Rightarrow> int \<Rightarrow> int option" where
  "int_add a b = (if fits (a + b) then Some (a + b) else None)"

definition at :: "int list \<Rightarrow> nat \<Rightarrow> int option" where
  "at a i = (if i < length a then Some (a ! i) else None)"

text \<open>The two loops of \<open>max_crossing_subarray\<close>; the result is the best sum and its bound.\<close>

fun left_scan :: "int list \<Rightarrow> nat \<Rightarrow> nat \<Rightarrow> nat \<Rightarrow> int \<Rightarrow> int \<Rightarrow> nat \<Rightarrow> (int \<times> nat) option" where
  "left_scan a low mid 0 running lsum lmax = Some (lsum, lmax)"
| "left_scan a low mid (Suc i) running lsum lmax =
     (if Suc i > low
      then do { x \<leftarrow> at a i;
                running \<leftarrow> int_add running x;
                if i = mid - 1 \<or> running > lsum then left_scan a low mid i running running i
                else left_scan a low mid i running lsum lmax }
      else Some (lsum, lmax))"

function right_scan :: "int list \<Rightarrow> nat \<Rightarrow> nat \<Rightarrow> nat \<Rightarrow> int \<Rightarrow> int \<Rightarrow> nat \<Rightarrow> (int \<times> nat) option" where
  "right_scan a mid high i running rsum rmax =
     (if i < high
      then do { x \<leftarrow> at a i;
                running \<leftarrow> int_add running x;
                if i = mid \<or> running > rsum then right_scan a mid high (i + 1) running running (i + 1)
                else right_scan a mid high (i + 1) running rsum rmax }
      else Some (rsum, rmax))"
  by pat_completeness auto
termination
  by (relation "measure (\<lambda>(a, mid, high, i, _). high - i)") auto

declare right_scan.simps [simp del]

definition max_crossing_subarray :: "int list \<Rightarrow> nat \<Rightarrow> nat \<Rightarrow> nat \<Rightarrow> array_info option" where
  "max_crossing_subarray a low mid high =
     do { (lsum, lmax) \<leftarrow> left_scan a low mid mid 0 0 0;
          (rsum, rmax) \<leftarrow> right_scan a mid high mid 0 0 0;
          s \<leftarrow> int_add lsum rsum;
          Some \<lparr>begin_index = lmax, end_index = rmax, sum_value = s\<rparr> }"

partial_function (option) max_subarray :: "int list \<Rightarrow> nat \<Rightarrow> nat \<Rightarrow> array_info option" where
  "max_subarray a low high =
     (if int low = int high - 1
      then do { x \<leftarrow> at a low; Some \<lparr>begin_index = low, end_index = high, sum_value = x\<rparr> }
      else do { r1 \<leftarrow> max_subarray a low ((low + high) div 2);
                r2 \<leftarrow> max_subarray a ((low + high) div 2) high;
                r3 \<leftarrow> max_crossing_subarray a low ((low + high) div 2) high;
                Some (std_max (std_max r1 r2) r3) })"

declare max_subarray.simps [code]

definition max_subarray_of :: "int list \<Rightarrow> array_info option" where
  "max_subarray_of a = max_subarray a 0 (length a)"

subsection \<open>Segments\<close>

definition seg :: "int list \<Rightarrow> nat \<Rightarrow> nat \<Rightarrow> int" where
  "seg a b e = (\<Sum>i = b..<e. a ! i)"

definition sums_fit :: "int list \<Rightarrow> bool" where
  "sums_fit a \<longleftrightarrow> (\<forall>b e. b \<le> e \<longrightarrow> e \<le> length a \<longrightarrow> fits (seg a b e))"

definition best :: "int list \<Rightarrow> nat \<Rightarrow> nat \<Rightarrow> array_info \<Rightarrow> bool" where
  "best a low high r \<longleftrightarrow>
     low \<le> begin_index r \<and> begin_index r < end_index r \<and> end_index r \<le> high \<and>
     sum_value r = seg a (begin_index r) (end_index r) \<and>
     (\<forall>b e. low \<le> b \<longrightarrow> b < e \<longrightarrow> e \<le> high \<longrightarrow> seg a b e \<le> sum_value r)"

lemma seg_simps:
  "seg a b b = 0" "i < e \<Longrightarrow> seg a i e = a ! i + seg a (Suc i) e" "b \<le> e \<Longrightarrow> seg a b (Suc e) = seg a b e + a ! e"
  by (simp_all add: seg_def sum.atLeast_Suc_lessThan)

lemma seg_split: "b \<le> m \<Longrightarrow> m \<le> e \<Longrightarrow> seg a b e = seg a b m + seg a m e"
  unfolding seg_def by (simp add: sum.atLeastLessThan_concat)

lemma left_scan_ok:
  assumes "sums_fit a" "low < mid" "mid \<le> length a" "low \<le> i" "i \<le> mid" "s = seg a i mid"
    and "i < mid \<longrightarrow> i \<le> lmax \<and> lmax < mid \<and> lsum = seg a lmax mid \<and> (\<forall>j. i \<le> j \<longrightarrow> j < mid \<longrightarrow> seg a j mid \<le> lsum)"
  shows "\<exists>l m. left_scan a low mid i s lsum lmax = Some (l, m) \<and> low \<le> m \<and> m < mid \<and> l = seg a m mid \<and>
      (\<forall>j. low \<le> j \<longrightarrow> j < mid \<longrightarrow> seg a j mid \<le> l)"
  using assms
proof (induction i arbitrary: s lsum lmax)
  case (Suc i)
  show ?case
  proof (cases "Suc i > low")
    case True
    let ?s = "s + a ! i"
    have s: "?s = seg a i mid"
      using Suc.prems seg_simps(2) [of i mid a] by simp
    then have "fits ?s"
      using Suc.prems by (simp add: sums_fit_def)
    then have step: "left_scan a low mid (Suc i) s lsum lmax =
        (if i = mid - 1 \<or> ?s > lsum then left_scan a low mid i ?s ?s i else left_scan a low mid i ?s lsum lmax)"
      using True Suc.prems by (simp add: at_def int_add_def)
    have cover: "j = i \<or> Suc i \<le> j" if "i \<le> j" for j
      using that by auto
    show ?thesis
    proof (cases "i = mid - 1 \<or> ?s > lsum")
      case True
      have "\<forall>j. i \<le> j \<longrightarrow> j < mid \<longrightarrow> seg a j mid \<le> ?s"
      proof (intro allI impI)
        fix j assume j: "i \<le> j" "j < mid"
        show "seg a j mid \<le> ?s"
        proof (cases "j = i")
          case False
          then have "Suc i < mid" "Suc i \<le> j" "i \<noteq> mid - 1"
            using j by auto
          then show ?thesis
            using True Suc.prems(7) j(2) by fastforce
        qed (use s in simp)
      qed
      then show ?thesis
        using Suc.IH [where s = ?s and lsum = ?s and lmax = i] Suc.prems True \<open>Suc i > low\<close> s step by simp
    next
      case False
      then have i: "Suc i < mid"
        using Suc.prems by auto
      then have inv: "Suc i \<le> lmax" "lmax < mid" "lsum = seg a lmax mid" "\<forall>j. Suc i \<le> j \<longrightarrow> j < mid \<longrightarrow> seg a j mid \<le> lsum"
        using Suc.prems(7) by auto
      then have "\<forall>j. i \<le> j \<longrightarrow> j < mid \<longrightarrow> seg a j mid \<le> lsum"
        using False s cover by (metis not_less)
      then show ?thesis
        using Suc.IH [where s = ?s and lsum = lsum and lmax = lmax] Suc.prems(1-3) inv False \<open>Suc i > low\<close> i s step
        by simp
    qed
  qed (use Suc.prems in auto)
qed auto

lemma right_scan_ok:
  assumes "sums_fit a" "mid < high" "high \<le> length a" "mid \<le> i" "i \<le> high" "s = seg a mid i"
    and "mid < i \<longrightarrow> mid < rmax \<and> rmax \<le> i \<and> rsum = seg a mid rmax \<and> (\<forall>j. mid < j \<longrightarrow> j \<le> i \<longrightarrow> seg a mid j \<le> rsum)"
  shows "\<exists>r m. right_scan a mid high i s rsum rmax = Some (r, m) \<and> mid < m \<and> m \<le> high \<and> r = seg a mid m \<and>
      (\<forall>j. mid < j \<longrightarrow> j \<le> high \<longrightarrow> seg a mid j \<le> r)"
  using assms
proof (induction "high - i" arbitrary: i s rsum rmax)
  case 0
  then show ?case
    by (subst right_scan.simps) auto
next
  case (Suc n)
  then have i: "i < high" by simp
  let ?s = "s + a ! i"
  have s: "?s = seg a mid (Suc i)"
    using Suc.prems seg_simps(3) [of mid i a] by simp
  then have "fits ?s"
    using Suc.prems i by (simp add: sums_fit_def)
  then have step: "right_scan a mid high i s rsum rmax =
      (if i = mid \<or> ?s > rsum then right_scan a mid high (Suc i) ?s ?s (Suc i)
       else right_scan a mid high (Suc i) ?s rsum rmax)"
    using i Suc.prems(3) by (subst right_scan.simps) (simp add: at_def int_add_def)
  note IH = Suc.hyps(1) [of "Suc i"]
  show ?case
  proof (cases "i = mid \<or> ?s > rsum")
    case True
    have "\<forall>j. mid < j \<longrightarrow> j \<le> Suc i \<longrightarrow> seg a mid j \<le> ?s"
    proof (intro allI impI)
      fix j assume j: "mid < j" "j \<le> Suc i"
      show "seg a mid j \<le> ?s"
      proof (cases "j = Suc i")
        case False
        then have "mid < i" "j \<le> i"
          using j by auto
        then show ?thesis
          using True Suc.prems(7) j(1) by fastforce
      qed (use s in simp)
    qed
    then show ?thesis
      using IH [where s = ?s and rsum = ?s and rmax = "Suc i"] Suc.prems Suc.hyps(2) True i s step by simp
  next
    case False
    then have "mid < i"
      using Suc.prems(4) by auto
    then show ?thesis
      using IH [where s = ?s and rsum = rsum and rmax = rmax] Suc.prems Suc.hyps(2) False i s step by (fastforce simp: le_Suc_eq)
  qed
qed

lemma crossing_ok:
  assumes "sums_fit a" "low < mid" "mid < high" "high \<le> length a"
  shows "\<exists>r. max_crossing_subarray a low mid high = Some r \<and>
      low \<le> begin_index r \<and> begin_index r < mid \<and> mid < end_index r \<and> end_index r \<le> high \<and>
      sum_value r = seg a (begin_index r) (end_index r) \<and>
      (\<forall>b e. low \<le> b \<longrightarrow> b < mid \<longrightarrow> mid < e \<longrightarrow> e \<le> high \<longrightarrow> seg a b e \<le> sum_value r)"
proof -
  obtain ls lm where l: "left_scan a low mid mid 0 0 0 = Some (ls, lm)" "low \<le> lm" "lm < mid" "ls = seg a lm mid"
      "\<forall>j. low \<le> j \<longrightarrow> j < mid \<longrightarrow> seg a j mid \<le> ls"
    using left_scan_ok [of a low mid mid 0 0 0] assms by (simp add: seg_simps(1)) blast
  obtain rs rm where r: "right_scan a mid high mid 0 0 0 = Some (rs, rm)" "mid < rm" "rm \<le> high" "rs = seg a mid rm"
      "\<forall>j. mid < j \<longrightarrow> j \<le> high \<longrightarrow> seg a mid j \<le> rs"
    using right_scan_ok [of a mid high mid 0 0 0] assms by (simp add: seg_simps(1)) blast
  have sum: "ls + rs = seg a lm rm"
    using seg_split [of lm mid rm a] l r by simp
  then have "fits (ls + rs)"
    using assms l r by (simp add: sums_fit_def)
  moreover have "seg a b e \<le> ls + rs" if "low \<le> b" "b < mid" "mid < e" "e \<le> high" for b e
    using seg_split [of b mid e a] l(5) r(5) that by (simp add: add_mono)
  ultimately show ?thesis
    using l r sum by (simp add: max_crossing_subarray_def int_add_def)
qed

lemma max_subarray_ok:
  assumes "sums_fit a" "low < high" "high \<le> length a"
  shows "\<exists>r. max_subarray a low high = Some r \<and> best a low high r"
  using assms(2, 3)
proof (induction "high - low" arbitrary: low high rule: less_induct)
  case less
  show ?case
  proof (cases "low = high - 1")
    case True
    then have "int low = int high - 1"
      using less.prems by linarith
    moreover have only: "b = low \<and> e = high" if "low \<le> b" "b < e" "e \<le> high" for b e
      using that True by linarith
    moreover have one: "seg a low high = a ! low"
      using True less.prems seg_simps(2) [of low high a] seg_simps(1) [of a high] by simp
    moreover have "seg a b e \<le> a ! low" if "low \<le> b" "b < e" "e \<le> high" for b e
      using only [OF that] one by simp
    ultimately have "best a low high \<lparr>begin_index = low, end_index = high, sum_value = a ! low\<rparr>"
      using less.prems by (simp add: best_def)
    then show ?thesis
      using \<open>int low = int high - 1\<close> less.prems by (subst max_subarray.simps) (simp add: at_def)
  next
    case False
    let ?mid = "(low + high) div 2"
    have mid: "low < ?mid" "?mid < high"
      using False less.prems by linarith+
    obtain r1 where r1: "max_subarray a low ?mid = Some r1" "best a low ?mid r1"
      using less.hyps [of ?mid low] mid less.prems by fastforce
    obtain r2 where r2: "max_subarray a ?mid high = Some r2" "best a ?mid high r2"
      using less.hyps [of high ?mid] mid less.prems by fastforce
    obtain r3 where r3: "max_crossing_subarray a low ?mid high = Some r3"
        "low \<le> begin_index r3" "begin_index r3 < ?mid" "?mid < end_index r3" "end_index r3 \<le> high"
        "sum_value r3 = seg a (begin_index r3) (end_index r3)"
        "\<forall>b e. low \<le> b \<longrightarrow> b < ?mid \<longrightarrow> ?mid < e \<longrightarrow> e \<le> high \<longrightarrow> seg a b e \<le> sum_value r3"
      using crossing_ok [OF assms(1) mid less.prems(2)] by blast
    let ?r = "std_max (std_max r1 r2) r3"
    have ge: "sum_value r1 \<le> sum_value ?r" "sum_value r2 \<le> sum_value ?r" "sum_value r3 \<le> sum_value ?r"
      by (auto simp: std_max_def array_info_less_def)
    have "seg a b e \<le> sum_value ?r" if "low \<le> b" "b < e" "e \<le> high" for b e
    proof -
      consider "e \<le> ?mid" | "?mid \<le> b" | "b < ?mid" "?mid < e"
        by linarith
      then show ?thesis
        using that r1(2) r2(2) r3(7) ge by cases (fastforce simp: best_def)+
    qed
    moreover have "?r = r1 \<or> ?r = r2 \<or> ?r = r3"
      by (auto simp: std_max_def)
    ultimately have "best a low high ?r"
      using r1(2) r2(2) r3 mid unfolding best_def by auto
    moreover have "int low \<noteq> int high - 1"
      using False by linarith
    ultimately show ?thesis
      using r1(1) r2(1) r3(1) by (subst max_subarray.simps) simp
  qed
qed

subsection \<open>Properties\<close>

text \<open>
  On every non-empty array whose segment sums fit into an \<open>int\<close>, the search returns, without overflow
  and without leaving the array, a non-empty segment together with its sum, and no other
  segment has a greater sum.
\<close>
theorem max_subarray_best:
  assumes "a \<noteq> []" "sums_fit a"
  shows "\<exists>r. max_subarray_of a = Some r \<and> begin_index r < end_index r \<and> end_index r \<le> length a \<and>
     sum_value r = (\<Sum>i = begin_index r..<end_index r. a ! i) \<and>
     (\<forall>b e. b < e \<longrightarrow> e \<le> length a \<longrightarrow> (\<Sum>i = b..<e. a ! i) \<le> sum_value r)"
  using max_subarray_ok [of a 0 "length a"] assms by (auto simp: max_subarray_of_def best_def seg_def)

lemma sums_fit_small:
  assumes "\<forall>x \<in> set a. \<bar>x\<bar> \<le> 100" "length a \<le> 1000"
  shows "sums_fit a"
proof -
  have "\<bar>seg a b e\<bar> \<le> 100 * int (e - b)" if "b \<le> e" "e \<le> length a" for b e
  proof -
    have "\<bar>seg a b e\<bar> \<le> (\<Sum>i = b..<e. \<bar>a ! i\<bar>)"
      unfolding seg_def by (rule sum_abs)
    also have "\<dots> \<le> (\<Sum>i = b..<e. 100)"
      using assms(1) that by (intro sum_mono) auto
    finally show ?thesis
      by (simp add: mult.commute)
  qed
  then have "\<bar>seg a b e\<bar> \<le> 100000" if "b \<le> e" "e \<le> length a" for b e
  proof -
    have "int (e - b) \<le> 1000"
      using that(2) assms(2) by simp
    then show ?thesis
      using \<open>\<And>b e. b \<le> e \<Longrightarrow> e \<le> length a \<Longrightarrow> \<bar>seg a b e\<bar> \<le> 100 * int (e - b)\<close> [OF that] by linarith
  qed
  then have "fits (seg a b e)" if "b \<le> e" "e \<le> length a" for b e
    using that by (fastforce simp: fits_def abs_le_iff intro: order.trans)
  then show ?thesis
    by (simp add: sums_fit_def)
qed

theorem max_subarray_best_witness:
  "\<exists>r. max_subarray_of [1, 2, 3, 4, -5, -6, -7, 8, 9, 0] = Some r \<and>
     (\<forall>b e. b < e \<longrightarrow> e \<le> 10 \<longrightarrow> (\<Sum>i = b..<e. [1, 2, 3, 4, -5, -6, -7, 8, 9, 0] ! i) \<le> sum_value r)"
proof -
  have "sums_fit [1, 2, 3, 4, -5, -6, -7, 8, 9, 0]"
    by (rule sums_fit_small) simp_all
  from max_subarray_best [OF _ this] show ?thesis
    by auto
qed

end
