(* ===== verification/Leetcode.thy ===== *)
theory Leetcode
  imports Max_Subarray
begin

text \<open>
  Two of the exercises of \<open>2022-02-06-leetcode-solutions\<close>: the bracket checker, whose meaning is the
  inductively defined language of balanced brackets, and the search for two numbers with a given
  sum. The hash map of the latter is a map, since the order of its entries is never looked at; the
  positions are natural numbers, those of a vector too long for an \<open>int\<close> index left aside.
\<close>

subsection \<open>Balanced brackets\<close>

fun valid_loop :: "string \<Rightarrow> char list \<Rightarrow> bool" where
  "valid_loop [] parens = (parens = [])"
| "valid_loop (c # input) parens =
     (if c = CHR ''('' \<or> c = CHR ''{'' \<or> c = CHR ''['' then valid_loop input (c # parens)
      else if c = CHR '')''
      then if parens = [] \<or> hd parens \<noteq> CHR ''('' then False else valid_loop input (tl parens)
      else if c = CHR ''}''
      then if parens = [] \<or> hd parens \<noteq> CHR ''{'' then False else valid_loop input (tl parens)
      else if c = CHR '']''
      then if parens = [] \<or> hd parens \<noteq> CHR ''['' then False else valid_loop input (tl parens)
      else valid_loop input parens)"

definition is_valid :: "string \<Rightarrow> bool" where
  "is_valid input = valid_loop input []"

definition is_bracket :: "char \<Rightarrow> bool" where
  "is_bracket c \<longleftrightarrow> c \<in> set ''(){}[]''"

inductive balanced :: "string \<Rightarrow> bool" where
  nothing: "balanced []"
| round: "balanced u \<Longrightarrow> balanced v \<Longrightarrow> balanced (CHR ''('' # u @ CHR '')'' # v)"
| curly: "balanced u \<Longrightarrow> balanced v \<Longrightarrow> balanced (CHR ''{'' # u @ CHR ''}'' # v)"
| square: "balanced u \<Longrightarrow> balanced v \<Longrightarrow> balanced (CHR ''['' # u @ CHR '']'' # v)"

lemma balanced_append: "balanced u \<Longrightarrow> balanced v \<Longrightarrow> balanced (u @ v)"
  by (induction rule: balanced.induct) (auto intro: balanced.intros)

lemma valid_loop_filter: "valid_loop s st = valid_loop (filter is_bracket s) st"
  by (induction s st rule: valid_loop.induct) (auto simp: is_bracket_def)

lemma balanced_valid: "balanced u \<Longrightarrow> valid_loop (u @ s) st = valid_loop s st"
  by (induction arbitrary: s st rule: balanced.induct) simp_all

definition close_of :: "char \<Rightarrow> char" where
  "close_of c = (if c = CHR ''('' then CHR '')'' else if c = CHR ''{'' then CHR ''}'' else CHR '']'')"

text \<open>What may follow when the brackets of the stack are open.\<close>

fun closes :: "char list \<Rightarrow> string \<Rightarrow> bool" where
  "closes [] s = balanced s"
| "closes (c # st) s = (\<exists>u v. s = u @ close_of c # v \<and> balanced u \<and> closes st v)"

lemma closes_append: "balanced w \<Longrightarrow> closes st s \<Longrightarrow> closes st (w @ s)"
  by (cases st) (auto intro: balanced_append, metis append.assoc balanced_append)

lemma valid_closes:
  assumes "valid_loop s st" "list_all is_bracket s" "set st \<subseteq> set ''({[''"
  shows "closes st s"
  using assms
proof (induction s st rule: valid_loop.induct)
  case (1 parens)
  then show ?case by (simp add: balanced.nothing)
next
  case (2 c s st)
  show ?case
  proof (cases "c \<in> set ''({[''")
    case True
    then have "valid_loop s (c # st)"
      using "2.prems"(1) by auto
    then have "closes (c # st) s"
      using 2 True by auto
    then obtain u v where uv: "s = u @ close_of c # v" "balanced u" "closes st v"
      by auto
    have "balanced (c # u @ [close_of c])"
      using True uv(2) balanced.round [OF uv(2) balanced.nothing]
        balanced.curly [OF uv(2) balanced.nothing] balanced.square [OF uv(2) balanced.nothing]
      by (auto simp: close_of_def)
    then show ?thesis
      using closes_append [of "c # u @ [close_of c]" st v] uv by simp
  next
    case False
    then have "st \<noteq> [] \<and> c = close_of (hd st) \<and> valid_loop s (tl st)"
      using "2.prems" by (auto simp: is_bracket_def close_of_def split: if_splits)
    then obtain b st' where st: "st = b # st'" "c = close_of b" "valid_loop s st'"
      by (cases st) auto
    moreover have "closes st' s"
      using 2 False st by (auto simp: is_bracket_def close_of_def split: if_splits)
    ultimately show ?thesis
      using balanced.nothing by (metis append_Nil closes.simps(2))
  qed
qed

subsection \<open>Two numbers with a given sum\<close>

fun two_sum_loop :: "int list \<Rightarrow> int \<Rightarrow> nat \<Rightarrow> (int \<rightharpoonup> nat) \<Rightarrow> (nat \<times> nat) option" where
  "two_sum_loop [] target i indicies = Some (0, 0)"
| "two_sum_loop (x # xs) target i indicies =
     do { s \<leftarrow> int_add target (- x);
          case indicies s of
            Some j \<Rightarrow> Some (j, i)
          | None \<Rightarrow> two_sum_loop xs target (i + 1) (if indicies x = None then indicies(x \<mapsto> i) else indicies) }"

definition two_sum :: "int list \<Rightarrow> int \<Rightarrow> (nat \<times> nat) option" where
  "two_sum numbers target = two_sum_loop numbers target 0 Map.empty"

definition pair_at :: "int list \<Rightarrow> int \<Rightarrow> nat \<Rightarrow> nat \<Rightarrow> bool" where
  "pair_at numbers target i j \<longleftrightarrow> i < j \<and> j < length numbers \<and> numbers ! i + numbers ! j = target"

definition sum_answer :: "int list \<Rightarrow> int \<Rightarrow> nat \<times> nat \<Rightarrow> bool" where
  "sum_answer numbers target r \<longleftrightarrow>
     (if \<exists>i j. pair_at numbers target i j then pair_at numbers target (fst r) (snd r) else r = (0, 0))"

definition index_ok :: "int list \<Rightarrow> (int \<rightharpoonup> nat) \<Rightarrow> bool" where
  "index_ok seen m \<longleftrightarrow> dom m = set seen \<and> (\<forall>x i. m x = Some i \<longrightarrow> i < length seen \<and> seen ! i = x)"

lemma index_ok_snoc:
  "index_ok seen m \<Longrightarrow> index_ok (seen @ [x]) (if m x = None then m(x \<mapsto> length seen) else m)"
  by (auto simp: index_ok_def nth_append less_SucI)

lemma two_sum_loop_ok:
  assumes "index_ok seen m" "\<forall>x \<in> set xs. fits (target - x)" "\<forall>i j. j < length seen \<longrightarrow> \<not> pair_at (seen @ xs) target i j"
  shows "\<exists>r. two_sum_loop xs target (length seen) m = Some r \<and> sum_answer (seen @ xs) target r"
  using assms
proof (induction xs arbitrary: seen m)
  case Nil
  then show ?case
    by (auto simp: pair_at_def sum_answer_def)
next
  case (Cons x xs)
  have add: "int_add target (- x) = Some (target - x)"
    using Cons.prems(2) by (simp add: int_add_def)
  show ?case
  proof (cases "m (target - x)")
    case (Some j)
    then have "j < length seen" "seen ! j = target - x"
      using Cons.prems(1) by (auto simp: index_ok_def)
    then have "pair_at (seen @ x # xs) target j (length seen)"
      by (simp add: pair_at_def nth_append)
    then show ?thesis
      using add Some by (auto simp: sum_answer_def)
  next
    case None
    let ?m = "if m x = None then m(x \<mapsto> length seen) else m"
    have "target - x \<notin> set seen"
      using None Cons.prems(1) by (auto simp: index_ok_def)
    then have "\<not> pair_at (seen @ x # xs) target i (length seen)" for i
      by (auto simp: pair_at_def nth_append)
    then have "\<forall>i j. j < length (seen @ [x]) \<longrightarrow> \<not> pair_at ((seen @ [x]) @ xs) target i j"
      using Cons.prems(3) by (auto simp: less_Suc_eq)
    then obtain r where "two_sum_loop xs target (length (seen @ [x])) ?m = Some r" "sum_answer ((seen @ [x]) @ xs) target r"
      using Cons.IH [OF index_ok_snoc [OF Cons.prems(1), of x]] Cons.prems(2) by (meson list.set_intros(2))
    then show ?thesis
      using add None by (intro exI [of _ r]) (simp split del: if_split)
  qed
qed

subsection \<open>Properties\<close>

text \<open>
  \<open>is_valid\<close> accepts exactly the texts whose brackets, all other characters left out, are balanced.
\<close>
theorem is_valid_balanced: "is_valid s \<longleftrightarrow> balanced (filter is_bracket s)"
proof
  assume "is_valid s"
  then have "valid_loop (filter is_bracket s) []"
    using valid_loop_filter [of s "[]"] by (simp add: is_valid_def)
  then show "balanced (filter is_bracket s)"
    using valid_closes [of "filter is_bracket s" "[]"] by (simp add: list_all_iff)
next
  assume "balanced (filter is_bracket s)"
  then show "is_valid s"
    using balanced_valid [of "filter is_bracket s" "[]" "[]"] valid_loop_filter [of s "[]"] by (simp add: is_valid_def)
qed

text \<open>
  when no difference overflows, \<open>two_sum\<close> returns the indices of two different positions whose numbers add up to
  the target if there are any, and a pair of zeros otherwise.
\<close>
theorem two_sum_correct:
  assumes "\<forall>x \<in> set numbers. fits (target - x)"
  shows "\<exists>r. two_sum numbers target = Some r \<and> sum_answer numbers target r"
proof -
  have "index_ok [] Map.empty"
    by (simp add: index_ok_def)
  from two_sum_loop_ok [OF this assms] show ?thesis
    unfolding two_sum_def by simp
qed

theorem two_sum_correct_witness:
  "\<exists>r. two_sum [2, 7, 11, 15] 9 = Some r \<and> sum_answer [2, 7, 11, 15] 9 r"
  by (rule two_sum_correct) (simp add: fits_def)

end
