(* ===== verification/Factors.thy ===== *)
theory Factors
  imports Prelude "HOL-Library.Sublist"
begin

text \<open>
  The combinatorics behind suffix automata. A word is described by the positions of a text where its
  occurrences end; a word is \<open>maximal\<close> if every extension to the left has fewer occurrences. The
  main lemma, \<open>maximal_snoc\<close>, says which words become maximal when the text grows by a symbol.
\<close>

declare suffix_snoc [simp del]

subsection \<open>End positions\<close>

definition endpos :: "'a list \<Rightarrow> 'a list \<Rightarrow> nat set" where
  "endpos s w = {e. e \<le> length s \<and> suffix w (take e s)}"

definition maximal :: "'a list \<Rightarrow> 'a list \<Rightarrow> bool" where
  "maximal s u \<longleftrightarrow> endpos s u \<noteq> {} \<and> (\<forall>a. endpos s (a # u) \<noteq> endpos s u)"

lemma finite_endpos [simp]: "finite (endpos s w)"
  by (rule finite_subset [of _ "{..length s}"]) (auto simp: endpos_def)

lemma endpos_le: "e \<in> endpos s w \<Longrightarrow> e \<le> length s \<and> length w \<le> e"
  by (auto simp: endpos_def dest!: suffix_length_le)

lemma endpos_Nil [simp]: "endpos s [] = {..length s}"
  by (auto simp: endpos_def)

lemma endpos_self: "endpos s s = {length s}"
  using endpos_le by (fastforce simp: endpos_def)

lemma endpos_length [simp]: "length s \<in> endpos s w \<longleftrightarrow> suffix w s"
  by (simp add: endpos_def)

lemma endpos_sublist: "endpos s w \<noteq> {} \<longleftrightarrow> sublist w s"
proof
  assume "endpos s w \<noteq> {}"
  then obtain e where "suffix w (take e s)"
    by (auto simp: endpos_def)
  then show "sublist w s"
    by (metis append_take_drop_id sublist_appendI suffixE append.assoc)
next
  assume "sublist w s"
  then obtain u v where "s = u @ w @ v"
    by (auto simp: sublist_def)
  then have "length (u @ w) \<in> endpos s w"
    by (simp add: endpos_def suffix_def)
  then show "endpos s w \<noteq> {}"
    by blast
qed

lemma endpos_suffix: "suffix v w \<Longrightarrow> endpos s w \<subseteq> endpos s v"
  by (auto simp: endpos_def intro: suffix_order.trans)

lemma endpos_common: "e \<in> endpos s v \<Longrightarrow> e \<in> endpos s w \<Longrightarrow> suffix v w \<or> suffix w v"
  unfolding endpos_def using suffix_same_cases by fastforce

lemma endpos_Cons_common: "e \<in> endpos s (a # w) \<Longrightarrow> e \<in> endpos s (b # w) \<Longrightarrow> a = b"
  using endpos_common [of e s "a # w" "b # w"] by (auto simp: suffix_def append_eq_Cons_conv)

lemma endpos_snoc: "endpos s (w @ [c]) = {Suc e |e. e \<in> endpos s w \<and> e < length s \<and> s ! e = c}"
proof -
  have step: "Suc e \<in> endpos s (w @ [c]) \<longleftrightarrow> e \<in> endpos s w \<and> e < length s \<and> s ! e = c" for e
    by (auto simp: endpos_def take_Suc_conv_app_nth suffix_snoc Suc_le_eq)
  have "e \<in> endpos s (w @ [c]) \<longleftrightarrow> (\<exists>k. e = Suc k \<and> k \<in> endpos s w \<and> k < length s \<and> s ! k = c)" for e
    by (cases e) (use endpos_le [of 0 s "w @ [c]"] step in auto)
  then show ?thesis
    by blast
qed

lemma endpos_snoc_cong: "endpos s v = endpos s w \<Longrightarrow> endpos s (v @ [c]) = endpos s (w @ [c])"
  by (simp add: endpos_snoc)

lemma endpos_append1:
  "endpos (s @ [c]) w = endpos s w \<union> (if suffix w (s @ [c]) then {Suc (length s)} else {})"
  by (auto simp: endpos_def le_Suc_eq)

lemma endpos_append1_old: "e \<le> length s \<Longrightarrow> e \<in> endpos (s @ [c]) w \<longleftrightarrow> e \<in> endpos s w"
  by (simp add: endpos_def)

lemma endpos_append1_new: "Suc (length s) \<in> endpos (s @ [c]) w \<longleftrightarrow> suffix w (s @ [c])"
  by (simp add: endpos_def)

lemma endpos_new: "Suc (length s) \<notin> endpos s w"
  using endpos_le by fastforce

subsection \<open>Maximal words\<close>

lemma suffix_step: "suffix v w \<Longrightarrow> v \<noteq> w \<Longrightarrow> \<exists>a. suffix (a # v) w"
  by (metis append.assoc append_Cons append_Nil rev_exhaust suffix_def)

lemma maximal_suffix:
  assumes "maximal s u" "endpos s w = endpos s u"
  shows "suffix w u"
proof -
  obtain e where "e \<in> endpos s u" "e \<in> endpos s w"
    using assms by (auto simp: maximal_def)
  then consider "suffix w u" | "suffix u w" "u \<noteq> w"
    using endpos_common by blast
  then show ?thesis
  proof cases
    case 2
    then obtain a where "suffix (a # u) w"
      using suffix_step by blast
    then have "endpos s (a # u) = endpos s u"
      using endpos_suffix [of "a # u" w s] endpos_suffix [of u "a # u" s] assms(2) by (auto simp: suffix_ConsI)
    then show ?thesis
      using assms(1) by (simp add: maximal_def)
  qed
qed

lemma maximal_unique: "maximal s u \<Longrightarrow> maximal s v \<Longrightarrow> endpos s u = endpos s v \<Longrightarrow> u = v"
  by (metis maximal_suffix suffix_order.antisym)

lemma maximal_exists:
  assumes "endpos s w \<noteq> {}"
  shows "\<exists>u. maximal s u \<and> endpos s u = endpos s w"
  using assms
proof (induction "length s - length w" arbitrary: w rule: less_induct)
  case less
  show ?case
  proof (cases "maximal s w")
    case False
    then obtain a where a: "endpos s (a # w) = endpos s w"
      using less.prems by (auto simp: maximal_def)
    then have "length s - length (a # w) < length s - length w"
      using less.prems endpos_le [of _ s "a # w"] by fastforce
    then show ?thesis
      using less.hyps [of "a # w"] a less.prems by auto
  qed auto
qed

lemma maximal_Nil [simp]: "maximal s []"
  using endpos_le by (fastforce simp: maximal_def)

lemma maximal_prefix: "maximal s (take e s)" if "e \<le> length s"
proof -
  have "e \<in> endpos s (take e s)" "e \<notin> endpos s (a # take e s)" for a
    using that endpos_le by (fastforce simp: endpos_def)+
  then show ?thesis
    by (auto simp: maximal_def)
qed

lemma maximal_self [simp]: "maximal s s"
  using maximal_prefix [of "length s" s] by simp

text \<open>A word between a maximal word and its class has the same occurrences.\<close>

lemma endpos_between:
  assumes "suffix u v" "suffix v w" "endpos s u = endpos s w"
  shows "endpos s v = endpos s w"
  using assms endpos_suffix [of u v s] endpos_suffix [of v w s] by auto

lemma maximal_proper_suffix:
  assumes "maximal s u" "suffix u w" "u \<noteq> w"
  shows "endpos s w \<noteq> endpos s u"
  using assms maximal_suffix [of s u w] suffix_order.antisym by blast

subsection \<open>Appending a symbol\<close>

definition longest_old :: "'a list \<Rightarrow> 'a \<Rightarrow> 'a list \<Rightarrow> bool" where
  "longest_old s c z \<longleftrightarrow> suffix z (s @ [c]) \<and> endpos s z \<noteq> {} \<and>
     (\<forall>w. suffix w (s @ [c]) \<longrightarrow> endpos s w \<noteq> {} \<longrightarrow> suffix w z)"

lemma old_not_whole: "endpos s w \<noteq> {} \<Longrightarrow> length w \<le> length s"
  using endpos_le by (meson all_not_in_conv le_trans)

lemma maximal_whole: "maximal (s @ [c]) (s @ [c])"
  by simp

lemma maximal_old:
  assumes "maximal s u"
  shows "maximal (s @ [c]) u"
proof -
  have "endpos (s @ [c]) (a # u) \<noteq> endpos (s @ [c]) u" for a
  proof -
    have "endpos s (a # u) \<subset> endpos s u"
      using assms endpos_suffix [of u "a # u" s] by (auto simp: maximal_def suffix_ConsI)
    then obtain e where "e \<in> endpos s u" "e \<notin> endpos s (a # u)" "e \<le> length s"
      using endpos_le by blast
    then show ?thesis
      using endpos_append1_old by metis
  qed
  moreover have "endpos (s @ [c]) u \<noteq> {}"
    using assms by (auto simp: endpos_append1 maximal_def)
  ultimately show ?thesis
    by (simp add: maximal_def)
qed

lemma maximal_longest:
  assumes "longest_old s c z"
  shows "maximal (s @ [c]) z"
proof -
  obtain e where e: "e \<in> endpos s z" "e \<le> length s"
    using assms endpos_le by (fastforce simp: longest_old_def)
  have "endpos (s @ [c]) (a # z) \<noteq> endpos (s @ [c]) z" for a
  proof (cases "suffix (a # z) (s @ [c])")
    case True
    then have "endpos s (a # z) = {}"
      using assms unfolding longest_old_def by (meson not_Cons_self2 suffix_ConsD suffix_order.antisym suffix_ConsI suffix_order.refl)
    then show ?thesis
      using e endpos_append1_old by (metis empty_iff)
  next
    case False
    then show ?thesis
      using assms endpos_append1_new [of s c z] endpos_append1_new [of s c "a # z"] by (auto simp: longest_old_def)
  qed
  then show ?thesis
    using e by (auto simp: maximal_def endpos_append1)
qed

lemma maximal_snoc:
  assumes z: "longest_old s c z"
  shows "maximal (s @ [c]) u \<longleftrightarrow> maximal s u \<or> u = z \<or> u = s @ [c]"
proof
  assume u: "maximal (s @ [c]) u"
  show "maximal s u \<or> u = z \<or> u = s @ [c]"
  proof (cases "endpos s u = {}")
    case True
    then have suf: "suffix u (s @ [c])" "endpos (s @ [c]) u = {Suc (length s)}"
      using u by (auto simp: maximal_def endpos_append1 split: if_splits)
    then show ?thesis
      using maximal_unique [OF u maximal_whole] endpos_self [of "s @ [c]"] by simp
  next
    case old: False
    show ?thesis
    proof (cases "maximal s u")
      case False
      then obtain a where a: "endpos s (a # u) = endpos s u"
        using old by (auto simp: maximal_def)
      then have suf: "suffix u (s @ [c])" "\<not> suffix (a # u) (s @ [c])"
        using u unfolding maximal_def endpos_append1 by (metis suffix_ConsD)+
      then have "suffix u z"
        using z old by (simp add: longest_old_def)
      moreover have "u = z"
      proof (rule ccontr)
        assume "u \<noteq> z"
        then obtain b where b: "suffix (b # u) z"
          using suffix_step calculation by blast
        then have "b \<noteq> a"
          using suf z suffix_order.trans by (auto simp: longest_old_def)
        obtain e where "e \<in> endpos s (b # u)"
          using z b endpos_suffix by (fastforce simp: longest_old_def)
        then have "e \<in> endpos s (a # u)" "e \<in> endpos s (b # u)"
          using a endpos_suffix [of u "b # u" s] by (auto simp: suffix_ConsI)
        then show False
          using \<open>b \<noteq> a\<close> endpos_Cons_common [of e s a u b] by simp
      qed
      ultimately show ?thesis by simp
    qed simp
  qed
qed (use assms maximal_old maximal_longest in auto)

text \<open>The longest old suffix ends in the new symbol or is empty.\<close>

lemma longest_old_step:
  assumes "suffix v s" "endpos s (v @ [c]) \<noteq> {}"
    and "\<And>w. maximal s w \<Longrightarrow> suffix w s \<Longrightarrow> endpos s (w @ [c]) \<noteq> {} \<Longrightarrow> suffix w v"
  shows "longest_old s c (v @ [c])"
proof -
  have "suffix w (v @ [c])" if w: "suffix w (s @ [c])" "endpos s w \<noteq> {}" for w
  proof (cases w rule: rev_cases)
    case (snoc x d)
    then have x: "d = c" "suffix x s" "endpos s (x @ [c]) \<noteq> {}"
      using w by (auto simp: suffix_snoc)
    then obtain m where m: "maximal s m" "endpos s m = endpos s x"
      using maximal_exists [of s x] endpos_snoc [of s x c] by blast
    then have "suffix x m" "suffix m s"
      using maximal_suffix [OF m(1), of x] x(2) endpos_length by metis+
    moreover have "endpos s (m @ [c]) \<noteq> {}"
      using endpos_snoc_cong [OF m(2)] x(3) by simp
    ultimately have "suffix m v"
      using assms(3) m(1) by blast
    then show ?thesis
      using snoc x(1) \<open>suffix x m\<close> suffix_order.trans by (auto simp: suffix_snoc)
  qed simp
  then show ?thesis
    using assms by (simp add: longest_old_def suffix_snoc)
qed

lemma longest_old_Nil:
  assumes "endpos s [c] = {}"
  shows "longest_old s c []"
proof -
  have "w = []" if w: "suffix w (s @ [c])" "endpos s w \<noteq> {}" for w
  proof (cases w rule: rev_cases)
    case (snoc x d)
    then have "suffix [c] w"
      using w by (simp add: suffix_snoc)
    then show ?thesis
      using assms w(2) endpos_suffix by blast
  qed
  then show ?thesis
    by (simp add: longest_old_def)
qed

subsection \<open>Classes and links when the text grows\<close>

lemma old_suffix_of_longest:
  "longest_old s c z \<Longrightarrow> suffix w (s @ [c]) \<Longrightarrow> endpos s w \<noteq> {} \<Longrightarrow> suffix w z"
  by (simp add: longest_old_def)

lemma longest_oldD:
  assumes "longest_old s c z"
  shows "suffix z (s @ [c])" "endpos s z \<noteq> {}"
  using assms by (auto simp: longest_old_def)

lemma class_kept:
  assumes z: "longest_old s c z" and y: "maximal s y" "endpos s w = endpos s y"
    and "endpos s y \<noteq> endpos s z \<or> y = z"
  shows "endpos (s @ [c]) w = endpos (s @ [c]) y"
proof -
  have wy: "suffix w y" and old: "endpos s w \<noteq> {}"
    using maximal_suffix [OF y] y by (auto simp: maximal_def)
  have "suffix y (s @ [c])" if w: "suffix w (s @ [c])"
  proof -
    have wz: "suffix w z"
      using old_suffix_of_longest [OF z w old] .
    then obtain e where "e \<in> endpos s z" "e \<in> endpos s y"
      using longest_oldD(2) [OF z] endpos_suffix [OF wz, of s] y(2) by blast
    then consider "suffix y z" | "suffix z y"
      using endpos_common by blast
    then show ?thesis
    proof cases
      case 1
      then show ?thesis
        using longest_oldD(1) [OF z] suffix_order.trans by blast
    next
      case 2
      then have "y = z"
        using endpos_between [OF wz 2 y(2)] assms(4) by auto
      then show ?thesis
        using longest_oldD(1) [OF z] by simp
    qed
  qed
  then have "suffix w (s @ [c]) \<longleftrightarrow> suffix y (s @ [c])"
    using wy suffix_order.trans by blast
  then show ?thesis
    by (simp add: endpos_append1 y(2))
qed

lemma class_split:
  assumes z: "longest_old s c z" and y: "maximal s y" "endpos s z = endpos s y" "y \<noteq> z"
    and w: "endpos s w = endpos s y"
  shows "endpos (s @ [c]) w = endpos (s @ [c]) (if suffix w z then z else y)"
proof (cases "suffix w z")
  case True
  then have "suffix w (s @ [c])"
    using longest_oldD(1) [OF z] suffix_order.trans by blast
  then show ?thesis
    using True w y longest_oldD(1) [OF z] by (simp add: endpos_append1)
next
  case False
  have "\<not> suffix w (s @ [c])"
    using False old_suffix_of_longest [OF z, of w] w y(1) by (auto simp: maximal_def)
  moreover have "\<not> suffix y (s @ [c])"
    using old_suffix_of_longest [OF z, of y] y maximal_suffix [OF y(1, 2)] suffix_order.antisym
    by (auto simp: maximal_def)
  ultimately show ?thesis
    using False w by (simp add: endpos_append1)
qed

definition link_word :: "'a list \<Rightarrow> 'a list \<Rightarrow> 'a list \<Rightarrow> bool" where
  "link_word s v u \<longleftrightarrow> maximal s v \<and> suffix v u \<and> v \<noteq> u \<and>
     (\<forall>w. maximal s w \<longrightarrow> suffix w u \<longrightarrow> w \<noteq> u \<longrightarrow> suffix w v)"

lemma link_kept:
  assumes z: "longest_old s c z" and u: "maximal s u" "link_word s v u"
    and "maximal s z \<or> endpos s u \<noteq> endpos s z"
  shows "link_word (s @ [c]) v u"
proof -
  have "suffix w v" if w: "maximal (s @ [c]) w" "suffix w u" "w \<noteq> u" for w
  proof -
    consider "maximal s w" | "w = z" "\<not> maximal s z" | "w = s @ [c]"
      using w(1) maximal_snoc [OF z, of w] by blast
    then show ?thesis
    proof cases
      case 1
      then show ?thesis
        using u(2) w by (simp add: link_word_def)
    next
      case 2
      obtain y where y: "maximal s y" "endpos s y = endpos s z"
        using maximal_exists [OF longest_oldD(2) [OF z]] by blast
      obtain e where "e \<in> endpos s u" "e \<in> endpos s y"
        using endpos_suffix [OF w(2), of s] u(1) y(2) 2 by (auto simp: maximal_def)
      then have "suffix y u \<or> suffix u y"
        using endpos_common by blast
      moreover have "\<not> suffix u y"
        using endpos_between [of w u y s] w(2) 2 y assms(4) by auto
      ultimately have "suffix y u" "y \<noteq> u"
        by auto
      then have "suffix y v"
        using y(1) u(2) by (simp add: link_word_def)
      then show ?thesis
        using maximal_suffix [OF y(1), of z] y(2) 2 suffix_order.trans by auto
    next
      case 3
      then show ?thesis
        using w(2) u(1) old_not_whole [of s u] by (auto simp: maximal_def dest: suffix_length_le)
    qed
  qed
  then show ?thesis
    using u(2) maximal_old by (auto simp: link_word_def)
qed

lemma link_split:
  assumes z: "longest_old s c z" "\<not> maximal s z" and y: "maximal s y" "endpos s z = endpos s y" "link_word s v y"
  shows "link_word (s @ [c]) z y" "link_word (s @ [c]) v z"
proof -
  have zy: "suffix z y" "z \<noteq> y"
    using maximal_suffix [OF y(1, 2)] y(1) z(2) by auto
  have below: "suffix w z" if "maximal s w" "suffix w y" "w \<noteq> y" for w
  proof -
    have "\<not> suffix z w"
      using endpos_between [of z w y s] that y maximal_unique by blast
    then show ?thesis
      using that(2) zy(1) suffix_same_cases by blast
  qed
  have new: "maximal s w" if "maximal (s @ [c]) w" "suffix w y" "w \<noteq> z" for w
  proof -
    have "w \<noteq> s @ [c]"
      using that(2) y(1) old_not_whole [of s y] by (auto simp: maximal_def dest: suffix_length_le)
    then show ?thesis
      using that maximal_snoc [OF z(1)] by blast
  qed
  show "link_word (s @ [c]) z y"
    using zy below new maximal_longest [OF z(1)] unfolding link_word_def by blast
  have v: "maximal s v" "suffix v y" "v \<noteq> y"
    using y(3) by (auto simp: link_word_def)
  have "suffix w v" if "maximal (s @ [c]) w" "suffix w z" "w \<noteq> z" for w
    using new [of w] that zy y(3) suffix_order.trans suffix_order.antisym unfolding link_word_def by metis
  moreover have "v \<noteq> z"
    using v z(2) by auto
  ultimately show "link_word (s @ [c]) v z"
    using below [OF v] maximal_old [OF v(1)] by (simp add: link_word_def)
qed

lemma link_whole: "longest_old s c z \<Longrightarrow> link_word (s @ [c]) z (s @ [c])"
  using maximal_longest [of s c z] maximal_snoc [of s c z] old_not_whole [of s z] old_suffix_of_longest [of s c z]
    longest_oldD [of s c z]
  unfolding link_word_def by (metis maximal_def length_append_singleton not_less_eq_eq order.refl suffix_order.refl)

end
