(* ===== verification/Suffix_Automaton.thy ===== *)
theory Suffix_Automaton
  imports Factors
begin

text \<open>
  The suffix automaton of \<open>Sandbox/suffix_automaton.hpp\<close>. An access outside the vector of states is undefined (\<open>None\<close>);
  the members that the constructor of a state leaves uninitialised have an arbitrary value \<open>junk\<close>, an argument
  of the model. The loops that follow suffix links are partial functions. The numbers in a state, 32-bit in the program,
  are integers here: by \<open>automaton_numbers\<close> in \<open>Suffix_Automaton_Props\<close> they stay below twice the length of the text
  plus one, so nothing overflows for texts of fewer than \<open>2\<^sup>3\<^sup>0\<close> symbols.
\<close>

subsection \<open>States\<close>

record sa_state =
  st_length :: int
  st_link :: int
  st_first :: int
  st_index :: int
  st_references :: "int list"
  st_transitions :: "u16 \<rightharpoonup> int"

definition add_transition :: "u16 \<Rightarrow> int \<Rightarrow> sa_state \<Rightarrow> sa_state" where
  "add_transition symbol new_idx st =
     (if st_transitions st symbol = None
      then st\<lparr>st_transitions := (st_transitions st)(symbol \<mapsto> new_idx)\<rparr> else st)"

definition get_transition :: "u16 \<Rightarrow> sa_state \<Rightarrow> int" where
  "get_transition new_symbol st = (case st_transitions st new_symbol of Some t \<Rightarrow> t | None \<Rightarrow> - 1)"

definition update_transition :: "u16 \<Rightarrow> int \<Rightarrow> sa_state \<Rightarrow> sa_state" where
  "update_transition new_symbol new_idx st =
     (if st_transitions st new_symbol = None then st
      else st\<lparr>st_transitions := (st_transitions st)(new_symbol \<mapsto> new_idx)\<rparr>)"

record suffix_automaton =
  suffix_references :: bool
  states :: "sa_state list"

definition state_at :: "suffix_automaton \<Rightarrow> int \<Rightarrow> sa_state option" where
  "state_at sa i = (if 0 \<le> i \<and> i < int (length (states sa)) then Some (states sa ! nat i) else None)"

definition on_state :: "int \<Rightarrow> (sa_state \<Rightarrow> sa_state) \<Rightarrow> suffix_automaton \<Rightarrow> suffix_automaton option" where
  "on_state i f sa = do { st \<leftarrow> state_at sa i; Some (sa\<lparr>states := (states sa)[nat i := f st]\<rparr>) }"

subsection \<open>Construction\<close>

definition add_state :: "int \<Rightarrow> int \<Rightarrow> suffix_automaton \<Rightarrow> (suffix_automaton \<times> int) option" where
  "add_state junk len sa =
     (if states sa = [] then None
      else let i = st_index (last (states sa)) + 1;
               new_state = \<lparr>st_length = len, st_link = junk, st_first = junk, st_index = i,
                            st_references = [], st_transitions = Map.empty\<rparr>
           in Some (sa\<lparr>states := states sa @ [new_state]\<rparr>, i))"

text \<open>The first loop over the links; the last component tells that the root has been passed.\<close>

partial_function (option) climb_links ::
  "u16 \<Rightarrow> int \<Rightarrow> suffix_automaton \<Rightarrow> int \<Rightarrow> int \<Rightarrow> (suffix_automaton \<times> int \<times> int \<times> bool) option" where
  "climb_links symbol current_state sa linked transition =
     (if transition = - 1
      then do {
        cur \<leftarrow> state_at sa current_state;
        sa \<leftarrow> on_state linked (add_transition symbol (st_index cur)) sa;
        st \<leftarrow> state_at sa linked;
        if st_link st \<noteq> - 1
        then do {
          up \<leftarrow> state_at sa (st_link st);
          climb_links symbol current_state sa (st_link st) (get_transition symbol up) }
        else do {
          sa \<leftarrow> on_state current_state (st_link_update (\<lambda>_. 0)) sa;
          Some (sa, linked, transition, True) } }
      else Some (sa, linked, transition, False))"

text \<open>The second one, which turns transitions to the cloned state.\<close>

partial_function (option) redirect_links ::
  "u16 \<Rightarrow> int \<Rightarrow> int \<Rightarrow> suffix_automaton \<Rightarrow> int \<Rightarrow> int \<Rightarrow> suffix_automaton option" where
  "redirect_links symbol state_2 clone sa linked transition =
     (if transition = state_2 \<and> linked \<noteq> - 1
      then do {
        sa \<leftarrow> on_state linked (update_transition symbol clone) sa;
        st \<leftarrow> state_at sa linked;
        if st_link st \<noteq> - 1
        then do {
          up \<leftarrow> state_at sa (st_link st);
          redirect_links symbol state_2 clone sa (st_link st) (get_transition symbol up) }
        else redirect_links symbol state_2 clone sa (- 1) transition }
      else Some sa)"

definition clone_state ::
  "int \<Rightarrow> u16 \<Rightarrow> int \<Rightarrow> int \<Rightarrow> int \<Rightarrow> suffix_automaton \<Rightarrow> suffix_automaton option" where
  "clone_state junk symbol current_state state_1 state_2 sa =
     do { s1 \<leftarrow> state_at sa state_1;
          (sa, clone) \<leftarrow> add_state junk (st_length s1 + 1) sa;
          s2 \<leftarrow> state_at sa state_2;
          sa \<leftarrow> on_state clone (\<lambda>st. st\<lparr>st_link := st_link s2, st_transitions := st_transitions s2,
                                     st_first := st_first s2\<rparr>) sa;
          cl \<leftarrow> state_at sa clone;
          sa \<leftarrow> on_state current_state (st_link_update (\<lambda>_. st_index cl)) sa;
          sa \<leftarrow> on_state state_2 (st_link_update (\<lambda>_. st_index cl)) sa;
          redirect_links symbol state_2 clone sa state_1 state_2 }"

definition extend_automaton :: "int \<Rightarrow> u16 \<Rightarrow> suffix_automaton \<times> int \<Rightarrow> (suffix_automaton \<times> int) option" where
  "extend_automaton junk symbol = (\<lambda>(sa, last).
     do { l \<leftarrow> state_at sa last;
          (sa, current_state) \<leftarrow> add_state junk (st_length l + 1) sa;
          sa \<leftarrow> on_state current_state (st_first_update (\<lambda>_. st_length l)) sa;
          l \<leftarrow> state_at sa last;
          (sa, linked, transition, root_passed) \<leftarrow>
            climb_links symbol current_state sa last (get_transition symbol l);
          if root_passed then Some (sa, current_state)
          else do {
            s1 \<leftarrow> state_at sa linked;
            s2 \<leftarrow> state_at sa transition;
            if st_length s2 = st_length s1 + 1
            then do { sa \<leftarrow> on_state current_state (st_link_update (\<lambda>_. st_index s2)) sa; Some (sa, current_state) }
            else do { sa \<leftarrow> clone_state junk symbol current_state linked transition sa; Some (sa, current_state) } } })"

fun extend_all :: "int \<Rightarrow> u16 list \<Rightarrow> suffix_automaton \<times> int \<Rightarrow> (suffix_automaton \<times> int) option" where
  "extend_all junk [] p = Some p"
| "extend_all junk (symbol # input) p = do { p \<leftarrow> extend_automaton junk symbol p; extend_all junk input p }"

text \<open>The closing loop visits the terminal states and changes nothing.\<close>

partial_function (option) visit_terminals :: "suffix_automaton \<Rightarrow> int \<Rightarrow> unit option" where
  "visit_terminals sa link =
     (if link \<noteq> - 1 then do { st \<leftarrow> state_at sa link; visit_terminals sa (st_link st) } else Some ())"

definition build_automaton :: "int \<Rightarrow> u16 list \<Rightarrow> suffix_automaton \<Rightarrow> suffix_automaton option" where
  "build_automaton junk input sa =
     do { let st = \<lparr>st_length = 0, st_link = - 1, st_first = junk, st_index = 0,
                    st_references = [], st_transitions = Map.empty\<rparr>;
          (sa, last) \<leftarrow> extend_all junk input (sa\<lparr>states := states sa @ [st]\<rparr>, 0);
          l \<leftarrow> state_at sa last;
          _ \<leftarrow> visit_terminals sa (st_link l);
          Some sa }"

definition suffix_automaton_ctor :: "int \<Rightarrow> u16 list \<Rightarrow> suffix_automaton option" where
  "suffix_automaton_ctor junk input = build_automaton junk input \<lparr>suffix_references = False, states = []\<rparr>"

subsection \<open>Queries\<close>

text \<open>The loop that the three queries start with; \<open>- 1\<close> when there is no transition.\<close>

fun follow :: "suffix_automaton \<Rightarrow> int \<Rightarrow> u16 list \<Rightarrow> int option" where
  "follow sa transition [] = Some transition"
| "follow sa transition (symbol # input) =
     do { st \<leftarrow> state_at sa transition;
          let t = get_transition symbol st;
          if t = - 1 then Some (- 1) else follow sa t input }"

definition contains :: "suffix_automaton \<Rightarrow> u16 list \<Rightarrow> bool option" where
  "contains sa input = do { t \<leftarrow> follow sa 0 input; Some (t \<noteq> - 1) }"

definition normalized_string_position :: "suffix_automaton \<Rightarrow> int \<Rightarrow> u16 list \<Rightarrow> int option" where
  "normalized_string_position sa transition input =
     do { st \<leftarrow> state_at sa transition; Some (st_first st - int (length input) + 1) }"

definition first_position :: "suffix_automaton \<Rightarrow> u16 list \<Rightarrow> int option" where
  "first_position sa input =
     do { t \<leftarrow> follow sa 0 input;
          if t = - 1 then Some (- 1) else normalized_string_position sa t input }"

fun reference_loop :: "int list \<Rightarrow> suffix_automaton \<Rightarrow> suffix_automaton option" where
  "reference_loop [] sa = Some sa"
| "reference_loop (i # is) sa =
     do { st \<leftarrow> state_at sa i;
          sa \<leftarrow> on_state (st_link st) (st_references_update (\<lambda>r. r @ [i])) sa;
          reference_loop is sa }"

definition compute_suffix_references :: "suffix_automaton \<Rightarrow> suffix_automaton option" where
  "compute_suffix_references sa =
     do { sa \<leftarrow> reference_loop [1..int (length (states sa)) - 1] sa;
          Some (sa\<lparr>suffix_references := True\<rparr>) }"

partial_function (option) collect_positions ::
  "suffix_automaton \<Rightarrow> u16 list \<Rightarrow> int list \<Rightarrow> int set \<Rightarrow> int set option" where
  "collect_positions sa input stack ps =
     (case stack of
        [] \<Rightarrow> Some ps
      | transition # stack \<Rightarrow>
          do { p \<leftarrow> normalized_string_position sa transition input;
               st \<leftarrow> state_at sa transition;
               collect_positions sa input (rev (st_references st) @ stack) (insert p ps) })"

definition positions :: "suffix_automaton \<Rightarrow> u16 list \<Rightarrow> (suffix_automaton \<times> int set) option" where
  "positions sa input =
     do { sa \<leftarrow> (if suffix_references sa then Some sa else compute_suffix_references sa);
          t \<leftarrow> follow sa 0 input;
          if t = - 1 then Some (sa, {})
          else do { ps \<leftarrow> collect_positions sa input [t] {}; Some (sa, ps) } }"

declare climb_links.simps [code] redirect_links.simps [code] visit_terminals.simps [code] collect_positions.simps [code]

end
