(* ===== verification/Suffix_Automaton_Correct.thy ===== *)
theory Suffix_Automaton_Correct
  imports Suffix_Automaton
begin

text \<open>
  The invariant of the construction: the states are labelled by the maximal words of the text read so
  far, a transition goes to the label with the same occurrences as the extended word, and a suffix link
  to the longest label that is a proper suffix. One step of the construction keeps it.
\<close>

subsection \<open>The invariant\<close>

definition link_ok :: "u16 list \<Rightarrow> u16 list list \<Rightarrow> nat \<Rightarrow> int \<Rightarrow> bool" where
  "link_ok s L i l \<longleftrightarrow> (if i = 0 then l = - 1 else \<exists>j < length L. l = int j \<and> link_word s (L ! j) (L ! i))"

definition tr_ok :: "u16 list \<Rightarrow> u16 list list \<Rightarrow> u16 list \<Rightarrow> u16 \<Rightarrow> int option \<Rightarrow> bool" where
  "tr_ok s L u c t \<longleftrightarrow>
     (case t of None \<Rightarrow> endpos s (u @ [c]) = {}
      | Some k \<Rightarrow> \<exists>j < length L. k = int j \<and> endpos s (L ! j) = endpos s (u @ [c]))"

definition state_ok :: "u16 list \<Rightarrow> u16 list list \<Rightarrow> nat \<Rightarrow> sa_state \<Rightarrow> bool" where
  "state_ok s L i st \<longleftrightarrow>
     st_length st = int (length (L ! i)) \<and> st_index st = int i \<and> st_references st = [] \<and>
     link_ok s L i (st_link st) \<and> (\<forall>c. tr_ok s L (L ! i) c (st_transitions st c)) \<and>
     (0 < i \<longrightarrow> st_first st = int (Min (endpos s (L ! i))) - 1)"

definition labels_ok :: "u16 list \<Rightarrow> u16 list list \<Rightarrow> bool" where
  "labels_ok s L \<longleftrightarrow> distinct L \<and> set L = {u. maximal s u} \<and> L \<noteq> [] \<and> L ! 0 = []"

definition sa_ok :: "u16 list \<Rightarrow> u16 list list \<Rightarrow> suffix_automaton \<Rightarrow> nat \<Rightarrow> bool" where
  "sa_ok s L sa k \<longleftrightarrow>
     labels_ok s L \<and> length (states sa) = length L \<and> (\<forall>i < length L. state_ok s L i (states sa ! i)) \<and>
     k < length L \<and> L ! k = s \<and> \<not> suffix_references sa"

lemma label_maximal: "labels_ok s L \<Longrightarrow> i < length L \<Longrightarrow> maximal s (L ! i)"
  using nth_mem by (fastforce simp: labels_ok_def)

lemma label_index: "labels_ok s L \<Longrightarrow> maximal s u \<Longrightarrow> \<exists>i < length L. L ! i = u"
  by (metis in_set_conv_nth labels_ok_def mem_Collect_eq)

lemma label_eq: "labels_ok s L \<Longrightarrow> i < length L \<Longrightarrow> j < length L \<Longrightarrow> L ! i = L ! j \<longleftrightarrow> i = j"
  by (simp add: labels_ok_def nth_eq_iff_index_eq)

lemma label_endpos_eq:
  "labels_ok s L \<Longrightarrow> i < length L \<Longrightarrow> j < length L \<Longrightarrow> endpos s (L ! i) = endpos s (L ! j) \<longleftrightarrow> i = j"
  using label_maximal maximal_unique label_eq by metis

lemma label_pos: "labels_ok s L \<Longrightarrow> i < length L \<Longrightarrow> 0 < i \<longleftrightarrow> L ! i \<noteq> []"
  by (metis label_eq labels_ok_def length_greater_0_conv gr0I)

subsection \<open>Changing the transitions of some states\<close>

definition retarget :: "(nat \<Rightarrow> bool) \<Rightarrow> u16 \<Rightarrow> int \<Rightarrow> sa_state list \<Rightarrow> sa_state list" where
  "retarget P c t xs =
     map (\<lambda>i. if P i then (xs ! i)\<lparr>st_transitions := (st_transitions (xs ! i))(c \<mapsto> t)\<rparr> else xs ! i) [0..<length xs]"

lemma length_retarget [simp]: "length (retarget P c t xs) = length xs"
  by (simp add: retarget_def)

lemma retarget_Nil [simp]: "retarget P c t xs = [] \<longleftrightarrow> xs = []"
  by (metis length_0_conv length_retarget)

lemma nth_retarget [simp]:
  "i < length xs \<Longrightarrow> retarget P c t xs ! i =
     (if P i then (xs ! i)\<lparr>st_transitions := (st_transitions (xs ! i))(c \<mapsto> t)\<rparr> else xs ! i)"
  by (simp add: retarget_def)

lemma retarget_none: "(\<And>i. i < length xs \<Longrightarrow> \<not> P i) \<Longrightarrow> retarget P c t xs = xs"
  by (auto intro: nth_equalityI)

lemma retarget_cong: "(\<And>i. i < length xs \<Longrightarrow> P i \<longleftrightarrow> Q i) \<Longrightarrow> retarget P c t xs = retarget Q c t xs"
  by (auto intro!: nth_equalityI)

lemma retarget_step:
  assumes "k < length xs" "\<And>i. i < length xs \<Longrightarrow> Q i \<longleftrightarrow> P i \<or> i = k"
  shows "(retarget P c t xs)[k := (xs ! k)\<lparr>st_transitions := (st_transitions (xs ! k))(c \<mapsto> t)\<rparr>] = retarget Q c t xs"
  using assms by (auto intro!: nth_equalityI simp: nth_list_update)

subsection \<open>Chains of suffix links\<close>

definition longer :: "u16 list list \<Rightarrow> u16 list \<Rightarrow> int \<Rightarrow> nat \<Rightarrow> bool" where
  "longer L w b i \<longleftrightarrow> i < length L \<and> suffix (L ! i) w \<and> b < int (length (L ! i))"

lemma longer_link:
  assumes L: "labels_ok s L" and k: "k < length L" "suffix (L ! k) w" and j: "link_word s (L ! j) (L ! k)"
  shows "longer L w (int (length (L ! j))) i \<longleftrightarrow> longer L w (int (length (L ! k))) i \<or> i = k"
proof -
  have "length (L ! j) < length (L ! k)"
    using j by (auto simp: link_word_def suffix_def)
  moreover have "i = k" if i: "i < length L" "suffix (L ! i) w" "length (L ! j) < length (L ! i)" "\<not> length (L ! k) < length (L ! i)"
  proof (rule ccontr)
    assume "i \<noteq> k"
    then have "L ! i \<noteq> L ! k"
      using label_eq [OF L] i(1) k(1) by blast
    moreover have "suffix (L ! i) (L ! k)"
      using i k(2) by (metis suffix_length_suffix not_less)
    ultimately have "suffix (L ! i) (L ! j)"
      using j label_maximal [OF L i(1)] by (simp add: link_word_def)
    then show False
      using i(3) by (auto dest: suffix_length_le)
  qed
  ultimately show ?thesis
    using k by (auto simp: longer_def)
qed

lemma longer_root:
  assumes "labels_ok s L"
  shows "longer L w (- 1) i \<longleftrightarrow> longer L w 0 i \<or> i = 0"
  using assms label_pos [OF assms, of i] by (auto simp: longer_def labels_ok_def)

lemma state_okD:
  assumes "state_ok s L i st"
  shows "st_length st = int (length (L ! i))" "st_index st = int i" "st_references st = []"
    "link_ok s L i (st_link st)" "tr_ok s L (L ! i) c (st_transitions st c)"
    "0 < i \<Longrightarrow> st_first st = int (Min (endpos s (L ! i))) - 1"
  using assms by (auto simp: state_ok_def)

lemma get_transition_ok:
  assumes "tr_ok s L u c (st_transitions st c)" "labels_ok s L"
  shows "get_transition c st = - 1 \<longleftrightarrow> endpos s (u @ [c]) = {}"
    and "get_transition c st \<noteq> - 1 \<Longrightarrow>
      \<exists>j < length L. get_transition c st = int j \<and> endpos s (L ! j) = endpos s (u @ [c])"
  using assms label_maximal [OF assms(2)] by (auto simp: tr_ok_def get_transition_def maximal_def split: option.splits)

definition fresh :: "u16 list \<Rightarrow> u16 list list \<Rightarrow> u16 \<Rightarrow> nat \<Rightarrow> bool" where
  "fresh s L c i \<longleftrightarrow> i < length L \<and> suffix (L ! i) s \<and> endpos s (L ! i @ [c]) = {}"

lemma state_at_int [simp]:
  "state_at sa (int i) = (if i < length (states sa) then Some (states sa ! i) else None)"
  by (simp add: state_at_def)

lemma on_state_int [simp]:
  "on_state (int i) f sa = (if i < length (states sa) then Some (sa\<lparr>states := (states sa)[i := f (states sa ! i)]\<rparr>) else None)"
  by (simp add: on_state_def)

lemmas state_at_0 [simp] = state_at_int [of _ 0, simplified]
  and on_state_0 [simp] = on_state_int [of 0, simplified]

lemma state_at_Suc [simp]:
  "state_at sa (int i + 1) = (if Suc i < length (states sa) then Some (states sa ! Suc i) else None)"
  using state_at_int [of sa "Suc i"] by (simp add: add.commute)

lemma on_state_Suc [simp]:
  "on_state (int i + 1) f sa =
     (if Suc i < length (states sa) then Some (sa\<lparr>states := (states sa)[Suc i := f (states sa ! Suc i)]\<rparr>) else None)"
  using on_state_int [of "Suc i" f sa] by (simp add: add.commute)

subsection \<open>The two loops\<close>

lemma fresh_longer:
  assumes "labels_ok s L" "p < length L" "suffix (L ! p) s" "endpos s (L ! p @ [c]) \<noteq> {}"
    and "\<And>i. longer L s (int (length (L ! p))) i \<Longrightarrow> endpos s (L ! i @ [c]) = {}"
  shows "longer L s (int (length (L ! p))) i \<longleftrightarrow> fresh s L c i"
proof -
  have "length (L ! p) < length (L ! i)" if "i < length L" "suffix (L ! i) s" "endpos s (L ! i @ [c]) = {}"
  proof (rule ccontr)
    assume "\<not> length (L ! p) < length (L ! i)"
    then have "suffix (L ! i @ [c]) (L ! p @ [c])"
      using that(2) assms(3) by (auto simp: suffix_snoc intro: suffix_length_suffix)
    then show False
      using endpos_suffix that(3) assms(4) by blast
  qed
  then show ?thesis
    using assms(5) by (auto simp: longer_def fresh_def)
qed

lemma climb_links_ok:
  assumes L: "labels_ok s L" and xs: "\<forall>i < length L. state_ok s L i (xs ! i)" "length xs = Suc (length L)"
      "st_index (xs ! length L) = int (length L)"
    and k: "k < length L" "suffix (L ! k) s"
      "\<And>i. longer L s (int (length (L ! k))) i \<Longrightarrow> endpos s (L ! i @ [c]) = {}"
  shows "endpos s [c] = {} \<and>
      climb_links c (int (length L)) (sa\<lparr>states := retarget (longer L s (int (length (L ! k)))) c (int (length L)) xs\<rparr>)
        (int k) (get_transition c (xs ! k)) =
      Some (sa\<lparr>states := (retarget (fresh s L c) c (int (length L)) xs)[length L := (xs ! length L)\<lparr>st_link := 0\<rparr>]\<rparr>,
        0, - 1, True) \<or>
    (\<exists>p < length L. suffix (L ! p) s \<and> endpos s (L ! p @ [c]) \<noteq> {} \<and> (\<forall>i. fresh s L c i \<longrightarrow> longer L s (int (length (L ! p))) i) \<and>
      (\<forall>i < length L. suffix (L ! i) s \<longrightarrow> endpos s (L ! i @ [c]) \<noteq> {} \<longrightarrow> suffix (L ! i) (L ! p)) \<and>
      climb_links c (int (length L)) (sa\<lparr>states := retarget (longer L s (int (length (L ! k)))) c (int (length L)) xs\<rparr>)
        (int k) (get_transition c (xs ! k)) =
      Some (sa\<lparr>states := retarget (fresh s L c) c (int (length L)) xs\<rparr>, int p, get_transition c (xs ! p), False))"
  using k
proof (induction "length (L ! k)" arbitrary: k rule: less_induct)
  case less
  let ?n = "length L" and ?R = "\<lambda>P. retarget P c (int (length L)) xs"
  have ok: "state_ok s L k (xs ! k)" and k: "k < length xs"
    using xs less.prems by auto
  note tr = get_transition_ok [OF state_okD(5) [OF ok] L, of c]
  have not_longer: "\<not> longer L s (int (length (L ! k))) k" "\<not> longer L s (int (length (L ! k))) ?n"
    by (auto simp: longer_def)
  show ?case
  proof (cases "endpos s (L ! k @ [c]) = {}")
    case False
    have "?R (longer L s (int (length (L ! k)))) = ?R (fresh s L c)"
      by (rule retarget_cong) (use fresh_longer [OF L less.prems(1, 2) False less.prems(3)] in simp)
    moreover have "suffix (L ! i) (L ! k)" if "i < ?n" "suffix (L ! i) s" "endpos s (L ! i @ [c]) \<noteq> {}" for i
    proof -
      have "\<not> longer L s (int (length (L ! k))) i"
        using less.prems(3) that(3) by blast
      then show ?thesis
        using that less.prems(2) by (auto simp: longer_def not_less intro: suffix_length_suffix)
    qed
    moreover have "get_transition c (xs ! k) \<noteq> - 1"
      using tr(1) False by simp
    ultimately show ?thesis
      using False less.prems fresh_longer [OF L less.prems(1, 2) False less.prems(3)]
      by (subst climb_links.simps, subst climb_links.simps) auto
  next
    case True
    have t: "get_transition c (xs ! k) = - 1" "st_transitions (xs ! k) c = None"
      using tr True state_okD(5) [OF ok, of c] label_maximal [OF L]
      by (auto simp: tr_ok_def maximal_def split: option.splits)
    show ?thesis
    proof (cases "k = 0")
      case root: True
      have "L ! k = []" "st_link (xs ! k) = - 1"
        using root L state_okD(4) [OF ok] by (auto simp: labels_ok_def link_ok_def)
      moreover have all: "longer L s (- 1) i \<longleftrightarrow> fresh s L c i" for i
        using longer_root [OF L, of s i] less.prems(3) [of i] True calculation(1) root less.prems(1)
        by (auto simp: fresh_def longer_def)
      moreover have "(?R (longer L s 0))[k := (xs ! k)\<lparr>st_transitions := (st_transitions (xs ! k))(c \<mapsto> int ?n)\<rparr>] = ?R (fresh s L c)"
        by (rule retarget_step [OF k]) (use all longer_root [OF L] root in simp)
      moreover have "\<not> fresh s L c ?n" "fresh s L c 0" "endpos s [c] = {}"
        using True root calculation(1) less.prems(1) by (auto simp: fresh_def)
      ultimately show ?thesis
        using t not_longer k xs(2, 3) root
        by (subst climb_links.simps) (auto simp: add_transition_def)
    next
      case False
      then obtain j where j: "j < ?n" "st_link (xs ! k) = int j" "link_word s (L ! j) (L ! k)"
        using state_okD(4) [OF ok] by (auto simp: link_ok_def)
      have up: "longer L s (int (length (L ! j))) i \<longleftrightarrow> longer L s (int (length (L ! k))) i \<or> i = k" for i
        by (rule longer_link [OF L less.prems(1, 2) j(3)])
      have "(?R (longer L s (int (length (L ! k)))))[k := (xs ! k)\<lparr>st_transitions := (st_transitions (xs ! k))(c \<mapsto> int ?n)\<rparr>] =
          ?R (longer L s (int (length (L ! j))))"
        by (rule retarget_step [OF k]) (use up in simp)
      moreover have "\<not> longer L s (int (length (L ! j))) j"
        by (simp add: longer_def)
      ultimately have "climb_links c (int ?n) (sa\<lparr>states := ?R (longer L s (int (length (L ! k))))\<rparr>) (int k) (get_transition c (xs ! k)) =
          climb_links c (int ?n) (sa\<lparr>states := ?R (longer L s (int (length (L ! j))))\<rparr>) (int j) (get_transition c (xs ! j))"
        using t not_longer k xs(2, 3) j up
        by (subst climb_links.simps) (simp add: add_transition_def)
      moreover have "length (L ! j) < length (L ! k)" "suffix (L ! j) s"
        using j(3) less.prems(2) suffix_order.trans by (auto simp: link_word_def suffix_def)
      ultimately show ?thesis
        using less.hyps [of j] j(1) up less.prems(3) True by auto
    qed
  qed
qed

definition turned :: "u16 list \<Rightarrow> u16 list list \<Rightarrow> u16 \<Rightarrow> nat \<Rightarrow> nat \<Rightarrow> nat \<Rightarrow> bool" where
  "turned s L c p q i \<longleftrightarrow> i < length L \<and> suffix (L ! i) (L ! p) \<and> endpos s (L ! i @ [c]) = endpos s (L ! q)"

lemma redirect_links_ok:
  assumes L: "labels_ok s L" and xs: "length L \<le> length xs"
    and chain: "\<And>i. i < length L \<Longrightarrow> suffix (L ! i) (L ! p) \<Longrightarrow>
      link_ok s L i (st_link (xs ! i)) \<and> tr_ok s L (L ! i) c (st_transitions (xs ! i) c)"
    and p: "endpos s (L ! p @ [c]) = endpos s (L ! q)" and q: "q < length L"
    and k: "k < length L" "suffix (L ! k) (L ! p)"
  shows "redirect_links c (int q) t
      (sa\<lparr>states := retarget (\<lambda>i. turned s L c p q i \<and> length (L ! k) < length (L ! i)) c t xs\<rparr>)
      (int k) (get_transition c (xs ! k)) =
    Some (sa\<lparr>states := retarget (turned s L c p q) c t xs\<rparr>)"
  using k
proof (induction "length (L ! k)" arbitrary: k rule: less_induct)
  case less
  let ?T = "\<lambda>k i. turned s L c p q i \<and> length (L ! k) < length (L ! i)"
  let ?R = "\<lambda>P. retarget P c t xs"
  have k: "k < length xs"
    using less.prems(1) xs by simp
  note chain_k = chain [OF less.prems]
  have "endpos s (L ! k @ [c]) \<noteq> {}"
    using endpos_suffix [of "L ! k @ [c]" "L ! p @ [c]" s] less.prems(2) p label_maximal [OF L q]
    by (auto simp: suffix_snoc maximal_def)
  then obtain j where j: "j < length L" "get_transition c (xs ! k) = int j" "endpos s (L ! j) = endpos s (L ! k @ [c])"
      "st_transitions (xs ! k) c \<noteq> None"
    using get_transition_ok [OF _ L, of "L ! k" c "xs ! k"] chain_k by (fastforce simp: tr_ok_def split: option.splits)
  have "turned s L c p q k \<longleftrightarrow> j = q"
    using less.prems j(1, 3) label_endpos_eq [OF L j(1) q] by (auto simp: turned_def)
  show ?case
  proof (cases "j = q")
    case False
    have "?T k i \<longleftrightarrow> turned s L c p q i" for i
    proof -
      have False if i: "turned s L c p q i" "\<not> length (L ! k) < length (L ! i)"
      proof -
        have "suffix (L ! i @ [c]) (L ! k @ [c])" "suffix (L ! k @ [c]) (L ! p @ [c])"
          using i less.prems(2) by (auto simp: turned_def suffix_snoc intro: suffix_length_suffix)
        then have "endpos s (L ! k @ [c]) = endpos s (L ! q)"
          using endpos_between [of "L ! i @ [c]" "L ! k @ [c]" "L ! p @ [c]" s] i(1) p by (simp add: turned_def)
        then show False
          using False j(3) label_endpos_eq [OF L j(1) q] by simp
      qed
      then show ?thesis by blast
    qed
    then show ?thesis
      using False j(2) by (subst redirect_links.simps) simp
  next
    case True
    show ?thesis
    proof (cases "k = 0")
      case root: True
      have l: "st_link (xs ! k) = - 1"
        using chain_k root by (simp add: link_ok_def)
      have "turned s L c p q i \<longleftrightarrow> ?T k i \<or> i = k" for i
        using root True \<open>turned s L c p q k \<longleftrightarrow> j = q\<close> label_pos [OF L, of i] L by (auto simp: turned_def labels_ok_def)
      then have "(?R (?T k))[k := (xs ! k)\<lparr>st_transitions := (st_transitions (xs ! k))(c \<mapsto> t)\<rparr>] = ?R (turned s L c p q)"
        by (intro retarget_step [OF k]) simp
      moreover have "redirect_links c (int q) t sb (- 1) (int q) = Some sb" for sb
        by (subst redirect_links.simps) simp
      ultimately show ?thesis
        using l j True k by (subst redirect_links.simps) (auto simp: update_transition_def)
    next
      case False
      then obtain m where m: "m < length L" "st_link (xs ! k) = int m" "link_word s (L ! m) (L ! k)"
        using chain_k by (auto simp: link_ok_def)
      have up: "?T m i \<longleftrightarrow> ?T k i \<or> i = k" for i
        using longer_link [OF L less.prems m(3), of i] \<open>turned s L c p q k \<longleftrightarrow> j = q\<close> True
        by (auto simp: turned_def longer_def)
      then have "(?R (?T k))[k := (xs ! k)\<lparr>st_transitions := (st_transitions (xs ! k))(c \<mapsto> t)\<rparr>] = ?R (?T m)"
        by (intro retarget_step [OF k]) simp
      moreover have "m < length xs"
        using m(1) xs by simp
      ultimately have "redirect_links c (int q) t (sa\<lparr>states := ?R (?T k)\<rparr>) (int k) (get_transition c (xs ! k)) =
          redirect_links c (int q) t (sa\<lparr>states := ?R (?T m)\<rparr>) (int m) (get_transition c (xs ! m))"
        using m(2) j True k by (subst redirect_links.simps) (auto simp: update_transition_def)
      moreover have "length (L ! m) < length (L ! k)" "suffix (L ! m) (L ! p)"
        using m(3) less.prems(2) suffix_order.trans by (auto simp: link_word_def suffix_def)
      ultimately show ?thesis
        using less.hyps [of m] m(1) by simp
    qed
  qed
qed

subsection \<open>States when the text grows\<close>

definition grown :: "u16 list \<Rightarrow> u16 \<Rightarrow> u16 list list \<Rightarrow> u16 list list \<Rightarrow> bool" where
  "grown s c L L' \<longleftrightarrow> length L < length L' \<and> L' ! length L = s @ [c] \<and> (\<forall>i < length L. L' ! i = L ! i)"

lemma Min_endpos_append1:
  assumes "endpos s u \<noteq> {}"
  shows "Min (endpos (s @ [c]) u) = Min (endpos s u)"
proof (rule Min_eqI)
  show "Min (endpos s u) \<in> endpos (s @ [c]) u"
    using assms Min_in [of "endpos s u"] by (auto simp: endpos_append1)
next
  fix e assume "e \<in> endpos (s @ [c]) u"
  moreover have "Min (endpos s u) \<le> length s"
    using assms endpos_le [OF Min_in [of "endpos s u"]] by simp
  ultimately show "Min (endpos s u) \<le> e"
    by (auto simp: endpos_append1 split: if_splits)
qed simp

lemma tr_fresh:
  assumes "grown s c L L'" "suffix u s" "endpos s (u @ [c]) = {}"
  shows "tr_ok (s @ [c]) L' u c (Some (int (length L)))"
  using assms endpos_self [of "s @ [c]"] endpos_append1 [of s c "u @ [c]"]
  by (auto simp: tr_ok_def grown_def suffix_snoc intro!: exI [of _ "length L"])

lemma tr_grow:
  assumes L: "labels_ok s L" "grown s c L L'" and z: "longest_old s c z" and t: "tr_ok s L u d t"
    and "t = None \<Longrightarrow> \<not> (d = c \<and> suffix u s)"
    and "\<And>j. j < length L \<Longrightarrow> t = Some (int j) \<Longrightarrow> endpos s (L ! j) \<noteq> endpos s z \<or> L ! j = z"
  shows "tr_ok (s @ [c]) L' u d t"
proof (cases t)
  case None
  then have "\<not> suffix (u @ [d]) (s @ [c])" "endpos s (u @ [d]) = {}"
    using assms(5) t by (auto simp: suffix_snoc tr_ok_def)
  then show ?thesis
    using None by (simp add: tr_ok_def endpos_append1)
next
  case (Some k)
  then obtain j where j: "j < length L" "k = int j" "endpos s (L ! j) = endpos s (u @ [d])"
    using t by (auto simp: tr_ok_def)
  have "endpos (s @ [c]) (u @ [d]) = endpos (s @ [c]) (L ! j)"
    by (rule class_kept [OF z label_maximal [OF L(1) j(1)]]) (use j Some assms(6) in auto)
  then show ?thesis
    using Some j L(2) by (auto simp: tr_ok_def grown_def)
qed

lemma tr_turn:
  assumes L: "labels_ok s L" "grown s c L L'" and z: "longest_old s c z" "endpos s z = endpos s (L ! q)" "L ! q \<noteq> z"
    and q: "q < length L" "endpos s (L ! q) = endpos s (u @ [d])"
    and L': "m < length L'" "L' ! m = z"
  shows "tr_ok (s @ [c]) L' u d (Some (int (if suffix (u @ [d]) z then m else q)))"
  using class_split [OF z(1) label_maximal [OF L(1) q(1)] z(2, 3), of "u @ [d]"] q L(2) L'
  by (auto simp: tr_ok_def grown_def)

lemma link_grow:
  assumes L: "labels_ok s L" "grown s c L L'" and z: "longest_old s c z" and i: "i < length L" "link_ok s L i l"
    and "maximal s z \<or> endpos s (L ! i) \<noteq> endpos s z"
  shows "link_ok (s @ [c]) L' i l"
  using i L link_kept [OF z label_maximal [OF L(1) i(1)] _ assms(6)]
  by (fastforce simp: link_ok_def grown_def)

lemma first_grow:
  assumes L: "labels_ok s L" "grown s c L L'" and "i < length L"
  shows "Min (endpos (s @ [c]) (L' ! i)) = Min (endpos s (L ! i))"
  using assms label_maximal [OF L(1)] by (simp add: Min_endpos_append1 grown_def maximal_def)

text \<open>The state created for the whole text.\<close>

definition current_state_of :: "u16 list \<Rightarrow> nat \<Rightarrow> int \<Rightarrow> sa_state" where
  "current_state_of s n l = \<lparr>st_length = int (length s) + 1, st_link = l, st_first = int (length s), st_index = int n,
     st_references = [], st_transitions = Map.empty\<rparr>"

lemma current_state_ok:
  assumes L: "labels_ok s L" "grown s c L L'" and z: "longest_old s c z" and m: "m < length L'" "L' ! m = z"
  shows "state_ok (s @ [c]) L' (length L) (current_state_of s (length L) (int m))"
proof -
  have "endpos (s @ [c]) ((s @ [c]) @ [d]) = {}" for d
    using endpos_le [of _ "s @ [c]" "(s @ [c]) @ [d]"] by fastforce
  then show ?thesis
    using L m link_whole [OF z] endpos_self [of "s @ [c]"]
    by (auto simp: state_ok_def current_state_of_def link_ok_def tr_ok_def grown_def labels_ok_def)
qed

lemma labels_grow:
  assumes L: "labels_ok s L" and z: "longest_old s c z"
  shows "maximal s z \<Longrightarrow> labels_ok (s @ [c]) (L @ [s @ [c]])"
    and "\<not> maximal s z \<Longrightarrow> labels_ok (s @ [c]) (L @ [s @ [c], z])"
proof -
  have "s @ [c] \<notin> set L" "z \<noteq> s @ [c]"
    using L old_not_whole [of s "s @ [c]"] longest_oldD(2) [OF z] old_not_whole [of s z] by (auto simp: labels_ok_def maximal_def)
  then show "maximal s z \<Longrightarrow> labels_ok (s @ [c]) (L @ [s @ [c]])" "\<not> maximal s z \<Longrightarrow> labels_ok (s @ [c]) (L @ [s @ [c], z])"
    using L maximal_snoc [OF z] by (auto simp: labels_ok_def nth_append)
qed

lemma grown_append: "grown s c L (L @ (s @ [c]) # ws)"
  by (simp add: grown_def nth_append)

lemma tr_extend:
  assumes L: "labels_ok s L" "grown s c L L'" and z: "longest_old s c z" and t: "tr_ok s L u d (T d)"
    and b: "b \<longleftrightarrow> suffix u s \<and> endpos s (u @ [c]) = {}"
    and "\<And>j. j < length L \<Longrightarrow> T d = Some (int j) \<Longrightarrow> endpos s (L ! j) \<noteq> endpos s z \<or> L ! j = z"
  shows "tr_ok (s @ [c]) L' u d ((if b then T(c \<mapsto> int (length L)) else T) d)"
proof (cases "b \<and> d = c")
  case True
  then show ?thesis
    using tr_fresh [OF L(2)] b by simp
next
  case False
  then have "T d = None \<Longrightarrow> \<not> (d = c \<and> suffix u s)"
    using t b by (auto simp: tr_ok_def)
  then have "tr_ok (s @ [c]) L' u d (T d)"
    by (rule tr_grow [OF L z t]) (use assms(6) in auto)
  then show ?thesis
    using False by auto
qed

lemma sa_okD:
  assumes "sa_ok s L sa k"
  shows "labels_ok s L" "length (states sa) = length L" "\<And>i. i < length L \<Longrightarrow> state_ok s L i (states sa ! i)"
    "k < length L" "L ! k = s" "\<not> suffix_references sa"
  using assms by (auto simp: sa_ok_def)

lemma no_clone_ok:
  assumes sa: "sa_ok s L sa k" and z: "longest_old s c z" and m: "m < length L" "L ! m = z"
  shows "sa_ok (s @ [c]) (L @ [s @ [c]])
    (sa\<lparr>states := (retarget (fresh s L c) c (int (length L)) (states sa @ [x]))
       [length L := current_state_of s (length L) (int m)]\<rparr>) (length L)"
    (is "sa_ok _ ?L (sa\<lparr>states := ?ys\<rparr>) ?n")
proof -
  note L = sa_okD(1) [OF sa] and sts = sa_okD(2, 3) [OF sa]
  have g: "grown s c L ?L" and max: "maximal s z"
    using grown_append label_maximal [OF L m(1)] m(2) by auto
  have "state_ok (s @ [c]) ?L i (?ys ! i)" if i: "i < length L" for i
  proof -
    let ?T = "st_transitions (states sa ! i)"
    have y: "?ys ! i = (states sa ! i)\<lparr>st_transitions := if fresh s L c i then ?T(c \<mapsto> int ?n) else ?T\<rparr>"
      using i sts(1) by (auto simp: nth_append)
    have tr: "tr_ok (s @ [c]) ?L (L ! i) d ((if fresh s L c i then ?T(c \<mapsto> int ?n) else ?T) d)" for d
      by (rule tr_extend [where T = ?T, OF L g z state_okD(5) [OF sts(2) [OF i]]])
        (use i max maximal_unique label_maximal [OF L] in \<open>auto simp: fresh_def\<close>)
    show ?thesis
      using state_okD [OF sts(2) [OF i]] tr link_grow [OF L g z i] first_grow [OF L g i] max i
      unfolding y by (auto simp: state_ok_def nth_append)
  qed
  moreover have "state_ok (s @ [c]) ?L ?n (?ys ! ?n)"
    using current_state_ok [OF L g z, of m] m sts(1) by (simp add: nth_append)
  ultimately show ?thesis
    using sts(1) labels_grow(1) [OF L z max] sa_okD(6) [OF sa] by (auto simp: sa_ok_def less_Suc_eq)
qed

definition cloned_states ::
  "u16 list \<Rightarrow> u16 list list \<Rightarrow> u16 \<Rightarrow> nat \<Rightarrow> nat \<Rightarrow> sa_state list \<Rightarrow> sa_state list" where
  "cloned_states s L c p q ys =
     (ys @ [\<lparr>st_length = int (length (L ! p)) + 1, st_link = st_link (ys ! q), st_first = st_first (ys ! q),
             st_index = int (length L) + 1, st_references = [], st_transitions = st_transitions (ys ! q)\<rparr>])
       [length L := current_state_of s (length L) (int (length L) + 1), q := (ys ! q)\<lparr>st_link := int (length L) + 1\<rparr>]"

definition clone_site :: "u16 list \<Rightarrow> u16 list list \<Rightarrow> u16 \<Rightarrow> nat \<Rightarrow> nat \<Rightarrow> bool" where
  "clone_site s L c p q \<longleftrightarrow> labels_ok s L \<and> longest_old s c (L ! p @ [c]) \<and> p < length L \<and> q < length L \<and>
     endpos s (L ! p @ [c]) = endpos s (L ! q) \<and> L ! q \<noteq> L ! p @ [c]"

definition add_fresh ::
  "u16 list \<Rightarrow> u16 list list \<Rightarrow> u16 \<Rightarrow> nat \<Rightarrow> (u16 \<rightharpoonup> int) \<Rightarrow> u16 \<rightharpoonup> int" where
  "add_fresh s L c i T = (if fresh s L c i then T(c \<mapsto> int (length L)) else T)"

lemma clone_siteD:
  assumes "clone_site s L c p q"
  shows "labels_ok s L" "longest_old s c (L ! p @ [c])" "q < length L" "p < length L"
    "endpos s (L ! p @ [c]) = endpos s (L ! q)" "L ! q \<noteq> L ! p @ [c]"
    "maximal s (L ! q)" "\<not> maximal s (L ! p @ [c])" "0 < q"
proof -
  show L: "labels_ok s L" and q: "q < length L" "endpos s (L ! p @ [c]) = endpos s (L ! q)" "L ! q \<noteq> L ! p @ [c]"
    and "longest_old s c (L ! p @ [c])" "p < length L"
    using assms by (auto simp: clone_site_def)
  show m: "maximal s (L ! q)"
    by (rule label_maximal [OF L q(1)])
  then show "\<not> maximal s (L ! p @ [c])"
    using maximal_unique q(2, 3) by blast
  show "0 < q"
    using label_pos [OF L q(1)] maximal_suffix [OF m q(2)] by auto
qed

lemma clone_tr_old:
  assumes site: "clone_site s L c p q" and i: "i < length L" and t: "tr_ok s L (L ! i) d (T d)"
  shows "tr_ok (s @ [c]) (L @ [s @ [c], L ! p @ [c]]) (L ! i) d
    ((if turned s L c p q i then (add_fresh s L c i T)(c \<mapsto> int (length L) + 1) else add_fresh s L c i T) d)"
    (is "tr_ok _ ?L _ _ (?f d)")
proof -
  note D = clone_siteD [OF site] and g = grown_append [of s c L "[L ! p @ [c]]"]
  have new: "Suc (length L) < length ?L" "?L ! Suc (length L) = L ! p @ [c]"
    by (simp_all add: nth_append)
  show ?thesis
  proof (cases "T d = Some (int q)")
    case True
    then have e: "endpos s (L ! q) = endpos s (L ! i @ [d])"
      using t by (auto simp: tr_ok_def)
    then have "\<not> (d = c \<and> fresh s L c i)" "d = c \<Longrightarrow> turned s L c p q i \<longleftrightarrow> suffix (L ! i @ [d]) (L ! p @ [c])"
        "d \<noteq> c \<Longrightarrow> \<not> suffix (L ! i @ [d]) (L ! p @ [c])"
      using i D(7) by (auto simp: turned_def fresh_def suffix_snoc maximal_def)
    then have "?f d = Some (int (if suffix (L ! i @ [d]) (L ! p @ [c]) then Suc (length L) else q))"
      using True by (auto simp: add_fresh_def)
    then show ?thesis
      using tr_turn [OF D(1) g D(2, 5, 6, 3) e new] by simp
  next
    case False
    then have "\<not> (d = c \<and> turned s L c p q i)"
      using t label_endpos_eq [OF D(1) _ D(3)] D(7)
      by (auto simp: tr_ok_def turned_def maximal_def split: option.splits)
    moreover have "tr_ok (s @ [c]) ?L (L ! i) d (add_fresh s L c i T d)"
      unfolding add_fresh_def
      by (rule tr_extend [where T = T, OF D(1) g D(2) t])
        (use i False D(5) label_endpos_eq [OF D(1) _ D(3)] in \<open>auto simp: fresh_def\<close>)
    ultimately show ?thesis
      by auto
  qed
qed

lemma clone_tr_new:
  assumes site: "clone_site s L c p q" and t: "tr_ok s L (L ! q) d (T d)"
  shows "tr_ok (s @ [c]) (L @ [s @ [c], L ! p @ [c]]) (L ! p @ [c]) d (add_fresh s L c q T d)"
    (is "tr_ok _ ?L ?z _ _")
proof -
  note D = clone_siteD [OF site] and g = grown_append [of s c L "[L ! p @ [c]]"]
  have same: "endpos s (?z @ [d]) = endpos s (L ! q @ [d])" for d
    by (rule endpos_snoc_cong [OF D(5)])
  have "suffix ?z s \<longleftrightarrow> suffix (L ! q) s"
    using D(5) endpos_length by metis
  then have b: "fresh s L c q \<longleftrightarrow> suffix ?z s \<and> endpos s (?z @ [c]) = {}"
    using D(3) same by (simp add: fresh_def)
  have t': "tr_ok s L ?z d (T d)"
    using t unfolding tr_ok_def same .
  show ?thesis
  proof (cases "T d = Some (int q)")
    case True
    then have e: "endpos s (L ! q) = endpos s (?z @ [d])"
      using t' by (auto simp: tr_ok_def)
    then have "\<not> (d = c \<and> fresh s L c q)" "\<not> suffix (?z @ [d]) ?z"
      using b D(7) by (auto simp: maximal_def dest: suffix_length_le)
    then show ?thesis
      using True tr_turn [OF D(1) g D(2, 5, 6, 3) e, of "Suc (length L)"] by (auto simp: add_fresh_def nth_append)
  next
    case False
    show ?thesis
      unfolding add_fresh_def
      by (rule tr_extend [where T = T, OF D(1) g D(2) t' b])
        (use False D(5) label_endpos_eq [OF D(1) _ D(3)] in auto)
  qed
qed

lemma clone_ok:
  assumes sa: "sa_ok s L sa k" and site: "clone_site s L c p q"
  shows "sa_ok (s @ [c]) (L @ [s @ [c], L ! p @ [c]])
    (sa\<lparr>states := retarget (turned s L c p q) c (int (length L) + 1)
        (cloned_states s L c p q (retarget (fresh s L c) c (int (length L)) (states sa @ [x])))\<rparr>) (length L)"
    (is "sa_ok _ ?L (sa\<lparr>states := ?ys\<rparr>) ?n")
proof -
  note D = clone_siteD [OF site] and g = grown_append [of s c L "[L ! p @ [c]]"]
  note sts = sa_okD(2, 3) [OF sa] and q = D(3)
  have lq: "link_ok s L q (st_link (states sa ! q))"
    using state_okD(4) [OF sts(2) [OF q]] .
  have split: "link_word (s @ [c]) (L ! p @ [c]) (L ! q)"
      "\<exists>j < ?n. st_link (states sa ! q) = int j \<and> link_word (s @ [c]) (L ! j) (L ! p @ [c])"
    using lq link_split [OF D(2, 8, 7, 5)] D(9) by (auto simp: link_ok_def)
  have "state_ok (s @ [c]) ?L i (?ys ! i)" if i: "i < length L" for i
  proof -
    let ?st = "states sa ! i" and ?fs = "add_fresh s L c i (st_transitions (states sa ! i))"
    have y: "?ys ! i = ?st\<lparr>st_link := if i = q then int ?n + 1 else st_link ?st,
        st_transitions := if turned s L c p q i then ?fs(c \<mapsto> int ?n + 1) else ?fs\<rparr>"
      using i q sts(1) by (auto simp: nth_append cloned_states_def nth_list_update add_fresh_def)
    have "link_ok (s @ [c]) ?L i (if i = q then int ?n + 1 else st_link ?st)"
    proof (cases "i = q")
      case True
      then show ?thesis
        using split(1) D(9) q by (auto simp: link_ok_def nth_append intro!: exI [of _ "Suc ?n"])
    next
      case False
      then show ?thesis
        using link_grow [OF D(1) g D(2) i state_okD(4) [OF sts(2) [OF i]]] label_endpos_eq [OF D(1) i q] D(5) by simp
    qed
    then show ?thesis
      using state_okD [OF sts(2) [OF i]] clone_tr_old [OF site i] first_grow [OF D(1) g i] i
      unfolding y by (simp add: state_ok_def nth_append)
  qed
  moreover have "state_ok (s @ [c]) ?L ?n (?ys ! ?n)"
    using current_state_ok [OF D(1) g D(2), of "Suc ?n"] q sts(1)
    by (simp add: nth_append cloned_states_def turned_def add.commute)
  moreover have "state_ok (s @ [c]) ?L (Suc ?n) (?ys ! Suc ?n)"
  proof -
    have y: "?ys ! Suc ?n = \<lparr>st_length = int (length (L ! p)) + 1, st_link = st_link (states sa ! q),
        st_first = st_first (states sa ! q), st_index = int ?n + 1, st_references = [],
        st_transitions = add_fresh s L c q (st_transitions (states sa ! q))\<rparr>"
      using q sts(1) by (simp add: cloned_states_def nth_append turned_def add_fresh_def)
    have "link_ok (s @ [c]) ?L (Suc ?n) (st_link (states sa ! q))"
      using split(2) by (auto simp: link_ok_def nth_append)
    moreover have "Min (endpos (s @ [c]) (L ! p @ [c])) = Min (endpos s (L ! q))"
      using Min_endpos_append1 [OF longest_oldD(2) [OF D(2)]] D(5) by simp
    ultimately show ?thesis
      using clone_tr_new [where T = "st_transitions (states sa ! q)", OF site state_okD(5) [OF sts(2) [OF q]]] state_okD(6) [OF sts(2) [OF q] D(9)]
      unfolding y by (simp add: state_ok_def nth_append)
  qed
  ultimately show ?thesis
    using sts(1) labels_grow(2) [OF D(1, 2, 8)] sa_okD(6) [OF sa] by (auto simp: sa_ok_def less_Suc_eq cloned_states_def)
qed

subsection \<open>One step\<close>

lemma add_state_ok:
  assumes "sa_ok s L sa k"
  shows "add_state junk len sa = Some (sa\<lparr>states := states sa @ [\<lparr>st_length = len, st_link = junk, st_first = junk,
    st_index = int (length L), st_references = [], st_transitions = Map.empty\<rparr>]\<rparr>, int (length L))"
proof -
  have ne: "states sa \<noteq> []" "0 < length L" "length (states sa) = length L"
    using sa_okD(2, 4) [OF assms] by auto
  then have "st_index (last (states sa)) = int (length L - 1)"
    using state_okD(2) [OF sa_okD(3) [OF assms, of "length L - 1"]] by (simp add: last_conv_nth)
  then have "states sa \<noteq> []" "st_index (last (states sa)) + 1 = int (length L)"
    using ne by auto
  then show ?thesis
    by (simp add: add_state_def Let_def)
qed

lemma extend_unfold:
  assumes sa: "sa_ok s L sa k"
  shows "extend_automaton junk c (sa, int k) =
    do { (sa', linked, transition, root_passed) \<leftarrow>
           climb_links c (int (length L)) (sa\<lparr>states := states sa @ [current_state_of s (length L) junk]\<rparr>)
             (int k) (get_transition c (states sa ! k));
         if root_passed then Some (sa', int (length L))
         else do {
           s1 \<leftarrow> state_at sa' linked;
           s2 \<leftarrow> state_at sa' transition;
           if st_length s2 = st_length s1 + 1
           then do { sa' \<leftarrow> on_state (int (length L)) (st_link_update (\<lambda>_. st_index s2)) sa'; Some (sa', int (length L)) }
           else do { sa' \<leftarrow> clone_state junk c (int (length L)) linked transition sa'; Some (sa', int (length L)) } } }"
  using sa_okD [OF sa] state_okD(1) [OF sa_okD(3) [OF sa sa_okD(4) [OF sa]]] add_state_ok [OF sa]
  by (simp add: extend_automaton_def nth_append list_update_append current_state_of_def sa_okD(5) [OF sa])

lemma clone_state_result:
  assumes sa: "sa_ok s L sa k" and site: "clone_site s L c p q"
    and ys_def: "ys = retarget (fresh s L c) c (int (length L)) (states sa @ [current_state_of s (length L) junk])"
  shows "clone_state junk c (int (length L)) (int p) (int q) (sa\<lparr>states := ys\<rparr>) =
    Some (sa\<lparr>states := retarget (turned s L c p q) c (int (length L) + 1) (cloned_states s L c p q ys)\<rparr>)"
proof -
  note D = clone_siteD [OF site] and sts = sa_okD(2, 3) [OF sa]
  let ?n = "length L" and ?zs = "cloned_states s L c p q ys"
  have len: "length ys = Suc ?n" "length ?zs = Suc (Suc ?n)"
    using sts(1) by (simp_all add: ys_def cloned_states_def)
  then have "ys \<noteq> []"
    by auto
  have yn: "ys ! ?n = current_state_of s ?n junk"
    using sts(1) by (simp add: ys_def fresh_def nth_append)
  have yi: "ys ! i = (states sa ! i)\<lparr>st_transitions := add_fresh s L c i (st_transitions (states sa ! i))\<rparr>" if "i < ?n" for i
    using that sts(1) by (simp add: ys_def nth_append add_fresh_def)
  have "q \<noteq> p"
    using D(5, 6) endpos_suffix maximal_suffix [OF D(7, 5)] by (auto dest: suffix_length_le)
  have short: "i \<noteq> q" "\<not> fresh s L c i" if "i < ?n" "suffix (L ! i) (L ! p)" for i
    using that maximal_suffix [OF D(7, 5)] endpos_suffix [of "L ! i @ [c]" "L ! p @ [c]" s] longest_oldD(2) [OF D(2)]
    by (auto simp: fresh_def suffix_snoc dest!: suffix_length_le)
  have zi: "?zs ! i = states sa ! i" if "i < ?n" "suffix (L ! i) (L ! p)" for i
    using that short [OF that] yi [of i] len(1) by (simp add: cloned_states_def nth_append add_fresh_def)
  have "redirect_links c (int q) (int ?n + 1) (sa\<lparr>states := ?zs\<rparr>) (int p) (get_transition c (?zs ! p)) =
      Some (sa\<lparr>states := retarget (turned s L c p q) c (int ?n + 1) ?zs\<rparr>)"
  proof -
    have "retarget (\<lambda>i. turned s L c p q i \<and> length (L ! p) < length (L ! i)) c (int ?n + 1) ?zs = ?zs"
      by (rule retarget_none) (auto simp: turned_def dest: suffix_length_le)
    moreover have "link_ok s L i (st_link (?zs ! i)) \<and> tr_ok s L (L ! i) c (st_transitions (?zs ! i) c)"
      if "i < ?n" "suffix (L ! i) (L ! p)" for i
      using zi [OF that] state_okD(4, 5) [OF sts(2) [OF that(1)]] by simp
    ultimately show ?thesis
      using redirect_links_ok [of s L ?zs p c q p "int ?n + 1" sa] D len(2) by simp
  qed
  moreover have "get_transition c (?zs ! p) = int q"
    using zi [of p] D(4, 5) state_okD(5) [OF sts(2) [OF D(4)], of c] label_endpos_eq [OF D(1) _ D(3)] longest_oldD(2) [OF D(2)]
    by (auto simp: tr_ok_def get_transition_def split: option.splits)
  ultimately have red: "redirect_links c (int q) (int ?n + 1) (sa\<lparr>states := ?zs\<rparr>) (int p) (int q) =
      Some (sa\<lparr>states := retarget (turned s L c p q) c (int ?n + 1) ?zs\<rparr>)"
    by simp
  show ?thesis
    using red len D(3, 4) yn yi [of p] sts(1) state_okD(1) [OF sts(2) [OF D(4)]] \<open>ys \<noteq> []\<close>
    by (simp add: clone_state_def add_state_def last_conv_nth nth_append Let_def current_state_of_def cloned_states_def
        list_update_append)
qed

text \<open>The case that the first loop stops at a state \<open>p\<close> with a transition.\<close>

lemma extend_stop_ok:
  assumes sa: "sa_ok s L sa k"
    and ys_def: "ys = retarget (fresh s L c) c (int (length L)) (states sa @ [current_state_of s (length L) junk])"
    and p: "p < length L" "suffix (L ! p) s" "endpos s (L ! p @ [c]) \<noteq> {}"
      "\<forall>i < length L. suffix (L ! i) s \<longrightarrow> endpos s (L ! i @ [c]) \<noteq> {} \<longrightarrow> suffix (L ! i) (L ! p)"
    and climb: "climb_links c (int (length L)) (sa\<lparr>states := states sa @ [current_state_of s (length L) junk]\<rparr>)
        (int k) (get_transition c (states sa ! k)) = Some (sa\<lparr>states := ys\<rparr>, int p, get_transition c (states sa ! p), False)"
  shows "\<exists>L' sa'. extend_automaton junk c (sa, int k) = Some (sa', int (length L)) \<and> sa_ok (s @ [c]) L' sa' (length L)
    \<and> length L' \<le> length L + 2"
proof -
  note L = sa_okD(1) [OF sa] and sts = sa_okD(2, 3) [OF sa]
  let ?n = "length L"
  have z: "longest_old s c (L ! p @ [c])"
    by (rule longest_old_step [OF p(2, 3)]) (metis p(4) label_index [OF L])
  obtain q where q: "q < ?n" "get_transition c (states sa ! p) = int q" "endpos s (L ! q) = endpos s (L ! p @ [c])"
    using get_transition_ok [OF state_okD(5) [OF sts(2) [OF p(1)]] L, of c] p(3) by auto
  have ys: "length ys = Suc ?n" "ys ! p = states sa ! p" "ys ! ?n = current_state_of s ?n junk"
      "st_length (ys ! q) = int (length (L ! q))" "st_index (ys ! q) = int q" "st_length (states sa ! p) = int (length (L ! p))"
    using p(1, 3) q(1) sts state_okD(1, 2) [OF sts(2) [OF q(1)]] state_okD(1) [OF sts(2) [OF p(1)]]
    by (auto simp: ys_def nth_append fresh_def)
  have suf: "suffix (L ! p @ [c]) (L ! q)"
    using maximal_suffix [OF label_maximal [OF L q(1)]] q(3) by simp
  show ?thesis
  proof (cases "length (L ! q) = length (L ! p) + 1")
    case True
    then have eq: "L ! q = L ! p @ [c]"
      using suf by (auto simp: suffix_def)
    then have "extend_automaton junk c (sa, int k) = Some (sa\<lparr>states := ys[?n := current_state_of s ?n (int q)]\<rparr>, int ?n)"
      using extend_unfold [OF sa, of junk c] climb p(1) q ys by (simp add: current_state_of_def)
    then show ?thesis
      using no_clone_ok [OF sa z q(1) eq] ys_def
      by (intro exI [of _ "L @ [s @ [c]]"]) auto
  next
    case False
    then have site: "clone_site s L c p q"
      using L z p(1) q by (auto simp: clone_site_def)
    have "extend_automaton junk c (sa, int k) =
        Some (sa\<lparr>states := retarget (turned s L c p q) c (int ?n + 1) (cloned_states s L c p q ys)\<rparr>, int ?n)"
      using extend_unfold [OF sa, of junk c] clone_state_result [OF sa site ys_def] climb p(1) q ys False by simp
    then show ?thesis
      using clone_ok [OF sa site] ys_def
      by (intro exI [of _ "L @ [s @ [c], L ! p @ [c]]"]) auto
  qed
qed

lemma extend_ok:
  assumes sa: "sa_ok s L sa k"
  shows "\<exists>L' sa'. extend_automaton junk c (sa, int k) = Some (sa', int (length L)) \<and> sa_ok (s @ [c]) L' sa' (length L)
    \<and> length L' \<le> length L + 2"
proof -
  note L = sa_okD(1) [OF sa] and sts = sa_okD(2, 3) [OF sa] and k = sa_okD(4, 5) [OF sa]
  let ?n = "length L" and ?xs = "states sa @ [current_state_of s (length L) junk]"
  let ?ys = "retarget (fresh s L c) c (int ?n) ?xs"
  have xs: "\<forall>i < ?n. state_ok s L i (?xs ! i)" "length ?xs = Suc ?n" "st_index (?xs ! ?n) = int ?n"
      "\<And>i. i < ?n \<Longrightarrow> ?xs ! i = states sa ! i"
    using sts by (auto simp: nth_append current_state_of_def)
  have none: "\<not> longer L s (int (length (L ! k))) i" for i
    by (auto simp: longer_def k(2) dest: suffix_length_le)
  then have "retarget (longer L s (int (length (L ! k)))) c (int ?n) ?xs = ?xs"
    by (intro retarget_none) simp
  with climb_links_ok [OF L xs(1-3) k(1), of c sa] none k(2) xs(4) [OF k(1)]
  consider (root) "endpos s [c] = {}"
      "climb_links c (int ?n) (sa\<lparr>states := ?xs\<rparr>) (int k) (get_transition c (states sa ! k)) =
        Some (sa\<lparr>states := ?ys[?n := (?xs ! ?n)\<lparr>st_link := 0\<rparr>]\<rparr>, 0, - 1, True)"
    | (stop) p where "p < ?n" "suffix (L ! p) s" "endpos s (L ! p @ [c]) \<noteq> {}"
      "\<forall>i < ?n. suffix (L ! i) s \<longrightarrow> endpos s (L ! i @ [c]) \<noteq> {} \<longrightarrow> suffix (L ! i) (L ! p)"
      "climb_links c (int ?n) (sa\<lparr>states := ?xs\<rparr>) (int k) (get_transition c (states sa ! k)) =
        Some (sa\<lparr>states := ?ys\<rparr>, int p, get_transition c (?xs ! p), False)"
    by auto
  then show ?thesis
  proof cases
    case root
    have "(?xs ! ?n)\<lparr>st_link := 0\<rparr> = current_state_of s ?n (int 0)"
      using sts(1) by (simp add: nth_append current_state_of_def)
    then show ?thesis
      using extend_unfold [OF sa, of junk c] root no_clone_ok [OF sa longest_old_Nil, of c 0] L
      by (intro exI [of _ "L @ [s @ [c]]"]) (auto simp: labels_ok_def)
  next
    case (stop p)
    then show ?thesis
      using extend_stop_ok [OF sa refl stop(1-4)] xs(4) [OF stop(1)] by simp
  qed
qed

end
