(* ===== verification/Suffix_Automaton_Props.thy ===== *)
theory Suffix_Automaton_Props
  imports Suffix_Automaton_Correct
begin

text \<open>
  The constructor of the suffix automaton returns for every text, and the three queries answer correctly
  about the occurrences of words in it.
\<close>

subsection \<open>Construction\<close>

lemma extend_all_ok:
  assumes "sa_ok s L sa k"
  shows "\<exists>L' sa' k'. extend_all junk w (sa, int k) = Some (sa', int k') \<and> sa_ok (s @ w) L' sa' k'
    \<and> length L' \<le> length L + 2 * length w"
  using assms
proof (induction w arbitrary: s L sa k)
  case (Cons c w)
  obtain L' sa' where "extend_automaton junk c (sa, int k) = Some (sa', int (length L))" "sa_ok (s @ [c]) L' sa' (length L)"
      "length L' \<le> length L + 2"
    using extend_ok [OF Cons.prems] by blast
  then show ?case
    using Cons.IH [of "s @ [c]" L' sa' "length L"] by fastforce
qed auto

definition root_state :: "int \<Rightarrow> sa_state" where
  "root_state junk = \<lparr>st_length = 0, st_link = - 1, st_first = junk, st_index = 0, st_references = [],
     st_transitions = Map.empty\<rparr>"

lemma root_ok: "sa_ok [] [[]] \<lparr>suffix_references = False, states = [root_state junk]\<rparr> 0"
proof -
  have "endpos [] w = {}" if "w \<noteq> []" for w :: "u16 list"
    using that endpos_le [of _ "[]" w] by fastforce
  then have "maximal [] u \<longleftrightarrow> u = []" for u :: "u16 list"
    using maximal_Nil by (auto simp: maximal_def)
  then show ?thesis
    using \<open>\<And>w. w \<noteq> [] \<Longrightarrow> endpos [] w = {}\<close>
    by (auto simp: sa_ok_def labels_ok_def state_ok_def link_ok_def tr_ok_def root_state_def)
qed

lemma visit_terminals_ok:
  assumes "sa_ok s L sa k" "i < length L"
  shows "visit_terminals sa (st_link (states sa ! i)) = Some ()"
  using assms(2)
proof (induction "length (L ! i)" arbitrary: i rule: less_induct)
  case less
  have "link_ok s L i (st_link (states sa ! i))"
    by (rule state_okD(4) [OF sa_okD(3) [OF assms(1) less.prems]])
  then consider "st_link (states sa ! i) = - 1"
    | j where "j < length L" "st_link (states sa ! i) = int j" "length (L ! j) < length (L ! i)"
    by (auto simp: link_ok_def link_word_def suffix_def split: if_splits)
  then show ?case
  proof cases
    case 1
    then show ?thesis
      by (simp add: visit_terminals.simps)
  next
    case 2
    then show ?thesis
      using less.hyps [of j] sa_okD(2) [OF assms(1)] by (subst visit_terminals.simps) simp
  qed
qed

lemma ctor_bounded:
  "\<exists>L sa k. suffix_automaton_ctor junk s = Some sa \<and> sa_ok s L sa k \<and> length L \<le> 2 * length s + 1"
proof -
  obtain L sa k where sa: "extend_all junk s (\<lparr>suffix_references = False, states = [root_state junk]\<rparr>, int 0) = Some (sa, int k)"
      "sa_ok s L sa k" "length L \<le> 2 * length s + 1"
    using extend_all_ok [OF root_ok [of junk], of junk s] by auto
  then have "suffix_automaton_ctor junk s = Some sa"
    using visit_terminals_ok [OF sa(2) sa_okD(4) [OF sa(2)]] sa_okD(2, 4) [OF sa(2)]
    by (simp add: suffix_automaton_ctor_def build_automaton_def root_state_def)
  then show ?thesis
    using sa(2, 3) by blast
qed

lemma ctor_ok: "\<exists>L sa k. suffix_automaton_ctor junk s = Some sa \<and> sa_ok s L sa k"
  using ctor_bounded by blast

text \<open>
  The numbers in the states are 32-bit in the program. They do not leave the machine's range for texts of fewer than
  \<open>2\<^sup>3\<^sup>0\<close> symbols: lengths are at most that of the text, and there are at most two states for every symbol and
  one more. States are never removed while the automaton grows, so this holds at every step.
\<close>

lemma automaton_numbers:
  assumes "suffix_automaton_ctor junk s = Some sa" "st \<in> set (states sa)"
  shows "0 \<le> st_length st \<and> st_length st \<le> int (length s) \<and>
    0 \<le> st_index st \<and> st_index st \<le> 2 * int (length s) \<and>
    - 1 \<le> st_link st \<and> st_link st \<le> 2 * int (length s) \<and>
    (\<forall>c t. st_transitions st c = Some t \<longrightarrow> t \<le> 2 * int (length s)) \<and>
    (st_index st \<noteq> 0 \<longrightarrow> - 1 \<le> st_first st \<and> st_first st < int (length s))"
proof -
  obtain L k where sa: "sa_ok s L sa k" and L: "length L \<le> 2 * length s + 1"
    using ctor_bounded [of junk s] assms(1) by auto
  note labels = sa_okD(1) [OF sa]
  obtain i where i: "i < length L" "st = states sa ! i" "state_ok s L i st"
    using assms(2) sa_okD(2, 3) [OF sa] by (auto simp: in_set_conv_nth)
  have word: "endpos s (L ! i) \<noteq> {}"
    using label_maximal [OF labels i(1)] by (simp add: maximal_def)
  then have "length (L ! i) \<le> length s" "Min (endpos s (L ! i)) \<le> length s"
    using endpos_le by (fastforce, metis Min_in endpos_le finite_endpos)
  moreover have "st_link st = - 1 \<or> (\<exists>j < length L. st_link st = int j)"
    using state_okD(4) [OF i(3)] by (auto simp: link_ok_def split: if_splits)
  moreover have "\<exists>j < length L. t = int j" if "st_transitions st c = Some t" for c t
    using state_okD(5) [OF i(3), of c] that by (auto simp: tr_ok_def)
  ultimately show ?thesis
    using i L by (fastforce simp: state_ok_def)
qed

subsection \<open>Following transitions\<close>

text \<open>What the queries rely on; the references are left open.\<close>

definition queryable :: "u16 list \<Rightarrow> u16 list list \<Rightarrow> suffix_automaton \<Rightarrow> bool" where
  "queryable s L sa \<longleftrightarrow> labels_ok s L \<and> length (states sa) = length L \<and>
     (\<forall>i < length L. state_ok s L i ((states sa ! i)\<lparr>st_references := []\<rparr>))"

lemma state_ok_no_references: "state_ok s L i st \<Longrightarrow> st\<lparr>st_references := []\<rparr> = st"
  by (simp add: state_ok_def)

lemma sa_ok_queryable: "sa_ok s L sa k \<Longrightarrow> queryable s L sa"
  by (auto simp: queryable_def sa_ok_def state_ok_no_references)

lemma queryableD:
  assumes "queryable s L sa"
  shows "labels_ok s L" "length (states sa) = length L"
    "i < length L \<Longrightarrow> link_ok s L i (st_link (states sa ! i))"
    "i < length L \<Longrightarrow> tr_ok s L (L ! i) c (st_transitions (states sa ! i) c)"
    "i < length L \<Longrightarrow> 0 < i \<Longrightarrow> st_first (states sa ! i) = int (Min (endpos s (L ! i))) - 1"
  using assms by (auto simp: queryable_def state_ok_def)

lemma sublist_appendD: "sublist (v @ w) s \<Longrightarrow> sublist v s"
  by (auto simp: sublist_def)

lemma endpos_append_empty: "endpos s v = {} \<Longrightarrow> endpos s (v @ w) = {}"
  using endpos_sublist [of s v] endpos_sublist [of s "v @ w"] by (auto dest: sublist_appendD)

lemma follow_ok:
  assumes "queryable s L sa" "i < length L" "endpos s (L ! i) = endpos s v"
  shows "if endpos s (v @ w) = {} then follow sa (int i) w = Some (- 1)
    else \<exists>j < length L. follow sa (int i) w = Some (int j) \<and> endpos s (L ! j) = endpos s (v @ w)"
  using assms(2, 3)
proof (induction w arbitrary: i v)
  case Nil
  then show ?case
    using label_maximal [OF queryableD(1) [OF assms(1)]] by (auto simp: maximal_def)
next
  case (Cons c w)
  note Q = queryableD [OF assms(1)]
  have tr: "tr_ok s L v c (st_transitions (states sa ! i) c)"
    using Q(4) [OF Cons.prems(1), of c] unfolding tr_ok_def endpos_snoc_cong [OF Cons.prems(2)] .
  show ?case
  proof (cases "endpos s (v @ [c]) = {}")
    case True
    then show ?thesis
      using get_transition_ok(1) [OF tr Q(1)] Cons.prems(1) Q(2) endpos_append_empty [OF True, of w] by simp
  next
    case False
    then obtain j where "j < length L" "get_transition c (states sa ! i) = int j" "endpos s (L ! j) = endpos s (v @ [c])"
      using get_transition_ok [OF tr Q(1)] by auto
    then show ?thesis
      using Cons.IH [of j "v @ [c]"] Cons.prems(1) Q(2) unfolding append.assoc by (simp split: if_splits)
  qed
qed

lemma follow_root:
  assumes "queryable s L sa"
  shows "if sublist w s then \<exists>j < length L. follow sa 0 w = Some (int j) \<and> endpos s (L ! j) = endpos s w
    else follow sa 0 w = Some (- 1)"
  using follow_ok [OF assms, of 0 "[]" w] queryableD(1) [OF assms] endpos_sublist [of s w]
  by (auto simp: labels_ok_def split: if_splits)

subsection \<open>References\<close>

definition referring :: "sa_state list \<Rightarrow> int list \<Rightarrow> sa_state list" where
  "referring xs is =
     map (\<lambda>j. (xs ! j)\<lparr>st_references := st_references (xs ! j) @ filter (\<lambda>i. st_link (xs ! nat i) = int j) is\<rparr>) [0..<length xs]"

lemma referring_simps [simp]:
  "length (referring xs is) = length xs"
  "j < length xs \<Longrightarrow> referring xs is ! j =
     (xs ! j)\<lparr>st_references := st_references (xs ! j) @ filter (\<lambda>i. st_link (xs ! nat i) = int j) is\<rparr>"
  by (simp_all add: referring_def)

lemma reference_loop_ok:
  assumes "\<forall>i \<in> set is. 0 \<le> i \<and> i < int (length (states sa)) \<and>
      (\<exists>j < length (states sa). st_link (states sa ! nat i) = int j)"
  shows "reference_loop is sa = Some (sa\<lparr>states := referring (states sa) is\<rparr>)"
  using assms
proof (induction "is" arbitrary: sa)
  case Nil
  have "referring (states sa) [] = states sa"
    by (auto intro: nth_equalityI)
  then show ?case
    by simp
next
  case (Cons i "is")
  let ?xs = "states sa"
  obtain j where j: "j < length ?xs" "st_link (?xs ! nat i) = int j" "0 \<le> i" "nat i < length ?xs"
    using Cons.prems by auto
  let ?ys = "?xs[j := st_references_update (\<lambda>r. r @ [i]) (?xs ! j)]"
  have link: "st_link (?ys ! k) = st_link (?xs ! k)" for k
    by (cases "k = j") (use j(1) in auto)
  have "referring ?ys is = referring ?xs (i # is)"
    using j unfolding referring_def link length_list_update by (auto simp: nth_list_update)
  moreover have "reference_loop is (sa\<lparr>states := ?ys\<rparr>) = Some (sa\<lparr>states := referring ?ys is\<rparr>)"
    using Cons.IH [of "sa\<lparr>states := ?ys\<rparr>"] Cons.prems link by simp
  ultimately show ?case
    using j Cons.prems by (simp add: state_at_def on_state_def)
qed

definition referenced :: "suffix_automaton \<Rightarrow> bool" where
  "referenced sa \<longleftrightarrow> suffix_references sa \<and> (\<forall>j < length (states sa). st_references (states sa ! j) =
     filter (\<lambda>i. st_link (states sa ! nat i) = int j) [1..int (length (states sa)) - 1])"

lemma compute_references_ok:
  assumes sa: "sa_ok s L sa k"
  shows "\<exists>sa'. compute_suffix_references sa = Some sa' \<and> queryable s L sa' \<and> referenced sa'"
proof -
  let ?is = "[1..int (length (states sa)) - 1]"
  note sts = sa_okD(2, 3) [OF sa]
  have "\<exists>j < length L. st_link (states sa ! nat i) = int j" if i: "i \<in> set ?is" for i
  proof -
    have "nat i < length L" "0 < nat i"
      using i sts(1) by auto
    then show ?thesis
      using state_okD(4) [OF sts(2), of "nat i"] by (auto simp: link_ok_def)
  qed
  then have "compute_suffix_references sa = Some (sa\<lparr>suffix_references := True, states := referring (states sa) ?is\<rparr>)"
    using reference_loop_ok [of ?is sa] sts(1) by (simp add: compute_suffix_references_def)
  moreover have "queryable s L (sa\<lparr>suffix_references := True, states := referring (states sa) ?is\<rparr>)"
    using sa_ok_queryable [OF sa] by (auto simp: queryable_def)
  moreover have "referenced (sa\<lparr>suffix_references := True, states := referring (states sa) ?is\<rparr>)"
    using sts state_okD(3) [OF sts(2)] by (auto simp: referenced_def intro!: filter_cong)
  ultimately show ?thesis
    by blast
qed

lemma referencesD:
  assumes "queryable s L sa" "referenced sa" "t < length L"
  shows "set (st_references (states sa ! t)) = int ` {i. 0 < i \<and> i < length L \<and> link_word s (L ! t) (L ! i)}"
proof -
  note Q = queryableD [OF assms(1)]
  have "st_link (states sa ! i) = int t \<longleftrightarrow> link_word s (L ! t) (L ! i)" if i: "0 < i" "i < length L" for i
  proof -
    obtain j where j: "j < length L" "st_link (states sa ! i) = int j" "link_word s (L ! j) (L ! i)"
      using Q(3) [OF i(2)] i(1) by (auto simp: link_ok_def)
    moreover have "L ! t = L ! j" if "link_word s (L ! t) (L ! i)"
      using that j(3) suffix_order.antisym unfolding link_word_def by blast
    ultimately show ?thesis
      using label_eq [OF Q(1) assms(3) j(1)] by auto
  qed
  then have "i \<in> {1..int (length L) - 1} \<and> st_link (states sa ! nat i) = int t \<longleftrightarrow>
      i \<in> int ` {i. 0 < i \<and> i < length L \<and> link_word s (L ! t) (L ! i)}" for i
    by (cases i) (auto simp: image_iff)
  then show ?thesis
    using assms(2, 3) Q(2) by (auto simp: referenced_def)
qed

subsection \<open>Walking the link tree\<close>

lemma child_above:
  assumes L: "labels_ok s L" and t: "t < length L" and j: "j < length L" "suffix (L ! t) (L ! j)" "j \<noteq> t"
    and sa: "queryable s L sa"
  shows "\<exists>i. 0 < i \<and> i < length L \<and> link_word s (L ! t) (L ! i) \<and> suffix (L ! i) (L ! j)"
  using j
proof (induction "length (L ! j)" arbitrary: j rule: less_induct)
  case less
  have "L ! t \<noteq> L ! j" "0 < j"
    using less.prems label_eq [OF L t less.prems(1)] label_pos [OF L less.prems(1)] by auto
  then obtain m where m: "m < length L" "link_word s (L ! m) (L ! j)" "suffix (L ! t) (L ! m)" "suffix (L ! m) (L ! j)" "L ! m \<noteq> L ! j"
    using queryableD(3) [OF sa less.prems(1)] label_maximal [OF L t] less.prems(2) by (auto simp: link_ok_def link_word_def)
  show ?case
  proof (cases "m = t")
    case True
    then show ?thesis
      using m less.prems(1) \<open>0 < j\<close> by blast
  next
    case False
    moreover have "length (L ! m) < length (L ! j)"
      using m(4, 5) by (auto simp: suffix_def)
    ultimately show ?thesis
      using less.hyps [of m] m suffix_order.trans by meson
  qed
qed

definition tree_positions :: "u16 list list \<Rightarrow> suffix_automaton \<Rightarrow> u16 list \<Rightarrow> nat \<Rightarrow> int set" where
  "tree_positions L sa w t =
     (\<lambda>j. st_first (states sa ! j) - int (length w) + 1) ` {j. j < length L \<and> suffix (L ! t) (L ! j)}"

lemma tree_positions_step:
  assumes "queryable s L sa" "t < length L"
  shows "tree_positions L sa w t = insert (st_first (states sa ! t) - int (length w) + 1)
    (\<Union>i \<in> {i. 0 < i \<and> i < length L \<and> link_word s (L ! t) (L ! i)}. tree_positions L sa w i)"
proof -
  have "{j. j < length L \<and> suffix (L ! t) (L ! j)} =
      insert t (\<Union>i \<in> {i. 0 < i \<and> i < length L \<and> link_word s (L ! t) (L ! i)}. {j. j < length L \<and> suffix (L ! i) (L ! j)})"
      (is "?A = insert t ?B")
  proof
    show "?A \<subseteq> insert t ?B"
      using child_above [OF queryableD(1) [OF assms(1)] assms(2) _ _ _ assms(1)] by blast
    show "insert t ?B \<subseteq> ?A"
      using assms(2) suffix_order.trans unfolding link_word_def by blast
  qed
  then show ?thesis
    unfolding tree_positions_def by (simp add: image_UN)
qed

lemma collect_positions_ok:
  assumes "queryable s L sa" "referenced sa" "t < length L"
  shows "collect_positions sa w (int t # stack) ps = collect_positions sa w stack (ps \<union> tree_positions L sa w t)"
  using assms(3)
proof (induction "length s - length (L ! t)" arbitrary: t stack ps rule: less_induct)
  case less
  note Q = queryableD [OF assms(1)]
  let ?ref = "rev (st_references (states sa ! t))" and ?children = "{i. 0 < i \<and> i < length L \<and> link_word s (L ! t) (L ! i)}"
  have kids: "set ?ref = int ` ?children"
    using referencesD [OF assms(1, 2) less.prems] by simp
  have "length (L ! i) \<le> length s" if "i < length L" for i
    using label_maximal [OF Q(1) that] old_not_whole by (auto simp: maximal_def)
  then have deeper: "length s - length (L ! i) < length s - length (L ! t)" if "i \<in> ?children" for i
  proof -
    have "length (L ! t) < length (L ! i)"
      using that by (auto simp: link_word_def suffix_def)
    then show ?thesis
      using that \<open>\<And>i. i < length L \<Longrightarrow> length (L ! i) \<le> length s\<close> [of i] by auto
  qed
  have "collect_positions sa w (is @ stack) qs = collect_positions sa w stack (qs \<union> (\<Union>i \<in> nat ` set is. tree_positions L sa w i))"
    if "set is \<subseteq> int ` ?children" for "is" qs
    using that
  proof (induction "is" arbitrary: qs)
    case (Cons i "is")
    then obtain k where "i = int k" "k \<in> ?children"
      by auto
    then show ?case
      using less.hyps [OF deeper, of k] Cons by (auto simp: Un_assoc)
  qed simp
  from this [of ?ref "insert (st_first (states sa ! t) - int (length w) + 1) ps"] show ?case
    using less.prems Q(2) kids tree_positions_step [OF assms(1) less.prems, of w]
    by (subst collect_positions.simps) (simp add: normalized_string_position_def image_image Un_commute)
qed

subsection \<open>Occurrences\<close>

definition occurs_at :: "'a list \<Rightarrow> 'a list \<Rightarrow> nat \<Rightarrow> bool" where
  "occurs_at s w p \<longleftrightarrow> p + length w \<le> length s \<and> take (length w) (drop p s) = w"

lemma endpos_occurs: "endpos s w = (\<lambda>p. p + length w) ` {p. occurs_at s w p}"
proof -
  have "suffix w (take (p + length w) s) \<longleftrightarrow> take (length w) (drop p s) = w" if "p + length w \<le> length s" for p
  proof -
    have "take (p + length w) s = take p s @ take (length w) (drop p s)"
      by (simp add: take_add)
    then show ?thesis
      using that by (auto simp: suffix_def append_eq_append_conv)
  qed
  then have "p + length w \<in> endpos s w \<longleftrightarrow> occurs_at s w p" for p
    by (auto simp: endpos_def occurs_at_def)
  moreover have "\<exists>p. e = p + length w" if "e \<in> endpos s w" for e
    using endpos_le [OF that] le_Suc_ex add.commute by metis
  ultimately show ?thesis
    by blast
qed

lemma Min_endpos_prefix:
  assumes "e \<le> length s"
  shows "Min (endpos s (take e s)) = e"
proof (rule Min_eqI)
  show "e \<in> endpos s (take e s)"
    using assms by (simp add: endpos_def)
  show "e \<le> d" if "d \<in> endpos s (take e s)" for d
    using endpos_le [OF that] assms by simp
qed simp

lemma tree_positions_occurs:
  assumes sa: "queryable s L sa" and t: "t < length L" "endpos s (L ! t) = endpos s w" "w \<noteq> []"
  shows "tree_positions L sa w t = int ` {p. occurs_at s w p}"
proof -
  note Q = queryableD [OF sa]
  have pos: "L ! t \<noteq> []"
    using t(2, 3) maximal_suffix [OF label_maximal [OF Q(1) t(1)], of w] by auto
  have first: "st_first (states sa ! j) - int (length w) + 1 = int (Min (endpos s (L ! j))) - int (length w)"
    "Min (endpos s (L ! j)) \<in> endpos s w"
    if j: "j < length L" "suffix (L ! t) (L ! j)" for j
  proof -
    have "0 < j"
      using label_pos [OF Q(1) j(1)] pos j(2) by auto
    then show "st_first (states sa ! j) - int (length w) + 1 = int (Min (endpos s (L ! j))) - int (length w)"
      using Q(5) [OF j(1)] by simp
    show "Min (endpos s (L ! j)) \<in> endpos s w"
      using subsetD [OF endpos_suffix [OF j(2), of s] Min_in [OF finite_endpos]] label_maximal [OF Q(1) j(1)] t(2)
      unfolding maximal_def by metis
  qed
  have "tree_positions L sa w t = (\<lambda>e. int e - int (length w)) ` endpos s w"
  proof
    show "tree_positions L sa w t \<subseteq> (\<lambda>e. int e - int (length w)) ` endpos s w"
      using first by (auto simp: tree_positions_def)
    show "(\<lambda>e. int e - int (length w)) ` endpos s w \<subseteq> tree_positions L sa w t"
    proof clarify
      fix e assume e: "e \<in> endpos s w"
      then have "e \<le> length s" "suffix (L ! t) (take e s)"
        using endpos_le t(2) by (auto simp: endpos_def)
      moreover from this obtain j where j: "j < length L" "L ! j = take e s"
        using label_index [OF Q(1) maximal_prefix [of e s]] by auto
      moreover have "Min (endpos s (take e s)) = e"
        using \<open>e \<le> length s\<close> by (rule Min_endpos_prefix)
      ultimately show "int e - int (length w) \<in> tree_positions L sa w t"
        using first(1) [of j] unfolding tree_positions_def by (intro image_eqI [of _ _ j]) auto
    qed
  qed
  then show ?thesis
    by (simp add: endpos_occurs image_image)
qed

lemma first_position_ok:
  assumes sa: "queryable s L sa" and "w \<noteq> []"
  shows "first_position sa w = Some (if sublist w s then int (LEAST p. occurs_at s w p) else - 1)"
proof (cases "sublist w s")
  case True
  note Q = queryableD [OF sa]
  obtain t where t: "t < length L" "follow sa 0 w = Some (int t)" "endpos s (L ! t) = endpos s w"
    using follow_root [OF sa, of w] True by auto
  have "L ! t \<noteq> []"
    using t(3) assms(2) maximal_suffix [OF label_maximal [OF Q(1) t(1)], of w] by auto
  then have "st_first (states sa ! t) = int (Min (endpos s w)) - 1"
    using Q(5) [OF t(1)] label_pos [OF Q(1) t(1)] t(3) by simp
  moreover have "Min (endpos s w) = (LEAST p. occurs_at s w p) + length w"
  proof (rule Min_eqI)
    obtain p where "occurs_at s w p"
      using True endpos_sublist [of s w] endpos_occurs [of s w] by auto
    then show "(LEAST p. occurs_at s w p) + length w \<in> endpos s w"
      unfolding endpos_occurs by (auto intro: LeastI)
  next
    fix e assume "e \<in> endpos s w"
    then show "(LEAST p. occurs_at s w p) + length w \<le> e"
      unfolding endpos_occurs by (auto intro: Least_le)
  qed simp
  ultimately show ?thesis
    using t(1, 2) True Q(2) by (simp add: first_position_def normalized_string_position_def)
next
  case False
  then show ?thesis
    using follow_root [OF sa, of w] by (simp add: first_position_def)
qed

lemma positions_referenced:
  assumes sa: "queryable s L sa" "referenced sa" and "w \<noteq> []"
  shows "positions sa w = Some (sa, int ` {p. occurs_at s w p})"
proof (cases "sublist w s")
  case True
  then obtain t where t: "t < length L" "follow sa 0 w = Some (int t)" "endpos s (L ! t) = endpos s w"
    using follow_root [OF sa(1), of w] by auto
  have "collect_positions sa w [int t] {} = Some (tree_positions L sa w t)"
    using collect_positions_ok [OF sa t(1), of w "[]" "{}"] by (simp add: collect_positions.simps)
  then show ?thesis
    using t sa(2) tree_positions_occurs [OF sa(1) t(1, 3) assms(3)] by (simp add: positions_def referenced_def)
next
  case False
  moreover have "{p. occurs_at s w p} = {}"
    using False endpos_sublist [of s w] endpos_occurs [of s w] by auto
  ultimately show ?thesis
    using follow_root [OF sa(1), of w] sa(2) by (simp add: positions_def referenced_def)
qed

lemma positions_first:
  assumes sa: "sa_ok s L sa k" and "w \<noteq> []"
  shows "\<exists>sa'. positions sa w = Some (sa', int ` {p. occurs_at s w p}) \<and> queryable s L sa' \<and> referenced sa'"
proof -
  obtain sa' where sa': "compute_suffix_references sa = Some sa'" "queryable s L sa'" "referenced sa'"
    using compute_references_ok [OF sa] by blast
  moreover have "positions sa w = positions sa' w"
    using sa'(1, 3) sa_okD(6) [OF sa] by (simp add: positions_def referenced_def)
  ultimately show ?thesis
    using positions_referenced [OF sa'(2, 3) assms(2)] by auto
qed

text \<open>Several calls of \<open>positions\<close>, one after the other.\<close>

fun positions_all :: "suffix_automaton \<Rightarrow> u16 list list \<Rightarrow> int set list option" where
  "positions_all sa [] = Some []"
| "positions_all sa (w # ws) =
     do { (sa, ps) \<leftarrow> positions sa w; pss \<leftarrow> positions_all sa ws; Some (ps # pss) }"

lemma positions_all_referenced:
  "queryable s L sa \<Longrightarrow> referenced sa \<Longrightarrow> [] \<notin> set ws \<Longrightarrow>
     positions_all sa ws = Some (map (\<lambda>w. int ` {p. occurs_at s w p}) ws)"
  by (induction ws) (auto simp: positions_referenced)

subsection \<open>Properties\<close>

text \<open>
  C7: the constructor returns an automaton for every text, and \<open>contains\<close> accepts exactly the words that occur in the text.
\<close>
theorem contains_correct:
  "\<exists>sa. suffix_automaton_ctor junk s = Some sa \<and> (\<forall>w. contains sa w = Some (sublist w s))"
proof -
  obtain L sa k where sa: "suffix_automaton_ctor junk s = Some sa" "sa_ok s L sa k"
    using ctor_ok by blast
  have "contains sa w = Some (sublist w s)" for w
    using follow_root [OF sa_ok_queryable [OF sa(2)], of w] by (auto simp: contains_def split: if_splits)
  then show ?thesis
    using sa(1) by blast
qed

text \<open>
  for a non-empty word, \<open>first\<close> returns the position of the first occurrence in the text, or \<open>- 1\<close> if there is none.
\<close>
theorem first_correct:
  assumes "w \<noteq> []"
  shows "\<exists>sa. suffix_automaton_ctor junk s = Some sa \<and>
    first_position sa w = Some (if sublist w s then int (LEAST p. occurs_at s w p) else - 1)"
  using ctor_ok [of junk s] first_position_ok [OF sa_ok_queryable assms] by blast

theorem first_correct_witness:
  "\<exists>sa. suffix_automaton_ctor 7 [1, 2, 3, 2, 3] = Some sa \<and>
    first_position sa [2, 3] = Some (if sublist [2::u16, 3] [1, 2, 3, 2, 3] then int (LEAST p. occurs_at [1::u16, 2, 3, 2, 3] [2, 3] p) else - 1)"
  by (rule first_correct) simp

text \<open>
  C6: any sequence of calls of \<open>positions\<close> with non-empty words returns, and each call gives the set of all
  positions where its word occurs, whether it computes the references or finds them computed.
\<close>
theorem positions_correct:
  assumes "[] \<notin> set ws"
  shows "\<exists>sa. suffix_automaton_ctor junk s = Some sa \<and>
    positions_all sa ws = Some (map (\<lambda>w. int ` {p. occurs_at s w p}) ws)"
proof -
  obtain L sa k where sa: "suffix_automaton_ctor junk s = Some sa" "sa_ok s L sa k"
    using ctor_ok by blast
  have "positions_all sa ws = Some (map (\<lambda>w. int ` {p. occurs_at s w p}) ws)"
  proof (cases ws)
    case (Cons w ws')
    then obtain sa' where "positions sa w = Some (sa', int ` {p. occurs_at s w p})" "queryable s L sa'" "referenced sa'"
      using positions_first [OF sa(2), of w] assms by auto
    then show ?thesis
      using Cons positions_all_referenced [of s L sa' ws'] assms by simp
  qed simp
  then show ?thesis
    using sa(1) by blast
qed

theorem positions_correct_witness:
  "\<exists>sa. suffix_automaton_ctor 7 [1, 1, 2, 1, 1] = Some sa \<and>
    positions_all sa [[1, 1], [2], [3]] =
      Some (map (\<lambda>w. int ` {p. occurs_at [1::u16, 1, 2, 1, 1] w p}) [[1, 1], [2], [3]])"
  by (rule positions_correct) simp

end
