(* ===== verification/Sorting_Correct.thy ===== *)
theory Sorting_Correct
  imports Sorting_Routines
begin

text \<open>
  The contract of a sorting routine is the locale \<open>sorting_routine\<close>; the four generic routines of the header
  interpret it, and the locale shows that each of them computes the sorted range of the library.
\<close>

subsection \<open>The contract\<close>

definition rearranged :: "nat \<Rightarrow> nat \<Rightarrow> 'a list \<Rightarrow> 'a list \<Rightarrow> bool" where
  "rearranged b e xs ys \<longleftrightarrow> length ys = length xs \<and> mset ys = mset xs \<and> take b ys = take b xs \<and> drop e ys = drop e xs"

definition sorted_range :: "nat \<Rightarrow> nat \<Rightarrow> 'a::linorder list \<Rightarrow> bool" where
  "sorted_range b e xs \<longleftrightarrow> (\<forall>i j. b \<le> i \<longrightarrow> i < j \<longrightarrow> j < e \<longrightarrow> xs ! i \<le> xs ! j)"

definition segment :: "nat \<Rightarrow> nat \<Rightarrow> 'a list \<Rightarrow> 'a list" where
  "segment b e xs = take (e - b) (drop b xs)"

lemma segment_split: "b \<le> e \<Longrightarrow> xs = take b xs @ segment b e xs @ drop e xs"
  unfolding segment_def by (metis append_take_drop_id drop_drop le_add_diff_inverse2)

lemma rearranged_refl [simp]: "rearranged b e xs xs"
  by (simp add: rearranged_def)

lemma rearranged_trans: "rearranged b e xs ys \<Longrightarrow> rearranged b e ys zs \<Longrightarrow> rearranged b e xs zs"
  by (simp add: rearranged_def)

lemma rearranged_mono:
  assumes "rearranged b e xs ys" "b' \<le> b" "e \<le> e'"
  shows "rearranged b' e' xs ys"
proof -
  have "take b' ys = take b' (take b ys)" "take b' xs = take b' (take b xs)"
    "drop e' ys = drop (e' - e) (drop e ys)" "drop e' xs = drop (e' - e) (drop e xs)"
    using assms(2, 3) by (simp_all add: min_def)
  then show ?thesis
    using assms(1) unfolding rearranged_def by metis
qed

lemma rearranged_length: "rearranged b e xs ys \<Longrightarrow> length ys = length xs"
  by (simp add: rearranged_def)

lemma rearranged_before: "rearranged b e xs ys \<Longrightarrow> k < b \<Longrightarrow> ys ! k = xs ! k"
  unfolding rearranged_def by (metis nth_take)

lemma rearranged_after:
  assumes "rearranged b e xs ys" "e \<le> k" "k < length xs"
  shows "ys ! k = xs ! k"
proof -
  have "drop e ys ! (k - e) = drop e xs ! (k - e)"
    using assms(1) by (simp add: rearranged_def)
  then show ?thesis
    using assms by (simp add: rearranged_length)
qed

lemma rearranged_segment:
  assumes "rearranged b e xs ys" "b \<le> e"
  shows "mset (segment b e ys) = mset (segment b e xs)"
proof -
  have "mset (take b xs @ segment b e ys @ drop e xs) = mset (take b xs @ segment b e xs @ drop e xs)"
    using assms segment_split [OF assms(2), of xs] segment_split [OF assms(2), of ys] by (simp add: rearranged_def)
  then show ?thesis
    by simp
qed

text \<open>What holds of all elements of a range also holds after rearranging it.\<close>

lemma rearranged_all:
  assumes "rearranged b e xs ys" "\<And>k. b \<le> k \<Longrightarrow> k < e \<Longrightarrow> P (xs ! k)" "b \<le> k" "k < e" "e \<le> length xs"
  shows "P (ys ! k)"
proof -
  have nth: "segment b e zs ! i = zs ! (b + i)" if "i < e - b" "e \<le> length zs" for zs :: "'a list" and i
    using that by (simp add: segment_def)
  have len: "length (segment b e zs) = e - b" if "e \<le> length zs" for zs :: "'a list"
    using that by (simp add: segment_def)
  have "ys ! k \<in> set (segment b e ys)"
    using nth [of "k - b" ys] len [of ys] assms rearranged_length [OF assms(1)]
    by (auto simp: in_set_conv_nth intro!: exI [of _ "k - b"])
  then have "ys ! k \<in> set (segment b e xs)"
    using rearranged_segment [OF assms(1)] assms(3, 4) by (metis le_less_trans less_imp_le mset_eq_setD)
  then obtain i where "i < e - b" "ys ! k = xs ! (b + i)"
    using nth len assms(5) by (auto simp: in_set_conv_nth)
  then show ?thesis
    using assms(2) [of "b + i"] by simp
qed

lemma swap_rearranged:
  assumes "b \<le> i" "i < e" "b \<le> j" "j < e" "e \<le> length xs"
  shows "\<exists>ys. iter_swap i j xs = Some ys \<and> ys = xs[i := xs ! j, j := xs ! i] \<and> rearranged b e xs ys"
proof -
  have "mset (xs[i := xs ! j, j := xs ! i]) = mset xs"
    using assms mset_swap [of j xs i] by simp
  then show ?thesis
    using assms by (simp add: iter_swap_def rearranged_def)
qed

locale sorting_routine =
  fixes sort_range :: "nat \<Rightarrow> nat \<Rightarrow> 'a::linorder list \<Rightarrow> 'a list option"
  assumes sorts: "b < e \<Longrightarrow> e \<le> length xs \<Longrightarrow>
    \<exists>ys. sort_range b e xs = Some ys \<and> rearranged b e xs ys \<and> sorted_range b e ys"
begin

lemma sort_range_eq:
  assumes "b < e" "e \<le> length xs"
  shows "sort_range b e xs = Some (take b xs @ sort (segment b e xs) @ drop e xs)"
proof -
  obtain ys where ys: "sort_range b e xs = Some ys" "rearranged b e xs ys" "sorted_range b e ys"
    using sorts [OF assms] by blast
  have "sorted (segment b e ys)"
    using ys(3) assms rearranged_length [OF ys(2)]
    by (auto simp: sorted_iff_nth_mono_less segment_def sorted_range_def)
  then have "sort (segment b e xs) = segment b e ys"
    using rearranged_segment [OF ys(2)] assms(1) by (intro properties_for_sort) simp_all
  then show ?thesis
    using segment_split [of b e ys] assms(1) ys(1, 2) by (simp add: rearranged_def)
qed

lemma sort_whole: "xs \<noteq> [] \<Longrightarrow> sort_range 0 (length xs) xs = Some (sort xs)"
  using sort_range_eq [of 0 "length xs" xs] by (simp add: segment_def)

end

subsection \<open>Selection sort\<close>

lemma min_element_loop_ok:
  assumes "e \<le> length xs" "b \<le> best" "best < i" "i \<le> e" "\<And>k. b \<le> k \<Longrightarrow> k < i \<Longrightarrow> xs ! best \<le> xs ! k"
  shows "\<exists>m. min_element_loop xs e best i = Some m \<and> b \<le> m \<and> m < e \<and> (\<forall>k. b \<le> k \<longrightarrow> k < e \<longrightarrow> xs ! m \<le> xs ! k)"
  using assms
proof (induction xs e best i rule: min_element_loop.induct)
  case (1 xs e best i)
  show ?case
  proof (cases "i < e")
    case True
    let ?m = "if xs ! i < xs ! best then i else best"
    have least: "xs ! ?m \<le> xs ! k" if "b \<le> k" "k < Suc i" for k
      using that "1.prems"(5) [of k] by (cases "k = i") auto
    have at: "read_at xs i = Some (xs ! i)" "read_at xs best = Some (xs ! best)"
      using "1.prems" True by (auto simp: read_at_def)
    have "\<exists>m. min_element_loop xs e ?m (Suc i) = Some m \<and> b \<le> m \<and> m < e \<and> (\<forall>k. b \<le> k \<longrightarrow> k < e \<longrightarrow> xs ! m \<le> xs ! k)"
      by (rule "1.IH" [OF True at]) (use "1.prems" True least in auto)
    then show ?thesis
      using True at by (subst min_element_loop.simps) simp
  next
    case False
    then show ?thesis
      using "1.prems" by (subst min_element_loop.simps) auto
  qed
qed

lemma min_element_ok:
  assumes "b < e" "e \<le> length xs"
  shows "\<exists>m. min_element xs b e = Some m \<and> b \<le> m \<and> m < e \<and> (\<forall>k. b \<le> k \<longrightarrow> k < e \<longrightarrow> xs ! m \<le> xs ! k)"
proof -
  have "xs ! b \<le> xs ! k" if "b \<le> k" "k < Suc b" for k
    using that by (simp add: less_Suc_eq)
  then show ?thesis
    using min_element_loop_ok [of e xs b b "Suc b"] assms by (simp add: min_element_def)
qed

lemma swap_min:
  assumes "b < e" "e \<le> length xs"
  shows "\<exists>m ys. min_element xs b e = Some m \<and> iter_swap b m xs = Some ys \<and> rearranged b e xs ys \<and>
    (\<forall>k. b \<le> k \<longrightarrow> k < e \<longrightarrow> ys ! b \<le> ys ! k)"
proof -
  obtain m where m: "min_element xs b e = Some m" "b \<le> m" "m < e" "\<And>k. b \<le> k \<Longrightarrow> k < e \<Longrightarrow> xs ! m \<le> xs ! k"
    using min_element_ok [OF assms] by blast
  obtain ys where ys: "iter_swap b m xs = Some ys" "ys = xs[b := xs ! m, m := xs ! b]" "rearranged b e xs ys"
    using swap_rearranged [of b b e m xs] assms m by auto
  have "ys ! b = xs ! m"
    using ys(2) assms m(2, 3) by (auto simp: nth_list_update)
  moreover have "xs ! m \<le> ys ! k" if "b \<le> k" "k < e" for k
    using rearranged_all [OF ys(3), of "\<lambda>x. xs ! m \<le> x" k] m(4) that assms(2) by blast
  ultimately show ?thesis
    using m(1) ys(1, 3) by auto
qed

lemma selection_loop_ok:
  assumes "b \<le> i" "i \<le> e" "e \<le> length xs" "sorted_range b i xs"
    and "\<And>k l. b \<le> k \<Longrightarrow> k < i \<Longrightarrow> i \<le> l \<Longrightarrow> l < e \<Longrightarrow> xs ! k \<le> xs ! l"
  shows "\<exists>ys. selection_loop i e xs = Some ys \<and> rearranged i e xs ys \<and> sorted_range b e ys"
  using assms
proof (induction "e - i" arbitrary: i xs)
  case 0
  then show ?case
    by (subst selection_loop.simps) auto
next
  case (Suc n)
  then have i: "i < e" and n: "n = e - Suc i"
    by auto
  obtain m ys where ys: "min_element xs i e = Some m" "iter_swap i m xs = Some ys" "rearranged i e xs ys"
      "\<And>k. i \<le> k \<Longrightarrow> k < e \<Longrightarrow> ys ! i \<le> ys ! k"
    using swap_min [OF i Suc.prems(3)] by blast
  have before: "ys ! k = xs ! k" if "k < i" for k
    using rearranged_before [OF ys(3) that] .
  have below: "xs ! k \<le> ys ! l" if "b \<le> k" "k < i" "i \<le> l" "l < e" for k l
    using rearranged_all [OF ys(3), of "\<lambda>x. xs ! k \<le> x" l] Suc.prems(3, 5) that by blast
  have "sorted_range b (Suc i) ys"
    using Suc.prems(4) before below i unfolding sorted_range_def by (metis less_Suc_eq order_refl less_trans)
  moreover have "ys ! k \<le> ys ! l" if "b \<le> k" "k < Suc i" "Suc i \<le> l" "l < e" for k l
    using that before [of k] below [of k l] ys(4) [of l] by (cases "k = i") auto
  ultimately obtain zs where "selection_loop (Suc i) e ys = Some zs" "rearranged (Suc i) e ys zs" "sorted_range b e zs"
    using Suc.hyps(1) [of "Suc i" ys] n Suc.prems rearranged_length [OF ys(3)] i by auto
  then show ?case
    using i ys rearranged_trans [OF ys(3)] rearranged_mono [of "Suc i" e ys zs i e]
    by (subst selection_loop.simps) auto
qed

lemma sorted_range_empty [simp]: "sorted_range b b xs"
  by (simp add: sorted_range_def)

interpretation selection: sorting_routine selection_sort
proof
  show "\<exists>ys. selection_sort b e xs = Some ys \<and> rearranged b e xs ys \<and> sorted_range b e ys"
    if "b < e" "e \<le> length xs" for b e and xs :: "'a list"
    unfolding selection_sort_def by (rule selection_loop_ok) (use that in auto)
qed

subsection \<open>Bubble sort\<close>

lemma bubble_inner_ok:
  assumes "b \<le> j" "j \<le> i" "i < length xs" "sorted_range b i xs" "\<And>k. b \<le> k \<Longrightarrow> k < j \<Longrightarrow> xs ! k \<le> xs ! i"
  shows "\<exists>ys. bubble_inner i j xs = Some ys \<and> rearranged b (Suc i) xs ys \<and> sorted_range b (Suc i) ys"
  using assms
proof (induction "i - j" arbitrary: j xs)
  case 0
  then have "sorted_range b (Suc i) xs"
    by (auto simp: sorted_range_def less_Suc_eq)
  then show ?case
    using 0 by (subst bubble_inner.simps) auto
next
  case (Suc n)
  then have j: "j < i" and n: "n = i - Suc j"
    by auto
  have at: "read_at xs i = Some (xs ! i)" "read_at xs j = Some (xs ! j)"
    using j Suc.prems(3) by (auto simp: read_at_def)
  obtain ys where ys: "iter_swap i j xs = Some ys" "ys = xs[i := xs ! j, j := xs ! i]" "rearranged b (Suc i) xs ys"
    using swap_rearranged [of b i "Suc i" j xs] Suc.prems j by auto
  let ?ys = "if xs ! i < xs ! j then ys else xs"
  have sorted: "xs ! k \<le> xs ! l" if "b \<le> k" "k < l" "l < i" for k l
    using that Suc.prems(4) by (simp add: sorted_range_def)
  have nth: "ys ! k = (if k = j then xs ! i else if k = i then xs ! j else xs ! k)" for k
    using j Suc.prems(3) ys(2) by (auto simp: nth_list_update)
  have "sorted_range b i ?ys"
    using sorted Suc.prems(5) j unfolding sorted_range_def nth if_distrib [of "\<lambda>zs. zs ! k" for k]
    by (auto intro: less_imp_le order.trans less_trans)
  moreover have "?ys ! k \<le> ?ys ! i" if "b \<le> k" "k < Suc j" for k
    using that Suc.prems(5) [of k] sorted [of k j] j by (auto simp: nth less_Suc_eq)
  ultimately obtain zs where "bubble_inner i (Suc j) ?ys = Some zs" "rearranged b (Suc i) ?ys zs" "sorted_range b (Suc i) zs"
    using Suc.hyps(1) [of "Suc j" ?ys] n Suc.prems(1, 3) j rearranged_length [OF ys(3)] by (auto split: if_splits)
  moreover have "rearranged b (Suc i) xs ?ys"
    using ys(3) by simp
  ultimately show ?case
    using j at ys(1) rearranged_trans by (subst bubble_inner.simps) (auto split: if_splits)
qed

lemma bubble_outer_ok:
  assumes "b \<le> i" "i \<le> e" "e \<le> length xs" "sorted_range b i xs"
  shows "\<exists>ys. bubble_outer b e i xs = Some ys \<and> rearranged b e xs ys \<and> sorted_range b e ys"
  using assms
proof (induction "e - i" arbitrary: i xs)
  case 0
  then show ?case
    by (subst bubble_outer.simps) auto
next
  case (Suc n)
  then have i: "i < e" and n: "n = e - Suc i"
    by auto
  obtain ys where ys: "bubble_inner i b xs = Some ys" "rearranged b (Suc i) xs ys" "sorted_range b (Suc i) ys"
    using bubble_inner_ok [of b b i xs] Suc.prems i by auto
  then obtain zs where "bubble_outer b e (Suc i) ys = Some zs" "rearranged b e ys zs" "sorted_range b e zs"
    using Suc.hyps(1) [of "Suc i" ys] n Suc.prems i rearranged_length by (metis Suc_leI le_SucI)
  then show ?case
    using i ys rearranged_trans rearranged_mono [OF ys(2), of b e] by (subst bubble_outer.simps) auto
qed

interpretation bubble: sorting_routine bubble_sort
proof
  show "\<exists>ys. bubble_sort b e xs = Some ys \<and> rearranged b e xs ys \<and> sorted_range b e ys"
    if "b < e" "e \<le> length xs" for b e and xs :: "'a list"
    unfolding bubble_sort_def by (rule bubble_outer_ok) (use that in auto)
qed

subsection \<open>Insertion sort\<close>

definition hole :: "nat \<Rightarrow> nat \<Rightarrow> nat \<Rightarrow> 'a::linorder list \<Rightarrow> bool" where
  "hole b j t xs \<longleftrightarrow> (\<forall>k l. b \<le> k \<longrightarrow> k < l \<longrightarrow> l < t \<longrightarrow> k \<noteq> j \<longrightarrow> l \<noteq> j \<longrightarrow> xs ! k \<le> xs ! l) \<and>
     (\<forall>l. j < l \<longrightarrow> l < t \<longrightarrow> xs ! j \<le> xs ! l) \<and> (\<forall>k. b \<le> k \<longrightarrow> k < t \<longrightarrow> xs ! b \<le> xs ! k)"

lemma hole_closed:
  assumes "hole b j t xs" "b < j" "xs ! (j - 1) \<le> xs ! j"
  shows "sorted_range b t xs"
proof -
  have "xs ! k \<le> xs ! l" if kl: "b \<le> k" "k < l" "l < t" for k l
  proof (cases "l = j")
    case True
    then have "xs ! k \<le> xs ! (j - 1)"
      using assms(1, 2) kl unfolding hole_def by (cases "k = j - 1") auto
    then show ?thesis
      using True assms(3) by simp
  next
    case False
    then show ?thesis
      using assms(1) kl unfolding hole_def by (cases "k = j") auto
  qed
  then show ?thesis
    by (simp add: sorted_range_def)
qed

lemma hole_moved:
  assumes "hole b j t xs" "b < j - 1" "j < t" "t \<le> length xs" "xs ! j < xs ! (j - 1)"
  shows "hole b (j - 1) t (xs[j - 1 := xs ! j, j := xs ! (j - 1)])"
proof -
  let ?ys = "xs[j - 1 := xs ! j, j := xs ! (j - 1)]"
  have nth: "?ys ! k = (if k = j then xs ! (j - 1) else if k = j - 1 then xs ! j else xs ! k)" for k
    using assms(2-4) by (auto simp: nth_list_update)
  have "?ys ! k \<le> ?ys ! l" if "b \<le> k" "k < l" "l < t" "k \<noteq> j - 1" "l \<noteq> j - 1" for k l
    using that assms(1, 2) unfolding nth hole_def by (cases "k = j"; cases "l = j") auto
  moreover have "?ys ! (j - 1) \<le> ?ys ! l" if "j - 1 < l" "l < t" for l
    using that assms unfolding nth hole_def by (cases "l = j") auto
  moreover have "?ys ! b \<le> ?ys ! k" if "b \<le> k" "k < t" for k
    using that assms unfolding nth hole_def by (cases "k = j"; cases "k = j - 1") auto
  ultimately show ?thesis
    by (simp add: hole_def)
qed

lemma insertion_inner_ok:
  assumes "hole b j t xs" "b < j" "j < t" "t \<le> length xs"
  shows "\<exists>ys. insertion_inner j (int j - 1) xs = Some ys \<and> rearranged b t xs ys \<and> sorted_range b t ys"
  using assms
proof (induction j arbitrary: xs)
  case (Suc i)
  have at: "read_at xs (Suc i) = Some (xs ! Suc i)" "read_at xs i = Some (xs ! i)"
    using Suc.prems by (auto simp: read_at_def)
  show ?case
  proof (cases "xs ! Suc i < xs ! i")
    case True
    have "\<not> xs ! Suc i < xs ! b"
      using Suc.prems(1, 2, 3) by (auto simp: hole_def not_less)
    then have b: "b < i"
      using True Suc.prems(2) by (cases "b = i") auto
    obtain ys where ys: "iter_swap i (Suc i) xs = Some ys" "ys = xs[i := xs ! Suc i, Suc i := xs ! i]" "rearranged b t xs ys"
      using swap_rearranged [of b i t "Suc i" xs] Suc.prems b by auto
    have "hole b i t ys"
      using hole_moved [OF Suc.prems(1)] True b Suc.prems(3, 4) ys(2) by simp
    then obtain zs where "insertion_inner i (int i - 1) ys = Some zs" "rearranged b t ys zs" "sorted_range b t zs"
      using Suc.IH [of ys] b Suc.prems rearranged_length [OF ys(3)] by auto
    then show ?thesis
      using True at ys(1, 3) rearranged_trans by (subst insertion_inner.simps) auto
  next
    case False
    then show ?thesis
      using at hole_closed [OF Suc.prems(1, 2)] by (subst insertion_inner.simps) auto
  qed
qed simp

lemma insertion_outer_ok:
  assumes "b \<le> i" "i < e" "e \<le> length xs" "sorted_range b (Suc i) xs" "\<And>k. b \<le> k \<Longrightarrow> k < e \<Longrightarrow> xs ! b \<le> xs ! k"
  shows "\<exists>ys. insertion_outer i e i xs = Some ys \<and> rearranged b e xs ys \<and> sorted_range b e ys"
  using assms
proof (induction "e - i" arbitrary: i xs)
  case (Suc n)
  then have n: "n = e - Suc i"
    by auto
  show ?case
  proof (cases "Suc i < e")
    case True
    have "hole b (Suc i) (Suc (Suc i)) xs"
      using Suc.prems(4, 5) True by (auto simp: hole_def sorted_range_def less_Suc_eq)
    then obtain ys where ys: "insertion_inner (Suc i) (int i) xs = Some ys" "rearranged b (Suc (Suc i)) xs ys"
        "sorted_range b (Suc (Suc i)) ys"
      using insertion_inner_ok [of b "Suc i" "Suc (Suc i)" xs] Suc.prems True by auto
    have le: "rearranged b e xs ys"
      using rearranged_mono [OF ys(2), of b e] True by simp
    have "xs ! b \<le> ys ! k" if "b \<le> k" "k < e" for k
      using rearranged_all [OF le, of "\<lambda>x. xs ! b \<le> x" k] Suc.prems(3, 5) that by blast
    moreover have "ys ! b \<le> xs ! b"
    proof -
      have "ys ! b \<le> ys ! k" if "b \<le> k" "k < Suc (Suc i)" for k
        using that ys(3) by (cases "k = b") (auto simp: sorted_range_def)
      then show ?thesis
        using rearranged_all [of b "Suc (Suc i)" ys xs "\<lambda>x. ys ! b \<le> x" b] ys(2) Suc.prems(1, 3) True
        by (auto simp: rearranged_def)
    qed
    ultimately have "ys ! b \<le> ys ! k" if "b \<le> k" "k < e" for k
      using that order.trans by blast
    then obtain zs where "insertion_outer (Suc i) e (Suc i) ys = Some zs" "rearranged b e ys zs" "sorted_range b e zs"
      using Suc.hyps(1) [of "Suc i" ys] n Suc.prems True ys(3) rearranged_length [OF le] by auto
    then show ?thesis
      using True ys(1) le rearranged_trans by (subst insertion_outer.simps) auto
  next
    case False
    then have "e = Suc i"
      using Suc.prems(2) by simp
    then show ?thesis
      using Suc.prems(4) by (subst insertion_outer.simps) auto
  qed
qed simp

interpretation insertion: sorting_routine insertion_sort
proof
  show "\<exists>ys. insertion_sort b e xs = Some ys \<and> rearranged b e xs ys \<and> sorted_range b e ys"
    if range: "b < e" "e \<le> length xs" for b e and xs :: "'a list"
  proof -
    from swap_min [OF range] obtain m ys where
      ys: "min_element xs b e = Some m" "iter_swap b m xs = Some ys" "rearranged b e xs ys"
        "\<And>k. b \<le> k \<Longrightarrow> k < e \<Longrightarrow> ys ! b \<le> ys ! k"
      by blast
    have "sorted_range b (Suc b) ys"
      by (simp add: sorted_range_def)
    then obtain zs where "insertion_outer b e b ys = Some zs" "rearranged b e ys zs" "sorted_range b e zs"
      using insertion_outer_ok [of b b e ys] range ys(4) rearranged_length [OF ys(3)] by auto
    then show ?thesis
      using ys rearranged_trans by (auto simp: insertion_sort_def)
  qed
qed

subsection \<open>Quick sort\<close>

text \<open>Two sorted ranges on the two sides of a pivot make a sorted range.\<close>

lemma sorted_range_join:
  assumes "sorted_range b m xs" "sorted_range (Suc m) e xs"
    and "\<And>k. b \<le> k \<Longrightarrow> k < m \<Longrightarrow> xs ! k \<le> xs ! m" "\<And>k. m < k \<Longrightarrow> k < e \<Longrightarrow> xs ! m \<le> xs ! k"
  shows "sorted_range b e xs"
proof -
  have "xs ! k \<le> xs ! l" if kl: "b \<le> k" "k < l" "l < e" for k l
  proof -
    consider "l < m" | "l = m" | "k = m" | "m < k" | "k < m" "m < l"
      using kl(2) by linarith
    then show ?thesis
      using assms kl order.trans [OF assms(3) assms(4)] by cases (auto simp: sorted_range_def)
  qed
  then show ?thesis
    by (simp add: sorted_range_def)
qed

text \<open>The step that both quick sorts make once the range is split at \<open>m\<close>.\<close>

lemma sort_parts:
  assumes m: "b \<le> m" "m < e" "e \<le> length xs"
    and split: "\<And>k. b \<le> k \<Longrightarrow> k < m \<Longrightarrow> xs ! k \<le> xs ! m" "\<And>k. m < k \<Longrightarrow> k < e \<Longrightarrow> xs ! m \<le> xs ! k"
    and ys: "rearranged b m xs ys" "sorted_range b m ys" and zs: "rearranged (Suc m) e ys zs" "sorted_range (Suc m) e zs"
  shows "rearranged b e xs zs" "sorted_range b e zs"
proof -
  note len = rearranged_length [OF ys(1)]
  have zk: "zs ! k = ys ! k" if "k \<le> m" for k
    using rearranged_before [OF zs(1), of k] that by simp
  have yk: "ys ! k = xs ! k" if "m \<le> k" "k < e" for k
    using rearranged_after [OF ys(1), of k] that m by simp
  show "rearranged b e xs zs"
    using rearranged_trans [OF rearranged_mono [OF ys(1), of b e] rearranged_mono [OF zs(1), of b e]] m by simp
  show "sorted_range b e zs"
  proof (rule sorted_range_join [OF _ zs(2)])
    show "sorted_range b m zs"
      using ys(2) zk by (simp add: sorted_range_def)
    show "zs ! k \<le> zs ! m" if "b \<le> k" "k < m" for k
      using rearranged_all [OF ys(1), of "\<lambda>x. x \<le> xs ! m" k] split(1) that zk yk [of m] m by simp
    show "zs ! m \<le> zs ! k" if "m < k" "k < e" for k
      using rearranged_all [OF zs(1), of "\<lambda>x. xs ! m \<le> x" k] split(2) that zk yk m len by simp
  qed
qed

lemma quick_partition_ok:
  assumes "b < m" "m \<le> i" "i \<le> e" "e \<le> length xs"
    and "\<And>k. b < k \<Longrightarrow> k < m \<Longrightarrow> xs ! k < xs ! b" "\<And>k. m \<le> k \<Longrightarrow> k < i \<Longrightarrow> xs ! b \<le> xs ! k"
  shows "\<exists>ys n. quick_partition b e i m xs = Some (ys, n) \<and> rearranged (Suc b) e xs ys \<and> b < n \<and> n \<le> e \<and>
    (\<forall>k. b < k \<longrightarrow> k < n \<longrightarrow> ys ! k < ys ! b) \<and> (\<forall>k. n \<le> k \<longrightarrow> k < e \<longrightarrow> ys ! b \<le> ys ! k)"
  using assms
proof (induction "e - i" arbitrary: i m xs)
  case 0
  then show ?case
    by (subst quick_partition.simps) auto
next
  case (Suc d)
  then have i: "i < e" and d: "d = e - Suc i"
    by auto
  have at: "read_at xs i = Some (xs ! i)" "read_at xs b = Some (xs ! b)"
    using Suc.prems i by (auto simp: read_at_def)
  show ?case
  proof (cases "xs ! i < xs ! b")
    case True
    obtain ys where ys: "iter_swap i m xs = Some ys" "ys = xs[i := xs ! m, m := xs ! i]" "rearranged (Suc b) e xs ys"
      using swap_rearranged [of "Suc b" i e m xs] Suc.prems i by auto
    have nth: "ys ! k = (if k = m then xs ! i else if k = i then xs ! m else xs ! k)" if "k < e" for k
      using ys(2) Suc.prems(2, 4) i that by (auto simp: nth_list_update)
    have "\<And>k. b < k \<Longrightarrow> k < Suc m \<Longrightarrow> ys ! k < ys ! b" "\<And>k. Suc m \<le> k \<Longrightarrow> k < Suc i \<Longrightarrow> ys ! b \<le> ys ! k"
      using Suc.prems i True by (auto simp: nth less_Suc_eq)
    then have "\<exists>zs n. quick_partition b e (Suc i) (Suc m) ys = Some (zs, n) \<and> rearranged (Suc b) e ys zs \<and> b < n \<and> n \<le> e \<and>
        (\<forall>k. b < k \<longrightarrow> k < n \<longrightarrow> zs ! k < zs ! b) \<and> (\<forall>k. n \<le> k \<longrightarrow> k < e \<longrightarrow> zs ! b \<le> zs ! k)"
      using Suc.prems i d rearranged_length [OF ys(3)] by (intro Suc.hyps(1)) auto
    then show ?thesis
      using True i at ys(1) rearranged_trans [OF ys(3)] by (subst quick_partition.simps) auto
  next
    case False
    have "\<exists>zs n. quick_partition b e (Suc i) m xs = Some (zs, n) \<and> rearranged (Suc b) e xs zs \<and> b < n \<and> n \<le> e \<and>
        (\<forall>k. b < k \<longrightarrow> k < n \<longrightarrow> zs ! k < zs ! b) \<and> (\<forall>k. n \<le> k \<longrightarrow> k < e \<longrightarrow> zs ! b \<le> zs ! k)"
      using Suc.prems i d False by (intro Suc.hyps(1)) (auto simp: less_Suc_eq)
    then show ?thesis
      using False i at by (subst quick_partition.simps) auto
  qed
qed

lemma quick_sort_ok:
  assumes "e \<le> length xs"
  shows "\<exists>ys. quick_sort b e xs = Some ys \<and> rearranged b e xs ys \<and> sorted_range b e ys"
  using assms
proof (induction "e - b" arbitrary: b e xs rule: less_induct)
  case less
  show ?case
  proof (cases "e \<le> b")
    case True
    then show ?thesis
      by (subst quick_sort.simps) (auto simp: sorted_range_def)
  next
    case False
    obtain ys n where ys: "quick_partition b e (Suc b) (Suc b) xs = Some (ys, n)" "rearranged (Suc b) e xs ys" "b < n" "n \<le> e"
        "\<And>k. b < k \<Longrightarrow> k < n \<Longrightarrow> ys ! k < ys ! b" "\<And>k. n \<le> k \<Longrightarrow> k < e \<Longrightarrow> ys ! b \<le> ys ! k"
      using quick_partition_ok [of b "Suc b" "Suc b" e xs] less.prems False by auto
    have len: "e \<le> length ys" and n: "Suc (n - 1) = n" "b \<le> n - 1" "n - 1 < e"
      using rearranged_length [OF ys(2)] less.prems ys(3, 4) by auto
    obtain us where us: "iter_swap b (n - 1) ys = Some us" "us = ys[b := ys ! (n - 1), n - 1 := ys ! b]" "rearranged b e ys us"
      using swap_rearranged [of b b e "n - 1" ys] n len False by auto
    have nth: "us ! k = (if k = n - 1 then ys ! b else if k = b then ys ! (n - 1) else ys ! k)" if "k < e" for k
      using us(2) n len that by (auto simp: nth_list_update)
    have split: "us ! k \<le> us ! (n - 1)" if "b \<le> k" "k < n - 1" for k
      using that n(3) ys(5) [of k] ys(5) [of "n - 1"] by (auto simp: nth less_imp_le)
    have split2: "us ! (n - 1) \<le> us ! k" if "n - 1 < k" "k < e" for k
      using that n ys(6) [of k] by (auto simp: nth)
    have ul: "e \<le> length us"
      using rearranged_length [OF us(3)] len by simp
    have "n - 1 - b < e - b" "e - n < e - b"
      using n ys(3) by linarith+
    note shorter = this
    obtain vs where vs: "quick_sort b (n - 1) us = Some vs" "rearranged b (n - 1) us vs" "sorted_range b (n - 1) vs"
      using less.hyps [OF shorter(1), of us] n ul by auto
    obtain ws where ws: "quick_sort n e vs = Some ws" "rearranged n e vs ws" "sorted_range n e ws"
      using less.hyps [OF shorter(2), of vs] rearranged_length [OF vs(2)] ul by auto
    have "rearranged b e us ws" "sorted_range b e ws"
      using sort_parts [OF n(2, 3) ul split split2 vs(2, 3)] ws(2, 3) n(1) by auto
    then show ?thesis
      using False ys(1) us(1) vs(1) ws(1) rearranged_trans [OF rearranged_mono [OF ys(2), of b e] rearranged_trans [OF us(3)]]
      by (subst quick_sort.simps) auto
  qed
qed

interpretation quick: sorting_routine quick_sort
  using quick_sort_ok by unfold_locales blast

subsection \<open>The other quick sort\<close>

lemma partition_loop_ok:
  assumes "b \<le> m" "m \<le> j" "j \<le> h" "h < length xs"
    and "\<And>k. b \<le> k \<Longrightarrow> k < m \<Longrightarrow> xs ! k \<le> p" "\<And>k. m \<le> k \<Longrightarrow> k < j \<Longrightarrow> p < xs ! k"
  shows "\<exists>ys n. partition_loop p (int h) (int j) (int m - 1) xs = Some (ys, int n - 1) \<and> rearranged b h xs ys \<and> b \<le> n \<and> n \<le> h \<and>
    (\<forall>k. b \<le> k \<longrightarrow> k < n \<longrightarrow> ys ! k \<le> p) \<and> (\<forall>k. n \<le> k \<longrightarrow> k < h \<longrightarrow> p < ys ! k)"
  using assms
proof (induction "h - j" arbitrary: j m xs)
  case 0
  then show ?case
    by (subst partition_loop.simps) auto
next
  case (Suc d)
  then have j: "j < h" and d: "d = h - Suc j"
    by auto
  have at: "at_int xs (int j) = Some (xs ! j)"
    using Suc.prems j by (auto simp: at_int_def read_at_def)
  show ?case
  proof (cases "xs ! j \<le> p")
    case True
    obtain ys where ys: "iter_swap m j xs = Some ys" "ys = xs[m := xs ! j, j := xs ! m]" "rearranged b h xs ys"
      using swap_rearranged [of b m h j xs] Suc.prems j by auto
    have nth: "ys ! k = (if k = j then xs ! m else if k = m then xs ! j else xs ! k)" if "k < h" for k
      using ys(2) Suc.prems(2, 4) j that by (auto simp: nth_list_update)
    have "\<And>k. b \<le> k \<Longrightarrow> k < Suc m \<Longrightarrow> ys ! k \<le> p" "\<And>k. Suc m \<le> k \<Longrightarrow> k < Suc j \<Longrightarrow> p < ys ! k"
      using Suc.prems j True by (auto simp: nth less_Suc_eq)
    then have "\<exists>zs n. partition_loop p (int h) (int (Suc j)) (int (Suc m) - 1) ys = Some (zs, int n - 1) \<and> rearranged b h ys zs \<and>
        b \<le> n \<and> n \<le> h \<and> (\<forall>k. b \<le> k \<longrightarrow> k < n \<longrightarrow> zs ! k \<le> p) \<and> (\<forall>k. n \<le> k \<longrightarrow> k < h \<longrightarrow> p < zs ! k)"
      using Suc.prems j d rearranged_length [OF ys(3)] by (intro Suc.hyps(1)) auto
    then show ?thesis
      using True j at ys(1) rearranged_trans [OF ys(3)]
      by (subst partition_loop.simps) (auto simp: swap_int_def add.commute)
  next
    case False
    have "\<exists>zs n. partition_loop p (int h) (int (Suc j)) (int m - 1) xs = Some (zs, int n - 1) \<and> rearranged b h xs zs \<and>
        b \<le> n \<and> n \<le> h \<and> (\<forall>k. b \<le> k \<longrightarrow> k < n \<longrightarrow> zs ! k \<le> p) \<and> (\<forall>k. n \<le> k \<longrightarrow> k < h \<longrightarrow> p < zs ! k)"
      using Suc.prems j d False by (intro Suc.hyps(1)) (auto simp: less_Suc_eq)
    then show ?thesis
      using False j at by (subst partition_loop.simps) (auto simp: add.commute)
  qed
qed

lemma univer_partition_ok:
  assumes "b \<le> h" "h < length xs"
  shows "\<exists>us m. univer_partition xs (int b) (int h) = Some (us, int m) \<and> rearranged b (Suc h) xs us \<and> b \<le> m \<and> m \<le> h \<and>
    (\<forall>k. b \<le> k \<longrightarrow> k < m \<longrightarrow> us ! k \<le> us ! m) \<and> (\<forall>k. m < k \<longrightarrow> k < Suc h \<longrightarrow> us ! m \<le> us ! k)"
proof -
  let ?p = "xs ! h"
  obtain ys n where ys: "partition_loop ?p (int h) (int b) (int b - 1) xs = Some (ys, int n - 1)" "rearranged b h xs ys" "b \<le> n" "n \<le> h"
      "\<And>k. b \<le> k \<Longrightarrow> k < n \<Longrightarrow> ys ! k \<le> ?p" "\<And>k. n \<le> k \<Longrightarrow> k < h \<Longrightarrow> ?p < ys ! k"
    using partition_loop_ok [of b b b h xs ?p] assms by auto
  have len: "Suc h \<le> length ys" and yh: "ys ! h = ?p"
    using rearranged_length [OF ys(2)] rearranged_after [OF ys(2), of h] assms by auto
  obtain us where us: "iter_swap n h ys = Some us" "us = ys[n := ys ! h, h := ys ! n]" "rearranged b (Suc h) ys us"
    using swap_rearranged [of b n "Suc h" h ys] ys(3, 4) len assms by auto
  have nth: "us ! k = (if k = h then ys ! n else if k = n then ys ! h else ys ! k)" if "k \<le> h" for k
    using us(2) ys(4) len that by (auto simp: nth_list_update)
  have "us ! n = ?p"
    using nth [OF ys(4)] yh by simp
  moreover have "us ! k \<le> ?p" if "b \<le> k" "k < n" for k
    using that nth [of k] ys(4, 5) by simp
  moreover have "?p \<le> us ! k" if "n < k" "k < Suc h" for k
    using that nth [of k] ys(6) [of k] ys(6) [of n] by (auto simp: less_Suc_eq)
  moreover have "rearranged b (Suc h) xs us"
    using rearranged_trans [OF rearranged_mono [OF ys(2), of b "Suc h"] us(3)] by simp
  moreover have "univer_partition xs (int b) (int h) = Some (us, int n)"
    using ys(1) us(1) assms by (simp add: univer_partition_def at_int_def read_at_def swap_int_def)
  ultimately show ?thesis
    using ys(3, 4) by auto
qed

lemma univer_quick_sort_ok:
  assumes "e \<le> length xs"
  shows "\<exists>ys. univer_quick_sort xs (int b) (int e - 1) = Some ys \<and> rearranged b e xs ys \<and> sorted_range b e ys"
  using assms
proof (induction "e - b" arbitrary: b e xs rule: less_induct)
  case less
  show ?case
  proof (cases "e \<le> Suc b")
    case True
    then show ?thesis
      by (subst univer_quick_sort.simps) (auto simp: sorted_range_def)
  next
    case False
    then obtain h where h: "e = Suc h" "b < h"
      by (cases e) auto
    obtain us m where us: "univer_partition xs (int b) (int h) = Some (us, int m)" "rearranged b e xs us" "b \<le> m" "m < e"
        "\<And>k. b \<le> k \<Longrightarrow> k < m \<Longrightarrow> us ! k \<le> us ! m" "\<And>k. m < k \<Longrightarrow> k < e \<Longrightarrow> us ! m \<le> us ! k"
      using univer_partition_ok [of b h xs] h less.prems by auto
    have ul: "e \<le> length us"
      using rearranged_length [OF us(2)] less.prems by simp
    have "m - b < e - b" "e - Suc m < e - b"
      using us(3, 4) by linarith+
    note shorter = this
    obtain vs where vs: "univer_quick_sort us (int b) (int m - 1) = Some vs" "rearranged b m us vs" "sorted_range b m vs"
      using less.hyps [OF shorter(1), of us] us(4) ul by auto
    obtain ws where ws: "univer_quick_sort vs (int (Suc m)) (int e - 1) = Some ws" "rearranged (Suc m) e vs ws" "sorted_range (Suc m) e ws"
      using less.hyps [OF shorter(2), of vs] rearranged_length [OF vs(2)] ul by auto
    have "rearranged b e us ws" "sorted_range b e ws"
      using sort_parts [OF us(3, 4) ul us(5, 6) vs(2, 3) ws(2, 3)] by auto
    then show ?thesis
      using h us(1) vs(1) ws(1) rearranged_trans [OF us(2)]
      by (subst univer_quick_sort.simps) (auto simp: add.commute)
  qed
qed

interpretation univer: sorting_routine "\<lambda>b e xs. univer_quick_sort xs (int b) (int e - 1)"
  using univer_quick_sort_ok by unfold_locales blast

subsection \<open>Properties\<close>

text \<open>
  C22: on every non-empty range inside the array (on an empty one \<open>insertion_sort\<close> is undefined, see
  \<open>insertion_sort_empty\<close>), all five sorting routines return and leave the array with the range
  sorted and everything outside of it unchanged; in particular they agree with each other.
\<close>
theorem sorting_routines_sort:
  assumes "b < e" "e \<le> length xs" "e \<le> length ns"
  shows "bubble_sort b e xs = Some (take b xs @ sort (segment b e xs) @ drop e xs) \<and>
    insertion_sort b e xs = Some (take b xs @ sort (segment b e xs) @ drop e xs) \<and>
    selection_sort b e xs = Some (take b xs @ sort (segment b e xs) @ drop e xs) \<and>
    quick_sort b e xs = Some (take b xs @ sort (segment b e xs) @ drop e xs) \<and>
    univer_quick_sort ns (int b) (int e - 1) = Some (take b ns @ sort (segment b e ns) @ drop e ns)"
  using bubble.sort_range_eq [OF assms(1, 2)] insertion.sort_range_eq [OF assms(1, 2)]
    selection.sort_range_eq [OF assms(1, 2)] quick.sort_range_eq [OF assms(1, 2)] univer.sort_range_eq [OF assms(1, 3)]
  by blast

theorem sorting_routines_sort_witness:
  "bubble_sort 0 5 [7, 3, 2, 5, 1::int] = Some (sort [7, 3, 2, 5, 1]) \<and>
   univer_quick_sort [10, 2, 9, 4, 5] 0 4 = Some (sort [10, 2, 9, 4, 5])"
  using sorting_routines_sort [of 0 5 "[7, 3, 2, 5, 1::int]" "[10, 2, 9, 4, 5]"]
  by (simp add: segment_def)

lemma insertion_sort_empty: "insertion_sort (length xs) (length xs) xs = None"
  by (simp add: insertion_sort_def min_element_def iter_swap_def)

lemma univer_test_sorted: "univer_test = Some [2, 4, 5, 9, 10]"
  using univer.sort_whole [of "[10, 2, 9, 4, 5]"] by (simp add: univer_test_def)

end
