(* ===== verification/Dijkstra.thy ===== *)
theory Dijkstra
  imports Prelude
begin

text \<open>
  Shortest paths in \<open>Sandbox/dijkstra.hpp\<close>. The graph is a square matrix of \<open>size_t\<close> weights behind a pointer, zero meaning no
  edge; sums wrap around at \<open>2 ^ 64\<close> and an access outside an array is undefined (\<open>None\<close>). Vertices that are not
  reached keep the greatest \<open>int32_t\<close> as their distance.
\<close>

subsection \<open>The code\<close>

record dijkstra_implementation =
  matrix :: "nat list"
  vertices :: nat

definition size_max :: nat where
  "size_max = 2 ^ 64 - 1"

definition int32_max :: nat where
  "int32_max = 2 ^ 31 - 1"

definition size_add :: "nat \<Rightarrow> nat \<Rightarrow> nat" where
  "size_add a b = (a + b) mod 2 ^ 64"

definition load_at :: "'a list \<Rightarrow> nat \<Rightarrow> 'a option" where
  "load_at xs i = (if i < length xs then Some (xs ! i) else None)"

definition at_pointer :: "dijkstra_implementation \<Rightarrow> nat \<Rightarrow> nat \<Rightarrow> nat option" where
  "at_pointer g x y = load_at (matrix g) (vertices g * y + x)"

fun valid_row :: "dijkstra_implementation \<Rightarrow> nat \<Rightarrow> nat list \<Rightarrow> bool option" where
  "valid_row g i [] = Some True"
| "valid_row g i (j # js) =
     do { a \<leftarrow> at_pointer g i j; b \<leftarrow> at_pointer g j i; if a \<noteq> b then Some False else valid_row g i js }"

fun valid_rows :: "dijkstra_implementation \<Rightarrow> nat list \<Rightarrow> bool option" where
  "valid_rows g [] = Some True"
| "valid_rows g (i # is) =
     do { ok \<leftarrow> valid_row g i [0..<vertices g]; if ok then valid_rows g is else Some False }"

definition valid_graph :: "dijkstra_implementation \<Rightarrow> bool option" where
  "valid_graph g = valid_rows g [0..<vertices g]"

fun min_distance_loop :: "nat list \<Rightarrow> bool list \<Rightarrow> nat list \<Rightarrow> nat \<Rightarrow> nat \<Rightarrow> nat option" where
  "min_distance_loop dist spt_set [] least min_index = Some min_index"
| "min_distance_loop dist spt_set (i # is) least min_index =
     do { visited \<leftarrow> load_at spt_set i; d \<leftarrow> load_at dist i;
          if \<not> visited \<and> d \<le> least then min_distance_loop dist spt_set is d i
          else min_distance_loop dist spt_set is least min_index }"

definition min_distance :: "nat \<Rightarrow> nat list \<Rightarrow> bool list \<Rightarrow> nat option" where
  "min_distance n dist spt_set = min_distance_loop dist spt_set [0..<n] size_max 0"

definition relax :: "dijkstra_implementation \<Rightarrow> nat \<Rightarrow> nat \<Rightarrow> bool list \<Rightarrow> nat list \<Rightarrow> nat list option" where
  "relax g u v spt_set dist =
     do { visited \<leftarrow> load_at spt_set v;
          if visited then Some dist
          else do { w \<leftarrow> at_pointer g u v;
                    if w = 0 then Some dist
                    else do { du \<leftarrow> load_at dist u; dv \<leftarrow> load_at dist v;
                              if du \<noteq> size_max \<and> size_add du w < dv then Some (dist[v := size_add du w])
                              else Some dist } } }"

fun relax_loop :: "dijkstra_implementation \<Rightarrow> nat \<Rightarrow> bool list \<Rightarrow> nat list \<Rightarrow> nat list \<Rightarrow> nat list option" where
  "relax_loop g u spt_set [] dist = Some dist"
| "relax_loop g u spt_set (v # vs) dist = do { dist \<leftarrow> relax g u v spt_set dist; relax_loop g u spt_set vs dist }"

fun compute_loop :: "dijkstra_implementation \<Rightarrow> nat \<Rightarrow> nat list \<Rightarrow> bool list \<Rightarrow> nat list option" where
  "compute_loop g 0 dist spt_set = Some dist"
| "compute_loop g (Suc i) dist spt_set =
     do { u \<leftarrow> min_distance (vertices g) dist spt_set;
          _ \<leftarrow> load_at spt_set u;
          dist \<leftarrow> relax_loop g u (spt_set[u := True]) [0..<vertices g] dist;
          compute_loop g i dist (spt_set[u := True]) }"

definition distances :: "dijkstra_implementation \<Rightarrow> nat \<Rightarrow> nat list option" where
  "distances g src =
     (if src < vertices g
      then compute_loop g (vertices g - 1) ((replicate (vertices g) int32_max)[src := 0]) (replicate (vertices g) False)
      else None)"

definition assert_array :: "nat list" where
  "assert_array = [0, 4, 12, 19, 21, 11, 9, 8, 14]"

fun assert_loop :: "nat list \<Rightarrow> nat list \<Rightarrow> (cxx_exception + unit) option" where
  "assert_loop dist [] = Some (Inr ())"
| "assert_loop dist (i # is) =
     do { a \<leftarrow> load_at assert_array i; d \<leftarrow> load_at dist i;
          if a \<noteq> d
          then Some (Inl (runtime_error (''assertion '' @ std_to_string (int a) @ '' '' @ std_to_string (int d) @ '' failed'')))
          else assert_loop dist is }"

definition compute :: "dijkstra_implementation \<Rightarrow> nat \<Rightarrow> (cxx_exception + unit) option" where
  "compute g src = do { dist \<leftarrow> distances g src; assert_loop dist [0..<vertices g] }"

text \<open>The test program; the matrix is allocated and never filled, so its contents are an argument.\<close>

definition dijkstra_test :: "nat list \<Rightarrow> (cxx_exception + string) option" where
  "dijkstra_test graph =
     do { let impl = \<lparr>matrix = graph, vertices = 9\<rparr>;
          ok \<leftarrow> valid_graph impl;
          if \<not> ok then Some (Inr ''Invalid graph'')
          else do { r \<leftarrow> compute impl 0; Some (map_sum id (\<lambda>_. []) r) } }"

subsection \<open>Routes\<close>

definition weight :: "dijkstra_implementation \<Rightarrow> nat \<Rightarrow> nat \<Rightarrow> nat" where
  "weight g u v = matrix g ! (vertices g * v + u)"

inductive route :: "dijkstra_implementation \<Rightarrow> nat \<Rightarrow> nat \<Rightarrow> nat \<Rightarrow> bool" for g src where
  start: "route g src src 0"
| step: "route g src u d \<Longrightarrow> v < vertices g \<Longrightarrow> weight g u v \<noteq> 0 \<Longrightarrow> route g src v (d + weight g u v)"

definition matrix_ok :: "dijkstra_implementation \<Rightarrow> bool" where
  "matrix_ok g \<longleftrightarrow> length (matrix g) = vertices g * vertices g \<and> (\<forall>w \<in> set (matrix g). w < 2 ^ 63)"

lemma at_pointer_ok:
  assumes "matrix_ok g" "u < vertices g" "v < vertices g"
  shows "at_pointer g u v = Some (weight g u v)" "weight g u v < 2 ^ 63"
proof -
  have "vertices g * v + u < vertices g * Suc v"
    using assms(2) by simp
  also have "\<dots> \<le> vertices g * vertices g"
    using assms(3) by (intro mult_le_mono2) simp
  finally have "vertices g * v + u < length (matrix g)"
    using assms(1) by (simp add: matrix_ok_def)
  then show "at_pointer g u v = Some (weight g u v)" "weight g u v < 2 ^ 63"
    using assms(1) nth_mem by (auto simp: at_pointer_def load_at_def weight_def matrix_ok_def)
qed

lemma valid_row_ok:
  assumes "matrix_ok g" "i < vertices g" "\<forall>j \<in> set js. j < vertices g"
  shows "valid_row g i js = Some (\<forall>j \<in> set js. weight g i j = weight g j i)"
  using assms(3) by (induction js) (auto simp: at_pointer_ok assms)

lemma valid_rows_ok:
  assumes "matrix_ok g" "\<forall>i \<in> set is. i < vertices g"
  shows "valid_rows g is = Some (\<forall>i \<in> set is. \<forall>j < vertices g. weight g i j = weight g j i)"
  using assms(2) by (induction "is") (auto simp: valid_row_ok assms(1))

subsection \<open>The loops\<close>

definition estimates :: "dijkstra_implementation \<Rightarrow> nat \<Rightarrow> nat list \<Rightarrow> bool" where
  "estimates g src dist \<longleftrightarrow> length dist = vertices g \<and> src < vertices g \<and> dist ! src = 0 \<and>
     (\<forall>v < vertices g. dist ! v \<le> int32_max \<and> (dist ! v = int32_max \<or> route g src v (dist ! v)))"

definition settled :: "dijkstra_implementation \<Rightarrow> nat list \<Rightarrow> nat \<Rightarrow> bool" where
  "settled g dist u \<longleftrightarrow> (\<forall>v < vertices g. weight g u v \<noteq> 0 \<longrightarrow> dist ! v \<le> dist ! u + weight g u v)"

definition search_ok :: "dijkstra_implementation \<Rightarrow> nat \<Rightarrow> nat list \<Rightarrow> bool list \<Rightarrow> bool" where
  "search_ok g src dist spt \<longleftrightarrow> estimates g src dist \<and> length spt = vertices g \<and>
     (\<forall>u < vertices g. spt ! u \<longrightarrow> settled g dist u \<and> (\<forall>v < vertices g. \<not> spt ! v \<longrightarrow> dist ! u \<le> dist ! v))"

lemma min_distance_loop_ok:
  assumes "\<forall>i \<in> set is. i < length dist \<and> i < length spt \<and> dist ! i < size_max"
    and "least = size_max \<or> m < length dist \<and> \<not> spt ! m \<and> dist ! m = least"
  shows "\<exists>u. min_distance_loop dist spt is least m = Some u \<and>
    (least = size_max \<and> (\<forall>i \<in> set is. spt ! i) \<or>
     u < length dist \<and> \<not> spt ! u \<and> dist ! u \<le> least \<and> (\<forall>i \<in> set is. \<not> spt ! i \<longrightarrow> dist ! u \<le> dist ! i))"
  using assms
proof (induction "is" arbitrary: least m)
  case (Cons i "is")
  then have at: "load_at spt i = Some (spt ! i)" "load_at dist i = Some (dist ! i)" "dist ! i < size_max"
    by (auto simp: load_at_def)
  show ?case
  proof (cases "\<not> spt ! i \<and> dist ! i \<le> least")
    case True
    then obtain u where "min_distance_loop dist spt is (dist ! i) i = Some u" "u < length dist" "\<not> spt ! u"
        "dist ! u \<le> dist ! i" "\<forall>i \<in> set is. \<not> spt ! i \<longrightarrow> dist ! u \<le> dist ! i"
      using Cons.IH [of "dist ! i" i] Cons.prems(1) at(3) by auto
    then show ?thesis
      using True at by auto
  next
    case False
    then obtain u where "min_distance_loop dist spt is least m = Some u"
        "least = size_max \<and> (\<forall>i \<in> set is. spt ! i) \<or> u < length dist \<and> \<not> spt ! u \<and> dist ! u \<le> least \<and>
         (\<forall>i \<in> set is. \<not> spt ! i \<longrightarrow> dist ! u \<le> dist ! i)"
      using Cons.IH [of least m] Cons.prems by auto
    then show ?thesis
      using False at by auto
  qed
qed auto

lemma min_distance_ok:
  assumes "search_ok g src dist spt" "v < vertices g" "\<not> spt ! v"
  shows "\<exists>u. min_distance (vertices g) dist spt = Some u \<and> u < vertices g \<and> \<not> spt ! u \<and>
    (\<forall>i < vertices g. \<not> spt ! i \<longrightarrow> dist ! u \<le> dist ! i)"
proof -
  have len: "length dist = vertices g" "length spt = vertices g" "\<And>i. i < vertices g \<Longrightarrow> dist ! i \<le> int32_max"
    using assms(1) by (auto simp: search_ok_def estimates_def)
  have "int32_max < size_max"
    by (simp add: size_max_def int32_max_def)
  then have "\<forall>i \<in> set [0..<vertices g]. i < length dist \<and> i < length spt \<and> dist ! i < size_max"
    using len(1, 2) le_less_trans [OF len(3)] by auto
  then show ?thesis
    using min_distance_loop_ok [of "[0..<vertices g]" dist spt size_max 0] len assms(2, 3)
    by (auto simp: min_distance_def)
qed

definition relaxed :: "dijkstra_implementation \<Rightarrow> nat \<Rightarrow> bool list \<Rightarrow> nat list \<Rightarrow> nat \<Rightarrow> nat" where
  "relaxed g u spt dist v =
     (if \<not> spt ! v \<and> weight g u v \<noteq> 0 then min (dist ! v) (dist ! u + weight g u v) else dist ! v)"

lemma relax_ok:
  assumes "matrix_ok g" "u < vertices g" "v < vertices g" "length dist = vertices g" "length spt = vertices g"
    and "dist ! u \<le> int32_max"
  shows "relax g u v spt dist = Some (dist[v := relaxed g u spt dist v])"
proof -
  have at: "at_pointer g u v = Some (weight g u v)" "weight g u v < 2 ^ 63"
    using at_pointer_ok [OF assms(1-3)] by auto
  have "dist ! u + weight g u v < 2 ^ 64"
    using assms(6) at(2) by (simp add: int32_max_def)
  then have "size_add (dist ! u) (weight g u v) = dist ! u + weight g u v" "dist ! u \<noteq> size_max"
    using assms(6) by (simp_all add: size_add_def int32_max_def size_max_def)
  then show ?thesis
    using assms at(1) by (auto simp: relax_def relaxed_def load_at_def min_def)
qed

lemma relax_loop_ok:
  assumes "matrix_ok g" "u < vertices g" "length dist = vertices g" "length spt = vertices g" "dist ! u \<le> int32_max" "spt ! u"
    and "distinct vs" "\<forall>v \<in> set vs. v < vertices g"
  shows "relax_loop g u spt vs dist =
    Some (map (\<lambda>v. if v \<in> set vs then relaxed g u spt dist v else dist ! v) [0..<vertices g])"
  using assms(3, 5, 7, 8)
proof (induction vs arbitrary: dist)
  case Nil
  then show ?case
    by (auto intro: nth_equalityI)
next
  case (Cons v vs)
  let ?dist = "dist[v := relaxed g u spt dist v]"
  have same: "?dist ! u = dist ! u"
    using assms(6) Cons.prems(1) assms(2) by (cases "v = u") (auto simp: relaxed_def)
  have "relax g u v spt dist = Some ?dist"
    using relax_ok assms(1, 2, 4) Cons.prems by simp
  moreover have "relax_loop g u spt vs ?dist =
      Some (map (\<lambda>k. if k \<in> set vs then relaxed g u spt ?dist k else ?dist ! k) [0..<vertices g])"
    using Cons.IH [of ?dist] Cons.prems same by simp
  moreover have "(if k \<in> set vs then relaxed g u spt ?dist k else ?dist ! k) =
      (if k \<in> set (v # vs) then relaxed g u spt dist k else dist ! k)" if "k < vertices g" for k
    using that Cons.prems same by (cases "k = v") (auto simp: relaxed_def)
  ultimately show ?case
    by simp
qed

lemma search_step:
  assumes g: "matrix_ok g" and inv: "search_ok g src dist spt" and u: "u < vertices g" "\<not> spt ! u"
      "\<And>i. i < vertices g \<Longrightarrow> \<not> spt ! i \<Longrightarrow> dist ! u \<le> dist ! i"
  shows "\<exists>dist'. relax_loop g u (spt[u := True]) [0..<vertices g] dist = Some dist' \<and> search_ok g src dist' (spt[u := True])"
proof -
  let ?spt = "spt[u := True]" and ?n = "vertices g"
  have D: "length dist = ?n" "src < ?n" "dist ! src = 0" "length spt = ?n"
      "\<And>v. v < ?n \<Longrightarrow> dist ! v \<le> int32_max" "\<And>v. v < ?n \<Longrightarrow> dist ! v = int32_max \<or> route g src v (dist ! v)"
      "\<And>x v. x < ?n \<Longrightarrow> spt ! x \<Longrightarrow> v < ?n \<Longrightarrow> weight g x v \<noteq> 0 \<Longrightarrow> dist ! v \<le> dist ! x + weight g x v"
      "\<And>x v. x < ?n \<Longrightarrow> spt ! x \<Longrightarrow> v < ?n \<Longrightarrow> \<not> spt ! v \<Longrightarrow> dist ! x \<le> dist ! v"
    using inv by (auto simp: search_ok_def estimates_def settled_def)
  define dist' where "dist' = map (relaxed g u ?spt dist) [0..<?n]"
  have run: "relax_loop g u ?spt [0..<?n] dist = Some dist'"
    using relax_loop_ok [OF g u(1) D(1), of ?spt "[0..<?n]"] D u(1) by (simp add: dist'_def)
  have nth: "dist' ! v = relaxed g u ?spt dist v" if "v < ?n" for v
    using that by (simp add: dist'_def)
  have le: "dist' ! v \<le> dist ! v" if "v < ?n" for v
    using nth [OF that] by (simp add: relaxed_def)
  have old: "dist' ! v = dist ! v" if "v < ?n" "?spt ! v" for v
    using nth [OF that(1)] that(2) by (simp add: relaxed_def)
  have "dist' ! v = int32_max \<or> route g src v (dist' ! v)" if v: "v < ?n" for v
  proof (cases "dist' ! v = dist ! v")
    case False
    then have "dist' ! v = dist ! u + weight g u v" "weight g u v \<noteq> 0" "dist ! u + weight g u v < dist ! v"
      using nth [OF v] by (auto simp: relaxed_def min_def split: if_splits)
    then show ?thesis
      using D(5) [OF v] D(6) [OF u(1)] route.step [of g src u "dist ! u" v] v by auto
  qed (use D(6) v in simp)
  moreover have "dist' ! v \<le> int32_max" if "v < ?n" for v
    using le [OF that] D(5) [OF that] by simp
  moreover have "dist' ! src = 0"
    using le [OF D(2)] D(3) by simp
  moreover have "dist' ! v \<le> dist' ! x + weight g x v" if x: "x < ?n" "?spt ! x" "v < ?n" "weight g x v \<noteq> 0" for x v
  proof (cases "x = u")
    case True
    then show ?thesis
      using nth [OF x(3)] old [OF x(1, 2)] x(4) D(8) [of v u] u(1, 2) x(3) D(4)
      by (cases "v = u"; cases "spt ! v") (auto simp: relaxed_def)
  next
    case False
    then show ?thesis
      using D(7) [of x v] le [OF x(3)] old [OF x(1, 2)] x by simp
  qed
  moreover have "dist' ! x \<le> dist' ! v" if x: "x < ?n" "?spt ! x" "v < ?n" "\<not> ?spt ! v" for x v
  proof -
    have v: "\<not> spt ! v" "v \<noteq> u"
      using x(3, 4) D(4) by (cases "v = u"; simp)+
    have "dist ! x \<le> dist ! u"
      using D(8) [of x u] x(1, 2) u D(4) by (cases "x = u") auto
    then have "dist ! x \<le> dist' ! v"
      using u(3) [OF x(3) v(1)] nth [OF x(3)] by (auto simp: relaxed_def)
    then show ?thesis
      using old [OF x(1, 2)] by simp
  qed
  ultimately have "search_ok g src dist' ?spt"
    using D by (simp add: search_ok_def estimates_def settled_def dist'_def)
  then show ?thesis
    using run by blast
qed

definition unvisited :: "bool list \<Rightarrow> nat" where
  "unvisited spt = length (filter (\<lambda>b. \<not> b) spt)"

lemma unvisited_update:
  assumes u: "u < length spt" "\<not> spt ! u"
  shows "unvisited spt = Suc (unvisited (spt[u := True]))"
proof -
  have e: "spt = take u spt @ False # drop (Suc u) spt"
    using id_take_nth_drop [OF u(1)] u(2) by simp
  have "unvisited (take u spt @ False # drop (Suc u) spt) = Suc (unvisited (spt[u := True]))"
    using u(1) by (simp add: unvisited_def upd_conv_take_nth_drop)
  then show ?thesis
    using e by simp
qed

lemma compute_loop_ok:
  assumes "matrix_ok g" "search_ok g src dist spt" "n < unvisited spt"
  shows "\<exists>dist' spt'. compute_loop g n dist spt = Some dist' \<and> search_ok g src dist' spt' \<and> unvisited spt' = unvisited spt - n"
  using assms(2, 3)
proof (induction n arbitrary: dist spt)
  case (Suc n)
  have "filter Not spt \<noteq> []"
    using Suc.prems(2) by (auto simp: unvisited_def)
  then obtain v where "v < vertices g" "\<not> spt ! v"
    using Suc.prems(1) by (auto simp: filter_empty_conv in_set_conv_nth search_ok_def)
  then obtain u where u: "min_distance (vertices g) dist spt = Some u" "u < vertices g" "\<not> spt ! u"
      "\<And>i. i < vertices g \<Longrightarrow> \<not> spt ! i \<Longrightarrow> dist ! u \<le> dist ! i"
    using min_distance_ok [OF Suc.prems(1)] by blast
  have len: "length spt = vertices g"
    using Suc.prems(1) by (simp add: search_ok_def)
  obtain dist' where dist': "relax_loop g u (spt[u := True]) [0..<vertices g] dist = Some dist'"
      "search_ok g src dist' (spt[u := True])"
    using search_step [OF assms(1) Suc.prems(1) u(2-4)] by blast
  then show ?case
    using Suc.IH [OF dist'(2)] Suc.prems(2) unvisited_update [of u spt] u len by (auto simp: load_at_def)
qed auto

lemma search_start:
  assumes "src < vertices g"
  shows "search_ok g src ((replicate (vertices g) int32_max)[src := 0]) (replicate (vertices g) False)"
  using assms route.start by (auto simp: search_ok_def estimates_def nth_list_update)

text \<open>With one vertex left, all edges are settled.\<close>

lemma search_final:
  assumes "search_ok g src dist spt" "unvisited spt = 1" "u < vertices g"
  shows "settled g dist u"
proof (cases "spt ! u")
  case True
  then show ?thesis
    using assms by (simp add: search_ok_def)
next
  case False
  have len: "length spt = vertices g"
    using assms(1) by (simp add: search_ok_def)
  have "spt ! v" if v: "v < vertices g" "v \<noteq> u" for v
  proof (rule ccontr)
    assume "\<not> spt ! v"
    then show False
      using unvisited_update [of u spt] unvisited_update [of v "spt[u := True]"] assms(2, 3) False v len by simp
  qed
  then have "dist ! v \<le> dist ! u" if "v < vertices g" for v
    using assms(1, 3) False that unfolding search_ok_def by (cases "v = u") auto
  then show ?thesis
    by (simp add: settled_def trans_le_add1)
qed

lemma distances_ok:
  assumes "matrix_ok g" "src < vertices g"
  shows "\<exists>dist. distances g src = Some dist \<and> estimates g src dist \<and> (\<forall>u < vertices g. settled g dist u)"
proof -
  have "unvisited (replicate (vertices g) False) = vertices g"
    by (simp add: unvisited_def)
  then obtain dist spt where "distances g src = Some dist" "search_ok g src dist spt" "unvisited spt = 1"
    using compute_loop_ok [OF assms(1) search_start [OF assms(2)], of "vertices g - 1"] assms(2)
    by (auto simp: distances_def)
  then show ?thesis
    using search_final by (auto simp: search_ok_def)
qed

lemma settled_route:
  assumes "route g src v d" "estimates g src dist" "\<forall>u < vertices g. settled g dist u"
  shows "v < vertices g \<and> dist ! v \<le> d"
  using assms
proof (induction rule: route.induct)
  case (step u d v)
  then show ?case
    using le_trans [of "dist ! v" "dist ! u + weight g u v" "d + weight g u v"] by (simp add: settled_def)
qed (simp add: estimates_def)

lemma assert_loop_ok:
  assumes "\<forall>i \<in> set is. i < length dist \<and> i < 9"
  shows "(assert_loop dist is = Some (Inr ()) \<longleftrightarrow> (\<forall>i \<in> set is. dist ! i = assert_array ! i)) \<and> assert_loop dist is \<noteq> None"
  using assms
proof (induction "is")
  case (Cons i "is")
  then have "load_at dist i = Some (dist ! i)" "load_at assert_array i = Some (assert_array ! i)"
    by (auto simp: load_at_def assert_array_def)
  then show ?case
    using Cons by auto
qed simp

subsection \<open>Properties\<close>

text \<open>
  C20: for a square matrix of weights below \<open>2 ^ 63\<close> and a source vertex of the graph, the search returns without leaving an array or wrapping around, and
  the distance of every vertex is the length of a shortest route, or the greatest \<open>int32_t\<close> if there is no shorter one.
\<close>
theorem dijkstra_shortest:
  assumes "matrix_ok g" "src < vertices g"
  shows "\<exists>dist. distances g src = Some dist \<and> length dist = vertices g \<and>
    (\<forall>v < vertices g. (dist ! v = int32_max \<or> route g src v (dist ! v)) \<and> dist ! v \<le> int32_max \<and>
       (\<forall>d. route g src v d \<longrightarrow> dist ! v \<le> d))"
  using distances_ok [OF assms] settled_route by (fastforce simp: estimates_def)

theorem dijkstra_shortest_witness:
  "\<exists>dist. distances \<lparr>matrix = [0, 4, 1, 4, 0, 2, 1, 2, 0], vertices = 3\<rparr> 0 = Some dist \<and> length dist = 3 \<and>
     (\<forall>v < 3. \<forall>d. route \<lparr>matrix = [0, 4, 1, 4, 0, 2, 1, 2, 0], vertices = 3\<rparr> 0 v d \<longrightarrow> dist ! v \<le> d)"
  using dijkstra_shortest [of "\<lparr>matrix = [0, 4, 1, 4, 0, 2, 1, 2, 0], vertices = 3\<rparr>" 0]
  by (auto simp: matrix_ok_def)

text \<open>
  \<open>valid_graph\<close> decides whether the matrix is symmetric, that is whether every edge can be used both ways with
  the same weight.
\<close>
theorem valid_graph_symmetric:
  assumes "matrix_ok g"
  shows "valid_graph g = Some (\<forall>i < vertices g. \<forall>j < vertices g. weight g i j = weight g j i)"
  using valid_rows_ok [OF assms, of "[0..<vertices g]"] by (auto simp: valid_graph_def)

theorem valid_graph_symmetric_witness:
  "valid_graph \<lparr>matrix = [0, 4, 4, 0], vertices = 2\<rparr> =
     Some (\<forall>i < 2. \<forall>j < 2. weight \<lparr>matrix = [0, 4, 4, 0], vertices = 2\<rparr> i j = weight \<lparr>matrix = [0, 4, 4, 0], vertices = 2\<rparr> j i)"
  using valid_graph_symmetric [of "\<lparr>matrix = [0, 4, 4, 0], vertices = 2\<rparr>"] by (simp add: matrix_ok_def)

text \<open>
  on a graph of at most nine vertices \<open>compute\<close> returns normally exactly if the shortest distances are the nine
  numbers written in the code, whatever the graph; otherwise it throws.
\<close>
theorem compute_accepts_one_answer:
  assumes "matrix_ok g" "src < vertices g" "vertices g \<le> 9"
  shows "\<exists>dist r. distances g src = Some dist \<and> compute g src = Some r \<and>
    (r = Inr () \<longleftrightarrow> (\<forall>v < vertices g. dist ! v = assert_array ! v))"
proof -
  obtain dist where dist: "distances g src = Some dist" "length dist = vertices g"
    using distances_ok [OF assms(1, 2)] by (auto simp: estimates_def)
  then show ?thesis
    using assert_loop_ok [of "[0..<vertices g]" dist] assms(3) by (auto simp: compute_def)
qed

theorem compute_accepts_one_answer_witness:
  "\<exists>dist r. distances \<lparr>matrix = [0, 4, 4, 0], vertices = 2\<rparr> 0 = Some dist \<and>
     compute \<lparr>matrix = [0, 4, 4, 0], vertices = 2\<rparr> 0 = Some r \<and> (r = Inr () \<longleftrightarrow> (\<forall>v < 2. dist ! v = assert_array ! v))"
  using compute_accepts_one_answer [of "\<lparr>matrix = [0, 4, 4, 0], vertices = 2\<rparr>" 0] by (simp add: matrix_ok_def)

end
