(* ===== verification/Polynomial.thy ===== *)
theory Polynomial
  imports Prelude "HOL-Library.Signed_Division"
begin

text \<open>
  The class \<open>Polynomial\<close> of \<open>Sandbox/polynomial.hpp\<close>, at the type of its test program, \<open>Polynomial<int>\<close>. The
  coefficients are a list, the constant one first. Reading or writing outside of it, dividing by zero, every
  operation on coefficients whose result is not a 32-bit \<open>int\<close>, and asking for more memory than there is are
  undefined (\<open>None\<close>).
\<close>

subsection \<open>Machine arithmetic\<close>

definition machine_int :: "int \<Rightarrow> int option" where
  "machine_int x = (if - (2 ^ 31) \<le> x \<and> x < 2 ^ 31 then Some x else None)"

definition int_of_size :: "nat \<Rightarrow> int" where
  "int_of_size n = sint (of_nat n :: u32)"

text \<open>Integer division truncates; the quotient of the least integer by -1 overflows.\<close>

definition int_divide :: "int \<Rightarrow> int \<Rightarrow> int option" where
  "int_divide a b = (if b = 0 then None else machine_int (a sdiv b))"

subsection \<open>Construction and access\<close>

type_synonym polynomial = "int list"

definition poly_default :: polynomial where
  "poly_default = [0]"

definition poly_of_scalar :: "int \<Rightarrow> polynomial" where
  "poly_of_scalar input = [input]"

fun poly_of_range :: "polynomial \<Rightarrow> int list \<Rightarrow> polynomial" where
  "poly_of_range self [] = self"
| "poly_of_range self (x # rest) = poly_of_range (self @ [x]) rest"

definition poly_at :: "polynomial \<Rightarrow> nat \<Rightarrow> int option" where
  "poly_at p i = (if i < length p then Some (p ! i) else None)"

definition poly_store :: "polynomial \<Rightarrow> nat \<Rightarrow> int \<Rightarrow> polynomial option" where
  "poly_store p i x = (if i < length p then Some (p[i := x]) else None)"

definition resize :: "nat \<Rightarrow> int list \<Rightarrow> int list" where
  "resize n xs = take n xs @ replicate (n - length xs) 0"

text \<open>The subtraction of sizes wraps around.\<close>

definition Degree :: "polynomial \<Rightarrow> nat" where
  "Degree p = (length p + 2 ^ 64 - 2) mod 2 ^ 64"

subsection \<open>Evaluation\<close>

partial_function (option) MyPow :: "int \<Rightarrow> int \<Rightarrow> int option" where
  "MyPow a n = (if n = 0 then Some 1 else do { m \<leftarrow> machine_int (n - 1); r \<leftarrow> MyPow a m; machine_int (a * r) })"

fun evaluate_loop :: "polynomial \<Rightarrow> int \<Rightarrow> nat list \<Rightarrow> int \<Rightarrow> int option" where
  "evaluate_loop p x [] res = Some res"
| "evaluate_loop p x (i # is) res =
     do { c \<leftarrow> poly_at p i; e \<leftarrow> MyPow x (int_of_size i); t \<leftarrow> machine_int (c * e); res \<leftarrow> machine_int (res + t);
          evaluate_loop p x is res }"

definition evaluate :: "polynomial \<Rightarrow> int \<Rightarrow> int option" where
  "evaluate p x = evaluate_loop p x [0..<length p] 0"

subsection \<open>Sums and differences\<close>

fun add_loop :: "polynomial \<Rightarrow> nat list \<Rightarrow> polynomial \<Rightarrow> polynomial option" where
  "add_loop right [] result = Some result"
| "add_loop right (i # is) result =
     do { r \<leftarrow> poly_at right i; x \<leftarrow> poly_at result i; s \<leftarrow> machine_int (x + r); result \<leftarrow> poly_store result i s;
          add_loop right is result }"

definition poly_plus :: "polynomial \<Rightarrow> polynomial \<Rightarrow> polynomial option" where
  "poly_plus self right =
     (if length self \<ge> length right then add_loop right [0..<length right] self
      else add_loop right [0..<length self] right)"

fun sub_loop :: "polynomial \<Rightarrow> nat list \<Rightarrow> polynomial \<Rightarrow> polynomial option" where
  "sub_loop right [] result = Some result"
| "sub_loop right (i # is) result =
     do { r \<leftarrow> poly_at right i; x \<leftarrow> poly_at result i; s \<leftarrow> machine_int (x - r); result \<leftarrow> poly_store result i s;
          sub_loop right is result }"

definition poly_minus :: "polynomial \<Rightarrow> polynomial \<Rightarrow> polynomial option" where
  "poly_minus self right =
     (if length self \<ge> length right then sub_loop right [0..<length right] self
      else sub_loop right [0..<length self] right)"

definition on_last :: "(int \<Rightarrow> int) \<Rightarrow> polynomial \<Rightarrow> polynomial option" where
  "on_last f p =
     (if p = [] then None
      else do { x \<leftarrow> machine_int (f (p ! (length p - 1))); poly_store p (length p - 1) x })"

definition plus_scalar :: "polynomial \<Rightarrow> int \<Rightarrow> polynomial option" where
  "plus_scalar self scalar = on_last (\<lambda>c. c + scalar) self"

definition minus_scalar :: "polynomial \<Rightarrow> int \<Rightarrow> polynomial option" where
  "minus_scalar self scalar = on_last (\<lambda>c. c - scalar) self"

definition plus_assign_scalar :: "polynomial \<Rightarrow> int \<Rightarrow> polynomial option" where
  "plus_assign_scalar self scalar = poly_plus self (poly_of_scalar scalar)"

definition minus_assign_scalar :: "polynomial \<Rightarrow> int \<Rightarrow> polynomial option" where
  "minus_assign_scalar self scalar = poly_minus self (poly_of_scalar scalar)"

subsection \<open>Products\<close>

definition times_scalar :: "polynomial \<Rightarrow> int \<Rightarrow> polynomial option" where
  "times_scalar self scalar = on_last (\<lambda>c. c * scalar) self"

fun times_row :: "polynomial \<Rightarrow> polynomial \<Rightarrow> nat \<Rightarrow> nat list \<Rightarrow> polynomial \<Rightarrow> polynomial option" where
  "times_row self other i [] result = Some result"
| "times_row self other i (j # js) result =
     do { a \<leftarrow> poly_at self i; b \<leftarrow> poly_at other j; x \<leftarrow> poly_at result (i + j);
          t \<leftarrow> machine_int (a * b); s \<leftarrow> machine_int (x + t);
          result \<leftarrow> poly_store result (i + j) s;
          times_row self other i js result }"

fun times_loop :: "polynomial \<Rightarrow> polynomial \<Rightarrow> nat list \<Rightarrow> polynomial \<Rightarrow> polynomial option" where
  "times_loop self other [] result = Some result"
| "times_loop self other (i # is) result =
     do { result \<leftarrow> times_row self other i [0..<length other] result; times_loop self other is result }"

definition poly_times :: "polynomial \<Rightarrow> polynomial \<Rightarrow> polynomial option" where
  "poly_times self other =
     times_loop self other [0..<length self] (resize (length self + length other + 1) self)"

subsection \<open>Quotients\<close>

fun divide_scalar_loop :: "int \<Rightarrow> nat list \<Rightarrow> polynomial \<Rightarrow> polynomial option" where
  "divide_scalar_loop scalar [] result = Some result"
| "divide_scalar_loop scalar (i # is) result =
     do { x \<leftarrow> poly_at result i; q \<leftarrow> int_divide x scalar; result \<leftarrow> poly_store result i q;
          divide_scalar_loop scalar is result }"

definition divide_scalar :: "polynomial \<Rightarrow> int \<Rightarrow> polynomial option" where
  "divide_scalar self scalar = divide_scalar_loop scalar [0..<length self] self"

fun cancel_loop :: "polynomial \<Rightarrow> int \<Rightarrow> nat \<Rightarrow> nat list \<Rightarrow> polynomial \<Rightarrow> polynomial option" where
  "cancel_loop right q i [] temp = Some temp"
| "cancel_loop right q i (j # js) temp =
     do { x \<leftarrow> poly_at temp (length temp - j - i - 1); r \<leftarrow> poly_at right (length right - j - 1);
          t \<leftarrow> machine_int (r * q); d \<leftarrow> machine_int (x - t);
          temp \<leftarrow> poly_store temp (length temp - j - i - 1) d;
          cancel_loop right q i js temp }"

fun divide_loop :: "polynomial \<Rightarrow> nat \<Rightarrow> nat list \<Rightarrow> polynomial \<Rightarrow> polynomial \<Rightarrow> polynomial option" where
  "divide_loop right resd [] temp result = Some result"
| "divide_loop right resd (i # is) temp result =
     do { x \<leftarrow> poly_at temp (length temp - i - 1);
          l \<leftarrow> (if right = [] then None else poly_at right (length right - 1));
          q \<leftarrow> int_divide x l;
          result \<leftarrow> poly_store result (resd - i - 1) q;
          temp \<leftarrow> cancel_loop right q i [0..<length right] temp;
          divide_loop right resd is temp result }"

definition poly_divide :: "polynomial \<Rightarrow> polynomial \<Rightarrow> polynomial option" where
  "poly_divide self right =
     (if length self + 1 < length right then None
      else let resd = length self + 1 - length right
           in divide_loop right resd [0..<resd] self (resize resd self))"

subsection \<open>Derivatives\<close>

fun derive_loop :: "nat list \<Rightarrow> polynomial \<Rightarrow> polynomial option" where
  "derive_loop [] tmp = Some tmp"
| "derive_loop (i # is) tmp =
     do { x \<leftarrow> poly_at tmp (i + 1); n \<leftarrow> machine_int (int i + 1); c \<leftarrow> machine_int (x * n);
          tmp \<leftarrow> poly_store tmp i c; derive_loop is tmp }"

partial_function (option) comma :: "polynomial \<Rightarrow> int \<Rightarrow> polynomial option" where
  "comma self k =
     (if k = 0 then Some self
      else if k = 1
      then do { tmp \<leftarrow> derive_loop [0..<length self] self; poly_store tmp (length tmp) 0 }
      else do { tmp \<leftarrow> comma self 1; k \<leftarrow> machine_int (k - 1); comma tmp k })"

subsection \<open>Comparison and output\<close>

fun equal_loop :: "polynomial \<Rightarrow> polynomial \<Rightarrow> nat list \<Rightarrow> bool option" where
  "equal_loop pL pR [] = Some True"
| "equal_loop pL pR (i # is) =
     do { a \<leftarrow> poly_at pL i; b \<leftarrow> poly_at pR i; if a \<noteq> b then Some False else equal_loop pL pR is }"

definition poly_equal :: "polynomial \<Rightarrow> polynomial \<Rightarrow> bool option" where
  "poly_equal pL pR = (if length pL \<noteq> length pR then Some False else equal_loop pL pR [0..<length pL])"

definition poly_equal_scalar :: "polynomial \<Rightarrow> int \<Rightarrow> bool option" where
  "poly_equal_scalar pL scalar = poly_equal pL (poly_of_scalar scalar)"

definition poly_unequal :: "polynomial \<Rightarrow> polynomial \<Rightarrow> bool option" where
  "poly_unequal pL pR = map_option Not (poly_equal pL pR)"

definition print_top :: "int \<Rightarrow> nat \<Rightarrow> string" where
  "print_top c n =
     (if c > 0 \<or> c < 0
      then (if c = - 1 then ''-'' else if c \<noteq> 1 then std_to_string c else []) @
           (if n > 0 then ''x^'' @ std_to_string (int n) else [])
      else [])"

definition print_term :: "int \<Rightarrow> nat \<Rightarrow> string" where
  "print_term c i =
     (if c \<noteq> 0
      then (if c > 0 then ''+'' else []) @ (if c > 1 \<or> c < - 1 then std_to_string c else []) @ ''x'' @
           (if i > 1 then ''^'' @ std_to_string (int i) else [])
      else [])"

fun print_terms :: "polynomial \<Rightarrow> nat \<Rightarrow> string" where
  "print_terms p 0 = []"
| "print_terms p (Suc i) = print_term (p ! Suc i) (Suc i) @ print_terms p i"

definition print_polynomial :: "polynomial \<Rightarrow> string option" where
  "print_polynomial p =
     (if p = [] then None
      else Some (print_top (p ! (length p - 1)) (length p - 1) @
        (if length p - 1 > 0
         then print_terms p (length p - 2) @
              (if p ! 0 > 0 then ''+'' @ std_to_string (p ! 0) else if p ! 0 < 0 then std_to_string (p ! 0) else [])
         else [])))"

text \<open>The test program; an assertion that fails stops it.\<close>

definition run_polynomial_tests :: "bool option" where
  "run_polynomial_tests =
     do { product \<leftarrow> poly_times (poly_of_range [] [1, 2]) (poly_of_range [] [3, 4]);
          poly_equal product [4, 12, 8] }"

declare MyPow.simps [code] comma.simps [code]

end
