(* ===== verification/Polynomial_Correct.thy ===== *)
theory Polynomial_Correct
  imports Polynomial
begin

text \<open>
  What the polynomial class computes on coefficients whose results stay inside the 32-bit \<open>int\<close>: the coefficients of sums,
  differences and products, values at a point, and exact division. The size of a polynomial is bounded by
  \<open>abs_sum\<close>, the sum of the absolute values of its coefficients.
\<close>

subsection \<open>Values, sums of absolute values\<close>

definition poly_value :: "polynomial \<Rightarrow> int \<Rightarrow> int" where
  "poly_value p x = (\<Sum>i < length p. p ! i * x ^ i)"

definition abs_sum :: "polynomial \<Rightarrow> int" where
  "abs_sum p = (\<Sum>c \<leftarrow> p. \<bar>c\<bar>)"

lemma machine_int_small [simp]: "\<bar>x\<bar> < 2 ^ 31 \<Longrightarrow> machine_int x = Some x"
  by (auto simp: machine_int_def)

lemma int_of_size_small [simp]: "n < 2 ^ 31 \<Longrightarrow> int_of_size n = int n"
  by (simp add: int_of_size_def signed_of_nat signed_take_bit_int_eq_self)

lemma abs_sum_nonneg [simp]: "0 \<le> abs_sum p"
  unfolding abs_sum_def by (rule sum_list_nonneg) auto

lemma abs_sum_index: "abs_sum p = (\<Sum>i < length p. \<bar>p ! i\<bar>)"
  by (simp add: abs_sum_def sum_list_sum_nth atLeast0LessThan)

lemma nth_abs_sum: "i < length p \<Longrightarrow> \<bar>p ! i\<bar> \<le> abs_sum p"
  unfolding abs_sum_index by (rule member_le_sum) auto

lemma sum_upt: "(\<Sum>i \<leftarrow> [0..<n]. f i) = (\<Sum>i < n. f i)" for f :: "nat \<Rightarrow> int"
  by (simp add: interv_sum_list_conv_sum_set_nat atLeast0LessThan)

lemma MyPow_power: "\<lbrakk>\<And>k. k \<le> n \<Longrightarrow> \<bar>a ^ k\<bar> < 2 ^ 31; n < 2 ^ 31\<rbrakk> \<Longrightarrow> MyPow a (int n) = Some (a ^ n)"
proof (induction n)
  case 0
  then show ?case
    by (simp add: MyPow.simps)
next
  case (Suc n)
  have "machine_int (int (Suc n) - 1) = Some (int n)" "machine_int (a * a ^ n) = Some (a ^ Suc n)"
    using Suc.prems by (simp_all del: power_Suc add: power_Suc [symmetric])
  then show ?case
    using Suc by (subst MyPow.simps) simp
qed

text \<open>Evaluation is right when the powers and the sum of the absolute values of the terms are small.\<close>

lemma evaluate_loop_ok:
  assumes "\<And>i k. i \<in> set is \<Longrightarrow> k \<le> i \<Longrightarrow> \<bar>x ^ k\<bar> < 2 ^ 31" "\<And>i. i \<in> set is \<Longrightarrow> i < length p \<and> i < 2 ^ 31"
    "\<bar>res\<bar> + (\<Sum>i \<leftarrow> is. \<bar>p ! i * x ^ i\<bar>) < 2 ^ 31"
  shows "evaluate_loop p x is res = Some (res + (\<Sum>i \<leftarrow> is. p ! i * x ^ i))"
  using assms
proof (induction "is" arbitrary: res)
  case (Cons i "is")
  have "0 \<le> (\<Sum>i \<leftarrow> is. \<bar>p ! i * x ^ i\<bar>)"
    by (rule sum_list_nonneg) auto
  then have "\<bar>p ! i * x ^ i\<bar> < 2 ^ 31" "\<bar>res + p ! i * x ^ i\<bar> < 2 ^ 31"
      "\<bar>res + p ! i * x ^ i\<bar> + (\<Sum>i \<leftarrow> is. \<bar>p ! i * x ^ i\<bar>) < 2 ^ 31"
    using Cons.prems(3) unfolding list.map sum_list.Cons by linarith+
  moreover have "MyPow x (int i) = Some (x ^ i)"
    using Cons.prems(1, 2) by (intro MyPow_power) auto
  ultimately show ?case
    using Cons.IH [of "res + p ! i * x ^ i"] Cons.prems(1, 2)
    by (auto simp: poly_at_def add.assoc)
qed simp

lemma evaluate_ok:
  assumes "length p \<le> 2 ^ 31" "\<And>k. k < length p \<Longrightarrow> \<bar>x ^ k\<bar> < 2 ^ 31" "(\<Sum>i < length p. \<bar>p ! i * x ^ i\<bar>) < 2 ^ 31"
  shows "evaluate p x = Some (poly_value p x)"
  unfolding evaluate_def
  by (subst evaluate_loop_ok) (use assms in \<open>auto simp: poly_value_def sum_upt\<close>)

subsection \<open>Sums and differences\<close>

text \<open>Both loops work on the coefficients below a bound.\<close>

lemma add_loop_ok:
  assumes "distinct is" "\<And>i. i \<in> set is \<Longrightarrow> i < length right \<and> i < length result \<and> \<bar>result ! i + right ! i\<bar> < 2 ^ 31"
  shows "add_loop right is result =
    Some (map (\<lambda>k. if k \<in> set is then result ! k + right ! k else result ! k) [0..<length result])"
  using assms
proof (induction "is" arbitrary: result)
  case Nil
  then show ?case
    by (auto intro: nth_equalityI)
next
  case (Cons i "is")
  let ?result = "result[i := result ! i + right ! i]"
  have "add_loop right (i # is) result = add_loop right is ?result"
    using Cons.prems(2) [of i] by (simp add: poly_at_def poly_store_def)
  also have "\<dots> = Some (map (\<lambda>k. if k \<in> set is then ?result ! k + right ! k else ?result ! k) [0..<length ?result])"
    using Cons.prems by (intro Cons.IH) (auto simp: nth_list_update)
  finally show ?case
    using Cons.prems by (auto simp: nth_list_update)
qed

lemma sub_loop_ok:
  assumes "distinct is" "\<And>i. i \<in> set is \<Longrightarrow> i < length right \<and> i < length result \<and> \<bar>result ! i - right ! i\<bar> < 2 ^ 31"
  shows "sub_loop right is result =
    Some (map (\<lambda>k. if k \<in> set is then result ! k - right ! k else result ! k) [0..<length result])"
  using assms
proof (induction "is" arbitrary: result)
  case Nil
  then show ?case
    by (auto intro: nth_equalityI)
next
  case (Cons i "is")
  let ?result = "result[i := result ! i - right ! i]"
  have "sub_loop right (i # is) result = sub_loop right is ?result"
    using Cons.prems(2) [of i] by (simp add: poly_at_def poly_store_def)
  also have "\<dots> = Some (map (\<lambda>k. if k \<in> set is then ?result ! k - right ! k else ?result ! k) [0..<length ?result])"
    using Cons.prems by (intro Cons.IH) (auto simp: nth_list_update)
  finally show ?case
    using Cons.prems by (auto simp: nth_list_update)
qed

text \<open>A shorter right operand is added to the coefficients of the left one, or subtracted from them.\<close>

lemma poly_plus_minus:
  assumes "length q \<le> length p" "abs_sum p + abs_sum q < 2 ^ 31"
  shows "poly_plus p q = Some (map (\<lambda>k. if k < length q then p ! k + q ! k else p ! k) [0..<length p])"
    and "poly_minus p q = Some (map (\<lambda>k. if k < length q then p ! k - q ! k else p ! k) [0..<length p])"
proof -
  have "\<bar>p ! i + q ! i\<bar> < 2 ^ 31 \<and> \<bar>p ! i - q ! i\<bar> < 2 ^ 31" if "i < length q" for i
    using that assms nth_abs_sum [of i p] nth_abs_sum [of i q] by auto
  then show "poly_plus p q = Some (map (\<lambda>k. if k < length q then p ! k + q ! k else p ! k) [0..<length p])"
    and "poly_minus p q = Some (map (\<lambda>k. if k < length q then p ! k - q ! k else p ! k) [0..<length p])"
    using assms(1) add_loop_ok [of "[0..<length q]" q p] sub_loop_ok [of "[0..<length q]" q p]
    by (simp_all add: poly_plus_def poly_minus_def)
qed

text \<open>A shorter left operand is lost: the right one is added to itself, or subtracted from itself.\<close>

lemma shorter_left_lost:
  assumes "length p < length q" "2 * abs_sum q < 2 ^ 31"
  shows "poly_plus p q = Some (map (\<lambda>k. if k < length p then 2 * q ! k else q ! k) [0..<length q])"
    and "poly_minus p q = Some (map (\<lambda>k. if k < length p then 0 else q ! k) [0..<length q])"
proof -
  have "\<bar>q ! i + q ! i\<bar> < 2 ^ 31" if "i < length p" for i
    using that assms nth_abs_sum [of i q] by auto
  then show "poly_plus p q = Some (map (\<lambda>k. if k < length p then 2 * q ! k else q ! k) [0..<length q])"
    and "poly_minus p q = Some (map (\<lambda>k. if k < length p then 0 else q ! k) [0..<length q])"
    using assms(1) add_loop_ok [of "[0..<length p]" q q] sub_loop_ok [of "[0..<length p]" q q]
    by (simp_all add: poly_plus_def poly_minus_def)
qed

subsection \<open>Products\<close>

definition conv :: "polynomial \<Rightarrow> (nat \<Rightarrow> int) \<Rightarrow> nat \<Rightarrow> int" where
  "conv q f k = (\<Sum>a < length q. if a \<le> k then q ! a * f (k - a) else 0)"

definition coefficient :: "polynomial \<Rightarrow> nat \<Rightarrow> int" where
  "coefficient p i = (if i < length p then p ! i else 0)"

definition product :: "polynomial \<Rightarrow> polynomial \<Rightarrow> polynomial" where
  "product q r = map (conv q (coefficient r)) [0..<length q + length r - 1]"

definition keep_below :: "nat \<Rightarrow> polynomial \<Rightarrow> nat \<Rightarrow> int" where
  "keep_below n r b = (if b < n then coefficient r b else 0)"

lemma coefficient_abs_sum: "\<bar>coefficient r b\<bar> \<le> abs_sum r" "\<bar>keep_below n r b\<bar> \<le> abs_sum r"
  using nth_abs_sum [of b r] by (auto simp: coefficient_def keep_below_def)

lemma conv_bound:
  assumes "\<And>b. \<bar>f b\<bar> \<le> abs_sum r"
  shows "\<bar>conv q f k\<bar> \<le> abs_sum q * abs_sum r"
proof -
  have "\<bar>conv q f k\<bar> \<le> (\<Sum>a < length q. \<bar>if a \<le> k then q ! a * f (k - a) else 0\<bar>)"
    unfolding conv_def by (rule sum_abs)
  also have "\<dots> \<le> (\<Sum>a < length q. \<bar>q ! a\<bar> * abs_sum r)"
    using assms by (intro sum_mono) (auto simp: abs_mult intro: mult_left_mono)
  also have "\<dots> = abs_sum q * abs_sum r"
    by (simp add: abs_sum_index sum_distrib_right)
  finally show ?thesis .
qed

lemma times_row_ok:
  assumes "i < length p" "\<And>j. j \<in> set js \<Longrightarrow> j < length q \<and> i + j < length result"
    "\<And>k. k < length result \<Longrightarrow> \<bar>result ! k\<bar> + (\<Sum>j \<leftarrow> js. \<bar>p ! i * q ! j\<bar>) \<le> B" "B < 2 ^ 31"
  shows "\<exists>r. times_row p q i js result = Some r \<and> length r = length result \<and>
    (\<forall>k < length result. r ! k = result ! k + (\<Sum>j \<leftarrow> js. if i + j = k then p ! i * q ! j else 0))"
  using assms(2, 3)
proof (induction js arbitrary: result)
  case (Cons j js)
  let ?c = "p ! i * q ! j" and ?rest = "\<Sum>j \<leftarrow> js. \<bar>p ! i * q ! j\<bar>"
  let ?result = "result[i + j := result ! (i + j) + ?c]"
  have j: "j < length q" "i + j < length result"
    using Cons.prems(1) by auto
  have small: "\<bar>result ! k\<bar> + (\<bar>?c\<bar> + ?rest) \<le> B" if "k < length result" for k
    using Cons.prems(2) [OF that] by simp
  have "0 \<le> ?rest"
    by (rule sum_list_nonneg) auto
  then have fits: "\<bar>?c\<bar> < 2 ^ 31" "\<bar>result ! (i + j) + ?c\<bar> < 2 ^ 31"
    using small [OF j(2)] assms(4) by linarith+
  have row: "times_row p q i (j # js) result = times_row p q i js ?result"
    using j assms(1) fits by (simp add: poly_at_def poly_store_def)
  have "\<exists>r. times_row p q i js ?result = Some r \<and> length r = length ?result \<and>
      (\<forall>k < length ?result. r ! k = ?result ! k + (\<Sum>j \<leftarrow> js. if i + j = k then p ! i * q ! j else 0))"
  proof (rule Cons.IH)
    show "\<bar>?result ! k\<bar> + ?rest \<le> B" if "k < length ?result" for k
      using small [of k] that by (cases "k = i + j") auto
  qed (use Cons.prems(1) in auto)
  then show ?case
    unfolding row using j(2) by (auto simp: nth_list_update)
qed simp

lemma times_loop_ok:
  assumes "\<And>i. i \<in> set is \<Longrightarrow> i < length p \<and> i + length q \<le> length result"
    "\<And>k. k < length result \<Longrightarrow> \<bar>result ! k\<bar> + (\<Sum>i \<leftarrow> is. \<bar>p ! i\<bar>) * abs_sum q \<le> B" "B < 2 ^ 31"
  shows "\<exists>r. times_loop p q is result = Some r \<and> length r = length result \<and> (\<forall>k < length result.
    r ! k = result ! k + (\<Sum>i \<leftarrow> is. if i \<le> k then p ! i * coefficient q (k - i) else 0))"
  using assms(1, 2)
proof (induction "is" arbitrary: result)
  case (Cons i "is")
  let ?rest = "(\<Sum>i \<leftarrow> is. \<bar>p ! i\<bar>) * abs_sum q"
  have row_sum: "(\<Sum>j \<leftarrow> [0..<length q]. \<bar>p ! i * q ! j\<bar>) = \<bar>p ! i\<bar> * abs_sum q"
    by (simp add: sum_upt abs_sum_index abs_mult sum_distrib_left)
  have rest: "0 \<le> ?rest"
    by (intro mult_nonneg_nonneg sum_list_nonneg) auto
  have small: "\<bar>result ! k\<bar> + \<bar>p ! i\<bar> * abs_sum q + ?rest \<le> B" if "k < length result" for k
    using Cons.prems(2) [OF that] by (simp add: algebra_simps)
  have "\<exists>r. times_row p q i [0..<length q] result = Some r \<and> length r = length result \<and> (\<forall>k < length result.
      r ! k = result ! k + (\<Sum>j \<leftarrow> [0..<length q]. if i + j = k then p ! i * q ! j else 0))"
  proof (rule times_row_ok)
    show "\<bar>result ! k\<bar> + (\<Sum>j \<leftarrow> [0..<length q]. \<bar>p ! i * q ! j\<bar>) \<le> B" if "k < length result" for k
      unfolding row_sum using small [OF that] rest by linarith
    show "j < length q \<and> i + j < length result" if "j \<in> set [0..<length q]" for j
      using that Cons.prems(1) [of i] by simp
  qed (use Cons.prems(1) assms(3) in auto)
  then obtain r where r: "times_row p q i [0..<length q] result = Some r" "length r = length result"
      "\<And>k. k < length result \<Longrightarrow> r ! k = result ! k + (\<Sum>j \<leftarrow> [0..<length q]. if i + j = k then p ! i * q ! j else 0)"
    by blast
  have at: "(\<Sum>j \<leftarrow> [0..<length q]. if i + j = k then p ! i * q ! j else 0) =
      (if i \<le> k then p ! i * coefficient q (k - i) else 0)" for k
  proof -
    have "(\<Sum>j < length q. if i + j = k then p ! i * q ! j else 0) =
        (\<Sum>j < length q. if j = k - i then if i \<le> k then p ! i * q ! j else 0 else 0)"
      by (intro sum.cong) auto
    then show ?thesis
      by (simp add: sum_upt coefficient_def)
  qed
  have bound: "\<bar>if i \<le> k then p ! i * coefficient q (k - i) else 0\<bar> \<le> \<bar>p ! i\<bar> * abs_sum q" for k
    using coefficient_abs_sum(1) [of q "k - i"] by (auto simp: abs_mult intro: mult_left_mono)
  have "\<exists>s. times_loop p q is r = Some s \<and> length s = length r \<and> (\<forall>k < length r.
      s ! k = r ! k + (\<Sum>i \<leftarrow> is. if i \<le> k then p ! i * coefficient q (k - i) else 0))"
  proof (rule Cons.IH)
    show "\<bar>r ! k\<bar> + ?rest \<le> B" if "k < length r" for k
      using that r(2) r(3) [of k] small [of k] bound [of k] by (auto simp: at)
  qed (use Cons.prems(1) r(2) in auto)
  then show ?case
    using r at by auto
qed simp

lemma conv_commute: "conv p (coefficient q) k = conv q (coefficient p) k"
proof -
  have upto: "conv p (coefficient q) k = (\<Sum>a \<le> k. coefficient p a * coefficient q (k - a))" for p q
  proof -
    have "(\<Sum>a < length p. if a \<le> k then p ! a * coefficient q (k - a) else 0) =
        (\<Sum>a \<in> {..<length p} \<inter> {..k}. p ! a * coefficient q (k - a))"
      by (simp add: sum.inter_restrict)
    also have "\<dots> = (\<Sum>a \<le> k. coefficient p a * coefficient q (k - a))"
      by (intro sum.mono_neutral_cong_left) (auto simp: coefficient_def)
    finally show ?thesis
      by (simp add: conv_def)
  qed
  show ?thesis
    unfolding upto using sum.nat_diff_reindex [where g = "\<lambda>a. coefficient p a * coefficient q (k - a)" and n = "Suc k"]
    by (simp add: lessThan_Suc_atMost mult.commute)
qed

lemma length_resize: "length (resize n p) = n"
  by (simp add: resize_def)

lemma nth_resize: "k < n \<Longrightarrow> resize n p ! k = coefficient p k"
  by (simp add: resize_def nth_append coefficient_def)

text \<open>The class's product of \<open>r\<close> and \<open>p\<close> is the product of \<open>r\<close> and \<open>p + 1\<close>, followed by two zeros.\<close>

lemma poly_times_ok:
  assumes "abs_sum r * (abs_sum p + 1) < 2 ^ 31"
  shows "poly_times r p =
    Some (map (\<lambda>k. coefficient r k + conv p (coefficient r) k) [0..<length r + length p + 1])"
proof -
  let ?n = "length r + length p + 1"
  have "\<exists>t. times_loop r p [0..<length r] (resize ?n r) = Some t \<and> length t = length (resize ?n r) \<and>
      (\<forall>k < length (resize ?n r). t ! k = resize ?n r ! k +
        (\<Sum>i \<leftarrow> [0..<length r]. if i \<le> k then r ! i * coefficient p (k - i) else 0))"
  proof (rule times_loop_ok)
    show "\<bar>resize ?n r ! k\<bar> + (\<Sum>i \<leftarrow> [0..<length r]. \<bar>r ! i\<bar>) * abs_sum p \<le> abs_sum r * (abs_sum p + 1)"
      if "k < length (resize ?n r)" for k
      using that coefficient_abs_sum(1) [of r k] abs_sum_nonneg [of r]
      by (simp add: nth_resize length_resize sum_upt distrib_left flip: abs_sum_index)
  qed (use assms in \<open>auto simp: length_resize\<close>)
  then obtain t where "poly_times r p = Some t" "length t = ?n"
      "\<And>k. k < ?n \<Longrightarrow> t ! k = coefficient r k + conv r (coefficient p) k"
    unfolding poly_times_def by (auto simp: nth_resize length_resize conv_def sum_upt simp del: One_nat_def)
  then show ?thesis
    by (auto simp: conv_commute [of p] simp del: upt_Suc intro!: nth_equalityI)
qed

subsection \<open>Exact division\<close>

lemma cancel_loop_ok:
  assumes "distinct js" "\<And>j. j \<in> set js \<Longrightarrow> j < length right \<and> i + j < length temp \<and>
      \<bar>right ! (length right - 1 - j) * q\<bar> < 2 ^ 31 \<and>
      \<bar>temp ! (length temp - 1 - i - j) - right ! (length right - 1 - j) * q\<bar> < 2 ^ 31"
  shows "cancel_loop right q i js temp = Some (map (\<lambda>k. if length temp - 1 - i - k \<in> set js \<and> k + i < length temp
      then temp ! k - right ! (length right - 1 - (length temp - 1 - i - k)) * q else temp ! k) [0..<length temp])"
  using assms
proof (induction js arbitrary: temp)
  case Nil
  then show ?case
    by (auto intro: nth_equalityI)
next
  case (Cons j js)
  define n d e where "n = length temp" and "d = n - j - i - 1" and "e = length right - j - 1"
  have ds: "d < n" "n - 1 - i - d = j" "d + i < n" "length right - 1 - j = e" "e < length right" "n - Suc (j + i) = d"
    using Cons.prems(2) [of j] by (auto simp: n_def d_def e_def)
  have fits: "\<bar>right ! e * q\<bar> < 2 ^ 31" "\<bar>temp ! d - right ! e * q\<bar> < 2 ^ 31"
    using Cons.prems(2) [of j] by (simp_all add: n_def d_def e_def add.commute)
  have other: "k + i < n \<Longrightarrow> n - 1 - i - k \<noteq> j" if "k \<noteq> d" for k
    using that Cons.prems(2) by (auto simp: n_def d_def)
  let ?temp = "temp[d := temp ! d - right ! e * q]"
  have "cancel_loop right q i (j # js) temp = cancel_loop right q i js ?temp"
    using ds fits by (simp add: poly_at_def poly_store_def flip: n_def d_def e_def)
  also have "\<dots> = Some (map (\<lambda>k. if n - 1 - i - k \<in> set js \<and> k + i < n
      then ?temp ! k - right ! (length right - 1 - (n - 1 - i - k)) * q else ?temp ! k) [0..<n])"
  proof (rule Cons.IH [of ?temp, unfolded length_list_update, folded n_def])
    show "j' < length right \<and> i + j' < n \<and> \<bar>right ! (length right - 1 - j') * q\<bar> < 2 ^ 31 \<and>
        \<bar>?temp ! (n - 1 - i - j') - right ! (length right - 1 - j') * q\<bar> < 2 ^ 31" if "j' \<in> set js" for j'
    proof -
      have "j' \<noteq> j"
        using that Cons.prems(1) by auto
      then have "n - 1 - i - j' \<noteq> d"
        using Cons.prems(2) [of j'] that ds by (auto simp: n_def)
      then show ?thesis
        using Cons.prems(2) [of j'] that by (simp add: n_def)
    qed
  qed (use Cons.prems(1) in auto)
  also have "\<dots> = Some (map (\<lambda>k. if n - 1 - i - k \<in> set (j # js) \<and> k + i < n
      then temp ! k - right ! (length right - 1 - (n - 1 - i - k)) * q else temp ! k) [0..<n])"
  proof -
    have "(if n - 1 - i - k \<in> set js \<and> k + i < n then ?temp ! k - right ! (length right - 1 - (n - 1 - i - k)) * q else ?temp ! k) =
        (if n - 1 - i - k \<in> set (j # js) \<and> k + i < n then temp ! k - right ! (length right - 1 - (n - 1 - i - k)) * q else temp ! k)"
      if k: "k < n" for k
    proof (cases "k = d")
      case True
      then show ?thesis
        using ds Cons.prems(1) unfolding True ds(2) n_def by simp
    next
      case False
      then show ?thesis
        using other [OF False] by auto
    qed
    then show ?thesis
      by simp
  qed
  finally show ?case
    by (simp only: n_def)
qed

lemma sdiv_exact: "l \<noteq> 0 \<Longrightarrow> (l * y) sdiv l = (y::int)"
  by (simp add: signed_divide_int_eq_divide_int)

text \<open>The top coefficient of what is left to divide, and what is left after a step.\<close>

lemma conv_top:
  assumes "q \<noteq> []"
  shows "conv q (keep_below (Suc s) r) (length q - 1 + s) = q ! (length q - 1) * coefficient r s"
proof -
  have "conv q (keep_below (Suc s) r) (length q - 1 + s) =
      (\<Sum>a < length q. if a = length q - 1 then q ! (length q - 1) * coefficient r s else 0)"
    unfolding conv_def by (intro sum.cong) (auto simp: keep_below_def)
  then show ?thesis
    using assms by (simp add: sum.delta)
qed

lemma conv_step:
  "conv q (keep_below (Suc s) r) k =
     conv q (keep_below s r) k + (if s \<le> k \<and> k - s < length q then q ! (k - s) * coefficient r s else 0)"
proof -
  have split: "keep_below (Suc s) r b = keep_below s r b + (if b = s then coefficient r s else 0)" for b
    by (simp add: keep_below_def less_Suc_eq)
  have "conv q (keep_below (Suc s) r) k = (\<Sum>a < length q. (if a \<le> k then q ! a * keep_below s r (k - a) else 0) +
      (if a = k - s \<and> s \<le> k then q ! (k - s) * coefficient r s else 0))"
    unfolding conv_def by (intro sum.cong) (auto simp: split algebra_simps)
  also have "\<dots> = conv q (keep_below s r) k + (\<Sum>a < length q. if a = k - s \<and> s \<le> k then q ! (k - s) * coefficient r s else 0)"
    by (simp add: conv_def sum.distrib)
  finally show ?thesis
    by (cases "s \<le> k") (auto simp: sum.delta)
qed

lemma cancel_step:
  assumes q: "q \<noteq> []" and n: "length temp = length q + length r - 1" and s: "s + i = length r - 1" "s < length r"
    and temp: "\<And>k. k < length temp \<Longrightarrow> temp ! k = conv q (keep_below (Suc s) r) k"
    and small: "abs_sum q * abs_sum r < 2 ^ 31"
  shows "\<exists>temp'. cancel_loop q (r ! s) i [0..<length q] temp = Some temp' \<and> length temp' = length temp \<and>
    (\<forall>k < length temp. temp' ! k = conv q (keep_below s r) k)"
proof -
  define f where "f k = (if length temp - 1 - i - k \<in> set [0..<length q] \<and> k + i < length temp
      then temp ! k - q ! (length q - 1 - (length temp - 1 - i - k)) * r ! s else temp ! k)" for k
  have "0 < length q"
    using q by simp
  then have idx: "length temp - 1 - i = length q - 1 + s"
    using n s by linarith
  have step: "f k = conv q (keep_below s r) k" if k: "k < length temp" for k
  proof (cases "s \<le> k \<and> k - s < length q")
    case True
    then have "length temp - 1 - i - k < length q" "k + i < length temp" "length q - 1 - (length temp - 1 - i - k) = k - s"
      using idx n s \<open>0 < length q\<close> by linarith+
    then show ?thesis
      unfolding f_def using True temp [OF k] s(2) by (simp add: conv_step coefficient_def)
  next
    case False
    then have "\<not> (length temp - 1 - i - k < length q \<and> k + i < length temp)"
      using idx n s \<open>0 < length q\<close> by linarith
    moreover have "temp ! k = conv q (keep_below s r) k"
      using temp [OF k] conv_step [of q s r k] False by auto
    ultimately show ?thesis
      unfolding f_def by auto
  qed
  have fits: "\<bar>q ! a * r ! s\<bar> < 2 ^ 31" "\<bar>temp ! (a + s) - q ! a * r ! s\<bar> < 2 ^ 31" if a: "a < length q" for a
  proof -
    have "\<bar>q ! a * r ! s\<bar> \<le> abs_sum q * abs_sum r"
      unfolding abs_mult by (intro mult_mono nth_abs_sum a s(2)) auto
    then show "\<bar>q ! a * r ! s\<bar> < 2 ^ 31"
      using small by linarith
    have "temp ! (a + s) - q ! a * r ! s = conv q (keep_below s r) (a + s)"
      using temp [of "a + s"] conv_step [of q s r "a + s"] a n s(2) by (simp add: coefficient_def)
    then show "\<bar>temp ! (a + s) - q ! a * r ! s\<bar> < 2 ^ 31"
      using conv_bound [of "keep_below s r" r q "a + s"] coefficient_abs_sum(2) small by fastforce
  qed
  have "cancel_loop q (r ! s) i [0..<length q] temp = Some (map f [0..<length temp])"
    unfolding f_def
  proof (rule cancel_loop_ok)
    fix j assume "j \<in> set [0..<length q]"
    then have j: "j < length q" "length temp - 1 - i - j = length q - 1 - j + s"
      using idx by simp_all
    show "j < length q \<and> i + j < length temp \<and> \<bar>q ! (length q - 1 - j) * r ! s\<bar> < 2 ^ 31 \<and>
        \<bar>temp ! (length temp - 1 - i - j) - q ! (length q - 1 - j) * r ! s\<bar> < 2 ^ 31"
      unfolding j(2) using j(1) fits [of "length q - 1 - j"] n s by auto
  qed simp
  with step show ?thesis
    by auto
qed

lemma divide_loop_ok:
  assumes "q \<noteq> []" "q ! (length q - 1) \<noteq> 0" "i \<le> length r" "length temp = length q + length r - 1"
    and "\<And>k. k < length temp \<Longrightarrow> temp ! k = conv q (keep_below (length r - i) r) k"
    and "length res = length r" "\<And>b. length r - i \<le> b \<Longrightarrow> b < length r \<Longrightarrow> res ! b = r ! b"
    and small: "abs_sum q * abs_sum r < 2 ^ 31"
  shows "divide_loop q (length r) [i..<length r] temp res = Some r"
  using assms(3-7)
proof (induction "length r - i" arbitrary: i temp res)
  case 0
  then have "res = r"
    by (intro nth_equalityI) auto
  then show ?case
    using 0 by simp
next
  case (Suc n)
  define s where "s = length r - 1 - i"
  have s: "i < length r" "s + i = length r - 1" "s < length r" "length r - i = Suc s" "length r - i - 1 = s" "length r - Suc i = s" "n = s"
    using Suc.hyps(2) by (auto simp: s_def)
  have len: "0 < length q"
    using assms(1) by simp
  have idx: "length temp - i - 1 = length q - 1 + s" "length q - 1 + s < length temp"
    using Suc.prems(2) s len by linarith+
  have "temp ! (length q - 1 + s) = q ! (length q - 1) * r ! s"
    using Suc.prems(3) [OF idx(2)] conv_top [OF assms(1), of s r] s by (simp add: coefficient_def)
  moreover have "\<bar>r ! s\<bar> < 2 ^ 31"
  proof -
    have "1 * \<bar>r ! s\<bar> \<le> abs_sum q * abs_sum r"
      using assms(2) nth_abs_sum [of "length q - 1" q] nth_abs_sum [OF s(3)] len by (intro mult_mono) auto
    then show ?thesis
      using small by simp
  qed
  ultimately have top: "poly_at temp (length temp - i - 1) = Some (q ! (length q - 1) * r ! s)"
      "int_divide (q ! (length q - 1) * r ! s) (q ! (length q - 1)) = Some (r ! s)"
    using idx assms(2) by (simp_all add: poly_at_def int_divide_def sdiv_exact)
  have stored: "poly_at q (length q - 1) = Some (q ! (length q - 1))" "poly_store res s (r ! s) = Some (res[s := r ! s])"
    using len s(3) Suc.prems(4) by (simp_all add: poly_at_def poly_store_def)
  obtain temp' where temp': "cancel_loop q (r ! s) i [0..<length q] temp = Some temp'" "length temp' = length temp"
      "\<And>k. k < length temp \<Longrightarrow> temp' ! k = conv q (keep_below s r) k"
    using cancel_step [OF assms(1) Suc.prems(2) s(2, 3) _ small] Suc.prems(3) s(4) by auto
  have "divide_loop q (length r) [Suc i..<length r] temp' (res[s := r ! s]) = Some r"
  proof (rule Suc.hyps(1))
    show "res[s := r ! s] ! b = r ! b" if "length r - Suc i \<le> b" "b < length r" for b
      using that Suc.prems(4, 5) s by (cases "b = s") auto
  qed (use s temp' Suc.prems in auto)
  then show ?case
    using s top temp'(1) assms(1) stored upt_conv_Cons [OF s(1)] by simp
qed

lemma poly_divide_product:
  assumes "q \<noteq> []" "last q \<noteq> 0" "r \<noteq> []" "abs_sum q * abs_sum r < 2 ^ 31"
  shows "poly_divide (product q r) q = Some r"
proof -
  have len: "length (product q r) = length q + length r - 1" "0 < length q" "0 < length r"
    using assms by (auto simp: product_def)
  then have resd: "length (product q r) + 1 - length q = length r"
    by linarith
  have "keep_below (length r) r = coefficient r"
    by (auto simp: keep_below_def coefficient_def)
  then have "divide_loop q (length r) [0..<length r] (product q r) (resize (length r) (product q r)) = Some r"
    using assms len(1) by (intro divide_loop_ok) (auto simp: last_conv_nth product_def resize_def)
  then show ?thesis
    using resd len by (simp add: poly_divide_def Let_def)
qed

lemma product_value: "poly_value (product q r) x = poly_value q x * poly_value r x" if "q \<noteq> []" "r \<noteq> []"
proof -
  let ?n = "length q + length r - 1"
  have inner: "(\<Sum>k < ?n. (if a \<le> k then q ! a * coefficient r (k - a) else 0) * x ^ k) = q ! a * x ^ a * poly_value r x"
    if a: "a < length q" for a
  proof -
    have "(\<Sum>k < ?n. (if a \<le> k then q ! a * coefficient r (k - a) else 0) * x ^ k) =
        (\<Sum>k \<in> {a..<a + length r}. q ! a * coefficient r (k - a) * x ^ k)"
      using a by (intro sum.mono_neutral_cong_right) (auto simp: coefficient_def)
    also have "\<dots> = (\<Sum>b < length r. q ! a * coefficient r b * x ^ (a + b))"
      using sum.shift_bounds_nat_ivl [of "\<lambda>k. q ! a * coefficient r (k - a) * x ^ k" 0 a "length r"]
      by (simp add: atLeast0LessThan add.commute)
    also have "\<dots> = q ! a * x ^ a * poly_value r x"
      by (simp add: poly_value_def sum_distrib_left coefficient_def power_add algebra_simps)
    finally show ?thesis .
  qed
  have "poly_value (product q r) x = (\<Sum>k < ?n. conv q (coefficient r) k * x ^ k)"
    by (simp add: poly_value_def product_def)
  also have "\<dots> = (\<Sum>k < ?n. \<Sum>a < length q. (if a \<le> k then q ! a * coefficient r (k - a) else 0) * x ^ k)"
    by (simp add: conv_def sum_distrib_right)
  also have "\<dots> = (\<Sum>a < length q. \<Sum>k < ?n. (if a \<le> k then q ! a * coefficient r (k - a) else 0) * x ^ k)"
    by (rule sum.swap)
  also have "\<dots> = (\<Sum>a < length q. q ! a * x ^ a * poly_value r x)"
    using inner by simp
  also have "\<dots> = poly_value q x * poly_value r x"
    by (simp add: poly_value_def sum_distrib_right)
  finally show ?thesis .
qed

lemma poly_times_product:
  assumes "q \<noteq> []" "r \<noteq> []" "abs_sum r * (abs_sum (q[0 := q ! 0 - 1]) + 1) < 2 ^ 31"
  shows "poly_times r (q[0 := q ! 0 - 1]) = Some (product q (r @ [0, 0]))"
proof -
  let ?p = "q[0 := q ! 0 - 1]"
  have zeros: "coefficient (r @ [0, 0]) = coefficient r"
    by (auto simp: coefficient_def nth_append nth_Cons')
  have "coefficient r k + conv ?p (coefficient r) k = conv q (coefficient r) k" for k
  proof -
    have "conv q (coefficient r) k = (\<Sum>a < length q.
        (if a \<le> k then ?p ! a * coefficient r (k - a) else 0) + (if a = 0 then coefficient r k else 0))"
      unfolding conv_def by (intro sum.cong) (auto simp: algebra_simps)
    then show ?thesis
      using assms(1) by (simp add: conv_def sum.distrib)
  qed
  then show ?thesis
    using assms by (subst poly_times_ok) (auto simp: product_def zeros add.commute)
qed

subsection \<open>Properties\<close>

text \<open>
  C23: for polynomials \<open>q\<close> and \<open>r\<close> with at least one coefficient, the last one of \<open>q\<close> not zero, and small enough that
  nothing overflows (the sum of the absolute values of the coefficients of \<open>r\<close>, times one more than that of \<open>q - 1\<close>, is
  below \<open>2\<^sup>3\<^sup>1\<close>): the class's own product of \<open>r\<close> and \<open>q - 1\<close> has the value of \<open>q\<close> times \<open>r\<close> at every point, since
  \<open>operator*\<close> adds the left operand once more, and dividing it by \<open>q\<close> gives \<open>r\<close> followed by the two zeros that
  \<open>operator*\<close> appends. Dividing the mathematical product of \<open>q\<close> and \<open>r\<close> by \<open>q\<close> gives exactly \<open>r\<close>.
\<close>
theorem divide_inverts_product:
  assumes "q \<noteq> []" "last q \<noteq> 0" "r \<noteq> []" "abs_sum r * (abs_sum (q[0 := q ! 0 - 1]) + 1) < 2 ^ 31"
  shows "(\<exists>t. poly_times r (q[0 := q ! 0 - 1]) = Some t \<and> poly_divide t q = Some (r @ [0, 0])
      \<and> (\<forall>x. poly_value t x = poly_value q x * poly_value r x))
    \<and> poly_divide (product q r) q = Some r
    \<and> (\<forall>x. poly_value (product q r) x = poly_value q x * poly_value r x)"
proof -
  have "abs_sum q \<le> abs_sum (q[0 := q ! 0 - 1]) + 1"
    using assms(1) by (cases q) (auto simp: abs_sum_def)
  then have "abs_sum q * abs_sum r \<le> (abs_sum (q[0 := q ! 0 - 1]) + 1) * abs_sum r"
    by (rule mult_right_mono) simp
  then have small: "abs_sum q * abs_sum r < 2 ^ 31"
    using assms(4) by (simp add: mult.commute)
  moreover have "abs_sum (r @ [0, 0]) = abs_sum r" "\<And>x. poly_value (r @ [0, 0]) x = poly_value r x"
    by (simp_all add: abs_sum_def poly_value_def nth_append)
  ultimately show ?thesis
    using assms poly_times_product [OF assms(1, 3, 4)] poly_divide_product [OF assms(1, 2)]
      product_value [OF assms(1)] by simp
qed

theorem divide_inverts_product_witness:
  "(\<exists>t. poly_times [3, 4] [1, 2] = Some t \<and> poly_divide t [2, 2] = Some ([3, 4] @ [0, 0])
      \<and> (\<forall>x. poly_value t x = poly_value [2, 2] x * poly_value [3, 4] x))
    \<and> poly_divide (product [2, 2] [3, 4]) [2, 2] = Some [3, 4]
    \<and> (\<forall>x. poly_value (product [2, 2] [3, 4]) x = poly_value [2, 2] x * poly_value [3, 4] x)"
  using divide_inverts_product [of "[2, 2]" "[3, 4]"] by (simp add: abs_sum_def)

lemma derive_loop_undefined: "derive_loop [i..<length p] p = None" if "i < length p"
  using that
proof (induction "length p - i" arbitrary: i p)
  case (Suc n)
  show ?case
  proof (cases "Suc i < length p")
    case True
    then have "derive_loop [Suc i..<length p] (p[i := c]) = None" for c
      using Suc.hyps(1) [of "p[i := c]" "Suc i"] Suc.hyps(2) by simp
    then show ?thesis
      using True by (simp add: upt_conv_Cons poly_at_def poly_store_def split: Option.bind_split)
  next
    case False
    then show ?thesis
      using Suc.prems by (simp add: upt_conv_Cons poly_at_def)
  qed
qed simp

text \<open>
  the derivative that the comma operator is meant to compute always reads or writes behind the coefficients.
\<close>
theorem derivative_undefined: "comma p 1 = None"
proof (cases "p = []")
  case True
  then show ?thesis
    by (simp add: comma.simps poly_store_def)
next
  case False
  then show ?thesis
    using derive_loop_undefined [of 0 p] by (simp add: comma.simps)
qed

lemma polynomial_test_fails: "run_polynomial_tests = Some False"
  by (simp add: run_polynomial_tests_def poly_times_def resize_def poly_at_def poly_store_def poly_equal_def numeral_eq_Suc)

lemma output_loses_sign: "print_polynomial [0, - 1, 1] = Some ''x^2x''"
  by (simp add: print_polynomial_def print_top_def print_term_def numeral_2_eq_2 std_to_string_def decimal.simps digit_def)

end
