(* ===== verification/Infix_Parser.thy ===== *)
theory Infix_Parser
  imports Prelude
begin

text \<open>
  The expression parser of \<^verbatim>\<open>2021-12-25-associative-operators-parser/parser.cpp\<close>: one-digit numbers,
  \<open>+\<close> and \<open>*\<close>. The parser keeps a 32-bit index into its input; the methods take it and return the
  new one. The loop of \<open>Multiplicative\<close> calls \<open>Multiplicative\<close> itself, so both are one function,
  \<open>multiplicative_run\<close>, whose second argument is the expression read so far, or \<open>None\<close> at the
  entry. The exceptions of \<open>Term\<close> and of \<open>string_view::at\<close> are values; \<open>None\<close> is the undefined
  behaviour of \<open>isdigit\<close> on a negative \<open>char\<close>, and the loops could give it by not ending.

  The last part shows that the parser returns for every input, what it prints and what it throws.
\<close>

subsection \<open>The program\<close>

datatype Node = Number int | Binary char Node Node

primrec node_print :: "Node \<Rightarrow> string" where
  "node_print (Number Value) = std_to_string Value"
| "node_print (Binary Op L R) =
     ''('' @ node_print L @ '' '' @ [Op] @ '' '' @ node_print R @ '')''"

definition isdigit :: "char \<Rightarrow> bool option" where
  "isdigit c = (if 128 \<le> (of_char c :: nat) \<and> (of_char c :: nat) \<noteq> 255 then None
     else Some (c \<in> set ''0123456789''))"

definition Peek :: "string \<Rightarrow> u32 \<Rightarrow> cxx_exception + char \<times> u32" where
  "Peek Input PeekIndex =
     (if unat PeekIndex < length Input then Inr (Input ! unat PeekIndex, PeekIndex + 1)
      else Inl (out_of_range ''basic_string_view::at''))"

definition MatchOperator :: "string \<Rightarrow> u32 \<Rightarrow> char \<Rightarrow> bool \<times> u32" where
  "MatchOperator Input PeekIndex Op =
     (if length Input \<le> unat PeekIndex then (False, PeekIndex)
      else if Input ! unat PeekIndex = Op then (True, PeekIndex + 1) else (False, PeekIndex))"

definition Term :: "string \<Rightarrow> u32 \<Rightarrow> (cxx_exception + Node \<times> u32) option" where
  "Term Input PeekIndex = (case Peek Input PeekIndex of
     Inl e \<Rightarrow> Some (Inl e)
   | Inr (Token, j) \<Rightarrow> Option.bind (isdigit Token) (\<lambda>b.
       if \<not> b then Some (Inl (runtime_error (''Number expected, got: '' @ [Token])))
       else Some (Inr (Number (digit_value Token), j))))"

partial_function (option) multiplicative_run ::
  "string \<Rightarrow> Node option \<Rightarrow> u32 \<Rightarrow> (cxx_exception + Node \<times> u32) option" where
  "multiplicative_run Input Expression i = (case Expression of
     None \<Rightarrow> Option.bind (Term Input i) (\<lambda>r. case r of
         Inl e \<Rightarrow> Some (Inl e)
       | Inr tj \<Rightarrow> multiplicative_run Input (Some (fst tj)) (snd tj))
   | Some E \<Rightarrow>
       if fst (MatchOperator Input i (CHR ''*''))
       then Option.bind (multiplicative_run Input None (snd (MatchOperator Input i (CHR ''*''))))
         (\<lambda>r. case r of
            Inl e \<Rightarrow> Some (Inl e)
          | Inr mk \<Rightarrow> multiplicative_run Input (Some (Binary (CHR ''*'') E (fst mk))) (snd mk))
       else Some (Inr (E, i)))"

definition Multiplicative :: "string \<Rightarrow> u32 \<Rightarrow> (cxx_exception + Node \<times> u32) option" where
  "Multiplicative Input PeekIndex = multiplicative_run Input None PeekIndex"

partial_function (option) additive_loop ::
  "string \<Rightarrow> Node \<Rightarrow> u32 \<Rightarrow> (cxx_exception + Node \<times> u32) option" where
  "additive_loop Input Expression i =
     (if fst (MatchOperator Input i (CHR ''+''))
      then Option.bind (Multiplicative Input (snd (MatchOperator Input i (CHR ''+'')))) (\<lambda>r.
         case r of
           Inl e \<Rightarrow> Some (Inl e)
         | Inr mk \<Rightarrow> additive_loop Input (Binary (CHR ''+'') Expression (fst mk)) (snd mk))
      else Some (Inr (Expression, i)))"

definition Additive :: "string \<Rightarrow> u32 \<Rightarrow> (cxx_exception + Node \<times> u32) option" where
  "Additive Input PeekIndex = Option.bind (Multiplicative Input PeekIndex) (\<lambda>r. case r of
       Inl e \<Rightarrow> Some (Inl e)
     | Inr mk \<Rightarrow> additive_loop Input (fst mk) (snd mk))"

definition Parser_ctor :: "string \<Rightarrow> (cxx_exception + string) option" where
  "Parser_ctor I = map_option (map_sum id (\<lambda>(n, i). node_print n)) (Additive I 0)"

definition parser_main :: "(cxx_exception + string) option" where
  "parser_main = Parser_ctor ''1+2*3+4+5+6*7+9+1*9*9+9*9''"

subsection \<open>What the texts mean\<close>

text \<open>A product is the list of its digits, an expression the list of its products.\<close>

definition digits_ok :: "int list \<Rightarrow> bool" where
  "digits_ok ds \<longleftrightarrow> (\<forall>d\<in>set ds. 0 \<le> d \<and> d < 10)"

fun product_text :: "int list \<Rightarrow> string" where
  "product_text [] = []"
| "product_text [d] = [digit d]"
| "product_text (d # ds) = digit d # CHR ''*'' # product_text ds"

fun product_tree :: "int list \<Rightarrow> Node" where
  "product_tree [] = Number 1"
| "product_tree [d] = Number d"
| "product_tree (d # ds) = Binary (CHR ''*'') (Number d) (product_tree ds)"

definition starred :: "int list \<Rightarrow> string" where
  "starred ds = concat (map (\<lambda>d. [digit d, CHR ''*'']) ds)"

definition summands :: "int list list \<Rightarrow> string" where
  "summands ps = concat (map (\<lambda>p. CHR ''+'' # product_text p) ps)"

definition sum_tree :: "Node \<Rightarrow> int list list \<Rightarrow> Node" where
  "sum_tree = foldl (\<lambda>e p. Binary (CHR ''+'') e (product_tree p))"

definition starts_with :: "char set \<Rightarrow> string \<Rightarrow> bool" where
  "starts_with C s \<longleftrightarrow> s \<noteq> [] \<and> hd s \<in> C"

definition digit_chars :: "char set" where
  "digit_chars = set ''0123456789''"

definition number_expected :: "string \<Rightarrow> cxx_exception" where
  "number_expected rest = (case rest of
     [] \<Rightarrow> out_of_range ''basic_string_view::at''
   | c # _ \<Rightarrow> runtime_error (''Number expected, got: '' @ [c]))"

abbreviation product_ok :: "int list \<Rightarrow> bool" where
  "product_ok p \<equiv> p \<noteq> [] \<and> digits_ok p"

text \<open>The texts after which a number has to follow.\<close>

definition incomplete :: "string \<Rightarrow> bool" where
  "incomplete s \<longleftrightarrow> (\<exists>ds. digits_ok ds \<and> s = starred ds) \<or>
     (\<exists>p ps ds. (\<forall>q\<in>set (p # ps). product_ok q) \<and> digits_ok ds \<and>
        s = product_text p @ summands ps @ CHR ''+'' # starred ds)"

definition ascii :: "string \<Rightarrow> bool" where
  "ascii s \<longleftrightarrow> (\<forall>c\<in>set s. (of_char c :: nat) < 128)"

lemma starts_with_simps [simp]:
  "\<not> starts_with C []" "starts_with C (c # s) \<longleftrightarrow> c \<in> C"
  by (simp_all add: starts_with_def)

lemma digits_ok_simps [simp]:
  "digits_ok []" "digits_ok (d # ds) \<longleftrightarrow> 0 \<le> d \<and> d < 10 \<and> digits_ok ds"
  by (auto simp: digits_ok_def)

lemma starred_simps [simp]:
  "starred [] = []" "starred (d # ds) = digit d # CHR ''*'' # starred ds"
  by (simp_all add: starred_def)

lemma summands_simps [simp]:
  "summands [] = []" "summands (p # ps) = CHR ''+'' # product_text p @ summands ps"
  by (simp_all add: summands_def)

lemma sum_tree_simps [simp]:
  "sum_tree e [] = e"
  "sum_tree e (p # ps) = sum_tree (Binary (CHR ''+'') e (product_tree p)) ps"
  by (simp_all add: sum_tree_def)

lemma product_text_Cons:
  "ds \<noteq> [] \<Longrightarrow> product_text (d # ds) = digit d # CHR ''*'' # product_text ds"
  "ds \<noteq> [] \<Longrightarrow> product_tree (d # ds) = Binary (CHR ''*'') (Number d) (product_tree ds)"
  by (cases ds; simp)+

subsection \<open>The methods at a position of the input\<close>

text \<open>Positions are written as the length of the text in front of them.\<close>

abbreviation at_pos :: "string \<Rightarrow> u32" where
  "at_pos pre \<equiv> of_nat (length pre)"

lemma unat_at_pos [simp]: "length pre < 2 ^ 32 \<Longrightarrow> unat (at_pos pre) = length pre"
  by (simp add: unat_of_nat take_bit_nat_eq_self)

lemma Peek_at:
  assumes "length (pre @ s) < 2 ^ 32"
  shows "Peek (pre @ s) (at_pos pre) =
    (case s of [] \<Rightarrow> Inl (out_of_range ''basic_string_view::at'')
      | c # _ \<Rightarrow> Inr (c, at_pos (pre @ [c])))"
  using assms by (cases s) (simp_all add: Peek_def ac_simps)

lemma MatchOperator_at:
  assumes "length (pre @ s) < 2 ^ 32"
  shows "MatchOperator (pre @ s) (at_pos pre) c =
    (if starts_with {c} s then (True, at_pos (pre @ [c])) else (False, at_pos pre))"
  using assms by (cases s) (auto simp: MatchOperator_def ac_simps)

lemma isdigit_ascii: "(of_char c :: nat) < 128 \<Longrightarrow> isdigit c = Some (c \<in> digit_chars)"
  by (simp add: isdigit_def digit_chars_def)

lemma digit_in_chars [simp]: "0 \<le> d \<Longrightarrow> d < 10 \<Longrightarrow> digit d \<in> digit_chars"
  unfolding digit_chars_def by (rule digit_in)

lemma digit_ascii: "0 \<le> d \<Longrightarrow> d < 10 \<Longrightarrow> (of_char (digit d) :: nat) < 128"
  by (drule (1) digit_cases) (auto simp: digit_def)

lemma isdigit_digit [simp]: "0 \<le> d \<Longrightarrow> d < 10 \<Longrightarrow> isdigit (digit d) = Some True"
  using digit_ascii [of d] digit_in_chars [of d] by (simp add: isdigit_ascii)

lemma Term_digit:
  assumes "length (pre @ digit d # s) < 2 ^ 32" "0 \<le> d" "d < 10"
  shows "Term (pre @ digit d # s) (at_pos pre) = Some (Inr (Number d, at_pos (pre @ [digit d])))"
  using assms Peek_at [of pre "digit d # s"] by (simp add: Term_def)

lemma Term_error:
  assumes "length (pre @ s) < 2 ^ 32" "ascii s" "\<not> starts_with (digit_chars) s"
  shows "Term (pre @ s) (at_pos pre) = Some (Inl (number_expected s))"
  using assms Peek_at [of pre s] isdigit_ascii [of "hd s"]
  by (cases s) (auto simp: Term_def number_expected_def ascii_def)

lemma loop_stops:
  assumes "length (pre @ s) < 2 ^ 32" "\<not> starts_with {CHR ''*''} s"
  shows "multiplicative_run (pre @ s) (Some E) (at_pos pre) = Some (Inr (E, at_pos pre))"
  using assms by (subst multiplicative_run.simps) (simp add: MatchOperator_at)

lemma loop_continues:
  assumes "length (pre @ CHR ''*'' # s) < 2 ^ 32"
  shows "multiplicative_run (pre @ CHR ''*'' # s) (Some E) (at_pos pre) =
    Option.bind (Multiplicative ((pre @ ''*'') @ s) (at_pos (pre @ ''*''))) (\<lambda>r. case r of
      Inl e \<Rightarrow> Some (Inl e)
    | Inr mk \<Rightarrow> multiplicative_run (pre @ CHR ''*'' # s) (Some (Binary (CHR ''*'') E (fst mk))) (snd mk))"
  using assms MatchOperator_at [of pre "CHR ''*'' # s" "CHR ''*''"]
  by (subst multiplicative_run.simps) (simp add: Multiplicative_def)

lemma Multiplicative_digit:
  assumes "length (pre @ digit d # s) < 2 ^ 32" "0 \<le> d" "d < 10"
  shows "Multiplicative (pre @ digit d # s) (at_pos pre) =
    multiplicative_run ((pre @ [digit d]) @ s) (Some (Number d)) (at_pos (pre @ [digit d]))"
  unfolding Multiplicative_def using assms Term_digit [of pre d s]
  by (subst multiplicative_run.simps) simp

lemma Multiplicative_product:
  assumes "product_ok ds" "length (pre @ product_text ds @ s) < 2 ^ 32"
    "\<not> starts_with {CHR ''*''} s"
  shows "Multiplicative (pre @ product_text ds @ s) (at_pos pre) =
    Some (Inr (product_tree ds, at_pos (pre @ product_text ds)))"
  using assms
proof (induction ds arbitrary: pre)
  case (Cons d ds)
  show ?case
  proof (cases "ds = []")
    case True
    then show ?thesis
      using Cons.prems loop_stops [of "pre @ [digit d]" s "Number d"]
        Multiplicative_digit [of pre d s] by simp
  next
    case False
    let ?p = "pre @ [digit d, CHR ''*'']"
    have IH: "Multiplicative (?p @ product_text ds @ s) (at_pos ?p) =
      Some (Inr (product_tree ds, at_pos (?p @ product_text ds)))"
      using Cons.prems False by (intro Cons.IH) (auto simp: product_text_Cons)
    show ?thesis
      using Cons.prems False IH
        Multiplicative_digit [of pre d "CHR ''*'' # product_text ds @ s"]
        loop_continues [of "pre @ [digit d]" "product_text ds @ s" "Number d"]
        loop_stops [of "?p @ product_text ds" s "Binary (CHR ''*'') (Number d) (product_tree ds)"]
      by (simp add: product_text_Cons)
  qed
qed simp

lemma Multiplicative_error:
  assumes "digits_ok ds" "length (pre @ starred ds @ s) < 2 ^ 32" "ascii s"
    "\<not> starts_with (digit_chars) s"
  shows "Multiplicative (pre @ starred ds @ s) (at_pos pre) = Some (Inl (number_expected s))"
  using assms
proof (induction ds arbitrary: pre)
  case Nil
  then show ?case
    unfolding Multiplicative_def using Term_error [of pre s]
    by (subst multiplicative_run.simps) simp
next
  case (Cons d ds)
  then show ?case
    using Cons.IH [of "pre @ [digit d, CHR ''*'']"]
      Multiplicative_digit [of pre d "CHR ''*'' # starred ds @ s"]
      loop_continues [of "pre @ [digit d]" "starred ds @ s" "Number d"]
    by simp
qed

lemma additive_step:
  assumes "length (pre @ CHR ''+'' # s) < 2 ^ 32"
  shows "additive_loop (pre @ CHR ''+'' # s) E (at_pos pre) =
    Option.bind (Multiplicative ((pre @ ''+'') @ s) (at_pos (pre @ ''+''))) (\<lambda>r. case r of
      Inl e \<Rightarrow> Some (Inl e)
    | Inr mk \<Rightarrow> additive_loop (pre @ CHR ''+'' # s) (Binary (CHR ''+'') E (fst mk)) (snd mk))"
  using assms MatchOperator_at [of pre "CHR ''+'' # s" "CHR ''+''"]
  by (subst additive_loop.simps) simp

lemma additive_summands:
  assumes "\<forall>p\<in>set ps. product_ok p" "length (pre @ summands ps @ s) < 2 ^ 32"
    "\<not> starts_with {CHR ''*''} s"
  shows "additive_loop (pre @ summands ps @ s) E (at_pos pre) =
    additive_loop (pre @ summands ps @ s) (sum_tree E ps) (at_pos (pre @ summands ps))"
  using assms(1,2)
proof (induction ps arbitrary: pre E)
  case (Cons p ps)
  have "\<not> starts_with {CHR ''*''} (summands ps @ s)"
    using assms(3) by (cases ps) auto
  then show ?case
    using Cons.prems additive_step [of pre "product_text p @ summands ps @ s" E]
      Multiplicative_product [of p "pre @ ''+''" "summands ps @ s"]
      Cons.IH [of "pre @ CHR ''+'' # product_text p" "Binary (CHR ''+'') E (product_tree p)"]
    by simp
qed simp

lemma additive_stops:
  assumes "length (pre @ s) < 2 ^ 32" "\<not> starts_with {CHR ''+''} s"
  shows "additive_loop (pre @ s) E (at_pos pre) = Some (Inr (E, at_pos pre))"
  using assms by (subst additive_loop.simps) (simp add: MatchOperator_at)

lemma additive_error:
  assumes "digits_ok ds" "length (pre @ CHR ''+'' # starred ds @ s) < 2 ^ 32" "ascii s"
    "\<not> starts_with (digit_chars) s"
  shows "additive_loop (pre @ CHR ''+'' # starred ds @ s) E (at_pos pre) = Some (Inl (number_expected s))"
  using assms additive_step [of pre "starred ds @ s" E] Multiplicative_error [of ds "pre @ ''+''" s]
  by simp

subsection \<open>Every input is an expression or lacks a number\<close>

lemma digit_of_char: "c \<in> digit_chars \<Longrightarrow> \<exists>d. c = digit d \<and> 0 \<le> d \<and> d < 10"
proof -
  assume "c \<in> digit_chars"
  then obtain i where "i < length ''0123456789''" "''0123456789'' ! i = c"
    unfolding digit_chars_def by (metis in_set_conv_nth)
  then show ?thesis
    by (intro exI [of _ "int i"]) (simp add: digit_def)
qed

lemma product_split:
  "(\<exists>p t. product_ok p \<and> s = product_text p @ t \<and> \<not> starts_with {CHR ''*''} t) \<or>
   (\<exists>ds t. digits_ok ds \<and> s = starred ds @ t \<and> \<not> starts_with (digit_chars) t)"
proof (induction s rule: length_induct)
  case (1 s)
  show ?case
  proof (cases "starts_with (digit_chars) s")
    case True
    then obtain d t where s: "s = digit d # t" "0 \<le> d" "d < 10"
      using digit_of_char by (cases s) auto
    show ?thesis
    proof (cases "starts_with {CHR ''*''} t")
      case True
      then obtain u where t: "t = CHR ''*'' # u"
        by (cases t) auto
      have "(\<exists>p t. product_ok p \<and> u = product_text p @ t \<and> \<not> starts_with {CHR ''*''} t) \<or>
        (\<exists>ds t. digits_ok ds \<and> u = starred ds @ t \<and> \<not> starts_with (digit_chars) t)"
        using 1 s t by simp
      then show ?thesis
      proof (elim disjE exE conjE)
        fix p v assume p: "digits_ok p" "u = product_text p @ v" "\<not> starts_with {CHR ''*''} v" "p \<noteq> []"
        then have "s = product_text (d # p) @ v" "product_ok (d # p)"
          using s t by (simp_all add: product_text_Cons)
        then show ?thesis using p by blast
      next
        fix ds v assume v: "digits_ok ds" "u = starred ds @ v"
          "\<not> starts_with (digit_chars) v"
        then have "s = starred (d # ds) @ v" "digits_ok (d # ds)"
          using s t by simp_all
        then show ?thesis using v by blast
      qed
    next
      case False
      have "s = product_text [d] @ t" "product_ok [d]"
        using s by simp_all
      then show ?thesis using False by blast
    qed
  next
    case False
    have "s = starred [] @ s" "digits_ok []" by simp_all
    then show ?thesis using False by blast
  qed
qed

lemma sum_split:
  assumes "\<not> starts_with {CHR ''*''} s"
  shows "(\<exists>ps t. (\<forall>p\<in>set ps. product_ok p) \<and> s = summands ps @ t \<and> \<not> starts_with (set ''+*'') t) \<or>
   (\<exists>ps ds t. (\<forall>p\<in>set ps. product_ok p) \<and> digits_ok ds \<and> s = summands ps @ CHR ''+'' # starred ds @ t
      \<and> \<not> starts_with (digit_chars) t)"
  using assms
proof (induction s rule: length_induct)
  case (1 s)
  show ?case
  proof (cases "starts_with {CHR ''+''} s")
    case True
    then obtain u where s: "s = CHR ''+'' # u"
      by (cases s) auto
    consider (good) p t where "product_ok p" "u = product_text p @ t" "\<not> starts_with {CHR ''*''} t"
      | (bad) ds t where "digits_ok ds" "u = starred ds @ t" "\<not> starts_with (digit_chars) t"
      using product_split [of u] by blast
    then show ?thesis
    proof cases
      case good
      have "(\<exists>ps v. (\<forall>p\<in>set ps. product_ok p) \<and> t = summands ps @ v \<and> \<not> starts_with (set ''+*'') v) \<or>
        (\<exists>ps ds v. (\<forall>p\<in>set ps. product_ok p) \<and> digits_ok ds \<and> t = summands ps @ CHR ''+'' # starred ds @ v
          \<and> \<not> starts_with (digit_chars) v)"
        using 1(1) good s by simp
      then show ?thesis
      proof (elim disjE exE conjE)
        fix ps v assume v: "\<forall>p\<in>set ps. product_ok p" "t = summands ps @ v" "\<not> starts_with (set ''+*'') v"
        then have "s = summands (p # ps) @ v" "\<forall>p\<in>set (p # ps). product_ok p"
          using good s by simp_all
        then show ?thesis using v by blast
      next
        fix ps ds v assume v: "\<forall>p\<in>set ps. product_ok p" "digits_ok ds"
          "t = summands ps @ CHR ''+'' # starred ds @ v" "\<not> starts_with (digit_chars) v"
        then have "s = summands (p # ps) @ CHR ''+'' # starred ds @ v" "\<forall>p\<in>set (p # ps). product_ok p"
          using good s by simp_all
        then show ?thesis using v by blast
      qed
    next
      case bad
      have "s = summands [] @ CHR ''+'' # starred ds @ t" using bad s by simp
      moreover have "\<forall>p\<in>set []. product_ok p" by simp
      ultimately show ?thesis using bad by blast
    qed
  next
    case False
    have "s = summands [] @ s" "\<forall>p\<in>set []. product_ok p" by simp_all
    moreover have "\<not> starts_with (set ''+*'') s"
      using False 1(2) by (cases s) auto
    ultimately show ?thesis by blast
  qed
qed

subsection \<open>The parser\<close>

lemma ascii_append [simp]: "ascii (s @ t) \<longleftrightarrow> ascii s \<and> ascii t"
  by (auto simp: ascii_def)

lemma ascii_Cons [simp]: "ascii (c # t) \<longleftrightarrow> (of_char c :: nat) < 128 \<and> ascii t"
  by (auto simp: ascii_def)

lemma Parser_missing_first:
  assumes "length (starred ds @ s) < 2 ^ 32" "digits_ok ds" "ascii s"
    "\<not> starts_with (digit_chars) s"
  shows "Parser_ctor (starred ds @ s) = Some (Inl (number_expected s))"
  using assms Multiplicative_error [of ds "[]" s] by (simp add: Parser_ctor_def Additive_def)

lemma Parser_missing_later:
  assumes "length (product_text p @ summands ps @ CHR ''+'' # starred ds @ s) < 2 ^ 32"
    "\<forall>p\<in>set (p # ps). product_ok p" "digits_ok ds" "ascii s"
    "\<not> starts_with (digit_chars) s"
  shows "Parser_ctor (product_text p @ summands ps @ CHR ''+'' # starred ds @ s) =
    Some (Inl (number_expected s))"
proof -
  let ?t = "CHR ''+'' # starred ds @ s"
  have "\<not> starts_with {CHR ''*''} (summands ps @ ?t)"
    by (cases ps) auto
  then show ?thesis
    using assms Multiplicative_product [of p "[]" "summands ps @ ?t"]
      additive_summands [of ps "product_text p" ?t "product_tree p"]
      additive_error [of ds "product_text p @ summands ps" s "sum_tree (product_tree p) ps"]
    by (simp add: Parser_ctor_def Additive_def)
qed

lemma Parser_expression:
  assumes "length (product_text p @ summands ps @ s) < 2 ^ 32"
    "\<forall>p\<in>set (p # ps). product_ok p" "\<not> starts_with (set ''+*'') s"
  shows "Parser_ctor (product_text p @ summands ps @ s) =
    Some (Inr (node_print (sum_tree (product_tree p) ps)))"
proof -
  have *: "\<not> starts_with {CHR ''*''} (summands ps @ s)" "\<not> starts_with {CHR ''*''} s"
    "\<not> starts_with {CHR ''+''} s"
    using assms(3) by (cases ps; cases s; auto)+
  then show ?thesis
    using assms Multiplicative_product [of p "[]" "summands ps @ s"]
      additive_summands [of ps "product_text p" s "product_tree p"]
      additive_stops [of "product_text p @ summands ps" s "sum_tree (product_tree p) ps"]
    by (simp add: Parser_ctor_def Additive_def)
qed

text \<open>C25: The parser returns for every ASCII input shorter than
  \<open>2\<^sup>3\<^sup>2\<close> characters. Either the input begins with an expression, a
  sum of products of digits that no operator follows, and the fully bracketed text is printed in
  which products are nested to the right and sums to the left; or the input begins with an
  expression that lacks its last number, and the exception names the character found instead or is
  the one of \<open>at\<close> at the end of the input.\<close>

theorem parser_total:
  assumes "length Input < 2 ^ 32" "ascii Input"
  shows "(\<exists>p ps rest. Input = product_text p @ summands ps @ rest \<and> (\<forall>q\<in>set (p # ps). product_ok q)
        \<and> \<not> starts_with (set ''+*'') rest
        \<and> Parser_ctor Input = Some (Inr (node_print (sum_tree (product_tree p) ps))))
    \<or> (\<exists>pre rest. Input = pre @ rest \<and> incomplete pre \<and> \<not> starts_with digit_chars rest
        \<and> Parser_ctor Input = Some (Inl (number_expected rest)))"
proof -
  consider (good) p t where "product_ok p" "Input = product_text p @ t" "\<not> starts_with {CHR ''*''} t"
    | (bad) ds t where "digits_ok ds" "Input = starred ds @ t" "\<not> starts_with digit_chars t"
    using product_split [of Input] by blast
  then show ?thesis
  proof cases
    case good
    show ?thesis
      using sum_split [OF good(3)]
    proof (elim disjE exE conjE)
      fix ps r assume r: "\<forall>p\<in>set ps. product_ok p" "t = summands ps @ r" "\<not> starts_with (set ''+*'') r"
      then show ?thesis
        using good assms Parser_expression [of p ps r]
        by (intro disjI1 exI [of _ p] exI [of _ ps] exI [of _ r]) simp
    next
      fix ps ds r assume r: "\<forall>p\<in>set ps. product_ok p" "digits_ok ds"
        "t = summands ps @ CHR ''+'' # starred ds @ r" "\<not> starts_with digit_chars r"
      let ?pre = "product_text p @ summands ps @ CHR ''+'' # starred ds"
      have "incomplete ?pre"
        using good r unfolding incomplete_def by (metis set_ConsD)
      then show ?thesis
        using good r assms Parser_missing_later [of p ps ds r]
        by (intro disjI2 exI [of _ ?pre] exI [of _ r]) auto
    qed
  next
    case bad
    then have "incomplete (starred ds)"
      unfolding incomplete_def by blast
    then show ?thesis
      using bad assms Parser_missing_first [of ds t]
      by (intro disjI2 exI [of _ "starred ds"] exI [of _ t]) auto
  qed
qed

theorem parser_total_witness:
  "length ''1*2+3;'' < 2 ^ 32 \<and> ascii ''1*2+3;''
   \<and> ((\<exists>p ps rest. ''1*2+3;'' = product_text p @ summands ps @ rest \<and> (\<forall>q\<in>set (p # ps). product_ok q)
        \<and> \<not> starts_with (set ''+*'') rest
        \<and> Parser_ctor ''1*2+3;'' = Some (Inr (node_print (sum_tree (product_tree p) ps))))
    \<or> (\<exists>pre rest. ''1*2+3;'' = pre @ rest \<and> incomplete pre \<and> \<not> starts_with digit_chars rest
        \<and> Parser_ctor ''1*2+3;'' = Some (Inl (number_expected rest))))"
proof -
  have *: "length ''1*2+3;'' < 2 ^ 32" "ascii ''1*2+3;''"
    by (simp_all add: ascii_def)
  show ?thesis
    by (intro conjI * parser_total)
qed

lemma parser_main_output:
  "parser_main = Some (Inr ''(((((((1 + (2 * 3)) + 4) + 5) + (6 * 7)) + 9) + (1 * (9 * 9))) + (9 * 9))'')"
proof -
  have "parser_main = Some (Inr (node_print (sum_tree (product_tree [1])
      [[2, 3], [4], [5], [6, 7], [9], [1, 9, 9], [9, 9]])))"
    unfolding parser_main_def
    using Parser_expression [of "[1]" "[[2, 3], [4], [5], [6, 7], [9], [1, 9, 9], [9, 9]]" "[]"]
    by (simp add: digit_def)
  then show ?thesis
    by (simp add: std_to_string_def decimal.simps digit_def)
qed

end
