(* ===== verification/Postfix_Translator.thy ===== *)
theory Postfix_Translator
  imports Infix_Parser
begin

text \<open>
  The translator of \<^verbatim>\<open>2021-11-11-postfix-exprs-parser/parser.cpp\<close> from sums and differences of digits to
  postfix notation. The state holds the characters left on the standard input, the member
  \<open>lookahead_\<close>, \<open>None\<close> as long as it is not initialised, and the output. \<open>std::cin >> lookahead_\<close>
  skips white space and, at the end of the input, leaves \<open>lookahead_\<close> as it was. A method returns
  the new state, or the exception and the state in which it is thrown; \<open>None\<close> is the use of the
  uninitialised \<open>lookahead_\<close> or of \<open>isdigit\<close> on a negative \<open>char\<close>.

  The translation is shown correct against a stack machine, and \<open>main\<close> is shown to lose the
  character behind every expression.
\<close>

subsection \<open>The program\<close>

record translator =
  cin :: string
  lookahead :: "char option"
  cout :: string

type_synonym translation = "(cxx_exception \<times> translator + translator) option"

definition isspace :: "char \<Rightarrow> bool" where
  "isspace c \<longleftrightarrow> of_char c \<in> {9, 10, 11, 12, 13, 32 :: nat}"

definition read_lookahead :: "translator \<Rightarrow> translator" where
  "read_lookahead s = (case dropWhile isspace (cin s) of
     [] \<Rightarrow> s\<lparr>cin := []\<rparr>
   | c # cs \<Rightarrow> s\<lparr>cin := cs, lookahead := Some c\<rparr>)"

definition emit :: "char \<Rightarrow> translator \<Rightarrow> translator" where
  "emit c s = s\<lparr>cout := cout s @ [c]\<rparr>"

definition and_then :: "translation \<Rightarrow> (translator \<Rightarrow> translation) \<Rightarrow> translation" where
  "and_then m f = Option.bind m (\<lambda>r. case r of Inl e \<Rightarrow> Some (Inl e) | Inr s \<Rightarrow> f s)"

definition match :: "char \<Rightarrow> translator \<Rightarrow> translation" where
  "match t s = Option.bind (lookahead s) (\<lambda>c.
     if c = t then Some (Inr (read_lookahead s))
     else Some (Inl (runtime_error ''match: syntax error'', s)))"

definition translate_term :: "translator \<Rightarrow> translation" where
  "translate_term s = Option.bind (lookahead s) (\<lambda>c. Option.bind (isdigit c) (\<lambda>b.
     if b then match c (emit c s)
     else Some (Inl (runtime_error ''term: syntax error'', s))))"

partial_function (option) expr_loop :: "translator \<Rightarrow> translation" where
  "expr_loop s = Option.bind (lookahead s) (\<lambda>c.
     if c = CHR ''+'' then
       Option.bind (and_then (and_then (match (CHR ''+'') s) translate_term)
           (\<lambda>s. Some (Inr (emit (CHR ''+'') s))))
         (\<lambda>r. case r of Inl e \<Rightarrow> Some (Inl e) | Inr s \<Rightarrow> expr_loop s)
     else if c = CHR ''-'' then
       Option.bind (and_then (and_then (match (CHR ''-'') s) translate_term)
           (\<lambda>s. Some (Inr (emit (CHR ''-'') s))))
         (\<lambda>r. case r of Inl e \<Rightarrow> Some (Inl e) | Inr s \<Rightarrow> expr_loop s)
     else Some (Inr s))"

definition expr :: "translator \<Rightarrow> translation" where
  "expr s = and_then (translate_term s) expr_loop"

definition translator_ctor :: "string \<Rightarrow> string \<Rightarrow> translator" where
  "translator_ctor input output = read_lookahead \<lparr>cin = input, lookahead = None, cout = output\<rparr>"

text \<open>The loop of \<open>main\<close> ends only by an exception.\<close>

partial_function (option) translator_main ::
  "string \<Rightarrow> string \<Rightarrow> (cxx_exception \<times> translator) option" where
  "translator_main input output =
     Option.bind (expr (translator_ctor input (output @ ''>>> ''))) (\<lambda>r. case r of
       Inl e \<Rightarrow> Some e
     | Inr s \<Rightarrow> translator_main (cin s) (cout s @ [CHR 0x0A]))"

subsection \<open>Infix and postfix texts\<close>

text \<open>An expression is its first digit and the list of its operators with their right operands.\<close>

type_synonym operations = "(char \<times> int) list"

definition operations_ok :: "operations \<Rightarrow> bool" where
  "operations_ok ops \<longleftrightarrow> (\<forall>(op, d)\<in>set ops. op \<in> set ''+-'' \<and> 0 \<le> d \<and> d < 10)"

definition infix_text :: "operations \<Rightarrow> string" where
  "infix_text ops = concat (map (\<lambda>(op, d). [op, digit d]) ops)"

definition postfix_text :: "operations \<Rightarrow> string" where
  "postfix_text ops = concat (map (\<lambda>(op, d). [digit d, op]) ops)"

definition apply_op :: "char \<Rightarrow> int \<Rightarrow> int \<Rightarrow> int" where
  "apply_op op a b = (if op = CHR ''+'' then a + b else a - b)"

definition infix_value :: "int \<Rightarrow> operations \<Rightarrow> int" where
  "infix_value = foldl (\<lambda>a (op, d). apply_op op a d)"

fun stack_machine :: "string \<Rightarrow> int list \<Rightarrow> int list option" where
  "stack_machine [] st = Some st"
| "stack_machine (c # cs) st =
     (if c \<in> digit_chars then stack_machine cs (digit_value c # st)
      else case st of b # a # st' \<Rightarrow> stack_machine cs (apply_op c a b # st') | _ \<Rightarrow> None)"

definition unspaced :: "string \<Rightarrow> string" where
  "unspaced = filter (\<lambda>c. \<not> isspace c)"

lemma operations_ok_simps [simp]:
  "operations_ok []"
  "operations_ok ((op, d) # ops) \<longleftrightarrow> op \<in> set ''+-'' \<and> 0 \<le> d \<and> d < 10 \<and> operations_ok ops"
  by (auto simp: operations_ok_def)

lemma text_simps [simp]:
  "infix_text [] = []" "infix_text ((op, d) # ops) = op # digit d # infix_text ops"
  "postfix_text [] = []" "postfix_text ((op, d) # ops) = digit d # op # postfix_text ops"
  by (simp_all add: infix_text_def postfix_text_def)

lemma infix_value_simps [simp]:
  "infix_value a [] = a" "infix_value a ((op, d) # ops) = infix_value (apply_op op a d) ops"
  by (simp_all add: infix_value_def)

lemma operator_no_digit: "op \<in> set ''+-'' \<Longrightarrow> op \<notin> digit_chars"
  by (auto simp: digit_chars_def)

lemma stack_machine_postfix:
  "operations_ok ops \<Longrightarrow> stack_machine (postfix_text ops) (a # st) = Some (infix_value a ops # st)"
proof (induction ops arbitrary: a)
  case (Cons x ops)
  then show ?case
    by (cases x) (auto simp: operator_no_digit simp del: list.set)
qed simp

subsection \<open>Reading ahead\<close>

lemma unspaced_dropWhile: "unspaced (dropWhile isspace s) = unspaced s"
  by (induction s) (auto simp: unspaced_def)

lemma read_lookahead_end:
  assumes "unspaced (cin s) = []"
  shows "read_lookahead s = s\<lparr>cin := []\<rparr>"
proof -
  have "dropWhile isspace (cin s) = []"
    using assms by (auto simp: unspaced_def filter_empty_conv)
  from this show ?thesis
    unfolding read_lookahead_def by (simp only: list.case)
qed

lemma read_lookahead_next:
  assumes "unspaced (cin s) = c # cs"
  shows "\<exists>t. read_lookahead s = s\<lparr>cin := t, lookahead := Some c\<rparr> \<and> unspaced t = cs"
proof -
  obtain d t where d: "dropWhile isspace (cin s) = d # t"
    using assms unspaced_dropWhile [of "cin s"] by (cases "dropWhile isspace (cin s)") (auto simp: unspaced_def)
  then have "\<not> isspace d"
    by (metis hd_dropWhile list.distinct(1) list.sel(1))
  then have "d = c" "unspaced t = cs"
    using assms unspaced_dropWhile [of "cin s"] d by (auto simp: unspaced_def)
  then show ?thesis
    using d by (auto simp: read_lookahead_def)
qed

text \<open>The characters from the lookahead on, without white space; behind the last one the lookahead
  is stale. \<open>st\<close> tells the stale character.\<close>

definition pending :: "translator \<Rightarrow> char \<Rightarrow> string \<Rightarrow> bool" where
  "pending s st cs \<longleftrightarrow> (case cs of
     [] \<Rightarrow> lookahead s = Some st \<and> unspaced (cin s) = []
   | c # cs' \<Rightarrow> lookahead s = Some c \<and> unspaced (cin s) = cs')"

lemma pending_emit [simp]: "pending (emit c s) st cs = pending s st cs"
  by (simp add: pending_def emit_def split: list.split)

lemma cout_emit [simp]: "cout (emit c s) = cout s @ [c]"
  by (simp add: emit_def)

lemma pending_read:
  assumes "pending s st (c # cs)"
  shows "pending (read_lookahead s) c cs \<and> cout (read_lookahead s) = cout s"
proof (cases cs)
  case Nil
  then show ?thesis
    using assms by (simp add: pending_def read_lookahead_end)
       (simp add: unspaced_def)
next
  case (Cons x xs)
  then have "unspaced (cin s) = x # xs"
    using assms by (simp add: pending_def)
  from read_lookahead_next [OF this] show ?thesis
    using Cons by (auto simp: pending_def)
qed

lemma match_pending:
  "pending s st (c # cs) \<Longrightarrow> match c s = Some (Inr (read_lookahead s))"
  by (simp add: match_def pending_def)

lemma term_digit:
  assumes "pending s st (digit d # cs)" "0 \<le> d" "d < 10"
  shows "\<exists>s'. translate_term s = Some (Inr s') \<and> pending s' (digit d) cs \<and> cout s' = cout s @ [digit d]"
proof -
  let ?s = "emit (digit d) s"
  have p: "pending ?s st (digit d # cs)"
    using assms by simp
  then have "translate_term s = Some (Inr (read_lookahead ?s))"
    using assms match_pending [OF p] by (simp add: translate_term_def pending_def)
  then show ?thesis
    using pending_read [OF p] by (simp add: emit_def)
qed

lemma term_error:
  assumes "lookahead s = Some c" "(of_char c :: nat) < 128" "c \<notin> digit_chars"
  shows "translate_term s = Some (Inl (runtime_error ''term: syntax error'', s))"
  using assms by (simp add: translate_term_def isdigit_ascii)

lemma loop_operator:
  assumes "lookahead s = Some op" "op \<in> set ''+-''"
  shows "expr_loop s = and_then (and_then (and_then (match op s) translate_term)
     (\<lambda>s. Some (Inr (emit op s)))) expr_loop"
  using assms by (subst expr_loop.simps) (auto simp: and_then_def)

lemma loop_step:
  assumes "pending s st (op # digit d # cs)" "op \<in> set ''+-''" "0 \<le> d" "d < 10"
  shows "\<exists>s'. expr_loop s = expr_loop s' \<and> pending s' (digit d) cs \<and> cout s' = cout s @ [digit d, op]"
proof -
  let ?s = "read_lookahead s"
  have "pending ?s op (digit d # cs)" "cout ?s = cout s"
    using pending_read [OF assms(1)] by simp_all
  from term_digit [OF this(1) assms(3,4)] this(2) obtain s' where
    s': "translate_term ?s = Some (Inr s')" "pending s' (digit d) cs" "cout s' = cout s @ [digit d]"
    by auto
  have "expr_loop s = expr_loop (emit op s')"
    using assms loop_operator [of s op] match_pending [OF assms(1)] s'
    by (simp add: pending_def and_then_def del: list.set)
  then show ?thesis
    using s' by (intro exI [of _ "emit op s'"]) simp
qed

lemma loop_error:
  assumes "pending s st (op # cs)" "op \<in> set ''+-''" "\<not> starts_with digit_chars cs" "ascii cs"
  shows "\<exists>s'. expr_loop s = Some (Inl (runtime_error ''term: syntax error'', s')) \<and> cout s' = cout s"
proof -
  let ?s = "read_lookahead s"
  have p: "pending ?s op cs" "cout ?s = cout s"
    using pending_read [OF assms(1)] by simp_all
  define c where "c = (if cs = [] then op else hd cs)"
  have "lookahead ?s = Some c"
    using p unfolding c_def by (cases cs) (auto simp: pending_def)
  moreover have "(of_char c :: nat) < 128"
    using assms unfolding c_def by (cases cs) auto
  moreover have "c \<notin> digit_chars"
    using assms operator_no_digit [of op] unfolding c_def by (cases cs) (simp_all del: list.set)
  ultimately have "translate_term ?s = Some (Inl (runtime_error ''term: syntax error'', ?s))"
    by (rule term_error)
  then have "expr_loop s = Some (Inl (runtime_error ''term: syntax error'', ?s))"
    using assms loop_operator [of s op] match_pending [OF assms(1)]
    by (simp add: pending_def and_then_def del: list.set)
  then show ?thesis
    using p by auto
qed

lemma loop_stop:
  assumes "pending s st cs" "st \<in> digit_chars" "\<not> starts_with (set ''+-'') cs"
  shows "expr_loop s = Some (Inr s)"
proof -
  obtain c where c: "lookahead s = Some c" "c \<notin> set ''+-''"
    using assms operator_no_digit by (cases cs) (auto simp: pending_def simp del: list.set)
  then show ?thesis
    by (subst expr_loop.simps) simp
qed

lemma loop_operations:
  assumes "pending s st (infix_text ops @ cs)" "operations_ok ops" "st \<in> digit_chars"
  shows "\<exists>s' st'. expr_loop s = expr_loop s' \<and> pending s' st' cs \<and> st' \<in> digit_chars
    \<and> cout s' = cout s @ postfix_text ops"
  using assms
proof (induction ops arbitrary: s st)
  case (Cons x ops)
  obtain op d where x: "x = (op, d)"
    by (cases x)
  obtain t where t: "expr_loop s = expr_loop t" "pending t (digit d) (infix_text ops @ cs)"
    "cout t = cout s @ [digit d, op]"
    using loop_step [of s st op d "infix_text ops @ cs"] Cons.prems x by auto
  from Cons.IH [OF t(2)] Cons.prems x t show ?case
    by auto
qed auto

subsection \<open>Translating one expression\<close>

lemma translator_ctor_pending:
  assumes "unspaced input = c # cs"
  shows "pending (translator_ctor input out) st (c # cs) \<and> cout (translator_ctor input out) = out"
proof -
  obtain t where "translator_ctor input out = \<lparr>cin = t, lookahead = Some c, cout = out\<rparr>"
    "unspaced t = cs"
    using read_lookahead_next [of "\<lparr>cin = input, lookahead = None, cout = out\<rparr>" c cs] assms
    by (auto simp: translator_ctor_def)
  then show ?thesis
    by (simp add: pending_def)
qed

lemma expr_first_digit:
  assumes "unspaced input = digit d # cs" "0 \<le> d" "d < 10"
  shows "\<exists>s. expr (translator_ctor input out) = expr_loop s \<and> pending s (digit d) cs
    \<and> cout s = out @ [digit d]"
proof -
  from translator_ctor_pending [OF assms(1), of out "CHR 0x00"]
  have p: "pending (translator_ctor input out) (CHR 0x00) (digit d # cs)"
    "cout (translator_ctor input out) = out" by simp_all
  from term_digit [OF p(1) assms(2,3)] p(2) show ?thesis
    by (auto simp: expr_def and_then_def)
qed

lemma expr_expression:
  assumes "unspaced input = digit d # infix_text ops @ rest" "0 \<le> d" "d < 10" "operations_ok ops"
    "\<not> starts_with (set ''+-'') rest"
  shows "\<exists>s. expr (translator_ctor input out) = Some (Inr s)
    \<and> cout s = out @ digit d # postfix_text ops \<and> unspaced (cin s) = tl rest"
proof -
  obtain s where s: "expr (translator_ctor input out) = expr_loop s"
    "pending s (digit d) (infix_text ops @ rest)" "cout s = out @ [digit d]"
    using expr_first_digit [OF assms(1-3)] by blast
  obtain s' st where s': "expr_loop s = expr_loop s'" "pending s' st rest" "st \<in> digit_chars"
    "cout s' = cout s @ postfix_text ops"
    using loop_operations [OF s(2) assms(4)] assms by auto
  have "unspaced (cin s') = tl rest"
    using s'(2) by (simp add: pending_def split: list.splits)
  moreover have "expr_loop s' = Some (Inr s')"
    using loop_stop [OF s'(2,3) assms(5)] .
  ultimately show ?thesis
    using s s' by auto
qed

lemma expr_missing_number:
  assumes "unspaced input = digit d # infix_text ops @ op # rest" "0 \<le> d" "d < 10"
    "operations_ok ops" "op \<in> set ''+-''" "\<not> starts_with digit_chars rest" "ascii rest"
  shows "\<exists>s. expr (translator_ctor input out) = Some (Inl (runtime_error ''term: syntax error'', s))
    \<and> cout s = out @ digit d # postfix_text ops"
proof -
  obtain s where s: "expr (translator_ctor input out) = expr_loop s"
    "pending s (digit d) (infix_text ops @ op # rest)" "cout s = out @ [digit d]"
    using expr_first_digit [OF assms(1-3)] by blast
  obtain s' st where s': "expr_loop s = expr_loop s'" "pending s' st (op # rest)"
    "cout s' = cout s @ postfix_text ops"
    using loop_operations [OF s(2) assms(4)] assms by auto
  show ?thesis
    using loop_error [OF s'(2) assms(5-7)] s s' by auto
qed

lemma expr_no_number:
  assumes "unspaced input = c # cs" "c \<notin> digit_chars" "(of_char c :: nat) < 128"
  shows "\<exists>s. expr (translator_ctor input out) = Some (Inl (runtime_error ''term: syntax error'', s))
    \<and> cout s = out"
  using translator_ctor_pending [OF assms(1), of out "CHR 0x00"] assms
    term_error [of "translator_ctor input out" c]
  by (auto simp: expr_def and_then_def pending_def)

lemma infix_split:
  "(\<exists>ops rest. operations_ok ops \<and> cs = infix_text ops @ rest \<and> \<not> starts_with (set ''+-'') rest) \<or>
   (\<exists>ops op rest. operations_ok ops \<and> op \<in> set ''+-'' \<and> cs = infix_text ops @ op # rest
      \<and> \<not> starts_with digit_chars rest)"
  (is "?good cs \<or> ?bad cs")
proof (induction cs rule: length_induct)
  case (1 cs)
  show ?case
  proof (cases "starts_with (set ''+-'') cs")
    case False
    have "operations_ok []" "cs = infix_text [] @ cs" by simp_all
    then show ?thesis using False by blast
  next
    case True
    then obtain op t where cs: "cs = op # t" "op \<in> set ''+-''"
      by (cases cs) (simp_all del: list.set)
    show ?thesis
    proof (cases "starts_with digit_chars t")
      case False
      have "operations_ok []" "cs = infix_text [] @ op # t" using cs by simp_all
      then show ?thesis using cs False by blast
    next
      case True
      then obtain d u where t: "t = digit d # u" "0 \<le> d" "d < 10"
        using digit_of_char by (cases t) auto
      have ext: "operations_ok ((op, d) # ops)" "cs = infix_text ((op, d) # ops) @ v"
        if "operations_ok ops" "u = infix_text ops @ v" for ops v
        using that cs t by (simp_all del: list.set)
      have "?good u \<or> ?bad u"
        using 1 cs t by (simp del: list.set)
      then show ?thesis
      proof (elim disjE exE conjE)
        fix ops v assume "operations_ok ops" "u = infix_text ops @ v" "\<not> starts_with (set ''+-'') v"
        then show ?thesis using ext by blast
      next
        fix ops o2 v assume h: "operations_ok ops" "o2 \<in> set ''+-''" "u = infix_text ops @ o2 # v"
          "\<not> starts_with digit_chars v"
        then show ?thesis using ext [OF h(1,3)] by blast
      qed
    qed
  qed
qed

lemma ascii_unspaced: "ascii s \<Longrightarrow> ascii (unspaced s)"
  by (auto simp: ascii_def unspaced_def)

text \<open>C27: On an ASCII input that is not blank, \<open>expr\<close> returns. If the input begins with a sum or
  difference of digits that no operator follows, the output is its postfix form, a stack machine
  computes from it the value of the expression, and the rest of the input is left but for one
  character; otherwise a number is missing behind an operator or at the beginning, and the syntax
  error is thrown after the postfix form of the part before was written.\<close>

theorem translation_correct:
  assumes "ascii input" "unspaced input \<noteq> []"
  shows "(\<exists>d ops rest s. unspaced input = digit d # infix_text ops @ rest \<and> 0 \<le> d \<and> d < 10
      \<and> operations_ok ops \<and> \<not> starts_with (set ''+-'') rest
      \<and> expr (translator_ctor input []) = Some (Inr s)
      \<and> cout s = digit d # postfix_text ops \<and> stack_machine (cout s) [] = Some [infix_value d ops]
      \<and> unspaced (cin s) = tl rest)
   \<or> (\<exists>d ops op rest s. unspaced input = digit d # infix_text ops @ op # rest \<and> 0 \<le> d \<and> d < 10
      \<and> operations_ok ops \<and> op \<in> set ''+-'' \<and> \<not> starts_with digit_chars rest
      \<and> expr (translator_ctor input []) = Some (Inl (runtime_error ''term: syntax error'', s))
      \<and> cout s = digit d # postfix_text ops)
   \<or> (\<exists>s. \<not> starts_with digit_chars (unspaced input)
      \<and> expr (translator_ctor input []) = Some (Inl (runtime_error ''term: syntax error'', s))
      \<and> cout s = [])"
proof (cases "starts_with digit_chars (unspaced input)")
  case False
  then obtain c cs where c: "unspaced input = c # cs" "c \<notin> digit_chars"
    using assms(2) by (cases "unspaced input") auto
  have "(of_char c :: nat) < 128"
    using ascii_unspaced [OF assms(1)] c by simp
  from expr_no_number [OF c this, of "[]"] False show ?thesis
    by auto
next
  case True
  then obtain d cs where d: "unspaced input = digit d # cs" "0 \<le> d" "d < 10"
    using digit_of_char by (cases "unspaced input") auto
  have as: "ascii cs"
    using ascii_unspaced [OF assms(1)] d by simp
  show ?thesis
    using infix_split [of cs]
  proof (elim disjE exE conjE)
    fix ops rest
    assume h: "operations_ok ops" "cs = infix_text ops @ rest" "\<not> starts_with (set ''+-'') rest"
    have "stack_machine (digit d # postfix_text ops) [] = Some [infix_value d ops]"
      using stack_machine_postfix [OF h(1), of d "[]"] d by simp
    then show ?thesis
      using expr_expression [of input d ops rest "[]"] d h by (metis append_Nil)
  next
    fix ops op rest
    assume h: "operations_ok ops" "op \<in> set ''+-''" "cs = infix_text ops @ op # rest"
      "\<not> starts_with digit_chars rest"
    then show ?thesis
      using expr_missing_number [of input d ops op rest "[]"] d as
      by (metis append_Nil ascii_append ascii_Cons)
  qed
qed

lemma translation_uninitialised:
  assumes "unspaced input = []"
  shows "expr (translator_ctor input out) = None"
  using assms
  by (simp add: translator_ctor_def read_lookahead_end expr_def translate_term_def and_then_def)

subsection \<open>The loop of main\<close>

text \<open>When two expressions follow one another on the input, the first is translated, but its
  parser has read the first digit of the second one ahead and takes it along: if the second
  expression has an operator, the next parser finds this operator first and the program ends with
  a syntax error.\<close>

theorem main_loses_lookahead:
  assumes "unspaced input = digit d # infix_text ops @ digit e # infix_text (x # xs) @ rest"
    "0 \<le> d" "d < 10" "0 \<le> e" "e < 10" "operations_ok ops" "operations_ok (x # xs)"
  shows "\<exists>s. translator_main input [] = Some (runtime_error ''term: syntax error'', s)
    \<and> cout s = ''>>> '' @ digit d # postfix_text ops @ CHR 0x0A # ''>>> ''"
proof -
  obtain op f where x: "x = (op, f)" "op \<in> set ''+-''"
    using assms by (cases x) (simp del: list.set)
  have "digit e \<notin> set ''+-''"
    using operator_no_digit digit_in_chars assms by blast
  then obtain s where s: "expr (translator_ctor input ''>>> '') = Some (Inr s)"
    "cout s = ''>>> '' @ digit d # postfix_text ops" "unspaced (cin s) = op # digit f # infix_text xs @ rest"
    using expr_expression [of input d ops "digit e # infix_text (x # xs) @ rest" "''>>> ''"] assms x
    by (auto simp del: list.set)
  have "(of_char op :: nat) < 128"
    using x(2) by auto
  then obtain t where t: "expr (translator_ctor (cin s) (cout s @ CHR 0x0A # ''>>> '')) =
      Some (Inl (runtime_error ''term: syntax error'', t))"
    "cout t = cout s @ CHR 0x0A # ''>>> ''"
    using expr_no_number [OF s(3) operator_no_digit [OF x(2)]] by blast
  have "translator_main (cin s) (cout s @ [CHR 0x0A]) = Some (runtime_error ''term: syntax error'', t)"
    using t by (subst translator_main.simps) simp
  then show ?thesis
    using s t by (subst translator_main.simps) simp
qed

theorem translation_correct_witness:
  "ascii ''7 - 2 +5 1'' \<and> unspaced ''7 - 2 +5 1'' \<noteq> [] \<and>
   (\<exists>s. expr (translator_ctor ''7 - 2 +5 1'' []) = Some s)"
proof -
  have *: "ascii ''7 - 2 +5 1''" "unspaced ''7 - 2 +5 1'' \<noteq> []"
    by (simp_all add: ascii_def unspaced_def isspace_def)
  show ?thesis
    using * translation_correct [OF *] by blast
qed

theorem main_loses_lookahead_witness:
  "unspaced ''1+2 3-4'' = digit 1 # infix_text [(CHR ''+'', 2)] @ digit 3 # infix_text [(CHR ''-'', 4)] @ []
   \<and> (\<exists>s. translator_main ''1+2 3-4'' [] = Some (runtime_error ''term: syntax error'', s)
    \<and> cout s = ''>>> '' @ digit 1 # postfix_text [(CHR ''+'', 2)] @ CHR 0x0A # ''>>> '')"
proof -
  have *: "unspaced ''1+2 3-4'' =
      digit 1 # infix_text [(CHR ''+'', 2)] @ digit 3 # infix_text [(CHR ''-'', 4)] @ []"
    by (simp add: unspaced_def isspace_def digit_def)
  then show ?thesis
    using main_loses_lookahead [OF *] by simp
qed

end
