(* ===== verification/Expression_Tree.thy ===== *)
theory Expression_Tree
  imports Max_Subarray
begin

text \<open>
  The expression classes of \<^verbatim>\<open>yandex_tasks/other/expression.h\<close>: constants, sums and products with
  \<open>Evaluate\<close> and \<open>ToString\<close>. The abstract base class is not part of the sources; its two virtual
  functions are the two functions below, and a pointer to it is a value of the datatype. A product
  keeps two flags, set by its constructor, that tell which operand is a sum. \<open>Evaluate\<close> works on
  \<open>int\<close>, with \<open>None\<close> for signed overflow.

  The text is shown to be read back by a reader with the usual precedence to the value that
  \<open>Evaluate\<close> computes.
\<close>

subsection \<open>The classes\<close>

datatype Expression =
    Const_operation int
  | Sum_operation Expression Expression
  | Product_operation Expression Expression bool bool

definition int_mul :: "int \<Rightarrow> int \<Rightarrow> int option" where
  "int_mul a b = (if fits (a * b) then Some (a * b) else None)"

primrec Evaluate :: "Expression \<Rightarrow> int option" where
  "Evaluate (Const_operation v) = Some v"
| "Evaluate (Sum_operation l r) =
     Option.bind (Evaluate l) (\<lambda>a. Option.bind (Evaluate r) (\<lambda>b. int_add a b))"
| "Evaluate (Product_operation l r _ _) =
     Option.bind (Evaluate l) (\<lambda>a. Option.bind (Evaluate r) (\<lambda>b. int_mul a b))"

primrec ToString :: "Expression \<Rightarrow> string" where
  "ToString (Const_operation v) = std_to_string v"
| "ToString (Sum_operation l r) = ToString l @ '' + '' @ ToString r"
| "ToString (Product_operation l r lhs_braces_needed rhs_braces_needed) =
     (if lhs_braces_needed then ''('' @ ToString l @ '')'' else ToString l) @ '' * '' @
     (if rhs_braces_needed then ''('' @ ToString r @ '')'' else ToString r)"

fun is_sum :: "Expression \<Rightarrow> bool" where
  "is_sum (Sum_operation _ _) = True"
| "is_sum _ = False"

definition Sum :: "Expression \<Rightarrow> Expression \<Rightarrow> Expression" where
  "Sum l r = Sum_operation l r"

definition Product :: "Expression \<Rightarrow> Expression \<Rightarrow> Expression" where
  "Product l r = Product_operation l r (is_sum l) (is_sum r)"

definition Const :: "int \<Rightarrow> Expression" where
  "Const v = Const_operation v"

inductive built :: "Expression \<Rightarrow> bool" where
  built_const: "fits v \<Longrightarrow> built (Const v)"
| built_sum: "built l \<Longrightarrow> built r \<Longrightarrow> built (Sum l r)"
| built_product: "built l \<Longrightarrow> built r \<Longrightarrow> built (Product l r)"

primrec expression_value :: "Expression \<Rightarrow> int" where
  "expression_value (Const_operation v) = v"
| "expression_value (Sum_operation l r) = expression_value l + expression_value r"
| "expression_value (Product_operation l r _ _) = expression_value l * expression_value r"

lemma Evaluate_value: "Evaluate e = Some v \<Longrightarrow> v = expression_value e"
  by (induction e arbitrary: v) (auto simp: int_add_def int_mul_def split: if_splits)

subsection \<open>A reader for arithmetic texts\<close>

definition number_char :: "char \<Rightarrow> bool" where
  "number_char c \<longleftrightarrow> c \<in> set ''-0123456789''"

fun after :: "string \<Rightarrow> string \<Rightarrow> string option" where
  "after [] s = Some s"
| "after (c # p) [] = None"
| "after (c # p) (d # s) = (if c = d then after p s else None)"

fun read_sum :: "nat \<Rightarrow> string \<Rightarrow> (int \<times> string) option"
  and read_product :: "nat \<Rightarrow> string \<Rightarrow> (int \<times> string) option"
  and read_factor :: "nat \<Rightarrow> string \<Rightarrow> (int \<times> string) option" where
  "read_sum 0 s = None"
| "read_sum (Suc n) s = Option.bind (read_product n s) (\<lambda>(v, r). case after '' + '' r of
     None \<Rightarrow> Some (v, r)
   | Some r' \<Rightarrow> map_option (map_prod ((+) v) id) (read_sum n r'))"
| "read_product 0 s = None"
| "read_product (Suc n) s = Option.bind (read_factor n s) (\<lambda>(v, r). case after '' * '' r of
     None \<Rightarrow> Some (v, r)
   | Some r' \<Rightarrow> map_option (map_prod ((*) v) id) (read_product n r'))"
| "read_factor 0 s = None"
| "read_factor (Suc n) s = (case after ''('' s of
     None \<Rightarrow> if takeWhile number_char s = [] then None
        else Some (read_integer (takeWhile number_char s), dropWhile number_char s)
   | Some r \<Rightarrow> Option.bind (read_sum n r) (\<lambda>(v, r'). map_option (Pair v) (after '')'' r')))"

text \<open>With enough fuel the reader finds the value and the rest of the text.\<close>

definition reads :: "(nat \<Rightarrow> string \<Rightarrow> (int \<times> string) option) \<Rightarrow> string \<Rightarrow> int \<Rightarrow> string \<Rightarrow> bool" where
  "reads f s v r \<longleftrightarrow> (\<exists>N. \<forall>n\<ge>N. f n s = Some (v, r))"

lemma after_append [simp]: "after p (p @ s) = Some s"
  by (induction p) auto

lemma readsI: "(\<And>n. N \<le> n \<Longrightarrow> f (Suc n) s = Some (v, r)) \<Longrightarrow> reads f s v r"
  unfolding reads_def by (rule exI [of _ "Suc N"]) (metis Suc_le_D Suc_le_mono)

lemma factor_number:
  assumes "r = [] \<or> \<not> number_char (hd r)"
  shows "reads read_factor (std_to_string i @ r) i r"
proof (rule readsI [of 0])
  fix n :: nat
  have all: "\<forall>c\<in>set (std_to_string i). number_char c"
    using std_to_string_chars [of i] unfolding number_char_def by blast
  have "takeWhile number_char r = []" "dropWhile number_char r = r"
    using assms by (cases r; simp)+
  then have *: "takeWhile number_char (std_to_string i @ r) = std_to_string i"
    "dropWhile number_char (std_to_string i @ r) = r"
    using all by (simp_all add: takeWhile_append2 dropWhile_append2)
  obtain c cs where c: "std_to_string i = c # cs"
    by (cases "std_to_string i") (simp_all add: std_to_string_nonempty)
  then have "number_char c"
    using all by simp
  then have "after ''('' (std_to_string i @ r) = None"
    using c by (auto simp: number_char_def)
  then show "read_factor (Suc n) (std_to_string i @ r) = Some (i, r)"
    using * by simp
qed

lemma factor_brackets:
  assumes "reads read_sum s v (CHR '')'' # r)"
  shows "reads read_factor (CHR ''('' # s) v r"
proof -
  obtain N where "\<forall>n\<ge>N. read_sum n s = Some (v, CHR '')'' # r)"
    using assms by (auto simp: reads_def)
  then show ?thesis
    by (intro readsI [of N]) simp
qed

lemma product_one:
  assumes "reads read_factor s v r" "after '' * '' r = None"
  shows "reads read_product s v r"
proof -
  obtain N where "\<forall>n\<ge>N. read_factor n s = Some (v, r)"
    using assms by (auto simp: reads_def)
  then show ?thesis
    using assms(2) by (intro readsI [of N]) simp
qed

lemma product_more:
  assumes "reads read_factor s v ('' * '' @ r)" "reads read_product r w r'"
  shows "reads read_product s (v * w) r'"
proof -
  obtain N M where "\<forall>n\<ge>N. read_factor n s = Some (v, '' * '' @ r)"
    "\<forall>n\<ge>M. read_product n r = Some (w, r')"
    using assms unfolding reads_def by blast
  then show ?thesis
    by (intro readsI [of "max N M"]) simp
qed

lemma sum_one:
  assumes "reads read_product s v r" "after '' + '' r = None"
  shows "reads read_sum s v r"
proof -
  obtain N where "\<forall>n\<ge>N. read_product n s = Some (v, r)"
    using assms by (auto simp: reads_def)
  then show ?thesis
    using assms(2) by (intro readsI [of N]) simp
qed

lemma sum_more:
  assumes "reads read_product s v ('' + '' @ r)" "reads read_sum r w r'"
  shows "reads read_sum s (v + w) r'"
proof -
  obtain N M where "\<forall>n\<ge>N. read_product n s = Some (v, '' + '' @ r)"
    "\<forall>n\<ge>M. read_sum n r = Some (w, r')"
    using assms unfolding reads_def by blast
  then show ?thesis
    by (intro readsI [of "max N M"]) simp
qed

subsection \<open>Texts of expressions are read back\<close>

text \<open>What can follow an expression, and a summand.\<close>

definition closed :: "string \<Rightarrow> bool" where
  "closed r \<longleftrightarrow> r = [] \<or> hd r = CHR '')''"

definition product_end :: "string \<Rightarrow> bool" where
  "product_end r \<longleftrightarrow> closed r \<or> (\<exists>s. r = '' + '' @ s)"

lemma product_end_no_times: "product_end r \<Longrightarrow> after '' * '' r = None"
  by (cases r) (auto simp: product_end_def closed_def)

lemma closed_no_plus: "closed r \<Longrightarrow> after '' + '' r = None"
  by (cases r) (auto simp: closed_def)

lemma product_end_plus [simp]: "product_end ('' + '' @ s)"
  by (simp add: product_end_def)

definition reads_as_sum :: "string \<Rightarrow> int \<Rightarrow> bool" where
  "reads_as_sum s v \<longleftrightarrow> (\<forall>r. closed r \<longrightarrow> reads read_sum (s @ r) v r) \<and>
     (\<forall>r w r'. reads read_sum r w r' \<longrightarrow> reads read_sum (s @ '' + '' @ r) (v + w) r')"

definition reads_as_product :: "string \<Rightarrow> int \<Rightarrow> bool" where
  "reads_as_product s v \<longleftrightarrow> (\<forall>r. product_end r \<longrightarrow> reads read_product (s @ r) v r) \<and>
     (\<forall>r w r'. reads read_product r w r' \<longrightarrow> reads read_product (s @ '' * '' @ r) (v * w) r')"

lemma product_is_sum:
  assumes "reads_as_product s v"
  shows "reads_as_sum s v"
  unfolding reads_as_sum_def
proof (intro conjI allI impI)
  fix r assume "closed r"
  then show "reads read_sum (s @ r) v r"
    using assms by (intro sum_one closed_no_plus) (simp_all add: reads_as_product_def product_end_def)
next
  fix r w r' assume r: "reads read_sum r w r'"
  have "reads read_product (s @ '' + '' @ r) v ('' + '' @ r)"
    using assms product_end_plus unfolding reads_as_product_def by blast
  from sum_more [OF this r] show "reads read_sum (s @ '' + '' @ r) (v + w) r'" .
qed

lemma factor_is_product:
  assumes "\<And>r. product_end r \<or> (\<exists>t. r = '' * '' @ t) \<Longrightarrow> reads read_factor (s @ r) v r"
  shows "reads_as_product s v"
  unfolding reads_as_product_def
proof (intro conjI allI impI)
  fix r assume "product_end r"
  then show "reads read_product (s @ r) v r"
    using assms by (intro product_one product_end_no_times) simp_all
next
  fix r w r' assume r: "reads read_product r w r'"
  have "reads read_factor (s @ '' * '' @ r) v ('' * '' @ r)"
    using assms by blast
  from product_more [OF this r] show "reads read_product (s @ '' * '' @ r) (v * w) r'" .
qed

lemma number_is_product: "reads_as_product (std_to_string i) i"
proof (rule factor_is_product, rule factor_number)
  fix r assume "product_end r \<or> (\<exists>t. r = '' * '' @ t)"
  then show "r = [] \<or> \<not> number_char (hd r)"
    by (auto simp: product_end_def closed_def number_char_def)
qed

lemma brackets_are_product: "reads_as_sum s v \<Longrightarrow> reads_as_product (''('' @ s @ '')'') v"
  by (rule factor_is_product) (simp add: reads_as_sum_def closed_def factor_brackets)

lemma reads_as_sum_plus:
  "reads_as_sum s v \<Longrightarrow> reads_as_sum t w \<Longrightarrow> reads_as_sum (s @ '' + '' @ t) (v + w)"
  unfolding reads_as_sum_def by (simp add: add.assoc)

lemma reads_as_product_times:
  "reads_as_product s v \<Longrightarrow> reads_as_product t w \<Longrightarrow> reads_as_product (s @ '' * '' @ t) (v * w)"
  unfolding reads_as_product_def by (simp add: mult.assoc)

lemma text_of_built:
  "built e \<Longrightarrow> reads_as_sum (ToString e) (expression_value e) \<and>
     (\<not> is_sum e \<longrightarrow> reads_as_product (ToString e) (expression_value e))"
proof (induction rule: built.induct)
  case (built_const v)
  then show ?case
    using number_is_product by (simp add: Const_def product_is_sum)
next
  case (built_sum l r)
  then show ?case
    using reads_as_sum_plus by (simp add: Sum_def)
next
  case (built_product l r)
  have operand: "reads_as_product (if is_sum e then ''('' @ ToString e @ '')'' else ToString e) (expression_value e)"
    if "reads_as_sum (ToString e) (expression_value e) \<and>
     (\<not> is_sum e \<longrightarrow> reads_as_product (ToString e) (expression_value e))" for e
    using that brackets_are_product by simp
  have "reads_as_product (ToString (Product l r)) (expression_value (Product l r))"
    unfolding Product_def ToString.simps expression_value.simps
    using built_product.IH by (intro reads_as_product_times operand)
  then show ?case
    using product_is_sum by (simp add: Product_def)
qed

text \<open>C28: For every expression built from constants, sums and products whose evaluation does not
  overflow, the text that \<open>ToString\<close> returns is read back completely, under the usual precedence
  of the operators, to the number that \<open>Evaluate\<close> returns: brackets are never missing.\<close>

theorem ToString_reads_back:
  assumes "built e" "Evaluate e = Some v"
  shows "\<exists>N. \<forall>n\<ge>N. read_sum n (ToString e) = Some (v, [])"
proof -
  have "reads read_sum (ToString e @ []) (expression_value e) []"
    using text_of_built [OF assms(1)] unfolding reads_as_sum_def closed_def by blast
  then show ?thesis
    using Evaluate_value [OF assms(2)] by (simp add: reads_def)
qed

theorem ToString_reads_back_witness:
  "built (Product (Sum (Const 2) (Const (- 3))) (Const 4))
   \<and> Evaluate (Product (Sum (Const 2) (Const (- 3))) (Const 4)) = Some (- 4)
   \<and> ToString (Product (Sum (Const 2) (Const (- 3))) (Const 4)) = ''(2 + -3) * 4''
   \<and> (\<exists>N. \<forall>n\<ge>N. read_sum n ''(2 + -3) * 4'' = Some (- 4, []))"
proof -
  let ?e = "Product (Sum (Const 2) (Const (- 3))) (Const 4)"
  have b: "built ?e"
    by (intro built.intros) (simp_all add: fits_def)
  have v: "Evaluate ?e = Some (- 4)"
    by (simp add: Product_def Sum_def Const_def int_add_def int_mul_def fits_def)
  have t: "ToString ?e = ''(2 + -3) * 4''"
    by (simp add: Product_def Sum_def Const_def std_to_string_def decimal.simps digit_def)
  show ?thesis
    using b v t ToString_reads_back [OF b v] by simp
qed

end
