(* ===== verification/Open_Addressing.thy ===== *)
theory Open_Addressing
  imports Prelude
begin

text \<open>
  The hash table with open addressing of \<^verbatim>\<open>Sandbox/hashmap_open_addressing.hpp\<close>. Entries are their
  keys; the key 0 marks an empty slot and the key -1 a removed entry. \<open>std::hash\<close> is an arbitrary
  function into 64-bit words, and the sum of hash and probe counter wraps around as in the code.
  The loop of \<open>LinearProbe\<close> is a recursion over the values of its counter. \<open>Add\<close> calls \<open>Rehash\<close>,
  which calls \<open>Add\<close> for the entries of the old table; the loop of \<open>Rehash\<close> is \<open>reinsert\<close>, with \<open>Add\<close>
  as a parameter. \<open>None\<close> stands for a division by the table size zero, an access outside the table,
  the overflow of the doubled size, and a recursion that does not end. Everything written to the
  standard output is kept in the field \<open>console\<close>.
\<close>

subsection \<open>The class\<close>

record open_hashmap =
  TableSize :: nat
  Table :: "int list"
  CurrentSize :: int
  NeedsRehash :: bool
  console :: string

definition NotPresent :: nat where
  "NotPresent = 0"

definition Tomb :: int where
  "Tomb = - 1"

definition newline :: string where
  "newline = [CHR 0x0A]"

definition say :: "string \<Rightarrow> open_hashmap \<Rightarrow> open_hashmap" where
  "say s m = m\<lparr>console := console m @ s\<rparr>"

definition OpenAddressingHashMap_ctor :: "nat \<Rightarrow> open_hashmap" where
  "OpenAddressingHashMap_ctor Size = \<lparr>TableSize = Size, Table = replicate Size (int NotPresent),
     CurrentSize = 0, NeedsRehash = False, console = []\<rparr>"

definition MakeHashOf :: "(int \<Rightarrow> u64) \<Rightarrow> int \<Rightarrow> u64" where
  "MakeHashOf hash Key = hash Key"

definition PutProber :: "int \<Rightarrow> bool" where
  "PutProber E \<longleftrightarrow> E = int NotPresent \<or> E = Tomb"

definition SearchingProber :: "int \<Rightarrow> int \<Rightarrow> bool" where
  "SearchingProber E key \<longleftrightarrow> E = key"

definition probe :: "(int \<Rightarrow> u64) \<Rightarrow> nat \<Rightarrow> int \<Rightarrow> nat \<Rightarrow> nat" where
  "probe hash n Key I = unat (MakeHashOf hash Key + of_nat I) mod n"

fun probe_loop :: "(int \<Rightarrow> u64) \<Rightarrow> open_hashmap \<Rightarrow> int \<Rightarrow> bool \<Rightarrow> nat list \<Rightarrow> (nat \<times> string) option" where
  "probe_loop hash m Key IsSearching [] = Some (NotPresent, ''Linear probe failed'' @ newline)"
| "probe_loop hash m Key IsSearching (I # Is) = (let Index = probe hash (TableSize m) Key I in
     if length (Table m) \<le> Index then None
     else if IsSearching then
       if Table m ! Index = int NotPresent then Some (NotPresent, [])
       else if SearchingProber (Table m ! Index) Key then Some (Index, ''Found key!'' @ newline)
       else map_option (map_prod id (\<lambda>out. ''Found tombstone or equal hash, checking next'' @ newline @ out))
         (probe_loop hash m Key IsSearching Is)
     else
       if PutProber (Table m ! Index)
       then Some (Index, if NeedsRehash m then [] else ''Spot found!'' @ newline)
       else map_option (map_prod id (\<lambda>out.
           (if NeedsRehash m then [] else ''Spot taken, looking at next'' @ newline) @ out))
         (probe_loop hash m Key IsSearching Is))"

definition LinearProbe :: "(int \<Rightarrow> u64) \<Rightarrow> open_hashmap \<Rightarrow> int \<Rightarrow> bool \<Rightarrow> (nat \<times> string) option" where
  "LinearProbe hash m Key IsSearching =
     (if TableSize m = 0 then None else probe_loop hash m Key IsSearching [0..<TableSize m])"

definition load_exceeded :: "open_hashmap \<Rightarrow> bool" where
  "load_exceeded m \<longleftrightarrow> int (TableSize m) \<le> 2 * CurrentSize m"

primrec reinsert :: "(int \<Rightarrow> open_hashmap \<Rightarrow> open_hashmap option) \<Rightarrow> int list \<Rightarrow> open_hashmap \<Rightarrow>
    open_hashmap option" where
  "reinsert add [] m = Some m"
| "reinsert add (k # ks) m =
     (if k \<noteq> int NotPresent
      then Option.bind (add k (m\<lparr>CurrentSize := CurrentSize m - 1\<rparr>)) (reinsert add ks)
      else reinsert add ks m)"

definition RehashTable :: "(int \<Rightarrow> open_hashmap \<Rightarrow> open_hashmap option) \<Rightarrow> open_hashmap \<Rightarrow> open_hashmap option" where
  "RehashTable add m =
     (if 2 ^ 31 \<le> 2 * TableSize m then None
      else Option.bind
        (reinsert add (Table m) (m\<lparr>NeedsRehash := True, TableSize := 2 * TableSize m,
           Table := replicate (2 * TableSize m) (int NotPresent)\<rparr>))
        (\<lambda>m'. Some (say (''Table was rehashed, new size is: '' @ std_to_string (int (TableSize m')) @ newline)
           (m'\<lparr>NeedsRehash := False\<rparr>))))"

lemma reinsert_mono [partial_function_mono]:
  assumes "\<And>k m. mono_option (\<lambda>f. add f k m)"
  shows "mono_option (\<lambda>f. reinsert (add f) ks m)"
proof (induction ks arbitrary: m)
  case Nil
  show ?case
    by (simp add: option.const_mono)
next
  case (Cons k ks)
  show ?case
    unfolding reinsert.simps
    by (intro if_mono bind_mono assms Cons.IH)
qed

lemma RehashTable_mono [partial_function_mono]:
  assumes "\<And>k m. mono_option (\<lambda>f. add f k m)"
  shows "mono_option (\<lambda>f. RehashTable (add f) m)"
  unfolding RehashTable_def
  by (intro if_mono bind_mono option.const_mono reinsert_mono assms)

partial_function (option) Add :: "(int \<Rightarrow> u64) \<Rightarrow> int \<Rightarrow> open_hashmap \<Rightarrow> open_hashmap option" where
  "Add hash Key m = Option.bind (LinearProbe hash m Key False) (\<lambda>(Index, out).
     let m1 = say out (m\<lparr>Table := (Table m)[Index := Key], CurrentSize := CurrentSize m + 1\<rparr>) in
     if load_exceeded m1 then RehashTable (\<lambda>k t. Add hash k t) m1 else Some m1)"

definition Remove :: "(int \<Rightarrow> u64) \<Rightarrow> int \<Rightarrow> open_hashmap \<Rightarrow> open_hashmap option" where
  "Remove hash Key m = Option.bind (LinearProbe hash m Key True) (\<lambda>(Index, out).
     if Index = NotPresent then Some (say (out @ ''key not found'' @ newline) m)
     else Some (say (out @ ''Removal Successful, leaving tomb'' @ newline)
       (m\<lparr>Table := (Table m)[Index := Tomb], CurrentSize := CurrentSize m - 1\<rparr>)))"

definition FindEntry :: "(int \<Rightarrow> u64) \<Rightarrow> int \<Rightarrow> open_hashmap \<Rightarrow> (int \<times> open_hashmap) option" where
  "FindEntry hash Key m = Option.bind (LinearProbe hash m Key True) (\<lambda>(Index, out).
     if length (Table m) \<le> Index then None
     else Some (Table m ! Index,
       say (out @ (if Table m ! Index = int NotPresent then ''Key not present'' else [])) m))"

definition entry_text :: "int \<Rightarrow> string" where
  "entry_text E = (if E = int NotPresent then '' Empty '' else if E = Tomb then '' Tomb ''
     else '' '' @ std_to_string E @ '' '')"

definition display :: "open_hashmap \<Rightarrow> open_hashmap" where
  "display m = say (concat (map entry_text (take (TableSize m) (Table m))) @ newline) m"

definition show_hash :: "(int \<Rightarrow> u64) \<Rightarrow> int \<Rightarrow> string \<Rightarrow> open_hashmap \<Rightarrow> open_hashmap option" where
  "show_hash hash Key equals m = (if TableSize m = 0 then None else Some (say
     (newline @ ''hash of '' @ std_to_string Key @ '' is '' @ std_to_string (uint (MakeHashOf hash Key))
      @ '' % '' @ std_to_string (int (TableSize m)) @ equals
      @ std_to_string (uint (MakeHashOf hash Key) mod int (TableSize m)) @ newline) m))"

definition addInfo :: "(int \<Rightarrow> u64) \<Rightarrow> int \<Rightarrow> open_hashmap \<Rightarrow> open_hashmap option" where
  "addInfo hash Key m = do {
     m \<leftarrow> show_hash hash Key '' = '' (display (say ''Initial table: '' m));
     m \<leftarrow> Add hash Key m;
     Some (display (say ''New table: '' m))
   }"

definition RemovalInfo :: "(int \<Rightarrow> u64) \<Rightarrow> int \<Rightarrow> open_hashmap \<Rightarrow> open_hashmap option" where
  "RemovalInfo hash key m = do {
     m \<leftarrow> show_hash hash key '' == '' (display (say ''Initial table: '' m));
     m \<leftarrow> Remove hash key m;
     Some (display (say ''New table: '' m))
   }"

subsection \<open>Probing\<close>

definition ordinary :: "int \<Rightarrow> bool" where
  "ordinary k \<longleftrightarrow> k \<noteq> 0 \<and> k \<noteq> - 1"

definition keys :: "open_hashmap \<Rightarrow> int multiset" where
  "keys m = filter_mset ordinary (mset (Table m))"

lemma PutProber_ordinary [simp]: "PutProber E \<longleftrightarrow> \<not> ordinary E"
  by (auto simp: PutProber_def ordinary_def NotPresent_def Tomb_def)

lemma say_simps [simp]:
  "TableSize (say s m) = TableSize m" "Table (say s m) = Table m"
  "CurrentSize (say s m) = CurrentSize m" "NeedsRehash (say s m) = NeedsRehash m"
  by (simp_all add: say_def)

lemma probe_less [simp]: "0 < n \<Longrightarrow> probe hash n k i < n"
  by (simp add: probe_def)

lemma probe_not_le [simp]: "0 < n \<Longrightarrow> \<not> n \<le> probe hash n k i"
  by (simp add: not_le)

lemma put_loop:
  assumes "length (Table m) = TableSize m" "0 < TableSize m"
  shows "\<exists>out. probe_loop hash m k False Is = Some
    (case List.find (\<lambda>i. \<not> ordinary (Table m ! probe hash (TableSize m) k i)) Is of
       None \<Rightarrow> 0 | Some i \<Rightarrow> probe hash (TableSize m) k i, out)"
  using assms by (induction Is) (auto simp: Let_def NotPresent_def)

lemma search_loop:
  assumes "length (Table m) = TableSize m" "0 < TableSize m"
  shows "\<exists>out. probe_loop hash m k True Is = Some
    (case List.find (\<lambda>i. Table m ! probe hash (TableSize m) k i \<in> {0, k}) Is of
       None \<Rightarrow> 0
     | Some i \<Rightarrow> if Table m ! probe hash (TableSize m) k i = 0 then 0 else probe hash (TableSize m) k i, out)"
  using assms by (induction Is) (auto simp: Let_def NotPresent_def SearchingProber_def)

text \<open>Even when the sum of hash and counter wraps around, the counters reach half of the slots.\<close>

lemma shifted_mod_eq:
  assumes "x \<le> y" "y < n" "(a + x) mod n = (a + y) mod (n::nat)"
  shows "x = y"
proof -
  have "n dvd y - x"
    using assms mod_eq_dvd_iff_nat [of "a + x" "a + y" n] by simp
  moreover have "y - x < n"
    using assms by simp
  ultimately have "y - x = 0"
    using nat_dvd_not_less [of "y - x" n] by blast
  then show ?thesis
    using assms by simp
qed

lemma inj_on_shifted_mod: "inj_on (\<lambda>i. (a + i) mod n) {..<n::nat}"
  by (rule linorder_inj_onI) (auto dest: shifted_mod_eq [OF less_imp_le])

lemma hash_bound: "unat ((hash :: int \<Rightarrow> u64) k) < 2 ^ 64"
  using unsigned_less [of "hash k"] by simp

lemma probe_before_wrap:
  assumes "unat (hash k) + i < 2 ^ 64"
  shows "probe hash n k i = (unat (hash k) + i) mod n"
proof -
  have "unat (hash k + of_nat i) = unat (hash k) + i"
    using assms by (subst unat_add_lem [THEN iffD1]) (simp_all add: unat_of_nat take_bit_nat_eq_self)
  then show ?thesis
    by (simp add: probe_def MakeHashOf_def)
qed

lemma probe_after_wrap:
  assumes "2 ^ 64 \<le> unat (hash k) + i" "i < n" "n \<le> 2 ^ 64"
  shows "probe hash n k i = unat (hash k) + i - 2 ^ 64"
proof -
  have "unat (hash k + of_nat i) = (unat (hash k) + i) mod 2 ^ 64"
    by (simp add: unat_word_ariths unat_of_nat take_bit_eq_mod mod_simps)
  moreover have "unat (hash k) + i - 2 ^ 64 < n"
    using assms hash_bound [of hash k] by simp
  moreover have "(unat (hash k) + i) mod 2 ^ 64 = unat (hash k) + i - 2 ^ 64"
    using assms hash_bound [of hash k] by (subst le_mod_geq) simp_all
  ultimately show ?thesis
    by (simp add: probe_def MakeHashOf_def)
qed

lemma probe_reaches_half:
  assumes "n \<le> 2 ^ 64"
  shows "n \<le> 2 * card (probe hash n k ` {..<n})"
proof -
  define H where "H = unat (hash k)"
  let ?S = "probe hash n k ` {..<n}" and ?w = "min n (2 ^ 64 - H)"
  have H: "H < 2 ^ 64"
    using hash_bound [of hash k] by (simp add: H_def)
  have "inj_on (\<lambda>i. (H + i) mod n) {..<?w}"
    by (rule inj_on_subset [OF inj_on_shifted_mod]) auto
  then have "inj_on (probe hash n k) {..<?w}"
    by (rule inj_on_cong [THEN iffD1, rotated]) (auto simp: probe_before_wrap H_def)
  then have "?w = card (probe hash n k ` {..<?w})"
    by (simp add: card_image)
  also have "\<dots> \<le> card ?S"
    by (intro card_mono) auto
  finally have a: "?w \<le> card ?S" .
  have "inj_on (\<lambda>i. H + i - 2 ^ 64) {?w..<n}"
    by (rule inj_onI) (auto split: if_splits simp: min_def)
  then have "inj_on (probe hash n k) {?w..<n}"
    by (rule inj_on_cong [THEN iffD1, rotated])
      (use assms in \<open>auto simp: probe_after_wrap H_def min_def split: if_splits\<close>)
  then have "n - ?w = card (probe hash n k ` {?w..<n})"
    by (simp add: card_image)
  also have "\<dots> \<le> card ?S"
    by (intro card_mono) auto
  finally show ?thesis
    using a by linarith
qed


subsection \<open>The invariant\<close>

text \<open>Every entry lies on the probe sequence of its key, with no empty slot in front of it.\<close>

definition on_path :: "(int \<Rightarrow> u64) \<Rightarrow> int list \<Rightarrow> int \<Rightarrow> nat \<Rightarrow> bool" where
  "on_path hash T k j \<longleftrightarrow> (\<exists>i < length T. probe hash (length T) k i = j \<and>
     (\<forall>i' < i. T ! probe hash (length T) k i' \<noteq> 0))"

definition placed :: "(int \<Rightarrow> u64) \<Rightarrow> open_hashmap \<Rightarrow> bool" where
  "placed hash m \<longleftrightarrow> length (Table m) = TableSize m \<and> 0 < TableSize m \<and> TableSize m < 2 ^ 31 \<and>
     (\<forall>j < TableSize m. ordinary (Table m ! j) \<longrightarrow> on_path hash (Table m) (Table m ! j) j)"

lemma on_path_update:
  assumes "on_path hash T k j" "v \<noteq> 0"
  shows "on_path hash (T[x := v]) k j"
proof -
  obtain i where "i < length T" "probe hash (length T) k i = j"
    "\<forall>i' < i. T ! probe hash (length T) k i' \<noteq> 0"
    using assms(1) by (auto simp: on_path_def)
  moreover have "T[x := v] ! y \<noteq> 0" if "T ! y \<noteq> 0" "y < length T" for y
    using that assms(2) by (cases "x = y") simp_all
  ultimately show ?thesis
    unfolding on_path_def by (intro exI [of _ i]) (auto simp: length_greater_0_conv [symmetric] simp del: length_greater_0_conv)
qed

lemma keys_update:
  assumes "x < length T"
  shows "filter_mset ordinary (mset (T[x := v])) =
    filter_mset ordinary (mset T) - (if ordinary (T ! x) then {#T ! x#} else {#})
      + (if ordinary v then {#v#} else {#})"
  using assms by (simp add: mset_update)

lemma card_ordinary: "card {j. j < length T \<and> ordinary (T ! j)} = size (filter_mset ordinary (mset T))"
  by (simp add: mset_filter [symmetric] length_filter_conv_card del: mset_filter)

lemma free_slot:
  assumes "length (Table m) = TableSize m" "TableSize m \<le> 2 ^ 64" "2 * size (keys m) < TableSize m"
  shows "\<exists>i < TableSize m. \<not> ordinary (Table m ! probe hash (TableSize m) k i)"
proof (rule ccontr)
  assume none: "\<not> ?thesis"
  let ?n = "TableSize m"
  have "probe hash ?n k ` {..<?n} \<subseteq> {j. j < length (Table m) \<and> ordinary (Table m ! j)}"
    using none assms by auto
  then have "card (probe hash ?n k ` {..<?n}) \<le> size (keys m)"
    unfolding keys_def card_ordinary [symmetric] by (intro card_mono) auto
  then show False
    using probe_reaches_half [OF assms(2), of hash k] assms(3) by linarith
qed

text \<open>\<open>LinearProbe\<close> finds a slot to put a key, and the slot of a key that is there.\<close>

lemma LinearProbe_put:
  assumes "placed hash m" "2 * size (keys m) < TableSize m"
  shows "\<exists>j out. LinearProbe hash m k False = Some (j, out) \<and> j < TableSize m
    \<and> \<not> ordinary (Table m ! j) \<and> on_path hash (Table m) k j"
proof -
  let ?n = "TableSize m" and ?P = "\<lambda>i. \<not> ordinary (Table m ! probe hash (TableSize m) k i)"
  have m: "length (Table m) = ?n" "0 < ?n" "?n < 2 ^ 31"
    using assms(1) by (simp_all add: placed_def)
  obtain i where i: "i < ?n" "?P i"
    using free_slot [of m hash k] m assms(2) by auto
  then obtain x where x: "List.find ?P [0..<?n] = Some x"
    by (cases "List.find ?P [0..<?n]") (auto simp: find_None_iff)
  then have x': "x < ?n" "?P x" "\<forall>y < x. \<not> ?P y"
    by (auto simp: find_Some_iff)
  then have "on_path hash (Table m) k (probe hash ?n k x)"
    unfolding on_path_def using m by (auto simp: ordinary_def intro!: exI [of _ x])
  then show ?thesis
    using put_loop [OF m(1,2), of hash k "[0..<?n]"] x x' m by (auto simp: LinearProbe_def)
qed

lemma LinearProbe_search:
  assumes "placed hash m" "ordinary k"
  shows "\<exists>j out. LinearProbe hash m k True = Some (j, out) \<and> j < TableSize m
    \<and> (if k \<in># keys m then Table m ! j = k \<and> (\<exists>i < TableSize m. probe hash (TableSize m) k i = j \<and>
          (\<forall>i' < i. Table m ! probe hash (TableSize m) k i' \<notin> {0, k})) else j = 0)"
proof -
  let ?n = "TableSize m" and ?P = "\<lambda>i. Table m ! probe hash (TableSize m) k i \<in> {0, k}"
  have m: "length (Table m) = ?n" "0 < ?n"
    using assms(1) by (simp_all add: placed_def)
  have found: "k \<in># keys m \<longleftrightarrow> (\<exists>x. List.find ?P [0..<?n] = Some x \<and> Table m ! probe hash ?n k x = k)"
  proof
    assume "k \<in># keys m"
    then obtain j where j: "j < ?n" "Table m ! j = k"
      using m by (auto simp: keys_def in_set_conv_nth)
    then obtain i where i: "i < ?n" "probe hash ?n k i = j"
      "\<forall>i' < i. Table m ! probe hash ?n k i' \<noteq> 0"
      using assms m by (auto simp: placed_def on_path_def)
    then have "?P i" using j by simp
    then obtain x where x: "List.find ?P [0..<?n] = Some x"
      using i(1) by (cases "List.find ?P [0..<?n]") (auto simp: find_None_iff)
    then have x': "?P x" "\<forall>y < x. \<not> ?P y"
      by (auto simp: find_Some_iff)
    then have "x \<le> i"
      using \<open>?P i\<close> by (meson not_le)
    then have "Table m ! probe hash ?n k x = k"
      using x' i j by (cases "x = i") auto
    then show "\<exists>x. List.find ?P [0..<?n] = Some x \<and> Table m ! probe hash ?n k x = k"
      using x by blast
  next
    assume "\<exists>x. List.find ?P [0..<?n] = Some x \<and> Table m ! probe hash ?n k x = k"
    then show "k \<in># keys m"
      using m assms(2) by (auto simp: keys_def in_set_conv_nth intro: probe_less)
  qed
  show ?thesis
  proof (cases "List.find ?P [0..<?n]")
    case None
    then show ?thesis
      using search_loop [OF m, of hash k "[0..<?n]"] found m by (auto simp: LinearProbe_def)
  next
    case (Some x)
    then have "?P x" "x < ?n" "\<forall>i < x. \<not> ?P i"
      by (auto simp: find_Some_iff)
    then show ?thesis
      using search_loop [OF m, of hash k "[0..<?n]"] found Some m assms(2)
      by (auto simp: LinearProbe_def ordinary_def)
  qed
qed

subsection \<open>Add, Remove and Find\<close>

lemma placed_update:
  assumes "placed hash m" "j < TableSize m" "v \<noteq> 0" "ordinary v \<Longrightarrow> on_path hash (Table m) v j"
    "Table m' = (Table m)[j := v]" "TableSize m' = TableSize m"
  shows "placed hash m'"
  unfolding placed_def
proof (intro conjI allI impI)
  fix x assume x: "x < TableSize m'" "ordinary (Table m' ! x)"
  have "on_path hash (Table m) (Table m' ! x) x"
    using assms x by (cases "x = j") (simp_all add: placed_def)
  then show "on_path hash (Table m') (Table m' ! x) x"
    using on_path_update [of hash "Table m" "Table m' ! x" x v j] assms by simp
qed (use assms in \<open>simp_all add: placed_def\<close>)

text \<open>The part of \<open>Add\<close> in front of the test of the load factor.\<close>

lemma Add_put:
  assumes "placed hash m" "2 * size (keys m) < TableSize m" "k \<noteq> 0"
  shows "\<exists>m1. placed hash m1 \<and> TableSize m1 = TableSize m \<and> CurrentSize m1 = CurrentSize m + 1
    \<and> keys m1 = keys m + (if ordinary k then {#k#} else {#})
    \<and> Add hash k m = (if load_exceeded m1 then RehashTable (Add hash) m1 else Some m1)"
proof -
  obtain j out where j: "LinearProbe hash m k False = Some (j, out)" "j < TableSize m"
    "\<not> ordinary (Table m ! j)" "on_path hash (Table m) k j"
    using LinearProbe_put [OF assms(1,2), of k] by blast
  define m1 where "m1 = say out (m\<lparr>Table := (Table m)[j := k], CurrentSize := CurrentSize m + 1\<rparr>)"
  have "placed hash m1"
    using placed_update [OF assms(1) j(2) assms(3)] j(4) by (simp add: m1_def)
  moreover have "keys m1 = keys m + (if ordinary k then {#k#} else {#})"
    using j assms(1) by (simp add: m1_def keys_def keys_update placed_def)
  moreover have "Add hash k m = (if load_exceeded m1 then RehashTable (Add hash) m1 else Some m1)"
    using j(1) by (subst Add.simps) (simp add: m1_def Let_def)
  ultimately show ?thesis
    by (intro exI [of _ m1]) (simp add: m1_def)
qed

lemma reinsert_correct:
  assumes "placed hash m" "int (size (keys m) + size (filter_mset ordinary (mset ks))) \<le> CurrentSize m"
    "2 * CurrentSize m < int (TableSize m)"
  shows "\<exists>m'. reinsert (Add hash) ks m = Some m' \<and> placed hash m' \<and> TableSize m' = TableSize m
    \<and> CurrentSize m' = CurrentSize m \<and> keys m' = keys m + filter_mset ordinary (mset ks)"
  using assms
proof (induction ks arbitrary: m)
  case (Cons k ks)
  show ?case
  proof (cases "k = 0")
    case True
    then show ?thesis
      using Cons by (simp add: NotPresent_def ordinary_def)
  next
    case False
    define m0 where "m0 = m\<lparr>CurrentSize := CurrentSize m - 1\<rparr>"
    have m0: "placed hash m0" "keys m0 = keys m" "TableSize m0 = TableSize m"
      "CurrentSize m0 = CurrentSize m - 1"
      using Cons.prems(1) by (simp_all add: m0_def placed_def keys_def)
    have "2 * size (keys m0) < TableSize m0"
      using Cons.prems m0 by simp
    from Add_put [OF m0(1) this False] m0 obtain m1 where m1: "placed hash m1"
      "TableSize m1 = TableSize m" "CurrentSize m1 = CurrentSize m"
      "keys m1 = keys m + (if ordinary k then {#k#} else {#})"
      "Add hash k m0 = (if load_exceeded m1 then RehashTable (Add hash) m1 else Some m1)"
      by auto
    have "Add hash k m0 = Some m1"
      using m1 Cons.prems(3) by (simp add: load_exceeded_def)
    moreover have "\<exists>m'. reinsert (Add hash) ks m1 = Some m' \<and> placed hash m' \<and> TableSize m' = TableSize m1
      \<and> CurrentSize m' = CurrentSize m1 \<and> keys m' = keys m1 + filter_mset ordinary (mset ks)"
      using m1 Cons.prems by (intro Cons.IH) (auto split: if_splits)
    ultimately show ?thesis
      using False m1 by (auto simp: NotPresent_def m0_def)
  qed
qed simp

lemma RehashTable_correct:
  assumes "placed hash m" "CurrentSize m = int (size (keys m))" "CurrentSize m < int (TableSize m)"
    "2 * TableSize m < 2 ^ 31"
  shows "\<exists>m'. RehashTable (Add hash) m = Some m' \<and> placed hash m' \<and> TableSize m' = 2 * TableSize m
    \<and> CurrentSize m' = CurrentSize m \<and> keys m' = keys m"
proof -
  define m0 where "m0 = m\<lparr>NeedsRehash := True, TableSize := 2 * TableSize m,
    Table := replicate (2 * TableSize m) (int NotPresent)\<rparr>"
  have m0: "placed hash m0" "keys m0 = {#}" "TableSize m0 = 2 * TableSize m" "CurrentSize m0 = CurrentSize m"
    using assms by (auto simp: m0_def placed_def keys_def ordinary_def NotPresent_def)
  have "\<exists>m'. reinsert (Add hash) (Table m) m0 = Some m' \<and> placed hash m' \<and> TableSize m' = TableSize m0
    \<and> CurrentSize m' = CurrentSize m0 \<and> keys m' = keys m0 + filter_mset ordinary (mset (Table m))"
    using m0 assms by (intro reinsert_correct) (simp_all add: keys_def)
  then obtain m' where m': "reinsert (Add hash) (Table m) m0 = Some m'" "placed hash m'"
    "TableSize m' = 2 * TableSize m" "CurrentSize m' = CurrentSize m" "keys m' = keys m"
    using m0 by (auto simp: keys_def)
  then show ?thesis
    using assms(4) by (simp add: RehashTable_def m0_def) (simp add: placed_def keys_def)
qed

text \<open>The state between two calls. \<open>B\<close> bounds the size of the table, and \<open>b\<close> is the number of further
  additions for which the bound is known to suffice.\<close>

definition hashmap_ok :: "(int \<Rightarrow> u64) \<Rightarrow> nat \<Rightarrow> nat \<Rightarrow> open_hashmap \<Rightarrow> bool" where
  "hashmap_ok hash B b m \<longleftrightarrow> placed hash m \<and> 2 \<le> TableSize m \<and> CurrentSize m = int (size (keys m))
     \<and> 2 * CurrentSize m < int (TableSize m) \<and> TableSize m \<le> B \<and> B < 2 ^ 31
     \<and> 4 * (size (keys m) + b) \<le> B"

lemma Add_correct:
  assumes "hashmap_ok hash B (Suc b) m" "ordinary k"
  shows "\<exists>m'. Add hash k m = Some m' \<and> hashmap_ok hash B b m' \<and> keys m' = add_mset k (keys m)"
proof -
  have m: "placed hash m" "2 * size (keys m) < TableSize m" "CurrentSize m = int (size (keys m))"
    "2 \<le> TableSize m" "TableSize m \<le> B" "B < 2 ^ 31" "4 * (size (keys m) + Suc b) \<le> B" "k \<noteq> 0"
    using assms by (auto simp: hashmap_ok_def ordinary_def)
  obtain m1 where m1: "placed hash m1" "TableSize m1 = TableSize m" "CurrentSize m1 = CurrentSize m + 1"
    "keys m1 = add_mset k (keys m)"
    "Add hash k m = (if load_exceeded m1 then RehashTable (Add hash) m1 else Some m1)"
    using Add_put [OF m(1,2,8)] assms(2) by auto
  show ?thesis
  proof (cases "load_exceeded m1")
    case False
    then show ?thesis
      using m m1 by (auto simp: hashmap_ok_def load_exceeded_def)
  next
    case True
    then have "TableSize m \<le> 2 * (size (keys m) + 1)"
      using m1 m by (simp add: load_exceeded_def)
    then show ?thesis
      using RehashTable_correct [OF m1(1)] True m m1 by (auto simp: hashmap_ok_def)
  qed
qed

lemma FindEntry_correct:
  assumes "placed hash m" "ordinary k"
  shows "\<exists>m'. FindEntry hash k m = Some (if k \<in># keys m then k else Table m ! 0, m')
    \<and> Table m' = Table m \<and> TableSize m' = TableSize m \<and> CurrentSize m' = CurrentSize m"
proof -
  obtain j out where j: "LinearProbe hash m k True = Some (j, out)" "j < TableSize m"
    "if k \<in># keys m then Table m ! j = k else j = 0"
    using LinearProbe_search [OF assms] by (cases "k \<in># keys m") (simp only: if_True if_False; blast)+
  have "Table m ! j = (if k \<in># keys m then k else Table m ! 0)" "\<not> length (Table m) \<le> j"
    using j assms(1) by (simp_all add: placed_def split: if_splits)
  then show ?thesis
    using j(1) by (simp add: FindEntry_def)
qed

text \<open>\<open>Remove\<close> takes the index 0 for a failure, so it refuses a key whose probe sequence meets it in slot 0
  first: \<open>in_slot_zero\<close>. Every other key in the table is removed once.\<close>

definition in_slot_zero :: "(int \<Rightarrow> u64) \<Rightarrow> open_hashmap \<Rightarrow> int \<Rightarrow> bool" where
  "in_slot_zero hash m k \<longleftrightarrow> Table m ! 0 = k \<and> (\<exists>i < TableSize m. probe hash (TableSize m) k i = 0 \<and>
     (\<forall>i' < i. Table m ! probe hash (TableSize m) k i' \<notin> {0, k}))"

lemma in_slot_zero_probe:
  assumes "Table m ! j = k" "i < TableSize m" "probe hash (TableSize m) k i = j"
    "\<forall>i' < i. Table m ! probe hash (TableSize m) k i' \<notin> {0, k}"
  shows "in_slot_zero hash m k \<longleftrightarrow> j = 0"
proof
  assume "in_slot_zero hash m k"
  then obtain i0 where i0: "probe hash (TableSize m) k i0 = 0" "Table m ! 0 = k"
      "\<forall>i' < i0. Table m ! probe hash (TableSize m) k i' \<notin> {0, k}"
    by (auto simp: in_slot_zero_def)
  have "i = i0"
    using i0 assms by (metis insertCI linorder_neqE_nat)
  then show "j = 0"
    using i0(1) assms(3) by simp
qed (use assms in \<open>auto simp: in_slot_zero_def\<close>)

lemma Remove_correct:
  assumes "placed hash m" "ordinary k"
  shows "\<exists>m'. Remove hash k m = Some m' \<and> placed hash m' \<and> TableSize m' = TableSize m \<and>
    keys m' = (if in_slot_zero hash m k then keys m else keys m - {#k#}) \<and>
    CurrentSize m' - int (size (keys m')) = CurrentSize m - int (size (keys m))"
proof -
  obtain j out where j: "LinearProbe hash m k True = Some (j, out)" "j < TableSize m"
    "k \<in># keys m \<Longrightarrow> Table m ! j = k \<and> in_slot_zero hash m k = (j = 0)" "k \<notin># keys m \<Longrightarrow> j = 0"
  proof -
    obtain j out where j: "LinearProbe hash m k True = Some (j, out)" "j < TableSize m"
        "if k \<in># keys m then Table m ! j = k \<and> (\<exists>i < TableSize m. probe hash (TableSize m) k i = j \<and>
          (\<forall>i' < i. Table m ! probe hash (TableSize m) k i' \<notin> {0, k})) else j = 0"
      using LinearProbe_search [OF assms] by blast
    show thesis
    proof (rule that [OF j(1, 2)])
      assume "k \<in># keys m"
      with j(3) obtain i where "Table m ! j = k" "i < TableSize m" "probe hash (TableSize m) k i = j"
          "\<forall>i' < i. Table m ! probe hash (TableSize m) k i' \<notin> {0, k}"
        by (simp only: if_True) blast
      then show "Table m ! j = k \<and> in_slot_zero hash m k = (j = 0)"
        using in_slot_zero_probe by blast
    qed (use j(3) in simp)
  qed
  show ?thesis
  proof (cases "j = 0")
    case True
    have "k \<notin># keys m \<Longrightarrow> keys m - {#k#} = keys m"
      by (rule diff_single_trivial)
    then show ?thesis
      using True j assms by (cases "k \<in># keys m") (auto simp: Remove_def NotPresent_def placed_def keys_def)
  next
    case False
    then have k: "k \<in># keys m" "Table m ! j = k" "\<not> in_slot_zero hash m k"
      using j(3, 4) by auto
    define m' where "m' = say (out @ ''Removal Successful, leaving tomb'' @ newline)
       (m\<lparr>Table := (Table m)[j := Tomb], CurrentSize := CurrentSize m - 1\<rparr>)"
    have "placed hash m'"
      using placed_update [OF assms(1) j(2), of Tomb m'] by (simp add: m'_def Tomb_def ordinary_def)
    moreover have "keys m' = keys m - {#k#}"
      using j k assms by (simp add: m'_def keys_def keys_update placed_def Tomb_def ordinary_def)
    moreover have "size (keys m) = Suc (size (keys m - {#k#}))"
      using k(1) by (metis size_Suc_Diff1)
    ultimately show ?thesis
      using False j(1) k by (intro exI [of _ m']) (simp add: Remove_def NotPresent_def m'_def)
  qed
qed


subsection \<open>Sequences of calls\<close>

datatype bag_call = Call_add int | Call_remove int

fun run_calls :: "(int \<Rightarrow> 't \<Rightarrow> 't option) \<Rightarrow> (int \<Rightarrow> 't \<Rightarrow> 't option) \<Rightarrow> bag_call list \<Rightarrow> 't \<Rightarrow> 't option" where
  "run_calls add remove [] t = Some t"
| "run_calls add remove (Call_add k # cs) t = Option.bind (add k t) (run_calls add remove cs)"
| "run_calls add remove (Call_remove k # cs) t = Option.bind (remove k t) (run_calls add remove cs)"

fun call_key :: "bag_call \<Rightarrow> int" where
  "call_key (Call_add k) = k"
| "call_key (Call_remove k) = k"

fun added :: "bag_call list \<Rightarrow> int list" where
  "added [] = []"
| "added (Call_add k # cs) = k # added cs"
| "added (Call_remove k # cs) = added cs"

fun removed :: "bag_call list \<Rightarrow> int list" where
  "removed [] = []"
| "removed (Call_add k # cs) = removed cs"
| "removed (Call_remove k # cs) = k # removed cs"

text \<open>What a call does to the keys, when \<open>refused\<close> says that the removal of its key is refused.\<close>

fun call_effect :: "(int \<Rightarrow> bool) \<Rightarrow> bag_call \<Rightarrow> int multiset \<Rightarrow> int multiset" where
  "call_effect refused (Call_add k) B = add_mset k B"
| "call_effect refused (Call_remove k) B = (if refused k then B else B - {#k#})"

lemma run_calls_append:
  "run_calls add remove (cs @ ds) t = Option.bind (run_calls add remove cs t) (run_calls add remove ds)"
  by (induction add remove cs t rule: run_calls.induct) (simp_all split: Option.bind_split)

lemma added_append [simp]: "added (cs @ ds) = added cs @ added ds"
  by (induction cs rule: added.induct) simp_all

text \<open>What a bag promises that may refuse a removal: \<open>ok b\<close> is its invariant when \<open>b\<close> more elements
  fit, \<open>refuses t k\<close> says that \<open>t\<close> refuses to remove \<open>k\<close>.\<close>

locale refusing_bag =
  fixes ok :: "nat \<Rightarrow> 't \<Rightarrow> bool"
    and contents :: "'t \<Rightarrow> int multiset"
    and valid :: "int \<Rightarrow> bool"
    and refuses :: "'t \<Rightarrow> int \<Rightarrow> bool"
    and add :: "int \<Rightarrow> 't \<Rightarrow> 't option"
    and remove :: "int \<Rightarrow> 't \<Rightarrow> 't option"
  assumes add_law: "ok (Suc b) t \<Longrightarrow> valid k \<Longrightarrow>
      \<exists>t'. add k t = Some t' \<and> ok b t' \<and> contents t' = add_mset k (contents t)"
    and remove_law: "ok b t \<Longrightarrow> valid k \<Longrightarrow>
      \<exists>t'. remove k t = Some t' \<and> ok b t' \<and>
        contents t' = (if refuses t k then contents t else contents t - {#k#})"
begin

lemma run_calls_ok:
  assumes "ok (length (added cs) + b) t" "\<forall>c\<in>set cs. valid (call_key c)"
  shows "\<exists>t'. run_calls add remove cs t = Some t' \<and> ok b t'
    \<and> contents t' \<subseteq># contents t + mset (added cs)
    \<and> contents t + mset (added cs) \<subseteq># contents t' + mset (removed cs)"
  using assms
proof (induction cs arbitrary: t)
  case (Cons c cs)
  show ?case
  proof (cases c)
    case (Call_add k)
    then obtain u where u: "add k t = Some u" "ok (length (added cs) + b) u"
      "contents u = add_mset k (contents t)"
      using add_law [of "length (added cs) + b" t k] Cons.prems by auto
    then show ?thesis
      using Cons.IH [OF u(2)] Cons.prems(2) Call_add by auto
  next
    case (Call_remove k)
    then obtain u where u: "remove k t = Some u" "ok (length (added cs) + b) u"
      "contents u \<in> {contents t, contents t - {#k#}}"
      using remove_law [of "length (added cs) + b" t k] Cons.prems by fastforce
    from Cons.IH [OF u(2)] Cons.prems(2) obtain t' where t': "run_calls add remove cs u = Some t'" "ok b t'"
      "contents t' \<subseteq># contents u + mset (added cs)"
      "contents u + mset (added cs) \<subseteq># contents t' + mset (removed cs)"
      by auto
    have "contents u \<subseteq># contents t" "contents t - {#k#} \<subseteq># contents u"
      using u(3) by auto
    then have "contents u \<subseteq># contents t" "contents t \<subseteq># add_mset k (contents u)"
      by (simp_all add: subset_eq_diff_conv)
    then have le: "count (contents u) x \<le> count (contents t) x"
      "count (contents t) x \<le> count (add_mset k (contents u)) x" for x
      by (metis mset_subset_eq_count)+
    have "contents t' \<subseteq># contents t + mset (added cs)"
    proof (rule mset_subset_eqI)
      fix x show "count (contents t') x \<le> count (contents t + mset (added cs)) x"
        using mset_subset_eq_count [OF t'(3), of x] le(1) [of x] unfolding count_union by linarith
    qed
    moreover have "contents t + mset (added cs) \<subseteq># add_mset k (contents t' + mset (removed cs))"
    proof (rule mset_subset_eqI)
      fix x
      show "count (contents t + mset (added cs)) x \<le> count (add_mset k (contents t' + mset (removed cs))) x"
        using mset_subset_eq_count [OF t'(4), of x] le(2) [of x]
        unfolding count_union count_add_mset by (simp split: if_splits)
    qed
    ultimately show ?thesis
      using u(1) t'(1,2) Call_remove by auto
  qed
qed auto

text \<open>Every call in the sequence has exactly the effect it promises.\<close>

lemma run_calls_step:
  assumes "ok (length (added (cs @ c # ds)) + b) t" "\<forall>c\<in>set (cs @ c # ds). valid (call_key c)"
  shows "\<exists>u v. run_calls add remove cs t = Some u \<and> run_calls add remove (cs @ [c]) t = Some v
    \<and> contents v = call_effect (refuses u) c (contents u)"
proof -
  have "\<exists>u. run_calls add remove cs t = Some u \<and> ok (length (added (c # ds)) + b) u
    \<and> contents u \<subseteq># contents t + mset (added cs)
    \<and> contents t + mset (added cs) \<subseteq># contents u + mset (removed cs)"
    using assms by (intro run_calls_ok) (simp_all add: add.assoc)
  then obtain u where u: "run_calls add remove cs t = Some u" "ok (length (added (c # ds)) + b) u"
    by blast
  have "\<exists>v. run_calls add remove [c] u = Some v \<and> contents v = call_effect (refuses u) c (contents u)"
  proof (cases c)
    case (Call_add k)
    then show ?thesis
      using add_law [of "length (added ds) + b" u k] u(2) assms(2) by auto
  next
    case (Call_remove k)
    then show ?thesis
      using remove_law [of "length (added ds) + b" u k] u(2) assms(2) by auto
  qed
  then show ?thesis
    using u(1) by (auto simp: run_calls_append)
qed

end

lemma Remove_ok:
  assumes "hashmap_ok hash B b m" "ordinary k"
  shows "\<exists>m'. Remove hash k m = Some m' \<and> hashmap_ok hash B b m' \<and>
    keys m' = (if in_slot_zero hash m k then keys m else keys m - {#k#})"
proof -
  obtain m' where m': "Remove hash k m = Some m'" "placed hash m'" "TableSize m' = TableSize m"
    "keys m' = (if in_slot_zero hash m k then keys m else keys m - {#k#})"
    "CurrentSize m' - int (size (keys m')) = CurrentSize m - int (size (keys m))"
    using Remove_correct [of hash m k] assms by (auto simp: hashmap_ok_def)
  then have "size (keys m') \<le> size (keys m)"
    by (simp add: size_mset_mono)
  then show ?thesis
    using m' assms by (intro exI [of _ m'] conjI) (auto simp: hashmap_ok_def)
qed

interpretation oa: refusing_bag "hashmap_ok hash B" keys ordinary "in_slot_zero hash" "Add hash" "Remove hash" for hash B
  by unfold_locales (rule Add_correct Remove_ok; assumption)+

lemma ctor_keys [simp]: "keys (OpenAddressingHashMap_ctor n) = {#}"
  by (auto simp: OpenAddressingHashMap_ctor_def keys_def ordinary_def NotPresent_def)

lemma open_ctor_ok:
  assumes "2 \<le> n" "n \<le> B" "4 * b \<le> B" "B < 2 ^ 31"
  shows "hashmap_ok hash B b (OpenAddressingHashMap_ctor n)"
  unfolding hashmap_ok_def ctor_keys
  using assms by (auto simp: placed_def OpenAddressingHashMap_ctor_def ordinary_def NotPresent_def)

text \<open>C17: For every hash function, every table with at least two and fewer than \<open>2\<^sup>3\<^sup>1\<close> slots and every sequence
  of calls of \<open>Add\<close> and \<open>Remove\<close> with keys other than 0 and -1, with fewer than \<open>2\<^sup>2\<^sup>9\<close> additions: all calls
  return; every \<open>Add\<close> of the sequence adds its key once to the keys in the table, rehashing or not, and every
  \<open>Remove\<close> takes its key out once, or does nothing if the key is not there or its probe sequence meets it in
  slot 0 first. Afterwards the counter is the number of keys, less than half of the slots are used, and \<open>Find\<close>
  returns the entry of every key in the table; for a key that is not there it returns the entry in slot 0,
  whatever it is.\<close>

theorem open_addressing_correct:
  assumes "2 \<le> n" "n < 2 ^ 31" "4 * length (added cs) < 2 ^ 31" "\<forall>c\<in>set cs. ordinary (call_key c)"
  shows "\<exists>m. run_calls (Add hash) (Remove hash) cs (OpenAddressingHashMap_ctor n) = Some m
    \<and> (\<forall>before c after. cs = before @ c # after \<longrightarrow>
        (\<exists>u v. run_calls (Add hash) (Remove hash) before (OpenAddressingHashMap_ctor n) = Some u
          \<and> run_calls (Add hash) (Remove hash) (before @ [c]) (OpenAddressingHashMap_ctor n) = Some v
          \<and> keys v = call_effect (in_slot_zero hash u) c (keys u)))
    \<and> keys m \<subseteq># mset (added cs) \<and> mset (added cs) \<subseteq># keys m + mset (removed cs)
    \<and> CurrentSize m = int (size (keys m)) \<and> 2 * CurrentSize m < int (TableSize m)
    \<and> (\<forall>k. ordinary k \<longrightarrow> (\<exists>m'. FindEntry hash k m = Some (if k \<in># keys m then k else Table m ! 0, m')))"
proof -
  let ?B = "max n (4 * length (added cs))" and ?ctor = "OpenAddressingHashMap_ctor n"
  have ok: "hashmap_ok hash ?B (length (added cs) + 0) ?ctor"
    using assms by (intro open_ctor_ok) simp_all
  obtain m where m: "run_calls (Add hash) (Remove hash) cs ?ctor = Some m"
    "hashmap_ok hash ?B 0 m" "keys m \<subseteq># mset (added cs)" "mset (added cs) \<subseteq># keys m + mset (removed cs)"
    using oa.run_calls_ok [OF ok assms(4)] by auto
  have "\<forall>k. ordinary k \<longrightarrow> (\<exists>m'. FindEntry hash k m = Some (if k \<in># keys m then k else Table m ! 0, m'))"
    using FindEntry_correct [of hash m] m(2) unfolding hashmap_ok_def by blast
  moreover have "\<exists>u v. run_calls (Add hash) (Remove hash) before ?ctor = Some u
      \<and> run_calls (Add hash) (Remove hash) (before @ [c]) ?ctor = Some v
      \<and> keys v = call_effect (in_slot_zero hash u) c (keys u)" if "cs = before @ c # after" for before c after
    using oa.run_calls_step [of hash ?B before c after 0 ?ctor] ok assms(4) unfolding that by simp
  ultimately show ?thesis
    using m by (intro exI [of _ m]) (simp add: hashmap_ok_def)
qed

theorem open_addressing_correct_witness:
  "\<exists>m. run_calls (Add of_int) (Remove of_int) [Call_add 5, Call_add 9, Call_remove 5, Call_add (- 3)]
      (OpenAddressingHashMap_ctor 2) = Some m
    \<and> keys m \<subseteq># {#5, 9, - 3#} \<and> (\<exists>m'. FindEntry of_int 9 m = Some (9, m'))"
proof -
  let ?cs = "[Call_add 5, Call_add 9, Call_remove 5, Call_add (- 3)]"
  have ord: "\<forall>c\<in>set ?cs. ordinary (call_key c)"
    by (simp add: ordinary_def)
  obtain m where m: "run_calls (Add of_int) (Remove of_int) ?cs (OpenAddressingHashMap_ctor 2) = Some m"
    "keys m \<subseteq># mset (added ?cs)" "mset (added ?cs) \<subseteq># keys m + mset (removed ?cs)"
    "\<forall>k. ordinary k \<longrightarrow> (\<exists>m'. FindEntry of_int k m = Some (if k \<in># keys m then k else Table m ! 0, m'))"
    using open_addressing_correct [of 2 ?cs of_int] ord by auto
  have "9 \<in># keys m + mset (removed ?cs)"
    by (rule mset_subset_eqD [OF m(3)]) simp
  then have "9 \<in># keys m"
    by simp
  moreover have "\<exists>m'. FindEntry of_int 9 m = Some (if 9 \<in># keys m then 9 else Table m ! 0, m')"
    using m(4) by (simp add: ordinary_def)
  ultimately show ?thesis
    using m(1,2) by (intro exI [of _ m]) simp
qed

text \<open>An entry that lies in slot 0 because its key hashes there cannot be removed: the index 0
  means both the first slot and failure, \<open>Remove\<close> reports that the key was not found, and the
  table and its counter stay as they were although \<open>Find\<close> finds the key.\<close>

theorem slot_zero_not_removed:
  assumes "placed hash m" "ordinary k" "Table m ! 0 = k" "unat (hash k) mod TableSize m = 0"
  shows "Remove hash k m = Some (say (''Found key!'' @ newline @ ''key not found'' @ newline) m)
    \<and> (\<exists>m'. FindEntry hash k m = Some (k, m'))"
proof -
  have m: "length (Table m) = TableSize m" "0 < TableSize m"
    using assms(1) by (simp_all add: placed_def)
  have "LinearProbe hash m k True = Some (0, ''Found key!'' @ newline)"
    using m assms unfolding LinearProbe_def
    by (simp add: upt_conv_Cons probe_def MakeHashOf_def SearchingProber_def NotPresent_def ordinary_def Let_def)
  then show ?thesis
    using m assms(3) by (simp add: Remove_def FindEntry_def NotPresent_def)
qed

theorem slot_zero_not_removed_witness:
  "\<exists>m. placed of_int m \<and> ordinary 6 \<and> Table m ! 0 = 6 \<and> unat (of_int 6 :: u64) mod TableSize m = 0
    \<and> Remove of_int 6 m = Some (say (''Found key!'' @ newline @ ''key not found'' @ newline) m)"
proof -
  let ?m = "\<lparr>TableSize = 3, Table = [6, 0, 0], CurrentSize = 1, NeedsRehash = False, console = []\<rparr>"
  have path: "on_path of_int [6, 0, 0] 6 0"
    unfolding on_path_def by (intro exI [of _ 0]) (simp add: probe_def MakeHashOf_def)
  have "j = 0" if "j < 3" "ordinary ([6, 0, 0] ! j)" for j :: nat
    using that by (cases j; cases "j - 1") (auto simp: ordinary_def numeral_3_eq_3 less_Suc_eq)
  then have "on_path of_int [6, 0, 0] ([6, 0, 0] ! j) j" if "j < 3" "ordinary ([6, 0, 0] ! j)" for j :: nat
    using that path by fastforce
  then have p: "placed of_int ?m"
    by (simp add: placed_def)
  have o: "ordinary 6" "Table ?m ! 0 = 6" "unat (of_int 6 :: u64) mod TableSize ?m = 0"
    by (simp_all add: ordinary_def)
  have "Remove of_int 6 ?m = Some (say (''Found key!'' @ newline @ ''key not found'' @ newline) ?m)"
    using slot_zero_not_removed [OF p o] by (rule conjunct1)
  then show ?thesis
    by (intro exI [of _ ?m] conjI p o)
qed

end
