(* ===== verification/Spanning_Tree.thy ===== *)
theory Spanning_Tree
  imports Prelude
begin

text \<open>
  Spanning trees of weighted undirected graphs. A graph is a set of edges, an edge the set of its two
  ends with its weight; parallel edges of different weight are allowed. A spanning tree of a graph
  with \<open>n\<close> vertices is a set of \<open>n - 1\<close> of its edges that connects all vertices. The exchange lemma at
  the end is what an algorithm needs that grows a tree by light edges.
\<close>

type_synonym edge = "nat set \<times> int"

definition adjacent :: "edge set \<Rightarrow> (nat \<times> nat) set" where
  "adjacent T = {(u, v). \<exists>w. ({u, v}, w) \<in> T}"

definition joined :: "edge set \<Rightarrow> (nat \<times> nat) set" where
  "joined T = (adjacent T)\<^sup>*"

definition edges_weight :: "edge set \<Rightarrow> int" where
  "edges_weight T = (\<Sum>e\<in>T. snd e)"

definition spanning_tree :: "nat \<Rightarrow> edge set \<Rightarrow> edge set \<Rightarrow> bool" where
  "spanning_tree n G T \<longleftrightarrow> T \<subseteq> G \<and> finite T \<and> card T = n - 1 \<and> (\<forall>u < n. \<forall>v < n. (u, v) \<in> joined T)"

lemma adjacent_sym: "(u, v) \<in> adjacent T \<Longrightarrow> (v, u) \<in> adjacent T"
  by (simp add: adjacent_def insert_commute)

lemma joined_refl [simp]: "(u, u) \<in> joined T"
  by (simp add: joined_def)

lemma joined_edge: "({u, v}, w) \<in> T \<Longrightarrow> (u, v) \<in> joined T"
  unfolding joined_def adjacent_def by blast

lemma joined_sym: "(u, v) \<in> joined T \<Longrightarrow> (v, u) \<in> joined T"
  unfolding joined_def by (rule symD [OF sym_rtrancl]) (auto intro: symI adjacent_sym)

lemma joined_trans: "(u, v) \<in> joined T \<Longrightarrow> (v, x) \<in> joined T \<Longrightarrow> (u, x) \<in> joined T"
  unfolding joined_def by (rule rtrancl_trans)

lemma joined_mono: "S \<subseteq> T \<Longrightarrow> joined S \<subseteq> joined T"
  unfolding joined_def adjacent_def by (intro rtrancl_mono) blast

lemma joined_crossing:
  assumes "(u, v) \<in> joined T" "u \<in> R" "v \<notin> R"
  shows "\<exists>y x w. y \<in> R \<and> x \<notin> R \<and> ({y, x}, w) \<in> T"
  using assms unfolding joined_def
  by (induction rule: converse_rtrancl_induct) (auto simp: adjacent_def)

text \<open>An edge can be replaced by a detour.\<close>

lemma joined_detour:
  assumes "(u, v) \<in> joined T" "(x, y) \<in> joined T'" "\<And>e. e \<in> T \<Longrightarrow> e \<noteq> ({x, y}, w) \<Longrightarrow> e \<in> T'"
  shows "(u, v) \<in> joined T'"
  using assms(1) unfolding joined_def [of T]
proof (induction rule: rtrancl_induct)
  case (step a b)
  then obtain w' where e: "({a, b}, w') \<in> T"
    by (auto simp: adjacent_def)
  have "(a, b) \<in> joined T'"
  proof (cases "({a, b}, w') = ({x, y}, w)")
    case True
    then have "a = x \<and> b = y \<or> a = y \<and> b = x"
      by (auto simp: doubleton_eq_iff)
    then show ?thesis
      using assms(2) joined_sym by blast
  next
    case False
    then show ?thesis
      using assms(3) e joined_edge by blast
  qed
  then show ?case
    using step.IH joined_trans by blast
qed simp

text \<open>Some edge of a connected graph leads from the set \<open>C\<close> to a vertex that is joined to \<open>v\<close>
  outside of \<open>C\<close>.\<close>

lemma boundary_edge:
  assumes "(v, p) \<in> joined T" "p \<in> C" "v \<notin> C"
  shows "\<exists>y x w. ({y, x}, w) \<in> T \<and> x \<in> C \<and> y \<notin> C \<and> (v, y) \<in> joined {f \<in> T. fst f \<inter> C = {}}"
proof -
  let ?outer = "{f \<in> T. fst f \<inter> C = {}}"
  define R where "R = {y. (v, y) \<in> joined ?outer}"
  have "y \<notin> C" if "(v, y) \<in> joined ?outer" for y
    using that assms(3) unfolding joined_def
    by (induction rule: rtrancl_induct) (auto simp: adjacent_def)
  then have disj: "R \<inter> C = {}"
    by (auto simp: R_def)
  have "v \<in> R" "p \<notin> R"
    using assms disj by (auto simp: R_def)
  then obtain y x w where f: "y \<in> R" "x \<notin> R" "({y, x}, w) \<in> T"
    using joined_crossing [OF assms(1), of R] by blast
  have "x \<in> C"
  proof (rule ccontr)
    assume "x \<notin> C"
    then have "({y, x}, w) \<in> ?outer"
      using f disj by auto
    from joined_edge [OF this] have "(v, x) \<in> joined ?outer"
      using f(1) joined_trans [of v y] unfolding R_def by simp
    then show False
      using f(2) by (simp add: R_def)
  qed
  moreover have "y \<notin> C" "(v, y) \<in> joined ?outer"
    using f(1) disj unfolding R_def by blast+
  ultimately show ?thesis
    using f(3) by blast
qed

lemma exchange:
  assumes T: "spanning_tree n G T" "A \<subseteq> T" and C: "C \<subseteq> {..<n}"
    and A: "\<And>x y. x \<in> C \<Longrightarrow> y \<in> C \<Longrightarrow> (x, y) \<in> joined A" "\<And>e. e \<in> A \<Longrightarrow> fst e \<subseteq> C"
    and e: "({p, v}, k) \<in> G" "p \<in> C" "v \<notin> C" "v < n"
    and light: "\<And>x y w. ({x, y}, w) \<in> G \<Longrightarrow> x \<in> C \<Longrightarrow> y \<notin> C \<Longrightarrow> k \<le> w"
  shows "\<exists>T'. spanning_tree n G T' \<and> insert ({p, v}, k) A \<subseteq> T' \<and> edges_weight T' \<le> edges_weight T"
proof (cases "({p, v}, k) \<in> T")
  case True
  then show ?thesis
    using T by (intro exI [of _ T]) auto
next
  case False
  let ?outer = "{f \<in> T. fst f \<inter> C = {}}"
  have T': "T \<subseteq> G" "finite T" "card T = n - 1" "\<And>u v. u < n \<Longrightarrow> v < n \<Longrightarrow> (u, v) \<in> joined T"
    using T(1) by (simp_all add: spanning_tree_def)
  obtain y x w where f: "({y, x}, w) \<in> T" "x \<in> C" "y \<notin> C" "(v, y) \<in> joined ?outer"
    using boundary_edge [OF T'(4) e(2,3)] e C by auto
  define T2 where "T2 = insert ({p, v}, k) (T - {({y, x}, w)})"
  have sub: "A \<subseteq> T2" "?outer \<subseteq> T2"
    using A(2) T(2) f(2,3) unfolding T2_def by fastforce+
  have "(x, p) \<in> joined T2"
    using A(1) [OF f(2) e(2)] joined_mono [OF sub(1)] by blast
  moreover have "(p, v) \<in> joined T2"
    by (rule joined_edge [of _ _ k]) (simp add: T2_def)
  moreover have "(v, y) \<in> joined T2"
    using f(4) joined_mono [OF sub(2)] by blast
  ultimately have "(y, x) \<in> joined T2"
    using joined_sym joined_trans by meson
  then have "(a, b) \<in> joined T2" if "a < n" "b < n" for a b
    by (rule joined_detour [OF T'(4) [OF that], of _ _ _ w]) (auto simp: T2_def)
  moreover have "card T2 = card T"
    using False f(1) T'(2) unfolding T2_def
    by (subst card_insert_disjoint) (auto simp: card_gt_0_iff intro: Suc_pred)
  moreover have "edges_weight T2 = edges_weight T - w + k"
    using False f(1) T'(2) unfolding T2_def edges_weight_def
    by (subst sum.insert) (auto simp: sum_diff1)
  moreover have "k \<le> w"
    using light [of x y w] f T'(1) by (auto simp: insert_commute)
  ultimately show ?thesis
    using sub(1) e(1) T' by (intro exI [of _ T2]) (auto simp: spanning_tree_def T2_def)
qed

end
