(* ===== verification/Prim.thy ===== *)
theory Prim
  imports Spanning_Tree
begin

text \<open>
  Prim's algorithm of \<^verbatim>\<open>2022-05-28-Prim-algorithm/main.cpp\<close>. The graph is the array of adjacency
  lists; the arrays \<open>Key\<close>, \<open>Parent\<close> and \<open>Visited\<close> are fields of a state, beside the priority queue,
  kept as a list from which \<open>top\<close> takes a least pair. \<open>None\<close> stands for an access outside of the
  arrays. No arithmetic is done on the weights, so they are integers.
\<close>

subsection \<open>The program\<close>

definition PRIM_INF :: int where
  "PRIM_INF = 1061109567"

type_synonym adjacency = "(nat \<times> int) list list"

definition AddEdge :: "adjacency \<Rightarrow> nat \<Rightarrow> nat \<Rightarrow> int \<Rightarrow> adjacency option" where
  "AddEdge Graph U V Weight =
     (if U < length Graph \<and> V < length Graph then
        let G1 = Graph[U := Graph ! U @ [(V, Weight)]] in Some (G1[V := G1 ! V @ [(U, Weight)]])
      else None)"

record prim_state =
  Queue :: "(int \<times> nat) list"
  Key :: "int list"
  Parent :: "int list"
  Visited :: "bool list"

definition pair_less :: "int \<times> nat \<Rightarrow> int \<times> nat \<Rightarrow> bool" where
  "pair_less a b \<longleftrightarrow> fst a < fst b \<or> fst a = fst b \<and> snd a < snd b"

fun queue_top :: "(int \<times> nat) list \<Rightarrow> int \<times> nat" where
  "queue_top [] = (0, 0)"
| "queue_top [x] = x"
| "queue_top (x # xs) = (if pair_less (queue_top xs) x then queue_top xs else x)"

fun prim_edges :: "nat \<Rightarrow> (nat \<times> int) list \<Rightarrow> prim_state \<Rightarrow> prim_state option" where
  "prim_edges U [] s = Some s"
| "prim_edges U ((Vertex, Weight) # es) s =
     (if length (Visited s) \<le> Vertex \<or> length (Key s) \<le> Vertex \<or> length (Parent s) \<le> Vertex then None
      else if \<not> Visited s ! Vertex \<and> Weight < Key s ! Vertex then
        prim_edges U es (s\<lparr>Key := (Key s)[Vertex := Weight], Queue := (Weight, Vertex) # Queue s,
          Parent := (Parent s)[Vertex := int U]\<rparr>)
      else prim_edges U es s)"

definition prim_visit :: "adjacency \<Rightarrow> nat \<Rightarrow> prim_state \<Rightarrow> prim_state option" where
  "prim_visit Graph U s =
     (if length Graph \<le> U then None
      else prim_edges U (Graph ! U) (s\<lparr>Visited := (Visited s)[U := True]\<rparr>))"

lemma prim_edges_Visited: "prim_edges U es s = Some s' \<Longrightarrow> Visited s' = Visited s"
  by (induction U es s rule: prim_edges.induct) (auto split: if_splits)

definition unvisited_count :: "bool list \<Rightarrow> nat" where
  "unvisited_count vs = length (filter Not vs)"

lemma unvisited_count_update:
  "U < length vs \<Longrightarrow> \<not> vs ! U \<Longrightarrow> unvisited_count (vs[U := True]) < unvisited_count vs"
proof (induction vs arbitrary: U)
  case (Cons v vs)
  then show ?case
    by (cases U) (auto simp: unvisited_count_def)
qed simp

lemma queue_top_in: "q \<noteq> [] \<Longrightarrow> queue_top q \<in> set q"
  by (induction q rule: queue_top.induct) auto

function prim_loop :: "adjacency \<Rightarrow> prim_state \<Rightarrow> prim_state option" where
  "prim_loop Graph s =
     (if Queue s = [] then Some s
      else let U = snd (queue_top (Queue s)); s1 = s\<lparr>Queue := remove1 (queue_top (Queue s)) (Queue s)\<rparr> in
        if length (Visited s) \<le> U then None
        else if Visited s ! U then prim_loop Graph s1
        else case prim_visit Graph U s1 of None \<Rightarrow> None | Some s2 \<Rightarrow> prim_loop Graph s2)"
  by pat_completeness auto

termination
proof (relation "measures [\<lambda>(G, s). unvisited_count (Visited s), \<lambda>(G, s). length (Queue s)]",
    goal_cases)
  case (2 Graph s U s1)
  then show ?case
    using queue_top_in [of "Queue s"] by (auto simp: length_remove1 intro: length_pos_if_in_set)
next
  case (3 Graph s U s1 s2)
  then show ?case
    using unvisited_count_update [of U "Visited s"]
    by (auto simp: prim_visit_def dest!: prim_edges_Visited split: if_splits)
qed simp

declare prim_loop.simps [simp del]

definition prim_init :: "nat \<Rightarrow> prim_state" where
  "prim_init V = \<lparr>Queue = [(0, 0)], Key = (replicate V PRIM_INF)[0 := 0], Parent = replicate V (- 1),
     Visited = replicate V False\<rparr>"

definition prim_run :: "adjacency \<Rightarrow> nat \<Rightarrow> prim_state option" where
  "prim_run Graph V = (if V = 0 then None else prim_loop Graph (prim_init V))"

definition Prim :: "adjacency \<Rightarrow> nat \<Rightarrow> string option" where
  "Prim Graph V = map_option (\<lambda>s. concat (map (\<lambda>i. std_to_string (Parent s ! i) @ '' - '' @
     std_to_string (int i) @ [CHR 0x0A]) [1..<V])) (prim_run Graph V)"

fun add_edges :: "(nat \<times> nat \<times> int) list \<Rightarrow> adjacency \<Rightarrow> adjacency option" where
  "add_edges [] Graph = Some Graph"
| "add_edges ((U, V, W) # es) Graph = Option.bind (AddEdge Graph U V W) (add_edges es)"

definition main_edges :: "(nat \<times> nat \<times> int) list" where
  "main_edges = [(0, 1, 4), (0, 7, 8), (1, 2, 8), (1, 7, 11), (2, 3, 7), (2, 8, 2), (2, 5, 4), (3, 4, 9),
     (3, 5, 14), (4, 5, 10), (5, 6, 2), (6, 7, 1), (6, 8, 6), (7, 8, 7)]"

definition prim_main :: "string option" where
  "prim_main = Option.bind (add_edges main_edges (replicate 9 [])) (\<lambda>Graph. Prim Graph 9)"

end
