(* ===== verification/Prim_Correct.thy ===== *)
theory Prim_Correct
  imports Prim
begin

text \<open>
  Prim's algorithm builds a minimum spanning tree. The invariant has two parts: \<open>frontier\<close> says what
  keys, parents and queue know of the vertices that are not visited, \<open>grown\<close> that the edges to the
  parents of the visited ones can be completed to a spanning tree not heavier than any given one.
\<close>

subsection \<open>The graph\<close>

definition edge_set :: "(nat \<times> nat \<times> int) list \<Rightarrow> edge set" where
  "edge_set es = (\<lambda>(u, v, w). ({u, v}, w)) ` set es"

definition represents :: "adjacency \<Rightarrow> nat \<Rightarrow> edge set \<Rightarrow> bool" where
  "represents Graph n E \<longleftrightarrow> length Graph = n \<and>
     (\<forall>u < n. \<forall>v w. (v, w) \<in> set (Graph ! u) \<longleftrightarrow> ({u, v}, w) \<in> E)"

definition edges_ok :: "nat \<Rightarrow> edge set \<Rightarrow> bool" where
  "edges_ok n E \<longleftrightarrow> finite E \<and> (\<forall>(d, w)\<in>E. d \<subseteq> {..<n} \<and> w < PRIM_INF)"

lemma represents_AddEdge:
  assumes "represents Graph n E" "u < n" "v < n"
  shows "\<exists>Graph'. AddEdge Graph u v w = Some Graph' \<and> represents Graph' n (insert ({u, v}, w) E)"
proof -
  define G1 where "G1 = Graph[u := Graph ! u @ [(v, w)]]"
  define G2 where "G2 = G1[v := G1 ! v @ [(u, w)]]"
  have len: "length Graph = n" "length G1 = n"
    using assms(1) by (simp_all add: represents_def G1_def)
  have "(y, k) \<in> set (G2 ! x) \<longleftrightarrow> ({x, y}, k) \<in> insert ({u, v}, w) E" if "x < n" for x y k
  proof -
    have "set (G2 ! x) = set (Graph ! x) \<union> (if x = u then {(v, w)} else {}) \<union> (if x = v then {(u, w)} else {})"
      using that len by (auto simp: G2_def G1_def nth_list_update)
    then show ?thesis
      using assms(1) that by (auto simp: represents_def doubleton_eq_iff)
  qed
  then have "represents G2 n (insert ({u, v}, w) E)"
    using len by (simp add: represents_def G2_def)
  moreover have "AddEdge Graph u v w = Some G2"
    using assms len by (simp add: AddEdge_def G1_def G2_def Let_def)
  ultimately show ?thesis
    by blast
qed

lemma represents_add_edges:
  assumes "represents Graph n E" "\<forall>(u, v, w)\<in>set es. u < n \<and> v < n"
  shows "\<exists>Graph'. add_edges es Graph = Some Graph' \<and> represents Graph' n (edge_set es \<union> E)"
  using assms
proof (induction es arbitrary: Graph E)
  case (Cons e es)
  obtain u v w where e: "e = (u, v, w)"
    by (cases e)
  obtain G1 where "AddEdge Graph u v w = Some G1" "represents G1 n (insert ({u, v}, w) E)"
    using represents_AddEdge [of Graph n E u v w] Cons.prems e by auto
  then show ?case
    using Cons.IH [of G1 "insert ({u, v}, w) E"] Cons.prems(2) e by (auto simp: edge_set_def)
qed (simp add: edge_set_def)

lemma add_edges_represents:
  assumes "\<forall>(u, v, w)\<in>set es. u < n \<and> v < n"
  shows "\<exists>Graph. add_edges es (replicate n []) = Some Graph \<and> represents Graph n (edge_set es)"
  using represents_add_edges [of "replicate n []" n "{}"] assms by (simp add: represents_def)

subsection \<open>The queue\<close>

lemma queue_top_least: "x \<in> set q \<Longrightarrow> fst (queue_top q) \<le> fst x"
  by (induction q rule: queue_top.induct) (auto simp: pair_less_def)

subsection \<open>The frontier\<close>

definition visited_set :: "prim_state \<Rightarrow> nat set" where
  "visited_set s = {v. v < length (Visited s) \<and> Visited s ! v}"

definition frontier :: "nat \<Rightarrow> edge set \<Rightarrow> prim_state \<Rightarrow> bool" where
  "frontier n E s \<longleftrightarrow> length (Key s) = n \<and> length (Parent s) = n \<and> length (Visited s) = n
    \<and> (\<forall>v < n. v \<noteq> 0 \<longrightarrow> Key s ! v < PRIM_INF \<longrightarrow>
        (\<exists>p \<in> visited_set s. Parent s ! v = int p \<and> ({p, v}, Key s ! v) \<in> E))
    \<and> (\<forall>v < n. v \<notin> visited_set s \<longrightarrow> Key s ! v < PRIM_INF \<longrightarrow> (Key s ! v, v) \<in> set (Queue s))
    \<and> (\<forall>(k, v)\<in>set (Queue s). v < n \<and> Key s ! v \<le> k \<and> k < PRIM_INF)"

definition relaxed_from :: "edge set \<Rightarrow> nat set \<Rightarrow> prim_state \<Rightarrow> bool" where
  "relaxed_from E S s \<longleftrightarrow> (\<forall>u \<in> S. \<forall>v w. ({u, v}, w) \<in> E \<longrightarrow> v \<notin> visited_set s \<longrightarrow> Key s ! v \<le> w)"

text \<open>What the loop over the edges of one vertex leaves alone.\<close>

definition keeps :: "prim_state \<Rightarrow> prim_state \<Rightarrow> bool" where
  "keeps s s' \<longleftrightarrow> Visited s' = Visited s
    \<and> (\<forall>v. v \<notin> visited_set s \<longrightarrow> Key s' ! v \<le> Key s ! v)
    \<and> (\<forall>v \<in> visited_set s. Key s' ! v = Key s ! v \<and> Parent s' ! v = Parent s ! v)"

lemma keeps_refl: "keeps s s"
  by (simp add: keeps_def)

lemma keeps_trans: "keeps s t \<Longrightarrow> keeps t u \<Longrightarrow> keeps s u"
  by (force simp: keeps_def visited_set_def)

lemma keeps_visited: "keeps s s' \<Longrightarrow> visited_set s' = visited_set s"
  by (simp add: keeps_def visited_set_def)

lemma frontier_relax:
  assumes "frontier n E s" "U \<in> visited_set s" "v < n" "v \<noteq> 0" "v \<notin> visited_set s" "w < PRIM_INF"
    "({U, v}, w) \<in> E" "w < Key s ! v"
  shows "frontier n E (s\<lparr>Key := (Key s)[v := w], Queue := (w, v) # Queue s, Parent := (Parent s)[v := int U]\<rparr>)"
    (is "frontier n E ?s")
proof -
  have vis: "visited_set ?s = visited_set s"
    by (simp add: visited_set_def)
  have key: "Key ?s ! x = (if x = v then w else Key s ! x)"
    and par: "Parent ?s ! x = (if x = v then int U else Parent s ! x)" for x
    using assms(1,3) by (simp_all add: frontier_def)
  show ?thesis
    unfolding frontier_def vis key par
    using assms unfolding frontier_def by fastforce
qed

lemma prim_edges_correct:
  assumes "frontier n E s" "U \<in> visited_set s" "0 \<in> visited_set s"
    "\<forall>(v, w)\<in>set es. v < n \<and> w < PRIM_INF \<and> ({U, v}, w) \<in> E"
  shows "\<exists>s'. prim_edges U es s = Some s' \<and> frontier n E s' \<and> keeps s s'
    \<and> (\<forall>(v, w)\<in>set es. v \<notin> visited_set s \<longrightarrow> Key s' ! v \<le> w)"
  using assms
proof (induction es arbitrary: s)
  case Nil
  then show ?case
    by (simp add: keeps_refl)
next
  case (Cons e es)
  obtain v w where e: "e = (v, w)"
    by (cases e)
  have v: "v < n" "w < PRIM_INF" "({U, v}, w) \<in> E" "length (Visited s) = n" "length (Key s) = n"
    "length (Parent s) = n"
    using Cons.prems e by (simp_all add: frontier_def)
  define s1 where "s1 = (if \<not> Visited s ! v \<and> w < Key s ! v
    then s\<lparr>Key := (Key s)[v := w], Queue := (w, v) # Queue s, Parent := (Parent s)[v := int U]\<rparr> else s)"
  have run: "prim_edges U (e # es) s = prim_edges U es s1"
    using v e by (simp add: s1_def)
  have "v \<noteq> 0" "v \<notin> visited_set s" if "\<not> Visited s ! v"
    using that Cons.prems(3) by (cases "v = 0"; simp add: visited_set_def)+
  then have f: "frontier n E s1"
    using Cons.prems(1,2) frontier_relax [of n E s U v w] v by (auto simp: s1_def)
  have k: "keeps s s1" "v \<notin> visited_set s \<longrightarrow> Key s1 ! v \<le> w"
    using v by (auto simp: s1_def keeps_def visited_set_def nth_list_update)
  obtain s' where s': "prim_edges U es s1 = Some s'" "frontier n E s'" "keeps s1 s'"
    "\<forall>(v, w)\<in>set es. v \<notin> visited_set s1 \<longrightarrow> Key s' ! v \<le> w"
    using Cons.IH [OF f] Cons.prems keeps_visited [OF k(1)] by auto
  have "v \<notin> visited_set s \<longrightarrow> Key s' ! v \<le> w"
    using k s'(3) keeps_visited [OF k(1)] by (force simp: keeps_def)
  then show ?case
    using run s' keeps_trans [OF k(1) s'(3)] keeps_visited [OF k(1)] e by auto
qed


subsection \<open>The tree\<close>

definition tree_edges :: "prim_state \<Rightarrow> edge set" where
  "tree_edges s = (\<lambda>v. ({nat (Parent s ! v), v}, Key s ! v)) ` (visited_set s - {0})"

definition grown :: "nat \<Rightarrow> edge set \<Rightarrow> prim_state \<Rightarrow> bool" where
  "grown n E s \<longleftrightarrow> 0 \<in> visited_set s \<and> tree_edges s \<subseteq> E \<and> card (tree_edges s) = card (visited_set s) - 1
    \<and> (\<forall>e \<in> tree_edges s. fst e \<subseteq> visited_set s)
    \<and> (\<forall>x \<in> visited_set s. \<forall>y \<in> visited_set s. (x, y) \<in> joined (tree_edges s))
    \<and> (\<forall>T. spanning_tree n E T \<longrightarrow>
        (\<exists>T'. spanning_tree n E T' \<and> tree_edges s \<subseteq> T' \<and> edges_weight T' \<le> edges_weight T))"

lemma finite_visited [simp]: "finite (visited_set s)"
  by (simp add: visited_set_def)

lemma grown_keeps:
  assumes "keeps s s'" "grown n E s"
  shows "grown n E s'"
proof -
  have "tree_edges s' = tree_edges s"
    using assms(1) unfolding tree_edges_def keeps_visited [OF assms(1)]
    by (intro image_cong) (auto simp: keeps_def)
  then show ?thesis
    using assms(2) keeps_visited [OF assms(1)] by (simp add: grown_def)
qed

lemma visited_set_visit:
  "U < length (Visited s) \<Longrightarrow>
   visited_set (s\<lparr>Queue := q, Visited := (Visited s)[U := True]\<rparr>) = insert U (visited_set s)"
  by (auto simp: visited_set_def nth_list_update split: if_splits)

lemma tree_edges_visit:
  assumes "U < length (Visited s)" "U \<noteq> 0" "Parent s ! U = int p"
  shows "tree_edges (s\<lparr>Queue := q, Visited := (Visited s)[U := True]\<rparr>) =
    insert ({p, U}, Key s ! U) (tree_edges s)"
  unfolding tree_edges_def visited_set_visit [OF assms(1)] using assms by (auto simp: insert_Diff_if)

lemma joined_insert:
  assumes "\<And>x y. x \<in> C \<Longrightarrow> y \<in> C \<Longrightarrow> (x, y) \<in> joined A" "p \<in> C" "x \<in> insert v C" "y \<in> insert v C"
  shows "(x, y) \<in> joined (insert ({p, v}, k) A)" (is "_ \<in> joined ?A")
proof -
  have to_p: "(x, p) \<in> joined ?A" if "x \<in> insert v C" for x
  proof (cases "x = v")
    case True
    then show ?thesis
      using joined_edge [of v p k ?A] by (simp add: insert_commute)
  next
    case False
    then show ?thesis
      using assms(1) [of x p] that assms(2) joined_mono [of A ?A] by blast
  qed
  show ?thesis
    using joined_trans [OF to_p [OF assms(3)] joined_sym [OF to_p [OF assms(4)]]] .
qed

lemma grown_visit:
  assumes "grown n E s" "length (Visited s) = n" "U < n" "U \<notin> visited_set s"
    "p \<in> visited_set s" "Parent s ! U = int p" "({p, U}, Key s ! U) \<in> E"
    and light: "\<And>x y w. ({x, y}, w) \<in> E \<Longrightarrow> x \<in> visited_set s \<Longrightarrow> y \<notin> visited_set s \<Longrightarrow> Key s ! U \<le> w"
  shows "grown n E (s\<lparr>Queue := q, Visited := (Visited s)[U := True]\<rparr>)"
proof -
  let ?S = "visited_set s" and ?A = "tree_edges s" and ?e = "({p, U}, Key s ! U)"
  have U0: "U \<noteq> 0"
    using assms(1,4) by (metis grown_def)
  have vs: "visited_set (s\<lparr>Queue := q, Visited := (Visited s)[U := True]\<rparr>) = insert U ?S"
    using visited_set_visit assms(2,3) by simp
  have te: "tree_edges (s\<lparr>Queue := q, Visited := (Visited s)[U := True]\<rparr>) = insert ?e ?A"
    using tree_edges_visit [OF _ U0 assms(6)] assms(2,3) by simp
  have g: "0 \<in> ?S" "?A \<subseteq> E" "card ?A = card ?S - 1" "\<And>e. e \<in> ?A \<Longrightarrow> fst e \<subseteq> ?S"
    "\<And>x y. x \<in> ?S \<Longrightarrow> y \<in> ?S \<Longrightarrow> (x, y) \<in> joined ?A"
    "\<And>T. spanning_tree n E T \<Longrightarrow> \<exists>T'. spanning_tree n E T' \<and> ?A \<subseteq> T' \<and> edges_weight T' \<le> edges_weight T"
    using assms(1) by (auto simp: grown_def)
  have "?e \<notin> ?A"
    using g(4) [of ?e] assms(4) by auto
  moreover have "finite ?A" "0 < card ?S"
    using g(1) by (auto simp: tree_edges_def card_gt_0_iff)
  ultimately have card: "card (insert ?e ?A) = card (insert U ?S) - 1"
    using g(3) assms(4) by simp
  have opt: "\<exists>T'. spanning_tree n E T' \<and> insert ?e ?A \<subseteq> T' \<and> edges_weight T' \<le> edges_weight T"
    if T: "spanning_tree n E T" for T
  proof -
    obtain T1 where T1: "spanning_tree n E T1" "?A \<subseteq> T1" "edges_weight T1 \<le> edges_weight T"
      using g(6) [OF T] by blast
    have "?S \<subseteq> {..<n}"
      using assms(2) by (auto simp: visited_set_def)
    from exchange [OF T1(1,2) this g(5) g(4) assms(7,5,4,3) light] T1(3) show ?thesis
      by fastforce
  qed
  show ?thesis
    unfolding grown_def vs te
    using g(1,2,4) assms(5,7) card opt joined_insert [OF g(5) assms(5)] by auto
qed

subsection \<open>The search\<close>

definition prim_inv :: "nat \<Rightarrow> edge set \<Rightarrow> prim_state \<Rightarrow> bool" where
  "prim_inv n E s \<longleftrightarrow> frontier n E s \<and> relaxed_from E (visited_set s) s \<and> grown n E s"

lemma frontier_pop:
  assumes "frontier n E s" "snd x \<in> visited_set s"
  shows "frontier n E (s\<lparr>Queue := remove1 x (Queue s)\<rparr>)" (is "frontier n E ?s")
proof -
  have vis: "visited_set ?s = visited_set s"
    by (simp add: visited_set_def)
  have "set (remove1 x (Queue s)) \<subseteq> set (Queue s)"
    by (rule set_remove1_subset)
  moreover have "(k, v) \<in> set (remove1 x (Queue s)) \<longleftrightarrow> (k, v) \<in> set (Queue s)" if "v \<notin> visited_set s" for k v
    using assms(2) that by (intro in_set_remove1) auto
  ultimately show ?thesis
    using assms(1) unfolding frontier_def vis by auto
qed

lemma frontier_visit:
  assumes "frontier n E s" "U < n" "snd x = U"
  shows "frontier n E (s\<lparr>Queue := remove1 x (Queue s), Visited := (Visited s)[U := True]\<rparr>)"
proof -
  let ?s = "s\<lparr>Visited := (Visited s)[U := True]\<rparr>"
  have "visited_set ?s = insert U (visited_set s)"
    using assms by (auto simp: frontier_def visited_set_def nth_list_update split: if_splits)
  then have "frontier n E ?s" "snd x \<in> visited_set ?s"
    using assms unfolding frontier_def by auto
  from frontier_pop [OF this] show ?thesis
    by (cases s) simp
qed


text \<open>The pair that leaves the queue is the light edge of a vertex that is not visited.\<close>

lemma top_is_light:
  assumes "prim_inv n E s" "edges_ok n E" "Queue s \<noteq> []" "U = snd (queue_top (Queue s))"
    "U \<notin> visited_set s" "({x, y}, w) \<in> E" "x \<in> visited_set s" "y \<notin> visited_set s"
  shows "Key s ! U \<le> w"
proof -
  have f: "frontier n E s" and r: "Key s ! y \<le> w"
    using assms(1,6,7,8) by (auto simp: prim_inv_def relaxed_from_def)
  have "y < n" "w < PRIM_INF"
    using assms(2,6) by (auto simp: edges_ok_def)
  then have "(Key s ! y, y) \<in> set (Queue s)"
    using f r assms(8) by (auto simp: frontier_def)
  then have "fst (queue_top (Queue s)) \<le> Key s ! y"
    using queue_top_least by fastforce
  moreover have "Key s ! U \<le> fst (queue_top (Queue s))"
    using f queue_top_in [OF assms(3)] assms(4) by (cases "queue_top (Queue s)") (auto simp: frontier_def)
  ultimately show ?thesis
    using r by simp
qed

lemma top_has_parent:
  assumes "prim_inv n E s" "Queue s \<noteq> []" "U = snd (queue_top (Queue s))" "U \<notin> visited_set s"
  shows "U < n \<and> (\<exists>p \<in> visited_set s. Parent s ! U = int p \<and> ({p, U}, Key s ! U) \<in> E)"
proof -
  have f: "frontier n E s" and "U \<noteq> 0"
    using assms(1,4) by (cases "U = 0"; simp add: prim_inv_def grown_def)+
  moreover have "U < n" "Key s ! U < PRIM_INF"
    using f queue_top_in [OF assms(2)] assms(3) by (cases "queue_top (Queue s)"; auto simp: frontier_def)+
  ultimately show ?thesis
    by (simp add: frontier_def)
qed

lemma visit_correct:
  assumes "represents Graph n E" "edges_ok n E" "frontier n E s" "grown n E s" "U \<in> visited_set s"
    "relaxed_from E (visited_set s - {U}) s"
  shows "\<exists>s'. prim_edges U (Graph ! U) s = Some s' \<and> prim_inv n E s'"
proof -
  have "U < n"
    using assms(3,5) by (simp add: frontier_def visited_set_def)
  then have adj: "(v, w) \<in> set (Graph ! U) \<longleftrightarrow> ({U, v}, w) \<in> E" for v w
    using assms(1) by (simp add: represents_def)
  have es: "\<forall>(v, w)\<in>set (Graph ! U). v < n \<and> w < PRIM_INF \<and> ({U, v}, w) \<in> E"
    using assms(2) unfolding edges_ok_def by (fastforce simp: adj)
  have "0 \<in> visited_set s"
    using assms(4) by (simp add: grown_def)
  from prim_edges_correct [OF assms(3,5) this es] obtain s' where s': "prim_edges U (Graph ! U) s = Some s'"
    "frontier n E s'" "keeps s s'" "\<forall>(v, w)\<in>set (Graph ! U). v \<notin> visited_set s \<longrightarrow> Key s' ! v \<le> w"
    by blast
  have "relaxed_from E (visited_set s') s'"
    unfolding relaxed_from_def keeps_visited [OF s'(3)]
  proof (intro ballI allI impI)
    fix u v w assume h: "u \<in> visited_set s" "({u, v}, w) \<in> E" "v \<notin> visited_set s"
    show "Key s' ! v \<le> w"
    proof (cases "u = U")
      case True
      then show ?thesis
        using s'(4) h adj by auto
    next
      case False
      then have "Key s ! v \<le> w"
        using assms(6) h by (auto simp: relaxed_from_def)
      then show ?thesis
        using s'(3) h(3) by (force simp: keeps_def)
    qed
  qed
  then show ?thesis
    using s' grown_keeps [OF s'(3) assms(4)] by (auto simp: prim_inv_def)
qed

lemma prim_loop_correct:
  assumes "represents Graph n E" "edges_ok n E" "prim_inv n E s"
  shows "\<exists>s'. prim_loop Graph s = Some s' \<and> prim_inv n E s' \<and> Queue s' = []"
  using assms
proof (induction Graph s rule: prim_loop.induct)
  case (1 Graph s)
  let ?x = "queue_top (Queue s)" and ?U = "snd (queue_top (Queue s))"
  let ?s1 = "s\<lparr>Queue := remove1 ?x (Queue s)\<rparr>"
  have len: "length (Visited s) = n" "length Graph = n"
    using 1 by (simp_all add: prim_inv_def frontier_def represents_def)
  have f: "frontier n E s" "relaxed_from E (visited_set s) s" "grown n E s"
    using 1 by (simp_all add: prim_inv_def)
  show ?case
  proof (cases "Queue s = []")
    case True
    then show ?thesis
      using 1 by (simp add: prim_loop.simps)
  next
    case False
    have U: "?U < n"
      using f(1) queue_top_in [OF False] by (cases ?x) (auto simp: frontier_def)
    show ?thesis
    proof (cases "Visited s ! ?U")
      case True
      then have "prim_inv n E ?s1"
        using f frontier_pop [of n E s ?x] U len
        by (auto simp: prim_inv_def relaxed_from_def grown_def visited_set_def tree_edges_def)
      then show ?thesis
        using 1 False True U len by (subst prim_loop.simps) (auto simp: Let_def)
    next
      case unvisited: False
      then have nin: "?U \<notin> visited_set s"
        by (simp add: visited_set_def)
      obtain p where p: "p \<in> visited_set s" "Parent s ! ?U = int p" "({p, ?U}, Key s ! ?U) \<in> E"
        using top_has_parent [OF 1(5) False refl nin] by blast
      let ?s2 = "s\<lparr>Queue := remove1 ?x (Queue s), Visited := (Visited s)[?U := True]\<rparr>"
      have "grown n E ?s2"
        using f(3) len(1) U nin p by (rule grown_visit) (rule top_is_light [OF 1(5,4) False refl nin])
      moreover have "visited_set ?s2 = insert ?U (visited_set s)"
        using visited_set_visit U len by simp
      moreover have "relaxed_from E (visited_set s) ?s2"
        using f(2) by (auto simp: relaxed_from_def visited_set_visit U len)
      ultimately have "\<exists>s'. prim_edges ?U (Graph ! ?U) ?s2 = Some s' \<and> prim_inv n E s'"
        using nin by (intro visit_correct [OF 1(3,4) frontier_visit [OF f(1) U refl]]) simp_all
      then obtain s' where s': "prim_edges ?U (Graph ! ?U) ?s2 = Some s'" "prim_inv n E s'"
        by blast
      then have "prim_visit Graph ?U ?s1 = Some s'"
        using U len by (simp add: prim_visit_def)
      then show ?thesis
        using 1(2) [OF False refl refl _ unvisited, of s'] 1(3,4) s' False unvisited U len
        by (subst prim_loop.simps) (simp add: Let_def)
    qed
  qed
qed


lemma prim_run_correct:
  assumes "represents Graph n E" "edges_ok n E" "0 < n"
  shows "\<exists>s. prim_run Graph n = Some s \<and> prim_inv n E s \<and> Queue s = []"
proof -
  let ?s0 = "(prim_init n)\<lparr>Queue := [], Visited := (replicate n False)[0 := True]\<rparr>"
  have vs: "visited_set ?s0 = {0}"
    using assms(3) by (auto simp: visited_set_def nth_list_update split: if_splits)
  have "frontier n E ?s0"
    unfolding frontier_def vs by (auto simp: prim_init_def)
  moreover have "grown n E ?s0"
    unfolding grown_def tree_edges_def vs by auto
  moreover have "relaxed_from E (visited_set ?s0 - {0}) ?s0"
    unfolding vs by (simp add: relaxed_from_def)
  ultimately have "\<exists>s. prim_edges 0 (Graph ! 0) ?s0 = Some s \<and> prim_inv n E s"
    by (intro visit_correct [OF assms(1,2)]) (simp_all only: vs singletonI)
  then obtain s1 where s1: "prim_edges 0 (Graph ! 0) ?s0 = Some s1" "prim_inv n E s1"
    by blast
  have "prim_loop Graph (prim_init n) = prim_loop Graph s1"
    using s1(1) assms by (subst prim_loop.simps) (simp add: prim_init_def prim_visit_def represents_def)
  then show ?thesis
    using prim_loop_correct [OF assms(1,2) s1(2)] assms(3) by (simp add: prim_run_def)
qed

lemma all_visited:
  assumes "prim_inv n E s" "edges_ok n E" "Queue s = []" "\<forall>v < n. (0, v) \<in> joined E"
  shows "visited_set s = {..<n}"
proof (rule ccontr)
  have f: "frontier n E s" "relaxed_from E (visited_set s) s" "0 \<in> visited_set s"
    using assms(1) by (auto simp: prim_inv_def grown_def)
  assume "visited_set s \<noteq> {..<n}"
  then obtain v where v: "v < n" "v \<notin> visited_set s"
    using f(1) by (auto simp: frontier_def visited_set_def)
  then have "(0, v) \<in> joined E"
    using assms(4) by simp
  from joined_crossing [OF this f(3) v(2)]
  obtain y x w where e: "y \<in> visited_set s" "x \<notin> visited_set s" "({y, x}, w) \<in> E"
    by auto
  have "Key s ! x \<le> w"
    using f(2) e unfolding relaxed_from_def by blast
  moreover have "x < n" "w < PRIM_INF"
    using assms(2) e(3) unfolding edges_ok_def by fastforce+
  ultimately have "(Key s ! x, x) \<in> set (Queue s)"
    using f(1) e(2) unfolding frontier_def by auto
  then show False
    using assms(3) by simp
qed

text \<open>The text printed for a tree, and its edges.\<close>

definition tree_text :: "(nat \<Rightarrow> nat) \<Rightarrow> nat \<Rightarrow> string" where
  "tree_text parent n = concat (map (\<lambda>i. std_to_string (int (parent i)) @ '' - '' @
     std_to_string (int i) @ [CHR 0x0A]) [1..<n])"

definition parent_edges :: "(nat \<Rightarrow> nat) \<Rightarrow> (nat \<Rightarrow> int) \<Rightarrow> nat \<Rightarrow> edge set" where
  "parent_edges parent weight n = (\<lambda>i. ({parent i, i}, weight i)) ` {1..<n}"

lemma finished_tree:
  assumes "prim_inv n E s" "edges_ok n E" "visited_set s = {..<n}"
  shows "spanning_tree n E (tree_edges s)
    \<and> (\<forall>T. spanning_tree n E T \<longrightarrow> edges_weight (tree_edges s) \<le> edges_weight T)"
proof -
  have g: "grown n E s"
    using assms(1) by (simp add: prim_inv_def)
  have fin: "finite (tree_edges s)"
    by (simp add: tree_edges_def)
  have st: "spanning_tree n E (tree_edges s)"
    using g fin assms(3) by (simp add: grown_def spanning_tree_def)
  moreover have "edges_weight (tree_edges s) \<le> edges_weight T" if T: "spanning_tree n E T" for T
  proof -
    obtain T' where T': "spanning_tree n E T'" "tree_edges s \<subseteq> T'" "edges_weight T' \<le> edges_weight T"
      using g T by (auto simp: grown_def)
    then have "tree_edges s = T'"
      using st by (intro card_subset_eq) (simp_all add: spanning_tree_def)
    then show ?thesis
      using T'(3) by simp
  qed
  ultimately show ?thesis
    by blast
qed

text \<open>C9: For every connected graph, given by its list of edges of weight less than \<open>INF\<close>, the program
  returns and prints for every vertex but 0 its parent in a spanning tree, and no spanning tree of
  the graph has a smaller weight. Parallel edges, loops and negative weights are allowed.\<close>

theorem prim_minimum_spanning_tree:
  assumes "0 < n" "\<forall>(u, v, w)\<in>set es. u < n \<and> v < n \<and> w < PRIM_INF"
    "\<forall>v < n. (0, v) \<in> joined (edge_set es)"
  shows "\<exists>Graph parent weight. add_edges es (replicate n []) = Some Graph
    \<and> Prim Graph n = Some (tree_text parent n)
    \<and> spanning_tree n (edge_set es) (parent_edges parent weight n)
    \<and> (\<forall>T. spanning_tree n (edge_set es) T \<longrightarrow>
        edges_weight (parent_edges parent weight n) \<le> edges_weight T)"
proof -
  let ?E = "edge_set es"
  have ok: "edges_ok n ?E"
    using assms(2) by (auto simp: edges_ok_def edge_set_def)
  obtain Graph where G: "add_edges es (replicate n []) = Some Graph" "represents Graph n ?E"
    using add_edges_represents [of es n] assms(2) by fastforce
  obtain s where s: "prim_run Graph n = Some s" "prim_inv n ?E s" "Queue s = []"
    using prim_run_correct [OF G(2) ok assms(1)] by blast
  have vs: "visited_set s = {..<n}"
    using all_visited [OF s(2) ok s(3) assms(3)] .
  let ?parent = "\<lambda>i. nat (Parent s ! i)" and ?weight = "\<lambda>i. Key s ! i"
  have te: "tree_edges s = parent_edges ?parent ?weight n"
    unfolding tree_edges_def parent_edges_def vs by (intro image_cong) auto
  have "0 \<le> Parent s ! i" if "i \<in> {1..<n}" for i
  proof -
    have "({nat (Parent s ! i), i}, Key s ! i) \<in> ?E"
      using s(2) that te unfolding prim_inv_def grown_def parent_edges_def by blast
    then have "Key s ! i < PRIM_INF"
      using ok by (auto simp: edges_ok_def)
    then show ?thesis
      using s(2) that by (auto simp: prim_inv_def frontier_def)
  qed
  then have "Prim Graph n = Some (tree_text ?parent n)"
    unfolding Prim_def tree_text_def s(1)
    by (auto intro!: arg_cong [where f = concat])
  then show ?thesis
    using G(1) finished_tree [OF s(2) ok vs] te by metis
qed

theorem prim_minimum_spanning_tree_witness:
  "\<exists>Graph parent weight. add_edges [(0, 1, 4), (1, 2, - 3), (0, 2, 1)] (replicate 3 []) = Some Graph
    \<and> Prim Graph 3 = Some (tree_text parent 3)
    \<and> spanning_tree 3 (edge_set [(0, 1, 4), (1, 2, - 3), (0, 2, 1)]) (parent_edges parent weight 3)
    \<and> (\<forall>T. spanning_tree 3 (edge_set [(0, 1, 4), (1, 2, - 3), (0, 2, 1)]) T \<longrightarrow>
        edges_weight (parent_edges parent weight 3) \<le> edges_weight T)"
proof (rule prim_minimum_spanning_tree)
  let ?E = "edge_set [(0, 1, 4), (1, 2, - 3), (0, 2, 1)]"
  have "(0, 1) \<in> joined ?E" "(0, 2) \<in> joined ?E"
    by (rule joined_edge [of _ _ 4], simp add: edge_set_def)
      (rule joined_edge [of _ _ 1], simp add: edge_set_def)
  then show "\<forall>v < 3. (0, v) \<in> joined ?E"
    by (auto simp: numeral_3_eq_3 less_Suc_eq numeral_2_eq_2)
qed (simp_all add: PRIM_INF_def)

end
