(* ===== verification/Tree_Programs.thy ===== *)
theory Tree_Programs
  imports Binary_Tree "HOL-Library.Sublist"
begin

text \<open>
  The other programs of \<^verbatim>\<open>yandex_tasks/trees\<close>. Six of them build the tree of \<^verbatim>\<open>avl.cpp\<close> with the same
  functions and differ in what they print: all values, the leaves, the nodes with one or with two
  children, the height, or the second largest value. \<^verbatim>\<open>frequency.cpp\<close> also inserts repeated values
  and counts them in a \<open>std::map\<close>, here the list of its entries in the order of iteration. Output is
  the list of the numbers printed.
\<close>

subsection \<open>The programs\<close>

text \<open>\<^verbatim>\<open>leaf_output.cpp\<close>, \<^verbatim>\<open>one_child_parents_output.cpp\<close>, \<^verbatim>\<open>parents_output.cpp\<close> and \<^verbatim>\<open>traverse.cpp\<close>\<close>

fun print_leaves :: "tree_node \<Rightarrow> int list" where
  "print_leaves nullptr = []"
| "print_leaves (TreeNode l v r) =
     print_leaves l @ (if l = nullptr \<and> r = nullptr then [v] else []) @ print_leaves r"

fun print_one_child :: "tree_node \<Rightarrow> int list" where
  "print_one_child nullptr = []"
| "print_one_child (TreeNode l v r) =
     print_one_child l @
     (if (l = nullptr \<and> r \<noteq> nullptr) \<or> (l \<noteq> nullptr \<and> r = nullptr) then [v] else []) @ print_one_child r"

fun print_parents :: "tree_node \<Rightarrow> int list" where
  "print_parents nullptr = []"
| "print_parents (TreeNode l v r) =
     print_parents l @ (if l \<noteq> nullptr \<and> r \<noteq> nullptr then [v] else []) @ print_parents r"

fun print_all :: "tree_node \<Rightarrow> int list" where
  "print_all nullptr = []"
| "print_all (TreeNode l v r) = print_all l @ [v] @ print_all r"

definition leaf_main :: "int list \<Rightarrow> int list option" where
  "leaf_main input = map_option (\<lambda>t. print_leaves (m_root t)) (read_loop input BinaryTree_ctor)"

definition one_child_main :: "int list \<Rightarrow> int list option" where
  "one_child_main input = map_option (\<lambda>t. print_one_child (m_root t)) (read_loop input BinaryTree_ctor)"

definition parents_main :: "int list \<Rightarrow> int list option" where
  "parents_main input = map_option (\<lambda>t. print_parents (m_root t)) (read_loop input BinaryTree_ctor)"

definition traverse_main :: "int list \<Rightarrow> int list option" where
  "traverse_main input = map_option (\<lambda>t. print_all (m_root t)) (read_loop input BinaryTree_ctor)"

text \<open>\<^verbatim>\<open>tree_height.cpp\<close>\<close>

definition height_main :: "int list \<Rightarrow> int option" where
  "height_main input = map_option (\<lambda>t. max_depth (m_root t)) (read_loop input BinaryTree_ctor)"

text \<open>\<^verbatim>\<open>second_tree_maximum.cpp\<close>: the counter passed by reference and the member \<open>m_second_max\<close>.\<close>

fun second_largest_leaf :: "tree_node \<Rightarrow> int \<times> int \<Rightarrow> int \<times> int" where
  "second_largest_leaf nullptr s = s"
| "second_largest_leaf (TreeNode l v r) (counter, second_max) =
     (if counter \<ge> 2 then (counter, second_max)
      else case second_largest_leaf r (counter, second_max) of (counter, second_max) \<Rightarrow>
        if counter + 1 = 2 then (counter + 1, v)
        else second_largest_leaf l (counter + 1, second_max))"

definition second_largest_element :: "BinaryTree \<Rightarrow> int" where
  "second_largest_element t = snd (second_largest_leaf (m_root t) (0, 0))"

definition second_max_main :: "int list \<Rightarrow> int option" where
  "second_max_main input = map_option second_largest_element (read_loop input BinaryTree_ctor)"

text \<open>\<^verbatim>\<open>frequency.cpp\<close>\<close>

record CountingTree =
  c_root :: tree_node
  m_value_counts :: "(int \<times> int) list"

fun count_up :: "int \<Rightarrow> (int \<times> int) list \<Rightarrow> (int \<times> int) list" where
  "count_up key [] = [(key, 1)]"
| "count_up key ((k, c) # m) =
     (if k < key then (k, c) # count_up key m
      else if k = key then (k, c + 1) # m
      else (key, 1) # (k, c) # m)"

fun insert_repeated_leaf :: "int \<Rightarrow> tree_node \<Rightarrow> tree_node option" where
  "insert_repeated_leaf key nullptr = None"
| "insert_repeated_leaf key (TreeNode l v r) =
     (if key < v
      then if l \<noteq> nullptr then map_option (\<lambda>l. TreeNode l v r) (insert_repeated_leaf key l)
           else Some (TreeNode (TreeNode nullptr key nullptr) v r)
      else if key \<ge> v
      then if r \<noteq> nullptr then map_option (\<lambda>r. TreeNode l v r) (insert_repeated_leaf key r)
           else Some (TreeNode l v (TreeNode nullptr key nullptr))
      else Some (TreeNode l v r))"

definition counting_insert :: "int \<Rightarrow> CountingTree \<Rightarrow> CountingTree option" where
  "counting_insert key t =
     (if c_root t \<noteq> nullptr then
        map_option (\<lambda>r. \<lparr>c_root = r, m_value_counts = count_up key (m_value_counts t)\<rparr>)
          (insert_repeated_leaf key (c_root t))
      else Some \<lparr>c_root = TreeNode nullptr key nullptr, m_value_counts = count_up key (m_value_counts t)\<rparr>)"

fun counting_read_loop :: "int list \<Rightarrow> CountingTree \<Rightarrow> CountingTree option" where
  "counting_read_loop [] t = None"
| "counting_read_loop (entered # input) t =
     (if entered = 0 then Some t else Option.bind (counting_insert entered t) (counting_read_loop input))"

definition frequency_main :: "int list \<Rightarrow> (int \<times> int) list option" where
  "frequency_main input =
     map_option m_value_counts (counting_read_loop input \<lparr>c_root = nullptr, m_value_counts = []\<rparr>)"

subsection \<open>What is printed\<close>

lemma print_all_in_order: "print_all t = in_order t"
  by (induction t) simp_all

lemma printed_kinds: "mset (in_order t) = mset (print_leaves t) + mset (print_one_child t) + mset (print_parents t)"
  by (induction t) auto

lemma printed_subsequences:
  "subseq (print_leaves t) (in_order t)" "subseq (print_one_child t) (in_order t)"
  "subseq (print_parents t) (in_order t)"
  by (induction t) (auto intro: list_emb_append_mono)

lemma leaves_and_parents: "t \<noteq> nullptr \<Longrightarrow> length (print_leaves t) = length (print_parents t) + 1"
proof (induction t)
  case (TreeNode l v r)
  then show ?case
    by (cases "l = nullptr"; cases "r = nullptr") simp_all
qed simp

text \<open>The largest values, in falling order, as far as the counter allows.\<close>

lemma second_largest_leaf_spec:
  assumes "0 \<le> c" "c < 2"
  shows "second_largest_leaf t (c, m) = (if c + int (length (in_order t)) < 2 then (c + int (length (in_order t)), m)
     else (fst (second_largest_leaf t (c, m)), rev (in_order t) ! nat (1 - c)))
   \<and> (2 \<le> c + int (length (in_order t)) \<longrightarrow> 2 \<le> fst (second_largest_leaf t (c, m)))"
  using assms
proof (induction t arbitrary: c m)
  case (TreeNode l v r)
  obtain c1 m1 where s1: "second_largest_leaf r (c, m) = (c1, m1)"
    by (cases "second_largest_leaf r (c, m)")
  note r = TreeNode.IH(2) [OF TreeNode.prems, of m, unfolded s1]
  show ?case
  proof (cases "c + int (length (in_order r)) < 2")
    case False
    then have "2 \<le> c1" "m1 = rev (in_order r) ! nat (1 - c)"
      using r by simp_all
    moreover have "second_largest_leaf l (c1 + 1, m1) = (c1 + 1, m1)"
      using \<open>2 \<le> c1\<close> by (cases l) simp_all
    moreover have "nat (1 - c) < length (in_order r)"
      using False TreeNode.prems by linarith
    ultimately show ?thesis
      using s1 False TreeNode.prems by (simp add: nth_append)
  next
    case small: True
    then have c1: "c1 = c + int (length (in_order r))" "m1 = m"
      using r by simp_all
    show ?thesis
    proof (cases "c1 = 1")
      case True
      then have "length (in_order r) = nat (1 - c)"
        using c1 TreeNode.prems by linarith
      then show ?thesis
        using s1 True TreeNode.prems by (simp add: nth_append)
    next
      case False
      then have z: "c = 0" "in_order r = []" "c1 = 0"
        using c1 small TreeNode.prems by (cases "in_order r"; simp)+
      then show ?thesis
        using s1 TreeNode.IH(1) [of 1 m] c1(2) by (auto simp: nth_Cons' nth_append)
    qed
  qed
qed simp


lemma count_up_other: "k \<noteq> key \<Longrightarrow> (k, c) \<in> set (count_up key m) \<longleftrightarrow> (k, c) \<in> set m"
  by (induction key m rule: count_up.induct) auto

lemma count_up_spec:
  assumes "sorted xs" "distinct xs" "key \<in> set xs \<or> f key = 0"
  shows "count_up key (map (\<lambda>x. (x, f x)) xs) =
    map (\<lambda>x. (x, (f(key := f key + 1)) x)) (if key \<in> set xs then xs else insort key xs)"
  using assms
proof (induction xs)
  case (Cons x xs)
  show ?case
  proof (cases x key rule: linorder_cases)
    case less
    then show ?thesis
      using Cons by auto
  next
    case equal
    then show ?thesis
      using Cons.prems by auto
  next
    case greater
    then have "key \<notin> set (x # xs)"
      using Cons.prems(1) by auto
    then show ?thesis
      using greater Cons.prems by auto
  qed
qed simp

lemma insert_repeated_leaf_returns:
  "t \<noteq> nullptr \<Longrightarrow> \<exists>t'. insert_repeated_leaf key t = Some t' \<and> t' \<noteq> nullptr"
  by (induction key t rule: insert_repeated_leaf.induct) auto

lemma counting_insert_spec:
  "\<exists>t'. counting_insert key t = Some t' \<and> m_value_counts t' = count_up key (m_value_counts t)"
  using insert_repeated_leaf_returns [of "c_root t" key] by (auto simp: counting_insert_def)

definition value_counts :: "int list \<Rightarrow> (int \<times> int) list" where
  "value_counts xs = map (\<lambda>x. (x, int (count_list xs x))) (sorted_list_of_set (set xs))"

lemma value_counts_snoc: "count_up x (value_counts xs) = value_counts (xs @ [x])"
proof -
  have f: "int (count_list (xs @ [x]) y) = ((\<lambda>y. int (count_list xs y))(x := int (count_list xs x) + 1)) y" for y
    by simp
  have sl: "sorted_list_of_set (set (xs @ [x])) =
      (if x \<in> set (sorted_list_of_set (set xs)) then sorted_list_of_set (set xs)
       else insort x (sorted_list_of_set (set xs)))"
    by (cases "x \<in> set xs")
      (simp add: insert_absorb del: sorted_list_of_set_insert_remove, simp)
  show ?thesis
    unfolding value_counts_def f sl by (rule count_up_spec) (auto simp: count_list_0_iff)
qed

lemma counting_read_loop_spec:
  assumes "0 \<notin> set xs" "m_value_counts t = value_counts seen"
  shows "\<exists>t'. counting_read_loop (xs @ 0 # ys) t = Some t' \<and> m_value_counts t' = value_counts (seen @ xs)"
  using assms
proof (induction xs arbitrary: t seen)
  case (Cons x xs)
  obtain t1 where t1: "counting_insert x t = Some t1" "m_value_counts t1 = count_up x (m_value_counts t)"
    using counting_insert_spec by blast
  then have "m_value_counts t1 = value_counts (seen @ [x])"
    using Cons.prems(2) value_counts_snoc by simp
  from Cons.IH [OF _ this] show ?case
    using Cons.prems(1) t1(1) by auto
qed simp

lemma sorted_subsequence: "sorted ys \<Longrightarrow> subseq xs ys \<Longrightarrow> sorted xs"
  by (metis sorted_wrt_iff_nth_less sorted_wrt_map_mono subseq_conv_nths sorted_nths)

subsection \<open>Properties\<close>

text \<open>For every input up to the terminating zero, the programs that print leaves, nodes with one
  child and nodes with two children print rising sequences that together have every different
  number of the input once, and there is one leaf more than nodes with two children.\<close>

theorem node_kinds_partition:
  assumes "0 \<notin> set xs"
  shows "\<exists>leaves ones parents. leaf_main (xs @ 0 # ys) = Some leaves
    \<and> one_child_main (xs @ 0 # ys) = Some ones \<and> parents_main (xs @ 0 # ys) = Some parents
    \<and> sorted leaves \<and> sorted ones \<and> sorted parents
    \<and> mset leaves + mset ones + mset parents = mset_set (set xs)
    \<and> (xs \<noteq> [] \<longrightarrow> length leaves = length parents + 1)"
proof -
  obtain t where t: "read_loop (xs @ 0 # ys) BinaryTree_ctor = Some t" "search_tree (m_root t)"
    "keys (m_root t) = set xs"
    using read_loop_ok [of BinaryTree_ctor xs ys] assms by (auto simp: BinaryTree_ctor_def)
  have io: "in_order (m_root t) = sorted_list_of_set (set xs)" "sorted (in_order (m_root t))"
    using in_order_unique [OF t(2)] t(3) sorted_in_order [OF t(2)] by simp_all
  have "mset (print_leaves (m_root t)) + mset (print_one_child (m_root t)) + mset (print_parents (m_root t))
      = mset_set (set xs)"
    unfolding printed_kinds [symmetric] io(1)
    using mset_set_set [of "sorted_list_of_set (set xs)"] by simp
  moreover have "length (print_leaves (m_root t)) = length (print_parents (m_root t)) + 1" if "xs \<noteq> []"
    using that t(3) by (intro leaves_and_parents) auto
  ultimately show ?thesis
    using t(1) sorted_subsequence [OF io(2)] printed_subsequences [of "m_root t"]
    by (simp add: leaf_main_def one_child_main_def parents_main_def)
qed

text \<open>\<^verbatim>\<open>second_tree_maximum.cpp\<close> prints the largest number of the input that is smaller than its
  maximum, whenever the input has two different numbers.\<close>

theorem second_max_correct:
  assumes "0 \<notin> set xs" "2 \<le> card (set xs)"
  shows "second_max_main (xs @ 0 # ys) = Some (Max (set xs - {Max (set xs)}))"
proof -
  obtain t where t: "read_loop (xs @ 0 # ys) BinaryTree_ctor = Some t" "search_tree (m_root t)"
    "keys (m_root t) = set xs"
    using read_loop_ok [of BinaryTree_ctor xs ys] assms by (auto simp: BinaryTree_ctor_def)
  define L where "L = in_order (m_root t)"
  have L: "L = sorted_list_of_set (set xs)" "sorted L" "distinct L" "set L = set xs" "2 \<le> length L"
    using in_order_unique [OF t(2)] t(3) assms(2) by (simp_all add: L_def)
  have main: "second_max_main (xs @ 0 # ys) = Some (rev L ! 1)"
    using second_largest_leaf_spec [of 0 "m_root t" 0] t(1) L(5)
    unfolding L_def [symmetric] second_max_main_def second_largest_element_def
    by (metis (no_types, lifting) add_0 not_less of_nat_le_iff of_nat_numeral option.map(2) snd_conv
        diff_zero nat_one_as_int order_refl zero_less_numeral)
  obtain a b M where M: "L = M @ [a, b]"
    using L(5) by (metis append_butlast_last_id append.assoc append_Cons append_Nil butlast.simps(1)
        length_butlast list.size(3) not_numeral_le_zero numeral_2_eq_2 Suc_le_D diff_Suc_1 nat.distinct(1) le_zero_eq
        Suc_le_mono)
  have "Max (set L) = b"
    by (rule Max_eqI) (use L(2) M in \<open>auto simp: sorted_append\<close>)
  moreover have "Max (set L - {b}) = a"
    by (rule Max_eqI) (use L(2,3) M in \<open>auto simp: sorted_append\<close>)
  ultimately have "Max (set xs - {Max (set xs)}) = a"
    unfolding L(4) by simp
  then show ?thesis
    using main M by simp
qed

text \<open>\<^verbatim>\<open>frequency.cpp\<close> prints every different number of the input in increasing order with the
  number of times it was read.\<close>

theorem frequency_correct:
  assumes "0 \<notin> set xs"
  shows "frequency_main (xs @ 0 # ys) =
    Some (map (\<lambda>x. (x, int (count_list xs x))) (sorted_list_of_set (set xs)))"
  using counting_read_loop_spec [OF assms, of "\<lparr>c_root = nullptr, m_value_counts = []\<rparr>" "[]" ys]
  by (auto simp: frequency_main_def value_counts_def)

theorem node_kinds_partition_witness:
  "\<exists>leaves ones parents. leaf_main [5, 2, 8, 9, 0] = Some leaves
    \<and> one_child_main [5, 2, 8, 9, 0] = Some ones \<and> parents_main [5, 2, 8, 9, 0] = Some parents
    \<and> mset leaves + mset ones + mset parents = mset_set {2, 5, 8, 9} \<and> length leaves = length parents + 1"
  using node_kinds_partition [of "[5, 2, 8, 9]" "[]"] by (auto simp: insert_commute)

theorem second_max_correct_witness:
  "second_max_main [5, 2, 8, 9, 8, 0] = Some (Max (set [5, 2, 8, 9, 8] - {Max (set [5, 2, 8, 9, 8])}))
   \<and> Max (set [5, 2, 8, 9, 8 :: int] - {Max (set [5, 2, 8, 9, 8])}) = 8"
  using second_max_correct [of "[5, 2, 8, 9, 8]" "[]"] by (simp add: insert_Diff_if)

theorem frequency_correct_witness:
  "frequency_main [5, 2, 5, 0] = Some [(2, 1), (5, 2)]"
  using frequency_correct [of "[5, 2, 5]" "[]"] by (simp add: insert_Diff_if)

end
