(* ===== verification/Finite_Automata.thy ===== *)
theory Finite_Automata
  imports Json_Parser "HOL-Library.Char_ord" "HOL-Library.List_Lexorder"
begin

text \<open>
  The finite automata of \<^verbatim>\<open>Sandbox/finite_automata.hpp\<close>: the class template, the splitting of a text into
  words, and the two interactive programs. A \<open>std::map\<close> is the list of its entries in the order of the
  keys, a \<open>std::multiset\<close> the sorted list of its elements; \<open>operator[]\<close> creates the missing row of a
  state as in the code. The programs read words from the standard input; when there is none left,
  \<open>std::cin >> transition\<close> leaves the empty string. \<open>None\<close> is a loop that does not end. The strings of
  the programs are the bytes of their UTF-8 texts.
\<close>

subsection \<open>The class\<close>

fun map_put :: "'k::linorder \<Rightarrow> 'v \<Rightarrow> ('k \<times> 'v) list \<Rightarrow> ('k \<times> 'v) list" where
  "map_put k v [] = [(k, v)]"
| "map_put k v ((k', v') # m) =
     (if k' < k then (k', v') # map_put k v m
      else if k' = k then (k, v) # m
      else (k, v) # (k', v') # m)"

record ('s, 't) finite_automata =
  current_state :: 's
  state_pool :: "('s \<times> ('t \<times> 's) list) list"

definition fa_set :: "'s \<Rightarrow> ('s, 't) finite_automata \<Rightarrow> ('s, 't) finite_automata" where
  "fa_set state a = a\<lparr>current_state := state\<rparr>"

definition fa_ctor :: "'s \<Rightarrow> ('s, 't) finite_automata" where
  "fa_ctor initial = \<lparr>current_state = initial, state_pool = []\<rparr>"

definition fa_get :: "('s, 't) finite_automata \<Rightarrow> 's" where
  "fa_get a = current_state a"

definition fa_clear :: "('s, 't) finite_automata \<Rightarrow> ('s, 't) finite_automata" where
  "fa_clear a = a\<lparr>state_pool := []\<rparr>"

definition pool_row :: "'s \<Rightarrow> ('s, 't) finite_automata \<Rightarrow> ('t \<times> 's) list" where
  "pool_row state a = (case map_of (state_pool a) state of None \<Rightarrow> [] | Some row \<Rightarrow> row)"

definition fa_add :: "'s::linorder \<Rightarrow> 't::linorder \<Rightarrow> 's \<Rightarrow> ('s, 't) finite_automata \<Rightarrow> ('s, 't) finite_automata" where
  "fa_add state transition next a =
     a\<lparr>state_pool := map_put state (map_put transition next (pool_row state a)) (state_pool a)\<rparr>"

definition fa_process :: "'t \<Rightarrow> ('s::linorder, 't) finite_automata \<Rightarrow> bool \<times> ('s, 't) finite_automata" where
  "fa_process transition a =
     (let transitions = pool_row (current_state a) a;
          a1 = a\<lparr>state_pool := map_put (current_state a) transitions (state_pool a)\<rparr>
      in case map_of transitions transition of
           None \<Rightarrow> (False, a1)
         | Some next \<Rightarrow> (True, fa_set next a1))"

definition fa_process_self :: "('s::linorder, 's) finite_automata \<Rightarrow> bool \<times> ('s, 's) finite_automata" where
  "fa_process_self a = fa_process (fa_get a) a"

definition get_valid_transitions :: "'s \<Rightarrow> ('s, 't) finite_automata \<Rightarrow> bool \<times> 't list" where
  "get_valid_transitions state a = (case map_of (state_pool a) state of
     None \<Rightarrow> (False, [])
   | Some transitions \<Rightarrow> if transitions = [] then (False, []) else (True, map fst transitions))"

subsection \<open>Splitting a text\<close>

function split_words :: "(char \<Rightarrow> bool) \<Rightarrow> string \<Rightarrow> string list" where
  "split_words delim data = (case dropWhile delim data of
     [] \<Rightarrow> []
   | c # cs \<Rightarrow> let word = takeWhile (\<lambda>x. \<not> delim x) (c # cs); rest = dropWhile (\<lambda>x. \<not> delim x) (c # cs)
       in word # (if rest = [] then [] else split_words delim rest))"
  by pat_completeness auto
termination
proof (relation "measure (\<lambda>(delim, data). length data)", goal_cases)
  case (2 delim data c cs word rest)
  have "\<not> delim c"
    using 2(1) by (metis hd_dropWhile list.distinct(1) list.sel(1))
  then have "length rest \<le> length cs"
    using 2(3) by (simp add: length_dropWhile_le)
  moreover have "length (c # cs) \<le> length data"
    using 2(1) length_dropWhile_le [of delim data] by simp
  ultimately show ?case
    by simp
qed simp

declare split_words.simps [simp del]

subsection \<open>The interactive programs\<close>

definition endl :: string where
  "endl = [CHR 0x0A]"

fun join_items :: "string \<Rightarrow> string list \<Rightarrow> string" where
  "join_items acc [] = acc"
| "join_items acc (t # ts) = join_items ((if acc \<noteq> [] then acc @ '', '' else acc) @ t) ts"

definition print_current_state :: "string \<Rightarrow> (string, string) finite_automata \<Rightarrow> string" where
  "print_current_state current a =
     ''['' @ current @ ''] Waiting for input ('' @ join_items [] (snd (get_valid_transitions (fa_get a) a)) @ ''): '' @ endl"

text \<open>The end of one round: the prompt, the word read, and the attempt to follow it.\<close>

definition dialog_turn :: "string \<Rightarrow> (string, string) finite_automata \<Rightarrow> string list \<Rightarrow> string \<Rightarrow>
    (string, string) finite_automata \<times> string list \<times> string" where
  "dialog_turn current a tokens out =
     (let transition = (case tokens of [] \<Rightarrow> [] | t # _ \<Rightarrow> t);
          r = fa_process transition a
      in (snd r, drop 1 tokens, out @ print_current_state current a @ '' > '' @
           (if fst r then [] else ''Error: invalid transition: '' @ transition @ endl)))"

partial_function (option) dialog_loop :: "string \<Rightarrow> string list \<Rightarrow> string \<Rightarrow> (string, string) finite_automata \<Rightarrow>
    string list \<Rightarrow> string list \<Rightarrow> string \<Rightarrow> (string list \<times> string) option" where
  "dialog_loop exit idle back a tokens selected out =
     (if fa_get a = exit then Some (selected, out)
      else if fa_get a \<in> set idle then
        (case dialog_turn (fa_get a) a tokens out of (a', tokens', out') \<Rightarrow>
           dialog_loop exit idle back a' tokens' selected out')
      else case stoi (fa_get a) of
        Inl e \<Rightarrow> Some (selected, out @ ''Wrong item: '' @ fa_get a @ endl)
      | Inr selected_item \<Rightarrow>
          (case dialog_turn (fa_get a) (snd (fa_process back a)) tokens out of (a', tokens', out') \<Rightarrow>
             dialog_loop exit idle back a' tokens' (insort (std_to_string selected_item) selected) out'))"

definition dialog_result :: "string \<Rightarrow> string list \<times> string \<Rightarrow> string" where
  "dialog_result label r = (case r of (selected, out) \<Rightarrow>
     out @ (if join_items [] selected \<noteq> [] then label @ join_items [] selected @ endl else []))"

definition ru_exit :: string where
  "ru_exit = [CHR 0xD0, CHR 0xB2, CHR 0xD1, CHR 0x8B, CHR 0xD1, CHR 0x85, CHR 0xD0, CHR 0xBE, CHR 0xD0, CHR 0xB4]"

definition ru_start :: string where
  "ru_start = [CHR 0xD1, CHR 0x81, CHR 0xD1, CHR 0x82, CHR 0xD0, CHR 0xB0, CHR 0xD1, CHR 0x80, CHR 0xD1, CHR 0x82]"

definition ru_menu :: string where
  "ru_menu = [CHR 0xD0, CHR 0xBC, CHR 0xD0, CHR 0xB5, CHR 0xD0, CHR 0xBD, CHR 0xD1, CHR 0x8E]"

definition ru_choice :: string where
  "ru_choice = ''You '' @ [CHR 0xD0, CHR 0xB2, CHR 0xD1, CHR 0x8B, CHR 0xD0, CHR 0xB1, CHR 0xD0, CHR 0xBE,
     CHR 0xD1, CHR 0x80] @ '': ''"

fun add_all :: "(string \<times> string \<times> string) list \<Rightarrow> (string, string) finite_automata \<Rightarrow> (string, string) finite_automata" where
  "add_all [] a = a"
| "add_all ((s, t, n) # es) a = add_all es (fa_add s t n a)"

definition ru_init :: string where
    "ru_init = [CHR 0xD0, CHR 0xB8, CHR 0xD0, CHR 0xBD, CHR 0xD0, CHR 0xB8, CHR 0xD1, CHR 0x82]"

definition ru_speak :: string where
    "ru_speak = [CHR 0xD0, CHR 0xB3, CHR 0xD0, CHR 0xBE, CHR 0xD0, CHR 0xB2, CHR 0xD0, CHR 0xBE, CHR
     0xD1, CHR 0x80, CHR 0xD0, CHR 0xB8]"

definition ru_polite :: string where
    "ru_polite = [CHR 0xD0, CHR 0xB2, CHR 0xD0, CHR 0xB5, CHR 0xD0, CHR 0xB6, CHR 0xD0, CHR 0xBB, CHR
     0xD0, CHR 0xB8, CHR 0xD0, CHR 0xB2, CHR 0xD0, CHR 0xBE]"

definition ru_rude :: string where
    "ru_rude = [CHR 0xD0, CHR 0xB0, CHR 0xD0, CHR 0xB3, CHR 0xD1, CHR 0x80, CHR 0xD0, CHR 0xB5, CHR
     0xD1, CHR 0x81, CHR 0xD1, CHR 0x81, CHR 0xD0, CHR 0xB8, CHR 0xD0, CHR 0xB2, CHR 0xD0, CHR 0xBD, CHR
     0xD0, CHR 0xBE]"

definition set_dialog_states :: "(string, string) finite_automata \<Rightarrow> (string, string) finite_automata" where
  "set_dialog_states fa = fa_set ru_init (add_all [(ru_init, ru_exit, ru_exit), (ru_init, ru_speak, ru_speak),
     (ru_speak, ru_exit, ru_exit), (ru_speak, ru_polite, ru_polite), (ru_speak, ru_rude, ru_rude),
     (ru_rude, ru_speak, ru_speak), (ru_polite, ru_speak, ru_speak)] fa)"

definition user_input_automata :: "(string, string) finite_automata" where
  "user_input_automata = fa_set ru_start (add_all [(ru_start, ru_exit, ru_exit), (ru_start, ru_menu, ru_menu),
     (ru_menu, ''1'', ''1''), (ru_menu, ''2'', ''2''), (ru_menu, ''3'', ''3''),
     (''1'', ru_menu, ru_menu), (''2'', ru_menu, ru_menu), (''3'', ru_menu, ru_menu),
     (ru_menu, ru_exit, ru_start)] (fa_ctor []))"

definition test_automata :: "(string, string) finite_automata" where
  "test_automata = fa_set ''ready'' (add_all [(''ready'', ru_exit, ru_exit), (''ready'', ru_start, ru_start),
     (ru_start, ru_exit, ru_exit), (ru_start, ''select'', ''select''),
     (''select'', ''1'', ''1''), (''select'', ''2'', ''2''), (''select'', ''3'', ''3''),
     (''1'', ''select'', ''select''), (''2'', ''select'', ''select''), (''3'', ''select'', ''select''),
     (''select'', ru_exit, ru_start)] (fa_ctor []))"

definition run_user_input :: "string list \<Rightarrow> string option" where
  "run_user_input tokens = map_option (dialog_result ru_choice)
     (dialog_loop ru_exit [ru_start, ru_menu] ru_menu user_input_automata tokens [] [])"

definition run_automata_test :: "string list \<Rightarrow> string option" where
  "run_automata_test tokens = map_option (dialog_result ''You select: '')
     (dialog_loop ru_exit [ru_start, ''ready'', ''select''] ''select'' test_automata tokens [] [])"

end
