(* ===== verification/Finite_Automata_Correct.thy ===== *)
theory Finite_Automata_Correct
  imports Finite_Automata
begin

text \<open>
  What the automata do: the class implements a partial transition function, and the two interactive
  programs, whose states are strings, behave as dialogs with a few phases (locale \<open>dialog_program\<close>).
\<close>

subsection \<open>The class implements a transition function\<close>

definition delta :: "('s, 't) finite_automata \<Rightarrow> 's \<Rightarrow> 't \<Rightarrow> 's option" where
  "delta a s t = map_of (pool_row s a) t"

lemma map_of_map_put: "map_of (map_put k v m) = (map_of m)(k \<mapsto> v)"
  by (induction k v m rule: map_put.induct) (auto simp: fun_eq_iff)

lemma pool_row_put:
  "pool_row s (a\<lparr>state_pool := map_put s' row (state_pool a)\<rparr>) = (if s = s' then row else pool_row s a)"
  by (simp add: pool_row_def map_of_map_put)

lemma delta_add [simp]:
  "delta (fa_add s t n a) = (\<lambda>s' t'. if s' = s \<and> t' = t then Some n else delta a s' t')"
  by (auto simp: fun_eq_iff delta_def fa_add_def pool_row_put map_of_map_put)

lemma delta_set [simp]: "delta (fa_set s a) = delta a"
  by (simp add: fun_eq_iff delta_def fa_set_def pool_row_def)

lemma delta_ctor [simp]: "delta (fa_ctor s) = (\<lambda>_ _. None)"
  by (simp add: fun_eq_iff delta_def fa_ctor_def pool_row_def)

lemma process_spec:
  "fa_process t a = (case delta a (current_state a) t of None \<Rightarrow> (False, snd (fa_process t a))
     | Some n \<Rightarrow> (True, snd (fa_process t a)))"
  "current_state (snd (fa_process t a)) =
     (case delta a (current_state a) t of None \<Rightarrow> current_state a | Some n \<Rightarrow> n)"
  "delta (snd (fa_process t a)) = delta a"
proof -
  let ?row = "pool_row (current_state a) a"
  let ?a = "a\<lparr>state_pool := map_put (current_state a) ?row (state_pool a)\<rparr>"
  have "delta ?a = delta a"
    by (auto simp: fun_eq_iff delta_def pool_row_put)
  then show "delta (snd (fa_process t a)) = delta a"
    by (simp add: fa_process_def Let_def split: option.split)
  show "fa_process t a = (case delta a (current_state a) t of None \<Rightarrow> (False, snd (fa_process t a))
     | Some n \<Rightarrow> (True, snd (fa_process t a)))"
    by (simp add: fa_process_def delta_def Let_def split: option.split)
  show "current_state (snd (fa_process t a)) =
     (case delta a (current_state a) t of None \<Rightarrow> current_state a | Some n \<Rightarrow> n)"
    by (simp add: fa_process_def delta_def fa_set_def Let_def split: option.split)
qed

text \<open>The maps stay sorted, so the valid transitions are listed in order and once.\<close>

definition keys_rise :: "('k::linorder \<times> 'v) list \<Rightarrow> bool" where
  "keys_rise m \<longleftrightarrow> sorted_wrt (<) (map fst m)"

definition pool_ok :: "('s::linorder, 't::linorder) finite_automata \<Rightarrow> bool" where
  "pool_ok a \<longleftrightarrow> keys_rise (state_pool a) \<and> (\<forall>(s, row)\<in>set (state_pool a). keys_rise row)"

lemma set_map_put: "set (map_put k v m) \<subseteq> insert (k, v) (set m)"
  by (induction k v m rule: map_put.induct) auto

lemma fst_map_put: "fst ` set (map_put k v m) = insert k (fst ` set m)"
  by (induction k v m rule: map_put.induct) auto

lemma keys_rise_put: "keys_rise m \<Longrightarrow> keys_rise (map_put k v m)"
  unfolding keys_rise_def
proof (induction k v m rule: map_put.induct)
  case (2 k v k' v' m)
  have "x \<in> insert k (fst ` set m)" if "x \<in> fst ` set (map_put k v m)" for x
    using that fst_map_put [of k v m] by simp
  then show ?case
    using 2 by fastforce
qed simp

lemma pool_row_rises: "pool_ok a \<Longrightarrow> keys_rise (pool_row s a)"
  by (auto simp: pool_ok_def pool_row_def keys_rise_def dest!: map_of_SomeD split: option.split)

lemma pool_ok_put: "pool_ok a \<Longrightarrow> keys_rise row \<Longrightarrow> pool_ok (a\<lparr>state_pool := map_put s row (state_pool a)\<rparr>)"
  using set_map_put [of s row "state_pool a"] by (auto simp: pool_ok_def keys_rise_put)

lemma pool_ok_ctor: "pool_ok (fa_ctor s)"
  by (simp add: pool_ok_def fa_ctor_def keys_rise_def)

lemma pool_ok_add: "pool_ok a \<Longrightarrow> pool_ok (fa_add s t n a)"
  unfolding fa_add_def by (intro pool_ok_put keys_rise_put pool_row_rises)

lemma pool_ok_set: "pool_ok (fa_set s a) = pool_ok a"
  by (simp add: pool_ok_def fa_set_def)

lemma pool_ok_process: "pool_ok a \<Longrightarrow> pool_ok (snd (fa_process t a))"
  by (simp add: fa_process_def Let_def pool_ok_set pool_ok_put pool_row_rises split: option.split)

lemmas pool_ok_operations = pool_ok_ctor pool_ok_add pool_ok_set pool_ok_process

theorem valid_transitions_complete:
  assumes "pool_ok a"
  shows "\<exists>ts. get_valid_transitions s a = (ts \<noteq> [], ts) \<and> sorted ts \<and> distinct ts
    \<and> set ts = {t. delta a s t \<noteq> None}"
proof -
  have row: "sorted_wrt (<) (map fst (pool_row s a))"
    using pool_row_rises [OF assms] by (simp add: keys_rise_def)
  have "get_valid_transitions s a = (map fst (pool_row s a) \<noteq> [], map fst (pool_row s a))"
    by (simp add: get_valid_transitions_def pool_row_def split: option.split)
  moreover have "fst ` set (pool_row s a) = {t. delta a s t \<noteq> None}"
    unfolding delta_def by (metis dom_def dom_map_of_conv_image_fst)
  ultimately show ?thesis
    using row by (auto simp: strict_sorted_iff intro!: exI [of _ "map fst (pool_row s a)"])
qed

subsection \<open>Words\<close>

text \<open>A text is a list of words, each with the delimiters in front of it, and delimiters at the end.\<close>

definition spaced :: "(char \<Rightarrow> bool) \<Rightarrow> (string \<times> string) list \<Rightarrow> bool" where
  "spaced delim ws \<longleftrightarrow> (\<forall>(sep, w)\<in>set ws. (\<forall>c\<in>set sep. delim c) \<and> w \<noteq> [] \<and> (\<forall>c\<in>set w. \<not> delim c))
     \<and> (\<forall>(sep, w)\<in>set (tl ws). sep \<noteq> [])"

definition spaced_text :: "(string \<times> string) list \<Rightarrow> string \<Rightarrow> string" where
  "spaced_text ws end = concat (map (\<lambda>(sep, w). sep @ w) ws) @ end"

lemma starts_delim:
  assumes "spaced delim ((sep, w) # ws)" "\<forall>c\<in>set end. delim c"
  shows "spaced_text ws end = [] \<or> delim (hd (spaced_text ws end))"
proof (cases ws)
  case Nil
  then show ?thesis
    using assms(2) by (cases "end") (auto simp: spaced_text_def)
next
  case (Cons x xs)
  then have "fst x \<noteq> []" "\<forall>c\<in>set (fst x). delim c"
    using assms(1) by (auto simp: spaced_def)
  then show ?thesis
    using Cons by (cases x; cases "fst x") (auto simp: spaced_text_def)
qed

lemma split_words_blank: "dropWhile delim s = [] \<Longrightarrow> split_words delim s = []"
  by (subst split_words.simps) (simp only: list.case)

theorem split_words_spaced:
  assumes "spaced delim ws" "\<forall>c\<in>set end. delim c"
  shows "split_words delim (spaced_text ws end) = map snd ws"
  using assms
proof (induction ws)
  case Nil
  then have "dropWhile delim (spaced_text [] end) = []"
    by (auto simp: spaced_text_def)
  from split_words_blank [OF this] show ?case
    by simp
next
  case (Cons x ws)
  obtain sep w where x: "x = (sep, w)"
    by (cases x)
  let ?rest = "spaced_text ws end"
  have w: "\<forall>c\<in>set sep. delim c" "w \<noteq> []" "\<forall>c\<in>set w. \<not> delim c" "spaced delim ws"
    using Cons.prems(1) x by (cases ws; auto simp: spaced_def)+
  have st: "?rest = [] \<or> delim (hd ?rest)"
    using starts_delim Cons.prems x by blast
  have "dropWhile delim (spaced_text (x # ws) end) = w @ ?rest"
    using w x by (cases w) (auto simp: spaced_text_def)
  moreover have "takeWhile (\<lambda>c. \<not> delim c) (w @ ?rest) = w" "dropWhile (\<lambda>c. \<not> delim c) (w @ ?rest) = ?rest"
    using w(3) st by (cases ?rest; simp add: takeWhile_append2 dropWhile_append2)+
  moreover obtain c cs where "w @ ?rest = c # cs"
    using w(2) by (cases w) auto
  moreover have "ws = []" if "?rest = []"
    using that w(4) by (cases ws) (auto simp: spaced_text_def spaced_def)
  ultimately show ?case
    using Cons.IH w(4) Cons.prems(2) x by (subst split_words.simps) (auto simp: Let_def)
qed


subsection \<open>Dialogs\<close>

text \<open>A dialog has phases, each with the name of a state. A word leads to another phase or ends the dialog
  (\<open>None\<close>); an item is a word that is recorded, after which the dialog is in the phase \<open>hub\<close>.\<close>

fun dialog_run :: "('p \<Rightarrow> string \<Rightarrow> 'p option) \<Rightarrow> ('p \<Rightarrow> string \<Rightarrow> bool) \<Rightarrow> 'p \<Rightarrow> string list \<Rightarrow> string list option" where
  "dialog_run step item p [] = None"
| "dialog_run step item p (t # ts) = (case step p t of
     None \<Rightarrow> Some []
   | Some p' \<Rightarrow> map_option (\<lambda>chosen. if item p t then t # chosen else chosen) (dialog_run step item p' ts))"

locale dialog_program =
  fixes exit :: string and idle :: "string list" and home :: string
    and a0 :: "(string, string) finite_automata"
    and name :: "'p \<Rightarrow> string"
    and step :: "'p \<Rightarrow> string \<Rightarrow> 'p option"
    and item :: "'p \<Rightarrow> string \<Rightarrow> bool"
    and hub :: 'p
  assumes name_idle: "name p \<in> set idle" "name p \<noteq> exit"
    and no_move: "delta a0 (name p) t = None \<Longrightarrow> step p t = Some p \<and> \<not> item p t"
    and move: "delta a0 (name p) t = Some s \<Longrightarrow>
      (if item p t then s = t \<and> step p t = Some hub
       else s = (case step p t of None \<Rightarrow> exit | Some p' \<Rightarrow> name p'))"
    and items: "item p t \<Longrightarrow> t \<noteq> exit \<and> t \<notin> set idle \<and> (\<exists>n. stoi t = Inr n \<and> std_to_string n = t)
      \<and> delta a0 t home = Some (name hub)"
    and no_empty: "delta a0 (name p) [] = None"
begin

definition in_phase :: "'p \<Rightarrow> (string, string) finite_automata \<Rightarrow> bool" where
  "in_phase p a \<longleftrightarrow> current_state a = name p \<and> delta a = delta a0"

definition on_item :: "string \<Rightarrow> (string, string) finite_automata \<Rightarrow> bool" where
  "on_item t a \<longleftrightarrow> current_state a = t \<and> delta a = delta a0 \<and> (\<exists>p. item p t)"

abbreviation loop :: "(string, string) finite_automata \<Rightarrow> string list \<Rightarrow> string list \<Rightarrow> string \<Rightarrow>
    (string list \<times> string) option" where
  "loop \<equiv> dialog_loop exit idle home"

lemma loop_phase:
  assumes "in_phase p a"
  shows "loop a ts sel out = (case dialog_turn (name p) a ts out of (a', ts', out') \<Rightarrow> loop a' ts' sel out')"
  using assms name_idle [of p] by (subst dialog_loop.simps) (simp add: in_phase_def fa_get_def)

lemma loop_item:
  assumes "on_item t a"
  shows "\<exists>a1. in_phase hub a1 \<and> (\<forall>ts sel out. loop a ts sel out =
    (case dialog_turn t a1 ts out of (a', ts', out') \<Rightarrow> loop a' ts' (insort t sel) out'))"
proof (intro exI conjI allI)
  from assms obtain p where "item p t"
    by (auto simp: on_item_def)
  note t = items [OF this]
  let ?a1 = "snd (fa_process home a)"
  show "in_phase hub ?a1"
    using process_spec(2,3) [of home a] assms t by (simp add: in_phase_def on_item_def)
  show "loop a ts sel out =
    (case dialog_turn t ?a1 ts out of (a', ts', out') \<Rightarrow> loop a' ts' (insort t sel) out')" for ts sel out
    using assms t by (subst dialog_loop.simps) (auto simp: on_item_def fa_get_def)
qed

lemma turn_word:
  assumes "in_phase p a"
  shows "\<exists>a' out'. dialog_turn c a (t # ts) out = (a', ts, out') \<and>
    (case step p t of None \<Rightarrow> current_state a' = exit
     | Some p' \<Rightarrow> if item p t then p' = hub \<and> on_item t a' else in_phase p' a')"
proof -
  let ?a = "snd (fa_process t a)"
  have a: "current_state ?a = (case delta a0 (name p) t of None \<Rightarrow> name p | Some n \<Rightarrow> n)" "delta ?a = delta a0"
    using process_spec(2,3) [of t a] assms by (auto simp: in_phase_def split: option.splits)
  have "case step p t of None \<Rightarrow> current_state ?a = exit
     | Some p' \<Rightarrow> if item p t then p' = hub \<and> on_item t ?a else in_phase p' ?a"
  proof (cases "delta a0 (name p) t")
    case None
    then show ?thesis
      using a no_move [OF None] by (simp add: in_phase_def)
  next
    case (Some s)
    then show ?thesis
      using a move [OF Some] by (auto simp: in_phase_def on_item_def split: if_splits option.splits)
  qed
  then show ?thesis
    by (simp add: dialog_turn_def Let_def)
qed

lemma turn_end:
  assumes "in_phase p a"
  shows "\<exists>a' out'. dialog_turn c a [] out = (a', [], out') \<and> in_phase p a'"
  using process_spec(2,3) [of "[]" a] assms no_empty [of p]
  by (simp add: dialog_turn_def Let_def in_phase_def)

text \<open>Without further input the program never ends.\<close>

definition waiting :: "(string, string) finite_automata \<Rightarrow> bool" where
  "waiting a \<longleftrightarrow> (\<exists>p. in_phase p a) \<or> (\<exists>t. on_item t a)"

lemma waiting_turn:
  assumes "waiting a"
  shows "fa_get a \<noteq> exit \<and> (if fa_get a \<in> set idle
    then \<exists>a' out'. dialog_turn (fa_get a) a [] out = (a', [], out') \<and> waiting a'
    else (\<exists>n. stoi (fa_get a) = Inr n) \<and>
      (\<exists>a' out'. dialog_turn (fa_get a) (snd (fa_process home a)) [] out = (a', [], out') \<and> waiting a'))"
  using assms [unfolded waiting_def]
proof (elim disjE exE)
  fix p assume p: "in_phase p a"
  then show ?thesis
    using name_idle [of p] turn_end [OF p, of "fa_get a" out]
    by (auto simp: in_phase_def fa_get_def waiting_def)
next
  fix t assume o: "on_item t a"
  then obtain q where "item q t"
    by (auto simp: on_item_def)
  note t = items [OF this]
  have "in_phase hub (snd (fa_process home a))"
    using process_spec(2,3) [of home a] o t by (auto simp: in_phase_def on_item_def)
  from turn_end [OF this, of "fa_get a" out] show ?thesis
    using o t by (auto simp: on_item_def fa_get_def waiting_def)
qed

lemma loop_stuck_aux:
  assumes "dialog_loop e i h a ts sel out = Some r"
  shows "e = exit \<longrightarrow> i = idle \<longrightarrow> h = home \<longrightarrow> ts = [] \<longrightarrow> \<not> waiting a"
proof (rule dialog_loop.raw_induct [OF _ assms], goal_cases)
  case (1 f e i h a ts sel out r)
  show ?case
  proof (intro impI notI)
    assume h: "e = exit" "i = idle" "h = home" "ts = []" "waiting a"
    from waiting_turn [OF h(5), of out] show False
      using 1(2) h(1-4) by (auto split: if_splits dest!: 1(1))
  qed
qed

lemma loop_stuck: "waiting a \<Longrightarrow> loop a [] sel out = None"
  using loop_stuck_aux [of exit idle home a "[]" sel out] by (cases "loop a [] sel out") auto

text \<open>The program ends exactly when the dialog does, with its items sorted.\<close>

definition ends_as :: "'p \<Rightarrow> string list \<Rightarrow> string list \<Rightarrow> (string list \<times> string) option \<Rightarrow> bool" where
  "ends_as p ts sel res \<longleftrightarrow> (case dialog_run step item p ts of
     None \<Rightarrow> res = None
   | Some chosen \<Rightarrow> \<exists>out. res = Some (fold insort chosen sel, out))"

lemma turn_ends:
  assumes "in_phase p a"
    and IH: "\<And>a p sel out. in_phase p a \<Longrightarrow> ends_as p ts sel (loop a ts sel out)"
      "\<And>a t sel out. on_item t a \<Longrightarrow> ends_as hub ts (insort t sel) (loop a ts sel out)"
  shows "ends_as p (t # ts) sel (case dialog_turn c a (t # ts) out of (a', ts', out') \<Rightarrow> loop a' ts' sel out')"
proof -
  obtain a' out' where a': "dialog_turn c a (t # ts) out = (a', ts, out')"
    "case step p t of None \<Rightarrow> current_state a' = exit
     | Some p' \<Rightarrow> if item p t then p' = hub \<and> on_item t a' else in_phase p' a'"
    using turn_word [OF assms(1)] by blast
  show ?thesis
  proof (cases "step p t")
    case None
    then have "loop a' ts sel out' = Some (sel, out')"
      using a'(2) by (subst dialog_loop.simps) (simp add: fa_get_def)
    then show ?thesis
      using None a'(1) by (simp add: ends_as_def)
  next
    case (Some p')
    show ?thesis
    proof (cases "item p t")
      case True
      then have "ends_as hub ts (insort t sel) (loop a' ts sel out')" "p' = hub"
        using a'(2) Some IH(2) by auto
      then show ?thesis
        using Some True a'(1) by (auto simp: ends_as_def split: option.splits)
    next
      case False
      then have "ends_as p' ts sel (loop a' ts sel out')"
        using a'(2) Some IH(1) by auto
      then show ?thesis
        using Some False a'(1) by (auto simp: ends_as_def split: option.splits)
    qed
  qed
qed

lemma loop_ends:
  "in_phase p a \<Longrightarrow> ends_as p ts sel (loop a ts sel out)"
  "on_item t a \<Longrightarrow> ends_as hub ts (insort t sel) (loop a ts sel out)"
proof (induction ts arbitrary: a p t sel out)
  case Nil
  {
    case 1
    then show ?case
      using loop_stuck [of a] by (auto simp: ends_as_def waiting_def)
  next
    case 2
    then show ?case
      using loop_stuck [of a] by (auto simp: ends_as_def waiting_def)
  }
next
  case (Cons t' ts)
  {
    case 1
    show ?case
      unfolding loop_phase [OF 1] by (rule turn_ends [OF 1 Cons.IH])
  next
    case 2
    then obtain a1 where a1: "in_phase hub a1" "\<And>ts sel out. loop a ts sel out =
        (case dialog_turn t a1 ts out of (a', ts', out') \<Rightarrow> loop a' ts' (insort t sel) out')"
      using loop_item by blast
    show ?case
      unfolding a1(2) by (rule turn_ends [OF a1(1) Cons.IH])
  }
qed

end


subsection \<open>The two programs\<close>

datatype user_phase = Start | Menu

fun user_name :: "user_phase \<Rightarrow> string" where
  "user_name Start = ru_start"
| "user_name Menu = ru_menu"

definition numeral_item :: "string \<Rightarrow> bool" where
  "numeral_item t \<longleftrightarrow> t \<in> {''1'', ''2'', ''3''}"

fun user_step :: "user_phase \<Rightarrow> string \<Rightarrow> user_phase option" where
  "user_step Start t = (if t = ru_exit then None else if t = ru_menu then Some Menu else Some Start)"
| "user_step Menu t = (if t = ru_exit then Some Start else Some Menu)"

fun user_item :: "user_phase \<Rightarrow> string \<Rightarrow> bool" where
  "user_item Start t = False"
| "user_item Menu t = numeral_item t"

datatype test_phase = Ready | Started | Selecting

fun test_name :: "test_phase \<Rightarrow> string" where
  "test_name Ready = ''ready''"
| "test_name Started = ru_start"
| "test_name Selecting = ''select''"

fun test_step :: "test_phase \<Rightarrow> string \<Rightarrow> test_phase option" where
  "test_step Ready t = (if t = ru_exit then None else if t = ru_start then Some Started else Some Ready)"
| "test_step Started t = (if t = ru_exit then None else if t = ''select'' then Some Selecting else Some Started)"
| "test_step Selecting t = (if t = ru_exit then Some Started else Some Selecting)"

fun test_item :: "test_phase \<Rightarrow> string \<Rightarrow> bool" where
  "test_item Selecting t = numeral_item t"
| "test_item _ t = False"

lemmas ru_defs = ru_exit_def ru_start_def ru_menu_def

lemma ru_distinct [simp]:
  "ru_exit \<noteq> ru_start" "ru_exit \<noteq> ru_menu" "ru_start \<noteq> ru_menu" "ru_start \<noteq> ru_exit" "ru_menu \<noteq> ru_exit"
  "ru_menu \<noteq> ru_start" "ru_exit \<noteq> []" "ru_start \<noteq> []" "ru_menu \<noteq> []" "[] \<noteq> ru_exit"
  "[] \<noteq> ru_start" "[] \<noteq> ru_menu"
  by (simp_all add: ru_defs)

lemma ru_not_ascii [simp]:
  "(of_char c :: nat) < 128 \<Longrightarrow> ru_exit \<noteq> c # s" "(of_char c :: nat) < 128 \<Longrightarrow> c # s \<noteq> ru_exit"
  "(of_char c :: nat) < 128 \<Longrightarrow> ru_start \<noteq> c # s" "(of_char c :: nat) < 128 \<Longrightarrow> c # s \<noteq> ru_start"
  "(of_char c :: nat) < 128 \<Longrightarrow> ru_menu \<noteq> c # s" "(of_char c :: nat) < 128 \<Longrightarrow> c # s \<noteq> ru_menu"
  by (auto simp: ru_defs)

lemma numeral_item_stoi: "numeral_item t \<Longrightarrow> \<exists>n. stoi t = Inr n \<and> std_to_string n = t"
  unfolding numeral_item_def
  by (elim insertE emptyE; simp add: stoi_def stoi_digits_def is_whitespace_def is_digit_def Let_def
      read_decimal_def digit_value_def std_to_string_def decimal.simps digit_def)

lemma delta_user:
  "delta user_input_automata s t =
    (if s = ru_start \<and> t = ru_exit then Some ru_exit else if s = ru_start \<and> t = ru_menu then Some ru_menu
     else if s = ru_menu \<and> numeral_item t then Some t else if numeral_item s \<and> t = ru_menu then Some ru_menu
     else if s = ru_menu \<and> t = ru_exit then Some ru_start else None)"
  by (auto simp: user_input_automata_def numeral_item_def)

lemma delta_test:
  "delta test_automata s t =
    (if s = ''ready'' \<and> t = ru_exit then Some ru_exit else if s = ''ready'' \<and> t = ru_start then Some ru_start
     else if s = ru_start \<and> t = ru_exit then Some ru_exit
     else if s = ru_start \<and> t = ''select'' then Some ''select''
     else if s = ''select'' \<and> numeral_item t then Some t else if numeral_item s \<and> t = ''select'' then Some ''select''
     else if s = ''select'' \<and> t = ru_exit then Some ru_start else None)"
  by (auto simp: test_automata_def numeral_item_def)


interpretation user: dialog_program ru_exit "[ru_start, ru_menu]" ru_menu user_input_automata user_name
  user_step user_item Menu
proof (unfold_locales, goal_cases)
  case (3 p t)
  then show ?case
    by (cases p) (auto simp: delta_user numeral_item_def split: if_splits)
next
  case (4 p t s)
  then show ?case
    by (cases p) (auto simp: delta_user numeral_item_def split: if_splits)
next
  case (5 p t)
  then have n: "numeral_item t"
    by (cases p) simp_all
  then show ?case
    using numeral_item_stoi [OF n] by (auto simp: delta_user numeral_item_def)
next
  case (6 p)
  then show ?case
    by (cases p) (auto simp: delta_user numeral_item_def)
next
  case (1 p)
  then show ?case
    by (cases p) simp_all
next
  case (2 p)
  then show ?case
    by (cases p) simp_all
qed

interpretation test: dialog_program ru_exit "[ru_start, ''ready'', ''select'']" "''select''" test_automata
  test_name test_step test_item Selecting
proof (unfold_locales, goal_cases)
  case (3 p t)
  then show ?case
    by (cases p) (auto simp: delta_test numeral_item_def split: if_splits)
next
  case (4 p t s)
  then show ?case
    by (cases p) (auto simp: delta_test numeral_item_def split: if_splits)
next
  case (5 p t)
  then have n: "numeral_item t"
    by (cases p) simp_all
  then show ?case
    using numeral_item_stoi [OF n] by (auto simp: delta_test numeral_item_def)
next
  case (6 p)
  then show ?case
    by (cases p) (auto simp: delta_test numeral_item_def)
next
  case (1 p)
  then show ?case
    by (cases p) simp_all
next
  case (2 p)
  then show ?case
    by (cases p) simp_all
qed

lemma join_items_nonempty: "acc \<noteq> [] \<Longrightarrow> join_items acc ts \<noteq> []"
  by (induction acc ts rule: join_items.induct) auto

lemma join_items_empty: "\<forall>t\<in>set ts. t \<noteq> [] \<Longrightarrow> join_items [] ts = [] \<longleftrightarrow> ts = []"
  by (cases ts) (auto simp: join_items_nonempty)

lemma dialog_items: "dialog_run step item p ts = Some chosen \<Longrightarrow> t \<in> set chosen \<Longrightarrow> \<exists>p. item p t"
  by (induction step item p ts arbitrary: "chosen" rule: dialog_run.induct) (auto split: option.splits if_splits)

definition items_line :: "string \<Rightarrow> string list \<Rightarrow> string" where
  "items_line label chosen = (if chosen = [] then [] else label @ join_items [] (sort chosen) @ endl)"

lemma dialog_result_items:
  assumes "\<forall>t\<in>set chosen. t \<noteq> []"
  shows "dialog_result label (fold insort chosen [], out) = out @ items_line label chosen"
proof -
  have "fold insort chosen [] = sort chosen"
    by (simp add: sort_conv_fold)
  moreover have "join_items [] (sort chosen) = [] \<longleftrightarrow> chosen = []"
    using assms join_items_empty [of "sort chosen"] length_0_conv [of "sort chosen"] by simp
  ultimately show ?thesis
    by (simp add: dialog_result_def items_line_def)
qed


lemma user_item_nonempty: "user_item p t \<Longrightarrow> t \<noteq> []"
  by (cases p) (auto simp: numeral_item_def)

lemma test_item_nonempty: "test_item p t \<Longrightarrow> t \<noteq> []"
  by (cases p) (auto simp: numeral_item_def)

lemma current_state_set [simp]: "current_state (fa_set s a) = s"
  by (simp add: fa_set_def)

lemma user_start: "user.in_phase Start user_input_automata"
  unfolding user.in_phase_def by (simp add: user_input_automata_def)

lemma test_start: "test.in_phase Ready test_automata"
  unfolding test.in_phase_def by (simp add: test_automata_def)

text \<open>C29: Both programs end exactly on the inputs on which the dialog with its two or three phases ends, and
  then the last line lists the numbers chosen in the menu, sorted and with their repetitions. On all
  other inputs, in particular when the input is exhausted, they run for ever.\<close>

theorem dialogs_correct:
  "(case dialog_run user_step user_item Start tokens of
      None \<Rightarrow> run_user_input tokens = None
    | Some chosen \<Rightarrow> \<exists>out. run_user_input tokens = Some (out @ items_line ru_choice chosen))
   \<and> (case dialog_run test_step test_item Ready tokens of
      None \<Rightarrow> run_automata_test tokens = None
    | Some chosen \<Rightarrow> \<exists>out. run_automata_test tokens = Some (out @ items_line ''You select: '' chosen))"
proof (intro conjI)
  note u = user.loop_ends(1) [OF user_start, of tokens "[]" "[]", unfolded user.ends_as_def]
  show "case dialog_run user_step user_item Start tokens of
      None \<Rightarrow> run_user_input tokens = None
    | Some chosen \<Rightarrow> \<exists>out. run_user_input tokens = Some (out @ items_line ru_choice chosen)"
  proof (cases "dialog_run user_step user_item Start tokens")
    case None
    then show ?thesis
      using u by (simp add: run_user_input_def)
  next
    case (Some chosen)
    then have "\<forall>t\<in>set chosen. t \<noteq> []"
      using dialog_items [OF Some] user_item_nonempty by blast
    then show ?thesis
      using u Some dialog_result_items [of "chosen" ru_choice] by (auto simp: run_user_input_def)
  qed
  note t = test.loop_ends(1) [OF test_start, of tokens "[]" "[]", unfolded test.ends_as_def]
  show "case dialog_run test_step test_item Ready tokens of
      None \<Rightarrow> run_automata_test tokens = None
    | Some chosen \<Rightarrow> \<exists>out. run_automata_test tokens = Some (out @ items_line ''You select: '' chosen)"
  proof (cases "dialog_run test_step test_item Ready tokens")
    case None
    then show ?thesis
      using t by (simp add: run_automata_test_def)
  next
    case (Some chosen)
    then have "\<forall>t\<in>set chosen. t \<noteq> []"
      using dialog_items [OF Some] test_item_nonempty by blast
    then show ?thesis
      using t Some dialog_result_items [of "chosen" "''You select: ''"] by (auto simp: run_automata_test_def)
  qed
qed

lemma user_run_can_end: "\<exists>us. length us \<le> 2 \<and> dialog_run user_step user_item p (ts @ us) \<noteq> None"
proof (induction ts arbitrary: p)
  case Nil
  show ?case
    by (cases p; rule exI [of _ "if p = Start then [ru_exit] else [ru_exit, ru_exit]"]) simp_all
next
  case (Cons t ts)
  show ?case
  proof (cases "user_step p t")
    case (Some p')
    then show ?thesis
      using Cons [of p'] by fastforce
  qed (auto intro: exI [of _ "[]"])
qed

lemma test_run_can_end: "\<exists>us. length us \<le> 2 \<and> dialog_run test_step test_item p (ts @ us) \<noteq> None"
proof (induction ts arbitrary: p)
  case Nil
  show ?case
    by (cases p; rule exI [of _ "if p = Selecting then [ru_exit, ru_exit] else [ru_exit]"]) simp_all
next
  case (Cons t ts)
  show ?case
  proof (cases "test_step p t")
    case (Some p')
    then show ?thesis
      using Cons [of p'] by fastforce
  qed (auto intro: exI [of _ "[]"])
qed

text \<open>C30: Whatever was typed before, at most two more words end each program: the dialog cannot get
  stuck.\<close>

theorem dialogs_can_end:
  "(\<exists>us. length us \<le> 2 \<and> run_user_input (tokens @ us) \<noteq> None)
   \<and> (\<exists>us. length us \<le> 2 \<and> run_automata_test (tokens @ us) \<noteq> None)"
proof (intro conjI)
  obtain us where us: "length us \<le> 2" "dialog_run user_step user_item Start (tokens @ us) \<noteq> None"
    using user_run_can_end by blast
  then show "\<exists>us. length us \<le> 2 \<and> run_user_input (tokens @ us) \<noteq> None"
    using user.loop_ends(1) [OF user_start, of "tokens @ us" "[]" "[]", unfolded user.ends_as_def]
    by (intro exI [of _ us] conjI) (auto simp: run_user_input_def)
  obtain us where us: "length us \<le> 2" "dialog_run test_step test_item Ready (tokens @ us) \<noteq> None"
    using test_run_can_end by blast
  then show "\<exists>us. length us \<le> 2 \<and> run_automata_test (tokens @ us) \<noteq> None"
    using test.loop_ends(1) [OF test_start, of "tokens @ us" "[]" "[]", unfolded test.ends_as_def]
    by (intro exI [of _ us] conjI) (auto simp: run_automata_test_def)
qed

end
