(* ===== verification/Strassen.thy ===== *)
theory Strassen
  imports Prelude
begin

text \<open>
  The matrices of \<^verbatim>\<open>Sandbox/strassen_algorithm.hpp\<close> with the plain and with Strassen's multiplication. A
  matrix keeps its dimensions and its cells; a cell is \<open>None\<close> until it is written, as in the array of
  \<open>new T[n]\<close>. An access computes its index from the number of rows, as the code does. \<open>None\<close> as a result
  is the use of a cell that was not written, an index outside of the array, or a recursion that does not
  end. The element type is any ring, for instance the unsigned integers. The one loop that fills the eight
  blocks is written as eight calls of \<open>block\<close>; the matrix views of the file, which only the disabled
  variant of the code uses, random filling, output and the time measurement are left out.
\<close>

subsection \<open>The class\<close>

record 'a matrix =
  rows_of :: nat
  cols_of :: nat
  cells :: "'a option list"

definition matrix_ctor :: "nat \<Rightarrow> nat \<Rightarrow> 'a matrix" where
  "matrix_ctor rows cols = \<lparr>rows_of = rows, cols_of = cols, cells = replicate (rows * cols) None\<rparr>"

definition cell_index :: "'a matrix \<Rightarrow> nat \<Rightarrow> nat \<Rightarrow> nat" where
  "cell_index m i j = rows_of m * i + j"

definition load :: "'a matrix \<Rightarrow> nat \<Rightarrow> nat \<Rightarrow> 'a option" where
  "load m i j = (if cell_index m i j < length (cells m) then cells m ! cell_index m i j else None)"

definition store :: "'a matrix \<Rightarrow> nat \<Rightarrow> nat \<Rightarrow> 'a \<Rightarrow> 'a matrix option" where
  "store m i j v = (if cell_index m i j < length (cells m)
     then Some (m\<lparr>cells := (cells m)[cell_index m i j := Some v]\<rparr>) else None)"

text \<open>A loop over pairs of indices that stores one value in each round.\<close>

fun store_loop :: "(nat \<times> nat) list \<Rightarrow> (nat \<Rightarrow> nat \<Rightarrow> 'a option) \<Rightarrow> 'a matrix \<Rightarrow> 'a matrix option" where
  "store_loop [] f m = Some m"
| "store_loop ((i, j) # ps) f m = Option.bind (f i j) (\<lambda>v. Option.bind (store m i j v) (store_loop ps f))"

definition pairs :: "nat \<Rightarrow> nat \<Rightarrow> (nat \<times> nat) list" where
  "pairs n m = List.product [0..<n] [0..<m]"

definition arithmetic :: "('a \<Rightarrow> 'a \<Rightarrow> 'a) \<Rightarrow> 'a matrix \<Rightarrow> 'a matrix \<Rightarrow> 'a matrix option" where
  "arithmetic binary_operator lhs rhs =
     store_loop (pairs (rows_of rhs) (cols_of rhs))
       (\<lambda>i j. Option.bind (load lhs i j) (\<lambda>a. Option.bind (load rhs i j) (\<lambda>b. Some (binary_operator a b))))
       (matrix_ctor (rows_of rhs) (cols_of rhs))"

definition mat_plus :: "'a::ring matrix \<Rightarrow> 'a matrix \<Rightarrow> 'a matrix option" where
  "mat_plus lhs rhs = arithmetic (+) lhs rhs"

definition mat_minus :: "'a::ring matrix \<Rightarrow> 'a matrix \<Rightarrow> 'a matrix option" where
  "mat_minus lhs rhs = arithmetic (-) lhs rhs"

fun equal_cells :: "'a matrix \<Rightarrow> 'a matrix \<Rightarrow> (nat \<times> nat) list \<Rightarrow> bool option" where
  "equal_cells lhs rhs [] = Some True"
| "equal_cells lhs rhs ((i, j) # ps) = Option.bind (load lhs i j) (\<lambda>a. Option.bind (load rhs i j) (\<lambda>b.
     if a \<noteq> b then Some False else equal_cells lhs rhs ps))"

definition mat_equal :: "'a matrix \<Rightarrow> 'a matrix \<Rightarrow> bool option" where
  "mat_equal lhs rhs =
     (if rows_of lhs \<noteq> rows_of rhs \<or> cols_of lhs \<noteq> cols_of rhs then Some False
      else equal_cells lhs rhs (pairs (rows_of lhs) (cols_of lhs)))"

fun dot :: "'a::ring matrix \<Rightarrow> 'a matrix \<Rightarrow> nat \<Rightarrow> nat \<Rightarrow> nat list \<Rightarrow> 'a \<Rightarrow> 'a option" where
  "dot lhs rhs i j [] acc = Some acc"
| "dot lhs rhs i j (k # ks) acc = Option.bind (load lhs i k) (\<lambda>a. Option.bind (load rhs k j) (\<lambda>b.
     dot lhs rhs i j ks (acc + a * b)))"

definition linear :: "'a::ring matrix \<Rightarrow> 'a matrix \<Rightarrow> nat \<Rightarrow> 'a matrix option" where
  "linear lhs rhs n =
     store_loop (pairs n n) (\<lambda>i j. dot lhs rhs i j [0..<n] 0) (matrix_ctor n n)"

definition block :: "'a matrix \<Rightarrow> nat \<Rightarrow> nat \<Rightarrow> nat \<Rightarrow> 'a matrix option" where
  "block m k di dj = store_loop (pairs k k) (\<lambda>i j. load m (di + i) (dj + j)) (matrix_ctor k k)"

fun assemble :: "nat \<Rightarrow> 'a matrix \<Rightarrow> 'a matrix \<Rightarrow> 'a matrix \<Rightarrow> 'a matrix \<Rightarrow> (nat \<times> nat) list \<Rightarrow>
    'a matrix \<Rightarrow> 'a matrix option" where
  "assemble k c11 c12 c21 c22 [] r = Some r"
| "assemble k c11 c12 c21 c22 ((i, j) # ps) r = do {
     v \<leftarrow> load c11 i j; r \<leftarrow> store r i j v;
     v \<leftarrow> load c12 i j; r \<leftarrow> store r i (j + k) v;
     v \<leftarrow> load c21 i j; r \<leftarrow> store r (k + i) j v;
     v \<leftarrow> load c22 i j; r \<leftarrow> store r (k + i) (k + j) v;
     assemble k c11 c12 c21 c22 ps r
   }"

partial_function (option) strassen :: "'a::ring matrix \<Rightarrow> 'a matrix \<Rightarrow> nat \<Rightarrow> 'a matrix option" where
  "strassen lhs rhs n = (if n = 1 then linear lhs rhs n else do {
     let k = n div 2;
     a11 \<leftarrow> block lhs k 0 0; a12 \<leftarrow> block lhs k 0 k; a21 \<leftarrow> block lhs k k 0; a22 \<leftarrow> block lhs k k k;
     b11 \<leftarrow> block rhs k 0 0; b12 \<leftarrow> block rhs k 0 k; b21 \<leftarrow> block rhs k k 0; b22 \<leftarrow> block rhs k k k;
     s1 \<leftarrow> mat_minus b12 b22; s2 \<leftarrow> mat_plus a11 a12; s3 \<leftarrow> mat_plus a21 a22; s4 \<leftarrow> mat_minus b21 b11;
     s5 \<leftarrow> mat_plus a11 a22; s6 \<leftarrow> mat_plus b11 b22; s7 \<leftarrow> mat_minus a12 a22; s8 \<leftarrow> mat_plus b21 b22;
     s9 \<leftarrow> mat_minus a11 a21; s10 \<leftarrow> mat_plus b11 b12;
     p1 \<leftarrow> strassen a11 s1 k; p2 \<leftarrow> strassen s2 b22 k; p3 \<leftarrow> strassen s3 b11 k; p4 \<leftarrow> strassen a22 s4 k;
     p5 \<leftarrow> strassen s5 s6 k; p6 \<leftarrow> strassen s7 s8 k; p7 \<leftarrow> strassen s9 s10 k;
     t \<leftarrow> mat_plus p5 p4; t \<leftarrow> mat_minus t p2; c11 \<leftarrow> mat_plus t p6;
     c12 \<leftarrow> mat_plus p1 p2;
     c21 \<leftarrow> mat_plus p3 p4;
     t \<leftarrow> mat_plus p1 p5; t \<leftarrow> mat_minus t p3; c22 \<leftarrow> mat_minus t p7;
     assemble k c11 c12 c21 c22 (pairs k k) (matrix_ctor n n)
   })"

definition linear_product :: "'a::ring matrix \<Rightarrow> 'a matrix \<Rightarrow> 'a matrix option" where
  "linear_product lhs rhs = linear lhs rhs (cols_of lhs)"

definition strassen_product :: "'a::ring matrix \<Rightarrow> 'a matrix \<Rightarrow> 'a matrix option" where
  "strassen_product lhs rhs = strassen lhs rhs (cols_of lhs)"

subsection \<open>Square matrices\<close>

definition square :: "nat \<Rightarrow> 'a matrix \<Rightarrow> bool" where
  "square n m \<longleftrightarrow> rows_of m = n \<and> cols_of m = n \<and> length (cells m) = n * n"

definition entries :: "nat \<Rightarrow> (nat \<Rightarrow> nat \<Rightarrow> 'a) \<Rightarrow> 'a matrix \<Rightarrow> bool" where
  "entries n f m \<longleftrightarrow> square n m \<and> (\<forall>i < n. \<forall>j < n. load m i j = Some (f i j))"

lemma index_bound: "i < n \<Longrightarrow> j < n \<Longrightarrow> n * i + j < n * (n::nat)"
proof -
  assume "i < n" "j < n"
  then have "n * i + j < n * i + n"
    by simp
  moreover have "n * (i + 1) \<le> n * n"
    using \<open>i < n\<close> by (intro mult_le_mono2) simp
  ultimately show ?thesis
    by simp
qed

lemma index_inj: "j < n \<Longrightarrow> j' < n \<Longrightarrow> n * i + j = n * i' + j' \<longleftrightarrow> i = i' \<and> j = (j'::nat)"
  by (metis add_left_cancel div_mult_self4 div_less add.right_neutral bot_nat_0.not_eq_extremum less_nat_zero_code)

lemma load_in: "square n m \<Longrightarrow> i < n \<Longrightarrow> j < n \<Longrightarrow> load m i j = cells m ! (n * i + j)"
  by (simp add: load_def cell_index_def square_def index_bound)

lemma store_in:
  assumes "square n m" "i < n" "j < n"
  shows "\<exists>m'. store m i j v = Some m' \<and> square n m' \<and>
    (\<forall>i' < n. \<forall>j' < n. load m' i' j' = (if i' = i \<and> j' = j then Some v else load m i' j'))"
proof -
  let ?m = "m\<lparr>cells := (cells m)[n * i + j := Some v]\<rparr>"
  have "store m i j v = Some ?m" "square n ?m"
    using assms by (simp_all add: store_def cell_index_def square_def index_bound)
  moreover have "load ?m i' j' = (if i' = i \<and> j' = j then Some v else load m i' j')" if "i' < n" "j' < n" for i' j'
    using load_in [OF \<open>square n ?m\<close> that] load_in [OF assms(1) that] assms that index_inj [of j n j' i i']
    by (auto simp: square_def index_bound nth_list_update)
  ultimately show ?thesis
    by blast
qed

lemma store_loop_in:
  assumes "square n m" "\<forall>(i, j)\<in>set ps. i < n \<and> j < n \<and> f i j = Some (g i j)"
  shows "\<exists>m'. store_loop ps f m = Some m' \<and> square n m' \<and>
    (\<forall>i < n. \<forall>j < n. load m' i j = (if (i, j) \<in> set ps then Some (g i j) else load m i j))"
  using assms
proof (induction ps arbitrary: m)
  case (Cons p ps)
  obtain i j where p: "p = (i, j)"
    by (cases p)
  have ij: "i < n" "j < n" "f i j = Some (g i j)"
    using Cons.prems(2) p by simp_all
  obtain m1 where m1: "store m i j (g i j) = Some m1" "square n m1"
    "\<forall>i' < n. \<forall>j' < n. load m1 i' j' = (if i' = i \<and> j' = j then Some (g i j) else load m i' j')"
    using store_in [OF Cons.prems(1) ij(1,2), of "g i j"] by blast
  obtain m' where "store_loop ps f m1 = Some m'" "square n m'"
    "\<forall>i < n. \<forall>j < n. load m' i j = (if (i, j) \<in> set ps then Some (g i j) else load m1 i j)"
    using Cons.IH [OF m1(2)] Cons.prems(2) by auto
  then show ?case
    using m1 ij p by auto
qed simp

lemma square_ctor [simp]: "square n (matrix_ctor n n)"
  by (simp add: square_def matrix_ctor_def)

lemma load_ctor: "load (matrix_ctor n m) i j = None"
  using nth_replicate [of "cell_index (matrix_ctor n m) i j" "n * m" None]
  unfolding load_def by (simp add: matrix_ctor_def)

lemma set_pairs [simp]: "set (pairs n m) = {(i, j). i < n \<and> j < m}"
  by (auto simp: pairs_def)

lemma store_loop_all:
  assumes "\<And>i j. i < n \<Longrightarrow> j < n \<Longrightarrow> f i j = Some (g i j)"
  shows "\<exists>m. store_loop (pairs n n) f (matrix_ctor n n) = Some m \<and> entries n g m"
  using store_loop_in [OF square_ctor, of "pairs n n" n f g] assms by (auto simp: entries_def)


lemma entriesD: "entries n f m \<Longrightarrow> i < n \<Longrightarrow> j < n \<Longrightarrow> load m i j = Some (f i j)"
  by (simp add: entries_def)

lemma entries_dims: "entries n f m \<Longrightarrow> rows_of m = n \<and> cols_of m = n"
  by (simp add: entries_def square_def)

lemma entries_unique: "entries n f m \<Longrightarrow> entries n f m' \<Longrightarrow> m = m'"
proof -
  assume e: "entries n f m" "entries n f m'"
  then have sq: "square n m" "square n m'"
    by (simp_all add: entries_def)
  have "cells m ! x = cells m' ! x" if "x < n * n" for x
  proof -
    have n: "0 < n"
      using that by (cases n) simp_all
    define i j where "i = x div n" and "j = x mod n"
    have "i < n" "j < n" "x = n * i + j"
      using that n by (simp_all add: i_def j_def less_mult_imp_div_less)
    then show ?thesis
      using load_in [OF sq(1), of i j] load_in [OF sq(2), of i j] entriesD [OF e(1)] entriesD [OF e(2)] by simp
  qed
  then have "cells m = cells m'"
    using sq by (intro nth_equalityI) (simp_all add: square_def)
  then show ?thesis
    using sq by (simp add: square_def)
qed

lemma entries_cong: "entries n f m \<Longrightarrow> (\<And>i j. i < n \<Longrightarrow> j < n \<Longrightarrow> f i j = g i j) \<Longrightarrow> entries n g m"
  by (simp add: entries_def)

lemma arithmetic_entries:
  assumes "entries n f a" "entries n g b"
  shows "\<exists>m. arithmetic op a b = Some m \<and> entries n (\<lambda>i j. op (f i j) (g i j)) m"
  unfolding arithmetic_def using entries_dims [OF assms(2)] assms
  by (auto simp: entriesD intro!: store_loop_all)

lemma mat_plus_entries:
  "entries n f a \<Longrightarrow> entries n g b \<Longrightarrow> \<exists>m. mat_plus a b = Some m \<and> entries n (\<lambda>i j. f i j + g i j) m"
  unfolding mat_plus_def by (rule arithmetic_entries)

lemma mat_minus_entries:
  "entries n f a \<Longrightarrow> entries n g b \<Longrightarrow> \<exists>m. mat_minus a b = Some m \<and> entries n (\<lambda>i j. f i j - g i j) m"
  unfolding mat_minus_def by (rule arithmetic_entries)

lemma dot_entries:
  assumes "entries n f a" "entries n g b" "i < n" "j < n" "l \<le> n"
  shows "dot a b i j [n - l..<n] s = Some (s + (\<Sum>k = n - l..<n. f i k * g k j))"
  using assms(5)
proof (induction l arbitrary: s)
  case (Suc l)
  then have "[n - Suc l..<n] = (n - Suc l) # [n - l..<n]"
    by (simp add: upt_conv_Cons Suc_diff_Suc)
  moreover have "{n - Suc l..<n} = insert (n - Suc l) {n - l..<n}"
    using Suc.prems by auto
  moreover have "load a i (n - Suc l) = Some (f i (n - Suc l))" "load b (n - Suc l) j = Some (g (n - Suc l) j)"
    using entriesD [OF assms(1)] entriesD [OF assms(2)] assms(3,4) Suc.prems by simp_all
  ultimately show ?case
    using Suc by (simp add: add.assoc)
qed simp

text \<open>The product of two matrices of size \<open>n\<close>.\<close>

definition times_entries :: "nat \<Rightarrow> (nat \<Rightarrow> nat \<Rightarrow> 'a::ring) \<Rightarrow> (nat \<Rightarrow> nat \<Rightarrow> 'a) \<Rightarrow> nat \<Rightarrow> nat \<Rightarrow> 'a" where
  "times_entries n f g i j = (\<Sum>k < n. f i k * g k j)"

lemma linear_entries:
  assumes "entries n f a" "entries n g b"
  shows "\<exists>m. linear a b n = Some m \<and> entries n (times_entries n f g) m"
  unfolding linear_def
proof (rule store_loop_all)
  fix i j assume "i < n" "j < n"
  then show "dot a b i j [0..<n] 0 = Some (times_entries n f g i j)"
    using dot_entries [OF assms, of i j n 0] by (simp add: times_entries_def lessThan_atLeast0)
qed

lemma block_entries:
  assumes "entries n f m" "di + k \<le> n" "dj + k \<le> n"
  shows "\<exists>m'. block m k di dj = Some m' \<and> entries k (\<lambda>i j. f (di + i) (dj + j)) m'"
  unfolding block_def using assms by (intro store_loop_all) (auto intro!: entriesD)

subsection \<open>Assembling the result\<close>

definition four :: "nat \<Rightarrow> (nat \<times> nat) \<Rightarrow> (nat \<times> nat) list" where
  "four k = (\<lambda>(i, j). [(i, j), (i, j + k), (k + i, j), (k + i, k + j)])"

definition quarter :: "nat \<Rightarrow> 'a matrix \<Rightarrow> 'a matrix \<Rightarrow> 'a matrix \<Rightarrow> 'a matrix \<Rightarrow> nat \<Rightarrow> nat \<Rightarrow> 'a option" where
  "quarter k c11 c12 c21 c22 i j =
     (if i < k then if j < k then load c11 i j else load c12 i (j - k)
      else if j < k then load c21 (i - k) j else load c22 (i - k) (j - k))"

lemma assemble_store_loop:
  assumes "\<forall>(i, j)\<in>set ps. i < k \<and> j < k"
  shows "assemble k c11 c12 c21 c22 ps r = store_loop (concat (map (four k) ps)) (quarter k c11 c12 c21 c22) r"
  using assms
proof (induction k c11 c12 c21 c22 ps r rule: assemble.induct)
  case (2 k c11 c12 c21 c22 i j ps r)
  then show ?case
    by (auto simp: four_def quarter_def intro!: bind_option_cong)
qed simp

lemma assemble_entries:
  assumes "entries k f c11" "entries k g c12" "entries k h c21" "entries k l c22"
  shows "\<exists>m. assemble k c11 c12 c21 c22 (pairs k k) (matrix_ctor (2 * k) (2 * k)) = Some m \<and>
    entries (2 * k) (\<lambda>i j. if i < k then if j < k then f i j else g i (j - k)
      else if j < k then h (i - k) j else l (i - k) (j - k)) m"
    (is "\<exists>m. _ \<and> entries _ ?q m")
proof -
  let ?ps = "concat (map (four k) (pairs k k))"
  have "i < 2 * k \<and> j < 2 * k \<and> quarter k c11 c12 c21 c22 i j = Some (?q i j)" if "(i, j) \<in> set ?ps" for i j
    using that assms by (auto simp: four_def quarter_def entriesD)
  then have "\<forall>(i, j)\<in>set ?ps. i < 2 * k \<and> j < 2 * k \<and> quarter k c11 c12 c21 c22 i j = Some (?q i j)"
    by (intro ballI case_prodI2) blast
  then have "\<exists>m. store_loop ?ps (quarter k c11 c12 c21 c22) (matrix_ctor (2 * k) (2 * k)) = Some m \<and> square (2 * k) m \<and>
    (\<forall>i < 2 * k. \<forall>j < 2 * k. load m i j = (if (i, j) \<in> set ?ps then Some (?q i j) else load (matrix_ctor (2 * k) (2 * k)) i j))"
    by (intro store_loop_in square_ctor)
  moreover have "(i, j) \<in> set ?ps" if "i < 2 * k" "j < 2 * k" for i j
  proof -
    have "(i, j) \<in> set (four k (i mod k, j mod k))"
    proof -
      have "i mod k = (if i < k then i else i - k)" "j mod k = (if j < k then j else j - k)"
        using that by (auto simp: le_mod_geq)
      then show ?thesis
        using that by (auto simp: four_def)
    qed
    moreover have "(i mod k, j mod k) \<in> set (pairs k k)"
      using that by (cases k) auto
    ultimately show ?thesis
      by force
  qed
  ultimately show ?thesis
    unfolding assemble_store_loop [of "pairs k k" k, simplified] entries_def by auto
qed


subsection \<open>Strassen's identities\<close>

lemma sum_split_half:
  fixes h :: "nat \<Rightarrow> 'a::comm_monoid_add"
  shows "(\<Sum>x < 2 * k. h x) = (\<Sum>x < k. h x) + (\<Sum>x < k. h (k + x))"
proof -
  have "(\<Sum>x < 2 * k. h x) = (\<Sum>x < k. h x) + (\<Sum>x = k..<2 * k. h x)"
    by (simp add: lessThan_atLeast0 sum.atLeastLessThan_concat)
  also have "(\<Sum>x = k..<2 * k. h x) = (\<Sum>x < k. h (k + x))"
    using sum.shift_bounds_nat_ivl [of h 0 k k] by (simp add: lessThan_atLeast0 mult_2 add.commute)
  finally show ?thesis .
qed

lemma strassen_identities:
  fixes A11 :: "nat \<Rightarrow> nat \<Rightarrow> 'a::ring"
  shows
  "((times_entries k (\<lambda>i j. A11 i j + A22 i j) (\<lambda>i j. B11 i j + B22 i j) i j + times_entries k A22 (\<lambda>i j. B21 i j - B11 i j) i j)
     - times_entries k (\<lambda>i j. A11 i j + A12 i j) B22 i j)
     + times_entries k (\<lambda>i j. A12 i j - A22 i j) (\<lambda>i j. B21 i j + B22 i j) i j
   = times_entries k A11 B11 i j + times_entries k A12 B21 i j" (is ?q11)
  "times_entries k A11 (\<lambda>i j. B12 i j - B22 i j) i j + times_entries k (\<lambda>i j. A11 i j + A12 i j) B22 i j
   = times_entries k A11 B12 i j + times_entries k A12 B22 i j" (is ?q12)
  "times_entries k (\<lambda>i j. A21 i j + A22 i j) B11 i j + times_entries k A22 (\<lambda>i j. B21 i j - B11 i j) i j
   = times_entries k A21 B11 i j + times_entries k A22 B21 i j" (is ?q21)
  "((times_entries k A11 (\<lambda>i j. B12 i j - B22 i j) i j + times_entries k (\<lambda>i j. A11 i j + A22 i j) (\<lambda>i j. B11 i j + B22 i j) i j)
     - times_entries k (\<lambda>i j. A21 i j + A22 i j) B11 i j)
     - times_entries k (\<lambda>i j. A11 i j - A21 i j) (\<lambda>i j. B11 i j + B12 i j) i j
   = times_entries k A21 B12 i j + times_entries k A22 B22 i j" (is ?q22)
proof -
  show ?q11 ?q12 ?q21 ?q22
    by (simp_all add: times_entries_def sum.distrib sum_subtractf algebra_simps)
qed

lemma bind_ex:
  assumes "\<exists>a. x = Some a \<and> P a" "\<And>a. P a \<Longrightarrow> \<exists>m. f a = Some m \<and> Q m"
  shows "\<exists>m. Option.bind x f = Some m \<and> Q m"
  using assms by auto

definition quarter_of :: "nat \<Rightarrow> (nat \<Rightarrow> nat \<Rightarrow> 'a) \<Rightarrow> nat \<Rightarrow> nat \<Rightarrow> nat \<Rightarrow> nat \<Rightarrow> 'a" where
  "quarter_of k f di dj = (\<lambda>i j. f (di + i) (dj + j))"

lemma assemble_product:
  fixes k f g
  defines "A \<equiv> quarter_of k f" and "B \<equiv> quarter_of k g"
  assumes "entries k (\<lambda>i j. times_entries k (A 0 0) (B 0 0) i j + times_entries k (A 0 k) (B k 0) i j) c11"
    "entries k (\<lambda>i j. times_entries k (A 0 0) (B 0 k) i j + times_entries k (A 0 k) (B k k) i j) c12"
    "entries k (\<lambda>i j. times_entries k (A k 0) (B 0 0) i j + times_entries k (A k k) (B k 0) i j) c21"
    "entries k (\<lambda>i j. times_entries k (A k 0) (B 0 k) i j + times_entries k (A k k) (B k k) i j) c22"
  shows "\<exists>m. assemble k c11 c12 c21 c22 (pairs k k) (matrix_ctor (2 * k) (2 * k)) = Some m \<and>
    entries (2 * k) (times_entries (2 * k) f g) m"
proof -
  obtain m where m: "assemble k c11 c12 c21 c22 (pairs k k) (matrix_ctor (2 * k) (2 * k)) = Some m"
    "entries (2 * k) (\<lambda>i j.
      if i < k then if j < k then times_entries k (A 0 0) (B 0 0) i j + times_entries k (A 0 k) (B k 0) i j
        else times_entries k (A 0 0) (B 0 k) i (j - k) + times_entries k (A 0 k) (B k k) i (j - k)
      else if j < k then times_entries k (A k 0) (B 0 0) (i - k) j + times_entries k (A k k) (B k 0) (i - k) j
        else times_entries k (A k 0) (B 0 k) (i - k) (j - k) + times_entries k (A k k) (B k k) (i - k) (j - k)) m"
    using assemble_entries [OF assms(3-6)] by blast
  have "entries (2 * k) (times_entries (2 * k) f g) m"
    by (rule entries_cong [OF m(2)])
      (auto simp: A_def B_def quarter_of_def times_entries_def sum_split_half)
  then show ?thesis
    using m(1) by blast
qed

lemma block_quarter:
  "entries n f m \<Longrightarrow> 2 * k \<le> n \<Longrightarrow> di \<in> {0, k} \<Longrightarrow> dj \<in> {0, k} \<Longrightarrow>
    \<exists>m'. block m k di dj = Some m' \<and> entries k (quarter_of k f di dj) m'"
  unfolding quarter_of_def by (rule block_entries) auto

text \<open>One level of the recursion, for even and odd sizes: only the last step differs.\<close>

lemma strassen_level:
  fixes a b :: "'a::ring matrix"
  assumes IH: "\<And>f g (a :: 'a matrix) b. entries k f a \<Longrightarrow> entries k g b \<Longrightarrow>
      \<exists>m. strassen a b k = Some m \<and> entries k (times_entries k f g) m"
    and ab: "entries n f a" "entries n g b" and n: "(n = 1) = False" "n div 2 = k"
    and last: "\<And>c11 c12 c21 c22.
      entries k (\<lambda>i j. times_entries k (quarter_of k f 0 0) (quarter_of k g 0 0) i j +
        times_entries k (quarter_of k f 0 k) (quarter_of k g k 0) i j) c11 \<Longrightarrow>
      entries k (\<lambda>i j. times_entries k (quarter_of k f 0 0) (quarter_of k g 0 k) i j +
        times_entries k (quarter_of k f 0 k) (quarter_of k g k k) i j) c12 \<Longrightarrow>
      entries k (\<lambda>i j. times_entries k (quarter_of k f k 0) (quarter_of k g 0 0) i j +
        times_entries k (quarter_of k f k k) (quarter_of k g k 0) i j) c21 \<Longrightarrow>
      entries k (\<lambda>i j. times_entries k (quarter_of k f k 0) (quarter_of k g 0 k) i j +
        times_entries k (quarter_of k f k k) (quarter_of k g k k) i j) c22 \<Longrightarrow>
      \<exists>m. assemble k c11 c12 c21 c22 (pairs k k) (matrix_ctor n n) = Some m \<and> Q m"
  shows "\<exists>m. strassen a b n = Some m \<and> Q m"
proof -
  have k: "2 * k \<le> n"
    using n(2) by auto
  show ?thesis
    unfolding strassen.simps [of a b n] n if_False Let_def
    apply (rule bind_ex, rule block_quarter [OF ab(1) k], simp, simp)+
    apply (rule bind_ex, rule block_quarter [OF ab(2) k], simp, simp)+
    apply (rule bind_ex, (rule mat_plus_entries mat_minus_entries IH; assumption))+
    apply (rule last)
    apply (simp_all only: strassen_identities)
    done
qed

lemma strassen_double:
  fixes a b :: "'a::ring matrix"
  assumes IH: "\<And>f g (a :: 'a matrix) b. entries k f a \<Longrightarrow> entries k g b \<Longrightarrow>
      \<exists>m. strassen a b k = Some m \<and> entries k (times_entries k f g) m"
    and ab: "entries (2 * k) f a" "entries (2 * k) g b"
  shows "\<exists>m. strassen a b (2 * k) = Some m \<and> entries (2 * k) (times_entries (2 * k) f g) m"
  by (rule strassen_level [OF IH ab]) (auto intro: assemble_product)

lemma assemble_odd:
  assumes "entries k f c11" "entries k g c12" "entries k h c21" "entries k l c22"
  shows "\<exists>m. assemble k c11 c12 c21 c22 (pairs k k) (matrix_ctor (2 * k + 1) (2 * k + 1)) = Some m \<and>
    (\<forall>j < 2 * k + 1. load m (2 * k) j = None)"
proof -
  let ?ps = "concat (map (four k) (pairs k k))" and ?r = "matrix_ctor (2 * k + 1) (2 * k + 1)"
  let ?q = "quarter k c11 c12 c21 c22"
  have in_range: "i < 2 * k \<and> j < 2 * k \<and> ?q i j = Some (the (?q i j))" if "(i, j) \<in> set ?ps" for i j
    using that assms by (auto simp: four_def quarter_def entriesD)
  then have "\<forall>(i, j)\<in>set ?ps. i < 2 * k + 1 \<and> j < 2 * k + 1 \<and> ?q i j = Some (the (?q i j))"
    by (intro ballI case_prodI2) fastforce
  then obtain m where m: "store_loop ?ps ?q ?r = Some m"
    "\<forall>i < 2 * k + 1. \<forall>j < 2 * k + 1. load m i j = (if (i, j) \<in> set ?ps then Some (the (?q i j)) else load ?r i j)"
    using store_loop_in [OF square_ctor, of ?ps "2 * k + 1" ?q "\<lambda>i j. the (?q i j)"] by blast
  have "load m (2 * k) j = None" if "j < 2 * k + 1" for j
  proof -
    have "(2 * k, j) \<notin> set ?ps"
      using in_range by fastforce
    moreover have "load ?r (2 * k) j = None"
      by (rule load_ctor)
    ultimately show ?thesis
      using m(2) that by simp
  qed
  then show ?thesis
    using m(1) assemble_store_loop [of "pairs k k" k c11 c12 c21 c22 ?r] by auto
qed

lemma strassen_power:
  fixes a b :: "'a::ring matrix"
  assumes "entries (2 ^ p) f a" "entries (2 ^ p) g b"
  shows "\<exists>m. strassen a b (2 ^ p) = Some m \<and> entries (2 ^ p) (times_entries (2 ^ p) f g) m"
  using assms
proof (induction p arbitrary: f g a b)
  case 0
  then show ?case
    using linear_entries [of 1 f a g b] by (subst strassen.simps) simp
next
  case (Suc p)
  then show ?case
    using strassen_double [of "2 ^ p" f a g b] by simp
qed

subsection \<open>Properties\<close>

text \<open>A matrix all of whose cells are written.\<close>

definition written :: "nat \<Rightarrow> 'a matrix \<Rightarrow> bool" where
  "written n m \<longleftrightarrow> square n m \<and> None \<notin> set (cells m)"

lemma written_entries: "written n m \<Longrightarrow> entries n (\<lambda>i j. the (load m i j)) m"
  unfolding entries_def written_def
proof (intro conjI allI impI; elim conjE)
  fix i j assume m: "square n m" "None \<notin> set (cells m)" "i < n" "j < n"
  have "cells m ! (n * i + j) \<in> set (cells m)"
    using m(1,3,4) by (intro nth_mem) (simp add: square_def index_bound)
  then have "load m i j \<noteq> None"
    using m load_in [of n m i j] by metis
  then show "load m i j = Some (the (load m i j))"
    by auto
qed

text \<open>C15: On matrices whose size is a power of two and whose cells are all written, over every ring,
  Strassen's multiplication returns and gives the same matrix as the plain one, and its entries are the
  sums of products that define the product of matrices.\<close>

theorem strassen_equals_linear:
  fixes a b :: "'a::ring matrix"
  assumes "written (2 ^ p) a" "written (2 ^ p) b"
  shows "\<exists>m. strassen_product a b = Some m \<and> linear_product a b = Some m \<and> square (2 ^ p) m
    \<and> (\<forall>i < 2 ^ p. \<forall>j < 2 ^ p. load m i j =
        Some (\<Sum>k < 2 ^ p. the (load a i k) * the (load b k j)))"
proof -
  let ?f = "\<lambda>i j. the (load a i j)" and ?g = "\<lambda>i j. the (load b i j)"
  have e: "entries (2 ^ p) ?f a" "entries (2 ^ p) ?g b"
    using assms by (simp_all add: written_entries)
  obtain m where m: "strassen a b (2 ^ p) = Some m" "entries (2 ^ p) (times_entries (2 ^ p) ?f ?g) m"
    using strassen_power [OF e] by blast
  obtain l where l: "linear a b (2 ^ p) = Some l" "entries (2 ^ p) (times_entries (2 ^ p) ?f ?g) l"
    using linear_entries [OF e] by blast
  have "l = m"
    using entries_unique [OF l(2) m(2)] .
  moreover have "cols_of a = 2 ^ p"
    using entries_dims [OF e(1)] by simp
  ultimately show ?thesis
    using m l(1) by (simp add: strassen_product_def linear_product_def entries_def times_entries_def)
qed

theorem strassen_equals_linear_witness:
  "\<exists>m. strassen_product \<lparr>rows_of = 2, cols_of = 2, cells = [Some 1, Some 2, Some 3, Some (4 :: int)]\<rparr>
      \<lparr>rows_of = 2, cols_of = 2, cells = [Some 5, Some 6, Some 7, Some 8]\<rparr> = Some m
    \<and> load m 1 0 = Some (43 :: int)"
proof -
  let ?a = "\<lparr>rows_of = 2, cols_of = 2, cells = [Some 1, Some 2, Some 3, Some (4 :: int)]\<rparr>"
  let ?b = "\<lparr>rows_of = 2, cols_of = 2, cells = [Some 5, Some 6, Some 7, Some (8 :: int)]\<rparr>"
  have w: "written (2 ^ 1) ?a" "written (2 ^ 1) ?b"
    by (simp_all add: written_def square_def)
  obtain m where m: "strassen_product ?a ?b = Some m"
    "\<forall>i < 2 ^ 1. \<forall>j < 2 ^ 1. load m i j = Some (\<Sum>k < 2 ^ 1. the (load ?a i k) * the (load ?b k j))"
    using strassen_equals_linear [OF w] by blast
  have "load m 1 0 = Some (\<Sum>k < 2 ^ 1. the (load ?a 1 k) * the (load ?b k 0))"
    using m(2) by simp
  then show ?thesis
    using m(1) by (simp add: load_def cell_index_def numeral_2_eq_2)
qed

text \<open>When the size is odd and the half of it a power of two, the recursion returns a matrix whose last
  row is never written.\<close>

theorem strassen_odd_unwritten:
  fixes a b :: "'a::ring matrix"
  assumes "written (2 * 2 ^ p + 1) a" "written (2 * 2 ^ p + 1) b"
  shows "\<exists>m. strassen_product a b = Some m \<and> (\<forall>j < 2 * 2 ^ p + 1. load m (2 * 2 ^ p) j = None)"
proof -
  let ?f = "\<lambda>i j. the (load a i j)" and ?g = "\<lambda>i j. the (load b i j)"
  have e: "entries (2 * 2 ^ p + 1) ?f a" "entries (2 * 2 ^ p + 1) ?g b"
    using assms by (simp_all add: written_entries)
  have "\<exists>m. strassen a b (2 * 2 ^ p + 1) = Some m \<and> (\<forall>j < 2 * 2 ^ p + 1. load m (2 * 2 ^ p) j = None)"
    by (rule strassen_level [OF strassen_power e]; (rule assemble_odd; assumption)?) simp_all
  then show ?thesis
    using entries_dims [OF e(1)] by (simp add: strassen_product_def)
qed

theorem strassen_odd_unwritten_witness:
  "\<exists>m. strassen_product \<lparr>rows_of = 3, cols_of = 3, cells = replicate 9 (Some (1 :: int))\<rparr>
      \<lparr>rows_of = 3, cols_of = 3, cells = replicate 9 (Some 1)\<rparr> = Some m
    \<and> load m 2 0 = None"
proof -
  let ?a = "\<lparr>rows_of = 3, cols_of = 3, cells = replicate 9 (Some (1 :: int))\<rparr>"
  have "written (2 * 2 ^ 0 + 1) ?a"
    by (simp add: written_def square_def)
  from strassen_odd_unwritten [OF this this] show ?thesis
    by auto
qed

end
