(* ===== verification/Task_Queue.thy ===== *)
theory Task_Queue
  imports Prelude
begin

text \<open>
  The task queue of \<^verbatim>\<open>Sandbox/task_queue.hpp\<close>: worker threads that take tasks from a shared deque
  under a mutex and sleep on a condition variable. One thread, the client, calls the members. Every
  thread has a program counter, and a step of the system is a step of one thread between two accesses
  to shared state: a \<open>label\<close> says which thread moves, so that a list of labels is an interleaving.
  A step that has to wait for the mutex or for another thread is not enabled: \<open>None\<close>. Unlocking
  a mutex that the thread does not hold, and \<open>front\<close> of an empty deque, set the field \<open>undefined\<close>, after which
  no step is possible. The call of a task is the parameter \<open>invoke\<close>: its value or the exception it throws;
  tasks do not call the queue. The fields \<open>pushed\<close>, \<open>taken\<close> and \<open>finished\<close> record the history.
\<close>

subsection \<open>State\<close>

datatype stop_policy = wait_for_queue_completion | stop_after_current_task

datatype 'f task = Void_task 'f | Future_task nat 'f

datatype owner = Client | Worker nat

text \<open>The program counter of the loop in \<open>init_workers\<close>: \<open>W_test\<close> evaluates the predicate of \<open>wait\<close>,
  \<open>W_wait\<close> is the moment between a false predicate and the atomic release of the mutex.\<close>

datatype 'f worker =
    W_lock | W_test | W_wait | W_blocked | W_woken | W_decide | W_take
  | W_unlock "'f task" | W_run "'f task" | W_exit

datatype caller = From_stop | From_wait | From_destructor

datatype 'f client =
    Idle
  | Void_lock 'f | Void_emplace 'f | Void_unlock | Void_notify | Void_return
  | Future_lock nat 'f | Future_emplace nat 'f | Future_unlock | Future_notify
  | Spawn nat
  | Stop_request caller | Stop_running caller | Stop_notify caller | Join nat caller
  | Stop_clear caller | Stop_reset caller | Wait_policy | Destroyed

record ('f, 'e, 'v) task_queue =
  m_tasks :: "'f task list"
  m_on_exception :: nat
  m_locker :: "owner option"
  m_workers :: "'f worker list"
  m_num_workers :: nat
  m_stop_policy :: stop_policy
  m_running :: bool
  m_stop_requested :: bool
  client :: "'f client"
  undefined_behaviour :: bool
  promises :: "nat \<Rightarrow> ('e + 'v) option"
  next_promise :: nat
  handled :: "(nat \<times> 'e) list"
  pushed :: "'f task list"
  taken :: "'f task list"
  finished :: "'f task list"

definition TaskQueue_ctor :: "nat \<Rightarrow> ('f, 'e, 'v) task_queue" where
  "TaskQueue_ctor num_workers = \<lparr>m_tasks = [], m_on_exception = 0, m_locker = None, m_workers = [],
     m_num_workers = num_workers, m_stop_policy = stop_after_current_task, m_running = False,
     m_stop_requested = False, client = Idle, undefined_behaviour = False, promises = (\<lambda>_. None),
     next_promise = 0, handled = [], pushed = [], taken = [], finished = []\<rparr>"

subsection \<open>Mutex and condition variable\<close>

definition lock_mutex :: "owner \<Rightarrow> ('f, 'e, 'v) task_queue \<Rightarrow> ('f, 'e, 'v) task_queue option" where
  "lock_mutex me s = (if m_locker s = None then Some (s\<lparr>m_locker := Some me\<rparr>) else None)"

definition unlock_mutex :: "owner \<Rightarrow> ('f, 'e, 'v) task_queue \<Rightarrow> ('f, 'e, 'v) task_queue" where
  "unlock_mutex me s = (if m_locker s = Some me then s\<lparr>m_locker := None\<rparr>
     else s\<lparr>undefined_behaviour := True\<rparr>)"

definition goto :: "nat \<Rightarrow> 'f worker \<Rightarrow> ('f, 'e, 'v) task_queue \<Rightarrow> ('f, 'e, 'v) task_queue" where
  "goto w pc s = s\<lparr>m_workers := (m_workers s)[w := pc]\<rparr>"

definition wake :: "'f worker \<Rightarrow> 'f worker" where
  "wake pc = (if pc = W_blocked then W_woken else pc)"

definition notify_all :: "('f, 'e, 'v) task_queue \<Rightarrow> ('f, 'e, 'v) task_queue" where
  "notify_all s = s\<lparr>m_workers := map wake (m_workers s)\<rparr>"

text \<open>\<open>notify_one\<close> wakes one of the blocked workers, which one is not determined: the choice \<open>pick\<close>
  has to name a blocked worker, or none if there is none.\<close>

definition notify_one :: "nat option \<Rightarrow> ('f, 'e, 'v) task_queue \<Rightarrow> ('f, 'e, 'v) task_queue option" where
  "notify_one pick s = (case pick of
      None \<Rightarrow> if W_blocked \<in> set (m_workers s) then None else Some s
    | Some w \<Rightarrow> if w < length (m_workers s) \<and> m_workers s ! w = W_blocked
        then Some (goto w W_woken s) else None)"

subsection \<open>Workers\<close>

text \<open>The closures made by \<open>push_void_task\<close> and \<open>push_future_task\<close>.\<close>

definition perform :: "('f \<Rightarrow> 'e + 'v) \<Rightarrow> 'f task \<Rightarrow> ('f, 'e, 'v) task_queue \<Rightarrow> ('f, 'e, 'v) task_queue" where
  "perform invoke t s = (case t of
      Void_task f \<Rightarrow> (case invoke f of
          Inl e \<Rightarrow> s\<lparr>handled := handled s @ [(m_on_exception s, e)]\<rparr>
        | Inr _ \<Rightarrow> s)
    | Future_task p f \<Rightarrow> s\<lparr>promises := (promises s)(p \<mapsto> invoke f)\<rparr>)"

definition worker_step :: "('f \<Rightarrow> 'e + 'v) \<Rightarrow> nat \<Rightarrow> ('f, 'e, 'v) task_queue \<Rightarrow>
    ('f, 'e, 'v) task_queue option" where
  "worker_step invoke w s = (case m_workers s ! w of
      W_lock \<Rightarrow> map_option (goto w W_test) (lock_mutex (Worker w) s)
    | W_test \<Rightarrow> Some (goto w (if m_tasks s \<noteq> [] \<or> m_stop_requested s then W_decide else W_wait) s)
    | W_wait \<Rightarrow> Some (goto w W_blocked (unlock_mutex (Worker w) s))
    | W_blocked \<Rightarrow> None
    | W_woken \<Rightarrow> map_option (goto w W_test) (lock_mutex (Worker w) s)
    | W_decide \<Rightarrow>
        if m_stop_requested s \<and> (m_tasks s = [] \<or> m_stop_policy s = stop_after_current_task)
        then Some (goto w W_exit (unlock_mutex (Worker w) s))
        else Some (goto w W_take s)
    | W_take \<Rightarrow> (case m_tasks s of
          [] \<Rightarrow> Some (s\<lparr>undefined_behaviour := True\<rparr>)
        | t # ts \<Rightarrow> Some (goto w (W_unlock t) (s\<lparr>m_tasks := ts, taken := taken s @ [t]\<rparr>)))
    | W_unlock t \<Rightarrow> Some (goto w (W_run t) (unlock_mutex (Worker w) s))
    | W_run t \<Rightarrow> Some (goto w W_lock ((perform invoke t s)\<lparr>finished := finished s @ [t]\<rparr>))
    | W_exit \<Rightarrow> None)"

definition spurious_wakeup :: "nat \<Rightarrow> ('f, 'e, 'v) task_queue \<Rightarrow> ('f, 'e, 'v) task_queue option" where
  "spurious_wakeup w s = (if m_workers s ! w = W_blocked then Some (goto w W_woken s) else None)"

subsection \<open>The members called by the client\<close>

definition go_to :: "'f client \<Rightarrow> ('f, 'e, 'v) task_queue \<Rightarrow> ('f, 'e, 'v) task_queue" where
  "go_to pc s = s\<lparr>client := pc\<rparr>"

definition emplace_back :: "'f task \<Rightarrow> ('f, 'e, 'v) task_queue \<Rightarrow> ('f, 'e, 'v) task_queue" where
  "emplace_back t s = s\<lparr>m_tasks := m_tasks s @ [t], pushed := pushed s @ [t]\<rparr>"

definition push_void_task :: "'f \<Rightarrow> ('f, 'e, 'v) task_queue \<Rightarrow> ('f, 'e, 'v) task_queue" where
  "push_void_task f s = (if m_stop_requested s then s else go_to (Void_lock f) s)"

definition push_future_task :: "'f \<Rightarrow> ('f, 'e, 'v) task_queue \<Rightarrow> ('f, 'e, 'v) task_queue" where
  "push_future_task f s = (if m_stop_requested s then s
     else go_to (Future_lock (next_promise s) f) (s\<lparr>next_promise := next_promise s + 1\<rparr>))"

definition set_exception_handler :: "nat \<Rightarrow> ('f, 'e, 'v) task_queue \<Rightarrow> ('f, 'e, 'v) task_queue" where
  "set_exception_handler handler s = s\<lparr>m_on_exception := handler\<rparr>"

definition set_num_workers :: "nat \<Rightarrow> ('f, 'e, 'v) task_queue \<Rightarrow> cxx_exception + ('f, 'e, 'v) task_queue" where
  "set_num_workers num s = (if m_running s
     then Inl (runtime_error ''Attempt to change number of workers while running'')
     else Inr (s\<lparr>m_num_workers := num\<rparr>))"

definition start :: "('f, 'e, 'v) task_queue \<Rightarrow> ('f, 'e, 'v) task_queue" where
  "start s = (if m_running s then go_to Idle s else go_to (Spawn 0) (s\<lparr>m_running := True\<rparr>))"

definition init_workers :: "nat \<Rightarrow> ('f, 'e, 'v) task_queue \<Rightarrow> ('f, 'e, 'v) task_queue" where
  "init_workers i s = (if i < m_num_workers s
     then go_to (Spawn (i + 1)) (s\<lparr>m_workers := m_workers s @ [W_lock]\<rparr>)
     else go_to Idle s)"

definition return_from_stop :: "caller \<Rightarrow> ('f, 'e, 'v) task_queue \<Rightarrow> ('f, 'e, 'v) task_queue" where
  "return_from_stop k s = (case k of
      From_stop \<Rightarrow> go_to Idle s
    | From_wait \<Rightarrow> go_to Wait_policy s
    | From_destructor \<Rightarrow> go_to Destroyed s)"

definition stop :: "caller \<Rightarrow> ('f, 'e, 'v) task_queue \<Rightarrow> ('f, 'e, 'v) task_queue" where
  "stop k s = (if \<not> m_running s then return_from_stop k s else go_to (Stop_request k) s)"

definition wait_for_completion :: "('f, 'e, 'v) task_queue \<Rightarrow> ('f, 'e, 'v) task_queue" where
  "wait_for_completion s = (if \<not> m_running s then s
     else stop From_wait (s\<lparr>m_stop_policy := wait_for_queue_completion\<rparr>))"

definition join_worker :: "nat \<Rightarrow> caller \<Rightarrow> ('f, 'e, 'v) task_queue \<Rightarrow> ('f, 'e, 'v) task_queue option" where
  "join_worker i k s = (if i < length (m_workers s)
     then if m_workers s ! i = W_exit then Some (go_to (Join (i + 1) k) s) else None
     else Some (go_to (Stop_clear k) s))"

definition client_step :: "nat option \<Rightarrow> ('f, 'e, 'v) task_queue \<Rightarrow> ('f, 'e, 'v) task_queue option" where
  "client_step pick s = (case client s of
      Idle \<Rightarrow> None
    | Void_lock f \<Rightarrow> map_option (go_to (Void_emplace f)) (lock_mutex Client s)
    | Void_emplace f \<Rightarrow> Some (go_to Void_unlock (emplace_back (Void_task f) s))
    | Void_unlock \<Rightarrow> Some (go_to Void_notify (unlock_mutex Client s))
    | Void_notify \<Rightarrow> map_option (go_to Void_return) (notify_one pick s)
    | Void_return \<Rightarrow> Some (go_to Idle (unlock_mutex Client s))
    | Future_lock p f \<Rightarrow> map_option (go_to (Future_emplace p f)) (lock_mutex Client s)
    | Future_emplace p f \<Rightarrow> Some (go_to Future_unlock (emplace_back (Future_task p f) s))
    | Future_unlock \<Rightarrow> Some (go_to Future_notify (unlock_mutex Client s))
    | Future_notify \<Rightarrow> map_option (go_to Idle) (notify_one pick s)
    | Spawn i \<Rightarrow> Some (init_workers i s)
    | Stop_request k \<Rightarrow> Some (go_to (Stop_running k) (s\<lparr>m_stop_requested := True\<rparr>))
    | Stop_running k \<Rightarrow> Some (go_to (Stop_notify k) (s\<lparr>m_running := False\<rparr>))
    | Stop_notify k \<Rightarrow> Some (go_to (Join 0 k) (notify_all s))
    | Join i k \<Rightarrow> join_worker i k s
    | Stop_clear k \<Rightarrow> Some (go_to (Stop_reset k) (s\<lparr>m_workers := []\<rparr>))
    | Stop_reset k \<Rightarrow> Some (return_from_stop k (s\<lparr>m_stop_requested := False\<rparr>))
    | Wait_policy \<Rightarrow> Some (start (s\<lparr>m_stop_policy := stop_after_current_task\<rparr>))
    | Destroyed \<Rightarrow> None)"

datatype 'f request =
    Push_void 'f | Push_future 'f | Set_handler nat | Set_workers nat
  | Start | Stop | Wait_for_completion | Destroy

definition call :: "'f request \<Rightarrow> ('f, 'e, 'v) task_queue \<Rightarrow> ('f, 'e, 'v) task_queue" where
  "call r s = (case r of
      Push_void f \<Rightarrow> push_void_task f s
    | Push_future f \<Rightarrow> push_future_task f s
    | Set_handler h \<Rightarrow> set_exception_handler h s
    | Set_workers n \<Rightarrow> (case set_num_workers n s of Inl e \<Rightarrow> s | Inr s' \<Rightarrow> s')
    | Start \<Rightarrow> start s
    | Stop \<Rightarrow> stop From_stop s
    | Wait_for_completion \<Rightarrow> wait_for_completion s
    | Destroy \<Rightarrow> stop From_destructor s)"

subsection \<open>Interleavings\<close>

datatype 'f label = Call "'f request" | Client_step "nat option" | Worker_step nat | Spurious nat

definition system_step :: "('f \<Rightarrow> 'e + 'v) \<Rightarrow> 'f label \<Rightarrow> ('f, 'e, 'v) task_queue \<Rightarrow>
    ('f, 'e, 'v) task_queue option" where
  "system_step invoke l s = (if undefined_behaviour s then None else case l of
      Call r \<Rightarrow> if client s = Idle then Some (call r s) else None
    | Client_step pick \<Rightarrow> client_step pick s
    | Worker_step w \<Rightarrow> if w < length (m_workers s) then worker_step invoke w s else None
    | Spurious w \<Rightarrow> if w < length (m_workers s) then spurious_wakeup w s else None)"

primrec schedule :: "('f \<Rightarrow> 'e + 'v) \<Rightarrow> 'f label list \<Rightarrow> ('f, 'e, 'v) task_queue \<Rightarrow>
    ('f, 'e, 'v) task_queue option" where
  "schedule invoke [] s = Some s"
| "schedule invoke (l # ls) s = Option.bind (system_step invoke l s) (schedule invoke ls)"

inductive reachable :: "('f \<Rightarrow> 'e + 'v) \<Rightarrow> nat \<Rightarrow> ('f, 'e, 'v) task_queue \<Rightarrow> bool"
  for invoke :: "'f \<Rightarrow> 'e + 'v" and n :: nat where
  created: "reachable invoke n (TaskQueue_ctor n)"
| stepped: "reachable invoke n s \<Longrightarrow> system_step invoke l s = Some s' \<Longrightarrow> reachable invoke n s'"

end
