(* ===== verification/Task_Queue_Correct.thy ===== *)
theory Task_Queue_Correct
  imports Task_Queue
begin

text \<open>
  The invariant of the task queue under all interleavings: who holds the mutex, what the place of the
  client says about the flags and the workers, when workers may leave, where every task is, and
  which promises are set. Steps of workers, of the client and spurious wakeups keep it.
\<close>

subsection \<open>Steps\<close>

lemma system_step_cases:
  assumes "system_step invoke l s = Some s'"
  obtains (Call) r where "l = Call r" "\<not> undefined_behaviour s" "client s = Idle" "s' = call r s"
  | (Client) pick where "l = Client_step pick" "\<not> undefined_behaviour s" "client_step pick s = Some s'"
  | (Worker) w where "l = Worker_step w" "\<not> undefined_behaviour s" "w < length (m_workers s)"
      "worker_step invoke w s = Some s'"
  | (Spurious) w where "l = Spurious w" "\<not> undefined_behaviour s" "w < length (m_workers s)"
      "m_workers s ! w = W_blocked" "s' = goto w W_woken s"
  using assms
  by (auto simp: system_step_def spurious_wakeup_def split: if_splits label.splits)

lemmas member_defs = push_void_task_def push_future_task_def set_exception_handler_def
  set_num_workers_def start_def stop_def wait_for_completion_def init_workers_def join_worker_def
  return_from_stop_def go_to_def emplace_back_def

lemmas sync_defs = lock_mutex_def unlock_mutex_def goto_def notify_one_def notify_all_def wake_def

lemmas step_splits = if_splits option.splits caller.splits

subsection \<open>Who holds the mutex\<close>

definition worker_holds :: "'f worker \<Rightarrow> bool" where
  "worker_holds pc = (case pc of W_test \<Rightarrow> True | W_wait \<Rightarrow> True | W_decide \<Rightarrow> True | W_take \<Rightarrow> True
     | W_unlock _ \<Rightarrow> True | _ \<Rightarrow> False)"

definition client_holds :: "'f client \<Rightarrow> bool" where
  "client_holds pc = (case pc of Void_emplace _ \<Rightarrow> True | Void_unlock \<Rightarrow> True
     | Future_emplace _ _ \<Rightarrow> True | Future_unlock \<Rightarrow> True | _ \<Rightarrow> False)"

lemma holds_simps [simp]:
  "\<not> worker_holds W_lock" "worker_holds W_test" "worker_holds W_wait" "\<not> worker_holds W_blocked"
  "\<not> worker_holds W_woken" "worker_holds W_decide" "worker_holds W_take" "worker_holds (W_unlock t)"
  "\<not> worker_holds (W_run t)" "\<not> worker_holds W_exit"
  "worker_holds (wake pc) = worker_holds pc"
  by (auto simp: worker_holds_def wake_def)

definition mutex_at :: "owner option \<Rightarrow> 'f worker list \<Rightarrow> 'f client \<Rightarrow> bool" where
  "mutex_at lk ws c \<longleftrightarrow>
     (\<forall>w. lk = Some (Worker w) \<longleftrightarrow> w < length ws \<and> worker_holds (ws ! w)) \<and>
     (lk = Some Client \<longleftrightarrow> client_holds c)"

abbreviation mutex_ok :: "('f, 'e, 'v) task_queue \<Rightarrow> bool" where
  "mutex_ok s \<equiv> mutex_at (m_locker s) (m_workers s) (client s)"

lemma mutex_holder: "mutex_at lk ws c \<Longrightarrow> w < length ws \<Longrightarrow> worker_holds (ws ! w) \<Longrightarrow> lk = Some (Worker w)"
  by (auto simp: mutex_at_def)

lemma mutex_client_holder: "mutex_at lk ws c \<Longrightarrow> client_holds c \<Longrightarrow> lk = Some Client"
  by (simp add: mutex_at_def)

lemma mutex_keep:
  "mutex_at lk ws c \<Longrightarrow> w < length ws \<Longrightarrow> worker_holds pc = worker_holds (ws ! w) \<Longrightarrow> mutex_at lk (ws[w := pc]) c"
  by (simp add: mutex_at_def nth_list_update)

lemma mutex_take:
  "mutex_at None ws c \<Longrightarrow> w < length ws \<Longrightarrow> worker_holds pc \<Longrightarrow> mutex_at (Some (Worker w)) (ws[w := pc]) c"
  by (auto simp: mutex_at_def nth_list_update)

lemma mutex_give:
  "mutex_at lk ws c \<Longrightarrow> w < length ws \<Longrightarrow> worker_holds (ws ! w) \<Longrightarrow> \<not> worker_holds pc \<Longrightarrow>
   mutex_at None (ws[w := pc]) c"
  by (simp add: mutex_at_def nth_list_update) (metis option.inject owner.distinct(1) owner.inject)

lemma mutex_client:
  "mutex_at lk ws c \<Longrightarrow> client_holds c' = client_holds c \<Longrightarrow> mutex_at lk ws c'"
  by (simp add: mutex_at_def)

lemma mutex_client_take: "mutex_at None ws c \<Longrightarrow> client_holds c' \<Longrightarrow> mutex_at (Some Client) ws c'"
  by (auto simp: mutex_at_def)

lemma mutex_client_give: "mutex_at (Some Client) ws c \<Longrightarrow> \<not> client_holds c' \<Longrightarrow> mutex_at None ws c'"
  by (simp add: mutex_at_def)

lemma mutex_map_wake: "mutex_at lk ws c \<Longrightarrow> mutex_at lk (map wake ws) c"
  by (simp add: mutex_at_def cong: conj_cong)

lemma mutex_snoc: "mutex_at lk ws c \<Longrightarrow> \<not> worker_holds pc \<Longrightarrow> mutex_at lk (ws @ [pc]) c"
  by (simp add: mutex_at_def nth_append less_Suc_eq)

lemma mutex_clear:
  "mutex_at lk ws c \<Longrightarrow> (\<forall>pc \<in> set ws. pc = W_exit) \<Longrightarrow> mutex_at lk [] c"
  by (auto simp: mutex_at_def) (metis holds_simps(10) nth_mem)

subsection \<open>The invariant\<close>

definition policy_of :: "caller \<Rightarrow> stop_policy" where
  "policy_of k = (if k = From_wait then wait_for_queue_completion else stop_after_current_task)"

text \<open>What the place of the client says about the flags, the policy and the number of workers.\<close>

fun phase_at :: "'f client \<Rightarrow> bool \<Rightarrow> stop_policy \<Rightarrow> bool \<Rightarrow> nat \<Rightarrow> nat \<Rightarrow> bool" where
  "phase_at (Spawn i) req pol run num len \<longleftrightarrow>
     \<not> req \<and> pol = stop_after_current_task \<and> run \<and> len = i \<and> i \<le> num"
| "phase_at (Stop_request k) req pol run num len \<longleftrightarrow> \<not> req \<and> pol = policy_of k \<and> run \<and> len = num"
| "phase_at (Stop_running k) req pol run num len \<longleftrightarrow> req \<and> pol = policy_of k \<and> run \<and> len = num"
| "phase_at (Stop_notify k) req pol run num len \<longleftrightarrow> req \<and> pol = policy_of k \<and> \<not> run \<and> len = num"
| "phase_at (Join i k) req pol run num len \<longleftrightarrow>
     req \<and> pol = policy_of k \<and> \<not> run \<and> len = num \<and> i \<le> num"
| "phase_at (Stop_clear k) req pol run num len \<longleftrightarrow> req \<and> pol = policy_of k \<and> \<not> run \<and> len = num"
| "phase_at (Stop_reset k) req pol run num len \<longleftrightarrow> req \<and> pol = policy_of k \<and> \<not> run \<and> len = 0"
| "phase_at Wait_policy req pol run num len \<longleftrightarrow>
     \<not> req \<and> pol = wait_for_queue_completion \<and> \<not> run \<and> len = 0"
| "phase_at Destroyed req pol run num len \<longleftrightarrow>
     \<not> req \<and> pol = stop_after_current_task \<and> \<not> run \<and> len = 0"
| "phase_at _ req pol run num len \<longleftrightarrow>
     \<not> req \<and> pol = stop_after_current_task \<and> len = (if run then num else 0)"

definition phase_ok :: "('f, 'e, 'v) task_queue \<Rightarrow> bool" where
  "phase_ok s \<longleftrightarrow> phase_at (client s) (m_stop_requested s) (m_stop_policy s) (m_running s)
     (m_num_workers s) (length (m_workers s))"

definition exits_ok :: "('f, 'e, 'v) task_queue \<Rightarrow> bool" where
  "exits_ok s \<longleftrightarrow> (W_exit \<in> set (m_workers s) \<longrightarrow>
     m_stop_requested s \<and> (m_stop_policy s = wait_for_queue_completion \<longrightarrow> m_tasks s = []))"

definition work_ok :: "('f, 'e, 'v) task_queue \<Rightarrow> bool" where
  "work_ok s \<longleftrightarrow> (\<forall>v < length (m_workers s).
     (m_workers s ! v = W_take \<longrightarrow> m_tasks s \<noteq> []) \<and>
     (m_workers s ! v = W_decide \<longrightarrow> m_tasks s \<noteq> [] \<or> m_stop_requested s))"

definition joined_ok :: "('f, 'e, 'v) task_queue \<Rightarrow> bool" where
  "joined_ok s \<longleftrightarrow> (case client s of
      Join i k \<Rightarrow> \<forall>j < i. m_workers s ! j = W_exit
    | Stop_clear k \<Rightarrow> \<forall>j < length (m_workers s). m_workers s ! j = W_exit
    | Stop_reset k \<Rightarrow> k = From_wait \<longrightarrow> 0 < m_num_workers s \<longrightarrow> m_tasks s = []
    | Wait_policy \<Rightarrow> 0 < m_num_workers s \<longrightarrow> m_tasks s = []
    | _ \<Rightarrow> True)"

definition in_hand :: "'f worker \<Rightarrow> 'f task list" where
  "in_hand pc = (case pc of W_unlock t \<Rightarrow> [t] | W_run t \<Rightarrow> [t] | _ \<Rightarrow> [])"

definition history_ok :: "('f, 'e, 'v) task_queue \<Rightarrow> bool" where
  "history_ok s \<longleftrightarrow> pushed s = taken s @ m_tasks s \<and>
     mset (taken s) = mset (finished s) + mset (concat (map in_hand (m_workers s)))"

definition queue_ok :: "('f, 'e, 'v) task_queue \<Rightarrow> bool" where
  "queue_ok s \<longleftrightarrow> mutex_ok s \<and> phase_ok s \<and> exits_ok s \<and> work_ok s \<and> joined_ok s \<and> history_ok s"

lemma mset_in_hand_update:
  "w < length ws \<Longrightarrow> mset (concat (map in_hand (ws[w := pc]))) + mset (in_hand (ws ! w)) =
     mset (concat (map in_hand ws)) + mset (in_hand pc)"
proof (induction ws arbitrary: w)
  case (Cons a ws)
  show ?case
  proof (cases w)
    case (Suc v)
    then show ?thesis using Cons.IH[of v] Cons.prems by (simp add: union_assoc)
  qed (simp add: ac_simps)
qed simp

lemma in_hand_simps [simp]:
  "in_hand W_lock = []" "in_hand W_test = []" "in_hand W_wait = []" "in_hand W_blocked = []"
  "in_hand W_woken = []" "in_hand W_decide = []" "in_hand W_take = []" "in_hand (W_unlock t) = [t]"
  "in_hand (W_run t) = [t]" "in_hand W_exit = []" "in_hand (wake pc) = in_hand pc"
  by (simp_all add: in_hand_def wake_def)

lemma mutex_others:
  "mutex_at lk ws c \<Longrightarrow> w < length ws \<Longrightarrow> worker_holds (ws ! w) \<Longrightarrow> v < length ws \<Longrightarrow> v \<noteq> w \<Longrightarrow>
   \<not> worker_holds (ws ! v)"
  unfolding mutex_at_def by (metis option.inject owner.inject)

lemma work_ok_take: "work_ok s \<Longrightarrow> w < length (m_workers s) \<Longrightarrow> m_workers s ! w = W_take \<Longrightarrow> m_tasks s \<noteq> []"
  by (simp add: work_ok_def)

subsection \<open>The moves of a worker\<close>

lemma worker_step_cases:
  assumes step: "worker_step invoke w s = Some s'" and w: "w < length (m_workers s)"
    and mutex: "mutex_ok s" and work: "work_ok s"
  obtains
    (lock) "m_workers s ! w = W_lock \<or> m_workers s ! w = W_woken" "m_locker s = None"
      "s' = s\<lparr>m_locker := Some (Worker w), m_workers := (m_workers s)[w := W_test]\<rparr>"
  | (test) "m_workers s ! w = W_test" "m_tasks s \<noteq> [] \<or> m_stop_requested s"
      "s' = s\<lparr>m_workers := (m_workers s)[w := W_decide]\<rparr>"
  | (fails) "m_workers s ! w = W_test" "m_tasks s = []" "\<not> m_stop_requested s"
      "s' = s\<lparr>m_workers := (m_workers s)[w := W_wait]\<rparr>"
  | (block) "m_workers s ! w = W_wait"
      "s' = s\<lparr>m_locker := None, m_workers := (m_workers s)[w := W_blocked]\<rparr>"
  | (leave) "m_workers s ! w = W_decide" "m_stop_requested s"
      "m_tasks s = [] \<or> m_stop_policy s = stop_after_current_task"
      "s' = s\<lparr>m_locker := None, m_workers := (m_workers s)[w := W_exit]\<rparr>"
  | (decide) "m_workers s ! w = W_decide"
      "\<not> (m_stop_requested s \<and> (m_tasks s = [] \<or> m_stop_policy s = stop_after_current_task))"
      "s' = s\<lparr>m_workers := (m_workers s)[w := W_take]\<rparr>"
  | (take) t ts where "m_workers s ! w = W_take" "m_tasks s = t # ts"
      "s' = s\<lparr>m_tasks := ts, taken := taken s @ [t], m_workers := (m_workers s)[w := W_unlock t]\<rparr>"
  | (unlock) t where "m_workers s ! w = W_unlock t"
      "s' = s\<lparr>m_locker := None, m_workers := (m_workers s)[w := W_run t]\<rparr>"
  | (run) t where "m_workers s ! w = W_run t"
      "s' = (perform invoke t s)\<lparr>finished := finished s @ [t], m_workers := (m_workers s)[w := W_lock]\<rparr>"
proof (cases "m_workers s ! w")
  case W_lock
  then show ?thesis using step by (intro that(1)) (auto simp: worker_step_def goto_def lock_mutex_def split: if_splits)
next
  case W_test
  then show ?thesis using step
    by (cases "m_tasks s \<noteq> [] \<or> m_stop_requested s")
      (auto simp: worker_step_def goto_def intro: that(2) that(3))
next
  case W_wait
  then show ?thesis using step mutex_holder[OF mutex w]
    by (intro that(4)) (auto simp: worker_step_def goto_def unlock_mutex_def)
next
  case W_blocked
  then show ?thesis using step by (simp add: worker_step_def)
next
  case W_woken
  then show ?thesis using step by (intro that(1)) (auto simp: worker_step_def goto_def lock_mutex_def split: if_splits)
next
  case W_decide
  show ?thesis
  proof (cases "m_stop_requested s \<and> (m_tasks s = [] \<or> m_stop_policy s = stop_after_current_task)")
    case True
    then show ?thesis using W_decide step mutex_holder[OF mutex w]
      by (intro that(5)) (auto simp: worker_step_def goto_def unlock_mutex_def)
  next
    case False
    then show ?thesis using W_decide step by (intro that(6)) (auto simp: worker_step_def goto_def)
  qed
next
  case W_take
  then show ?thesis using step work_ok_take[OF work w]
    by (cases "m_tasks s") (auto simp: worker_step_def goto_def intro!: that(7))
next
  case (W_unlock t)
  then show ?thesis using step mutex_holder[OF mutex w]
    by (intro that(8)[of t]) (auto simp: worker_step_def goto_def unlock_mutex_def)
next
  case (W_run t)
  have "m_workers (perform invoke t s) = m_workers s" for t
    by (simp add: perform_def split: task.splits sum.splits)
  then show ?thesis using W_run step by (intro that(9)[of t]) (simp_all add: worker_step_def goto_def)
next
  case W_exit
  then show ?thesis using step by (simp add: worker_step_def)
qed

lemma perform_simps [simp]:
  "m_tasks (perform invoke t s) = m_tasks s" "m_locker (perform invoke t s) = m_locker s"
  "m_workers (perform invoke t s) = m_workers s" "m_num_workers (perform invoke t s) = m_num_workers s"
  "m_stop_policy (perform invoke t s) = m_stop_policy s" "m_running (perform invoke t s) = m_running s"
  "m_stop_requested (perform invoke t s) = m_stop_requested s" "client (perform invoke t s) = client s"
  "undefined_behaviour (perform invoke t s) = undefined_behaviour s"
  "next_promise (perform invoke t s) = next_promise s" "pushed (perform invoke t s) = pushed s"
  "taken (perform invoke t s) = taken s" "finished (perform invoke t s) = finished s"
  by (simp_all add: perform_def split: task.splits sum.splits)

subsection \<open>Steps of workers keep it\<close>

lemma worker_mutex:
  assumes "worker_step invoke w s = Some s'" "w < length (m_workers s)" "mutex_ok s" "work_ok s"
  shows "mutex_ok s'"
  using assms(1-4)
proof (cases rule: worker_step_cases)
  case lock
  then show ?thesis using assms(2,3) by (simp add: mutex_take)
next
  case block
  then show ?thesis using assms(2,3) by (simp add: mutex_give)
next
  case leave
  then show ?thesis using assms(2,3) by (simp add: mutex_give)
next
  case (unlock t)
  then show ?thesis using assms(2,3) by (simp add: mutex_give)
qed (use assms(2,3) in \<open>simp_all add: mutex_keep\<close>)

lemma worker_flags:
  assumes "worker_step invoke w s = Some s'" "w < length (m_workers s)" "mutex_ok s" "work_ok s"
  shows "client s' = client s" "m_stop_requested s' = m_stop_requested s" "m_stop_policy s' = m_stop_policy s"
    "m_running s' = m_running s" "m_num_workers s' = m_num_workers s"
    "length (m_workers s') = length (m_workers s)" "pushed s' = pushed s" "next_promise s' = next_promise s"
    "undefined_behaviour s' = undefined_behaviour s"
  using assms(1-4)
  by (cases rule: worker_step_cases; simp)+

lemma worker_phase:
  assumes "worker_step invoke w s = Some s'" "w < length (m_workers s)" "mutex_ok s" "work_ok s" "phase_ok s"
  shows "phase_ok s'"
  using assms(5) by (simp add: phase_ok_def worker_flags[OF assms(1-4)])

lemma worker_exits:
  assumes "worker_step invoke w s = Some s'" "w < length (m_workers s)" "mutex_ok s" "work_ok s" "exits_ok s"
  shows "exits_ok s'"
  using assms(1-4)
  by (cases rule: worker_step_cases)
    (use assms(5) set_update_subset_insert[of "m_workers s" w] in \<open>auto simp: exits_ok_def dest!: subsetD\<close>)

lemma worker_work:
  assumes "worker_step invoke w s = Some s'" "w < length (m_workers s)" "mutex_ok s" "work_ok s"
  shows "work_ok s'"
  using assms(1-4)
proof (cases rule: worker_step_cases)
  case (take t ts)
  have "(m_workers s)[w := W_unlock t] ! v \<noteq> W_take \<and> (m_workers s)[w := W_unlock t] ! v \<noteq> W_decide"
    if "v < length (m_workers s)" for v
  proof (cases "v = w")
    case False
    then have "\<not> worker_holds (m_workers s ! v)"
      using mutex_others[OF assms(3,2) _ that] take(1) by simp
    then show ?thesis using False by (metis holds_simps(6,7) nth_list_update_neq)
  qed (use that in simp)
  then show ?thesis using take by (simp add: work_ok_def)
next
  case decide
  have "m_tasks s \<noteq> [] \<or> m_stop_requested s" using assms(2,4) decide(1) by (simp add: work_ok_def)
  then have "m_tasks s \<noteq> []" using decide(2) by blast
  then show ?thesis using decide(3) by (simp add: work_ok_def)
qed (use assms(2,4) in \<open>simp_all add: work_ok_def nth_list_update\<close>)

lemma worker_joined:
  assumes "worker_step invoke w s = Some s'" "w < length (m_workers s)" "mutex_ok s" "work_ok s" "joined_ok s"
  shows "joined_ok s'"
proof -
  have tasks: "m_tasks s = [] \<Longrightarrow> m_tasks s' = []"
    using assms(1-4) by (cases rule: worker_step_cases) simp_all
  have kept: "m_workers s' ! v = W_exit" if "m_workers s ! v = W_exit" for v
    using assms(1-4)
    by (cases rule: worker_step_cases; cases "v = w") (use that assms(2) in auto)
  show ?thesis
    using assms(5) tasks kept by (auto simp: joined_ok_def worker_flags[OF assms(1-4)] split: client.splits)
qed

lemma history_keep:
  assumes "history_ok s" "w < length (m_workers s)" "in_hand pc = in_hand (m_workers s ! w)"
  shows "mset (concat (map in_hand ((m_workers s)[w := pc]))) = mset (concat (map in_hand (m_workers s)))"
  using mset_in_hand_update[OF assms(2), of pc] assms(3) by simp

lemma worker_history:
  assumes "worker_step invoke w s = Some s'" "w < length (m_workers s)" "mutex_ok s" "work_ok s" "history_ok s"
  shows "history_ok s'"
  using assms(1-4)
proof (cases rule: worker_step_cases)
  case (take t ts)
  then show ?thesis
    using assms(5) mset_in_hand_update[OF assms(2), of "W_unlock t"] by (simp add: history_ok_def)
next
  case (run t)
  then show ?thesis
    using assms(5) mset_in_hand_update[OF assms(2), of W_lock] by (simp add: history_ok_def)
qed (use assms(5) history_keep[OF assms(5,2)] in \<open>auto simp: history_ok_def\<close>)

lemma worker_ok:
  assumes "worker_step invoke w s = Some s'" "w < length (m_workers s)" "queue_ok s"
  shows "queue_ok s'"
  using assms worker_mutex worker_phase worker_exits worker_work worker_joined worker_history
  unfolding queue_ok_def by metis

subsection \<open>Steps of the client keep it\<close>

lemma call_ok:
  assumes "queue_ok s" "client s = Idle"
  shows "queue_ok (call r s)"
  using assms
  by (cases r)
    (auto simp: queue_ok_def call_def member_defs phase_ok_def exits_ok_def work_ok_def joined_ok_def
      history_ok_def policy_of_def client_holds_def elim: mutex_client split: caller.splits)

lemma exits_map_wake: "W_exit \<in> set (map wake ws) \<longleftrightarrow> W_exit \<in> set ws"
  by (force simp: wake_def split: if_splits)

lemma goto_woken_ok:
  assumes "queue_ok s" "w < length (m_workers s)" "m_workers s ! w = W_blocked"
  shows "queue_ok (goto w W_woken s)"
proof -
  have exits: "W_exit \<in> set ((m_workers s)[w := W_woken]) \<Longrightarrow> W_exit \<in> set (m_workers s)"
    using set_update_subset_insert[of "m_workers s" w W_woken] by auto
  have nth: "(m_workers s)[w := W_woken] ! v = pc \<longleftrightarrow> m_workers s ! v = pc"
    if "pc \<noteq> W_blocked" "pc \<noteq> W_woken" for v pc
    using that assms(2,3) by (cases "v = w") auto
  have "mset (concat (map in_hand ((m_workers s)[w := W_woken]))) = mset (concat (map in_hand (m_workers s)))"
    using mset_in_hand_update[OF assms(2), of W_woken] assms(3) by simp
  then show ?thesis
    using assms exits
    by (auto simp: queue_ok_def goto_def mutex_keep phase_ok_def exits_ok_def work_ok_def joined_ok_def
        history_ok_def nth split: client.splits)
qed

lemma notify_one_ok:
  assumes "queue_ok s" "notify_one pick s = Some s'"
  shows "queue_ok s' \<and> client s' = client s"
  using assms goto_woken_ok[of s]
  by (auto simp: notify_one_def goto_def split: option.splits if_splits)

lemma client_move_ok:
  assumes "queue_ok s" "client_holds c = client_holds (client s)" "joined_ok (s\<lparr>client := c\<rparr>)"
    "phase_at c (m_stop_requested s) (m_stop_policy s) (m_running s) (m_num_workers s) (length (m_workers s))"
  shows "queue_ok (go_to c s)"
proof -
  have "mutex_at (m_locker s) (m_workers s) c"
    using assms(1,2) mutex_client unfolding queue_ok_def by blast
  then show ?thesis
    using assms(1,3,4)
    by (simp add: queue_ok_def go_to_def phase_ok_def exits_ok_def work_ok_def history_ok_def)
qed

lemma client_holds_simps [simp]:
  "\<not> client_holds Idle" "\<not> client_holds (Void_lock f)" "client_holds (Void_emplace f)"
  "client_holds Void_unlock" "\<not> client_holds Void_notify" "\<not> client_holds Void_return"
  "\<not> client_holds (Future_lock p f)" "client_holds (Future_emplace p f)" "client_holds Future_unlock"
  "\<not> client_holds Future_notify" "\<not> client_holds (Spawn i)" "\<not> client_holds (Stop_request k)"
  "\<not> client_holds (Stop_running k)" "\<not> client_holds (Stop_notify k)" "\<not> client_holds (Join i k)"
  "\<not> client_holds (Stop_clear k)" "\<not> client_holds (Stop_reset k)" "\<not> client_holds Wait_policy"
  "\<not> client_holds Destroyed"
  by (simp_all add: client_holds_def)

lemma notify_step_ok:
  assumes "queue_ok s" "client s = Void_notify \<or> client s = Future_notify"
    "notify_one pick s = Some s1" "c = Void_return \<or> c = Idle"
  shows "queue_ok (go_to c s1)"
proof (rule client_move_ok)
  have s1: "queue_ok s1" "client s1 = client s" using notify_one_ok[OF assms(1,3)] by simp_all
  then show "queue_ok s1" by simp
  show "client_holds c = client_holds (client s1)" "joined_ok (s1\<lparr>client := c\<rparr>)"
    using s1(2) assms(2,4) by (auto simp: joined_ok_def)
  show "phase_at c (m_stop_requested s1) (m_stop_policy s1) (m_running s1) (m_num_workers s1) (length (m_workers s1))"
    using s1 assms(2,4) by (auto simp: queue_ok_def phase_ok_def)
qed

lemma acquire_step_ok:
  assumes "queue_ok s" "lock_mutex Client s = Some s1"
    "(\<exists>f. client s = Void_lock f \<and> c = Void_emplace f) \<or> (\<exists>p f. client s = Future_lock p f \<and> c = Future_emplace p f)"
  shows "queue_ok (go_to c s1)"
proof -
  have "m_locker s = None" "s1 = s\<lparr>m_locker := Some Client\<rparr>"
    using assms(2) by (auto simp: lock_mutex_def split: if_splits)
  then show ?thesis
    using assms(1,3)
    by (auto simp: queue_ok_def go_to_def mutex_client_take phase_ok_def exits_ok_def work_ok_def
        joined_ok_def history_ok_def)
qed

lemma emplace_step_ok:
  assumes "queue_ok s"
    "(\<exists>f. client s = Void_emplace f \<and> c = Void_unlock) \<or> (\<exists>p f. client s = Future_emplace p f \<and> c = Future_unlock)"
  shows "queue_ok (go_to c (emplace_back t s))"
proof -
  have "mutex_at (m_locker s) (m_workers s) c"
    using assms mutex_client[of "m_locker s" "m_workers s" "client s" c] by (auto simp: queue_ok_def)
  moreover have "m_stop_policy s = stop_after_current_task" "\<not> m_stop_requested s"
    using assms by (auto simp: queue_ok_def phase_ok_def)
  ultimately show ?thesis
    using assms
    by (auto simp: queue_ok_def go_to_def emplace_back_def phase_ok_def exits_ok_def work_ok_def
        joined_ok_def history_ok_def)
qed

lemma unlock_step_ok:
  assumes "queue_ok s" "(client s = Void_unlock \<and> c = Void_notify) \<or> (client s = Future_unlock \<and> c = Future_notify)"
  shows "queue_ok (go_to c (unlock_mutex Client s))" "undefined_behaviour (unlock_mutex Client s) = undefined_behaviour s"
proof -
  have lk: "m_locker s = Some Client"
    using assms mutex_client_holder[of "m_locker s" "m_workers s" "client s"] by (auto simp: queue_ok_def)
  then have "mutex_at None (m_workers s) c"
    using assms mutex_client_give[of "m_workers s" "client s" c] by (auto simp: queue_ok_def)
  then show "queue_ok (go_to c (unlock_mutex Client s))"
    using assms lk
    by (auto simp: queue_ok_def go_to_def unlock_mutex_def phase_ok_def exits_ok_def work_ok_def joined_ok_def history_ok_def)
  show "undefined_behaviour (unlock_mutex Client s) = undefined_behaviour s" using lk by (simp add: unlock_mutex_def)
qed

lemma spawn_ok:
  assumes "queue_ok s" "client s = Spawn i"
  shows "queue_ok (init_workers i s)"
proof (cases "i < m_num_workers s")
  case True
  have "mutex_at (m_locker s) (m_workers s @ [W_lock]) (Spawn (i + 1))"
    using assms mutex_snoc[of "m_locker s" "m_workers s" "client s" W_lock]
      mutex_client[of "m_locker s" "m_workers s @ [W_lock]" "client s" "Spawn (i + 1)"]
    by (simp add: queue_ok_def)
  then show ?thesis
    using assms True
    by (auto simp: queue_ok_def init_workers_def go_to_def phase_ok_def exits_ok_def work_ok_def joined_ok_def
        history_ok_def nth_append less_Suc_eq)
next
  case False
  then show ?thesis
    using assms client_move_ok[of s Idle]
    by (simp add: init_workers_def joined_ok_def) (simp add: queue_ok_def phase_ok_def)
qed

lemma stop_flags_ok:
  assumes "queue_ok s"
  shows "client s = Stop_request k \<Longrightarrow> queue_ok (go_to (Stop_running k) (s\<lparr>m_stop_requested := True\<rparr>))"
    "client s = Stop_running k \<Longrightarrow> queue_ok (go_to (Stop_notify k) (s\<lparr>m_running := False\<rparr>))"
  using assms mutex_client[of "m_locker s" "m_workers s" "client s"]
  by (simp_all add: queue_ok_def go_to_def phase_ok_def exits_ok_def work_ok_def joined_ok_def history_ok_def)

lemma notify_all_ok:
  assumes "queue_ok s" "client s = Stop_notify k"
  shows "queue_ok (go_to (Join 0 k) (notify_all s))"
proof -
  have "mutex_at (m_locker s) (map wake (m_workers s)) (Join 0 k)"
    using assms mutex_map_wake[of "m_locker s" "m_workers s" "client s"]
      mutex_client[of "m_locker s" "map wake (m_workers s)" "client s" "Join 0 k"]
    by (simp add: queue_ok_def)
  moreover have "work_ok (notify_all s)"
    using assms(1) by (simp add: queue_ok_def work_ok_def notify_all_def wake_def)
  moreover have "map in_hand (map wake (m_workers s)) = map in_hand (m_workers s)"
    by simp
  ultimately show ?thesis
    using assms exits_map_wake[of "m_workers s"]
    by (simp add: queue_ok_def go_to_def notify_all_def phase_ok_def exits_ok_def work_ok_def joined_ok_def
        history_ok_def comp_def del: set_map)
qed

lemma join_ok:
  assumes "queue_ok s" "client s = Join i k" "join_worker i k s = Some s'"
  shows "queue_ok s'"
proof (cases "i < length (m_workers s)")
  case True
  then have s': "s' = go_to (Join (i + 1) k) s" "m_workers s ! i = W_exit"
    using assms(3) by (auto simp: join_worker_def split: if_splits)
  have "joined_ok (s\<lparr>client := Join (i + 1) k\<rparr>)"
    using assms(1,2) s'(2) by (auto simp: queue_ok_def joined_ok_def less_Suc_eq)
  then show ?thesis
    using assms(1,2) True client_move_ok[of s "Join (i + 1) k"] s'(1)
    by (simp add: queue_ok_def phase_ok_def)
next
  case False
  then have s': "s' = go_to (Stop_clear k) s"
    using assms(3) by (auto simp: join_worker_def split: if_splits)
  have "joined_ok (s\<lparr>client := Stop_clear k\<rparr>)"
    using assms(1,2) False by (auto simp: queue_ok_def joined_ok_def)
  then show ?thesis
    using assms(1,2) client_move_ok[of s "Stop_clear k"] s' by (simp add: queue_ok_def phase_ok_def)
qed

lemma clear_ok:
  fixes s :: "('f, 'e, 'v) task_queue"
  assumes "queue_ok s" "client s = Stop_clear k"
  shows "queue_ok (go_to (Stop_reset k) (s\<lparr>m_workers := []\<rparr>))"
proof -
  have exits: "\<forall>pc \<in> set (m_workers s). pc = W_exit"
    using assms by (auto simp: queue_ok_def joined_ok_def in_set_conv_nth)
  then have hands: "concat (map in_hand (m_workers s)) = []" by auto
  have drained: "m_tasks s = []" if "k = From_wait" "0 < m_num_workers s"
  proof -
    have "length (m_workers s) = m_num_workers s" "m_stop_policy s = wait_for_queue_completion"
      using assms that(1) by (auto simp: queue_ok_def phase_ok_def policy_of_def)
    then have "W_exit \<in> set (m_workers s)"
      using exits that(2) by (metis length_greater_0_conv nth_mem)
    then show ?thesis
      using assms \<open>m_stop_policy s = _\<close> by (simp add: queue_ok_def exits_ok_def)
  qed
  have "mutex_at (m_locker s) [] (Stop_reset k :: 'f client)"
    using assms exits mutex_clear[of "m_locker s" "m_workers s" "client s"]
      mutex_client[of "m_locker s" "[]" "client s" "Stop_reset k"]
    by (simp add: queue_ok_def)
  then show ?thesis
    using assms hands drained
    by (simp add: queue_ok_def go_to_def phase_ok_def exits_ok_def work_ok_def joined_ok_def history_ok_def)
qed

lemma return_ok:
  assumes "queue_ok s" "client s = Stop_reset k"
  shows "queue_ok (return_from_stop k (s\<lparr>m_stop_requested := False\<rparr>))"
proof -
  have "mutex_at (m_locker s) (m_workers s) c" if "\<not> client_holds c" for c
    using assms that mutex_client[of "m_locker s" "m_workers s" "client s" c] by (simp add: queue_ok_def)
  then show ?thesis
    using assms
    by (cases k) (simp_all add: queue_ok_def return_from_stop_def go_to_def phase_ok_def exits_ok_def work_ok_def
      joined_ok_def history_ok_def policy_of_def)
qed

lemma restart_ok:
  assumes "queue_ok s" "client s = Wait_policy"
  shows "queue_ok (start (s\<lparr>m_stop_policy := stop_after_current_task\<rparr>))"
proof -
  have "mutex_at (m_locker s) (m_workers s) (Spawn 0)"
    using assms mutex_client[of "m_locker s" "m_workers s" "client s" "Spawn 0"] by (simp add: queue_ok_def)
  then show ?thesis
    using assms
    by (simp add: queue_ok_def start_def go_to_def phase_ok_def exits_ok_def work_ok_def joined_ok_def history_ok_def)
qed

lemma void_return_ok:
  assumes "queue_ok s" "client s = Void_return"
  shows "unlock_mutex Client s = s\<lparr>undefined_behaviour := True\<rparr>" "queue_ok (go_to Idle (s\<lparr>undefined_behaviour := True\<rparr>))"
proof -
  have "m_locker s \<noteq> Some Client" using assms by (simp add: queue_ok_def mutex_at_def)
  then show "unlock_mutex Client s = s\<lparr>undefined_behaviour := True\<rparr>" by (simp add: unlock_mutex_def)
  show "queue_ok (go_to Idle (s\<lparr>undefined_behaviour := True\<rparr>))"
    using assms mutex_client[of "m_locker s" "m_workers s" "client s" Idle]
    by (auto simp: queue_ok_def go_to_def phase_ok_def exits_ok_def work_ok_def joined_ok_def history_ok_def)
qed

lemma client_ok:
  assumes "queue_ok s" "client_step pick s = Some s'"
  shows "queue_ok s'"
  using assms
  by (cases "client s")
    (auto simp: client_step_def acquire_step_ok emplace_step_ok unlock_step_ok notify_step_ok spawn_ok
      stop_flags_ok notify_all_ok join_ok clear_ok return_ok restart_ok void_return_ok)

lemma system_ok:
  assumes "queue_ok s" "system_step invoke l s = Some s'"
  shows "queue_ok s'"
  using assms(2)
proof (cases rule: system_step_cases)
  case (Call r)
  then show ?thesis using call_ok[OF assms(1)] by simp
next
  case (Client pick)
  then show ?thesis using client_ok[OF assms(1)] by simp
next
  case (Worker w)
  then show ?thesis using worker_ok[OF _ _ assms(1)] by simp
next
  case (Spurious w)
  then show ?thesis using goto_woken_ok[OF assms(1)] by simp
qed

lemma queue_ctor_ok: "queue_ok (TaskQueue_ctor n)"
  by (simp add: queue_ok_def TaskQueue_ctor_def mutex_at_def phase_ok_def exits_ok_def work_ok_def
      joined_ok_def history_ok_def)

lemma reachable_ok: "reachable invoke n s \<Longrightarrow> queue_ok s"
  by (induction rule: reachable.induct) (auto intro: queue_ctor_ok system_ok)

subsection \<open>Promises\<close>

definition promises_ok :: "('f \<Rightarrow> 'e + 'v) \<Rightarrow> ('f, 'e, 'v) task_queue \<Rightarrow> bool" where
  "promises_ok invoke s \<longleftrightarrow>
     (\<forall>p f. Future_task p f \<in> set (pushed s) \<longrightarrow> p < next_promise s) \<and>
     (\<forall>p f. client s = Future_lock p f \<or> client s = Future_emplace p f \<longrightarrow>
        p < next_promise s \<and> (\<forall>g. Future_task p g \<notin> set (pushed s))) \<and>
     (\<forall>p f g. Future_task p f \<in> set (pushed s) \<longrightarrow> Future_task p g \<in> set (pushed s) \<longrightarrow> f = g) \<and>
     (\<forall>p f. Future_task p f \<in> set (finished s) \<longrightarrow> promises s p = Some (invoke f))"

lemma promises_okD:
  assumes "promises_ok invoke s"
  shows "Future_task p f \<in> set (pushed s) \<Longrightarrow> p < next_promise s"
    "client s = Future_lock p f \<or> client s = Future_emplace p f \<Longrightarrow> p < next_promise s"
    "client s = Future_lock p f \<or> client s = Future_emplace p f \<Longrightarrow> Future_task p g \<notin> set (pushed s)"
    "Future_task p f \<in> set (pushed s) \<Longrightarrow> Future_task p g \<in> set (pushed s) \<Longrightarrow> f = g"
    "Future_task p f \<in> set (finished s) \<Longrightarrow> promises s p = Some (invoke f)"
  using assms unfolding promises_ok_def by blast+

lemma promises_okI:
  assumes "\<And>p f. Future_task p f \<in> set (pushed s) \<Longrightarrow> p < next_promise s"
    "\<And>p f. client s = Future_lock p f \<or> client s = Future_emplace p f \<Longrightarrow> p < next_promise s"
    "\<And>p f g. client s = Future_lock p f \<or> client s = Future_emplace p f \<Longrightarrow> Future_task p g \<notin> set (pushed s)"
    "\<And>p f g. Future_task p f \<in> set (pushed s) \<Longrightarrow> Future_task p g \<in> set (pushed s) \<Longrightarrow> f = g"
    "\<And>p f. Future_task p f \<in> set (finished s) \<Longrightarrow> promises s p = Some (invoke f)"
  shows "promises_ok invoke s"
  using assms unfolding promises_ok_def by simp

lemma finished_pushed: "history_ok s \<Longrightarrow> set (finished s) \<subseteq> set (pushed s)"
  by (metis history_ok_def mset_subset_eq_add_left set_append set_mset_mono set_mset_mset sup.coboundedI1)

lemma in_hand_pushed:
  assumes "history_ok s" "w < length (m_workers s)" "m_workers s ! w = W_run t"
  shows "t \<in> set (pushed s)"
proof -
  have "t \<in> set (concat (map in_hand (m_workers s)))"
    using assms(2,3) nth_mem[OF assms(2)] by (auto intro!: bexI[of _ "W_run t"])
  then have "t \<in># mset (taken s)" using assms(1) by (simp add: history_ok_def)
  then show ?thesis using assms(1) by (simp add: history_ok_def)
qed

lemma perform_promises:
  "promises (perform invoke t s) =
     (case t of Void_task f \<Rightarrow> promises s | Future_task p f \<Rightarrow> (promises s)(p \<mapsto> invoke f))"
  by (simp add: perform_def split: task.splits sum.splits)

lemma worker_promises:
  assumes "worker_step invoke w s = Some s'" "w < length (m_workers s)" "queue_ok s" "promises_ok invoke s"
  shows "promises_ok invoke s'"
proof -
  have ok: "mutex_ok s" "work_ok s" "history_ok s" using assms(3) by (simp_all add: queue_ok_def)
  have p: "\<And>p f. Future_task p f \<in> set (pushed s) \<Longrightarrow> p < next_promise s"
    "\<And>p f g. Future_task p f \<in> set (pushed s) \<Longrightarrow> Future_task p g \<in> set (pushed s) \<Longrightarrow> f = g"
    "\<And>p f. Future_task p f \<in> set (finished s) \<Longrightarrow> promises s p = Some (invoke f)"
    using assms(4) unfolding promises_ok_def by blast+
  show ?thesis
    using assms(1,2) ok(1,2)
  proof (cases rule: worker_step_cases)
    case (run t)
    have t: "t \<in> set (pushed s)" using in_hand_pushed[OF ok(3) assms(2) run(1)] .
    have "promises s' p = Some (invoke f)" if "Future_task p f \<in> set (finished s')" for p f
    proof (cases t)
      case (Void_task g)
      then show ?thesis using that p(3) run(2) by (simp add: perform_promises)
    next
      case (Future_task q g)
      show ?thesis
      proof (cases "q = p")
        case True
        have "Future_task p f \<in> set (pushed s)"
          using that run(2) t finished_pushed[OF ok(3)] by auto
        then have "f = g" using t Future_task True p(2) by blast
        then show ?thesis using True Future_task run(2) by (simp add: perform_promises)
      next
        case False
        then show ?thesis using that p(3) run(2) Future_task by (simp add: perform_promises)
      qed
    qed
    then show ?thesis using assms(4) run(2) by (simp add: promises_ok_def)
  qed (use assms(4) in \<open>simp_all add: promises_ok_def\<close>)
qed

lemma client_frame:
  assumes "client_step pick s = Some s'"
  shows "finished s' = finished s" "promises s' = promises s" "next_promise s' = next_promise s"
  using assms
  by (cases "client s";
      auto simp: client_step_def sync_defs member_defs split: step_splits)+

lemma client_pushed:
  assumes "client_step pick s = Some s'"
  shows "(\<forall>p f. client s \<noteq> Future_emplace p f) \<and> (\<forall>f. client s \<noteq> Void_emplace f) \<and> pushed s' = pushed s \<and>
      (\<forall>p f. (client s' = Future_lock p f \<or> client s' = Future_emplace p f) \<longrightarrow> client s = Future_lock p f) \<or>
    (\<exists>t. (\<forall>p f. client s' \<noteq> Future_lock p f \<and> client s' \<noteq> Future_emplace p f) \<and> pushed s' = pushed s @ [t] \<and>
      ((\<exists>f. t = Void_task f \<and> client s = Void_emplace f) \<or>
       (\<exists>p f. t = Future_task p f \<and> client s = Future_emplace p f)))"
  using assms
  by (cases "client s") (auto simp: client_step_def sync_defs member_defs split: step_splits)

lemma promises_frame:
  assumes "promises_ok invoke s" "pushed s' = pushed s" "finished s' = finished s" "promises s' = promises s"
    "next_promise s' = next_promise s"
    "\<And>p f. client s' = Future_lock p f \<or> client s' = Future_emplace p f \<Longrightarrow>
       client s = Future_lock p f \<or> client s = Future_emplace p f"
  shows "promises_ok invoke s'"
proof (rule promises_okI)
  fix p f g
  assume "client s' = Future_lock p f \<or> client s' = Future_emplace p f"
  then have "client s = Future_lock p f \<or> client s = Future_emplace p f" by (rule assms(6))
  then show "p < next_promise s'" "Future_task p g \<notin> set (pushed s')"
    using promises_okD(2,3)[OF assms(1)] by (simp_all add: assms(2,5))
qed (use promises_okD(1,4,5)[OF assms(1)] in \<open>simp_all add: assms(2-5)\<close>)

lemma promises_snoc:
  assumes "promises_ok invoke s" "pushed s' = pushed s @ [t]" "finished s' = finished s" "promises s' = promises s"
    "next_promise s' = next_promise s" "\<And>p f. t = Future_task p f \<Longrightarrow> client s = Future_emplace p f"
    "\<And>p f. client s' \<noteq> Future_lock p f \<and> client s' \<noteq> Future_emplace p f"
  shows "promises_ok invoke s'"
proof (rule promises_okI)
  have new: "p < next_promise s" "Future_task p g \<notin> set (pushed s)" if "t = Future_task p f" for p f g
    using promises_okD(2,3)[OF assms(1)] assms(6)[OF that] by simp_all
  fix p f g
  show "Future_task p f \<in> set (pushed s') \<Longrightarrow> p < next_promise s'"
    using promises_okD(1)[OF assms(1)] new(1) by (auto simp: assms(2,5))
  show "Future_task p f \<in> set (pushed s') \<Longrightarrow> Future_task p g \<in> set (pushed s') \<Longrightarrow> f = g"
    using promises_okD(4)[OF assms(1)] new(2) by (auto simp: assms(2))
qed (use promises_okD(5)[OF assms(1)] assms(7) in \<open>simp_all add: assms(3,4)\<close>)

lemma client_promises:
  assumes "client_step pick s = Some s'" "promises_ok invoke s"
  shows "promises_ok invoke s'"
  using client_pushed[OF assms(1)]
proof (elim disjE exE conjE, goal_cases)
  case 1
  then show ?case by (intro promises_frame[OF assms(2)]) (auto simp: client_frame[OF assms(1)])
next
  case (2 t f)
  then show ?case by (intro promises_snoc[OF assms(2), of s' t]) (simp_all add: client_frame[OF assms(1)])
next
  case (3 t p f)
  then show ?case by (intro promises_snoc[OF assms(2), of s' t]) (simp_all add: client_frame[OF assms(1)])
qed

lemma call_promises:
  assumes "client s = Idle" "promises_ok invoke s"
  shows "promises_ok invoke (call r s)"
proof (cases "\<exists>f. r = Push_future f")
  case True
  then obtain f where r: "r = Push_future f" ..
  have "next_promise s < next_promise s + 1" by simp
  moreover have "\<And>p g. Future_task p g \<in> set (pushed s) \<Longrightarrow> p < next_promise s"
    using assms(2) unfolding promises_ok_def by blast
  ultimately show ?thesis
    using assms by (auto simp: r call_def push_future_task_def go_to_def promises_ok_def less_Suc_eq)
next
  case False
  then show ?thesis using assms(1)
    by (intro promises_frame[OF assms(2)]; cases r; auto simp: call_def member_defs split: caller.splits if_splits)
qed

lemma reachable_promises: "reachable invoke n s \<Longrightarrow> promises_ok invoke s"
proof (induction rule: reachable.induct)
  case created
  then show ?case by (simp add: promises_ok_def TaskQueue_ctor_def)
next
  case (stepped s l s')
  from stepped(2) show ?case
  proof (cases rule: system_step_cases)
    case (Call r)
    then show ?thesis using call_promises stepped(3) by simp
  next
    case (Client pick)
    then show ?thesis using client_promises stepped(3) by blast
  next
    case (Worker w)
    then show ?thesis using worker_promises reachable_ok[OF stepped(1)] stepped(3) by blast
  next
    case (Spurious w)
    then show ?thesis by (intro promises_frame[OF stepped(3)]) (simp_all add: goto_def)
  qed
qed

subsection \<open>Undefined behaviour\<close>

definition void_only :: "('f, 'e, 'v) task_queue \<Rightarrow> bool" where
  "void_only s \<longleftrightarrow> (undefined_behaviour s \<or> client s = Void_unlock \<or> client s = Void_notify \<or> client s = Void_return \<longrightarrow>
     (\<exists>f. Void_task f \<in> set (pushed s)))"

lemma reachable_void_only: "reachable invoke n s \<Longrightarrow> void_only s"
proof (induction rule: reachable.induct)
  case created
  then show ?case by (simp add: void_only_def TaskQueue_ctor_def)
next
  case (stepped s l s')
  have ok: "queue_ok s" using reachable_ok[OF stepped(1)] .
  from stepped(2) show ?case
  proof (cases rule: system_step_cases)
    case (Call r)
    then show ?thesis
      by (cases r) (auto simp: void_only_def call_def member_defs split: caller.splits)
  next
    case (Client pick)
    then show ?thesis using stepped(3) unlock_step_ok(2)[OF ok, of Future_notify] 
      by (cases "client s")
        (auto simp: void_only_def client_step_def sync_defs member_defs split: step_splits)
  next
    case (Worker w)
    have "mutex_ok s" "work_ok s" using ok by (simp_all add: queue_ok_def)
    then show ?thesis using worker_flags[OF Worker(4,3)] stepped(3) by (simp add: void_only_def)
  next
    case (Spurious w)
    then show ?thesis using stepped(3) by (simp add: void_only_def goto_def)
  qed
qed

end
