(* ===== verification/Task_Queue_Props.thy ===== *)
theory Task_Queue_Props
  imports Task_Queue_Correct
begin

text \<open>
  What the task queue promises to its client, over all interleavings: the order and the single run
  of the tasks, the guarantee of \<open>wait_for_completion\<close>, the end of \<open>stop\<close>, and the executions in which
  it goes wrong.
\<close>

subsection \<open>Order of tasks and completion\<close>

text \<open>C2: In every interleaving the tasks leave the deque in the order in which they were pushed, each
  once; what was taken is finished or in the hands of exactly one worker; and an access to an empty
  deque or a wrong unlock happens only after a call of \<open>push_void_task\<close>.\<close>

theorem tasks_run_once_in_order:
  assumes "reachable invoke n s"
  shows "pushed s = taken s @ m_tasks s \<and>
    mset (taken s) = mset (finished s) + mset (concat (map in_hand (m_workers s))) \<and>
    (undefined_behaviour s \<longrightarrow> (\<exists>f. Void_task f \<in> set (pushed s)))"
  using reachable_ok[OF assms] reachable_void_only[OF assms]
  by (auto simp: queue_ok_def history_ok_def void_only_def)

text \<open>C3: When the call of \<open>stop\<close> inside \<open>wait_for_completion\<close> has returned and there are workers at all,
  every task ever pushed is finished, nothing is queued, and every promise of a future task holds
  the value or the exception of its function.\<close>

theorem waiting_completes_tasks:
  assumes "reachable invoke n s" "client s = Wait_policy" "0 < m_num_workers s"
  shows "m_tasks s = [] \<and> mset (finished s) = mset (pushed s) \<and>
    (\<forall>p f. Future_task p f \<in> set (pushed s) \<longrightarrow> promises s p = Some (invoke f))"
proof -
  have ok: "queue_ok s" using reachable_ok[OF assms(1)] .
  then have tasks: "m_tasks s = []" using assms(2,3) by (simp add: queue_ok_def joined_ok_def)
  have "m_workers s = []" using ok assms(2) by (simp add: queue_ok_def phase_ok_def)
  then have all: "mset (finished s) = mset (pushed s)"
    using ok tasks by (simp add: queue_ok_def history_ok_def)
  then have "set (finished s) = set (pushed s)" by (metis set_mset_mset)
  then show ?thesis using tasks all promises_okD(5)[OF reachable_promises[OF assms(1)]] by blast
qed

definition one_future :: "'f \<Rightarrow> 'f label list" where
  "one_future f = [Call Start, Client_step None, Client_step None, Call (Push_future f), Client_step None,
     Client_step None, Client_step None, Client_step None, Call Wait_for_completion, Client_step None,
     Client_step None, Client_step None] @ replicate 6 (Worker_step 0) @ replicate 3 (Worker_step 0) @
     replicate 4 (Client_step None)"

lemma reachable_schedule:
  "reachable invoke n s \<Longrightarrow> schedule invoke ls s = Some s' \<Longrightarrow> reachable invoke n s'"
  by (induction ls arbitrary: s) (auto intro: reachable.stepped)

lemmas run_defs = one_future_def system_step_def client_step_def worker_step_def spurious_wakeup_def
  call_def member_defs sync_defs perform_def TaskQueue_ctor_def numeral_eq_Suc

lemma one_future_runs:
  "\<exists>s. schedule Inr (one_future True) (TaskQueue_ctor 1) = Some s \<and> client s = Wait_policy \<and>
     m_num_workers s = 1 \<and> pushed s = [Future_task 0 True]"
  by (simp add: run_defs)

theorem tasks_run_once_in_order_witness:
  "\<exists>s :: (bool, unit, bool) task_queue. schedule Inr (one_future True) (TaskQueue_ctor 1) = Some s \<and>
     pushed s = taken s @ m_tasks s \<and> pushed s = [Future_task 0 True]"
proof -
  obtain s :: "(bool, unit, bool) task_queue" where
    s: "schedule Inr (one_future True) (TaskQueue_ctor 1) = Some s" "pushed s = [Future_task 0 True]"
    using one_future_runs by blast
  then show ?thesis
    using tasks_run_once_in_order[OF reachable_schedule[OF reachable.created s(1)]] by blast
qed

theorem waiting_completes_tasks_witness:
  "\<exists>s :: (bool, unit, bool) task_queue. schedule Inr (one_future True) (TaskQueue_ctor 1) = Some s \<and>
     m_tasks s = [] \<and> mset (finished s) = {#Future_task 0 True#} \<and> promises s 0 = Some (Inr True)"
proof -
  obtain s :: "(bool, unit, bool) task_queue" where
    s: "schedule Inr (one_future True) (TaskQueue_ctor 1) = Some s" "client s = Wait_policy"
      "m_num_workers s = 1" "pushed s = [Future_task 0 True]"
    using one_future_runs by blast
  then show ?thesis
    using waiting_completes_tasks[OF reachable_schedule[OF reachable.created s(1)] s(2)] by auto
qed

subsection \<open>The end of \<open>stop\<close>\<close>

definition worker_rank :: "'f worker \<Rightarrow> nat" where
  "worker_rank pc = (case pc of W_exit \<Rightarrow> 0 | W_take \<Rightarrow> 1 | W_decide \<Rightarrow> 2 | W_test \<Rightarrow> 3 | W_lock \<Rightarrow> 4
     | W_woken \<Rightarrow> 4 | W_blocked \<Rightarrow> 5 | W_wait \<Rightarrow> 6 | W_run _ \<Rightarrow> 5 | W_unlock _ \<Rightarrow> 6)"

definition work_rank :: "'f task list \<Rightarrow> 'f worker list \<Rightarrow> nat" where
  "work_rank ts ws = 6 * length ts + (\<Sum>pc \<leftarrow> ws. worker_rank pc)"

definition stop_rank :: "('f, 'e, 'v) task_queue \<Rightarrow> nat" where
  "stop_rank s = work_rank (m_tasks s) (m_workers s) +
     (case client s of Join i k \<Rightarrow> Suc (length (m_workers s)) - i | _ \<Rightarrow> 0)"

definition awake :: "('f, 'e, 'v) task_queue \<Rightarrow> bool" where
  "awake s \<longleftrightarrow> (\<forall>pc \<in> set (m_workers s). pc \<noteq> W_wait \<and> pc \<noteq> W_blocked)"

definition joining :: "('f, 'e, 'v) task_queue \<Rightarrow> bool" where
  "joining s \<longleftrightarrow> (\<exists>i k. client s = Join i k)"

lemma rank_update:
  "w < length ws \<Longrightarrow> (\<Sum>pc \<leftarrow> ws[w := pc]. worker_rank pc) + worker_rank (ws ! w) =
     (\<Sum>pc \<leftarrow> ws. worker_rank pc) + worker_rank pc"
  by (induction ws arbitrary: w) (auto simp: nth_Cons split: nat.splits)

lemma worker_rank_simps [simp]:
  "worker_rank W_exit = 0" "worker_rank W_take = 1" "worker_rank W_decide = 2" "worker_rank W_test = 3"
  "worker_rank W_lock = 4" "worker_rank W_woken = 4" "worker_rank W_blocked = 5" "worker_rank W_wait = 6"
  "worker_rank (W_run t) = 5" "worker_rank (W_unlock t) = 6"
  by (simp_all add: worker_rank_def)

lemma work_rank_less:
  assumes "w < length ws" "6 * length ts' + worker_rank pc < 6 * length ts + worker_rank (ws ! w)"
  shows "work_rank ts' (ws[w := pc]) < work_rank ts ws"
  using rank_update[OF assms(1), of pc] assms(2) unfolding work_rank_def by linarith

lemma joining_worker:
  assumes "worker_step invoke w s = Some s'" "w < length (m_workers s)" "queue_ok s" "client s = Join i k"
  shows "stop_rank s' < stop_rank s" "awake s \<Longrightarrow> awake s'"
proof -
  have ok: "mutex_ok s" "work_ok s" and req: "m_stop_requested s"
    using assms(3,4) by (auto simp: queue_ok_def phase_ok_def)
  show "stop_rank s' < stop_rank s"
    using assms(1,2) ok
    by (cases rule: worker_step_cases) (use assms(2,4) req in \<open>auto simp: stop_rank_def intro!: work_rank_less\<close>)
  show "awake s'" if "awake s"
    using assms(1,2) ok
    by (cases rule: worker_step_cases)
      (use that req nth_mem[OF assms(2)] set_update_subset_insert[of "m_workers s" w] in \<open>auto simp: awake_def dest!: subsetD\<close>)
qed

lemma joining_client:
  assumes "client_step pick s = Some s'" "client s = Join i k" "queue_ok s"
  shows "stop_rank s' < stop_rank s" "undefined_behaviour s' = undefined_behaviour s" "m_workers s' = m_workers s"
  using assms
  by (auto simp: client_step_def join_worker_def go_to_def stop_rank_def queue_ok_def phase_ok_def split: if_splits)

lemma worker_enabled:
  assumes "w < length (m_workers s)" "m_workers s ! w \<noteq> W_exit" "m_workers s ! w \<noteq> W_blocked"
    "m_workers s ! w = W_lock \<or> m_workers s ! w = W_woken \<Longrightarrow> m_locker s = None"
  shows "\<exists>s'. worker_step invoke w s = Some s'"
  using assms(2-4)
  by (cases "m_workers s ! w") (auto simp: worker_step_def lock_mutex_def split: list.splits)

lemma joining_enabled:
  assumes "queue_ok s" "client s = Join i k" "\<not> undefined_behaviour s"
    "i < length (m_workers s) \<Longrightarrow> m_workers s ! i \<noteq> W_blocked"
  shows "\<exists>l s'. system_step invoke l s = Some s' \<and> (\<forall>w. l \<noteq> Spurious w)"
proof (cases "i < length (m_workers s) \<and> m_workers s ! i \<noteq> W_exit")
  case False
  then have "\<exists>s'. client_step None s = Some s'"
    using assms(2) by (auto simp: client_step_def join_worker_def)
  then show ?thesis
    using assms(3) by (intro exI[of _ "Client_step None"]) (auto simp: system_step_def)
next
  case True
  have mutex: "mutex_ok s" using assms(1) by (simp add: queue_ok_def)
  have "\<exists>w s'. w < length (m_workers s) \<and> worker_step invoke w s = Some s'"
  proof (cases "m_locker s")
    case None
    then show ?thesis using worker_enabled[of i s] True assms(4) by blast
  next
    case (Some me)
    then obtain v where v: "me = Worker v"
      using mutex assms(2) by (cases me) (auto simp: mutex_at_def)
    then have "v < length (m_workers s)" "worker_holds (m_workers s ! v)"
      using mutex Some unfolding mutex_at_def by blast+
    moreover from this(2) have "m_workers s ! v \<noteq> W_exit" "m_workers s ! v \<noteq> W_blocked"
      "m_workers s ! v \<noteq> W_lock" "m_workers s ! v \<noteq> W_woken"
      by auto
    ultimately show ?thesis using worker_enabled[of v s] by blast
  qed
  then obtain w s' where "w < length (m_workers s)" "worker_step invoke w s = Some s'" by blast
  then show ?thesis
    using assms(3) by (intro exI[of _ "Worker_step w"]) (auto simp: system_step_def)
qed

lemma joining_step:
  assumes "system_step invoke l s = Some s'" "queue_ok s" "client s = Join i k"
  shows "stop_rank s' < stop_rank s"
  using assms(1)
proof (cases rule: system_step_cases)
  case (Call r)
  then show ?thesis using assms(3) by simp
next
  case (Client pick)
  then show ?thesis using joining_client(1) assms(2,3) by blast
next
  case (Worker w)
  then show ?thesis using joining_worker(1) assms(2,3) by blast
next
  case (Spurious w)
  then show ?thesis
    using work_rank_less[of w "m_workers s" "m_tasks s" W_woken "m_tasks s"] assms(3)
    by (simp add: goto_def stop_rank_def)
qed

inductive joining_run :: "('f \<Rightarrow> 'e + 'v) \<Rightarrow> ('f, 'e, 'v) task_queue \<Rightarrow> nat \<Rightarrow> ('f, 'e, 'v) task_queue \<Rightarrow> bool"
  for invoke :: "'f \<Rightarrow> 'e + 'v" and s :: "('f, 'e, 'v) task_queue" where
  here: "joining s \<Longrightarrow> joining_run invoke s 0 s"
| more: "joining_run invoke s m t \<Longrightarrow> system_step invoke l t = Some u \<Longrightarrow> joining u \<Longrightarrow>
    joining_run invoke s (Suc m) u"

lemma joining_awake:
  assumes "system_step invoke l s = Some s'" "queue_ok s" "joining s" "awake s"
  shows "awake s' \<and> \<not> undefined_behaviour s'"
proof -
  obtain i k where c: "client s = Join i k" using assms(3) by (auto simp: joining_def)
  have ok: "mutex_ok s" "work_ok s" using assms(2) by (simp_all add: queue_ok_def)
  from assms(1) show ?thesis
  proof (cases rule: system_step_cases)
    case (Call r)
    then show ?thesis using c by simp
  next
    case (Client pick)
    then show ?thesis
      using joining_client(2,3)[OF Client(3) c assms(2)] assms(4) by (simp add: awake_def)
  next
    case (Worker w)
    then show ?thesis
      using joining_worker(2)[OF Worker(4,3) assms(2) c assms(4)] worker_flags(9)[OF Worker(4,3) ok] by simp
  next
    case (Spurious w)
    then show ?thesis using assms(4) nth_mem[of w "m_workers s"] by (auto simp: awake_def)
  qed
qed

lemma joining_run_bound:
  assumes "joining_run invoke s m t" "queue_ok s" "awake s" "\<not> undefined_behaviour s"
  shows "queue_ok t \<and> awake t \<and> \<not> undefined_behaviour t \<and> joining t \<and> m + stop_rank t \<le> stop_rank s"
  using assms
proof (induction rule: joining_run.induct)
  case (more m t l u)
  then have t: "queue_ok t" "awake t" "joining t" "m + stop_rank t \<le> stop_rank s" by simp_all
  then obtain i k where c: "client t = Join i k" by (auto simp: joining_def)
  show ?case
    using t(4) joining_step[OF more.hyps(2) t(1) c] system_ok[OF t(1) more.hyps(2)] more.hyps(3)
      joining_awake[OF more.hyps(2) t(1,3,2)]
    by simp
qed simp

text \<open>C14: When a client waits in \<open>stop\<close> for its workers and no worker is asleep or about to fall asleep, then
  no schedule can keep it waiting: the number of steps of all threads during the wait is bounded, and
  before the wait is over some thread can always move.\<close>

theorem stop_returns_when_awake:
  assumes "reachable invoke n s" "awake s" "\<not> undefined_behaviour s" "joining_run invoke s m t"
  shows "m \<le> stop_rank s \<and> (\<exists>l u. system_step invoke l t = Some u)"
proof -
  have t: "queue_ok t" "awake t" "\<not> undefined_behaviour t" "joining t" "m + stop_rank t \<le> stop_rank s"
    using joining_run_bound[OF assms(4) reachable_ok[OF assms(1)] assms(2,3)] by simp_all
  obtain i k where c: "client t = Join i k" using t(4) by (auto simp: joining_def)
  have "i < length (m_workers t) \<Longrightarrow> m_workers t ! i \<noteq> W_blocked"
    using t(2) by (auto simp: awake_def)
  then show ?thesis using joining_enabled[OF t(1) c t(3)] t(5) by fastforce
qed

definition busy_stop :: "bool label list" where
  "busy_stop = [Call Start, Client_step None, Client_step None, Call Stop, Client_step None,
     Client_step None, Client_step None]"

theorem stop_returns_when_awake_witness:
  "\<exists>s :: (bool, unit, bool) task_queue. schedule Inr busy_stop (TaskQueue_ctor 1) = Some s \<and>
     (\<exists>l u. system_step Inr l s = Some u)"
proof -
  obtain s :: "(bool, unit, bool) task_queue" where
    s: "schedule Inr busy_stop (TaskQueue_ctor 1) = Some s" "client s = Join 0 From_stop"
      "m_workers s = [W_lock]" "\<not> undefined_behaviour s"
    by (simp add: busy_stop_def run_defs)
  have "joining_run Inr s 0 s" using s(2) by (intro joining_run.here) (simp add: joining_def)
  then show ?thesis
    using stop_returns_when_awake[OF reachable_schedule[OF reachable.created s(1)] _ s(4)] s(1,3)
    by (auto simp: awake_def)
qed

definition lost_wakeup :: "'f label list" where
  "lost_wakeup = [Call Start, Client_step None, Client_step None, Worker_step 0, Worker_step 0, Call Stop,
     Client_step None, Client_step None, Client_step None, Worker_step 0]"

lemma stuck:
  assumes "client s = Join 0 k" "m_workers s = [W_blocked]" "system_step invoke l s = Some s'"
  shows "l = Spurious 0"
  using assms(3)
  by (cases rule: system_step_cases)
    (use assms(1,2) in \<open>auto simp: client_step_def join_worker_def worker_step_def nth_Cons'\<close>)

text \<open>C39: There is an interleaving of one worker with \<open>start\<close> and \<open>stop\<close> after which nothing but a
  spurious wakeup of the worker is possible any more: the worker finds nothing to do, the client sets its flag and notifies nobody,
  the worker falls asleep, and the client waits for it for ever.\<close>

theorem stop_misses_a_worker:
  "\<exists>s. schedule invoke lost_wakeup (TaskQueue_ctor 1) = Some s \<and> client s = Join 0 From_stop \<and>
     \<not> undefined_behaviour s \<and> (\<forall>l. system_step invoke l s = None \<or> l = Spurious 0)"
proof -
  obtain s where s: "schedule invoke lost_wakeup (TaskQueue_ctor 1) = Some s" "client s = Join 0 From_stop"
      "m_workers s = [W_blocked]" "\<not> undefined_behaviour s"
    by (simp add: lost_wakeup_def run_defs)
  then have "system_step invoke l s = None \<or> l = Spurious 0" for l
    using stuck[of s From_stop invoke l] by (cases "system_step invoke l s") auto
  then show ?thesis using s by blast
qed

text \<open>C40: Every call of \<open>push_void_task\<close> that gets to its end unlocks a mutex that the client no longer holds: the
  destructor of the \<open>unique_lock\<close> repeats the unlock.\<close>

theorem push_void_task_unlocks_twice:
  assumes "reachable invoke n s" "client s = Void_return" "\<not> undefined_behaviour s"
  shows "\<exists>s'. system_step invoke (Client_step pick) s = Some s' \<and> undefined_behaviour s'"
  using void_return_ok(1)[OF reachable_ok[OF assms(1)] assms(2)] assms(2,3)
  by (simp add: system_step_def client_step_def go_to_def)

definition one_void :: "'f \<Rightarrow> 'f label list" where
  "one_void f = Call (Push_void f) # replicate 4 (Client_step None)"

theorem push_void_task_unlocks_twice_witness:
  "\<exists>s s' :: (bool, unit, bool) task_queue. schedule Inr (one_void True) (TaskQueue_ctor 0) = Some s \<and>
     system_step Inr (Client_step None) s = Some s' \<and> undefined_behaviour s'"
proof -
  obtain s :: "(bool, unit, bool) task_queue" where
    s: "schedule Inr (one_void True) (TaskQueue_ctor 0) = Some s" "client s = Void_return"
      "\<not> undefined_behaviour s"
    by (simp add: one_void_def run_defs)
  then show ?thesis
    using push_void_task_unlocks_twice[OF reachable_schedule[OF reachable.created s(1)] s(2,3)] by blast
qed

text \<open>Without workers \<open>wait_for_completion\<close> returns although nothing was run.\<close>

lemma no_workers_no_work:
  "\<exists>s. schedule invoke ([Call Start, Client_step None, Call (Push_future f)] @ replicate 4 (Client_step None) @
       [Call Wait_for_completion] @ replicate 6 (Client_step None)) (TaskQueue_ctor 0) = Some s \<and>
     client s = Wait_policy \<and> m_tasks s = [Future_task 0 f] \<and> finished s = []"
  by (simp add: run_defs)

end
