(* ===== verification/Program_Refinement.thy ===== *)
theory Program_Refinement
  imports Prelude
begin

text \<open>
  Client programs as lists of commands, and the interface between a class and an abstract account of
  it: every command that is legal in the abstract state runs without undefined behaviour, keeps the
  invariant of the class and acts on the abstract state as specified. The locale lifts this to programs.
\<close>

primrec run_all :: "('c \<Rightarrow> 's \<Rightarrow> 's option) \<Rightarrow> 'c list \<Rightarrow> 's \<Rightarrow> 's option" where
  "run_all run [] s = Some s"
| "run_all run (c # cs) s = Option.bind (run c s) (run_all run cs)"

primrec spec_all :: "('c \<Rightarrow> 'a \<Rightarrow> 'a) \<Rightarrow> 'c list \<Rightarrow> 'a \<Rightarrow> 'a" where
  "spec_all spec [] a = a"
| "spec_all spec (c # cs) a = spec_all spec cs (spec c a)"

primrec legal_all :: "('c \<Rightarrow> 'a \<Rightarrow> 'a) \<Rightarrow> ('c \<Rightarrow> 'a \<Rightarrow> bool) \<Rightarrow> 'c list \<Rightarrow> 'a \<Rightarrow> bool" where
  "legal_all spec legal [] a \<longleftrightarrow> True"
| "legal_all spec legal (c # cs) a \<longleftrightarrow> legal c a \<and> legal_all spec legal cs (spec c a)"

locale command_refinement =
  fixes run :: "'c \<Rightarrow> 's \<Rightarrow> 's option"
    and spec :: "'c \<Rightarrow> 'a \<Rightarrow> 'a"
    and legal :: "'c \<Rightarrow> 'a \<Rightarrow> bool"
    and inv :: "'s \<Rightarrow> bool"
    and abs :: "'s \<Rightarrow> 'a"
  assumes command: "inv s \<Longrightarrow> legal c (abs s) \<Longrightarrow> \<exists>s'. run c s = Some s' \<and> inv s' \<and> abs s' = spec c (abs s)"
begin

lemma program:
  "inv s \<Longrightarrow> legal_all spec legal cs (abs s) \<Longrightarrow>
   \<exists>s'. run_all run cs s = Some s' \<and> inv s' \<and> abs s' = spec_all spec cs (abs s)"
proof (induction cs arbitrary: s)
  case (Cons c cs)
  then obtain t where "run c s = Some t" "inv t" "abs t = spec c (abs s)"
    using command by fastforce
  then show ?case using Cons.IH[of t] Cons.prems(2) by simp
qed simp

end

end
