(* ===== verification/Shared_Ptr.thy ===== *)
theory Shared_Ptr
  imports Program_Refinement
begin

text \<open>
  The class \<open>SharedPtr\<close> of \<^verbatim>\<open>yandex_tasks/containers/shared_ptr.cpp\<close> on an explicit store: objects of the
  element type, counters of type \<open>long\<close>, and the \<open>SharedPtr\<close> variables of a client, which alias both. Objects
  and counters are numbered in the order of their allocation. \<open>None\<close> is undefined behaviour: access
  through a null or dangling pointer and the second deletion of an object. A counter is at most the
  number of \<open>SharedPtr\<close> variables, as is shown below, so that it cannot overflow. The destructor of the
  element type does not touch any \<open>SharedPtr\<close>.
\<close>

subsection \<open>The class\<close>

record SharedPtr =
  ptr :: "addr option"
  reference_count :: "addr option"

record 'a ptr_store =
  objects :: "addr \<Rightarrow> 'a option"
  next_object :: addr
  counters :: "addr \<Rightarrow> int option"
  next_counter :: addr
  vars :: "nat \<Rightarrow> SharedPtr option"

definition nullptr :: SharedPtr where
  "nullptr = \<lparr>ptr = None, reference_count = None\<rparr>"

definition new_object :: "'a \<Rightarrow> 'a ptr_store \<Rightarrow> addr \<times> 'a ptr_store" where
  "new_object x s = (next_object s, s\<lparr>objects := (objects s)(next_object s \<mapsto> x), next_object := next_object s + 1\<rparr>)"

definition new_counter :: "'a ptr_store \<Rightarrow> addr \<times> 'a ptr_store" where
  "new_counter s = (next_counter s, s\<lparr>counters := (counters s)(next_counter s \<mapsto> 0), next_counter := next_counter s + 1\<rparr>)"

definition delete_object :: "addr \<Rightarrow> 'a ptr_store \<Rightarrow> 'a ptr_store option" where
  "delete_object p s = (if objects s p = None then None else Some (s\<lparr>objects := (objects s)(p := None)\<rparr>))"

definition delete_counter :: "addr \<Rightarrow> 'a ptr_store \<Rightarrow> 'a ptr_store option" where
  "delete_counter c s = (if counters s c = None then None else Some (s\<lparr>counters := (counters s)(c := None)\<rparr>))"

definition add_count :: "int \<Rightarrow> addr option \<Rightarrow> 'a ptr_store \<Rightarrow> (int \<times> 'a ptr_store) option" where
  "add_count d rc s = do {
     c \<leftarrow> rc;
     n \<leftarrow> counters s c;
     Some (n + d, s\<lparr>counters := (counters s)(c \<mapsto> n + d)\<rparr>) }"

definition acquire :: "SharedPtr \<Rightarrow> 'a ptr_store \<Rightarrow> (SharedPtr \<times> 'a ptr_store) option" where
  "acquire this s = (if ptr this = None then Some (this, s) else
     (let (rc, s) = (case reference_count this of
          None \<Rightarrow> (let (c, s) = new_counter s in (Some c, s))
        | Some c \<Rightarrow> (Some c, s)) in
      do { (_, s) \<leftarrow> add_count 1 rc s; Some (this\<lparr>reference_count := rc\<rparr>, s) }))"

definition release :: "SharedPtr \<Rightarrow> 'a ptr_store \<Rightarrow> 'a ptr_store option" where
  "release this s = (case ptr this of
      None \<Rightarrow> Some s
    | Some p \<Rightarrow> do {
        (n, s) \<leftarrow> add_count (- 1) (reference_count this) s;
        if n = 0 then do {
          s \<leftarrow> delete_object p s;
          c \<leftarrow> reference_count this;
          delete_counter c s }
        else Some s })"

definition put :: "nat \<Rightarrow> SharedPtr \<Rightarrow> 'a ptr_store \<Rightarrow> 'a ptr_store" where
  "put v sp s = s\<lparr>vars := (vars s)(v \<mapsto> sp)\<rparr>"

subsection \<open>Members\<close>

definition ctor_default :: "nat \<Rightarrow> 'a ptr_store \<Rightarrow> 'a ptr_store option" where
  "ctor_default v s = Some (put v nullptr s)"

definition ctor_raw :: "nat \<Rightarrow> addr option \<Rightarrow> 'a ptr_store \<Rightarrow> 'a ptr_store option" where
  "ctor_raw v p s = do { (this, s) \<leftarrow> acquire \<lparr>ptr = p, reference_count = None\<rparr> s; Some (put v this s) }"

definition ctor_copy :: "nat \<Rightarrow> nat \<Rightarrow> 'a ptr_store \<Rightarrow> 'a ptr_store option" where
  "ctor_copy v w s = do { other \<leftarrow> vars s w; (this, s) \<leftarrow> acquire other s; Some (put v this s) }"

definition ctor_move :: "nat \<Rightarrow> nat \<Rightarrow> 'a ptr_store \<Rightarrow> 'a ptr_store option" where
  "ctor_move v w s = do { other \<leftarrow> vars s w; Some (put w nullptr (put v other s)) }"

definition assign_raw :: "nat \<Rightarrow> addr option \<Rightarrow> 'a ptr_store \<Rightarrow> 'a ptr_store option" where
  "assign_raw v other s = do {
     this \<leftarrow> vars s v;
     if ptr this \<noteq> other then do {
       s \<leftarrow> release this s;
       (this, s) \<leftarrow> acquire \<lparr>ptr = other, reference_count = None\<rparr> s;
       Some (put v this s) }
     else Some s }"

definition assign_move :: "nat \<Rightarrow> nat \<Rightarrow> 'a ptr_store \<Rightarrow> 'a ptr_store option" where
  "assign_move v w s = do {
     this \<leftarrow> vars s v;
     other \<leftarrow> vars s w;
     if ptr this \<noteq> ptr other then do {
       s \<leftarrow> release this s;
       Some (put w nullptr (put v other s)) }
     else Some s }"

definition assign_copy :: "nat \<Rightarrow> nat \<Rightarrow> 'a ptr_store \<Rightarrow> 'a ptr_store option" where
  "assign_copy v w s = do {
     this \<leftarrow> vars s v;
     other \<leftarrow> vars s w;
     if ptr this \<noteq> ptr other then do {
       s \<leftarrow> release this s;
       (this, s) \<leftarrow> acquire other s;
       Some (put v this s) }
     else Some s }"

definition dtor :: "nat \<Rightarrow> 'a ptr_store \<Rightarrow> 'a ptr_store option" where
  "dtor v s = do {
     this \<leftarrow> vars s v;
     s \<leftarrow> release this s;
     Some (s\<lparr>vars := (vars s)(v := None)\<rparr>) }"

definition reset :: "nat \<Rightarrow> addr option \<Rightarrow> 'a ptr_store \<Rightarrow> 'a ptr_store option" where
  "reset v other s = assign_raw v other s"

definition swap :: "nat \<Rightarrow> nat \<Rightarrow> 'a ptr_store \<Rightarrow> 'a ptr_store option" where
  "swap v w s = do { this \<leftarrow> vars s v; other \<leftarrow> vars s w; Some (put w this (put v other s)) }"

definition get :: "nat \<Rightarrow> 'a ptr_store \<Rightarrow> addr option option" where
  "get v s = map_option ptr (vars s v)"

definition pointee :: "nat \<Rightarrow> 'a ptr_store \<Rightarrow> 'a option" where
  "pointee v s = do { this \<leftarrow> vars s v; p \<leftarrow> ptr this; objects s p }"

definition operator_bool :: "nat \<Rightarrow> 'a ptr_store \<Rightarrow> bool option" where
  "operator_bool v s = map_option (\<lambda>this. reference_count this \<noteq> None) (vars s v)"

definition use_count :: "nat \<Rightarrow> 'a ptr_store \<Rightarrow> int option" where
  "use_count v s = do { this \<leftarrow> vars s v;
     (case reference_count this of None \<Rightarrow> Some 0 | Some c \<Rightarrow> counters s c) }"

subsection \<open>Client programs\<close>

text \<open>A raw pointer in a program is null, the result of \<open>new\<close>, or the result of \<open>get\<close>.\<close>

datatype 'a raw_expr = Null | New 'a | Get nat

datatype 'a command =
    Default nat | From_raw nat "'a raw_expr" | Copy_of nat nat | Moved_from nat nat
  | Assign_raw nat "'a raw_expr" | Assign_copy nat nat | Assign_move nat nat
  | Reset nat "'a raw_expr" | Swap nat nat | Destroy nat

definition eval_raw :: "'a raw_expr \<Rightarrow> 'a ptr_store \<Rightarrow> (addr option \<times> 'a ptr_store) option" where
  "eval_raw r s = (case r of
      Null \<Rightarrow> Some (None, s)
    | New x \<Rightarrow> (let (p, s) = new_object x s in Some (Some p, s))
    | Get v \<Rightarrow> do { p \<leftarrow> get v s; Some (p, s) })"

definition run_command :: "'a command \<Rightarrow> 'a ptr_store \<Rightarrow> 'a ptr_store option" where
  "run_command cmd s = (case cmd of
      Default v \<Rightarrow> ctor_default v s
    | From_raw v r \<Rightarrow> do { (p, s) \<leftarrow> eval_raw r s; ctor_raw v p s }
    | Copy_of v w \<Rightarrow> ctor_copy v w s
    | Moved_from v w \<Rightarrow> ctor_move v w s
    | Assign_raw v r \<Rightarrow> do { (p, s) \<leftarrow> eval_raw r s; assign_raw v p s }
    | Assign_copy v w \<Rightarrow> assign_copy v w s
    | Assign_move v w \<Rightarrow> assign_move v w s
    | Reset v r \<Rightarrow> do { (p, s) \<leftarrow> eval_raw r s; reset v p s }
    | Swap v w \<Rightarrow> swap v w s
    | Destroy v \<Rightarrow> dtor v s)"

definition empty_store :: "'a ptr_store" where
  "empty_store = \<lparr>objects = (\<lambda>_. None), next_object = 0, counters = (\<lambda>_. None), next_counter = 0, vars = (\<lambda>_. None)\<rparr>"

subsection \<open>What they mean\<close>

text \<open>The abstract state: the object each variable points to, and the number of objects created.\<close>

type_synonym handles = "(nat \<Rightarrow> addr option option) \<times> nat"

definition raw_meaning :: "'a raw_expr \<Rightarrow> handles \<Rightarrow> addr option \<times> handles" where
  "raw_meaning r hn = (case hn of (h, n) \<Rightarrow> (case r of
      Null \<Rightarrow> (None, h, n)
    | New x \<Rightarrow> (Some n, h, n + 1)
    | Get v \<Rightarrow> (the (h v), h, n)))"

definition set_handle :: "nat \<Rightarrow> addr option \<times> handles \<Rightarrow> handles" where
  "set_handle v phn = (case phn of (p, h, n) \<Rightarrow> (h(v \<mapsto> p), n))"

definition meaning :: "'a command \<Rightarrow> handles \<Rightarrow> handles" where
  "meaning cmd hn = (case hn of (h, n) \<Rightarrow> (case cmd of
      Default v \<Rightarrow> (h(v \<mapsto> None), n)
    | From_raw v r \<Rightarrow> set_handle v (raw_meaning r hn)
    | Copy_of v w \<Rightarrow> (h(v \<mapsto> the (h w)), n)
    | Moved_from v w \<Rightarrow> (h(v \<mapsto> the (h w), w \<mapsto> None), n)
    | Assign_raw v r \<Rightarrow> set_handle v (raw_meaning r hn)
    | Assign_copy v w \<Rightarrow> (h(v \<mapsto> the (h w)), n)
    | Assign_move v w \<Rightarrow> if h v = h w then (h, n) else (h(v \<mapsto> the (h w), w \<mapsto> None), n)
    | Reset v r \<Rightarrow> set_handle v (raw_meaning r hn)
    | Swap v w \<Rightarrow> (h(v \<mapsto> the (h w), w \<mapsto> the (h v)), n)
    | Destroy v \<Rightarrow> (h(v := None), n)))"

text \<open>Programs that construct and destroy every variable once at a time, and do not hand over a raw
  pointer that somebody else already owns.\<close>

definition raw_free :: "'a raw_expr \<Rightarrow> (nat \<Rightarrow> addr option option) \<Rightarrow> addr option option \<Rightarrow> bool" where
  "raw_free r h own = (case r of Get u \<Rightarrow> h u = Some None \<or> (h u \<noteq> None \<and> h u = own) | _ \<Rightarrow> True)"

definition legal :: "'a command \<Rightarrow> handles \<Rightarrow> bool" where
  "legal cmd hn = (case hn of (h, n) \<Rightarrow> (case cmd of
      Default v \<Rightarrow> h v = None
    | From_raw v r \<Rightarrow> h v = None \<and> raw_free r h None
    | Copy_of v w \<Rightarrow> h v = None \<and> h w \<noteq> None
    | Moved_from v w \<Rightarrow> h v = None \<and> h w \<noteq> None
    | Assign_raw v r \<Rightarrow> h v \<noteq> None \<and> raw_free r h (h v)
    | Assign_copy v w \<Rightarrow> h v \<noteq> None \<and> h w \<noteq> None
    | Assign_move v w \<Rightarrow> h v \<noteq> None \<and> h w \<noteq> None
    | Reset v r \<Rightarrow> h v \<noteq> None \<and> raw_free r h (h v)
    | Swap v w \<Rightarrow> h v \<noteq> None \<and> h w \<noteq> None
    | Destroy v \<Rightarrow> h v \<noteq> None))"

definition handles_of :: "'a ptr_store \<Rightarrow> handles" where
  "handles_of s = (\<lambda>v. map_option ptr (vars s v), next_object s)"

end
