(* ===== verification/Shared_Ptr_Correct.thy ===== *)
theory Shared_Ptr_Correct
  imports Shared_Ptr
begin

text \<open>
  Ownership: a counter holds the number of the variables that refer to it, variables share a counter
  just when they share the object, and the objects alive are those somebody points to, apart from
  the objects \<open>L\<close> that a raw pointer has just been obtained for. Releasing and acquiring keep this, and the
  members implement the abstract handles.
\<close>

definition owners :: "(nat \<Rightarrow> SharedPtr option) \<Rightarrow> addr \<Rightarrow> nat set" where
  "owners vs c = {v. \<exists>sp. vs v = Some sp \<and> reference_count sp = Some c}"

definition pointed :: "(nat \<Rightarrow> SharedPtr option) \<Rightarrow> addr \<Rightarrow> bool" where
  "pointed vs p \<longleftrightarrow> (\<exists>v sp. vs v = Some sp \<and> ptr sp = Some p)"

definition paired :: "(nat \<Rightarrow> SharedPtr option) \<Rightarrow> bool" where
  "paired vs \<longleftrightarrow> (\<forall>v sp. vs v = Some sp \<longrightarrow> (ptr sp = None \<longleftrightarrow> reference_count sp = None)) \<and>
     (\<forall>v w sp sq. vs v = Some sp \<longrightarrow> vs w = Some sq \<longrightarrow>
        (ptr sp = ptr sq \<longleftrightarrow> reference_count sp = reference_count sq))"

definition counted :: "nat set \<Rightarrow> int option" where
  "counted A = (if A = {} then None else Some (int (card A)))"

definition store_ok :: "addr set \<Rightarrow> 'a ptr_store \<Rightarrow> bool" where
  "store_ok L s \<longleftrightarrow> finite (dom (vars s)) \<and> paired (vars s) \<and>
     (\<forall>c. counters s c = counted (owners (vars s) c)) \<and>
     (\<forall>p. objects s p \<noteq> None \<longleftrightarrow> p \<in> L \<or> pointed (vars s) p) \<and> (\<forall>p \<in> L. \<not> pointed (vars s) p) \<and>
     (\<forall>p. objects s p \<noteq> None \<longrightarrow> p < next_object s) \<and> (\<forall>c. counters s c \<noteq> None \<longrightarrow> c < next_counter s)"

lemma owners_upd:
  "owners (vs(v \<mapsto> sp)) c = (if reference_count sp = Some c then insert v (owners vs c) else owners vs c - {v})"
  by (auto simp: owners_def)

lemma owners_drop: "owners (vs(v := None)) c = owners vs c - {v}"
  by (auto simp: owners_def)

lemma finite_owners: "finite (dom vs) \<Longrightarrow> finite (owners vs c)"
  by (rule finite_subset[of _ "dom vs"]) (auto simp: owners_def)

lemma nullptr_simps [simp]: "ptr nullptr = None" "reference_count nullptr = None"
  by (simp_all add: nullptr_def)

lemma put_simps [simp]:
  "vars (put v x s) = (vars s)(v \<mapsto> x)" "objects (put v x s) = objects s" "counters (put v x s) = counters s"
  "next_object (put v x s) = next_object s" "next_counter (put v x s) = next_counter s"
  by (simp_all add: put_def)

lemma put_put [simp]: "put v x (put v y s) = put v x s"
  by (simp add: put_def)

lemma add_count_put: "add_count d rc (put v x s) = map_option (map_prod id (put v x)) (add_count d rc s)"
  by (auto simp: add_count_def put_def split: option.splits Option.bind_splits)

lemma acquire_put: "acquire sp (put v x s) = map_option (map_prod id (put v x)) (acquire sp s)"
  by (auto simp: acquire_def add_count_put new_counter_def Let_def put_def add_count_def
      split: option.splits Option.bind_splits)

lemma paired_null: "paired vs \<Longrightarrow> paired (vs(v \<mapsto> nullptr))"
  unfolding paired_def by (simp add: fun_upd_apply) metis

definition pointed_beside :: "nat \<Rightarrow> (nat \<Rightarrow> SharedPtr option) \<Rightarrow> addr \<Rightarrow> bool" where
  "pointed_beside v vs p \<longleftrightarrow> (\<exists>w sp. w \<noteq> v \<and> vs w = Some sp \<and> ptr sp = Some p)"

lemma pointed_upd: "pointed (vs(v \<mapsto> sp)) p \<longleftrightarrow> ptr sp = Some p \<or> pointed_beside v vs p"
  by (auto simp: pointed_def pointed_beside_def fun_upd_apply)

lemma pointed_drop: "pointed (vs(v := None)) p \<longleftrightarrow> pointed_beside v vs p"
  by (auto simp: pointed_def pointed_beside_def fun_upd_apply)

lemma pointed_split: "pointed vs p \<longleftrightarrow> (\<exists>sp. vs v = Some sp \<and> ptr sp = Some p) \<or> pointed_beside v vs p"
  by (auto simp: pointed_def pointed_beside_def)

lemma pointed_null: "vs v = None \<or> vs v = Some nullptr \<Longrightarrow> pointed_beside v vs p = pointed vs p"
  using pointed_split[of vs p v] by auto

subsection \<open>Acquiring and releasing\<close>

lemma store_okD:
  assumes "store_ok L s" "vars s v = Some sp"
  shows "ptr sp = None \<longleftrightarrow> reference_count sp = None"
    "vars s w = Some sq \<Longrightarrow> ptr sp = ptr sq \<longleftrightarrow> reference_count sp = reference_count sq"
    "reference_count sp = Some c \<Longrightarrow> v \<in> owners (vars s) c"
    "reference_count sp = Some c \<Longrightarrow> counters s c = Some (int (card (owners (vars s) c)))"
    "ptr sp = Some p \<Longrightarrow> \<exists>x. objects s p = Some x"
proof -
  show "ptr sp = None \<longleftrightarrow> reference_count sp = None"
    "vars s w = Some sq \<Longrightarrow> ptr sp = ptr sq \<longleftrightarrow> reference_count sp = reference_count sq"
    using assms unfolding store_ok_def paired_def by blast+
  show own: "v \<in> owners (vars s) c" if "reference_count sp = Some c" using assms(2) that by (auto simp: owners_def)
  show "counters s c = Some (int (card (owners (vars s) c)))" if "reference_count sp = Some c"
    using assms(1) own[OF that] by (auto simp: store_ok_def counted_def)
  show "\<exists>x. objects s p = Some x" if "ptr sp = Some p"
    using assms that unfolding store_ok_def pointed_def by blast
qed

lemma null_var_ok:
  assumes "store_ok L s" "vars s v = None"
  shows "store_ok L (put v nullptr s)"
proof -
  have "owners (vars s) c - {v} = owners (vars s) c" for c
    using assms(2) by (auto simp: owners_def)
  then show ?thesis
    using assms by (simp add: store_ok_def paired_null pointed_upd pointed_null owners_upd)
qed

lemma drop_var_ok:
  assumes "store_ok L s" "vars s v = Some nullptr"
  shows "store_ok L (s\<lparr>vars := (vars s)(v := None)\<rparr>)"
proof -
  have "owners (vars s) c - {v} = owners (vars s) c" for c
    using assms(2) by (auto simp: owners_def)
  moreover have "paired ((vars s)(v := None))"
    using assms(1) unfolding store_ok_def paired_def by (simp add: fun_upd_apply)
  ultimately show ?thesis using assms by (simp add: store_ok_def owners_drop pointed_drop pointed_null)
qed

lemma paired_copy:
  assumes "paired vs" "vs w = Some sp"
  shows "paired (vs(v \<mapsto> sp))"
  using assms unfolding paired_def by (simp add: fun_upd_apply)

lemma acquire_copy:
  assumes ok: "store_ok L s" and v: "vars s v = Some nullptr" and w: "vars s w = Some sp"
  shows "\<exists>t. acquire sp s = Some (sp, t) \<and> vars t = vars s \<and> next_object t = next_object s \<and> store_ok L (put v sp t)"
proof (cases "ptr sp")
  case None
  then have "sp = nullptr" using store_okD(1)[OF ok w] by (simp add: nullptr_def)
  moreover have "put v nullptr s = s" using v by (simp add: put_def fun_upd_idem)
  ultimately show ?thesis using ok by (simp add: acquire_def)
next
  case (Some p)
  then obtain c where c: "reference_count sp = Some c" using store_okD(1)[OF ok w] by auto
  have count: "counters s c = Some (int (card (owners (vars s) c)))" using store_okD(4)[OF ok w c] .
  have new: "v \<notin> owners (vars s) c" using v by (auto simp: owners_def)
  have fin: "finite (owners (vars s) c)" using ok finite_owners by (auto simp: store_ok_def)
  let ?t = "s\<lparr>counters := (counters s)(c \<mapsto> int (card (owners (vars s) c)) + 1)\<rparr>"
  have "acquire sp s = Some (sp, ?t)"
    using Some c count by (simp add: acquire_def add_count_def)
  moreover have "store_ok L (put v sp ?t)"
  proof -
    have own: "owners ((vars s)(v \<mapsto> sp)) d = (if d = c then insert v (owners (vars s) c) else owners (vars s) d)" for d
      using c v by (auto simp: owners_upd) (auto simp: owners_def)
    have pt: "pointed ((vars s)(v \<mapsto> sp)) q = pointed (vars s) q" for q
      using v w by (auto simp: pointed_upd pointed_null) (auto simp: pointed_def)
    show ?thesis
      using ok w c count fin new
      by (auto simp: store_ok_def paired_copy own pt counted_def)
  qed
  ultimately show ?thesis by auto
qed

lemma acquire_new:
  assumes ok: "store_ok (insert p L) s" and p: "p \<notin> L" and v: "vars s v = Some nullptr"
  shows "\<exists>sp t. acquire \<lparr>ptr = Some p, reference_count = None\<rparr> s = Some (sp, t) \<and> ptr sp = Some p \<and>
    vars t = vars s \<and> next_object t = next_object s \<and> store_ok L (put v sp t)"
proof -
  let ?c = "next_counter s"
  let ?sp = "\<lparr>ptr = Some p, reference_count = Some ?c\<rparr>"
  let ?t = "s\<lparr>counters := (counters s)(?c \<mapsto> 1), next_counter := ?c + 1\<rparr>"
  have "acquire \<lparr>ptr = Some p, reference_count = None\<rparr> s = Some (?sp, ?t)"
    by (simp add: acquire_def new_counter_def add_count_def)
  moreover have "store_ok L (put v ?sp ?t)"
  proof -
    have no: "counters s ?c = None" using ok by (auto simp: store_ok_def)
    then have free: "owners (vars s) ?c = {}" using ok by (auto simp: store_ok_def counted_def split: if_splits)
    have unp: "\<not> pointed (vars s) p" using ok by (simp add: store_ok_def)
    have own: "owners ((vars s)(v \<mapsto> ?sp)) d = (if d = ?c then {v} else owners (vars s) d)" for d
      using free v by (auto simp: owners_upd) (auto simp: owners_def)
    have pt: "pointed ((vars s)(v \<mapsto> ?sp)) q \<longleftrightarrow> q = p \<or> pointed (vars s) q" for q
      using v by (auto simp: pointed_upd pointed_null)
    have "reference_count sq \<noteq> Some ?c" "ptr sq \<noteq> Some p" if "vars s u = Some sq" for u sq
      using free unp that by (auto simp: owners_def pointed_def)
    then have "paired ((vars s)(v \<mapsto> ?sp))"
      using ok unfolding store_ok_def paired_def by (simp add: fun_upd_apply) metis
    then show ?thesis
      using ok p unp by (auto simp: store_ok_def own pt counted_def less_Suc_eq)
  qed
  ultimately show ?thesis by auto
qed

lemma release_var:
  assumes ok: "store_ok L s" and v: "vars s v = Some sp"
  shows "\<exists>t. release sp s = Some t \<and> vars t = vars s \<and> next_object t = next_object s \<and> store_ok L (put v nullptr t)"
proof (cases "ptr sp")
  case None
  then have "sp = nullptr" using store_okD(1)[OF ok v] by (simp add: nullptr_def)
  moreover have "put v nullptr s = s" using v calculation by (simp add: put_def fun_upd_idem)
  ultimately show ?thesis using ok None by (simp add: release_def)
next
  case (Some p)
  then obtain c where c: "reference_count sp = Some c" using store_okD(1)[OF ok v] by auto
  let ?A = "owners (vars s) c"
  have count: "counters s c = Some (int (card ?A))" using store_okD(4)[OF ok v c] .
  have mem: "v \<in> ?A" using store_okD(3)[OF ok v c] .
  have fin: "finite ?A" using ok finite_owners by (auto simp: store_ok_def)
  have card: "int (card ?A) - 1 = int (card (?A - {v}))"
    using card_Suc_Diff1[OF fin mem] by linarith
  have own: "owners ((vars s)(v \<mapsto> nullptr)) d = (if d = c then ?A - {v} else owners (vars s) d)" for d
    using c v by (auto simp: owners_upd) (auto simp: owners_def)
  have same: "w \<in> ?A \<longleftrightarrow> (\<exists>sq. vars s w = Some sq \<and> ptr sq = Some p)" for w
  proof (cases "vars s w")
    case (Some sq)
    then have "Some p = ptr sq \<longleftrightarrow> Some c = reference_count sq"
      using store_okD(2)[OF ok v Some] \<open>ptr sp = Some p\<close> c by simp
    then show ?thesis using Some by (auto simp: owners_def)
  qed (simp add: owners_def)
  have pt: "pointed ((vars s)(v \<mapsto> nullptr)) q \<longleftrightarrow> (if q = p then ?A - {v} \<noteq> {} else pointed (vars s) q)" for q
    using same v Some pointed_split[of "vars s" q v] by (auto simp: pointed_upd pointed_beside_def)
  have paired: "paired ((vars s)(v \<mapsto> nullptr))" using ok by (simp add: store_ok_def paired_null)
  have ptp: "pointed (vars s) p" using v Some by (auto simp: pointed_def)
  then have pL: "p \<notin> L" using ok by (auto simp: store_ok_def)
  obtain x where x: "objects s p = Some x" using store_okD(5)[OF ok v Some] by auto
  show ?thesis
  proof (cases "?A - {v} = {}")
    case True
    let ?t = "s\<lparr>counters := (counters s)(c := None), objects := (objects s)(p := None)\<rparr>"
    have "release sp s = Some ?t"
      using Some c count card True x by (simp add: release_def add_count_def delete_object_def delete_counter_def)
    moreover have "store_ok L (put v nullptr ?t)"
      using ok paired True pL ptp by (auto simp: store_ok_def own pt counted_def)
    ultimately show ?thesis by auto
  next
    case False
    let ?t = "s\<lparr>counters := (counters s)(c \<mapsto> int (card (?A - {v})))\<rparr>"
    have "card (?A - {v}) \<noteq> 0" using False fin by simp
    then have "release sp s = Some ?t"
      using Some c count card by (simp add: release_def add_count_def)
    moreover have "store_ok L (put v nullptr ?t)"
      using ok paired False ptp count by (auto simp: store_ok_def own pt counted_def)
    ultimately show ?thesis by auto
  qed
qed

subsection \<open>Exchanging variables\<close>

lemma exchange_ok:
  assumes ok: "store_ok L s" and v: "vars s v = Some a" and w: "vars s w = Some b"
  shows "store_ok L (put w a (put v b s))"
proof -
  define f where "f x = (if x = v then w else if x = w then v else x)" for x
  have ff: "f (f x) = x" for x by (simp add: f_def)
  then have inj: "inj f" by (metis injI)
  have vs: "((vars s)(v \<mapsto> b, w \<mapsto> a)) x = vars s (f x)" for x
    using v w by (auto simp: f_def)
  have "owners ((vars s)(v \<mapsto> b, w \<mapsto> a)) c = f ` owners (vars s) c" for c
    unfolding owners_def vs using ff by (auto simp: image_iff) metis
  then have own: "counted (owners ((vars s)(v \<mapsto> b, w \<mapsto> a)) c) = counted (owners (vars s) c)" for c
    using card_image[OF inj_on_subset[OF inj subset_UNIV]] by (simp add: counted_def)
  have pt: "pointed ((vars s)(v \<mapsto> b, w \<mapsto> a)) p = pointed (vars s) p" for p
    unfolding pointed_def vs using ff by metis
  have "paired ((vars s)(v \<mapsto> b, w \<mapsto> a))"
    using ok unfolding store_ok_def paired_def vs by blast
  then show ?thesis using ok by (simp add: store_ok_def own pt)
qed

lemma move_into_null:
  assumes "store_ok L s" "vars s v = Some nullptr" "vars s w = Some b"
  shows "store_ok L (put w nullptr (put v b s))"
  using exchange_ok[OF assms] .

subsection \<open>Members\<close>

lemma release_frame: "release sp s = Some t \<Longrightarrow> vars t = vars s"
  by (auto simp: release_def add_count_def delete_object_def delete_counter_def
      split: option.splits if_splits)

lemma ctor_copy_ok:
  assumes "store_ok L s" "vars s v = None" "vars s w = Some b"
  shows "\<exists>t. ctor_copy v w s = Some t \<and> store_ok L t \<and> vars t = (vars s)(v \<mapsto> b) \<and> next_object t = next_object s"
proof -
  have "vars (put v nullptr s) w = Some b" using assms(2,3) by (cases "v = w") auto
  then obtain t where t: "acquire b (put v nullptr s) = Some (b, t)" "vars t = vars (put v nullptr s)"
      "next_object t = next_object s" "store_ok L (put v b t)"
    using acquire_copy[OF null_var_ok[OF assms(1,2)], of v w b] by auto
  then obtain u where u: "acquire b s = Some (b, u)" "t = put v nullptr u"
    by (auto simp: acquire_put)
  have "vars u = vars s" using u(1) by (auto simp: acquire_def new_counter_def add_count_def split: option.splits if_splits)
  then show ?thesis using assms(3) t u by (auto simp: ctor_copy_def)
qed

lemma assign_copy_ok:
  assumes "store_ok L s" "vars s v = Some a" "vars s w = Some b" "ptr a \<noteq> ptr b"
  shows "\<exists>t. assign_copy v w s = Some t \<and> store_ok L t \<and> vars t = (vars s)(v \<mapsto> b) \<and> next_object t = next_object s"
proof -
  obtain s1 where s1: "release a s = Some s1" "vars s1 = vars s" "next_object s1 = next_object s"
      "store_ok L (put v nullptr s1)"
    using release_var[OF assms(1,2)] by blast
  have "v \<noteq> w" using assms(2-4) by auto
  then have "vars (put v nullptr s1) w = Some b" using s1(2) assms(3) by simp
  then obtain t where t: "acquire b (put v nullptr s1) = Some (b, t)" "vars t = vars (put v nullptr s1)"
      "next_object t = next_object s" "store_ok L (put v b t)"
    using acquire_copy[OF s1(4), of v w b] s1(3) by auto
  then obtain u where u: "acquire b s1 = Some (b, u)" "t = put v nullptr u"
    by (auto simp: acquire_put)
  have "vars u = vars s1" using u(1) by (auto simp: acquire_def new_counter_def add_count_def split: option.splits if_splits)
  then show ?thesis using assms(2-4) s1 t u by (auto simp: assign_copy_def)
qed

lemma assign_move_ok:
  assumes "store_ok L s" "vars s v = Some a" "vars s w = Some b" "ptr a \<noteq> ptr b"
  shows "\<exists>t. assign_move v w s = Some t \<and> store_ok L t \<and> vars t = (vars s)(v \<mapsto> b, w \<mapsto> nullptr) \<and>
    next_object t = next_object s"
proof -
  obtain s1 where s1: "release a s = Some s1" "vars s1 = vars s" "next_object s1 = next_object s"
      "store_ok L (put v nullptr s1)"
    using release_var[OF assms(1,2)] by blast
  have "v \<noteq> w" using assms(2-4) by auto
  then have "vars (put v nullptr s1) w = Some b" using s1(2) assms(3) by simp
  then have "store_ok L (put w nullptr (put v b s1))"
    using move_into_null[OF s1(4), of v w b] by simp
  then show ?thesis using assms(2-4) s1 by (auto simp: assign_move_def)
qed

text \<open>Taking over a raw pointer that nobody owns, or null.\<close>

definition loose :: "addr option \<Rightarrow> addr set" where
  "loose p = (case p of None \<Rightarrow> {} | Some a \<Rightarrow> {a})"

lemma acquire_raw:
  assumes "store_ok (loose p) s" "vars s v = Some nullptr"
  shows "\<exists>sp t. acquire \<lparr>ptr = p, reference_count = None\<rparr> s = Some (sp, t) \<and> ptr sp = p \<and>
    vars t = vars s \<and> next_object t = next_object s \<and> store_ok {} (put v sp t)"
proof (cases p)
  case None
  moreover have "put v nullptr s = s" using assms(2) by (simp add: put_def fun_upd_idem)
  ultimately show ?thesis using assms(1) by (auto simp: acquire_def loose_def nullptr_def)
next
  case (Some a)
  then show ?thesis using acquire_new[of a "{}" s v] assms by (simp add: loose_def)
qed

lemma ctor_raw_ok:
  assumes "store_ok (loose p) s" "vars s v = None"
  shows "\<exists>sp t. ctor_raw v p s = Some t \<and> store_ok {} t \<and> vars t = (vars s)(v \<mapsto> sp) \<and> ptr sp = p \<and>
    next_object t = next_object s"
proof -
  obtain sp t where t: "acquire \<lparr>ptr = p, reference_count = None\<rparr> (put v nullptr s) = Some (sp, t)" "ptr sp = p"
      "next_object t = next_object s" "store_ok {} (put v sp t)"
    using acquire_raw[OF null_var_ok[OF assms], of v] by auto
  then obtain u where u: "acquire \<lparr>ptr = p, reference_count = None\<rparr> s = Some (sp, u)" "t = put v nullptr u"
    by (auto simp: acquire_put)
  have "vars u = vars s" using u(1) by (auto simp: acquire_def new_counter_def add_count_def split: option.splits if_splits)
  then show ?thesis using t u by (auto simp: ctor_raw_def)
qed

lemma assign_raw_ok:
  assumes "store_ok (loose p) s" "vars s v = Some a" "ptr a \<noteq> p"
  shows "\<exists>sp t. assign_raw v p s = Some t \<and> store_ok {} t \<and> vars t = (vars s)(v \<mapsto> sp) \<and> ptr sp = p \<and>
    next_object t = next_object s"
proof -
  obtain s1 where s1: "release a s = Some s1" "vars s1 = vars s" "next_object s1 = next_object s"
      "store_ok (loose p) (put v nullptr s1)"
    using release_var[OF assms(1,2)] by blast
  obtain sp t where t: "acquire \<lparr>ptr = p, reference_count = None\<rparr> (put v nullptr s1) = Some (sp, t)" "ptr sp = p"
      "next_object t = next_object s" "store_ok {} (put v sp t)"
    using acquire_raw[OF s1(4), of v] s1(3) by auto
  then obtain u where u: "acquire \<lparr>ptr = p, reference_count = None\<rparr> s1 = Some (sp, u)" "t = put v nullptr u"
    by (auto simp: acquire_put)
  have "vars u = vars s1" using u(1) by (auto simp: acquire_def new_counter_def add_count_def split: option.splits if_splits)
  then show ?thesis using assms(2,3) s1 t u by (auto simp: assign_raw_def)
qed

lemma dtor_ok:
  assumes "store_ok L s" "vars s v = Some a"
  shows "\<exists>t. dtor v s = Some t \<and> store_ok L t \<and> vars t = (vars s)(v := None) \<and> next_object t = next_object s"
proof -
  obtain s1 where s1: "release a s = Some s1" "vars s1 = vars s" "next_object s1 = next_object s"
      "store_ok L (put v nullptr s1)"
    using release_var[OF assms] by blast
  have "store_ok L ((put v nullptr s1)\<lparr>vars := (vars (put v nullptr s1))(v := None)\<rparr>)"
    using drop_var_ok[OF s1(4), of v] by simp
  then show ?thesis using assms(2) s1 by (simp add: dtor_def put_def)
qed

lemma new_object_ok:
  assumes "store_ok {} s"
  shows "store_ok {next_object s} (snd (new_object x s))" "vars (snd (new_object x s)) = vars s"
    "fst (new_object x s) = next_object s" "next_object (snd (new_object x s)) = next_object s + 1"
proof -
  have "objects s p \<noteq> None \<longrightarrow> p < next_object s" for p using assms unfolding store_ok_def by blast
  then have "objects s (next_object s) = None" by blast
  then have "\<not> pointed (vars s) (next_object s)" using assms by (auto simp: store_ok_def)
  then show "store_ok {next_object s} (snd (new_object x s))"
    using assms by (auto simp: store_ok_def new_object_def less_Suc_eq)
qed (simp_all add: new_object_def)

subsection \<open>The members implement the handles\<close>

lemma handles_upd:
  "handles_of s = (h, n) \<Longrightarrow> h v = map_option ptr (vars s v) \<and> n = next_object s"
  by (auto simp: handles_of_def)

lemma handles_eq:
  "vars t = (vars s)(v \<mapsto> sp) \<Longrightarrow> next_object t = m \<Longrightarrow>
   handles_of t = ((fst (handles_of s))(v \<mapsto> ptr sp), m)"
  by (auto simp: handles_of_def)

lemma raw_ok:
  assumes "store_ok {} s" "raw_free r (fst (handles_of s)) own"
  shows "\<exists>p t. eval_raw r s = Some (p, t) \<and> vars t = vars s \<and>
     raw_meaning r (handles_of s) = (p, handles_of t) \<and>
     (store_ok (loose p) t \<or> (Some p = own \<and> t = s))"
proof (cases r)
  case Null
  then show ?thesis using assms by (auto simp: eval_raw_def raw_meaning_def loose_def handles_of_def)
next
  case (New x)
  then show ?thesis
    using new_object_ok[OF assms(1), of x]
    by (auto simp: eval_raw_def raw_meaning_def loose_def handles_of_def Let_def split: prod.splits)
next
  case (Get u)
  then show ?thesis
    using assms by (auto simp: eval_raw_def get_def raw_meaning_def raw_free_def loose_def handles_of_def)
qed

lemma assign_raw_step:
  assumes "store_ok {} s" "legal (Assign_raw v r) (handles_of s)"
  shows "\<exists>t. run_command (Assign_raw v r) s = Some t \<and> store_ok {} t \<and>
    handles_of t = meaning (Assign_raw v r) (handles_of s)"
proof -
  have free: "raw_free r (fst (handles_of s)) (fst (handles_of s) v)"
    using assms(2) by (simp add: legal_def split: prod.splits)
  obtain a where a: "vars s v = Some a" using assms(2) by (auto simp: legal_def handles_of_def)
  obtain p t where t: "eval_raw r s = Some (p, t)" "vars t = vars s"
      "raw_meaning r (handles_of s) = (p, handles_of t)"
      "store_ok (loose p) t \<or> (Some p = fst (handles_of s) v \<and> t = s)"
    using raw_ok[OF assms(1) free] by blast
  show ?thesis
  proof (cases "ptr a = p")
    case True
    have "store_ok {} t"
    proof (cases p)
      case None
      then show ?thesis using t(4) assms(1) by (auto simp: loose_def)
    next
      case (Some x)
      then have "\<not> store_ok (loose p) t"
        using a True t(2) by (auto simp: store_ok_def loose_def pointed_def)
      then show ?thesis using t(4) assms(1) by simp
    qed
    moreover have "(fst (handles_of t))(v \<mapsto> p) = fst (handles_of t)"
      using a True t(2) by (auto simp: handles_of_def)
    ultimately show ?thesis
      using a True t(1-3) by (auto simp: run_command_def assign_raw_def meaning_def set_handle_def split: prod.splits)
  next
    case False
    then have "store_ok (loose p) t" using t(4) a by (auto simp: handles_of_def)
    then obtain sp u where u: "assign_raw v p t = Some u" "store_ok {} u" "vars u = (vars t)(v \<mapsto> sp)" "ptr sp = p"
        "next_object u = next_object t"
      using assign_raw_ok[of p t v a] a t(2) False by auto
    then have "handles_of u = ((fst (handles_of t))(v \<mapsto> p), next_object t)"
      using handles_eq[OF u(3,5)] by simp
    then show ?thesis
      using t(1,3) u by (auto simp: run_command_def meaning_def set_handle_def handles_of_def split: prod.splits)
  qed
qed

lemma from_raw_step:
  assumes "store_ok {} s" "legal (From_raw v r) (handles_of s)"
  shows "\<exists>t. run_command (From_raw v r) s = Some t \<and> store_ok {} t \<and>
    handles_of t = meaning (From_raw v r) (handles_of s)"
proof -
  have free: "raw_free r (fst (handles_of s)) None"
    using assms(2) by (simp add: legal_def split: prod.splits)
  have v: "vars s v = None" using assms(2) by (auto simp: legal_def handles_of_def)
  obtain p t where t: "eval_raw r s = Some (p, t)" "vars t = vars s"
      "raw_meaning r (handles_of s) = (p, handles_of t)" "store_ok (loose p) t"
    using raw_ok[OF assms(1) free] by blast
  obtain sp u where u: "ctor_raw v p t = Some u" "store_ok {} u" "vars u = (vars t)(v \<mapsto> sp)" "ptr sp = p"
      "next_object u = next_object t"
    using ctor_raw_ok[OF t(4), of v] v t(2) by auto
  then have "handles_of u = ((fst (handles_of t))(v \<mapsto> p), next_object t)"
    using handles_eq[OF u(3,5)] by simp
  then show ?thesis
    using t(1,3) u by (auto simp: run_command_def meaning_def set_handle_def handles_of_def split: prod.splits)
qed

lemma command_step:
  assumes "store_ok {} s" "legal cmd (handles_of s)"
  shows "\<exists>t. run_command cmd s = Some t \<and> store_ok {} t \<and> handles_of t = meaning cmd (handles_of s)"
proof (cases cmd)
  case (Default v)
  then show ?thesis
    using assms null_var_ok[of "{}" s v]
    by (auto simp: run_command_def ctor_default_def legal_def meaning_def handles_of_def)
next
  case (From_raw v r)
  then show ?thesis using from_raw_step assms by simp
next
  case (Copy_of v w)
  then obtain b where "vars s v = None" "vars s w = Some b"
    using assms(2) by (auto simp: legal_def handles_of_def)
  then show ?thesis
    using ctor_copy_ok[OF assms(1), of v w b] Copy_of
    by (fastforce simp: run_command_def meaning_def handles_of_def)
next
  case (Moved_from v w)
  then obtain b where vw: "vars s v = None" "vars s w = Some b"
    using assms(2) by (auto simp: legal_def handles_of_def)
  have "v \<noteq> w" using vw by auto
  then have "store_ok {} (put w nullptr (put v b s))"
    using move_into_null[OF null_var_ok[OF assms(1) vw(1)], of v w b] vw(2) by simp
  then show ?thesis
    using Moved_from vw by (auto simp: run_command_def ctor_move_def meaning_def handles_of_def)
next
  case (Assign_raw v r)
  then show ?thesis using assign_raw_step assms by simp
next
  case (Assign_copy v w)
  then obtain a b where vw: "vars s v = Some a" "vars s w = Some b"
    using assms(2) by (auto simp: legal_def handles_of_def)
  show ?thesis
  proof (cases "ptr a = ptr b")
    case True
    then show ?thesis
      using Assign_copy vw assms(1) by (auto simp: run_command_def assign_copy_def meaning_def handles_of_def)
  next
    case False
    then show ?thesis
      using assign_copy_ok[OF assms(1) vw] Assign_copy vw
      by (fastforce simp: run_command_def meaning_def handles_of_def)
  qed
next
  case (Assign_move v w)
  then obtain a b where vw: "vars s v = Some a" "vars s w = Some b"
    using assms(2) by (auto simp: legal_def handles_of_def)
  show ?thesis
  proof (cases "ptr a = ptr b")
    case True
    then show ?thesis
      using Assign_move vw assms(1) by (auto simp: run_command_def assign_move_def meaning_def handles_of_def)
  next
    case False
    then show ?thesis
      using assign_move_ok[OF assms(1) vw] Assign_move vw
      by (fastforce simp: run_command_def meaning_def handles_of_def)
  qed
next
  case (Reset v r)
  then show ?thesis
    using assign_raw_step[of s v r] assms
    by (simp add: run_command_def reset_def legal_def meaning_def)
next
  case (Swap v w)
  then obtain a b where vw: "vars s v = Some a" "vars s w = Some b"
    using assms(2) by (auto simp: legal_def handles_of_def)
  then show ?thesis
    using exchange_ok[OF assms(1) vw] Swap
    by (auto simp: run_command_def swap_def meaning_def handles_of_def)
next
  case (Destroy v)
  then obtain a where "vars s v = Some a" using assms(2) by (auto simp: legal_def handles_of_def)
  then show ?thesis
    using dtor_ok[OF assms(1), of v a] Destroy
    by (fastforce simp: run_command_def meaning_def handles_of_def)
qed

interpretation shared: command_refinement run_command meaning legal "store_ok {}" handles_of
  by unfold_locales (rule command_step)

subsection \<open>Ownership\<close>

lemma empty_ok: "store_ok {} empty_store" "handles_of empty_store = (\<lambda>_. None, 0)"
  by (auto simp: store_ok_def empty_store_def paired_def pointed_def owners_def counted_def handles_of_def)

lemma use_count_handles:
  assumes "store_ok {} s" "fst (handles_of s) v = Some (Some p)"
  shows "use_count v s = Some (int (card {w. fst (handles_of s) w = Some (Some p)}))"
proof -
  obtain sp where v: "vars s v = Some sp" "ptr sp = Some p" using assms(2) by (auto simp: handles_of_def)
  obtain c where c: "reference_count sp = Some c" using store_okD(1)[OF assms(1) v(1)] v(2) by auto
  have "w \<in> owners (vars s) c \<longleftrightarrow> fst (handles_of s) w = Some (Some p)" for w
  proof (cases "vars s w")
    case (Some sq)
    then have "Some p = ptr sq \<longleftrightarrow> Some c = reference_count sq"
      using store_okD(2)[OF assms(1) v(1) Some] v(2) c by simp
    then show ?thesis using Some by (auto simp: owners_def handles_of_def)
  qed (simp add: owners_def handles_of_def)
  then have "owners (vars s) c = {w. fst (handles_of s) w = Some (Some p)}" by blast
  then show ?thesis using store_okD(4)[OF assms(1) v(1) c] v c by (simp add: use_count_def)
qed

text \<open>C5: Every program of constructions, assignments, moves, swaps, resets and destructions that does not hand
  over a raw pointer somebody else owns runs without a dangling access or a double deletion; the variables
  then point where the abstract account says; an object is alive exactly if some variable
  points to it; \<open>use_count\<close> is the number of variables that point to the object; and no counter is left over.\<close>

theorem shared_ptr_ownership:
  assumes "legal_all meaning legal cmds (\<lambda>_. None, 0)"
  shows "\<exists>s. run_all run_command cmds empty_store = Some s \<and>
    handles_of s = spec_all meaning cmds (\<lambda>_. None, 0) \<and>
    (\<forall>p. objects s p \<noteq> None \<longleftrightarrow> (\<exists>v. fst (handles_of s) v = Some (Some p))) \<and>
    (\<forall>v p. fst (handles_of s) v = Some (Some p) \<longrightarrow>
       use_count v s = Some (int (card {w. fst (handles_of s) w = Some (Some p)}))) \<and>
    (\<forall>c. counters s c \<noteq> None \<longleftrightarrow> (\<exists>v sp. vars s v = Some sp \<and> reference_count sp = Some c))"
proof -
  obtain s where s: "run_all run_command cmds empty_store = Some s" "store_ok {} s"
      "handles_of s = spec_all meaning cmds (\<lambda>_. None, 0)"
    using shared.program[OF empty_ok(1), of cmds] assms by (auto simp: empty_ok(2))
  have "objects s p \<noteq> None \<longleftrightarrow> (\<exists>v. fst (handles_of s) v = Some (Some p))" for p
    using s(2) by (auto simp: store_ok_def pointed_def handles_of_def)
  moreover have "counters s c \<noteq> None \<longleftrightarrow> (\<exists>v sp. vars s v = Some sp \<and> reference_count sp = Some c)" for c
  proof -
    have "counters s c = counted (owners (vars s) c)" using s(2) by (simp add: store_ok_def)
    then show ?thesis by (simp add: counted_def owners_def)
  qed
  ultimately show ?thesis using s use_count_handles[OF s(2)] by blast
qed

definition sharing_program :: "int command list" where
  "sharing_program = [From_raw 0 (New 5), Copy_of 1 0, From_raw 2 (New 7), Assign_copy 2 1, Destroy 0]"

theorem shared_ptr_ownership_witness:
  "\<exists>s. run_all run_command sharing_program empty_store = Some s \<and> objects s 1 = None \<and> objects s 0 \<noteq> None"
proof -
  have "legal_all meaning legal sharing_program (\<lambda>_. None, 0)"
    by (simp add: sharing_program_def legal_def meaning_def raw_free_def raw_meaning_def set_handle_def)
  from shared_ptr_ownership[OF this] obtain s where
    s: "run_all run_command sharing_program empty_store = Some s"
       "handles_of s = spec_all meaning sharing_program (\<lambda>_. None, 0)"
       "\<And>p. objects s p \<noteq> None \<longleftrightarrow> (\<exists>v. fst (handles_of s) v = Some (Some p))"
    by blast
  have h: "fst (handles_of s) = (\<lambda>_. None)(1 \<mapsto> Some 0, 2 \<mapsto> Some 0)"
    by (simp add: s(2) sharing_program_def meaning_def raw_meaning_def set_handle_def fun_eq_iff)
  have "objects s p \<noteq> None \<longleftrightarrow> p = 0" for p
    unfolding s(3) h by (auto split: if_splits intro: exI[of _ 2])
  then show ?thesis using s(1) by (metis zero_neq_one)
qed

text \<open>Moving from a pointer to the same object leaves the source in place, unlike \<open>std::shared_ptr\<close>, which
  the comment of the file names as the model.\<close>

lemma move_between_sharers_keeps_source:
  assumes "store_ok {} s" "vars s v = Some a" "vars s w = Some b" "ptr a = ptr b"
  shows "assign_move v w s = Some s"
  using assms by (simp add: assign_move_def)

end
