(* ===== verification/Numvec.thy ===== *)
theory Numvec
  imports Program_Refinement
begin

text \<open>
  The vector class \<open>Numvec\<close> of \<^verbatim>\<open>Sandbox/vector.hpp\<close> on a store of arrays, whose cells may be unwritten. Sizes are
  32-bit numbers, written with their wrap-around; the value \<open>T()\<close> is the parameter \<open>zero\<close>. \<open>None\<close> is undefined
  behaviour: an access outside an array, the use of an unwritten cell or of a deleted array, and
  its second deletion. The constructors from an array and from a list read the member \<open>reserved\<close> before it is
  initialised, since \<open>arr\<close> is declared first; the value found there is the argument \<open>garbage\<close>.
\<close>

subsection \<open>The class\<close>

record numvec =
  arr :: addr
  len :: nat
  reserved :: nat

record 'a vec_store =
  arrays :: "addr \<Rightarrow> 'a option list option"
  next_array :: addr
  vecs :: "nat \<Rightarrow> numvec option"

definition DEFAULT_RESERVED :: nat where
  "DEFAULT_RESERVED = 4"

definition wrap :: "nat \<Rightarrow> nat" where
  "wrap n = n mod 2 ^ 32"

definition new_array :: "nat \<Rightarrow> 'a vec_store \<Rightarrow> addr \<times> 'a vec_store" where
  "new_array n s = (next_array s,
     s\<lparr>arrays := (arrays s)(next_array s \<mapsto> replicate n None), next_array := next_array s + 1\<rparr>)"

definition delete_array :: "addr \<Rightarrow> 'a vec_store \<Rightarrow> 'a vec_store option" where
  "delete_array a s = (if arrays s a = None then None else Some (s\<lparr>arrays := (arrays s)(a := None)\<rparr>))"

definition read_elem :: "addr \<Rightarrow> nat \<Rightarrow> 'a vec_store \<Rightarrow> 'a option" where
  "read_elem a i s = do { cells \<leftarrow> arrays s a; if i < length cells then cells ! i else None }"

definition write_elem :: "addr \<Rightarrow> nat \<Rightarrow> 'a \<Rightarrow> 'a vec_store \<Rightarrow> 'a vec_store option" where
  "write_elem a i x s = do { cells \<leftarrow> arrays s a;
     if i < length cells then Some (s\<lparr>arrays := (arrays s)(a \<mapsto> cells[i := Some x])\<rparr>) else None }"

definition copy_elems :: "addr \<Rightarrow> addr \<Rightarrow> nat \<Rightarrow> nat \<Rightarrow> 'a vec_store \<Rightarrow> 'a vec_store option" where
  "copy_elems dst src off n =
     for_range (\<lambda>j s. do { x \<leftarrow> read_elem src j s; write_elem dst (off + j) x s }) [0..<n]"

definition put_vec :: "nat \<Rightarrow> numvec \<Rightarrow> 'a vec_store \<Rightarrow> 'a vec_store" where
  "put_vec v this s = s\<lparr>vecs := (vecs s)(v \<mapsto> this)\<rparr>"

definition reallocate :: "numvec \<Rightarrow> 'a vec_store \<Rightarrow> (numvec \<times> 'a vec_store) option" where
  "reallocate this s = (let (p, s) = new_array (reserved this) s in do {
     s \<leftarrow> copy_elems p (arr this) 0 (len this) s;
     s \<leftarrow> delete_array (arr this) s;
     Some (this\<lparr>arr := p\<rparr>, s) })"

text \<open>The conditional reallocation at the start of several members.\<close>

definition reserve_for :: "bool \<Rightarrow> nat \<Rightarrow> numvec \<Rightarrow> 'a vec_store \<Rightarrow> (numvec \<times> 'a vec_store) option" where
  "reserve_for needed r this s =
     (if needed then reallocate (this\<lparr>reserved := r\<rparr>) s else Some (this, s))"

subsection \<open>Members\<close>

definition Numvec_default :: "nat \<Rightarrow> 'a vec_store \<Rightarrow> 'a vec_store" where
  "Numvec_default v s = (let (a, s) = new_array DEFAULT_RESERVED s in
     put_vec v \<lparr>arr = a, len = 0, reserved = DEFAULT_RESERVED\<rparr> s)"

definition Numvec_sized :: "'a \<Rightarrow> nat \<Rightarrow> nat \<Rightarrow> 'a vec_store \<Rightarrow> 'a vec_store option" where
  "Numvec_sized zero v n s = (let (a, s) = new_array (wrap (n * 4)) s in do {
     s \<leftarrow> for_range (\<lambda>i. write_elem a i zero) [0..<n] s;
     Some (put_vec v \<lparr>arr = a, len = n, reserved = wrap (n * 4)\<rparr> s) })"

definition Numvec_list :: "nat \<Rightarrow> nat \<Rightarrow> 'a list \<Rightarrow> 'a vec_store \<Rightarrow> 'a vec_store option" where
  "Numvec_list garbage v xs s = (let (a, s) = new_array garbage s in do {
     s \<leftarrow> for_range (\<lambda>i. write_elem a i (xs ! i)) [0..<length xs] s;
     Some (put_vec v \<lparr>arr = a, len = wrap (length xs), reserved = wrap (length xs * 4)\<rparr> s) })"

definition Numvec_array :: "nat \<Rightarrow> nat \<Rightarrow> 'a list \<Rightarrow> nat \<Rightarrow> 'a vec_store \<Rightarrow> 'a vec_store option" where
  "Numvec_array garbage v array n s = (let (a, s) = new_array garbage s in do {
     s \<leftarrow> for_range (\<lambda>i s. if i < length array then write_elem a i (array ! i) s else None) [0..<n] s;
     Some (put_vec v \<lparr>arr = a, len = n, reserved = wrap (n * 4)\<rparr> s) })"

definition assign_list :: "nat \<Rightarrow> 'a list \<Rightarrow> 'a vec_store \<Rightarrow> 'a vec_store option" where
  "assign_list v xs s = do {
     this \<leftarrow> vecs s v;
     let n = wrap (length xs);
     let (a, s) = new_array (wrap (n * 4)) s;
     Some (put_vec v \<lparr>arr = a, len = n, reserved = wrap (n * 4)\<rparr> s) }"

definition Numvec_copy :: "nat \<Rightarrow> nat \<Rightarrow> 'a vec_store \<Rightarrow> 'a vec_store option" where
  "Numvec_copy v w s = do {
     other \<leftarrow> vecs s w;
     let (a, s) = new_array (reserved other) s;
     s \<leftarrow> copy_elems a (arr other) 0 (len other) s;
     Some (put_vec v \<lparr>arr = a, len = len other, reserved = reserved other\<rparr> s) }"

text \<open>Copy and move assignment have the same body, up to moving the elements.\<close>

definition assign_vec :: "nat \<Rightarrow> nat \<Rightarrow> 'a vec_store \<Rightarrow> 'a vec_store option" where
  "assign_vec v w s = do {
     this \<leftarrow> vecs s v;
     other \<leftarrow> vecs s w;
     (this, s) \<leftarrow> reserve_for (reserved this < len other) (wrap (len other * 4)) this s;
     other \<leftarrow> vecs (put_vec v this s) w;
     s \<leftarrow> copy_elems (arr this) (arr other) 0 (len other) s;
     Some (put_vec v (this\<lparr>len := len other\<rparr>) s) }"

definition Numvec_move :: "nat \<Rightarrow> nat \<Rightarrow> 'a vec_store \<Rightarrow> 'a vec_store option" where
  "Numvec_move v w s = do {
     obj \<leftarrow> vecs s w;
     Some (put_vec v \<lparr>arr = arr obj, len = len obj, reserved = DEFAULT_RESERVED\<rparr> s) }"

definition Numvec_dtor :: "nat \<Rightarrow> 'a vec_store \<Rightarrow> 'a vec_store option" where
  "Numvec_dtor v s = do {
     this \<leftarrow> vecs s v;
     s \<leftarrow> delete_array (arr this) s;
     Some (s\<lparr>vecs := (vecs s)(v := None)\<rparr>) }"

definition vec_at :: "nat \<Rightarrow> nat \<Rightarrow> 'a vec_store \<Rightarrow> (unit + 'a) option" where
  "vec_at v n s = do { this \<leftarrow> vecs s v;
     if len this \<le> n then Some (Inl ()) else map_option Inr (read_elem (arr this) n s) }"

definition vec_back :: "nat \<Rightarrow> 'a vec_store \<Rightarrow> 'a option" where
  "vec_back v s = do { this \<leftarrow> vecs s v; read_elem (arr this) (wrap (len this + (2 ^ 32 - 1))) s }"

definition is_empty :: "nat \<Rightarrow> 'a vec_store \<Rightarrow> bool option" where
  "is_empty v s = map_option (\<lambda>this. len this = 0) (vecs s v)"

definition push_elem :: "nat \<Rightarrow> 'a \<Rightarrow> 'a vec_store \<Rightarrow> 'a vec_store option" where
  "push_elem v x s = do {
     this \<leftarrow> vecs s v;
     (this, s) \<leftarrow> reserve_for (len this = reserved this) (wrap (reserved this * 4)) this s;
     s \<leftarrow> write_elem (arr this) (len this) x s;
     Some (put_vec v (this\<lparr>len := wrap (len this + 1)\<rparr>) s) }"

definition plus_back :: "nat \<Rightarrow> nat \<Rightarrow> 'a vec_store \<Rightarrow> 'a vec_store option" where
  "plus_back v w s = do {
     this \<leftarrow> vecs s v;
     vec \<leftarrow> vecs s w;
     let after_len = wrap (len this + len vec);
     (this, s) \<leftarrow> reserve_for (reserved this < after_len) (wrap (after_len * 4)) this s;
     let s = put_vec v this s;
     vec \<leftarrow> vecs s w;
     s \<leftarrow> copy_elems (arr this) (arr vec) (len this) (after_len - len this) s;
     Some (put_vec v (this\<lparr>len := after_len\<rparr>) s) }"

definition pop_elem :: "nat \<Rightarrow> 'a vec_store \<Rightarrow> 'a vec_store option" where
  "pop_elem v s = do { this \<leftarrow> vecs s v; Some (put_vec v (this\<lparr>len := wrap (len this + (2 ^ 32 - 1))\<rparr>) s) }"

definition clear_vec :: "nat \<Rightarrow> 'a vec_store \<Rightarrow> 'a vec_store option" where
  "clear_vec v s = do { this \<leftarrow> vecs s v; Some (put_vec v (this\<lparr>len := 0\<rparr>) s) }"

text \<open>\<open>operator==\<close>: the loop stops at the first difference.\<close>

fun equal_elems :: "addr \<Rightarrow> addr \<Rightarrow> nat list \<Rightarrow> 'a vec_store \<Rightarrow> bool option" where
  "equal_elems p a [] s = Some True"
| "equal_elems p a (i # is) s = do { x \<leftarrow> read_elem p i s; y \<leftarrow> read_elem a i s;
     if x \<noteq> y then Some False else equal_elems p a is s }"

definition equal_vecs :: "nat \<Rightarrow> nat \<Rightarrow> 'a vec_store \<Rightarrow> bool option" where
  "equal_vecs v w s = do { this \<leftarrow> vecs s v; other \<leftarrow> vecs s w;
     if len this \<noteq> len other then Some False
     else equal_elems (arr other) (arr this) [0..<len this] s }"

subsection \<open>Client programs\<close>

datatype 'a vec_command =
    Default nat | Sized nat nat | Copy nat nat | Assign nat nat | Push nat 'a | Append nat nat
  | Pop nat | Clear nat | Destroy nat

definition run_vec :: "'a \<Rightarrow> 'a vec_command \<Rightarrow> 'a vec_store \<Rightarrow> 'a vec_store option" where
  "run_vec zero cmd s = (case cmd of
      Default v \<Rightarrow> Some (Numvec_default v s)
    | Sized v n \<Rightarrow> Numvec_sized zero v n s
    | Copy v w \<Rightarrow> Numvec_copy v w s
    | Assign v w \<Rightarrow> assign_vec v w s
    | Push v x \<Rightarrow> push_elem v x s
    | Append v w \<Rightarrow> plus_back v w s
    | Pop v \<Rightarrow> pop_elem v s
    | Clear v \<Rightarrow> clear_vec v s
    | Destroy v \<Rightarrow> Numvec_dtor v s)"

definition no_vecs :: "'a vec_store" where
  "no_vecs = \<lparr>arrays = (\<lambda>_. None), next_array = 0, vecs = (\<lambda>_. None)\<rparr>"

type_synonym 'a vec_lists = "nat \<Rightarrow> 'a list option"

definition vec_meaning :: "'a \<Rightarrow> 'a vec_command \<Rightarrow> 'a vec_lists \<Rightarrow> 'a vec_lists" where
  "vec_meaning zero cmd h = (case cmd of
      Default v \<Rightarrow> h(v \<mapsto> [])
    | Sized v n \<Rightarrow> h(v \<mapsto> replicate n zero)
    | Copy v w \<Rightarrow> h(v := h w)
    | Assign v w \<Rightarrow> h(v := h w)
    | Push v x \<Rightarrow> h(v \<mapsto> the (h v) @ [x])
    | Append v w \<Rightarrow> h(v \<mapsto> the (h v) @ the (h w))
    | Pop v \<Rightarrow> h(v \<mapsto> butlast (the (h v)))
    | Clear v \<Rightarrow> h(v \<mapsto> [])
    | Destroy v \<Rightarrow> h(v := None))"

text \<open>Sizes stay below \<open>2 ^ 30\<close>, nothing is removed from an empty vector, and none is created with size 0.\<close>

definition vec_legal :: "'a vec_command \<Rightarrow> 'a vec_lists \<Rightarrow> bool" where
  "vec_legal cmd h = (case cmd of
      Default v \<Rightarrow> h v = None
    | Sized v n \<Rightarrow> h v = None \<and> 0 < n \<and> n < 2 ^ 30
    | Copy v w \<Rightarrow> h v = None \<and> h w \<noteq> None
    | Assign v w \<Rightarrow> h v \<noteq> None \<and> h w \<noteq> None
    | Push v x \<Rightarrow> h v \<noteq> None \<and> length (the (h v)) < 2 ^ 30 - 1
    | Append v w \<Rightarrow> h v \<noteq> None \<and> h w \<noteq> None \<and> length (the (h v)) + length (the (h w)) < 2 ^ 30
    | Pop v \<Rightarrow> h v \<noteq> None \<and> the (h v) \<noteq> []
    | Clear v \<Rightarrow> h v \<noteq> None
    | Destroy v \<Rightarrow> h v \<noteq> None)"

end
