(* ===== verification/Numvec_Correct.thy ===== *)
theory Numvec_Correct
  imports Numvec
begin

text \<open>
  The vectors of a client hold lists: the cells of an array are the elements followed by spare cells, no two vectors
  share an array, and every array belongs to a vector. The members implement the operations on lists.
\<close>

subsection \<open>Copying\<close>

lemma copy_elems_works:
  assumes src: "arrays s src = Some cs" "\<And>i. i < length xs \<Longrightarrow> i < length cs \<and> cs ! i = Some (xs ! i)"
    and dst: "arrays s dst = Some ds" "off + length xs \<le> length ds"
    and apart: "src \<noteq> dst \<or> length xs \<le> off \<or> off = 0"
  shows "copy_elems dst src off (length xs) s =
    Some (s\<lparr>arrays := (arrays s)(dst \<mapsto> take off ds @ map Some xs @ drop (off + length xs) ds)\<rparr>)"
proof -
  define now where "now i = take off ds @ map Some (take i xs) @ drop (off + i) ds" for i
  let ?I = "\<lambda>i t. t = s\<lparr>arrays := (arrays s)(dst \<mapsto> now i)\<rparr>"
  have "\<exists>t. copy_elems dst src off (length xs) s = Some t \<and> ?I (length xs) t"
    unfolding copy_elems_def
  proof (rule for_range_upt[where I = ?I])
    show "?I 0 s" using dst(1) by (simp add: now_def fun_upd_idem)
    fix i t assume i: "i < length xs" and t: "?I i t"
    have len: "length (now i) = length ds" using i dst(2) by (simp add: now_def)
    have "read_elem src i t = Some (xs ! i)"
    proof (cases "src = dst")
      case True
      then have cs: "cs = ds" using src(1) dst(1) by simp
      have "now i ! i = Some (xs ! i)"
        using apart True i src(2)[OF i] dst(2) by (auto simp: now_def cs nth_append)
      then show ?thesis using True t len src(2)[OF i] cs by (simp add: read_elem_def)
    next
      case False
      then show ?thesis using t src(1) src(2)[OF i] by (simp add: read_elem_def)
    qed
    moreover have "(now i)[off + i := Some (xs ! i)] = now (Suc i)"
    proof -
      have "drop (off + i) ds = ds ! (off + i) # drop (off + Suc i) ds"
        using i dst(2) Cons_nth_drop_Suc[of "off + i" ds] by simp
      then show ?thesis
        using i dst(2) by (simp add: now_def list_update_append take_Suc_conv_app_nth min_def)
    qed
    ultimately show "\<exists>u. read_elem src i t \<bind> (\<lambda>x. write_elem dst (off + i) x t) = Some u \<and> ?I (Suc i) u"
      using t len dst(2) i by (simp add: write_elem_def)
  qed simp
  then show ?thesis by (simp add: now_def)
qed

lemma reallocate_works:
  assumes "arrays s (arr this) = Some (map Some xs @ junk)" "len this = length xs" "length xs \<le> reserved this"
    "arr this \<noteq> next_array s"
  shows "reallocate this s = Some (this\<lparr>arr := next_array s\<rparr>,
    s\<lparr>arrays := ((arrays s)(next_array s \<mapsto> map Some xs @ replicate (reserved this - length xs) None))(arr this := None),
      next_array := next_array s + 1\<rparr>)"
proof -
  let ?s = "s\<lparr>arrays := (arrays s)(next_array s \<mapsto> replicate (reserved this) None), next_array := next_array s + 1\<rparr>"
  have "copy_elems (next_array s) (arr this) 0 (length xs) ?s =
    Some (?s\<lparr>arrays := (arrays ?s)(next_array s \<mapsto> map Some xs @ drop (length xs) (replicate (reserved this) None))\<rparr>)"
    using copy_elems_works[of ?s "arr this" "map Some xs @ junk" xs "next_array s" "replicate (reserved this) None" 0]
      assms by (simp add: nth_append)
  then show ?thesis
    using assms(1,2,4) by (simp add: reallocate_def new_array_def delete_array_def Let_def)
qed

subsection \<open>Vectors hold lists\<close>

definition elems :: "'a vec_store \<Rightarrow> numvec \<Rightarrow> 'a list" where
  "elems s this = map the (take (len this) (the (arrays s (arr this))))"

definition vec_contents :: "'a vec_store \<Rightarrow> 'a vec_lists" where
  "vec_contents s v = map_option (elems s) (vecs s v)"

definition holds :: "'a vec_store \<Rightarrow> numvec \<Rightarrow> 'a list \<Rightarrow> bool" where
  "holds s this xs \<longleftrightarrow> (\<exists>junk. arrays s (arr this) = Some (map Some xs @ junk) \<and>
     reserved this = length xs + length junk) \<and> len this = length xs \<and> 0 < reserved this \<and> length xs < 2 ^ 30"

definition vec_ok :: "'a vec_store \<Rightarrow> bool" where
  "vec_ok s \<longleftrightarrow> (\<forall>v this. vecs s v = Some this \<longrightarrow> (\<exists>xs. holds s this xs)) \<and>
     (\<forall>v w a b. vecs s v = Some a \<longrightarrow> vecs s w = Some b \<longrightarrow> arr a = arr b \<longrightarrow> v = w) \<and>
     (\<forall>a. arrays s a \<noteq> None \<longleftrightarrow> (\<exists>v this. vecs s v = Some this \<and> arr this = a)) \<and>
     (\<forall>a. arrays s a \<noteq> None \<longrightarrow> a < next_array s)"

lemma holds_elems: "holds s this xs \<Longrightarrow> elems s this = xs"
  by (auto simp: holds_def elems_def)

lemma vec_okD:
  assumes "vec_ok s" "vecs s v = Some this"
  shows "holds s this (elems s this)" "arr this < next_array s" "vec_contents s v = Some (elems s this)"
    "vecs s w = Some that \<Longrightarrow> arr that = arr this \<Longrightarrow> w = v"
proof -
  show h: "holds s this (elems s this)" using assms holds_elems unfolding vec_ok_def by metis
  then have "arrays s (arr this) \<noteq> None" by (auto simp: holds_def)
  then show "arr this < next_array s" using assms(1) unfolding vec_ok_def by blast
  show "vec_contents s v = Some (elems s this)" using assms(2) by (simp add: vec_contents_def)
  show "vecs s w = Some that \<Longrightarrow> arr that = arr this \<Longrightarrow> w = v"
    using assms unfolding vec_ok_def by blast
qed

text \<open>Every operation gives one variable a vector whose array is its old one or a fresh one.\<close>

definition own_array :: "'a vec_store \<Rightarrow> nat \<Rightarrow> addr \<Rightarrow> bool" where
  "own_array s v a \<longleftrightarrow> (\<exists>this. vecs s v = Some this \<and> arr this = a)"

lemma replace_vec:
  assumes ok: "vec_ok s" and a: "arr this' = next_array s \<or> own_array s v (arr this')"
    and arrays: "\<And>a. arrays s' a = (if a = arr this' then Some (map Some xs @ junk)
       else if own_array s v a then None else arrays s a)"
    and vecs: "vecs s' = (vecs s)(v \<mapsto> this')"
    and this': "len this' = length xs" "reserved this' = length xs + length junk" "0 < reserved this'" "length xs < 2 ^ 30"
    and nxt: "next_array s \<le> next_array s'" "arr this' < next_array s'"
  shows "vec_ok s' \<and> vec_contents s' = (vec_contents s)(v \<mapsto> xs)"
proof -
  have new: "holds s' this' xs" using arrays[of "arr this'"] this' by (auto simp: holds_def)
  have other: "arr that \<noteq> arr this' \<and> \<not> own_array s v (arr that)" if "w \<noteq> v" "vecs s w = Some that" for w that
  proof -
    have "\<not> own_array s v (arr that)"
      using vec_okD(4)[OF ok that(2)] that(1) unfolding own_array_def by blast
    then show ?thesis using a vec_okD(2)[OF ok that(2)] by auto
  qed
  have keep: "holds s' that ys \<longleftrightarrow> holds s that ys" "elems s' that = elems s that"
    if "w \<noteq> v" "vecs s w = Some that" for w that ys
    using other[OF that] arrays[of "arr that"] by (simp_all add: holds_def elems_def)
  have "\<exists>ys. holds s' that ys" if "vecs s' w = Some that" for w that
    using that new keep(1)[of w that] vec_okD(1)[OF ok, of w that] by (cases "w = v") (auto simp: vecs)
  moreover have "u = w" if "vecs s' u = Some x" "vecs s' w = Some y" "arr x = arr y" for u w x y
  proof (rule ccontr)
    assume ne: "u \<noteq> w"
    consider "u = v" "w \<noteq> v" | "w = v" "u \<noteq> v" | "u \<noteq> v" "w \<noteq> v" using ne by blast
    then show False
    proof cases
      case 1
      then show ?thesis using that other[of w y] by (simp add: vecs)
    next
      case 2
      then show ?thesis using that other[of u x] by (simp add: vecs)
    next
      case 3
      then show ?thesis using that vec_okD(4)[OF ok, of w y u x] ne by (simp add: vecs)
    qed
  qed
  moreover have "arrays s' b \<noteq> None \<longleftrightarrow> (\<exists>w that. vecs s' w = Some that \<and> arr that = b)" for b
  proof -
    have old: "arrays s b \<noteq> None \<longleftrightarrow> (\<exists>w that. vecs s w = Some that \<and> arr that = b)"
      using ok unfolding vec_ok_def by blast
    consider "b = arr this'" | "b \<noteq> arr this'" "own_array s v b" | "b \<noteq> arr this'" "\<not> own_array s v b" by blast
    then show ?thesis
    proof cases
      case 1
      then show ?thesis using arrays[of b] by (auto simp: vecs)
    next
      case 2
      then show ?thesis using arrays[of b] other by (auto simp: vecs)
    next
      case 3
      then show ?thesis using arrays[of b] old by (auto simp: vecs own_array_def)
    qed
  qed
  moreover have "b < next_array s'" if "arrays s' b \<noteq> None" for b
  proof -
    have "b = arr this' \<or> arrays s b \<noteq> None" using that arrays[of b] by (auto split: if_splits)
    then show ?thesis using ok nxt unfolding vec_ok_def by (metis less_le_trans)
  qed
  ultimately have "vec_ok s'" unfolding vec_ok_def by blast
  moreover have "vec_contents s' = (vec_contents s)(v \<mapsto> xs)"
    using holds_elems[OF new] keep(2) by (auto simp: vec_contents_def vecs fun_eq_iff map_option_case split: option.splits)
  ultimately show ?thesis by blast
qed

subsection \<open>Members on existing vectors\<close>

lemma own_array_iff: "vecs s v = Some this \<Longrightarrow> own_array s v a \<longleftrightarrow> a = arr this"
  by (auto simp: own_array_def)

definition vec_grown :: "'a vec_store \<Rightarrow> nat \<Rightarrow> 'a list \<Rightarrow> nat \<Rightarrow> numvec \<times> 'a vec_store \<Rightarrow> bool" where
  "vec_grown s v xs r ts \<longleftrightarrow> (case ts of (this, t) \<Rightarrow>
     (\<exists>junk. (\<forall>a. arrays t a = (if a = arr this then Some (map Some xs @ junk)
        else if own_array s v a then None else arrays s a)) \<and> r = length xs + length junk) \<and>
     len this = length xs \<and> reserved this = r \<and> vecs t = vecs s \<and> next_array s \<le> next_array t \<and>
     arr this < next_array t \<and> (arr this = next_array s \<or> own_array s v (arr this)))"

lemma grow_works:
  assumes ok: "vec_ok s" and v: "vecs s v = Some this" and r: "c \<Longrightarrow> length (elems s this) \<le> r"
  shows "\<exists>that t. reserve_for c r this s = Some (that, t) \<and>
    vec_grown s v (elems s this) (if c then r else reserved this) (that, t)"
proof -
  let ?xs = "elems s this"
  obtain junk where h: "arrays s (arr this) = Some (map Some ?xs @ junk)" "reserved this = length ?xs + length junk"
      "len this = length ?xs"
    using vec_okD(1)[OF ok v] by (auto simp: holds_def)
  have lt: "arr this < next_array s" using vec_okD(2)[OF ok v] .
  have own: "own_array s v a \<longleftrightarrow> a = arr this" for a using own_array_iff[OF v] .
  show ?thesis
  proof (cases c)
    case True
    let ?t = "s\<lparr>arrays := ((arrays s)(next_array s \<mapsto> map Some ?xs @ replicate (r - length ?xs) None))(arr this := None),
      next_array := next_array s + 1\<rparr>"
    have "reallocate (this\<lparr>reserved := r\<rparr>) s = Some (this\<lparr>reserved := r, arr := next_array s\<rparr>, ?t)"
      using reallocate_works[of s "this\<lparr>reserved := r\<rparr>" ?xs junk] h lt r[OF True] by simp
    moreover have "vec_grown s v ?xs r (this\<lparr>reserved := r, arr := next_array s\<rparr>, ?t)"
      using h(3) lt r[OF True] by (auto simp: vec_grown_def own intro!: exI[of _ "replicate (r - length ?xs) None"])
    ultimately show ?thesis using True by (simp add: reserve_for_def)
  next
    case False
    then show ?thesis using h lt by (auto simp: reserve_for_def vec_grown_def own)
  qed
qed

lemma wrap_small [simp]: "n < 2 ^ 32 \<Longrightarrow> wrap n = n"
  by (simp add: wrap_def)

lemma grown_replace:
  assumes ok: "vec_ok s" and g: "vec_grown s v xs r (this, t)"
    and u: "\<And>a. arrays u a = (if a = arr this then Some (map Some ys @ spare) else arrays t a)"
      "vecs u = (vecs s)(v \<mapsto> this\<lparr>len := length ys\<rparr>)" "next_array u = next_array t"
    and r: "r = length ys + length spare" "0 < r" "length ys < 2 ^ 30"
  shows "vec_ok u \<and> vec_contents u = (vec_contents s)(v \<mapsto> ys)"
proof (rule replace_vec[OF ok, where this' = "this\<lparr>len := length ys\<rparr>" and junk = spare])
  fix a
  show "arrays u a = (if a = arr (this\<lparr>len := length ys\<rparr>) then Some (map Some ys @ spare)
    else if own_array s v a then None else arrays s a)"
    using g u(1) by (auto simp: vec_grown_def)
qed (use g u(2,3) r in \<open>auto simp: vec_grown_def\<close>)

lemma push_elem_ok:
  assumes ok: "vec_ok s" and v: "vec_contents s v = Some xs" and small: "length xs < 2 ^ 30 - 1"
  shows "\<exists>u. push_elem v x s = Some u \<and> vec_ok u \<and> vec_contents u = (vec_contents s)(v \<mapsto> xs @ [x])"
proof -
  obtain this where tv: "vecs s v = Some this" "elems s this = xs" using v by (auto simp: vec_contents_def)
  have h: "len this = length xs" "0 < reserved this" "length xs \<le> reserved this"
    using vec_okD(1)[OF ok tv(1)] tv(2) by (auto simp: holds_def)
  let ?c = "len this = reserved this" and ?r = "wrap (reserved this * 4)"
  have r: "?r = reserved this * 4" if ?c using that h(1) small by simp
  obtain that t where t: "reserve_for ?c ?r this s = Some (that, t)"
      "vec_grown s v xs (if ?c then ?r else reserved this) (that, t)"
    using grow_works[OF ok tv(1), of ?c ?r] r h tv(2) by auto
  let ?R = "if ?c then ?r else reserved this"
  obtain junk where junk: "arrays t (arr that) = Some (map Some xs @ junk)" "?R = length xs + length junk"
      "len that = length xs" "vecs t = vecs s"
    using t(2) by (auto simp: vec_grown_def)
  have room: "length xs < ?R" using r h by auto
  then obtain j js where j: "junk = j # js" using junk(2) by (cases junk) auto
  let ?u = "put_vec v (that\<lparr>len := length xs + 1\<rparr>) (t\<lparr>arrays := (arrays t)(arr that \<mapsto> map Some (xs @ [x]) @ js)\<rparr>)"
  have "push_elem v x s = Some ?u"
    using tv(1) t(1) junk small j
    by (simp add: push_elem_def write_elem_def list_update_append put_vec_def)
  moreover have "vec_ok ?u \<and> vec_contents ?u = (vec_contents s)(v \<mapsto> xs @ [x])"
    by (rule grown_replace[OF ok t(2), where spare = js])
      (use junk j small room in \<open>simp_all add: put_vec_def\<close>)
  ultimately show ?thesis by blast
qed

lemma assign_vec_ok:
  assumes ok: "vec_ok s" and v: "vec_contents s v = Some xs" and w: "vec_contents s w = Some ys"
  shows "\<exists>u. assign_vec v w s = Some u \<and> vec_ok u \<and> vec_contents u = (vec_contents s)(v \<mapsto> ys)"
proof -
  obtain this where tv: "vecs s v = Some this" "elems s this = xs" using v by (auto simp: vec_contents_def)
  obtain other where other: "vecs s w = Some other" "elems s other = ys" using w by (auto simp: vec_contents_def)
  have h: "len this = length xs" "0 < reserved this" "length xs \<le> reserved this"
    using vec_okD(1)[OF ok tv(1)] tv(2) by (auto simp: holds_def)
  obtain oj where o: "len other = length ys" "arrays s (arr other) = Some (map Some ys @ oj)" "length ys < 2 ^ 30"
      "length ys \<le> reserved other"
    using vec_okD(1)[OF ok other(1)] other(2) by (auto simp: holds_def)
  let ?c = "reserved this < len other" and ?r = "wrap (len other * 4)"
  have r: "?r = length ys * 4" using o by simp
  obtain that t where t: "reserve_for ?c ?r this s = Some (that, t)"
      "vec_grown s v xs (if ?c then ?r else reserved this) (that, t)"
    using grow_works[OF ok tv(1), of ?c ?r] r h o tv(2) by auto
  let ?R = "if ?c then ?r else reserved this"
  obtain junk where junk: "\<And>a. arrays t a = (if a = arr that then Some (map Some xs @ junk)
        else if own_array s v a then None else arrays s a)" "?R = length xs + length junk"
      "len that = length xs" "vecs t = vecs s"
    using t(2) by (auto simp: vec_grown_def)
  have room: "length ys \<le> ?R" "0 < ?R" using r o h(2) by auto
  let ?cells = "map Some xs @ junk"
  obtain src where src: "vecs (put_vec v that t) w = Some src" "len src = length ys"
      "\<exists>cs. arrays t (arr src) = Some cs \<and> (\<forall>i < length ys. i < length cs \<and> cs ! i = Some (ys ! i))"
  proof (cases "w = v")
    case True
    then have "ys = xs" using v w by simp
    then show ?thesis using that[of that] True junk by (auto simp: put_vec_def nth_append)
  next
    case False
    have "arr other \<noteq> arr this" "arr other < next_array s"
      using vec_okD(2)[OF ok other(1)] vec_okD(4)[OF ok tv(1) other(1)] False by auto
    then have "arr other \<noteq> arr that" "\<not> own_array s v (arr other)"
      using t(2) own_array_iff[OF tv(1)] by (auto simp: vec_grown_def)
    then show ?thesis using that[of other] False other(1) junk o by (auto simp: put_vec_def nth_append)
  qed
  then obtain cs where cs: "arrays t (arr src) = Some cs" "\<And>i. i < length ys \<Longrightarrow> i < length cs \<and> cs ! i = Some (ys ! i)"
    by blast
  let ?t = "t\<lparr>arrays := (arrays t)(arr that \<mapsto> map Some ys @ drop (length ys) ?cells)\<rparr>"
  have "copy_elems (arr that) (arr src) 0 (length ys) t = Some ?t"
    using copy_elems_works[OF cs, of "arr that" ?cells 0] junk(1,2) room by simp
  then have "assign_vec v w s = Some (put_vec v (that\<lparr>len := length ys\<rparr>) ?t)"
    using tv(1) other(1) t(1) src(1,2) o(1) by (simp add: assign_vec_def)
  moreover have "vec_ok (put_vec v (that\<lparr>len := length ys\<rparr>) ?t) \<and>
      vec_contents (put_vec v (that\<lparr>len := length ys\<rparr>) ?t) = (vec_contents s)(v \<mapsto> ys)"
    by (rule grown_replace[OF ok t(2), where spare = "drop (length ys) ?cells"])
      (use junk room o(3) in \<open>auto simp: put_vec_def\<close>)
  ultimately show ?thesis by blast
qed

lemma plus_back_ok:
  assumes ok: "vec_ok s" and v: "vec_contents s v = Some xs" and w: "vec_contents s w = Some ys"
    and small: "length xs + length ys < 2 ^ 30"
  shows "\<exists>u. plus_back v w s = Some u \<and> vec_ok u \<and> vec_contents u = (vec_contents s)(v \<mapsto> xs @ ys)"
proof -
  obtain this where tv: "vecs s v = Some this" "elems s this = xs" using v by (auto simp: vec_contents_def)
  obtain other where other: "vecs s w = Some other" "elems s other = ys" using w by (auto simp: vec_contents_def)
  have h: "len this = length xs" "0 < reserved this" "length xs \<le> reserved this"
    using vec_okD(1)[OF ok tv(1)] tv(2) by (auto simp: holds_def)
  obtain oj where o: "len other = length ys" "arrays s (arr other) = Some (map Some ys @ oj)"
    using vec_okD(1)[OF ok other(1)] other(2) by (auto simp: holds_def)
  let ?n = "length xs + length ys"
  let ?c = "reserved this < ?n" and ?r = "wrap (?n * 4)"
  have r: "?r = ?n * 4" "wrap (len this + len other) = ?n" using small h(1) o(1) by simp_all
  obtain that t where t: "reserve_for ?c ?r this s = Some (that, t)"
      "vec_grown s v xs (if ?c then ?r else reserved this) (that, t)"
    using grow_works[OF ok tv(1), of ?c ?r] r h tv(2) by auto
  let ?R = "if ?c then ?r else reserved this"
  obtain junk where junk: "\<And>a. arrays t a = (if a = arr that then Some (map Some xs @ junk)
        else if own_array s v a then None else arrays s a)" "?R = length xs + length junk"
      "len that = length xs" "vecs t = vecs s"
    using t(2) by (auto simp: vec_grown_def)
  have room: "?n \<le> ?R" "0 < ?R" using r h by auto
  let ?cells = "map Some xs @ junk"
  let ?t = "put_vec v that t"
  obtain src where src: "vecs ?t w = Some src"
      "\<exists>cs. arrays ?t (arr src) = Some cs \<and> (\<forall>i < length ys. i < length cs \<and> cs ! i = Some (ys ! i))"
      "arr src = arr that \<longrightarrow> length ys \<le> length xs"
  proof (cases "w = v")
    case True
    then have "ys = xs" using v w by simp
    then show ?thesis using that[of that] True junk by (auto simp: put_vec_def nth_append)
  next
    case False
    have "arr other \<noteq> arr this" "arr other < next_array s"
      using vec_okD(2)[OF ok other(1)] vec_okD(4)[OF ok tv(1) other(1)] False by auto
    then have "arr other \<noteq> arr that" "\<not> own_array s v (arr other)"
      using t(2) own_array_iff[OF tv(1)] by (auto simp: vec_grown_def)
    then show ?thesis using that[of other] False other(1) junk o by (auto simp: put_vec_def nth_append)
  qed
  then obtain cs where cs: "arrays ?t (arr src) = Some cs" "\<And>i. i < length ys \<Longrightarrow> i < length cs \<and> cs ! i = Some (ys ! i)"
    by blast
  let ?new = "map Some (xs @ ys) @ drop ?n ?cells"
  let ?u = "?t\<lparr>arrays := (arrays ?t)(arr that \<mapsto> ?new)\<rparr>"
  have "copy_elems (arr that) (arr src) (length xs) (length ys) ?t = Some ?u"
    using copy_elems_works[OF cs, of "arr that" ?cells "length xs"] junk(1,2) room(1) src(3)
    by (auto simp: put_vec_def)
  then have "plus_back v w s = Some (put_vec v (that\<lparr>len := ?n\<rparr>) ?u)"
    using tv(1) other(1) t(1) src(1) r junk(3) by (simp add: plus_back_def Let_def)
  moreover have "vec_ok (put_vec v (that\<lparr>len := ?n\<rparr>) ?u) \<and>
      vec_contents (put_vec v (that\<lparr>len := ?n\<rparr>) ?u) = (vec_contents s)(v \<mapsto> xs @ ys)"
    by (rule grown_replace[OF ok t(2), where spare = "drop ?n ?cells"])
      (use junk room small in \<open>auto simp: put_vec_def\<close>)
  ultimately show ?thesis by blast
qed

lemma shrink_ok:
  assumes ok: "vec_ok s" and v: "vecs s v = Some this" and n: "n \<le> length (elems s this)"
  shows "vec_ok (put_vec v (this\<lparr>len := n\<rparr>) s) \<and>
    vec_contents (put_vec v (this\<lparr>len := n\<rparr>) s) = (vec_contents s)(v \<mapsto> take n (elems s this))"
proof -
  let ?xs = "elems s this"
  obtain junk where h: "arrays s (arr this) = Some (map Some ?xs @ junk)" "reserved this = length ?xs + length junk"
      "0 < reserved this" "length ?xs < 2 ^ 30"
    using vec_okD(1)[OF ok v] by (auto simp: holds_def)
  have "map Some ?xs @ junk = map Some (take n ?xs) @ (map Some (drop n ?xs) @ junk)"
    by (simp flip: map_append append_assoc)
  then show ?thesis
    using ok vec_okD(2)[OF ok v] h n own_array_iff[OF v]
    by (intro replace_vec[where this' = "this\<lparr>len := n\<rparr>" and junk = "map Some (drop n ?xs) @ junk"])
      (auto simp: put_vec_def)
qed

lemma dtor_vec_ok:
  assumes ok: "vec_ok s" and v: "vecs s v = Some this"
  shows "\<exists>u. Numvec_dtor v s = Some u \<and> vec_ok u \<and> vec_contents u = (vec_contents s)(v := None)"
proof -
  have "arrays s (arr this) \<noteq> None" using vec_okD(1)[OF ok v] by (auto simp: holds_def)
  let ?u = "s\<lparr>arrays := (arrays s)(arr this := None), vecs := (vecs s)(v := None)\<rparr>"
  have other: "arr that \<noteq> arr this" if "w \<noteq> v" "vecs s w = Some that" for w that
    using vec_okD(4)[OF ok v that(2)] that(1) by auto
  have keep: "holds ?u that ys \<longleftrightarrow> holds s that ys" "elems ?u that = elems s that"
    if "w \<noteq> v" "vecs s w = Some that" for w that ys
    using other[OF that] by (simp_all add: holds_def elems_def)
  have "\<exists>ys. holds ?u that ys" if "vecs ?u w = Some that" for w that
    using that keep(1)[of w that] vec_okD(1)[OF ok, of w that] by (auto split: if_splits)
  moreover have "x = y" if "vecs ?u x = Some a" "vecs ?u y = Some b" "arr a = arr b" for x y a b
    using that vec_okD(4)[OF ok, of y b x a] by (auto split: if_splits)
  moreover have "arrays ?u b \<noteq> None \<longleftrightarrow> (\<exists>w that. vecs ?u w = Some that \<and> arr that = b)" for b
  proof -
    have "arrays s b \<noteq> None \<longleftrightarrow> (\<exists>w that. vecs s w = Some that \<and> arr that = b)"
      using ok unfolding vec_ok_def by blast
    then show ?thesis using other v by (cases "b = arr this") (auto, (metis option.inject)+)
  qed
  moreover have "b < next_array ?u" if "arrays ?u b \<noteq> None" for b
    using that ok unfolding vec_ok_def by (auto split: if_splits)
  ultimately have "vec_ok ?u" unfolding vec_ok_def by blast
  moreover have "vec_contents ?u = (vec_contents s)(v := None)"
    using keep(2) by (auto simp: vec_contents_def fun_eq_iff map_option_case split: option.splits)
  ultimately show ?thesis using v \<open>arrays s (arr this) \<noteq> None\<close> by (auto simp: Numvec_dtor_def delete_array_def)
qed

subsection \<open>Constructors\<close>

lemma store_upd_swap: "s\<lparr>next_array := n, arrays := f\<rparr> = s\<lparr>arrays := f, next_array := n\<rparr>"
  by (cases s) simp

lemma fresh_vec:
  assumes ok: "vec_ok s" and v: "vecs s v = None" and r: "0 < length xs + length junk" "length xs < 2 ^ 30"
  shows "vec_ok (put_vec v \<lparr>arr = next_array s, len = length xs, reserved = length xs + length junk\<rparr>
      (s\<lparr>arrays := (arrays s)(next_array s \<mapsto> map Some xs @ junk), next_array := next_array s + 1\<rparr>)) \<and>
    vec_contents (put_vec v \<lparr>arr = next_array s, len = length xs, reserved = length xs + length junk\<rparr>
      (s\<lparr>arrays := (arrays s)(next_array s \<mapsto> map Some xs @ junk), next_array := next_array s + 1\<rparr>)) =
    (vec_contents s)(v \<mapsto> xs)"
  by (rule replace_vec[OF ok, where this' = "\<lparr>arr = next_array s, len = length xs, reserved = length xs + length junk\<rparr>"
      and junk = junk])
    (use v r in \<open>auto simp: put_vec_def own_array_def\<close>)

lemma default_ok:
  "vec_ok s \<Longrightarrow> vecs s v = None \<Longrightarrow>
    vec_ok (Numvec_default v s) \<and> vec_contents (Numvec_default v s) = (vec_contents s)(v \<mapsto> [])"
  using fresh_vec[of s v "[]" "replicate DEFAULT_RESERVED None"]
  by (simp add: Numvec_default_def new_array_def Let_def DEFAULT_RESERVED_def)

lemma for_range_cong:
  "(\<And>i s. i \<in> set js \<Longrightarrow> f i s = g i s) \<Longrightarrow> for_range f js s = for_range g js s"
  by (induction js arbitrary: s) (auto intro!: Option.bind_cong)

lemma fill_elems_works:
  assumes "arrays s a = Some ds" "length xs \<le> length ds"
  shows "for_range (\<lambda>i. write_elem a i (xs ! i)) [0..<length xs] s =
    Some (s\<lparr>arrays := (arrays s)(a \<mapsto> map Some xs @ drop (length xs) ds)\<rparr>)"
proof -
  define now where "now i = map Some (take i xs) @ drop i ds" for i
  let ?I = "\<lambda>i t. t = s\<lparr>arrays := (arrays s)(a \<mapsto> now i)\<rparr>"
  have "\<exists>t. for_range (\<lambda>i. write_elem a i (xs ! i)) [0..<length xs] s = Some t \<and> ?I (length xs) t"
  proof (rule for_range_upt[where I = ?I])
    show "?I 0 s" using assms(1) by (simp add: now_def fun_upd_idem)
    fix i t assume i: "i < length xs" and t: "?I i t"
    have "drop i ds = ds ! i # drop (Suc i) ds" using i assms(2) Cons_nth_drop_Suc[of i ds] by simp
    then have "(now i)[i := Some (xs ! i)] = now (Suc i)"
      using i assms(2) by (simp add: now_def list_update_append take_Suc_conv_app_nth min_def)
    moreover have "length (now i) = length ds" using i assms(2) by (simp add: now_def)
    ultimately show "\<exists>u. write_elem a i (xs ! i) t = Some u \<and> ?I (Suc i) u"
      using t i assms(2) by (simp add: write_elem_def)
  qed simp
  then show ?thesis by (simp add: now_def)
qed

lemma sized_ok:
  assumes "vec_ok s" "vecs s v = None" "0 < n" "n < 2 ^ 30"
  shows "\<exists>u. Numvec_sized zero v n s = Some u \<and> vec_ok u \<and> vec_contents u = (vec_contents s)(v \<mapsto> replicate n zero)"
proof -
  let ?s = "s\<lparr>arrays := (arrays s)(next_array s \<mapsto> replicate (n * 4) None), next_array := next_array s + 1\<rparr>"
  have three: "n * 4 - n = 3 * n" by simp
  have loop: "for_range (\<lambda>i. write_elem (next_array s) i zero) [0..<n] ?s =
      for_range (\<lambda>i. write_elem (next_array s) i (replicate n zero ! i)) [0..<n] ?s"
    by (rule for_range_cong) simp
  have "for_range (\<lambda>i. write_elem (next_array s) i zero) [0..<n] ?s =
      Some (?s\<lparr>arrays := (arrays ?s)(next_array s \<mapsto> map Some (replicate n zero) @ replicate (3 * n) None)\<rparr>)"
    unfolding loop
    using three fill_elems_works[of ?s "next_array s" "replicate (n * 4) None" "replicate n zero"] by simp
  then show ?thesis
    using fresh_vec[OF assms(1,2), of "replicate n zero" "replicate (3 * n) None"] assms(3,4)
    by (simp add: Numvec_sized_def new_array_def Let_def store_upd_swap mult.commute[of n 4])
qed

lemma copy_vec_ok:
  assumes ok: "vec_ok s" and v: "vecs s v = None" and w: "vec_contents s w = Some ys"
  shows "\<exists>u. Numvec_copy v w s = Some u \<and> vec_ok u \<and> vec_contents u = (vec_contents s)(v \<mapsto> ys)"
proof -
  obtain other where other: "vecs s w = Some other" "elems s other = ys" using w by (auto simp: vec_contents_def)
  obtain oj where o: "len other = length ys" "arrays s (arr other) = Some (map Some ys @ oj)" "length ys < 2 ^ 30"
      "reserved other = length ys + length oj" "0 < reserved other"
    using vec_okD(1)[OF ok other(1)] other(2) by (auto simp: holds_def)
  have ne: "arr other \<noteq> next_array s" using vec_okD(2)[OF ok other(1)] by simp
  let ?s = "s\<lparr>arrays := (arrays s)(next_array s \<mapsto> replicate (reserved other) None), next_array := next_array s + 1\<rparr>"
  have "copy_elems (next_array s) (arr other) 0 (length ys) ?s =
      Some (?s\<lparr>arrays := (arrays ?s)(next_array s \<mapsto> map Some ys @ replicate (length oj) None)\<rparr>)"
    using copy_elems_works[of ?s "arr other" "map Some ys @ oj" ys "next_array s" "replicate (reserved other) None" 0]
      o ne by (simp add: nth_append)
  then show ?thesis
    using fresh_vec[OF ok v, of ys "replicate (length oj) None"] o other(1)
    by (simp add: Numvec_copy_def new_array_def Let_def store_upd_swap)
qed

subsection \<open>The members implement the lists\<close>

lemma wrap_pred: "0 < n \<Longrightarrow> n < 2 ^ 30 \<Longrightarrow> wrap (n + (2 ^ 32 - 1)) = n - 1"
proof -
  assume n: "0 < n" "n < 2 ^ 30"
  then have "n + (2 ^ 32 - 1) = (n - 1) + 2 ^ 32" by simp
  then show ?thesis using n(2) unfolding wrap_def by (simp only: mod_add_self2) (simp add: less_imp_diff_less)
qed

lemma vec_command_step:
  assumes ok: "vec_ok s" and legal: "vec_legal cmd (vec_contents s)"
  shows "\<exists>t. run_vec zero cmd s = Some t \<and> vec_ok t \<and> vec_contents t = vec_meaning zero cmd (vec_contents s)"
proof (cases cmd)
  case (Default v)
  then show ?thesis
    using default_ok[OF ok, of v] legal by (auto simp: run_vec_def vec_meaning_def vec_legal_def vec_contents_def)
next
  case (Sized v n)
  then show ?thesis
    using sized_ok[OF ok, of v n zero] legal by (auto simp: run_vec_def vec_meaning_def vec_legal_def vec_contents_def)
next
  case (Copy v w)
  then obtain ys where "vec_contents s w = Some ys" "vecs s v = None"
    using legal by (auto simp: vec_legal_def vec_contents_def)
  then show ?thesis using copy_vec_ok[OF ok, of v w ys] Copy by (auto simp: run_vec_def vec_meaning_def)
next
  case (Assign v w)
  then obtain xs ys where "vec_contents s v = Some xs" "vec_contents s w = Some ys"
    using legal by (auto simp: vec_legal_def)
  then show ?thesis using assign_vec_ok[OF ok, of v xs w ys] Assign by (auto simp: run_vec_def vec_meaning_def)
next
  case (Push v x)
  then obtain xs where "vec_contents s v = Some xs" "length xs < 2 ^ 30 - 1" using legal by (auto simp: vec_legal_def)
  then show ?thesis using push_elem_ok[OF ok, of v xs x] Push by (auto simp: run_vec_def vec_meaning_def)
next
  case (Append v w)
  then obtain xs ys where "vec_contents s v = Some xs" "vec_contents s w = Some ys" "length xs + length ys < 2 ^ 30"
    using legal by (auto simp: vec_legal_def)
  then show ?thesis using plus_back_ok[OF ok, of v xs w ys] Append by (auto simp: run_vec_def vec_meaning_def)
next
  case (Pop v)
  then obtain this where v: "vecs s v = Some this" "elems s this \<noteq> []"
    using legal by (auto simp: vec_legal_def vec_contents_def)
  have len: "len this = length (elems s this)" "length (elems s this) < 2 ^ 30"
    using vec_okD(1)[OF ok v(1)] by (auto simp: holds_def)
  have "wrap (len this + (2 ^ 32 - 1)) = length (elems s this) - 1"
    using wrap_pred[of "length (elems s this)"] len v(2) by simp
  then show ?thesis
    using shrink_ok[OF ok v(1), of "length (elems s this) - 1"] Pop v vec_okD(3)[OF ok v(1)]
    by (auto simp: run_vec_def vec_meaning_def pop_elem_def butlast_conv_take)
next
  case (Clear v)
  then obtain this where v: "vecs s v = Some this" using legal by (auto simp: vec_legal_def vec_contents_def)
  then show ?thesis
    using shrink_ok[OF ok v, of 0] Clear by (auto simp: run_vec_def vec_meaning_def clear_vec_def)
next
  case (Destroy v)
  then obtain this where v: "vecs s v = Some this" using legal by (auto simp: vec_legal_def vec_contents_def)
  then show ?thesis using dtor_vec_ok[OF ok v] Destroy by (auto simp: run_vec_def vec_meaning_def)
qed

interpretation vectors: command_refinement "run_vec zero" "vec_meaning zero" vec_legal vec_ok vec_contents for zero
  by unfold_locales (rule vec_command_step)

lemma no_vecs_ok: "vec_ok no_vecs" "vec_contents no_vecs = (\<lambda>_. None)"
  by (auto simp: vec_ok_def no_vecs_def vec_contents_def)

text \<open>
  C8: a legal program on vectors runs without undefined behaviour: it creates, copies, assigns, appends and destroys
  vectors, and at its end every vector holds the list the program describes. Growth never loses an
  element, also when a vector is assigned or appended to itself, and the arrays alive are exactly those of the vectors alive.
\<close>

theorem vectors_hold_lists:
  assumes "legal_all (vec_meaning zero) vec_legal cmds (\<lambda>_. None)"
  shows "\<exists>s. run_all (run_vec zero) cmds no_vecs = Some s \<and>
    vec_contents s = spec_all (vec_meaning zero) cmds (\<lambda>_. None) \<and>
    (\<forall>a. arrays s a \<noteq> None \<longleftrightarrow> (\<exists>v this. vecs s v = Some this \<and> arr this = a))"
proof -
  obtain s where "run_all (run_vec zero) cmds no_vecs = Some s" "vec_ok s"
      "vec_contents s = spec_all (vec_meaning zero) cmds (\<lambda>_. None)"
    using vectors.program[of no_vecs zero cmds] assms by (auto simp: no_vecs_ok)
  moreover from \<open>vec_ok s\<close> have "\<forall>a. arrays s a \<noteq> None \<longleftrightarrow> (\<exists>v this. vecs s v = Some this \<and> arr this = a)"
    unfolding vec_ok_def by blast
  ultimately show ?thesis by blast
qed

lemma vectors_hold_lists_witness:
  "\<exists>s. run_all (run_vec (0::int)) [Sized 1 1, Push 1 5, Copy 2 1, Append 2 2, Pop 1, Assign 1 2, Destroy 2] no_vecs = Some s \<and>
    vec_contents s = [1 \<mapsto> [0, 5, 0, 5]]"
proof -
  have "legal_all (vec_meaning (0::int)) vec_legal [Sized 1 1, Push 1 5, Copy 2 1, Append 2 2, Pop 1, Assign 1 2, Destroy 2]
      (\<lambda>_. None)"
    by (simp add: vec_meaning_def vec_legal_def)
  from vectors_hold_lists[OF this] show ?thesis by (simp add: vec_meaning_def) blast
qed

subsection \<open>Reading\<close>

lemma equal_elems_compares:
  assumes "arrays s p = Some (map Some xs @ j)" "arrays s a = Some (map Some ys @ k)" "length xs = length ys"
  shows "set is \<subseteq> {..<length xs} \<Longrightarrow> equal_elems p a is s = Some (\<forall>i \<in> set is. xs ! i = ys ! i)"
  using assms by (induction "is") (auto simp: read_elem_def nth_append)

lemma vec_reads:
  assumes ok: "vec_ok s" and v: "vec_contents s v = Some xs"
  shows "vec_contents s w = Some ys \<Longrightarrow> equal_vecs v w s = Some (xs = ys)"
    and "vec_at v n s = Some (if n < length xs then Inr (xs ! n) else Inl ())"
    and "xs \<noteq> [] \<Longrightarrow> vec_back v s = Some (last xs)"
    and "is_empty v s = Some (xs = [])"
proof -
  obtain this where this_vec: "vecs s v = Some this" "elems s this = xs" using v by (auto simp: vec_contents_def)
  obtain j where j: "arrays s (arr this) = Some (map Some xs @ j)" "len this = length xs" "length xs < 2 ^ 30"
    using vec_okD(1)[OF ok this_vec(1)] this_vec(2) by (auto simp: holds_def)
  show "equal_vecs v w s = Some (xs = ys)" if w: "vec_contents s w = Some ys"
  proof -
    obtain other where other: "vecs s w = Some other" "elems s other = ys" using w by (auto simp: vec_contents_def)
    obtain k where k: "arrays s (arr other) = Some (map Some ys @ k)" "len other = length ys"
      using vec_okD(1)[OF ok other(1)] other(2) by (auto simp: holds_def)
    have "equal_elems (arr other) (arr this) [0..<length xs] s = Some (xs = ys)" if "length xs = length ys"
    proof -
      have "(xs = ys) = (\<forall>i \<in> set [0..<length xs]. ys ! i = xs ! i)" using that
        by (simp only: list_eq_iff_nth_eq[of xs ys] set_upt) (metis atLeastLessThan_iff le0)
      moreover have "set [0..<length xs] \<subseteq> {..<length ys}" using that by auto
      ultimately show ?thesis using equal_elems_compares[OF k(1) j(1) that[symmetric]] by simp
    qed
    then show ?thesis using this_vec(1) other(1) j(2) k(2) by (cases "length xs = length ys") (auto simp: equal_vecs_def)
  qed
  show "vec_at v n s = Some (if n < length xs then Inr (xs ! n) else Inl ())"
    using this_vec(1) j(1,2) by (simp add: vec_at_def read_elem_def nth_append)
  show "vec_back v s = Some (last xs)" if "xs \<noteq> []"
  proof -
    have "wrap (len this + (2 ^ 32 - 1)) = length xs - 1" using wrap_pred[of "length xs"] j(2,3) that by simp
    moreover have "length xs - 1 < length xs" using that by simp
    ultimately show ?thesis using this_vec(1) j(1) that
      by (simp add: vec_back_def read_elem_def nth_append last_conv_nth trans_less_add1)
  qed
  show "is_empty v s = Some (xs = [])" using this_vec(1) j(2) by (simp add: is_empty_def)
qed

subsection \<open>Members that fail\<close>

lemma write_past_end:
  "arrays s a = Some cells \<Longrightarrow> \<exists>i \<in> set is. length cells \<le> i \<Longrightarrow> for_range (\<lambda>i. write_elem a i (f i)) is s = None"
proof (induction "is" arbitrary: s cells)
  case (Cons i js)
  show ?case
  proof (cases "i < length cells")
    case True
    let ?t = "s\<lparr>arrays := (arrays s)(a \<mapsto> cells[i := Some (f i)])\<rparr>"
    have "for_range (\<lambda>i. write_elem a i (f i)) js ?t = None"
      using Cons.prems True by (intro Cons.IH[where cells = "cells[i := Some (f i)]"]) auto
    moreover have "write_elem a i (f i) s = Some ?t" using Cons.prems(1) True by (simp add: write_elem_def)
    ultimately show ?thesis by simp
  qed (use Cons.prems(1) in \<open>simp add: write_elem_def\<close>)
qed simp

text \<open>
  Three ways to undefined behaviour in ordinary use of the class: a vector created with size 0 has no storage and never grows, so
  the first element pushed is written outside its array; after a move both vectors own one array, and the
  second destructor deletes it again; and the constructor from a list allocates before it has set the
  capacity, so that a small value found in the uninitialised member makes it write outside the array.
\<close>

theorem vectors_undefined:
  "run_all (run_vec zero) [Sized v 0, Push v x] no_vecs = None"
  "v \<noteq> w \<Longrightarrow> Option.bind (Numvec_move w v (Numvec_default v no_vecs)) (run_all (run_vec zero) [Destroy v, Destroy w]) = None"
  "garbage < length xs \<Longrightarrow> Numvec_list garbage v xs no_vecs = None"
proof -
  show "run_all (run_vec zero) [Sized v 0, Push v x] no_vecs = None"
    by (simp add: run_vec_def Numvec_sized_def new_array_def no_vecs_def put_vec_def wrap_def push_elem_def
      reserve_for_def reallocate_def copy_elems_def delete_array_def write_elem_def Let_def)
  show "Option.bind (Numvec_move w v (Numvec_default v no_vecs)) (run_all (run_vec zero) [Destroy v, Destroy w]) = None"
    if "v \<noteq> w"
    using that by (simp add: run_vec_def Numvec_move_def Numvec_default_def new_array_def no_vecs_def put_vec_def
      Numvec_dtor_def delete_array_def Let_def)
  show "Numvec_list garbage v xs no_vecs = None" if "garbage < length xs"
    using that write_past_end[of "no_vecs\<lparr>arrays := [0 \<mapsto> replicate garbage None], next_array := 1\<rparr>" 0 "replicate garbage None" "[0..<length xs]" "\<lambda>i. xs ! i"]
    by (force simp: Numvec_list_def new_array_def no_vecs_def Let_def)
qed

end
