(* ===== verification/Common_Subsequence.thy ===== *)
theory Common_Subsequence
  imports Prelude "HOL-Library.Sublist"
begin

text \<open>
  The length of a longest common subsequence, \<^verbatim>\<open>2022-05-22-longest-common-subsequence/lcs.cpp\<close>. The table \<open>dp\<close> is
  the array as it lies in memory, row after row, with cells that may be unwritten; \<open>None\<close> is an access
  outside this memory or the use of an unwritten cell. The loop that clears the first row
  runs to the length of the first argument: an index behind the row is taken as the cell it is in memory.
\<close>

subsection \<open>The program\<close>

type_synonym dp_table = "int option list"

definition cell :: "nat \<Rightarrow> nat \<Rightarrow> nat \<Rightarrow> nat" where
  "cell substr_len i j = i * (substr_len + 1) + j"

definition write_cell :: "nat \<Rightarrow> int \<Rightarrow> dp_table \<Rightarrow> dp_table option" where
  "write_cell k x dp = (if k < length dp then Some (dp[k := Some x]) else None)"

definition read_cell :: "nat \<Rightarrow> dp_table \<Rightarrow> int option" where
  "read_cell k dp = (if k < length dp then dp ! k else None)"

definition clear_column :: "nat \<Rightarrow> nat \<Rightarrow> dp_table \<Rightarrow> dp_table option" where
  "clear_column string_len substr_len = for_range (\<lambda>i. write_cell (cell substr_len i 0) 0) [0..<string_len + 1]"

definition clear_row :: "nat \<Rightarrow> nat \<Rightarrow> dp_table \<Rightarrow> dp_table option" where
  "clear_row string_len substr_len = for_range (\<lambda>j. write_cell (cell substr_len 0 j) 0) [0..<string_len + 1]"

definition fill_cell :: "string \<Rightarrow> string \<Rightarrow> nat \<Rightarrow> nat \<Rightarrow> dp_table \<Rightarrow> dp_table option" where
  "fill_cell string substring i j dp = (let c = cell (length substring) in
     if string ! (i - 1) = substring ! (j - 1)
     then do { x \<leftarrow> read_cell (c (i - 1) (j - 1)) dp; write_cell (c i j) (x + 1) dp }
     else do { x \<leftarrow> read_cell (c i (j - 1)) dp; y \<leftarrow> read_cell (c (i - 1) j) dp; write_cell (c i j) (max x y) dp })"

definition fill_row :: "string \<Rightarrow> string \<Rightarrow> nat \<Rightarrow> dp_table \<Rightarrow> dp_table option" where
  "fill_row string substring i = for_range (fill_cell string substring i) [1..<length substring + 1]"

definition compute_longest_common_subsequence :: "string \<Rightarrow> string \<Rightarrow> int option" where
  "compute_longest_common_subsequence string substring = (let n = length string; m = length substring in do {
     dp \<leftarrow> clear_column n m (replicate ((n + 1) * (m + 1)) None);
     dp \<leftarrow> clear_row n m dp;
     dp \<leftarrow> for_range (fill_row string substring) [1..<n + 1] dp;
     read_cell (cell m n m) dp })"

definition lcs_main :: "int option" where
  "lcs_main = compute_longest_common_subsequence ''marcinjestsuper'' ''mister''"

subsection \<open>Longest common subsequences\<close>

fun lcs_length :: "'a list \<Rightarrow> 'a list \<Rightarrow> nat \<Rightarrow> nat \<Rightarrow> int" where
  "lcs_length xs ys 0 j = 0"
| "lcs_length xs ys i 0 = 0"
| "lcs_length xs ys (Suc i) (Suc j) = (if xs ! i = ys ! j then lcs_length xs ys i j + 1
     else max (lcs_length xs ys (Suc i) j) (lcs_length xs ys i (Suc j)))"

definition common :: "'a list \<Rightarrow> 'a list \<Rightarrow> 'a list \<Rightarrow> bool" where
  "common xs ys zs \<longleftrightarrow> subseq zs xs \<and> subseq zs ys"

definition longest_common :: "'a list \<Rightarrow> 'a list \<Rightarrow> int \<Rightarrow> bool" where
  "longest_common xs ys n \<longleftrightarrow> (\<exists>zs. common xs ys zs \<and> int (length zs) = n) \<and>
     (\<forall>zs. common xs ys zs \<longrightarrow> int (length zs) \<le> n)"

lemma subseq_snoc_iff:
  "subseq zs (xs @ [x]) \<longleftrightarrow> subseq zs xs \<or> (\<exists>us. zs = us @ [x] \<and> subseq us xs)"
proof -
  have "subseq us [x] \<longleftrightarrow> us = [] \<or> us = [x]" for us
    by (cases us) (auto split: if_splits)
  then have "subseq zs (xs @ [x]) \<longleftrightarrow> (\<exists>us vs. zs = us @ vs \<and> subseq us xs \<and> (vs = [] \<or> vs = [x]))"
    using subseq_append_iff[of zs xs "[x]"] by simp
  then show ?thesis by auto
qed

lemma subseq_shorten: "subseq (us @ [u]) (xs @ [x]) \<Longrightarrow> subseq us xs"
  using subseq_order.trans[OF subseq_rev_drop_many[OF subseq_order.refl]] by (auto simp: subseq_snoc_iff)

lemma longest_common_equal:
  assumes "longest_common xs ys n"
  shows "longest_common (xs @ [x]) (ys @ [x]) (n + 1)"
proof -
  obtain zs where zs: "common xs ys zs" "int (length zs) = n" and
    best: "\<And>us. common xs ys us \<Longrightarrow> int (length us) \<le> n"
    using assms by (auto simp: longest_common_def)
  have "common (xs @ [x]) (ys @ [x]) (zs @ [x])" using zs(1) by (simp add: common_def)
  moreover have "int (length us) \<le> n + 1" if u: "common (xs @ [x]) (ys @ [x]) us" for us
  proof (cases us rule: rev_cases)
    case (snoc vs v)
    have "subseq vs xs" "subseq vs ys" using u snoc by (auto simp: common_def dest: subseq_shorten)
    then show ?thesis using best[of vs] snoc by (simp add: common_def)
  qed (use best[of "[]"] in \<open>simp add: common_def\<close>)
  moreover have "int (length (zs @ [x])) = n + 1" using zs(2) by simp
  ultimately show ?thesis unfolding longest_common_def by blast
qed

lemma longest_common_differ:
  assumes "x \<noteq> y" "longest_common (xs @ [x]) ys m" "longest_common xs (ys @ [y]) n"
  shows "longest_common (xs @ [x]) (ys @ [y]) (max m n)"
proof -
  have "common (xs @ [x]) (ys @ [y]) zs \<longleftrightarrow> common (xs @ [x]) ys zs \<or> common xs (ys @ [y]) zs" for zs
    using assms(1) by (auto simp: common_def subseq_snoc_iff)
  then show ?thesis
    using assms(2,3) unfolding longest_common_def by (auto simp: max_def)
qed

lemma longest_common_Nil: "longest_common [] ys 0" "longest_common xs [] 0"
  by (auto simp: longest_common_def common_def)

lemma lcs_length_longest:
  "i \<le> length xs \<Longrightarrow> j \<le> length ys \<Longrightarrow> longest_common (take i xs) (take j ys) (lcs_length xs ys i j)"
proof (induction xs ys i j rule: lcs_length.induct)
  case (3 xs ys i j)
  then show ?case
    by (auto simp: take_Suc_conv_app_nth intro: longest_common_equal longest_common_differ)
qed (simp_all add: longest_common_Nil)

subsection \<open>The table\<close>

lemma cell_less: "i \<le> n \<Longrightarrow> j \<le> m \<Longrightarrow> cell m i j < (n + 1) * (m + 1)"
proof -
  assume "i \<le> n" "j \<le> m"
  then have "cell m i j < (i + 1) * (m + 1)" by (simp add: cell_def)
  also have "\<dots> \<le> (n + 1) * (m + 1)" using \<open>i \<le> n\<close> by (intro mult_le_mono1) simp
  finally show ?thesis .
qed

lemma row_column: "j < (w::nat) \<Longrightarrow> (i * w + j) div w = i" "j < w \<Longrightarrow> (i * w + j) mod w = j"
  by simp_all

lemma cell_inject: "j \<le> m \<Longrightarrow> l \<le> m \<Longrightarrow> cell m i j = cell m k l \<longleftrightarrow> i = k \<and> j = l"
proof
  assume "j \<le> m" "l \<le> m" and eq: "cell m i j = cell m k l"
  have "cell m i j div (m + 1) = i" "cell m i j mod (m + 1) = j" "cell m k l div (m + 1) = k" "cell m k l mod (m + 1) = l"
    unfolding cell_def using \<open>j \<le> m\<close> \<open>l \<le> m\<close> by (intro row_column; simp)+
  then show "i = k \<and> j = l" using eq by metis
qed simp

definition rows_done :: "string \<Rightarrow> string \<Rightarrow> nat \<Rightarrow> dp_table \<Rightarrow> bool" where
  "rows_done xs ys i dp \<longleftrightarrow> (let n = length xs; m = length ys in length dp = (n + 1) * (m + 1) \<and>
     (\<forall>k \<le> n. dp ! cell m k 0 = Some 0) \<and> (\<forall>k < i. \<forall>l \<le> m. dp ! cell m k l = Some (lcs_length xs ys k l)))"

definition cells_done :: "string \<Rightarrow> string \<Rightarrow> nat \<Rightarrow> nat \<Rightarrow> dp_table \<Rightarrow> bool" where
  "cells_done xs ys i j dp \<longleftrightarrow> rows_done xs ys i dp \<and>
     (\<forall>l < j. dp ! cell (length ys) i l = Some (lcs_length xs ys i l))"

lemma lcs_length_0 [simp]: "lcs_length xs ys i 0 = 0"
  by (cases i) simp_all

lemma clear_column_done:
  "\<exists>dp. clear_column n m (replicate ((n + 1) * (m + 1)) None) = Some dp \<and> length dp = (n + 1) * (m + 1) \<and>
     (\<forall>k \<le> n. dp ! cell m k 0 = Some 0)"
proof -
  let ?I = "\<lambda>i dp. length dp = (n + 1) * (m + 1) \<and> (\<forall>k < i. dp ! cell m k 0 = Some (0 :: int))"
  have "\<exists>dp. clear_column n m (replicate ((n + 1) * (m + 1)) None) = Some dp \<and> ?I (n + 1) dp"
    unfolding clear_column_def
  proof (rule for_range_upt[where I = ?I])
    fix i dp assume "i < n + 1" "?I i dp"
    then show "\<exists>u. write_cell (cell m i 0) 0 dp = Some u \<and> ?I (Suc i) u"
      using cell_less[of i n 0 m] by (auto simp: write_cell_def nth_list_update cell_inject less_Suc_eq)
  qed simp_all
  then show ?thesis by (auto simp: less_Suc_eq_le)
qed

lemma clear_row_done:
  assumes "length dp = (n + 1) * (m + 1)" "\<forall>k \<le> n. dp ! cell m k 0 = Some 0"
  shows "\<exists>dp'. clear_row n m dp = Some dp' \<and> length dp' = (n + 1) * (m + 1) \<and>
     (\<forall>k \<le> n. dp' ! cell m k 0 = Some 0) \<and> (\<forall>j \<le> n. dp' ! cell m 0 j = Some 0) \<and>
     (\<forall>j. n < j \<and> j \<le> m \<longrightarrow> dp' ! cell m 0 j = dp ! cell m 0 j)"
proof -
  let ?I = "\<lambda>i dp'. length dp' = (n + 1) * (m + 1) \<and> (\<forall>k \<le> n. dp' ! cell m k 0 = Some (0 :: int)) \<and>
     (\<forall>j < i. dp' ! cell m 0 j = Some 0) \<and> (\<forall>j. n < j \<and> j \<le> m \<longrightarrow> dp' ! cell m 0 j = dp ! cell m 0 j)"
  have "\<exists>dp'. clear_row n m dp = Some dp' \<and> ?I (n + 1) dp'"
    unfolding clear_row_def
  proof (rule for_range_upt[where I = ?I])
    fix i dp' assume i: "i < n + 1" and I: "?I i dp'"
    have "cell m 0 i < (n + 1) * (m + 1)" using i by (simp add: cell_def)
    then show "\<exists>u. write_cell (cell m 0 i) 0 dp' = Some u \<and> ?I (Suc i) u"
      using I i by (auto simp: write_cell_def nth_list_update less_Suc_eq) (simp_all add: cell_def)
  qed (use assms in simp_all)
  then show ?thesis by (auto simp: less_Suc_eq_le)
qed

lemma fill_cell_done:
  assumes "cells_done xs ys i j dp" "1 \<le> i" "i \<le> length xs" "1 \<le> j" "j \<le> length ys"
  shows "\<exists>dp'. fill_cell xs ys i j dp = Some dp' \<and> cells_done xs ys i (Suc j) dp'"
proof -
  let ?m = "length ys" and ?L = "lcs_length xs ys"
  have len: "length dp = (length xs + 1) * (?m + 1)" using assms(1) by (simp add: cells_done_def rows_done_def Let_def)
  have rows: "\<And>k l. k < i \<Longrightarrow> l \<le> ?m \<Longrightarrow> read_cell (cell ?m k l) dp = Some (?L k l)"
    using assms(1,3) cell_less len by (simp add: cells_done_def rows_done_def Let_def read_cell_def)
  have row: "\<And>l. l < j \<Longrightarrow> read_cell (cell ?m i l) dp = Some (?L i l)"
    using assms(1,3,5) cell_less len by (simp add: cells_done_def rows_done_def Let_def read_cell_def)
  obtain i' j' where ij: "i = Suc i'" "j = Suc j'" using assms(2,4) by (cases i; cases j) auto
  have "fill_cell xs ys i j dp = write_cell (cell ?m i j) (?L i j) dp"
    using rows[of i' j'] rows[of i' j] row[of j'] assms(3,5) ij by (simp add: fill_cell_def Let_def)
  also have "\<dots> = Some (dp[cell ?m i j := Some (?L i j)])"
    using cell_less[OF assms(3,5)] len by (simp add: write_cell_def)
  finally have fill: "fill_cell xs ys i j dp = Some (dp[cell ?m i j := Some (?L i j)])" .
  have nth: "dp[cell ?m i j := Some (?L i j)] ! cell ?m k l = (if k = i \<and> l = j then Some (?L i j) else dp ! cell ?m k l)"
    if "l \<le> ?m" for k l
    using cell_less[OF assms(3,5)] len cell_inject[OF that assms(5), of k i]
    by (simp add: nth_list_update) metis
  show ?thesis
    using assms nth by (simp add: fill cells_done_def rows_done_def Let_def less_Suc_eq)
qed

lemma fill_row_done:
  assumes "rows_done xs ys i dp" "1 \<le> i" "i \<le> length xs"
  shows "\<exists>dp'. fill_row xs ys i dp = Some dp' \<and> rows_done xs ys (Suc i) dp'"
proof -
  have "\<exists>dp'. fill_row xs ys i dp = Some dp' \<and> cells_done xs ys i (length ys + 1) dp'"
    unfolding fill_row_def
  proof (rule for_range_upt[where I = "cells_done xs ys i"])
    show "cells_done xs ys i 1 dp" using assms by (simp add: cells_done_def rows_done_def Let_def)
  qed (use fill_cell_done assms(2,3) in simp_all)
  then show ?thesis
    by (auto simp: cells_done_def rows_done_def Let_def less_Suc_eq[of _ i] less_Suc_eq_le[of _ "length ys"])
qed

text \<open>C13: If the second argument is not longer than the first, the function returns, and its result is the
  largest length of a common subsequence of the two strings.\<close>

theorem compute_lcs_correct:
  assumes "length substring \<le> length string"
  shows "\<exists>r. compute_longest_common_subsequence string substring = Some r \<and> longest_common string substring r"
proof -
  let ?n = "length string" and ?m = "length substring"
  obtain dp1 where dp1: "clear_column ?n ?m (replicate ((?n + 1) * (?m + 1)) None) = Some dp1"
      "length dp1 = (?n + 1) * (?m + 1)" "\<forall>k \<le> ?n. dp1 ! cell ?m k 0 = Some 0"
    using clear_column_done by blast
  obtain dp2 where dp2: "clear_row ?n ?m dp1 = Some dp2" "length dp2 = (?n + 1) * (?m + 1)"
      "\<forall>k \<le> ?n. dp2 ! cell ?m k 0 = Some 0" "\<forall>j \<le> ?n. dp2 ! cell ?m 0 j = Some 0"
    using clear_row_done[OF dp1(2,3)] by blast
  have "rows_done string substring 1 dp2" using dp2 assms by (simp add: rows_done_def Let_def)
  then obtain dp3 where dp3: "for_range (fill_row string substring) [1..<?n + 1] dp2 = Some dp3"
      "rows_done string substring (?n + 1) dp3"
    using for_range_upt[where I = "rows_done string substring" and a = 1 and b = "?n + 1" and s = dp2
        and body = "fill_row string substring"] fill_row_done by auto
  have "compute_longest_common_subsequence string substring = Some (lcs_length string substring ?n ?m)"
    using dp1(1) dp2(1) dp3 cell_less[of ?n ?n ?m ?m]
    by (simp add: compute_longest_common_subsequence_def Let_def read_cell_def rows_done_def)
  moreover have "longest_common string substring (lcs_length string substring ?n ?m)"
    using lcs_length_longest[of ?n string ?m substring] by simp
  ultimately show ?thesis by blast
qed

theorem compute_lcs_correct_witness:
  "\<exists>r. compute_longest_common_subsequence ''abcbd'' ''bd'' = Some r \<and> longest_common ''abcbd'' ''bd'' r"
  by (rule compute_lcs_correct) simp

subsection \<open>A second argument that is too long\<close>

definition unwritten :: "nat \<Rightarrow> nat \<Rightarrow> dp_table \<Rightarrow> bool" where
  "unwritten n m dp \<longleftrightarrow> (\<forall>j. n < j \<and> j \<le> m \<longrightarrow> read_cell (cell m 0 j) dp = None)"

lemma unwritten_fresh: "unwritten n m (replicate k None)"
  by (simp add: unwritten_def read_cell_def)

lemma read_write:
  "write_cell k x dp = Some dp' \<Longrightarrow> k \<noteq> l \<Longrightarrow> read_cell l dp' = read_cell l dp"
  by (auto simp: write_cell_def read_cell_def split: if_splits)

lemma fill_cell_unwritten:
  assumes "fill_cell xs ys (Suc i) j dp = Some dp'" "j \<le> length ys" "unwritten n (length ys) dp"
  shows "unwritten n (length ys) dp'"
proof -
  obtain x where w: "write_cell (cell (length ys) (Suc i) j) x dp = Some dp'"
    using assms(1) by (auto simp: fill_cell_def Let_def split: if_splits)
  have "read_cell (cell (length ys) 0 l) dp' = read_cell (cell (length ys) 0 l) dp" if "l \<le> length ys" for l
    using read_write[OF w] cell_inject[OF assms(2) that, of "Suc i" 0] by simp
  then show ?thesis using assms(3) by (simp add: unwritten_def)
qed

text \<open>If the second argument is longer than the first by more than one character, the function uses a cell of
  the first row that the loop over the length of the wrong string has not cleared.\<close>

theorem compute_lcs_reads_unwritten:
  assumes "length string + 1 < length substring"
  shows "compute_longest_common_subsequence string substring = None"
proof -
  let ?n = "length string" and ?m = "length substring"
  let ?dp0 = "replicate ((?n + 1) * (?m + 1)) None :: dp_table"
  have un: "unwritten ?n ?m dp2" if run: "Option.bind (clear_column ?n ?m ?dp0) (clear_row ?n ?m) = Some dp2" for dp2
  proof -
    obtain dp1 where dp1: "clear_column ?n ?m ?dp0 = Some dp1" "clear_row ?n ?m dp1 = Some dp2"
      using run unfolding bind_Some_iff by blast
    have un1: "unwritten ?n ?m dp1"
    proof (rule for_range_keeps[where I = "unwritten ?n ?m", OF dp1(1)[unfolded clear_column_def]])
      fix i dp dp' assume "write_cell (cell ?m i 0) 0 dp = Some dp'" "unwritten ?n ?m dp"
      then show "unwritten ?n ?m dp'"
        using read_write cell_inject[of 0 ?m _ i 0] by (fastforce simp: unwritten_def)
    qed (rule unwritten_fresh)
    show ?thesis
    proof (rule for_range_keeps[where I = "unwritten ?n ?m", OF dp1(2)[unfolded clear_row_def] un1])
      fix i dp dp' assume "i \<in> set [0..<?n + 1]" "write_cell (cell ?m 0 i) 0 dp = Some dp'" "unwritten ?n ?m dp"
      then show "unwritten ?n ?m dp'"
        using read_write by (fastforce simp: unwritten_def cell_def)
    qed
  qed
  have none: "for_range (fill_row string substring) [1..<?n + 1] dp2 \<bind> read_cell (cell ?m ?n ?m) = None"
    if u: "unwritten ?n ?m dp2" for dp2
  proof (cases ?n)
    case 0
    have "?n < ?m" using assms by simp
    then have "read_cell (cell ?m 0 ?m) dp2 = None" using u unfolding unwritten_def by blast
    then show ?thesis using 0 by simp
  next
    case (Suc n)
    have range: "[1..<?m + 1] = [1..<?n + 2] @ (?n + 2) # [Suc (?n + 2)..<?m + 1]"
      using assms by (intro upt_split) simp_all
    have "fill_row string substring 1 dp2 = None"
    proof (cases "for_range (fill_cell string substring 1) [1..<?n + 2] dp2")
      case (Some dp)
      have "unwritten ?n ?m dp"
      proof (rule for_range_keeps[where I = "unwritten ?n ?m", OF Some u])
        fix i s t assume "i \<in> set [1..<?n + 2]" "fill_cell string substring 1 i s = Some t" "unwritten ?n ?m s"
        moreover from this(1) have "i \<le> ?m" using assms unfolding set_upt atLeastLessThan_iff by linarith
        ultimately show "unwritten ?n ?m t" using fill_cell_unwritten[of string substring 0 i s t ?n] by simp
      qed
      then have "fill_cell string substring 1 (?n + 2) dp = None"
        using assms by (simp add: fill_cell_def Let_def unwritten_def del: One_nat_def)
      then show ?thesis unfolding fill_row_def range for_range_append using Some by simp
    qed (unfold fill_row_def range for_range_append, simp)
    moreover have "[1..<?n + 1] = 1 # [Suc 1..<?n + 1]" using Suc by (intro upt_conv_Cons) simp
    ultimately show ?thesis by simp
  qed
  have split: "compute_longest_common_subsequence string substring =
      Option.bind (Option.bind (clear_column ?n ?m ?dp0) (clear_row ?n ?m))
        (\<lambda>dp. for_range (fill_row string substring) [1..<?n + 1] dp \<bind> read_cell (cell ?m ?n ?m))"
    unfolding compute_longest_common_subsequence_def Let_def Option.bind_assoc ..
  show ?thesis
  proof (cases "Option.bind (clear_column ?n ?m ?dp0) (clear_row ?n ?m)")
    case None
    then show ?thesis by (simp only: split bind.bind_lzero)
  next
    case (Some dp2)
    then show ?thesis unfolding split using none[OF un[OF Some]] by (simp only: bind.bind_lunit)
  qed
qed

theorem compute_lcs_reads_unwritten_witness:
  "compute_longest_common_subsequence ''a'' ''abc'' = None"
  by (rule compute_lcs_reads_unwritten) simp

end
