(* ===== verification/Shell_Sort.thy ===== *)
theory Shell_Sort
  imports Prelude
begin

text \<open>
  The shell sorts of \<^verbatim>\<open>Sandbox/shell_sort.hpp\<close>: arrays of 64-bit words, the number of element moves, and
  four sequences of gaps. An access outside the array is \<open>None\<close>, and so is the conversion to an integer of the infinity
  that \<open>pow\<close> returns for large gaps. \<open>sort_assert\<close> ends the program unless the array is sorted.
\<close>

subsection \<open>The program\<close>

type_synonym sorter_state = "u64 list \<times> u64"

datatype outcome = Exit | Sorted u64 "u64 list"

definition sort_assert :: "u64 list \<Rightarrow> bool" where
  "sort_assert array \<longleftrightarrow> sorted array"

definition array_at :: "u64 list \<Rightarrow> nat \<Rightarrow> u64 option" where
  "array_at array i = (if i < length array then Some (array ! i) else None)"

function shift_loop :: "nat \<Rightarrow> u64 \<Rightarrow> nat \<Rightarrow> sorter_state \<Rightarrow> (nat \<times> sorter_state) option" where
  "shift_loop gap temporary j (array, total_swaps) =
     (if gap \<le> j \<and> 0 < gap then do {
        x \<leftarrow> array_at array (j - gap);
        if temporary < x
        then shift_loop gap temporary (j - gap) (array[j := x], total_swaps + 1)
        else Some (j, array, total_swaps) }
      else Some (j, array, total_swaps))"
  by pat_completeness auto
termination
  by (relation "measure (\<lambda>(gap, t, j, s). j)") auto

definition gap_insert :: "nat \<Rightarrow> nat \<Rightarrow> sorter_state \<Rightarrow> sorter_state option" where
  "gap_insert gap i s = do {
     temporary \<leftarrow> array_at (fst s) i;
     (j, array, total_swaps) \<leftarrow> shift_loop gap temporary i s;
     Some (array[j := temporary], total_swaps + 1) }"

definition gap_pass :: "nat \<Rightarrow> nat \<Rightarrow> sorter_state \<Rightarrow> sorter_state option" where
  "gap_pass n gap s = for_range (gap_insert gap) [gap..<n] s"

function shell_gaps :: "nat \<Rightarrow> nat list" where
  "shell_gaps gap = (if 0 < gap then gap # shell_gaps (gap div 2) else [])"
  by pat_completeness auto
termination
  by (relation "measure id") auto

definition next_hibbard :: "nat \<Rightarrow> nat option" where
  "next_hibbard gap = (if gap \<le> 36 then Some (gap + (2 ^ gap - 1)) else None)"

definition next_sedgewick :: "nat \<Rightarrow> nat option" where
  "next_sedgewick gap = (if gap \<le> 9 then Some (gap + (4 ^ gap + 3 * 2 ^ (gap - 1) + 1)) else None)"

text \<open>The loops with growing gaps. The gaps are 1, 2, 5, 36, 68719476771 and 1, 9, 262922, so that the fuel of 6
  and 4 rounds is never used up.\<close>

primrec growing_passes :: "(nat \<Rightarrow> nat option) \<Rightarrow> nat \<Rightarrow> nat \<Rightarrow> nat \<Rightarrow> sorter_state \<Rightarrow> sorter_state option" where
  "growing_passes advance 0 n gap s = None"
| "growing_passes advance (Suc fuel) n gap s =
     (if gap < n then do {
        s \<leftarrow> gap_pass n gap s;
        gap \<leftarrow> advance gap;
        growing_passes advance fuel n gap s }
      else Some s)"

definition finish :: "sorter_state option \<Rightarrow> outcome option" where
  "finish r = map_option (\<lambda>(array, total_swaps). if sort_assert array then Sorted total_swaps array else Exit) r"

definition shell_sort_shell :: "u64 list \<Rightarrow> outcome option" where
  "shell_sort_shell array = (let n = length array in
     finish (for_range (gap_pass n) (shell_gaps (n div 2)) (array, 0)))"

definition shell_sort_hibbard :: "u64 list \<Rightarrow> outcome option" where
  "shell_sort_hibbard array = finish (growing_passes next_hibbard 6 (length array) 1 (array, 0))"

definition shell_sort_sedgewick :: "u64 list \<Rightarrow> outcome option" where
  "shell_sort_sedgewick array = finish (growing_passes next_sedgewick 4 (length array) 1 (array, 0))"

definition shell_sort_own_1 :: "u64 list \<Rightarrow> outcome option" where
  "shell_sort_own_1 array = (let n = length array in
     finish (for_range (gap_pass n) (rev [1..<n + 1]) (array, 0)))"

text \<open>The local variable \<open>digit\<close> is static: it is initialised by the first call and keeps its value between calls.\<close>

definition create_descending_order_range :: "nat \<Rightarrow> u64 option \<Rightarrow> u64 list \<times> u64 option" where
  "create_descending_order_range n static = (let digit = (case static of None \<Rightarrow> of_nat n - 1 | Some d \<Rightarrow> d) in
     (map (\<lambda>i. digit - of_nat i) [0..<n], Some (of_nat n - 1)))"

subsection \<open>A pass permutes the array\<close>

declare shift_loop.simps [simp del] shell_gaps.simps [simp del]

lemma shift_loop_cases:
  "\<not> (gap \<le> j \<and> 0 < gap) \<Longrightarrow> shift_loop gap t j (xs, c) = Some (j, xs, c)"
  "gap \<le> j \<Longrightarrow> 0 < gap \<Longrightarrow> j < length xs \<Longrightarrow> t < xs ! (j - gap) \<Longrightarrow>
     shift_loop gap t j (xs, c) = shift_loop gap t (j - gap) (xs[j := xs ! (j - gap)], c + 1)"
  "gap \<le> j \<Longrightarrow> j < length xs \<Longrightarrow> \<not> t < xs ! (j - gap) \<Longrightarrow> shift_loop gap t j (xs, c) = Some (j, xs, c)"
  by (subst shift_loop.simps, auto simp: array_at_def)+

lemma shift_loop_mset:
  "shift_loop gap t j (xs, c) = Some (k, ys, d) \<Longrightarrow> j < length xs \<Longrightarrow>
     k \<le> j \<and> length ys = length xs \<and> mset (ys[k := t]) = mset (xs[j := t])"
proof (induction j arbitrary: xs c rule: less_induct)
  case (less j)
  show ?case
  proof (cases "gap \<le> j \<and> 0 < gap \<and> t < xs ! (j - gap)")
    case True
    let ?x = "xs ! (j - gap)"
    have "shift_loop gap t (j - gap) (xs[j := ?x], c + 1) = Some (k, ys, d)"
      using less.prems True shift_loop_cases(2)[of gap j xs t c] by simp
    then have IH: "k \<le> j - gap" "length ys = length xs" "mset (ys[k := t]) = mset ((xs[j := ?x])[j - gap := t])"
      using less.IH[of "j - gap" "xs[j := ?x]" "c + 1"] True less.prems(2) by simp_all
    have "mset ((xs[j := t])[j := xs[j := t] ! (j - gap), j - gap := xs[j := t] ! j]) = mset (xs[j := t])"
      using less.prems(2) by (intro mset_swap) simp_all
    moreover have "j \<noteq> j - gap" using True by arith
    ultimately show ?thesis using IH True less.prems(2) by simp
  next
    case False
    then show ?thesis using less.prems shift_loop_cases(1,3)[of gap j] by fastforce
  qed
qed

lemma shift_loop_returns: "j < length xs \<Longrightarrow> \<exists>k ys d. shift_loop gap t j (xs, c) = Some (k, ys, d)"
proof (induction j arbitrary: xs c rule: less_induct)
  case (less j)
  show ?case
    using less.IH[of "j - gap" "xs[j := xs ! (j - gap)]" "c + 1"] less.prems
      shift_loop_cases(1)[of gap j t xs c] shift_loop_cases(2)[of gap j xs t c] shift_loop_cases(3)[of gap j xs t c]
    by (cases "gap \<le> j \<and> 0 < gap"; cases "t < xs ! (j - gap)") auto
qed

definition permutes :: "u64 list \<Rightarrow> sorter_state \<Rightarrow> bool" where
  "permutes xs s \<longleftrightarrow> length (fst s) = length xs \<and> mset (fst s) = mset xs"

lemma gap_insert_permutes:
  assumes "permutes xs s" "i < length xs"
  shows "\<exists>t. gap_insert gap i s = Some t \<and> permutes xs t"
proof -
  obtain ys c where s: "s = (ys, c)" by (cases s)
  have i: "i < length ys" using assms by (simp add: permutes_def s)
  obtain k zs d where l: "shift_loop gap (ys ! i) i (ys, c) = Some (k, zs, d)"
    using shift_loop_returns[OF i] by blast
  show ?thesis
    using shift_loop_mset[OF l i] l i assms(1) by (simp add: gap_insert_def s array_at_def permutes_def)
qed

lemma gap_pass_permutes:
  assumes "permutes xs s"
  shows "\<exists>t. gap_pass (length xs) gap s = Some t \<and> permutes xs t"
proof (cases "gap \<le> length xs")
  case True
  then show ?thesis unfolding gap_pass_def
    using for_range_upt[where I = "\<lambda>i. permutes xs" and a = gap and b = "length xs"] gap_insert_permutes assms
    by blast
qed (use assms in \<open>simp add: gap_pass_def\<close>)

subsection \<open>The pass with gap one sorts\<close>

text \<open>The element \<open>t\<close> is on its way down: the rest of the prefix is sorted, and what has been passed is greater.\<close>

definition descending_hole :: "nat \<Rightarrow> nat \<Rightarrow> u64 \<Rightarrow> u64 list \<Rightarrow> bool" where
  "descending_hole i j t xs \<longleftrightarrow> (\<forall>a b. a < b \<longrightarrow> b \<le> i \<longrightarrow> a \<noteq> j \<longrightarrow> b \<noteq> j \<longrightarrow> xs ! a \<le> xs ! b) \<and>
     (\<forall>b. j < b \<longrightarrow> b \<le> i \<longrightarrow> t < xs ! b)"

lemma hole_step:
  assumes "descending_hole i j t xs" "0 < j" "j \<le> i" "i < length xs" "t < xs ! (j - 1)"
  shows "descending_hole i (j - 1) t (xs[j := xs ! (j - 1)])"
proof -
  let ?ys = "xs[j := xs ! (j - 1)]"
  have old: "\<And>a b. a < b \<Longrightarrow> b \<le> i \<Longrightarrow> a \<noteq> j \<Longrightarrow> b \<noteq> j \<Longrightarrow> xs ! a \<le> xs ! b"
    and big: "\<And>b. j < b \<Longrightarrow> b \<le> i \<Longrightarrow> t < xs ! b"
    using assms(1) by (auto simp: descending_hole_def)
  have "?ys ! a \<le> ?ys ! b" if "a < b" "b \<le> i" "a \<noteq> j - 1" "b \<noteq> j - 1" for a b
  proof -
    consider "a = j" | "b = j" | "a \<noteq> j" "b \<noteq> j" by blast
    then show ?thesis
    proof cases
      case 1
      then show ?thesis using old[of "j - 1" b] that assms(2-4) by simp
    next
      case 2
      then show ?thesis using old[of a "j - 1"] that assms(2-4) by simp
    next
      case 3
      then show ?thesis using old that by simp
    qed
  qed
  moreover have "t < ?ys ! b" if "j - 1 < b" "b \<le> i" for b
    using that big[of b] assms(2-5) by (cases "b = j") auto
  ultimately show ?thesis by (simp add: descending_hole_def)
qed

lemma shift_loop_one:
  "shift_loop 1 t j (xs, c) = Some (k, ys, d) \<Longrightarrow> j \<le> i \<Longrightarrow> i < length xs \<Longrightarrow> descending_hole i j t xs \<Longrightarrow>
     k \<le> i \<and> length ys = length xs \<and> descending_hole i k t ys \<and> (0 < k \<longrightarrow> ys ! (k - 1) \<le> t)"
proof (induction j arbitrary: xs c)
  case 0
  then show ?case by (simp add: shift_loop.simps)
next
  case (Suc j)
  show ?case
  proof (cases "t < xs ! j")
    case True
    then have "shift_loop 1 t j (xs[Suc j := xs ! j], c + 1) = Some (k, ys, d)"
      using Suc.prems shift_loop_cases(2)[of 1 "Suc j" xs t c] by simp
    moreover have "descending_hole i j t (xs[Suc j := xs ! j])"
      using hole_step[of i "Suc j" t xs] Suc.prems True by simp
    ultimately show ?thesis using Suc.IH[of "xs[Suc j := xs ! j]" "c + 1"] Suc.prems(2,3) by simp
  next
    case False
    then show ?thesis using Suc.prems shift_loop_cases(3)[of 1 "Suc j" xs t c] by auto
  qed
qed

definition sorted_below :: "nat \<Rightarrow> sorter_state \<Rightarrow> bool" where
  "sorted_below i s \<longleftrightarrow> (\<forall>a b. a < b \<longrightarrow> b < i \<longrightarrow> fst s ! a \<le> fst s ! b)"

lemma hole_filled:
  assumes "descending_hole i k t ys" "k \<le> i" "i < length ys" "0 < k \<longrightarrow> ys ! (k - 1) \<le> t"
  shows "sorted_below (Suc i) (ys[k := t], c)"
proof -
  have old: "\<And>a b. a < b \<Longrightarrow> b \<le> i \<Longrightarrow> a \<noteq> k \<Longrightarrow> b \<noteq> k \<Longrightarrow> ys ! a \<le> ys ! b"
    and big: "\<And>b. k < b \<Longrightarrow> b \<le> i \<Longrightarrow> t < ys ! b"
    using assms(1) by (auto simp: descending_hole_def)
  have "ys[k := t] ! a \<le> ys[k := t] ! b" if "a < b" "b \<le> i" for a b
  proof -
    consider "a = k" | "b = k" | "a \<noteq> k" "b \<noteq> k" by blast
    then show ?thesis
    proof cases
      case 1
      then show ?thesis using big[of b] that assms(2,3) by simp
    next
      case 2
      have "ys ! a \<le> ys ! (k - 1)"
        using old[of a "k - 1"] that 2 assms(2) by (cases "a = k - 1") auto
      then show ?thesis using 2 that assms by simp
    next
      case 3
      then show ?thesis using old that by simp
    qed
  qed
  then show ?thesis by (simp add: sorted_below_def less_Suc_eq_le)
qed

lemma gap_insert_one:
  assumes "permutes xs s" "i < length xs" "sorted_below i s"
  shows "\<exists>t. gap_insert 1 i s = Some t \<and> permutes xs t \<and> sorted_below (Suc i) t"
proof -
  obtain ys c where s: "s = (ys, c)" by (cases s)
  have i: "i < length ys" using assms(1,2) by (simp add: permutes_def s)
  obtain k zs d where l: "shift_loop 1 (ys ! i) i (ys, c) = Some (k, zs, d)"
    using shift_loop_returns[OF i] by blast
  have "descending_hole i i (ys ! i) ys"
    using assms(3) by (auto simp: descending_hole_def sorted_below_def s)
  then have k: "k \<le> i" "length zs = length ys" "descending_hole i k (ys ! i) zs" "0 < k \<longrightarrow> zs ! (k - 1) \<le> ys ! i"
    using shift_loop_one[OF l, of i] i by simp_all
  have "sorted_below (Suc i) (zs[k := ys ! i], d + 1)" using hole_filled[OF k(3,1) _ k(4)] k(2) i by simp
  moreover have "gap_insert 1 i s = Some (zs[k := ys ! i], d + 1)" using l i by (simp add: gap_insert_def s array_at_def)
  ultimately show ?thesis using gap_insert_permutes[OF assms(1,2), of 1] by simp
qed

lemma sorted_below_all: "length (fst s) \<le> i \<Longrightarrow> sorted_below i s \<Longrightarrow> sorted (fst s)"
  by (auto simp: sorted_iff_nth_mono_less sorted_below_def)

lemma gap_pass_one:
  assumes "permutes xs s"
  shows "\<exists>t. gap_pass (length xs) 1 s = Some t \<and> permutes xs t \<and> sorted (fst t)"
proof (cases "xs = []")
  case False
  have "\<exists>t. for_range (gap_insert 1) [1..<length xs] s = Some t \<and> permutes xs t \<and> sorted_below (length xs) t"
    using False assms gap_insert_one
    by (intro for_range_upt[where I = "\<lambda>i t. permutes xs t \<and> sorted_below i t"])
      (auto simp: sorted_below_def Suc_le_eq)
  then obtain t where t: "gap_pass (length xs) 1 s = Some t" "permutes xs t" "sorted_below (length xs) t"
    by (auto simp: gap_pass_def)
  then show ?thesis using sorted_below_all[of t "length xs"] by (auto simp: permutes_def)
qed (use assms in \<open>simp add: gap_pass_def permutes_def\<close>)

text \<open>On a sorted array no pass moves anything.\<close>

lemma gap_pass_sorted:
  assumes "permutes xs s" "sorted (fst s)" "0 < gap"
  shows "\<exists>t. gap_pass (length xs) gap s = Some t \<and> permutes xs t \<and> sorted (fst t)"
proof -
  have "\<exists>t. gap_insert gap i s = Some t \<and> fst t = fst s"
    if "gap \<le> i" "i < length (fst s)" "sorted (fst s)" for i s
  proof -
    obtain ys c where s: "s = (ys, c)" by (cases s)
    have "ys ! (i - gap) \<le> ys ! i" using that assms(3) by (simp add: s sorted_nth_mono)
    then show ?thesis
      using that shift_loop_cases(3)[of gap i ys "ys ! i" c] by (simp add: s gap_insert_def array_at_def)
  qed
  then have step: "\<exists>t. gap_insert gap i s = Some t \<and> permutes xs t \<and> sorted (fst t)"
    if "gap \<le> i" "i < length xs" "permutes xs s \<and> sorted (fst s)" for i s
    using that unfolding permutes_def by metis
  show ?thesis
  proof (cases "gap \<le> length xs")
    case True
    then show ?thesis unfolding gap_pass_def
      using for_range_upt[where I = "\<lambda>i s. permutes xs s \<and> sorted (fst s)" and a = gap and b = "length xs"]
        step assms(1,2) by blast
  qed (use assms(1,2) in \<open>simp add: gap_pass_def\<close>)
qed

subsection \<open>The four sorts\<close>

lemma for_range_gap_passes:
  assumes "permutes xs s"
  shows "\<exists>t. for_range (gap_pass (length xs)) gaps s = Some t \<and> permutes xs t"
  using assms
proof (induction gaps arbitrary: s)
  case (Cons gap gaps)
  then show ?case using gap_pass_permutes[OF Cons.prems, of gap] by fastforce
qed simp

lemma passes_ending_in_one:
  assumes "permutes xs s"
  shows "\<exists>t. for_range (gap_pass (length xs)) (gaps @ [1]) s = Some t \<and> permutes xs t \<and> sorted (fst t)"
proof -
  obtain t where "for_range (gap_pass (length xs)) gaps s = Some t" "permutes xs t"
    using for_range_gap_passes[OF assms] by blast
  then show ?thesis using gap_pass_one[of xs t] by (simp add: for_range_append)
qed

lemma shell_gaps_one: "0 < gap \<Longrightarrow> \<exists>gs. shell_gaps gap = gs @ [1]"
proof (induction gap rule: shell_gaps.induct)
  case (1 gap)
  show ?case
  proof (cases "gap = 1")
    case False
    then obtain gs where "shell_gaps (gap div 2) = gs @ [1]" using 1 by fastforce
    then show ?thesis using 1(2) by (subst shell_gaps.simps) (simp add: Cons_eq_append_conv)
  qed (simp add: shell_gaps.simps)
qed

lemma finish_sorted:
  assumes "r = Some t" "permutes xs t" "sorted (fst t)"
  shows "\<exists>c. finish r = Some (Sorted c (sort xs))"
proof -
  obtain ys c where t: "t = (ys, c)" by (cases t)
  have "ys = sort xs" using assms(2,3) by (metis t permutes_def properties_for_sort fst_conv)
  then show ?thesis using assms(1,3) by (simp add: t finish_def sort_assert_def)
qed

lemma loop_start: "permutes xs (xs, 0)"
  by (simp add: permutes_def)

lemma short_sorted: "length xs < 2 \<Longrightarrow> sorted (xs :: u64 list)"
  by (cases xs; cases "tl xs") auto

lemma growing_last: "length xs \<le> gap \<Longrightarrow> growing_passes advance (Suc fuel) (length xs) gap s = Some s"
  by simp

lemma growing_next:
  assumes "permutes xs s" "sorted (fst s)" "0 < gap" "advance gap = Some gap'"
    "\<And>t. permutes xs t \<Longrightarrow> sorted (fst t) \<Longrightarrow>
      \<exists>u. growing_passes advance fuel (length xs) gap' t = Some u \<and> permutes xs u \<and> sorted (fst u)"
  shows "\<exists>u. growing_passes advance (Suc fuel) (length xs) gap s = Some u \<and> permutes xs u \<and> sorted (fst u)"
proof (cases "gap < length xs")
  case True
  obtain t where "gap_pass (length xs) gap s = Some t" "permutes xs t" "sorted (fst t)"
    using gap_pass_sorted[OF assms(1-3)] by blast
  then show ?thesis using assms(4) assms(5)[of t] True by simp
qed (use assms(1,2) in simp)

lemma growing_first:
  assumes "advance 1 = Some gap'"
    "\<And>t. permutes xs t \<Longrightarrow> sorted (fst t) \<Longrightarrow>
      \<exists>u. growing_passes advance fuel (length xs) gap' t = Some u \<and> permutes xs u \<and> sorted (fst u)"
  shows "\<exists>u. growing_passes advance (Suc fuel) (length xs) 1 (xs, 0) = Some u \<and> permutes xs u \<and> sorted (fst u)"
proof (cases "1 < length xs")
  case True
  obtain t where "gap_pass (length xs) 1 (xs, 0) = Some t" "permutes xs t" "sorted (fst t)"
    using gap_pass_one[OF loop_start] by blast
  then show ?thesis using assms(1) assms(2)[of t] True by simp
qed (use loop_start[of xs] short_sorted[of xs] in simp)

lemma hibbard_passes:
  assumes "length xs \<le> 68719476771"
  shows "\<exists>u. growing_passes next_hibbard 6 (length xs) 1 (xs, 0) = Some u \<and> permutes xs u \<and> sorted (fst u)"
proof -
  have six: "(6 :: nat) = Suc (Suc (Suc (Suc (Suc (Suc 0)))))" by simp
  have gaps: "next_hibbard 1 = Some 2" "next_hibbard 2 = Some 5" "next_hibbard 5 = Some 36"
    "next_hibbard 36 = Some 68719476771"
    by (simp_all add: next_hibbard_def)
  show ?thesis unfolding six
    by (rule growing_first[where advance = next_hibbard, OF gaps(1)], (rule growing_next[where advance = next_hibbard, OF _ _ _ gaps(2)], assumption, assumption, simp),
        (rule growing_next[where advance = next_hibbard, OF _ _ _ gaps(3)], assumption, assumption, simp),
        (rule growing_next[where advance = next_hibbard, OF _ _ _ gaps(4)], assumption, assumption, simp))
      (use growing_last[OF assms] in blast)
qed

lemma sedgewick_passes:
  assumes "length xs \<le> 262922"
  shows "\<exists>u. growing_passes next_sedgewick 4 (length xs) 1 (xs, 0) = Some u \<and> permutes xs u \<and> sorted (fst u)"
proof -
  have four: "(4 :: nat) = Suc (Suc (Suc (Suc 0)))" by simp
  have gaps: "next_sedgewick 1 = Some 9" "next_sedgewick 9 = Some 262922"
    by (simp_all add: next_sedgewick_def)
  show ?thesis unfolding four
    by (rule growing_first[where advance = next_sedgewick, OF gaps(1)], (rule growing_next[where advance = next_sedgewick, OF _ _ _ gaps(2)], assumption, assumption, simp))
      (use growing_last[OF assms] in blast)
qed

text \<open>C21: All four shell sorts return the sorted array, and pass their own check for it, those with growing gaps up
  to the size at which the next gap no longer fits a machine word.\<close>

theorem shell_sorts_sort:
  "(\<exists>c. shell_sort_shell xs = Some (Sorted c (sort xs))) \<and>
   (\<exists>c. shell_sort_own_1 xs = Some (Sorted c (sort xs))) \<and>
   (length xs \<le> 68719476771 \<longrightarrow> (\<exists>c. shell_sort_hibbard xs = Some (Sorted c (sort xs)))) \<and>
   (length xs \<le> 262922 \<longrightarrow> (\<exists>c. shell_sort_sedgewick xs = Some (Sorted c (sort xs))))"
proof (intro conjI impI)
  show "\<exists>c. shell_sort_shell xs = Some (Sorted c (sort xs))"
  proof (cases "length xs < 2")
    case True
    then have "shell_gaps (length xs div 2) = []" by (simp add: shell_gaps.simps)
    then show ?thesis
      using finish_sorted[OF _ loop_start, of "Some (xs, 0)" xs] short_sorted[OF True] by (simp add: shell_sort_shell_def)
  next
    case False
    then have "0 < length xs div 2" by (simp add: div_greater_zero_iff)
    then obtain gs where "shell_gaps (length xs div 2) = gs @ [1]" using shell_gaps_one by blast
    then show ?thesis
      using passes_ending_in_one[OF loop_start, of xs gs] finish_sorted by (fastforce simp: shell_sort_shell_def)
  qed
  show "\<exists>c. shell_sort_own_1 xs = Some (Sorted c (sort xs))"
  proof (cases "xs = []")
    case True
    then show ?thesis
      using finish_sorted[OF _ loop_start, of "Some (xs, 0)" xs] by (simp add: shell_sort_own_1_def)
  next
    case False
    then have "[1..<length xs + 1] = 1 # [2..<length xs + 1]"
      by (subst upt_conv_Cons) (simp_all add: numeral_2_eq_2 Suc_le_eq)
    then have gaps: "rev [1..<length xs + 1] = rev [2..<length xs + 1] @ [1]" by simp
    show ?thesis unfolding shell_sort_own_1_def Let_def gaps
      using passes_ending_in_one[OF loop_start, of xs "rev [2..<length xs + 1]"] finish_sorted by blast
  qed
  show "\<exists>c. shell_sort_hibbard xs = Some (Sorted c (sort xs))" if "length xs \<le> 68719476771"
    unfolding shell_sort_hibbard_def using hibbard_passes[OF that] finish_sorted by blast
  show "\<exists>c. shell_sort_sedgewick xs = Some (Sorted c (sort xs))" if "length xs \<le> 262922"
    unfolding shell_sort_sedgewick_def using sedgewick_passes[OF that] finish_sorted by blast
qed

lemma shell_sorts_sort_witness:
  "(\<exists>c. shell_sort_hibbard [3, 1, 2 :: 64 word] = Some (Sorted c [1, 2, 3])) \<and>
   (\<exists>c. shell_sort_sedgewick [3, 1, 2 :: 64 word] = Some (Sorted c [1, 2, 3]))"
  using shell_sorts_sort[of "[3, 1, 2 :: 64 word]"] by (simp add: word_le_nat_alt)

subsection \<open>Large arrays and the test data\<close>

lemma growing_none:
  assumes "gap < n" "\<And>gap' t. advance gap = Some gap' \<Longrightarrow> growing_passes advance fuel n gap' t = None"
  shows "growing_passes advance (Suc fuel) n gap s = None"
proof (cases "gap_pass n gap s")
  case (Some t)
  then show ?thesis using assms by (cases "advance gap") simp_all
qed (use assms(1) in simp)

text \<open>With more than 262922 elements the second gap of the third sequence is followed by the conversion of an
  infinite number.\<close>

lemma sedgewick_overflows:
  assumes "262922 < length xs"
  shows "shell_sort_sedgewick xs = None"
proof -
  have four: "(4 :: nat) = Suc (Suc (Suc (Suc 0)))" by simp
  have gaps: "next_sedgewick 1 = Some 9" "next_sedgewick 9 = Some 262922" "next_sedgewick 262922 = None"
    by (simp_all add: next_sedgewick_def)
  let ?grow = "\<lambda>fuel gap. growing_passes next_sedgewick fuel (length xs) gap"
  have "?grow (Suc (Suc 0)) 262922 t = None" for t
    by (rule growing_none[OF assms]) (simp add: gaps)
  then have "?grow (Suc (Suc (Suc 0))) 9 t = None" for t
    by (intro growing_none) (use assms gaps in simp_all)
  then have "?grow (Suc (Suc (Suc (Suc 0)))) 1 (xs, 0) = None"
    by (intro growing_none) (use assms gaps in simp_all)
  then show ?thesis by (simp add: shell_sort_sedgewick_def finish_def four del: growing_passes.simps)
qed

text \<open>The static counter of the test data still has the value of the call before: a longer array
  does not descend but wraps around.\<close>

lemma descending_range_first: "n < 2 ^ 64 \<Longrightarrow> i < n \<Longrightarrow> fst (create_descending_order_range n None) ! i = of_nat (n - 1 - i)"
  by (simp add: create_descending_order_range_def of_nat_diff)

lemma descending_range_second:
  "m < n \<Longrightarrow> fst (create_descending_order_range n (snd (create_descending_order_range m None))) ! m = - 1"
  by (simp add: create_descending_order_range_def)

end
