(* ===== verification/Json_Formatter.thy ===== *)
theory Json_Formatter
  imports Prelude
begin

text \<open>
  The formatter of \<^verbatim>\<open>formatjson\<close>: a machine that copies a JSON text character by character and inserts line
  breaks, indentation and the colour sequences of a terminal. The constructor takes the contents of the
  file as an argument; an assertion that fails is \<open>None\<close>. It is shown that a reader who ignores colours and blanks
  outside of string literals sees the text that was given.
\<close>

subsection \<open>The program\<close>

definition escape_char :: char where
  "escape_char = CHR 0x1B"

definition newline_char :: char where
  "newline_char = CHR 0x0A"

definition end_of_color :: string where
  "end_of_color = escape_char # ''[0m''"

definition grey :: string where
  "grey = escape_char # ''[38;5;240m''"

definition mint :: string where
  "mint = escape_char # ''[38;5;72m''"

definition purple :: string where
  "purple = escape_char # ''[38;5;176m''"

definition red :: string where
  "red = escape_char # ''[38;5;174m''"

definition yellow :: string where
  "yellow = escape_char # ''[38;5;11m''"

definition tab :: string where
  "tab = ''  ''"

record formatter =
  data :: string
  json :: string
  quoted :: bool
  semicolon :: bool
  comma :: bool
  block :: bool
  array :: bool
  tabs :: u8

definition file_has_json_ext :: "string \<Rightarrow> cxx_exception + bool" where
  "file_has_json_ext filename = (if length filename < length ''.json'' then Inl (out_of_range ''basic_string::substr'')
     else Inr (drop (length filename - length ''.json'') filename = ''.json''))"

definition Json_formatter_ctor :: "string \<Rightarrow> string \<Rightarrow> cxx_exception + formatter option" where
  "Json_formatter_ctor filename content = (case file_has_json_ext filename of
      Inl e \<Rightarrow> Inl e
    | Inr ok \<Rightarrow> Inr (if ok then Some \<lparr>data = content, json = [], quoted = False, semicolon = False, comma = False,
        block = False, array = False, tabs = 0\<rparr> else None))"

definition push_back_text :: "string \<Rightarrow> formatter \<Rightarrow> formatter" where
  "push_back_text s f = f\<lparr>json := json f @ s\<rparr>"

definition append_tabs :: "formatter \<Rightarrow> formatter" where
  "append_tabs f = push_back_text (concat (replicate (unat (tabs f)) tab)) f"

definition new_line :: "formatter \<Rightarrow> formatter" where
  "new_line f = append_tabs (push_back_text [newline_char] f)"

definition before_brace :: "char \<Rightarrow> formatter \<Rightarrow> formatter" where
  "before_brace brace f = (let
     f = (if brace = CHR ''}'' then (new_line (f\<lparr>tabs := tabs f - 1\<rparr>))\<lparr>block := False\<rparr> else f)
   in if brace = CHR '']'' then (new_line (f\<lparr>tabs := tabs f - 1\<rparr>))\<lparr>array := False\<rparr> else f)"

definition after_brace :: "char \<Rightarrow> formatter \<Rightarrow> formatter" where
  "after_brace brace f = (let
     f = (if brace = CHR ''{'' then (new_line (f\<lparr>tabs := tabs f + 1\<rparr>))\<lparr>block := True\<rparr> else f)
   in if brace = CHR ''['' then (new_line (f\<lparr>tabs := tabs f + 1\<rparr>))\<lparr>array := True\<rparr> else f)"

definition append_brace :: "char \<Rightarrow> string \<Rightarrow> formatter \<Rightarrow> formatter" where
  "append_brace brace color f = (if quoted f then push_back_text [brace] f else
     after_brace brace (push_back_text end_of_color (push_back_text [brace] (push_back_text color
       (before_brace brace f)))))"

definition append_comma :: "formatter \<Rightarrow> formatter" where
  "append_comma f = (let
     f = (if \<not> quoted f then push_back_text end_of_color f else f);
     f = push_back_text '','' f;
     f = (if \<not> quoted f then new_line f else f)
   in f\<lparr>comma := True\<rparr>)"

definition append_bool :: "formatter \<Rightarrow> formatter" where
  "append_bool f = (if \<not> quoted f then push_back_text yellow f else f)"

definition append_semicolon :: "formatter \<Rightarrow> formatter" where
  "append_semicolon f = (let
     f = push_back_text '':'' f;
     f = (if \<not> quoted f then push_back_text '' '' f else f)
   in (append_bool f)\<lparr>semicolon := True\<rparr>)"

definition append_quote :: "string \<Rightarrow> formatter \<Rightarrow> formatter" where
  "append_quote color f = (let
     value = (semicolon f \<and> \<not> comma f \<and> \<not> block f);
     table = (\<not> semicolon f \<and> array f);
     f = (if value \<or> table then push_back_text red f
          else if \<not> quoted f then (push_back_text color f)\<lparr>array := False\<rparr> else f);
     f = push_back_text [CHR 0x22] f;
     f = (if quoted f then push_back_text end_of_color f else f)
   in f\<lparr>quoted := \<not> quoted f, comma := False, semicolon := False, block := False\<rparr>)"

definition append_digit :: "char \<Rightarrow> string \<Rightarrow> formatter \<Rightarrow> formatter" where
  "append_digit c color f = (if quoted f then push_back_text [c] f else push_back_text (color @ [c]) f)"

definition format_char :: "char \<Rightarrow> formatter \<Rightarrow> formatter" where
  "format_char c f =
     (if c \<in> {CHR ''{'', CHR ''}'', CHR ''['', CHR '']''} then append_brace c grey f
      else if c = CHR '','' then append_comma f
      else if c = CHR '':'' then append_semicolon f
      else if c = CHR 0x22 then append_quote purple f
      else if c \<in> set ''0123456789'' then append_digit c mint f
      else push_back_text [c] f)"

definition format :: "formatter \<Rightarrow> string \<times> formatter" where
  "format f = (let f = fold format_char (data f) f in (json f, f))"

definition format_main :: "string \<Rightarrow> string \<Rightarrow> cxx_exception + string option" where
  "format_main filename content = (case Json_formatter_ctor filename content of
      Inl e \<Rightarrow> Inl e
    | Inr None \<Rightarrow> Inr None
    | Inr (Some f) \<Rightarrow> Inr (Some (fst (format f) @ [newline_char])))"

subsection \<open>What a reader sees\<close>

text \<open>The text without colour sequences: from an escape character to the next m. The flag says whether the
  place is inside of a sequence.\<close>

fun visible :: "bool \<Rightarrow> string \<Rightarrow> string" where
  "visible inside [] = []"
| "visible inside (c # cs) =
     (if inside then visible (c \<noteq> CHR ''m'') cs
      else if c = escape_char then visible True cs else c # visible False cs)"

fun inside_after :: "bool \<Rightarrow> string \<Rightarrow> bool" where
  "inside_after inside [] = inside"
| "inside_after inside (c # cs) = inside_after (if inside then c \<noteq> CHR ''m'' else c = escape_char) cs"

text \<open>The text without blanks outside of string literals.\<close>

definition blank :: "char \<Rightarrow> bool" where
  "blank c \<longleftrightarrow> c = CHR '' '' \<or> c = newline_char"

fun squeeze :: "bool \<Rightarrow> string \<Rightarrow> string" where
  "squeeze literal [] = []"
| "squeeze literal (c # cs) =
     (if c = CHR 0x22 then c # squeeze (\<not> literal) cs
      else if \<not> literal \<and> blank c then squeeze literal cs
      else c # squeeze literal cs)"

fun literal_after :: "bool \<Rightarrow> string \<Rightarrow> bool" where
  "literal_after literal [] = literal"
| "literal_after literal (c # cs) = literal_after (if c = CHR 0x22 then \<not> literal else literal) cs"

lemma visible_append: "visible b (s @ t) = visible b s @ visible (inside_after b s) t"
  by (induction s arbitrary: b) auto

lemma inside_append [simp]: "inside_after b (s @ t) = inside_after (inside_after b s) t"
  by (induction s arbitrary: b) auto

lemma squeeze_append: "squeeze b (s @ t) = squeeze b s @ squeeze (literal_after b s) t"
  by (induction s arbitrary: b) auto

lemma literal_append [simp]: "literal_after b (s @ t) = literal_after (literal_after b s) t"
  by (induction s arbitrary: b) auto

text \<open>The state of the copy: no colour sequence is open, and the reader has seen the characters \<open>s\<close>.\<close>

definition shows_text :: "string \<Rightarrow> formatter \<Rightarrow> bool" where
  "shows_text s f \<longleftrightarrow> \<not> inside_after False (json f) \<and>
     squeeze False (visible False (json f)) = squeeze False s \<and>
     literal_after False (visible False (json f)) = quoted f \<and> literal_after False s = quoted f"

definition colour :: "string \<Rightarrow> bool" where
  "colour s \<longleftrightarrow> visible False s = [] \<and> \<not> inside_after False s"

lemma colours [simp]: "colour end_of_color" "colour grey" "colour mint" "colour purple" "colour red" "colour yellow"
  by (simp_all add: colour_def end_of_color_def grey_def mint_def purple_def red_def yellow_def)

lemma blank_simps [simp]: "blank c \<Longrightarrow> c \<noteq> escape_char" "blank c \<Longrightarrow> c \<noteq> CHR 0x22"
  by (auto simp: blank_def newline_char_def escape_char_def)

lemma blanks:
  "\<forall>c \<in> set s. blank c \<Longrightarrow> visible False s = s"
  "\<forall>c \<in> set s. blank c \<Longrightarrow> \<not> inside_after False s"
  "\<forall>c \<in> set s. blank c \<Longrightarrow> squeeze False s = []"
  "\<forall>c \<in> set s. blank c \<Longrightarrow> literal_after b s = b"
  by (induction s) simp_all

lemma shows_colour: "colour k \<Longrightarrow> shows_text s f \<Longrightarrow> shows_text s (push_back_text k f)"
  by (simp add: shows_text_def push_back_text_def colour_def visible_append)

lemma shows_blanks:
  assumes "\<forall>c \<in> set k. blank c" "\<not> quoted f" "shows_text s f"
  shows "shows_text s (push_back_text k f)"
  using assms(2,3) blanks[OF assms(1)]
  by (simp add: shows_text_def push_back_text_def visible_append squeeze_append)

lemma shows_flags [simp]:
  "shows_text s (f\<lparr>semicolon := b\<rparr>) = shows_text s f" "shows_text s (f\<lparr>comma := b\<rparr>) = shows_text s f"
  "shows_text s (f\<lparr>block := b\<rparr>) = shows_text s f" "shows_text s (f\<lparr>array := b\<rparr>) = shows_text s f"
  "shows_text s (f\<lparr>tabs := n\<rparr>) = shows_text s f"
  by (simp_all add: shows_text_def)

lemma quoted_push [simp]: "quoted (push_back_text k f) = quoted f"
  by (simp add: push_back_text_def)

lemma push_colour_char: "push_back_text (k @ [c]) f = push_back_text [c] (push_back_text k f)"
  by (simp add: push_back_text_def)

lemma shows_char:
  "c \<noteq> escape_char \<Longrightarrow> c \<noteq> CHR 0x22 \<Longrightarrow> shows_text s f \<Longrightarrow> shows_text (s @ [c]) (push_back_text [c] f)"
  by (auto simp: shows_text_def push_back_text_def visible_append squeeze_append)

lemma shows_quote:
  "shows_text s f \<Longrightarrow> shows_text (s @ [CHR 0x22]) ((push_back_text [CHR 0x22] f)\<lparr>quoted := \<not> quoted f\<rparr>)"
  by (auto simp: shows_text_def push_back_text_def visible_append squeeze_append escape_char_def)

lemma new_line_blanks:
  "new_line f = push_back_text (newline_char # concat (replicate (unat (tabs f)) tab)) f"
  by (simp add: new_line_def append_tabs_def push_back_text_def)

lemma shows_new_line [simp]:
  assumes "\<not> quoted f"
  shows "shows_text s f \<Longrightarrow> shows_text s (new_line f)" "\<not> quoted (new_line f)"
proof -
  have "\<forall>c \<in> set (newline_char # concat (replicate (unat (tabs f)) tab)). blank c"
    by (auto simp: blank_def tab_def)
  then show "shows_text s f \<Longrightarrow> shows_text s (new_line f)"
    unfolding new_line_blanks using assms by (intro shows_blanks)
qed (use assms in \<open>simp add: new_line_blanks\<close>)

lemma shows_beside_brace:
  assumes "shows_text s f" "\<not> quoted f"
  shows "shows_text s (before_brace c f)" "\<not> quoted (before_brace c f)" "shows_text s (after_brace c f)"
  using assms by (simp_all add: before_brace_def after_brace_def Let_def)

lemma shows_brace:
  assumes "shows_text s f" "colour k" "c \<noteq> escape_char" "c \<noteq> CHR 0x22"
  shows "shows_text (s @ [c]) (append_brace c k f)"
  using assms shows_beside_brace by (simp add: append_brace_def shows_char shows_colour)

lemma shows_comma: "shows_text s f \<Longrightarrow> shows_text (s @ '','') (append_comma f)"
  by (simp add: append_comma_def Let_def shows_colour shows_char escape_char_def)

lemma shows_semicolon: "shows_text s f \<Longrightarrow> shows_text (s @ '':'') (append_semicolon f)"
  by (simp add: append_semicolon_def append_bool_def Let_def shows_colour shows_char shows_blanks blank_def escape_char_def)

lemma shows_digit:
  "shows_text s f \<Longrightarrow> colour k \<Longrightarrow> c \<noteq> escape_char \<Longrightarrow> c \<noteq> CHR 0x22 \<Longrightarrow> shows_text (s @ [c]) (append_digit c k f)"
  by (simp add: append_digit_def push_colour_char shows_colour shows_char)

lemma shows_append_quote:
  assumes "shows_text s f" "colour k"
  shows "shows_text (s @ [CHR 0x22]) (append_quote k f)"
proof -
  define g where "g = (if semicolon f \<and> \<not> comma f \<and> \<not> block f \<or> \<not> semicolon f \<and> array f then push_back_text red f
    else if \<not> quoted f then (push_back_text k f)\<lparr>array := False\<rparr> else f)"
  have g: "shows_text s g" "quoted g = quoted f" using assms by (simp_all add: g_def shows_colour)
  have swap: "(push_back_text end_of_color h)\<lparr>quoted := b\<rparr> = push_back_text end_of_color (h\<lparr>quoted := b\<rparr>)" for h b
    by (simp add: push_back_text_def)
  show ?thesis
  proof (cases "quoted f")
    case True
    then show ?thesis
      unfolding append_quote_def Let_def g_def[symmetric]
      using shows_quote[OF g(1)] g(2) by (simp add: swap shows_colour)
  next
    case False
    then show ?thesis
      unfolding append_quote_def Let_def g_def[symmetric]
      using shows_quote[OF g(1)] g(2) by simp
  qed
qed

lemma shows_format_char:
  assumes "shows_text s f" "c \<noteq> escape_char"
  shows "shows_text (s @ [c]) (format_char c f)"
proof -
  consider "c \<in> {CHR ''{'', CHR ''}'', CHR ''['', CHR '']''}" | "c = CHR '',''" | "c = CHR '':''" | "c = CHR 0x22"
    | "c \<in> set ''0123456789''" "c \<notin> {CHR ''{'', CHR ''}'', CHR ''['', CHR '']'', CHR '','', CHR '':'', CHR 0x22}"
    | "c \<notin> {CHR ''{'', CHR ''}'', CHR ''['', CHR '']'', CHR '','', CHR '':'', CHR 0x22} \<union> set ''0123456789''" by blast
  then show ?thesis
  proof cases
    case 1
    then have "c \<noteq> CHR 0x22" by auto
    then show ?thesis using 1 shows_brace[OF assms(1) colours(2) assms(2)] by (simp add: format_char_def)
  next
    case 2
    then show ?thesis using shows_comma[OF assms(1)] by (simp add: format_char_def)
  next
    case 3
    then show ?thesis using shows_semicolon[OF assms(1)] by (simp add: format_char_def)
  next
    case 4
    then show ?thesis using shows_append_quote[OF assms(1) colours(4)] by (simp add: format_char_def)
  next
    case 5
    then show ?thesis using shows_digit[OF assms(1) colours(3) assms(2)] by (simp add: format_char_def)
  next
    case 6
    then show ?thesis using shows_char[OF assms(2) _ assms(1)] by (simp add: format_char_def)
  qed
qed

lemma shows_fold:
  "shows_text s f \<Longrightarrow> escape_char \<notin> set cs \<Longrightarrow> shows_text (s @ cs) (fold format_char cs f)"
proof (induction cs arbitrary: s f)
  case (Cons c cs)
  then show ?case using Cons.IH[of "s @ [c]" "format_char c f"] shows_format_char[of s f c] by auto
qed simp

text \<open>C18: For a file with the right extension and no escape characters, the program prints a text in which a reader who
  skips the colour sequences, and the blanks outside of string literals, finds exactly the text of the file. The reader
  (\<open>squeeze\<close>) toggles at every quotation mark as the code does, so a quotation mark behind a backslash ends a string.\<close>

theorem format_shows_text:
  assumes "length filename \<ge> 5" "drop (length filename - 5) filename = ''.json''" "escape_char \<notin> set content"
  shows "\<exists>out. format_main filename content = Inr (Some (out @ [newline_char])) \<and>
    squeeze False (visible False out) = squeeze False content"
proof -
  let ?f = "\<lparr>data = content, json = [], quoted = False, semicolon = False, comma = False, block = False,
    array = False, tabs = 0\<rparr>"
  have "Json_formatter_ctor filename content = Inr (Some ?f)"
    using assms(1,2) by (simp add: Json_formatter_ctor_def file_has_json_ext_def eval_nat_numeral)
  then have "format_main filename content = Inr (Some (json (fold format_char content ?f) @ [newline_char]))"
    by (simp add: format_main_def format_def Let_def)
  moreover have "shows_text [] ?f" by (simp add: shows_text_def)
  then have "shows_text content (fold format_char content ?f)"
    using shows_fold[of "[]" ?f content] assms(3) by simp
  ultimately show ?thesis by (auto simp: shows_text_def)
qed

theorem format_shows_text_witness:
  "\<exists>out. format_main ''a.json'' ''[1, 2]'' = Inr (Some (out @ [newline_char])) \<and>
     squeeze False (visible False out) = ''[1,2]''"
  using format_shows_text[of "''a.json''" "''[1, 2]''"] by (simp add: escape_char_def blank_def newline_char_def)

text \<open>The result is kept in the object, so that a second call returns the first result with the second one behind it.\<close>

lemma format_appends: "\<exists>t. fst (format (snd (format f))) = fst (format f) @ t"
proof -
  have push: "\<exists>t. json (format_char c g) = json g @ t" for c g
    by (auto simp: format_char_def append_brace_def before_brace_def after_brace_def append_comma_def
        append_semicolon_def append_bool_def append_quote_def append_digit_def new_line_def append_tabs_def push_back_text_def Let_def)
  have "\<exists>t. json (fold format_char cs g) = json g @ t" for cs g
  proof (induction cs arbitrary: g)
    case (Cons c cs)
    then show ?case using push[of c g] by (metis append_assoc fold_simps(2))
  qed simp
  then show ?thesis by (simp add: format_def Let_def)
qed

lemma short_file_name: "file_has_json_ext ''a'' = Inl (out_of_range ''basic_string::substr'')"
  by (simp add: file_has_json_ext_def)

end
