(* ===== verification/Stream_Programs.thy ===== *)
theory Stream_Programs
  imports Prelude
begin

text \<open>
  Three programs of \<^verbatim>\<open>yandex_tasks/other\<close> around streams: the buffered writer of \<^verbatim>\<open>buffered_output.h\<close>, the model
  file of \<^verbatim>\<open>save_load.h\<close> and the document collection of \<^verbatim>\<open>document.h\<close>.
\<close>

subsection \<open>Buffered output\<close>

record buffered_writer =
  bufsize :: nat
  buffer :: string
  has_rest :: bool
  console :: string

text \<open>The base class prints its argument as a C string, up to the first null character.\<close>

definition c_string :: "string \<Rightarrow> string" where
  "c_string s = takeWhile (\<lambda>c. c \<noteq> CHR 0x00) s"

definition Writer_Write :: "string \<Rightarrow> buffered_writer \<Rightarrow> buffered_writer" where
  "Writer_Write s b = b\<lparr>console := console b @ c_string s\<rparr>"

definition BufferedWriter_ctor :: "nat \<Rightarrow> buffered_writer" where
  "BufferedWriter_ctor n = \<lparr>bufsize = n, buffer = [], has_rest = False, console = []\<rparr>"

definition flush_buffer :: "buffered_writer \<Rightarrow> buffered_writer" where
  "flush_buffer b = (Writer_Write (buffer b) b)\<lparr>buffer := []\<rparr>"

definition BufferedWriter_dtor :: "buffered_writer \<Rightarrow> buffered_writer" where
  "BufferedWriter_dtor b = (if has_rest b then flush_buffer b else b)"

definition write_char :: "char \<Rightarrow> buffered_writer \<Rightarrow> buffered_writer" where
  "write_char c b = (let b = b\<lparr>buffer := buffer b @ [c]\<rparr>
     in if length (buffer b) = bufsize b then flush_buffer b else b)"

fun write_loop :: "string \<Rightarrow> buffered_writer \<Rightarrow> buffered_writer" where
  "write_loop [] b = b"
| "write_loop (c # cs) b = (let b = write_char c b in
     write_loop cs (if cs = [] \<and> buffer b \<noteq> [] then b\<lparr>has_rest := True\<rparr> else b))"

definition BufferedWriter_Write :: "string \<Rightarrow> buffered_writer \<Rightarrow> buffered_writer" where
  "BufferedWriter_Write s b = write_loop s b"

definition writer_program :: "nat \<Rightarrow> string list \<Rightarrow> string" where
  "writer_program n ss = console (BufferedWriter_dtor (fold BufferedWriter_Write ss (BufferedWriter_ctor n)))"

text \<open>The text cut into pieces of the size of the buffer; without a size it stays in one piece.\<close>

function pieces :: "nat \<Rightarrow> string \<Rightarrow> string list" where
  "pieces n s = (if s = [] then [] else if n = 0 then [s] else take n s # pieces n (drop n s))"
  by pat_completeness auto
termination
  by (relation "measure (\<lambda>(n, s). length s)") auto

declare pieces.simps [simp del]

lemma pieces_concat: "concat (pieces n s) = s"
  by (induction n s rule: pieces.induct) (subst pieces.simps, simp)

lemma pieces_size: "0 < n \<Longrightarrow> i + 1 < length (pieces n s) \<Longrightarrow> length (pieces n s ! i) = n"
proof (induction n s arbitrary: i rule: pieces.induct)
  case (1 n s)
  have ps: "pieces n s = take n s # pieces n (drop n s)" if "s \<noteq> []"
    using that 1(2) by (subst pieces.simps) simp
  have ne: "s \<noteq> []" using 1(3) by (auto simp: pieces.simps)
  then have "pieces n (drop n s) \<noteq> []" using 1(3) ps by (cases "pieces n (drop n s)") auto
  then have "n < length s" by (auto simp: pieces.simps[of n "drop n s"] split: if_splits)
  then show ?case using 1(1)[OF ne _ 1(2), of "i - 1"] 1(2,3) ps[OF ne] by (cases i) auto
qed

definition buffered :: "string \<Rightarrow> string list \<Rightarrow> buffered_writer \<Rightarrow> bool" where
  "buffered w cs b \<longleftrightarrow> w = concat cs @ buffer b \<and> (\<forall>c \<in> set cs. length c = bufsize b) \<and>
     (0 < bufsize b \<longrightarrow> length (buffer b) < bufsize b) \<and> (bufsize b = 0 \<longrightarrow> cs = []) \<and>
     console b = concat (map c_string cs)"

lemma buffered_char:
  assumes "buffered w cs b"
  shows "\<exists>ds. buffered (w @ [c]) ds (write_char c b) \<and> bufsize (write_char c b) = bufsize b \<and>
    has_rest (write_char c b) = has_rest b"
proof (cases "length (buffer b) + 1 = bufsize b")
  case True
  then have "buffered (w @ [c]) (cs @ [buffer b @ [c]]) (write_char c b)"
    using assms by (auto simp: buffered_def write_char_def flush_buffer_def Writer_Write_def)
  then show ?thesis using True by (auto simp: write_char_def flush_buffer_def Writer_Write_def)
next
  case False
  then have "buffered (w @ [c]) cs (write_char c b)"
    using assms by (auto simp: buffered_def write_char_def)
  then show ?thesis using False by (auto simp: write_char_def)
qed

lemma buffered_write:
  assumes "\<exists>cs. buffered w cs b" "buffer b \<noteq> [] \<longrightarrow> has_rest b"
  shows "(\<exists>cs. buffered (w @ s) cs (write_loop s b)) \<and> bufsize (write_loop s b) = bufsize b \<and>
    (buffer (write_loop s b) \<noteq> [] \<longrightarrow> has_rest (write_loop s b))"
proof -
  have "s \<noteq> [] \<Longrightarrow> \<exists>cs. buffered w cs b \<Longrightarrow> (\<exists>cs. buffered (w @ s) cs (write_loop s b)) \<and>
      bufsize (write_loop s b) = bufsize b \<and> (buffer (write_loop s b) \<noteq> [] \<longrightarrow> has_rest (write_loop s b))"
    for w b
  proof (induction s arbitrary: w b)
    case (Cons c s)
    let ?b = "write_char c b"
    obtain cs where cs: "buffered (w @ [c]) cs ?b" "bufsize ?b = bufsize b"
      using Cons.prems(2) buffered_char by blast
    show ?case
    proof (cases "s = []")
      case True
      have "buffered (w @ [c]) cs (?b\<lparr>has_rest := True\<rparr>)" using cs(1) by (simp add: buffered_def)
      then show ?thesis using cs True by (auto simp: Let_def)
    next
      case False
      then show ?thesis using Cons.IH[OF False, of "w @ [c]" ?b] cs by (auto simp: Let_def)
    qed
  qed simp
  then show ?thesis using assms by (cases "s = []") auto
qed

lemma pieces_rest: "length r < n \<Longrightarrow> pieces n r = (if r = [] then [] else [r])"
  by (subst pieces.simps) (simp add: pieces.simps[of n "[]"])

lemma pieces_full:
  "0 < n \<Longrightarrow> length r < n \<Longrightarrow> \<forall>c \<in> set cs. length c = n \<Longrightarrow>
     pieces n (concat cs @ r) = cs @ (if r = [] then [] else [r])"
proof (induction cs)
  case (Cons c cs)
  then have "pieces n (c @ (concat cs @ r)) = c # pieces n (concat cs @ r)"
    by (subst pieces.simps) auto
  then show ?case using Cons by simp
qed (simp add: pieces_rest)

lemma buffered_pieces:
  assumes "buffered w cs b"
  shows "pieces (bufsize b) w = cs @ (if buffer b = [] then [] else [buffer b])"
proof (cases "bufsize b = 0")
  case True
  then show ?thesis using assms by (simp add: buffered_def pieces.simps)
next
  case False
  then show ?thesis using assms pieces_full[of "bufsize b" "buffer b" cs] by (simp add: buffered_def)
qed

lemma buffered_fold:
  "\<exists>cs. buffered w cs b \<Longrightarrow> buffer b \<noteq> [] \<longrightarrow> has_rest b \<Longrightarrow>
     \<exists>cs. buffered (w @ concat ss) cs (fold BufferedWriter_Write ss b) \<and>
       bufsize (fold BufferedWriter_Write ss b) = bufsize b \<and>
       (buffer (fold BufferedWriter_Write ss b) \<noteq> [] \<longrightarrow> has_rest (fold BufferedWriter_Write ss b))"
proof (induction ss arbitrary: w b)
  case (Cons s ss)
  have "(\<exists>cs. buffered (w @ s) cs (write_loop s b)) \<and> bufsize (write_loop s b) = bufsize b \<and>
      (buffer (write_loop s b) \<noteq> [] \<longrightarrow> has_rest (write_loop s b))"
    by (rule buffered_write) (use Cons.prems in simp_all)
  then show ?case using Cons.IH[of "w @ s" "write_loop s b"] by (simp add: BufferedWriter_Write_def)
qed simp

text \<open>Whatever the sizes of the single writes, after the destruction of the writer the base class has been given all
  the text once and in order, in pieces of exactly the size of the buffer and a last one for the rest.\<close>

theorem buffered_output:
  "writer_program n ss = concat (map c_string (pieces n (concat ss)))"
proof -
  let ?b = "fold BufferedWriter_Write ss (BufferedWriter_ctor n)"
  have "\<exists>cs. buffered [] cs (BufferedWriter_ctor n)"
    by (intro exI[of _ "[]"]) (simp add: buffered_def BufferedWriter_ctor_def)
  then obtain cs where cs: "buffered (concat ss) cs ?b" "bufsize ?b = n" "buffer ?b \<noteq> [] \<longrightarrow> has_rest ?b"
    using buffered_fold[of "[]" "BufferedWriter_ctor n" ss] by (auto simp: BufferedWriter_ctor_def)
  have "pieces n (concat ss) = cs @ (if buffer ?b = [] then [] else [buffer ?b])"
    using buffered_pieces[OF cs(1)] cs(2) by simp
  then show ?thesis
    using cs(1,3) by (auto simp: writer_program_def BufferedWriter_dtor_def flush_buffer_def Writer_Write_def
      buffered_def c_string_def)
qed

lemma buffered_output_text: "CHR 0x00 \<notin> set (concat ss) \<Longrightarrow> writer_program n ss = concat ss"
proof -
  assume no: "CHR 0x00 \<notin> set (concat ss)"
  have "c_string p = p" if "p \<in> set (pieces n (concat ss))" for p
  proof -
    have "set p \<subseteq> set (concat (pieces n (concat ss)))" using that by auto
    then show ?thesis using no by (auto simp: c_string_def pieces_concat takeWhile_eq_all_conv)
  qed
  then have "map c_string (pieces n (concat ss)) = pieces n (concat ss)" by (simp add: map_idI)
  then show ?thesis by (simp add: buffered_output pieces_concat)
qed

text \<open>A null character in the data cuts off the piece it lies in.\<close>

lemma buffered_output_null: "writer_program 4 [''ab'', [CHR 0x00], ''cd''] = ''abd''"
  by (simp add: buffered_output c_string_def pieces.simps eval_nat_numeral)

subsection \<open>The model file\<close>

text \<open>Numbers are written as they lie in memory, the least significant byte first. A stream that ends before a
  read is complete delivers what it has and fails; a failed stream delivers nothing.\<close>

type_synonym model = "u32 list"

record in_stream =
  rest :: "u8 list"
  failed :: bool

fun bytes_of :: "nat \<Rightarrow> nat \<Rightarrow> u8 list" where
  "bytes_of 0 x = []"
| "bytes_of (Suc k) x = of_nat x # bytes_of k (x div 256)"

fun number_of :: "u8 list \<Rightarrow> nat" where
  "number_of [] = 0"
| "number_of (b # bs) = unat b + 256 * number_of bs"

definition save :: "model \<Rightarrow> u8 list \<Rightarrow> u8 list" where
  "save data out = out @ bytes_of 8 (length data) @ concat (map (\<lambda>x. bytes_of 4 (unat x)) data)"

definition stream_read :: "u8 list \<Rightarrow> in_stream \<Rightarrow> u8 list \<times> in_stream" where
  "stream_read memory st = (if failed st then (memory, st)
     else (take (length memory) (rest st) @ drop (length (rest st)) memory,
           \<lparr>rest = drop (length memory) (rest st), failed = length (rest st) < length memory\<rparr>))"

fun words_of :: "nat \<Rightarrow> u8 list \<Rightarrow> model" where
  "words_of 0 bs = []"
| "words_of (Suc k) bs = of_nat (number_of (take 4 bs)) # words_of k (drop 4 bs)"

definition resize_model :: "nat \<Rightarrow> model \<Rightarrow> model" where
  "resize_model n data = take n data @ replicate (n - length data) 0"

text \<open>\<open>resize\<close> throws if the size exceeds the maximum for a vector of \<open>int\<close>.\<close>

definition load_model :: "in_stream \<Rightarrow> model \<Rightarrow> cxx_exception + model \<times> in_stream" where
  "load_model st data = (let
     (size_bytes, st) = stream_read (bytes_of 8 0) st;
     sz = number_of size_bytes
   in if 2 ^ 61 \<le> sz then Inl (length_error ''vector::_M_default_append'')
      else (let data = resize_model sz data;
                (memory, st) = stream_read (concat (map (\<lambda>x. bytes_of 4 (unat x)) data)) st
            in Inr (words_of sz memory, st)))"

lemma length_word_bytes [simp]: "length (bytes_of k x) = k"
  by (induction k arbitrary: x) simp_all

lemma length_words_bytes [simp]: "length (concat (map (\<lambda>x. bytes_of 4 (unat x)) data)) = 4 * length (data :: model)"
  by (induction data) simp_all

lemma number_bytes: "x < 256 ^ k \<Longrightarrow> number_of (bytes_of k x) = x"
proof (induction k arbitrary: x)
  case (Suc k)
  then have "x div 256 < 256 ^ k" by (simp add: less_mult_imp_div_less mult.commute)
  then show ?case using Suc.IH[of "x div 256"] by (simp add: unat_of_nat)
qed simp

lemma words_bytes: "words_of (length data) (concat (map (\<lambda>x. bytes_of 4 (unat x)) (data :: model)) @ bs) = data"
proof (induction data)
  case (Cons x data)
  have "unat x < 256 ^ 4" using unsigned_less[of x] by simp
  then show ?case using Cons number_bytes[of "unat x" 4] by simp
qed simp

text \<open>C26: for a model of fewer than \<open>2\<^sup>6\<^sup>1\<close> numbers, \<open>load\<close> gives back what \<open>save\<close> has written, whatever the model held before and whatever follows in the file,
  and leaves the stream behind the model.\<close>

theorem load_save:
  assumes "length data < 2 ^ 61"
  shows "load_model \<lparr>rest = save data [] @ bs, failed = False\<rparr> old = Inr (data, \<lparr>rest = bs, failed = False\<rparr>)"
proof -
  have "length data < 256 ^ 8" using assms by simp
  then have size: "number_of (bytes_of 8 (length data)) = length data" by (rule number_bytes)
  have len: "length (resize_model (length data) old) = length data" by (simp add: resize_model_def)
  show ?thesis
    using assms len by (simp add: load_model_def save_def stream_read_def size words_bytes[of data "[]", simplified])
qed

theorem load_save_witness:
  "load_model \<lparr>rest = save [1, 2, 4294967295] [] @ [7], failed = False\<rparr> [9] = Inr ([1, 2, 4294967295], \<lparr>rest = [7], failed = False\<rparr>)"
  by (rule load_save) simp

subsection \<open>Documents\<close>

datatype document = PlainTextDocument string | HTMLDocument string

definition Document_Save :: "document \<Rightarrow> string" where
  "Document_Save d = (case d of
      PlainTextDocument s \<Rightarrow> s @ [CHR 0x0A]
    | HTMLDocument s \<Rightarrow> ''<HTML><BODY>'' @ s @ ''</BODY></HTML>'' @ [CHR 0x0A])"

definition AddDocument :: "string \<Rightarrow> string \<Rightarrow> document list \<Rightarrow> document list" where
  "AddDocument content type collection =
     (if type = ''plain'' then collection @ [PlainTextDocument content]
      else if type = ''html'' then collection @ [HTMLDocument content]
      else collection)"

definition PrintCollection :: "document list \<Rightarrow> string" where
  "PrintCollection collection = concat (map Document_Save collection)"

lemma print_added:
  "PrintCollection (AddDocument content kind collection) = PrintCollection collection @
     (if kind = ''plain'' then content @ [CHR 0x0A]
      else if kind = ''html'' then ''<HTML><BODY>'' @ content @ ''</BODY></HTML>'' @ [CHR 0x0A] else [])"
  by (simp add: PrintCollection_def AddDocument_def Document_Save_def)

end
