(* ===== verification/Lightning_Crc.thy ===== *)
theory Lightning_Crc
  imports Crc32
begin

text \<open>
  The checksums of the lightning library, \<^verbatim>\<open>lightning/src/Lightning/Hash\<close>: CRC-8, CRC-16 and CRC-32 of zero terminated
  strings over tables written out in full. The memory from the pointer to the end of its object is
  a list, and a read beyond it is \<open>None\<close>, as is an index outside a table. Characters are signed. The lemmas
  recompute the tables by shift registers and relate the last checksum to the one of \<open>Crc32\<close>.
\<close>

unbundle bit_operations_syntax

subsection \<open>The program\<close>

definition crc8_lookup_table :: "u16 list" where
  "crc8_lookup_table = [
    0x00, 0x07, 0x0E, 0x09, 0x1C, 0x1B, 0x12, 0x15, 0x38, 0x3F, 0x36, 0x31,
    0x24, 0x23, 0x2A, 0x2D, 0x70, 0x77, 0x7E, 0x79, 0x6C, 0x6B, 0x62, 0x65,
    0x48, 0x4F, 0x46, 0x41, 0x54, 0x53, 0x5A, 0x5D, 0xE0, 0xE7, 0xEE, 0xE9,
    0xFC, 0xFB, 0xF2, 0xF5, 0xD8, 0xDF, 0xD6, 0xD1, 0xC4, 0xC3, 0xCA, 0xCD,
    0x90, 0x97, 0x9E, 0x99, 0x8C, 0x8B, 0x82, 0x85, 0xA8, 0xAF, 0xA6, 0xA1,
    0xB4, 0xB3, 0xBA, 0xBD, 0xC7, 0xC0, 0xC9, 0xCE, 0xDB, 0xDC, 0xD5, 0xD2,
    0xFF, 0xF8, 0xF1, 0xF6, 0xE3, 0xE4, 0xED, 0xEA, 0xB7, 0xB0, 0xB9, 0xBE,
    0xAB, 0xAC, 0xA5, 0xA2, 0x8F, 0x88, 0x81, 0x86, 0x93, 0x94, 0x9D, 0x9A,
    0x27, 0x20, 0x29, 0x2E, 0x3B, 0x3C, 0x35, 0x32, 0x1F, 0x18, 0x11, 0x16,
    0x03, 0x04, 0x0D, 0x0A, 0x57, 0x50, 0x59, 0x5E, 0x4B, 0x4C, 0x45, 0x42,
    0x6F, 0x68, 0x61, 0x66, 0x73, 0x74, 0x7D, 0x7A, 0x89, 0x8E, 0x87, 0x80,
    0x95, 0x92, 0x9B, 0x9C, 0xB1, 0xB6, 0xBF, 0xB8, 0xAD, 0xAA, 0xA3, 0xA4,
    0xF9, 0xFE, 0xF7, 0xF0, 0xE5, 0xE2, 0xEB, 0xEC, 0xC1, 0xC6, 0xCF, 0xC8,
    0xDD, 0xDA, 0xD3, 0xD4, 0x69, 0x6E, 0x67, 0x60, 0x75, 0x72, 0x7B, 0x7C,
    0x51, 0x56, 0x5F, 0x58, 0x4D, 0x4A, 0x43, 0x44, 0x19, 0x1E, 0x17, 0x10,
    0x05, 0x02, 0x0B, 0x0C, 0x21, 0x26, 0x2F, 0x28, 0x3D, 0x3A, 0x33, 0x34,
    0x4E, 0x49, 0x40, 0x47, 0x52, 0x55, 0x5C, 0x5B, 0x76, 0x71, 0x78, 0x7F,
    0x6A, 0x6D, 0x64, 0x63, 0x3E, 0x39, 0x30, 0x37, 0x22, 0x25, 0x2C, 0x2B,
    0x06, 0x01, 0x08, 0x0F, 0x1A, 0x1D, 0x14, 0x13, 0xAE, 0xA9, 0xA0, 0xA7,
    0xB2, 0xB5, 0xBC, 0xBB, 0x96, 0x91, 0x98, 0x9F, 0x8A, 0x8D, 0x84, 0x83,
    0xDE, 0xD9, 0xD0, 0xD7, 0xC2, 0xC5, 0xCC, 0xCB, 0xE6, 0xE1, 0xE8, 0xEF,
    0xFA, 0xFD, 0xF4, 0xF3]"

definition crc16_lookup_table :: "u16 list" where
  "crc16_lookup_table = [
    0x0000, 0xC0C1, 0xC181, 0x0140, 0xC301, 0x03C0, 0x0280, 0xC241, 0xC601, 0x06C0,
    0x0780, 0xC741, 0x0500, 0xC5C1, 0xC481, 0x0440, 0xCC01, 0x0CC0, 0x0D80, 0xCD41,
    0x0F00, 0xCFC1, 0xCE81, 0x0E40, 0x0A00, 0xCAC1, 0xCB81, 0x0B40, 0xC901, 0x09C0,
    0x0880, 0xC841, 0xD801, 0x18C0, 0x1980, 0xD941, 0x1B00, 0xDBC1, 0xDA81, 0x1A40,
    0x1E00, 0xDEC1, 0xDF81, 0x1F40, 0xDD01, 0x1DC0, 0x1C80, 0xDC41, 0x1400, 0xD4C1,
    0xD581, 0x1540, 0xD701, 0x17C0, 0x1680, 0xD641, 0xD201, 0x12C0, 0x1380, 0xD341,
    0x1100, 0xD1C1, 0xD081, 0x1040, 0xF001, 0x30C0, 0x3180, 0xF141, 0x3300, 0xF3C1,
    0xF281, 0x3240, 0x3600, 0xF6C1, 0xF781, 0x3740, 0xF501, 0x35C0, 0x3480, 0xF441,
    0x3C00, 0xFCC1, 0xFD81, 0x3D40, 0xFF01, 0x3FC0, 0x3E80, 0xFE41, 0xFA01, 0x3AC0,
    0x3B80, 0xFB41, 0x3900, 0xF9C1, 0xF881, 0x3840, 0x2800, 0xE8C1, 0xE981, 0x2940,
    0xEB01, 0x2BC0, 0x2A80, 0xEA41, 0xEE01, 0x2EC0, 0x2F80, 0xEF41, 0x2D00, 0xEDC1,
    0xEC81, 0x2C40, 0xE401, 0x24C0, 0x2580, 0xE541, 0x2700, 0xE7C1, 0xE681, 0x2640,
    0x2200, 0xE2C1, 0xE381, 0x2340, 0xE101, 0x21C0, 0x2080, 0xE041, 0xA001, 0x60C0,
    0x6180, 0xA141, 0x6300, 0xA3C1, 0xA281, 0x6240, 0x6600, 0xA6C1, 0xA781, 0x6740,
    0xA501, 0x65C0, 0x6480, 0xA441, 0x6C00, 0xACC1, 0xAD81, 0x6D40, 0xAF01, 0x6FC0,
    0x6E80, 0xAE41, 0xAA01, 0x6AC0, 0x6B80, 0xAB41, 0x6900, 0xA9C1, 0xA881, 0x6840,
    0x7800, 0xB8C1, 0xB981, 0x7940, 0xBB01, 0x7BC0, 0x7A80, 0xBA41, 0xBE01, 0x7EC0,
    0x7F80, 0xBF41, 0x7D00, 0xBDC1, 0xBC81, 0x7C40, 0xB401, 0x74C0, 0x7580, 0xB541,
    0x7700, 0xB7C1, 0xB681, 0x7640, 0x7200, 0xB2C1, 0xB381, 0x7340, 0xB101, 0x71C0,
    0x7080, 0xB041, 0x5000, 0x90C1, 0x9181, 0x5140, 0x9301, 0x53C0, 0x5280, 0x9241,
    0x9601, 0x56C0, 0x5780, 0x9741, 0x5500, 0x95C1, 0x9481, 0x5440, 0x9C01, 0x5CC0,
    0x5D80, 0x9D41, 0x5F00, 0x9FC1, 0x9E81, 0x5E40, 0x5A00, 0x9AC1, 0x9B81, 0x5B40,
    0x9901, 0x59C0, 0x5880, 0x9841, 0x8801, 0x48C0, 0x4980, 0x8941, 0x4B00, 0x8BC1,
    0x8A81, 0x4A40, 0x4E00, 0x8EC1, 0x8F81, 0x4F40, 0x8D01, 0x4DC0, 0x4C80, 0x8C41,
    0x4400, 0x84C1, 0x8581, 0x4540, 0x8701, 0x47C0, 0x4680, 0x8641, 0x8201, 0x42C0,
    0x4380, 0x8341, 0x4100, 0x81C1, 0x8081, 0x4040]"

definition lightning_crc32_table :: "u64 list" where
  "lightning_crc32_table = [
    0x00000000, 0x77073096, 0xEE0E612C, 0x990951BA, 0x076DC419, 0x706AF48F,
    0xE963A535, 0x9E6495A3, 0x0EDB8832, 0x79DCB8A4, 0xE0D5E91E, 0x97D2D988,
    0x09B64C2B, 0x7EB17CBD, 0xE7B82D07, 0x90BF1D91, 0x1DB71064, 0x6AB020F2,
    0xF3B97148, 0x84BE41DE, 0x1ADAD47D, 0x6DDDE4EB, 0xF4D4B551, 0x83D385C7,
    0x136C9856, 0x646BA8C0, 0xFD62F97A, 0x8A65C9EC, 0x14015C4F, 0x63066CD9,
    0xFA0F3D63, 0x8D080DF5, 0x3B6E20C8, 0x4C69105E, 0xD56041E4, 0xA2677172,
    0x3C03E4D1, 0x4B04D447, 0xD20D85FD, 0xA50AB56B, 0x35B5A8FA, 0x42B2986C,
    0xDBBBC9D6, 0xACBCF940, 0x32D86CE3, 0x45DF5C75, 0xDCD60DCF, 0xABD13D59,
    0x26D930AC, 0x51DE003A, 0xC8D75180, 0xBFD06116, 0x21B4F4B5, 0x56B3C423,
    0xCFBA9599, 0xB8BDA50F, 0x2802B89E, 0x5F058808, 0xC60CD9B2, 0xB10BE924,
    0x2F6F7C87, 0x58684C11, 0xC1611DAB, 0xB6662D3D, 0x76DC4190, 0x01DB7106,
    0x98D220BC, 0xEFD5102A, 0x71B18589, 0x06B6B51F, 0x9FBFE4A5, 0xE8B8D433,
    0x7807C9A2, 0x0F00F934, 0x9609A88E, 0xE10E9818, 0x7F6A0DBB, 0x086D3D2D,
    0x91646C97, 0xE6635C01, 0x6B6B51F4, 0x1C6C6162, 0x856530D8, 0xF262004E,
    0x6C0695ED, 0x1B01A57B, 0x8208F4C1, 0xF50FC457, 0x65B0D9C6, 0x12B7E950,
    0x8BBEB8EA, 0xFCB9887C, 0x62DD1DDF, 0x15DA2D49, 0x8CD37CF3, 0xFBD44C65,
    0x4DB26158, 0x3AB551CE, 0xA3BC0074, 0xD4BB30E2, 0x4ADFA541, 0x3DD895D7,
    0xA4D1C46D, 0xD3D6F4FB, 0x4369E96A, 0x346ED9FC, 0xAD678846, 0xDA60B8D0,
    0x44042D73, 0x33031DE5, 0xAA0A4C5F, 0xDD0D7CC9, 0x5005713C, 0x270241AA,
    0xBE0B1010, 0xC90C2086, 0x5768B525, 0x206F85B3, 0xB966D409, 0xCE61E49F,
    0x5EDEF90E, 0x29D9C998, 0xB0D09822, 0xC7D7A8B4, 0x59B33D17, 0x2EB40D81,
    0xB7BD5C3B, 0xC0BA6CAD, 0xEDB88320, 0x9ABFB3B6, 0x03B6E20C, 0x74B1D29A,
    0xEAD54739, 0x9DD277AF, 0x04DB2615, 0x73DC1683, 0xE3630B12, 0x94643B84,
    0x0D6D6A3E, 0x7A6A5AA8, 0xE40ECF0B, 0x9309FF9D, 0x0A00AE27, 0x7D079EB1,
    0xF00F9344, 0x8708A3D2, 0x1E01F268, 0x6906C2FE, 0xF762575D, 0x806567CB,
    0x196C3671, 0x6E6B06E7, 0xFED41B76, 0x89D32BE0, 0x10DA7A5A, 0x67DD4ACC,
    0xF9B9DF6F, 0x8EBEEFF9, 0x17B7BE43, 0x60B08ED5, 0xD6D6A3E8, 0xA1D1937E,
    0x38D8C2C4, 0x4FDFF252, 0xD1BB67F1, 0xA6BC5767, 0x3FB506DD, 0x48B2364B,
    0xD80D2BDA, 0xAF0A1B4C, 0x36034AF6, 0x41047A60, 0xDF60EFC3, 0xA867DF55,
    0x316E8EEF, 0x4669BE79, 0xCB61B38C, 0xBC66831A, 0x256FD2A0, 0x5268E236,
    0xCC0C7795, 0xBB0B4703, 0x220216B9, 0x5505262F, 0xC5BA3BBE, 0xB2BD0B28,
    0x2BB45A92, 0x5CB36A04, 0xC2D7FFA7, 0xB5D0CF31, 0x2CD99E8B, 0x5BDEAE1D,
    0x9B64C2B0, 0xEC63F226, 0x756AA39C, 0x026D930A, 0x9C0906A9, 0xEB0E363F,
    0x72076785, 0x05005713, 0x95BF4A82, 0xE2B87A14, 0x7BB12BAE, 0x0CB61B38,
    0x92D28E9B, 0xE5D5BE0D, 0x7CDCEFB7, 0x0BDBDF21, 0x86D3D2D4, 0xF1D4E242,
    0x68DDB3F8, 0x1FDA836E, 0x81BE16CD, 0xF6B9265B, 0x6FB077E1, 0x18B74777,
    0x88085AE6, 0xFF0F6A70, 0x66063BCA, 0x11010B5C, 0x8F659EFF, 0xF862AE69,
    0x616BFFD3, 0x166CCF45, 0xA00AE278, 0xD70DD2EE, 0x4E048354, 0x3903B3C2,
    0xA7672661, 0xD06016F7, 0x4969474D, 0x3E6E77DB, 0xAED16A4A, 0xD9D65ADC,
    0x40DF0B66, 0x37D83BF0, 0xA9BCAE53, 0xDEBB9EC5, 0x47B2CF7F, 0x30B5FFE9,
    0xBDBDF21C, 0xCABAC28A, 0x53B39330, 0x24B4A3A6, 0xBAD03605, 0xCDD70693,
    0x54DE5729, 0x23D967BF, 0xB3667A2E, 0xC4614AB8, 0x5D681B02, 0x2A6F2B94,
    0xB40BBE37, 0xC30C8EA1, 0x5A05DF1B, 0x2D02EF8D]"

text \<open>The loop that computes the length looks at the second character first.\<close>

function length_loop :: "u8 list \<Rightarrow> nat \<Rightarrow> nat option" where
  "length_loop mem n = (if n + 1 < length mem
     then if mem ! (n + 1) \<noteq> 0 then length_loop mem (n + 1) else Some (n + 1)
     else None)"
  by pat_completeness auto
termination
  by (relation "measure (\<lambda>(mem, n). length mem - n)") auto

declare length_loop.simps [simp del]

definition table_at :: "'a list \<Rightarrow> int \<Rightarrow> 'a option" where
  "table_at table i = (if 0 \<le> i \<and> i < int (length table) then Some (table ! nat i) else None)"

definition crc8_step :: "u8 \<Rightarrow> u16 \<Rightarrow> u16 option" where
  "crc8_step c crc8 = table_at crc8_lookup_table (uint crc8 XOR sint c)"

definition crc8gen :: "u8 list \<Rightarrow> u16 option" where
  "crc8gen buffer = do { n \<leftarrow> length_loop buffer 0; for_range crc8_step (take n buffer) 0 }"

definition crc8cmp :: "u8 list \<Rightarrow> u8 list \<Rightarrow> bool option" where
  "crc8cmp what other = do { x \<leftarrow> crc8gen what; y \<leftarrow> crc8gen other; Some (x = y) }"

definition crc16_step :: "u8 \<Rightarrow> u16 \<Rightarrow> u16 option" where
  "crc16_step c crc16 = do {
     x \<leftarrow> table_at crc16_lookup_table ((uint crc16 AND 0xFF) XOR sint c);
     Some (drop_bit 8 crc16 XOR x) }"

definition crc16gen :: "u8 list \<Rightarrow> u16 option" where
  "crc16gen buffer = do { n \<leftarrow> length_loop buffer 0; for_range crc16_step (take n buffer) 0xFFFF }"

definition crc16cmp :: "u8 list \<Rightarrow> u8 list \<Rightarrow> bool option" where
  "crc16cmp what other = do { x \<leftarrow> crc16gen what; y \<leftarrow> crc16gen other; Some (x = y) }"

text \<open>The variable \<open>crc32\<close> is a signed number of 64 bits, which the loop keeps below \<open>2 ^ 32\<close>.\<close>

definition crc32_step :: "u8 \<Rightarrow> u64 \<Rightarrow> u64 option" where
  "crc32_step c crc32 = do {
     x \<leftarrow> table_at lightning_crc32_table (uint ((crc32 XOR scast c) AND 0xFF));
     Some (drop_bit 8 crc32 XOR x) }"

definition crc32gen :: "u8 list \<Rightarrow> u64 option" where
  "crc32gen buffer = do {
     n \<leftarrow> length_loop buffer 0;
     crc32 \<leftarrow> for_range crc32_step (take n buffer) 0xFFFFFFFF;
     Some (crc32 XOR 0xFFFFFFFF) }"

definition crc32cmp :: "u8 list \<Rightarrow> u8 list \<Rightarrow> bool option" where
  "crc32cmp what other = do { x \<leftarrow> crc32gen what; y \<leftarrow> crc32gen other; Some (x = y) }"

subsection \<open>The tables\<close>

definition msb_step :: "u8 \<Rightarrow> u8" where
  "msb_step x = (if bit x 7 then 0x07 else 0) XOR push_bit 1 x"

definition reflected_step :: "'a :: len word \<Rightarrow> 'a word \<Rightarrow> 'a word" where
  "reflected_step poly x = (if odd x then poly else 0) XOR drop_bit 1 x"

text \<open>A table of a linear function is determined by its entries for single bits.\<close>

primrec doubled :: "'a :: len word list \<Rightarrow> 'a word list" where
  "doubled [] = [0]"
| "doubled (g # gs) = doubled gs @ map (\<lambda>x. g XOR x) (doubled gs)"

definition linear_xor :: "('a :: len word \<Rightarrow> 'b :: len word) \<Rightarrow> bool" where
  "linear_xor f \<longleftrightarrow> (\<forall>x y. f (x XOR y) = f x XOR f y)"

lemma linear_xor_zero: "linear_xor f \<Longrightarrow> f 0 = 0"
  unfolding linear_xor_def by (metis xor_self_eq)

lemma linear_funpow: "linear_xor (f :: 'a :: len word \<Rightarrow> 'a word) \<Longrightarrow> linear_xor (f ^^ n)"
  by (induction n) (simp_all add: linear_xor_def)

lemma of_nat_add_xor:
  assumes "i < 2 ^ n" "n < LENGTH('a :: len)"
  shows "(of_nat (2 ^ n + i) :: 'a word) = 2 ^ n XOR of_nat i"
proof -
  have "\<not> bit i n" using assms(1) by (simp add: bit_iff_odd)
  then have "(2 ^ n :: 'a word) AND of_nat i = 0"
    by (intro bit_word_eqI) (auto simp: bit_simps)
  then show ?thesis by (simp add: disjunctive_add_eq_xor)
qed

lemma doubled_table:
  fixes f :: "'a :: len word \<Rightarrow> 'b :: len word"
  assumes "linear_xor f" "n \<le> LENGTH('a)"
  shows "doubled (map (\<lambda>k. f (2 ^ k)) (rev [0..<n])) = map (\<lambda>i. f (of_nat i)) [0..<2 ^ n]"
  using assms(2)
proof (induction n)
  case 0
  then show ?case using linear_xor_zero[OF assms(1)] by simp
next
  case (Suc n)
  have upper: "map (\<lambda>i. f (of_nat i)) [2 ^ n..<2 ^ n + 2 ^ n] = map (\<lambda>i. f (of_nat (2 ^ n + i))) [0..<2 ^ n]"
    by (rule nth_equalityI) simp_all
  have "map (\<lambda>i. f (of_nat (2 ^ n + i))) [0..<2 ^ n] = map (\<lambda>i. f (2 ^ n) XOR f (of_nat i)) [0..<2 ^ n]"
    using Suc.prems assms(1) of_nat_add_xor[of _ n, where 'a = 'a]
    by (intro map_cong) (simp_all add: linear_xor_def del: of_nat_add)
  then have "map (\<lambda>i. f (of_nat i)) [0..<2 ^ Suc n] =
      map (\<lambda>i. f (of_nat i)) [0..<2 ^ n] @ map (\<lambda>i. f (2 ^ n) XOR f (of_nat i)) [0..<2 ^ n]"
    using upper upt_add_eq_append[of 0 "2 ^ n" "2 ^ n"] by (simp add: mult_2)
  then show ?case using Suc by simp
qed

lemma linear_msb: "linear_xor msb_step"
  unfolding linear_xor_def msb_step_def by (auto simp: bit_simps push_bit_xor ac_simps)

lemma linear_reflected: "linear_xor (reflected_step poly)"
  unfolding linear_xor_def reflected_step_def by (auto simp: even_xor_iff drop_bit_xor ac_simps)

lemma eight: "(f ^^ 8) x = f (f (f (f (f (f (f (f x)))))))"
  by (simp add: eval_nat_numeral)

lemma bytes_bits: "rev [0..<8] = [7, 6, 5, 4, 3, 2, 1, 0 :: nat]"
  by (simp add: upt_rec)

lemma crc8_table: "map ucast crc8_lookup_table = map (\<lambda>i. (msb_step ^^ 8) (of_nat i)) [0..<2 ^ 8]"
proof -
  have "map ucast crc8_lookup_table = doubled (map (\<lambda>k. (msb_step ^^ 8) (2 ^ k)) (rev [0..<8]))"
    unfolding bytes_bits list.map eight by (simp add: crc8_lookup_table_def msb_step_def)
  then show ?thesis by (subst (asm) doubled_table[OF linear_funpow[OF linear_msb]]) simp
qed

lemma crc16_table: "map ucast crc16_lookup_table = map (\<lambda>i. (reflected_step 0xA001 ^^ 8) (of_nat i :: u16)) [0..<2 ^ 8]"
proof -
  have "map ucast crc16_lookup_table = doubled (map (\<lambda>k. (reflected_step 0xA001 ^^ 8) (2 ^ k :: u16)) (rev [0..<8]))"
    unfolding bytes_bits list.map eight by (simp add: crc16_lookup_table_def reflected_step_def)
  then show ?thesis by (subst (asm) doubled_table[OF linear_funpow[OF linear_reflected]]) simp
qed

lemma crc32_table:
  "map ucast lightning_crc32_table = map (\<lambda>i. (reflected_step 0xEDB88320 ^^ 8) (of_nat i :: u32)) [0..<2 ^ 8]"
proof -
  have "map ucast lightning_crc32_table = doubled (map (\<lambda>k. (reflected_step 0xEDB88320 ^^ 8) (2 ^ k :: u32)) (rev [0..<8]))"
    unfolding bytes_bits list.map eight by (simp add: lightning_crc32_table_def reflected_step_def)
  then show ?thesis by (subst (asm) doubled_table[OF linear_funpow[OF linear_reflected]]) simp
qed

lemma table_lengths [simp]:
  "length crc8_lookup_table = 256" "length crc16_lookup_table = 256" "length lightning_crc32_table = 256"
  by (simp_all add: crc8_lookup_table_def crc16_lookup_table_def lightning_crc32_table_def)

lemma mapped_entry:
  assumes "map g table = map f [0..<2 ^ 8]" "i < 256"
  shows "g (table ! i) = f i"
proof -
  have "length table = 2 ^ 8" using arg_cong[OF assms(1), of length] by simp
  then show ?thesis using arg_cong[OF assms(1), of "\<lambda>xs. xs ! i"] assms(2) by (simp del: upt_rec_numeral)
qed

lemma crc8_table_wide: "crc8_lookup_table = map (ucast :: u8 \<Rightarrow> u16) (map ucast crc8_lookup_table)"
  by (simp add: crc8_lookup_table_def)

lemma crc32_table_wide: "lightning_crc32_table = map (ucast :: u32 \<Rightarrow> u64) (map ucast lightning_crc32_table)"
  by (simp add: lightning_crc32_table_def)

lemma table_entries:
  assumes "i < 256"
  shows "crc8_lookup_table ! i = ucast ((msb_step ^^ 8) (of_nat i))"
    "crc16_lookup_table ! i = (reflected_step 0xA001 ^^ 8) (of_nat i)"
    "lightning_crc32_table ! i = ucast ((reflected_step 0xEDB88320 ^^ 8) (of_nat i :: u32))"
proof -
  show "crc8_lookup_table ! i = ucast ((msb_step ^^ 8) (of_nat i))"
    using assms mapped_entry[OF crc8_table assms] by (subst crc8_table_wide) simp
  show "crc16_lookup_table ! i = (reflected_step 0xA001 ^^ 8) (of_nat i)"
    using mapped_entry[OF crc16_table assms] by simp
  show "lightning_crc32_table ! i = ucast ((reflected_step 0xEDB88320 ^^ 8) (of_nat i :: u32))"
    using assms mapped_entry[OF crc32_table assms] by (subst crc32_table_wide) simp
qed

subsection \<open>One character\<close>

lemma high_bits:
  "8 \<le> n \<Longrightarrow> \<not> bit (c :: u8) n" "16 \<le> n \<Longrightarrow> \<not> bit (r :: u16) n" "32 \<le> n \<Longrightarrow> \<not> bit (x :: u32) n"
  by (auto dest: bit_imp_le_length)

text \<open>An equation between words or numbers made of words is checked bit by bit; the cases are the widths.\<close>

lemma bits_by_width:
  assumes "\<And>n. n < 7 \<Longrightarrow> bit x n = bit y n" "bit x 7 = bit y 7" "\<And>n. 8 \<le> n \<Longrightarrow> n < 16 \<Longrightarrow> bit x n = bit y n"
    "\<And>n. 16 \<le> n \<Longrightarrow> bit x n = bit y n"
  shows "bit x n = bit y n"
proof -
  consider "n < 7" | "n = 7" | "8 \<le> n" "n < 16" | "16 \<le> n" by linarith
  then show ?thesis using assms by cases simp_all
qed

lemma table_at_uint: "table_at t (uint x) = (if unat x < length t then Some (t ! unat x) else None)"
  by (simp only: table_at_def uint_nat of_nat_0_le_iff of_nat_less_iff nat_int simp_thms)

lemma sint_negative: "bit (c :: u8) 7 \<Longrightarrow> sint c < 0"
  using bit_last_iff[of c] by simp

lemma sint_ascii: "\<not> bit (c :: u8) 7 \<Longrightarrow> sint c = uint c"
  by (rule bit_eqI, rule bits_by_width) (auto simp: bit_simps high_bits min_def)

lemma crc8_step_ascii:
  "crc8_step c (ucast (r :: u8)) = (if bit c 7 then None else Some (ucast ((msb_step ^^ 8) (r XOR c))))"
proof (cases "bit c 7")
  case True
  then have "uint (ucast r :: u16) XOR sint c < 0" using sint_negative by (simp add: xor_negative_int_iff)
  then show ?thesis using True by (simp add: crc8_step_def table_at_def)
next
  case False
  have "uint (ucast r :: u16) XOR sint c = uint (r XOR c)"
    unfolding sint_ascii[OF False] by (rule bit_eqI, rule bits_by_width) (auto simp: bit_simps high_bits)
  moreover have "unat (r XOR c) < 256" using unsigned_less[of "r XOR c"] by simp
  ultimately show ?thesis
    using False table_entries(1)[of "unat (r XOR c)"] by (simp add: crc8_step_def table_at_uint)
qed

lemma funpow_reflected_shifted:
  "(\<And>i. i < k \<Longrightarrow> \<not> bit x i) \<Longrightarrow> (reflected_step p ^^ k) x = drop_bit k x"
proof (induction k arbitrary: x)
  case (Suc k)
  then have "even x" using bit_0[of x] by blast
  then have "(reflected_step p ^^ Suc k) x = (reflected_step p ^^ k) (drop_bit 1 x)"
    by (simp add: reflected_step_def funpow_swap1)
  also have "\<dots> = drop_bit k (drop_bit 1 x)"
    using Suc.prems by (intro Suc.IH) (simp add: bit_drop_bit_eq)
  finally show ?case by (simp add: drop_bit_drop_bit)
qed simp

lemma reflected_split: "(reflected_step p ^^ 8) (x :: u16) = drop_bit 8 x XOR (reflected_step p ^^ 8) (x AND 0xFF)"
proof -
  have mask: "(0xFF :: u16) = mask 8" by (simp add: mask_eq_exp_minus_1)
  have x: "x = push_bit 8 (drop_bit 8 x) XOR (x AND 0xFF)"
    unfolding mask by (intro bit_word_eqI) (auto simp: bit_simps)
  have "(reflected_step p ^^ 8) x = (reflected_step p ^^ 8) (push_bit 8 (drop_bit 8 x)) XOR (reflected_step p ^^ 8) (x AND 0xFF)"
    using linear_funpow[OF linear_reflected] unfolding linear_xor_def by (subst x) blast
  also have "(reflected_step p ^^ 8) (push_bit 8 (drop_bit 8 x)) = drop_bit 8 x"
    by (subst funpow_reflected_shifted, simp add: bit_simps, rule bit_word_eqI, rule bits_by_width)
      (auto simp: bit_simps high_bits)
  finally show ?thesis .
qed

lemma crc16_step_ascii:
  "crc16_step c r = (if bit c 7 then None else Some ((reflected_step 0xA001 ^^ 8) (r XOR ucast c)))"
proof (cases "bit c 7")
  case True
  then have "(uint r AND 0xFF) XOR sint c < 0" using sint_negative by (simp add: xor_negative_int_iff)
  then show ?thesis using True by (simp add: crc16_step_def table_at_def)
next
  case False
  let ?x = "r XOR ucast c"
  have mask: "(0xFF :: int) = mask 8" "(0xFF :: u16) = mask 8" by (simp_all add: mask_eq_exp_minus_1)
  have index: "(uint r AND 0xFF) XOR sint c = uint (?x AND 0xFF)"
    unfolding sint_ascii[OF False] mask by (rule bit_eqI, rule bits_by_width) (auto simp: bit_simps high_bits)
  have "?x AND 0xFF \<le> 0xFF" by (rule word_and_le1)
  then have "unat (?x AND 0xFF) < 256" by (simp add: word_le_nat_alt)
  moreover have "drop_bit 8 ?x = drop_bit 8 r"
    by (intro bit_word_eqI) (auto simp: bit_simps dest: bit_imp_le_length)
  ultimately show ?thesis
    using False index table_entries(2)[of "unat (?x AND 0xFF)"] reflected_split[of "0xA001" ?x]
    by (simp add: crc16_step_def table_at_uint)
qed

lemma lfsr_reflected: "lfsr = reflected_step 0xEDB88320"
  by (simp add: fun_eq_iff lfsr_def reflected_step_def)

lemma crc32_step_bytes: "crc32_step c (ucast (r :: u32)) = Some (ucast (crc32_bytes_step r c))"
proof -
  let ?x = "(r XOR ucast c) AND 0xFF"
  have mask: "(0xFF :: u64) = mask 8" "(0xFF :: u32) = mask 8" by (simp_all add: mask_eq_exp_minus_1)
  have index: "uint ((ucast r XOR scast c) AND (0xFF :: u64)) = uint ?x"
    unfolding mask by (rule bit_eqI, rule bits_by_width) (auto simp: bit_simps high_bits min_def)
  have less: "unat ?x < 256" by (rule and_0xFF_less)
  have entry: "lightning_crc32_table ! unat ?x = ucast (crc32_lookup_table ! unat ?x)"
    using table_entries(3)[OF less] lookup_table[OF less] by (simp add: lfsr8_def lfsr_reflected)
  have "drop_bit 8 (ucast r :: u64) = ucast (drop_bit 8 r)"
    by (intro bit_word_eqI) (auto simp: bit_simps dest: bit_imp_le_length)
  then show ?thesis
    using less entry unfolding crc32_step_def index table_at_uint crc32_bytes_step_def
    by (simp add: unsigned_xor_eq)
qed

subsection \<open>Strings\<close>

definition crc8_bits :: "u8 list \<Rightarrow> u8" where
  "crc8_bits m = foldl (\<lambda>r b. (msb_step ^^ 8) (r XOR b)) 0 m"

definition crc16_bits :: "u8 list \<Rightarrow> u16" where
  "crc16_bits m = foldl (\<lambda>r b. (reflected_step 0xA001 ^^ 8) (r XOR ucast b)) 0xFFFF m"

lemma length_loop_string:
  "0 \<notin> set s \<Longrightarrow> n < length s \<Longrightarrow> length_loop (s @ 0 # rest) n = Some (length s)"
proof (induction "length s - n" arbitrary: n)
  case (Suc k)
  show ?case
  proof (cases "n + 1 = length s")
    case False
    then have "n + 1 < length s" using Suc.prems(2) by simp
    then have "(s @ 0 # rest) ! (n + 1) \<in> set s" by (simp add: nth_append)
    then have "(s @ 0 # rest) ! (n + 1) \<noteq> 0" using Suc.prems(1) by metis
    then show ?thesis using Suc False by (subst length_loop.simps) simp
  qed (subst length_loop.simps, use Suc.prems in \<open>simp add: nth_append\<close>)
qed simp

lemma steps_fold:
  assumes "\<And>r c. step c (g r) = (if bad c then None else Some (g (h r c)))"
  shows "for_range step s (g r) = (if \<exists>c \<in> set s. bad c then None else Some (g (foldl h r s)))"
  by (induction s arbitrary: r) (auto simp: assms)

text \<open>
  on every non-empty string, CRC-8 and CRC-16 are the checksums of the shift registers with the polynomials \<open>0x07\<close> and
  \<open>0x8005\<close> (reflected, starting with ones) if all characters are ASCII, and read outside their tables otherwise; CRC-32 returns on all
  strings and is the same checksum that \<open>crc32.hpp\<close> computes.
\<close>

theorem lightning_checksums:
  assumes "s \<noteq> []" "0 \<notin> set s"
  shows "crc8gen (s @ 0 # rest) = (if \<exists>c \<in> set s. bit c 7 then None else Some (ucast (crc8_bits s)))"
    and "crc16gen (s @ 0 # rest) = (if \<exists>c \<in> set s. bit c 7 then None else Some (crc16_bits s))"
    and "crc32gen (s @ 0 # rest) = Some (ucast (crc32_bytes s))"
proof -
  have len: "length_loop (s @ 0 # rest) 0 = Some (length s)" using length_loop_string[OF assms(2), of 0 rest] assms(1) by simp
  show "crc8gen (s @ 0 # rest) = (if \<exists>c \<in> set s. bit c 7 then None else Some (ucast (crc8_bits s)))"
    using steps_fold[where g = ucast and r = 0 and step = crc8_step and bad = "\<lambda>c. bit c 7" and s = s, OF crc8_step_ascii] by (simp add: crc8gen_def len crc8_bits_def)
  show "crc16gen (s @ 0 # rest) = (if \<exists>c \<in> set s. bit c 7 then None else Some (crc16_bits s))"
    using steps_fold[where g = "\<lambda>r. r" and r = "0xFFFF" and step = crc16_step and bad = "\<lambda>c. bit c 7" and s = s, OF crc16_step_ascii] by (simp add: crc16gen_def len crc16_bits_def)
  have "for_range crc32_step s (ucast (0xFFFFFFFF :: u32)) = Some (ucast (foldl crc32_bytes_step 0xFFFFFFFF s))"
    using steps_fold[where g = ucast and bad = "\<lambda>_. False", of crc32_step crc32_bytes_step s "0xFFFFFFFF"] crc32_step_bytes
    by simp
  then have "for_range crc32_step s 0xFFFFFFFF = Some (ucast (foldl crc32_bytes_step 0xFFFFFFFF s))" by simp
  then show "crc32gen (s @ 0 # rest) = Some (ucast (crc32_bytes s))"
    by (simp add: crc32gen_def len crc32_bytes_def unsigned_xor_eq)
qed

lemma lightning_checksums_witness:
  "crc16gen ([0x31, 0x32] @ 0 # [7]) = Some (crc16_bits [0x31, 0x32]) \<and> crc8gen ([0x31, 0xB2] @ 0 # []) = None \<and>
   crc32gen ([0x31] @ 0 # []) = Some (ucast (crc32_bytes [0x31]))"
  using lightning_checksums(2)[of "[0x31, 0x32]" "[7]"] lightning_checksums(1)[of "[0x31, 0xB2]" "[]"]
    lightning_checksums(3)[of "[0x31]" "[]"]
  by (simp add: bit_numeral_rec)

text \<open>The empty string is read beyond its end, and equal checksums do not mean equal strings.\<close>

lemma lightning_empty: "crc8gen [0] = None" "crc16gen [0] = None" "crc32gen [0] = None"
  by (simp_all add: crc8gen_def crc16gen_def crc32gen_def length_loop.simps)

lemma crc8cmp_collision: "crc8cmp [0x01, 0x07, 0] [0x02, 0x0E, 0] = Some True"
  by (simp add: crc8cmp_def crc8gen_def length_loop.simps crc8_step_def table_at_def crc8_lookup_table_def)

end
