(* ===== verification/Roman_Numerals.thy ===== *)
theory Roman_Numerals
  imports Prelude
begin

text \<open>
  The conversion of roman numerals in \<^verbatim>\<open>2022-02-06-leetcode-solutions/roman-to-integer.cpp\<close>: every symbol adds its
  value, and a greater symbol after some I, X or C takes their values off again, twice. Counters are integers; the
  lookup of a symbol that is not in the table throws.
\<close>

subsection \<open>The program\<close>

record counters =
  output_value :: int
  ones_reached :: int
  decimals_reached :: int
  hundreds_reached :: int

definition priorities :: "char \<Rightarrow> int option" where
  "priorities = [CHR ''I'' \<mapsto> 1, CHR ''V'' \<mapsto> 2, CHR ''X'' \<mapsto> 3, CHR ''L'' \<mapsto> 4, CHR ''C'' \<mapsto> 5, CHR ''D'' \<mapsto> 6, CHR ''M'' \<mapsto> 7]"

definition priority_at :: "char \<Rightarrow> cxx_exception + int" where
  "priority_at symbol = (case priorities symbol of None \<Rightarrow> Inl (out_of_range ''_Map_base::at'') | Some p \<Rightarrow> Inr p)"

definition symbol_value :: "char \<Rightarrow> int" where
  "symbol_value symbol =
     (if symbol = CHR ''V'' then 5 else if symbol = CHR ''X'' then 10 else if symbol = CHR ''L'' then 50
      else if symbol = CHR ''C'' then 100 else if symbol = CHR ''D'' then 500 else if symbol = CHR ''M'' then 1000 else 0)"

text \<open>One of the three conditions: something is counted, and the symbol stands above the counted one.\<close>

definition exceeds :: "int \<Rightarrow> char \<Rightarrow> int \<Rightarrow> cxx_exception + bool" where
  "exceeds reached symbol p = (if 0 < reached then map_sum id (\<lambda>q. p < q) (priority_at symbol) else Inr False)"

definition then_do :: "'e + 'a \<Rightarrow> ('a \<Rightarrow> 'e + 'b) \<Rightarrow> 'e + 'b" where
  "then_do r f = (case r of Inl e \<Rightarrow> Inl e | Inr x \<Rightarrow> f x)"

definition roman_step :: "char \<Rightarrow> counters \<Rightarrow> cxx_exception + counters" where
  "roman_step symbol c =
     (if symbol = CHR ''I'' then Inr (c\<lparr>output_value := output_value c + 1, ones_reached := ones_reached c + 1\<rparr>)
      else let c = c\<lparr>output_value := output_value c + symbol_value symbol\<rparr> in
        then_do (exceeds (ones_reached c) symbol 1) (\<lambda>b.
        let c = (if b then c\<lparr>output_value := output_value c - ones_reached c * 2, ones_reached := 0\<rparr> else c) in
        then_do (exceeds (decimals_reached c) symbol 3) (\<lambda>b.
        let c = (if b then c\<lparr>output_value := output_value c - (10 * decimals_reached c) * 2, decimals_reached := 0\<rparr> else c) in
        then_do (exceeds (hundreds_reached c) symbol 5) (\<lambda>b.
        let c = (if b then c\<lparr>output_value := output_value c - (100 * hundreds_reached c) * 2, hundreds_reached := 0\<rparr> else c) in
        Inr (if symbol = CHR ''X'' then c\<lparr>decimals_reached := decimals_reached c + 1\<rparr>
             else if symbol = CHR ''C'' then c\<lparr>hundreds_reached := hundreds_reached c + 1\<rparr> else c)))))"

fun roman_loop :: "string \<Rightarrow> counters \<Rightarrow> cxx_exception + counters" where
  "roman_loop [] c = Inr c"
| "roman_loop (symbol # input) c = then_do (roman_step symbol c) (roman_loop input)"

definition roman_to_int :: "string \<Rightarrow> cxx_exception + int" where
  "roman_to_int input = map_sum id output_value
     (roman_loop input \<lparr>output_value = 0, ones_reached = 0, decimals_reached = 0, hundreds_reached = 0\<rparr>)"

subsection \<open>Numerals\<close>

text \<open>The usual spelling of a decimal digit with the symbols for one, five and ten.\<close>

definition digit_text :: "char \<Rightarrow> char \<Rightarrow> char \<Rightarrow> nat \<Rightarrow> string" where
  "digit_text a b c d = [[], [a], [a, a], [a, a, a], [a, b], [b], [b, a], [b, a, a], [b, a, a, a], [a, c]] ! d"

definition roman :: "nat \<Rightarrow> string" where
  "roman n = replicate (n div 1000) (CHR ''M'') @ digit_text (CHR ''C'') (CHR ''D'') (CHR ''M'') (n div 100 mod 10) @
     digit_text (CHR ''X'') (CHR ''L'') (CHR ''C'') (n div 10 mod 10) @ digit_text (CHR ''I'') (CHR ''V'') (CHR ''X'') (n mod 10)"

lemma roman_loop_append: "roman_loop (xs @ ys) c = then_do (roman_loop xs c) (roman_loop ys)"
  by (induction xs arbitrary: c) (auto simp: then_do_def split: sum.splits)

lemmas roman_run = roman_step_def exceeds_def priority_at_def priorities_def then_do_def symbol_value_def Let_def

lemma digit_less_10: "d < 10 \<Longrightarrow> d \<in> {0, 1, 2, 3, 4, 5, 6, 7, 8, 9 :: nat}"
  by auto

lemma thousands:
  "roman_loop (replicate k (CHR ''M'')) \<lparr>output_value = v, ones_reached = 0, decimals_reached = 0, hundreds_reached = 0\<rparr> =
     Inr \<lparr>output_value = v + 1000 * int k, ones_reached = 0, decimals_reached = 0, hundreds_reached = 0\<rparr>"
  by (induction k arbitrary: v) (simp_all add: roman_run)

lemma hundreds:
  "d < 10 \<Longrightarrow> \<exists>h \<ge> 0. roman_loop (digit_text (CHR ''C'') (CHR ''D'') (CHR ''M'') d)
      \<lparr>output_value = v, ones_reached = 0, decimals_reached = 0, hundreds_reached = 0\<rparr> =
     Inr \<lparr>output_value = v + 100 * int d, ones_reached = 0, decimals_reached = 0, hundreds_reached = h\<rparr>"
  by (drule digit_less_10) (auto simp: digit_text_def roman_run)

lemma tens:
  "d < 10 \<Longrightarrow> 0 \<le> h \<Longrightarrow> \<exists>t \<ge> 0. \<exists>h' \<ge> 0. roman_loop (digit_text (CHR ''X'') (CHR ''L'') (CHR ''C'') d)
      \<lparr>output_value = v, ones_reached = 0, decimals_reached = 0, hundreds_reached = h\<rparr> =
     Inr \<lparr>output_value = v + 10 * int d, ones_reached = 0, decimals_reached = t, hundreds_reached = h'\<rparr>"
  by (drule digit_less_10) (auto simp: digit_text_def roman_run)

lemma ones:
  "d < 10 \<Longrightarrow> 0 \<le> t \<Longrightarrow> 0 \<le> h \<Longrightarrow> map_sum id output_value (roman_loop (digit_text (CHR ''I'') (CHR ''V'') (CHR ''X'') d)
      \<lparr>output_value = v, ones_reached = 0, decimals_reached = t, hundreds_reached = h\<rparr>) = Inr (v + int d)"
  by (drule digit_less_10) (auto simp: digit_text_def roman_run)

text \<open>the function is a left inverse of the usual spelling of the numbers below 4000, and of all larger ones
  with repeated M.\<close>

theorem roman_to_int_correct: "roman_to_int (roman n) = Inr (int n)"
proof -
  let ?s = "\<lambda>v t h. \<lparr>output_value = v, ones_reached = 0, decimals_reached = t, hundreds_reached = h\<rparr>"
  have digits: "n div 100 mod 10 < 10" "n div 10 mod 10 < 10" "n mod 10 < 10" by simp_all
  obtain h where h: "0 \<le> h" "roman_loop (digit_text (CHR ''C'') (CHR ''D'') (CHR ''M'') (n div 100 mod 10))
      (?s (1000 * int (n div 1000)) 0 0) = Inr (?s (1000 * int (n div 1000) + 100 * int (n div 100 mod 10)) 0 h)"
    using hundreds[OF digits(1)] by blast
  obtain t h' where t: "0 \<le> t" "0 \<le> h'" "roman_loop (digit_text (CHR ''X'') (CHR ''L'') (CHR ''C'') (n div 10 mod 10))
      (?s (1000 * int (n div 1000) + 100 * int (n div 100 mod 10)) 0 h) =
      Inr (?s (1000 * int (n div 1000) + 100 * int (n div 100 mod 10) + 10 * int (n div 10 mod 10)) t h')"
    using tens[OF digits(2) h(1)] by blast
  have "roman_to_int (roman n) =
      Inr (1000 * int (n div 1000) + 100 * int (n div 100 mod 10) + 10 * int (n div 10 mod 10) + int (n mod 10))"
    unfolding roman_to_int_def roman_def roman_loop_append thousands then_do_def sum.case add_0_left h(2) t(3)
    by (rule ones[OF digits(3) t(1,2)])
  moreover have "1000 * (n div 1000) + 100 * (n div 100 mod 10) + 10 * (n div 10 mod 10) + n mod 10 = n"
  proof -
    have "n div 10 div 10 = n div 100" "n div 100 div 10 = n div 1000" by (simp_all add: div_mult2_eq[symmetric])
    then show ?thesis
      using div_mult_mod_eq[of n 10] div_mult_mod_eq[of "n div 10" 10] div_mult_mod_eq[of "n div 100" 10] by linarith
  qed
  then have "int (1000 * (n div 1000) + 100 * (n div 100 mod 10) + 10 * (n div 10 mod 10) + n mod 10) = int n"
    by (simp only:)
  then have "1000 * int (n div 1000) + 100 * int (n div 100 mod 10) + 10 * int (n div 10 mod 10) + int (n mod 10) = int n"
    by (simp only: of_nat_add of_nat_mult of_nat_numeral)
  ultimately show ?thesis by (simp only:)
qed

text \<open>A character outside the table is ignored, but throws after a counted symbol.\<close>

lemma roman_unknown_symbol:
  "roman_to_int ''?V'' = Inr 5" "roman_to_int ''I?'' = Inl (out_of_range ''_Map_base::at'')"
  by (simp_all add: roman_to_int_def roman_run)

end
