(* ===== verification/Bi_Map.thy ===== *)
theory Bi_Map
  imports Prelude
begin

text \<open>
  The map with two optional keys of \<^verbatim>\<open>Sandbox/bi_map.hpp\<close>: a map from first to second keys and one from second keys to values.
  Insertions never replace an entry, and a map never has two of one key, so the checks for repeated keys
  never fire. The dereference of \<open>end()\<close> is \<open>None\<close>, exceptions are left summands.
\<close>

subsection \<open>The class\<close>

record ('a, 'b, 'v) bi_map =
  one_two_keys :: "'a option \<Rightarrow> 'b option option"
  parameters :: "'b option \<Rightarrow> 'v option"

datatype bi_map_key = primary | secondary

definition empty_bi_map :: "('a, 'b, 'v) bi_map" where
  "empty_bi_map = \<lparr>one_two_keys = (\<lambda>_. None), parameters = (\<lambda>_. None)\<rparr>"

definition key_count :: "('k \<Rightarrow> 'v option) \<Rightarrow> 'k \<Rightarrow> nat" where
  "key_count m k = (case m k of None \<Rightarrow> 0 | Some _ \<Rightarrow> 1)"

definition map_emplace :: "'k \<Rightarrow> 'v \<Rightarrow> ('k \<Rightarrow> 'v option) \<Rightarrow> 'k \<Rightarrow> 'v option" where
  "map_emplace k v m = (case m k of None \<Rightarrow> m(k \<mapsto> v) | Some _ \<Rightarrow> m)"

definition bi_map_insert :: "'a option \<Rightarrow> 'b option \<Rightarrow> 'v \<Rightarrow> ('a, 'b, 'v) bi_map \<Rightarrow> cxx_exception + ('a, 'b, 'v) bi_map" where
  "bi_map_insert key1 key2 v m =
     (if key1 = None \<and> key2 = None then Inl (invalid_argument ''some text'')
      else if 1 < key_count (one_two_keys m) key1 then Inl (invalid_argument ''some text'')
      else if 1 < key_count (parameters m) key2 then Inl (invalid_argument ''some text'')
      else Inr (m\<lparr>one_two_keys := map_emplace key1 key2 (one_two_keys m), parameters := map_emplace key2 v (parameters m)\<rparr>))"

definition get_by_primary_key :: "'a \<Rightarrow> ('a, 'b, 'v) bi_map \<Rightarrow> (cxx_exception + 'v) option" where
  "get_by_primary_key key m = (case one_two_keys m (Some key) of
      None \<Rightarrow> Some (Inl (out_of_range ''some text''))
    | Some key2 \<Rightarrow> if 1 < key_count (one_two_keys m) (Some key) then Some (Inl (invalid_argument ''some text''))
        else map_option Inr (parameters m key2))"

definition get_by_secondary_key :: "'b \<Rightarrow> ('a, 'b, 'v) bi_map \<Rightarrow> (cxx_exception + 'v) option" where
  "get_by_secondary_key key m = (case parameters m (Some key) of
      None \<Rightarrow> Some (Inl (out_of_range ''some text''))
    | Some v \<Rightarrow> if 1 < key_count (parameters m) (Some key) then Some (Inl (invalid_argument ''some text''))
        else map_option Inr (parameters m (Some key)))"

text \<open>The call operator, at equal key types.\<close>

definition bi_map_call :: "'a \<Rightarrow> bi_map_key \<Rightarrow> ('a, 'a, 'v) bi_map \<Rightarrow> (cxx_exception + 'v) option" where
  "bi_map_call key k m = (if k = primary then get_by_primary_key key m else get_by_secondary_key key m)"

subsection \<open>Insertions in a row\<close>

text \<open>An insertion that throws leaves the map as it is.\<close>

type_synonym ('a, 'b, 'v) entry = "'a option \<times> 'b option \<times> 'v"

definition insert_entry :: "('a, 'b, 'v) entry \<Rightarrow> ('a, 'b, 'v) bi_map \<Rightarrow> ('a, 'b, 'v) bi_map" where
  "insert_entry e m = (case e of (key1, key2, v) \<Rightarrow> (case bi_map_insert key1 key2 v m of Inl _ \<Rightarrow> m | Inr m' \<Rightarrow> m'))"

definition inserted :: "('a, 'b, 'v) entry list \<Rightarrow> ('a, 'b, 'v) bi_map" where
  "inserted es = fold insert_entry es empty_bi_map"

definition usable :: "('a, 'b, 'v) entry \<Rightarrow> bool" where
  "usable e \<longleftrightarrow> fst e \<noteq> None \<or> fst (snd e) \<noteq> None"

text \<open>The first entry of a list of keys and values.\<close>

definition first_of :: "('k \<times> 'v) list \<Rightarrow> 'k \<Rightarrow> 'v option" where
  "first_of = map_of"

definition key_pairs :: "('a, 'b, 'v) entry list \<Rightarrow> ('a option \<times> 'b option) list" where
  "key_pairs es = map (\<lambda>(a, b, v). (a, b)) (filter usable es)"

definition value_pairs :: "('a, 'b, 'v) entry list \<Rightarrow> ('b option \<times> 'v) list" where
  "value_pairs es = map snd (filter usable es)"

lemma count_le_1: "\<not> 1 < key_count m k"
  by (simp add: key_count_def split: option.splits)

lemma map_emplace_first: "map_emplace k v (first_of xs) = first_of (xs @ [(k, v)])"
  by (auto simp: map_emplace_def first_of_def map_add_def fun_eq_iff split: option.splits)

lemma inserted_contents:
  "one_two_keys (inserted es) = first_of (key_pairs es)" "parameters (inserted es) = first_of (value_pairs es)"
proof -
  have "one_two_keys (inserted es) = first_of (key_pairs es) \<and> parameters (inserted es) = first_of (value_pairs es)"
  proof (induction es rule: rev_induct)
    case Nil
    then show ?case by (simp add: inserted_def empty_bi_map_def first_of_def key_pairs_def value_pairs_def fun_eq_iff)
  next
    case (snoc e es)
    obtain a b v where e: "e = (a, b, v)" by (cases e) auto
    show ?case
      using snoc
      by (auto simp: inserted_def insert_entry_def bi_map_insert_def count_le_1[simplified] e key_pairs_def value_pairs_def
          usable_def map_emplace_first)
  qed
  then show "one_two_keys (inserted es) = first_of (key_pairs es)" "parameters (inserted es) = first_of (value_pairs es)"
    by simp_all
qed

lemma second_key_known: "first_of (key_pairs es) a = Some b \<Longrightarrow> first_of (value_pairs es) b \<noteq> None"
proof -
  assume "first_of (key_pairs es) a = Some b"
  then have "(a, b) \<in> set (key_pairs es)" by (simp add: first_of_def map_of_SomeD)
  then have "b \<in> fst ` set (value_pairs es)" by (force simp: key_pairs_def value_pairs_def)
  then show ?thesis by (simp add: first_of_def map_of_eq_None_iff)
qed

text \<open>
  after any insertions a lookup never dereferences \<open>end()\<close>: a first key leads to the second key it was first inserted with
  and to the first value of that one, a second key to its first value, and an unknown key throws.
\<close>

theorem bi_map_lookups:
  "get_by_primary_key a (inserted es) = Some (case first_of (key_pairs es) (Some a) of
      None \<Rightarrow> Inl (out_of_range ''some text'')
    | Some b \<Rightarrow> Inr (the (first_of (value_pairs es) b)))"
  "get_by_secondary_key b (inserted es) = Some (case first_of (value_pairs es) (Some b) of
      None \<Rightarrow> Inl (out_of_range ''some text'')
    | Some v \<Rightarrow> Inr v)"
  using second_key_known[of es "Some a"]
  by (auto simp: get_by_primary_key_def get_by_secondary_key_def inserted_contents count_le_1[simplified] split: option.splits)

text \<open>Two entries without a second key share a value: the second one is lost without an exception.\<close>

lemma bi_map_loses_value:
  "a \<noteq> a' \<Longrightarrow> get_by_primary_key a' (inserted [(Some a, None, v), (Some a', None, v')]) = Some (Inr v)"
  by (simp add: get_by_primary_key_def inserted_contents key_count_def first_of_def key_pairs_def value_pairs_def usable_def)

end
