(* ===== verification/Table_Writer.thy ===== *)
theory Table_Writer
  imports Prelude "HOL-Library.Char_ord"
begin

text \<open>
  The table writer of \<^verbatim>\<open>Sandbox/table_writer.hpp\<close>. Characters are bytes; the width of a column is the largest number of
  UTF-8 characters in it, while \<open>setw\<close> pads to a number of bytes. Cells are strings; \<open>to_string\<close> of an integer is \<open>std_to_string\<close>.
\<close>

unbundle bit_operations_syntax

subsection \<open>The program\<close>

definition utf8_length :: "string \<Rightarrow> nat" where
  "utf8_length s = length (filter (\<lambda>c. (of_char c :: u8) AND 0xC0 \<noteq> 0x80) s)"

record table_writer =
  table_headers :: "string list"
  table_rows :: "string list list"

text \<open>\<open>setw\<close> and \<open>setfill\<close> of a right adjusted stream.\<close>

definition padded :: "char \<Rightarrow> nat \<Rightarrow> string \<Rightarrow> string" where
  "padded fill width s = replicate (width - length s) fill @ s"

definition set_headers :: "string list \<Rightarrow> table_writer \<Rightarrow> table_writer" where
  "set_headers hs t = t\<lparr>table_headers := hs\<rparr>"

datatype table_cell = Text_cell string | Int_cell int

definition cell_to_string :: "table_cell \<Rightarrow> string" where
  "cell_to_string c = (case c of Text_cell s \<Rightarrow> s | Int_cell i \<Rightarrow> std_to_string i)"

definition add_row :: "table_cell list \<Rightarrow> table_writer \<Rightarrow> table_writer" where
  "add_row cs t = t\<lparr>table_rows := table_rows t @ [map cell_to_string cs]\<rparr>"

definition widen :: "string list \<Rightarrow> nat list \<Rightarrow> nat list" where
  "widen field widths = map2 (\<lambda>w s. if w < utf8_length s then utf8_length s else w) widths field"

definition compute_max_widths :: "table_writer \<Rightarrow> nat list" where
  "compute_max_widths t = fold widen (table_rows t) (map utf8_length (table_headers t))"

definition table_endl :: string where
  "table_endl = [CHR 0x0A]"

definition put_separator :: "nat list \<Rightarrow> string" where
  "put_separator max_widths = ''+'' @ concat (map (\<lambda>w. padded (CHR ''-'') (w + 2) ''-'' @ ''+'') max_widths) @ table_endl"

definition put_headers :: "nat list \<Rightarrow> string list \<Rightarrow> string" where
  "put_headers max_widths hs = ''|'' @ concat (map2 (\<lambda>w h. padded (CHR '' '') (w + 1) h @ '' |'') max_widths hs) @ table_endl"

definition put_row :: "nat list \<Rightarrow> string list \<Rightarrow> string" where
  "put_row max_widths row = ''|'' @ concat (map2 (\<lambda>w f. '' '' @ padded (CHR '' '') w f @ '' |'') max_widths row) @ table_endl"

definition flush_table :: "table_writer \<Rightarrow> string" where
  "flush_table t = (let max_widths = compute_max_widths t in
     put_separator max_widths @ put_headers max_widths (table_headers t) @ put_separator max_widths @
     concat (map (put_row max_widths) (table_rows t)) @ put_separator max_widths)"

definition write_table :: "string list \<Rightarrow> table_cell list list \<Rightarrow> string" where
  "write_table hs rows = flush_table (fold add_row rows (set_headers hs \<lparr>table_headers = [], table_rows = []\<rparr>))"

subsection \<open>Widths\<close>

definition ascii_text :: "string \<Rightarrow> bool" where
  "ascii_text s \<longleftrightarrow> (\<forall>c \<in> set s. (of_char c :: nat) < 128)"

lemma utf8_length_ascii: "ascii_text s \<Longrightarrow> utf8_length s = length s"
proof (induction s)
  case (Cons c s)
  have "(of_char c :: nat) < 128 \<Longrightarrow> (of_char c :: u8) AND 0xC0 \<noteq> 0x80"
  proof -
    assume "(of_char c :: nat) < 128"
    then have "\<not> digit7 c" by (cases c) (auto simp: of_char_def split: if_splits)
    then have "\<not> bit ((of_char c :: u8) AND 0xC0) 7" by (cases c) (simp add: bit_simps)
    moreover have "bit (0x80 :: u8) 7" by simp
    ultimately show ?thesis by metis
  qed
  then show ?case using Cons by (simp add: utf8_length_def ascii_text_def)
qed (simp add: utf8_length_def)

lemma utf8_length_le: "utf8_length s \<le> length s"
  by (simp add: utf8_length_def)

text \<open>The widths are the maxima of the columns.\<close>

lemma fold_widen_nil: "fold widen rows [] = []"
  by (induction rows) (simp_all add: widen_def)

lemma widen_nth: "i < length ws \<Longrightarrow> length row = length ws \<Longrightarrow> widen row ws ! i = max (ws ! i) (utf8_length (row ! i))"
  by (simp add: widen_def)

lemma widths_max:
  assumes "\<forall>row \<in> set rows. length row = length ws" "i < length ws"
  shows "length (fold widen rows ws) = length ws \<and>
    fold widen rows ws ! i = Max (insert (ws ! i) ((\<lambda>row. utf8_length (row ! i)) ` set rows))"
  using assms
proof (induction rows arbitrary: ws)
  case (Cons row rows)
  have len: "length (widen row ws) = length ws" using Cons.prems(1) by (simp add: widen_def)
  have "length (fold widen rows (widen row ws)) = length (widen row ws) \<and> fold widen rows (widen row ws) ! i =
      Max (insert (widen row ws ! i) ((\<lambda>row. utf8_length (row ! i)) ` set rows))"
    by (rule Cons.IH) (use Cons.prems len in auto)
  moreover have "widen row ws ! i = max (ws ! i) (utf8_length (row ! i))" using Cons.prems by (intro widen_nth) auto
  ultimately show ?case using len by (cases "rows = []") (simp_all add: max.assoc max.left_commute)
qed simp

subsection \<open>Lines\<close>

definition column_width :: "string list \<Rightarrow> table_cell list list \<Rightarrow> nat \<Rightarrow> nat" where
  "column_width hs rows i = Max (insert (length (hs ! i)) ((\<lambda>row. length (cell_to_string (row ! i))) ` set rows))"

lemma length_padded: "length s \<le> w \<Longrightarrow> length (padded c w s) = w"
  by (simp add: padded_def)

lemma blocks:
  assumes "length ws = length xs" "\<And>i. i < length xs \<Longrightarrow> length (f (ws ! i) (xs ! i)) = ws ! i + 3"
  shows "length (concat (map2 f ws xs)) = (\<Sum>i<length xs. ws ! i + 3)"
    "j < length xs \<Longrightarrow> \<exists>pre post. concat (map2 f ws xs) = pre @ f (ws ! j) (xs ! j) @ post \<and> length pre = (\<Sum>i<j. ws ! i + 3)"
proof -
  have len: "length (concat (map2 f (take j ws) (take j xs))) = (\<Sum>i<j. ws ! i + 3)" if "j \<le> length xs" for j
    using that
  proof (induction j)
    case (Suc j)
    then have "map2 f (take (Suc j) ws) (take (Suc j) xs) = map2 f (take j ws) (take j xs) @ [f (ws ! j) (xs ! j)]"
      using assms(1) by (simp add: take_Suc_conv_app_nth)
    then show ?case using Suc assms(2)[of j] by simp
  qed simp
  show "length (concat (map2 f ws xs)) = (\<Sum>i<length xs. ws ! i + 3)" using len[of "length xs"] assms(1) by simp
  assume j: "j < length xs"
  have "map2 f ws xs = map2 f (take j ws) (take j xs) @ f (ws ! j) (xs ! j) # map2 f (drop (Suc j) ws) (drop (Suc j) xs)"
    using j assms(1) id_take_nth_drop[of j "map2 f ws xs"] by (simp add: take_map drop_map take_zip drop_zip)
  then show "\<exists>pre post. concat (map2 f ws xs) = pre @ f (ws ! j) (xs ! j) @ post \<and> length pre = (\<Sum>i<j. ws ! i + 3)"
    using len[of j] j by (intro exI[of _ "concat (map2 f (take j ws) (take j xs))"] exI[of _ "concat (map2 f (drop (Suc j) ws) (drop (Suc j) xs))"]) simp
qed

lemma map2_const: "length ws = length xs \<Longrightarrow> map2 (\<lambda>w x. g w) ws xs = map g ws"
  by (induction ws xs rule: list_induct2) simp_all

definition separator_line :: "nat list \<Rightarrow> string" where
  "separator_line ws = ''+'' @ concat (map (\<lambda>w. padded (CHR ''-'') (w + 2) ''-'' @ ''+'') ws)"

definition header_line :: "nat list \<Rightarrow> string list \<Rightarrow> string" where
  "header_line ws hs = ''|'' @ concat (map2 (\<lambda>w h. padded (CHR '' '') (w + 1) h @ '' |'') ws hs)"

definition row_line :: "nat list \<Rightarrow> string list \<Rightarrow> string" where
  "row_line ws row = ''|'' @ concat (map2 (\<lambda>w f. '' '' @ padded (CHR '' '') w f @ '' |'') ws row)"

lemma line_lengths:
  assumes "length ws = length xs" "\<And>i. i < length xs \<Longrightarrow> length (xs ! i) \<le> ws ! i"
  shows "length (separator_line ws) = 1 + (\<Sum>i<length xs. ws ! i + 3)"
    "length (header_line ws xs) = 1 + (\<Sum>i<length xs. ws ! i + 3)"
    "length (row_line ws xs) = 1 + (\<Sum>i<length xs. ws ! i + 3)"
proof -
  show "length (separator_line ws) = 1 + (\<Sum>i<length xs. ws ! i + 3)"
    using blocks(1)[OF assms(1), of "\<lambda>w x. padded (CHR ''-'') (w + 2) ''-'' @ ''+''"]
    unfolding separator_line_def map2_const[OF assms(1)] by (simp add: length_padded)
  show "length (header_line ws xs) = 1 + (\<Sum>i<length xs. ws ! i + 3)"
    using blocks(1)[OF assms(1), of "\<lambda>w x. padded (CHR '' '') (w + 1) x @ '' |''"] assms(2)
    by (simp add: header_line_def length_padded le_SucI)
  show "length (row_line ws xs) = 1 + (\<Sum>i<length xs. ws ! i + 3)"
    using blocks(1)[OF assms(1), of "\<lambda>w x. '' '' @ padded (CHR '' '') w x @ '' |''"] assms(2)
    by (simp add: row_line_def length_padded)
qed

lemma row_cell:
  assumes "length ws = length xs" "\<And>i. i < length xs \<Longrightarrow> length (xs ! i) \<le> ws ! i" "j < length xs"
  shows "\<exists>pre post. row_line ws xs = pre @ xs ! j @ '' |'' @ post \<and>
    length pre + length (xs ! j) = 2 + (\<Sum>k<j. ws ! k + 3) + ws ! j"
proof -
  obtain pre post where "row_line ws xs = ''|'' @ pre @ ('' '' @ padded (CHR '' '') (ws ! j) (xs ! j) @ '' |'') @ post"
      "length pre = (\<Sum>k<j. ws ! k + 3)"
    using blocks(2)[OF assms(1), of "\<lambda>w x. '' '' @ padded (CHR '' '') w x @ '' |''" j] assms(2,3)
    by (auto simp: row_line_def length_padded)
  then show ?thesis using assms(2)[OF assms(3)]
    by (intro exI[of _ "''|'' @ pre @ '' '' @ replicate (ws ! j - length (xs ! j)) (CHR '' '')"] exI[of _ post])
      (simp add: padded_def)
qed

lemma max_widths:
  assumes "\<forall>row \<in> set rows. length row = length hs" "\<forall>h \<in> set hs. ascii_text h"
    "\<forall>row \<in> set rows. \<forall>c \<in> set row. ascii_text (cell_to_string c)"
  shows "fold widen (map (map cell_to_string) rows) (map utf8_length hs) = map (column_width hs rows) [0..<length hs]"
proof (rule nth_equalityI)
  let ?texts = "map (map cell_to_string) rows"
  have texts: "\<forall>row \<in> set ?texts. length row = length (map utf8_length hs)" using assms(1) by auto
  show len: "length (fold widen ?texts (map utf8_length hs)) = length (map (column_width hs rows) [0..<length hs])"
    using widths_max[OF texts, of 0] by (cases hs) (simp_all add: fold_widen_nil)
  fix i
  assume "i < length (fold widen ?texts (map utf8_length hs))"
  then have i: "i < length hs" using len by simp
  have cells: "utf8_length (cell_to_string (row ! i)) = length (cell_to_string (row ! i))" if "row \<in> set rows" for row
    using assms(1,3) that i by (intro utf8_length_ascii) (metis nth_mem)
  have "(\<lambda>row. utf8_length (row ! i)) ` set ?texts = (\<lambda>row. length (cell_to_string (row ! i))) ` set rows"
    using cells assms(1) i by (force simp: image_image intro!: image_cong)
  then show "fold widen ?texts (map utf8_length hs) ! i = map (column_width hs rows) [0..<length hs] ! i"
    using widths_max[OF texts, of i] i assms(2) utf8_length_ascii[of "hs ! i"] by (simp add: column_width_def)
qed

lemma write_table_lines:
  assumes "fold widen (map (map cell_to_string) rows) (map utf8_length hs) = ws"
  shows "write_table hs rows = concat (map (\<lambda>l. l @ table_endl) ([separator_line ws, header_line ws hs, separator_line ws] @
    map (row_line ws) (map (map cell_to_string) rows) @ [separator_line ws]))"
proof -
  have "fold add_row rs t = t\<lparr>table_rows := table_rows t @ map (map cell_to_string) rs\<rparr>" for rs t
    by (induction rs arbitrary: t) (simp_all add: add_row_def)
  then show ?thesis using assms
    by (simp add: write_table_def flush_table_def Let_def compute_max_widths_def set_headers_def put_separator_def
        put_headers_def put_row_def separator_line_def header_line_def row_line_def comp_def)
qed

text \<open>
  in a table of ASCII cells all lines have the same length, the one given by the longest cells of the columns, and every
  cell is printed in full, aligned with the right end of its column.
\<close>

theorem table_aligned:
  assumes "\<forall>row \<in> set rows. length row = length hs" "\<forall>h \<in> set hs. ascii_text h"
    "\<forall>row \<in> set rows. \<forall>c \<in> set row. ascii_text (cell_to_string c)"
  shows "\<exists>ls. write_table hs rows = concat (map (\<lambda>l. l @ table_endl) ls) \<and> length ls = length rows + 4 \<and>
    (\<forall>l \<in> set ls. length l = 1 + (\<Sum>i<length hs. column_width hs rows i + 3)) \<and>
    (\<forall>i < length rows. \<forall>j < length hs. \<exists>pre post. ls ! (i + 3) = pre @ cell_to_string (rows ! i ! j) @ '' |'' @ post \<and>
       length pre + length (cell_to_string (rows ! i ! j)) = 2 + (\<Sum>k<j. column_width hs rows k + 3) + column_width hs rows j)"
proof -
  let ?ws = "map (column_width hs rows) [0..<length hs]"
  let ?ls = "[separator_line ?ws, header_line ?ws hs, separator_line ?ws] @ map (row_line ?ws) (map (map cell_to_string) rows) @
    [separator_line ?ws]"
  have fits: "length (hs ! i) \<le> ?ws ! i" "row \<in> set rows \<Longrightarrow> length (map cell_to_string row ! i) \<le> ?ws ! i"
    if "i < length hs" for i row
    using that assms(1) by (simp_all add: column_width_def)
  have "length (separator_line ?ws) = 1 + (\<Sum>i<length hs. column_width hs rows i + 3)"
      "length (header_line ?ws hs) = 1 + (\<Sum>i<length hs. column_width hs rows i + 3)"
    using line_lengths(1,2)[of ?ws hs] fits(1) by simp_all
  moreover have "length (row_line ?ws (map cell_to_string row)) = 1 + (\<Sum>i<length hs. column_width hs rows i + 3)"
    if "row \<in> set rows" for row
    using line_lengths(3)[of ?ws "map cell_to_string row"] fits(2) assms(1) that by simp
  moreover have "\<exists>pre post. row_line ?ws (map cell_to_string (rows ! i)) = pre @ cell_to_string (rows ! i ! j) @ '' |'' @ post \<and>
       length pre + length (cell_to_string (rows ! i ! j)) = 2 + (\<Sum>k<j. column_width hs rows k + 3) + column_width hs rows j"
    if "i < length rows" "j < length hs" for i j
    using row_cell[of ?ws "map cell_to_string (rows ! i)" j] fits(2)[of _ "rows ! i"] assms(1) that by simp
  ultimately show ?thesis
    using write_table_lines[OF max_widths[OF assms]] by (intro exI[of _ ?ls]) (auto simp: nth_append)
qed

lemma table_aligned_witness:
  "\<exists>ls. write_table [''n'', ''word''] [[Text_cell ''10'', Text_cell ''a'']] = concat (map (\<lambda>l. l @ table_endl) ls) \<and> length ls = 5 \<and>
    (\<forall>l \<in> set ls. length l = 13)"
proof -
  let ?hs = "[''n'', ''word'']" and ?rows = "[[Text_cell ''10'', Text_cell ''a'']]"
  have width: "(\<Sum>i<length ?hs. column_width ?hs ?rows i + 3) = 12"
    by (simp add: column_width_def cell_to_string_def numeral_2_eq_2)
  have "\<exists>ls. write_table ?hs ?rows = concat (map (\<lambda>l. l @ table_endl) ls) \<and> length ls = length ?rows + 4 \<and>
      (\<forall>l \<in> set ls. length l = 1 + (\<Sum>i<length ?hs. column_width ?hs ?rows i + 3))"
    using table_aligned[of ?rows ?hs] by (simp add: ascii_text_def cell_to_string_def) blast
  then show ?thesis unfolding width by simp
qed

text \<open>Padding counts bytes: the line of a column with one two-byte character is shorter than the separators.\<close>

lemma table_not_aligned:
  "\<exists>sep head. write_table [[CHR 0xD0, CHR 0xBD]] [] = concat (map (\<lambda>l. l @ table_endl) [sep, head, sep, sep]) \<and>
     utf8_length sep = 5 \<and> utf8_length head = 4"
proof -
  let ?h = "[CHR 0xD0, CHR 0xBD]"
  have one: "utf8_length ?h = 1" by (simp add: utf8_length_def of_char_def)
  have "fold widen (map (map cell_to_string) []) (map utf8_length [?h]) = [1]" using one by simp
  from write_table_lines[OF this] have "write_table [?h] [] =
      concat (map (\<lambda>l. l @ table_endl) [separator_line [1], header_line [1] [?h], separator_line [1], separator_line [1]])" by simp
  moreover have "separator_line [1] = ''+---+''" "header_line [1] [?h] = ''|'' @ ?h @ '' |''"
    by (simp_all add: separator_line_def header_line_def padded_def numeral_2_eq_2)
  then have "utf8_length (separator_line [1]) = 5" "utf8_length (header_line [1] [?h]) = 4"
    by (simp_all add: utf8_length_def of_char_def)
  ultimately show ?thesis by blast
qed

end
