(* ===== verification/Optional_Class.thy ===== *)
theory Optional_Class
  imports Program_Refinement
begin

text \<open>
  The class \<open>Optional\<close> of \<^verbatim>\<open>yandex_tasks/containers/optional.hpp\<close>: a buffer in which an object lives or does not, and a flag. The store
  counts the objects constructed and destroyed. To assign to, read or destroy an object that is not alive is undefined
  behaviour, \<open>None\<close>; an object that is constructed over a living one is never destroyed.
\<close>

subsection \<open>The class\<close>

record 'a optional =
  data_object :: "'a option"
  defined_flag :: bool

record 'a opt_store =
  optionals :: "nat \<Rightarrow> 'a optional option"
  constructed :: nat
  destroyed :: nat

definition put_opt :: "nat \<Rightarrow> 'a optional \<Rightarrow> 'a opt_store \<Rightarrow> 'a opt_store" where
  "put_opt v this s = s\<lparr>optionals := (optionals s)(v \<mapsto> this)\<rparr>"

text \<open>Placement new followed by setting the flag.\<close>

definition construct :: "nat \<Rightarrow> 'a \<Rightarrow> 'a opt_store \<Rightarrow> 'a opt_store" where
  "construct v x s = (put_opt v \<lparr>data_object = Some x, defined_flag = True\<rparr> s)\<lparr>constructed := constructed s + 1\<rparr>"

definition assign_object :: "nat \<Rightarrow> 'a \<Rightarrow> 'a opt_store \<Rightarrow> 'a opt_store option" where
  "assign_object v x s = do {
     this \<leftarrow> optionals s v;
     _ \<leftarrow> data_object this;
     Some (put_opt v (this\<lparr>data_object := Some x\<rparr>) s) }"

definition copy_data :: "nat \<Rightarrow> 'a \<Rightarrow> 'a opt_store \<Rightarrow> 'a opt_store option" where
  "copy_data v elem s = do {
     this \<leftarrow> optionals s v;
     if \<not> defined_flag this then Some (construct v elem s) else assign_object v elem s }"

definition move_data :: "nat \<Rightarrow> 'a \<Rightarrow> 'a opt_store \<Rightarrow> 'a opt_store option" where
  "move_data v elem s = do {
     this \<leftarrow> optionals s v;
     Some (if \<not> defined_flag this then construct v elem s else s) }"

definition reset_optional :: "nat \<Rightarrow> 'a opt_store \<Rightarrow> 'a opt_store option" where
  "reset_optional v s = do {
     this \<leftarrow> optionals s v;
     if defined_flag this then do {
       _ \<leftarrow> data_object this;
       Some ((put_opt v \<lparr>data_object = None, defined_flag = False\<rparr> s)\<lparr>destroyed := destroyed s + 1\<rparr>) }
     else Some s }"

definition copy_optional :: "nat \<Rightarrow> nat \<Rightarrow> 'a opt_store \<Rightarrow> 'a opt_store option" where
  "copy_optional v w s = do {
     other \<leftarrow> optionals s w;
     if defined_flag other then do { x \<leftarrow> data_object other; copy_data v x s } else reset_optional v s }"

definition move_optional :: "nat \<Rightarrow> nat \<Rightarrow> 'a opt_store \<Rightarrow> 'a opt_store option" where
  "move_optional v w s = do {
     other \<leftarrow> optionals s w;
     if defined_flag other then do { x \<leftarrow> data_object other; move_data v x s } else reset_optional v s }"

definition Optional_default :: "nat \<Rightarrow> 'a opt_store \<Rightarrow> 'a opt_store" where
  "Optional_default v s = put_opt v \<lparr>data_object = None, defined_flag = False\<rparr> s"

definition Optional_value :: "nat \<Rightarrow> 'a \<Rightarrow> 'a opt_store \<Rightarrow> 'a opt_store option" where
  "Optional_value v elem s = copy_data v elem (Optional_default v s)"

definition Optional_moved :: "nat \<Rightarrow> 'a \<Rightarrow> 'a opt_store \<Rightarrow> 'a opt_store option" where
  "Optional_moved v elem s = move_data v elem (Optional_default v s)"

definition Optional_copy :: "nat \<Rightarrow> nat \<Rightarrow> 'a opt_store \<Rightarrow> 'a opt_store option" where
  "Optional_copy v w s = copy_optional v w (Optional_default v s)"

definition assign_optional :: "nat \<Rightarrow> nat \<Rightarrow> 'a opt_store \<Rightarrow> 'a opt_store option" where
  "assign_optional v w s = (if v \<noteq> w then copy_optional v w s else Some s)"

definition assign_value :: "nat \<Rightarrow> 'a \<Rightarrow> 'a opt_store \<Rightarrow> 'a opt_store option" where
  "assign_value v elem s = copy_data v elem s"

definition assign_moved :: "nat \<Rightarrow> 'a \<Rightarrow> 'a opt_store \<Rightarrow> 'a opt_store option" where
  "assign_moved v elem s = do {
     this \<leftarrow> optionals s v;
     if \<not> defined_flag this then move_data v elem s else assign_object v elem s }"

definition Optional_dtor :: "nat \<Rightarrow> 'a opt_store \<Rightarrow> 'a opt_store option" where
  "Optional_dtor v s = do { s \<leftarrow> reset_optional v s; Some (s\<lparr>optionals := (optionals s)(v := None)\<rparr>) }"

definition has_value :: "nat \<Rightarrow> 'a opt_store \<Rightarrow> bool option" where
  "has_value v s = map_option defined_flag (optionals s v)"

text \<open>\<open>ensure_defined\<close> throws \<open>BadOptionalAccess\<close>.\<close>

definition optional_get :: "nat \<Rightarrow> 'a opt_store \<Rightarrow> (unit + 'a) option" where
  "optional_get v s = do {
     this \<leftarrow> optionals s v;
     if \<not> defined_flag this then Some (Inl ()) else map_option Inr (data_object this) }"

subsection \<open>Client programs\<close>

datatype 'a opt_command =
    Opt_default nat | Opt_value nat 'a | Opt_moved nat 'a | Opt_copy nat nat | Opt_assign nat nat
  | Opt_assign_value nat 'a | Opt_assign_moved nat 'a | Opt_reset nat | Opt_destroy nat

definition run_opt :: "'a opt_command \<Rightarrow> 'a opt_store \<Rightarrow> 'a opt_store option" where
  "run_opt cmd s = (case cmd of
      Opt_default v \<Rightarrow> Some (Optional_default v s)
    | Opt_value v x \<Rightarrow> Optional_value v x s
    | Opt_moved v x \<Rightarrow> Optional_moved v x s
    | Opt_copy v w \<Rightarrow> Optional_copy v w s
    | Opt_assign v w \<Rightarrow> assign_optional v w s
    | Opt_assign_value v x \<Rightarrow> assign_value v x s
    | Opt_assign_moved v x \<Rightarrow> assign_moved v x s
    | Opt_reset v \<Rightarrow> reset_optional v s
    | Opt_destroy v \<Rightarrow> Optional_dtor v s)"

definition no_optionals :: "'a opt_store" where
  "no_optionals = \<lparr>optionals = (\<lambda>_. None), constructed = 0, destroyed = 0\<rparr>"

type_synonym 'a opt_values = "nat \<Rightarrow> 'a option option"

definition opt_meaning :: "'a opt_command \<Rightarrow> 'a opt_values \<Rightarrow> 'a opt_values" where
  "opt_meaning cmd h = (case cmd of
      Opt_default v \<Rightarrow> h(v \<mapsto> None)
    | Opt_value v x \<Rightarrow> h(v \<mapsto> Some x)
    | Opt_moved v x \<Rightarrow> h(v \<mapsto> Some x)
    | Opt_copy v w \<Rightarrow> h(v := h w)
    | Opt_assign v w \<Rightarrow> h(v := h w)
    | Opt_assign_value v x \<Rightarrow> h(v \<mapsto> Some x)
    | Opt_assign_moved v x \<Rightarrow> h(v \<mapsto> Some x)
    | Opt_reset v \<Rightarrow> h(v \<mapsto> None)
    | Opt_destroy v \<Rightarrow> h(v := None))"

definition opt_legal :: "'a opt_command \<Rightarrow> 'a opt_values \<Rightarrow> bool" where
  "opt_legal cmd h = (case cmd of
      Opt_default v \<Rightarrow> h v = None
    | Opt_value v x \<Rightarrow> h v = None
    | Opt_moved v x \<Rightarrow> h v = None
    | Opt_copy v w \<Rightarrow> h v = None \<and> h w \<noteq> None
    | Opt_assign v w \<Rightarrow> h v \<noteq> None \<and> h w \<noteq> None
    | Opt_assign_value v x \<Rightarrow> h v \<noteq> None
    | Opt_assign_moved v x \<Rightarrow> h v \<noteq> None
    | Opt_reset v \<Rightarrow> h v \<noteq> None
    | Opt_destroy v \<Rightarrow> h v \<noteq> None)"

subsection \<open>The objects alive are the values\<close>

definition opt_values_of :: "'a opt_store \<Rightarrow> 'a opt_values" where
  "opt_values_of s v = map_option data_object (optionals s v)"

definition full :: "'a opt_values \<Rightarrow> nat set" where
  "full h = {v. \<exists>x. h v = Some (Some x)}"

definition opt_ok :: "'a opt_store \<Rightarrow> bool" where
  "opt_ok s \<longleftrightarrow> (\<forall>v this. optionals s v = Some this \<longrightarrow> defined_flag this = (data_object this \<noteq> None)) \<and>
     finite (full (opt_values_of s)) \<and> constructed s = destroyed s + card (full (opt_values_of s))"

lemma full_update:
  "full (h(v := r)) = (if \<exists>x. r = Some (Some x) then insert v (full h) else full h - {v})"
  by (auto simp: full_def)

lemma values_put: "opt_values_of (put_opt v this s) = (opt_values_of s)(v \<mapsto> data_object this)"
  by (auto simp: opt_values_of_def put_opt_def fun_eq_iff)

lemma values_upd [simp]:
  "opt_values_of (s\<lparr>constructed := n\<rparr>) = opt_values_of s" "opt_values_of (s\<lparr>destroyed := n\<rparr>) = opt_values_of s"
  "opt_values_of (s\<lparr>optionals := (optionals s)(v := None)\<rparr>) = (opt_values_of s)(v := None)"
  by (auto simp: opt_values_of_def fun_eq_iff)

lemma put_upd [simp]:
  "constructed (put_opt v this s) = constructed s" "destroyed (put_opt v this s) = destroyed s"
  "optionals (put_opt v this s) = (optionals s)(v \<mapsto> this)"
  by (simp_all add: put_opt_def)

lemma in_full: "optionals s v = Some this \<Longrightarrow> v \<in> full (opt_values_of s) \<longleftrightarrow> data_object this \<noteq> None"
  by (auto simp: full_def opt_values_of_def)

lemma opt_flag: "opt_ok s \<Longrightarrow> optionals s v = Some this \<Longrightarrow> defined_flag this = (data_object this \<noteq> None)"
  by (auto simp: opt_ok_def)

text \<open>The three ways in which a member changes the state.\<close>

lemma construct_ok:
  assumes "opt_ok s" "v \<notin> full (opt_values_of s)"
  shows "opt_ok (construct v x s)" "opt_values_of (construct v x s) = (opt_values_of s)(v \<mapsto> Some x)"
  using assms by (auto simp: opt_ok_def construct_def values_put full_update)

lemma assign_object_ok:
  assumes "opt_ok s" "optionals s v = Some this" "data_object this = Some y"
  shows "\<exists>t. assign_object v x s = Some t \<and> opt_ok t \<and> opt_values_of t = (opt_values_of s)(v \<mapsto> Some x)"
proof -
  have "v \<in> full (opt_values_of s)" using in_full[OF assms(2)] assms(3) by simp
  then show ?thesis
    using assms opt_flag[OF assms(1,2)]
    by (auto simp: assign_object_def opt_ok_def values_put full_update insert_absorb)
qed

lemma reset_ok:
  assumes "opt_ok s" "optionals s v = Some this"
  shows "\<exists>t. reset_optional v s = Some t \<and> opt_ok t \<and> opt_values_of t = (opt_values_of s)(v \<mapsto> None) \<and> optionals t v \<noteq> None"
proof (cases "data_object this")
  case None
  then have "\<not> defined_flag this" "(opt_values_of s)(v \<mapsto> None) = opt_values_of s"
    using opt_flag[OF assms] assms(2) by (auto simp: opt_values_of_def)
  then show ?thesis using assms by (simp add: reset_optional_def)
next
  case (Some x)
  then have full: "v \<in> full (opt_values_of s)" using in_full[OF assms(2)] by simp
  then have "card (full (opt_values_of s)) = card (full (opt_values_of s) - {v}) + 1"
    using assms(1) by (simp add: opt_ok_def card_Suc_Diff1 del: card_Diff_insert)
  then show ?thesis
    using assms Some opt_flag[OF assms] by (auto simp: reset_optional_def opt_ok_def values_put full_update)
qed

lemma copy_data_ok:
  assumes "opt_ok s" "optionals s v = Some this"
  shows "\<exists>t. copy_data v x s = Some t \<and> opt_ok t \<and> opt_values_of t = (opt_values_of s)(v \<mapsto> Some x)"
proof (cases "data_object this")
  case None
  then show ?thesis
    using construct_ok[OF assms(1), of v x] in_full[OF assms(2)] opt_flag[OF assms] assms(2) by (simp add: copy_data_def)
next
  case (Some y)
  then show ?thesis using assign_object_ok[OF assms Some] opt_flag[OF assms] assms(2) by (simp add: copy_data_def)
qed

lemma optional_default_ok:
  assumes "opt_ok s" "optionals s v = None"
  shows "opt_ok (Optional_default v s)" "opt_values_of (Optional_default v s) = (opt_values_of s)(v \<mapsto> None)"
    "optionals (Optional_default v s) v = Some \<lparr>data_object = None, defined_flag = False\<rparr>"
proof -
  have "v \<notin> full (opt_values_of s)" using assms(2) by (simp add: full_def opt_values_of_def)
  then show "opt_ok (Optional_default v s)" "opt_values_of (Optional_default v s) = (opt_values_of s)(v \<mapsto> None)"
    "optionals (Optional_default v s) v = Some \<lparr>data_object = None, defined_flag = False\<rparr>"
    using assms by (auto simp: Optional_default_def opt_ok_def values_put full_update)
qed

lemma copy_optional_ok:
  assumes "opt_ok s" "optionals s v = Some this" "opt_values_of s w = Some r"
  shows "\<exists>t. copy_optional v w s = Some t \<and> opt_ok t \<and> opt_values_of t = (opt_values_of s)(v \<mapsto> r)"
proof -
  obtain other where other: "optionals s w = Some other" "data_object other = r"
    using assms(3) by (auto simp: opt_values_of_def)
  then show ?thesis
    using opt_flag[OF assms(1) other(1)] copy_data_ok[OF assms(1,2)] reset_ok[OF assms(1,2)]
    by (cases r) (fastforce simp: copy_optional_def)+
qed

lemma opt_command_step:
  assumes ok: "opt_ok s" and legal: "opt_legal cmd (opt_values_of s)"
  shows "\<exists>t. run_opt cmd s = Some t \<and> opt_ok t \<and> opt_values_of t = opt_meaning cmd (opt_values_of s)"
proof (cases cmd)
  case (Opt_default v)
  then show ?thesis using optional_default_ok[OF ok, of v] legal by (auto simp: run_opt_def opt_meaning_def opt_legal_def opt_values_of_def)
next
  case (Opt_value v x)
  then have "optionals s v = None" using legal by (auto simp: opt_legal_def opt_values_of_def)
  then show ?thesis
    using copy_data_ok[OF optional_default_ok(1,3)[OF ok], of v x] optional_default_ok(2)[OF ok, of v] Opt_value
    by (simp add: run_opt_def opt_meaning_def Optional_value_def)
next
  case (Opt_moved v x)
  then have new: "optionals s v = None" using legal by (auto simp: opt_legal_def opt_values_of_def)
  then have "v \<notin> full (opt_values_of (Optional_default v s))" using optional_default_ok(2)[OF ok] by (simp add: full_def)
  then show ?thesis
    using construct_ok[OF optional_default_ok(1)[OF ok new], of v x] optional_default_ok(2,3)[OF ok new] Opt_moved
    by (simp add: run_opt_def opt_meaning_def Optional_moved_def move_data_def)
next
  case (Opt_copy v w)
  then obtain r where r: "optionals s v = None" "opt_values_of s w = Some r"
    using legal by (auto simp: opt_legal_def opt_values_of_def)
  then have "w \<noteq> v" by (auto simp: opt_values_of_def)
  note r = r this
  then show ?thesis
    using copy_optional_ok[OF optional_default_ok(1,3)[OF ok r(1)], of w r] optional_default_ok(2)[OF ok r(1)] Opt_copy
    by (simp add: run_opt_def opt_meaning_def Optional_copy_def)
next
  case (Opt_assign v w)
  then obtain this r where "optionals s v = Some this" "opt_values_of s w = Some r"
    using legal by (auto simp: opt_legal_def opt_values_of_def)
  then show ?thesis
    using copy_optional_ok[OF ok] Opt_assign ok by (fastforce simp: run_opt_def opt_meaning_def assign_optional_def)
next
  case (Opt_assign_value v x)
  then obtain this where "optionals s v = Some this" using legal by (auto simp: opt_legal_def opt_values_of_def)
  then show ?thesis using copy_data_ok[OF ok] Opt_assign_value by (simp add: run_opt_def opt_meaning_def assign_value_def)
next
  case (Opt_assign_moved v x)
  then obtain this where v: "optionals s v = Some this" using legal by (auto simp: opt_legal_def opt_values_of_def)
  then show ?thesis
    using construct_ok[OF ok, of v x] assign_object_ok[OF ok v, of _ x] in_full[OF v] opt_flag[OF ok v] Opt_assign_moved
    by (cases "data_object this") (auto simp: run_opt_def opt_meaning_def assign_moved_def move_data_def)
next
  case (Opt_reset v)
  then obtain this where "optionals s v = Some this" using legal by (auto simp: opt_legal_def opt_values_of_def)
  then show ?thesis using reset_ok[OF ok] Opt_reset by (fastforce simp: run_opt_def opt_meaning_def)
next
  case (Opt_destroy v)
  then obtain this where "optionals s v = Some this" using legal by (auto simp: opt_legal_def opt_values_of_def)
  then obtain t where t: "reset_optional v s = Some t" "opt_ok t" "opt_values_of t = (opt_values_of s)(v \<mapsto> None)"
    using reset_ok[OF ok] by blast
  have "v \<notin> full (opt_values_of t)" using t(3) by (simp add: full_def)
  then have "opt_ok (t\<lparr>optionals := (optionals t)(v := None)\<rparr>)" using t(2) by (auto simp: opt_ok_def full_update)
  then show ?thesis using t Opt_destroy by (simp add: run_opt_def opt_meaning_def Optional_dtor_def)
qed

interpretation optionals: command_refinement run_opt opt_meaning opt_legal opt_ok opt_values_of
  by unfold_locales (rule opt_command_step)

text \<open>
  a program that constructs and destroys its optionals properly never touches an object that is not alive; every
  optional holds the value that the program describes; and each object constructed has been destroyed once,
  except for those still held.
\<close>

theorem optionals_hold_values:
  fixes cmds :: "'a opt_command list"
  assumes "legal_all opt_meaning opt_legal cmds (\<lambda>_. None)"
  shows "\<exists>s. run_all run_opt cmds no_optionals = Some s \<and> opt_values_of s = spec_all opt_meaning cmds (\<lambda>_. None) \<and>
    constructed s = destroyed s + card {v. \<exists>x. opt_values_of s v = Some (Some x)} \<and>
    (\<forall>v this. optionals s v = Some this \<longrightarrow> defined_flag this = (data_object this \<noteq> None))"
proof -
  have "opt_ok (no_optionals :: 'a opt_store)" "opt_values_of (no_optionals :: 'a opt_store) = (\<lambda>_. None)"
    by (simp_all add: opt_ok_def no_optionals_def opt_values_of_def full_def fun_eq_iff)
  then obtain s where s: "run_all run_opt cmds no_optionals = Some s" "opt_ok s"
      "opt_values_of s = spec_all opt_meaning cmds (\<lambda>_. None)"
    using optionals.program[of no_optionals cmds] assms by auto
  then show ?thesis
    by (intro exI[of _ s]) (simp add: opt_ok_def full_def)
qed

lemma optionals_hold_values_witness:
  "\<exists>s. run_all run_opt [Opt_value 1 (7::int), Opt_copy 2 1, Opt_assign_moved 1 8, Opt_reset 2, Opt_destroy 1] no_optionals = Some s \<and>
     constructed s = destroyed s"
proof -
  let ?cmds = "[Opt_value 1 (7::int), Opt_copy 2 1, Opt_assign_moved 1 8, Opt_reset 2, Opt_destroy 1]"
  have "legal_all opt_meaning opt_legal ?cmds (\<lambda>_. None)" by (simp add: opt_meaning_def opt_legal_def)
  from optionals_hold_values[OF this] obtain s where s: "run_all run_opt ?cmds no_optionals = Some s"
      "opt_values_of s = spec_all opt_meaning ?cmds (\<lambda>_. None)"
      "constructed s = destroyed s + card {v. \<exists>x. opt_values_of s v = Some (Some x)}" by blast
  have "{v. \<exists>x. opt_values_of s v = Some (Some x)} = {}" by (auto simp: s(2) opt_meaning_def split: if_splits)
  then show ?thesis using s by (metis card.empty add_0_right)
qed

text \<open>The private member \<open>move\<close> into an optional that has a value keeps the old value.\<close>

lemma move_keeps_old_value:
  assumes "optionals s v = Some \<lparr>data_object = Some x, defined_flag = True\<rparr>"
    "optionals s w = Some \<lparr>data_object = Some y, defined_flag = True\<rparr>"
  shows "move_optional v w s = Some s"
  using assms by (simp add: move_optional_def move_data_def)

end
