(* ===== verification/Spec2Isabelle.thy ===== *)
theory Spec2Isabelle
  imports Linked_List_Tests Md5_Correct Sha2_Correct Crc32 Ssa_Props Query_Props Lru_Cache
    Bucket_Hashmap Json_Props Binary_Tree Leetcode
    Suffix_Automaton_Props Sorting_Correct Dijkstra Polynomial_Correct
    Postfix_Translator Expression_Tree Open_Addressing Prim_Correct Tree_Programs
    Finite_Automata_Correct Strassen Task_Queue_Props Shared_Ptr_Correct Numvec_Correct
    Common_Subsequence Shell_Sort Json_Formatter Stream_Programs
    Lightning_Crc Roman_Numerals Bi_Map Table_Writer Optional_Class
begin

text \<open>
  \<^bold>\<open>A verification of the C++ programs of the notes repository.\<close>

  The repository is a collection of dated notes. Its C++ programs are independent of each other; the
  ones with logic of their own are modelled here, one group of theories each, over a common prelude.

  \<^bold>\<open>Conventions\<close> (\<open>Prelude\<close>). Machine integers whose wrap-around matters are words; counters that are
  bounded by the size of an object in memory are natural numbers or integers. Undefined behaviour, an
  access through a dangling or null pointer, an index outside an array and a loop that does not
  end are all \<open>None\<close>, so that a theorem with \<open>Some\<close> on the right says that the code is safe and returns.
  Exceptions that the code throws are the left summand of a sum type. Loops are structural recursion
  where the code walks a range, recursion with a termination proof, or \<open>partial_function (option)\<close> where
  the code may run for ever; the depth first searches of the graph code carry fuel, one more than the
  number of blocks, which the search theorems show to be enough.

  \<^bold>\<open>Doubly linked list\<close>, \<open>2022-02-16-doubly-linked-list/list.cpp\<close>: \<open>Linked_List\<close> has the heap of nodes, the
  list object, the iterators and all members; \<open>Linked_List_Correct\<close> and \<open>Linked_List_Ranges\<close> the chain
  predicate and the lemmas on single operations and on loops over ranges; \<open>Linked_List_Props\<close> the
  refinement of an abstract sequence by arbitrary client programs, insertion, erasure, sorting,
  copying, moving, destruction without leaks, and the early return of \<open>assign\<close>; \<open>Linked_List_Tests\<close> the test
  program of the file.

  \<^bold>\<open>Hash functions\<close>, \<open>2021-09-18-MD5/md5.hpp\<close>, \<open>2022-03-19-SHA2\<close>, \<open>2022-03-19-CRC-32/crc32.hpp\<close>: \<open>Block_Stream\<close> is
  the interface of a block based digest (a locale that the three digests interpret) with the
  argument that piecewise updates equal one update of the concatenation; \<open>Md5\<close>, \<open>Sha2\<close> and \<open>Crc32\<close>
  model the code, \<open>Md5_Correct\<close> and \<open>Sha2_Correct\<close> show that it computes the digest of the message
  padded as the standards ask, for messages below \<open>2 ^ 32\<close> bytes, and where SHA-384 and SHA-512 lose a block.
  \<open>Crc32\<close> relates the table driven code to the shift register and shows that bursts of four bytes are detected.

  \<^bold>\<open>SSA construction\<close>, \<open>2022-03-17-SSA-form-implementation/main.cpp\<close>: \<open>Ssa\<close> has the syntax trees, the control flow
  graph and its analyses, \<open>Ssa_Builder\<close> the construction of the graph, phi insertion, renaming, the
  dump and \<open>main\<close>. \<open>Dominance\<close> is the theory of dominators and frontiers over all walks of a graph;
  \<open>Ssa_Dfs\<close> the searches, \<open>Ssa_Dominators\<close> and \<open>Ssa_Frontier\<close> the computed trees and frontiers, \<open>Ssa_Graph\<close> the
  invariant of the builder, \<open>Ssa_Phi\<close>, \<open>Ssa_Symbols\<close> and \<open>Ssa_Rename\<close> phi placement and numbering; the
  properties are in \<open>Ssa_Props\<close>. The uninitialised pointer of the entry block is an argument of the
  model. Sets of block pointers are ordered by allocation, and the children of syntax nodes are not null.

  \<^bold>\<open>Query library\<close>, \<open>Sandbox/query.hpp\<close>: \<open>Query\<close> follows the classes of the header; a container is its template and its
  elements in iteration order. \<open>Query_Correct\<close> states the interface of an insertion (locale \<open>collector\<close>) and the
  contents a container must have; \<open>Query_Props\<close> shows that a chain of calls computes the meaning of the query
  while no step selects nothing, what happens otherwise, and that casts can be undone.

  \<^bold>\<open>LRU cache\<close>, \<open>2021-11-29-LRU-cache/lru_cache.cpp\<close>: \<open>Lru_Cache\<close>, the agreement of the list and the page map, the
  refinement of the abstract recency list, the contents and fault counts after any sequence of calls.

  \<^bold>\<open>Bucket hash map\<close>, \<open>2022-04-04-bucket-hashmap/main.cpp\<close>: \<open>Bucket_Hashmap\<close>, for an arbitrary hash function, correct
  as a map (locale \<open>map_store\<close>) until the first rehash, and the loss of entries by a rehash.

  \<^bold>\<open>JSON reader\<close>, \<open>Sandbox/parser.hpp\<close>: \<open>Json_Parser\<close> the code, \<open>Json_Correct\<close> the abstract syntax and the
  lemmas on words and tokens, \<open>Json_Props\<close> the round trips through tokens and text, lookups, escapes, and the
  inputs on which the reader does not answer.

  \<^bold>\<open>Balance check\<close>, \<open>yandex_tasks/trees/avl.cpp\<close>: \<open>Binary_Tree\<close>, the search tree built from the input and the
  decision whether it is balanced.

  \<^bold>\<open>Suffix automaton\<close>, \<open>Sandbox/suffix_automaton.hpp\<close>: \<open>Suffix_Automaton\<close> the states, the construction and the queries;
  \<open>Factors\<close> the combinatorics of end positions and maximal words; \<open>Suffix_Automaton_Correct\<close> the invariant of the
  construction, in which states are labelled by maximal words, and that adding a symbol keeps it, with or
  without cloning a state; \<open>Suffix_Automaton_Props\<close> that the construction returns for every text and that \<open>contains\<close>,
  \<open>first\<close> and repeated calls of \<open>positions\<close> answer correctly, and that the numbers in the states stay below twice the length of
  the text plus one (\<open>automaton_numbers\<close>). Members that a constructor leaves unset are an argument.

  \<^bold>\<open>Sorting\<close>, \<open>Sandbox/sort.hpp\<close>: \<open>Sorting_Routines\<close> the five routines on ranges of an array, \<open>Sorting_Correct\<close> their
  contract (locale \<open>sorting_routine\<close>, interpreted by all of them) and that they compute the sorted range.

  \<^bold>\<open>Dijkstra\<close>, \<open>Sandbox/dijkstra.hpp\<close>: \<open>Dijkstra\<close>, the search on a matrix of weights, correct against all routes, and the
  comparison with a fixed answer at its end.

  \<^bold>\<open>Polynomials\<close>, \<open>Sandbox/polynomial.hpp\<close>: \<open>Polynomial\<close> the class at coefficients of type \<open>int\<close>, with
  signed overflow as undefined behaviour, \<open>Polynomial_Correct\<close> its sums, differences and products, exact division as the
  inverse of multiplication for coefficients that do not overflow, and the derivative that is never defined.

  \<^bold>\<open>Prim's algorithm\<close>, \<open>2022-05-28-Prim-algorithm/main.cpp\<close>: \<open>Prim\<close> the program, \<open>Spanning_Tree\<close> spanning trees of
  weighted graphs and the exchange of edges, \<open>Prim_Correct\<close> the invariant of the search and that the printed
  tree has the least weight of all spanning trees.

  \<^bold>\<open>Open addressing hash map\<close>, \<open>Sandbox/hashmap_open_addressing.hpp\<close>: \<open>Open_Addressing\<close>, for an arbitrary hash function and
  with the wrap-around of the probe sum; the invariant of the probe sequences, the exact effect of every call
  on the bag of keys (locale \<open>refusing_bag\<close>) in all sequences of calls, and the key in slot 0 that cannot be removed.

  \<^bold>\<open>Expressions\<close>: \<open>Infix_Parser\<close> (\<open>2021-12-25-associative-operators-parser/parser.cpp\<close>), what the parser prints or throws for
  every input; \<open>Postfix_Translator\<close> (\<open>2021-11-11-postfix-exprs-parser/parser.cpp\<close>), the postfix form evaluated by a
  stack machine, and the lookahead that \<open>main\<close> loses; \<open>Expression_Tree\<close> (\<open>yandex_tasks/other/expression.h\<close>), the text of an
  expression read back to its value. The base class of the latter is not in the repository.

  \<^bold>\<open>Finite automata\<close>, \<open>Sandbox/finite_automata.hpp\<close>: \<open>Finite_Automata\<close> the class, the splitting of texts and the two
  interactive programs; \<open>Finite_Automata_Correct\<close> the transition function behind the maps, the words of a text,
  and the programs as dialogs with a few phases (locale \<open>dialog_program\<close>): when they end, with which last line,
  and that they can always be ended.

  \<^bold>\<open>Matrix multiplication\<close>, \<open>Sandbox/strassen_algorithm.hpp\<close>: \<open>Strassen\<close>, matrices with cells that may be unwritten, the equality
  of Strassen's and of the plain product for sizes that are powers of two, and the unwritten row for odd sizes.

  \<^bold>\<open>Tree programs\<close>, \<open>yandex_tasks/trees\<close>: \<open>Tree_Programs\<close>, what the programs built on the tree of \<open>Binary_Tree\<close> print:
  leaves, inner nodes, height, the second largest number and the number of repetitions.

  \<^bold>\<open>Task queue\<close>, \<open>Sandbox/task_queue.hpp\<close>: \<open>Task_Queue\<close>, a transition system with one program counter for the client and one for
  every worker; each access to the mutex, the condition variable and an atomic flag is a step, a condition variable may
  wake without reason, and an unlock by a thread that does not hold the mutex is recorded as undefined
  behaviour. \<open>Task_Queue_Correct\<close> has the invariant of all interleavings, \<open>Task_Queue_Props\<close> the order and the single
  execution of the tasks, the completion promised by \<open>wait_for_completion\<close>, the bound on the steps of \<open>stop\<close>, the schedule in
  which \<open>stop\<close> misses a worker, and the second unlock of \<open>push_void_task\<close>. There is one client thread, and tasks do not call the queue.

  \<^bold>\<open>Owning classes\<close>: \<open>Program_Refinement\<close> lifts a contract on single commands (locale \<open>command_refinement\<close>) to client programs;
  \<open>Shared_Ptr\<close> and \<open>Shared_Ptr_Correct\<close> (\<open>yandex_tasks/containers/shared_ptr.cpp\<close>) interpret it for shared pointers, \<open>Numvec\<close> and
  \<open>Numvec_Correct\<close> (\<open>Sandbox/vector.hpp\<close>) for vectors: legal programs have no dangling access and no double deletion, and objects,
  counters and arrays live exactly as long as they have owners. The members outside these contracts are
  shown to fail.

  \<^bold>\<open>Text and files\<close>: \<open>Json_Formatter\<close> (\<open>formatjson\<close>), the formatted text read back without colours and layout; \<open>Stream_Programs\<close>
  (\<open>yandex_tasks/other\<close>), the buffered writer, the file format of the model class, the document collection.

  \<^bold>\<open>Further algorithms\<close>: \<open>Common_Subsequence\<close> (\<open>2022-05-22-longest-common-subsequence/lcs.cpp\<close>), the table against the
  recursive length of a longest common subsequence, and the unwritten cells it reads for a long second argument;
  \<open>Shell_Sort\<close> (\<open>Sandbox/shell_sort.hpp\<close>), four sequences of gaps, the sizes up to which those computed with \<open>pow\<close> are integers
  (fuel 6 and 4, one more than the number of gaps below that size), and the sorted result.

  \<^bold>\<open>Smaller programs\<close>: \<open>Max_Subarray\<close> (\<open>2022-02-22-maximum-subarray/main.cpp\<close>), the best segment of an array by
  divide and conquer; \<open>Leetcode\<close> (\<open>2022-02-06-leetcode-solutions\<close>), balanced brackets and the two-sum search;
  \<open>Roman_Numerals\<close> (the same directory), the value of every usual roman numeral; \<open>Lightning_Crc\<close>
  (\<open>lightning/src/Lightning/Hash\<close>), the three checksums of that library against their shift registers, for ASCII strings or,
  with 32 bits, all strings; \<open>Bi_Map\<close> (\<open>Sandbox/bi_map.hpp\<close>), lookups after any insertions; \<open>Table_Writer\<close>
  (\<open>Sandbox/table_writer.hpp\<close>), the aligned lines of a table of ASCII cells; \<open>Optional_Class\<close>
  (\<open>yandex_tasks/containers/optional.hpp\<close>), a third interpretation of \<open>command_refinement\<close>: values and living objects.

  \<^bold>\<open>Not modelled.\<close> Third-party and generated code (\<open>AudioFile.hpp\<close>, \<open>lex.yy.c\<close>), the older copies of the programs
  above in the Sandbox, kernel modules, and programs that consist of calls to the operating system,
  a network, a window system, a database or a scripting engine; of the modelled programs, console output,
  the reading of files, floating point conversion and, in the query library, the unordered containers, whose
  iteration order is not specified. Still open: the older matrix
  classes of the Sandbox, its loggers, and the remaining exercises of \<open>yandex_tasks\<close>.
\<close>

end
